(* ===== verification/Prelude.thy ===== *)
theory Prelude
  imports Main "HOL-Library.Word" "HOL-Library.Monad_Syntax"
begin

unbundle bit_operations_syntax

text \<open>
  Shared vocabulary of the development: the machine integer types of the Rust sources, bounds
  checked table access (a Rust index out of range panics, which is the value \<open>None\<close> of the option
  monad), checked and saturating arithmetic, the representation predicate \<open>dl\<close> for doubly linked
  lists threaded through an index arena (the derivation tree's sibling lists and the scheduler's
  ready lists both use it), and the generic transition-system locale \<open>step_system\<close> through which
  every component lifts its one-step invariant to reachable states.
\<close>

section \<open>Types and collections\<close>

type_synonym u8 = "8 word"
type_synonym u16 = "16 word"
type_synonym u32 = "32 word"
type_synonym u64 = "64 word"

named_theorems table_simps \<open>bounds checked table access\<close>
named_theorems dl_simps \<open>doubly linked chains\<close>

section \<open>Table access that panics out of range\<close>

text \<open>
  \<open>tget xs i\<close> is \<open>xs.get(i)\<close>, and also \<open>xs[i]\<close> where \<open>None\<close> then stands for the panic;
  \<open>tupd xs i f\<close> is an in-place modification of \<open>xs[i]\<close>.
\<close>

definition tget :: "'a list \<Rightarrow> nat \<Rightarrow> 'a option" where
  "tget xs i = (if i < length xs then Some (xs ! i) else None)"

definition tupd :: "'a list \<Rightarrow> nat \<Rightarrow> ('a \<Rightarrow> 'a) \<Rightarrow> 'a list option" where
  "tupd xs i f = (if i < length xs then Some (xs[i := f (xs ! i)]) else None)"

text \<open>The updated list itself, for an index in range.\<close>

definition lupd :: "'a list \<Rightarrow> nat \<Rightarrow> ('a \<Rightarrow> 'a) \<Rightarrow> 'a list" where
  "lupd xs i f = xs[i := f (xs ! i)]"

lemma tupd_lupd: "i < length xs \<Longrightarrow> tupd xs i f = Some (lupd xs i f)"
  by (simp add: tupd_def lupd_def)

lemma length_lupd [simp]: "length (lupd xs i f) = length xs"
  by (simp add: lupd_def)

lemma nth_lupd: "i < length xs \<Longrightarrow> lupd xs i f ! j = (if j = i then f (xs ! i) else xs ! j)"
  by (simp add: lupd_def nth_list_update)

text \<open>\<open>iter().position(p)\<close>: the index of the first element that satisfies \<open>p\<close>.\<close>

fun position :: "('a \<Rightarrow> bool) \<Rightarrow> 'a list \<Rightarrow> nat option" where
  "position p [] = None"
| "position p (x # xs) = (if p x then Some 0 else map_option Suc (position p xs))"

lemma tget_Some [table_simps]: "i < length xs \<Longrightarrow> tget xs i = Some (xs ! i)"
  by (simp add: tget_def)

lemma tget_eq_Some_iff: "tget xs i = Some x \<longleftrightarrow> i < length xs \<and> xs ! i = x"
  by (simp add: tget_def)

lemma tget_eq_None_iff: "tget xs i = None \<longleftrightarrow> length xs \<le> i"
  by (simp add: tget_def)

lemma tupd_Some [table_simps]: "i < length xs \<Longrightarrow> tupd xs i f = Some (xs[i := f (xs ! i)])"
  by (simp add: tupd_def)

lemma tupd_eq_Some_iff: "tupd xs i f = Some ys \<longleftrightarrow> i < length xs \<and> ys = xs[i := f (xs ! i)]"
  by (auto simp: tupd_def)

lemma position_None_iff: "position p xs = None \<longleftrightarrow> (\<forall>x\<in>set xs. \<not> p x)"
  by (induction xs) auto

lemma position_SomeD:
  "position p xs = Some i \<Longrightarrow> i < length xs \<and> p (xs ! i) \<and> (\<forall>j<i. \<not> p (xs ! j))"
proof (induction xs arbitrary: i)
  case Nil
  then show ?case by simp
next
  case (Cons x xs)
  show ?case
  proof (cases "p x")
    case True
    with Cons.prems show ?thesis by simp
  next
    case False
    with Cons.prems obtain k where k: "position p xs = Some k" "i = Suc k"
      by auto
    from Cons.IH [OF k(1)] k(2) False show ?thesis
      by (auto simp: less_Suc_eq_0_disj)
  qed
qed

lemma position_ex: "i < length xs \<Longrightarrow> p (xs ! i) \<Longrightarrow> \<exists>k. position p xs = Some k"
  by (metis not_None_eq nth_mem position_None_iff)

section \<open>Machine arithmetic\<close>

definition checked_add :: "u64 \<Rightarrow> u64 \<Rightarrow> u64 option" where
  "checked_add a b = (if unat a + unat b < 2 ^ 64 then Some (a + b) else None)"

definition saturating_add64 :: "u64 \<Rightarrow> u64 \<Rightarrow> u64" where
  "saturating_add64 a b = (if unat a + unat b < 2 ^ 64 then a + b else - 1)"

definition saturating_sub64 :: "u64 \<Rightarrow> u64 \<Rightarrow> u64" where
  "saturating_sub64 a b = (if b \<le> a then a - b else 0)"

lemma unat_u64_lt: "unat (x :: u64) < 2 ^ 64"
  using unsigned_less [of x] by simp

lemma unat_u32_lt: "unat (x :: u32) < 2 ^ 32"
  using unsigned_less [of x] by simp

lemma unat_of_nat_u64: "n < 2 ^ 64 \<Longrightarrow> unat (of_nat n :: u64) = n"
  by (simp add: unat_of_nat)

lemma unat_of_nat_u32: "n < 2 ^ 32 \<Longrightarrow> unat (of_nat n :: u32) = n"
  by (simp add: unat_of_nat)

lemma unat_mult_u64: "unat a * unat b < 2 ^ 64 \<Longrightarrow> unat (a * b :: u64) = unat a * unat b"
  by (simp add: unat_word_ariths)

lemma unat_mult_u32: "unat a * unat b < 2 ^ 32 \<Longrightarrow> unat (a * b :: u32) = unat a * unat b"
  by (simp add: unat_word_ariths)

lemma unat_add_u64: "unat a + unat b < 2 ^ 64 \<Longrightarrow> unat (a + b :: u64) = unat a + unat b"
  by (simp add: unat_word_ariths)

lemma unat_add_u32: "unat a + unat b < 2 ^ 32 \<Longrightarrow> unat (a + b :: u32) = unat a + unat b"
  by (simp add: unat_word_ariths)

lemma unat_sub_le: "(b :: 'a :: len word) \<le> a \<Longrightarrow> unat (a - b) = unat a - unat b"
  by (simp add: unat_sub)

lemma unat_max: "unat (max a b :: 'a :: len word) = max (unat a) (unat b)"
  by (simp add: max_def word_le_nat_alt)

lemma unat_min: "unat (min a b :: 'a :: len word) = min (unat a) (unat b)"
  by (simp add: min_def word_le_nat_alt)

lemma checked_add_SomeD:
  "checked_add a b = Some c \<Longrightarrow> c = a + b \<and> unat c = unat a + unat b \<and> unat a + unat b < 2 ^ 64"
  by (auto simp: checked_add_def unat_add_u64 split: if_splits)

lemma checked_add_None_iff: "checked_add a b = None \<longleftrightarrow> 2 ^ 64 \<le> unat a + unat b"
  by (simp add: checked_add_def)

section \<open>Doubly linked chains in an index arena\<close>

text \<open>
  \<open>dls nx pv p xs q\<close>: following \<open>nx\<close> from the first element of \<open>xs\<close> visits exactly \<open>xs\<close> and then
  leads to \<open>q\<close>; \<open>pv\<close> leads back, and the element before the first one is \<open>p\<close>. With an explicit
  outer neighbour on both sides the predicate splits at every position (\<open>dls_append\<close>), so that
  insertion and removal in the middle of a chain are local rewrites.
\<close>

fun hd_or :: "'a list \<Rightarrow> 'a option \<Rightarrow> 'a option" where
  "hd_or [] q = q"
| "hd_or (x # xs) q = Some x"

fun last_or :: "'a option \<Rightarrow> 'a list \<Rightarrow> 'a option" where
  "last_or p [] = p"
| "last_or p (x # xs) = last_or (Some x) xs"

fun dls :: "(nat \<Rightarrow> nat option) \<Rightarrow> (nat \<Rightarrow> nat option) \<Rightarrow> nat option \<Rightarrow> nat list \<Rightarrow> nat option \<Rightarrow> bool" where
  "dls nx pv p [] q = True"
| "dls nx pv p (x # xs) q = (pv x = p \<and> nx x = hd_or xs q \<and> dls nx pv (Some x) xs q)"

lemma hd_or_append [simp]: "hd_or (xs @ ys) q = hd_or xs (hd_or ys q)"
  by (cases xs) simp_all

lemma last_or_append [simp]: "last_or p (xs @ ys) = last_or (last_or p xs) ys"
  by (induction xs arbitrary: p) simp_all

lemma hd_or_None_iff [simp]: "hd_or xs None = None \<longleftrightarrow> xs = []"
  by (cases xs) simp_all

lemma hd_or_None_Some: "hd_or xs None = Some x \<longleftrightarrow> (\<exists>ys. xs = x # ys)"
  by (cases xs) auto

lemma last_or_eq: "xs \<noteq> [] \<Longrightarrow> last_or p xs = Some (last xs)"
  by (induction xs arbitrary: p) auto

lemma last_or_None_iff [simp]: "last_or None xs = None \<longleftrightarrow> xs = []"
  by (cases "xs = []") (simp_all add: last_or_eq)

lemma dls_cong:
  "(\<And>x. x \<in> set xs \<Longrightarrow> nx x = nx' x \<and> pv x = pv' x) \<Longrightarrow> dls nx pv p xs q = dls nx' pv' p xs q"
  by (induction xs arbitrary: p) auto

lemma dls_append [dl_simps]:
  "dls nx pv p (xs @ ys) q \<longleftrightarrow> dls nx pv p xs (hd_or ys q) \<and> dls nx pv (last_or p xs) ys q"
  by (induction xs arbitrary: p) auto

lemma dls_last_next: "dls nx pv p (xs @ [l]) q \<Longrightarrow> nx l = q"
  by (simp add: dls_append)

lemma dls_mid:
  "dls nx pv p (xs @ x # ys) q \<Longrightarrow> pv x = last_or p xs \<and> nx x = hd_or ys q"
  by (simp add: dls_append)

text \<open>Updates outside of the chain leave it alone.\<close>

lemma dls_upd_notin [dl_simps]:
  "x \<notin> set xs \<Longrightarrow> dls (nx(x := a)) pv p xs q = dls nx pv p xs q"
  "x \<notin> set xs \<Longrightarrow> dls nx (pv(x := a)) p xs q = dls nx pv p xs q"
  by (rule dls_cong; auto)+

text \<open>Relinking the first and the last element of a chain.\<close>

lemma dls_new_prev:
  "dls nx pv p (x # xs) q \<Longrightarrow> x \<notin> set xs \<Longrightarrow> dls nx (pv(x := p')) p' (x # xs) q"
  by (simp add: dl_simps)

lemma dls_new_next:
  assumes "dls nx pv p (xs @ [x]) q" and "x \<notin> set xs"
  shows "dls (nx(x := q')) pv p (xs @ [x]) q'"
  using assms by (simp add: dl_simps)

text \<open>Taking an element out of a chain, and renaming its elements.\<close>

lemma dls_remove:
  assumes "dls nx pv None (xs @ s # ys) None" "distinct (xs @ s # ys)"
  shows "dls (case last_or None xs of None \<Rightarrow> nx | Some a \<Rightarrow> nx(a := hd_or ys None))
             (case hd_or ys None of None \<Rightarrow> pv | Some b \<Rightarrow> pv(b := last_or None xs)) None (xs @ ys) None"
    (is "dls ?nx ?pv None (xs @ ys) None")
proof -
  have l: "dls nx pv None xs (Some s)" and r: "dls nx pv (Some s) ys None"
    using assms(1) by (auto simp: dls_append)
  have "dls ?nx ?pv None xs (hd_or ys None)"
  proof (cases xs rule: rev_cases)
    case (snoc zs a)
    have "dls (nx(a := hd_or ys None)) pv None (zs @ [a]) (hd_or ys None)"
      using l assms(2) snoc by (intro dls_new_next) auto
    then show ?thesis
      using snoc assms(2) by (cases ys) (simp_all add: dls_upd_notin)
  qed simp
  moreover have "dls ?nx ?pv (last_or None xs) ys None"
  proof (cases ys)
    case (Cons b bs)
    have "dls nx (pv(b := last_or None xs)) (last_or None xs) (b # bs) None"
      using r assms(2) Cons by (intro dls_new_prev) auto
    then show ?thesis
      using Cons assms(2) by (cases xs rule: rev_cases) (simp_all add: dls_upd_notin)
  qed simp
  ultimately show ?thesis by (simp add: dls_append)
qed

lemma dls_neighbours:
  assumes "dls nx pv None (xs @ s # ys) None"
  shows "pv s = last_or None xs" "nx s = hd_or ys None"
  using dls_mid [OF assms] by simp_all

lemma hd_or_in: "hd_or xs None = Some x \<Longrightarrow> x \<in> set xs"
  by (cases xs) simp_all

lemma last_or_in: "last_or None xs = Some x \<Longrightarrow> x \<in> set xs"
  by (cases xs rule: rev_cases) simp_all

lemma hd_or_map: "hd_or (map f xs) (map_option f q) = map_option f (hd_or xs q)"
  by (cases xs) simp_all

lemma dls_rename:
  "dls nx pv p xs q \<Longrightarrow> (\<And>x. x \<in> set xs \<Longrightarrow> nx' (f x) = map_option f (nx x) \<and> pv' (f x) = map_option f (pv x)) \<Longrightarrow>
   dls nx' pv' (map_option f p) (map f xs) (map_option f q)"
proof (induction xs arbitrary: p)
  case (Cons x xs)
  have "dls nx' pv' (map_option f (Some x)) (map f xs) (map_option f q)"
    by (rule Cons.IH) (use Cons.prems in auto)
  then show ?case using Cons.prems by (simp add: hd_or_map)
qed simp

section \<open>Transition systems\<close>

text \<open>
  Every stateful component is used as a sequence of operation calls. \<open>reach init step\<close> is the set
  of states such a sequence can produce; a component that shows its invariant for the initial
  states and for one step obtains it for every reachable state.
\<close>

inductive reach :: "('s \<Rightarrow> bool) \<Rightarrow> ('s \<Rightarrow> 's \<Rightarrow> bool) \<Rightarrow> 's \<Rightarrow> bool" for init step where
  reach_init: "init s \<Longrightarrow> reach init step s"
| reach_step: "reach init step s \<Longrightarrow> step s t \<Longrightarrow> reach init step t"

locale step_system =
  fixes init :: "'s \<Rightarrow> bool"
    and step :: "'s \<Rightarrow> 's \<Rightarrow> bool"
    and inv :: "'s \<Rightarrow> bool"
  assumes init_inv: "init s \<Longrightarrow> inv s"
    and step_inv: "inv s \<Longrightarrow> step s t \<Longrightarrow> inv t"
begin

lemma reach_inv: "reach init step s \<Longrightarrow> inv s"
  by (induction rule: reach.induct) (auto intro: init_inv step_inv)

lemma steps_inv: "step\<^sup>*\<^sup>* s t \<Longrightarrow> inv s \<Longrightarrow> inv t"
  by (induction rule: rtranclp_induct) (auto intro: step_inv)

end

end
