(* ===== verification/Region.thy ===== *)
theory Region
  imports Prelude
begin

text \<open>
  \<open>caprock-mem/src/region.rs\<close> and \<open>cap.rs\<close>: physical regions, access rights and the linear memory
  capability. A region is a pair of 64-bit words and \<open>region_end\<close> wraps the way the release build
  does; \<open>addrs\<close> is the set of addresses a region stands for, as natural numbers, and \<open>region_ok\<close> says
  that the region does not run past the top of the address space. Rights are an 8-bit mask; the
  lemmas show that \<open>Rights_contains\<close> is a partial order with \<open>Rights_intersect\<close> as its meet, so that
  restricting a capability can only take rights away.
\<close>

section \<open>Regions\<close>

record PhysRegion =
  r_base :: u64
  r_len :: u64

definition PhysRegion_new :: "u64 \<Rightarrow> u64 \<Rightarrow> PhysRegion" where
  "PhysRegion_new b l = \<lparr>r_base = b, r_len = l\<rparr>"

definition region_end :: "PhysRegion \<Rightarrow> u64" where
  "region_end r = r_base r + r_len r"

definition region_is_empty :: "PhysRegion \<Rightarrow> bool" where
  "region_is_empty r = (r_len r = 0)"

definition region_contains :: "PhysRegion \<Rightarrow> u64 \<Rightarrow> bool" where
  "region_contains r addr = (addr \<ge> r_base r \<and> addr < region_end r)"

definition contains_region :: "PhysRegion \<Rightarrow> PhysRegion \<Rightarrow> bool" where
  "contains_region r other = (r_base other \<ge> r_base r \<and> region_end other \<le> region_end r)"

section \<open>Rights\<close>

type_synonym Rights = u8

definition Rights_NONE :: Rights where "Rights_NONE = 0"
definition Rights_READ :: Rights where "Rights_READ = 1"
definition Rights_WRITE :: Rights where "Rights_WRITE = 2"
definition Rights_EXEC :: Rights where "Rights_EXEC = 4"
definition Rights_RW :: Rights where "Rights_RW = 0b011"
definition Rights_RWX :: Rights where "Rights_RWX = 0b111"

definition Rights_contains :: "Rights \<Rightarrow> Rights \<Rightarrow> bool" where
  "Rights_contains a b = (a AND b = b)"

definition Rights_intersect :: "Rights \<Rightarrow> Rights \<Rightarrow> Rights" where
  "Rights_intersect a b = a AND b"

definition Rights_union :: "Rights \<Rightarrow> Rights \<Rightarrow> Rights" where
  "Rights_union a b = a OR b"

section \<open>Memory capabilities\<close>

record MemoryCap =
  mc_region :: PhysRegion
  mc_rights :: Rights

definition MemoryCap_new :: "PhysRegion \<Rightarrow> Rights \<Rightarrow> MemoryCap" where
  "MemoryCap_new r rs = \<lparr>mc_region = r, mc_rights = rs\<rparr>"

definition MemoryCap_split :: "MemoryCap \<Rightarrow> u64 \<Rightarrow> MemoryCap + MemoryCap \<times> MemoryCap" where
  "MemoryCap_split c first_len =
     (if first_len = 0 \<or> first_len \<ge> r_len (mc_region c) then Inl c
      else
        let b = r_base (mc_region c);
            first = PhysRegion_new b first_len;
            second = PhysRegion_new (b + first_len) (r_len (mc_region c) - first_len)
        in Inr (MemoryCap_new first (mc_rights c), MemoryCap_new second (mc_rights c)))"

definition MemoryCap_restrict :: "MemoryCap \<Rightarrow> Rights \<Rightarrow> MemoryCap" where
  "MemoryCap_restrict c rs = MemoryCap_new (mc_region c) (Rights_intersect (mc_rights c) rs)"

section \<open>The address set of a region\<close>

definition addrs :: "PhysRegion \<Rightarrow> nat set" where
  "addrs r = {unat (r_base r) ..< unat (r_base r) + unat (r_len r)}"

definition region_ok :: "PhysRegion \<Rightarrow> bool" where
  "region_ok r \<longleftrightarrow> unat (r_base r) + unat (r_len r) < 2 ^ 64"

lemma PhysRegion_new_sel [simp]:
  "r_base (PhysRegion_new b l) = b" "r_len (PhysRegion_new b l) = l"
  by (simp_all add: PhysRegion_new_def)

lemma MemoryCap_new_sel [simp]:
  "mc_region (MemoryCap_new r rs) = r" "mc_rights (MemoryCap_new r rs) = rs"
  by (simp_all add: MemoryCap_new_def)

lemma PhysRegion_new_collapse [simp]: "PhysRegion_new (r_base r) (r_len r) = r"
  by (simp add: PhysRegion_new_def)

lemma unat_region_end: "region_ok r \<Longrightarrow> unat (region_end r) = unat (r_base r) + unat (r_len r)"
  by (simp add: region_ok_def region_end_def unat_add_u64)

lemma addrs_empty_iff: "addrs r = {} \<longleftrightarrow> region_is_empty r"
  by (simp add: addrs_def region_is_empty_def unat_eq_0)

lemma finite_addrs [simp]: "finite (addrs r)"
  by (simp add: addrs_def)

lemma card_addrs [simp]: "card (addrs r) = unat (r_len r)"
  by (simp add: addrs_def)

lemma region_contains_iff: "region_ok r \<Longrightarrow> region_contains r a \<longleftrightarrow> unat a \<in> addrs r"
  by (auto simp: region_contains_def addrs_def word_le_nat_alt word_less_nat_alt unat_region_end)

lemma contains_region_addrs:
  assumes "region_ok r" "region_ok s" "contains_region r s"
  shows "addrs s \<subseteq> addrs r"
  using assms
  by (auto simp: contains_region_def addrs_def word_le_nat_alt unat_region_end)

section \<open>Rights form a meet semilattice\<close>

lemma Rights_contains_bits: "Rights_contains a b \<longleftrightarrow> (\<forall>n. bit b n \<longrightarrow> bit a n)"
proof -
  have "a AND b = b \<longleftrightarrow> (\<forall>n. bit (a AND b) n = bit b n)"
    by (auto intro: bit_eqI)
  then show ?thesis
    by (auto simp: Rights_contains_def bit_and_iff)
qed

lemma Rights_contains_refl [simp]: "Rights_contains a a"
  by (simp add: Rights_contains_def)

lemma Rights_contains_trans: "Rights_contains a b \<Longrightarrow> Rights_contains b c \<Longrightarrow> Rights_contains a c"
  by (simp add: Rights_contains_bits)

lemma Rights_contains_antisym: "Rights_contains a b \<Longrightarrow> Rights_contains b a \<Longrightarrow> a = b"
  by (simp add: Rights_contains_def and.commute)

lemma Rights_intersect_contains [simp]:
  "Rights_contains a (Rights_intersect a b)" "Rights_contains b (Rights_intersect a b)"
  by (simp_all add: Rights_contains_bits Rights_intersect_def bit_and_iff)

lemma Rights_intersect_greatest:
  "Rights_contains (Rights_intersect a b) c \<longleftrightarrow> Rights_contains a c \<and> Rights_contains b c"
  by (auto simp: Rights_contains_bits Rights_intersect_def bit_and_iff)

section \<open>Derivation of memory capabilities\<close>

lemma split_partition:
  assumes "MemoryCap_split c n = Inr (a, b)" and "region_ok (mc_region c)"
  shows "addrs (mc_region a) \<union> addrs (mc_region b) = addrs (mc_region c)"
    and "addrs (mc_region a) \<inter> addrs (mc_region b) = {}"
    and "region_ok (mc_region a)" "region_ok (mc_region b)"
    and "addrs (mc_region a) \<noteq> {}" "addrs (mc_region b) \<noteq> {}"
    and "mc_rights a = mc_rights c" "mc_rights b = mc_rights c"
proof -
  let ?r = "mc_region c"
  from assms(1) have n: "n \<noteq> 0" "n < r_len ?r"
    and a: "a = MemoryCap_new (PhysRegion_new (r_base ?r) n) (mc_rights c)"
    and b: "b = MemoryCap_new (PhysRegion_new (r_base ?r + n) (r_len ?r - n)) (mc_rights c)"
    by (auto simp: MemoryCap_split_def Let_def not_le split: if_splits)
  from n have nn: "0 < unat n" "unat n < unat (r_len ?r)"
    by (auto simp: word_less_nat_alt unat_gt_0)
  have ub: "unat (r_base ?r + n) = unat (r_base ?r) + unat n"
    using assms(2) nn by (intro unat_add_u64) (simp add: region_ok_def)
  have ul: "unat (r_len ?r - n) = unat (r_len ?r) - unat n"
    using n by (intro unat_sub_le) simp
  note facts = a b ub ul nn assms(2)
  show "addrs (mc_region a) \<union> addrs (mc_region b) = addrs ?r"
    and "addrs (mc_region a) \<inter> addrs (mc_region b) = {}"
    and "region_ok (mc_region a)" "region_ok (mc_region b)"
    and "addrs (mc_region a) \<noteq> {}" "addrs (mc_region b) \<noteq> {}"
    and "mc_rights a = mc_rights c" "mc_rights b = mc_rights c"
    using facts by (auto simp: addrs_def region_ok_def)
qed

lemma split_Inl_iff:
  "MemoryCap_split c n = Inl d \<longleftrightarrow> d = c \<and> (n = 0 \<or> r_len (mc_region c) \<le> n)"
  by (auto simp: MemoryCap_split_def Let_def)

lemma restrict_sel [simp]:
  "mc_region (MemoryCap_restrict c rs) = mc_region c"
  "mc_rights (MemoryCap_restrict c rs) = Rights_intersect (mc_rights c) rs"
  by (simp_all add: MemoryCap_restrict_def)

end
