(* ===== verification/Color.thy ===== *)
theory Color
  imports Prelude
begin

text \<open>
  \<open>caprock-mem/src/color.rs\<close>: page colours and colour masks. The central lemma \<open>stripe_bit\<close> gives
  the meaning of every single mask bit that the doubling loop of \<open>stripe\<close> produces; disjointness,
  completeness and the size of the stripes follow from it.
\<close>

definition PAGE :: u64 where "PAGE = 4096"
definition MASK_BITS :: u32 where "MASK_BITS = 64"

type_synonym ColorMask = u64

definition ColorMask_EMPTY :: ColorMask where "ColorMask_EMPTY = 0"
definition ColorMask_ALL :: ColorMask where "ColorMask_ALL = - 1"

definition ColorMask_contains :: "ColorMask \<Rightarrow> u32 \<Rightarrow> bool" where
  "ColorMask_contains m c = (m AND push_bit (unat (c mod MASK_BITS)) 1 \<noteq> 0)"

definition ColorMask_is_empty :: "ColorMask \<Rightarrow> bool" where
  "ColorMask_is_empty m = (m = 0)"

definition ColorMask_intersects :: "ColorMask \<Rightarrow> ColorMask \<Rightarrow> bool" where
  "ColorMask_intersects a b = (a AND b \<noteq> 0)"

definition ColorMask_len :: "ColorMask \<Rightarrow> nat" where
  "ColorMask_len m = length (filter (bit m) [0..<64])"

definition color_of :: "u64 \<Rightarrow> u32 \<Rightarrow> u32" where
  "color_of pa colors = (if colors \<le> 1 then 0 else ucast (pa div PAGE) AND (colors - 1))"

definition is_power_of_two :: "u32 \<Rightarrow> bool" where
  "is_power_of_two n = list_ex (\<lambda>k. n = 2 ^ k) [0..<32]"

text \<open>
  The loop of \<open>stripe\<close> that repeats the block with period \<open>live\<close>. The counter is a natural number
  because it never exceeds \<open>63 + live\<close>; \<open>live = 0\<close>, for which the loop would not end, is excluded by
  the checks in front of it.
\<close>

function stripe_fill :: "u64 \<Rightarrow> nat \<Rightarrow> nat \<Rightarrow> u64 \<Rightarrow> u64" where
  "stripe_fill block live off bits =
     (if off < unat MASK_BITS \<and> 0 < live
      then stripe_fill block live (off + live) (bits OR push_bit off block)
      else bits)"
  by pat_completeness auto
termination
  by (relation "measure (\<lambda>(_, _, off, _). unat MASK_BITS - off)") auto

declare stripe_fill.simps [simp del]

definition stripe :: "u32 \<Rightarrow> u32 \<Rightarrow> u32 \<Rightarrow> ColorMask option" where
  "stripe i n colors =
     (if n = 0 \<or> i \<ge> n \<or> \<not> is_power_of_two n then None
      else if colors = 0 \<or> \<not> is_power_of_two colors then None
      else
        let live = (if colors < MASK_BITS then colors else MASK_BITS) in
        if n > live then None
        else
          let per = live div n;
              lo = i * per;
              block = (if per = MASK_BITS then - 1
                       else push_bit (unat lo) (push_bit (unat per) 1 - 1))
          in Some (stripe_fill block (unat live) 0 0))"

fun pick_free_from :: "u32 \<Rightarrow> nat \<Rightarrow> nat \<Rightarrow> nat option" where
  "pick_free_from taken i 0 = None"
| "pick_free_from taken i (Suc k) =
     (if taken AND push_bit i 1 = 0 then Some i else pick_free_from taken (Suc i) k)"

definition pick_free :: "u32 \<Rightarrow> u32 \<Rightarrow> u32 option" where
  "pick_free taken n =
     (if n = 0 \<or> n > 32 then None else map_option of_nat (pick_free_from taken 0 (unat n)))"

section \<open>Bits of a mask\<close>

lemma and_push_bit_one_eq_0: "(m :: 'a :: len word) AND push_bit k 1 = 0 \<longleftrightarrow> \<not> bit m k"
proof -
  have "m AND push_bit k 1 = 0 \<longleftrightarrow> (\<forall>n. \<not> bit (m AND push_bit k 1) n)"
    by (metis bit_0_eq bit_eqI bot_apply bot_bool_def)
  also have "\<dots> \<longleftrightarrow> \<not> bit m k"
    by (auto simp: bit_and_iff bit_exp_iff dest: bit_imp_le_length)
  finally show ?thesis .
qed

lemma ColorMask_contains_bit: "ColorMask_contains m c \<longleftrightarrow> bit m (unat c mod 64)"
  unfolding ColorMask_contains_def and_push_bit_one_eq_0 by (simp add: MASK_BITS_def unat_mod)

lemma is_power_of_twoD: "is_power_of_two n \<Longrightarrow> \<exists>k<32. unat n = 2 ^ k"
proof -
  assume "is_power_of_two n"
  then obtain k where k: "k < 32" "n = 2 ^ k"
    by (auto simp: is_power_of_two_def list_ex_iff)
  have "n = word_of_nat (2 ^ k)"
    using k by simp
  moreover have "(2 :: nat) ^ k < 2 ^ 32"
    using k by (intro power_strict_increasing) auto
  ultimately have "unat n = 2 ^ k"
    by (simp only: unat_of_nat_u32)
  with k show ?thesis by blast
qed

lemma stripe_fill_bit:
  "0 < live \<Longrightarrow>
   bit (stripe_fill block live off bits) k \<longleftrightarrow>
     bit bits k \<or> (\<exists>t. off + t * live < 64 \<and> bit (push_bit (off + t * live) block) k)"
proof (induction block live off bits rule: stripe_fill.induct)
  case (1 block live off bits)
  show ?case
  proof (cases "off < 64")
    case False
    then show ?thesis by (simp add: stripe_fill.simps [of block live off] MASK_BITS_def)
  next
    case True
    let ?Q = "\<lambda>o' t. o' + t * live < 64 \<and> bit (push_bit (o' + t * live) block) k"
    have shift: "(\<exists>t. ?Q off t) \<longleftrightarrow> bit (push_bit off block) k \<or> (\<exists>t. ?Q (off + live) t)"
    proof
      assume "\<exists>t. ?Q off t"
      then obtain t where t: "?Q off t" by blast
      then show "bit (push_bit off block) k \<or> (\<exists>t. ?Q (off + live) t)"
        by (cases t) (auto simp: algebra_simps)
    next
      assume "bit (push_bit off block) k \<or> (\<exists>t. ?Q (off + live) t)"
      then show "\<exists>t. ?Q off t"
      proof
        assume "bit (push_bit off block) k"
        with True have "?Q off 0" by simp
        then show ?thesis by blast
      next
        assume "\<exists>t. ?Q (off + live) t"
        then obtain t where "?Q (off + live) t" by blast
        then have "?Q off (Suc t)" by (simp add: algebra_simps)
        then show ?thesis by blast
      qed
    qed
    have "bit (stripe_fill block live (off + live) (bits OR push_bit off block)) k \<longleftrightarrow>
            bit (bits OR push_bit off block) k \<or> (\<exists>t. ?Q (off + live) t)"
      using 1 True by (simp add: MASK_BITS_def)
    then show ?thesis
      using shift True 1(2)
      by (simp add: stripe_fill.simps [of block live off bits] MASK_BITS_def bit_or_iff)
  qed
qed

text \<open>The block of one stripe: \<open>per\<close> consecutive bits from \<open>lo\<close> on.\<close>

lemma stripe_block_bit:
  fixes P lo :: nat
  assumes "lo + P \<le> 64" "k < 64"
  shows "bit (if P = 64 then - 1 else push_bit lo (push_bit P 1 - 1) :: u64) k \<longleftrightarrow> lo \<le> k \<and> k < lo + P"
proof -
  have "(push_bit P 1 - 1 :: u64) = mask P"
    by (simp add: mask_eq_exp_minus_1)
  then show ?thesis
    using assms by (auto simp: bit_push_bit_iff bit_mask_iff possible_bit_def)
qed

lemma block_index:
  fixes k L P i :: nat
  assumes "i * P + P \<le> L" "0 < P"
  shows "(\<exists>t. t * L \<le> k \<and> i * P \<le> k - t * L \<and> k - t * L < i * P + P) \<longleftrightarrow> k mod L div P = i"
proof
  assume "\<exists>t. t * L \<le> k \<and> i * P \<le> k - t * L \<and> k - t * L < i * P + P"
  then obtain t where t: "t * L \<le> k" "i * P \<le> k - t * L" "k - t * L < i * P + P" by blast
  then have "k = t * L + (k - t * L)" "k - t * L < L"
    using assms by auto
  then have "k mod L = k - t * L"
    by (metis mod_less mod_mult_self3)
  then show "k mod L div P = i"
    using t assms by (intro div_nat_eqI) (auto simp: algebra_simps)
next
  assume "k mod L div P = i"
  then have "i * P \<le> k mod L" "k mod L < i * P + P"
    using assms(2) dividend_less_div_times [of P "k mod L"] by (auto simp: algebra_simps)
  moreover have "k - k div L * L = k mod L"
    by (simp add: minus_div_mult_eq_mod)
  ultimately show "\<exists>t. t * L \<le> k \<and> i * P \<le> k - t * L \<and> k - t * L < i * P + P"
    by (metis div_times_less_eq_dividend)
qed

lemma stripe_SomeD:
  assumes "stripe i n colors = Some m"
  obtains L P where "L = min (unat colors) 64" "P = L div unat n" "0 < P" "unat i < unat n"
    "unat n dvd L" "L dvd 64" "P * unat n = L" "L dvd unat colors"
    "m = stripe_fill (if P = 64 then - 1 else push_bit (unat i * P) (push_bit P 1 - 1)) L 0 0"
proof -
  define live where "live = (if colors < MASK_BITS then colors else MASK_BITS)"
  define L where "L = min (unat colors) 64"
  define P where "P = L div unat n"
  have live: "unat live = L"
    by (auto simp: live_def L_def MASK_BITS_def word_less_nat_alt)
  from assms have h: "n \<noteq> 0" "i < n" "is_power_of_two n" "colors \<noteq> 0" "is_power_of_two colors" "n \<le> live"
    and m: "m = stripe_fill (if live div n = MASK_BITS then - 1
              else push_bit (unat (i * (live div n))) (push_bit (unat (live div n)) 1 - 1)) (unat live) 0 0"
    by (auto simp: stripe_def live_def Let_def not_le not_less split: if_splits)
  from is_power_of_twoD [OF h(3)] obtain a where a: "unat n = 2 ^ a" by blast
  from is_power_of_twoD [OF h(5)] obtain b where b: "unat colors = 2 ^ b" by blast
  have L2: "L = 2 ^ min b 6"
  proof (cases "b \<le> 6")
    case True
    then have "(2 :: nat) ^ b \<le> 2 ^ 6" by (intro power_increasing) auto
    with True show ?thesis by (simp add: L_def b min_def)
  next
    case False
    then have "(2 :: nat) ^ 6 \<le> 2 ^ b" by (intro power_increasing) auto
    with False show ?thesis by (simp add: L_def b min_def)
  qed
  have nL: "unat n \<le> L"
    using h(6) live by (simp add: word_le_nat_alt)
  then have "a \<le> min b 6"
    by (simp add: a L2)
  then have dvd: "unat n dvd L"
    by (simp add: a L2 le_imp_power_dvd)
  have L64: "L dvd 64"
  proof -
    have "(2 :: nat) ^ min b 6 dvd 2 ^ 6" by (rule le_imp_power_dvd) simp
    then show ?thesis by (simp add: L2)
  qed
  have P0: "0 < P"
    using nL h(1) by (simp add: P_def div_greater_zero_iff unat_gt_0)
  have PN: "P * unat n = L"
    using dvd by (simp add: P_def)
  have per: "unat (live div n) = P"
    by (simp add: unat_div live P_def)
  have iN: "unat i < unat n"
    using h(2) by (simp add: word_less_nat_alt)
  have "unat i * P \<le> unat n * P"
    using iN by simp
  moreover have "L \<le> 64"
    by (simp add: L_def)
  ultimately have "unat i * P \<le> 64"
    using PN by (metis le_trans mult.commute)
  then have lo: "unat (i * (live div n)) = unat i * P"
    using per by (subst unat_mult_u32) auto
  have P64: "live div n = MASK_BITS \<longleftrightarrow> P = 64"
    using per by (auto simp: MASK_BITS_def word_unat_eq_iff)
  have "L dvd unat colors"
    by (simp add: L2 b le_imp_power_dvd)
  with that [of L P] show ?thesis
    using L_def P_def P0 iN dvd L64 PN m unfolding P64 lo per live by blast
qed

lemma stripe_shift_ex:
  "k < 64 \<Longrightarrow> (\<exists>t. t * L < 64 \<and> bit (push_bit (t * L) (b :: u64)) k) \<longleftrightarrow> (\<exists>t. t * L \<le> k \<and> bit b (k - t * L))"
  by (rule iff_exI) (auto simp: bit_push_bit_iff possible_bit_def)

lemma stripe_bit:
  assumes "stripe i n colors = Some m" "k < 64"
  shows "bit m k \<longleftrightarrow> k mod min (unat colors) 64 div (min (unat colors) 64 div unat n) = unat i"
proof -
  from assms(1) obtain L P where LP: "L = min (unat colors) 64" "P = L div unat n" "0 < P"
    "unat i < unat n" "P * unat n = L" "L dvd 64"
    and m: "m = stripe_fill (if P = 64 then - 1 else push_bit (unat i * P) (push_bit P 1 - 1)) L 0 0"
    by (rule stripe_SomeD) blast
  let ?b = "if P = 64 then - 1 else push_bit (unat i * P) (push_bit P 1 - 1) :: u64"
  have iP: "unat i * P + P \<le> L"
  proof -
    have "Suc (unat i) * P \<le> unat n * P" using LP(4) by (intro mult_le_mono1) simp
    then show ?thesis using LP(5) by (simp add: algebra_simps)
  qed
  have L0: "0 < L" using iP LP(3) by simp
  have L64: "L \<le> 64" by (simp add: LP(1))
  have "bit m k \<longleftrightarrow> (\<exists>t. t * L < 64 \<and> bit (push_bit (t * L) ?b) k)"
    unfolding m using L0 by (subst stripe_fill_bit) auto
  also have "\<dots> \<longleftrightarrow> (\<exists>t. t * L \<le> k \<and> bit ?b (k - t * L))"
    using assms(2) by (rule stripe_shift_ex)
  also have "\<dots> \<longleftrightarrow> (\<exists>t. t * L \<le> k \<and> unat i * P \<le> k - t * L \<and> k - t * L < unat i * P + P)"
  proof (intro iff_exI conj_cong refl)
    fix t
    show "bit ?b (k - t * L) \<longleftrightarrow> unat i * P \<le> k - t * L \<and> k - t * L < unat i * P + P"
      by (rule stripe_block_bit) (use iP L64 assms(2) in auto)
  qed
  also have "\<dots> \<longleftrightarrow> k mod L div P = unat i"
    by (rule block_index [OF iP LP(3)])
  finally show ?thesis
    by (simp add: LP)
qed

text \<open>Which colours a stripe contains.\<close>

lemma stripe_contains_iff:
  assumes "stripe i n colors = Some m"
  shows "ColorMask_contains m c \<longleftrightarrow>
    unat c mod min (unat colors) 64 div (min (unat colors) 64 div unat n) = unat i"
proof -
  from assms obtain L where L: "L = min (unat colors) 64" "L dvd 64"
    by (rule stripe_SomeD) blast
  have "unat c mod 64 mod L = unat c mod L"
    using L(2) by (rule mod_mod_cancel)
  then show ?thesis
    using stripe_bit [OF assms, of "unat c mod 64"] by (simp add: ColorMask_contains_bit L(1))
qed

lemma card_residue_block:
  fixes L P i q :: nat
  assumes "i * P + P \<le> L" "0 < P"
  shows "card {c. c < q * L \<and> c mod L div P = i} = q * P"
proof (induction q)
  case 0
  then show ?case by simp
next
  case (Suc q)
  have block: "x mod L div P = i \<longleftrightarrow> i * P \<le> x mod L \<and> x mod L < i * P + P" for x
    using assms(2) by (auto simp: div_nat_eqI algebra_simps dividend_less_times_div dest: sym)
  define R where "R c \<longleftrightarrow> c mod L div P = i" for c
  let ?A = "{c. c < q * L \<and> R c}"
  let ?B = "{q * L + i * P ..< q * L + i * P + P}"
  have B: "c \<in> ?B \<longleftrightarrow> q * L \<le> c \<and> c < q * L + L \<and> R c" for c
  proof (cases "q * L \<le> c \<and> c < q * L + L")
    case True
    then have "c mod L = c - q * L"
      by (metis add_diff_inverse_nat diff_less_mono2 le_add_diff_inverse mod_less mod_mult_self3 not_less
          add_less_cancel_left)
    with block [of c] have "R c \<longleftrightarrow> i * P \<le> c - q * L \<and> c - q * L < i * P + P"
      by (simp only: R_def)
    with True show ?thesis by auto
  next
    case False
    with assms show ?thesis by auto
  qed
  have "{c. c < Suc q * L \<and> R c} = ?A \<union> ?B"
  proof (rule set_eqI)
    fix c
    show "c \<in> {c. c < Suc q * L \<and> R c} \<longleftrightarrow> c \<in> ?A \<union> ?B"
      using B [of c] by (simp only: Un_iff mem_Collect_eq mult_Suc) linarith
  qed
  moreover have "?A \<inter> ?B = {}" by auto
  moreover have "finite ?A" by (rule finite_subset [of _ "{..<q * L}"]) auto
  ultimately show ?case
    using Suc.IH by (simp add: card_Un_disjoint flip: R_def)
qed

lemma pick_free_from_Some:
  "pick_free_from taken i k = Some j \<Longrightarrow> i \<le> j \<and> j < i + k \<and> \<not> bit taken j \<and> (\<forall>l. i \<le> l \<and> l < j \<longrightarrow> bit taken l)"
proof (induction k arbitrary: i)
  case (Suc k)
  show ?case
  proof (cases "bit taken i")
    case True
    with Suc.prems have "pick_free_from taken (Suc i) k = Some j"
      by (simp only: pick_free_from.simps and_push_bit_one_eq_0) simp
    from Suc.IH [OF this] True show ?thesis
      by (metis Suc_leD Suc_leI add_Suc_shift le_neq_implies_less)
  next
    case False
    with Suc.prems have "j = i"
      by (simp only: pick_free_from.simps and_push_bit_one_eq_0) simp
    with False show ?thesis by auto
  qed
qed simp

lemma pick_free_from_None:
  "pick_free_from taken i k = None \<longleftrightarrow> (\<forall>l. i \<le> l \<and> l < i + k \<longrightarrow> bit taken l)"
proof (induction k arbitrary: i)
  case (Suc k)
  have "pick_free_from taken i (Suc k) = None \<longleftrightarrow> bit taken i \<and> pick_free_from taken (Suc i) k = None"
    by (simp only: pick_free_from.simps and_push_bit_one_eq_0) simp
  also have "\<dots> \<longleftrightarrow> (\<forall>l. i \<le> l \<and> l < i + Suc k \<longrightarrow> bit taken l)"
  proof -
    have "i \<le> l \<and> l < i + Suc k \<longleftrightarrow> l = i \<or> Suc i \<le> l \<and> l < Suc i + k" for l
      by auto
    then show ?thesis unfolding Suc.IH by auto
  qed
  finally show ?case .
qed auto

section \<open>Properties\<close>

lemma stripe_contains_disjoint:
  assumes "stripe i n colors = Some a" "stripe j n colors = Some b" "i \<noteq> j"
  shows "\<not> ColorMask_intersects a b \<and> \<not> (ColorMask_contains a c \<and> ColorMask_contains b c)"
proof -
  have "unat i \<noteq> unat j"
    using assms(3) by (simp add: word_unat_eq_iff)
  then have nb: "\<not> (bit a k \<and> bit b k)" if "k < 64" for k
    using that stripe_bit [OF assms(1) that] stripe_bit [OF assms(2) that] by metis
  have "a AND b = 0"
    by (rule bit_eqI) (use nb in \<open>auto simp: bit_and_iff possible_bit_def\<close>)
  with nb show ?thesis
    by (simp add: ColorMask_intersects_def ColorMask_contains_bit)
qed

text \<open>
  Two different stripes of the same partition share no mask bit, and no page colour whatever is
  accepted by both: the cache partitions of two protection domains are disjoint.
\<close>

theorem stripes_disjoint:
  assumes "stripe i n colors = Some a" "stripe j n colors = Some b" "i \<noteq> j"
  shows "\<not> ColorMask_intersects a b \<and> \<not> (ColorMask_contains a c \<and> ColorMask_contains b c)"
  using assms by (rule stripe_contains_disjoint)

theorem stripes_disjoint_witness:
  "stripe 0 4 16 = Some 0x000F000F000F000F \<and> stripe 1 4 16 = Some 0x00F000F000F000F0 \<and>
   \<not> ColorMask_intersects 0x000F000F000F000F 0x00F000F000F000F0"
proof -
  have "stripe 0 4 16 = Some 0x000F000F000F000F" "stripe 1 4 16 = Some 0x00F000F000F000F0"
    by code_simp+
  with stripes_disjoint [of 0 4 16 _ 1] show ?thesis by simp
qed

text \<open>
  A stripe accepts exactly \<open>colors / n\<close> of the machine's \<open>colors\<close> page colours, whichever of the
  \<open>n\<close> stripes it is, also on machines with fewer colours than a mask has bits.
\<close>

theorem stripe_share:
  assumes "stripe i n colors = Some m"
  shows "card {c. c < unat colors \<and> ColorMask_contains m (of_nat c)} = unat colors div unat n"
proof -
  from assms obtain L P where LP: "L = min (unat colors) 64" "P = L div unat n" "0 < P"
    "unat i < unat n" "P * unat n = L" "L dvd unat colors"
    by (rule stripe_SomeD) blast
  from LP(6) obtain q where q: "unat colors = q * L" by (metis dvdE mult.commute)
  have "Suc (unat i) * P \<le> unat n * P" using LP(4) by (intro mult_le_mono1) simp
  then have iP: "unat i * P + P \<le> L" using LP(5) by (simp add: algebra_simps)
  have eq: "{c. c < unat colors \<and> ColorMask_contains m (of_nat c)} = {c. c < q * L \<and> c mod L div P = unat i}"
  proof (intro Collect_cong conj_cong)
    fix c
    assume "c < q * L"
    then have "unat (of_nat c :: u32) = c"
      using unat_u32_lt [of colors] q by (intro unat_of_nat_u32) simp
    then show "ColorMask_contains m (of_nat c) \<longleftrightarrow> c mod L div P = unat i"
      using stripe_contains_iff [OF assms, of "of_nat c"] by (simp only: LP(1,2))
  qed (simp add: q)
  have "unat n * P = L" using LP(5) by (simp add: mult.commute)
  then have "q * L div unat n = q * P"
    using LP(4) by (metis mult.left_commute nonzero_mult_div_cancel_left not_less_zero)
  then show ?thesis
    unfolding eq card_residue_block [OF iP LP(3)] by (simp add: q)
qed

theorem stripe_share_witness:
  "stripe 3 4 16 = Some 0xF000F000F000F000 \<and>
   card {c. c < 16 \<and> ColorMask_contains 0xF000F000F000F000 (of_nat c)} = 4"
proof -
  have "stripe 3 4 16 = Some 0xF000F000F000F000"
    by code_simp
  with stripe_share [of 3 4 16] show ?thesis by simp
qed

text \<open>
  \<open>pick_free\<close> hands out the lowest stripe that is not taken, and refuses only when the number of
  stripes is out of range or every one of them is taken: it never reissues a stripe.
\<close>

theorem pick_free_spec:
  "(case pick_free taken n of
      Some i \<Rightarrow> 0 < n \<and> n \<le> 32 \<and> i < n \<and> \<not> bit taken (unat i) \<and> list_all (bit taken) [0..<unat i]
    | None \<Rightarrow> n = 0 \<or> n > 32 \<or> list_all (bit taken) [0..<unat n])"
proof (cases "n = 0 \<or> n > 32")
  case True
  then show ?thesis by (auto simp: pick_free_def)
next
  case False
  then have n: "0 < n" "n \<le> 32" "unat n \<le> 32"
    by (auto simp: word_gt_0 word_le_nat_alt not_less)
  show ?thesis
  proof (cases "pick_free_from taken 0 (unat n)")
    case None
    then show ?thesis
      using False pick_free_from_None [of taken 0 "unat n"] by (auto simp: pick_free_def list_all_iff)
  next
    case (Some j)
    from pick_free_from_Some [OF this] have j: "j < unat n" "\<not> bit taken j" "\<forall>l<j. bit taken l"
      by auto
    then have "unat (of_nat j :: u32) = j"
      using n by (intro unat_of_nat_u32) simp
    then show ?thesis
      using False Some j n by (simp add: pick_free_def list_all_iff word_less_nat_alt)
  qed
qed

end
