(* ===== verification/PhysAlloc.thy ===== *)
theory PhysAlloc
  imports Region Color
begin

text \<open>
  \<open>caprock-mem/src/alloc.rs\<close>: the physical memory allocator. The state is the source's fixed array
  of \<open>MAX_FRAGMENTS\<close> regions with a fill count; insertion, removal and coalescing are the source's
  shift loops over that array. \<open>pa_view\<close> is the list of live fragments; the refinement lemmas
  \<open>view_insert\<close>, \<open>view_remove\<close> and \<open>view_coalesce\<close> show that the loops implement the list operations
  \<open>ins_list\<close>, removal by index and \<open>coal_list\<close>, and all further reasoning is on lists. The
  invariant \<open>pa_inv\<close> says that the fragments are non-empty, sorted and separated by gaps, so that the
  list is determined by the set \<open>free_set\<close> of free addresses.
\<close>

section \<open>State\<close>

definition MAX_FRAGMENTS :: nat where "MAX_FRAGMENTS = 1024"

record PhysAllocator =
  pa_regions :: "PhysRegion list"
  pa_len :: nat

definition align_up :: "u64 \<Rightarrow> u64 \<Rightarrow> u64" where
  "align_up v a = (v + (a - 1)) AND NOT (a - 1)"

definition PhysAllocator_new :: PhysAllocator where
  "PhysAllocator_new = \<lparr>pa_regions = replicate MAX_FRAGMENTS (PhysRegion_new 0 0), pa_len = 0\<rparr>"

section \<open>The shift loops\<close>

text \<open>\<open>insert_pos\<close> is the search loop of \<open>insert\<close>, \<open>shift_up\<close> makes room at \<open>i\<close>, \<open>shift_down\<close> closes a gap.\<close>

function insert_pos :: "PhysRegion list \<Rightarrow> nat \<Rightarrow> u64 \<Rightarrow> nat \<Rightarrow> nat" where
  "insert_pos rs n b i = (if i < n \<and> r_base (rs ! i) < b then insert_pos rs n b (i + 1) else i)"
  by pat_completeness auto
termination by (relation "measure (\<lambda>(_, n, _, i). n - i)") auto

function shift_up :: "PhysRegion list \<Rightarrow> nat \<Rightarrow> nat \<Rightarrow> PhysRegion list" where
  "shift_up rs i j = (if j > i then shift_up (rs[j := rs ! (j - 1)]) i (j - 1) else rs)"
  by pat_completeness auto
termination by (relation "measure (\<lambda>(_, _, j). j)") auto

function shift_down :: "PhysRegion list \<Rightarrow> nat \<Rightarrow> nat \<Rightarrow> PhysRegion list" where
  "shift_down rs n k = (if k + 1 < n then shift_down (rs[k := rs ! (k + 1)]) n (k + 1) else rs)"
  by pat_completeness auto
termination by (relation "measure (\<lambda>(_, n, k). n - k)") auto

function coalesce_loop :: "PhysRegion list \<Rightarrow> nat \<Rightarrow> nat \<Rightarrow> PhysRegion list \<times> nat" where
  "coalesce_loop rs n i =
     (if i + 1 < n then
        if region_end (rs ! i) = r_base (rs ! (i + 1)) then
          let rs1 = rs[i := (rs ! i)\<lparr>r_len := r_len (rs ! i) + r_len (rs ! (i + 1))\<rparr>]
          in coalesce_loop (shift_down rs1 n (i + 1)) (n - 1) i
        else coalesce_loop rs n (i + 1)
      else (rs, n))"
  by pat_completeness auto
termination by (relation "measure (\<lambda>(_, n, i). 2 * n - i)") auto

declare insert_pos.simps [simp del] shift_up.simps [simp del] shift_down.simps [simp del]
  coalesce_loop.simps [simp del]

definition coalesce :: "PhysAllocator \<Rightarrow> PhysAllocator" where
  "coalesce a = (let (rs, n) = coalesce_loop (pa_regions a) (pa_len a) 0
                 in \<lparr>pa_regions = rs, pa_len = n\<rparr>)"

definition pa_insert :: "PhysAllocator \<Rightarrow> PhysRegion \<Rightarrow> PhysAllocator \<times> bool" where
  "pa_insert a r =
     (if region_is_empty r then (a, True)
      else if pa_len a \<ge> MAX_FRAGMENTS then (a, False)
      else
        let i = insert_pos (pa_regions a) (pa_len a) (r_base r) 0;
            rs = shift_up (pa_regions a) i (pa_len a)
        in (coalesce \<lparr>pa_regions = rs[i := r], pa_len = pa_len a + 1\<rparr>, True))"

definition pa_remove :: "PhysAllocator \<Rightarrow> nat \<Rightarrow> PhysAllocator" where
  "pa_remove a idx = \<lparr>pa_regions = shift_down (pa_regions a) (pa_len a) idx, pa_len = pa_len a - 1\<rparr>"

section \<open>Allocation\<close>

definition add_region :: "PhysAllocator \<Rightarrow> u64 \<Rightarrow> u64 \<Rightarrow> PhysAllocator \<times> bool" where
  "add_region a b l = pa_insert a (PhysRegion_new b l)"

text \<open>
  The body of the search loop of \<open>alloc_in\<close>: what fragment \<open>r\<close> offers, as start and usable length.
\<close>

definition alloc_candidate ::
  "nat \<Rightarrow> u64 \<Rightarrow> u64 \<Rightarrow> u64 \<Rightarrow> u64 \<Rightarrow> PhysRegion \<Rightarrow> (u64 \<times> u64) option" where
  "alloc_candidate n sz align lo hi r =
     (let zone_start = max (r_base r) lo;
          zone_end = min (region_end r) hi
      in if zone_end \<le> zone_start then None
         else
           let start = align_up zone_start align in
           (case checked_add start sz of
              None \<Rightarrow> None
            | Some e \<Rightarrow>
                let nutzbar = zone_end - zone_start in
                if start \<ge> r_base r \<and> e \<le> zone_end then
                  if start > r_base r \<and> e < region_end r \<and> n \<ge> MAX_FRAGMENTS then None
                  else Some (start, nutzbar)
                else None))"

text \<open>The best-fit fold over the fragments, shared by both allocation loops.\<close>

fun best_fit ::
  "(PhysRegion \<Rightarrow> (u64 \<times> u64) option) \<Rightarrow> PhysRegion list \<Rightarrow> nat \<Rightarrow> (nat \<times> u64 \<times> u64) option \<Rightarrow>
   (nat \<times> u64 \<times> u64) option" where
  "best_fit f [] i best = best"
| "best_fit f (r # rs) i best =
     best_fit f rs (i + 1)
       (case f r of
          None \<Rightarrow> best
        | Some (start, nutzbar) \<Rightarrow>
            (case best of
               None \<Rightarrow> Some (i, start, nutzbar)
             | Some (_, _, n) \<Rightarrow> if nutzbar < n then Some (i, start, nutzbar) else best))"

text \<open>Cutting \<open>[start, start + sz)\<close> out of fragment \<open>i\<close>, the common tail of both allocation loops.\<close>

definition carve :: "PhysAllocator \<Rightarrow> nat \<Rightarrow> u64 \<Rightarrow> u64 \<Rightarrow> PhysAllocator \<times> MemoryCap option" where
  "carve a i start sz =
     (let r = pa_regions a ! i;
          e = start + sz;
          a1 = pa_remove a i;
          a2 = fst (pa_insert a1 (PhysRegion_new (r_base r) (start - r_base r)));
          a3 = fst (pa_insert a2 (PhysRegion_new e (region_end r - e)))
      in (a3, Some (MemoryCap_new (PhysRegion_new start sz) Rights_RW)))"

definition alloc_in :: "PhysAllocator \<Rightarrow> u64 \<Rightarrow> u64 \<Rightarrow> u64 \<Rightarrow> u64 \<Rightarrow> PhysAllocator \<times> MemoryCap option" where
  "alloc_in a sz0 align0 lo hi =
     (let align = max align0 PAGE;
          sz = align_up (max sz0 1) PAGE
      in (case best_fit (alloc_candidate (pa_len a) sz align lo hi)
                 (take (pa_len a) (pa_regions a)) 0 None of
            None \<Rightarrow> (a, None)
          | Some (i, start, _) \<Rightarrow> carve a i start sz))"

definition alloc_below :: "PhysAllocator \<Rightarrow> u64 \<Rightarrow> u64 \<Rightarrow> u64 \<Rightarrow> PhysAllocator \<times> MemoryCap option" where
  "alloc_below a sz align limit = alloc_in a sz align 0 limit"

definition alloc :: "PhysAllocator \<Rightarrow> u64 \<Rightarrow> u64 \<Rightarrow> PhysAllocator \<times> MemoryCap option" where
  "alloc a sz align = alloc_below a sz align (- 1)"

section \<open>Coloured allocation\<close>

definition run_is_colored :: "u64 \<Rightarrow> u64 \<Rightarrow> u32 \<Rightarrow> ColorMask \<Rightarrow> bool" where
  "run_is_colored start npages colors msk =
     list_all (\<lambda>j. ColorMask_contains msk (color_of (start + of_nat j * PAGE) colors)) [0..<unat npages]"

text \<open>
  The inner \<open>while tries <= colors\<close> loop: the first start, in steps of the alignment, whose run after
  the prefix has allowed colours. The last argument counts the tries that are left.
\<close>

fun color_search ::
  "u64 \<Rightarrow> u64 \<Rightarrow> u64 \<Rightarrow> u64 \<Rightarrow> u64 \<Rightarrow> u32 \<Rightarrow> ColorMask \<Rightarrow> u64 \<Rightarrow> nat \<Rightarrow> u64 option" where
  "color_search vorspann sz gefaerbt step zone_end colors msk start 0 = None"
| "color_search vorspann sz gefaerbt step zone_end colors msk start (Suc k) =
     (case checked_add start sz of
        None \<Rightarrow> None
      | Some e \<Rightarrow>
          if e > zone_end then None
          else if run_is_colored (start + vorspann * PAGE) gefaerbt colors msk then Some start
          else (case checked_add start step of
                  None \<Rightarrow> None
                | Some next \<Rightarrow>
                    color_search vorspann sz gefaerbt step zone_end colors msk next k))"

definition color_candidate ::
  "nat \<Rightarrow> u64 \<Rightarrow> u64 \<Rightarrow> u64 \<Rightarrow> u64 \<Rightarrow> u32 \<Rightarrow> ColorMask \<Rightarrow> u64 \<Rightarrow> u64 \<Rightarrow> PhysRegion \<Rightarrow>
   (u64 \<times> u64) option" where
  "color_candidate n vorspann sz gefaerbt align colors msk lo hi r =
     (let zone_start = max (r_base r) lo;
          zone_end = min (region_end r) hi
      in if zone_end \<le> zone_start then None
         else
           let nutzbar = zone_end - zone_start in
           (case color_search vorspann sz gefaerbt align zone_end colors msk
                   (align_up zone_start align) (unat colors + 1) of
              None \<Rightarrow> None
            | Some start \<Rightarrow>
                if start > r_base r \<and> start + sz < region_end r \<and> n \<ge> MAX_FRAGMENTS then None
                else Some (start, nutzbar)))"

fun best_fit_colored ::
  "(PhysRegion \<Rightarrow> (u64 \<times> u64) option) \<Rightarrow> PhysRegion list \<Rightarrow> nat \<Rightarrow> (nat \<times> u64) option \<Rightarrow> u64 \<Rightarrow>
   (nat \<times> u64) option" where
  "best_fit_colored f [] i best best_nutzbar = best"
| "best_fit_colored f (r # rs) i best best_nutzbar =
     (case f r of
        Some (start, nutzbar) \<Rightarrow>
          if nutzbar < best_nutzbar then best_fit_colored f rs (i + 1) (Some (i, start)) nutzbar
          else best_fit_colored f rs (i + 1) best best_nutzbar
      | None \<Rightarrow> best_fit_colored f rs (i + 1) best best_nutzbar)"

definition alloc_colored_vorspann_in ::
  "PhysAllocator \<Rightarrow> u64 \<Rightarrow> u64 \<Rightarrow> u64 \<Rightarrow> u32 \<Rightarrow> ColorMask \<Rightarrow> u64 \<Rightarrow> u64 \<Rightarrow> PhysAllocator \<times> MemoryCap option" where
  "alloc_colored_vorspann_in a vorspann sz0 align0 colors msk lo hi =
     (if ColorMask_is_empty msk then (a, None)
      else if colors \<le> 1 \<or> msk = ColorMask_ALL then alloc_in a sz0 align0 lo hi
      else
        let align = max align0 PAGE;
            sz = align_up (max sz0 1) PAGE;
            npages = sz div PAGE
        in if vorspann \<ge> npages then (a, None)
           else
             let gefaerbt = npages - vorspann in
             if gefaerbt > 64 then (a, None)
             else (case best_fit_colored (color_candidate (pa_len a) vorspann sz gefaerbt align colors msk lo hi)
                          (take (pa_len a) (pa_regions a)) 0 None (- 1) of
                     None \<Rightarrow> (a, None)
                   | Some (i, start) \<Rightarrow> carve a i start sz))"

definition alloc_colored_in ::
  "PhysAllocator \<Rightarrow> u64 \<Rightarrow> u64 \<Rightarrow> u32 \<Rightarrow> ColorMask \<Rightarrow> u64 \<Rightarrow> u64 \<Rightarrow> PhysAllocator \<times> MemoryCap option" where
  "alloc_colored_in a sz align colors msk lo hi = alloc_colored_vorspann_in a 0 sz align colors msk lo hi"

definition alloc_colored_below ::
  "PhysAllocator \<Rightarrow> u64 \<Rightarrow> u64 \<Rightarrow> u32 \<Rightarrow> ColorMask \<Rightarrow> u64 \<Rightarrow> PhysAllocator \<times> MemoryCap option" where
  "alloc_colored_below a sz align colors msk limit = alloc_colored_in a sz align colors msk 0 limit"

definition alloc_colored ::
  "PhysAllocator \<Rightarrow> u64 \<Rightarrow> u64 \<Rightarrow> u32 \<Rightarrow> ColorMask \<Rightarrow> PhysAllocator \<times> MemoryCap option" where
  "alloc_colored a sz align colors msk = alloc_colored_below a sz align colors msk (- 1)"

section \<open>Release and queries\<close>

definition pa_free :: "PhysAllocator \<Rightarrow> MemoryCap \<Rightarrow> PhysAllocator \<times> bool" where
  "pa_free a c = pa_insert a (mc_region c)"

definition free_region :: "PhysAllocator \<Rightarrow> PhysRegion \<Rightarrow> PhysAllocator \<times> bool" where
  "free_region a r = pa_insert a r"

definition fully_free :: "PhysAllocator \<Rightarrow> u64 \<Rightarrow> u64 \<Rightarrow> bool" where
  "fully_free a b l =
     (if l = 0 then True
      else (case checked_add b l of
              None \<Rightarrow> False
            | Some e \<Rightarrow> list_ex (\<lambda>r. r_base r \<le> b \<and> e \<le> region_end r) (take (pa_len a) (pa_regions a))))"

definition total_free :: "PhysAllocator \<Rightarrow> u64" where
  "total_free a = foldl (\<lambda>sum r. sum + r_len r) 0 (take (pa_len a) (pa_regions a))"

definition fragments :: "PhysAllocator \<Rightarrow> nat" where
  "fragments a = pa_len a"

definition overlaps_free :: "PhysAllocator \<Rightarrow> u64 \<Rightarrow> u64 \<Rightarrow> bool" where
  "overlaps_free a b l =
     (if l = 0 then False
      else let e = saturating_add64 b l
           in list_ex (\<lambda>r. b < r_base r + r_len r \<and> r_base r < e) (take (pa_len a) (pa_regions a)))"

section \<open>The array implements a sorted list\<close>

definition pa_view :: "PhysAllocator \<Rightarrow> PhysRegion list" where
  "pa_view a = take (pa_len a) (pa_regions a)"

definition pa_wf :: "PhysAllocator \<Rightarrow> bool" where
  "pa_wf a \<longleftrightarrow> length (pa_regions a) = MAX_FRAGMENTS \<and> pa_len a \<le> MAX_FRAGMENTS"

function coal_list :: "PhysRegion list \<Rightarrow> PhysRegion list" where
  "coal_list [] = []"
| "coal_list [r] = [r]"
| "coal_list (r # s # rs) =
     (if region_end r = r_base s then coal_list (r\<lparr>r_len := r_len r + r_len s\<rparr> # rs)
      else r # coal_list (s # rs))"
  by pat_completeness auto
termination by (relation "measure length") auto

definition ins_list :: "PhysRegion list \<Rightarrow> PhysRegion \<Rightarrow> PhysRegion list" where
  "ins_list rs r = coal_list (takeWhile (\<lambda>s. r_base s < r_base r) rs @ r #
                              dropWhile (\<lambda>s. r_base s < r_base r) rs)"

lemma length_pa_view [simp]: "pa_wf a \<Longrightarrow> length (pa_view a) = pa_len a"
  by (simp add: pa_view_def pa_wf_def)

lemma insert_pos_eq:
  "n \<le> length rs \<Longrightarrow> i \<le> n \<Longrightarrow>
   insert_pos rs n b i = i + length (takeWhile (\<lambda>r. r_base r < b) (drop i (take n rs)))"
proof (induction rs n b i rule: insert_pos.induct)
  case (1 rs n b i)
  show ?case
  proof (cases "i < n")
    case True
    then have "drop i (take n rs) = rs ! i # drop (Suc i) (take n rs)"
      using 1(2) by (subst Cons_nth_drop_Suc [symmetric]) auto
    then show ?thesis
      using True 1 by (simp add: insert_pos.simps [of rs n b i])
  next
    case False
    then show ?thesis
      using 1(2,3) insert_pos.simps [of rs n b i] by simp
  qed
qed

lemma shift_up_nth:
  "j < length rs \<Longrightarrow> length (shift_up rs i j) = length rs \<and>
   (\<forall>k<length rs. shift_up rs i j ! k = (if i < k \<and> k \<le> j then rs ! (k - 1) else rs ! k))"
proof (induction rs i j rule: shift_up.induct)
  case (1 rs i j)
  show ?case
  proof (cases "i < j")
    case True
    with 1 have IH: "length (shift_up (rs[j := rs ! (j - 1)]) i (j - 1)) = length rs"
      "\<forall>k<length rs. shift_up (rs[j := rs ! (j - 1)]) i (j - 1) ! k =
         (if i < k \<and> k \<le> j - 1 then rs[j := rs ! (j - 1)] ! (k - 1) else rs[j := rs ! (j - 1)] ! k)"
      by auto
    have eq: "shift_up rs i j = shift_up (rs[j := rs ! (j - 1)]) i (j - 1)"
      using True by (simp add: shift_up.simps [of rs i j])
    show ?thesis
      unfolding eq using IH True 1(2) by (auto simp: nth_list_update)
  next
    case False
    then show ?thesis by (auto simp: shift_up.simps [of rs i j])
  qed
qed

lemma shift_down_nth:
  "n \<le> length rs \<Longrightarrow> length (shift_down rs n k) = length rs \<and>
   (\<forall>l<length rs. shift_down rs n k ! l = (if k \<le> l \<and> l + 1 < n then rs ! (l + 1) else rs ! l))"
proof (induction rs n k rule: shift_down.induct)
  case (1 rs n k)
  show ?case
  proof (cases "k + 1 < n")
    case True
    with 1 have IH: "length (shift_down (rs[k := rs ! (k + 1)]) n (k + 1)) = length rs"
      "\<forall>l<length rs. shift_down (rs[k := rs ! (k + 1)]) n (k + 1) ! l =
         (if k + 1 \<le> l \<and> l + 1 < n then rs[k := rs ! (k + 1)] ! (l + 1) else rs[k := rs ! (k + 1)] ! l)"
      by auto
    have eq: "shift_down rs n k = shift_down (rs[k := rs ! (k + 1)]) n (k + 1)"
      using True by (simp add: shift_down.simps [of rs n k])
    show ?thesis
      unfolding eq using IH True 1(2) by (auto simp: nth_list_update)
  next
    case False
    then show ?thesis by (auto simp: shift_down.simps [of rs n k])
  qed
qed

lemma take_shift_down:
  assumes "n \<le> length rs" "k < n"
  shows "take (n - 1) (shift_down rs n k) = take k rs @ drop (Suc k) (take n rs)"
proof (rule nth_equalityI)
  show "length (take (n - 1) (shift_down rs n k)) = length (take k rs @ drop (Suc k) (take n rs))"
    using assms shift_down_nth [OF assms(1), of k] by simp
next
  fix l
  assume "l < length (take (n - 1) (shift_down rs n k))"
  then have "l < n - 1" by simp
  then show "take (n - 1) (shift_down rs n k) ! l = (take k rs @ drop (Suc k) (take n rs)) ! l"
    using assms shift_down_nth [OF assms(1), of k] by (auto simp: nth_append)
qed

lemma take_shift_up:
  assumes "n < length rs" "i \<le> n"
  shows "take (n + 1) ((shift_up rs i n)[i := r]) = take i rs @ r # drop i (take n rs)"
proof (rule nth_equalityI)
  show "length (take (n + 1) ((shift_up rs i n)[i := r])) = length (take i rs @ r # drop i (take n rs))"
    using assms shift_up_nth [OF assms(1), of i] by simp
next
  fix l
  assume "l < length (take (n + 1) ((shift_up rs i n)[i := r]))"
  then have l: "l < n + 1" by simp
  consider "l < i" | "l = i" | "i < l" by linarith
  then show "take (n + 1) ((shift_up rs i n)[i := r]) ! l = (take i rs @ r # drop i (take n rs)) ! l"
  proof cases
    case 3
    then obtain m where m: "l = Suc m" by (cases l) auto
    then show ?thesis
      using 3 l assms shift_up_nth [OF assms(1), of i]
      by (auto simp: nth_append nth_Cons' Suc_diff_le)
  qed (use l assms shift_up_nth [OF assms(1), of i] in \<open>auto simp: nth_append\<close>)
qed

lemma drop_take_Cons: "i < n \<Longrightarrow> n \<le> length rs \<Longrightarrow> drop i (take n rs) = rs ! i # drop (Suc i) (take n rs)"
  by (subst Cons_nth_drop_Suc [symmetric]) auto

lemma coalesce_loop_view:
  "n \<le> length rs \<Longrightarrow> i \<le> n \<Longrightarrow> coalesce_loop rs n i = (rs', n') \<Longrightarrow>
   length rs' = length rs \<and> n' \<le> n \<and> take n' rs' = take i rs @ coal_list (drop i (take n rs))"
proof (induction rs n i arbitrary: rs' n' rule: coalesce_loop.induct)
  case (1 rs n i)
  note n = 1(3) and i = 1(4)
  let ?ys = "drop (i + 2) (take n rs)"
  consider "i = n" | "Suc i = n" | "i + 1 < n" using i by linarith
  then show ?case
  proof cases
    case 1
    then show ?thesis using \<open>coalesce_loop rs n i = (rs', n')\<close> coalesce_loop.simps [of rs n i] n
      by simp
  next
    case 2
    then have "drop i (take n rs) = [rs ! i]"
      using n by (subst drop_take_Cons) auto
    moreover have "take n rs = take i rs @ [rs ! i]"
      using 2 n by (metis Suc_le_eq take_Suc_conv_app_nth)
    ultimately show ?thesis using \<open>coalesce_loop rs n i = (rs', n')\<close> coalesce_loop.simps [of rs n i] 2
      by auto
  next
    case 3
    then have ys: "drop i (take n rs) = rs ! i # rs ! (i + 1) # ?ys"
      using n by (simp add: drop_take_Cons)
    show ?thesis
    proof (cases "region_end (rs ! i) = r_base (rs ! (i + 1))")
      case True
      define m where "m = (rs ! i)\<lparr>r_len := r_len (rs ! i) + r_len (rs ! (i + 1))\<rparr>"
      define rs2 where "rs2 = shift_down (rs[i := m]) n (i + 1)"
      have loop: "coalesce_loop rs2 (n - 1) i = (rs', n')"
        using \<open>coalesce_loop rs n i = (rs', n')\<close> 3 True
        by (simp add: coalesce_loop.simps [of rs n i] rs2_def m_def)
      have len: "length rs2 = length rs"
        using n shift_down_nth [of n "rs[i := m]" "i + 1"] by (simp add: rs2_def)
      have "take (n - 1) rs2 = take (i + 1) (rs[i := m]) @ drop (Suc (i + 1)) (take n (rs[i := m]))"
        unfolding rs2_def by (rule take_shift_down) (use n 3 in auto)
      also have "\<dots> = take i rs @ m # ?ys"
        using n 3 by (simp add: take_Suc_conv_app_nth take_update_swap drop_update_swap list_update_append)
      finally have t: "take (n - 1) rs2 = take i rs @ m # ?ys" .
      have ti: "take i rs2 = take i rs"
        using arg_cong [OF t, of "take i"] 3 n by (simp add: min_def split: if_splits)
      have di: "drop i (take (n - 1) rs2) = m # ?ys"
        unfolding t using 3 n by simp
      have "length rs' = length rs2 \<and> n' \<le> n - 1 \<and>
            take n' rs' = take i rs2 @ coal_list (drop i (take (n - 1) rs2))"
        using 1(1) [OF 3 True refl, folded m_def, folded rs2_def, OF _ _ loop] 3 n len by simp
      then show ?thesis
        using True ys ti di len by (auto simp: m_def)
    next
      case False
      have "coalesce_loop rs n (i + 1) = (rs', n')"
        using \<open>coalesce_loop rs n i = (rs', n')\<close> 3 False by (simp add: coalesce_loop.simps [of rs n i])
      with 1(2) [OF 3 False n] 3
      have IH: "length rs' = length rs" "n' \<le> n" "take n' rs' = take (i + 1) rs @ coal_list (drop (i + 1) (take n rs))"
        by auto
      have "take (i + 1) rs = take i rs @ [rs ! i]"
        using 3 n by (simp add: take_Suc_conv_app_nth)
      moreover have "drop (i + 1) (take n rs) = rs ! (i + 1) # ?ys"
        using ys 3 n by (simp add: drop_take_Cons)
      ultimately show ?thesis
        using IH ys False by simp
    qed
  qed
qed

lemma pa_wf_coalesce:
  assumes "pa_wf a"
  shows "pa_wf (coalesce a)" "pa_view (coalesce a) = coal_list (pa_view a)"
proof -
  obtain rs' n' where "coalesce_loop (pa_regions a) (pa_len a) 0 = (rs', n')" by fastforce
  with coalesce_loop_view [OF _ _ this] assms
  show "pa_wf (coalesce a)" "pa_view (coalesce a) = coal_list (pa_view a)"
    by (auto simp: pa_wf_def coalesce_def pa_view_def)
qed

lemma take_length_takeWhile: "take (length (takeWhile P xs)) xs = takeWhile P xs"
  by (metis append_eq_conv_conj takeWhile_dropWhile_id)

lemma drop_length_takeWhile: "drop (length (takeWhile P xs)) xs = dropWhile P xs"
  by (metis append_eq_conv_conj takeWhile_dropWhile_id)

lemma length_takeWhile_dropWhile: "length (takeWhile P xs) + length (dropWhile P xs) = length xs"
  by (metis length_append takeWhile_dropWhile_id)

lemma view_insert:
  assumes "pa_wf a"
  shows "pa_wf (fst (pa_insert a r))"
    and "snd (pa_insert a r) \<longleftrightarrow> region_is_empty r \<or> length (pa_view a) < MAX_FRAGMENTS"
    and "pa_view (fst (pa_insert a r)) =
      (if region_is_empty r \<or> length (pa_view a) \<ge> MAX_FRAGMENTS then pa_view a else ins_list (pa_view a) r)"
proof -
  let ?n = "pa_len a" and ?rs = "pa_regions a"
  let ?i = "insert_pos ?rs ?n (r_base r) 0"
  let ?b = "\<lparr>pa_regions = (shift_up ?rs ?i ?n)[?i := r], pa_len = ?n + 1\<rparr>"
  have i: "?i = length (takeWhile (\<lambda>s. r_base s < r_base r) (pa_view a))"
    using assms insert_pos_eq [of ?n ?rs 0 "r_base r"] by (simp add: pa_wf_def pa_view_def)
  have i_le: "?i \<le> ?n"
    unfolding i using assms length_takeWhile_le [of _ "pa_view a"] by (metis length_pa_view)
  show "snd (pa_insert a r) \<longleftrightarrow> region_is_empty r \<or> length (pa_view a) < MAX_FRAGMENTS"
    using assms by (simp add: pa_insert_def Let_def not_le)
  {
    assume *: "\<not> region_is_empty r" "?n < MAX_FRAGMENTS"
    have wf: "pa_wf ?b"
      using * assms shift_up_nth [of ?n ?rs ?i] by (simp add: pa_wf_def)
    have "pa_view ?b = take ?i ?rs @ r # drop ?i (take ?n ?rs)"
      unfolding pa_view_def using take_shift_up [of ?n ?rs ?i r] * assms i_le by (simp add: pa_wf_def)
    also have "take ?i ?rs = take ?i (pa_view a)"
      using i_le by (simp add: pa_view_def min_def)
    finally have v: "pa_view ?b = takeWhile (\<lambda>s. r_base s < r_base r) (pa_view a) @ r #
        dropWhile (\<lambda>s. r_base s < r_base r) (pa_view a)"
      unfolding i by (simp add: take_length_takeWhile drop_length_takeWhile flip: pa_view_def)
    have "fst (pa_insert a r) = coalesce ?b"
      using * by (simp add: pa_insert_def Let_def)
    with pa_wf_coalesce [OF wf] v have "pa_wf (fst (pa_insert a r))" "pa_view (fst (pa_insert a r)) = ins_list (pa_view a) r"
      by (simp_all add: ins_list_def)
  }
  note main = this
  show "pa_wf (fst (pa_insert a r))"
    and "pa_view (fst (pa_insert a r)) =
      (if region_is_empty r \<or> length (pa_view a) \<ge> MAX_FRAGMENTS then pa_view a else ins_list (pa_view a) r)"
    using main assms by (auto simp: pa_insert_def Let_def not_le)
qed

lemma view_remove:
  assumes "pa_wf a" "i < pa_len a"
  shows "pa_wf (pa_remove a i)" "pa_view (pa_remove a i) = take i (pa_view a) @ drop (Suc i) (pa_view a)"
  using assms take_shift_down [of "pa_len a" "pa_regions a" i] shift_down_nth [of "pa_len a" "pa_regions a" i]
  by (auto simp: pa_wf_def pa_remove_def pa_view_def min_def)

section \<open>Sorted, separated fragments\<close>

definition r_stop :: "PhysRegion \<Rightarrow> nat" where
  "r_stop r = unat (r_base r) + unat (r_len r)"

definition frags_ok :: "(nat \<Rightarrow> nat \<Rightarrow> bool) \<Rightarrow> PhysRegion list \<Rightarrow> bool" where
  "frags_ok R rs \<longleftrightarrow> (\<forall>r\<in>set rs. \<not> region_is_empty r \<and> region_ok r) \<and>
                  sorted_wrt (\<lambda>r s. R (r_stop r) (unat (r_base s))) rs"

definition free_set :: "PhysRegion list \<Rightarrow> nat set" where
  "free_set rs = (\<Union>r\<in>set rs. addrs r)"

definition pa_inv :: "PhysAllocator \<Rightarrow> bool" where
  "pa_inv a \<longleftrightarrow> pa_wf a \<and> frags_ok (<) (pa_view a)"

lemma addrs_stop: "addrs r = {unat (r_base r) ..< r_stop r}"
  by (simp add: addrs_def r_stop_def)

lemma r_len_pos: "\<not> region_is_empty r \<longleftrightarrow> unat (r_base r) < r_stop r"
  by (auto simp: region_is_empty_def r_stop_def unat_gt_0)

lemma unat_region_end_stop: "region_ok r \<Longrightarrow> unat (region_end r) = r_stop r"
  by (simp add: unat_region_end r_stop_def)

lemma frags_ok_Cons:
  "frags_ok R (r # rs) \<longleftrightarrow> \<not> region_is_empty r \<and> region_ok r \<and> (\<forall>s\<in>set rs. R (r_stop r) (unat (r_base s))) \<and> frags_ok R rs"
  by (auto simp: frags_ok_def)

lemma frags_ok_Nil [simp]: "frags_ok R []"
  by (simp add: frags_ok_def)

lemma frags_ok_append:
  "frags_ok R (rs @ ss) \<longleftrightarrow> frags_ok R rs \<and> frags_ok R ss \<and> (\<forall>r\<in>set rs. \<forall>s\<in>set ss. R (r_stop r) (unat (r_base s)))"
  by (auto simp: frags_ok_def sorted_wrt_append)

lemma free_set_simps [simp]:
  "free_set [] = {}" "free_set (r # rs) = addrs r \<union> free_set rs" "free_set (rs @ ss) = free_set rs \<union> free_set ss"
  by (auto simp: free_set_def)

lemma r_base_coal_list: "x \<in> set (coal_list rs) \<Longrightarrow> \<exists>y\<in>set rs. r_base x = r_base y"
  by (induction rs rule: coal_list.induct) (auto split: if_splits)

lemma length_coal_list: "length (coal_list rs) \<le> length rs"
  by (induction rs rule: coal_list.induct) auto

lemma merge_region:
  assumes "region_ok r" "region_ok s" "region_end r = r_base s"
  defines "m \<equiv> r\<lparr>r_len := r_len r + r_len s\<rparr>"
  shows "region_ok m" "r_stop m = r_stop s" "addrs m = addrs r \<union> addrs s"
    "\<not> region_is_empty r \<Longrightarrow> \<not> region_is_empty m"
proof -
  have e: "r_stop r = unat (r_base s)"
    using assms(1,3) unat_region_end_stop [of r] by simp
  then have "unat (r_len r) + unat (r_len s) < 2 ^ 64"
    using assms(2) by (simp add: r_stop_def region_ok_def)
  then have l: "unat (r_len m) = unat (r_len r) + unat (r_len s)"
    by (simp add: m_def unat_add_u64)
  have b: "r_base m = r_base r" by (simp add: m_def)
  show st: "r_stop m = r_stop s"
    using e by (simp add: r_stop_def l b)
  show "region_ok m"
    using st assms(2) by (simp add: region_ok_def r_stop_def)
  show "addrs m = addrs r \<union> addrs s"
    using e st b by (auto simp: addrs_stop) (auto simp: r_stop_def)
  show "\<not> region_is_empty r \<Longrightarrow> \<not> region_is_empty m"
    using l by (auto simp: region_is_empty_def unat_eq_0 [symmetric])
qed

lemma coal_list_ok:
  "frags_ok (\<le>) rs \<Longrightarrow> frags_ok (<) (coal_list rs) \<and> free_set (coal_list rs) = free_set rs"
proof (induction rs rule: coal_list.induct)
  case (3 r s rs)
  let ?m = "r\<lparr>r_len := r_len r + r_len s\<rparr>"
  from 3(3) have ok: "region_ok r" "region_ok s" "\<not> region_is_empty r" "\<not> region_is_empty s"
    by (auto simp: frags_ok_Cons)
  show ?case
  proof (cases "region_end r = r_base s")
    case True
    note m = merge_region [OF ok(1,2) True]
    have "frags_ok (\<le>) (?m # rs)"
      using 3(3) m ok by (auto simp: frags_ok_Cons)
    with 3(1) [OF True] True m(3) show ?thesis by auto
  next
    case False
    have IH: "frags_ok (<) (coal_list (s # rs))" "free_set (coal_list (s # rs)) = free_set (s # rs)"
      using 3(2) [OF False] 3(3) by (auto simp: frags_ok_Cons)
    have rs: "r_stop r < unat (r_base s)"
      using 3(3) False ok unat_region_end_stop [of r]
      by (auto simp: frags_ok_Cons less_le word_unat_eq_iff)
    have "r_stop r < unat (r_base x)" if "x \<in> set (coal_list (s # rs))" for x
    proof -
      from r_base_coal_list [OF that] obtain y where y: "y \<in> set (s # rs)" "r_base x = r_base y" by blast
      have "unat (r_base s) \<le> unat (r_base y)"
        using y(1) 3(3) ok(4) by (auto simp: frags_ok_Cons r_len_pos)
      with rs y(2) show ?thesis by simp
    qed
    with IH ok False show ?thesis by (simp add: frags_ok_Cons)
  qed
qed (auto simp: frags_ok_Cons)

lemma frags_ok_weaken: "frags_ok (<) rs \<Longrightarrow> frags_ok (\<le>) rs"
  unfolding frags_ok_def using sorted_wrt_mono_rel [of rs "\<lambda>r s. r_stop r < unat (r_base s)"] by force

lemma disjoint_addrs_cases:
  assumes "addrs r \<inter> addrs x = {}" "unat (r_base x) < r_stop x" "unat (r_base r) < r_stop r"
  shows "r_stop x \<le> unat (r_base r) \<or> r_stop r \<le> unat (r_base x)"
proof (rule ccontr)
  assume "\<not> ?thesis"
  with assms(2,3) have "max (unat (r_base r)) (unat (r_base x)) \<in> addrs r \<inter> addrs x"
    by (auto simp: addrs_stop)
  with assms(1) show False by blast
qed

lemma ins_list_ok:
  assumes "frags_ok (<) rs" "\<not> region_is_empty r" "region_ok r" "addrs r \<inter> free_set rs = {}"
  shows "frags_ok (<) (ins_list rs r)" "free_set (ins_list rs r) = free_set rs \<union> addrs r"
    "length (ins_list rs r) \<le> length rs + 1"
proof -
  let ?P = "\<lambda>s. r_base s < r_base r"
  let ?l = "takeWhile ?P rs" and ?u = "dropWhile ?P rs"
  have split: "rs = ?l @ ?u" by simp
  have ok: "frags_ok (\<le>) ?l" "frags_ok (\<le>) ?u" "\<forall>x\<in>set ?l. \<forall>y\<in>set ?u. r_stop x \<le> unat (r_base y)"
    using frags_ok_weaken [OF assms(1)] frags_ok_append [of "(\<le>)" ?l ?u] by simp_all
  have disj: "r_stop x \<le> unat (r_base r) \<or> r_stop r \<le> unat (r_base x)" if "x \<in> set rs" for x
  proof -
    have "addrs r \<inter> addrs x = {}" using assms(4) that by (auto simp: free_set_def)
    moreover have "unat (r_base x) < r_stop x" using assms(1) that by (auto simp: frags_ok_def r_len_pos)
    moreover have "unat (r_base r) < r_stop r" using assms(2) by (simp add: r_len_pos)
    ultimately show ?thesis by (metis disjoint_addrs_cases)
  qed
  have low: "r_stop x \<le> unat (r_base r)" if "x \<in> set ?l" for x
  proof -
    from that have "x \<in> set rs" "r_base x < r_base r"
      by (auto dest: set_takeWhileD)
    with disj [of x] assms(2) show ?thesis by (auto simp: word_less_nat_alt r_len_pos)
  qed
  have first: "r_base r \<le> r_base y" if "?u = y # ys" for y ys
    using that hd_dropWhile [of ?P rs] by (auto simp: not_less)
  have up: "r_stop r \<le> unat (r_base y)" if y: "y \<in> set ?u" for y
  proof -
    obtain z zs where z: "?u = z # zs" using y by (cases ?u) auto
    then have "unat (r_base z) \<le> unat (r_base y)"
      using ok(2) y by (auto simp: frags_ok_Cons r_len_pos)
    with first [OF z] have "unat (r_base r) \<le> unat (r_base y)"
      by (simp add: word_le_nat_alt)
    moreover have "y \<in> set rs" using y by (rule set_dropWhileD)
    moreover then have "unat (r_base y) < r_stop y" using assms(1) by (auto simp: frags_ok_def r_len_pos)
    ultimately show ?thesis using disj [of y] by auto
  qed
  have "frags_ok (\<le>) (?l @ r # ?u)"
    using ok low up assms(2,3) by (auto simp: frags_ok_append frags_ok_Cons)
  from coal_list_ok [OF this]
  show "frags_ok (<) (ins_list rs r)" "free_set (ins_list rs r) = free_set rs \<union> addrs r"
    using arg_cong [OF split, of free_set] by (auto simp: ins_list_def simp del: takeWhile_dropWhile_id)
  have "length (ins_list rs r) \<le> length (?l @ r # ?u)"
    unfolding ins_list_def by (rule length_coal_list)
  also have "\<dots> = length rs + 1"
    by (simp add: length_takeWhile_dropWhile)
  finally show "length (ins_list rs r) \<le> length rs + 1" .
qed

text \<open>The fragment list is determined by the set of free addresses.\<close>

lemma frags_tail_disjoint:
  "frags_ok (<) (r # rs) \<Longrightarrow> addrs r \<inter> free_set rs = {} \<and> (\<forall>x\<in>free_set rs. r_stop r < x)"
  by (auto simp: frags_ok_Cons free_set_def addrs_stop)

lemma frags_stop_le:
  assumes "frags_ok (<) (r # rs)" "frags_ok (<) (s # ss)" "free_set (r # rs) = free_set (s # ss)"
    "r_base r = r_base s"
  shows "r_stop r \<le> r_stop s"
proof (rule ccontr)
  assume "\<not> r_stop r \<le> r_stop s"
  moreover have "unat (r_base s) < r_stop s"
    using assms(2) by (simp add: frags_ok_Cons r_len_pos)
  ultimately have "r_stop s \<in> free_set (r # rs)"
    using assms(4) by (auto simp: addrs_stop)
  with assms(3) have "r_stop s \<in> free_set (s # ss)" by simp
  with frags_tail_disjoint [OF assms(2)] show False by (auto simp: addrs_stop)
qed

lemma frags_base_le:
  assumes "frags_ok (<) (r # rs)" "frags_ok (<) (s # ss)" "free_set (r # rs) = free_set (s # ss)"
  shows "unat (r_base s) \<le> unat (r_base r)"
proof -
  have "unat (r_base r) \<in> free_set (r # rs)"
    using assms(1) by (simp add: frags_ok_Cons r_len_pos addrs_stop)
  with assms(3) have "unat (r_base r) \<in> free_set (s # ss)" by simp
  with frags_tail_disjoint [OF assms(2)] assms(2) show ?thesis
    by (auto simp: addrs_stop frags_ok_Cons r_len_pos dest!: bspec)
qed

lemma frags_unique:
  "frags_ok (<) rs \<Longrightarrow> frags_ok (<) ss \<Longrightarrow> free_set rs = free_set ss \<Longrightarrow> rs = ss"
proof (induction rs arbitrary: ss)
  case Nil
  then show ?case by (cases ss) (auto simp: frags_ok_Cons addrs_empty_iff)
next
  case (Cons r rs)
  then obtain s ss' where ss: "ss = s # ss'"
    by (cases ss) (auto simp: frags_ok_Cons addrs_empty_iff)
  note ok = Cons.prems(1) Cons.prems(2) [unfolded ss] Cons.prems(3) [unfolded ss]
  have b: "r_base r = r_base s"
    using frags_base_le [OF ok] frags_base_le [OF ok(2,1) ok(3) [symmetric]] by (simp add: word_unat_eq_iff)
  have "r_stop r = r_stop s"
    using frags_stop_le [OF ok b] frags_stop_le [OF ok(2,1) ok(3) [symmetric] b [symmetric]] by simp
  with b have rs: "r = s"
    by (simp add: r_stop_def word_unat_eq_iff)
  have "free_set rs = free_set (r # rs) - addrs r" "free_set ss' = free_set (s # ss') - addrs s"
    using frags_tail_disjoint [OF ok(1)] frags_tail_disjoint [OF ok(2)] by auto
  with ok(3) rs have "free_set rs = free_set ss'" by metis
  moreover have "frags_ok (<) rs" "frags_ok (<) ss'"
    using ok(1,2) unfolding frags_ok_Cons by blast+
  ultimately have "rs = ss'" by (intro Cons.IH)
  with rs ss show ?case by simp
qed

section \<open>Insertion, removal and carving on the allocator\<close>

lemma pa_inv_new: "pa_inv PhysAllocator_new" "pa_view PhysAllocator_new = []"
  by (simp_all add: pa_inv_def pa_wf_def PhysAllocator_new_def pa_view_def)

lemma insert_ok:
  assumes "pa_inv a" "region_ok r" "addrs r \<inter> free_set (pa_view a) = {}"
    and "region_is_empty r \<or> pa_len a < MAX_FRAGMENTS"
  shows "pa_inv (fst (pa_insert a r))" "snd (pa_insert a r)"
    "free_set (pa_view (fst (pa_insert a r))) = free_set (pa_view a) \<union> addrs r"
    "pa_len (fst (pa_insert a r)) \<le> pa_len a + 1"
proof -
  have wf: "pa_wf a" and ok: "frags_ok (<) (pa_view a)" using assms(1) by (auto simp: pa_inv_def)
  note vi = view_insert [OF wf, of r]
  show "snd (pa_insert a r)" using vi(2) assms(4) wf by simp
  have "pa_inv (fst (pa_insert a r)) \<and>
      free_set (pa_view (fst (pa_insert a r))) = free_set (pa_view a) \<union> addrs r \<and>
      length (pa_view (fst (pa_insert a r))) \<le> pa_len a + 1"
  proof (cases "region_is_empty r")
    case True
    then show ?thesis using assms(1) wf by (simp add: pa_insert_def addrs_empty_iff [symmetric])
  next
    case False
    with assms(4) wf have "pa_view (fst (pa_insert a r)) = ins_list (pa_view a) r"
      using vi(3) by simp
    with ins_list_ok [OF ok False assms(2,3)] vi(1) wf show ?thesis
      by (simp add: pa_inv_def)
  qed
  then show "pa_inv (fst (pa_insert a r))"
    "free_set (pa_view (fst (pa_insert a r))) = free_set (pa_view a) \<union> addrs r"
    "pa_len (fst (pa_insert a r)) \<le> pa_len a + 1"
    using vi(1) by auto
qed

lemma insert_full:
  assumes "pa_wf a" "\<not> region_is_empty r" "MAX_FRAGMENTS \<le> pa_len a"
  shows "pa_insert a r = (a, False)"
  using assms by (simp add: pa_insert_def)

lemma view_nth: "pa_wf a \<Longrightarrow> i < pa_len a \<Longrightarrow> pa_view a ! i = pa_regions a ! i"
  by (simp add: pa_view_def)

lemma remove_ok:
  assumes "pa_inv a" "i < pa_len a"
  defines "r \<equiv> pa_regions a ! i"
  shows "pa_inv (pa_remove a i)" "free_set (pa_view (pa_remove a i)) = free_set (pa_view a) - addrs r"
    "pa_len (pa_remove a i) = pa_len a - 1" "addrs r \<subseteq> free_set (pa_view a)" "region_ok r" "\<not> region_is_empty r"
proof -
  have wf: "pa_wf a" and ok: "frags_ok (<) (pa_view a)" using assms(1) by (auto simp: pa_inv_def)
  let ?l = "take i (pa_view a)" and ?u = "drop (Suc i) (pa_view a)"
  have sp: "pa_view a = ?l @ r # ?u"
    using assms(2) wf by (simp add: r_def view_nth [symmetric] id_take_nth_drop [symmetric])
  note ok' = ok [unfolded sp [symmetric]]
  have o: "frags_ok (<) (?l @ r # ?u)" using ok sp by simp
  have f: "free_set (pa_view a) = free_set ?l \<union> addrs r \<union> free_set ?u"
    using arg_cong [OF sp, of free_set] by auto
  have d: "addrs r \<inter> free_set ?l = {}" "addrs r \<inter> free_set ?u = {}"
    using o by (auto simp: frags_ok_append frags_ok_Cons free_set_def addrs_stop)
  have nonempty: "unat (r_base x) < r_stop x" if "x \<in> set ?l" for x
    using o that by (auto simp: frags_ok_def r_len_pos)
  have "frags_ok (<) (?l @ ?u)"
    using o by (auto simp: frags_ok_append frags_ok_Cons)
  with view_remove [OF wf assms(2)] show "pa_inv (pa_remove a i)"
    by (simp add: pa_inv_def)
  show "free_set (pa_view (pa_remove a i)) = free_set (pa_view a) - addrs r"
    using view_remove [OF wf assms(2)] f d by auto
  show "pa_len (pa_remove a i) = pa_len a - 1" by (simp add: pa_remove_def)
  show "addrs r \<subseteq> free_set (pa_view a)" using f by blast
  show "region_ok r" "\<not> region_is_empty r" using o by (auto simp: frags_ok_append frags_ok_Cons)
qed

text \<open>Cutting a block out of a fragment removes exactly the block from the free set.\<close>

lemma carve_ok:
  assumes inv: "pa_inv a" and i: "i < pa_len a"
  defines "r \<equiv> pa_regions a ! i"
  assumes lo: "unat (r_base r) \<le> unat start" and hi: "unat start + unat sz \<le> r_stop r"
    and full: "\<not> (start > r_base r \<and> start + sz < region_end r \<and> pa_len a \<ge> MAX_FRAGMENTS)"
  defines "b \<equiv> PhysRegion_new start sz"
  shows "carve a i start sz = (fst (carve a i start sz), Some (MemoryCap_new b Rights_RW))"
    and "pa_inv (fst (carve a i start sz))"
    and "free_set (pa_view (fst (carve a i start sz))) = free_set (pa_view a) - addrs b"
    and "region_ok b" "addrs b \<subseteq> free_set (pa_view a)"
proof -
  note rem = remove_ok [OF inv i, folded r_def]
  have stop: "r_stop r < 2 ^ 64" using rem(5) by (simp add: region_ok_def r_stop_def)
  define p where "p = PhysRegion_new (r_base r) (start - r_base r)"
  define q where "q = PhysRegion_new (start + sz) (region_end r - (start + sz))"
  define a1 where "a1 = pa_remove a i"
  define a2 where "a2 = fst (pa_insert a1 p)"
  have ue: "unat (start + sz) = unat start + unat sz"
    using hi stop by (intro unat_add_u64) simp
  have re: "unat (region_end r) = r_stop r"
    using rem(5) by (rule unat_region_end_stop)
  have up: "unat (start - r_base r) = unat start - unat (r_base r)"
    using lo by (intro unat_sub_le) (simp add: word_le_nat_alt)
  have uq: "unat (region_end r - (start + sz)) = r_stop r - (unat start + unat sz)"
    using hi ue re by (subst unat_sub_le) (simp_all add: word_le_nat_alt)
  have p: "region_ok p" "addrs p = {unat (r_base r) ..< unat start}"
    using lo hi stop by (auto simp: p_def region_ok_def addrs_def up)
  have q: "region_ok q" "addrs q = {unat start + unat sz ..< r_stop r}"
    using hi stop by (auto simp: q_def region_ok_def addrs_def uq ue)
  have bb: "region_ok b" "addrs b = {unat start ..< unat start + unat sz}"
    using hi stop by (auto simp: b_def region_ok_def addrs_def)
  have ra: "addrs r = {unat (r_base r) ..< r_stop r}" by (rule addrs_stop)
  have one: "0 < pa_len a" using i by simp
  have cnt: "pa_len a \<le> MAX_FRAGMENTS" using inv by (simp add: pa_inv_def pa_wf_def)
  have i1: "addrs p \<inter> free_set (pa_view a1) = {}"
    using rem(2) p(2) ra lo hi by (auto simp: a1_def)
  have l1: "pa_len a1 < MAX_FRAGMENTS"
    using rem(3) one cnt by (simp add: a1_def)
  note ins1 = insert_ok [OF rem(1) [folded a1_def] p(1) i1, OF disjI2 [OF l1], folded a2_def]
  have i2: "addrs q \<inter> free_set (pa_view a2) = {}"
    using ins1(3) rem(2) p(2) q(2) ra lo hi by (auto simp: a1_def)
  have l2: "region_is_empty q \<or> pa_len a2 < MAX_FRAGMENTS"
  proof (cases "region_is_empty p")
    case True
    then have "a2 = a1" by (simp add: a2_def pa_insert_def)
    with l1 show ?thesis by simp
  next
    case False
    then have "start > r_base r"
      using lo by (auto simp: p_def region_is_empty_def word_le_nat_alt less_le word_less_nat_alt)
    with full have "\<not> start + sz < region_end r \<or> pa_len a < MAX_FRAGMENTS" by auto
    then show ?thesis
    proof
      assume "\<not> start + sz < region_end r"
      then have "addrs q = {}" using q(2) ue re by (simp add: word_less_nat_alt)
      then show ?thesis by (simp add: addrs_empty_iff)
    next
      assume "pa_len a < MAX_FRAGMENTS"
      then show ?thesis using ins1(4) rem(3) one by (simp add: a1_def)
    qed
  qed
  note ins2 = insert_ok [OF ins1(1) q(1) i2 l2]
  have c: "carve a i start sz = (fst (pa_insert a2 q), Some (MemoryCap_new b Rights_RW))"
    by (simp add: carve_def Let_def a2_def a1_def p_def q_def b_def r_def)
  then show "carve a i start sz = (fst (carve a i start sz), Some (MemoryCap_new b Rights_RW))"
    by simp
  show "pa_inv (fst (carve a i start sz))" using c ins2(1) by simp
  show "region_ok b" by (fact bb)
  have "addrs b \<subseteq> addrs r" using bb(2) ra lo hi by auto
  then show "addrs b \<subseteq> free_set (pa_view a)" using rem(4) by blast
  have "free_set (pa_view (fst (carve a i start sz))) = (free_set (pa_view a) - addrs r) \<union> addrs p \<union> addrs q"
    using c ins2(3) ins1(3) rem(2) by (simp add: a1_def)
  also have "\<dots> = free_set (pa_view a) - addrs b"
    using rem(4) p(2) q(2) bb(2) ra lo hi by auto
  finally show "free_set (pa_view (fst (carve a i start sz))) = free_set (pa_view a) - addrs b" .
qed

end
