(* ===== verification/PhysAlloc_Props.thy ===== *)
theory PhysAlloc_Props
  imports PhysAlloc
begin

text \<open>
  What the allocation operations of \<open>caprock-mem/src/alloc.rs\<close> guarantee: containment, alignment,
  zone and colour of the block that is handed out, exact accounting of the free set, best fit and
  completeness of the search, the round trip of allocation and release, and the linear ownership of
  memory along every sequence of allocator and capability operations.
\<close>

section \<open>Alignment\<close>

lemma unat_and_not_mask:
  fixes x :: u64
  assumes "k < 64"
  shows "unat (x AND NOT (2 ^ k - 1)) = unat x div 2 ^ k * 2 ^ k"
proof -
  have "x AND NOT (2 ^ k - 1) = push_bit k (drop_bit k x)"
    by (rule bit_eqI)
      (auto simp: bit_and_iff bit_not_iff bit_push_bit_iff bit_drop_bit_eq bit_mask_iff
        mask_eq_exp_minus_1 [symmetric] possible_bit_def)
  then have "unat (x AND NOT (2 ^ k - 1)) = take_bit 64 (push_bit k (drop_bit k (unat x)))"
    using unat_u64_lt [of x] by (simp add: unsigned_push_bit_eq unsigned_drop_bit_eq take_bit_nat_eq_self)
  also have "\<dots> = unat x div 2 ^ k * 2 ^ k mod 2 ^ 64"
    by (simp add: take_bit_eq_mod push_bit_eq_mult drop_bit_eq_div)
  also have "\<dots> = unat x div 2 ^ k * 2 ^ k"
  proof -
    have "unat x div 2 ^ k * 2 ^ k \<le> unat x" by simp
    also have "\<dots> < 2 ^ 64" by (rule unat_u64_lt)
    finally show ?thesis by (rule mod_less)
  qed
  finally show ?thesis .
qed

lemma unat_pow2:
  assumes "k < 64" shows "unat (2 ^ k :: u64) = 2 ^ k"
proof -
  have "(2 :: nat) ^ k < 2 ^ 64" using assms by (intro power_strict_increasing) simp_all
  from unat_of_nat_u64 [OF this] show ?thesis by simp
qed

lemma align_up_eq:
  assumes "k < 64" "unat v + 2 ^ k \<le> 2 ^ 64"
  shows "unat (align_up v (2 ^ k)) = (unat v + (2 ^ k - 1)) div 2 ^ k * 2 ^ k"
proof -
  have "unat (2 ^ k - 1 :: u64) = 2 ^ k - 1"
    using assms(1) by (subst unat_sub_le) (simp_all add: word_le_nat_alt unat_pow2)
  then have "unat (v + (2 ^ k - 1)) = unat v + (2 ^ k - 1)"
    using assms(2) by (subst unat_add_u64) (simp_all add: less_le_trans [of _ "unat v + 2 ^ k"])
  then show ?thesis
    using unat_and_not_mask [OF assms(1), of "v + (2 ^ k - 1)"] by (simp add: align_up_def)
qed

text \<open>Without overflow \<open>align_up v (2 ^ k)\<close> is the least multiple of \<open>2 ^ k\<close> from \<open>v\<close> on.\<close>

lemma align_up_dvd:
  assumes "k < 64" shows "2 ^ k dvd unat (align_up v (2 ^ k))"
  using unat_and_not_mask [OF assms] by (simp add: align_up_def)

lemma ceil_mult_ge: "0 < m \<Longrightarrow> v \<le> (v + (m - 1)) div m * (m :: nat)"
proof -
  assume "0 < m"
  then show ?thesis
    using dividend_less_div_times [of m "v + (m - 1)"] by linarith
qed

lemma ceil_mult_le: "0 < m \<Longrightarrow> v \<le> x \<Longrightarrow> m dvd x \<Longrightarrow> (v + (m - 1)) div m * (m :: nat) \<le> x"
proof -
  assume "0 < m" "v \<le> x" "m dvd x"
  then obtain q where q: "x = q * m" by (metis dvd_div_mult_self)
  have "v + (m - 1) < (q + 1) * m"
    using \<open>v \<le> x\<close> \<open>0 < m\<close> q by (simp add: algebra_simps)
  then have "(v + (m - 1)) div m < q + 1"
    by (simp add: less_mult_imp_div_less)
  then show ?thesis unfolding q by (intro mult_le_mono1) simp
qed

lemma align_up_ge:
  assumes "k < 64" "unat v + 2 ^ k \<le> 2 ^ 64" shows "unat v \<le> unat (align_up v (2 ^ k))"
  unfolding align_up_eq [OF assms] by (rule ceil_mult_ge) simp

lemma align_up_least:
  assumes "k < 64" "unat v + 2 ^ k \<le> 2 ^ 64" "unat v \<le> x" "2 ^ k dvd x"
  shows "unat (align_up v (2 ^ k)) \<le> x"
  unfolding align_up_eq [OF assms(1,2)] using assms(3,4) by (intro ceil_mult_le) simp_all

section \<open>The search loops\<close>

lemma best_fit_sound:
  "best_fit f rs i best = Some (j, s, n) \<Longrightarrow>
   best = Some (j, s, n) \<or> (i \<le> j \<and> j < i + length rs \<and> f (rs ! (j - i)) = Some (s, n))"
proof (induction rs arbitrary: i best)
  case (Cons r rs)
  let ?best' = "case f r of None \<Rightarrow> best | Some (start, nutzbar) \<Rightarrow>
     (case best of None \<Rightarrow> Some (i, start, nutzbar)
      | Some (_, _, n) \<Rightarrow> if nutzbar < n then Some (i, start, nutzbar) else best)"
  have "?best' = best \<or> (\<exists>s n. ?best' = Some (i, s, n) \<and> f r = Some (s, n))"
    by (auto split: option.splits)
  with Cons.IH [of "i + 1" ?best'] Cons.prems show ?case
    by (auto simp: nth_Cons' Suc_le_eq split: if_splits)
qed simp

lemma best_fit_None: "best_fit f rs i best = None \<longleftrightarrow> best = None \<and> (\<forall>r\<in>set rs. f r = None)"
  by (induction rs arbitrary: i best) (auto split: option.splits if_splits)

lemma best_fit_minimal:
  "best_fit f rs i best = Some (j, s, n) \<Longrightarrow>
   (\<forall>r\<in>set rs. \<forall>s' n'. f r = Some (s', n') \<longrightarrow> n \<le> n') \<and> (\<forall>j' s' n'. best = Some (j', s', n') \<longrightarrow> n \<le> n')"
proof (induction rs arbitrary: i best)
  case (Cons r rs)
  show ?case
  proof (cases "f r")
    case None
    with Cons show ?thesis by fastforce
  next
    case (Some p)
    obtain s1 n1 where p: "p = (s1, n1)" by fastforce
    show ?thesis
    proof (cases best)
      case None
      with Some p Cons.prems Cons.IH [of "i + 1" "Some (i, s1, n1)"] show ?thesis by auto
    next
      case (Some b)
      obtain j2 s2 n2 where b: "b = (j2, s2, n2)" by (cases b) auto
      show ?thesis
      proof (cases "n1 < n2")
        case True
        with Some b p \<open>f r = Some p\<close> Cons.prems Cons.IH [of "i + 1" "Some (i, s1, n1)"] show ?thesis by auto
      next
        case False
        with Some b p \<open>f r = Some p\<close> Cons.prems Cons.IH [of "i + 1" best] show ?thesis by (auto simp: not_less)
      qed
    qed
  qed
qed simp

lemma candidate_SomeD:
  assumes "alloc_candidate n sz al lo hi r = Some (st, nu)" "region_ok r"
  shows "unat (r_base r) \<le> unat st" "unat st + unat sz \<le> r_stop r" "unat st + unat sz \<le> unat hi"
    "\<not> (st > r_base r \<and> st + sz < region_end r \<and> n \<ge> MAX_FRAGMENTS)"
    "st = align_up (max (r_base r) lo) al" "max (r_base r) lo < min (region_end r) hi"
    "nu = min (region_end r) hi - max (r_base r) lo"
proof -
  define zs where "zs = max (r_base r) lo"
  define ze where "ze = min (region_end r) hi"
  note eq = assms(1) [unfolded alloc_candidate_def Let_def, folded zs_def ze_def]
  from eq have z: "\<not> ze \<le> zs" by (simp split: if_splits)
  with eq obtain e where e: "checked_add (align_up zs al) sz = Some e"
    by (cases "checked_add (align_up zs al) sz") simp_all
  with eq z have h: "r_base r \<le> st" "e \<le> ze" "st = align_up zs al" "nu = ze - zs"
    "\<not> (st > r_base r \<and> e < region_end r \<and> n \<ge> MAX_FRAGMENTS)"
    by (auto split: if_splits)
  note ce = checked_add_SomeD [OF e]
  have "unat st + unat sz \<le> min (r_stop r) (unat hi)"
    using h(2,3) ce unat_region_end_stop [OF assms(2)] by (auto simp: word_le_nat_alt unat_min ze_def)
  then show "unat st + unat sz \<le> r_stop r" "unat st + unat sz \<le> unat hi" by simp_all
  show "unat (r_base r) \<le> unat st" using h(1) by (simp add: word_le_nat_alt)
  show "\<not> (st > r_base r \<and> st + sz < region_end r \<and> n \<ge> MAX_FRAGMENTS)" using h(3,5) ce by simp
  show "st = align_up (max (r_base r) lo) al" "max (r_base r) lo < min (region_end r) hi"
    "nu = min (region_end r) hi - max (r_base r) lo"
    using h z unfolding zs_def ze_def not_le by simp_all
qed

lemma alloc_in_cases:
  assumes "pa_inv a" "alloc_in a sz0 al0 lo hi = (a', res)"
  defines "al \<equiv> max al0 PAGE" and "sz \<equiv> align_up (max sz0 1) PAGE"
  obtains (none) "res = None" "a' = a" "\<forall>r\<in>set (pa_view a). alloc_candidate (pa_len a) sz al lo hi r = None"
  | (some) i st nu where "i < pa_len a" "carve a i st sz = (a', res)"
      "alloc_candidate (pa_len a) sz al lo hi (pa_regions a ! i) = Some (st, nu)"
      "\<forall>r\<in>set (pa_view a). \<forall>s' n'. alloc_candidate (pa_len a) sz al lo hi r = Some (s', n') \<longrightarrow> nu \<le> n'"
proof -
  let ?f = "alloc_candidate (pa_len a) sz al lo hi"
  have wf: "pa_wf a" using assms(1) by (simp add: pa_inv_def)
  have eq: "alloc_in a sz0 al0 lo hi =
    (case best_fit ?f (pa_view a) 0 None of None \<Rightarrow> (a, None) | Some (i, st, _) \<Rightarrow> carve a i st sz)"
    unfolding al_def sz_def alloc_in_def Let_def pa_view_def ..
  show ?thesis
  proof (cases "best_fit ?f (pa_view a) 0 None")
    case None
    then have "res = None" "a' = a" using assms(2) unfolding eq by simp_all
    moreover have "\<forall>r\<in>set (pa_view a). ?f r = None" using None by (simp add: best_fit_None)
    ultimately show ?thesis by (rule none)
  next
    case (Some p)
    obtain i st nu where p: "p = (i, st, nu)" by (cases p) auto
    note bf = Some [unfolded p]
    from best_fit_sound [OF bf] have "i < length (pa_view a)" "?f (pa_view a ! i) = Some (st, nu)" by auto
    then have "i < pa_len a" "?f (pa_regions a ! i) = Some (st, nu)"
      using wf by (simp_all add: view_nth)
    moreover have "carve a i st sz = (a', res)" using assms(2) bf unfolding eq by simp
    moreover have "\<forall>r\<in>set (pa_view a). \<forall>s' n'. ?f r = Some (s', n') \<longrightarrow> nu \<le> n'"
      using best_fit_minimal [OF bf] by blast
    ultimately show ?thesis by (intro some)
  qed
qed

lemma view_region_ok: "pa_inv a \<Longrightarrow> r \<in> set (pa_view a) \<Longrightarrow> region_ok r \<and> \<not> region_is_empty r"
  by (auto simp: pa_inv_def frags_ok_def)

lemma nth_in_view: "pa_inv a \<Longrightarrow> i < pa_len a \<Longrightarrow> pa_regions a ! i \<in> set (pa_view a)"
  by (metis length_pa_view nth_mem pa_inv_def view_nth)

text \<open>The facts about a successful allocation that the properties are read off from.\<close>

lemma alloc_in_SomeD:
  assumes "pa_inv a" "alloc_in a sz0 al0 lo hi = (a', Some c)"
  defines "al \<equiv> max al0 PAGE" and "sz \<equiv> align_up (max sz0 1) PAGE"
  obtains r where "r \<in> set (pa_view a)"
    "c = MemoryCap_new (PhysRegion_new (align_up (max (r_base r) lo) al) sz) Rights_RW"
    "region_ok (mc_region c)" "addrs (mc_region c) \<subseteq> free_set (pa_view a)" "addrs (mc_region c) \<subseteq> addrs r"
    "r_stop (mc_region c) \<le> unat hi" "pa_inv a'"
    "free_set (pa_view a') = free_set (pa_view a) - addrs (mc_region c)"
    "max (r_base r) lo < min (region_end r) hi"
    "\<forall>s\<in>set (pa_view a). \<forall>s' n'. alloc_candidate (pa_len a) sz al lo hi s = Some (s', n') \<longrightarrow>
       min (region_end r) hi - max (r_base r) lo \<le> n'"
  using assms(1,2)
proof (cases rule: alloc_in_cases)
  case (some i st nu)
  let ?r = "pa_regions a ! i"
  note mem = nth_in_view [OF assms(1) some(1)]
  have ok: "region_ok ?r" using view_region_ok [OF assms(1) mem] by simp
  note cand = candidate_SomeD [OF some(3) ok]
  note cv = carve_ok [OF assms(1) some(1) cand(1,2,4)]
  have c: "c = MemoryCap_new (PhysRegion_new st sz) Rights_RW" "a' = fst (carve a i st sz)"
    using cv(1) some(2) by (simp_all add: sz_def)
  have "addrs (mc_region c) \<subseteq> addrs ?r"
    using c cand(1,2) by (auto simp: addrs_def r_stop_def sz_def)
  then show thesis
    using that [of ?r] mem c cv cand some(4) by (simp add: sz_def al_def r_stop_def)
qed simp

text \<open>
  The room condition of the placement properties: no fragment comes closer to the top of the address
  space than one alignment unit, so that rounding up inside a fragment cannot wrap.
\<close>

definition room :: "PhysAllocator \<Rightarrow> nat \<Rightarrow> bool" where
  "room a k \<longleftrightarrow> (\<forall>r\<in>set (pa_view a). r_stop r + 2 ^ k \<le> 2 ^ 64)"

section \<open>A sample machine\<close>

text \<open>One megabyte of RAM at one megabyte, the state on which the witnesses run the allocator.\<close>

definition sample_ram :: PhysAllocator where
  "sample_ram = fst (add_region PhysAllocator_new 0x100000 0x100000)"

lemma add_region_new:
  assumes "region_ok (PhysRegion_new b l)" "l \<noteq> 0"
  shows "pa_inv (fst (add_region PhysAllocator_new b l))"
    "pa_view (fst (add_region PhysAllocator_new b l)) = [PhysRegion_new b l]"
    "pa_len (fst (add_region PhysAllocator_new b l)) = 1"
proof -
  have e: "\<not> region_is_empty (PhysRegion_new b l)" using assms(2) by (simp add: region_is_empty_def)
  have wf: "pa_wf PhysAllocator_new" using pa_inv_new by (simp add: pa_inv_def)
  note vi = view_insert [OF wf, of "PhysRegion_new b l"]
  show v: "pa_view (fst (add_region PhysAllocator_new b l)) = [PhysRegion_new b l]"
    using vi(3) e by (simp add: add_region_def pa_inv_new ins_list_def MAX_FRAGMENTS_def)
  then show "pa_inv (fst (add_region PhysAllocator_new b l))"
    using vi(1) e assms(1) by (simp add: pa_inv_def add_region_def frags_ok_Cons)
  show "pa_len (fst (add_region PhysAllocator_new b l)) = 1"
    using arg_cong [OF v, of length] vi(1) by (simp add: add_region_def)
qed

lemma sample_ram_facts:
  "pa_inv sample_ram" "pa_view sample_ram = [PhysRegion_new 0x100000 0x100000]" "pa_len sample_ram = 1"
  "free_set (pa_view sample_ram) = {0x100000 ..< 0x200000}" "room sample_ram 13" "room sample_ram 12"
  using add_region_new [of "0x100000" "0x100000"]
  by (simp_all add: sample_ram_def region_ok_def addrs_def room_def r_stop_def)

lemma alloc_in_single:
  assumes "pa_inv a" "pa_view a = [r]"
    and "alloc_candidate 1 (align_up (max sz 1) PAGE) (max al PAGE) lo hi r = Some (st, nu)"
  shows "alloc_in a sz al lo hi = (fst (alloc_in a sz al lo hi),
     Some (MemoryCap_new (PhysRegion_new st (align_up (max sz 1) PAGE)) Rights_RW))"
proof -
  have l: "pa_len a = 1" using assms(1,2) length_pa_view [of a] by (simp add: pa_inv_def)
  then show ?thesis
    using assms(2,3) unfolding alloc_in_def Let_def pa_view_def by (simp add: carve_def Let_def)
qed

lemmas alloc_eval = alloc_candidate_def align_up_def checked_add_def PAGE_def Let_def max_def min_def
  region_end_def MAX_FRAGMENTS_def

lemma sample_alloc:
  "alloc_in sample_ram 0x1800 (2 ^ 13) 0x104001 (- 1) =
     (fst (alloc_in sample_ram 0x1800 (2 ^ 13) 0x104001 (- 1)),
      Some (MemoryCap_new (PhysRegion_new 0x106000 0x2000) Rights_RW))"
proof -
  have s: "align_up (max 0x1800 1) PAGE = 0x2000" by (simp add: alloc_eval word_le_nat_alt)
  have "alloc_candidate 1 0x2000 (max (2 ^ 13) PAGE) 0x104001 (- 1) (PhysRegion_new 0x100000 0x100000) =
     Some (0x106000, 0xFBFFF)" by (simp add: alloc_eval)
  from alloc_in_single [OF sample_ram_facts(1,2), of "0x1800", unfolded s, OF this] show ?thesis .
qed

lemma alloc_in_core:
  assumes "pa_inv a" "alloc_in a sz al lo hi = (a', Some c)"
  shows "pa_inv a' \<and> addrs (mc_region c) \<subseteq> free_set (pa_view a) \<and>
    free_set (pa_view a') = free_set (pa_view a) - addrs (mc_region c) \<and> region_ok (mc_region c)"
  using assms by (rule alloc_in_SomeD) simp

section \<open>Properties of uncoloured allocation\<close>

text \<open>
  A successful \<open>alloc_in\<close> hands out memory that was free, inside the fragment list's invariant and
  below the zone's upper limit, with read and write rights; afterwards exactly that memory, no byte
  more or less, is missing from the free set and the free list is again sorted and coalesced.
\<close>

theorem alloc_in_sound:
  assumes "pa_inv a" "alloc_in a sz al lo hi = (a', Some c)"
  shows "pa_inv a' \<and> addrs (mc_region c) \<subseteq> free_set (pa_view a) \<and>
    free_set (pa_view a') = free_set (pa_view a) - addrs (mc_region c) \<and>
    region_ok (mc_region c) \<and> unat (region_end (mc_region c)) \<le> unat hi \<and>
    r_len (mc_region c) = align_up (max sz 1) PAGE \<and> mc_rights c = Rights_RW"
  using assms by (rule alloc_in_SomeD) (simp add: unat_region_end_stop)

theorem alloc_in_sound_witness:
  "pa_inv (fst (alloc_in sample_ram 0x1800 (2 ^ 13) 0x104001 (- 1))) \<and>
   free_set (pa_view (fst (alloc_in sample_ram 0x1800 (2 ^ 13) 0x104001 (- 1)))) =
     {0x100000 ..< 0x200000} - {0x106000 ..< 0x108000}"
  using alloc_in_sound [OF sample_ram_facts(1) sample_alloc] by (simp add: sample_ram_facts(4) addrs_def)

lemma max_PAGE_pow2: "k < 64 \<Longrightarrow> max (2 ^ k) PAGE = (2 ^ max k 12 :: u64)"
proof -
  assume k: "k < 64"
  have "unat (max (2 ^ k) PAGE) = max (2 ^ k) (2 ^ 12)"
    using k by (simp add: unat_max unat_pow2 PAGE_def)
  also have "\<dots> = (2 :: nat) ^ max k 12"
    by (rule max_of_mono) (simp add: mono_def)
  also have "\<dots> = unat (2 ^ max k 12 :: u64)"
    using k by (simp add: unat_pow2)
  finally show ?thesis by (simp only: word_unat_eq_iff)
qed

lemma zone_start_room:
  assumes "room a k" "r \<in> set (pa_view a)" "region_ok r" "max (r_base r) lo < min (region_end r) hi"
  shows "unat (max (r_base r) lo) + 2 ^ k \<le> 2 ^ 64"
proof -
  have "unat (max (r_base r) lo) \<le> r_stop r"
    using assms(4) unat_region_end_stop [OF assms(3)] by (auto simp: word_less_nat_alt unat_max unat_min)
  then show ?thesis using assms(1,2) by (fastforce simp: room_def)
qed

text \<open>
  A block from \<open>alloc_in\<close> is aligned to the requested power of two and to the page size, begins
  no lower than the zone, ends no higher than the zone, and is at least as large as requested and a
  whole number of pages.
\<close>

theorem alloc_in_placed:
  assumes "pa_inv a" "k < 64" "room a (max k 12)" "unat sz + 4096 \<le> 2 ^ 64"
    and "alloc_in a sz (2 ^ k) lo hi = (a', Some c)"
  shows "2 ^ k dvd unat (r_base (mc_region c)) \<and> 4096 dvd unat (r_base (mc_region c)) \<and>
    lo \<le> r_base (mc_region c) \<and> region_end (mc_region c) \<le> hi \<and>
    unat sz \<le> unat (r_len (mc_region c)) \<and> 4096 dvd unat (r_len (mc_region c)) \<and> 0 < r_len (mc_region c)"
proof -
  let ?k = "max k 12"
  have k: "?k < 64" using assms(2) by simp
  from assms(1,5) obtain r where r: "r \<in> set (pa_view a)" "region_ok (mc_region c)" "r_stop (mc_region c) \<le> unat hi"
    "max (r_base r) lo < min (region_end r) hi"
    and c: "c = MemoryCap_new (PhysRegion_new (align_up (max (r_base r) lo) (max (2 ^ k) PAGE)) (align_up (max sz 1) PAGE)) Rights_RW"
    by (rule alloc_in_SomeD) blast
  let ?b = "align_up (max (r_base r) lo) (2 ^ ?k)"
  have b: "r_base (mc_region c) = ?b" using c assms(2) by (simp add: max_PAGE_pow2)
  have ok: "region_ok r" using view_region_ok [OF assms(1) r(1)] by simp
  have d: "2 ^ ?k dvd unat ?b" using k by (rule align_up_dvd)
  have "2 ^ k dvd (2 :: nat) ^ ?k" "2 ^ 12 dvd (2 :: nat) ^ ?k" by (rule le_imp_power_dvd, simp)+
  with d have dv: "2 ^ k dvd unat ?b" "4096 dvd unat ?b" by (auto intro: dvd_trans)
  have "unat (max (r_base r) lo) \<le> unat ?b"
    by (rule align_up_ge [OF k zone_start_room [OF assms(3) r(1) ok r(4)]])
  then have lo: "lo \<le> ?b" by (simp add: word_le_nat_alt unat_max)
  have hi: "region_end (mc_region c) \<le> hi"
    using r(2,3) by (simp add: word_le_nat_alt unat_region_end_stop)
  have P: "PAGE = 2 ^ 12" by (simp add: PAGE_def)
  have l: "r_len (mc_region c) = align_up (max sz 1) (2 ^ 12)" using c by (simp add: P)
  have "unat (max sz 1) + 2 ^ 12 \<le> 2 ^ 64" using assms(4) by (simp add: unat_max)
  then have "unat (max sz 1) \<le> unat (r_len (mc_region c))" unfolding l by (intro align_up_ge) simp_all
  then have sz: "unat sz \<le> unat (r_len (mc_region c))" "0 < r_len (mc_region c)"
    by (simp_all add: unat_max word_less_nat_alt)
  have "2 ^ 12 dvd unat (align_up (max sz 1) (2 ^ 12))" by (rule align_up_dvd) simp
  then have "4096 dvd unat (r_len (mc_region c))" unfolding l by simp
  with dv lo hi sz show ?thesis unfolding b by blast
qed

theorem alloc_in_placed_witness:
  "\<exists>a' c. alloc_in sample_ram 0x1800 (2 ^ 13) 0x104001 (- 1) = (a', Some c) \<and>
     2 ^ 13 dvd unat (r_base (mc_region c)) \<and> 0x104001 \<le> r_base (mc_region c)"
  using alloc_in_placed [OF sample_ram_facts(1) _ _ _ sample_alloc] sample_ram_facts(5) sample_alloc
  by (intro exI conjI) (assumption | simp)+

text \<open>A non-empty interval of free addresses lies inside one fragment.\<close>

lemma stop_not_free: "frags_ok (<) rs \<Longrightarrow> r \<in> set rs \<Longrightarrow> r_stop r \<notin> free_set rs"
proof (induction rs)
  case (Cons s rs)
  from Cons.prems(1) have ok: "frags_ok (<) rs" "\<forall>t\<in>set rs. r_stop s < unat (r_base t)"
    by (auto simp: frags_ok_Cons)
  show ?case
  proof (cases "r = s")
    case True
    then show ?thesis using frags_tail_disjoint [OF Cons.prems(1)] by (auto simp: addrs_stop)
  next
    case False
    with Cons.prems have r: "r \<in> set rs" by simp
    then have "r_stop s < unat (r_base r)" "unat (r_base r) \<le> r_stop r"
      using ok by (auto simp: r_stop_def)
    with Cons.IH [OF ok(1) r] show ?thesis by (auto simp: addrs_stop)
  qed
qed simp

lemma interval_in_fragment:
  assumes "frags_ok (<) rs" "{x..<y} \<subseteq> free_set rs" "x < y"
  shows "\<exists>r\<in>set rs. unat (r_base r) \<le> x \<and> y \<le> r_stop r"
proof -
  have "x \<in> free_set rs" using assms(2,3) by auto
  then obtain r where r: "r \<in> set rs" "unat (r_base r) \<le> x" "x < r_stop r"
    by (auto simp: free_set_def addrs_stop)
  have "y \<le> r_stop r"
  proof (rule ccontr)
    assume "\<not> y \<le> r_stop r"
    with r(3) assms(2) have "r_stop r \<in> free_set rs" by auto
    with stop_not_free [OF assms(1) r(1)] show False by simp
  qed
  with r show ?thesis by blast
qed

lemma candidate_complete:
  assumes "region_ok r" "k < 64" "unat (r_base r) \<le> x" "unat lo \<le> x" "2 ^ k dvd x"
    "x + unat sz \<le> r_stop r" "x + unat sz \<le> unat hi" "0 < unat sz" "n < MAX_FRAGMENTS"
    "r_stop r + 2 ^ k \<le> 2 ^ 64"
  shows "alloc_candidate n sz (2 ^ k) lo hi r \<noteq> None"
proof -
  define zs where "zs = max (r_base r) lo"
  define ze where "ze = min (region_end r) hi"
  have zs: "unat zs = max (unat (r_base r)) (unat lo)" by (simp add: zs_def unat_max)
  have ze: "unat ze = min (r_stop r) (unat hi)"
    using unat_region_end_stop [OF assms(1)] by (simp add: ze_def unat_min)
  have z: "\<not> ze \<le> zs" using assms(3-8) by (simp add: word_le_nat_alt zs ze)
  have zr: "unat zs + 2 ^ k \<le> 2 ^ 64" using assms(3-8,10) by (simp add: zs)
  have st: "unat (align_up zs (2 ^ k)) \<le> x"
    using assms(2-5) zr by (intro align_up_least) (simp_all add: zs)
  have ge: "unat zs \<le> unat (align_up zs (2 ^ k))" by (rule align_up_ge [OF assms(2) zr])
  have lt: "unat (align_up zs (2 ^ k)) + unat sz < 2 ^ 64"
    using st assms(6) assms(1) by (simp add: region_ok_def r_stop_def)
  then have e: "checked_add (align_up zs (2 ^ k)) sz = Some (align_up zs (2 ^ k) + sz)"
    by (simp add: checked_add_def)
  have "r_base r \<le> align_up zs (2 ^ k)" using ge by (simp add: zs word_le_nat_alt)
  moreover have "align_up zs (2 ^ k) + sz \<le> ze"
    using st assms(6,7) lt by (simp add: word_le_nat_alt ze unat_add_u64)
  ultimately show ?thesis
    unfolding alloc_candidate_def Let_def using z e assms(9) by (simp add: zs_def ze_def)
qed

text \<open>
  \<open>alloc_in\<close> refuses only when it has to: as long as the fragment table has a spare entry, \<open>None\<close>
  means that no aligned block of the rounded size exists anywhere in the free memory of the zone, and
  a refusal changes nothing.
\<close>

theorem alloc_in_complete:
  assumes "pa_inv a" "k < 64" "room a (max k 12)" "unat sz + 4096 \<le> 2 ^ 64" "pa_len a < MAX_FRAGMENTS"
    and "alloc_in a sz (2 ^ k) lo hi = (a', None)"
    and "2 ^ max k 12 dvd x" "unat lo \<le> x" "x + unat (align_up (max sz 1) PAGE) \<le> unat hi"
  shows "a' = a \<and> \<not> {x ..< x + unat (align_up (max sz 1) PAGE)} \<subseteq> free_set (pa_view a)"
proof -
  let ?sz = "align_up (max sz 1) PAGE"
  have P: "PAGE = 2 ^ 12" by (simp add: PAGE_def)
  have "unat (max sz 1) + 2 ^ 12 \<le> 2 ^ 64" using assms(4) by (simp add: unat_max)
  then have "unat (max sz 1) \<le> unat ?sz" unfolding P by (intro align_up_ge) simp_all
  then have pos: "0 < unat ?sz" by (simp add: unat_max)
  from assms(1,6) have *: "a' = a \<and>
    (\<forall>r\<in>set (pa_view a). alloc_candidate (pa_len a) ?sz (2 ^ max k 12) lo hi r = None)"
  proof (cases rule: alloc_in_cases)
    case (some i st nu)
    note mem = nth_in_view [OF assms(1) some(1)]
    note cand = candidate_SomeD [OF some(3) view_region_ok [OF assms(1) mem, THEN conjunct1]]
    from carve_ok(1) [OF assms(1) some(1) cand(1,2,4)] some(2) show ?thesis by simp
  qed (simp_all add: max_PAGE_pow2 [OF assms(2)])
  moreover have "\<not> {x ..< x + unat ?sz} \<subseteq> free_set (pa_view a)"
  proof
    assume "{x ..< x + unat ?sz} \<subseteq> free_set (pa_view a)"
    with interval_in_fragment [of "pa_view a" x "x + unat ?sz"] assms(1) pos
    obtain r where r: "r \<in> set (pa_view a)" "unat (r_base r) \<le> x" "x + unat ?sz \<le> r_stop r"
      by (auto simp: pa_inv_def)
    have "alloc_candidate (pa_len a) ?sz (2 ^ max k 12) lo hi r \<noteq> None"
      using view_region_ok [OF assms(1) r(1)] assms(2,3,5,7-9) r pos
      by (intro candidate_complete [of r "max k 12" x]) (auto simp: room_def)
    with * r(1) show False by simp
  qed
  ultimately show ?thesis by simp
qed

theorem alloc_in_complete_witness:
  "alloc_in sample_ram 0x200000 (2 ^ 12) 0 (- 1) = (sample_ram, None) \<and>
   \<not> {0x100000 ..< 0x300000} \<subseteq> free_set (pa_view sample_ram)"
proof -
  have s: "align_up (max 0x200000 1) PAGE = 0x200000" by (simp add: alloc_eval word_le_nat_alt)
  have f: "alloc_candidate 1 0x200000 (max (2 ^ 12) PAGE) 0 (- 1) (PhysRegion_new 0x100000 0x100000) = None"
    by (simp add: alloc_eval)
  have e: "alloc_in sample_ram 0x200000 (2 ^ 12) 0 (- 1) = (sample_ram, None)"
    using sample_ram_facts(2,3) f unfolding alloc_in_def Let_def s pa_view_def by simp
  have m: "unat (- 1 :: u64) = 2 ^ 64 - 1" by (simp add: unsigned_minus_1_eq_mask mask_eq_exp_minus_1)
  from alloc_in_complete [OF sample_ram_facts(1) _ _ _ _ e, of "0x100000"] sample_ram_facts(3,6) e show ?thesis
    unfolding s by (simp add: m MAX_FRAGMENTS_def)
qed



section \<open>Properties of the queries\<close>

text \<open>
  \<open>fully_free\<close> answers exactly whether every byte of the interval is free, although it only looks
  for a single enclosing fragment.
\<close>

theorem fully_free_exact:
  assumes "pa_inv a" "unat b + unat l < 2 ^ 64"
  shows "fully_free a b l \<longleftrightarrow> {unat b ..< unat b + unat l} \<subseteq> free_set (pa_view a)"
proof (cases "l = 0")
  case True
  then show ?thesis by (simp add: fully_free_def)
next
  case False
  then have l: "0 < unat l" by (simp add: unat_gt_0)
  have ok: "frags_ok (<) (pa_view a)" using assms(1) by (simp add: pa_inv_def)
  have "fully_free a b l \<longleftrightarrow> (\<exists>r\<in>set (pa_view a). unat (r_base r) \<le> unat b \<and> unat b + unat l \<le> r_stop r)"
    using False assms view_region_ok [OF assms(1)]
    by (auto simp: fully_free_def checked_add_def list_ex_iff word_le_nat_alt unat_add_u64 unat_region_end_stop
        simp flip: pa_view_def)
  also have "\<dots> \<longleftrightarrow> {unat b ..< unat b + unat l} \<subseteq> free_set (pa_view a)"
  proof
    assume "\<exists>r\<in>set (pa_view a). unat (r_base r) \<le> unat b \<and> unat b + unat l \<le> r_stop r"
    then obtain r where r: "r \<in> set (pa_view a)" "unat (r_base r) \<le> unat b" "unat b + unat l \<le> r_stop r" by blast
    then have "{unat b ..< unat b + unat l} \<subseteq> addrs r" by (auto simp: addrs_stop)
    with r(1) show "{unat b ..< unat b + unat l} \<subseteq> free_set (pa_view a)" by (auto simp: free_set_def)
  next
    assume "{unat b ..< unat b + unat l} \<subseteq> free_set (pa_view a)"
    then show "\<exists>r\<in>set (pa_view a). unat (r_base r) \<le> unat b \<and> unat b + unat l \<le> r_stop r"
      using interval_in_fragment [OF ok] l by simp
  qed
  finally show ?thesis .
qed

theorem fully_free_exact_witness: "fully_free sample_ram 0x180000 0x80000 \<and> \<not> fully_free sample_ram 0x180000 0x80001"
  using fully_free_exact [OF sample_ram_facts(1), of "0x180000" "0x80000"]
    fully_free_exact [OF sample_ram_facts(1), of "0x180000" "0x80001"]
  by (simp add: sample_ram_facts(4) subset_iff) presburger

lemma overlaps_free_exact:
  assumes "pa_inv a" "unat b + unat l < 2 ^ 64"
  shows "overlaps_free a b l \<longleftrightarrow> {unat b ..< unat b + unat l} \<inter> free_set (pa_view a) \<noteq> {}"
proof (cases "l = 0")
  case True
  then show ?thesis by (simp add: overlaps_free_def)
next
  case False
  then have l: "0 < unat l" by (simp add: unat_gt_0)
  have re: "unat (r_base r + r_len r) = r_stop r" if "r \<in> set (pa_view a)" for r
    using view_region_ok [OF assms(1) that] unat_region_end_stop [of r] by (simp add: region_end_def)
  have "overlaps_free a b l \<longleftrightarrow> (\<exists>r\<in>set (pa_view a). unat b < r_stop r \<and> unat (r_base r) < unat b + unat l)"
    using False assms re
    by (auto simp: overlaps_free_def saturating_add64_def list_ex_iff word_less_nat_alt unat_add_u64
        simp flip: pa_view_def)
  also have "\<dots> \<longleftrightarrow> (\<exists>r\<in>set (pa_view a). {unat b ..< unat b + unat l} \<inter> addrs r \<noteq> {})"
  proof (rule bex_cong [OF refl])
    fix r
    assume "r \<in> set (pa_view a)"
    then have ne: "unat (r_base r) < r_stop r" using view_region_ok [OF assms(1)] by (simp add: r_len_pos)
    show "unat b < r_stop r \<and> unat (r_base r) < unat b + unat l \<longleftrightarrow> {unat b ..< unat b + unat l} \<inter> addrs r \<noteq> {}"
    proof
      assume "unat b < r_stop r \<and> unat (r_base r) < unat b + unat l"
      then have "max (unat b) (unat (r_base r)) \<in> {unat b ..< unat b + unat l} \<inter> addrs r"
        using ne l by (simp add: addrs_stop)
      then show "{unat b ..< unat b + unat l} \<inter> addrs r \<noteq> {}" by blast
    qed (auto simp: addrs_stop)
  qed
  also have "\<dots> \<longleftrightarrow> {unat b ..< unat b + unat l} \<inter> free_set (pa_view a) \<noteq> {}"
    by (auto simp: free_set_def)
  finally show ?thesis .
qed

lemma foldl_total: "foldl (\<lambda>sum r. sum + r_len r) s rs = s + sum_list (map r_len rs)"
  by (induction rs arbitrary: s) (simp_all add: algebra_simps)

lemma free_set_bound: "frags_ok (<) rs \<Longrightarrow> free_set rs \<subseteq> {..< 2 ^ 64 - 1}"
  by (fastforce simp: frags_ok_def free_set_def addrs_def region_ok_def)

lemma card_free_set: "frags_ok (<) rs \<Longrightarrow> card (free_set rs) = (\<Sum>r\<leftarrow>rs. unat (r_len r)) \<and> finite (free_set rs)"
proof (induction rs)
  case (Cons r rs)
  from Cons.prems frags_tail_disjoint [OF Cons.prems] have "addrs r \<inter> free_set rs = {}" "frags_ok (<) rs"
    by (auto simp: frags_ok_Cons)
  with Cons.IH show ?case by (simp add: card_Un_disjoint)
qed simp

lemma unat_sum_list:
  "(\<Sum>x\<leftarrow>xs. unat (x :: u64)) < 2 ^ 64 \<Longrightarrow> unat (sum_list xs) = (\<Sum>x\<leftarrow>xs. unat x)"
  by (induction xs) (simp_all add: unat_add_u64)

lemma total_free_exact:
  assumes "pa_inv a" shows "unat (total_free a) = card (free_set (pa_view a))"
proof -
  have ok: "frags_ok (<) (pa_view a)" using assms by (simp add: pa_inv_def)
  have "card (free_set (pa_view a)) \<le> card {..< (2 :: nat) ^ 64 - 1}"
    by (rule card_mono [OF _ free_set_bound [OF ok]]) simp
  then have "(\<Sum>r\<leftarrow>pa_view a. unat (r_len r)) < 2 ^ 64" using card_free_set [OF ok] by simp
  then have "unat (sum_list (map r_len (pa_view a))) = (\<Sum>r\<leftarrow>pa_view a. unat (r_len r))"
    by (subst unat_sum_list) (simp_all add: comp_def)
  then show ?thesis using card_free_set [OF ok] by (simp add: total_free_def foldl_total flip: pa_view_def)
qed

text \<open>
  The two accounting queries are exact: \<open>overlaps_free\<close> holds exactly when some byte of the
  interval is free, and \<open>total_free\<close> is the number of free bytes, without wrap-around.
\<close>

theorem accounting_exact:
  assumes "pa_inv a" "unat b + unat l < 2 ^ 64"
  shows "(overlaps_free a b l \<longleftrightarrow> {unat b ..< unat b + unat l} \<inter> free_set (pa_view a) \<noteq> {}) \<and>
    unat (total_free a) = card (free_set (pa_view a))"
  using overlaps_free_exact [OF assms] total_free_exact [OF assms(1)] by simp

theorem accounting_exact_witness: "overlaps_free sample_ram 0 0x100001 \<and> total_free sample_ram = 0x100000"
  using accounting_exact [OF sample_ram_facts(1), of 0 "0x100001"]
  by (simp add: sample_ram_facts(4) word_unat_eq_iff)

section \<open>Coloured allocation\<close>

lemma color_search_SomeD:
  "color_search v sz g step ze cs m start k = Some st \<Longrightarrow>
   unat start \<le> unat st \<and> unat st + unat sz \<le> unat ze \<and> run_is_colored (st + v * PAGE) g cs m \<and>
   (\<forall>d. d dvd unat start \<longrightarrow> d dvd unat step \<longrightarrow> d dvd unat st)"
proof (induction v sz g step ze cs m start k rule: color_search.induct)
  case (2 v sz g step ze cs m start k)
  show ?case
  proof (cases "run_is_colored (start + v * PAGE) g cs m")
    case True
    with 2(2) show ?thesis
      by (auto simp: not_less word_le_nat_alt dest!: checked_add_SomeD split: option.splits if_splits)
  next
    case False
    with 2(2) obtain e nx where e: "checked_add start sz = Some e" "\<not> e > ze" "checked_add start step = Some nx"
      "color_search v sz g step ze cs m nx k = Some st"
      by (auto split: option.splits if_splits)
    from 2(1) [OF e(1,2) False e(3,4)] checked_add_SomeD [OF e(3)] show ?thesis
      by auto
  qed
qed simp

lemma best_fit_colored_sound:
  "best_fit_colored f rs i best bn = Some (j, s) \<Longrightarrow>
   best = Some (j, s) \<or> (i \<le> j \<and> j < i + length rs \<and> (\<exists>n. f (rs ! (j - i)) = Some (s, n)))"
proof (induction rs arbitrary: i best bn)
  case (Cons r rs)
  consider (keep) bn' where "best_fit_colored f rs (i + 1) best bn' = Some (j, s)"
    | (new) st n where "f r = Some (st, n)" "best_fit_colored f rs (i + 1) (Some (i, st)) n = Some (j, s)"
    using Cons.prems by (auto split: option.splits if_splits)
  then show ?case
  proof cases
    case keep
    from Cons.IH [OF keep] show ?thesis by (auto simp: nth_Cons' Suc_le_eq)
  next
    case new
    from Cons.IH [OF new(2)] new(1) show ?thesis by (auto simp: nth_Cons' Suc_le_eq)
  qed
qed simp

lemma color_candidate_SomeD:
  assumes "color_candidate n v sz g al cs m lo hi r = Some (st, nu)" "region_ok r"
    "al = 2 ^ k" "k < 64" "r_stop r + 2 ^ k \<le> 2 ^ 64"
  shows "unat (r_base r) \<le> unat st" "unat st + unat sz \<le> r_stop r" "unat st + unat sz \<le> unat hi"
    "\<not> (st > r_base r \<and> st + sz < region_end r \<and> n \<ge> MAX_FRAGMENTS)"
    "run_is_colored (st + v * PAGE) g cs m" "2 ^ k dvd unat st" "unat lo \<le> unat st"
proof -
  define zs where "zs = max (r_base r) lo"
  define ze where "ze = min (region_end r) hi"
  note eq = assms(1) [unfolded color_candidate_def Let_def, folded zs_def ze_def]
  from eq have z: "\<not> ze \<le> zs" by (simp split: if_splits)
  with eq have cs: "color_search v sz g al ze cs m (align_up zs al) (unat cs + 1) = Some st"
    and full: "\<not> (st > r_base r \<and> st + sz < region_end r \<and> n \<ge> MAX_FRAGMENTS)"
    by (auto simp del: color_search.simps split: option.splits if_splits)
  note S = color_search_SomeD [OF cs]
  have ze: "unat ze = min (r_stop r) (unat hi)"
    using unat_region_end_stop [OF assms(2)] by (simp add: ze_def unat_min)
  have "unat zs \<le> r_stop r" using z by (simp add: not_le word_less_nat_alt ze)
  then have zr: "unat zs + 2 ^ k \<le> 2 ^ 64" using assms(5) by simp
  have "unat zs \<le> unat (align_up zs al)" unfolding assms(3) by (rule align_up_ge [OF assms(4) zr])
  then have "max (unat (r_base r)) (unat lo) \<le> unat st" using S by (simp add: zs_def unat_max)
  then show "unat (r_base r) \<le> unat st" "unat lo \<le> unat st" by simp_all
  show "unat st + unat sz \<le> r_stop r" "unat st + unat sz \<le> unat hi" using S ze by simp_all
  show "run_is_colored (st + v * PAGE) g cs m" using S by simp
  have "2 ^ k dvd unat (align_up zs al)" "2 ^ k dvd unat al"
    unfolding assms(3) using assms(4) by (auto simp: align_up_dvd unat_pow2)
  then show "2 ^ k dvd unat st" using S by simp
  show "\<not> (st > r_base r \<and> st + sz < region_end r \<and> n \<ge> MAX_FRAGMENTS)" by (fact full)
qed

lemma run_is_colored_nth:
  assumes "run_is_colored (st + v * PAGE) (np - v) cs m" "v < np" "unat v \<le> j" "j < unat np"
  shows "ColorMask_contains m (color_of (st + of_nat j * PAGE) cs)"
proof -
  have "unat (np - v) = unat np - unat v" using assms(2) by (intro unat_sub_le) simp
  then have "j - unat v < unat (np - v)" using assms(3,4) by simp
  then have "ColorMask_contains m (color_of (st + v * PAGE + of_nat (j - unat v) * PAGE) cs)"
    using assms(1) by (simp add: run_is_colored_def list_all_iff)
  moreover have "of_nat (j - unat v) = (of_nat j - v :: u64)"
    using assms(3) by (simp add: of_nat_diff)
  ultimately show ?thesis by (simp add: algebra_simps)
qed

lemma alloc_colored_core:
  assumes "pa_inv a" "k < 64" "room a (max k 12)" "cs > 1"
    and "alloc_colored_vorspann_in a v sz (2 ^ k) cs m lo hi = (a', Some c)"
    and "unat v \<le> j" "j < unat (r_len (mc_region c) div PAGE)"
  shows "pa_inv a' \<and> addrs (mc_region c) \<subseteq> free_set (pa_view a) \<and>
    free_set (pa_view a') = free_set (pa_view a) - addrs (mc_region c) \<and>
    ColorMask_contains m (color_of (r_base (mc_region c) + of_nat j * PAGE) cs)"
proof (cases "m = ColorMask_ALL")
  case True
  then have "alloc_in a sz (2 ^ k) lo hi = (a', Some c)"
    using assms(5) by (simp add: alloc_colored_vorspann_in_def ColorMask_is_empty_def ColorMask_ALL_def)
  note alloc_in_core [OF assms(1) this]
  moreover have "ColorMask_contains m x" for x
    using True by (simp add: ColorMask_contains_bit ColorMask_ALL_def)
  ultimately show ?thesis by simp
next
  case False
  define s where "s = align_up (max sz 1) PAGE"
  let ?al = "2 ^ max k 12 :: u64"
  let ?f = "color_candidate (pa_len a) v s (s div PAGE - v) ?al cs m lo hi"
  have "v < s div PAGE" and bf: "(case best_fit_colored ?f (pa_view a) 0 None (- 1) of
      None \<Rightarrow> (a, None) | Some (i, st) \<Rightarrow> carve a i st s) = (a', Some c)"
    using assms(2,4,5) False unfolding s_def alloc_colored_vorspann_in_def Let_def pa_view_def
    by (simp_all add: max_PAGE_pow2 not_le split: if_splits)
  then obtain i st where i: "best_fit_colored ?f (pa_view a) 0 None (- 1) = Some (i, st)"
    and cv: "carve a i st s = (a', Some c)"
    by (auto split: option.splits)
  from best_fit_colored_sound [OF i] obtain nu where il: "i < pa_len a" "?f (pa_regions a ! i) = Some (st, nu)"
    using assms(1) by (auto simp: pa_inv_def view_nth)
  note mem = nth_in_view [OF assms(1) il(1)]
  note cand = color_candidate_SomeD [OF il(2) view_region_ok [OF assms(1) mem, THEN conjunct1] refl]
  have k: "max k 12 < 64" "r_stop (pa_regions a ! i) + 2 ^ max k 12 \<le> 2 ^ 64"
    using assms(2,3) mem by (auto simp: room_def)
  note cok = carve_ok [OF assms(1) il(1) cand(1,2,4) [OF k]]
  have c: "c = MemoryCap_new (PhysRegion_new st s) Rights_RW" "a' = fst (carve a i st s)"
    using cok(1) cv by simp_all
  have "ColorMask_contains m (color_of (st + of_nat j * PAGE) cs)"
    using run_is_colored_nth [OF cand(5) [OF k] \<open>v < s div PAGE\<close> assms(6)] assms(7) c by simp
  with cok c show ?thesis by simp
qed

lemma color_search_pos:
  "0 < k \<Longrightarrow> color_search v sz g step ze cs m start k =
     (case checked_add start sz of
        None \<Rightarrow> None
      | Some e \<Rightarrow>
          if e > ze then None
          else if run_is_colored (start + v * PAGE) g cs m then Some start
          else (case checked_add start step of
                  None \<Rightarrow> None
                | Some nx \<Rightarrow> color_search v sz g step ze cs m nx (k - 1)))"
  by (cases k) (auto split: option.splits)

text \<open>The coloured allocation of the sample machine: stripe 1 of 4 on a machine with 16 colours.\<close>

lemma colored_single:
  assumes "pa_view a = [r]" "pa_len a = 1" "cs > 1" "\<not> ColorMask_is_empty m" "m \<noteq> ColorMask_ALL"
    and "align_up (max sz 1) PAGE = s" "max al PAGE = al'" "v < s div PAGE" "s div PAGE - v \<le> 64"
    and "color_candidate 1 v s (s div PAGE - v) al' cs m lo hi r = Some (st, nu)" "nu < - 1"
  shows "alloc_colored_vorspann_in a v sz al cs m lo hi = (fst (alloc_colored_vorspann_in a v sz al cs m lo hi),
     Some (MemoryCap_new (PhysRegion_new st s) Rights_RW))"
  using assms unfolding alloc_colored_vorspann_in_def Let_def pa_view_def
  by (auto simp: not_le not_less carve_def Let_def)

lemma sample_colored:
  "alloc_colored_vorspann_in sample_ram 1 0x2000 (2 ^ 12) 16 0x00F000F000F000F0 0 (- 1) =
     (fst (alloc_colored_vorspann_in sample_ram 1 0x2000 (2 ^ 12) 16 0x00F000F000F000F0 0 (- 1)),
      Some (MemoryCap_new (PhysRegion_new 0x103000 0x2000) Rights_RW))"
proof (rule colored_single [OF sample_ram_facts(2,3)])
  have c16: "\<not> (16 :: u32) \<le> 1" by (simp add: word_le_nat_alt)
  have "color_search 1 0x2000 1 0x1000 0x200000 16 0x00F000F000F000F0 0x100000 17 = Some 0x103000"
    by (simp add: c16 color_search_pos run_is_colored_def checked_add_def PAGE_def ColorMask_contains_def
        MASK_BITS_def color_of_def)
  then show "color_candidate 1 1 0x2000 (0x2000 div PAGE - 1) 0x1000 16 0x00F000F000F000F0 0 (- 1)
      (PhysRegion_new 0x100000 0x100000) = Some (0x103000, 0x100000)"
    by (simp add: color_candidate_def align_up_def Let_def region_end_def max_def min_def MAX_FRAGMENTS_def PAGE_def)
qed (simp_all add: alloc_eval word_le_nat_alt word_less_nat_alt ColorMask_is_empty_def ColorMask_ALL_def
    unsigned_minus_1_eq_mask mask_eq_exp_minus_1)

lemma sample_colored_0:
  "alloc_colored_vorspann_in sample_ram 0 0x1000 (2 ^ 12) 16 0x000F000F000F000F 0 (- 1) =
     (fst (alloc_colored_vorspann_in sample_ram 0 0x1000 (2 ^ 12) 16 0x000F000F000F000F 0 (- 1)),
      Some (MemoryCap_new (PhysRegion_new 0x100000 0x1000) Rights_RW))"
proof (rule colored_single [OF sample_ram_facts(2,3)])
  have c16: "\<not> (16 :: u32) \<le> 1" by (simp add: word_le_nat_alt)
  have "color_search 0 0x1000 1 0x1000 0x200000 16 0x000F000F000F000F 0x100000 17 = Some 0x100000"
    by (simp add: c16 color_search_pos run_is_colored_def checked_add_def PAGE_def ColorMask_contains_def
        MASK_BITS_def color_of_def)
  then show "color_candidate 1 0 0x1000 (0x1000 div PAGE - 0) 0x1000 16 0x000F000F000F000F 0 (- 1)
      (PhysRegion_new 0x100000 0x100000) = Some (0x100000, 0x100000)"
    by (simp add: color_candidate_def align_up_def Let_def region_end_def max_def min_def MAX_FRAGMENTS_def PAGE_def)
qed (simp_all add: alloc_eval word_le_nat_alt word_less_nat_alt ColorMask_is_empty_def ColorMask_ALL_def
    unsigned_minus_1_eq_mask mask_eq_exp_minus_1)

text \<open>
  Coloured allocation keeps everything that plain allocation guarantees, and every page of the
  block after the uncoloured prefix carries a colour of the mask: not just the first page.
\<close>

theorem alloc_colored_sound:
  assumes "pa_inv a" "k < 64" "room a (max k 12)" "cs > 1"
    and "alloc_colored_vorspann_in a v sz (2 ^ k) cs m lo hi = (a', Some c)"
    and "unat v \<le> j" "j < unat (r_len (mc_region c) div PAGE)"
  shows "pa_inv a' \<and> addrs (mc_region c) \<subseteq> free_set (pa_view a) \<and>
    free_set (pa_view a') = free_set (pa_view a) - addrs (mc_region c) \<and>
    ColorMask_contains m (color_of (r_base (mc_region c) + of_nat j * PAGE) cs)"
  using assms by (rule alloc_colored_core)

theorem alloc_colored_sound_witness:
  "ColorMask_contains 0x00F000F000F000F0 (color_of (0x103000 + of_nat 1 * PAGE) 16)"
  using alloc_colored_sound [OF sample_ram_facts(1) _ _ _ sample_colored, of 1] sample_ram_facts(6)
  by (simp add: PAGE_def)

section \<open>Linear ownership\<close>

text \<open>
  The allocator together with the capabilities its clients hold. A step is one call of the
  allocator's or the capability's interface: adding RAM that nobody owns yet, allocating, giving a
  capability back, splitting it, restricting it, or dropping it. Capabilities are linear in the source
  (no \<open>Clone\<close>), so a step consumes the capabilities it takes.
\<close>

record mem_state =
  ms_alloc :: PhysAllocator
  ms_caps :: "MemoryCap list"

fun caps_disjoint :: "MemoryCap list \<Rightarrow> bool" where
  "caps_disjoint [] = True"
| "caps_disjoint (c # cs) \<longleftrightarrow> (\<forall>d\<in>set cs. addrs (mc_region c) \<inter> addrs (mc_region d) = {}) \<and> caps_disjoint cs"

definition mem_inv :: "mem_state \<Rightarrow> bool" where
  "mem_inv s \<longleftrightarrow> pa_inv (ms_alloc s) \<and> caps_disjoint (ms_caps s) \<and>
     (\<forall>c\<in>set (ms_caps s). region_ok (mc_region c) \<and>
        addrs (mc_region c) \<inter> free_set (pa_view (ms_alloc s)) = {})"

definition mem_init :: "mem_state \<Rightarrow> bool" where
  "mem_init s \<longleftrightarrow> s = \<lparr>ms_alloc = PhysAllocator_new, ms_caps = []\<rparr>"

inductive mem_step :: "mem_state \<Rightarrow> mem_state \<Rightarrow> bool" where
  st_add: "add_region a b l = (a', ok) \<Longrightarrow> region_ok (PhysRegion_new b l) \<Longrightarrow>
     addrs (PhysRegion_new b l) \<inter> free_set (pa_view a) = {} \<Longrightarrow>
     (\<forall>c\<in>set cs. addrs (PhysRegion_new b l) \<inter> addrs (mc_region c) = {}) \<Longrightarrow>
     mem_step \<lparr>ms_alloc = a, ms_caps = cs\<rparr> \<lparr>ms_alloc = a', ms_caps = cs\<rparr>"
| st_alloc: "alloc_in a sz al lo hi = (a', Some c) \<Longrightarrow>
     mem_step \<lparr>ms_alloc = a, ms_caps = cs\<rparr> \<lparr>ms_alloc = a', ms_caps = c # cs\<rparr>"
| st_free: "pa_free a c = (a', ok) \<Longrightarrow>
     mem_step \<lparr>ms_alloc = a, ms_caps = cs @ c # ds\<rparr> \<lparr>ms_alloc = a', ms_caps = cs @ ds\<rparr>"
| st_split: "MemoryCap_split c n = Inr (d, e) \<Longrightarrow>
     mem_step \<lparr>ms_alloc = a, ms_caps = cs @ c # ds\<rparr> \<lparr>ms_alloc = a, ms_caps = cs @ d # e # ds\<rparr>"
| st_restrict:
    "mem_step \<lparr>ms_alloc = a, ms_caps = cs @ c # ds\<rparr> \<lparr>ms_alloc = a, ms_caps = cs @ MemoryCap_restrict c rs # ds\<rparr>"
| st_drop: "mem_step \<lparr>ms_alloc = a, ms_caps = cs @ c # ds\<rparr> \<lparr>ms_alloc = a, ms_caps = cs @ ds\<rparr>"

inductive_cases mem_stepE: "mem_step s t"

lemma caps_disjoint_append:
  "caps_disjoint (cs @ ds) \<longleftrightarrow> caps_disjoint cs \<and> caps_disjoint ds \<and>
     (\<forall>c\<in>set cs. \<forall>d\<in>set ds. addrs (mc_region c) \<inter> addrs (mc_region d) = {})"
  by (induction cs) auto

lemma insert_free_set:
  assumes "pa_inv a" "region_ok r" "addrs r \<inter> free_set (pa_view a) = {}"
  shows "pa_inv (fst (pa_insert a r))"
    "free_set (pa_view (fst (pa_insert a r))) \<subseteq> free_set (pa_view a) \<union> addrs r"
proof -
  have "pa_inv (fst (pa_insert a r)) \<and> free_set (pa_view (fst (pa_insert a r))) \<subseteq> free_set (pa_view a) \<union> addrs r"
  proof (cases "region_is_empty r \<or> pa_len a < MAX_FRAGMENTS")
    case True
    from insert_ok [OF assms True] show ?thesis by simp
  next
    case False
    then show ?thesis using assms(1) by (simp add: pa_insert_def)
  qed
  then show "pa_inv (fst (pa_insert a r))"
    "free_set (pa_view (fst (pa_insert a r))) \<subseteq> free_set (pa_view a) \<union> addrs r" by simp_all
qed

lemma mem_step_inv:
  assumes "mem_inv s" "mem_step s t"
  shows "mem_inv t"
  using assms(2)
proof cases
  case (st_add a b l a' ok cs)
  with assms(1) insert_free_set [of a "PhysRegion_new b l"] show ?thesis
    by (fastforce simp: mem_inv_def add_region_def)
next
  case (st_alloc a sz al lo hi a' c cs)
  with assms(1) have a: "pa_inv a" by (simp add: mem_inv_def)
  from alloc_in_core [OF a st_alloc(3)] st_alloc assms(1) show ?thesis by (fastforce simp: mem_inv_def)
next
  case (st_free a c a' ok cs ds)
  with assms(1) have "pa_inv a" "region_ok (mc_region c)" "addrs (mc_region c) \<inter> free_set (pa_view a) = {}"
    by (simp_all add: mem_inv_def)
  from insert_free_set [OF this] st_free assms(1) show ?thesis
    by (fastforce simp: mem_inv_def pa_free_def caps_disjoint_append)
next
  case (st_split c n d e a cs ds)
  with assms(1) have "region_ok (mc_region c)" by (simp add: mem_inv_def)
  from split_partition [OF st_split(3) this] st_split assms(1) show ?thesis
    by (fastforce simp: mem_inv_def caps_disjoint_append)
next
  case (st_restrict a cs c ds rs)
  with assms(1) show ?thesis by (auto simp: mem_inv_def caps_disjoint_append)
next
  case (st_drop a cs c ds)
  with assms(1) show ?thesis by (auto simp: mem_inv_def caps_disjoint_append)
qed

interpretation mem: step_system mem_init mem_step mem_inv
  by unfold_locales (simp add: mem_init_def mem_inv_def pa_inv_new, rule mem_step_inv)

text \<open>
  C19. Memory is owned exactly once: after any sequence of adding RAM, allocating, freeing, splitting,
  restricting and dropping capabilities, no two capabilities that are held overlap and no held
  capability overlaps free memory.
\<close>

theorem memory_exclusive:
  assumes "reach mem_init mem_step s" "i < length (ms_caps s)" "j < length (ms_caps s)" "i \<noteq> j"
  shows "addrs (mc_region (ms_caps s ! i)) \<inter> addrs (mc_region (ms_caps s ! j)) = {} \<and>
    addrs (mc_region (ms_caps s ! i)) \<inter> free_set (pa_view (ms_alloc s)) = {}"
proof -
  have inv: "mem_inv s" using assms(1) by (rule mem.reach_inv)
  have "caps_disjoint cs \<Longrightarrow> i < j \<Longrightarrow> j < length cs \<Longrightarrow> addrs (mc_region (cs ! i)) \<inter> addrs (mc_region (cs ! j)) = {}" for cs i j
  proof (induction cs arbitrary: i j)
    case (Cons c cs)
    then show ?case by (cases i; cases j) auto
  qed simp
  then have "addrs (mc_region (ms_caps s ! i)) \<inter> addrs (mc_region (ms_caps s ! j)) = {}"
    using inv assms(2-4) linorder_neqE_nat [of i j] unfolding mem_inv_def by (metis Int_commute)
  with inv assms(2) show ?thesis by (simp add: mem_inv_def)
qed

theorem memory_exclusive_witness:
  "\<exists>s. reach mem_init mem_step s \<and> length (ms_caps s) = 2 \<and>
     addrs (mc_region (ms_caps s ! 0)) \<inter> addrs (mc_region (ms_caps s ! 1)) = {}"
proof -
  let ?c = "MemoryCap_new (PhysRegion_new 0x106000 0x2000) Rights_RW"
  let ?d = "MemoryCap_new (PhysRegion_new 0x106000 0x1000) Rights_RW"
  let ?e = "MemoryCap_new (PhysRegion_new 0x107000 0x1000) Rights_RW"
  let ?a = "fst (alloc_in sample_ram 0x1800 (2 ^ 13) 0x104001 (- 1))"
  let ?t = "\<lparr>ms_alloc = ?a, ms_caps = [?d, ?e]\<rparr>"
  have "reach mem_init mem_step \<lparr>ms_alloc = PhysAllocator_new, ms_caps = []\<rparr>"
    by (rule reach_init) (simp add: mem_init_def)
  then have "reach mem_init mem_step \<lparr>ms_alloc = sample_ram, ms_caps = []\<rparr>"
    by (rule reach_step, intro st_add [of _ "0x100000" "0x100000" _ "snd (add_region PhysAllocator_new 0x100000 0x100000)"])
      (simp_all add: sample_ram_def pa_inv_new region_ok_def)
  then have "reach mem_init mem_step \<lparr>ms_alloc = ?a, ms_caps = [?c]\<rparr>"
    by (rule reach_step) (rule st_alloc [OF sample_alloc])
  then have r: "reach mem_init mem_step ?t"
  proof (rule reach_step)
    have "MemoryCap_split ?c 0x1000 = Inr (?d, ?e)" by (simp add: MemoryCap_split_def Let_def)
    from st_split [OF this, of ?a "[]" "[]"]
    show "mem_step \<lparr>ms_alloc = ?a, ms_caps = [?c]\<rparr> ?t" by simp
  qed
  have "addrs (mc_region (ms_caps ?t ! 0)) \<inter> addrs (mc_region (ms_caps ?t ! 1)) = {}"
    by (rule memory_exclusive [OF r, THEN conjunct1]) simp_all
  with r show ?thesis by (intro exI [of _ ?t]) simp
qed

section \<open>Where the allocator does not do what it should\<close>

lemma coal_list_shrinks:
  "Suc i < length rs \<Longrightarrow> region_end (rs ! i) = r_base (rs ! Suc i) \<Longrightarrow> length (coal_list rs) < length rs"
proof (induction rs arbitrary: i rule: coal_list.induct)
  case (3 r s rs)
  show ?case
  proof (cases "region_end r = r_base s")
    case True
    with length_coal_list [of "r\<lparr>r_len := r_len r + r_len s\<rparr> # rs"] show ?thesis by simp
  next
    case False
    with 3(3,4) obtain k where "i = Suc k" by (cases i) auto
    with False 3(2) [OF False, of k] 3(3,4) show ?thesis by simp
  qed
qed simp_all

text \<open>
  Releasing memory into a full fragment table is refused even when the region only extends a free
  fragment, so that the coalesced list would fit: the caller's memory is then in no list at all.
\<close>

theorem free_full_loses:
  assumes "pa_inv a" "pa_len a = MAX_FRAGMENTS" "r \<in> set (pa_view a)"
    and "r_base (mc_region c) = region_end r" "r_len (mc_region c) \<noteq> 0"
  shows "length (ins_list (pa_view a) (mc_region c)) \<le> MAX_FRAGMENTS \<and> pa_free a c = (a, False)"
proof -
  let ?P = "\<lambda>s. r_base s < r_base (mc_region c)"
  have ok: "frags_ok (<) (pa_view a)" and len: "length (pa_view a) = MAX_FRAGMENTS"
    using assms(1,2) by (simp_all add: pa_inv_def)
  obtain l u where v: "pa_view a = l @ r # u" using assms(3) by (meson split_list)
  have rok: "region_ok r" "unat (r_base r) < r_stop r"
    using view_region_ok [OF assms(1,3)] by (simp_all add: r_len_pos)
  have b: "unat (r_base (mc_region c)) = r_stop r"
    using assms(4) unat_region_end_stop [OF rok(1)] by simp
  have sep: "\<forall>x\<in>set l. r_stop x < unat (r_base r)" "\<forall>x\<in>set u. r_stop r < unat (r_base x)"
    using ok unfolding v by (auto simp: frags_ok_append frags_ok_Cons)
  have "\<forall>x\<in>set (l @ [r]). ?P x"
    using sep(1) rok(2) b by (auto simp: word_less_nat_alt r_stop_def dest!: bspec)
  moreover have "takeWhile ?P u = []" "dropWhile ?P u = u"
    using sep(2) b by (cases u; auto simp: word_less_nat_alt)+
  ultimately have "takeWhile ?P (pa_view a) = l @ [r]" "dropWhile ?P (pa_view a) = u"
    unfolding v by (simp_all add: takeWhile_append2 dropWhile_append2)
  then have i: "ins_list (pa_view a) (mc_region c) = coal_list (l @ r # mc_region c # u)"
    by (simp add: ins_list_def)
  have "length (coal_list (l @ r # mc_region c # u)) < length (l @ r # mc_region c # u)"
    by (rule coal_list_shrinks [of "length l"]) (simp_all add: nth_append assms(4))
  with i len show ?thesis
    using assms(2,5) by (simp add: v pa_free_def pa_insert_def region_is_empty_def)
qed

lemma full_table_inv:
  defines "f \<equiv> \<lambda>i. PhysRegion_new (of_nat (0x2000 * i)) 0x1000"
  defines "t \<equiv> \<lparr>pa_regions = map f [0..<MAX_FRAGMENTS], pa_len = MAX_FRAGMENTS\<rparr>"
  shows "pa_inv t" "pa_view t = map f [0..<MAX_FRAGMENTS]"
proof -
  show v: "pa_view t = map f [0..<MAX_FRAGMENTS]" by (simp add: t_def pa_view_def)
  have b: "unat (r_base (f i)) = 0x2000 * i" "unat (r_len (f i)) = 0x1000" if "i < 1024" for i
    unfolding f_def PhysRegion_new_sel using that by (subst unat_of_nat_u64, simp_all)
  have "sorted_wrt (\<lambda>r s. r_stop r < unat (r_base s)) (map f [0..<MAX_FRAGMENTS])"
    unfolding sorted_wrt_map by (auto simp: sorted_wrt_iff_nth_less MAX_FRAGMENTS_def r_stop_def b)
  moreover have "\<forall>r\<in>set (map f [0..<MAX_FRAGMENTS]). \<not> region_is_empty r \<and> region_ok r"
    by (auto simp: MAX_FRAGMENTS_def region_ok_def b) (simp add: f_def region_is_empty_def)
  ultimately show "pa_inv t"
    unfolding pa_inv_def v frags_ok_def by (simp add: t_def pa_wf_def)
qed

theorem free_full_loses_witness:
  "pa_free \<lparr>pa_regions = map (\<lambda>i. PhysRegion_new (of_nat (0x2000 * i)) 0x1000) [0..<MAX_FRAGMENTS], pa_len = MAX_FRAGMENTS\<rparr>
     (MemoryCap_new (PhysRegion_new 0x1000 0x1000) Rights_RW) =
   (\<lparr>pa_regions = map (\<lambda>i. PhysRegion_new (of_nat (0x2000 * i)) 0x1000) [0..<MAX_FRAGMENTS], pa_len = MAX_FRAGMENTS\<rparr>, False)"
proof -
  let ?m = "map (\<lambda>i. PhysRegion_new (of_nat (0x2000 * i)) 0x1000) [0..<MAX_FRAGMENTS]"
  have "PhysRegion_new (of_nat (0x2000 * 0)) 0x1000 \<in> set ?m"
    unfolding set_map by (rule imageI) (simp add: MAX_FRAGMENTS_def)
  then have "PhysRegion_new 0 0x1000 \<in> set ?m" by simp
  then show ?thesis
    by (intro free_full_loses [THEN conjunct2, OF full_table_inv(1)])
      (simp_all only: full_table_inv(2), simp_all add: region_end_def)
qed

text \<open>
  A request within one page of \<open>u64::MAX\<close> is not refused: rounding the size up to a page wraps
  to zero and the caller receives an empty region as a success.
\<close>

theorem alloc_size_wraps:
  assumes "pa_inv a" "r \<in> set (pa_view a)" "4096 dvd unat (r_base r)" "unat sz + 4095 \<ge> 2 ^ 64"
  shows "\<exists>c. alloc a sz 0 = (fst (alloc a sz 0), Some c) \<and> r_len (mc_region c) = 0"
proof -
  have sz1: "max sz 1 = sz"
    using assms(4) by (simp add: max_def word_le_nat_alt)
  have "unat (sz + 4095) = unat sz + 4095 - 2 ^ 64"
    using assms(4) unat_u64_lt [of sz] by (simp add: unat_word_ariths le_mod_geq)
  also have "\<dots> < 4096" using unat_u64_lt [of sz] by simp
  finally have "unat (sz + 4095) div 2 ^ 12 = 0" by simp
  then have s0: "align_up (max sz 1) PAGE = 0"
    using unat_and_not_mask [of 12 "sz + 4095"] sz1 by (simp add: align_up_def PAGE_def unat_eq_0)
  have P: "max 0 PAGE = (2 ^ 12 :: u64)" by (simp add: PAGE_def)
  have ok: "region_ok r" "unat (r_base r) < r_stop r"
    using view_region_ok [OF assms(1,2)] by (simp_all add: r_len_pos)
  have z: "max (r_base r) 0 = r_base r" "min (region_end r) (- 1) = region_end r"
    by (simp_all add: max_absorb1 min_absorb1)
  have e: "\<not> region_end r \<le> r_base r" "r_base r \<le> region_end r"
    using ok by (simp_all add: word_le_nat_alt unat_region_end_stop)
  have "unat (r_base r) + 2 ^ 12 \<le> 2 ^ 64"
  proof -
    obtain q where q: "unat (r_base r) = 4096 * q" using assms(3) by (auto elim: dvdE)
    then have "4096 * q < 4096 * 2 ^ 52" using unat_u64_lt [of "r_base r"] by simp
    then show ?thesis using q by simp
  qed
  then have "unat (align_up (r_base r) (2 ^ 12)) = unat (r_base r)"
    using align_up_least [of 12 "r_base r" "unat (r_base r)"] align_up_ge [of 12 "r_base r"] assms(3) by simp
  then have al: "align_up (r_base r) (2 ^ 12) = r_base r" by (simp only: word_unat_eq_iff)
  have "checked_add (r_base r) 0 = Some (r_base r)"
    using unat_u64_lt [of "r_base r"] by (simp add: checked_add_def)
  then have cand: "alloc_candidate (pa_len a) 0 (2 ^ 12) 0 (- 1) r \<noteq> None"
    unfolding alloc_candidate_def z Let_def al using e by simp
  obtain a' res where al: "alloc_in a sz 0 0 (- 1) = (a', res)" by fastforce
  from assms(1) al show ?thesis
  proof (cases rule: alloc_in_cases)
    case none
    then show ?thesis using cand assms(2) by (simp only: s0 P) blast
  next
    case (some i st nu)
    note mem = nth_in_view [OF assms(1) some(1)]
    note c = candidate_SomeD [OF some(3) view_region_ok [OF assms(1) mem, THEN conjunct1]]
    from carve_ok(1) [OF assms(1) some(1) c(1,2,4)] some(2) s0 al show ?thesis
      by (auto simp: alloc_def alloc_below_def)
  qed
qed

theorem alloc_size_wraps_witness:
  "\<exists>c. alloc sample_ram (- 1) 0 = (fst (alloc sample_ram (- 1) 0), Some c) \<and> r_len (mc_region c) = 0"
  by (rule alloc_size_wraps [OF sample_ram_facts(1), of "PhysRegion_new 0x100000 0x100000"])
    (simp_all add: sample_ram_facts(2) unsigned_minus_1_eq_mask mask_eq_exp_minus_1)

text \<open>
  The coloured search lacks the \<open>start >= r.base\<close> test of the plain one. With a fragment closer to
  the top of the address space than one alignment unit the rounded start wraps to zero, and the
  caller receives memory that was never free.
\<close>

theorem alloc_colored_wraps:
  "\<exists>a a' c. pa_inv a \<and> alloc_colored_in a 0x1000 (2 ^ 20) 16 1 0 (- 1) = (a', Some c) \<and>
     \<not> addrs (mc_region c) \<subseteq> free_set (pa_view a)"
proof -
  let ?b = "0xFFFFFFFFFFFFD000 :: u64"
  let ?r = "PhysRegion_new ?b 0x2000"
  define a where "a = fst (add_region PhysAllocator_new ?b 0x2000)"
  have a: "pa_inv a" "pa_view a = [?r]" "pa_len a = 1"
    using add_region_new [of ?b "0x2000"] by (simp_all add: a_def region_ok_def)
  have s: "align_up (max 0x1000 1) PAGE = 0x1000" "0x1000 div PAGE = 1" "max (2 ^ 20) PAGE = 0x100000"
    by (simp_all add: alloc_eval word_le_nat_alt)
  have le: "\<not> (16 :: u32) \<le> 1" by (simp add: word_le_nat_alt)
  have cs: "color_search 0 0x1000 1 0x100000 0xFFFFFFFFFFFFF000 16 1 0 17 = Some 0"
    by (simp add: color_search_pos run_is_colored_def checked_add_def PAGE_def ColorMask_contains_def
        MASK_BITS_def color_of_def)
  have al: "align_up ?b 0x100000 = 0" by code_simp
  have "color_candidate 1 0 0x1000 1 0x100000 16 1 0 (- 1) ?r = Some (0, 0x2000)"
    using cs al by (simp add: color_candidate_def Let_def region_end_def max_def min_def MAX_FRAGMENTS_def)
  then have e: "alloc_colored_in a 0x1000 (2 ^ 20) 16 1 0 (- 1) =
      (fst (carve a 0 0 0x1000), Some (MemoryCap_new (PhysRegion_new 0 0x1000) Rights_RW))"
    using a(2,3) unfolding alloc_colored_in_def alloc_colored_vorspann_in_def Let_def s pa_view_def
    by (simp add: le ColorMask_is_empty_def ColorMask_ALL_def carve_def Let_def)
  have "0 \<in> addrs (PhysRegion_new 0 0x1000)" "0 \<notin> free_set (pa_view a)"
    unfolding a(2) by (simp_all add: addrs_def)
  then have "\<not> addrs (PhysRegion_new 0 0x1000) \<subseteq> free_set (pa_view a)" by blast
  with a(1) e show ?thesis by (intro exI conjI) (assumption | simp)+
qed

end
