(* ===== verification/CapObject.thy ===== *)
theory CapObject
  imports Region
begin

text \<open>
  \<open>caprock-cap/src/object.rs\<close>: the kernel objects that capabilities refer to, and the entry of the
  object table with its reference count and generation.
\<close>

datatype DmaDir = DeviceRead | DeviceWrite | Bidirectional

datatype DmaCoherence = Coherent | NonCoherent

datatype ObjectKind =
    Memory PhysRegion
  | Endpoint u32
  | Tcb u64
  | Notification u32
  | SchedContext (sc_budget: u32) (sc_period: u32)
  | Reply (rp_ep: u32) (rp_caller: u64)
  | PdControl (pc_pd: u32)
  | Loader (ld_source: u32)
  | Mmio (mm_phys: u64) (mm_len: u64)
  | Irq (irq_intid: u32)
  | Dma (dma_phys: u64) (dma_len: u64) (dma_dir: DmaDir) (dma_coherence: DmaCoherence)
  | SyscallHandler (sh_ep: u32) (sh_pd: u16) (sh_sidecar: u64) (sh_len: u64)
  | FaultHandler (fh_ep: u32) (fh_pd: u16) (fh_sidecar: u64) (fh_len: u64)
  | Debuggable (db_pd: u16)

record Object =
  o_used :: bool
  o_kind :: ObjectKind
  o_refcount :: u32
  o_gen :: u32

definition Object_EMPTY :: Object where
  "Object_EMPTY = \<lparr>o_used = False, o_kind = Memory (PhysRegion_new 0 0), o_refcount = 0, o_gen = 0\<rparr>"

lemma Object_EMPTY_sel [simp]:
  "o_used Object_EMPTY = False" "o_refcount Object_EMPTY = 0"
  by (simp_all add: Object_EMPTY_def)

end
