(* ===== verification/CapSpace.thy ===== *)
theory CapSpace
  imports CapObject PhysAlloc
begin

text \<open>
  \<open>caprock-cap/src/space.rs\<close>: the capability space, a slot table whose used slots form the
  capability derivation tree (CDT), and an object table with reference counts. Every operation of
  the source is a function on the record \<open>CapSpace\<close>; an index out of range panics in the source and
  is the outer \<open>None\<close> here; a Rust \<open>Result\<close> is a sum with \<open>CapError\<close> on the left, returned
  together with the new state. Reference counts and generations are 32-bit words with wrapping
  arithmetic, table indices are natural numbers.
\<close>

section \<open>Slots, handles, errors\<close>

record CapPtr =
  p_slot :: nat
  p_gen :: u32

datatype CapError = NoSlot | NoObject | Invalid | HasChildren | Unaligned | ZuKlein | Subregion

record Mdb =
  m_parent :: "nat option"
  m_first_child :: "nat option"
  m_next :: "nat option"
  m_prev :: "nat option"

definition Mdb_EMPTY :: Mdb where
  "Mdb_EMPTY = \<lparr>m_parent = None, m_first_child = None, m_next = None, m_prev = None\<rparr>"

record CapSlot =
  s_used :: bool
  s_gen :: u32
  s_object :: nat
  s_rights :: Rights
  s_badge :: u64
  s_subregion :: "PhysRegion option"
  s_mdb :: Mdb

definition CapSlot_EMPTY :: CapSlot where
  "CapSlot_EMPTY = \<lparr>s_used = False, s_gen = 0, s_object = 0, s_rights = Rights_NONE, s_badge = 0,
     s_subregion = None, s_mdb = Mdb_EMPTY\<rparr>"

definition set_parent :: "nat option \<Rightarrow> CapSlot \<Rightarrow> CapSlot" where
  "set_parent v s = s\<lparr>s_mdb := (s_mdb s)\<lparr>m_parent := v\<rparr>\<rparr>"

definition set_first_child :: "nat option \<Rightarrow> CapSlot \<Rightarrow> CapSlot" where
  "set_first_child v s = s\<lparr>s_mdb := (s_mdb s)\<lparr>m_first_child := v\<rparr>\<rparr>"

definition set_next :: "nat option \<Rightarrow> CapSlot \<Rightarrow> CapSlot" where
  "set_next v s = s\<lparr>s_mdb := (s_mdb s)\<lparr>m_next := v\<rparr>\<rparr>"

definition set_prev :: "nat option \<Rightarrow> CapSlot \<Rightarrow> CapSlot" where
  "set_prev v s = s\<lparr>s_mdb := (s_mdb s)\<lparr>m_prev := v\<rparr>\<rparr>"

section \<open>The collector of finalized objects\<close>

record Finalized =
  f_items :: "(u32 \<times> u64) list"
  f_n :: nat
  f_dma :: "(u64 \<times> u64) list"
  f_dn :: nat
  f_debug :: "u16 list"
  f_gn :: nat
  f_overflow :: bool

definition Finalized_mit_debug :: "(u32 \<times> u64) list \<Rightarrow> (u64 \<times> u64) list \<Rightarrow> u16 list \<Rightarrow> Finalized" where
  "Finalized_mit_debug items dma debug =
     \<lparr>f_items = items, f_n = 0, f_dma = dma, f_dn = 0, f_debug = debug, f_gn = 0, f_overflow = False\<rparr>"

definition Finalized_new :: "(u32 \<times> u64) list \<Rightarrow> (u64 \<times> u64) list \<Rightarrow> Finalized" where
  "Finalized_new items dma = Finalized_mit_debug items dma []"

definition f_push :: "Finalized \<Rightarrow> u32 \<Rightarrow> u64 \<Rightarrow> Finalized" where
  "f_push rf ep caller =
     (if f_n rf < length (f_items rf)
      then rf\<lparr>f_items := (f_items rf)[f_n rf := (ep, caller)], f_n := f_n rf + 1\<rparr>
      else rf\<lparr>f_overflow := True\<rparr>)"

definition f_push_dma :: "Finalized \<Rightarrow> u64 \<Rightarrow> u64 \<Rightarrow> Finalized" where
  "f_push_dma rf phys l =
     (if f_dn rf < length (f_dma rf)
      then rf\<lparr>f_dma := (f_dma rf)[f_dn rf := (phys, l)], f_dn := f_dn rf + 1\<rparr>
      else rf\<lparr>f_overflow := True\<rparr>)"

definition f_push_debug :: "Finalized \<Rightarrow> u16 \<Rightarrow> Finalized" where
  "f_push_debug rf pd =
     (if f_gn rf < length (f_debug rf)
      then rf\<lparr>f_debug := (f_debug rf)[f_gn rf := pd], f_gn := f_gn rf + 1\<rparr>
      else rf\<lparr>f_overflow := True\<rparr>)"

definition f_iter :: "Finalized \<Rightarrow> (u32 \<times> u64) list" where "f_iter rf = take (f_n rf) (f_items rf)"
definition f_iter_dma :: "Finalized \<Rightarrow> (u64 \<times> u64) list" where "f_iter_dma rf = take (f_dn rf) (f_dma rf)"
definition f_iter_debug :: "Finalized \<Rightarrow> u16 list" where "f_iter_debug rf = take (f_gn rf) (f_debug rf)"

section \<open>Bounded walks over the tree\<close>

function descend_to_leaf :: "CapSlot list \<Rightarrow> nat \<Rightarrow> nat \<Rightarrow> nat \<Rightarrow> unit + nat \<times> nat" where
  "descend_to_leaf ss leaf steps limit =
     (case tget ss leaf of
        None \<Rightarrow> Inl ()
      | Some s \<Rightarrow>
          (case m_first_child (s_mdb s) of
             None \<Rightarrow> Inr (leaf, steps)
           | Some c \<Rightarrow> if steps + 1 > limit then Inl () else descend_to_leaf ss c (steps + 1) limit))"
  by pat_completeness auto
termination by (relation "measure (\<lambda>(_, _, steps, limit). Suc limit - steps)") auto

function count_siblings :: "CapSlot list \<Rightarrow> nat option \<Rightarrow> nat \<Rightarrow> nat \<Rightarrow> unit + nat" where
  "count_siblings ss cur n limit =
     (case cur of
        None \<Rightarrow> Inr n
      | Some i \<Rightarrow>
          if n + 1 > limit then Inl ()
          else (case tget ss i of
                  None \<Rightarrow> Inl ()
                | Some s \<Rightarrow> count_siblings ss (m_next (s_mdb s)) (n + 1) limit))"
  by pat_completeness auto
termination by (relation "measure (\<lambda>(_, _, n, limit). Suc limit - n)") auto

declare descend_to_leaf.simps [simp del] count_siblings.simps [simp del]

definition count_children :: "CapSlot list \<Rightarrow> nat \<Rightarrow> nat \<Rightarrow> unit + nat" where
  "count_children ss parent limit =
     (case tget ss parent of
        None \<Rightarrow> Inl ()
      | Some s \<Rightarrow> count_siblings ss (m_first_child (s_mdb s)) 0 limit)"

definition teilfenster_rechnen :: "PhysRegion \<Rightarrow> u64 \<Rightarrow> u64 \<Rightarrow> CapError + PhysRegion" where
  "teilfenster_rechnen whole offset l =
     (if l = 0 then Inl Subregion
      else (case checked_add (r_base whole) offset of
              None \<Rightarrow> Inl Subregion
            | Some b \<Rightarrow>
                (case checked_add b l of
                   None \<Rightarrow> Inl Subregion
                 | Some ende \<Rightarrow>
                     (case checked_add (r_base whole) (r_len whole) of
                        None \<Rightarrow> Inl Subregion
                      | Some whole_ende \<Rightarrow>
                          if ende > whole_ende then Inl Subregion else Inr (PhysRegion_new b l)))))"

definition kind_einhaengen :: "CapSlot list \<Rightarrow> nat \<Rightarrow> nat \<Rightarrow> CapSlot list option" where
  "kind_einhaengen ss parent child =
     do {
       p \<leftarrow> tget ss parent;
       let old_first = m_first_child (s_mdb p);
       ss1 \<leftarrow> tupd ss child (set_parent (Some parent));
       ss2 \<leftarrow> tupd ss1 child (set_prev None);
       ss3 \<leftarrow> tupd ss2 child (set_next old_first);
       ss4 \<leftarrow> (case old_first of Some f \<Rightarrow> tupd ss3 f (set_prev (Some child)) | None \<Rightarrow> Some ss3);
       tupd ss4 parent (set_first_child (Some child))
     }"

section \<open>The capability space\<close>

record CapInfo =
  ci_kind :: ObjectKind
  ci_rights :: Rights
  ci_badge :: u64
  ci_refcount :: u32
  ci_child_count :: nat
  ci_is_root :: bool

record CapSpace =
  c_slots :: "CapSlot list"
  c_objects :: "Object list"
  c_peak_slots :: nat
  c_peak_objects :: nat
  c_peak_cdt_walk :: nat
  c_peak_revoke_ops :: nat
  c_cdt_walk_overruns :: u32

definition CapSpace_new :: CapSpace where
  "CapSpace_new = \<lparr>c_slots = [], c_objects = [], c_peak_slots = 0, c_peak_objects = 0,
     c_peak_cdt_walk = 0, c_peak_revoke_ops = 0, c_cdt_walk_overruns = 0\<rparr>"

text \<open>The assertion that \<open>attach\<close> is called once is the panic branch.\<close>

definition cs_attach :: "CapSpace \<Rightarrow> CapSlot list \<Rightarrow> Object list \<Rightarrow> CapSpace option" where
  "cs_attach cs ss os =
     (if c_slots cs = [] \<and> c_objects cs = [] then Some (cs\<lparr>c_slots := ss, c_objects := os\<rparr>) else None)"

definition cs_capacity :: "CapSpace \<Rightarrow> nat \<times> nat" where
  "cs_capacity cs = (length (c_slots cs), length (c_objects cs))"

definition finalize_capacity :: "CapSpace \<Rightarrow> nat" where
  "finalize_capacity cs = length (c_objects cs)"

definition used_slots :: "CapSpace \<Rightarrow> nat" where
  "used_slots cs = length (filter s_used (c_slots cs))"

definition used_objects :: "CapSpace \<Rightarrow> nat" where
  "used_objects cs = length (filter o_used (c_objects cs))"

definition cdt_step_limit :: "CapSpace \<Rightarrow> nat" where
  "cdt_step_limit cs = length (c_slots cs)"

definition note_walk :: "CapSpace \<Rightarrow> nat \<Rightarrow> CapSpace" where
  "note_walk cs steps = (if steps > c_peak_cdt_walk cs then cs\<lparr>c_peak_cdt_walk := steps\<rparr> else cs)"

definition note_overrun :: "CapSpace \<Rightarrow> CapSpace" where
  "note_overrun cs =
     cs\<lparr>c_cdt_walk_overruns :=
          (if c_cdt_walk_overruns cs = - 1 then - 1 else c_cdt_walk_overruns cs + 1)\<rparr>"

definition mod_slot :: "CapSpace \<Rightarrow> nat \<Rightarrow> (CapSlot \<Rightarrow> CapSlot) \<Rightarrow> CapSpace option" where
  "mod_slot cs i f = map_option (\<lambda>ss. cs\<lparr>c_slots := ss\<rparr>) (tupd (c_slots cs) i f)"

definition mod_object :: "CapSpace \<Rightarrow> nat \<Rightarrow> (Object \<Rightarrow> Object) \<Rightarrow> CapSpace option" where
  "mod_object cs i f = map_option (\<lambda>os. cs\<lparr>c_objects := os\<rparr>) (tupd (c_objects cs) i f)"

definition cs_ptr :: "CapSpace \<Rightarrow> nat \<Rightarrow> CapPtr option" where
  "cs_ptr cs i = map_option (\<lambda>s. \<lparr>p_slot = i, p_gen = s_gen s\<rparr>) (tget (c_slots cs) i)"

definition cs_resolve :: "CapSpace \<Rightarrow> CapPtr \<Rightarrow> CapError + nat" where
  "cs_resolve cs ptr =
     (case tget (c_slots cs) (p_slot ptr) of
        None \<Rightarrow> Inl Invalid
      | Some s \<Rightarrow> if s_used s \<and> s_gen s = p_gen ptr then Inr (p_slot ptr) else Inl Invalid)"

definition free_slot_index :: "CapSpace \<Rightarrow> CapError + nat" where
  "free_slot_index cs =
     (case position (\<lambda>s. \<not> s_used s) (c_slots cs) of None \<Rightarrow> Inl NoSlot | Some i \<Rightarrow> Inr i)"

definition alloc_slot :: "CapSpace \<Rightarrow> nat \<Rightarrow> Rights \<Rightarrow> u64 \<Rightarrow> CapSpace \<times> (CapError + nat)" where
  "alloc_slot cs obj rights badge =
     (case free_slot_index cs of
        Inl e \<Rightarrow> (cs, Inl e)
      | Inr i \<Rightarrow>
          let gen = s_gen (c_slots cs ! i);
              s = \<lparr>s_used = True, s_gen = gen, s_object = obj, s_rights = rights, s_badge = badge,
                   s_subregion = None, s_mdb = Mdb_EMPTY\<rparr>;
              cs1 = cs\<lparr>c_slots := (c_slots cs)[i := s]\<rparr>;
              now = used_slots cs1
          in (if now > c_peak_slots cs1 then cs1\<lparr>c_peak_slots := now\<rparr> else cs1, Inr i))"

definition release_slot :: "CapSpace \<Rightarrow> nat \<Rightarrow> CapSpace option" where
  "release_slot cs i = mod_slot cs i (\<lambda>s. CapSlot_EMPTY\<lparr>s_gen := s_gen s + 1\<rparr>)"

definition alloc_object_inner :: "CapSpace \<Rightarrow> ObjectKind \<Rightarrow> CapSpace \<times> (CapError + nat)" where
  "alloc_object_inner cs kind =
     (case position (\<lambda>ob. \<not> o_used ob) (c_objects cs) of
        None \<Rightarrow> (cs, Inl NoObject)
      | Some i \<Rightarrow>
          let gen = o_gen (c_objects cs ! i);
              ob = \<lparr>o_used = True, o_kind = kind, o_refcount = 1, o_gen = gen\<rparr>
          in (cs\<lparr>c_objects := (c_objects cs)[i := ob]\<rparr>, Inr i))"

definition alloc_object :: "CapSpace \<Rightarrow> ObjectKind \<Rightarrow> CapSpace \<times> (CapError + nat)" where
  "alloc_object cs kind =
     (case alloc_object_inner cs kind of
        (cs1, Inl e) \<Rightarrow> (cs1, Inl e)
      | (cs1, Inr i) \<Rightarrow>
          let now = used_objects cs1
          in (if now > c_peak_objects cs1 then cs1\<lparr>c_peak_objects := now\<rparr> else cs1, Inr i))"

definition child_count :: "CapSpace \<Rightarrow> nat \<Rightarrow> unit + nat" where
  "child_count cs slot = count_children (c_slots cs) slot (cdt_step_limit cs)"

definition link_child :: "CapSpace \<Rightarrow> nat \<Rightarrow> nat \<Rightarrow> CapSpace option" where
  "link_child cs parent child = map_option (\<lambda>ss. cs\<lparr>c_slots := ss\<rparr>) (kind_einhaengen (c_slots cs) parent child)"

definition cs_unlink :: "CapSpace \<Rightarrow> nat \<Rightarrow> CapSpace option" where
  "cs_unlink cs slot =
     do {
       s \<leftarrow> tget (c_slots cs) slot;
       let mdb = s_mdb s;
       cs1 \<leftarrow> (case m_prev mdb of
                 Some p \<Rightarrow> mod_slot cs p (set_next (m_next mdb))
               | None \<Rightarrow>
                   (case m_parent mdb of
                      Some par \<Rightarrow> mod_slot cs par (set_first_child (m_next mdb))
                    | None \<Rightarrow> Some cs));
       cs2 \<leftarrow> (case m_next mdb of
                 Some n \<Rightarrow> mod_slot cs1 n (set_prev (m_prev mdb))
               | None \<Rightarrow> Some cs1);
       mod_slot cs2 slot (\<lambda>s. s\<lparr>s_mdb := Mdb_EMPTY\<rparr>)
     }"

section \<open>Installing root capabilities\<close>

definition cs_install :: "CapSpace \<Rightarrow> ObjectKind \<Rightarrow> Rights \<Rightarrow> (CapSpace \<times> (CapError + CapPtr)) option" where
  "cs_install cs kind rights =
     (case alloc_object cs kind of
        (cs1, Inl e) \<Rightarrow> Some (cs1, Inl e)
      | (cs1, Inr obj) \<Rightarrow>
          (case alloc_slot cs1 obj rights 0 of
             (cs2, Inl e) \<Rightarrow>
               do { cs3 \<leftarrow> mod_object cs2 obj (\<lambda>ob. ob\<lparr>o_used := False\<rparr>); Some (cs3, Inl e) }
           | (cs2, Inr slot) \<Rightarrow> do { p \<leftarrow> cs_ptr cs2 slot; Some (cs2, Inr p) }))"

definition install_memory :: "CapSpace \<Rightarrow> MemoryCap \<Rightarrow> (CapSpace \<times> (CapError + CapPtr)) option" where
  "install_memory cs c = cs_install cs (Memory (mc_region c)) (mc_rights c)"

definition install_endpoint :: "CapSpace \<Rightarrow> u32 \<Rightarrow> Rights \<Rightarrow> (CapSpace \<times> (CapError + CapPtr)) option" where
  "install_endpoint cs ep_id rights = cs_install cs (Endpoint ep_id) rights"

definition install_tcb :: "CapSpace \<Rightarrow> u64 \<Rightarrow> Rights \<Rightarrow> (CapSpace \<times> (CapError + CapPtr)) option" where
  "install_tcb cs thread_raw rights = cs_install cs (Tcb thread_raw) rights"

definition install_notification :: "CapSpace \<Rightarrow> u32 \<Rightarrow> Rights \<Rightarrow> (CapSpace \<times> (CapError + CapPtr)) option" where
  "install_notification cs ntfn_id rights = cs_install cs (Notification ntfn_id) rights"

definition install_sched_context :: "CapSpace \<Rightarrow> u32 \<Rightarrow> u32 \<Rightarrow> Rights \<Rightarrow> (CapSpace \<times> (CapError + CapPtr)) option" where
  "install_sched_context cs budget period rights = cs_install cs (SchedContext budget period) rights"

definition install_reply :: "CapSpace \<Rightarrow> u32 \<Rightarrow> u64 \<Rightarrow> Rights \<Rightarrow> (CapSpace \<times> (CapError + CapPtr)) option" where
  "install_reply cs ep caller rights = cs_install cs (Reply ep caller) rights"

definition install_pd_control :: "CapSpace \<Rightarrow> u32 \<Rightarrow> Rights \<Rightarrow> (CapSpace \<times> (CapError + CapPtr)) option" where
  "install_pd_control cs pd rights = cs_install cs (PdControl pd) rights"

definition install_loader :: "CapSpace \<Rightarrow> u32 \<Rightarrow> Rights \<Rightarrow> (CapSpace \<times> (CapError + CapPtr)) option" where
  "install_loader cs source rights = cs_install cs (Loader source) rights"

definition install_debuggable :: "CapSpace \<Rightarrow> u16 \<Rightarrow> Rights \<Rightarrow> (CapSpace \<times> (CapError + CapPtr)) option" where
  "install_debuggable cs pd rights = cs_install cs (Debuggable pd) rights"

definition install_mmio :: "CapSpace \<Rightarrow> u64 \<Rightarrow> u64 \<Rightarrow> Rights \<Rightarrow> (CapSpace \<times> (CapError + CapPtr)) option" where
  "install_mmio cs phys l rights = cs_install cs (Mmio phys l) rights"

definition install_syscall_handler ::
  "CapSpace \<Rightarrow> u32 \<Rightarrow> u16 \<Rightarrow> u64 \<Rightarrow> u64 \<Rightarrow> Rights \<Rightarrow> (CapSpace \<times> (CapError + CapPtr)) option" where
  "install_syscall_handler cs ep pd sidecar l rights = cs_install cs (SyscallHandler ep pd sidecar l) rights"

definition install_fault_handler ::
  "CapSpace \<Rightarrow> u32 \<Rightarrow> u16 \<Rightarrow> u64 \<Rightarrow> u64 \<Rightarrow> Rights \<Rightarrow> (CapSpace \<times> (CapError + CapPtr)) option" where
  "install_fault_handler cs ep pd sidecar l rights = cs_install cs (FaultHandler ep pd sidecar l) rights"

definition install_irq :: "CapSpace \<Rightarrow> u32 \<Rightarrow> Rights \<Rightarrow> (CapSpace \<times> (CapError + CapPtr)) option" where
  "install_irq cs intid rights = cs_install cs (Irq intid) rights"

definition install_dma_ex ::
  "CapSpace \<Rightarrow> u64 \<Rightarrow> u64 \<Rightarrow> DmaDir \<Rightarrow> DmaCoherence \<Rightarrow> Rights \<Rightarrow> (CapSpace \<times> (CapError + CapPtr)) option" where
  "install_dma_ex cs phys l dir coherence rights = cs_install cs (Dma phys l dir coherence) rights"

definition install_dma :: "CapSpace \<Rightarrow> u64 \<Rightarrow> u64 \<Rightarrow> Rights \<Rightarrow> (CapSpace \<times> (CapError + CapPtr)) option" where
  "install_dma cs phys l rights = install_dma_ex cs phys l Bidirectional NonCoherent rights"

section \<open>Looking at capabilities\<close>

text \<open>
  The kind a capability shows: a memory capability with a window reports the window instead of the
  object's whole region. \<open>slot_kind\<close> is the match that \<open>lookup\<close>, \<open>kind_of\<close> and \<open>inspect\<close> share.
\<close>

definition slot_kind :: "Object \<Rightarrow> CapSlot \<Rightarrow> ObjectKind" where
  "slot_kind ob s =
     (case o_kind ob of
        Memory r \<Rightarrow> Memory (case s_subregion s of Some w \<Rightarrow> w | None \<Rightarrow> r)
      | k \<Rightarrow> k)"

definition cs_lookup :: "CapSpace \<Rightarrow> CapPtr \<Rightarrow> (ObjectKind \<times> Rights \<times> u64) option option" where
  "cs_lookup cs ptr =
     (case cs_resolve cs ptr of
        Inl _ \<Rightarrow> Some None
      | Inr slot \<Rightarrow>
          do {
            s \<leftarrow> tget (c_slots cs) slot;
            ob \<leftarrow> tget (c_objects cs) (s_object s);
            Some (Some (slot_kind ob s, s_rights s, s_badge s))
          })"

definition kind_of :: "CapSpace \<Rightarrow> CapPtr \<Rightarrow> ObjectKind option option" where
  "kind_of cs ptr =
     (case cs_resolve cs ptr of
        Inl _ \<Rightarrow> Some None
      | Inr slot \<Rightarrow>
          do {
            s \<leftarrow> tget (c_slots cs) slot;
            ob \<leftarrow> tget (c_objects cs) (s_object s);
            Some (Some (slot_kind ob s))
          })"

definition cs_inspect :: "CapSpace \<Rightarrow> CapPtr \<Rightarrow> CapInfo option option" where
  "cs_inspect cs ptr =
     (case cs_resolve cs ptr of
        Inl _ \<Rightarrow> Some None
      | Inr slot \<Rightarrow>
          do {
            s \<leftarrow> tget (c_slots cs) slot;
            (case child_count cs slot of
               Inl _ \<Rightarrow> Some None
             | Inr n \<Rightarrow>
                 do {
                   ob \<leftarrow> tget (c_objects cs) (s_object s);
                   Some (Some \<lparr>ci_kind = slot_kind ob s, ci_rights = s_rights s, ci_badge = s_badge s,
                     ci_refcount = o_refcount ob, ci_child_count = n,
                     ci_is_root = (m_parent (s_mdb s) = None)\<rparr>)
                 })
          })"

definition for_each_dma :: "CapSpace \<Rightarrow> (u64 \<times> u64) list" where
  "for_each_dma cs =
     List.map_filter (\<lambda>ob. if o_used ob then (case o_kind ob of Dma phys l _ _ \<Rightarrow> Some (phys, l) | _ \<Rightarrow> None) else None)
       (c_objects cs)"

fun debug_control_in :: "Object list \<Rightarrow> u16 \<Rightarrow> CapSlot list \<Rightarrow> bool option" where
  "debug_control_in os pd [] = Some False"
| "debug_control_in os pd (sl # rest) =
     (if s_used sl \<and> Rights_contains (s_rights sl) Rights_WRITE \<and> m_parent (s_mdb sl) \<noteq> None
      then do {
        ob \<leftarrow> tget os (s_object sl);
        if o_kind ob = Debuggable pd then Some True else debug_control_in os pd rest
      }
      else debug_control_in os pd rest)"

definition any_debug_control_over :: "CapSpace \<Rightarrow> u16 \<Rightarrow> bool option" where
  "any_debug_control_over cs pd = debug_control_in (c_objects cs) pd (c_slots cs)"

definition any_debug_authority_over :: "CapSpace \<Rightarrow> u16 \<Rightarrow> bool" where
  "any_debug_authority_over cs pd =
     list_ex (\<lambda>ob. o_used ob \<and> o_refcount ob > 0 \<and> o_kind ob = Debuggable pd) (c_objects cs)"

definition peak_slots :: "CapSpace \<Rightarrow> nat \<times> nat" where
  "peak_slots cs = (c_peak_slots cs, length (c_slots cs))"

definition peak_objects :: "CapSpace \<Rightarrow> nat \<times> nat" where
  "peak_objects cs = (c_peak_objects cs, length (c_objects cs))"

definition peak_cdt_walk :: "CapSpace \<Rightarrow> nat \<times> nat" where
  "peak_cdt_walk cs = (c_peak_cdt_walk cs, cdt_step_limit cs)"

definition peak_revoke_ops :: "CapSpace \<Rightarrow> nat \<times> nat" where
  "peak_revoke_ops cs = (c_peak_revoke_ops cs, cdt_step_limit cs)"

definition mark_slot :: "CapSpace \<Rightarrow> CapPtr \<Rightarrow> bool list \<Rightarrow> bool list \<times> bool" where
  "mark_slot cs cap seen =
     (case tget (c_slots cs) (p_slot cap) of
        None \<Rightarrow> (seen, False)
      | Some s \<Rightarrow>
          if \<not> s_used s \<or> s_gen s \<noteq> p_gen cap \<or> p_slot cap \<ge> length seen then (seen, False)
          else (seen[p_slot cap := True], True))"

definition unmarked_used_slots :: "CapSpace \<Rightarrow> bool list \<Rightarrow> nat option" where
  "unmarked_used_slots cs seen =
     (if length seen < length (c_slots cs) then None
      else Some (length (filter (\<lambda>i. s_used (c_slots cs ! i) \<and> \<not> seen ! i) [0..<length (c_slots cs)])))"

section \<open>Deriving and moving\<close>

text \<open>The common tail of \<open>copy\<close> and \<open>subregion\<close>: a new child of \<open>s\<close> on the same object.\<close>

definition derive_cap ::
  "CapSpace \<Rightarrow> nat \<Rightarrow> nat \<Rightarrow> Rights \<Rightarrow> u64 \<Rightarrow> PhysRegion option \<Rightarrow> (CapSpace \<times> (CapError + CapPtr)) option" where
  "derive_cap cs s obj rights badge fenster =
     (case alloc_slot cs obj rights badge of
        (cs1, Inl e) \<Rightarrow> Some (cs1, Inl e)
      | (cs1, Inr dst) \<Rightarrow>
          do {
            cs2 \<leftarrow> mod_slot cs1 dst (\<lambda>d. d\<lparr>s_subregion := fenster\<rparr>);
            cs3 \<leftarrow> mod_object cs2 obj (\<lambda>ob. ob\<lparr>o_refcount := o_refcount ob + 1\<rparr>);
            cs4 \<leftarrow> link_child cs3 s dst;
            p \<leftarrow> cs_ptr cs4 dst;
            Some (cs4, Inr p)
          })"

definition cs_copy :: "CapSpace \<Rightarrow> CapPtr \<Rightarrow> Rights \<Rightarrow> (CapSpace \<times> (CapError + CapPtr)) option" where
  "cs_copy cs src rights =
     (case cs_resolve cs src of
        Inl e \<Rightarrow> Some (cs, Inl e)
      | Inr s \<Rightarrow>
          do {
            sl \<leftarrow> tget (c_slots cs) s;
            derive_cap cs s (s_object sl) (Rights_intersect (s_rights sl) rights) (s_badge sl) (s_subregion sl)
          })"

definition cs_mint :: "CapSpace \<Rightarrow> CapPtr \<Rightarrow> Rights \<Rightarrow> u64 \<Rightarrow> (CapSpace \<times> (CapError + CapPtr)) option" where
  "cs_mint cs src rights badge =
     do {
       (cs1, r) \<leftarrow> cs_copy cs src rights;
       (case r of
          Inl e \<Rightarrow> Some (cs1, Inl e)
        | Inr dst \<Rightarrow>
            do { cs2 \<leftarrow> mod_slot cs1 (p_slot dst) (\<lambda>s. s\<lparr>s_badge := badge\<rparr>); Some (cs2, Inr dst) })
     }"

definition cs_subregion ::
  "CapSpace \<Rightarrow> CapPtr \<Rightarrow> u64 \<Rightarrow> u64 \<Rightarrow> Rights \<Rightarrow> (CapSpace \<times> (CapError + CapPtr)) option" where
  "cs_subregion cs src offset l rights =
     (case cs_resolve cs src of
        Inl e \<Rightarrow> Some (cs, Inl e)
      | Inr s \<Rightarrow>
          do {
            sl \<leftarrow> tget (c_slots cs) s;
            let obj = s_object sl;
            ob \<leftarrow> tget (c_objects cs) obj;
            (case o_kind ob of
               Memory whole \<Rightarrow>
                 let wirksam = (case s_subregion sl of Some w \<Rightarrow> w | None \<Rightarrow> whole) in
                 (case teilfenster_rechnen wirksam offset l of
                    Inl e \<Rightarrow> Some (cs, Inl e)
                  | Inr fenster \<Rightarrow>
                      derive_cap cs s obj (Rights_intersect (s_rights sl) rights) (s_badge sl) (Some fenster))
             | _ \<Rightarrow> Some (cs, Inl Invalid))
          })"

text \<open>The loop of \<open>move_cap\<close> that hands the children to the new slot; the result counts its steps.\<close>

function adopt_loop :: "CapSpace \<Rightarrow> nat \<Rightarrow> nat option \<Rightarrow> nat \<Rightarrow> nat \<Rightarrow> (CapSpace \<times> nat) option" where
  "adopt_loop cs dst child steps limit =
     (case child of
        None \<Rightarrow> Some (cs, steps)
      | Some c \<Rightarrow>
          if steps + 1 > limit then Some (note_overrun cs, steps + 1)
          else do {
            cs1 \<leftarrow> mod_slot cs c (set_parent (Some dst));
            s \<leftarrow> tget (c_slots cs1) c;
            adopt_loop cs1 dst (m_next (s_mdb s)) (steps + 1) limit
          })"
  by pat_completeness auto
termination by (relation "measure (\<lambda>(_, _, _, steps, limit). Suc limit - steps)") auto

declare adopt_loop.simps [simp del]

text \<open>
  The first half of \<open>move_cap\<close>: the content goes to the new slot, which keeps its own generation, and
  the neighbours that pointed at the old slot are redirected.
\<close>

definition move_relink :: "CapSpace \<Rightarrow> nat \<Rightarrow> nat \<Rightarrow> CapSpace option" where
  "move_relink cs s dst =
     do {
       sl \<leftarrow> tget (c_slots cs) s;
       cs1 \<leftarrow> mod_slot cs dst (\<lambda>d. sl\<lparr>s_gen := s_gen d\<rparr>);
       let mdb = s_mdb sl;
       cs2 \<leftarrow> (case m_prev mdb of
                 Some p \<Rightarrow> mod_slot cs1 p (set_next (Some dst))
               | None \<Rightarrow>
                   (case m_parent mdb of
                      Some pa \<Rightarrow> mod_slot cs1 pa (set_first_child (Some dst))
                    | None \<Rightarrow> Some cs1));
       (case m_next mdb of
          Some n \<Rightarrow> mod_slot cs2 n (set_prev (Some dst))
        | None \<Rightarrow> Some cs2)
     }"

definition cs_move_cap :: "CapSpace \<Rightarrow> CapPtr \<Rightarrow> (CapSpace \<times> (CapError + CapPtr)) option" where
  "cs_move_cap cs src =
     (case cs_resolve cs src of
        Inl e \<Rightarrow> Some (cs, Inl e)
      | Inr s \<Rightarrow>
          (case free_slot_index cs of
             Inl e \<Rightarrow> Some (cs, Inl e)
           | Inr dst \<Rightarrow>
               do {
                 sl \<leftarrow> tget (c_slots cs) s;
                 cs3 \<leftarrow> move_relink cs s dst;
                 (cs4, steps) \<leftarrow> adopt_loop cs3 dst (m_first_child (s_mdb sl)) 0 (cdt_step_limit cs3);
                 let cs5 = note_walk cs4 steps;
                 cs6 \<leftarrow> release_slot cs5 s;
                 p \<leftarrow> cs_ptr cs6 dst;
                 Some (cs6, Inr p)
               }))"

section \<open>Deleting and revoking\<close>

definition report_debug :: "Finalized \<Rightarrow> ObjectKind \<Rightarrow> CapSlot \<Rightarrow> Finalized" where
  "report_debug rf k s =
     (case k of
        Debuggable pd \<Rightarrow>
          if Rights_contains (s_rights s) Rights_WRITE \<and> m_parent (s_mdb s) \<noteq> None
          then f_push_debug rf pd else rf
      | _ \<Rightarrow> rf)"

definition finalize_kind :: "PhysAllocator \<Rightarrow> Finalized \<Rightarrow> ObjectKind \<Rightarrow> PhysAllocator \<times> Finalized" where
  "finalize_kind al rf k =
     (case k of
        Memory region \<Rightarrow> (fst (free_region al region), rf)
      | Dma phys l _ _ \<Rightarrow> (al, f_push_dma rf phys l)
      | Reply ep caller \<Rightarrow> (al, f_push rf ep caller)
      | _ \<Rightarrow> (al, rf))"

definition delete_leaf ::
  "CapSpace \<Rightarrow> PhysAllocator \<Rightarrow> nat \<Rightarrow> Finalized \<Rightarrow> (CapSpace \<times> PhysAllocator \<times> Finalized) option" where
  "delete_leaf cs al slot rf =
     do {
       s \<leftarrow> tget (c_slots cs) slot;
       let obj = s_object s;
       ob \<leftarrow> tget (c_objects cs) obj;
       let rf1 = report_debug rf (o_kind ob) s;
       cs1 \<leftarrow> cs_unlink cs slot;
       cs2 \<leftarrow> release_slot cs1 slot;
       cs3 \<leftarrow> mod_object cs2 obj (\<lambda>ob. ob\<lparr>o_refcount := o_refcount ob - 1\<rparr>);
       ob3 \<leftarrow> tget (c_objects cs3) obj;
       if o_refcount ob3 = 0 then
         do {
           let (al1, rf2) = finalize_kind al rf1 (o_kind ob3);
           cs4 \<leftarrow> mod_object cs3 obj (\<lambda>ob. Object_EMPTY\<lparr>o_gen := o_gen ob + 1\<rparr>);
           Some (cs4, al1, rf2)
         }
       else Some (cs3, al, rf1)
     }"

definition cs_delete ::
  "CapSpace \<Rightarrow> PhysAllocator \<Rightarrow> CapPtr \<Rightarrow> Finalized \<Rightarrow>
   ((CapSpace \<times> PhysAllocator \<times> Finalized) \<times> (CapError + unit)) option" where
  "cs_delete cs al ptr rf =
     (case cs_resolve cs ptr of
        Inl e \<Rightarrow> Some ((cs, al, rf), Inl e)
      | Inr slot \<Rightarrow>
          do {
            s \<leftarrow> tget (c_slots cs) slot;
            if m_first_child (s_mdb s) \<noteq> None then Some ((cs, al, rf), Inl HasChildren)
            else do { r \<leftarrow> delete_leaf cs al slot rf; Some (r, Inr ()) }
          })"

function revoke_loop ::
  "CapSpace \<Rightarrow> PhysAllocator \<Rightarrow> Finalized \<Rightarrow> nat \<Rightarrow> nat \<Rightarrow> nat \<Rightarrow>
   (CapSpace \<times> PhysAllocator \<times> Finalized \<times> nat) option" where
  "revoke_loop cs al rf slot limit ops =
     do {
       s \<leftarrow> tget (c_slots cs) slot;
       (case m_first_child (s_mdb s) of
          None \<Rightarrow> Some (cs, al, rf, ops)
        | Some child \<Rightarrow>
            (case descend_to_leaf (c_slots cs) child 0 limit of
               Inl _ \<Rightarrow> Some (note_overrun cs, al, rf, ops)
             | Inr (leaf, steps) \<Rightarrow>
                 do {
                   (cs1, al1, rf1) \<leftarrow> delete_leaf (note_walk cs steps) al leaf rf;
                   if ops + 1 > limit then Some (note_overrun cs1, al1, rf1, ops + 1)
                   else revoke_loop cs1 al1 rf1 slot limit (ops + 1)
                 }))
     }"
  by pat_completeness auto
termination by (relation "measure (\<lambda>(_, _, _, _, limit, ops). Suc limit - ops)") auto

declare revoke_loop.simps [simp del]

definition cs_revoke ::
  "CapSpace \<Rightarrow> PhysAllocator \<Rightarrow> CapPtr \<Rightarrow> Finalized \<Rightarrow>
   ((CapSpace \<times> PhysAllocator \<times> Finalized) \<times> (CapError + unit)) option" where
  "cs_revoke cs al ptr rf =
     (case cs_resolve cs ptr of
        Inl e \<Rightarrow> Some ((cs, al, rf), Inl e)
      | Inr slot \<Rightarrow>
          do {
            (cs1, al1, rf1, ops) \<leftarrow> revoke_loop cs al rf slot (cdt_step_limit cs) 0;
            let cs2 = (if ops > c_peak_revoke_ops cs1 then cs1\<lparr>c_peak_revoke_ops := ops\<rparr> else cs1);
            Some ((cs2, al1, rf1), Inr ())
          })"

section \<open>The structural audit\<close>

text \<open>
  \<open>audit_cdt\<close> returns the code of the first anomaly it meets, 0 when it finds none. The loops with
  early return become a search for the first non-zero code; the reference counts that the source
  collects in the caller's buffer are \<open>count_refs\<close> (32-bit, as the buffer is).
\<close>

fun first_code :: "(nat \<Rightarrow> nat option) \<Rightarrow> nat list \<Rightarrow> nat option" where
  "first_code f [] = Some 0"
| "first_code f (i # is) = do { c \<leftarrow> f i; if c \<noteq> 0 then Some c else first_code f is }"

definition count_refs :: "CapSlot list \<Rightarrow> nat \<Rightarrow> u32" where
  "count_refs ss obj = of_nat (length (filter (\<lambda>s. s_used s \<and> s_object s = obj) ss))"

definition audit_slot_object :: "CapSpace \<Rightarrow> nat \<Rightarrow> nat option" where
  "audit_slot_object cs i =
     do {
       s \<leftarrow> tget (c_slots cs) i;
       if \<not> s_used s then Some 0
       else (case tget (c_objects cs) (s_object s) of
               None \<Rightarrow> Some 1
             | Some ob \<Rightarrow> if o_used ob then Some 0 else Some 1)
     }"

definition audit_object :: "CapSpace \<Rightarrow> nat \<Rightarrow> nat option" where
  "audit_object cs obj =
     do {
       ob \<leftarrow> tget (c_objects cs) obj;
       let r = count_refs (c_slots cs) obj;
       if o_used ob then
         if o_refcount ob \<noteq> r then Some 2 else if r = 0 then Some 3 else Some 0
       else if r \<noteq> 0 then Some 3 else Some 0
     }"

text \<open>The walk through the child list of the parent: 0 when \<open>s\<close> is found, 4 when it is not, 7 past the limit.\<close>

function audit_find_child :: "CapSlot list \<Rightarrow> nat \<Rightarrow> nat option \<Rightarrow> nat \<Rightarrow> nat \<Rightarrow> nat option" where
  "audit_find_child ss s c steps limit =
     (case c of
        None \<Rightarrow> Some 4
      | Some ci \<Rightarrow>
          if ci = s then Some 0
          else do {
            x \<leftarrow> tget ss ci;
            if steps + 1 > limit then Some 7
            else audit_find_child ss s (m_next (s_mdb x)) (steps + 1) limit
          })"
  by pat_completeness auto
termination by (relation "measure (\<lambda>(_, _, _, steps, limit). Suc limit - steps)") auto

function audit_parents :: "CapSlot list \<Rightarrow> nat option \<Rightarrow> nat \<Rightarrow> nat \<Rightarrow> nat option" where
  "audit_parents ss p steps limit =
     (case p of
        None \<Rightarrow> Some 0
      | Some i \<Rightarrow>
          if steps + 1 > limit then Some 7
          else do { x \<leftarrow> tget ss i; audit_parents ss (m_parent (s_mdb x)) (steps + 1) limit })"
  by pat_completeness auto
termination by (relation "measure (\<lambda>(_, _, steps, limit). Suc limit - steps)") auto

declare audit_find_child.simps [simp del] audit_parents.simps [simp del]

definition audit_parent :: "CapSpace \<Rightarrow> nat \<Rightarrow> CapSlot \<Rightarrow> nat option" where
  "audit_parent cs i s =
     (case m_parent (s_mdb s) of
        None \<Rightarrow> Some 0
      | Some p \<Rightarrow>
          (case tget (c_slots cs) p of
             None \<Rightarrow> Some 4
           | Some ps \<Rightarrow>
               if \<not> s_used ps \<or> s_object ps \<noteq> s_object s then Some 4
               else audit_find_child (c_slots cs) i (m_first_child (s_mdb ps)) 0 (cdt_step_limit cs)))"

definition audit_first_child :: "CapSpace \<Rightarrow> nat \<Rightarrow> CapSlot \<Rightarrow> nat option" where
  "audit_first_child cs i s =
     (case m_first_child (s_mdb s) of
        None \<Rightarrow> Some 0
      | Some c \<Rightarrow>
          (case tget (c_slots cs) c of
             None \<Rightarrow> Some 6
           | Some x \<Rightarrow>
               if \<not> s_used x \<or> m_parent (s_mdb x) \<noteq> Some i \<or> m_prev (s_mdb x) \<noteq> None then Some 6 else Some 0))"

definition audit_next :: "CapSpace \<Rightarrow> nat \<Rightarrow> CapSlot \<Rightarrow> nat option" where
  "audit_next cs i s =
     (case m_next (s_mdb s) of
        None \<Rightarrow> Some 0
      | Some n \<Rightarrow>
          (case tget (c_slots cs) n of
             None \<Rightarrow> Some 5
           | Some x \<Rightarrow>
               if \<not> s_used x \<or> m_prev (s_mdb x) \<noteq> Some i \<or> m_parent (s_mdb x) \<noteq> m_parent (s_mdb s)
               then Some 5 else Some 0))"

definition audit_prev :: "CapSpace \<Rightarrow> nat \<Rightarrow> CapSlot \<Rightarrow> nat option" where
  "audit_prev cs i s =
     (case m_prev (s_mdb s) of
        None \<Rightarrow> Some 0
      | Some pv \<Rightarrow>
          (case tget (c_slots cs) pv of
             None \<Rightarrow> Some 5
           | Some x \<Rightarrow> if \<not> s_used x \<or> m_next (s_mdb x) \<noteq> Some i then Some 5 else Some 0))"

text \<open>\<open>a orelse b\<close> of the audit: the second check only runs when the first found nothing.\<close>

definition and_then :: "nat option \<Rightarrow> nat option \<Rightarrow> nat option" where
  "and_then a b = do { c \<leftarrow> a; if c \<noteq> 0 then Some c else b }"

definition audit_links :: "CapSpace \<Rightarrow> nat \<Rightarrow> nat option" where
  "audit_links cs i =
     do {
       s \<leftarrow> tget (c_slots cs) i;
       if \<not> s_used s then Some 0
       else and_then (audit_parent cs i s)
              (and_then (audit_first_child cs i s) (and_then (audit_next cs i s) (audit_prev cs i s)))
     }"

definition audit_acyclic :: "CapSpace \<Rightarrow> nat \<Rightarrow> nat option" where
  "audit_acyclic cs i =
     do {
       s \<leftarrow> tget (c_slots cs) i;
       if \<not> s_used s then Some 0
       else audit_parents (c_slots cs) (m_parent (s_mdb s)) 0 (cdt_step_limit cs)
     }"

definition audit_cdt :: "CapSpace \<Rightarrow> nat \<Rightarrow> nat option" where
  "audit_cdt cs refs_len =
     (let nslots = length (c_slots cs);
          nobjects = length (c_objects cs)
      in if refs_len < nobjects then Some 8
         else and_then (first_code (audit_slot_object cs) [0..<nslots])
                (and_then (first_code (audit_object cs) [0..<nobjects])
                   (and_then (first_code (audit_links cs) [0..<nslots])
                      (first_code (audit_acyclic cs) [0..<nslots]))))"

end
