(* ===== verification/CapTree.thy ===== *)
theory CapTree
  imports CapSpace
begin

text \<open>
  The derivation tree as a forest. \<open>cdt ss ch rk\<close> says that the slot
  table \<open>ss\<close> represents a forest: \<open>ch i\<close> is the list of children of slot \<open>i\<close> in sibling order, the
  chain fields of the slots realise exactly these lists (\<open>dls\<close>), and \<open>rk\<close> grows along every edge, so
  that there are no cycles. The operations are shown to transform the forest the way their names say.
\<close>

section \<open>The links of a slot table as functions\<close>

definition usd :: "CapSlot list \<Rightarrow> nat \<Rightarrow> bool" where "usd ss i \<longleftrightarrow> i < length ss \<and> s_used (ss ! i)"
definition par :: "CapSlot list \<Rightarrow> nat \<Rightarrow> nat option" where "par ss i = m_parent (s_mdb (ss ! i))"
definition fch :: "CapSlot list \<Rightarrow> nat \<Rightarrow> nat option" where "fch ss i = m_first_child (s_mdb (ss ! i))"
definition nxt :: "CapSlot list \<Rightarrow> nat \<Rightarrow> nat option" where "nxt ss i = m_next (s_mdb (ss ! i))"
definition prv :: "CapSlot list \<Rightarrow> nat \<Rightarrow> nat option" where "prv ss i = m_prev (s_mdb (ss ! i))"

named_theorems link_simps \<open>links of an updated slot table\<close>

lemma links_update [link_simps]:
  assumes "i < length ss"
  shows "usd (ss[i := v]) = (usd ss)(i := s_used v)"
    "par (ss[i := v]) = (par ss)(i := m_parent (s_mdb v))"
    "fch (ss[i := v]) = (fch ss)(i := m_first_child (s_mdb v))"
    "nxt (ss[i := v]) = (nxt ss)(i := m_next (s_mdb v))"
    "prv (ss[i := v]) = (prv ss)(i := m_prev (s_mdb v))"
  using assms by (auto simp: fun_eq_iff usd_def par_def fch_def nxt_def prv_def nth_list_update)

lemma set_link_sel [simp]:
  "s_used (set_parent v s) = s_used s" "s_used (set_first_child v s) = s_used s"
  "s_used (set_next v s) = s_used s" "s_used (set_prev v s) = s_used s"
  "m_parent (s_mdb (set_parent v s)) = v" "m_parent (s_mdb (set_first_child v s)) = m_parent (s_mdb s)"
  "m_parent (s_mdb (set_next v s)) = m_parent (s_mdb s)" "m_parent (s_mdb (set_prev v s)) = m_parent (s_mdb s)"
  "m_first_child (s_mdb (set_parent v s)) = m_first_child (s_mdb s)" "m_first_child (s_mdb (set_first_child v s)) = v"
  "m_first_child (s_mdb (set_next v s)) = m_first_child (s_mdb s)" "m_first_child (s_mdb (set_prev v s)) = m_first_child (s_mdb s)"
  "m_next (s_mdb (set_parent v s)) = m_next (s_mdb s)" "m_next (s_mdb (set_first_child v s)) = m_next (s_mdb s)"
  "m_next (s_mdb (set_next v s)) = v" "m_next (s_mdb (set_prev v s)) = m_next (s_mdb s)"
  "m_prev (s_mdb (set_parent v s)) = m_prev (s_mdb s)" "m_prev (s_mdb (set_first_child v s)) = m_prev (s_mdb s)"
  "m_prev (s_mdb (set_next v s)) = m_prev (s_mdb s)" "m_prev (s_mdb (set_prev v s)) = v"
  by (simp_all add: set_parent_def set_first_child_def set_next_def set_prev_def)

text \<open>In-place modification of one slot, and what the four link setters do to the links.\<close>

lemma links_lupd:
  assumes "i < length ss"
  shows "usd (lupd ss i f) = (usd ss)(i := s_used (f (ss ! i)))"
    "par (lupd ss i f) = (par ss)(i := m_parent (s_mdb (f (ss ! i))))"
    "fch (lupd ss i f) = (fch ss)(i := m_first_child (s_mdb (f (ss ! i))))"
    "nxt (lupd ss i f) = (nxt ss)(i := m_next (s_mdb (f (ss ! i))))"
    "prv (lupd ss i f) = (prv ss)(i := m_prev (s_mdb (f (ss ! i))))"
  using assms by (simp_all add: lupd_def links_update)

lemma links_set [link_simps]:
  assumes "i < length ss"
  shows "usd (lupd ss i (set_parent v)) = usd ss" "usd (lupd ss i (set_first_child v)) = usd ss"
    "usd (lupd ss i (set_next v)) = usd ss" "usd (lupd ss i (set_prev v)) = usd ss"
    "par (lupd ss i (set_parent v)) = (par ss)(i := v)" "par (lupd ss i (set_first_child v)) = par ss"
    "par (lupd ss i (set_next v)) = par ss" "par (lupd ss i (set_prev v)) = par ss"
    "fch (lupd ss i (set_parent v)) = fch ss" "fch (lupd ss i (set_first_child v)) = (fch ss)(i := v)"
    "fch (lupd ss i (set_next v)) = fch ss" "fch (lupd ss i (set_prev v)) = fch ss"
    "nxt (lupd ss i (set_parent v)) = nxt ss" "nxt (lupd ss i (set_first_child v)) = nxt ss"
    "nxt (lupd ss i (set_next v)) = (nxt ss)(i := v)" "nxt (lupd ss i (set_prev v)) = nxt ss"
    "prv (lupd ss i (set_parent v)) = prv ss" "prv (lupd ss i (set_first_child v)) = prv ss"
    "prv (lupd ss i (set_next v)) = prv ss" "prv (lupd ss i (set_prev v)) = (prv ss)(i := v)"
  using assms
  by (auto simp: fun_eq_iff links_lupd) (auto simp: usd_def par_def fch_def nxt_def prv_def)

lemma bare_lupd:
  "i < length ss \<Longrightarrow> (\<And>s. bare (f s) = bare s) \<Longrightarrow> bare (lupd ss i f ! j) = bare (ss ! j)"
  by (simp add: nth_lupd)

lemma nth_links:
  "m_parent (s_mdb (ss ! i)) = par ss i" "m_first_child (s_mdb (ss ! i)) = fch ss i"
  "m_next (s_mdb (ss ! i)) = nxt ss i" "m_prev (s_mdb (ss ! i)) = prv ss i"
  by (simp_all add: par_def fch_def nxt_def prv_def)

lemma Mdb_EMPTY_sel [simp]:
  "m_parent Mdb_EMPTY = None" "m_first_child Mdb_EMPTY = None" "m_next Mdb_EMPTY = None" "m_prev Mdb_EMPTY = None"
  by (simp_all add: Mdb_EMPTY_def)

lemma CapSlot_EMPTY_sel [simp]:
  "s_used CapSlot_EMPTY = False" "s_mdb CapSlot_EMPTY = Mdb_EMPTY" "s_subregion CapSlot_EMPTY = None"
  by (simp_all add: CapSlot_EMPTY_def)

text \<open>What a slot holds besides its links.\<close>

definition bare :: "CapSlot \<Rightarrow> CapSlot" where "bare s = s\<lparr>s_mdb := Mdb_EMPTY\<rparr>"

lemma bare_set [simp]:
  "bare (set_parent v s) = bare s" "bare (set_first_child v s) = bare s" "bare (set_next v s) = bare s"
  "bare (set_prev v s) = bare s" "bare (bare s) = bare s" "bare (s\<lparr>s_mdb := m\<rparr>) = bare s"
  by (simp_all add: bare_def set_parent_def set_first_child_def set_next_def set_prev_def)

lemma bare_eqD:
  assumes "bare s = bare t"
  shows "s_used s = s_used t" "s_gen s = s_gen t" "s_object s = s_object t" "s_rights s = s_rights t"
    "s_badge s = s_badge t" "s_subregion s = s_subregion t"
  using assms by (cases s; cases t; simp add: bare_def)+

section \<open>Forests\<close>

definition cdt :: "CapSlot list \<Rightarrow> (nat \<Rightarrow> nat list) \<Rightarrow> (nat \<Rightarrow> nat) \<Rightarrow> bool" where
  "cdt ss ch rk \<longleftrightarrow>
     (\<forall>i. \<not> usd ss i \<longrightarrow> ch i = []) \<and>
     (\<forall>i. usd ss i \<longrightarrow> fch ss i = hd_or (ch i) None \<and> dls (nxt ss) (prv ss) None (ch i) None \<and> distinct (ch i)) \<and>
     (\<forall>i c. c \<in> set (ch i) \<longrightarrow> usd ss c \<and> par ss c = Some i \<and> rk i < rk c) \<and>
     (\<forall>c p. usd ss c \<longrightarrow> par ss c = Some p \<longrightarrow> usd ss p \<and> c \<in> set (ch p)) \<and>
     (\<forall>c. usd ss c \<longrightarrow> par ss c = None \<longrightarrow> nxt ss c = None \<and> prv ss c = None)"

lemma cdtD:
  assumes "cdt ss ch rk"
  shows "\<not> usd ss i \<Longrightarrow> ch i = []"
    "usd ss i \<Longrightarrow> fch ss i = hd_or (ch i) None"
    "usd ss i \<Longrightarrow> dls (nxt ss) (prv ss) None (ch i) None"
    "distinct (ch i)"
    "c \<in> set (ch i) \<Longrightarrow> usd ss c"
    "c \<in> set (ch i) \<Longrightarrow> usd ss i"
    "c \<in> set (ch i) \<Longrightarrow> par ss c = Some i"
    "c \<in> set (ch i) \<Longrightarrow> rk i < rk c"
    "usd ss c \<Longrightarrow> par ss c = Some p \<Longrightarrow> usd ss p"
    "usd ss c \<Longrightarrow> par ss c = Some p \<Longrightarrow> c \<in> set (ch p)"
    "usd ss c \<Longrightarrow> par ss c = None \<Longrightarrow> nxt ss c = None"
    "usd ss c \<Longrightarrow> par ss c = None \<Longrightarrow> prv ss c = None"
proof -
  note d = assms [unfolded cdt_def]
  note d1 = d [THEN conjunct1] and d2 = d [THEN conjunct2, THEN conjunct1]
    and d3 = d [THEN conjunct2, THEN conjunct2, THEN conjunct1]
    and d4 = d [THEN conjunct2, THEN conjunct2, THEN conjunct2, THEN conjunct1]
    and d5 = d [THEN conjunct2, THEN conjunct2, THEN conjunct2, THEN conjunct2]
  show "distinct (ch i)" using d1 d2 by (cases "usd ss i") simp_all
  show "\<not> usd ss i \<Longrightarrow> ch i = []" "c \<in> set (ch i) \<Longrightarrow> usd ss i" using d1 by (cases "usd ss i"; simp)+
  show "usd ss i \<Longrightarrow> fch ss i = hd_or (ch i) None" "usd ss i \<Longrightarrow> dls (nxt ss) (prv ss) None (ch i) None"
    using d2 by simp_all
  show "c \<in> set (ch i) \<Longrightarrow> usd ss c" "c \<in> set (ch i) \<Longrightarrow> par ss c = Some i" "c \<in> set (ch i) \<Longrightarrow> rk i < rk c"
    using d3 by simp_all
  show "usd ss c \<Longrightarrow> par ss c = Some p \<Longrightarrow> usd ss p" "usd ss c \<Longrightarrow> par ss c = Some p \<Longrightarrow> c \<in> set (ch p)"
    using d4 by simp_all
  show "usd ss c \<Longrightarrow> par ss c = None \<Longrightarrow> nxt ss c = None" "usd ss c \<Longrightarrow> par ss c = None \<Longrightarrow> prv ss c = None"
    using d5 by simp_all
qed

lemma cdtI:
  assumes "\<And>i. \<not> usd ss i \<Longrightarrow> ch i = []"
    "\<And>i. usd ss i \<Longrightarrow> fch ss i = hd_or (ch i) None"
    "\<And>i. usd ss i \<Longrightarrow> dls (nxt ss) (prv ss) None (ch i) None"
    "\<And>i. usd ss i \<Longrightarrow> distinct (ch i)"
    "\<And>i c. c \<in> set (ch i) \<Longrightarrow> usd ss c \<and> par ss c = Some i \<and> rk i < rk c"
    "\<And>c p. usd ss c \<Longrightarrow> par ss c = Some p \<Longrightarrow> usd ss p \<and> c \<in> set (ch p)"
    "\<And>c. usd ss c \<Longrightarrow> par ss c = None \<Longrightarrow> nxt ss c = None \<and> prv ss c = None"
  shows "cdt ss ch rk"
  unfolding cdt_def using assms by blast

lemma usd_lt: "usd ss i \<Longrightarrow> i < length ss"
  by (simp add: usd_def)

lemma cdt_disjoint: "cdt ss ch rk \<Longrightarrow> c \<in> set (ch i) \<Longrightarrow> c \<in> set (ch j) \<Longrightarrow> i = j"
  by (metis cdtD(7) option.inject)

text \<open>A fresh slot without links is a new root.\<close>

lemma cdt_new_root:
  assumes "cdt ss ch rk" "d < length ss" "\<not> usd ss d" "s_used v" "s_mdb v = Mdb_EMPTY"
  shows "cdt (ss[d := v]) ch rk"
proof -
  have chd: "ch d = []" using assms(1,3) by (rule cdtD(1))
  have nd: "d \<notin> set (ch i)" for i using assms(1,3) cdtD(5) by blast
  note S = links_update [OF assms(2), of v]
  note D = cdtD [OF assms(1)]
  show ?thesis
  proof (rule cdtI, unfold S)
    fix i
    show "\<not> ((usd ss)(d := s_used v)) i \<Longrightarrow> ch i = []" using D(1) chd by (auto split: if_splits)
    assume u: "((usd ss)(d := s_used v)) i"
    show "((fch ss)(d := m_first_child (s_mdb v))) i = hd_or (ch i) None"
      using u D(2) chd assms(5) by (cases "i = d") simp_all
    show "dls ((nxt ss)(d := m_next (s_mdb v))) ((prv ss)(d := m_prev (s_mdb v))) None (ch i) None"
      using u D(3) chd nd [of i] by (cases "i = d") (simp_all add: dls_upd_notin)
    show "distinct (ch i)" by (rule D(4))
  next
    fix i c
    assume "c \<in> set (ch i)"
    then show "((usd ss)(d := s_used v)) c \<and> ((par ss)(d := m_parent (s_mdb v))) c = Some i \<and> rk i < rk c"
      using D(5,7,8) nd [of i] by auto
  next
    fix c p
    assume "((usd ss)(d := s_used v)) c" "((par ss)(d := m_parent (s_mdb v))) c = Some p"
    then show "((usd ss)(d := s_used v)) p \<and> c \<in> set (ch p)"
      using D(9,10) assms(3,4,5) by (auto split: if_splits)
  next
    fix c
    assume "((usd ss)(d := s_used v)) c" "((par ss)(d := m_parent (s_mdb v))) c = None"
    then show "((nxt ss)(d := m_next (s_mdb v))) c = None \<and> ((prv ss)(d := m_prev (s_mdb v))) c = None"
      using D(11,12) assms(5) by (auto split: if_splits)
  qed
qed

text \<open>Hanging a fresh root in front of the children of \<open>s\<close>.\<close>

lemma link_shape:
  assumes "s < length ss" "d < length ss" "\<And>f. fch ss s = Some f \<Longrightarrow> f < length ss"
  obtains ss' where "kind_einhaengen ss s d = Some ss'" "length ss' = length ss"
    "usd ss' = usd ss" "par ss' = (par ss)(d := Some s)" "fch ss' = (fch ss)(s := Some d)"
    "nxt ss' = (nxt ss)(d := fch ss s)"
    "prv ss' = (case fch ss s of None \<Rightarrow> (prv ss)(d := None) | Some f \<Rightarrow> (prv ss)(d := None, f := Some d))"
    "\<And>i. bare (ss' ! i) = bare (ss ! i)"
proof (cases "fch ss s")
  case None
  then show ?thesis
    using that assms
    by (simp add: kind_einhaengen_def Let_def tupd_lupd tget_Some link_simps nth_links bare_lupd)
next
  case (Some f)
  then show ?thesis
    using that assms
    by (simp add: kind_einhaengen_def Let_def tupd_lupd tget_Some link_simps nth_links bare_lupd)
qed

lemma cdt_link:
  assumes "cdt ss ch rk" "usd ss s" "usd ss d" "s \<noteq> d" "ch d = []" "par ss d = None"
  obtains ss' where "kind_einhaengen ss s d = Some ss'" "length ss' = length ss" "usd ss' = usd ss"
    "par ss' = (par ss)(d := Some s)" "\<And>i. bare (ss' ! i) = bare (ss ! i)"
    "cdt ss' (ch(s := d # ch s)) (rk(d := Suc (rk s)))"
proof -
  note D = cdtD [OF assms(1)]
  have nd: "d \<notin> set (ch i)" for i using D(7) assms(6) by fastforce
  have f: "fch ss s = hd_or (ch s) None" using D(2) assms(2) by simp
  have ff: "f < length ss" "f \<noteq> d" "par ss f = Some s" if "fch ss s = Some f" for f
  proof -
    have "f \<in> set (ch s)" using that f by (cases "ch s") auto
    then show "f < length ss" "f \<noteq> d" "par ss f = Some s" using D(5,7) nd by (auto simp: usd_lt)
  qed
  obtain ss' where ss': "kind_einhaengen ss s d = Some ss'" "length ss' = length ss"
    "usd ss' = usd ss" "par ss' = (par ss)(d := Some s)" "fch ss' = (fch ss)(s := Some d)"
    "nxt ss' = (nxt ss)(d := fch ss s)"
    "prv ss' = (case fch ss s of None \<Rightarrow> (prv ss)(d := None) | Some f \<Rightarrow> (prv ss)(d := None, f := Some d))"
    "\<And>i. bare (ss' ! i) = bare (ss ! i)"
    using link_shape [of s ss d] assms(2,3) ff(1) usd_lt by blast
  have "cdt ss' (ch(s := d # ch s)) (rk(d := Suc (rk s)))"
  proof (rule cdtI)
    fix i
    show "\<not> usd ss' i \<Longrightarrow> (ch(s := d # ch s)) i = []" using D(1) ss'(3) assms(2) by auto
    assume u: "usd ss' i"
    show "fch ss' i = hd_or ((ch(s := d # ch s)) i) None" using u D(2) ss'(3,5) by simp
    show "distinct ((ch(s := d # ch s)) i)" using D(4) nd by simp
    show "dls (nxt ss') (prv ss') None ((ch(s := d # ch s)) i) None"
    proof (cases "i = s")
      case True
      show ?thesis
      proof (cases "ch s")
        case Nil
        then show ?thesis using True f ss'(6,7) by simp
      next
        case (Cons g gs)
        have "dls (nxt ss) (prv ss) None (g # gs) None" using D(3) assms(2) Cons by metis
        moreover have "d \<notin> set (g # gs)" "g \<notin> set gs" using nd [of s] D(4) [of s] Cons by auto
        ultimately show ?thesis using True f ss'(6,7) Cons by (simp add: dls_upd_notin)
      qed
    next
      case False
      have "f \<notin> set (ch i)" if "fch ss s = Some f" for f
        using ff(3) [OF that] D(7) [of f i] False by auto
      then show ?thesis
        using False D(3) [of i] u ss'(3) nd [of i]
        by (cases "fch ss s") (simp_all add: ss'(6,7) dls_upd_notin)
    qed
  next
    fix i c
    assume "c \<in> set ((ch(s := d # ch s)) i)"
    then show "usd ss' c \<and> par ss' c = Some i \<and> (rk(d := Suc (rk s))) i < (rk(d := Suc (rk s))) c"
      using D(5,7,8) [of c i] ss'(3,4) assms(3-5) nd [of i] by (auto split: if_splits)
  next
    fix c p
    assume "usd ss' c" "par ss' c = Some p"
    then show "usd ss' p \<and> c \<in> set ((ch(s := d # ch s)) p)"
      using D(9,10) [of c p] ss'(3,4) assms(2) by (auto split: if_splits)
  next
    fix c
    assume c: "usd ss' c" "par ss' c = None"
    then have "c \<noteq> d" "usd ss c" "par ss c = None" using ss'(3,4) by (auto split: if_splits)
    moreover then have "fch ss s \<noteq> Some c" using ff(3) by auto
    ultimately show "nxt ss' c = None \<and> prv ss' c = None"
      using D(11,12) [of c] ss'(6,7) by (auto split: option.splits)
  qed
  with that ss' show ?thesis by blast
qed

lemma mod_slot_Some: "i < length (c_slots cs) \<Longrightarrow> mod_slot cs i f = Some (cs\<lparr>c_slots := lupd (c_slots cs) i f\<rparr>)"
  by (simp add: mod_slot_def tupd_lupd)

lemma mod_object_Some:
  "i < length (c_objects cs) \<Longrightarrow> mod_object cs i f = Some (cs\<lparr>c_objects := lupd (c_objects cs) i f\<rparr>)"
  by (simp add: mod_object_def tupd_lupd)

lemma links_clear [link_simps]:
  assumes "i < length ss"
  shows "usd (lupd ss i (\<lambda>s. s\<lparr>s_mdb := Mdb_EMPTY\<rparr>)) = usd ss"
    "par (lupd ss i (\<lambda>s. s\<lparr>s_mdb := Mdb_EMPTY\<rparr>)) = (par ss)(i := None)"
    "fch (lupd ss i (\<lambda>s. s\<lparr>s_mdb := Mdb_EMPTY\<rparr>)) = (fch ss)(i := None)"
    "nxt (lupd ss i (\<lambda>s. s\<lparr>s_mdb := Mdb_EMPTY\<rparr>)) = (nxt ss)(i := None)"
    "prv (lupd ss i (\<lambda>s. s\<lparr>s_mdb := Mdb_EMPTY\<rparr>)) = (prv ss)(i := None)"
  using assms by (auto simp: fun_eq_iff links_lupd) (auto simp: usd_def)

text \<open>What \<open>unlink\<close> writes, before any invariant is used.\<close>

lemma unlink_shape:
  assumes "s < length (c_slots cs)" "\<And>x. x \<in> set_option (par (c_slots cs) s) \<Longrightarrow> x < length (c_slots cs)"
    "\<And>x. x \<in> set_option (nxt (c_slots cs) s) \<Longrightarrow> x < length (c_slots cs)"
    "\<And>x. x \<in> set_option (prv (c_slots cs) s) \<Longrightarrow> x < length (c_slots cs)"
  obtains ss' where "cs_unlink cs s = Some (cs\<lparr>c_slots := ss'\<rparr>)" "length ss' = length (c_slots cs)"
    "usd ss' = usd (c_slots cs)" "par ss' = (par (c_slots cs))(s := None)"
    "fch ss' = (case prv (c_slots cs) s of Some _ \<Rightarrow> fch (c_slots cs)
       | None \<Rightarrow> (case par (c_slots cs) s of None \<Rightarrow> fch (c_slots cs)
                 | Some p \<Rightarrow> (fch (c_slots cs))(p := nxt (c_slots cs) s)))(s := None)"
    "nxt ss' = (case prv (c_slots cs) s of None \<Rightarrow> nxt (c_slots cs) | Some a \<Rightarrow> (nxt (c_slots cs))(a := nxt (c_slots cs) s))(s := None)"
    "prv ss' = (case nxt (c_slots cs) s of None \<Rightarrow> prv (c_slots cs) | Some b \<Rightarrow> (prv (c_slots cs))(b := prv (c_slots cs) s))(s := None)"
    "\<And>i. bare (ss' ! i) = bare (c_slots cs ! i)"
  using assms that
  by (cases "prv (c_slots cs) s"; cases "par (c_slots cs) s"; cases "nxt (c_slots cs) s")
    (simp_all add: cs_unlink_def Let_def tget_Some nth_links mod_slot_Some link_simps bare_lupd)

lemma cdt_neighbours:
  assumes "cdt ss ch rk" "usd ss s"
  shows "x \<in> set_option (par ss s) \<Longrightarrow> usd ss x" "x \<in> set_option (nxt ss s) \<Longrightarrow> usd ss x \<and> x \<noteq> s \<and> par ss x = par ss s"
    "x \<in> set_option (prv ss s) \<Longrightarrow> usd ss x \<and> x \<noteq> s \<and> par ss x = par ss s"
proof -
  note D = cdtD [OF assms(1)]
  show "x \<in> set_option (par ss s) \<Longrightarrow> usd ss x" using D(9) assms(2) by (cases "par ss s") auto
  have main: "usd ss x \<and> x \<noteq> s \<and> par ss x = par ss s" if x: "nxt ss s = Some x \<or> prv ss s = Some x" for x
  proof (cases "par ss s")
    case None
    with D(11,12) [OF assms(2)] x show ?thesis by simp
  next
    case (Some p)
    then have "s \<in> set (ch p)" "usd ss p" using D(9,10) assms(2) by blast+
    then obtain xs ys where c: "ch p = xs @ s # ys" by (meson split_list)
    have l: "dls (nxt ss) (prv ss) None (xs @ s # ys) None" and d: "distinct (xs @ s # ys)"
      using D(3) [OF \<open>usd ss p\<close>] D(4) [of p] c by simp_all
    from x have "x \<in> set xs \<or> x \<in> set ys"
      unfolding dls_neighbours [OF l] by (auto dest: hd_or_in last_or_in)
    then have "x \<in> set (ch p)" "x \<noteq> s" using c d by auto
    then show ?thesis using D(5,7) Some by simp
  qed
  show "x \<in> set_option (nxt ss s) \<Longrightarrow> usd ss x \<and> x \<noteq> s \<and> par ss x = par ss s"
    "x \<in> set_option (prv ss s) \<Longrightarrow> usd ss x \<and> x \<noteq> s \<and> par ss x = par ss s"
    using main [of x] by (simp_all add: elem_set)
qed

lemma cdt_unlink:
  assumes "cdt (c_slots cs) ch rk" "usd (c_slots cs) s" "ch s = []"
  obtains ss' where "cs_unlink cs s = Some (cs\<lparr>c_slots := ss'\<rparr>)" "length ss' = length (c_slots cs)"
    "usd ss' = usd (c_slots cs)" "par ss' = (par (c_slots cs))(s := None)"
    "\<And>i. bare (ss' ! i) = bare (c_slots cs ! i)" "cdt ss' (\<lambda>i. remove1 s (ch i)) rk"
proof -
  let ?ss = "c_slots cs"
  note D = cdtD [OF assms(1)]
  note N = cdt_neighbours [OF assms(1,2)]
  obtain ss' where ss': "cs_unlink cs s = Some (cs\<lparr>c_slots := ss'\<rparr>)" "length ss' = length ?ss"
    "usd ss' = usd ?ss" "par ss' = (par ?ss)(s := None)"
    "fch ss' = (case prv ?ss s of Some _ \<Rightarrow> fch ?ss
       | None \<Rightarrow> (case par ?ss s of None \<Rightarrow> fch ?ss | Some p \<Rightarrow> (fch ?ss)(p := nxt ?ss s)))(s := None)"
    "nxt ss' = (case prv ?ss s of None \<Rightarrow> nxt ?ss | Some a \<Rightarrow> (nxt ?ss)(a := nxt ?ss s))(s := None)"
    "prv ss' = (case nxt ?ss s of None \<Rightarrow> prv ?ss | Some b \<Rightarrow> (prv ?ss)(b := prv ?ss s))(s := None)"
    "\<And>i. bare (ss' ! i) = bare (?ss ! i)"
    by (rule unlink_shape [of s cs]) (use assms(2) N usd_lt in blast)+
  have notin: "s \<notin> set (ch i)" if "par ?ss s \<noteq> Some i" for i using D(7) that by blast
  have sep: "x \<notin> set (ch i)" if "par ?ss x = par ?ss s" "par ?ss s \<noteq> Some i" for x i using D(7) that by metis
  have same: "remove1 s (ch i) = ch i" if "par ?ss s \<noteq> Some i" for i using notin [OF that] by (simp add: remove1_idem)
  have "cdt ss' (\<lambda>i. remove1 s (ch i)) rk"
  proof (rule cdtI)
    fix i
    show "\<not> usd ss' i \<Longrightarrow> remove1 s (ch i) = []" using D(1) ss'(3) by simp
    show "distinct (remove1 s (ch i))" using D(4) by simp
    assume u: "usd ss' i"
    then have ui: "usd ?ss i" using ss'(3) by simp
    have "fch ss' i = hd_or (remove1 s (ch i)) None \<and> dls (nxt ss') (prv ss') None (remove1 s (ch i)) None"
    proof (cases "par ?ss s = Some i")
      case True
      then have "s \<in> set (ch i)" using D(10) assms(2) by simp
      then obtain xs ys where c: "ch i = xs @ s # ys" by (meson split_list)
      have d: "distinct (xs @ s # ys)" and l: "dls (nxt ?ss) (prv ?ss) None (xs @ s # ys) None"
        using D(4) [of i] D(3) [OF ui] c by simp_all
      note nb = dls_neighbours [OF l]
      have r: "remove1 s (ch i) = xs @ ys" using c d by (simp add: remove1_append)
      have ne: "i \<noteq> s" using c assms(3) by auto
      have "dls (nxt ss') (prv ss') None (xs @ ys) None"
        unfolding ss'(6,7) nb using dls_remove [OF l d] d by (simp add: dls_upd_notin)
      moreover have "fch ss' i = hd_or (xs @ ys) None"
        using ne D(2) [OF ui] c True by (cases xs rule: rev_cases) (simp_all add: ss'(5) nb hd_or_None_Some)
      ultimately show ?thesis using r by simp
    next
      case False
      have "dls (nxt ss') (prv ss') None (ch i) None = dls (nxt ?ss) (prv ?ss) None (ch i) None"
      proof (rule dls_cong)
        fix x
        assume x: "x \<in> set (ch i)"
        then have "x \<noteq> s" "prv ?ss s \<noteq> Some x" "nxt ?ss s \<noteq> Some x"
          using notin [OF False] N(2,3) [of x] sep [of x i, OF _ False] by auto
        then show "nxt ss' x = nxt ?ss x \<and> prv ss' x = prv ?ss x"
          by (simp add: ss'(6,7) split: option.splits)
      qed
      moreover have "fch ss' i = fch ?ss i"
        using False D(2) [OF ui] assms(3) by (auto simp: ss'(5) split: option.splits)
      ultimately show ?thesis using same [OF False] D(2,3) [OF ui] by simp
    qed
    then show "fch ss' i = hd_or (remove1 s (ch i)) None" "dls (nxt ss') (prv ss') None (remove1 s (ch i)) None"
      by simp_all
  next
    fix i c
    assume "c \<in> set (remove1 s (ch i))"
    then have "c \<in> set (ch i)" "c \<noteq> s" using D(4) [of i] by auto
    then show "usd ss' c \<and> par ss' c = Some i \<and> rk i < rk c" using D(5,7,8) ss'(3,4) by simp
  next
    fix c p
    assume "usd ss' c" "par ss' c = Some p"
    then have "usd ?ss c" "par ?ss c = Some p" "c \<noteq> s" using ss'(3,4) by (auto split: if_splits)
    then show "usd ss' p \<and> c \<in> set (remove1 s (ch p))" using D(9,10) ss'(3) by simp
  next
    fix c
    assume c: "usd ss' c" "par ss' c = None"
    show "nxt ss' c = None \<and> prv ss' c = None"
    proof (cases "c = s")
      case False
      with c have "usd ?ss c" "par ?ss c = None" using ss'(3,4) by auto
      with D(11,12) have n: "nxt ?ss c = None" "prv ?ss c = None" by auto
      have "nxt ss' c = None"
      proof (cases "prv ?ss s")
        case (Some a)
        then have "par ?ss a = par ?ss s" "usd ?ss a" using N(3) by auto
        with Some D(12) [OF assms(2)] n show ?thesis
          using \<open>par ?ss c = None\<close> False by (auto simp: ss'(6))
      qed (use n False in \<open>simp add: ss'(6)\<close>)
      moreover have "prv ss' c = None"
      proof (cases "nxt ?ss s")
        case (Some b)
        then have "par ?ss b = par ?ss s" "usd ?ss b" using N(2) by auto
        with Some D(11) [OF assms(2)] n show ?thesis
          using \<open>par ?ss c = None\<close> False by (auto simp: ss'(7))
      qed (use n False in \<open>simp add: ss'(7)\<close>)
      ultimately show ?thesis by simp
    qed (simp add: ss'(6,7))
  qed
  with that ss' show ?thesis by blast
qed

lemma cdt_release:
  assumes "cdt ss ch rk" "usd ss s" "ch s = []" "par ss s = None" "\<not> s_used v"
  shows "cdt (ss[s := v]) ch rk"
proof -
  note D = cdtD [OF assms(1)]
  have sl: "s < length ss" using assms(2) by (rule usd_lt)
  note S = links_update [OF sl, of v]
  have nd: "s \<notin> set (ch i)" for i using D(7) assms(4) by fastforce
  show ?thesis
  proof (rule cdtI, unfold S)
    fix i
    show "\<not> ((usd ss)(s := s_used v)) i \<Longrightarrow> ch i = []" using D(1) assms(3) by (auto split: if_splits)
    assume "((usd ss)(s := s_used v)) i"
    then have u: "usd ss i" "i \<noteq> s" using assms(5) by (auto split: if_splits)
    show "((fch ss)(s := m_first_child (s_mdb v))) i = hd_or (ch i) None" using D(2) u by simp
    show "dls ((nxt ss)(s := m_next (s_mdb v))) ((prv ss)(s := m_prev (s_mdb v))) None (ch i) None"
      using D(3) [OF u(1)] nd [of i] by (simp add: dls_upd_notin)
    show "distinct (ch i)" by (rule D(4))
  next
    fix i c
    assume "c \<in> set (ch i)"
    then show "((usd ss)(s := s_used v)) c \<and> ((par ss)(s := m_parent (s_mdb v))) c = Some i \<and> rk i < rk c"
      using D(5,7,8) nd [of i] by auto
  next
    fix c p
    assume "((usd ss)(s := s_used v)) c" "((par ss)(s := m_parent (s_mdb v))) c = Some p"
    then have c: "c \<noteq> s" "usd ss c" "par ss c = Some p" using assms(5) by (auto split: if_splits)
    with D(9,10) have "usd ss p" "c \<in> set (ch p)" by auto
    then show "((usd ss)(s := s_used v)) p \<and> c \<in> set (ch p)" using assms(3) by auto
  next
    fix c
    assume "((usd ss)(s := s_used v)) c" "((par ss)(s := m_parent (s_mdb v))) c = None"
    then show "((nxt ss)(s := m_next (s_mdb v))) c = None \<and> ((prv ss)(s := m_prev (s_mdb v))) c = None"
      using D(11,12) assms(5) by (auto split: if_splits)
  qed
qed

section \<open>Moving a capability\<close>

definition ren :: "nat \<Rightarrow> nat \<Rightarrow> nat \<Rightarrow> nat" where "ren s d x = (if x = s then d else x)"

lemma ren_simps [simp]: "ren s d s = d" "x \<noteq> s \<Longrightarrow> ren s d x = x"
  by (simp_all add: ren_def)

lemma map_option_ren: "y \<noteq> Some s \<Longrightarrow> map_option (ren s d) y = y"
  by (cases y) auto

lemma adopt_loop_ok:
  "dls (nxt (c_slots cs)) pv p xs None \<Longrightarrow> distinct xs \<Longrightarrow> (\<And>x. x \<in> set xs \<Longrightarrow> x < length (c_slots cs)) \<Longrightarrow>
   steps + length xs \<le> limit \<Longrightarrow>
   \<exists>ss'. adopt_loop cs dst (hd_or xs None) steps limit = Some (cs\<lparr>c_slots := ss'\<rparr>, steps + length xs) \<and>
     length ss' = length (c_slots cs) \<and> usd ss' = usd (c_slots cs) \<and> fch ss' = fch (c_slots cs) \<and>
     nxt ss' = nxt (c_slots cs) \<and> prv ss' = prv (c_slots cs) \<and>
     par ss' = (\<lambda>i. if i \<in> set xs then Some dst else par (c_slots cs) i) \<and>
     (\<forall>i. bare (ss' ! i) = bare (c_slots cs ! i))"
proof (induction xs arbitrary: cs steps p)
  case Nil
  show ?case by (rule exI [of _ "c_slots cs"]) (simp add: adopt_loop.simps [of cs dst None])
next
  case (Cons x xs)
  let ?ss = "c_slots cs"
  let ?cs1 = "cs\<lparr>c_slots := lupd ?ss x (set_parent (Some dst))\<rparr>"
  have x: "x < length ?ss" using Cons.prems(3) by simp
  have n: "nxt ?ss x = hd_or xs None" using Cons.prems(1) by simp
  have nx1: "m_next (s_mdb (lupd ?ss x (set_parent (Some dst)) ! x)) = hd_or xs None"
    using x n by (simp add: nth_lupd nth_links)
  have l1: "usd (c_slots ?cs1) = usd ?ss" "fch (c_slots ?cs1) = fch ?ss" "nxt (c_slots ?cs1) = nxt ?ss"
    "prv (c_slots ?cs1) = prv ?ss" "par (c_slots ?cs1) = (par ?ss)(x := Some dst)"
    "length (c_slots ?cs1) = length ?ss"
    using x by (simp_all add: link_simps)
  have b1: "bare (c_slots ?cs1 ! i) = bare (?ss ! i)" for i using x by (simp add: bare_lupd)
  have "dls (nxt (c_slots ?cs1)) pv (Some x) xs None"
    unfolding l1 using Cons.prems(1) by simp
  from Cons.IH [OF this, of "Suc steps"] Cons.prems(2-4)
  obtain ss' where ss': "adopt_loop ?cs1 dst (hd_or xs None) (Suc steps) limit =
      Some (?cs1\<lparr>c_slots := ss'\<rparr>, Suc steps + length xs)"
     "length ss' = length ?ss" "usd ss' = usd ?ss" "fch ss' = fch ?ss" "nxt ss' = nxt ?ss" "prv ss' = prv ?ss"
     "par ss' = (\<lambda>i. if i \<in> set xs then Some dst else ((par ?ss)(x := Some dst)) i)"
     "\<forall>i. bare (ss' ! i) = bare (?ss ! i)"
    unfolding l1 b1 by auto
  have "adopt_loop cs dst (Some x) steps limit = Some (?cs1\<lparr>c_slots := ss'\<rparr>, Suc steps + length xs)"
    using Cons.prems(4) x ss'(1) nx1
    by (simp add: adopt_loop.simps [of cs dst "Some x"] mod_slot_Some tget_Some)
  with ss' show ?case
    by (intro exI [of _ ss']) (auto simp: fun_eq_iff)
qed

lemma links_copy [link_simps]:
  assumes "i < length ss"
  shows "usd (lupd ss i (\<lambda>d. sl\<lparr>s_gen := s_gen d\<rparr>)) = (usd ss)(i := s_used sl)"
    "par (lupd ss i (\<lambda>d. sl\<lparr>s_gen := s_gen d\<rparr>)) = (par ss)(i := m_parent (s_mdb sl))"
    "fch (lupd ss i (\<lambda>d. sl\<lparr>s_gen := s_gen d\<rparr>)) = (fch ss)(i := m_first_child (s_mdb sl))"
    "nxt (lupd ss i (\<lambda>d. sl\<lparr>s_gen := s_gen d\<rparr>)) = (nxt ss)(i := m_next (s_mdb sl))"
    "prv (lupd ss i (\<lambda>d. sl\<lparr>s_gen := s_gen d\<rparr>)) = (prv ss)(i := m_prev (s_mdb sl))"
  using assms by (simp_all add: links_lupd)

lemma move_relink_shape:
  assumes "s < length (c_slots cs)" "d < length (c_slots cs)"
    "\<And>x. par (c_slots cs) s = Some x \<Longrightarrow> x < length (c_slots cs)"
    "\<And>x. nxt (c_slots cs) s = Some x \<Longrightarrow> x < length (c_slots cs)"
    "\<And>x. prv (c_slots cs) s = Some x \<Longrightarrow> x < length (c_slots cs)"
  obtains ss' where "move_relink cs s d = Some (cs\<lparr>c_slots := ss'\<rparr>)" "length ss' = length (c_slots cs)"
    "usd ss' = (usd (c_slots cs))(d := s_used (c_slots cs ! s))"
    "par ss' = (par (c_slots cs))(d := par (c_slots cs) s)"
    "fch ss' = (case prv (c_slots cs) s of Some _ \<Rightarrow> (fch (c_slots cs))(d := fch (c_slots cs) s)
       | None \<Rightarrow> (case par (c_slots cs) s of None \<Rightarrow> (fch (c_slots cs))(d := fch (c_slots cs) s)
                 | Some p \<Rightarrow> (fch (c_slots cs))(d := fch (c_slots cs) s, p := Some d)))"
    "nxt ss' = (case prv (c_slots cs) s of None \<Rightarrow> (nxt (c_slots cs))(d := nxt (c_slots cs) s)
       | Some a \<Rightarrow> (nxt (c_slots cs))(d := nxt (c_slots cs) s, a := Some d))"
    "prv ss' = (case nxt (c_slots cs) s of None \<Rightarrow> (prv (c_slots cs))(d := prv (c_slots cs) s)
       | Some b \<Rightarrow> (prv (c_slots cs))(d := prv (c_slots cs) s, b := Some d))"
    "\<And>i. bare (ss' ! i) = (if i = d then bare ((c_slots cs ! s)\<lparr>s_gen := s_gen (c_slots cs ! d)\<rparr>) else bare (c_slots cs ! i))"
  using assms that
  by (cases "prv (c_slots cs) s"; cases "par (c_slots cs) s"; cases "nxt (c_slots cs) s")
    (simp_all add: move_relink_def Let_def tget_Some nth_links mod_slot_Some link_simps nth_lupd)

lemma cdt_recip:
  assumes "cdt ss ch rk" "usd ss i" "usd ss s"
  shows "nxt ss i = Some s \<longleftrightarrow> prv ss s = Some i" "fch ss i = Some s \<longleftrightarrow> par ss s = Some i \<and> prv ss s = None"
proof -
  note D = cdtD [OF assms(1)]
  have split: "\<exists>p xs ys. usd ss p \<and> ch p = xs @ x # ys \<and> dls (nxt ss) (prv ss) None (xs @ x # ys) None"
    if pn: "par ss x \<noteq> None" and ux: "usd ss x" for x
  proof -
    obtain p where p: "par ss x = Some p" using pn by auto
    with D(9,10) ux have "usd ss p" "x \<in> set (ch p)" by blast+
    then show ?thesis using D(3) by (metis split_list)
  qed
  show "nxt ss i = Some s \<longleftrightarrow> prv ss s = Some i"
  proof
    assume n: "nxt ss i = Some s"
    then have "par ss i \<noteq> None" using D(11) [OF assms(2)] by (metis option.distinct(1))
    with split [OF _ assms(2)] obtain p xs ys where "dls (nxt ss) (prv ss) None (xs @ i # ys) None" by blast
    with n obtain zs where "dls (nxt ss) (prv ss) None ((xs @ [i]) @ s # zs) None"
      using dls_neighbours(2) by (fastforce simp: hd_or_None_Some)
    from dls_neighbours(1) [OF this] show "prv ss s = Some i" by simp
  next
    assume n: "prv ss s = Some i"
    then have "par ss s \<noteq> None" using D(12) [OF assms(3)] by (metis option.distinct(1))
    with split [OF _ assms(3)] obtain p xs ys where d: "dls (nxt ss) (prv ss) None (xs @ s # ys) None" by blast
    with n have "last_or None xs = Some i" using dls_neighbours(1) by metis
    then obtain zs where "xs = zs @ [i]" by (cases xs rule: rev_cases) auto
    with d have "dls (nxt ss) (prv ss) None (zs @ i # s # ys) None" by simp
    from dls_neighbours(2) [OF this] show "nxt ss i = Some s" by simp
  qed
  show "fch ss i = Some s \<longleftrightarrow> par ss s = Some i \<and> prv ss s = None"
  proof
    assume "fch ss i = Some s"
    then obtain ys where c: "ch i = s # ys" using D(2) assms(2) by (auto simp: hd_or_None_Some)
    then show "par ss s = Some i \<and> prv ss s = None" using D(3) [OF assms(2)] D(7) [of s i] by simp
  next
    assume a: "par ss s = Some i \<and> prv ss s = None"
    then have "s \<in> set (ch i)" using D(10) assms(3) by blast
    then obtain xs ys where c: "ch i = xs @ s # ys" by (meson split_list)
    then have "last_or None xs = None"
      using a D(3) [OF assms(2)] dls_neighbours(1) [of "nxt ss" "prv ss" xs s ys] by simp
    then show "fch ss i = Some s" using c D(2) assms(2) by simp
  qed
qed

lemma cdt_children_bound: "cdt ss ch rk \<Longrightarrow> length (ch i) \<le> length ss"
proof -
  assume a: "cdt ss ch rk"
  have "set (ch i) \<subseteq> {..<length ss}" using cdtD(5) [OF a] usd_lt by blast
  then have "card (set (ch i)) \<le> length ss" by (metis card_lessThan card_mono finite_lessThan)
  with cdtD(4) [OF a, of i] show ?thesis by (simp add: distinct_card)
qed

lemma move_main:
  assumes "cdt (c_slots cs) ch rk" "usd (c_slots cs) s" "d < length (c_slots cs)" "\<not> usd (c_slots cs) d"
  defines "\<sigma> \<equiv> ren s d"
  obtains cs3 ss' where "move_relink cs s d = Some cs3"
    "adopt_loop cs3 d (fch (c_slots cs) s) 0 (cdt_step_limit cs3) = Some (cs\<lparr>c_slots := ss'\<rparr>, length (ch s))"
    "length ss' = length (c_slots cs)" "usd ss' = (usd (c_slots cs))(d := True)"
    "\<And>i. i \<noteq> s \<Longrightarrow> usd (c_slots cs) i \<Longrightarrow> par ss' i = map_option \<sigma> (par (c_slots cs) i)"
    "\<And>i. i \<noteq> s \<Longrightarrow> usd (c_slots cs) i \<Longrightarrow> fch ss' i = map_option \<sigma> (fch (c_slots cs) i)"
    "\<And>i. i \<noteq> s \<Longrightarrow> usd (c_slots cs) i \<Longrightarrow> nxt ss' i = map_option \<sigma> (nxt (c_slots cs) i)"
    "\<And>i. i \<noteq> s \<Longrightarrow> usd (c_slots cs) i \<Longrightarrow> prv ss' i = map_option \<sigma> (prv (c_slots cs) i)"
    "par ss' d = par (c_slots cs) s" "fch ss' d = fch (c_slots cs) s" "nxt ss' d = nxt (c_slots cs) s"
    "prv ss' d = prv (c_slots cs) s"
    "\<And>i. i \<noteq> d \<Longrightarrow> bare (ss' ! i) = bare (c_slots cs ! i)"
    "bare (ss' ! d) = bare ((c_slots cs ! s)\<lparr>s_gen := s_gen (c_slots cs ! d)\<rparr>)"
proof -
  let ?ss = "c_slots cs"
  note D = cdtD [OF assms(1)]
  note N = cdt_neighbours [OF assms(1,2), unfolded elem_set]
  have sd: "s \<noteq> d" using assms(2,4) by auto
  obtain ss3 where ss3: "move_relink cs s d = Some (cs\<lparr>c_slots := ss3\<rparr>)" "length ss3 = length ?ss"
    "usd ss3 = (usd ?ss)(d := s_used (?ss ! s))" "par ss3 = (par ?ss)(d := par ?ss s)"
    "fch ss3 = (case prv ?ss s of Some _ \<Rightarrow> (fch ?ss)(d := fch ?ss s)
       | None \<Rightarrow> (case par ?ss s of None \<Rightarrow> (fch ?ss)(d := fch ?ss s)
                 | Some p \<Rightarrow> (fch ?ss)(d := fch ?ss s, p := Some d)))"
    "nxt ss3 = (case prv ?ss s of None \<Rightarrow> (nxt ?ss)(d := nxt ?ss s)
       | Some a \<Rightarrow> (nxt ?ss)(d := nxt ?ss s, a := Some d))"
    "prv ss3 = (case nxt ?ss s of None \<Rightarrow> (prv ?ss)(d := prv ?ss s)
       | Some b \<Rightarrow> (prv ?ss)(d := prv ?ss s, b := Some d))"
    "\<And>i. bare (ss3 ! i) = (if i = d then bare ((?ss ! s)\<lparr>s_gen := s_gen (?ss ! d)\<rparr>) else bare (?ss ! i))"
    by (rule move_relink_shape [of s cs d]) (use assms(2,3) N usd_lt in \<open>blast+\<close>)
  have nod: "prv ?ss s \<noteq> Some d" "nxt ?ss s \<noteq> Some d" "par ?ss s \<noteq> Some d" using N assms(4) by blast+
  have us: "s_used (?ss ! s)" using assms(2) by (simp add: usd_def)
  have kid: "x \<noteq> d" "nxt ss3 x = nxt ?ss x" if "x \<in> set (ch s)" for x
  proof -
    show "x \<noteq> d" using D(5) [OF that] assms(4) by auto
    have "prv ?ss s \<noteq> Some x"
    proof
      assume "prv ?ss s = Some x"
      then have "par ?ss s = Some s" using N(3) D(7) [OF that] by simp
      then have "s \<in> set (ch s)" using D(10) assms(2) by blast
      then show False using D(8) by blast
    qed
    then show "nxt ss3 x = nxt ?ss x" using \<open>x \<noteq> d\<close> by (simp add: ss3(6) split: option.splits)
  qed
  have "dls (nxt ss3) (prv ?ss) None (ch s) None = dls (nxt ?ss) (prv ?ss) None (ch s) None"
    by (rule dls_cong) (simp add: kid)
  moreover define cs3 where "cs3 = cs\<lparr>c_slots := ss3\<rparr>"
  moreover have c3: "c_slots cs3 = ss3" by (simp add: cs3_def)
  ultimately have l: "dls (nxt (c_slots cs3)) (prv ?ss) None (ch s) None" using D(3) assms(2) by simp
  obtain ss' where ss': "adopt_loop cs3 d (hd_or (ch s) None) 0 (length ?ss) =
      Some (cs3\<lparr>c_slots := ss'\<rparr>, 0 + length (ch s))"
    "length ss' = length ss3" "usd ss' = usd ss3" "fch ss' = fch ss3" "nxt ss' = nxt ss3" "prv ss' = prv ss3"
    "par ss' = (\<lambda>i. if i \<in> set (ch s) then Some d else par ss3 i)" "\<forall>i. bare (ss' ! i) = bare (ss3 ! i)"
    using adopt_loop_ok [OF l D(4), of 0 "length ?ss" d] D(5) [of _ s] ss3(2) cdt_children_bound [OF assms(1), of s]
    unfolding c3 by (auto simp: usd_lt)
  show ?thesis
  proof (rule that [of "cs\<lparr>c_slots := ss3\<rparr>" ss'])
    show "move_relink cs s d = Some (cs\<lparr>c_slots := ss3\<rparr>)" by (fact ss3)
    show "adopt_loop (cs\<lparr>c_slots := ss3\<rparr>) d (fch ?ss s) 0 (cdt_step_limit (cs\<lparr>c_slots := ss3\<rparr>)) =
        Some (cs\<lparr>c_slots := ss'\<rparr>, length (ch s))"
      using ss'(1) D(2) [OF assms(2)] ss3(2) by (simp add: cdt_step_limit_def cs3_def)
    show "length ss' = length ?ss" "usd ss' = (usd ?ss)(d := True)" using ss'(2,3) ss3(2,3) us by simp_all
    show "bare (ss' ! d) = bare ((?ss ! s)\<lparr>s_gen := s_gen (?ss ! d)\<rparr>)" using ss'(8) ss3(8) by simp
    have "d \<notin> set (ch s)" using kid(1) by blast
    then show "par ss' d = par ?ss s" using ss'(7) ss3(4) by simp
    show "fch ss' d = fch ?ss s" "nxt ss' d = nxt ?ss s" "prv ss' d = prv ?ss s"
      using nod unfolding ss'(4,5,6) ss3(5,6,7) by (auto split: option.splits)
  next
    fix i
    assume i: "i \<noteq> s" "usd ?ss i"
    have id: "i \<noteq> d" using i(2) assms(4) by auto
    have kids: "i \<in> set (ch s) \<longleftrightarrow> par ?ss i = Some s" using D(7,10) i(2) by blast
    note R = cdt_recip [OF assms(1) i(2) assms(2)] cdt_recip [OF assms(1,2) i(2)]
    show "par ss' i = map_option \<sigma> (par ?ss i)"
      using kids id by (cases "par ?ss i = Some s") (simp_all add: ss'(7) ss3(4) \<sigma>_def map_option_ren)
    show "fch ss' i = map_option \<sigma> (fch ?ss i)"
      using R(2) id by (cases "fch ?ss i = Some s")
        (auto simp: ss'(4) ss3(5) \<sigma>_def map_option_ren split: option.splits)
    show "nxt ss' i = map_option \<sigma> (nxt ?ss i)"
      using R(1) id by (cases "nxt ?ss i = Some s")
        (auto simp: ss'(5) ss3(6) \<sigma>_def map_option_ren split: option.splits)
    show "prv ss' i = map_option \<sigma> (prv ?ss i)"
      using R(3) id by (cases "prv ?ss i = Some s")
        (auto simp: ss'(6) ss3(7) \<sigma>_def map_option_ren split: option.splits)
  next
    fix i
    assume "i \<noteq> d"
    then show "bare (ss' ! i) = bare (?ss ! i)" using ss'(8) ss3(8) by simp
  qed
qed

lemma cdt_rename:
  assumes "cdt ss ch rk" "usd ss s" "d < length ss" "\<not> usd ss d"
    "length ss' = length ss" "usd ss' = (usd ss)(d := True)"
    "\<And>i. i \<noteq> s \<Longrightarrow> usd ss i \<Longrightarrow> par ss' i = map_option (ren s d) (par ss i)"
    "\<And>i. i \<noteq> s \<Longrightarrow> usd ss i \<Longrightarrow> fch ss' i = map_option (ren s d) (fch ss i)"
    "\<And>i. i \<noteq> s \<Longrightarrow> usd ss i \<Longrightarrow> nxt ss' i = map_option (ren s d) (nxt ss i)"
    "\<And>i. i \<noteq> s \<Longrightarrow> usd ss i \<Longrightarrow> prv ss' i = map_option (ren s d) (prv ss i)"
    "par ss' d = par ss s" "fch ss' d = fch ss s" "nxt ss' d = nxt ss s" "prv ss' d = prv ss s" "\<not> s_used v"
  shows "cdt (ss'[s := v]) ((\<lambda>i. map (ren s d) (ch i))(d := map (ren s d) (ch s), s := [])) (rk(d := rk s))"
proof -
  let ?f = "ren s d" and ?t = "ss'[s := v]"
  let ?ch = "(\<lambda>i. map ?f (ch i))(d := map ?f (ch s), s := [])"
  note D = cdtD [OF assms(1)]
  note N = cdt_neighbours [OF assms(1,2), unfolded elem_set]
  have sd: "s \<noteq> d" using assms(2,4) by auto
  have sl: "s < length ss'" using assms(2,5) usd_lt by metis
  note S = links_update [OF sl, of v]
  have nos: "s \<notin> set (ch s)" using D(8) by blast
  have ps: "par ss s \<noteq> Some s" using D(10) [OF assms(2)] nos by blast
  have f_ne: "?f x \<noteq> s" for x using sd by (simp add: ren_def)
  \<comment> \<open>the links of a renamed slot\<close>
  have L: "usd ?t (?f i)" "par ?t (?f i) = map_option ?f (par ss i)" "fch ?t (?f i) = map_option ?f (fch ss i)"
     "nxt ?t (?f i) = map_option ?f (nxt ss i)" "prv ?t (?f i) = map_option ?f (prv ss i)"
     "?ch (?f i) = map ?f (ch i)" "(rk(d := rk s)) (?f i) = rk i" if u: "usd ss i" for i
  proof -
    have "fch ss s \<noteq> Some s" using D(2) [OF assms(2)] nos by (cases "ch s") auto
    moreover have "nxt ss s \<noteq> Some s" "prv ss s \<noteq> Some s" using N(2,3) by blast+
    ultimately have s0: "map_option ?f (par ss s) = par ss s" "map_option ?f (fch ss s) = fch ss s"
      "map_option ?f (nxt ss s) = nxt ss s" "map_option ?f (prv ss s) = prv ss s"
      using ps by (simp_all add: map_option_ren)
    have id: "i \<noteq> d" using u assms(4) by auto
    show "usd ?t (?f i)" "par ?t (?f i) = map_option ?f (par ss i)" "fch ?t (?f i) = map_option ?f (fch ss i)"
     "nxt ?t (?f i) = map_option ?f (nxt ss i)" "prv ?t (?f i) = map_option ?f (prv ss i)"
     "?ch (?f i) = map ?f (ch i)" "(rk(d := rk s)) (?f i) = rk i"
      unfolding S using s0 u id sd assms(6-14) by (cases "i = s"; simp)+
  qed
  have U: "\<exists>i. usd ss i \<and> j = ?f i" if "usd ?t j" for j
    using that assms(2,6,15) sd unfolding S by (cases "j = d") (auto split: if_splits intro: exI [of _ s] exI [of _ j] simp: ren_def)
  have inj: "inj_on ?f {x. usd ss x}"
    using assms(4) by (auto simp: inj_on_def ren_def)
  show ?thesis
  proof (rule cdtI)
    fix j
    show "?ch j = []" if nj: "\<not> usd ?t j"
    proof (cases "j = s")
      case False
      then have "j \<noteq> d" "\<not> usd ss j" using nj assms(6) sd unfolding S by (auto split: if_splits)
      then show ?thesis using D(1) False by simp
    qed simp
    assume "usd ?t j"
    then obtain i where i: "usd ss i" "j = ?f i" using U by blast
    show "fch ?t j = hd_or (?ch j) None"
      using L(3,6) [OF i(1)] D(2) [OF i(1)] hd_or_map [of ?f "ch i" None] i(2) by simp
    have "inj_on ?f (set (ch i))" by (rule inj_on_subset [OF inj]) (use D(5) in auto)
    then show "distinct (?ch j)"
      unfolding i(2) L(6) [OF i(1)] using D(4) by (simp add: distinct_map)
    have "dls (nxt ?t) (prv ?t) (map_option ?f None) (map ?f (ch i)) (map_option ?f None)"
      by (rule dls_rename [OF D(3) [OF i(1)]]) (use L(4,5) D(5) in auto)
    then show "dls (nxt ?t) (prv ?t) None (?ch j) None"
      unfolding i(2) L(6) [OF i(1)] by simp
  next
    fix j c
    assume c: "c \<in> set (?ch j)"
    then have "usd ?t j"
      using D(1) assms(2,6) sd unfolding S by (cases "usd ss j") (auto split: if_splits)
    then obtain i where i: "usd ss i" "j = ?f i" using U by blast
    with c obtain x where x: "x \<in> set (ch i)" "c = ?f x" using L(6) [OF i(1)] by auto
    note ux = D(5) [OF x(1)]
    show "usd ?t c \<and> par ?t c = Some j \<and> (rk(d := rk s)) j < (rk(d := rk s)) c"
      unfolding x(2) i(2) L(1,2,7) [OF ux] L(7) [OF i(1)] using L(1) [OF ux] D(7,8) [OF x(1)] by simp
  next
    fix c p
    assume c: "usd ?t c" "par ?t c = Some p"
    then obtain x where x: "usd ss x" "c = ?f x" using U by blast
    with c(2) L(2) [OF x(1)] obtain q where q: "par ss x = Some q" "p = ?f q" by auto
    with D(9,10) x(1) have uq: "usd ss q" and xq: "x \<in> set (ch q)" by blast+
    show "usd ?t p \<and> c \<in> set (?ch p)"
      unfolding q(2) x(2) L(6) [OF uq] using L(1) [OF uq] xq by auto
  next
    fix c
    assume c: "usd ?t c" "par ?t c = None"
    then obtain x where x: "usd ss x" "c = ?f x" using U by blast
    with c(2) L(2) [OF x(1)] have "par ss x = None" by auto
    then show "nxt ?t c = None \<and> prv ?t c = None"
      using D(11,12) [OF x(1)] L(4,5) [OF x(1)] x(2) by simp
  qed
qed

end
