(* ===== verification/CapSpace_Inv.thy ===== *)
theory CapSpace_Inv
  imports CapTree
begin

text \<open>
  The invariant of the capability space: the slots form a forest (\<open>cdt\<close>), every used slot refers to a
  used object, the reference count of an object is the number of used slots that refer to it, and along
  every edge of the tree the object stays the same while rights and memory window only shrink.
\<close>

section \<open>The invariant\<close>

definition win_le :: "PhysRegion \<Rightarrow> PhysRegion \<Rightarrow> bool" where
  "win_le w r \<longleftrightarrow> w = r \<or> (region_ok w \<and> region_ok r \<and> contains_region r w)"

definition kind_le :: "ObjectKind \<Rightarrow> ObjectKind \<Rightarrow> bool" where
  "kind_le k k' \<longleftrightarrow> (case k of Memory w \<Rightarrow> (case k' of Memory r \<Rightarrow> win_le w r | _ \<Rightarrow> False) | _ \<Rightarrow> k = k')"

lemma win_le_trans: "win_le a b \<Longrightarrow> win_le b c \<Longrightarrow> win_le a c"
  by (auto simp: win_le_def contains_region_def)

lemma kind_le_refl [simp]: "kind_le k k"
  by (cases k) (simp_all add: kind_le_def win_le_def)

lemma kind_le_trans: "kind_le a b \<Longrightarrow> kind_le b c \<Longrightarrow> kind_le a c"
  by (auto simp: kind_le_def split: ObjectKind.splits intro: win_le_trans)

lemma win_le_addrs: "win_le w r \<Longrightarrow> addrs w \<subseteq> addrs r"
  by (auto simp: win_le_def dest: contains_region_addrs)

definition refs :: "CapSlot list \<Rightarrow> nat \<Rightarrow> nat" where
  "refs ss ob = length (filter (\<lambda>s. s_used s \<and> s_object s = ob) ss)"

text \<open>What a single slot and a single edge of the tree have to satisfy.\<close>

definition slot_ok :: "Object list \<Rightarrow> CapSlot \<Rightarrow> bool" where
  "slot_ok os s \<longleftrightarrow> s_object s < length os \<and> o_used (os ! s_object s) \<and>
     kind_le (slot_kind (os ! s_object s) s) (o_kind (os ! s_object s))"

definition edge_ok :: "Object list \<Rightarrow> CapSlot \<Rightarrow> CapSlot \<Rightarrow> bool" where
  "edge_ok os c p \<longleftrightarrow> s_object c = s_object p \<and> Rights_contains (s_rights p) (s_rights c) \<and>
     kind_le (slot_kind (os ! s_object p) c) (slot_kind (os ! s_object p) p)"

definition slots_ok :: "CapSlot list \<Rightarrow> Object list \<Rightarrow> bool" where
  "slots_ok ss os \<longleftrightarrow> (\<forall>i. usd ss i \<longrightarrow> slot_ok os (ss ! i))"

definition refs_ok :: "CapSlot list \<Rightarrow> Object list \<Rightarrow> bool" where
  "refs_ok ss os \<longleftrightarrow> (\<forall>ob<length os. o_used (os ! ob) \<longrightarrow> 0 < refs ss ob \<and> o_refcount (os ! ob) = of_nat (refs ss ob))"

definition deriv_ok :: "CapSlot list \<Rightarrow> Object list \<Rightarrow> bool" where
  "deriv_ok ss os \<longleftrightarrow> (\<forall>c p. usd ss c \<longrightarrow> par ss c = Some p \<longrightarrow> edge_ok os (ss ! c) (ss ! p))"

definition cap_ok :: "CapSpace \<Rightarrow> (nat \<Rightarrow> nat list) \<Rightarrow> (nat \<Rightarrow> nat) \<Rightarrow> bool" where
  "cap_ok cs ch rk \<longleftrightarrow> length (c_slots cs) < 2 ^ 32 \<and> cdt (c_slots cs) ch rk \<and>
     slots_ok (c_slots cs) (c_objects cs) \<and> refs_ok (c_slots cs) (c_objects cs) \<and> deriv_ok (c_slots cs) (c_objects cs)"

definition cap_inv :: "CapSpace \<Rightarrow> bool" where
  "cap_inv cs \<longleftrightarrow> (\<exists>ch rk. cap_ok cs ch rk)"

lemmas cap_okD = cap_ok_def [THEN iffD1, THEN conjunct1] cap_ok_def [THEN iffD1, THEN conjunct2, THEN conjunct1]
  cap_ok_def [THEN iffD1, THEN conjunct2, THEN conjunct2, THEN conjunct1]
  cap_ok_def [THEN iffD1, THEN conjunct2, THEN conjunct2, THEN conjunct2, THEN conjunct1]
  cap_ok_def [THEN iffD1, THEN conjunct2, THEN conjunct2, THEN conjunct2, THEN conjunct2]

section \<open>Counting references\<close>

lemma length_filter_update:
  "i < length xs \<Longrightarrow> length (filter P (xs[i := v])) + (if P (xs ! i) then 1 else 0) =
     length (filter P xs) + (if P v then 1 else 0)"
  by (subst (3) id_take_nth_drop [of i xs], simp, simp add: upd_conv_take_nth_drop)

lemma refs_update:
  "i < length ss \<Longrightarrow> refs (ss[i := v]) ob + (if s_used (ss ! i) \<and> s_object (ss ! i) = ob then 1 else 0) =
     refs ss ob + (if s_used v \<and> s_object v = ob then 1 else 0)"
  unfolding refs_def by (rule length_filter_update)

lemma refs_bare: "refs ss ob = length (filter (\<lambda>s. s_used s \<and> s_object s = ob) (map bare ss))"
  by (induction ss) (simp_all add: refs_def bare_def)

lemma refs_cong: "length ss' = length ss \<Longrightarrow> (\<And>i. i < length ss \<Longrightarrow> bare (ss' ! i) = bare (ss ! i)) \<Longrightarrow> refs ss' ob = refs ss ob"
  unfolding refs_bare by (rule arg_cong, rule arg_cong, rule nth_equalityI) auto

lemma refs_le: "refs ss ob \<le> length ss"
  by (simp add: refs_def)

lemma refs_pos: "usd ss i \<Longrightarrow> 0 < refs ss (s_object (ss ! i))"
  unfolding refs_def usd_def by (rule length_pos_if_in_set [of "ss ! i"]) simp

lemma of_nat_refs_eq_0: "length ss < 2 ^ 32 \<Longrightarrow> (of_nat (refs ss ob) :: u32) = 0 \<longleftrightarrow> refs ss ob = 0"
  using refs_le [of ss ob] unat_of_nat_u32 [of "refs ss ob"] unat_eq_0 [of "of_nat (refs ss ob) :: u32"] by simp

lemma slot_kind_cong:
  "o_kind ob = o_kind ob' \<Longrightarrow> s_subregion s = s_subregion s' \<Longrightarrow> slot_kind ob s = slot_kind ob' s'"
  by (simp add: slot_kind_def cong: ObjectKind.case_cong)

text \<open>Both conditions only look at object, rights and window of the slots and at the kinds of the objects.\<close>

definition core :: "CapSlot \<Rightarrow> nat \<times> Rights \<times> PhysRegion option" where
  "core s = (s_object s, s_rights s, s_subregion s)"

lemma core_bare: "bare s = bare t \<Longrightarrow> core s = core t"
  by (simp add: core_def bare_eqD [of s t])

lemma slot_kind_core: "core s = core t \<Longrightarrow> slot_kind ob s = slot_kind ob t"
  by (rule slot_kind_cong) (simp_all add: core_def)

lemma slot_ok_core: "core s = core t \<Longrightarrow> slot_ok os s = slot_ok os t"
  using slot_kind_core [of s t] by (simp add: slot_ok_def core_def)

lemma edge_ok_core: "core c = core c' \<Longrightarrow> core p = core p' \<Longrightarrow> edge_ok os c p = edge_ok os c' p'"
  using slot_kind_core [of c c'] slot_kind_core [of p p'] by (simp add: edge_ok_def core_def)

lemma obj_same:
  assumes "length os' = length os" "o_kind (os' ! s_object p) = o_kind (os ! s_object p)"
    "o_used (os' ! s_object p) = o_used (os ! s_object p)"
  shows "slot_ok os' p = slot_ok os p" "edge_ok os' c p = edge_ok os c p"
  using slot_kind_cong [OF assms(2) refl] assms by (simp_all add: slot_ok_def edge_ok_def)

lemma edge_ok_trans: "edge_ok os a b \<Longrightarrow> edge_ok os b c \<Longrightarrow> edge_ok os a c"
  by (auto simp: edge_ok_def intro: Rights_contains_trans kind_le_trans)

text \<open>Unused objects are not referred to.\<close>

lemma refs_unused:
  assumes "slots_ok ss os" "ob < length os \<Longrightarrow> \<not> o_used (os ! ob)"
  shows "refs ss ob = 0"
proof -
  have "\<not> (s_used s \<and> s_object s = ob)" if "s \<in> set ss" for s
  proof
    assume *: "s_used s \<and> s_object s = ob"
    from that obtain i where "i < length ss" "s = ss ! i" by (auto simp: in_set_conv_nth)
    with * assms show False by (auto simp: slots_ok_def slot_ok_def usd_def)
  qed
  then show ?thesis by (simp add: refs_def)
qed

text \<open>Changing an object entry in a way the slots that use it cannot see.\<close>

lemma obj_update:
  assumes "slots_ok ss os" "deriv_ok ss os" "cdt ss ch rk" "length os' = length os"
    "\<And>i. usd ss i \<Longrightarrow> o_kind (os' ! s_object (ss ! i)) = o_kind (os ! s_object (ss ! i)) \<and>
       o_used (os' ! s_object (ss ! i)) = o_used (os ! s_object (ss ! i))"
  shows "slots_ok ss os'" "deriv_ok ss os'"
proof -
  show "slots_ok ss os'"
    unfolding slots_ok_def
  proof (intro allI impI)
    fix i
    assume u: "usd ss i"
    with assms(1) have "slot_ok os (ss ! i)" by (simp add: slots_ok_def)
    then show "slot_ok os' (ss ! i)" using obj_same(1) [OF assms(4)] assms(5) [OF u] by simp
  qed
  show "deriv_ok ss os'"
    unfolding deriv_ok_def
  proof (intro allI impI)
    fix c p
    assume c: "usd ss c" "par ss c = Some p"
    then have "usd ss p" using cdtD(9) [OF assms(3)] by blast
    moreover have "edge_ok os (ss ! c) (ss ! p)" using assms(2) c by (simp add: deriv_ok_def)
    ultimately show "edge_ok os' (ss ! c) (ss ! p)" using obj_same(2) [OF assms(4)] assms(5) by simp
  qed
qed

section \<open>Allocating a slot and deriving a capability\<close>

definition new_slot :: "u32 \<Rightarrow> nat \<Rightarrow> Rights \<Rightarrow> u64 \<Rightarrow> PhysRegion option \<Rightarrow> CapSlot" where
  "new_slot g obj r b w = \<lparr>s_used = True, s_gen = g, s_object = obj, s_rights = r, s_badge = b,
     s_subregion = w, s_mdb = Mdb_EMPTY\<rparr>"

lemma new_slot_sel [simp]:
  "s_used (new_slot g obj r b w)" "s_gen (new_slot g obj r b w) = g" "s_object (new_slot g obj r b w) = obj"
  "s_rights (new_slot g obj r b w) = r" "s_badge (new_slot g obj r b w) = b"
  "s_subregion (new_slot g obj r b w) = w" "s_mdb (new_slot g obj r b w) = Mdb_EMPTY"
  by (simp_all add: new_slot_def)

lemma alloc_slot_cases:
  obtains (full) "alloc_slot cs obj r b = (cs, Inl NoSlot)" "\<forall>i<length (c_slots cs). usd (c_slots cs) i"
  | (ok) d cs1 where "alloc_slot cs obj r b = (cs1, Inr d)" "d < length (c_slots cs)" "\<not> usd (c_slots cs) d"
      "c_slots cs1 = (c_slots cs)[d := new_slot (s_gen (c_slots cs ! d)) obj r b None]" "c_objects cs1 = c_objects cs"
proof (cases "position (\<lambda>s. \<not> s_used s) (c_slots cs)")
  case None
  then have "\<forall>i<length (c_slots cs). usd (c_slots cs) i" by (simp add: position_None_iff usd_def)
  with None show ?thesis by (intro full) (simp_all add: alloc_slot_def free_slot_index_def)
next
  case (Some d)
  from position_SomeD [OF this] have d: "d < length (c_slots cs)" "\<not> s_used (c_slots cs ! d)" by auto
  show ?thesis
    by (rule ok [of "fst (alloc_slot cs obj r b)" d])
      (use Some d in \<open>simp_all add: alloc_slot_def free_slot_index_def Let_def usd_def new_slot_def\<close>)
qed

lemma derive_cap_ok:
  assumes ok: "cap_ok cs ch rk" and s: "usd (c_slots cs) s" and obj: "obj = s_object (c_slots cs ! s)"
    and r: "Rights_contains (s_rights (c_slots cs ! s)) r"
    and w: "\<And>g. kind_le (slot_kind (c_objects cs ! obj) (new_slot g obj r b w)) (slot_kind (c_objects cs ! obj) (c_slots cs ! s))"
  obtains (full) "derive_cap cs s obj r b w = Some (cs, Inl NoSlot)" "\<forall>i<length (c_slots cs). usd (c_slots cs) i"
  | (ok) cs' d where "derive_cap cs s obj r b w = Some (cs', Inr \<lparr>p_slot = d, p_gen = s_gen (c_slots cs ! d)\<rparr>)"
      "d < length (c_slots cs)" "\<not> usd (c_slots cs) d"
      "cap_ok cs' (ch(s := d # ch s)) (rk(d := Suc (rk s)))" "length (c_slots cs') = length (c_slots cs)"
      "usd (c_slots cs') = (usd (c_slots cs))(d := True)" "par (c_slots cs') = (par (c_slots cs))(d := Some s)"
      "\<And>i. i \<noteq> d \<Longrightarrow> bare (c_slots cs' ! i) = bare (c_slots cs ! i)"
      "bare (c_slots cs' ! d) = new_slot (s_gen (c_slots cs ! d)) obj r b w"
      "c_objects cs' = lupd (c_objects cs) obj (\<lambda>ob. ob\<lparr>o_refcount := o_refcount ob + 1\<rparr>)"
proof (cases rule: alloc_slot_cases [of cs obj r b])
  case full
  then show ?thesis by (intro that(1)) (simp_all add: derive_cap_def)
next
  case (ok d cs1)
  let ?ss = "c_slots cs" and ?os = "c_objects cs"
  let ?v = "new_slot (s_gen (?ss ! d)) obj r b w"
  let ?ss2 = "?ss[d := ?v]"
  note O = cap_okD [OF \<open>cap_ok cs ch rk\<close>]
  have sd: "s \<noteq> d" using s ok(3) by auto
  have objl: "obj < length ?os" "o_used (?os ! obj)" using O(3) s obj by (auto simp: slots_ok_def slot_ok_def)
  define cs2 where "cs2 = cs1\<lparr>c_slots := ?ss2\<rparr>"
  have m2: "mod_slot cs1 d (\<lambda>x. x\<lparr>s_subregion := w\<rparr>) = Some cs2"
    using ok(2,4) by (simp add: mod_slot_Some lupd_def cs2_def new_slot_def)
  define os3 where "os3 = lupd ?os obj (\<lambda>ob. ob\<lparr>o_refcount := o_refcount ob + 1\<rparr>)"
  have m3: "mod_object cs2 obj (\<lambda>ob. ob\<lparr>o_refcount := o_refcount ob + 1\<rparr>) = Some (cs2\<lparr>c_objects := os3\<rparr>)"
    using objl ok(5) by (simp add: mod_object_Some cs2_def os3_def)
  have l2: "usd ?ss2 = (usd ?ss)(d := True)" "par ?ss2 = (par ?ss)(d := None)"
    using links_update [OF ok(2), of ?v] by simp_all
  have chd: "ch d = []" by (rule cdtD(1) [OF O(2) ok(3)])
  have "cdt ?ss2 ch rk" by (rule cdt_new_root [OF O(2) ok(2,3)]) simp_all
  from cdt_link [OF this, of s d] obtain ss4 where ss4: "kind_einhaengen ?ss2 s d = Some ss4"
    "length ss4 = length ?ss" "usd ss4 = (usd ?ss)(d := True)" "par ss4 = (par ?ss)(d := Some s)"
    "\<And>i. bare (ss4 ! i) = bare (?ss2 ! i)" "cdt ss4 (ch(s := d # ch s)) (rk(d := Suc (rk s)))"
    using s sd chd by (auto simp: l2)
  define cs4 where "cs4 = cs2\<lparr>c_objects := os3, c_slots := ss4\<rparr>"
  have m4: "link_child (cs2\<lparr>c_objects := os3\<rparr>) s d = Some cs4"
    using ss4(1) by (simp add: link_child_def cs2_def cs4_def)
  have b: "bare (ss4 ! i) = bare (?ss ! i)" if "i \<noteq> d" for i using ss4(5) that by simp
  have bd: "bare (ss4 ! d) = ?v" using ss4(5) [of d] ok(2) by (simp add: bare_def new_slot_def)
  note bD = bare_eqD [OF b]
  have dv: "s_object (ss4 ! d) = obj" "s_rights (ss4 ! d) = r" "s_subregion (ss4 ! d) = w" "s_gen (ss4 ! d) = s_gen (?ss ! d)"
    using arg_cong [OF bd, of s_object] arg_cong [OF bd, of s_rights] arg_cong [OF bd, of s_subregion] arg_cong [OF bd, of s_gen]
    by (simp_all add: bare_def)
  have p4: "cs_ptr cs4 d = Some \<lparr>p_slot = d, p_gen = s_gen (?ss ! d)\<rparr>"
    using ok(2) ss4(2) dv(4) by (simp add: cs_ptr_def cs4_def tget_Some)
  have cb: "core (ss4 ! i) = core (?ss ! i)" if "i \<noteq> d" for i by (rule core_bare [OF b [OF that]])
  have cd: "core (ss4 ! d) = core (new_slot 0 obj r b w)" by (simp add: core_def dv)
  have so: "slot_ok ?os (?ss ! s)" using O(3) s by (simp add: slots_ok_def)
  have eo: "edge_ok ?os (new_slot 0 obj r b w) (?ss ! s)"
    using w [of 0] r obj by (simp add: edge_ok_def)
  have "slots_ok ss4 ?os"
    unfolding slots_ok_def
  proof (intro allI impI)
    fix i
    assume u: "usd ss4 i"
    show "slot_ok ?os (ss4 ! i)"
    proof (cases "i = d")
      case True
      have "slot_ok ?os (new_slot 0 obj r b w)"
        using so eo obj kind_le_trans by (auto simp: slot_ok_def edge_ok_def)
      then show ?thesis unfolding True using slot_ok_core [OF cd] by simp
    next
      case False
      then have "usd ?ss i" using u ss4(3) by simp
      then show ?thesis using O(3) slot_ok_core [OF cb [OF False]] by (simp add: slots_ok_def)
    qed
  qed
  moreover have "deriv_ok ss4 ?os"
    unfolding deriv_ok_def
  proof (intro allI impI)
    fix c p
    assume c: "usd ss4 c" "par ss4 c = Some p"
    show "edge_ok ?os (ss4 ! c) (ss4 ! p)"
    proof (cases "c = d")
      case True
      then have "p = s" using c(2) ss4(4) by simp
      then show ?thesis unfolding True using edge_ok_core [OF cd cb [OF sd]] eo by simp
    next
      case False
      then have c': "usd ?ss c" "par ?ss c = Some p" using c ss4(3,4) by simp_all
      then have "usd ?ss p" using cdtD(9) [OF O(2)] by blast
      then have pd: "p \<noteq> d" using ok(3) by auto
      show ?thesis using edge_ok_core [OF cb [OF False] cb [OF pd]] O(5) c' by (simp add: deriv_ok_def)
    qed
  qed
  moreover have "o_kind (os3 ! x) = o_kind (?os ! x)" "o_used (os3 ! x) = o_used (?os ! x)" for x
    using objl by (simp_all add: os3_def nth_lupd)
  ultimately have sd4: "slots_ok ss4 os3" "deriv_ok ss4 os3"
    using obj_update [OF _ _ ss4(6), of ?os os3] by (simp_all add: os3_def)
  have "refs_ok ss4 os3"
    unfolding refs_ok_def
  proof (intro allI impI)
    fix ob
    assume ob: "ob < length os3" "o_used (os3 ! ob)"
    then have ob': "ob < length ?os" "o_used (?os ! ob)" using objl by (auto simp: os3_def nth_lupd split: if_splits)
    have "refs ss4 ob = refs ?ss2 ob" by (rule refs_cong) (simp_all add: ss4)
    also have "\<dots> = refs ?ss ob + (if obj = ob then 1 else 0)"
      using refs_update [OF ok(2), of ?v ob] ok(2,3) by (simp add: usd_def)
    finally have "refs ss4 ob = refs ?ss ob + (if obj = ob then 1 else 0)" .
    then show "0 < refs ss4 ob \<and> o_refcount (os3 ! ob) = of_nat (refs ss4 ob)"
      using O(4) ob' objl by (auto simp: refs_ok_def os3_def nth_lupd)
  qed
  with sd4 ss4 O(1) have "cap_ok cs4 (ch(s := d # ch s)) (rk(d := Suc (rk s)))"
    by (simp add: cap_ok_def cs4_def)
  then show ?thesis
    using ok m2 m3 m4 p4 ss4 b bd
    by (intro that(2) [of cs4 d]) (simp_all add: derive_cap_def cs4_def os3_def)
qed

section \<open>Copy, mint and subregion\<close>

lemma resolve_Inr: "cs_resolve cs ptr = Inr s \<Longrightarrow> s = p_slot ptr \<and> usd (c_slots cs) s \<and> s_gen (c_slots cs ! s) = p_gen ptr"
  by (auto simp: cs_resolve_def tget_def usd_def split: if_splits option.splits)

lemma resolve_iff: "cs_resolve cs ptr = Inr s \<longleftrightarrow> s = p_slot ptr \<and> usd (c_slots cs) s \<and> s_gen (c_slots cs ! s) = p_gen ptr"
  by (auto simp: cs_resolve_def tget_def usd_def split: if_splits option.splits)

lemma resolve_Inl: "cs_resolve cs ptr = Inl e \<Longrightarrow> e = Invalid"
  by (auto simp: cs_resolve_def split: if_splits option.splits)

text \<open>
  What a derivation (copy, mint, subregion) does: it either refuses and changes nothing, or adds one
  fresh child below the source and touches no other capability.
\<close>

definition derived :: "CapSpace \<Rightarrow> nat \<Rightarrow> Rights \<Rightarrow> u64 \<Rightarrow> PhysRegion option \<Rightarrow> CapSpace \<Rightarrow> CapPtr \<Rightarrow> bool" where
  "derived cs s r b w cs' p \<longleftrightarrow>
     (let d = p_slot p in
      \<not> usd (c_slots cs) d \<and> d < length (c_slots cs) \<and> length (c_slots cs') = length (c_slots cs) \<and>
      p_gen p = s_gen (c_slots cs ! d) \<and>
      usd (c_slots cs') = (usd (c_slots cs))(d := True) \<and> par (c_slots cs') = (par (c_slots cs))(d := Some s) \<and>
      (\<forall>i. i \<noteq> d \<longrightarrow> bare (c_slots cs' ! i) = bare (c_slots cs ! i)) \<and>
      bare (c_slots cs' ! d) = new_slot (p_gen p) (s_object (c_slots cs ! s)) r b w \<and>
      c_objects cs' = lupd (c_objects cs) (s_object (c_slots cs ! s)) (\<lambda>ob. ob\<lparr>o_refcount := o_refcount ob + 1\<rparr>))"

lemma derive_cap_derived:
  assumes "cap_inv cs" "usd (c_slots cs) s" "obj = s_object (c_slots cs ! s)"
    "Rights_contains (s_rights (c_slots cs ! s)) r"
    "\<And>g. kind_le (slot_kind (c_objects cs ! obj) (new_slot g obj r b w)) (slot_kind (c_objects cs ! obj) (c_slots cs ! s))"
  obtains (full) "derive_cap cs s obj r b w = Some (cs, Inl NoSlot)" "\<forall>i<length (c_slots cs). usd (c_slots cs) i"
  | (ok) cs' p where "derive_cap cs s obj r b w = Some (cs', Inr p)" "cap_inv cs'" "derived cs s r b w cs' p"
proof -
  from assms(1) obtain ch rk where ok: "cap_ok cs ch rk" by (auto simp: cap_inv_def)
  from ok assms(2-5) show ?thesis
  proof (cases rule: derive_cap_ok)
    case full
    then show ?thesis by (rule that(1))
  next
    case (ok cs' d)
    show ?thesis
      by (rule that(2) [OF ok(1)]) (use ok assms(3) in \<open>auto simp: cap_inv_def derived_def\<close>)
  qed
qed

lemma copy_cases:
  assumes "cap_inv cs"
  obtains (invalid) "cs_copy cs src r = Some (cs, Inl Invalid)" "cs_resolve cs src = Inl Invalid"
  | (full) "cs_copy cs src r = Some (cs, Inl NoSlot)" "\<forall>i<length (c_slots cs). usd (c_slots cs) i"
  | (ok) cs' p where "cs_copy cs src r = Some (cs', Inr p)" "cap_inv cs'" "cs_resolve cs src = Inr (p_slot src)"
      "derived cs (p_slot src) (Rights_intersect (s_rights (c_slots cs ! p_slot src)) r)
         (s_badge (c_slots cs ! p_slot src)) (s_subregion (c_slots cs ! p_slot src)) cs' p"
proof (cases "cs_resolve cs src")
  case (Inl e)
  then show ?thesis using resolve_Inl [OF Inl] by (intro invalid) (simp_all add: cs_copy_def)
next
  case (Inr s)
  note s = resolve_Inr [OF Inr]
  let ?sl = "c_slots cs ! s"
  have "s < length (c_slots cs)" using s by (simp add: usd_def)
  then have eq: "cs_copy cs src r = derive_cap cs s (s_object ?sl) (Rights_intersect (s_rights ?sl) r) (s_badge ?sl) (s_subregion ?sl)"
    using Inr by (simp add: cs_copy_def tget_Some)
  have k: "kind_le (slot_kind (c_objects cs ! s_object ?sl) (new_slot g (s_object ?sl) (Rights_intersect (s_rights ?sl) r) (s_badge ?sl) (s_subregion ?sl)))
      (slot_kind (c_objects cs ! s_object ?sl) ?sl)" for g
  proof -
    have "slot_kind (c_objects cs ! s_object ?sl) (new_slot g (s_object ?sl) (Rights_intersect (s_rights ?sl) r) (s_badge ?sl) (s_subregion ?sl)) =
        slot_kind (c_objects cs ! s_object ?sl) ?sl" by (rule slot_kind_cong) simp_all
    then show ?thesis by (simp only: kind_le_refl)
  qed
  have u: "usd (c_slots cs) s" using s by blast
  show ?thesis
    by (cases rule: derive_cap_derived [OF assms u refl Rights_intersect_contains(1) [of _ r] k])
      (use eq s Inr full ok in auto)
qed

lemma teilfenster_win_le:
  assumes "teilfenster_rechnen whole off l = Inr w"
  shows "win_le w whole" "region_ok w" "region_ok whole" "r_base w = r_base whole + off" "r_len w = l" "l \<noteq> 0"
proof -
  from assms have l: "l \<noteq> 0" by (auto simp: teilfenster_rechnen_def)
  with assms obtain b e we where c: "checked_add (r_base whole) off = Some b" "checked_add b l = Some e"
    "checked_add (r_base whole) (r_len whole) = Some we" and le: "\<not> e > we" and w: "w = PhysRegion_new b l"
    by (auto simp: teilfenster_rechnen_def split: option.splits if_splits)
  note a = c [THEN checked_add_SomeD]
  show ok: "region_ok w" "region_ok whole" using a w by (simp_all add: region_ok_def)
  show "r_base w = r_base whole + off" "r_len w = l" "l \<noteq> 0" using a w l by simp_all
  have "r_base whole \<le> r_base w" using a w by (auto simp: word_le_nat_alt)
  moreover have "region_end w = e" "region_end whole = we" using a w by (simp_all add: region_end_def)
  ultimately show "win_le w whole" using ok le by (simp add: win_le_def contains_region_def not_less)
qed

lemma subregion_cases:
  assumes "cap_inv cs"
  obtains (refused) e where "cs_subregion cs src off l r = Some (cs, Inl e)"
  | (ok) cs' p w whole where "cs_subregion cs src off l r = Some (cs', Inr p)" "cap_inv cs'"
      "cs_resolve cs src = Inr (p_slot src)"
      "slot_kind (c_objects cs ! s_object (c_slots cs ! p_slot src)) (c_slots cs ! p_slot src) = Memory whole"
      "teilfenster_rechnen whole off l = Inr w"
      "derived cs (p_slot src) (Rights_intersect (s_rights (c_slots cs ! p_slot src)) r)
         (s_badge (c_slots cs ! p_slot src)) (Some w) cs' p"
proof (cases "cs_resolve cs src")
  case (Inl e)
  then show ?thesis using resolve_Inl [OF Inl] by (intro refused [of Invalid]) (simp add: cs_subregion_def)
next
  case (Inr s)
  note s = resolve_Inr [OF Inr]
  let ?sl = "c_slots cs ! s"
  let ?ob = "c_objects cs ! s_object ?sl"
  have sl: "s < length (c_slots cs)" using s by (simp add: usd_def)
  have ol: "s_object ?sl < length (c_objects cs)" using assms s by (auto simp: cap_inv_def cap_ok_def slots_ok_def slot_ok_def)
  show ?thesis
  proof (cases "\<exists>reg. o_kind ?ob = Memory reg")
    case False
    then show ?thesis
      using Inr sl ol by (intro refused [of Invalid]) (cases "o_kind ?ob"; simp add: cs_subregion_def tget_Some)
  next
    case True
    then obtain reg where reg: "o_kind ?ob = Memory reg" by blast
    define whole where "whole = (case s_subregion ?sl of Some w \<Rightarrow> w | None \<Rightarrow> reg)"
    have sk: "slot_kind ?ob ?sl = Memory whole" using reg by (simp add: slot_kind_def whole_def)
    show ?thesis
    proof (cases "teilfenster_rechnen whole off l")
      case (Inl e)
      then show ?thesis
        using Inr sl ol reg by (intro refused [of e]) (simp add: cs_subregion_def tget_Some whole_def)
    next
      case (Inr w)
      have eq: "cs_subregion cs src off l r =
          derive_cap cs s (s_object ?sl) (Rights_intersect (s_rights ?sl) r) (s_badge ?sl) (Some w)"
        using \<open>cs_resolve cs src = Inr s\<close> sl ol reg Inr by (simp add: cs_subregion_def tget_Some whole_def)
      have k: "kind_le (slot_kind ?ob (new_slot g (s_object ?sl) (Rights_intersect (s_rights ?sl) r) (s_badge ?sl) (Some w)))
          (slot_kind ?ob ?sl)" for g
        unfolding sk using teilfenster_win_le(1) [OF Inr] reg by (simp add: slot_kind_def kind_le_def)
      have u: "usd (c_slots cs) s" using s by blast
      show ?thesis
        by (cases rule: derive_cap_derived [OF assms u refl Rights_intersect_contains(1) [of _ r] k])
          (use eq s \<open>cs_resolve cs src = Inr s\<close> Inr sk refused ok in auto)
    qed
  qed
qed

text \<open>Changing only the badge of a slot keeps everything.\<close>

lemma cdt_cong:
  assumes "usd ss' = usd ss" "par ss' = par ss" "fch ss' = fch ss" "nxt ss' = nxt ss" "prv ss' = prv ss"
  shows "cdt ss' ch rk = cdt ss ch rk"
  unfolding cdt_def assms ..

lemma badge_links:
  assumes "d < length ss"
  shows "usd (lupd ss d (\<lambda>s. s\<lparr>s_badge := b\<rparr>)) = usd ss" "par (lupd ss d (\<lambda>s. s\<lparr>s_badge := b\<rparr>)) = par ss"
    "fch (lupd ss d (\<lambda>s. s\<lparr>s_badge := b\<rparr>)) = fch ss" "nxt (lupd ss d (\<lambda>s. s\<lparr>s_badge := b\<rparr>)) = nxt ss"
    "prv (lupd ss d (\<lambda>s. s\<lparr>s_badge := b\<rparr>)) = prv ss"
  using assms by (auto simp: fun_eq_iff links_lupd) (auto simp: usd_def par_def fch_def nxt_def prv_def)

lemma cap_inv_badge:
  assumes "cap_inv cs" "d < length (c_slots cs)"
  shows "cap_inv (cs\<lparr>c_slots := lupd (c_slots cs) d (\<lambda>s. s\<lparr>s_badge := b\<rparr>)\<rparr>)"
proof -
  let ?ss = "c_slots cs" and ?ss' = "lupd (c_slots cs) d (\<lambda>s. s\<lparr>s_badge := b\<rparr>)"
  from assms(1) obtain ch rk where ok: "cap_ok cs ch rk" by (auto simp: cap_inv_def)
  note O = cap_okD [OF ok] and L = badge_links [OF assms(2), of b]
  have f: "core (?ss' ! i) = core (?ss ! i)" for i using assms(2) by (simp add: nth_lupd core_def)
  have "refs ?ss' ob = refs ?ss ob" for ob
    using refs_update [OF assms(2), of "(?ss ! d)\<lparr>s_badge := b\<rparr>" ob] by (simp add: lupd_def)
  then have "cap_ok (cs\<lparr>c_slots := ?ss'\<rparr>) ch rk"
    using O cdt_cong [OF L] slot_ok_core [OF f] edge_ok_core [OF f f]
    by (simp add: cap_ok_def slots_ok_def refs_ok_def deriv_ok_def L)
  then show ?thesis by (auto simp: cap_inv_def)
qed

lemma mint_cases:
  assumes "cap_inv cs"
  obtains (refused) e where "cs_mint cs src r b = Some (cs, Inl e)" "cs_copy cs src r = Some (cs, Inl e)"
  | (ok) cs' p where "cs_mint cs src r b = Some (cs', Inr p)" "cap_inv cs'" "cs_resolve cs src = Inr (p_slot src)"
      "derived cs (p_slot src) (Rights_intersect (s_rights (c_slots cs ! p_slot src)) r) b
         (s_subregion (c_slots cs ! p_slot src)) cs' p"
  using assms
proof (cases rule: copy_cases [where src = src and r = r])
  case (ok cs1 p)
  let ?d = "p_slot p"
  have d: "?d < length (c_slots cs1)" using ok(4) by (simp add: derived_def Let_def)
  let ?cs' = "cs1\<lparr>c_slots := lupd (c_slots cs1) ?d (\<lambda>s. s\<lparr>s_badge := b\<rparr>)\<rparr>"
  have m: "cs_mint cs src r b = Some (?cs', Inr p)"
    using ok(1) d by (simp add: cs_mint_def mod_slot_Some)
  have "bare ((c_slots cs1 ! ?d)\<lparr>s_badge := b\<rparr>) = (bare (c_slots cs1 ! ?d))\<lparr>s_badge := b\<rparr>"
    by (simp add: bare_def)
  then have "derived cs (p_slot src) (Rights_intersect (s_rights (c_slots cs ! p_slot src)) r) b
         (s_subregion (c_slots cs ! p_slot src)) ?cs' p"
    using ok(4) d by (simp add: derived_def Let_def badge_links nth_lupd new_slot_def)
  with m ok(3) cap_inv_badge [OF ok(2) d] that(2) show ?thesis by blast
qed (use that(1) in \<open>simp_all add: cs_mint_def\<close>)

section \<open>Installing\<close>

lemma alloc_object_cases:
  obtains (full) "alloc_object cs k = (cs, Inl NoObject)"
  | (ok) ob cs1 where "alloc_object cs k = (cs1, Inr ob)" "ob < length (c_objects cs)" "\<not> o_used (c_objects cs ! ob)"
      "c_slots cs1 = c_slots cs"
      "c_objects cs1 = (c_objects cs)[ob := \<lparr>o_used = True, o_kind = k, o_refcount = 1, o_gen = o_gen (c_objects cs ! ob)\<rparr>]"
proof (cases "position (\<lambda>ob. \<not> o_used ob) (c_objects cs)")
  case None
  then show ?thesis by (intro full) (simp add: alloc_object_def alloc_object_inner_def)
next
  case (Some ob)
  from position_SomeD [OF this] have d: "ob < length (c_objects cs)" "\<not> o_used (c_objects cs ! ob)" by auto
  show ?thesis
    by (rule ok [of "fst (alloc_object cs k)" ob])
      (use Some d in \<open>simp_all add: alloc_object_def alloc_object_inner_def Let_def\<close>)
qed

lemma free_obj_update:
  assumes "slots_ok ss os" "deriv_ok ss os" "cdt ss ch rk" "\<not> o_used (os ! ob)"
  shows "slots_ok ss (os[ob := v])" "deriv_ok ss (os[ob := v])"
proof -
  have "s_object (ss ! i) \<noteq> ob" if "usd ss i" for i using assms(1,4) that by (auto simp: slots_ok_def slot_ok_def)
  then have "\<And>i. usd ss i \<Longrightarrow> o_kind (os[ob := v] ! s_object (ss ! i)) = o_kind (os ! s_object (ss ! i)) \<and>
       o_used (os[ob := v] ! s_object (ss ! i)) = o_used (os ! s_object (ss ! i))"
    by (metis nth_list_update_neq)
  from obj_update [OF assms(1-3) _ this] show "slots_ok ss (os[ob := v])" "deriv_ok ss (os[ob := v])" by simp_all
qed

lemma install_cases:
  assumes "cap_inv cs"
  obtains (refused) cs' e where "cs_install cs k r = Some (cs', Inl e)" "cap_inv cs'" "c_slots cs' = c_slots cs"
      "map (\<lambda>ob. (o_used ob, if o_used ob then o_kind ob else k)) (c_objects cs') =
       map (\<lambda>ob. (o_used ob, if o_used ob then o_kind ob else k)) (c_objects cs)"
  | (installed) cs' d ob where "cs_install cs k r = Some (cs', Inr \<lparr>p_slot = d, p_gen = s_gen (c_slots cs ! d)\<rparr>)" "cap_inv cs'"
      "d < length (c_slots cs)" "\<not> usd (c_slots cs) d" "ob < length (c_objects cs)" "\<not> o_used (c_objects cs ! ob)"
      "c_slots cs' = (c_slots cs)[d := new_slot (s_gen (c_slots cs ! d)) ob r 0 None]"
      "c_objects cs' = (c_objects cs)[ob := \<lparr>o_used = True, o_kind = k, o_refcount = 1, o_gen = o_gen (c_objects cs ! ob)\<rparr>]"
proof -
  from assms obtain ch rk where ok0: "cap_ok cs ch rk" by (auto simp: cap_inv_def)
  note O = cap_okD [OF ok0]
  show ?thesis
  proof (cases rule: alloc_object_cases [of cs k])
    case full
    show ?thesis by (rule refused [of cs NoObject]) (simp_all add: cs_install_def full assms)
  next
    case (ok ob cs1)
    let ?nob = "\<lparr>o_used = True, o_kind = k, o_refcount = 1, o_gen = o_gen (c_objects cs ! ob)\<rparr>"
    have r0: "refs (c_slots cs) ob = 0" by (rule refs_unused [OF O(3)]) (simp add: ok(3))
    show ?thesis
    proof (cases rule: alloc_slot_cases [of cs1 ob r 0])
      case full
      let ?os = "(c_objects cs)[ob := ?nob\<lparr>o_used := False\<rparr>]"
      let ?cs' = "cs1\<lparr>c_objects := ?os\<rparr>"
      have i: "cs_install cs k r = Some (?cs', Inl NoSlot)"
        using ok full by (simp add: cs_install_def mod_object_Some lupd_def)
      have "refs_ok (c_slots cs) ?os"
        using O(4) ok(2) by (auto simp: refs_ok_def nth_list_update)
      then have "cap_ok ?cs' ch rk"
        using O free_obj_update [OF O(3,5,2) ok(3)] ok(4) by (simp add: cap_ok_def)
      then have "cap_inv ?cs'" by (auto simp: cap_inv_def)
      with i show ?thesis
        by (rule refused) (use ok in \<open>auto simp: list_eq_iff_nth_eq nth_list_update\<close>)
    next
      case (ok d cs2)
      note o = \<open>ob < length (c_objects cs)\<close> \<open>\<not> o_used (c_objects cs ! ob)\<close> \<open>c_slots cs1 = c_slots cs\<close>
        \<open>c_objects cs1 = (c_objects cs)[ob := ?nob]\<close>
      let ?ss = "(c_slots cs)[d := new_slot (s_gen (c_slots cs ! d)) ob r 0 None]"
      have d: "d < length (c_slots cs)" "\<not> usd (c_slots cs) d" and cs2: "c_slots cs2 = ?ss" "c_objects cs2 = (c_objects cs)[ob := ?nob]"
        using ok o by simp_all
      have i: "cs_install cs k r = Some (cs2, Inr \<lparr>p_slot = d, p_gen = s_gen (c_slots cs ! d)\<rparr>)"
        using \<open>alloc_object cs k = (cs1, Inr ob)\<close> ok(1) d cs2 by (simp add: cs_install_def cs_ptr_def tget_Some)
      have l2: "usd ?ss = (usd (c_slots cs))(d := True)" "par ?ss = (par (c_slots cs))(d := None)"
        using links_update [OF d(1), of "new_slot (s_gen (c_slots cs ! d)) ob r 0 None"] by simp_all
      have so: "slots_ok (c_slots cs) ((c_objects cs)[ob := ?nob])" "deriv_ok (c_slots cs) ((c_objects cs)[ob := ?nob])"
        using free_obj_update [OF O(3,5,2) o(2)] by blast+
      have "slot_ok ((c_objects cs)[ob := ?nob]) (?ss ! i)" if "usd ?ss i" for i
        using that so(1) o(1) d unfolding slots_ok_def l2
        by (cases "i = d") (simp_all add: slot_ok_def slot_kind_def split: ObjectKind.splits)
      then have "slots_ok ?ss ((c_objects cs)[ob := ?nob])" by (simp add: slots_ok_def)
      moreover have "edge_ok ((c_objects cs)[ob := ?nob]) (?ss ! c) (?ss ! p)" if c: "usd ?ss c" "par ?ss c = Some p" for c p
      proof -
        from c have c': "c \<noteq> d" "usd (c_slots cs) c" "par (c_slots cs) c = Some p" unfolding l2 by (auto split: if_splits)
        then have "p \<noteq> d" using cdtD(9) [OF O(2)] d(2) by blast
        with c' so(2) show ?thesis by (simp add: deriv_ok_def)
      qed
      then have "deriv_ok ?ss ((c_objects cs)[ob := ?nob])" by (simp add: deriv_ok_def)
      moreover have "refs_ok ?ss ((c_objects cs)[ob := ?nob])"
        unfolding refs_ok_def
      proof (intro allI impI)
        fix x
        assume x: "x < length ((c_objects cs)[ob := ?nob])" "o_used ((c_objects cs)[ob := ?nob] ! x)"
        have "refs ?ss x = refs (c_slots cs) x + (if ob = x then 1 else 0)"
          using refs_update [OF d(1), of "new_slot (s_gen (c_slots cs ! d)) ob r 0 None" x] d by (simp add: usd_def)
        then show "0 < refs ?ss x \<and> o_refcount ((c_objects cs)[ob := ?nob] ! x) = of_nat (refs ?ss x)"
          using x r0 O(4) o(1) by (cases "x = ob") (auto simp: refs_ok_def)
      qed
      moreover have "cdt ?ss ch rk" by (rule cdt_new_root [OF O(2) d]) simp_all
      ultimately have "cap_ok cs2 ch rk" using O(1) cs2 by (simp add: cap_ok_def)
      then have "cap_inv cs2" by (auto simp: cap_inv_def)
      with i show ?thesis by (rule installed) (use d o cs2 in simp_all)
    qed
  qed
qed

end
