(* ===== verification/CapRevoke.thy ===== *)
theory CapRevoke
  imports CapSpace_Inv
begin

text \<open>
  Moving, deleting and revoking capabilities. \<open>delete_leaf_ok\<close> describes one deletion completely;
  \<open>revoke_loop_ok\<close> shows that the loop of \<open>revoke\<close> deletes exactly the descendants, within its step
  limits, and carries every property of the state that single deletions keep.
\<close>

section \<open>Moving\<close>

lemma note_walk_sel [simp]:
  "c_slots (note_walk cs n) = c_slots cs" "c_objects (note_walk cs n) = c_objects cs"
  "c_cdt_walk_overruns (note_walk cs n) = c_cdt_walk_overruns cs"
  by (simp_all add: note_walk_def)

lemma cap_ok_note_walk [simp]: "cap_ok (note_walk cs n) ch rk = cap_ok cs ch rk"
  by (simp add: cap_ok_def)

lemma release_slot_Some:
  "i < length (c_slots cs) \<Longrightarrow>
   release_slot cs i = Some (cs\<lparr>c_slots := (c_slots cs)[i := CapSlot_EMPTY\<lparr>s_gen := s_gen (c_slots cs ! i) + 1\<rparr>]\<rparr>)"
  by (simp add: release_slot_def mod_slot_Some lupd_def)

lemma free_slot_index_cases:
  obtains (full) "free_slot_index cs = Inl NoSlot" "\<forall>i<length (c_slots cs). usd (c_slots cs) i"
  | (free) d where "free_slot_index cs = Inr d" "d < length (c_slots cs)" "\<not> usd (c_slots cs) d"
proof (cases "position (\<lambda>s. \<not> s_used s) (c_slots cs)")
  case None
  then have "\<forall>i<length (c_slots cs). usd (c_slots cs) i" by (simp add: position_None_iff usd_def)
  with None show ?thesis by (intro full) (simp_all add: free_slot_index_def)
next
  case (Some d)
  from position_SomeD [OF this] Some show ?thesis
    by (intro free [of d]) (auto simp: free_slot_index_def usd_def)
qed

text \<open>
  The effect of a successful move from slot \<open>s\<close> to slot \<open>d\<close>: the same capability at a new index, with
  the parent link of every other capability renamed accordingly.
\<close>

definition moved :: "CapSpace \<Rightarrow> nat \<Rightarrow> nat \<Rightarrow> CapSpace \<Rightarrow> bool" where
  "moved cs s d cs' \<longleftrightarrow>
     usd (c_slots cs) s \<and> \<not> usd (c_slots cs) d \<and> d < length (c_slots cs) \<and>
     length (c_slots cs') = length (c_slots cs) \<and> c_objects cs' = c_objects cs \<and>
     usd (c_slots cs') = (usd (c_slots cs))(d := True, s := False) \<and>
     (\<forall>i. usd (c_slots cs) i \<longrightarrow> par (c_slots cs') (ren s d i) = map_option (ren s d) (par (c_slots cs) i)) \<and>
     (\<forall>i. i \<noteq> d \<longrightarrow> i \<noteq> s \<longrightarrow> bare (c_slots cs' ! i) = bare (c_slots cs ! i)) \<and>
     bare (c_slots cs' ! d) = bare ((c_slots cs ! s)\<lparr>s_gen := s_gen (c_slots cs ! d)\<rparr>) \<and>
     s_gen (c_slots cs' ! s) = s_gen (c_slots cs ! s) + 1"

lemma move_ok:
  assumes ok: "cap_ok cs ch rk" and s: "usd (c_slots cs) s" and d: "d < length (c_slots cs)" "\<not> usd (c_slots cs) d"
    and res: "cs_resolve cs src = Inr s" "free_slot_index cs = Inr d"
  obtains cs' where "cs_move_cap cs src = Some (cs', Inr \<lparr>p_slot = d, p_gen = s_gen (c_slots cs ! d)\<rparr>)"
    "cap_inv cs'" "moved cs s d cs'" "c_cdt_walk_overruns cs' = c_cdt_walk_overruns cs"
proof -
  let ?ss = "c_slots cs" and ?os = "c_objects cs"
  note O = cap_okD [OF ok]
  have sd: "s \<noteq> d" using s d by auto
  have sl: "s < length ?ss" using s by (rule usd_lt)
  obtain cs3 ss' where m: "move_relink cs s d = Some cs3"
    "adopt_loop cs3 d (fch ?ss s) 0 (cdt_step_limit cs3) = Some (cs\<lparr>c_slots := ss'\<rparr>, length (ch s))"
    "length ss' = length ?ss" "usd ss' = (usd ?ss)(d := True)"
    "\<And>i. i \<noteq> s \<Longrightarrow> usd ?ss i \<Longrightarrow> par ss' i = map_option (ren s d) (par ?ss i)"
    "\<And>i. i \<noteq> s \<Longrightarrow> usd ?ss i \<Longrightarrow> fch ss' i = map_option (ren s d) (fch ?ss i)"
    "\<And>i. i \<noteq> s \<Longrightarrow> usd ?ss i \<Longrightarrow> nxt ss' i = map_option (ren s d) (nxt ?ss i)"
    "\<And>i. i \<noteq> s \<Longrightarrow> usd ?ss i \<Longrightarrow> prv ss' i = map_option (ren s d) (prv ?ss i)"
    "par ss' d = par ?ss s" "fch ss' d = fch ?ss s" "nxt ss' d = nxt ?ss s" "prv ss' d = prv ?ss s"
    "\<And>i. i \<noteq> d \<Longrightarrow> bare (ss' ! i) = bare (?ss ! i)" "bare (ss' ! d) = bare ((?ss ! s)\<lparr>s_gen := s_gen (?ss ! d)\<rparr>)"
    using move_main [OF O(2) s d] by blast
  define E where "E = CapSlot_EMPTY\<lparr>s_gen := s_gen (?ss ! s) + 1\<rparr>"
  define t where "t = ss'[s := E]"
  have E: "\<not> s_used E" "s_gen E = s_gen (?ss ! s) + 1" by (simp_all add: E_def)
  have gs: "s_gen (ss' ! s) = s_gen (?ss ! s)" using m(13) [OF sd] by (rule bare_eqD)
  define cs' where "cs' = (note_walk (cs\<lparr>c_slots := ss'\<rparr>) (length (ch s)))\<lparr>c_slots := t\<rparr>"
  have cs': "c_slots cs' = t" "c_objects cs' = ?os" "c_cdt_walk_overruns cs' = c_cdt_walk_overruns cs"
    by (simp_all add: cs'_def)
  have lt: "length t = length ?ss" by (simp add: t_def m(3))
  have td: "t ! d = ss' ! d" using sd by (simp add: t_def)
  have "s_gen (t ! d) = s_gen (?ss ! d)" using arg_cong [OF m(14), of s_gen] td by (simp add: bare_def)
  then have mv: "cs_move_cap cs src = Some (cs', Inr \<lparr>p_slot = d, p_gen = s_gen (?ss ! d)\<rparr>)"
    using res m(1,2,3) sl d lt gs
    by (simp add: cs_move_cap_def tget_Some nth_links release_slot_Some cs_ptr_def cs'_def t_def E_def)
  have lk: "usd t = (usd ?ss)(d := True, s := False)" "par t = (par ss')(s := m_parent (s_mdb E))"
    using links_update [of s ss' E] sl m(3,4) E by (simp_all add: t_def)
  have cdt: "cdt t ((\<lambda>i. map (ren s d) (ch i))(d := map (ren s d) (ch s), s := [])) (rk(d := rk s))"
    unfolding t_def by (rule cdt_rename [OF O(2) s d m(3-12) E(1)])
  have core: "core (t ! ren s d i) = core (?ss ! i)" if "usd ?ss i" for i
  proof (cases "i = s")
    case True
    then show ?thesis using core_bare [OF m(14)] td by (simp add: core_def)
  next
    case False
    then show ?thesis using core_bare [OF m(13), of i] that d(2) by (auto simp: t_def)
  qed
  have par: "par t (ren s d i) = map_option (ren s d) (par ?ss i)" if "usd ?ss i" for i
  proof (cases "i = s")
    case True
    have "par ?ss s \<noteq> Some s" using cdtD(8,10) [OF O(2)] s by blast
    then show ?thesis using True sd m(9) unfolding lk by (simp add: map_option_ren)
  next
    case False
    then show ?thesis using m(5) that unfolding lk by simp
  qed
  have U: "\<exists>i. usd ?ss i \<and> j = ren s d i" if "usd t j" for j
    using that s sd unfolding lk by (cases "j = d") (auto split: if_splits intro: exI [of _ s] exI [of _ j] simp: ren_def)
  have "slot_ok ?os (t ! j)" if j: "usd t j" for j
  proof -
    from U [OF j] obtain i where "usd ?ss i" "j = ren s d i" by blast
    with slot_ok_core [OF core] O(3) show ?thesis by (simp add: slots_ok_def)
  qed
  moreover have "edge_ok ?os (t ! c) (t ! p)" if c: "usd t c" "par t c = Some p" for c p
  proof -
    from U [OF c(1)] obtain i where i: "usd ?ss i" "c = ren s d i" by blast
    with c(2) par obtain q where q: "par ?ss i = Some q" "p = ren s d q" by auto
    then have "usd ?ss q" using cdtD(9) [OF O(2)] i by blast
    with i q edge_ok_core [OF core core] O(5) show ?thesis by (simp add: deriv_ok_def)
  qed
  moreover have "refs t ob = refs ?ss ob" for ob
  proof -
    let ?v = "(?ss ! s)\<lparr>s_gen := s_gen (?ss ! d)\<rparr>"
    have "refs t ob = refs (?ss[d := ?v, s := E]) ob"
      by (rule refs_cong) (use m(3,13,14) sd sl d in \<open>auto simp: t_def nth_list_update\<close>)
    then show ?thesis
      using refs_update [of s "?ss[d := ?v]" E ob] refs_update [of d ?ss ?v ob] sl d sd E(1) by (simp add: usd_def split: if_splits)
  qed
  ultimately have "cap_ok cs' ((\<lambda>i. map (ren s d) (ch i))(d := map (ren s d) (ch s), s := [])) (rk(d := rk s))"
    using O(1,4) cdt lt by (simp add: cap_ok_def cs' slots_ok_def deriv_ok_def refs_ok_def)
  then have inv: "cap_inv cs'" by (auto simp: cap_inv_def)
  have "bare (t ! i) = bare (?ss ! i)" if "i \<noteq> d" "i \<noteq> s" for i using m(13) that by (simp add: t_def)
  then have "moved cs s d cs'"
    using s d lt lk par m(14) td sl E(2) m(3) by (auto simp: moved_def cs' t_def)
  with mv inv cs'(3) that show ?thesis by blast
qed

section \<open>Deleting a leaf\<close>

lemma delete_leaf_ok:
  fixes rf :: Finalized and al :: PhysAllocator
  assumes ok: "cap_ok cs ch rk" and s: "usd (c_slots cs) s" and leaf: "ch s = []"
  defines "ob \<equiv> s_object (c_slots cs ! s)"
  defines "rf1 \<equiv> report_debug rf (o_kind (c_objects cs ! ob)) (c_slots cs ! s)"
  obtains cs' where "delete_leaf cs al s rf =
      Some (cs', if refs (c_slots cs) ob = 1 then finalize_kind al rf1 (o_kind (c_objects cs ! ob)) else (al, rf1))"
    "cap_ok cs' (\<lambda>i. remove1 s (ch i)) rk" "length (c_slots cs') = length (c_slots cs)"
    "usd (c_slots cs') = (usd (c_slots cs))(s := False)"
    "\<And>i. i \<noteq> s \<Longrightarrow> par (c_slots cs') i = par (c_slots cs) i"
    "\<And>i. i \<noteq> s \<Longrightarrow> bare (c_slots cs' ! i) = bare (c_slots cs ! i)"
    "s_gen (c_slots cs' ! s) = s_gen (c_slots cs ! s) + 1"
    "c_objects cs' = (c_objects cs)[ob :=
       (if refs (c_slots cs) ob = 1 then Object_EMPTY\<lparr>o_gen := o_gen (c_objects cs ! ob) + 1\<rparr>
        else (c_objects cs ! ob)\<lparr>o_refcount := o_refcount (c_objects cs ! ob) - 1\<rparr>)]"
    "c_cdt_walk_overruns cs' = c_cdt_walk_overruns cs"
proof -
  let ?ss = "c_slots cs" and ?os = "c_objects cs"
  note O = cap_okD [OF ok]
  have sl: "s < length ?ss" using s by (rule usd_lt)
  have obl: "ob < length ?os" "o_used (?os ! ob)" using O(3) s by (auto simp: slots_ok_def slot_ok_def ob_def)
  have rc: "0 < refs ?ss ob" "o_refcount (?os ! ob) = of_nat (refs ?ss ob)" using O(4) obl by (auto simp: refs_ok_def)
  obtain ss1 where u: "cs_unlink cs s = Some (cs\<lparr>c_slots := ss1\<rparr>)" "length ss1 = length ?ss" "usd ss1 = usd ?ss"
    "par ss1 = (par ?ss)(s := None)" "\<And>i. bare (ss1 ! i) = bare (?ss ! i)" "cdt ss1 (\<lambda>i. remove1 s (ch i)) rk"
    by (rule cdt_unlink [OF O(2) s leaf]) blast
  define E where "E = CapSlot_EMPTY\<lparr>s_gen := s_gen (?ss ! s) + 1\<rparr>"
  have E: "\<not> s_used E" "s_gen E = s_gen (?ss ! s) + 1" by (simp_all add: E_def)
  have gs: "s_gen (ss1 ! s) = s_gen (?ss ! s)" using u(5) by (rule bare_eqD)
  define t where "t = ss1[s := E]"
  have rel: "release_slot (cs\<lparr>c_slots := ss1\<rparr>) s = Some (cs\<lparr>c_slots := t\<rparr>)"
    using sl u(2) gs by (simp add: release_slot_Some t_def E_def)
  have cdt: "cdt t (\<lambda>i. remove1 s (ch i)) rk"
    unfolding t_def by (rule cdt_release [OF u(6)]) (use s u(3,4) leaf E in simp_all)
  have lk: "usd t = (usd ?ss)(s := False)" "par t = (par ?ss)(s := m_parent (s_mdb E))"
    using links_update [of s ss1 E] sl u(2-4) E by (simp_all add: t_def)
  have bt: "bare (t ! i) = bare (?ss ! i)" if "i \<noteq> s" for i using u(5) that by (simp add: t_def)
  have rt: "refs t x + (if ob = x then 1 else 0) = refs ?ss x" for x
  proof -
    have "refs ss1 x = refs ?ss x" by (rule refs_cong) (simp_all add: u)
    then show ?thesis
      using refs_update [of s ss1 E x] sl u(2) E(1) s bare_eqD(1,3) [OF u(5), of s] by (simp add: t_def ob_def usd_def)
  qed
  define ob1 where "ob1 = (?os ! ob)\<lparr>o_refcount := o_refcount (?os ! ob) - 1\<rparr>"
  have m1: "mod_object (cs\<lparr>c_slots := t\<rparr>) ob (\<lambda>ob. ob\<lparr>o_refcount := o_refcount ob - 1\<rparr>) = Some (cs\<lparr>c_slots := t, c_objects := ?os[ob := ob1]\<rparr>)"
    using obl by (simp add: mod_object_Some lupd_def ob1_def)
  have r1: "o_refcount ob1 = of_nat (refs t ob)"
  proof -
    have e: "refs ?ss ob = Suc (refs t ob)" using rt [of ob] by simp
    show ?thesis using rc(2) unfolding e by (simp add: ob1_def)
  qed
  have z: "o_refcount ob1 = 0 \<longleftrightarrow> refs ?ss ob = 1"
    using of_nat_refs_eq_0 [of t ob] O(1) rt [of ob] r1 u(2) by (simp add: t_def) linarith
  define ob2 where "ob2 = (if refs ?ss ob = 1 then Object_EMPTY\<lparr>o_gen := o_gen (?os ! ob) + 1\<rparr> else ob1)"
  define cs' where "cs' = cs\<lparr>c_slots := t, c_objects := ?os[ob := ob2]\<rparr>"
  have del: "delete_leaf cs al s rf =
      Some (cs', if refs ?ss ob = 1 then finalize_kind al rf1 (o_kind (?os ! ob)) else (al, rf1))"
    using sl obl u(1) rel m1 z
    by (auto simp: delete_leaf_def tget_Some Let_def ob_def [symmetric] rf1_def cs'_def ob2_def mod_object_Some lupd_def ob1_def
        split: prod.splits)
  have same: "o_kind (?os[ob := ob2] ! x) = o_kind (?os ! x) \<and> o_used (?os[ob := ob2] ! x) = o_used (?os ! x)"
    if i: "usd t i" "x = s_object (t ! i)" for i x
  proof (cases "x = ob")
    case True
    have "0 < refs t x" using refs_pos [OF i(1)] i(2) by simp
    then have "refs ?ss ob \<noteq> 1" using rt [of ob] True by simp
    then show ?thesis using True obl by (simp add: ob2_def ob1_def)
  qed simp
  have C: "core (t ! i) = core (?ss ! i)" if "usd t i" for i
    using that by (intro core_bare bt) (auto simp: lk(1))
  have U: "usd ?ss i" "i \<noteq> s" if "usd t i" for i using that unfolding lk by (auto split: if_splits)
  have slots: "slots_ok t (?os[ob := ob2])"
    unfolding slots_ok_def
  proof (intro allI impI)
    fix i
    assume i: "usd t i"
    have "slot_ok ?os (t ! i)" using slot_ok_core [OF C [OF i]] O(3) U(1) [OF i] by (simp add: slots_ok_def)
    then show "slot_ok (?os[ob := ob2]) (t ! i)" using obj_same(1) [of "?os[ob := ob2]" ?os "t ! i"] same [OF i refl] by simp
  qed
  have edges: "deriv_ok t (?os[ob := ob2])"
    unfolding deriv_ok_def
  proof (intro allI impI)
    fix c p
    assume c: "usd t c" "par t c = Some p"
    then have p: "usd t p" using cdtD(9) [OF cdt] by blast
    have "par ?ss c = Some p" using c(2) U(2) [OF c(1)] by (simp add: lk(2))
    then have "edge_ok ?os (t ! c) (t ! p)"
      using edge_ok_core [OF C [OF c(1)] C [OF p]] O(5) U(1) [OF c(1)] by (simp add: deriv_ok_def)
    then show "edge_ok (?os[ob := ob2]) (t ! c) (t ! p)"
      using obj_same(2) [of "?os[ob := ob2]" ?os "t ! p"] same [OF p refl] by simp
  qed
  have "refs_ok t (?os[ob := ob2])"
    unfolding refs_ok_def
  proof (intro allI impI)
    fix x
    assume x: "x < length (?os[ob := ob2])" "o_used (?os[ob := ob2] ! x)"
    show "0 < refs t x \<and> o_refcount (?os[ob := ob2] ! x) = of_nat (refs t x)"
    proof (cases "x = ob")
      case True
      then have "ob2 = ob1" "refs ?ss ob \<noteq> 1" using x obl by (auto simp: ob2_def split: if_splits)
      then show ?thesis using True r1 rc(1) rt [of ob] obl by simp
    next
      case False
      then show ?thesis using O(4) x rt [of x] by (simp add: refs_ok_def)
    qed
  qed
  with slots edges cdt O(1) u(2) have "cap_ok cs' (\<lambda>i. remove1 s (ch i)) rk"
    by (simp add: cap_ok_def cs'_def t_def)
  then show ?thesis
    using del lk bt u(2) sl E(2) by (intro that [of cs']) (auto simp: cs'_def t_def ob2_def ob1_def)
qed


section \<open>Descendants\<close>

inductive under :: "CapSlot list \<Rightarrow> nat \<Rightarrow> nat \<Rightarrow> bool" for ss where
  under_child: "usd ss c \<Longrightarrow> par ss c = Some a \<Longrightarrow> under ss a c"
| under_step: "usd ss c \<Longrightarrow> par ss c = Some p \<Longrightarrow> under ss a p \<Longrightarrow> under ss a c"

inductive_cases under_cases: "under ss a c"

lemma under_usd: "under ss a c \<Longrightarrow> usd ss c"
  by (erule under.cases) simp_all

lemma under_rank: "under ss a c \<Longrightarrow> cdt ss ch rk \<Longrightarrow> rk a < rk c"
proof (induction rule: under.induct)
  case (under_child c a)
  then show ?case using cdtD(8,10) by blast
next
  case (under_step c p a)
  then show ?case using cdtD(8,10) by (metis order_less_trans)
qed

lemma under_finite: "finite {j. under ss a j}"
  by (rule finite_subset [of _ "{..<length ss}"]) (auto dest: under_usd usd_lt)

lemma under_card: "card {j. under ss a j} \<le> length ss"
  using card_mono [of "{..<length ss}" "{j. under ss a j}"] under_usd usd_lt by fastforce

lemma under_ch_empty: "cdt ss ch rk \<Longrightarrow> ch a = [] \<Longrightarrow> \<not> under ss a c"
proof
  assume "under ss a c" and "cdt ss ch rk" "ch a = []"
  then show False
  proof (induction rule: under.induct)
    case (under_child c a)
    then show ?case using cdtD(10) by fastforce
  qed
qed

lemma under_ch_child:
  assumes "cdt ss ch rk" "c \<in> set (ch a)"
  shows "under ss a c"
  using cdtD(5,7) [OF assms(1,2)] by (rule under_child)

lemma under_ch_trans: "under ss c d \<Longrightarrow> under ss a c \<Longrightarrow> under ss a d"
  by (induction rule: under.induct) (auto intro: under_step)

text \<open>Taking out a childless slot removes it from the descendants of everything else, and nothing more.\<close>

lemma under_delete:
  assumes c: "cdt ss ch rk" "ch s = []" and t: "usd t = (usd ss)(s := False)" "\<And>i. i \<noteq> s \<Longrightarrow> par t i = par ss i"
  shows "under t a j \<longleftrightarrow> under ss a j \<and> j \<noteq> s"
proof -
  have tD: "usd t i \<longleftrightarrow> usd ss i \<and> i \<noteq> s" "i \<noteq> s \<Longrightarrow> par t i = par ss i" for i
    using t by simp_all
  show ?thesis
  proof
    assume "under t a j"
    then show "under ss a j \<and> j \<noteq> s"
    proof (induction rule: under.induct)
      case (under_child c a)
      then show ?case using tD [of c] by (auto intro: under.under_child)
    next
      case (under_step c p a)
      then show ?case using tD [of c] under.under_step [of ss c p a] by auto
    qed
  next
    assume "under ss a j \<and> j \<noteq> s"
    then have "under ss a j" "j \<noteq> s" by simp_all
    then show "under t a j"
    proof (induction rule: under.induct)
      case (under_child c a)
      then show ?case using tD [of c] by (intro under.under_child) simp_all
    next
      case (under_step c p a)
      have "p \<noteq> s" using cdtD(10) [OF c(1) under_step(1,2)] c(2) by auto
      then show ?case using under_step tD [of c] by (intro under.under_step [of t c p a]) simp_all
    qed
  qed
qed

section \<open>Walking down to a leaf\<close>

lemma rank_card_less:
  assumes "cdt ss ch rk" "c \<in> set (ch x)"
  shows "card {j. usd ss j \<and> rk c < rk j} < card {j. usd ss j \<and> rk x < rk j}"
proof (rule psubset_card_mono)
  show "finite {j. usd ss j \<and> rk x < rk j}"
    by (rule finite_subset [of _ "{..<length ss}"]) (auto dest: usd_lt)
  show "{j. usd ss j \<and> rk c < rk j} \<subset> {j. usd ss j \<and> rk x < rk j}"
    using cdtD(5,8) [OF assms] by auto
qed

lemma descend_ok:
  assumes "cdt ss ch rk" "usd ss x" "steps + card {j. usd ss j \<and> rk x < rk j} \<le> limit"
  shows "\<exists>leaf st. descend_to_leaf ss x steps limit = Inr (leaf, st) \<and> usd ss leaf \<and> ch leaf = [] \<and>
     (leaf = x \<or> under ss x leaf) \<and> st \<le> limit"
  using assms(2,3)
proof (induction "card {j. usd ss j \<and> rk x < rk j}" arbitrary: x steps rule: less_induct)
  case less
  have f: "tget ss x = Some (ss ! x)" "m_first_child (s_mdb (ss ! x)) = hd_or (ch x) None"
    using less.prems(1) cdtD(2) [OF assms(1)] by (simp_all add: tget_Some usd_lt nth_links)
  show ?case
  proof (cases "ch x")
    case Nil
    then have "descend_to_leaf ss x steps limit = Inr (x, steps)"
      by (subst descend_to_leaf.simps) (simp add: f)
    with Nil less.prems show ?thesis by auto
  next
    case (Cons c cs)
    then have c: "c \<in> set (ch x)" by simp
    note L = rank_card_less [OF assms(1) c] and u = cdtD(5) [OF assms(1) c]
    have eq: "descend_to_leaf ss x steps limit = descend_to_leaf ss c (steps + 1) limit"
      using L less.prems(2) by (subst descend_to_leaf.simps) (simp add: f Cons)
    from less.hyps [OF L u, of "steps + 1"] L less.prems(2) obtain leaf st where
      l: "descend_to_leaf ss c (steps + 1) limit = Inr (leaf, st)" "usd ss leaf" "ch leaf = []"
        "leaf = c \<or> under ss c leaf" "st \<le> limit" by auto
    have "under ss x leaf"
      using l(4) under_ch_child [OF assms(1) c] by (auto intro: under_ch_trans)
    with l eq show ?thesis by auto
  qed
qed


section \<open>Sequences of deletions\<close>

type_synonym cap_state = "CapSpace \<times> PhysAllocator \<times> Finalized"

text \<open>
  \<open>deletes st xs st'\<close>: deleting the slots \<open>xs\<close>, each of them a leaf at its time, leads from \<open>st\<close> to \<open>st'\<close>.
  Both \<open>delete\<close> and \<open>revoke\<close> are such sequences, so what single deletions keep, they keep.
\<close>

inductive deletes :: "cap_state \<Rightarrow> nat list \<Rightarrow> cap_state \<Rightarrow> bool" where
  deletes_nil: "deletes st [] st"
| deletes_cons: "cap_ok cs ch rk \<Longrightarrow> usd (c_slots cs) s \<Longrightarrow> ch s = [] \<Longrightarrow>
    delete_leaf (note_walk cs k) al s rf = Some st1 \<Longrightarrow> deletes st1 xs st2 \<Longrightarrow> deletes (cs, al, rf) (s # xs) st2"

lemma delete_leaf_note_walk:
  assumes "cap_ok cs ch rk" "usd (c_slots cs) s" "ch s = []"
  obtains cs' where "delete_leaf (note_walk cs k) al s rf =
      Some (cs', if refs (c_slots cs) (s_object (c_slots cs ! s)) = 1
        then finalize_kind al (report_debug rf (o_kind (c_objects cs ! s_object (c_slots cs ! s))) (c_slots cs ! s)) (o_kind (c_objects cs ! s_object (c_slots cs ! s)))
        else (al, report_debug rf (o_kind (c_objects cs ! s_object (c_slots cs ! s))) (c_slots cs ! s)))"
    "cap_ok cs' (\<lambda>i. remove1 s (ch i)) rk" "length (c_slots cs') = length (c_slots cs)"
    "usd (c_slots cs') = (usd (c_slots cs))(s := False)"
    "\<And>i. i \<noteq> s \<Longrightarrow> par (c_slots cs') i = par (c_slots cs) i"
    "\<And>i. i \<noteq> s \<Longrightarrow> bare (c_slots cs' ! i) = bare (c_slots cs ! i)"
    "s_gen (c_slots cs' ! s) = s_gen (c_slots cs ! s) + 1"
    "c_objects cs' = (c_objects cs)[s_object (c_slots cs ! s) :=
       (if refs (c_slots cs) (s_object (c_slots cs ! s)) = 1 then Object_EMPTY\<lparr>o_gen := o_gen (c_objects cs ! s_object (c_slots cs ! s)) + 1\<rparr>
        else (c_objects cs ! s_object (c_slots cs ! s))\<lparr>o_refcount := o_refcount (c_objects cs ! s_object (c_slots cs ! s)) - 1\<rparr>)]"
    "c_cdt_walk_overruns cs' = c_cdt_walk_overruns cs"
  using delete_leaf_ok [of "note_walk cs k" ch rk s al rf, unfolded note_walk_sel cap_ok_note_walk, OF assms] that by blast

lemma deletes_ok:
  assumes "deletes (cs, al, rf) xs (cs', al', rf')" "cap_inv cs"
  shows "cap_inv cs' \<and> length (c_slots cs') = length (c_slots cs) \<and> distinct xs \<and>
    (\<forall>i. usd (c_slots cs') i \<longleftrightarrow> usd (c_slots cs) i \<and> i \<notin> set xs) \<and> (\<forall>i\<in>set xs. usd (c_slots cs) i) \<and>
    (\<forall>i. i \<notin> set xs \<longrightarrow> par (c_slots cs') i = par (c_slots cs) i \<and> bare (c_slots cs' ! i) = bare (c_slots cs ! i)) \<and>
    (\<forall>i\<in>set xs. s_gen (c_slots cs' ! i) = s_gen (c_slots cs ! i) + 1) \<and>
    c_cdt_walk_overruns cs' = c_cdt_walk_overruns cs \<and> length (c_objects cs') = length (c_objects cs) \<and>
    (\<forall>x<length (c_objects cs). o_used (c_objects cs' ! x) \<longrightarrow>
       o_used (c_objects cs ! x) \<and> o_kind (c_objects cs' ! x) = o_kind (c_objects cs ! x))"
  using assms
proof (induction "(cs, al, rf)" xs "(cs', al', rf')" arbitrary: cs al rf rule: deletes.induct)
  case (deletes_cons cs ch rk s k al rf st1 xs)
  from deletes_cons(1-3) obtain cs1 where d:
    "\<exists>x. delete_leaf (note_walk cs k) al s rf = Some (cs1, x)"
    "cap_ok cs1 (\<lambda>i. remove1 s (ch i)) rk" "length (c_slots cs1) = length (c_slots cs)"
    "usd (c_slots cs1) = (usd (c_slots cs))(s := False)"
    "\<And>i. i \<noteq> s \<Longrightarrow> par (c_slots cs1) i = par (c_slots cs) i"
    "\<And>i. i \<noteq> s \<Longrightarrow> bare (c_slots cs1 ! i) = bare (c_slots cs ! i)"
    "s_gen (c_slots cs1 ! s) = s_gen (c_slots cs ! s) + 1"
    "c_cdt_walk_overruns cs1 = c_cdt_walk_overruns cs"
    "\<exists>v. c_objects cs1 = (c_objects cs)[s_object (c_slots cs ! s) := v] \<and>
       (o_used v \<longrightarrow> o_kind v = o_kind (c_objects cs ! s_object (c_slots cs ! s)))"
    by (rule delete_leaf_note_walk [of cs ch rk s k al rf]) (force split: if_splits)
  have "o_used (c_objects cs ! s_object (c_slots cs ! s))" "s_object (c_slots cs ! s) < length (c_objects cs)"
    using cap_okD(3) [OF deletes_cons(1)] deletes_cons(2) by (auto simp: slots_ok_def slot_ok_def)
  then have os: "length (c_objects cs1) = length (c_objects cs)"
    "x < length (c_objects cs) \<Longrightarrow> o_used (c_objects cs1 ! x) \<Longrightarrow>
       o_used (c_objects cs ! x) \<and> o_kind (c_objects cs1 ! x) = o_kind (c_objects cs ! x)" for x
    using d(9) by (auto simp: nth_list_update split: if_splits)
  from d(1) deletes_cons(4) obtain al1 rf1 where st1: "st1 = (cs1, al1, rf1)" by (cases st1) auto
  note IH = deletes_cons(6) [OF st1]
  have "cap_inv cs1" using d(2) by (auto simp: cap_inv_def)
  note I = IH [OF this]
  have us: "usd (c_slots cs1) i \<longleftrightarrow> usd (c_slots cs) i \<and> i \<noteq> s" for i using d(4) by simp
  have sx: "s \<notin> set xs" using I us by blast
  have "s_gen (c_slots cs' ! i) = s_gen (c_slots cs ! i) + 1" if "i \<in> set (s # xs)" for i
  proof (cases "i = s")
    case True
    then have "bare (c_slots cs' ! i) = bare (c_slots cs1 ! i)" using I sx by blast
    then show ?thesis using True d(7) bare_eqD(2) by metis
  next
    case False
    then have "s_gen (c_slots cs' ! i) = s_gen (c_slots cs1 ! i) + 1" using that I by simp
    then show ?thesis using bare_eqD(2) [OF d(6) [OF False]] by simp
  qed
  moreover have "par (c_slots cs') i = par (c_slots cs) i \<and> bare (c_slots cs' ! i) = bare (c_slots cs ! i)" if "i \<notin> set (s # xs)" for i
    using that I d(5,6) [of i] by simp
  moreover have "o_used (c_objects cs ! x) \<and> o_kind (c_objects cs' ! x) = o_kind (c_objects cs ! x)"
    if "x < length (c_objects cs)" "o_used (c_objects cs' ! x)" for x using that I os(1) os(2) [of x] by simp
  ultimately show ?case using I sx us d(3,8) os(1) deletes_cons(2) by auto
qed auto

lemma revoke_loop_deletes:
  assumes "cap_ok cs ch rk" "usd (c_slots cs) slot" "ops + card {j. under (c_slots cs) slot j} \<le> limit"
    "length (c_slots cs) \<le> limit"
  shows "\<exists>cs' al' rf' xs. revoke_loop cs al rf slot limit ops = Some (cs', al', rf', ops + length xs) \<and>
    deletes (cs, al, rf) xs (cs', al', rf') \<and> set xs = {j. under (c_slots cs) slot j}"
  using assms
proof (induction "card {j. under (c_slots cs) slot j}" arbitrary: cs ch al rf ops)
  case (0 cs ch al rf ops)
  note D = cap_okD(2) [OF 0(2)]
  have e: "{j. under (c_slots cs) slot j} = {}" using 0(1) under_finite by (metis card_0_eq)
  have "ch slot = []" using under_ch_child [OF D, of _ slot] e by (cases "ch slot") fastforce+
  then have "m_first_child (s_mdb (c_slots cs ! slot)) = None" using cdtD(2) [OF D 0(3)] by (simp add: nth_links)
  then have "revoke_loop cs al rf slot limit ops = Some (cs, al, rf, ops)"
    using 0(3) by (subst revoke_loop.simps) (simp add: tget_Some usd_lt)
  with e show ?case by (intro exI [of _ cs] exI [of _ al] exI [of _ rf] exI [of _ "[]"]) (auto intro: deletes_nil)
next
  case (Suc n cs ch al rf ops)
  let ?ss = "c_slots cs"
  note D = cap_okD(2) [OF Suc(3)]
  have "{j. under ?ss slot j} \<noteq> {}" using Suc(2) by (metis card.empty nat.distinct(1))
  then have "ch slot \<noteq> []" using under_ch_empty [OF D, of slot] by blast
  then obtain c r where c: "ch slot = c # r" by (cases "ch slot") auto
  then have cm: "c \<in> set (ch slot)" by simp
  have f: "m_first_child (s_mdb (?ss ! slot)) = Some c" using cdtD(2) [OF D Suc(4)] c by (simp add: nth_links)
  have "card {j. usd ?ss j \<and> rk c < rk j} \<le> card {..<length ?ss}" by (rule card_mono) (auto dest: usd_lt)
  then obtain leaf st where l: "descend_to_leaf ?ss c 0 limit = Inr (leaf, st)" "usd ?ss leaf" "ch leaf = []"
    "leaf = c \<or> under ?ss c leaf"
    using descend_ok [OF D cdtD(5) [OF D cm], of 0 limit] Suc(6) by auto
  have ul: "under ?ss slot leaf" using l(4) under_ch_child [OF D cm] by (auto intro: under_ch_trans)
  then have ls: "leaf \<noteq> slot" using under_rank [OF _ D] by blast
  obtain cs1 al1 rf1 where d: "delete_leaf (note_walk cs st) al leaf rf = Some (cs1, al1, rf1)"
    "cap_ok cs1 (\<lambda>i. remove1 leaf (ch i)) rk" "length (c_slots cs1) = length ?ss"
    "usd (c_slots cs1) = (usd ?ss)(leaf := False)" "\<And>i. i \<noteq> leaf \<Longrightarrow> par (c_slots cs1) i = par ?ss i"
    by (rule delete_leaf_note_walk [OF Suc(3) l(2,3), of st al rf]) (metis surj_pair)
  have u1: "{j. under (c_slots cs1) slot j} = {j. under ?ss slot j} - {leaf}"
    using under_delete [OF D l(3) d(4,5)] by auto
  then have n: "n = card {j. under (c_slots cs1) slot j}"
    using Suc(2) ul under_finite by (simp add: card_Diff_singleton)
  have "usd (c_slots cs1) slot" using d(4) ls Suc(4) by simp
  moreover have "ops + 1 + card {j. under (c_slots cs1) slot j} \<le> limit" using Suc(2,5) n by simp
  ultimately obtain cs' al' rf' xs where r: "revoke_loop cs1 al1 rf1 slot limit (ops + 1) = Some (cs', al', rf', ops + 1 + length xs)"
    "deletes (cs1, al1, rf1) xs (cs', al', rf')" "set xs = {j. under (c_slots cs1) slot j}"
    using Suc(1) [OF n d(2)] Suc(6) d(3) by metis
  have "revoke_loop cs al rf slot limit ops = Some (cs', al', rf', ops + length (leaf # xs))"
    using Suc(4) f l(1) d(1) r(1) Suc(2,5) by (subst revoke_loop.simps) (simp add: tget_Some usd_lt)
  moreover have "deletes (cs, al, rf) (leaf # xs) (cs', al', rf')"
    by (rule deletes_cons [OF Suc(3) l(2,3) d(1) r(2)])
  moreover have "set (leaf # xs) = {j. under ?ss slot j}" using r(3) u1 ul by auto
  ultimately show ?case by blast
qed


section \<open>Delete and revoke\<close>

lemma cap_inv_same: "c_slots cs' = c_slots cs \<Longrightarrow> c_objects cs' = c_objects cs \<Longrightarrow> cap_inv cs' = cap_inv cs"
  by (simp add: cap_inv_def cap_ok_def)

lemma delete_cases:
  assumes "cap_inv cs"
  obtains (invalid) "cs_delete cs al p rf = Some ((cs, al, rf), Inl Invalid)" "cs_resolve cs p = Inl Invalid"
  | (children) c where "cs_delete cs al p rf = Some ((cs, al, rf), Inl HasChildren)" "cs_resolve cs p = Inr (p_slot p)"
      "under (c_slots cs) (p_slot p) c"
  | (ok) cs' al' rf' where "cs_delete cs al p rf = Some ((cs', al', rf'), Inr ())" "cs_resolve cs p = Inr (p_slot p)"
      "deletes (cs, al, rf) [p_slot p] (cs', al', rf')" "\<And>c. \<not> under (c_slots cs) (p_slot p) c"
proof (cases "cs_resolve cs p")
  case (Inl e)
  then show ?thesis using resolve_Inl [OF Inl] by (intro invalid) (simp_all add: cs_delete_def)
next
  case (Inr s)
  then have s: "s = p_slot p" "usd (c_slots cs) s" using resolve_Inr [OF Inr] by blast+
  from assms obtain ch rk where ok: "cap_ok cs ch rk" by (auto simp: cap_inv_def)
  note D = cap_okD(2) [OF ok]
  have f: "tget (c_slots cs) s = Some (c_slots cs ! s)" "m_first_child (s_mdb (c_slots cs ! s)) = hd_or (ch s) None"
    using s cdtD(2) [OF D s(2)] by (simp_all add: tget_Some usd_lt nth_links)
  show ?thesis
  proof (cases "ch s")
    case Nil
    obtain cs' al' rf' where d: "delete_leaf (note_walk cs 0) al s rf = Some (cs', al', rf')"
      by (rule delete_leaf_note_walk [OF ok s(2) Nil, of 0 al rf]) (metis surj_pair)
    have "note_walk cs 0 = cs" by (simp add: note_walk_def)
    then have "cs_delete cs al p rf = Some ((cs', al', rf'), Inr ())"
      using Inr f Nil d by (simp add: cs_delete_def)
    moreover have "deletes (cs, al, rf) [s] (cs', al', rf')" by (rule deletes_cons [OF ok s(2) Nil d deletes_nil])
    ultimately show ?thesis using Inr s(1) under_ch_empty [OF D Nil] by (intro that(3)) simp_all
  next
    case (Cons c cs')
    then have "under (c_slots cs) s c" using under_ch_child [OF D, of c s] by simp
    then show ?thesis using Inr f Cons s by (intro that(2) [of c]) (simp_all add: cs_delete_def)
  qed
qed

lemma revoke_cases:
  assumes "cap_inv cs"
  obtains (invalid) "cs_revoke cs al p rf = Some ((cs, al, rf), Inl Invalid)" "cs_resolve cs p = Inl Invalid"
  | (ok) cs' al' rf' cs1 xs where "cs_revoke cs al p rf = Some ((cs', al', rf'), Inr ())" "cs_resolve cs p = Inr (p_slot p)"
      "deletes (cs, al, rf) xs (cs1, al', rf')" "set xs = {j. under (c_slots cs) (p_slot p) j}"
      "c_slots cs' = c_slots cs1" "c_objects cs' = c_objects cs1" "c_cdt_walk_overruns cs' = c_cdt_walk_overruns cs1"
proof (cases "cs_resolve cs p")
  case (Inl e)
  then show ?thesis using resolve_Inl [OF Inl] by (intro invalid) (simp_all add: cs_revoke_def)
next
  case (Inr s)
  then have s: "s = p_slot p" "usd (c_slots cs) s" using resolve_Inr [OF Inr] by blast+
  from assms obtain ch rk where ok: "cap_ok cs ch rk" by (auto simp: cap_inv_def)
  obtain cs1 al' rf' xs where l: "revoke_loop cs al rf s (cdt_step_limit cs) 0 = Some (cs1, al', rf', 0 + length xs)"
    "deletes (cs, al, rf) xs (cs1, al', rf')" "set xs = {j. under (c_slots cs) s j}"
    using revoke_loop_deletes [OF ok s(2), of 0 "cdt_step_limit cs" al rf] under_card [of "c_slots cs" s]
    by (auto simp: cdt_step_limit_def)
  show ?thesis
    by (rule that(2) [of "if length xs > c_peak_revoke_ops cs1 then cs1\<lparr>c_peak_revoke_ops := length xs\<rparr> else cs1" al' rf' xs cs1])
      (use Inr l s in \<open>simp_all add: cs_revoke_def\<close>)
qed

end
