(* ===== verification/CapSystem.thy ===== *)
theory CapSystem
  imports CapRevoke PhysAlloc_Props
begin

text \<open>
  The capability space together with the memory allocator, as the kernel drives them: a step is one
  call of the interface. The system invariant adds to \<open>cap_inv\<close> and \<open>pa_inv\<close> that the regions of the
  live memory objects are disjoint from each other and from free memory.
\<close>

section \<open>Counting overruns\<close>

text \<open>Only an overrun walk touches the overrun counter; deriving and installing do not walk.\<close>

lemma alloc_slot_overruns: "c_cdt_walk_overruns (fst (alloc_slot cs ob r b)) = c_cdt_walk_overruns cs"
  by (simp add: alloc_slot_def Let_def split: sum.splits)

lemma alloc_object_overruns: "c_cdt_walk_overruns (fst (alloc_object cs k)) = c_cdt_walk_overruns cs"
  by (simp add: alloc_object_def alloc_object_inner_def Let_def split: option.splits)

lemma mod_overruns:
  "mod_slot cs i f = Some cs' \<Longrightarrow> c_cdt_walk_overruns cs' = c_cdt_walk_overruns cs"
  "mod_object cs i g = Some cs' \<Longrightarrow> c_cdt_walk_overruns cs' = c_cdt_walk_overruns cs"
  "link_child cs i j = Some cs' \<Longrightarrow> c_cdt_walk_overruns cs' = c_cdt_walk_overruns cs"
  by (auto simp: mod_slot_def mod_object_def link_child_def)

lemma derive_cap_overruns:
  assumes "derive_cap cs s ob r b w = Some (cs', res)"
  shows "c_cdt_walk_overruns cs' = c_cdt_walk_overruns cs"
  using assms alloc_slot_overruns [of cs ob r b]
  by (auto simp: derive_cap_def bind_eq_Some_conv split: prod.splits sum.splits dest!: mod_overruns)

lemma copy_overruns: "cs_copy cs p r = Some (cs', res) \<Longrightarrow> c_cdt_walk_overruns cs' = c_cdt_walk_overruns cs"
  by (auto simp: cs_copy_def bind_eq_Some_conv split: sum.splits dest: derive_cap_overruns)

lemma mint_overruns:
  assumes "cs_mint cs p r b = Some (cs', res)"
  shows "c_cdt_walk_overruns cs' = c_cdt_walk_overruns cs"
proof -
  from assms obtain cs1 x where c: "cs_copy cs p r = Some (cs1, x)" by (auto simp: cs_mint_def bind_eq_Some_conv)
  from copy_overruns [OF c] c assms show ?thesis
    by (cases x) (auto simp: cs_mint_def bind_eq_Some_conv dest!: mod_overruns)
qed

lemma subregion_overruns:
  assumes "cs_subregion cs p off l r = Some (cs', res)"
  shows "c_cdt_walk_overruns cs' = c_cdt_walk_overruns cs"
proof (cases "cs' = cs")
  case False
  with assms obtain s ob r' b w where "derive_cap cs s ob r' b w = Some (cs', res)"
    by (auto simp: cs_subregion_def Let_def split: sum.split_asm Option.bind_split_asm ObjectKind.split_asm)
  then show ?thesis by (rule derive_cap_overruns)
qed simp

lemma install_overruns:
  assumes "cs_install cs k r = Some (cs', res)"
  shows "c_cdt_walk_overruns cs' = c_cdt_walk_overruns cs"
proof -
  obtain cs1 x where 1: "alloc_object cs k = (cs1, x)" by (cases "alloc_object cs k")
  obtain cs2 y where 2: "alloc_slot cs1 (projr x) r 0 = (cs2, y)" by (cases "alloc_slot cs1 (projr x) r 0")
  have "c_cdt_walk_overruns cs1 = c_cdt_walk_overruns cs" "c_cdt_walk_overruns cs2 = c_cdt_walk_overruns cs1"
    using alloc_object_overruns [of cs k] alloc_slot_overruns [of cs1 "projr x" r 0] 1 2 by simp_all
  then show ?thesis
    using assms 1 2 by (auto simp: cs_install_def bind_eq_Some_conv split: sum.splits dest!: mod_overruns)
qed

lemma move_cases:
  assumes "cap_inv cs"
  obtains (refused) e where "cs_move_cap cs p = Some (cs, Inl e)"
  | (ok) cs' d where "cs_move_cap cs p = Some (cs', Inr \<lparr>p_slot = d, p_gen = s_gen (c_slots cs ! d)\<rparr>)" "cap_inv cs'"
      "cs_resolve cs p = Inr (p_slot p)" "moved cs (p_slot p) d cs'" "c_cdt_walk_overruns cs' = c_cdt_walk_overruns cs"
proof (cases "cs_resolve cs p")
  case (Inl e)
  then show ?thesis by (intro refused [of e]) (simp add: cs_move_cap_def)
next
  case (Inr s)
  then have s: "s = p_slot p" "usd (c_slots cs) s" using resolve_Inr [OF Inr] by blast+
  from assms obtain ch rk where ok: "cap_ok cs ch rk" by (auto simp: cap_inv_def)
  show ?thesis
  proof (cases rule: free_slot_index_cases [of cs])
    case full
    then show ?thesis using Inr by (intro refused [of NoSlot]) (simp add: cs_move_cap_def)
  next
    case (free d)
    obtain cs' where "cs_move_cap cs p = Some (cs', Inr \<lparr>p_slot = d, p_gen = s_gen (c_slots cs ! d)\<rparr>)"
      "cap_inv cs'" "moved cs s d cs'" "c_cdt_walk_overruns cs' = c_cdt_walk_overruns cs"
      by (rule move_ok [OF ok s(2) free(2,3) Inr free(1)])
    then show ?thesis using Inr s by (intro that(2) [of cs' d]) simp_all
  qed
qed

section \<open>The system\<close>

type_synonym sys_state = "CapSpace \<times> PhysAllocator"

text \<open>The memory objects that are alive, with their regions.\<close>

definition mem_obj :: "Object list \<Rightarrow> nat \<Rightarrow> PhysRegion \<Rightarrow> bool" where
  "mem_obj os x r \<longleftrightarrow> x < length os \<and> o_used (os ! x) \<and> o_kind (os ! x) = Memory r"

definition mem_ok :: "Object list \<Rightarrow> PhysAllocator \<Rightarrow> bool" where
  "mem_ok os al \<longleftrightarrow> pa_inv al \<and>
     (\<forall>x r. mem_obj os x r \<longrightarrow> region_ok r \<and> addrs r \<inter> free_set (pa_view al) = {}) \<and>
     (\<forall>x y r r'. mem_obj os x r \<longrightarrow> mem_obj os y r' \<longrightarrow> x \<noteq> y \<longrightarrow> addrs r \<inter> addrs r' = {})"

definition sys_inv :: "sys_state \<Rightarrow> bool" where
  "sys_inv st \<longleftrightarrow> cap_inv (fst st) \<and> c_cdt_walk_overruns (fst st) = 0 \<and> mem_ok (c_objects (fst st)) (snd st)"

definition sys_init :: "sys_state \<Rightarrow> bool" where
  "sys_init st \<longleftrightarrow> (\<exists>ss os. cs_attach CapSpace_new ss os = Some (fst st) \<and> length ss < 2 ^ 32 \<and>
     (\<forall>s\<in>set ss. \<not> s_used s) \<and> (\<forall>ob\<in>set os. \<not> o_used ob)) \<and> snd st = PhysAllocator_new"

definition is_mem :: "ObjectKind \<Rightarrow> bool" where
  "is_mem k \<longleftrightarrow> (case k of Memory _ \<Rightarrow> True | _ \<Rightarrow> False)"

inductive sys_step :: "sys_state \<Rightarrow> sys_state \<Rightarrow> bool" where
  sy_add: "add_region al b l = (al', ok) \<Longrightarrow> region_ok (PhysRegion_new b l) \<Longrightarrow>
     addrs (PhysRegion_new b l) \<inter> free_set (pa_view al) = {} \<Longrightarrow>
     (\<forall>x r. mem_obj (c_objects cs) x r \<longrightarrow> addrs (PhysRegion_new b l) \<inter> addrs r = {}) \<Longrightarrow>
     sys_step (cs, al) (cs, al')"
| sy_alloc: "alloc_in al sz a lo hi = (al', Some c) \<Longrightarrow> install_memory cs (MemoryCap_restrict c rs) = Some (cs', Inr p) \<Longrightarrow>
     sys_step (cs, al) (cs', al')"
| sy_alloc_fail: "alloc_in al sz a lo hi = (al', Some c) \<Longrightarrow> install_memory cs (MemoryCap_restrict c rs) = Some (cs', Inl e) \<Longrightarrow>
     pa_free al' c = (al'', ok) \<Longrightarrow> sys_step (cs, al) (cs', al'')"
| sy_install: "\<not> is_mem k \<Longrightarrow> cs_install cs k r = Some (cs', res) \<Longrightarrow> sys_step (cs, al) (cs', al)"
| sy_copy: "cs_copy cs p r = Some (cs', res) \<Longrightarrow> sys_step (cs, al) (cs', al)"
| sy_mint: "cs_mint cs p r b = Some (cs', res) \<Longrightarrow> sys_step (cs, al) (cs', al)"
| sy_subregion: "cs_subregion cs p off l r = Some (cs', res) \<Longrightarrow> sys_step (cs, al) (cs', al)"
| sy_move: "cs_move_cap cs p = Some (cs', res) \<Longrightarrow> sys_step (cs, al) (cs', al)"
| sy_delete: "cs_delete cs al p rf = Some ((cs', al', rf'), res) \<Longrightarrow> sys_step (cs, al) (cs', al')"
| sy_revoke: "cs_revoke cs al p rf = Some ((cs', al', rf'), res) \<Longrightarrow> sys_step (cs, al) (cs', al')"

section \<open>What the operations keep of memory\<close>

lemma mem_ok_cong:
  assumes "mem_ok os al" "\<And>x r. mem_obj os' x r \<Longrightarrow> mem_obj os x r"
  shows "mem_ok os' al"
  using assms unfolding mem_ok_def by blast

lemma mem_obj_lupd:
  assumes "\<And>ob. o_used (f ob) = o_used ob" "\<And>ob. o_kind (f ob) = o_kind ob"
  shows "mem_obj (lupd os i f) x r = mem_obj os x r"
  using assms by (cases "i < length os") (auto simp: mem_obj_def nth_lupd, auto simp: lupd_def)

lemma derived_mem: "derived cs s r b w cs' p \<Longrightarrow> mem_obj (c_objects cs') x q = mem_obj (c_objects cs) x q"
  by (auto simp: derived_def Let_def mem_obj_lupd)

lemma mem_ok_install:
  assumes "mem_ok os al" "ob < length os" "\<not> o_used (os ! ob)" "\<not> is_mem k"
  shows "mem_ok (os[ob := \<lparr>o_used = True, o_kind = k, o_refcount = 1, o_gen = g\<rparr>]) al"
  by (rule mem_ok_cong [OF assms(1)]) (use assms(2-4) in \<open>auto simp: mem_obj_def nth_list_update is_mem_def split: if_splits\<close>)

lemma mem_ok_new:
  assumes "mem_ok os al" "ob < length os" "\<not> o_used (os ! ob)" "alloc_in al sz a lo hi = (al', Some c)"
  shows "mem_ok (os[ob := \<lparr>o_used = True, o_kind = Memory (mc_region c), o_refcount = 1, o_gen = g\<rparr>]) al'"
    (is "mem_ok ?os al'")
proof -
  have al: "pa_inv al" using assms(1) by (simp add: mem_ok_def)
  note A = alloc_in_core [OF al assms(4)]
  have m: "mem_obj ?os x r \<longleftrightarrow> (if x = ob then r = mc_region c else mem_obj os x r)" for x r
    using assms(2,3) by (auto simp: mem_obj_def nth_list_update)
  have d: "addrs r \<inter> addrs (mc_region c) = {}" if "mem_obj os x r" for x r
    using assms(1) that A unfolding mem_ok_def by blast
  show ?thesis
    unfolding mem_ok_def m
  proof (intro conjI allI impI)
    show "pa_inv al'" using A by simp
  next
    fix x r
    assume "if x = ob then r = mc_region c else mem_obj os x r"
    then show "region_ok r" "addrs r \<inter> free_set (pa_view al') = {}"
      using A assms(1) unfolding mem_ok_def by (auto split: if_splits)
  next
    fix x y r r'
    assume "if x = ob then r = mc_region c else mem_obj os x r" "if y = ob then r' = mc_region c else mem_obj os y r'" "x \<noteq> y"
    then show "addrs r \<inter> addrs r' = {}"
      using assms(1) d unfolding mem_ok_def by (auto split: if_splits)
  qed
qed

lemma free_region_mem:
  assumes "mem_ok os al" "mem_obj os x r" "\<And>y q. mem_obj os' y q \<Longrightarrow> mem_obj os y q \<and> y \<noteq> x"
  shows "mem_ok os' (fst (free_region al r))"
proof -
  have r: "pa_inv al" "region_ok r" "addrs r \<inter> free_set (pa_view al) = {}"
    using assms(1,2) unfolding mem_ok_def by blast+
  note F = insert_free_set [OF r]
  show ?thesis
    unfolding mem_ok_def free_region_def
  proof (intro conjI allI impI)
    show "pa_inv (fst (pa_insert al r))" by (fact F(1))
  next
    fix y q
    assume "mem_obj os' y q"
    then have y: "mem_obj os y q" "y \<noteq> x" using assms(3) by blast+
    then show "region_ok q" using assms(1) unfolding mem_ok_def by blast
    have "addrs q \<inter> free_set (pa_view al) = {}" "addrs q \<inter> addrs r = {}" using y assms(1,2) unfolding mem_ok_def by blast+
    with F(2) show "addrs q \<inter> free_set (pa_view (fst (pa_insert al r))) = {}" by blast
  next
    fix y z q q'
    assume "mem_obj os' y q" "mem_obj os' z q'" "y \<noteq> z"
    with assms(3) have "mem_obj os y q" "mem_obj os z q'" "y \<noteq> z" by blast+
    with assms(1) show "addrs q \<inter> addrs q' = {}" unfolding mem_ok_def by blast
  qed
qed

lemma delete_leaf_mem:
  assumes "mem_ok os al" "ob < length os" "o_used (os ! ob)"
    "os' = os[ob := (if fin then Object_EMPTY\<lparr>o_gen := g\<rparr> else (os ! ob)\<lparr>o_refcount := n\<rparr>)]"
  shows "mem_ok os' (if fin then fst (finalize_kind al rf (o_kind (os ! ob))) else al)"
proof (cases "fin \<and> is_mem (o_kind (os ! ob))")
  case True
  then obtain r where r: "o_kind (os ! ob) = Memory r" by (auto simp: is_mem_def split: ObjectKind.splits)
  have "mem_ok os' (fst (free_region al r))"
    by (rule free_region_mem [OF assms(1), of ob])
      (use assms(2-4) True r in \<open>auto simp: mem_obj_def nth_list_update split: if_splits\<close>)
  then show ?thesis using True r by (simp add: finalize_kind_def)
next
  case False
  have "mem_ok os' al"
    by (rule mem_ok_cong [OF assms(1)]) (use assms(2-4) in \<open>auto simp: mem_obj_def nth_list_update split: if_splits\<close>)
  then show ?thesis using False by (auto simp: finalize_kind_def is_mem_def split: ObjectKind.splits)
qed

lemma deletes_mem:
  assumes "deletes (cs, al, rf) xs (cs', al', rf')" "mem_ok (c_objects cs) al"
  shows "mem_ok (c_objects cs') al'"
  using assms
proof (induction "(cs, al, rf)" xs "(cs', al', rf')" arbitrary: cs al rf rule: deletes.induct)
  case (deletes_cons cs ch rk s k al rf st1 xs)
  let ?ob = "s_object (c_slots cs ! s)"
  have ob: "?ob < length (c_objects cs)" "o_used (c_objects cs ! ?ob)"
    using cap_okD(3) [OF deletes_cons(1)] deletes_cons(2) by (auto simp: slots_ok_def slot_ok_def)
  obtain cs1 al1 rf1 where st1: "st1 = (cs1, al1, rf1)" by (cases st1)
  let ?rf0 = "report_debug rf (o_kind (c_objects cs ! ?ob)) (c_slots cs ! s)"
  obtain cs2 where d: "delete_leaf (note_walk cs k) al s rf = Some (cs2, if refs (c_slots cs) ?ob = 1
      then finalize_kind al ?rf0 (o_kind (c_objects cs ! ?ob)) else (al, ?rf0))"
    "c_objects cs2 = (c_objects cs)[?ob := (if refs (c_slots cs) ?ob = 1 then Object_EMPTY\<lparr>o_gen := o_gen (c_objects cs ! ?ob) + 1\<rparr>
        else (c_objects cs ! ?ob)\<lparr>o_refcount := o_refcount (c_objects cs ! ?ob) - 1\<rparr>)]"
    by (rule delete_leaf_note_walk [OF deletes_cons(1-3), of k al rf])
  have e: "cs2 = cs1" "al1 = (if refs (c_slots cs) ?ob = 1 then fst (finalize_kind al ?rf0 (o_kind (c_objects cs ! ?ob))) else al)"
    using d(1) deletes_cons(4) st1 by (auto split: if_splits) (metis fst_conv)
  show ?case
    by (rule deletes_cons(6) [OF st1]) (use delete_leaf_mem [OF deletes_cons(7) ob d(2)] in \<open>simp add: e\<close>)
qed simp


section \<open>The invariant of the system\<close>

lemma cap_inv_empty:
  assumes "\<And>s. s \<in> set (c_slots cs) \<Longrightarrow> \<not> s_used s" "\<And>ob. ob \<in> set (c_objects cs) \<Longrightarrow> \<not> o_used ob" "length (c_slots cs) < 2 ^ 32"
  shows "cap_inv cs"
proof -
  have u: "\<not> usd (c_slots cs) i" for i using assms(1) by (auto simp: usd_def)
  have o: "\<not> o_used (c_objects cs ! x)" if "x < length (c_objects cs)" for x using that assms(2) by simp
  have "cdt (c_slots cs) (\<lambda>_. []) (\<lambda>_. 0)" using u by (simp add: cdt_def)
  then have "cap_ok cs (\<lambda>_. []) (\<lambda>_. 0)"
    using u o assms(3) by (simp add: cap_ok_def slots_ok_def refs_ok_def deriv_ok_def)
  then show ?thesis by (auto simp: cap_inv_def)
qed

lemma sys_init_inv: "sys_init st \<Longrightarrow> sys_inv st"
proof -
  assume "sys_init st"
  then obtain ss os where st: "cs_attach CapSpace_new ss os = Some (fst st)" "length ss < 2 ^ 32"
    "\<forall>s\<in>set ss. \<not> s_used s" "\<forall>ob\<in>set os. \<not> o_used ob" "snd st = PhysAllocator_new" by (auto simp: sys_init_def)
  from st(1) have "fst st = CapSpace_new\<lparr>c_slots := ss, c_objects := os\<rparr>" by (simp add: cs_attach_def split: if_splits)
  then have cs: "c_slots (fst st) = ss" "c_objects (fst st) = os" "c_cdt_walk_overruns (fst st) = 0"
    by (simp_all add: CapSpace_new_def)
  have "cap_inv (fst st)" by (rule cap_inv_empty) (use cs st in auto)
  moreover have "\<not> mem_obj os x r" for x r using st(4) by (auto simp: mem_obj_def)
  ultimately show ?thesis using cs st(5) by (simp add: sys_inv_def mem_ok_def pa_inv_new)
qed

lemma install_mem_obj:
  assumes "cap_inv cs" "cs_install cs k r = Some (cs', Inl e)"
  shows "cap_inv cs'" "mem_obj (c_objects cs') x q = mem_obj (c_objects cs) x q"
proof -
  show "cap_inv cs'" using install_cases [OF assms(1), of k r] assms(2) by (metis Inl_Inr_False option.inject prod.inject)
  show "mem_obj (c_objects cs') x q = mem_obj (c_objects cs) x q"
  proof (cases rule: install_cases [OF assms(1), of k r])
    case (1 cs1 e1)
    then have "cs1 = cs'" using assms(2) by simp
    with 1 have m: "map (\<lambda>ob. (o_used ob, if o_used ob then o_kind ob else k)) (c_objects cs') =
       map (\<lambda>ob. (o_used ob, if o_used ob then o_kind ob else k)) (c_objects cs)" by simp
    then have l: "length (c_objects cs') = length (c_objects cs)" by (rule map_eq_imp_length_eq)
    show ?thesis
    proof (cases "x < length (c_objects cs)")
      case True
      with arg_cong [OF m, of "\<lambda>xs. xs ! x"] l show ?thesis by (auto simp: mem_obj_def split: if_splits)
    qed (simp add: mem_obj_def l)
  qed (use assms(2) in simp)
qed

text \<open>One lemma per kind of step.\<close>

lemma sys_inv_add:
  assumes "sys_inv (cs, al)" "add_region al b l = (al', ok)" "region_ok (PhysRegion_new b l)"
    "addrs (PhysRegion_new b l) \<inter> free_set (pa_view al) = {}"
    "\<forall>x r. mem_obj (c_objects cs) x r \<longrightarrow> addrs (PhysRegion_new b l) \<inter> addrs r = {}"
  shows "sys_inv (cs, al')"
proof -
  have al: "pa_inv al" and m: "mem_ok (c_objects cs) al" using assms(1) by (simp_all add: sys_inv_def mem_ok_def)
  have "al' = fst (pa_insert al (PhysRegion_new b l))" using assms(2) by (simp add: add_region_def)
  with insert_free_set [OF al assms(3,4)] assms(5) m have "mem_ok (c_objects cs) al'"
    unfolding mem_ok_def by blast
  with assms(1) show ?thesis by (simp add: sys_inv_def)
qed

lemma sys_inv_alloc:
  assumes "sys_inv (cs, al)" "alloc_in al sz a lo hi = (al', Some c)" "install_memory cs (MemoryCap_restrict c rs) = Some (cs', Inr p)"
  shows "sys_inv (cs', al')"
proof -
  have I: "cap_inv cs" "c_cdt_walk_overruns cs = 0" "mem_ok (c_objects cs) al" using assms(1) by (simp_all add: sys_inv_def)
  have i: "cs_install cs (Memory (mc_region c)) (mc_rights (MemoryCap_restrict c rs)) = Some (cs', Inr p)"
    using assms(3) by (simp add: install_memory_def)
  show ?thesis
  proof (cases rule: install_cases [OF I(1), of "Memory (mc_region c)" "mc_rights (MemoryCap_restrict c rs)"])
    case (2 cs1 d ob)
    then have "cs1 = cs'" using i by simp
    with 2 mem_ok_new [OF I(3) 2(5,6) assms(2)] install_overruns [OF i] I(2)
    show ?thesis by (simp add: sys_inv_def)
  qed (use i in simp)
qed

lemma sys_inv_alloc_fail:
  assumes "sys_inv (cs, al)" "alloc_in al sz a lo hi = (al', Some c)" "install_memory cs (MemoryCap_restrict c rs) = Some (cs', Inl e)"
    "pa_free al' c = (al'', ok)"
  shows "sys_inv (cs', al'')"
proof -
  have I: "cap_inv cs" "c_cdt_walk_overruns cs = 0" "mem_ok (c_objects cs) al" using assms(1) by (simp_all add: sys_inv_def)
  have i: "cs_install cs (Memory (mc_region c)) (mc_rights (MemoryCap_restrict c rs)) = Some (cs', Inl e)"
    using assms(3) by (simp add: install_memory_def)
  have al: "pa_inv al" using I(3) by (simp add: mem_ok_def)
  note A = alloc_in_core [OF al assms(2)]
  have "al'' = fst (pa_insert al' (mc_region c))" using assms(4) by (simp add: pa_free_def)
  moreover have "pa_inv al'" "region_ok (mc_region c)" "addrs (mc_region c) \<inter> free_set (pa_view al') = {}" using A by auto
  note insert_free_set [OF this]
  ultimately have "pa_inv al''" "free_set (pa_view al'') \<subseteq> free_set (pa_view al)" using A by auto
  then have "mem_ok (c_objects cs') al''"
    using I(3) install_mem_obj(2) [OF I(1) i] unfolding mem_ok_def by blast
  with install_mem_obj(1) [OF I(1) i] install_overruns [OF i] I(2) show ?thesis by (simp add: sys_inv_def)
qed

lemma sys_inv_install:
  assumes "sys_inv (cs, al)" "\<not> is_mem k" "cs_install cs k r = Some (cs', res)"
  shows "sys_inv (cs', al)"
proof -
  have I: "cap_inv cs" "c_cdt_walk_overruns cs = 0" "mem_ok (c_objects cs) al" using assms(1) by (simp_all add: sys_inv_def)
  have "cap_inv cs' \<and> mem_ok (c_objects cs') al"
  proof (cases rule: install_cases [OF I(1), of k r])
    case (1 cs1 e)
    then have "cs_install cs k r = Some (cs', Inl e)" using assms(3) by simp
    from install_mem_obj [OF I(1) this] I(3) show ?thesis using mem_ok_cong by blast
  next
    case (2 cs1 d ob)
    with assms(2,3) mem_ok_install [OF I(3) 2(5,6)] show ?thesis by simp
  qed
  with install_overruns [OF assms(3)] I(2) show ?thesis by (simp add: sys_inv_def)
qed

lemma sys_inv_derived:
  assumes "sys_inv (cs, al)" "cap_inv cs'" "derived cs s r b w cs' p" "c_cdt_walk_overruns cs' = c_cdt_walk_overruns cs"
  shows "sys_inv (cs', al)"
proof -
  have "mem_ok (c_objects cs') al"
    using assms(1) derived_mem [OF assms(3)] mem_ok_cong [of "c_objects cs" al "c_objects cs'"] by (simp add: sys_inv_def)
  with assms show ?thesis by (simp add: sys_inv_def)
qed

lemma sys_inv_copy: "sys_inv (cs, al) \<Longrightarrow> cs_copy cs p r = Some (cs', res) \<Longrightarrow> sys_inv (cs', al)"
proof -
  assume a: "sys_inv (cs, al)" and c: "cs_copy cs p r = Some (cs', res)"
  then have "cap_inv cs" by (simp add: sys_inv_def)
  then show ?thesis
  proof (cases rule: copy_cases [of cs p r])
    case (ok cs1 q)
    then show ?thesis using c sys_inv_derived [OF a _ _ copy_overruns [OF c]] by auto
  qed (use a c in simp_all)
qed

lemma sys_inv_mint: "sys_inv (cs, al) \<Longrightarrow> cs_mint cs p r b = Some (cs', res) \<Longrightarrow> sys_inv (cs', al)"
proof -
  assume a: "sys_inv (cs, al)" and c: "cs_mint cs p r b = Some (cs', res)"
  then have "cap_inv cs" by (simp add: sys_inv_def)
  then show ?thesis
  proof (cases rule: mint_cases [of cs p r b])
    case (ok cs1 q)
    then show ?thesis using c sys_inv_derived [OF a _ _ mint_overruns [OF c]] by auto
  qed (use a c in simp_all)
qed

lemma sys_inv_subregion: "sys_inv (cs, al) \<Longrightarrow> cs_subregion cs p off l r = Some (cs', res) \<Longrightarrow> sys_inv (cs', al)"
proof -
  assume a: "sys_inv (cs, al)" and c: "cs_subregion cs p off l r = Some (cs', res)"
  then have "cap_inv cs" by (simp add: sys_inv_def)
  then show ?thesis
  proof (cases rule: subregion_cases [of cs p off l r])
    case (ok cs1 q w wh)
    then show ?thesis using c sys_inv_derived [OF a _ _ subregion_overruns [OF c]] by auto
  qed (use a c in simp_all)
qed

lemma sys_inv_move: "sys_inv (cs, al) \<Longrightarrow> cs_move_cap cs p = Some (cs', res) \<Longrightarrow> sys_inv (cs', al)"
proof -
  assume a: "sys_inv (cs, al)" and c: "cs_move_cap cs p = Some (cs', res)"
  then have "cap_inv cs" by (simp add: sys_inv_def)
  then show ?thesis
    by (cases rule: move_cases [of cs p]) (use a c in \<open>auto simp: sys_inv_def moved_def\<close>)
qed

lemma sys_inv_deletes:
  assumes "sys_inv (cs, al)" "deletes (cs, al, rf) xs (cs1, al', rf')"
    "c_slots cs' = c_slots cs1" "c_objects cs' = c_objects cs1" "c_cdt_walk_overruns cs' = c_cdt_walk_overruns cs1"
  shows "sys_inv (cs', al')"
proof -
  have I: "cap_inv cs" "c_cdt_walk_overruns cs = 0" "mem_ok (c_objects cs) al" using assms(1) by (simp_all add: sys_inv_def)
  from deletes_ok [OF assms(2) I(1)] deletes_mem [OF assms(2) I(3)] I(2) assms(3-5) cap_inv_same [OF assms(3,4)]
  show ?thesis by (simp add: sys_inv_def)
qed

lemma sys_inv_delete:
  assumes a: "sys_inv (cs, al)" and d: "cs_delete cs al p rf = Some ((cs', al', rf'), res)"
  shows "sys_inv (cs', al')"
proof -
  have "cap_inv cs" using a by (simp add: sys_inv_def)
  then show ?thesis
  proof (cases rule: delete_cases [of cs al p rf])
    case (ok cs1 al1 rf1)
    then show ?thesis using d sys_inv_deletes [OF a ok(3)] by simp
  qed (use a d in simp_all)
qed

lemma sys_inv_revoke:
  assumes a: "sys_inv (cs, al)" and r: "cs_revoke cs al p rf = Some ((cs', al', rf'), res)"
  shows "sys_inv (cs', al')"
proof -
  have "cap_inv cs" using a by (simp add: sys_inv_def)
  then show ?thesis
  proof (cases rule: revoke_cases [of cs al p rf])
    case (ok cs1 al1 rf1 cs2 xs)
    then show ?thesis using r sys_inv_deletes [OF a ok(3,5,6,7)] by simp
  qed (use a r in simp_all)
qed

lemma sys_step_inv: "sys_step st st' \<Longrightarrow> sys_inv st \<Longrightarrow> sys_inv st'"
  by (induction rule: sys_step.induct)
    (blast intro: sys_inv_add sys_inv_alloc sys_inv_alloc_fail sys_inv_install sys_inv_copy sys_inv_mint
      sys_inv_subregion sys_inv_move sys_inv_delete sys_inv_revoke)+

interpretation sys: step_system sys_init sys_step sys_inv
  by unfold_locales (fact sys_init_inv, rule sys_step_inv)

end
