(* ===== verification/CapSample.thy ===== *)
theory CapSample
  imports CapSystem
begin

text \<open>
  A small concrete run: one megabyte of RAM, 0x2000 bytes of it allocated and installed as a memory
  capability (slot 0), copied with read rights (slot 1), and a window cut out of the copy (slot 2). The
  states of this run are the inputs at which the properties are instantiated.
\<close>

lemmas cap_eval = install_memory_def cs_install_def alloc_object_def alloc_object_inner_def alloc_slot_def
  free_slot_index_def Let_def used_slots_def used_objects_def cs_ptr_def tget_def tupd_def Object_EMPTY_def
  CapSlot_EMPTY_def Mdb_EMPTY_def mod_object_def mod_slot_def cs_copy_def cs_resolve_def derive_cap_def
  link_child_def kind_einhaengen_def set_parent_def set_prev_def set_next_def set_first_child_def
  cs_subregion_def teilfenster_rechnen_def checked_add_def Rights_intersect_def Rights_RW_def Rights_READ_def
  Rights_WRITE_def slot_kind_def cs_lookup_def region_end_def

definition sp :: "nat \<Rightarrow> CapPtr" where "sp i = \<lparr>p_slot = i, p_gen = 0\<rparr>"

definition slotv :: "nat \<Rightarrow> Rights \<Rightarrow> PhysRegion option \<Rightarrow> nat option \<Rightarrow> nat option \<Rightarrow> CapSlot" where
  "slotv ob r w p f = \<lparr>s_used = True, s_gen = 0, s_object = ob, s_rights = r, s_badge = 0, s_subregion = w,
     s_mdb = \<lparr>m_parent = p, m_first_child = f, m_next = None, m_prev = None\<rparr>\<rparr>"

definition objv :: "ObjectKind \<Rightarrow> u32 \<Rightarrow> Object" where
  "objv k n = \<lparr>o_used = True, o_kind = k, o_refcount = n, o_gen = 0\<rparr>"

definition space :: "CapSlot list \<Rightarrow> Object list \<Rightarrow> nat \<Rightarrow> CapSpace" where
  "space ss os n = \<lparr>c_slots = ss, c_objects = os, c_peak_slots = n, c_peak_objects = min n 1, c_peak_cdt_walk = 0,
     c_peak_revoke_ops = 0, c_cdt_walk_overruns = 0\<rparr>"

definition sample_reg :: PhysRegion where "sample_reg = PhysRegion_new 0x106000 0x2000"
definition sample_win :: PhysRegion where "sample_win = PhysRegion_new 0x107000 0x1000"

definition scs0 :: CapSpace where
  "scs0 = space [CapSlot_EMPTY, CapSlot_EMPTY, CapSlot_EMPTY, CapSlot_EMPTY] [Object_EMPTY, Object_EMPTY] 0"
definition scs1 :: CapSpace where
  "scs1 = space [slotv 0 Rights_RW None None None, CapSlot_EMPTY, CapSlot_EMPTY, CapSlot_EMPTY]
     [objv (Memory sample_reg) 1, Object_EMPTY] 1"
definition scs2 :: CapSpace where
  "scs2 = space [slotv 0 Rights_RW None None (Some 1), slotv 0 Rights_READ None (Some 0) None, CapSlot_EMPTY, CapSlot_EMPTY]
     [objv (Memory sample_reg) 2, Object_EMPTY] 2"
definition scs3 :: CapSpace where
  "scs3 = space [slotv 0 Rights_RW None None (Some 1), slotv 0 Rights_READ None (Some 0) (Some 2),
     slotv 0 Rights_READ (Some sample_win) (Some 1) None, CapSlot_EMPTY] [objv (Memory sample_reg) 3, Object_EMPTY] 3"

lemmas sample_defs = scs0_def scs1_def scs2_def scs3_def space_def slotv_def objv_def sp_def sample_reg_def sample_win_def

definition sample_al :: PhysAllocator where "sample_al = fst (alloc_in sample_ram 0x1800 (2 ^ 13) 0x104001 (- 1))"

lemma sample_install: "install_memory scs0 (MemoryCap_new sample_reg Rights_RW) = Some (scs1, Inr (sp 0))"
  by (simp add: cap_eval sample_defs)

lemma sample_copy: "cs_copy scs1 (sp 0) Rights_READ = Some (scs2, Inr (sp 1))"
  by (simp add: cap_eval sample_defs)

lemma sample_subregion: "cs_subregion scs2 (sp 1) 0x1000 0x1000 Rights_RW = Some (scs3, Inr (sp 2))"
  by (simp add: cap_eval sample_defs)

lemma sample_init: "sys_init (scs0, PhysAllocator_new)"
proof -
  have "cs_attach CapSpace_new [CapSlot_EMPTY, CapSlot_EMPTY, CapSlot_EMPTY, CapSlot_EMPTY] [Object_EMPTY, Object_EMPTY] = Some scs0"
    by (simp add: cs_attach_def CapSpace_new_def sample_defs)
  then show ?thesis unfolding sys_init_def
    by (intro conjI exI [of _ "[CapSlot_EMPTY, CapSlot_EMPTY, CapSlot_EMPTY, CapSlot_EMPTY]"] exI [of _ "[Object_EMPTY, Object_EMPTY]"]) auto
qed

lemma sample_steps: "sys_step (scs0, PhysAllocator_new) (scs0, sample_ram)" "sys_step (scs0, sample_ram) (scs1, sample_al)"
proof -
  have "\<not> mem_obj (c_objects scs0) x r" for x r
    by (cases x rule: nat.exhaust) (auto simp: mem_obj_def scs0_def space_def less_Suc_eq nth_Cons')
  then show "sys_step (scs0, PhysAllocator_new) (scs0, sample_ram)"
    by (intro sy_add [of _ "0x100000" "0x100000" _ "snd (add_region PhysAllocator_new 0x100000 0x100000)"])
      (simp_all add: sample_ram_def pa_inv_new region_ok_def)
  let ?c = "MemoryCap_new sample_reg Rights_RW"
  have "MemoryCap_restrict ?c Rights_RWX = ?c"
    by (simp add: MemoryCap_restrict_def MemoryCap_new_def Rights_intersect_def Rights_RW_def Rights_RWX_def)
  then have "install_memory scs0 (MemoryCap_restrict ?c Rights_RWX) = Some (scs1, Inr (sp 0))" using sample_install by simp
  then show "sys_step (scs0, sample_ram) (scs1, sample_al)"
    using sample_alloc by (intro sy_alloc) (auto simp: sample_al_def sample_reg_def)
qed

lemma sample_reach_ram: "reach sys_init sys_step (scs0, sample_ram)"
  by (rule reach_step [OF reach_init]) (rule sample_init, rule sample_steps(1))

lemma sample_reach1: "reach sys_init sys_step (scs1, sample_al)"
  by (rule reach_step [OF sample_reach_ram sample_steps(2)])

lemma sample_reach2: "reach sys_init sys_step (scs2, sample_al)"
  by (rule reach_step [OF sample_reach1 sy_copy [OF sample_copy]])

lemma sample_reach: "reach sys_init sys_step (scs3, sample_al)"
  by (rule reach_step [OF sample_reach2 sy_subregion [OF sample_subregion]])

lemma sample_inv: "cap_inv scs1" "cap_inv scs2" "cap_inv scs3"
  using sys.reach_inv [OF sample_reach1] sys.reach_inv [OF sample_reach2] sys.reach_inv [OF sample_reach]
  by (simp_all add: sys_inv_def)

lemma sample_lookup:
  "cs_lookup scs3 (sp 0) = Some (Some (Memory sample_reg, Rights_RW, 0))"
  "cs_lookup scs3 (sp 1) = Some (Some (Memory sample_reg, Rights_READ, 0))"
  "cs_lookup scs3 (sp 2) = Some (Some (Memory sample_win, Rights_READ, 0))"
  "cs_lookup scs3 (sp 3) = Some None" "used_slots scs3 = 3" "length (c_slots scs3) = 4"
  by (simp_all add: cap_eval sample_defs)

lemma sample_under: "under (c_slots scs3) 0 1" "under (c_slots scs3) 1 2" "under (c_slots scs3) 0 2"
proof -
  show "under (c_slots scs3) 0 1" "under (c_slots scs3) 1 2"
    by (rule under_child; simp add: usd_def par_def sample_defs)+
  then show "under (c_slots scs3) 0 2" by (rule under_ch_trans [rotated])
qed

end
