(* ===== verification/CapProps.thy ===== *)
theory CapProps
  imports CapSample
begin

text \<open>
  The properties of the capability space: what every operation returns and does to every handle,
  confinement of authority along the derivation tree, exactness of revocation, and the lifetime of
  memory objects.
\<close>

section \<open>Handles and what they show\<close>

definition cap_view :: "CapSpace \<Rightarrow> nat \<Rightarrow> ObjectKind \<times> Rights \<times> u64" where
  "cap_view cs i = (slot_kind (c_objects cs ! s_object (c_slots cs ! i)) (c_slots cs ! i), s_rights (c_slots cs ! i), s_badge (c_slots cs ! i))"

lemma cap_inv_object:
  "cap_inv cs \<Longrightarrow> usd (c_slots cs) i \<Longrightarrow> s_object (c_slots cs ! i) < length (c_objects cs) \<and> o_used (c_objects cs ! s_object (c_slots cs ! i))"
  by (auto simp: cap_inv_def cap_ok_def slots_ok_def slot_ok_def)

definition valid :: "CapSpace \<Rightarrow> CapPtr \<Rightarrow> bool" where
  "valid cs p \<longleftrightarrow> usd (c_slots cs) (p_slot p) \<and> s_gen (c_slots cs ! p_slot p) = p_gen p"

lemma resolve_eq: "cs_resolve cs p = (if valid cs p then Inr (p_slot p) else Inl Invalid)"
  by (auto simp: cs_resolve_def valid_def tget_def usd_def)

lemma lookup_eq:
  assumes "cap_inv cs"
  shows "cs_lookup cs p = Some (if valid cs p then Some (cap_view cs (p_slot p)) else None)"
proof (cases "valid cs p")
  case True
  then have "usd (c_slots cs) (p_slot p)" by (simp add: valid_def)
  with True cap_inv_object [OF assms this] show ?thesis by (simp add: cs_lookup_def resolve_eq tget_Some usd_lt cap_view_def)
qed (simp add: cs_lookup_def resolve_eq)

lemma resolve_Inr_valid: "cs_resolve cs p = Inr i \<longleftrightarrow> valid cs p \<and> i = p_slot p"
  by (auto simp: resolve_eq)

lemma cap_view_bare:
  assumes "bare (c_slots cs' ! j) = bare (c_slots cs ! i)"
    "o_kind (c_objects cs' ! s_object (c_slots cs ! i)) = o_kind (c_objects cs ! s_object (c_slots cs ! i))"
  shows "cap_view cs' j = cap_view cs i"
proof -
  note B = bare_eqD [OF assms(1)]
  have "slot_kind (c_objects cs' ! s_object (c_slots cs ! i)) (c_slots cs' ! j) = slot_kind (c_objects cs ! s_object (c_slots cs ! i)) (c_slots cs ! i)"
    by (rule slot_kind_cong [OF assms(2) B(6)])
  then show ?thesis by (simp add: cap_view_def B)
qed

lemma lookup_same:
  assumes "cap_inv cs" "cap_inv cs'" "usd (c_slots cs') (p_slot p) = usd (c_slots cs) (p_slot p)"
    "bare (c_slots cs' ! p_slot p) = bare (c_slots cs ! p_slot p)"
    "usd (c_slots cs) (p_slot p) \<Longrightarrow> o_kind (c_objects cs' ! s_object (c_slots cs ! p_slot p)) = o_kind (c_objects cs ! s_object (c_slots cs ! p_slot p))"
  shows "cs_lookup cs' p = cs_lookup cs p"
proof -
  have "valid cs' p \<longleftrightarrow> valid cs p" using bare_eqD(2) [OF assms(4)] assms(3) by (simp add: valid_def)
  moreover have "valid cs p \<Longrightarrow> cap_view cs' (p_slot p) = cap_view cs (p_slot p)"
    using cap_view_bare [OF assms(4)] assms(5) by (simp add: valid_def)
  ultimately show ?thesis by (simp add: lookup_eq [OF assms(1)] lookup_eq [OF assms(2)])
qed

lemma used_slots_full: "used_slots cs = length (c_slots cs) \<longleftrightarrow> (\<forall>i<length (c_slots cs). usd (c_slots cs) i)"
proof -
  have "used_slots cs = length (c_slots cs) \<longleftrightarrow> (\<forall>s\<in>set (c_slots cs). s_used s)"
    unfolding used_slots_def by (metis filter_True length_filter_less less_irrefl)
  then show ?thesis by (simp add: all_set_conv_all_nth usd_def)
qed

section \<open>Deriving\<close>

lemma derived_lookup:
  assumes "cap_inv cs" "cap_inv cs'" "usd (c_slots cs) s" "derived cs s r b w cs' p"
  shows "cs_lookup cs p = Some None"
    "cs_lookup cs' p = Some (Some (slot_kind (c_objects cs ! s_object (c_slots cs ! s)) (new_slot 0 0 r b w), r, b))"
    "under (c_slots cs') s (p_slot p)" "q \<noteq> p \<Longrightarrow> cs_lookup cs' q = cs_lookup cs q"
proof -
  let ?d = "p_slot p" and ?ob = "s_object (c_slots cs ! s)"
  note D = assms(4) [unfolded derived_def Let_def]
  have ob: "?ob < length (c_objects cs)" using cap_inv_object [OF assms(1,3)] by simp
  have k: "o_kind (c_objects cs' ! x) = o_kind (c_objects cs ! x)" for x using D ob by (auto simp: nth_lupd)
  have nv: "\<not> usd (c_slots cs) ?d" "usd (c_slots cs') ?d" using D by simp_all
  show "cs_lookup cs p = Some None" using nv by (simp add: lookup_eq [OF assms(1)] valid_def)
  have b: "bare (c_slots cs' ! ?d) = new_slot (p_gen p) ?ob r b w" using D by blast
  note B = arg_cong [OF b, of s_gen] arg_cong [OF b, of s_object] arg_cong [OF b, of s_rights] arg_cong [OF b, of s_badge]
    arg_cong [OF b, of s_subregion]
  have "slot_kind (c_objects cs' ! ?ob) (c_slots cs' ! ?d) = slot_kind (c_objects cs ! ?ob) (new_slot 0 0 r b w)"
    by (rule slot_kind_cong) (use k B(5) in \<open>simp_all add: bare_def\<close>)
  then have "cap_view cs' ?d = (slot_kind (c_objects cs ! ?ob) (new_slot 0 0 r b w), r, b)"
    using B by (simp add: cap_view_def bare_def)
  moreover have g: "s_gen (c_slots cs' ! ?d) = p_gen p" using B(1) by (simp add: bare_def)
  ultimately show "cs_lookup cs' p = Some (Some (slot_kind (c_objects cs ! ?ob) (new_slot 0 0 r b w), r, b))"
    using nv by (simp add: lookup_eq [OF assms(2)] valid_def)
  show "under (c_slots cs') s ?d" by (rule under_child) (use D in simp_all)
  assume q: "q \<noteq> p"
  show "cs_lookup cs' q = cs_lookup cs q"
  proof (cases "p_slot q = ?d")
    case True
    then have "p_gen q \<noteq> p_gen p" using q by (cases q; cases p) simp
    then show ?thesis using True nv g by (simp add: lookup_eq [OF assms(1)] lookup_eq [OF assms(2)] valid_def)
  next
    case False
    then show ?thesis using D k by (intro lookup_same [OF assms(1,2)]) simp_all
  qed
qed

lemma slot_kind_new:
  "slot_kind ob (new_slot g x r b (s_subregion s)) = slot_kind ob s"
  "o_kind ob = Memory q \<Longrightarrow> slot_kind ob (new_slot g x r b (Some w)) = Memory w"
  by (rule slot_kind_cong) (simp_all add: slot_kind_def)

text \<open>
  \<open>copy\<close> on every branch: an invalid handle and a full table are refused without any change;
  otherwise a fresh handle shows the same object, badge and window with exactly the common rights, the
  new capability hangs below its source, and no other handle is affected.
\<close>

theorem copy_correct:
  assumes "cap_inv cs"
  shows "case cs_lookup cs src of
      None \<Rightarrow> False
    | Some None \<Rightarrow> cs_copy cs src r = Some (cs, Inl Invalid)
    | Some (Some (k, r0, b)) \<Rightarrow>
        if used_slots cs = length (c_slots cs) then cs_copy cs src r = Some (cs, Inl NoSlot)
        else \<exists>cs' p. cs_copy cs src r = Some (cs', Inr p) \<and> cap_inv cs' \<and> cs_lookup cs p = Some None \<and>
          cs_lookup cs' p = Some (Some (k, Rights_intersect r0 r, b)) \<and> under (c_slots cs') (p_slot src) (p_slot p) \<and>
          (\<forall>q. q \<noteq> p \<longrightarrow> cs_lookup cs' q = cs_lookup cs q)"
  using assms
proof (cases rule: copy_cases [of cs src r])
  case invalid
  then show ?thesis by (simp add: lookup_eq [OF assms] resolve_eq split: if_splits)
next
  case full
  then show ?thesis using used_slots_full [of cs] by (auto simp: lookup_eq [OF assms] cs_copy_def resolve_eq split: if_splits)
next
  case (ok cs' p)
  have v: "valid cs src" using ok(3) by (simp add: resolve_Inr_valid)
  then have u: "usd (c_slots cs) (p_slot src)" by (simp add: valid_def)
  have nf: "used_slots cs \<noteq> length (c_slots cs)" using ok(4) unfolding used_slots_full derived_def Let_def by blast
  note L = derived_lookup [OF assms ok(2) u ok(4)]
  have l: "cs_lookup cs src = Some (Some (cap_view cs (p_slot src)))" using v by (simp add: lookup_eq [OF assms])
  show ?thesis unfolding l cap_view_def using nf ok(1,2) L by (simp add: slot_kind_new)
qed

theorem copy_correct_witness:
  "\<exists>cs' p. cs_copy scs3 (sp 0) Rights_READ = Some (cs', Inr p) \<and>
     cs_lookup cs' p = Some (Some (Memory sample_reg, Rights_intersect Rights_RW Rights_READ, 0)) \<and> under (c_slots cs') 0 (p_slot p)"
  using copy_correct [OF sample_inv(3), of "sp 0" Rights_READ] by (auto simp: sample_lookup) (auto simp: sp_def)

text \<open>
  \<open>mint\<close> is \<open>copy\<close> with a new badge: rights only shrink, the badge is the requested one, nothing
  else is affected.
\<close>

theorem mint_correct:
  assumes "cap_inv cs" "cs_lookup cs src = Some (Some (k, r0, b0))" "used_slots cs < length (c_slots cs)"
  shows "\<exists>cs' p. cs_mint cs src r b = Some (cs', Inr p) \<and> cap_inv cs' \<and> cs_lookup cs p = Some None \<and>
    cs_lookup cs' p = Some (Some (k, Rights_intersect r0 r, b)) \<and> under (c_slots cs') (p_slot src) (p_slot p) \<and>
    (\<forall>q. q \<noteq> p \<longrightarrow> cs_lookup cs' q = cs_lookup cs q)"
  using assms(1)
proof (cases rule: mint_cases [of cs src r b])
  case (refused e)
  have "\<not> (\<forall>i<length (c_slots cs). usd (c_slots cs) i)" using used_slots_full [of cs] assms(3) by auto
  moreover have "valid cs src" using assms(2) by (simp add: lookup_eq [OF assms(1)] split: if_splits)
  ultimately show ?thesis using refused(2) by (cases rule: copy_cases [OF assms(1), of src r]) (simp_all add: resolve_eq)
next
  case (ok cs' p)
  have v: "valid cs src" using ok(3) by (simp add: resolve_Inr_valid)
  then have u: "usd (c_slots cs) (p_slot src)" by (simp add: valid_def)
  have l: "(k, r0, b0) = cap_view cs (p_slot src)" using assms(2) v by (simp add: lookup_eq [OF assms(1)])
  note L = derived_lookup [OF assms(1) ok(2) u ok(4)]
  show ?thesis using l ok(1,2) L by (simp add: cap_view_def slot_kind_new)
qed

theorem mint_correct_witness:
  "\<exists>cs' p. cs_mint scs3 (sp 1) Rights_RW 7 = Some (cs', Inr p) \<and>
     cs_lookup cs' p = Some (Some (Memory sample_reg, Rights_intersect Rights_READ Rights_RW, 7))"
  using mint_correct [OF sample_inv(3) sample_lookup(2), of Rights_RW 7] by (auto simp: sample_lookup)

lemma teilfenster_exact:
  assumes "region_ok w"
  shows "teilfenster_rechnen w off l =
    (if l = 0 \<or> unat (r_len w) < unat off + unat l then Inl Subregion else Inr (PhysRegion_new (r_base w + off) l))"
proof -
  have w: "unat (r_base w) + unat (r_len w) < 2 ^ 64" using assms by (simp add: region_ok_def)
  show ?thesis
  proof (cases "l = 0 \<or> unat (r_len w) < unat off + unat l")
    case False
    then have "unat (r_base w) + unat off < 2 ^ 64" "unat (r_base w) + unat off + unat l \<le> unat (r_base w) + unat (r_len w)"
      using w by linarith+
    with False w show ?thesis
      by (auto simp: teilfenster_rechnen_def checked_add_def word_le_nat_alt word_less_nat_alt unat_add_u64 not_less)
  next
    case True
    with w show ?thesis
      by (auto simp: teilfenster_rechnen_def checked_add_def word_less_nat_alt unat_add_u64)
  qed
qed

text \<open>
  \<open>subregion\<close> on a memory capability: exactly the windows that are non-empty and lie inside the
  window of the source are granted, and the new handle shows precisely that window with the common
  rights; everything else is refused without any change.
\<close>

theorem subregion_correct:
  assumes "cap_inv cs" "cs_lookup cs src = Some (Some (Memory w, r0, b))" "region_ok w" "used_slots cs < length (c_slots cs)"
  shows "if l = 0 \<or> unat (r_len w) < unat off + unat l then cs_subregion cs src off l r = Some (cs, Inl Subregion)
    else \<exists>cs' p. cs_subregion cs src off l r = Some (cs', Inr p) \<and> cap_inv cs' \<and> cs_lookup cs p = Some None \<and>
      cs_lookup cs' p = Some (Some (Memory (PhysRegion_new (r_base w + off) l), Rights_intersect r0 r, b)) \<and>
      under (c_slots cs') (p_slot src) (p_slot p) \<and> (\<forall>q. q \<noteq> p \<longrightarrow> cs_lookup cs' q = cs_lookup cs q)"
proof -
  have val: "valid cs src" and v: "(Memory w, r0, b) = cap_view cs (p_slot src)"
    using assms(2) by (simp_all add: lookup_eq [OF assms(1)] split: if_splits)
  then have res: "cs_resolve cs src = Inr (p_slot src)" by (simp add: resolve_eq)
  let ?s = "c_slots cs ! p_slot src"
  have u: "usd (c_slots cs) (p_slot src)" using val by (simp add: valid_def)
  have sk: "slot_kind (c_objects cs ! s_object ?s) ?s = Memory w" "r0 = s_rights ?s" "b = s_badge ?s"
    using v by (simp_all add: cap_view_def)
  then obtain q where q: "o_kind (c_objects cs ! s_object ?s) = Memory q" "(case s_subregion ?s of Some w \<Rightarrow> w | None \<Rightarrow> q) = w"
    by (auto simp: slot_kind_def split: ObjectKind.splits)
  have t: "tget (c_slots cs) (p_slot src) = Some ?s" "tget (c_objects cs) (s_object ?s) = Some (c_objects cs ! s_object ?s)"
    using u cap_inv_object [OF assms(1) u] by (simp_all add: tget_Some usd_lt)
  note T = teilfenster_exact [OF assms(3), of off l]
  show ?thesis
  proof (cases "l = 0 \<or> unat (r_len w) < unat off + unat l")
    case True
    then show ?thesis using T res t q by (simp add: cs_subregion_def)
  next
    case False
    from assms(1) show ?thesis
    proof (cases rule: subregion_cases [of cs src off l r])
      case (refused e)
      have "\<not> (\<forall>i<length (c_slots cs). usd (c_slots cs) i)" using used_slots_full [of cs] assms(4) by auto
      moreover have "derive_cap cs (p_slot src) (s_object ?s) (Rights_intersect (s_rights ?s) r) (s_badge ?s)
          (Some (PhysRegion_new (r_base w + off) l)) = Some (cs, Inl e)"
        using refused T False res t q by (simp add: cs_subregion_def)
      ultimately have False
        by (cases rule: alloc_slot_cases [of cs "s_object ?s" "Rights_intersect (s_rights ?s) r" "s_badge ?s"])
          (auto simp: derive_cap_def bind_eq_Some_conv)
      then show ?thesis ..
    next
      case (ok cs' p w' wh)
      have "wh = w" using ok(4) sk(1) by simp
      then have w': "w' = PhysRegion_new (r_base w + off) l" using ok(5) T False by simp
      note L = derived_lookup [OF assms(1) ok(2) u ok(6)]
      show ?thesis using False ok(1,2) L q(1) sk w' by (simp add: slot_kind_new)
    qed
  qed
qed

theorem subregion_correct_witness:
  "cs_subregion scs3 (sp 2) 0x800 0x801 Rights_RW = Some (scs3, Inl Subregion) \<and>
   (\<exists>cs' p. cs_subregion scs3 (sp 2) 0x800 0x800 Rights_RW = Some (cs', Inr p) \<and>
     cs_lookup cs' p = Some (Some (Memory (PhysRegion_new 0x107800 0x800), Rights_intersect Rights_READ Rights_RW, 0)))"
proof -
  have ok: "region_ok sample_win" "used_slots scs3 < length (c_slots scs3)"
    by (simp_all add: sample_win_def region_ok_def sample_lookup)
  note S = subregion_correct [OF sample_inv(3) sample_lookup(3) ok]
  show ?thesis using S [of "0x801" "0x800" Rights_RW] S [of "0x800" "0x800" Rights_RW] by (auto simp: sample_win_def)
qed


section \<open>Moving\<close>

lemma under_ren:
  assumes "cdt ss ch rk" "usd ss s" "\<not> usd ss d" "usd t = (usd ss)(d := True, s := False)"
    "\<And>i. usd ss i \<Longrightarrow> par t (ren s d i) = map_option (ren s d) (par ss i)" "usd ss a" "usd ss c"
  shows "under t (ren s d a) (ren s d c) \<longleftrightarrow> under ss a c"
proof
  have inj: "x = y" if "ren s d x = ren s d y" "usd ss x" "usd ss y" for x y
    using that assms(3) by (auto simp: ren_def split: if_splits)
  assume "under t (ren s d a) (ren s d c)"
  then show "under ss a c" using assms(6,7)
  proof (induction "ren s d a" "ren s d c" arbitrary: c rule: under.induct)
    case under_child
    then obtain q where q: "par ss c = Some q" "ren s d q = ren s d a" using assms(5) by fastforce
    then have "usd ss q" using cdtD(9) [OF assms(1)] under_child by blast
    then have "q = a" using inj q(2) under_child by blast
    then show ?case using q(1) under_child by (intro under.under_child) simp_all
  next
    case (under_step p)
    then obtain q where q: "par ss c = Some q" "p = ren s d q" using assms(5) by fastforce
    then have "usd ss q" using cdtD(9) [OF assms(1)] under_step by blast
    then show ?case using under_step q by (intro under.under_step [of ss c q a]) simp_all
  qed
next
  have ut: "usd t (ren s d i)" if "usd ss i" for i using that assms(2,3) unfolding assms(4) by (auto simp: ren_def)
  assume "under ss a c"
  then show "under t (ren s d a) (ren s d c)"
  proof (induction rule: under.induct)
    case (under_child c a)
    then show ?case using ut [OF under_child(1)] assms(5) [OF under_child(1)] by (intro under.under_child) simp_all
  next
    case (under_step c p a)
    show ?case
      by (rule under.under_step [OF ut [OF under_step(1)] _ under_step(4)]) (use assms(5) [OF under_step(1)] under_step(2) in simp)
  qed
qed

text \<open>
  \<open>move\<close>: the capability gets a new handle that shows exactly what the old one showed, the old
  handle is dead, all other handles are unaffected, and the derivation order is the same as before up
  to the renaming of the moved slot.
\<close>

theorem move_correct:
  assumes "cap_inv cs" "cs_lookup cs src = Some (Some v)" "used_slots cs < length (c_slots cs)"
  shows "\<exists>cs' p. cs_move_cap cs src = Some (cs', Inr p) \<and> cap_inv cs' \<and> cs_lookup cs p = Some None \<and>
    cs_lookup cs' p = Some (Some v) \<and> cs_lookup cs' src = Some None \<and>
    (\<forall>q. q \<noteq> p \<longrightarrow> q \<noteq> src \<longrightarrow> cs_lookup cs' q = cs_lookup cs q) \<and>
    (\<forall>a c. usd (c_slots cs) a \<longrightarrow> usd (c_slots cs) c \<longrightarrow>
       under (c_slots cs') (ren (p_slot src) (p_slot p) a) (ren (p_slot src) (p_slot p) c) = under (c_slots cs) a c)"
  using assms(1)
proof (cases rule: move_cases [of cs src])
  case (refused e)
  have "\<not> (\<forall>i<length (c_slots cs). usd (c_slots cs) i)" using used_slots_full [of cs] assms(3) by auto
  moreover have "valid cs src" using assms(2) by (simp add: lookup_eq [OF assms(1)] split: if_splits)
  ultimately obtain d where d: "d < length (c_slots cs)" "\<not> usd (c_slots cs) d" "free_slot_index cs = Inr d"
    by (cases rule: free_slot_index_cases [of cs]) auto
  from assms(1) obtain ch rk where ok: "cap_ok cs ch rk" by (auto simp: cap_inv_def)
  have "usd (c_slots cs) (p_slot src)" "cs_resolve cs src = Inr (p_slot src)"
    using \<open>valid cs src\<close> by (simp_all add: valid_def resolve_eq)
  from move_ok [OF ok this(1) d(1,2) this(2) d(3)] refused show ?thesis by auto
next
  case (ok cs' d)
  let ?s = "p_slot src" and ?p = "\<lparr>p_slot = d, p_gen = s_gen (c_slots cs ! d)\<rparr>"
  note M = ok(4) [unfolded moved_def]
  have val: "valid cs src" and v: "v = cap_view cs ?s" using assms(2) by (simp_all add: lookup_eq [OF assms(1)] split: if_splits)
  have us: "usd (c_slots cs) ?s" "\<not> usd (c_slots cs) d" "?s \<noteq> d" using M by auto
  have u': "usd (c_slots cs') i \<longleftrightarrow> (i = d \<or> usd (c_slots cs) i) \<and> i \<noteq> ?s" for i using M us by auto
  have bd: "bare (c_slots cs' ! d) = bare ((c_slots cs ! ?s)\<lparr>s_gen := s_gen (c_slots cs ! d)\<rparr>)" using M by blast
  have os: "c_objects cs' = c_objects cs" using M by blast
  note B = bare_eqD [OF bd]
  have cv: "cap_view cs' d = cap_view cs ?s"
    using slot_kind_cong [OF refl, of "c_slots cs' ! d" "c_slots cs ! ?s"] B by (simp add: cap_view_def os)
  have p: "cs_lookup cs ?p = Some None" "cs_lookup cs' ?p = Some (Some v)" "cs_lookup cs' src = Some None"
    using u' us B cv v by (simp_all add: lookup_eq [OF assms(1)] lookup_eq [OF ok(2)] valid_def)
  have "cs_lookup cs' q = cs_lookup cs q" if q: "q \<noteq> ?p" "q \<noteq> src" for q
  proof (cases "p_slot q = d \<or> p_slot q = ?s")
    case True
    then have "\<not> valid cs' q" "\<not> valid cs q"
      using q us u' B(2) val by (cases q; cases src; auto simp: valid_def)+
    then show ?thesis by (simp add: lookup_eq [OF assms(1)] lookup_eq [OF ok(2)])
  next
    case False
    then show ?thesis using M u' os by (intro lookup_same [OF assms(1) ok(2)]) simp_all
  qed
  moreover from assms(1) obtain ch rk where "cdt (c_slots cs) ch rk" by (auto simp: cap_inv_def cap_ok_def)
  then have "under (c_slots cs') (ren ?s d a) (ren ?s d c) = under (c_slots cs) a c"
    if "usd (c_slots cs) a" "usd (c_slots cs) c" for a c
    using that us M by (intro under_ren) auto
  ultimately show ?thesis using ok(1,2) p by (intro exI [of _ cs'] exI [of _ ?p]) simp
qed

theorem move_correct_witness:
  "\<exists>cs' p. cs_move_cap scs3 (sp 1) = Some (cs', Inr p) \<and> cs_lookup cs' (sp 1) = Some None \<and>
     cs_lookup cs' p = Some (Some (Memory sample_reg, Rights_READ, 0))"
  using move_correct [OF sample_inv(3) sample_lookup(2)] by (auto simp: sample_lookup)

section \<open>Deleting and revoking\<close>

lemma deletes_lookup:
  assumes "cap_inv cs" "deletes (cs, al, rf) xs (cs', al', rf')"
  shows "cs_lookup cs' q = (if p_slot q \<in> set xs then Some None else cs_lookup cs q)"
proof -
  note D = deletes_ok [OF assms(2,1)]
  then have inv: "cap_inv cs'" by blast
  show ?thesis
  proof (cases "p_slot q \<in> set xs")
    case True
    then show ?thesis using D by (simp add: lookup_eq [OF inv] valid_def)
  next
    case False
    have "cs_lookup cs' q = cs_lookup cs q"
    proof (rule lookup_same [OF assms(1) inv])
      show u: "usd (c_slots cs') (p_slot q) = usd (c_slots cs) (p_slot q)" using D False by blast
      show b: "bare (c_slots cs' ! p_slot q) = bare (c_slots cs ! p_slot q)" using D False by blast
      assume "usd (c_slots cs) (p_slot q)"
      then have "usd (c_slots cs') (p_slot q)" using u by simp
      from cap_inv_object [OF inv this] D bare_eqD(3) [OF b]
      show "o_kind (c_objects cs' ! s_object (c_slots cs ! p_slot q)) = o_kind (c_objects cs ! s_object (c_slots cs ! p_slot q))" by simp
    qed
    then show ?thesis using False by simp
  qed
qed

lemma not_under_self: "cap_inv cs \<Longrightarrow> \<not> under (c_slots cs) a a"
  unfolding cap_inv_def cap_ok_def using under_rank by blast

text \<open>
  C6. \<open>revoke\<close> is exact: it always returns, without an overrun of its walks; afterwards precisely the
  handles of the descendants are dead, and every other handle, the revoked one included, shows what it
  showed before.
\<close>

theorem revoke_exact:
  assumes "cap_inv cs" "cs_lookup cs p = Some (Some v)"
  shows "\<exists>cs' al' rf'. cs_revoke cs al p rf = Some ((cs', al', rf'), Inr ()) \<and> cap_inv cs' \<and>
    c_cdt_walk_overruns cs' = c_cdt_walk_overruns cs \<and> cs_lookup cs' p = Some (Some v) \<and>
    (\<forall>q. cs_lookup cs' q = (if under (c_slots cs) (p_slot p) (p_slot q) then Some None else cs_lookup cs q))"
  using assms(1)
proof (cases rule: revoke_cases [of cs al p rf])
  case invalid
  then show ?thesis using assms(2) by (simp add: lookup_eq [OF assms(1)] resolve_eq split: if_splits)
next
  case (ok cs' al' rf' cs1 xs)
  note D = deletes_ok [OF ok(3) assms(1)]
  have inv: "cap_inv cs'" "cap_inv cs1" using D cap_inv_same [OF ok(5,6)] by auto
  have "cs_lookup cs' q = cs_lookup cs1 q" for q
    using ok(5,6) by (simp add: lookup_eq [OF inv(1)] lookup_eq [OF inv(2)] valid_def cap_view_def)
  then have l: "cs_lookup cs' q = (if under (c_slots cs) (p_slot p) (p_slot q) then Some None else cs_lookup cs q)" for q
    using deletes_lookup [OF assms(1) ok(3), of q] ok(4) by simp
  have "\<not> under (c_slots cs) (p_slot p) (p_slot p)" by (rule not_under_self [OF assms(1)])
  then show ?thesis using l assms(2) ok(1,7) D inv by (intro exI [of _ cs'] exI [of _ al'] exI [of _ rf']) simp
qed

theorem revoke_exact_witness:
  "\<exists>cs' al' rf'. cs_revoke scs3 sample_al (sp 0) (Finalized_new [] []) = Some ((cs', al', rf'), Inr ()) \<and>
     cs_lookup cs' (sp 0) = Some (Some (Memory sample_reg, Rights_RW, 0)) \<and> cs_lookup cs' (sp 2) = Some None"
proof -
  have u: "under (c_slots scs3) (p_slot (sp 0)) (p_slot (sp 2))" using sample_under(3) by (simp add: sp_def)
  show ?thesis using revoke_exact [OF sample_inv(3) sample_lookup(1), of sample_al "Finalized_new [] []"] u by fastforce
qed

text \<open>
  \<open>delete\<close>: a capability with descendants is kept and nothing changes; a childless one is removed,
  its handle is dead and all other handles are unaffected.
\<close>

theorem delete_correct:
  assumes "cap_inv cs" "cs_lookup cs p = Some (Some v)"
  shows "if (\<exists>c. under (c_slots cs) (p_slot p) c) then cs_delete cs al p rf = Some ((cs, al, rf), Inl HasChildren)
    else \<exists>cs' al' rf'. cs_delete cs al p rf = Some ((cs', al', rf'), Inr ()) \<and> cap_inv cs' \<and>
      cs_lookup cs' p = Some None \<and> (\<forall>q. q \<noteq> p \<longrightarrow> cs_lookup cs' q = cs_lookup cs q)"
  using assms(1)
proof (cases rule: delete_cases [of cs al p rf])
  case invalid
  then show ?thesis using assms(2) by (simp add: lookup_eq [OF assms(1)] resolve_eq split: if_splits)
next
  case (children c)
  then show ?thesis by auto
next
  case (ok cs' al' rf')
  note L = deletes_lookup [OF assms(1) ok(3)]
  have v: "valid cs p" using assms(2) by (simp add: lookup_eq [OF assms(1)] split: if_splits)
  have "cs_lookup cs' q = cs_lookup cs q" if "q \<noteq> p" for q
  proof (cases "p_slot q = p_slot p")
    case True
    then have "\<not> valid cs q" using v that by (cases q; cases p) (auto simp: valid_def)
    then show ?thesis using L [of q] True by (simp add: lookup_eq [OF assms(1)])
  qed (use L [of q] in simp)
  then show ?thesis using ok(1,4) L [of p] deletes_ok [OF ok(3) assms(1)] by auto
qed

theorem delete_correct_witness:
  "cs_delete scs3 sample_al (sp 0) (Finalized_new [] []) = Some ((scs3, sample_al, Finalized_new [] []), Inl HasChildren)"
proof -
  have "\<exists>c. under (c_slots scs3) (p_slot (sp 0)) c" using sample_under(3) by (auto simp: sp_def)
  then show ?thesis using delete_correct [OF sample_inv(3) sample_lookup(1), of sample_al "Finalized_new [] []"] by simp
qed


section \<open>Authority\<close>

lemma under_edge:
  assumes "cap_inv cs" "under (c_slots cs) a c"
  shows "edge_ok (c_objects cs) (c_slots cs ! c) (c_slots cs ! a)"
  using assms(2)
proof (induction rule: under.induct)
  case (under_child c a)
  then show ?case using assms(1) by (auto simp: cap_inv_def cap_ok_def deriv_ok_def)
next
  case (under_step c p a)
  then have "edge_ok (c_objects cs) (c_slots cs ! c) (c_slots cs ! p)"
    using assms(1) by (auto simp: cap_inv_def cap_ok_def deriv_ok_def)
  then show ?case using under_step.IH by (rule edge_ok_trans)
qed

lemma kind_le_Memory: "kind_le k (Memory w) \<Longrightarrow> \<exists>w'. k = Memory w' \<and> addrs w' \<subseteq> addrs w"
  by (auto simp: kind_le_def win_le_addrs split: ObjectKind.splits)

text \<open>
  C1. Authority is confined: in every reachable state, whatever was derived from a capability in any
  number of steps names the same object, has no right the capability lacks, and, for memory, covers
  no byte outside of it.
\<close>

theorem authority_confined:
  assumes "reach sys_init sys_step (cs, al)" "under (c_slots cs) (p_slot p) (p_slot q)"
    and "cs_lookup cs p = Some (Some (k, r, b))" "cs_lookup cs q = Some (Some (k', r', b'))"
  shows "Rights_contains r r' \<and> s_object (c_slots cs ! p_slot q) = s_object (c_slots cs ! p_slot p) \<and>
    (case k of Memory w \<Rightarrow> \<exists>w'. k' = Memory w' \<and> addrs w' \<subseteq> addrs w | _ \<Rightarrow> k' = k)"
proof -
  have inv: "cap_inv cs" using sys.reach_inv [OF assms(1)] by (simp add: sys_inv_def)
  have v: "cap_view cs (p_slot p) = (k, r, b)" "cap_view cs (p_slot q) = (k', r', b')"
    using assms(3,4) by (simp_all add: lookup_eq [OF inv] split: if_splits)
  have e: "edge_ok (c_objects cs) (c_slots cs ! p_slot q) (c_slots cs ! p_slot p)" by (rule under_edge [OF inv assms(2)])
  have k: "kind_le k' k" and r: "Rights_contains r r'" and o: "s_object (c_slots cs ! p_slot q) = s_object (c_slots cs ! p_slot p)"
    using e v by (auto simp: edge_ok_def cap_view_def)
  have "case k of Memory w \<Rightarrow> \<exists>w'. k' = Memory w' \<and> addrs w' \<subseteq> addrs w | _ \<Rightarrow> k' = k"
    using k kind_le_Memory by (cases k) (auto simp: kind_le_def split: ObjectKind.splits)
  with r o show ?thesis by simp
qed

theorem authority_confined_witness:
  "under (c_slots scs3) (p_slot (sp 0)) (p_slot (sp 2)) \<and> Rights_contains Rights_RW Rights_READ \<and> addrs sample_win \<subseteq> addrs sample_reg"
proof -
  have u: "under (c_slots scs3) (p_slot (sp 0)) (p_slot (sp 2))" using sample_under(3) by (simp add: sp_def)
  from authority_confined [OF sample_reach u sample_lookup(1,3)] u show ?thesis by auto
qed

section \<open>Memory behind capabilities\<close>

lemma lookup_mem_obj:
  assumes "cap_inv cs" "cs_lookup cs p = Some (Some (Memory w, r, b))"
  obtains q where "mem_obj (c_objects cs) (s_object (c_slots cs ! p_slot p)) q" "addrs w \<subseteq> addrs q"
proof -
  let ?s = "c_slots cs ! p_slot p"
  have v: "valid cs p" "cap_view cs (p_slot p) = (Memory w, r, b)" using assms(2) by (simp_all add: lookup_eq [OF assms(1)] split: if_splits)
  then have u: "usd (c_slots cs) (p_slot p)" by (simp add: valid_def)
  note ob = cap_inv_object [OF assms(1) u]
  have sk: "slot_kind (c_objects cs ! s_object ?s) ?s = Memory w" using v(2) by (simp add: cap_view_def)
  then obtain q where q: "o_kind (c_objects cs ! s_object ?s) = Memory q" by (auto simp: slot_kind_def split: ObjectKind.splits)
  have "slot_ok (c_objects cs) ?s" using assms(1) u by (auto simp: cap_inv_def cap_ok_def slots_ok_def)
  then have "kind_le (Memory w) (Memory q)" using sk q by (simp add: slot_ok_def)
  then have "addrs w \<subseteq> addrs q" by (simp add: kind_le_def win_le_addrs)
  with ob q that show thesis by (simp add: mem_obj_def)
qed

text \<open>
  C2. No use after free: in every reachable state of the capability space together with the allocator,
  the memory a capability shows is not in the free list, and two capabilities that show overlapping
  memory refer to the same object.
\<close>

theorem memory_no_use_after_free:
  assumes "reach sys_init sys_step (cs, al)" "cs_lookup cs p = Some (Some (Memory w, r, b))"
  shows "addrs w \<inter> free_set (pa_view al) = {} \<and>
    (\<forall>q w' r' b'. cs_lookup cs q = Some (Some (Memory w', r', b')) \<longrightarrow> addrs w \<inter> addrs w' \<noteq> {} \<longrightarrow>
       s_object (c_slots cs ! p_slot q) = s_object (c_slots cs ! p_slot p))"
proof -
  have I: "cap_inv cs" "mem_ok (c_objects cs) al" using sys.reach_inv [OF assms(1)] by (simp_all add: sys_inv_def)
  obtain g where g: "mem_obj (c_objects cs) (s_object (c_slots cs ! p_slot p)) g" "addrs w \<subseteq> addrs g"
    by (rule lookup_mem_obj [OF I(1) assms(2)])
  have "addrs g \<inter> free_set (pa_view al) = {}" using I(2) g(1) unfolding mem_ok_def by blast
  moreover have "s_object (c_slots cs ! p_slot q) = s_object (c_slots cs ! p_slot p)"
    if q: "cs_lookup cs q = Some (Some (Memory w', r', b'))" "addrs w \<inter> addrs w' \<noteq> {}" for q w' r' b'
  proof -
    obtain h where h: "mem_obj (c_objects cs) (s_object (c_slots cs ! p_slot q)) h" "addrs w' \<subseteq> addrs h"
      by (rule lookup_mem_obj [OF I(1) q(1)])
    have "addrs g \<inter> addrs h \<noteq> {}" using g(2) h(2) q(2) by blast
    then show ?thesis using I(2) g(1) h(1) unfolding mem_ok_def by blast
  qed
  ultimately show ?thesis using g(2) by blast
qed

theorem memory_no_use_after_free_witness: "addrs sample_win \<inter> free_set (pa_view sample_al) = {}"
  using memory_no_use_after_free [OF sample_reach sample_lookup(3)] by simp

section \<open>Totality\<close>

text \<open>
  C32. No call ever panics: in every reachable state every operation, with any arguments, returns a
  result. In particular no index of the tables is out of range and no walk fails.
\<close>

theorem operations_never_panic:
  assumes "reach sys_init sys_step (cs, al)"
  shows "cs_install cs k r \<noteq> None \<and> cs_copy cs p r \<noteq> None \<and> cs_mint cs p r b \<noteq> None \<and>
    cs_subregion cs p off l r \<noteq> None \<and> cs_move_cap cs p \<noteq> None \<and> cs_delete cs al p rf \<noteq> None \<and>
    cs_revoke cs al p rf \<noteq> None \<and> cs_lookup cs p \<noteq> None \<and> kind_of cs p \<noteq> None"
proof -
  have I: "cap_inv cs" using sys.reach_inv [OF assms] by (simp add: sys_inv_def)
  have "cs_install cs k r \<noteq> None" by (rule install_cases [OF I, of k r]) simp_all
  moreover have "cs_copy cs p r \<noteq> None" by (rule copy_cases [OF I, of p r]) simp_all
  moreover have "cs_mint cs p r b \<noteq> None" by (rule mint_cases [OF I, of p r b]) simp_all
  moreover have "cs_subregion cs p off l r \<noteq> None" by (rule subregion_cases [OF I, of p off l r]) simp_all
  moreover have "cs_move_cap cs p \<noteq> None" by (rule move_cases [OF I, of p]) simp_all
  moreover have "cs_delete cs al p rf \<noteq> None" by (rule delete_cases [OF I, of al p rf]) simp_all
  moreover have "cs_revoke cs al p rf \<noteq> None" by (rule revoke_cases [OF I, of al p rf]) simp_all
  moreover have "cs_lookup cs p \<noteq> None" by (simp add: lookup_eq [OF I])
  moreover have "kind_of cs p \<noteq> None"
    using cap_inv_object [OF I, of "p_slot p"] by (simp add: kind_of_def resolve_eq valid_def tget_Some usd_lt)
  ultimately show ?thesis by blast
qed

theorem operations_never_panic_witness:
  "cs_move_cap scs3 (sp 1) \<noteq> None \<and> cs_revoke scs3 sample_al (sp 0) (Finalized_new [] []) \<noteq> None"
  using operations_never_panic [OF sample_reach, of "Endpoint 0" 0 "sp 1" 0 0 0 "Finalized_new [] []"]
    operations_never_panic [OF sample_reach, of "Endpoint 0" 0 "sp 0" 0 0 0 "Finalized_new [] []"] by simp

end
