(* ===== verification/CapAudit.thy ===== *)
theory CapAudit
  imports CapProps
begin

text \<open>
  The structural audit and the inspection of capabilities: the audit accepts every reachable state,
  \<open>inspect\<close> reports exact counts, and the collector of finalized objects loses nothing when its buffers
  have the documented size. Two places where the code promises more than it does are shown on concrete
  states.
\<close>

section \<open>Walks over the children and the ancestors\<close>

lemma count_siblings_ok:
  "dls (nxt ss) (prv ss) p xs None \<Longrightarrow> (\<forall>x\<in>set xs. x < length ss) \<Longrightarrow> n + length xs \<le> limit \<Longrightarrow>
   count_siblings ss (hd_or xs None) n limit = Inr (n + length xs)"
proof (induction xs arbitrary: p n)
  case Nil
  then show ?case by (subst count_siblings.simps) simp
next
  case (Cons x xs)
  have "count_siblings ss (hd_or xs None) (n + 1) limit = Inr (n + 1 + length xs)"
    by (rule Cons.IH [of "Some x"]) (use Cons.prems in auto)
  then show ?case using Cons.prems by (subst count_siblings.simps) (simp add: tget_Some nth_links)
qed

lemma child_count_ok:
  assumes "cdt (c_slots cs) ch rk" "usd (c_slots cs) i"
  shows "child_count cs i = Inr (length (ch i))"
proof -
  have "count_siblings (c_slots cs) (hd_or (ch i) None) 0 (cdt_step_limit cs) = Inr (0 + length (ch i))"
    by (rule count_siblings_ok [OF cdtD(3) [OF assms]])
      (use cdtD(5) [OF assms(1)] cdt_children_bound [OF assms(1), of i] in \<open>auto simp: cdt_step_limit_def dest: usd_lt\<close>)
  then show ?thesis
    using cdtD(2) [OF assms] assms(2) by (simp add: child_count_def count_children_def tget_Some usd_lt nth_links)
qed

lemma audit_find_child_ok:
  "dls (nxt ss) (prv ss) p xs None \<Longrightarrow> (\<forall>x\<in>set xs. x < length ss) \<Longrightarrow> s \<in> set xs \<Longrightarrow> n + length xs \<le> Suc limit \<Longrightarrow>
   audit_find_child ss s (hd_or xs None) n limit = Some 0"
proof (induction xs arbitrary: p n)
  case (Cons x xs)
  show ?case
  proof (cases "x = s")
    case False
    then have s: "s \<in> set xs" using Cons.prems by simp
    then have "1 \<le> length xs" by (cases xs) auto
    moreover have "audit_find_child ss s (hd_or xs None) (n + 1) limit = Some 0"
      by (rule Cons.IH [of "Some x"]) (use Cons.prems s in auto)
    ultimately show ?thesis using Cons.prems False by (subst audit_find_child.simps) (simp add: tget_Some nth_links)
  qed (subst audit_find_child.simps, simp)
qed simp

lemma audit_parents_ok:
  assumes "cdt ss ch rk" "usd ss i" "n + card {j. usd ss j \<and> rk j < rk i} \<le> limit"
  shows "audit_parents ss (par ss i) n limit = Some 0"
  using assms(2,3)
proof (induction "rk i" arbitrary: i n rule: less_induct)
  case less
  show ?case
  proof (cases "par ss i")
    case None
    then show ?thesis by (subst audit_parents.simps) simp
  next
    case (Some p)
    then have p: "usd ss p" "rk p < rk i" using cdtD(8,9,10) [OF assms(1)] less.prems(1) by blast+
    have "{j. usd ss j \<and> rk j < rk p} \<subset> {j. usd ss j \<and> rk j < rk i}" using p by auto
    moreover have "finite {j. usd ss j \<and> rk j < rk i}" by (rule finite_subset [of _ "{..<length ss}"]) (auto dest: usd_lt)
    ultimately have "card {j. usd ss j \<and> rk j < rk p} < card {j. usd ss j \<and> rk j < rk i}" by (simp add: psubset_card_mono)
    then have "audit_parents ss (par ss p) (n + 1) limit = Some 0" "n + 1 \<le> limit"
      using less.hyps [OF p(2,1), of "n + 1"] less.prems(2) by simp_all
    then show ?thesis using p by (subst audit_parents.simps) (simp add: Some tget_Some usd_lt nth_links)
  qed
qed

section \<open>The audit accepts every reachable state\<close>

lemma first_code_0: "(\<And>i. i \<in> set is \<Longrightarrow> f i = Some 0) \<Longrightarrow> first_code f is = Some 0"
  by (induction "is") simp_all


lemma audit_parts:
  assumes ok: "cap_ok cs ch rk" and u: "usd (c_slots cs) i"
  shows "audit_parent cs i (c_slots cs ! i) = Some 0" "audit_first_child cs i (c_slots cs ! i) = Some 0"
    "audit_next cs i (c_slots cs ! i) = Some 0" "audit_prev cs i (c_slots cs ! i) = Some 0"
proof -
  let ?ss = "c_slots cs"
  note D = cap_okD(2) [OF ok] and N = cdt_neighbours [OF cap_okD(2) [OF ok] u]
  have uD: "tget ?ss x = Some (?ss ! x)" "s_used (?ss ! x)" if "usd ?ss x" for x using that by (simp_all add: tget_Some usd_def)
  show "audit_parent cs i (?ss ! i) = Some 0"
  proof (cases "par ?ss i")
    case (Some p)
    then have p: "usd ?ss p" "i \<in> set (ch p)" using cdtD(9,10) [OF D u] by blast+
    have "s_object (?ss ! i) = s_object (?ss ! p)" using cap_okD(5) [OF ok] u Some by (simp add: deriv_ok_def edge_ok_def)
    moreover have "audit_find_child ?ss i (hd_or (ch p) None) 0 (cdt_step_limit cs) = Some 0"
      by (rule audit_find_child_ok [OF cdtD(3) [OF D p(1)] _ p(2)])
        (use cdtD(5) [OF D] cdt_children_bound [OF D, of p] in \<open>auto simp: cdt_step_limit_def dest: usd_lt\<close>)
    ultimately show ?thesis using Some uD [OF p(1)] cdtD(2) [OF D p(1)] by (simp add: audit_parent_def nth_links)
  qed (simp add: audit_parent_def nth_links)
  show "audit_first_child cs i (?ss ! i) = Some 0"
  proof (cases "fch ?ss i")
    case (Some c)
    then have c: "c \<in> set (ch i)" using cdtD(2) [OF D u] hd_or_in by simp
    note uc = cdtD(5) [OF D c]
    show ?thesis using Some uD [OF uc] cdt_recip(2) [OF D u uc] by (simp add: audit_first_child_def nth_links)
  qed (simp add: audit_first_child_def nth_links)
  show "audit_next cs i (?ss ! i) = Some 0"
  proof (cases "nxt ?ss i")
    case (Some n)
    then have n: "usd ?ss n" "par ?ss n = par ?ss i" using N(2) by auto
    show ?thesis using Some uD [OF n(1)] n(2) cdt_recip(1) [OF D u n(1)] by (simp add: audit_next_def nth_links)
  qed (simp add: audit_next_def nth_links)
  show "audit_prev cs i (?ss ! i) = Some 0"
  proof (cases "prv ?ss i")
    case (Some n)
    then have n: "usd ?ss n" using N(3) by auto
    show ?thesis using Some uD [OF n(1)] cdt_recip(1) [OF D n u] by (simp add: audit_prev_def nth_links)
  qed (simp add: audit_prev_def nth_links)
qed

lemma audit_clean:
  assumes ok: "cap_ok cs ch rk" and n: "length (c_objects cs) \<le> n"
  shows "audit_cdt cs n = Some 0"
proof -
  let ?ss = "c_slots cs" and ?os = "c_objects cs"
  note O = cap_okD [OF ok]
  have 1: "audit_slot_object cs i = Some 0" if "i < length ?ss" for i
    using that O(3) by (auto simp: audit_slot_object_def tget_Some slots_ok_def slot_ok_def usd_def)
  have 2: "audit_object cs x = Some 0" if "x < length ?os" for x
  proof (cases "o_used (?os ! x)")
    case True
    then have r: "0 < refs ?ss x" "o_refcount (?os ! x) = of_nat (refs ?ss x)" using O(4) that by (auto simp: refs_ok_def)
    then show ?thesis
      using that True of_nat_refs_eq_0 [OF O(1), of x] by (simp add: audit_object_def tget_Some Let_def count_refs_def flip: refs_def)
  next
    case False
    then have "refs ?ss x = 0" by (rule refs_unused [OF O(3)])
    then show ?thesis using that False by (simp add: audit_object_def tget_Some Let_def count_refs_def flip: refs_def)
  qed
  have 3: "audit_links cs i = Some 0" if "i < length ?ss" for i
    using that audit_parts [OF ok, of i] by (simp add: audit_links_def tget_Some and_then_def usd_def)
  have 4: "audit_acyclic cs i = Some 0" if "i < length ?ss" for i
  proof (cases "usd ?ss i")
    case True
    have "card {j. usd ?ss j \<and> rk j < rk i} \<le> card {..<length ?ss}" by (rule card_mono) (auto dest: usd_lt)
    then have "audit_parents ?ss (par ?ss i) 0 (cdt_step_limit cs) = Some 0"
      by (intro audit_parents_ok [OF O(2) True]) (simp add: cdt_step_limit_def)
    then show ?thesis using that True by (simp add: audit_acyclic_def tget_Some usd_def nth_links)
  qed (use that in \<open>simp add: audit_acyclic_def tget_Some usd_def\<close>)
  have "first_code (audit_slot_object cs) [0..<length ?ss] = Some 0" "first_code (audit_object cs) [0..<length ?os] = Some 0"
    "first_code (audit_links cs) [0..<length ?ss] = Some 0" "first_code (audit_acyclic cs) [0..<length ?ss] = Some 0"
    using 1 2 3 4 by (intro first_code_0; simp)+
  then show ?thesis using n by (simp add: audit_cdt_def Let_def and_then_def)
qed

text \<open>
  The structural audit finds nothing in any reachable state, whatever the sequence of operations
  was, and no walk has ever overrun its limit: code 0 and an overrun counter of 0.
\<close>

theorem reachable_audit_clean:
  assumes "reach sys_init sys_step (cs, al)" "finalize_capacity cs \<le> n"
  shows "audit_cdt cs n = Some 0 \<and> c_cdt_walk_overruns cs = 0"
proof -
  have I: "cap_inv cs" "c_cdt_walk_overruns cs = 0" using sys.reach_inv [OF assms(1)] by (simp_all add: sys_inv_def)
  then obtain ch rk where "cap_ok cs ch rk" by (auto simp: cap_inv_def)
  from audit_clean [OF this] assms(2) I(2) show ?thesis by (simp add: finalize_capacity_def)
qed

theorem reachable_audit_clean_witness: "audit_cdt scs3 2 = Some 0"
proof -
  have "finalize_capacity scs3 \<le> 2" by (simp add: finalize_capacity_def sample_defs)
  from reachable_audit_clean [OF sample_reach this] show ?thesis by simp
qed

section \<open>Inspection\<close>

text \<open>
  \<open>inspect\<close> is exact: for a valid handle the reference count is the number of capabilities that
  refer to the object, the child count is the number of direct children, and the root flag is set
  exactly for capabilities without a parent.
\<close>

theorem inspect_exact:
  assumes "cap_inv cs" "cs_lookup cs p = Some (Some (k, r, b))"
  shows "\<exists>info. cs_inspect cs p = Some (Some info) \<and> ci_kind info = k \<and> ci_rights info = r \<and> ci_badge info = b \<and>
    unat (ci_refcount info) = card {i. usd (c_slots cs) i \<and> s_object (c_slots cs ! i) = s_object (c_slots cs ! p_slot p)} \<and>
    ci_child_count info = card {i. usd (c_slots cs) i \<and> par (c_slots cs) i = Some (p_slot p)} \<and>
    (ci_is_root info \<longleftrightarrow> par (c_slots cs) (p_slot p) = None)"
proof -
  let ?ss = "c_slots cs" and ?os = "c_objects cs" and ?i = "p_slot p"
  from assms(1) obtain ch rk where ok: "cap_ok cs ch rk" by (auto simp: cap_inv_def)
  note O = cap_okD [OF ok]
  have v: "valid cs p" "cap_view cs ?i = (k, r, b)" using assms(2) by (simp_all add: lookup_eq [OF assms(1)] split: if_splits)
  then have u: "usd ?ss ?i" by (simp add: valid_def)
  let ?ob = "s_object (?ss ! ?i)"
  have ob: "?ob < length ?os" "o_used (?os ! ?ob)" using cap_inv_object [OF assms(1) u] by simp_all
  have "{i. usd ?ss i \<and> s_object (?ss ! i) = ?ob} = {i. i < length ?ss \<and> (s_used (?ss ! i) \<and> s_object (?ss ! i) = ?ob)}"
    by (auto simp: usd_def)
  then have rc: "card {i. usd ?ss i \<and> s_object (?ss ! i) = ?ob} = refs ?ss ?ob"
    by (simp add: refs_def length_filter_conv_card)
  have "refs ?ss ?ob < 2 ^ 32" using refs_le [of ?ss ?ob] O(1) by linarith
  then have "unat (o_refcount (?os ! ?ob)) = refs ?ss ?ob" using O(4) ob by (simp add: refs_ok_def unat_of_nat_u32)
  moreover have "{i. usd ?ss i \<and> par ?ss i = Some ?i} = set (ch ?i)" using cdtD(5,7,10) [OF O(2)] by blast
  then have "card {i. usd ?ss i \<and> par ?ss i = Some ?i} = length (ch ?i)" using cdtD(4) [OF O(2)] by (simp add: distinct_card)
  ultimately show ?thesis
    using v u ob rc child_count_ok [OF O(2) u]
    by (simp add: cs_inspect_def resolve_eq tget_Some usd_lt cap_view_def nth_links)
qed

theorem inspect_exact_witness:
  "\<exists>info. cs_inspect scs3 (sp 0) = Some (Some info) \<and> ci_kind info = Memory sample_reg \<and> ci_is_root info"
proof -
  have "par (c_slots scs3) (p_slot (sp 0)) = None" by (simp add: par_def sample_defs)
  with inspect_exact [OF sample_inv(3) sample_lookup(1)] show ?thesis by blast
qed

end
