(* ===== verification/CapFinal.thy ===== *)
theory CapFinal
  imports CapAudit
begin

text \<open>
  The collector of finalized objects: with buffers of the documented size a deletion or a revocation
  reports every reply and every DMA region that dies, exactly once per object, and never overflows. For
  the debug reports the documented size is not enough, which a concrete run shows.
\<close>

section \<open>What dies\<close>

definition reply_of :: "ObjectKind \<Rightarrow> (u32 \<times> u64) option" where
  "reply_of k = (case k of Reply ep c \<Rightarrow> Some (ep, c) | _ \<Rightarrow> None)"

definition dma_of :: "ObjectKind \<Rightarrow> (u64 \<times> u64) option" where
  "dma_of k = (case k of Dma a l _ _ \<Rightarrow> Some (a, l) | _ \<Rightarrow> None)"

definition live :: "(ObjectKind \<Rightarrow> 'a option) \<Rightarrow> Object list \<Rightarrow> nat set" where
  "live sel os = {x. x < length os \<and> o_used (os ! x) \<and> sel (o_kind (os ! x)) \<noteq> None}"

definition gone :: "(ObjectKind \<Rightarrow> 'a option) \<Rightarrow> Object list \<Rightarrow> Object list \<Rightarrow> 'a set" where
  "gone sel os os' = {v. \<exists>x<length os. o_used (os ! x) \<and> sel (o_kind (os ! x)) = Some v \<and> \<not> o_used (os' ! x)}"

definition has_room :: "Finalized \<Rightarrow> Object list \<Rightarrow> nat \<Rightarrow> bool" where
  "has_room rf os m \<longleftrightarrow> f_n rf + card (live reply_of os) \<le> length (f_items rf) \<and>
     f_dn rf + card (live dma_of os) \<le> length (f_dma rf) \<and> f_gn rf + m \<le> length (f_debug rf)"

lemma finite_live: "finite (live sel os)"
  by (rule finite_subset [of _ "{..<length os}"]) (auto simp: live_def)

lemma gone_refl: "gone sel os os = {}"
  by (auto simp: gone_def)

lemma gone_trans:
  assumes "length os1 = length os" "\<And>x. x < length os \<Longrightarrow> o_used (os1 ! x) \<Longrightarrow> o_used (os ! x) \<and> o_kind (os1 ! x) = o_kind (os ! x)"
    "\<And>x. x < length os \<Longrightarrow> o_used (os2 ! x) \<Longrightarrow> o_used (os1 ! x)"
  shows "gone sel os os2 = gone sel os os1 \<union> gone sel os1 os2"
proof (intro equalityI subsetI)
  fix v
  assume "v \<in> gone sel os os2"
  then obtain x where x: "x < length os" "o_used (os ! x)" "sel (o_kind (os ! x)) = Some v" "\<not> o_used (os2 ! x)" by (auto simp: gone_def)
  then show "v \<in> gone sel os os1 \<union> gone sel os1 os2"
    using assms(1) assms(2) [of x] by (cases "o_used (os1 ! x)") (force simp: gone_def)+
next
  fix v
  assume "v \<in> gone sel os os1 \<union> gone sel os1 os2"
  then obtain x where "x < length os" "(o_used (os ! x) \<and> sel (o_kind (os ! x)) = Some v \<and> \<not> o_used (os1 ! x)) \<or>
      (o_used (os1 ! x) \<and> sel (o_kind (os1 ! x)) = Some v \<and> \<not> o_used (os2 ! x))"
    using assms(1) by (auto simp: gone_def)
  with assms(2,3) [of x] show "v \<in> gone sel os os2" by (auto simp: gone_def)
qed

section \<open>One deletion\<close>

lemma f_push_room:
  "f_n rf < length (f_items rf) \<Longrightarrow> f_iter (f_push rf a b) = f_iter rf @ [(a, b)]"
  "f_dn rf < length (f_dma rf) \<Longrightarrow> f_iter_dma (f_push_dma rf c d) = f_iter_dma rf @ [(c, d)]"
  "f_gn rf < length (f_debug rf) \<Longrightarrow> f_iter_debug (f_push_debug rf pd) = f_iter_debug rf @ [pd]"
  by (simp_all add: f_push_def f_push_dma_def f_push_debug_def f_iter_def f_iter_dma_def f_iter_debug_def take_Suc_conv_app_nth)

definition debug_report :: "ObjectKind \<Rightarrow> CapSlot \<Rightarrow> u16 set" where
  "debug_report k s = {pd. k = Debuggable pd \<and> Rights_contains (s_rights s) Rights_WRITE \<and> m_parent (s_mdb s) \<noteq> None}"

lemma report_debug_room:
  assumes "has_room rf os (Suc m)"
  shows "has_room (report_debug rf k s) os m" "f_overflow (report_debug rf k s) = f_overflow rf"
    "f_iter (report_debug rf k s) = f_iter rf" "f_iter_dma (report_debug rf k s) = f_iter_dma rf"
    "set (f_iter_debug (report_debug rf k s)) = set (f_iter_debug rf) \<union> debug_report k s"
proof -
  have g: "f_gn rf < length (f_debug rf)" using assms by (simp add: has_room_def)
  show "has_room (report_debug rf k s) os m" "f_overflow (report_debug rf k s) = f_overflow rf"
    "f_iter (report_debug rf k s) = f_iter rf" "f_iter_dma (report_debug rf k s) = f_iter_dma rf"
    using assms g by (auto simp: report_debug_def f_push_debug_def has_room_def f_iter_def f_iter_dma_def split: ObjectKind.split)
  show "set (f_iter_debug (report_debug rf k s)) = set (f_iter_debug rf) \<union> debug_report k s"
    using f_push_room(3) [OF g] by (auto simp: report_debug_def debug_report_def split: ObjectKind.split)
qed

text \<open>
  \<open>reported rf os rf' os' D\<close>: between two states nothing overflowed, the replies and DMA regions that
  died were reported, and the debug reports are \<open>D\<close>.
\<close>

definition reported :: "Finalized \<Rightarrow> Object list \<Rightarrow> Finalized \<Rightarrow> Object list \<Rightarrow> u16 set \<Rightarrow> bool" where
  "reported rf os rf' os' D \<longleftrightarrow> f_overflow rf' = f_overflow rf \<and>
     set (f_iter rf') = set (f_iter rf) \<union> gone reply_of os os' \<and>
     set (f_iter_dma rf') = set (f_iter_dma rf) \<union> gone dma_of os os' \<and>
     set (f_iter_debug rf') = set (f_iter_debug rf) \<union> D"

lemma release_live:
  assumes "x < length os" "o_used (os ! x)" "os' = os[x := Object_EMPTY\<lparr>o_gen := g\<rparr>]"
  shows "gone sel os os' = set_option (sel (o_kind (os ! x)))"
    "sel (o_kind (os ! x)) \<noteq> None \<Longrightarrow> card (live sel os) = Suc (card (live sel os'))"
    "sel (o_kind (os ! x)) = None \<Longrightarrow> live sel os' = live sel os"
proof -
  have L: "live sel os' = live sel os - {x}" using assms(1,3) by (auto simp: live_def nth_list_update)
  show "gone sel os os' = set_option (sel (o_kind (os ! x)))" using assms by (auto simp: gone_def nth_list_update)
  show "sel (o_kind (os ! x)) = None \<Longrightarrow> live sel os' = live sel os" using L by (auto simp: live_def)
  assume "sel (o_kind (os ! x)) \<noteq> None"
  then have "x \<in> live sel os" using assms(1,2) by (simp add: live_def)
  then show "card (live sel os) = Suc (card (live sel os'))"
    unfolding L using finite_live [of sel os] by (metis card_Suc_Diff1)
qed

lemma finalize_kind_room:
  assumes "has_room rf os m" "x < length os" "o_used (os ! x)" "os' = os[x := Object_EMPTY\<lparr>o_gen := g\<rparr>]"
    "rf' = snd (finalize_kind al rf (o_kind (os ! x)))"
  shows "has_room rf' os' m \<and> reported rf os rf' os' {}"
proof -
  let ?k = "o_kind (os ! x)"
  note R = release_live [OF assms(2-4), of reply_of] and M = release_live [OF assms(2-4), of dma_of]
  consider (reply) ep cl where "?k = Reply ep cl" | (dma) a l d co where "?k = Dma a l d co"
    | (other) "reply_of ?k = None" "dma_of ?k = None" "rf' = rf"
    by (cases ?k) (auto simp: reply_of_def dma_of_def assms(5) finalize_kind_def)
  then show ?thesis
  proof cases
    case reply
    have s: "reply_of ?k = Some (ep, cl)" "dma_of ?k = None" using reply by (simp_all add: reply_of_def dma_of_def)
    have n: "f_n rf < length (f_items rf)" using assms(1) R(2) s by (simp add: has_room_def)
    have rf': "rf' = f_push rf ep cl" using reply by (simp add: assms(5) finalize_kind_def)
    show ?thesis
      unfolding reported_def R(1) M(1) rf' f_push_room(1) [OF n] s
      using assms(1) n R(2) M(3) s by (simp add: has_room_def f_push_def f_iter_dma_def f_iter_debug_def)
  next
    case dma
    have s: "dma_of ?k = Some (a, l)" "reply_of ?k = None" using dma by (simp_all add: reply_of_def dma_of_def)
    have n: "f_dn rf < length (f_dma rf)" using assms(1) M(2) s by (simp add: has_room_def)
    have rf': "rf' = f_push_dma rf a l" using dma by (simp add: assms(5) finalize_kind_def)
    show ?thesis
      unfolding reported_def R(1) M(1) rf' f_push_room(2) [OF n] s
      using assms(1) n M(2) R(3) s by (simp add: has_room_def f_push_dma_def f_iter_def f_iter_debug_def)
  next
    case other
    then show ?thesis using assms(1) R M by (simp add: reported_def has_room_def)
  qed
qed

lemma live_cong:
  assumes "length os' = length os" "\<And>x. o_used (os' ! x) = o_used (os ! x)" "\<And>x. o_kind (os' ! x) = o_kind (os ! x)"
  shows "live sel os' = live sel os" "gone sel os os' = {}"
  using assms by (simp_all add: live_def gone_def)

lemma delete_leaf_reported:
  assumes "cap_ok cs ch rk" "usd (c_slots cs) s" "ch s = []" "has_room rf (c_objects cs) (Suc m)"
    and del: "delete_leaf (note_walk cs k) al s rf = Some (cs1, al1, rf1)"
  shows "has_room rf1 (c_objects cs1) m"
    "reported rf (c_objects cs) rf1 (c_objects cs1) (debug_report (o_kind (c_objects cs ! s_object (c_slots cs ! s))) (c_slots cs ! s))"
proof -
  let ?os = "c_objects cs" and ?s = "c_slots cs ! s"
  let ?ob = "s_object ?s"
  let ?rf = "report_debug rf (o_kind (?os ! ?ob)) ?s"
  have ob: "?ob < length ?os" "o_used (?os ! ?ob)"
    using cap_okD(3) [OF assms(1)] assms(2) by (auto simp: slots_ok_def slot_ok_def)
  note B = report_debug_room [OF assms(4), of "o_kind (?os ! ?ob)" ?s]
  have e: "(al1, rf1) = (if refs (c_slots cs) ?ob = 1 then finalize_kind al ?rf (o_kind (?os ! ?ob)) else (al, ?rf)) \<and>
    c_objects cs1 = ?os[?ob := (if refs (c_slots cs) ?ob = 1 then Object_EMPTY\<lparr>o_gen := o_gen (?os ! ?ob) + 1\<rparr>
        else (?os ! ?ob)\<lparr>o_refcount := o_refcount (?os ! ?ob) - 1\<rparr>)]"
    by (rule delete_leaf_note_walk [OF assms(1-3), of k al rf]) (use del in auto)
  have "has_room rf1 (c_objects cs1) m \<and> reported ?rf ?os rf1 (c_objects cs1) {}"
  proof (cases "refs (c_slots cs) ?ob = 1")
    case True
    have rf1: "rf1 = snd (finalize_kind al ?rf (o_kind (?os ! ?ob)))" using e True by (metis snd_conv)
    show ?thesis using e True by (intro finalize_kind_room [OF B(1) ob _ rf1]) simp
  next
    case False
    have "length (c_objects cs1) = length ?os" "o_used (c_objects cs1 ! x) = o_used (?os ! x)"
      "o_kind (c_objects cs1 ! x) = o_kind (?os ! x)" for x
      using e False ob by (simp_all add: nth_list_update)
    note C = live_cong [OF this]
    have "rf1 = ?rf" using e False by simp
    then show ?thesis using B(1) unfolding reported_def has_room_def C by simp
  qed
  then show "has_room rf1 (c_objects cs1) m" "reported rf ?os rf1 (c_objects cs1) (debug_report (o_kind (?os ! ?ob)) ?s)"
    using B by (auto simp: reported_def)
qed

section \<open>Whole operations\<close>

text \<open>The debug report that the deletion of a slot causes does not depend on deletions before it.\<close>

definition slot_report :: "CapSpace \<Rightarrow> nat \<Rightarrow> u16 set" where
  "slot_report cs i = debug_report (o_kind (c_objects cs ! s_object (c_slots cs ! i))) (c_slots cs ! i)"

lemma slot_report_deletes:
  assumes "deletes (cs, al, rf) xs (cs', al', rf')" "cap_inv cs" "usd (c_slots cs') i"
  shows "slot_report cs' i = slot_report cs i"
proof -
  note D = deletes_ok [OF assms(1,2)]
  then have i: "par (c_slots cs') i = par (c_slots cs) i" and b: "bare (c_slots cs' ! i) = bare (c_slots cs ! i)" and inv: "cap_inv cs'"
    using assms(3) by blast+
  have "o_kind (c_objects cs' ! s_object (c_slots cs ! i)) = o_kind (c_objects cs ! s_object (c_slots cs ! i))"
    using cap_inv_object [OF inv assms(3)] D bare_eqD(3) [OF b] by simp
  then show ?thesis using i bare_eqD [OF b] by (simp add: slot_report_def debug_report_def par_def)
qed

lemma deletes_reported:
  assumes "deletes (cs, al, rf) xs (cs', al', rf')" "cap_inv cs" "has_room rf (c_objects cs) (length xs)"
  shows "reported rf (c_objects cs) rf' (c_objects cs') (\<Union>i\<in>set xs. slot_report cs i)"
  using assms
proof (induction "(cs, al, rf)" xs "(cs', al', rf')" arbitrary: cs al rf rule: deletes.induct)
  case deletes_nil
  then show ?case by (simp add: reported_def gone_refl)
next
  case (deletes_cons cs ch rk s k al rf st1 xs)
  obtain cs1 al1 rf1 where st1: "st1 = (cs1, al1, rf1)" by (cases st1)
  have "has_room rf (c_objects cs) (Suc (length xs))" using deletes_cons(8) by simp
  note R = delete_leaf_reported [OF deletes_cons(1-3) this deletes_cons(4) [unfolded st1]]
  have d1: "deletes (cs, al, rf) [s] (cs1, al1, rf1)"
    using deletes.deletes_cons [OF deletes_cons(1-4) [unfolded st1] deletes_nil] .
  note D1 = deletes_ok [OF d1 deletes_cons(7)]
  then have inv1: "cap_inv cs1" by blast
  note D2 = deletes_ok [OF deletes_cons(5) [unfolded st1] inv1]
  have "slot_report cs1 i = slot_report cs i" if "i \<in> set xs" for i
    using D2 that by (intro slot_report_deletes [OF d1 deletes_cons(7)]) blast
  then have D: "reported rf1 (c_objects cs1) rf' (c_objects cs') (\<Union>i\<in>set xs. slot_report cs i)"
    using deletes_cons(6) [OF st1 inv1 R(1)] by simp
  have G: "gone sel (c_objects cs) (c_objects cs') = gone sel (c_objects cs) (c_objects cs1) \<union> gone sel (c_objects cs1) (c_objects cs')"
    for sel :: "ObjectKind \<Rightarrow> (u32 \<times> u64) option" by (rule gone_trans) (use D1 D2 in auto)
  have G': "gone sel (c_objects cs) (c_objects cs') = gone sel (c_objects cs) (c_objects cs1) \<union> gone sel (c_objects cs1) (c_objects cs')"
    for sel :: "ObjectKind \<Rightarrow> (u64 \<times> u64) option" by (rule gone_trans) (use D1 D2 in auto)
  show ?case using R(2) D unfolding reported_def G G' by (simp add: slot_report_def Un_assoc)
qed

lemma card_live_le: "card (live reply_of os) \<le> length os" "card (live dma_of os) \<le> length os"
  using card_mono [of "{..<length os}" "live reply_of os"] card_mono [of "{..<length os}" "live dma_of os"]
  by (auto simp: live_def)

text \<open>
  Revocation loses no report: with reply and DMA buffers of \<open>finalize_capacity\<close> entries and a debug
  buffer with one entry per slot, \<open>revoke\<close> does not overflow the collector, and the collector holds
  precisely the replies and the DMA regions whose objects died and the domains whose debug control was
  deleted.
\<close>

theorem revoke_reports_all:
  assumes "cap_inv cs" "length items = finalize_capacity cs" "length dma = finalize_capacity cs" "length debug = length (c_slots cs)"
    and "cs_revoke cs al p (Finalized_mit_debug items dma debug) = Some ((cs', al', rf'), Inr ())"
  shows "\<not> f_overflow rf' \<and> set (f_iter rf') = gone reply_of (c_objects cs) (c_objects cs') \<and>
    set (f_iter_dma rf') = gone dma_of (c_objects cs) (c_objects cs') \<and>
    set (f_iter_debug rf') = (\<Union>i\<in>{i. under (c_slots cs) (p_slot p) i}. slot_report cs i)"
  using assms(1)
proof (cases rule: revoke_cases [of cs al p "Finalized_mit_debug items dma debug"])
  case invalid
  then show ?thesis using assms(5) by simp
next
  case (ok cs2 al2 rf2 cs1 xs)
  have e: "cs2 = cs'" "rf2 = rf'" using ok(1) assms(5) by simp_all
  have "distinct xs" "\<forall>i\<in>set xs. usd (c_slots cs) i" using deletes_ok [OF ok(3) assms(1)] by blast+
  then have "length xs \<le> length (c_slots cs)"
    using card_mono [of "{..<length (c_slots cs)}" "set xs"] by (auto simp: distinct_card dest: usd_lt)
  then have "has_room (Finalized_mit_debug items dma debug) (c_objects cs) (length xs)"
    using assms(2-4) card_live_le by (simp add: has_room_def Finalized_mit_debug_def finalize_capacity_def)
  from deletes_reported [OF ok(3) assms(1) this] show ?thesis
    using e ok(4,6) by (simp add: reported_def Finalized_mit_debug_def f_iter_def f_iter_dma_def f_iter_debug_def)
qed


section \<open>A concrete run with debug capabilities\<close>

text \<open>One debuggable object, its root capability in slot 0 and two controlling copies in slots 1 and 2.\<close>

definition dslot :: "nat option \<Rightarrow> nat option \<Rightarrow> nat option \<Rightarrow> nat option \<Rightarrow> CapSlot" where
  "dslot p f n v = (slotv 0 Rights_RW None p f)\<lparr>s_mdb := \<lparr>m_parent = p, m_first_child = f, m_next = n, m_prev = v\<rparr>\<rparr>"

definition dcs0 :: CapSpace where "dcs0 = space [CapSlot_EMPTY, CapSlot_EMPTY, CapSlot_EMPTY] [Object_EMPTY] 0"
definition dcs1 :: CapSpace where
  "dcs1 = space [dslot None None None None, CapSlot_EMPTY, CapSlot_EMPTY] [objv (Debuggable 3) 1] 1"
definition dcs2 :: CapSpace where
  "dcs2 = space [dslot None (Some 1) None None, dslot (Some 0) None None None, CapSlot_EMPTY] [objv (Debuggable 3) 2] 2"
definition dcs3 :: CapSpace where
  "dcs3 = space [dslot None (Some 2) None None, dslot (Some 0) None None (Some 2), dslot (Some 0) None (Some 1) None]
     [objv (Debuggable 3) 3] 3"

definition dead :: CapSlot where "dead = CapSlot_EMPTY\<lparr>s_gen := 1\<rparr>"
definition dcs4 :: CapSpace where
  "dcs4 = space [dslot None (Some 1) None None, dslot (Some 0) None None None, dead] [objv (Debuggable 3) 2] 3"
definition dcs5 :: CapSpace where
  "dcs5 = space [dslot None None None None, dead, dead] [objv (Debuggable 3) 1] 3"

lemmas debug_defs = dcs0_def dcs1_def dcs2_def dcs3_def dcs4_def dcs5_def dslot_def dead_def space_def slotv_def objv_def sp_def

lemma debug_run:
  "install_debuggable dcs0 3 Rights_RW = Some (dcs1, Inr (sp 0))"
  "cs_copy dcs1 (sp 0) Rights_RW = Some (dcs2, Inr (sp 1))" "cs_copy dcs2 (sp 0) Rights_RW = Some (dcs3, Inr (sp 2))"
  by (simp_all add: cap_eval debug_defs install_debuggable_def)

lemma debug_reach: "reach sys_init sys_step (dcs3, PhysAllocator_new)"
proof -
  have "cs_attach CapSpace_new [CapSlot_EMPTY, CapSlot_EMPTY, CapSlot_EMPTY] [Object_EMPTY] = Some dcs0"
    by (simp add: cs_attach_def CapSpace_new_def debug_defs)
  then have "sys_init (dcs0, PhysAllocator_new)" unfolding sys_init_def
    by (intro conjI exI [of _ "[CapSlot_EMPTY, CapSlot_EMPTY, CapSlot_EMPTY]"] exI [of _ "[Object_EMPTY]"]) auto
  then have 0: "reach sys_init sys_step (dcs0, PhysAllocator_new)" by (rule reach_init)
  have "sys_step (dcs0, PhysAllocator_new) (dcs1, PhysAllocator_new)"
    by (rule sy_install [of "Debuggable 3"]) (use debug_run(1) in \<open>simp_all add: is_mem_def install_debuggable_def\<close>)
  with 0 have "reach sys_init sys_step (dcs1, PhysAllocator_new)" by (rule reach_step)
  then have "reach sys_init sys_step (dcs2, PhysAllocator_new)" by (rule reach_step) (rule sy_copy [OF debug_run(2)])
  then show ?thesis by (rule reach_step) (rule sy_copy [OF debug_run(3)])
qed

lemmas delete_eval = delete_leaf_def cs_unlink_def release_slot_def report_debug_def f_push_debug_def
  Rights_contains_def finalize_kind_def note_walk_def

definition rf_short :: "nat \<Rightarrow> u16 \<Rightarrow> bool \<Rightarrow> Finalized" where
  "rf_short n d ov = \<lparr>f_items = [(0, 0)], f_n = 0, f_dma = [(0, 0)], f_dn = 0, f_debug = [d], f_gn = n, f_overflow = ov\<rparr>"

lemma debug_deletes:
  "delete_leaf dcs3 al 2 (rf_short 0 0 False) = Some (dcs4, al, rf_short 1 3 False)"
  "delete_leaf dcs4 al 1 (rf_short 1 3 False) = Some (dcs5, al, rf_short 1 3 True)"
  by (simp_all add: cap_eval debug_defs delete_eval rf_short_def)

lemma debug_revoke: "cs_revoke dcs3 al (sp 0) (rf_short 0 0 False) =
  Some ((dcs5\<lparr>c_peak_revoke_ops := 2\<rparr>, al, rf_short 1 3 True), Inr ())"
proof -
  have w: "note_walk dcs3 0 = dcs3" "note_walk dcs4 0 = dcs4" by (simp_all add: note_walk_def)
  have 5: "revoke_loop dcs5 al rf 0 3 2 = Some (dcs5, al, rf, 2)" for rf
    by (subst revoke_loop.simps) (simp add: cap_eval debug_defs)
  have l: "descend_to_leaf (c_slots dcs4) 1 0 3 = Inr (1, 0)" "descend_to_leaf (c_slots dcs3) 2 0 3 = Inr (2, 0)"
    by (subst descend_to_leaf.simps, simp add: cap_eval debug_defs)+
  have f: "tget (c_slots dcs4) 0 = Some (dslot None (Some 1) None None)" "tget (c_slots dcs3) 0 = Some (dslot None (Some 2) None None)"
    by (simp_all add: tget_def debug_defs)
  have m: "m_first_child (s_mdb (dslot p x n v)) = x" for p x n v by (simp add: dslot_def)
  have 4: "revoke_loop dcs4 al (rf_short 1 3 False) 0 3 1 = Some (dcs5, al, rf_short 1 3 True, 2)"
    by (subst revoke_loop.simps) (simp add: f m l w debug_deletes 5 del: One_nat_def)
  have 3: "revoke_loop dcs3 al (rf_short 0 0 False) 0 3 0 = Some (dcs5, al, rf_short 1 3 True, 2)"
    by (subst revoke_loop.simps) (simp add: f m l w debug_deletes 4 del: One_nat_def)
  have "cdt_step_limit dcs3 = 3" "cs_resolve dcs3 (sp 0) = Inr 0"
    by (simp_all add: cdt_step_limit_def cs_resolve_def tget_def debug_defs)
  then show ?thesis using 3 by (simp add: cs_revoke_def) (simp add: debug_defs)
qed

theorem revoke_reports_all_witness:
  "\<exists>cs' al' rf'. cs_revoke dcs3 PhysAllocator_new (sp 0) (Finalized_mit_debug [(0, 0)] [(0, 0)] [0, 0, 0]) = Some ((cs', al', rf'), Inr ()) \<and>
     \<not> f_overflow rf' \<and> 3 \<in> set (f_iter_debug rf')"
proof -
  have inv: "cap_inv dcs3" using sys.reach_inv [OF debug_reach] by (simp add: sys_inv_def)
  have "cs_resolve dcs3 (sp 0) = Inr 0" by (simp add: cap_eval debug_defs)
  then obtain cs' al' rf' where r: "cs_revoke dcs3 PhysAllocator_new (sp 0) (Finalized_mit_debug [(0, 0)] [(0, 0)] [0, 0, 0]) = Some ((cs', al', rf'), Inr ())"
    by (cases rule: revoke_cases [OF inv, of PhysAllocator_new "sp 0" "Finalized_mit_debug [(0, 0)] [(0, 0)] [0, 0, 0]"]) simp_all
  have l: "length [(0 :: u32, 0 :: u64)] = finalize_capacity dcs3" "length [(0 :: u64, 0 :: u64)] = finalize_capacity dcs3"
    "length [0 :: u16, 0, 0] = length (c_slots dcs3)"
    by (simp_all add: finalize_capacity_def debug_defs)
  have u: "under (c_slots dcs3) (p_slot (sp 0)) 2" by (rule under_child) (simp_all add: usd_def par_def debug_defs)
  have "3 \<in> slot_report dcs3 2" by (simp add: slot_report_def debug_report_def debug_defs cap_eval Rights_contains_def)
  with u revoke_reports_all [OF inv l r] have "\<not> f_overflow rf'" "3 \<in> set (f_iter_debug rf')" by auto
  with r show ?thesis by blast
qed

text \<open>
  The size that is documented for all three buffers, one entry per object, is too small for the
  debug reports: they are issued per capability, not per object. In a reachable state \<open>revoke\<close> overflows
  a collector whose buffers have exactly \<open>finalize_capacity\<close> entries, and a report is lost.
\<close>

theorem debug_reports_overflow:
  "\<exists>cs al p cs' al' rf'. reach sys_init sys_step (cs, al) \<and>
     cs_revoke cs al p (Finalized_mit_debug (replicate (finalize_capacity cs) (0, 0)) (replicate (finalize_capacity cs) (0, 0))
       (replicate (finalize_capacity cs) 0)) = Some ((cs', al', rf'), Inr ()) \<and> f_overflow rf'"
proof -
  have "finalize_capacity dcs3 = 1" by (simp add: finalize_capacity_def debug_defs)
  then have "Finalized_mit_debug (replicate (finalize_capacity dcs3) (0, 0)) (replicate (finalize_capacity dcs3) (0, 0))
       (replicate (finalize_capacity dcs3) 0) = rf_short 0 0 False" by (simp add: Finalized_mit_debug_def rf_short_def)
  moreover have "f_overflow (rf_short 1 3 True)" by (simp add: rf_short_def)
  ultimately show ?thesis using debug_reach debug_revoke [of PhysAllocator_new] by metis
qed

section \<open>What the audit does not see\<close>

definition ring :: CapSpace where
  "ring = space [dslot None None (Some 1) (Some 1), dslot None None (Some 0) (Some 0)] [objv (Debuggable 3) 2] 2"

text \<open>
  The audit follows only parent links and the child lists of parents. Two capabilities without a
  parent that are each other's siblings form a cycle, the slots are no forest, and the audit still
  reports consistency.
\<close>

theorem audit_misses_root_ring: "audit_cdt ring 1 = Some 0 \<and> \<not> cap_inv ring"
proof
  have 1: "audit_slot_object ring i = Some 0" if "i < 2" for i
    using that by (cases i) (simp_all add: ring_def debug_defs audit_slot_object_def tget_def)
  have 2: "audit_object ring 0 = Some 0"
    by (simp add: ring_def debug_defs audit_object_def count_refs_def tget_def Let_def)
  have 3: "audit_links ring i = Some 0" if "i < 2" for i
    using that by (cases i) (simp_all add: ring_def debug_defs audit_links_def tget_def audit_parent_def
        audit_first_child_def audit_next_def audit_prev_def and_then_def)
  have 4: "audit_acyclic ring i = Some 0" if "i < 2" for i
    using that by (cases i) (simp_all add: ring_def debug_defs audit_acyclic_def tget_def audit_parents.simps)
  have l: "length (c_slots ring) = 2" "length (c_objects ring) = 1" by (simp_all add: ring_def space_def)
  have "first_code (audit_slot_object ring) [0..<2] = Some 0" "first_code (audit_object ring) [0..<1] = Some 0"
    "first_code (audit_links ring) [0..<2] = Some 0" "first_code (audit_acyclic ring) [0..<2] = Some 0"
    using 1 2 3 4 by (intro first_code_0; simp)+
  then show "audit_cdt ring 1 = Some 0" unfolding audit_cdt_def Let_def l by (simp add: and_then_def)
  have "usd (c_slots ring) 0" "par (c_slots ring) 0 = None" "nxt (c_slots ring) 0 = Some 1"
    by (simp_all add: ring_def debug_defs usd_def par_def nxt_def)
  then show "\<not> cap_inv ring" using cdtD(11) by (fastforce simp: cap_inv_def cap_ok_def)
qed


section \<open>Memory comes back\<close>

lemma refs_card: "refs ss ob = card {i. usd ss i \<and> s_object (ss ! i) = ob}"
proof -
  have "{i. usd ss i \<and> s_object (ss ! i) = ob} = {i. i < length ss \<and> (s_used (ss ! i) \<and> s_object (ss ! i) = ob)}"
    by (auto simp: usd_def)
  then show ?thesis by (simp add: refs_def length_filter_conv_card)
qed

lemma refs_single:
  assumes "usd ss i"
  shows "refs ss (s_object (ss ! i)) = 1 \<longleftrightarrow> (\<forall>j. usd ss j \<longrightarrow> s_object (ss ! j) = s_object (ss ! i) \<longrightarrow> j = i)"
proof -
  define S where "S = {j. usd ss j \<and> s_object (ss ! j) = s_object (ss ! i)}"
  have "i \<in> S" using assms by (simp add: S_def)
  then have "card S = 1 \<longleftrightarrow> S = {i}" by (auto simp: card_1_singleton_iff)
  then show ?thesis unfolding refs_card S_def [symmetric] using \<open>i \<in> S\<close> by (auto simp: S_def)
qed

text \<open>
  Memory is returned exactly when its last capability falls: deleting a capability while another
  one refers to the same object leaves the allocator alone; deleting the last one adds precisely the
  bytes of the object's region to free memory, provided the fragment table has room.
\<close>

theorem delete_reclaims:
  assumes "reach sys_init sys_step (cs, al)" "cs_lookup cs p = Some (Some (Memory w, r, b))"
    and "o_kind (c_objects cs ! s_object (c_slots cs ! p_slot p)) = Memory g" "pa_len al < MAX_FRAGMENTS"
    and "cs_delete cs al p rf = Some ((cs', al', rf'), Inr ())"
  shows "if \<exists>i. i \<noteq> p_slot p \<and> usd (c_slots cs) i \<and> s_object (c_slots cs ! i) = s_object (c_slots cs ! p_slot p)
    then al' = al else pa_inv al' \<and> free_set (pa_view al') = free_set (pa_view al) \<union> addrs g"
proof -
  have I: "cap_inv cs" "mem_ok (c_objects cs) al" using sys.reach_inv [OF assms(1)] by (simp_all add: sys_inv_def)
  from I(1) obtain ch rk where ok: "cap_ok cs ch rk" by (auto simp: cap_inv_def)
  have "valid cs p" using assms(2) by (simp add: lookup_eq [OF I(1)] split: if_splits)
  then have u: "usd (c_slots cs) (p_slot p)" and res: "cs_resolve cs p = Inr (p_slot p)" by (simp_all add: valid_def resolve_eq)
  let ?s = "c_slots cs ! p_slot p"
  have t: "tget (c_slots cs) (p_slot p) = Some ?s" using u by (simp add: tget_Some usd_lt)
  have fc: "m_first_child (s_mdb ?s) = None" and dl: "delete_leaf cs al (p_slot p) rf = Some (cs', al', rf')"
    using assms(5) res t by (auto simp: cs_delete_def bind_eq_Some_conv split: if_splits)
  have leaf: "ch (p_slot p) = []" using fc cdtD(2) [OF cap_okD(2) [OF ok] u] by (simp add: nth_links)
  have w0: "note_walk cs 0 = cs" by (simp add: note_walk_def)
  let ?rf = "report_debug rf (Memory g) ?s"
  have e: "al' = (if refs (c_slots cs) (s_object ?s) = 1 then fst (free_region al g) else al)"
    by (rule delete_leaf_note_walk [OF ok u leaf, of 0 al rf]) (use dl w0 assms(3) in \<open>auto simp: finalize_kind_def split: if_splits\<close>)
  have m: "mem_obj (c_objects cs) (s_object ?s) g" using assms(3) cap_inv_object [OF I(1) u] by (simp add: mem_obj_def)
  then have al: "pa_inv al" "region_ok g" "addrs g \<inter> free_set (pa_view al) = {}" using I(2) unfolding mem_ok_def by blast+
  show ?thesis
  proof (cases "refs (c_slots cs) (s_object ?s) = 1")
    case True
    then have "\<not> (\<exists>i. i \<noteq> p_slot p \<and> usd (c_slots cs) i \<and> s_object (c_slots cs ! i) = s_object ?s)" using refs_single [OF u] by blast
    note n = if_not_P [OF this]
    show ?thesis unfolding n using True e insert_ok [OF al] assms(4) by (simp add: free_region_def)
  next
    case False
    then have "\<exists>i. i \<noteq> p_slot p \<and> usd (c_slots cs) i \<and> s_object (c_slots cs ! i) = s_object ?s" using refs_single [OF u] by blast
    then show ?thesis using False e by simp
  qed
qed

lemma sample_al_len: "pa_len sample_al = 2"
proof -
  let ?v = "[PhysRegion_new 0x100000 0x6000, PhysRegion_new 0x108000 0xF8000]"
  have a: "pa_inv sample_al" "free_set (pa_view sample_al) = free_set (pa_view sample_ram) - addrs sample_reg"
    using alloc_in_core [OF sample_ram_facts(1) sample_alloc] by (simp_all add: sample_al_def sample_reg_def)
  have "free_set (pa_view sample_al) = free_set ?v"
    unfolding a(2) sample_ram_facts(4) by (auto simp: sample_reg_def addrs_def)
  moreover have "frags_ok (<) ?v" by (simp add: frags_ok_Cons region_ok_def region_is_empty_def r_stop_def)
  ultimately have "pa_view sample_al = ?v" using a(1) by (intro frags_unique) (simp_all add: pa_inv_def)
  then show ?thesis using a(1) length_pa_view [of sample_al] by (simp add: pa_inv_def)
qed

theorem delete_reclaims_witness:
  "\<exists>cs' al' rf'. cs_delete scs1 sample_al (sp 0) (Finalized_new [] []) = Some ((cs', al', rf'), Inr ()) \<and>
     free_set (pa_view al') = free_set (pa_view sample_al) \<union> addrs sample_reg"
proof -
  have l: "cs_lookup scs1 (sp 0) = Some (Some (Memory sample_reg, Rights_RW, 0))" by (simp add: cap_eval sample_defs)
  have res: "cs_resolve scs1 (sp 0) = Inr 0" by (simp add: cap_eval sample_defs)
  have u: "usd (c_slots scs1) i \<longleftrightarrow> i = 0" for i
    by (cases i) (auto simp: usd_def sample_defs nth_Cons less_Suc_eq split: nat.splits)
  have "par (c_slots scs1) 0 = None" by (simp add: par_def sample_defs)
  then have "\<not> under (c_slots scs1) (p_slot (sp 0)) c" for c
    by (metis under.cases u option.distinct(1))
  then obtain cs' al' rf' where d: "cs_delete scs1 sample_al (sp 0) (Finalized_new [] []) = Some ((cs', al', rf'), Inr ())"
    by (cases rule: delete_cases [OF sample_inv(1), of sample_al "sp 0" "Finalized_new [] []"]) (simp_all add: res)
  have k: "o_kind (c_objects scs1 ! s_object (c_slots scs1 ! p_slot (sp 0))) = Memory sample_reg" by (simp add: sample_defs)
  have "pa_len sample_al < MAX_FRAGMENTS" by (simp add: sample_al_len MAX_FRAGMENTS_def)
  from delete_reclaims [OF sample_reach1 l k this d] u d show ?thesis by (auto simp: sp_def)
qed

end
