(* ===== verification/SchedIf.thy ===== *)
theory SchedIf
  imports Prelude
begin

text \<open>
  What the IPC layer shares with the scheduler and the trap path: thread handles
  (\<open>caprock-sched/src/lib.rs\<close>), the register numbers and result codes of the system call interface
  (\<open>caprock-abi\<close>), the saved trap frames, and the trait \<open>SchedOps\<close> as a record of operations. A value of
  that record is what the source passes as \<open>&mut dyn SchedOps\<close>; the operations that only read have no
  result state.
\<close>

section \<open>Thread handles\<close>

record ThreadId =
  t_slot :: nat
  t_gen :: u32

definition to_raw :: "ThreadId \<Rightarrow> u64" where
  "to_raw t = (of_nat (t_slot t) :: u64) OR push_bit 32 (ucast (t_gen t))"

definition from_raw :: "u64 \<Rightarrow> ThreadId" where
  "from_raw raw = \<lparr>t_slot = unat (raw AND 0xffffffff), t_gen = ucast (drop_bit 32 raw)\<rparr>"

section \<open>Registers and result codes\<close>

definition reg_SYSNO_RESULT :: nat where "reg_SYSNO_RESULT = 0"
definition reg_EP_BADGE :: nat where "reg_EP_BADGE = 1"
definition reg_MSG0 :: nat where "reg_MSG0 = 2"
definition reg_TAG :: nat where "reg_TAG = 6"
definition MSG_WORDS :: nat where "MSG_WORDS = 4"

definition res_OK :: u64 where "res_OK = 0"
definition ERR_BADCAP :: u64 where "ERR_BADCAP = 1"
definition ERR_SERVER_GONE :: u64 where "ERR_SERVER_GONE = 5"
definition ERR_QUIESCING :: u64 where "ERR_QUIESCING = 8"
definition ERR_EP_FULL :: u64 where "ERR_EP_FULL = 9"

lemmas reg_defs = reg_SYSNO_RESULT_def reg_EP_BADGE_def reg_MSG0_def reg_TAG_def MSG_WORDS_def

section \<open>Trap frames\<close>

text \<open>The saved registers of all frames, by frame address and register number.\<close>

type_synonym frames = "nat \<Rightarrow> nat \<Rightarrow> u64"

definition frame_reg :: "frames \<Rightarrow> nat \<Rightarrow> nat \<Rightarrow> u64" where
  "frame_reg m fr i = m fr i"

definition frame_set_reg :: "frames \<Rightarrow> nat \<Rightarrow> nat \<Rightarrow> u64 \<Rightarrow> frames" where
  "frame_set_reg m fr i v = m(fr := (m fr)(i := v))"

lemma frame_reg_set:
  "frame_reg (frame_set_reg m fr i v) fr' i' = (if fr' = fr \<and> i' = i then v else frame_reg m fr' i')"
  by (simp add: frame_reg_def frame_set_reg_def)

section \<open>Scheduler operations\<close>

record 's SchedOps =
  so_current_id :: "'s \<Rightarrow> nat \<Rightarrow> ThreadId"
  so_frame_of :: "'s \<Rightarrow> ThreadId \<Rightarrow> nat option"
  so_wartet_auf_ipc :: "'s \<Rightarrow> ThreadId \<Rightarrow> bool"
  so_owner_core :: "'s \<Rightarrow> ThreadId \<Rightarrow> nat option"
  so_block_current :: "'s \<Rightarrow> nat \<Rightarrow> nat \<Rightarrow> 's \<times> nat"
  so_switch_to :: "'s \<Rightarrow> nat \<Rightarrow> nat \<Rightarrow> ThreadId \<Rightarrow> 's \<times> nat"
  so_unblock :: "'s \<Rightarrow> ThreadId \<Rightarrow> 's"
  so_end_donation :: "'s \<Rightarrow> nat \<Rightarrow> 's"

record 's World =
  w_sched :: 's
  w_frames :: frames

section \<open>Properties of handles\<close>

text \<open>
  A thread handle survives being packed into the word of a capability: \<open>from_raw\<close> inverts \<open>to_raw\<close>
  for every slot below \<open>2 ^ 32\<close>.
\<close>

theorem raw_roundtrip:
  assumes "t_slot t < 2 ^ 32"
  shows "from_raw (to_raw t) = t"
proof -
  define s where "s = (of_nat (t_slot t) :: u64)"
  have u: "unat s = t_slot t" using assms by (simp add: s_def unat_of_nat_u64)
  have "take_bit 32 s = s" using assms take_bit_nat_eq_self [of "t_slot t" 32] by (simp add: s_def take_bit_of_nat)
  then have b: "32 \<le> n \<Longrightarrow> \<not> bit s n" for n by (metis bit_take_bit_iff not_less)
  have m: "(0xffffffff :: u64) = mask 32" by (simp add: mask_eq_exp_minus_1)
  have "to_raw t AND 0xffffffff = s"
    unfolding to_raw_def s_def [symmetric] m
  proof (rule bit_word_eqI)
    fix n
    show "bit ((s OR push_bit 32 (ucast (t_gen t))) AND mask 32) n = bit s n"
      using b [of n] by (cases "n < 32") (auto simp: bit_simps)
  qed
  moreover have "(ucast (drop_bit 32 (to_raw t)) :: u32) = t_gen t"
    unfolding to_raw_def s_def [symmetric]
  proof (rule bit_word_eqI)
    fix n
    assume "n < LENGTH(32)"
    then show "bit (ucast (drop_bit 32 (s OR push_bit 32 (ucast (t_gen t)))) :: u32) n = bit (t_gen t) n"
      using b [of "n + 32"] by (simp add: bit_simps add.commute)
  qed
  ultimately show ?thesis by (simp add: from_raw_def u)
qed

theorem raw_roundtrip_witness: "from_raw (to_raw \<lparr>t_slot = 5, t_gen = 0xffffffff\<rparr>) = \<lparr>t_slot = 5, t_gen = 0xffffffff\<rparr>"
  by (rule raw_roundtrip) simp

end
