(* ===== verification/TidQueue.thy ===== *)
theory TidQueue
  imports SchedIf
begin

text \<open>
  The queue of blocked threads of an endpoint (\<open>caprock-ipc/src/lib.rs\<close>, \<open>TidQueue\<close>): a ring buffer of
  32 entries. The contract of a bounded FIFO is the locale \<open>bounded_fifo\<close>; the loops of the endpoint that
  only use \<open>enqueue\<close> and \<open>dequeue\<close> are analysed there once, and the ring buffer is shown to be an
  instance.
\<close>

section \<open>The ring buffer\<close>

definition QCAP :: nat where "QCAP = 32"

record TidQueue =
  q_buf :: "ThreadId option list"
  q_head :: nat
  q_tail :: nat
  q_count :: nat

definition TidQueue_EMPTY :: TidQueue where
  "TidQueue_EMPTY = \<lparr>q_buf = replicate QCAP None, q_head = 0, q_tail = 0, q_count = 0\<rparr>"

definition q_enqueue :: "TidQueue \<Rightarrow> ThreadId \<Rightarrow> TidQueue \<times> bool" where
  "q_enqueue q t =
     (if q_count q \<ge> QCAP then (q, False)
      else (q\<lparr>q_buf := (q_buf q)[q_tail q := Some t], q_tail := (q_tail q + 1) mod QCAP, q_count := q_count q + 1\<rparr>, True))"

definition q_is_full :: "TidQueue \<Rightarrow> bool" where
  "q_is_full q \<longleftrightarrow> q_count q \<ge> QCAP"

definition q_dequeue :: "TidQueue \<Rightarrow> TidQueue \<times> ThreadId option" where
  "q_dequeue q =
     (if q_count q = 0 then (q, None)
      else (q\<lparr>q_buf := (q_buf q)[q_head q := None], q_head := (q_head q + 1) mod QCAP, q_count := q_count q - 1\<rparr>,
            q_buf q ! q_head q))"

text \<open>The entries that \<open>for_each\<close> visits, in order.\<close>

definition q_for_each :: "TidQueue \<Rightarrow> ThreadId list" where
  "q_for_each q = List.map_filter (\<lambda>k. q_buf q ! ((q_head q + k) mod QCAP)) [0..<q_count q]"

definition q_any_dead :: "TidQueue \<Rightarrow> (ThreadId \<Rightarrow> bool) \<Rightarrow> bool" where
  "q_any_dead q alive = list_ex (\<lambda>t. \<not> alive t) (q_for_each q)"

fun dup_in :: "ThreadId list \<Rightarrow> ThreadId list \<Rightarrow> bool" where
  "dup_in seen [] = False"
| "dup_in seen (t # ts) = (t \<in> set seen \<or> dup_in (seen @ [t]) ts)"

definition q_has_dup :: "TidQueue \<Rightarrow> bool" where
  "q_has_dup q = dup_in [] (q_for_each q)"

definition q_contains :: "TidQueue \<Rightarrow> ThreadId \<Rightarrow> bool" where
  "q_contains q target = list_ex (\<lambda>t. t = target) (q_for_each q)"

definition q_is_empty :: "TidQueue \<Rightarrow> bool" where
  "q_is_empty q \<longleftrightarrow> q_count q = 0"

text \<open>The loop of \<open>remove\<close>: take out \<open>n\<close> entries and put back all but the target.\<close>

primrec rotate_out :: "('q \<Rightarrow> 'a \<Rightarrow> 'q \<times> bool) \<Rightarrow> ('q \<Rightarrow> 'q \<times> 'a option) \<Rightarrow> 'a \<Rightarrow> nat \<Rightarrow> 'q \<Rightarrow> bool \<Rightarrow> 'q \<times> bool" where
  "rotate_out enq deq target 0 q found = (q, found)"
| "rotate_out enq deq target (Suc n) q found =
     (case deq q of
        (q1, None) \<Rightarrow> rotate_out enq deq target n q1 found
      | (q1, Some t) \<Rightarrow>
          if t = target then rotate_out enq deq target n q1 True
          else rotate_out enq deq target n (fst (enq q1 t)) found)"

definition q_remove :: "TidQueue \<Rightarrow> ThreadId \<Rightarrow> TidQueue \<times> bool" where
  "q_remove q target = rotate_out q_enqueue q_dequeue target (q_count q) q False"

text \<open>
  The search of \<open>call\<close> and \<open>recv\<close> for a partner that still has a frame: entries without one are
  dropped. Every round takes out an entry, so the fill level bounds the number of rounds.
\<close>

primrec first_live :: "('q \<Rightarrow> 'q \<times> 'a option) \<Rightarrow> ('a \<Rightarrow> nat option) \<Rightarrow> nat \<Rightarrow> 'q \<Rightarrow> 'q \<times> ('a \<times> nat) option" where
  "first_live deq fr 0 q = (q, None)"
| "first_live deq fr (Suc n) q =
     (case deq q of
        (q1, None) \<Rightarrow> (q1, None)
      | (q1, Some t) \<Rightarrow> (case fr t of None \<Rightarrow> first_live deq fr n q1 | Some f \<Rightarrow> (q1, Some (t, f))))"

definition q_first_live :: "TidQueue \<Rightarrow> (ThreadId \<Rightarrow> nat option) \<Rightarrow> TidQueue \<times> (ThreadId \<times> nat) option" where
  "q_first_live q fr = first_live q_dequeue fr (q_count q) q"

section \<open>Bounded FIFO queues\<close>

locale bounded_fifo =
  fixes wf :: "'q \<Rightarrow> bool"
    and content :: "'q \<Rightarrow> 'a list"
    and enq :: "'q \<Rightarrow> 'a \<Rightarrow> 'q \<times> bool"
    and deq :: "'q \<Rightarrow> 'q \<times> 'a option"
    and cap :: nat
  assumes bound: "wf q \<Longrightarrow> length (content q) \<le> cap"
    and enq_room: "wf q \<Longrightarrow> length (content q) < cap \<Longrightarrow> snd (enq q x) \<and> wf (fst (enq q x)) \<and> content (fst (enq q x)) = content q @ [x]"
    and enq_full: "wf q \<Longrightarrow> cap \<le> length (content q) \<Longrightarrow> enq q x = (q, False)"
    and deq_empty: "wf q \<Longrightarrow> content q = [] \<Longrightarrow> deq q = (q, None)"
    and deq_cons: "wf q \<Longrightarrow> content q = x # xs \<Longrightarrow> \<exists>q'. deq q = (q', Some x) \<and> wf q' \<and> content q' = xs"
begin

lemma rotate_out_spec:
  "wf q \<Longrightarrow> content q = xs @ ys \<Longrightarrow>
   \<exists>q'. rotate_out enq deq x (length xs) q found = (q', found \<or> x \<in> set xs) \<and> wf q' \<and>
     content q' = ys @ filter (\<lambda>t. t \<noteq> x) xs"
proof (induction xs arbitrary: q ys found)
  case (Cons a xs)
  from deq_cons [OF Cons.prems(1)] Cons.prems(2) obtain q1 where q1: "deq q = (q1, Some a)" "wf q1" "content q1 = xs @ ys" by fastforce
  show ?case
  proof (cases "a = x")
    case True
    with Cons.IH [OF q1(2,3), of True] q1(1) show ?thesis by simp
  next
    case False
    have "length (content q1) < cap" using bound [OF Cons.prems(1)] Cons.prems(2) q1(3) by simp
    from enq_room [OF q1(2) this, of a] q1(3)
    have e: "wf (fst (enq q1 a))" "content (fst (enq q1 a)) = xs @ (ys @ [a])" by simp_all
    from Cons.IH [OF e, of found] q1(1) False show ?thesis by auto
  qed
qed simp

lemma remove_spec:
  assumes "wf q"
  shows "\<exists>q'. rotate_out enq deq x (length (content q)) q False = (q', x \<in> set (content q)) \<and> wf q' \<and>
    content q' = filter (\<lambda>t. t \<noteq> x) (content q)"
  using rotate_out_spec [OF assms, of "content q" "[]" x False] by simp

lemma first_live_spec:
  "wf q \<Longrightarrow> (case dropWhile (\<lambda>t. fr t = None) (content q) of
       [] \<Rightarrow> \<exists>q'. first_live deq fr (length (content q)) q = (q', None) \<and> wf q' \<and> content q' = []
     | t # ts \<Rightarrow> \<exists>q'. first_live deq fr (length (content q)) q = (q', Some (t, the (fr t))) \<and> wf q' \<and> content q' = ts)"
proof (induction "content q" arbitrary: q)
  case Nil
  then have "content q = []" by simp
  then show ?case using Nil by auto
next
  case (Cons a xs)
  from deq_cons [OF Cons.prems, of a xs] Cons.hyps(2) obtain q1 where q1: "deq q = (q1, Some a)" "wf q1" "content q1 = xs" by metis
  show ?case
  proof (cases "fr a")
    case None
    have e: "first_live deq fr (length (content q)) q = first_live deq fr (length (content q1)) q1"
      using q1 None unfolding Cons.hyps(2) [symmetric] by simp
    have d: "dropWhile (\<lambda>t. fr t = None) (content q) = dropWhile (\<lambda>t. fr t = None) (content q1)"
      using q1 None unfolding Cons.hyps(2) [symmetric] by simp
    show ?thesis unfolding e d by (rule Cons.hyps(1) [OF q1(3) [symmetric] q1(2)])
  next
    case (Some f)
    then show ?thesis using q1 Cons.hyps(2) [symmetric] by simp
  qed
qed

end

section \<open>The ring buffer is a bounded FIFO\<close>

definition q_wf :: "TidQueue \<Rightarrow> bool" where
  "q_wf q \<longleftrightarrow> length (q_buf q) = QCAP \<and> q_head q < QCAP \<and> q_count q \<le> QCAP \<and>
     q_tail q = (q_head q + q_count q) mod QCAP \<and> (\<forall>k<q_count q. q_buf q ! ((q_head q + k) mod QCAP) \<noteq> None)"

definition q_list :: "TidQueue \<Rightarrow> ThreadId list" where
  "q_list q = map (\<lambda>k. the (q_buf q ! ((q_head q + k) mod QCAP))) [0..<q_count q]"

lemma length_q_list [simp]: "length (q_list q) = q_count q"
  by (simp add: q_list_def)

lemma ring_inj: "j < QCAP \<Longrightarrow> k < QCAP \<Longrightarrow> (h + j) mod QCAP = (h + k) mod QCAP \<Longrightarrow> j = k"
proof (induction j k rule: linorder_wlog)
  case (le j k)
  then have "QCAP dvd (h + k) - (h + j)" using mod_eq_dvd_iff_nat [of "h + j" "h + k" QCAP] by simp
  then have "QCAP dvd k - j" by simp
  then have "k - j = 0" using nat_dvd_not_less [of "k - j" QCAP] le by (cases "k - j = 0") auto
  then show ?case using le by simp
next
  case (sym j k)
  then show ?case by simp
qed

lemma ring_step: "((h + 1) mod QCAP + k) mod QCAP = (h + Suc k) mod QCAP"
  by (simp add: mod_add_left_eq)

lemma q_for_each_list: "q_wf q \<Longrightarrow> q_for_each q = q_list q"
proof -
  assume "q_wf q"
  then have "\<forall>k\<in>set [0..<q_count q]. q_buf q ! ((q_head q + k) mod QCAP) \<noteq> None" by (simp add: q_wf_def)
  then show ?thesis unfolding q_for_each_def q_list_def by (induction "[0..<q_count q]") (auto simp: List.map_filter_def)
qed

lemma q_enqueue_room:
  assumes "q_wf q" "q_count q < QCAP"
  shows "snd (q_enqueue q t) \<and> q_wf (fst (q_enqueue q t)) \<and> q_list (fst (q_enqueue q t)) = q_list q @ [t]"
proof -
  let ?q = "fst (q_enqueue q t)"
  have q: "q_buf ?q = (q_buf q)[q_tail q := Some t]" "q_head ?q = q_head q" "q_count ?q = Suc (q_count q)"
    "q_tail ?q = (q_tail q + 1) mod QCAP" "snd (q_enqueue q t)"
    using assms(2) by (simp_all add: q_enqueue_def)
  have wf: "length (q_buf q) = QCAP" "q_head q < QCAP" "q_tail q = (q_head q + q_count q) mod QCAP"
    "\<And>k. k < q_count q \<Longrightarrow> q_buf q ! ((q_head q + k) mod QCAP) \<noteq> None" using assms(1) by (auto simp: q_wf_def)
  have tl: "q_tail q < QCAP" using wf(3) by (simp add: QCAP_def)
  have e: "q_buf ?q ! ((q_head q + k) mod QCAP) = (if k = q_count q then Some t else q_buf q ! ((q_head q + k) mod QCAP))"
    if "k < Suc (q_count q)" for k
    using that ring_inj [of "q_count q" k "q_head q"] assms(2) tl wf(1,3) unfolding q(1) by (auto simp: nth_list_update)
  have "q_tail ?q = (q_head ?q + q_count ?q) mod QCAP" unfolding q wf(3) by (simp add: mod_Suc_eq)
  moreover have "q_buf ?q ! ((q_head ?q + k) mod QCAP) \<noteq> None" if "k < q_count ?q" for k
    using e [of k] that wf(4) [of k] by (auto simp: q(2,3) less_Suc_eq)
  ultimately have "q_wf ?q" using wf(1,2) assms(2) q by (simp add: q_wf_def)
  moreover have "q_list ?q = q_list q @ [t]"
    unfolding q_list_def q(2,3) using e by (simp add: map_eq_conv cong: map_cong)
  ultimately show ?thesis using q(5) by simp
qed

lemma q_dequeue_cons:
  assumes "q_wf q" "q_list q = t # ts"
  shows "\<exists>q'. q_dequeue q = (q', Some t) \<and> q_wf q' \<and> q_list q' = ts"
proof -
  let ?q = "fst (q_dequeue q)"
  have n: "q_count q = Suc (length ts)" using arg_cong [OF assms(2), of length] by simp
  have wf: "length (q_buf q) = QCAP" "q_head q < QCAP" "q_count q \<le> QCAP" "q_tail q = (q_head q + q_count q) mod QCAP"
    "\<And>k. k < q_count q \<Longrightarrow> q_buf q ! ((q_head q + k) mod QCAP) \<noteq> None" using assms(1) by (auto simp: q_wf_def)
  have q: "q_buf ?q = (q_buf q)[q_head q := None]" "q_head ?q = (q_head q + 1) mod QCAP" "q_count ?q = length ts"
    "q_tail ?q = q_tail q" "snd (q_dequeue q) = q_buf q ! q_head q"
    using n by (simp_all add: q_dequeue_def)
  have h: "q_buf q ! q_head q = Some t"
    using wf(5) [of 0] wf(2) assms(2) n unfolding q_list_def by (auto simp: upt_conv_Cons simp del: upt_Suc)
  have e: "q_buf ?q ! ((q_head ?q + k) mod QCAP) = q_buf q ! ((q_head q + Suc k) mod QCAP)" if "k < length ts" for k
  proof -
    have "(q_head q + Suc k) mod QCAP \<noteq> q_head q"
      using ring_inj [of "Suc k" 0 "q_head q"] that n wf(2,3) by auto
    then show ?thesis unfolding q(1,2) ring_step by simp
  qed
  have "q_tail ?q = (q_head ?q + q_count ?q) mod QCAP" unfolding q wf(4) ring_step n ..
  moreover have "q_buf ?q ! ((q_head ?q + k) mod QCAP) \<noteq> None" if "k < q_count ?q" for k
    using e [of k] that wf(5) [of "Suc k"] n q(3) by simp
  ultimately have "q_wf ?q" using wf(1,2,3) n q by (simp add: q_wf_def QCAP_def)
  moreover have "q_list ?q = map (\<lambda>k. the (q_buf q ! ((q_head q + Suc k) mod QCAP))) [0..<length ts]"
    unfolding q_list_def q(3) using e by (intro map_cong) auto
  moreover have "q_list q = the (q_buf q ! (q_head q mod QCAP)) # map (\<lambda>k. the (q_buf q ! ((q_head q + Suc k) mod QCAP))) [0..<length ts]"
    unfolding q_list_def n by (simp only: map_upt_Suc) simp
  ultimately show ?thesis using h q(5) assms(2) by (intro exI [of _ ?q]) (simp add: prod_eq_iff)
qed

interpretation tidq: bounded_fifo q_wf q_list q_enqueue q_dequeue QCAP
proof
  fix q :: TidQueue and x xs
  assume wf: "q_wf q"
  show "length (q_list q) \<le> QCAP" using wf by (simp add: q_wf_def)
  show "length (q_list q) < QCAP \<Longrightarrow> snd (q_enqueue q x) \<and> q_wf (fst (q_enqueue q x)) \<and> q_list (fst (q_enqueue q x)) = q_list q @ [x]"
    using q_enqueue_room [OF wf] by simp
  show "QCAP \<le> length (q_list q) \<Longrightarrow> q_enqueue q x = (q, False)" by (simp add: q_enqueue_def)
  show "q_list q = [] \<Longrightarrow> q_dequeue q = (q, None)" by (simp add: q_list_def q_dequeue_def)
  show "q_list q = x # xs \<Longrightarrow> \<exists>q'. q_dequeue q = (q', Some x) \<and> q_wf q' \<and> q_list q' = xs" by (rule q_dequeue_cons [OF wf])
qed

lemma q_empty [simp]: "q_wf TidQueue_EMPTY" "q_list TidQueue_EMPTY = []"
  by (simp_all add: q_wf_def q_list_def TidQueue_EMPTY_def QCAP_def)

lemma q_contains_iff: "q_wf q \<Longrightarrow> q_contains q t \<longleftrightarrow> t \<in> set (q_list q)"
  by (simp add: q_contains_def q_for_each_list list_ex_iff)

lemma dup_in_iff: "distinct seen \<Longrightarrow> dup_in seen ts \<longleftrightarrow> \<not> distinct (seen @ ts)"
proof (induction ts arbitrary: seen)
  case (Cons t ts)
  show ?case
  proof (cases "t \<in> set seen")
    case False
    then show ?thesis using Cons.IH [of "seen @ [t]"] Cons.prems by simp
  qed simp
qed simp

text \<open>
  The ring buffer is a bounded FIFO of 32 threads: every operation is the list operation its name
  says. \<open>enqueue\<close> refuses exactly when 32 threads wait; \<open>remove\<close> keeps the order of the others; the
  queries and the audit see exactly the queued threads.
\<close>

theorem queue_refines_fifo:
  assumes "q_wf q"
  shows "(if length (q_list q) < 32
      then snd (q_enqueue q t) \<and> q_wf (fst (q_enqueue q t)) \<and> q_list (fst (q_enqueue q t)) = q_list q @ [t]
      else q_enqueue q t = (q, False)) \<and>
    (case q_list q of
       [] \<Rightarrow> q_dequeue q = (q, None)
     | x # xs \<Rightarrow> snd (q_dequeue q) = Some x \<and> q_wf (fst (q_dequeue q)) \<and> q_list (fst (q_dequeue q)) = xs) \<and>
    snd (q_remove q t) = (t \<in> set (q_list q)) \<and> q_wf (fst (q_remove q t)) \<and>
    q_list (fst (q_remove q t)) = filter (\<lambda>x. x \<noteq> t) (q_list q) \<and>
    q_contains q t = (t \<in> set (q_list q)) \<and> q_is_empty q = (q_list q = []) \<and>
    q_has_dup q = (\<not> distinct (q_list q)) \<and> q_any_dead q alive = (\<exists>x\<in>set (q_list q). \<not> alive x)"
proof -
  have c: "QCAP = 32" by (simp add: QCAP_def)
  have "if length (q_list q) < 32 then snd (q_enqueue q t) \<and> q_wf (fst (q_enqueue q t)) \<and> q_list (fst (q_enqueue q t)) = q_list q @ [t]
      else q_enqueue q t = (q, False)"
    using tidq.enq_room [OF assms, of t] tidq.enq_full [OF assms, of t] unfolding c by (metis linorder_not_less)
  moreover have "case q_list q of [] \<Rightarrow> q_dequeue q = (q, None)
     | x # xs \<Rightarrow> snd (q_dequeue q) = Some x \<and> q_wf (fst (q_dequeue q)) \<and> q_list (fst (q_dequeue q)) = xs"
    using tidq.deq_empty [OF assms] tidq.deq_cons [OF assms] by (cases "q_list q") fastforce+
  moreover have "snd (q_remove q t) = (t \<in> set (q_list q)) \<and> q_wf (fst (q_remove q t)) \<and>
      q_list (fst (q_remove q t)) = filter (\<lambda>x. x \<noteq> t) (q_list q)"
    using tidq.remove_spec [OF assms, of t] by (auto simp: q_remove_def)
  moreover have "q_is_empty q = (q_list q = [])" using length_q_list [of q] by (simp add: q_is_empty_def flip: length_0_conv)
  ultimately show ?thesis
    using dup_in_iff [of "[]" "q_list q"] q_for_each_list [OF assms]
    by (simp add: q_contains_iff [OF assms] q_has_dup_def q_any_dead_def list_ex_iff)
qed

theorem queue_refines_fifo_witness: "q_dequeue TidQueue_EMPTY = (TidQueue_EMPTY, None) \<and> snd (q_enqueue TidQueue_EMPTY \<lparr>t_slot = 0, t_gen = 0\<rparr>)"
  using queue_refines_fifo [OF q_empty(1), of "\<lparr>t_slot = 0, t_gen = 0\<rparr>"] by simp

end
