(* ===== verification/Ipc.thy ===== *)
theory Ipc
  imports TidQueue
begin

text \<open>
  \<open>caprock-ipc/src/lib.rs\<close>: endpoints (rendezvous of callers and servers with a single reply token) and
  notifications (accumulated badge bits with a single waiter). The operations that run in a system call
  take the scheduler operations and transform the object, the scheduler state and the trap frames
  together; their last result is the frame to continue with.
\<close>

section \<open>Data\<close>

definition transfer :: "frames \<Rightarrow> nat \<Rightarrow> nat \<Rightarrow> frames" where
  "transfer m src dst =
     (let m1 = foldl (\<lambda>m i. frame_set_reg m dst (reg_MSG0 + i) (frame_reg m src (reg_MSG0 + i))) m [0..<MSG_WORDS]
      in frame_set_reg m1 dst reg_TAG (frame_reg m1 src reg_TAG))"

record Quiescence =
  as_sender :: bool
  as_receiver :: bool
  as_caller :: bool
  as_reply_owner :: bool

definition Quiescence_default :: Quiescence where
  "Quiescence_default = \<lparr>as_sender = False, as_receiver = False, as_caller = False, as_reply_owner = False\<rparr>"

definition is_quiescent :: "Quiescence \<Rightarrow> bool" where
  "is_quiescent q \<longleftrightarrow> \<not> (as_sender q \<or> as_receiver q \<or> as_caller q \<or> as_reply_owner q)"

definition quiescence_merge :: "Quiescence \<Rightarrow> Quiescence \<Rightarrow> Quiescence" where
  "quiescence_merge a b =
     \<lparr>as_sender = (as_sender a \<or> as_sender b), as_receiver = (as_receiver a \<or> as_receiver b),
      as_caller = (as_caller a \<or> as_caller b), as_reply_owner = (as_reply_owner a \<or> as_reply_owner b)\<rparr>"

datatype Role = Sender | Receiver | Caller | ReplyOwner

record RebindBlocked =
  senders_waiting :: bool
  other_receiver :: bool
  reply_open :: bool

definition RebindBlocked_default :: RebindBlocked where
  "RebindBlocked_default = \<lparr>senders_waiting = False, other_receiver = False, reply_open = False\<rparr>"

datatype Rebind = Done (done_overlapped: bool) | NoEndpoint | NotQuiescing | Blocked RebindBlocked | NotReceiver | SameThread

definition is_done :: "Rebind \<Rightarrow> bool" where
  "is_done r = (case r of Done _ \<Rightarrow> True | _ \<Rightarrow> False)"

definition is_overlapped :: "Rebind \<Rightarrow> bool" where
  "is_overlapped r = (case r of Done ov \<Rightarrow> ov | _ \<Rightarrow> False)"

record IpcEndpoint =
  e_used :: bool
  e_quiescing :: bool
  e_senders :: TidQueue
  e_receivers :: TidQueue
  e_caller :: "ThreadId option"
  e_reply_owner :: "ThreadId option"

definition Endpoint_EMPTY :: IpcEndpoint where
  "Endpoint_EMPTY = \<lparr>e_used = False, e_quiescing = False, e_senders = TidQueue_EMPTY, e_receivers = TidQueue_EMPTY,
     e_caller = None, e_reply_owner = None\<rparr>"

section \<open>Endpoint operations without scheduling\<close>

definition ep_mark_used :: "IpcEndpoint \<Rightarrow> IpcEndpoint" where
  "ep_mark_used ep = Endpoint_EMPTY\<lparr>e_used := True\<rparr>"

definition partner_of :: "IpcEndpoint \<Rightarrow> ThreadId \<Rightarrow> ThreadId option" where
  "partner_of ep t =
     (if \<not> e_used ep then None
      else if e_caller ep = Some t then e_reply_owner ep
      else if e_reply_owner ep = Some t then e_caller ep
      else None)"

definition retire_receiver :: "IpcEndpoint \<Rightarrow> ThreadId \<Rightarrow> IpcEndpoint \<times> bool" where
  "retire_receiver ep t =
     (if e_used ep then (case q_remove (e_receivers ep) t of (q, b) \<Rightarrow> (ep\<lparr>e_receivers := q\<rparr>, b)) else (ep, False))"

definition begin_quiesce :: "IpcEndpoint \<Rightarrow> IpcEndpoint \<times> bool" where
  "begin_quiesce ep = (if \<not> e_used ep \<or> e_quiescing ep then (ep, False) else (ep\<lparr>e_quiescing := True\<rparr>, True))"

definition end_quiesce :: "IpcEndpoint \<Rightarrow> IpcEndpoint \<times> bool" where
  "end_quiesce ep = (ep\<lparr>e_quiescing := False\<rparr>, e_quiescing ep)"

definition receiver_count :: "IpcEndpoint \<Rightarrow> nat" where
  "receiver_count ep = (if e_used ep then q_count (e_receivers ep) else 0)"

definition sender_count :: "IpcEndpoint \<Rightarrow> nat" where
  "sender_count ep = (if e_used ep then q_count (e_senders ep) else 0)"

definition ep_quiescence_of :: "IpcEndpoint \<Rightarrow> ThreadId \<Rightarrow> Quiescence" where
  "ep_quiescence_of ep t =
     (if \<not> e_used ep then Quiescence_default
      else \<lparr>as_sender = q_contains (e_senders ep) t, as_receiver = q_contains (e_receivers ep) t,
            as_caller = (e_caller ep = Some t), as_reply_owner = (e_reply_owner ep = Some t)\<rparr>)"

fun occ_push :: "(ThreadId \<times> Role) list \<times> nat \<times> nat \<Rightarrow> ThreadId \<times> Role \<Rightarrow> (ThreadId \<times> Role) list \<times> nat \<times> nat" where
  "occ_push (out, n, need) x = (if n < length out then (out[n := x], n + 1, need + 1) else (out, n, need + 1))"

definition ep_occupants :: "IpcEndpoint \<Rightarrow> (ThreadId \<times> Role) list \<Rightarrow> (ThreadId \<times> Role) list \<times> (nat + nat)" where
  "ep_occupants ep out =
     (if \<not> e_used ep then (out, Inr 0)
      else case foldl occ_push (out, 0, 0)
          (map (\<lambda>t. (t, Sender)) (q_for_each (e_senders ep)) @ map (\<lambda>t. (t, Receiver)) (q_for_each (e_receivers ep)) @
           (case e_caller ep of Some c \<Rightarrow> [(c, Caller)] | None \<Rightarrow> []) @
           (case e_reply_owner ep of Some o' \<Rightarrow> [(o', ReplyOwner)] | None \<Rightarrow> [])) of
        (out', n, need) \<Rightarrow> (out', if need > length out' then Inl need else Inr n))"

definition gate_new_transaction :: "IpcEndpoint \<Rightarrow> u64 option" where
  "gate_new_transaction ep =
     (if \<not> e_used ep then Some ERR_BADCAP else if e_quiescing ep then Some ERR_QUIESCING else None)"

definition is_idle :: "IpcEndpoint \<Rightarrow> bool" where
  "is_idle ep \<longleftrightarrow> \<not> e_used ep \<or>
     (q_is_empty (e_senders ep) \<and> q_is_empty (e_receivers ep) \<and> e_caller ep = None \<and> e_reply_owner ep = None)"

definition rebind_server :: "IpcEndpoint \<Rightarrow> ThreadId \<Rightarrow> ThreadId \<Rightarrow> IpcEndpoint \<times> Rebind" where
  "rebind_server ep old new =
     (if \<not> e_used ep then (ep, NoEndpoint)
      else if \<not> e_quiescing ep then (ep, NotQuiescing)
      else if old = new then (ep, SameThread)
      else
        let overlapped = q_contains (e_receivers ep) new;
            eigene = of_bool (q_contains (e_receivers ep) old) + of_bool overlapped;
            blocked = \<lparr>senders_waiting = (\<not> q_is_empty (e_senders ep)), other_receiver = (q_count (e_receivers ep) > eigene),
                       reply_open = (e_caller ep \<noteq> None \<or> e_reply_owner ep \<noteq> None)\<rparr>
        in if blocked \<noteq> RebindBlocked_default then (ep, Blocked blocked)
           else case q_remove (e_receivers ep) old of
                  (q, removed) \<Rightarrow>
                    if \<not> removed then (ep\<lparr>e_receivers := q\<rparr>, NotReceiver)
                    else (ep\<lparr>e_receivers := (if overlapped then q else fst (q_enqueue q new))\<rparr>, Done overlapped))"

definition bind_receiver :: "IpcEndpoint \<Rightarrow> ThreadId \<Rightarrow> IpcEndpoint \<times> bool" where
  "bind_receiver ep t =
     (if \<not> e_used ep \<or> q_contains (e_receivers ep) t then (ep, False)
      else case q_enqueue (e_receivers ep) t of (q, b) \<Rightarrow> (ep\<lparr>e_receivers := q\<rparr>, b))"

definition ep_purge_thread :: "IpcEndpoint \<Rightarrow> ThreadId \<Rightarrow> IpcEndpoint \<times> bool" where
  "ep_purge_thread ep t =
     (let (sq, f1) = q_remove (e_senders ep) t;
          (rq, f2) = q_remove (e_receivers ep) t;
          ep1 = ep\<lparr>e_senders := sq, e_receivers := rq\<rparr>
      in if e_caller ep1 = Some t then (ep1\<lparr>e_caller := None, e_reply_owner := None\<rparr>, True) else (ep1, f1 \<or> f2))"

definition owner_died :: "IpcEndpoint \<Rightarrow> ThreadId \<Rightarrow> IpcEndpoint \<times> ThreadId option" where
  "owner_died ep own =
     (if e_reply_owner ep = Some own then (ep\<lparr>e_reply_owner := None, e_caller := None\<rparr>, e_caller ep) else (ep, None))"

definition abort_call :: "IpcEndpoint \<Rightarrow> ThreadId \<Rightarrow> IpcEndpoint \<times> ThreadId option" where
  "abort_call ep c =
     (if e_caller ep = Some c then (ep\<lparr>e_reply_owner := None, e_caller := None\<rparr>, e_caller ep) else (ep, None))"

definition migrate_owner :: "IpcEndpoint \<Rightarrow> ThreadId \<Rightarrow> IpcEndpoint \<times> bool" where
  "migrate_owner ep old_owner =
     (if e_used ep \<and> e_reply_owner ep = Some old_owner \<and> \<not> q_is_full (e_senders ep) then
        (case e_caller ep of
           Some c \<Rightarrow> (ep\<lparr>e_caller := None, e_reply_owner := None, e_senders := fst (q_enqueue (e_senders ep) c)\<rparr>, True)
         | None \<Rightarrow> (ep, False))
      else (ep, False))"

definition ep_audit :: "IpcEndpoint \<Rightarrow> (ThreadId \<Rightarrow> bool) \<Rightarrow> bool \<times> bool" where
  "ep_audit ep alive =
     (q_any_dead (e_senders ep) alive \<or> q_any_dead (e_receivers ep) alive \<or>
        (case e_caller ep of None \<Rightarrow> False | Some c \<Rightarrow> \<not> alive c) \<or>
        (case e_reply_owner ep of None \<Rightarrow> False | Some own \<Rightarrow> \<not> alive own),
      q_has_dup (e_senders ep) \<or> q_has_dup (e_receivers ep))"

section \<open>CALL, RECV and REPLY\<close>

text \<open>The rendezvous of \<open>call\<close> with a waiting server, and the way the caller is suspended.\<close>

definition call_deliver :: "frames \<Rightarrow> nat \<Rightarrow> nat \<Rightarrow> u64 \<Rightarrow> frames" where
  "call_deliver m frame sframe badge =
     (let m1 = transfer m frame sframe;
          m2 = frame_set_reg m1 sframe reg_SYSNO_RESULT res_OK
      in frame_set_reg m2 sframe reg_EP_BADGE badge)"

definition call_suspend :: "'s SchedOps \<Rightarrow> 's \<Rightarrow> nat \<Rightarrow> nat \<Rightarrow> ThreadId \<Rightarrow> 's \<times> nat" where
  "call_suspend ops s core frame server =
     (if so_owner_core ops s server = Some core then so_switch_to ops s core frame server
      else so_block_current ops (so_unblock ops s server) core frame)"

definition ep_call :: "'s SchedOps \<Rightarrow> nat \<Rightarrow> nat \<Rightarrow> u64 \<Rightarrow> IpcEndpoint \<Rightarrow> 's World \<Rightarrow> IpcEndpoint \<times> 's World \<times> nat" where
  "ep_call ops core frame badge ep w =
     (case gate_new_transaction ep of
        Some code \<Rightarrow> (ep, w\<lparr>w_frames := frame_set_reg (w_frames w) frame reg_SYSNO_RESULT code\<rparr>, frame)
      | None \<Rightarrow>
          let caller = so_current_id ops (w_sched w) core;
              m = frame_set_reg (w_frames w) frame reg_EP_BADGE badge
          in case q_first_live (e_receivers ep) (so_frame_of ops (w_sched w)) of
               (rq, Some (server, sframe)) \<Rightarrow>
                 (case call_suspend ops (w_sched w) core frame server of
                    (s, nx) \<Rightarrow>
                      (ep\<lparr>e_receivers := rq, e_caller := Some caller, e_reply_owner := Some server\<rparr>,
                       \<lparr>w_sched = s, w_frames = call_deliver m frame sframe badge\<rparr>, nx))
             | (rq, None) \<Rightarrow>
                 (case q_enqueue (e_senders ep) caller of
                    (sq, False) \<Rightarrow>
                      (ep\<lparr>e_receivers := rq, e_senders := sq\<rparr>,
                       w\<lparr>w_frames := frame_set_reg m frame reg_SYSNO_RESULT ERR_EP_FULL\<rparr>, frame)
                  | (sq, True) \<Rightarrow>
                      (case so_block_current ops (w_sched w) core frame of
                         (s, nx) \<Rightarrow> (ep\<lparr>e_receivers := rq, e_senders := sq\<rparr>, \<lparr>w_sched = s, w_frames = m\<rparr>, nx))))"

definition ep_recv :: "'s SchedOps \<Rightarrow> nat \<Rightarrow> nat \<Rightarrow> IpcEndpoint \<Rightarrow> 's World \<Rightarrow> IpcEndpoint \<times> 's World \<times> nat" where
  "ep_recv ops core frame ep w =
     (case gate_new_transaction ep of
        Some code \<Rightarrow> (ep, w\<lparr>w_frames := frame_set_reg (w_frames w) frame reg_SYSNO_RESULT code\<rparr>, frame)
      | None \<Rightarrow>
          let server = so_current_id ops (w_sched w) core
          in case q_first_live (e_senders ep) (so_frame_of ops (w_sched w)) of
               (sq, Some (sender, cframe)) \<Rightarrow>
                 let m1 = transfer (w_frames w) cframe frame;
                     m2 = frame_set_reg m1 frame reg_SYSNO_RESULT res_OK;
                     m3 = frame_set_reg m2 frame reg_EP_BADGE (frame_reg m2 cframe reg_EP_BADGE)
                 in (ep\<lparr>e_senders := sq, e_caller := Some sender, e_reply_owner := Some server\<rparr>, w\<lparr>w_frames := m3\<rparr>, frame)
             | (sq, None) \<Rightarrow>
                 (case q_enqueue (e_receivers ep) server of
                    (rq, False) \<Rightarrow>
                      (ep\<lparr>e_senders := sq, e_receivers := rq\<rparr>,
                       w\<lparr>w_frames := frame_set_reg (w_frames w) frame reg_SYSNO_RESULT ERR_EP_FULL\<rparr>, frame)
                  | (rq, True) \<Rightarrow>
                      (case so_block_current ops (w_sched w) core frame of
                         (s, nx) \<Rightarrow> (ep\<lparr>e_senders := sq, e_receivers := rq\<rparr>, w\<lparr>w_sched := s\<rparr>, nx))))"

definition ep_reply :: "'s SchedOps \<Rightarrow> nat \<Rightarrow> nat \<Rightarrow> IpcEndpoint \<Rightarrow> 's World \<Rightarrow> IpcEndpoint \<times> 's World \<times> nat" where
  "ep_reply ops core frame ep w =
     (if \<not> e_used ep then (ep, w\<lparr>w_frames := frame_set_reg (w_frames w) frame reg_SYSNO_RESULT ERR_BADCAP\<rparr>, frame)
      else
        let s1 = so_end_donation ops (w_sched w) core;
            ep1 = ep\<lparr>e_reply_owner := None, e_caller := None\<rparr>;
            w1 = (case e_caller ep of
                    None \<Rightarrow> w\<lparr>w_sched := s1\<rparr>
                  | Some caller \<Rightarrow>
                      if \<not> so_wartet_auf_ipc ops s1 caller then w\<lparr>w_sched := s1\<rparr>
                      else case so_frame_of ops s1 caller of
                             Some cframe \<Rightarrow>
                               \<lparr>w_sched = so_unblock ops s1 caller,
                                w_frames = frame_set_reg (transfer (w_frames w) frame cframe) cframe reg_SYSNO_RESULT res_OK\<rparr>
                           | None \<Rightarrow> w\<lparr>w_sched := so_unblock ops s1 caller\<rparr>)
        in (ep1, w1\<lparr>w_frames := frame_set_reg (w_frames w1) frame reg_SYSNO_RESULT res_OK\<rparr>, frame))"

section \<open>Notifications\<close>

record IpcNotification =
  n_used :: bool
  n_pending :: u64
  n_waiter :: "ThreadId option"

definition Notification_EMPTY :: IpcNotification where
  "Notification_EMPTY = \<lparr>n_used = False, n_pending = 0, n_waiter = None\<rparr>"

definition nt_mark_used :: "IpcNotification \<Rightarrow> IpcNotification" where
  "nt_mark_used nt = Notification_EMPTY\<lparr>n_used := True\<rparr>"

definition nt_purge_thread :: "IpcNotification \<Rightarrow> ThreadId \<Rightarrow> IpcNotification \<times> bool" where
  "nt_purge_thread nt t = (if n_waiter nt = Some t then (nt\<lparr>n_waiter := None\<rparr>, True) else (nt, False))"

definition nt_audit :: "IpcNotification \<Rightarrow> (ThreadId \<Rightarrow> bool) \<Rightarrow> bool" where
  "nt_audit nt alive = (case n_waiter nt of None \<Rightarrow> False | Some t \<Rightarrow> \<not> alive t)"

definition nt_quiescence_of :: "IpcNotification \<Rightarrow> ThreadId \<Rightarrow> Quiescence" where
  "nt_quiescence_of nt t = Quiescence_default\<lparr>as_receiver := (n_used nt \<and> n_waiter nt = Some t)\<rparr>"

definition nt_occupants :: "IpcNotification \<Rightarrow> (ThreadId \<times> Role) list \<Rightarrow> (ThreadId \<times> Role) list \<times> (nat + nat)" where
  "nt_occupants nt out =
     (case n_waiter nt of
        Some t \<Rightarrow> if n_used nt then (if out = [] then (out, Inl 1) else (out[0 := (t, Receiver)], Inr 1)) else (out, Inr 0)
      | None \<Rightarrow> (out, Inr 0))"

definition nt_signal_from_kernel :: "'s SchedOps \<Rightarrow> u64 \<Rightarrow> IpcNotification \<Rightarrow> 's World \<Rightarrow> IpcNotification \<times> 's World" where
  "nt_signal_from_kernel ops badge nt w =
     (if \<not> n_used nt then (nt, w)
      else
        let nt1 = nt\<lparr>n_pending := n_pending nt OR badge\<rparr>
        in case n_waiter nt1 of
             None \<Rightarrow> (nt1, w)
           | Some t \<Rightarrow>
               let nt2 = nt1\<lparr>n_waiter := None\<rparr>;
                   (nt3, m) = (case so_frame_of ops (w_sched w) t of
                                 Some wframe \<Rightarrow>
                                   (nt2\<lparr>n_pending := 0\<rparr>,
                                    frame_set_reg (frame_set_reg (w_frames w) wframe reg_SYSNO_RESULT res_OK)
                                      wframe reg_EP_BADGE (n_pending nt2))
                               | None \<Rightarrow> (nt2, w_frames w))
               in (nt3, \<lparr>w_sched = so_unblock ops (w_sched w) t, w_frames = m\<rparr>))"

definition nt_signal :: "'s SchedOps \<Rightarrow> u64 \<Rightarrow> nat \<Rightarrow> IpcNotification \<Rightarrow> 's World \<Rightarrow> IpcNotification \<times> 's World \<times> nat" where
  "nt_signal ops badge frame nt w =
     (if \<not> n_used nt then (nt, w\<lparr>w_frames := frame_set_reg (w_frames w) frame reg_SYSNO_RESULT ERR_BADCAP\<rparr>, frame)
      else case nt_signal_from_kernel ops badge nt w of
             (nt', w') \<Rightarrow> (nt', w'\<lparr>w_frames := frame_set_reg (w_frames w') frame reg_SYSNO_RESULT res_OK\<rparr>, frame))"

definition nt_wait :: "'s SchedOps \<Rightarrow> nat \<Rightarrow> nat \<Rightarrow> IpcNotification \<Rightarrow> 's World \<Rightarrow> IpcNotification \<times> 's World \<times> nat" where
  "nt_wait ops core frame nt w =
     (if \<not> n_used nt then (nt, w\<lparr>w_frames := frame_set_reg (w_frames w) frame reg_SYSNO_RESULT ERR_BADCAP\<rparr>, frame)
      else if n_pending nt \<noteq> 0 then
        (nt\<lparr>n_pending := 0\<rparr>,
         w\<lparr>w_frames := frame_set_reg (frame_set_reg (w_frames w) frame reg_SYSNO_RESULT res_OK) frame reg_EP_BADGE (n_pending nt)\<rparr>,
         frame)
      else if n_waiter nt \<noteq> None then
        (nt, w\<lparr>w_frames := frame_set_reg (w_frames w) frame reg_SYSNO_RESULT ERR_EP_FULL\<rparr>, frame)
      else
        (case so_block_current ops (w_sched w) core frame of
           (s, nx) \<Rightarrow> (nt\<lparr>n_waiter := Some (so_current_id ops (w_sched w) core)\<rparr>, w\<lparr>w_sched := s\<rparr>, nx)))"

end
