(* ===== verification/IpcProps.thy ===== *)
theory IpcProps
  imports Ipc
begin

text \<open>
  Properties of endpoints and notifications: what a rendezvous delivers, that a thread is never
  suspended without being recorded, one-shot replies, monotonicity of a quiesced endpoint, the exact
  effect of rebinding a server, and that no signal is lost.
\<close>

section \<open>Frames\<close>

lemma transfer_reg:
  "frame_reg (transfer m src dst) f r = (if f = dst \<and> 2 \<le> r \<and> r \<le> 6 then frame_reg m src r else frame_reg m f r)"
proof -
  have "[0..<4] = [0, 1, 2, 3 :: nat]" by (simp add: upt_rec)
  moreover have "2 \<le> r \<and> r \<le> 6 \<longleftrightarrow> r = 2 \<or> r = 3 \<or> r = 4 \<or> r = 5 \<or> r = 6" by auto
  ultimately show ?thesis
    by (auto simp: transfer_def reg_defs Let_def frame_reg_set)
qed

lemmas frame_simps = frame_reg_set transfer_reg reg_defs

section \<open>Well-formed endpoints\<close>

definition ep_wf :: "IpcEndpoint \<Rightarrow> bool" where
  "ep_wf ep \<longleftrightarrow> q_wf (e_senders ep) \<and> q_wf (e_receivers ep)"

abbreviation senders :: "IpcEndpoint \<Rightarrow> ThreadId list" where "senders ep \<equiv> q_list (e_senders ep)"
abbreviation receivers :: "IpcEndpoint \<Rightarrow> ThreadId list" where "receivers ep \<equiv> q_list (e_receivers ep)"

text \<open>Everyone an endpoint knows.\<close>

definition parts :: "IpcEndpoint \<Rightarrow> ThreadId set" where
  "parts ep = set (senders ep) \<union> set (receivers ep) \<union> set_option (e_caller ep) \<union> set_option (e_reply_owner ep)"

lemma first_live_cases:
  assumes "q_wf q"
  obtains (none) q' where "q_first_live q fr = (q', None)" "q_wf q'" "q_list q' = []" "dropWhile (\<lambda>t. fr t = None) (q_list q) = []"
  | (some) q' t f ts where "q_first_live q fr = (q', Some (t, f))" "q_wf q'" "q_list q' = ts" "fr t = Some f"
      "dropWhile (\<lambda>t. fr t = None) (q_list q) = t # ts"
proof (cases "dropWhile (\<lambda>t. fr t = None) (q_list q)")
  case Nil
  with tidq.first_live_spec [OF assms, of fr] show ?thesis by (auto simp: q_first_live_def intro: none)
next
  case (Cons t ts)
  then have "fr t \<noteq> None" using hd_dropWhile [of "\<lambda>t. fr t = None" "q_list q"] by auto
  with Cons tidq.first_live_spec [OF assms, of fr] show ?thesis by (auto simp: q_first_live_def intro: some)
qed

lemma dropWhile_set: "dropWhile P xs = t # ts \<Longrightarrow> t \<in> set xs \<and> set ts \<subseteq> set xs"
  by (metis set_dropWhileD list.set_intros subsetI)

lemma enqueue_cases:
  assumes "q_wf q"
  obtains (full) "q_enqueue q t = (q, False)" "32 \<le> length (q_list q)"
  | (room) q' where "q_enqueue q t = (q', True)" "q_wf q'" "q_list q' = q_list q @ [t]" "length (q_list q) < 32"
proof (cases "length (q_list q) < QCAP")
  case True
  with tidq.enq_room [OF assms this, of t] room show ?thesis by (cases "q_enqueue q t") (auto simp: QCAP_def)
next
  case False
  with tidq.enq_full [OF assms, of t] full show ?thesis by (auto simp: QCAP_def)
qed

lemma remove_cases:
  assumes "q_wf q"
  obtains q' where "q_remove q t = (q', t \<in> set (q_list q))" "q_wf q'" "q_list q' = filter (\<lambda>x. x \<noteq> t) (q_list q)"
  using tidq.remove_spec [OF assms, of t] by (auto simp: q_remove_def)

section \<open>CALL and RECV\<close>


text \<open>
  \<open>RECV\<close> on an open endpoint, on every branch: the first live sender's message, tag and badge are
  copied into the server's frame and the reply token names that sender and this server, which continues
  at once; otherwise the server is queued and suspended, or refused when 32 servers already wait.
\<close>

theorem recv_outcome:
  assumes "ep_wf ep" "gate_new_transaction ep = None" "ep_recv ops core frame ep w = (ep', w', nx)"
  shows "ep_wf ep' \<and>
    (case dropWhile (\<lambda>t. so_frame_of ops (w_sched w) t = None) (senders ep) of
       sender # rest \<Rightarrow>
         senders ep' = rest \<and> receivers ep' = receivers ep \<and> e_caller ep' = Some sender \<and>
         e_reply_owner ep' = Some (so_current_id ops (w_sched w) core) \<and> w_sched w' = w_sched w \<and> nx = frame \<and>
         frame_reg (w_frames w') frame reg_SYSNO_RESULT = res_OK \<and>
         (\<exists>cframe. so_frame_of ops (w_sched w) sender = Some cframe \<and>
            frame_reg (w_frames w') frame reg_EP_BADGE = frame_reg (w_frames w) cframe reg_EP_BADGE \<and>
            frame_reg (w_frames w') frame reg_TAG = frame_reg (w_frames w) cframe reg_TAG \<and>
            (\<forall>i<MSG_WORDS. frame_reg (w_frames w') frame (reg_MSG0 + i) = frame_reg (w_frames w) cframe (reg_MSG0 + i)))
     | [] \<Rightarrow>
         senders ep' = [] \<and> e_caller ep' = e_caller ep \<and> e_reply_owner ep' = e_reply_owner ep \<and>
         (if length (receivers ep) < 32
          then receivers ep' = receivers ep @ [so_current_id ops (w_sched w) core] \<and>
            (w_sched w', nx) = so_block_current ops (w_sched w) core frame \<and> w_frames w' = w_frames w
          else receivers ep' = receivers ep \<and> w_sched w' = w_sched w \<and> nx = frame \<and>
            frame_reg (w_frames w') frame reg_SYSNO_RESULT = ERR_EP_FULL))"
proof -
  have wf: "q_wf (e_senders ep)" "q_wf (e_receivers ep)" using assms(1) by (simp_all add: ep_wf_def)
  from wf(1) show ?thesis
  proof (cases rule: first_live_cases [where fr = "so_frame_of ops (w_sched w)"])
    case (none sq)
    from wf(2) show ?thesis
    proof (cases rule: enqueue_cases [where t = "so_current_id ops (w_sched w) core"])
      case full
      then show ?thesis unfolding none(4) list.case using assms(2,3) none(1-3) wf
        by (auto simp: ep_recv_def Let_def ep_wf_def frame_simps)
    next
      case (room rq)
      obtain s nx' where b: "so_block_current ops (w_sched w) core frame = (s, nx')" by force
      show ?thesis unfolding none(4) list.case using assms(2,3) none(1-3) room wf b
        by (auto simp: ep_recv_def Let_def ep_wf_def frame_simps)
    qed
  next
    case (some sq sender cframe rest)
    show ?thesis unfolding some(5) list.case using assms(2,3) some(1-4) wf
      by (auto simp: ep_recv_def Let_def ep_wf_def frame_simps)
  qed
qed


section \<open>Suspended threads are recorded\<close>

text \<open>What the steps of an endpoint keep, in the form the invariants need.\<close>

definition one_sided :: "IpcEndpoint \<Rightarrow> bool" where
  "one_sided ep \<longleftrightarrow> senders ep = [] \<or> receivers ep = []"

definition token_paired :: "IpcEndpoint \<Rightarrow> bool" where
  "token_paired ep \<longleftrightarrow> (e_caller ep = None \<longleftrightarrow> e_reply_owner ep = None)"

definition step_ok :: "IpcEndpoint \<Rightarrow> IpcEndpoint \<Rightarrow> bool" where
  "step_ok ep ep' \<longleftrightarrow> ep_wf ep' \<and> (one_sided ep \<longrightarrow> one_sided ep') \<and> (token_paired ep \<longrightarrow> token_paired ep')"

lemma call_step:
  assumes "ep_wf ep" "ep_call ops core frame badge ep w = (ep', w', nx)"
  shows "step_ok ep ep' \<and> (w_sched w' = w_sched w \<and> nx = frame \<or> e_used ep' \<and> so_current_id ops (w_sched w) core \<in> parts ep') \<and>
    (gate_new_transaction ep \<noteq> None \<longrightarrow> ep' = ep) \<and> e_quiescing ep' = e_quiescing ep \<and> e_used ep' = e_used ep"
proof (cases "gate_new_transaction ep")
  case (Some code)
  then show ?thesis using assms by (auto simp: ep_call_def step_ok_def)
next
  case None
  then have used: "e_used ep" by (simp add: gate_new_transaction_def split: if_splits)
  have wf: "q_wf (e_senders ep)" "q_wf (e_receivers ep)" using assms(1) by (simp_all add: ep_wf_def)
  from wf(2) show ?thesis
  proof (cases rule: first_live_cases [where fr = "so_frame_of ops (w_sched w)"])
    case (none rq)
    from wf(1) show ?thesis
    proof (cases rule: enqueue_cases [where t = "so_current_id ops (w_sched w) core"])
      case full
      then show ?thesis using assms(2) None used none(1-3) wf by (auto simp: ep_call_def Let_def ep_wf_def step_ok_def one_sided_def token_paired_def)
    next
      case (room sq)
      obtain s nx' where b: "so_block_current ops (w_sched w) core frame = (s, nx')" by force
      show ?thesis using assms(2) None used none(1-3) room wf b
        by (auto simp: ep_call_def Let_def ep_wf_def step_ok_def one_sided_def token_paired_def parts_def)
    qed
  next
    case (some rq server sframe rest)
    obtain s nx' where b: "call_suspend ops (w_sched w) core frame server = (s, nx')" by force
    have "receivers ep \<noteq> []" using some(5) by auto
    then show ?thesis using assms(2) None used some(1-4) wf b
      by (auto simp: ep_call_def Let_def ep_wf_def step_ok_def one_sided_def token_paired_def parts_def)
  qed
qed

lemma recv_step:
  assumes "ep_wf ep" "ep_recv ops core frame ep w = (ep', w', nx)"
  shows "step_ok ep ep' \<and> (w_sched w' = w_sched w \<and> nx = frame \<or> e_used ep' \<and> so_current_id ops (w_sched w) core \<in> parts ep') \<and>
    (gate_new_transaction ep \<noteq> None \<longrightarrow> ep' = ep) \<and> e_quiescing ep' = e_quiescing ep \<and> e_used ep' = e_used ep"
proof (cases "gate_new_transaction ep")
  case (Some code)
  then show ?thesis using assms by (auto simp: ep_recv_def step_ok_def)
next
  case None
  then have used: "e_used ep" by (simp add: gate_new_transaction_def split: if_splits)
  have wf: "q_wf (e_senders ep)" "q_wf (e_receivers ep)" using assms(1) by (simp_all add: ep_wf_def)
  from wf(1) show ?thesis
  proof (cases rule: first_live_cases [where fr = "so_frame_of ops (w_sched w)"])
    case (none sq)
    from wf(2) show ?thesis
    proof (cases rule: enqueue_cases [where t = "so_current_id ops (w_sched w) core"])
      case full
      then show ?thesis using assms(2) None used none(1-3) wf by (auto simp: ep_recv_def Let_def ep_wf_def step_ok_def one_sided_def token_paired_def)
    next
      case (room rq)
      obtain s nx' where b: "so_block_current ops (w_sched w) core frame = (s, nx')" by force
      show ?thesis using assms(2) None used none(1-3) room wf b
        by (auto simp: ep_recv_def Let_def ep_wf_def step_ok_def one_sided_def token_paired_def parts_def)
    qed
  next
    case (some sq sender cframe rest)
    have "senders ep \<noteq> []" using some(5) by auto
    then show ?thesis using assms(2) None used some(1-4) wf
      by (auto simp: ep_recv_def Let_def ep_wf_def step_ok_def one_sided_def token_paired_def parts_def)
  qed
qed

lemma parts_quiescence:
  "ep_wf e \<Longrightarrow> is_quiescent (ep_quiescence_of e t) \<longleftrightarrow> \<not> e_used e \<or> t \<notin> parts e"
  by (auto simp: parts_def is_quiescent_def ep_quiescence_of_def ep_wf_def q_contains_iff Quiescence_default_def)

text \<open>
  C21. No thread is suspended and forgotten: after \<open>CALL\<close>, \<open>RECV\<close> and \<open>WAIT\<close> either the scheduler was not
  touched and the calling thread continues in its own frame, or the object records the thread, so that
  the partner, the audit and the cleanup at thread death can find it.
\<close>

theorem suspended_is_recorded:
  assumes "ep_wf ep"
  shows "(case ep_call ops core frame badge ep w of (ep', w', nx) \<Rightarrow>
      w_sched w' = w_sched w \<and> nx = frame \<or> \<not> is_quiescent (ep_quiescence_of ep' (so_current_id ops (w_sched w) core))) \<and>
    (case ep_recv ops core frame ep w of (ep', w', nx) \<Rightarrow>
      w_sched w' = w_sched w \<and> nx = frame \<or> \<not> is_quiescent (ep_quiescence_of ep' (so_current_id ops (w_sched w) core))) \<and>
    (case nt_wait ops core frame nt w of (nt', w', nx) \<Rightarrow>
      w_sched w' = w_sched w \<and> nx = frame \<or> \<not> is_quiescent (nt_quiescence_of nt' (so_current_id ops (w_sched w) core)))"
proof -
  obtain ep1 w1 nx1 where c: "ep_call ops core frame badge ep w = (ep1, w1, nx1)" by (cases "ep_call ops core frame badge ep w")
  obtain ep2 w2 nx2 where r: "ep_recv ops core frame ep w = (ep2, w2, nx2)" by (cases "ep_recv ops core frame ep w")
  have "ep_wf ep1" "ep_wf ep2" using call_step [OF assms c] recv_step [OF assms r] by (simp_all add: step_ok_def)
  moreover have "case nt_wait ops core frame nt w of (nt', w', nx) \<Rightarrow>
      w_sched w' = w_sched w \<and> nx = frame \<or> \<not> is_quiescent (nt_quiescence_of nt' (so_current_id ops (w_sched w) core))"
    by (auto simp: nt_wait_def nt_quiescence_of_def is_quiescent_def Quiescence_default_def split: prod.split)
  ultimately show ?thesis using call_step [OF assms c] recv_step [OF assms r] c r parts_quiescence [of ep1] parts_quiescence [of ep2] by auto
qed

section \<open>Replies\<close>

text \<open>
  A reply is delivered at most once and only to a caller that still waits: \<open>REPLY\<close> consumes the
  token; the waiting caller gets the words and the tag and is woken; when no token is open, or the caller
  no longer waits, no frame but the server's own result register changes and nobody is woken.
\<close>

theorem reply_outcome:
  assumes "e_used ep" "ep_reply ops core frame ep w = (ep', w', nx)"
  defines "s1 \<equiv> so_end_donation ops (w_sched w) core"
  shows "e_caller ep' = None \<and> e_reply_owner ep' = None \<and> e_senders ep' = e_senders ep \<and> e_receivers ep' = e_receivers ep \<and>
    nx = frame \<and> frame_reg (w_frames w') frame reg_SYSNO_RESULT = res_OK \<and>
    (case e_caller ep of
       None \<Rightarrow> w' = \<lparr>w_sched = s1, w_frames = frame_set_reg (w_frames w) frame reg_SYSNO_RESULT res_OK\<rparr>
     | Some caller \<Rightarrow>
         if \<not> so_wartet_auf_ipc ops s1 caller
         then w' = \<lparr>w_sched = s1, w_frames = frame_set_reg (w_frames w) frame reg_SYSNO_RESULT res_OK\<rparr>
         else w_sched w' = so_unblock ops s1 caller \<and>
           (\<forall>cframe. so_frame_of ops s1 caller = Some cframe \<longrightarrow>
              frame_reg (w_frames w') cframe reg_SYSNO_RESULT = res_OK \<and>
              frame_reg (w_frames w') cframe reg_TAG = frame_reg (w_frames w) frame reg_TAG \<and>
              (\<forall>i<MSG_WORDS. frame_reg (w_frames w') cframe (reg_MSG0 + i) = frame_reg (w_frames w) frame (reg_MSG0 + i))))"
proof (cases "e_caller ep")
  case None
  then show ?thesis using assms(1,2) unfolding s1_def by (auto simp: ep_reply_def Let_def frame_simps)
next
  case (Some caller)
  show ?thesis
  proof (cases "so_wartet_auf_ipc ops s1 caller")
    case False
    then show ?thesis using assms(1,2) Some unfolding s1_def by (auto simp: ep_reply_def Let_def frame_simps)
  next
    case True
    then show ?thesis using assms(1,2) Some unfolding s1_def
      by (cases "so_frame_of ops s1 caller") (auto simp: ep_reply_def Let_def frame_simps s1_def)
  qed
qed

section \<open>Steps of an endpoint\<close>

text \<open>
  All operations of an endpoint as a step relation. Calls of the system call path happen in an arbitrary
  world, since other objects run in between. The two operations of a server exchange that put a thread
  into a queue without a rendezvous (\<open>migrate_owner\<close>, \<open>bind_receiver\<close>) are steps of their own.
\<close>

inductive ep_step :: "'s SchedOps \<Rightarrow> IpcEndpoint \<Rightarrow> IpcEndpoint \<Rightarrow> bool" for ops where
  es_call: "ep_call ops core frame badge ep w = (ep', w', nx) \<Longrightarrow> ep_step ops ep ep'"
| es_recv: "ep_recv ops core frame ep w = (ep', w', nx) \<Longrightarrow> ep_step ops ep ep'"
| es_reply: "ep_reply ops core frame ep w = (ep', w', nx) \<Longrightarrow> ep_step ops ep ep'"
| es_retire: "retire_receiver ep t = (ep', b) \<Longrightarrow> ep_step ops ep ep'"
| es_purge: "ep_purge_thread ep t = (ep', b) \<Longrightarrow> ep_step ops ep ep'"
| es_died: "owner_died ep t = (ep', r) \<Longrightarrow> ep_step ops ep ep'"
| es_abort: "abort_call ep t = (ep', r) \<Longrightarrow> ep_step ops ep ep'"

inductive ep_bind :: "IpcEndpoint \<Rightarrow> IpcEndpoint \<Rightarrow> bool" where
  eb_migrate: "migrate_owner ep t = (ep', b) \<Longrightarrow> ep_bind ep ep'"
| eb_bind: "bind_receiver ep t = (ep', b) \<Longrightarrow> ep_bind ep ep'"

inductive ep_admin :: "IpcEndpoint \<Rightarrow> IpcEndpoint \<Rightarrow> bool" where
  ea_begin: "begin_quiesce ep = (ep', b) \<Longrightarrow> ep_admin ep ep'"
| ea_end: "end_quiesce ep = (ep', b) \<Longrightarrow> ep_admin ep ep'"
| ea_rebind: "rebind_server ep t u = (ep', r) \<Longrightarrow> ep_admin ep ep'"
| ea_mark: "ep_mark_used ep = ep' \<Longrightarrow> ep_admin ep ep'"

lemma q_remove_sub:
  assumes "q_wf q" "q_remove q t = (q', b)"
  shows "q_wf q'" "set (q_list q') \<subseteq> set (q_list q)" "q_list q = [] \<Longrightarrow> q_list q' = []"
  by (rule remove_cases [OF assms(1), of t]; use assms(2) in auto)+

lemma ep_step_ok:
  assumes "ep_step ops ep ep'" "ep_wf ep"
  shows "step_ok ep ep' \<and> (e_quiescing ep \<longrightarrow> parts ep' \<subseteq> parts ep) \<and> e_quiescing ep' = e_quiescing ep \<and> e_used ep' = e_used ep"
  using assms
proof (induction rule: ep_step.induct)
  case (es_call core frame badge ep w ep' w' nx)
  show ?case using call_step [OF es_call(2,1)] by (auto simp: gate_new_transaction_def split: if_splits)
next
  case (es_recv core frame ep w ep' w' nx)
  show ?case using recv_step [OF es_recv(2,1)] by (auto simp: gate_new_transaction_def split: if_splits)
next
  case (es_reply core frame ep w ep' w' nx)
  then show ?case by (auto simp: ep_reply_def Let_def step_ok_def ep_wf_def one_sided_def token_paired_def parts_def split: if_splits)
next
  case (es_retire ep t ep' b)
  then show ?case using q_remove_sub [of "e_receivers ep" t]
    by (auto simp: retire_receiver_def step_ok_def ep_wf_def one_sided_def token_paired_def parts_def split: if_splits prod.splits)
next
  case (es_purge ep t ep' b)
  obtain sq b1 rq b2 where r: "q_remove (e_senders ep) t = (sq, b1)" "q_remove (e_receivers ep) t = (rq, b2)" by fastforce
  have wf: "q_wf (e_senders ep)" "q_wf (e_receivers ep)" using es_purge(2) by (simp_all add: ep_wf_def)
  note R = q_remove_sub [OF wf(1) r(1)] q_remove_sub [OF wf(2) r(2)]
  show ?case using es_purge(1) r R
    by (auto simp: ep_purge_thread_def Let_def step_ok_def ep_wf_def one_sided_def token_paired_def parts_def split: if_splits)
next
  case (es_died ep t ep' r)
  then show ?case by (auto simp: owner_died_def step_ok_def ep_wf_def one_sided_def token_paired_def parts_def split: if_splits)
next
  case (es_abort ep t ep' r)
  then show ?case by (auto simp: abort_call_def step_ok_def ep_wf_def one_sided_def token_paired_def parts_def split: if_splits)
qed

lemma bind_ok:
  assumes "ep_bind ep ep'" "ep_wf ep"
  shows "ep_wf ep' \<and> (token_paired ep \<longrightarrow> token_paired ep') \<and> e_quiescing ep' = e_quiescing ep \<and> e_used ep' = e_used ep"
  using assms
proof (induction rule: ep_bind.induct)
  case (eb_migrate ep t ep' b)
  then have "q_wf (e_senders ep)" by (simp add: ep_wf_def)
  then show ?case
    by (cases rule: enqueue_cases [where t = "the (e_caller ep)"])
      (use eb_migrate in \<open>auto simp: migrate_owner_def ep_wf_def token_paired_def split: if_splits option.splits\<close>)
next
  case (eb_bind ep t ep' b)
  then have "q_wf (e_receivers ep)" by (simp add: ep_wf_def)
  then show ?case
    by (cases rule: enqueue_cases [where t = t])
      (use eb_bind in \<open>auto simp: bind_receiver_def ep_wf_def token_paired_def split: if_splits\<close>)
qed

lemma migrate_parts:
  assumes "ep_wf ep" "migrate_owner ep t = (ep', b)"
  shows "parts ep' \<subseteq> parts ep"
proof -
  have "q_wf (e_senders ep)" using assms(1) by (simp add: ep_wf_def)
  then show ?thesis
    by (cases rule: enqueue_cases [where t = "the (e_caller ep)"])
      (use assms(2) in \<open>auto simp: migrate_owner_def parts_def split: if_splits option.splits\<close>)
qed

section \<open>Exchanging a server\<close>

text \<open>The two queue states in which an exchange is allowed.\<close>

definition rebindable :: "IpcEndpoint \<Rightarrow> ThreadId \<Rightarrow> ThreadId \<Rightarrow> bool" where
  "rebindable ep old new \<longleftrightarrow> e_used ep \<and> e_quiescing ep \<and> old \<noteq> new \<and> senders ep = [] \<and>
     e_caller ep = None \<and> e_reply_owner ep = None \<and> receivers ep \<in> {[old], [old, new], [new, old]}"

lemma own_entries:
  assumes "old \<noteq> new"
  shows "old \<in> set xs \<and> length xs \<le> of_bool (old \<in> set xs) + of_bool (new \<in> set xs) \<longleftrightarrow> xs \<in> {[old], [old, new], [new, old]}"
proof (cases "length xs \<le> 2")
  case True
  then consider "xs = []" | a where "xs = [a]" | a b where "xs = [a, b]"
    by (metis le_Suc_eq le_zero_eq length_0_conv length_Suc_conv numeral_2_eq_2)
  then show ?thesis using assms by cases auto
next
  case False
  then show ?thesis by (auto simp: of_bool_def split: if_splits)
qed

lemma rebind_cases:
  assumes "ep_wf ep"
  obtains (ok) q where "rebindable ep old new"
      "rebind_server ep old new = (ep\<lparr>e_receivers := q\<rparr>, Done (new \<in> set (receivers ep)))" "q_wf q" "q_list q = [new]"
  | (refused) q r where "\<not> rebindable ep old new"
      "rebind_server ep old new = (ep\<lparr>e_receivers := q\<rparr>, r)" "q_wf q" "q_list q = receivers ep" "\<not> is_done r"
proof -
  have wf: "q_wf (e_senders ep)" "q_wf (e_receivers ep)" using assms by (simp_all add: ep_wf_def)
  let ?mine = "of_bool (old \<in> set (receivers ep)) + of_bool (new \<in> set (receivers ep))"
  let ?bl = "\<lparr>senders_waiting = (senders ep \<noteq> []), other_receiver = (q_count (e_receivers ep) > ?mine),
    reply_open = (e_caller ep \<noteq> None \<or> e_reply_owner ep \<noteq> None)\<rparr>"
  have len: "q_is_empty (e_senders ep) \<longleftrightarrow> senders ep = []"
    by (simp add: q_is_empty_def flip: length_0_conv)
  show ?thesis
  proof (cases "e_used ep \<and> e_quiescing ep \<and> old \<noteq> new \<and> ?bl = RebindBlocked_default")
    case False
    then have "\<exists>r. rebind_server ep old new = (ep\<lparr>e_receivers := e_receivers ep\<rparr>, r) \<and> \<not> is_done r"
      unfolding rebind_server_def Let_def by (auto simp: is_done_def q_contains_iff [OF wf(2)] len)
    moreover have "\<not> rebindable ep old new"
      using False length_q_list [of "e_receivers ep"]
      by (auto simp: rebindable_def RebindBlocked_default_def simp del: length_q_list)
    ultimately show ?thesis using refused wf(2) by blast
  next
    case True
    from wf(2) obtain q' where q': "q_remove (e_receivers ep) old = (q', old \<in> set (receivers ep))" "q_wf q'"
      "q_list q' = filter (\<lambda>x. x \<noteq> old) (receivers ep)" by (rule remove_cases [where t = old])
    show ?thesis
    proof (cases "old \<in> set (receivers ep)")
      case False
      then have "rebind_server ep old new = (ep\<lparr>e_receivers := q'\<rparr>, NotReceiver)"
        using True q'(1) unfolding rebind_server_def Let_def by (simp add: q_contains_iff [OF wf(2)] len)
      moreover have "q_list q' = receivers ep" using q'(3) False by (metis (mono_tags, lifting) filter_id_conv)
      moreover have "\<not> rebindable ep old new" using False unfolding rebindable_def by force
      ultimately show ?thesis using refused [of q' NotReceiver] q'(2) by (simp add: is_done_def)
    next
      case old: True
      then have sh: "receivers ep \<in> {[old], [old, new], [new, old]}"
        using True own_entries [of old new "receivers ep"] by (auto simp: RebindBlocked_default_def)
      obtain q where q: "rebind_server ep old new = (ep\<lparr>e_receivers := q\<rparr>, Done (new \<in> set (receivers ep)))" and
        qq: "q = (if new \<in> set (receivers ep) then q' else fst (q_enqueue q' new))"
        using True q'(1) old unfolding rebind_server_def Let_def by (simp add: q_contains_iff [OF wf(2)] len)
      have l: "q_list q' = (if new \<in> set (receivers ep) then [new] else [])" using sh q'(3) True by auto
      from q'(2) have "q_wf q \<and> q_list q = [new]"
        by (cases rule: enqueue_cases [where t = new]) (use qq l q'(2) in \<open>auto split: if_splits\<close>)
      moreover have "rebindable ep old new" using True sh by (auto simp: rebindable_def RebindBlocked_default_def)
      ultimately show ?thesis using ok q by blast
    qed
  qed
qed

text \<open>
  Exchanging a server is all or nothing. \<open>rebind_server\<close> succeeds exactly when the endpoint is closed
  for new calls, nobody waits as a sender, no reply is owed and only the old and possibly the new server
  are bound; afterwards exactly the new server is bound, and the answer tells whether it was bound before.
  In every other case the endpoint is left with the queues, token and flags it had.
\<close>

theorem rebind_exact:
  assumes "ep_wf ep" "rebind_server ep old new = (ep', r)"
  shows "(is_done r \<longleftrightarrow> e_used ep \<and> e_quiescing ep \<and> old \<noteq> new \<and> senders ep = [] \<and> e_caller ep = None \<and>
      e_reply_owner ep = None \<and> receivers ep \<in> {[old], [old, new], [new, old]}) \<and>
    (is_done r \<longrightarrow> receivers ep' = [new] \<and> is_overlapped r = (new \<in> set (receivers ep))) \<and>
    (\<not> is_done r \<longrightarrow> receivers ep' = receivers ep) \<and>
    ep_wf ep' \<and> e_senders ep' = e_senders ep \<and> e_caller ep' = e_caller ep \<and> e_reply_owner ep' = e_reply_owner ep \<and>
    e_used ep' = e_used ep \<and> e_quiescing ep' = e_quiescing ep"
  using assms(1)
proof (cases rule: rebind_cases [where old = old and new = new])
  case (ok q)
  then show ?thesis using assms unfolding rebindable_def by (auto simp: ep_wf_def is_done_def is_overlapped_def)
next
  case (refused q r)
  then show ?thesis using assms unfolding rebindable_def by (auto simp: ep_wf_def)
qed

section \<open>Invariants of an endpoint\<close>

lemma admin_ok:
  assumes "ep_admin ep ep'" "ep_wf ep"
  shows "step_ok ep ep'"
  using assms
proof (induction rule: ep_admin.induct)
  case (ea_rebind ep t u ep' r)
  from ea_rebind(2) show ?case
    by (cases rule: rebind_cases [where old = t and new = u])
      (use ea_rebind in \<open>auto simp: step_ok_def ep_wf_def one_sided_def token_paired_def rebindable_def\<close>)
qed (auto simp: step_ok_def begin_quiesce_def end_quiesce_def ep_mark_used_def ep_wf_def one_sided_def token_paired_def
    Endpoint_EMPTY_def split: if_splits)

definition ep_ops :: "'s SchedOps \<Rightarrow> IpcEndpoint \<Rightarrow> IpcEndpoint \<Rightarrow> bool" where
  "ep_ops ops ep ep' \<longleftrightarrow> ep_step ops ep ep' \<or> ep_admin ep ep'"

definition ep_all :: "'s SchedOps \<Rightarrow> IpcEndpoint \<Rightarrow> IpcEndpoint \<Rightarrow> bool" where
  "ep_all ops ep ep' \<longleftrightarrow> ep_step ops ep ep' \<or> ep_admin ep ep' \<or> ep_bind ep ep'"

lemma empty_ok: "ep_wf Endpoint_EMPTY \<and> one_sided Endpoint_EMPTY \<and> token_paired Endpoint_EMPTY"
  by (simp add: ep_wf_def one_sided_def token_paired_def Endpoint_EMPTY_def)

interpretation epd: step_system "\<lambda>ep. ep = Endpoint_EMPTY" "ep_ops ops" "\<lambda>ep. ep_wf ep \<and> token_paired ep \<and> one_sided ep" for ops
  by unfold_locales (auto simp: empty_ok ep_ops_def step_ok_def dest: ep_step_ok admin_ok)

interpretation epa: step_system "\<lambda>ep. ep = Endpoint_EMPTY" "ep_all ops" "\<lambda>ep. ep_wf ep \<and> token_paired ep" for ops
  by unfold_locales (auto simp: empty_ok ep_all_def step_ok_def dest: ep_step_ok admin_ok bind_ok)

text \<open>
  C20. The rendezvous invariant. However an endpoint is used, its queues stay well formed and a caller is
  recorded as waiting for a reply exactly when a server is recorded as owing one. As long as no
  server exchange puts threads into the queues (\<open>migrate_owner\<close>, \<open>bind_receiver\<close>), callers and
  servers never wait on both sides at once.
\<close>

theorem rendezvous_invariant:
  shows "(reach (\<lambda>ep. ep = Endpoint_EMPTY) (ep_all ops) ep \<longrightarrow> ep_wf ep \<and> (e_caller ep = None \<longleftrightarrow> e_reply_owner ep = None)) \<and>
    (reach (\<lambda>ep. ep = Endpoint_EMPTY) (ep_ops ops) ep \<longrightarrow> senders ep = [] \<or> receivers ep = [])"
  using epa.reach_inv [of ops ep] epd.reach_inv [of ops ep] unfolding token_paired_def one_sided_def by blast

definition closed_step :: "'s SchedOps \<Rightarrow> IpcEndpoint \<Rightarrow> IpcEndpoint \<Rightarrow> bool" where
  "closed_step ops ep ep' \<longleftrightarrow> ep_step ops ep ep' \<or> (\<exists>t b. migrate_owner ep t = (ep', b))"

lemma closed_step_ok:
  assumes "closed_step ops ep ep'" "ep_wf ep" "e_quiescing ep"
  shows "ep_wf ep' \<and> e_quiescing ep' \<and> e_used ep' = e_used ep \<and> parts ep' \<subseteq> parts ep"
  using assms(1) unfolding closed_step_def
proof (elim disjE exE)
  assume "ep_step ops ep ep'"
  from ep_step_ok [OF this assms(2)] assms(3) show ?thesis by (auto simp: step_ok_def)
next
  fix t b
  assume m: "migrate_owner ep t = (ep', b)"
  from bind_ok [OF eb_migrate [OF m] assms(2)] migrate_parts [OF assms(2) m] assms(3) show ?thesis by auto
qed

lemma closed_steps_ok:
  assumes "(closed_step ops)\<^sup>*\<^sup>* ep ep'" "ep_wf ep" "e_quiescing ep"
  shows "ep_wf ep' \<and> e_quiescing ep' \<and> e_used ep' = e_used ep \<and> parts ep' \<subseteq> parts ep"
  using assms(1)
proof (induction rule: rtranclp_induct)
  case (step y z)
  with closed_step_ok [of ops y z] show ?case by blast
qed (use assms in auto)

text \<open>
  Closing an endpoint is monotone. While it is closed for new calls no sequence of calls, receives,
  replies, deaths, aborts, retirements and hand-overs, in any worlds, adds a participant: a thread found
  quiescent stays quiescent until the endpoint is reopened, so the answer cannot become stale.
\<close>

theorem quiescent_stays:
  assumes "(closed_step ops)\<^sup>*\<^sup>* ep ep'" "ep_wf ep" "e_quiescing ep" "is_quiescent (ep_quiescence_of ep t)"
  shows "is_quiescent (ep_quiescence_of ep' t) \<and> e_quiescing ep'"
  using closed_steps_ok [OF assms(1-3)] assms(2,4) by (auto simp: parts_quiescence)

section \<open>Death of a thread\<close>

text \<open>
  After the clean-up of a dying thread (\<open>owner_died\<close> and \<open>purge_thread\<close>) no queue and no token of the
  endpoint names it. The others keep their places in order; only a caller that waited for a reply of the
  dead thread leaves the endpoint, and exactly that caller is reported for waking.
\<close>

theorem death_cleanup:
  assumes "ep_wf ep" "e_used ep" "owner_died ep t = (ep1, woken)" "ep_purge_thread ep1 t = (ep2, found)"
  shows "is_quiescent (ep_quiescence_of ep2 t) \<and>
    senders ep2 = filter (\<lambda>x. x \<noteq> t) (senders ep) \<and> receivers ep2 = filter (\<lambda>x. x \<noteq> t) (receivers ep) \<and>
    woken = (if e_reply_owner ep = Some t then e_caller ep else None) \<and>
    (e_caller ep2 = (if e_reply_owner ep = Some t \<or> e_caller ep = Some t then None else e_caller ep)) \<and>
    (found \<longleftrightarrow> t \<in> set (senders ep) \<union> set (receivers ep) \<or> e_caller ep = Some t \<and> e_reply_owner ep \<noteq> Some t)"
proof -
  have wf: "q_wf (e_senders ep)" "q_wf (e_receivers ep)" using assms(1) by (simp_all add: ep_wf_def)
  have s1: "e_senders ep1 = e_senders ep" "e_receivers ep1 = e_receivers ep" "e_used ep1"
    using assms(2,3) by (auto simp: owner_died_def split: if_splits)
  obtain sq where sq: "q_remove (e_senders ep) t = (sq, t \<in> set (senders ep))" "q_wf sq" "q_list sq = filter (\<lambda>x. x \<noteq> t) (senders ep)"
    by (rule remove_cases [OF wf(1)])
  obtain rq where rq: "q_remove (e_receivers ep) t = (rq, t \<in> set (receivers ep))" "q_wf rq" "q_list rq = filter (\<lambda>x. x \<noteq> t) (receivers ep)"
    by (rule remove_cases [OF wf(2)])
  have ep1: "e_caller ep1 = (if e_reply_owner ep = Some t then None else e_caller ep)"
    "e_reply_owner ep1 = (if e_reply_owner ep = Some t then None else e_reply_owner ep)"
    "woken = (if e_reply_owner ep = Some t then e_caller ep else None)"
    using assms(3) by (auto simp: owner_died_def split: if_splits)
  have ep2: "e_senders ep2 = sq" "e_receivers ep2 = rq" "e_used ep2"
    "e_caller ep2 = (if e_caller ep1 = Some t then None else e_caller ep1)"
    "e_reply_owner ep2 = (if e_caller ep1 = Some t then None else e_reply_owner ep1)"
    "found = (e_caller ep1 = Some t \<or> t \<in> set (senders ep) \<or> t \<in> set (receivers ep))"
    using assms(4) sq(1) rq(1) s1 by (auto simp: ep_purge_thread_def Let_def split: if_splits)
  show ?thesis unfolding is_quiescent_def ep_quiescence_of_def
    using ep2 ep1 sq(2,3) rq(2,3) by (auto simp: q_contains_iff)
qed

section \<open>Notifications\<close>

text \<open>
  The history of a notification: the bits signalled so far and the bits handed to a waiting thread, read
  off the frames the operations wrote. The operations happen in arbitrary worlds.
\<close>

inductive nt_run :: "'s SchedOps \<Rightarrow> IpcNotification \<Rightarrow> IpcNotification \<Rightarrow> u64 \<Rightarrow> u64 \<Rightarrow> bool" for ops nt0 where
  nr_start: "nt_run ops nt0 nt0 0 0"
| nr_signal: "nt_run ops nt0 nt sent got \<Longrightarrow> nt_signal ops badge frame nt w = (nt', w', nx) \<Longrightarrow>
    taken = (case n_waiter nt of None \<Rightarrow> 0 | Some t \<Rightarrow> (case so_frame_of ops (w_sched w) t of None \<Rightarrow> 0 | Some f \<Rightarrow> frame_reg (w_frames w') f reg_EP_BADGE)) \<Longrightarrow>
    nt_run ops nt0 nt' (sent OR badge) (got OR taken)"
| nr_kernel: "nt_run ops nt0 nt sent got \<Longrightarrow> nt_signal_from_kernel ops badge nt w = (nt', w') \<Longrightarrow>
    taken = (case n_waiter nt of None \<Rightarrow> 0 | Some t \<Rightarrow> (case so_frame_of ops (w_sched w) t of None \<Rightarrow> 0 | Some f \<Rightarrow> frame_reg (w_frames w') f reg_EP_BADGE)) \<Longrightarrow>
    nt_run ops nt0 nt' (sent OR badge) (got OR taken)"
| nr_wait: "nt_run ops nt0 nt sent got \<Longrightarrow> nt_wait ops core frame nt w = (nt', w', nx) \<Longrightarrow>
    taken = (if n_waiter nt' = n_waiter nt \<and> frame_reg (w_frames w') frame reg_SYSNO_RESULT = res_OK
             then frame_reg (w_frames w') frame reg_EP_BADGE else 0) \<Longrightarrow>
    nt_run ops nt0 nt' sent (got OR taken)"
| nr_purge: "nt_run ops nt0 nt sent got \<Longrightarrow> nt_purge_thread nt t = (nt', b) \<Longrightarrow> nt_run ops nt0 nt' sent got"

lemma nt_run_used: "nt_run ops nt0 nt sent got \<Longrightarrow> n_used nt = n_used nt0"
  by (induction rule: nt_run.induct)
    (auto simp: nt_signal_def nt_signal_from_kernel_def nt_wait_def nt_purge_thread_def Let_def split: if_splits option.splits prod.splits)

lemma nt_step_bits:
  assumes "n_used nt" "n_waiter nt = None \<or> n_pending nt = 0"
  shows "nt_signal_from_kernel ops badge nt w = (nt', w1) \<Longrightarrow>
      (case n_waiter nt of None \<Rightarrow> 0 | Some t \<Rightarrow> (case so_frame_of ops (w_sched w) t of None \<Rightarrow> 0 | Some f \<Rightarrow> frame_reg (w_frames w1) f reg_EP_BADGE)) OR n_pending nt' =
      n_pending nt OR badge \<and> n_waiter nt' = None"
    and "nt_signal ops badge frame nt w = (nt', w1, nx) \<Longrightarrow>
      (case n_waiter nt of None \<Rightarrow> 0 | Some t \<Rightarrow> (case so_frame_of ops (w_sched w) t of None \<Rightarrow> 0 | Some f \<Rightarrow> frame_reg (w_frames w1) f reg_EP_BADGE)) OR n_pending nt' =
      n_pending nt OR badge \<and> n_waiter nt' = None"
    and "nt_wait ops core frame nt w = (nt', w1, nx) \<Longrightarrow>
      (if n_waiter nt' = n_waiter nt \<and> frame_reg (w_frames w1) frame reg_SYSNO_RESULT = res_OK then frame_reg (w_frames w1) frame reg_EP_BADGE else 0) OR n_pending nt' =
      n_pending nt \<and> (n_waiter nt' = None \<or> n_pending nt' = 0)"
  using assms
  by (auto simp: nt_signal_def nt_signal_from_kernel_def nt_wait_def Let_def frame_simps res_OK_def ERR_EP_FULL_def split: option.splits if_splits prod.splits)

lemma or_chain:
  fixes got p sent p0 badge taken p' :: u64
  assumes "got OR p = p0 OR sent" "taken OR p' = p OR badge"
  shows "(got OR taken) OR p' = p0 OR (sent OR badge)"
  by (metis assms or.assoc)

text \<open>
  C27. No signal is lost: over every history of a notification in use, the bits handed to waiters together
  with the bits still pending are exactly the bits signalled since the start and those pending then.
  And no thread sleeps over a pending signal.
\<close>

theorem signals_conserved:
  assumes "nt_run ops nt0 nt sent got" "n_used nt0" "n_waiter nt0 = None \<or> n_pending nt0 = 0"
  shows "got OR n_pending nt = n_pending nt0 OR sent \<and> (n_waiter nt = None \<or> n_pending nt = 0)"
  using assms
proof (induction rule: nt_run.induct)
  case (nr_kernel nt sent got badge w nt' w' taken)
  have "n_used nt" "n_waiter nt = None \<or> n_pending nt = 0" using nr_kernel nt_run_used [OF nr_kernel(1)] by simp_all
  from nt_step_bits(1) [OF this nr_kernel(2)] nr_kernel show ?case by (auto intro!: or_chain)
next
  case (nr_signal nt sent got badge frame w nt' w' nx taken)
  have "n_used nt" "n_waiter nt = None \<or> n_pending nt = 0" using nr_signal nt_run_used [OF nr_signal(1)] by simp_all
  from nt_step_bits(2) [OF this nr_signal(2)] nr_signal show ?case by (auto intro!: or_chain)
next
  case (nr_wait nt sent got core frame w nt' w' nx taken)
  have "n_used nt" "n_waiter nt = None \<or> n_pending nt = 0" using nr_wait nt_run_used [OF nr_wait(1)] by simp_all
  from nt_step_bits(3) [OF this nr_wait(2)] nr_wait show ?case
    using or_chain [of got "n_pending nt" "n_pending nt0" sent taken "n_pending nt'" 0] by simp
next
  case (nr_purge nt sent got t nt' b)
  then show ?case by (auto simp: nt_purge_thread_def split: if_splits)
qed simp

end
