(* ===== verification/IpcSample.thy ===== *)
theory IpcSample
  imports IpcProps
begin

text \<open>
  A small scheduler for running endpoints on concrete threads: the state is the running thread and the list
  of blocked ones, every thread lives on core 0 and its frame has address \<open>10 + slot\<close>. It evaluates the
  properties of \<open>IpcProps\<close> on concrete runs and carries the run of two servers on one endpoint.
\<close>

definition thr :: "nat \<Rightarrow> ThreadId" where
  "thr n = \<lparr>t_slot = n, t_gen = 0\<rparr>"

definition toy_ops :: "(ThreadId \<times> ThreadId list) SchedOps" where
  "toy_ops =
     \<lparr>so_current_id = (\<lambda>s core. fst s), so_frame_of = (\<lambda>s t. if t_gen t = 0 then Some (10 + t_slot t) else None),
      so_wartet_auf_ipc = (\<lambda>s t. t \<in> set (snd s)), so_owner_core = (\<lambda>s t. Some 0),
      so_block_current = (\<lambda>s core frame. ((thr 9, fst s # snd s), 19)),
      so_switch_to = (\<lambda>s core frame t. ((t, fst s # filter (\<lambda>x. x \<noteq> t) (snd s)), 10 + t_slot t)),
      so_unblock = (\<lambda>s t. (fst s, filter (\<lambda>x. x \<noteq> t) (snd s))), so_end_donation = (\<lambda>s core. s)\<rparr>"

definition toy_world :: "(ThreadId \<times> ThreadId list) World" where
  "toy_world = \<lparr>w_sched = (thr 9, []), w_frames = (\<lambda>f r. of_nat (100 * f + r))\<rparr>"

text \<open>Let another thread run.\<close>

definition run_as :: "nat \<Rightarrow> (ThreadId \<times> ThreadId list) World \<Rightarrow> (ThreadId \<times> ThreadId list) World" where
  "run_as n w = w\<lparr>w_sched := (thr n, snd (w_sched w))\<rparr>"

text \<open>An endpoint with two waiting servers, and one with a waiting client.\<close>

definition two_servers :: IpcEndpoint where
  "two_servers = Endpoint_EMPTY\<lparr>e_used := True, e_receivers := fst (q_enqueue (fst (q_enqueue TidQueue_EMPTY (thr 0))) (thr 1))\<rparr>"

definition one_client :: IpcEndpoint where
  "one_client = Endpoint_EMPTY\<lparr>e_used := True, e_senders := fst (q_enqueue TidQueue_EMPTY (thr 2))\<rparr>"

lemma toy_queues:
  "q_wf (fst (q_enqueue TidQueue_EMPTY t))" "q_list (fst (q_enqueue TidQueue_EMPTY t)) = [t]"
  "q_wf (fst (q_enqueue (fst (q_enqueue TidQueue_EMPTY t)) u))" "q_list (fst (q_enqueue (fst (q_enqueue TidQueue_EMPTY t)) u)) = [t, u]"
proof -
  have "snd (q_enqueue TidQueue_EMPTY t) \<and> q_wf (fst (q_enqueue TidQueue_EMPTY t)) \<and> q_list (fst (q_enqueue TidQueue_EMPTY t)) = [t]"
    using tidq.enq_room [OF q_empty(1), of t] unfolding q_empty(2) by (simp add: QCAP_def)
  then show one: "q_wf (fst (q_enqueue TidQueue_EMPTY t))" "q_list (fst (q_enqueue TidQueue_EMPTY t)) = [t]" by simp_all
  have "length (q_list (fst (q_enqueue TidQueue_EMPTY t))) < QCAP" unfolding one(2) by (simp add: QCAP_def)
  from tidq.enq_room [OF one(1) this, of u] one(2)
  show "q_wf (fst (q_enqueue (fst (q_enqueue TidQueue_EMPTY t)) u))" "q_list (fst (q_enqueue (fst (q_enqueue TidQueue_EMPTY t)) u)) = [t, u]"
    by simp_all
qed

lemma toy_endpoints:
  "ep_wf two_servers" "gate_new_transaction two_servers = None" "senders two_servers = []" "receivers two_servers = [thr 0, thr 1]"
  "ep_wf one_client" "gate_new_transaction one_client = None" "senders one_client = [thr 2]" "receivers one_client = []"
  by (simp_all add: two_servers_def one_client_def ep_wf_def gate_new_transaction_def toy_queues Endpoint_EMPTY_def)

lemmas toy_simps = toy_ops_def toy_world_def run_as_def thr_def

lemma call_meets:
  assumes "ep_wf ep" "gate_new_transaction ep = None" "receivers ep = server # rest" "so_frame_of ops (w_sched w) server = Some f"
    "ep_call ops core frame badge ep w = (ep', w', nx)"
  shows "ep_wf ep' \<and> gate_new_transaction ep' = None \<and> senders ep' = senders ep \<and> receivers ep' = rest \<and>
    e_caller ep' = Some (so_current_id ops (w_sched w) core) \<and> e_reply_owner ep' = Some server"
proof -
  have wf: "q_wf (e_senders ep)" "q_wf (e_receivers ep)" using assms(1) by (simp_all add: ep_wf_def)
  from wf(2) show ?thesis
  proof (cases rule: first_live_cases [where fr = "so_frame_of ops (w_sched w)"])
    case (none q)
    then show ?thesis using assms(3,4) by simp
  next
    case (some q t g ts)
    obtain s nx' where b: "call_suspend ops (w_sched w) core frame t = (s, nx')" by force
    show ?thesis using assms(2-5) some wf b
      by (auto simp: ep_call_def Let_def ep_wf_def gate_new_transaction_def split: if_splits)
  qed
qed

text \<open>
  C33. An endpoint keeps a single reply token, so two servers on one endpoint lose a caller. When a second
  caller meets the second server before the first server has replied, the token of the first call is
  overwritten: the first caller is suspended, but neither queued nor recorded, and the endpoint reports it
  as quiescent. The reply of the first server is then delivered to the second caller.
\<close>

theorem second_rendezvous_forgets_caller:
  assumes "ep_wf ep" "gate_new_transaction ep = None" "senders ep = []" "receivers ep = a # b # rest"
    and "so_current_id ops (w_sched w) core = c1" "so_frame_of ops (w_sched w) a = Some fa"
      "ep_call ops core frame badge ep w = (ep1, w1, nx1)"
    and "so_current_id ops (w_sched v) core' = c2" "so_frame_of ops (w_sched v) b = Some fb"
      "ep_call ops core' frame' badge' ep1 v = (ep2, v2, nx2)"
    and "c1 \<noteq> c2" "c1 \<noteq> b" "c1 \<notin> set rest"
    and "so_current_id ops (w_sched u) core'' = a" "so_wartet_auf_ipc ops (so_end_donation ops (w_sched u) core'') c2"
      "ep_reply ops core'' fa ep2 u = (ep3, u', nx3)"
  shows "e_caller ep1 = Some c1 \<and> e_reply_owner ep1 = Some a \<and> is_quiescent (ep_quiescence_of ep2 c1) \<and>
    w_sched u' = so_unblock ops (so_end_donation ops (w_sched u) core'') c2"
proof -
  from call_meets [OF assms(1,2,4,6,7)] assms(3,5)
  have ep1: "ep_wf ep1" "gate_new_transaction ep1 = None" "senders ep1 = []" "receivers ep1 = b # rest"
    "e_caller ep1 = Some c1" "e_reply_owner ep1 = Some a" by simp_all
  from call_meets [OF ep1(1,2,4) assms(9,10)] ep1(3) assms(8)
  have ep2: "ep_wf ep2" "gate_new_transaction ep2 = None" "senders ep2 = []" "receivers ep2 = rest"
    "e_caller ep2 = Some c2" "e_reply_owner ep2 = Some b" by simp_all
  have "c1 \<notin> parts ep2" unfolding parts_def ep2(3-6) using assms(11-13) by simp
  moreover have "w_sched u' = so_unblock ops (so_end_donation ops (w_sched u) core'') c2"
    using assms(15,16) ep2(2,5) by (auto simp: ep_reply_def Let_def gate_new_transaction_def split: if_splits option.splits)
  ultimately show ?thesis using ep1(5,6) ep2(1) by (simp add: parts_quiescence)
qed

theorem second_rendezvous_forgets_caller_witness:
  "is_quiescent (ep_quiescence_of
     (fst (ep_call toy_ops 0 13 8 (fst (ep_call toy_ops 0 12 7 two_servers (run_as 2 toy_world))) (run_as 3 toy_world))) (thr 2))"
proof -
  define u where "u = \<lparr>w_sched = (thr 0, [thr 2, thr 3]), w_frames = w_frames toy_world\<rparr>"
  obtain ep1 w1 nx1 where c1: "ep_call toy_ops 0 12 7 two_servers (run_as 2 toy_world) = (ep1, w1, nx1)" by (rule prod_cases3)
  obtain ep2 w2 nx2 where c2: "ep_call toy_ops 0 13 8 ep1 (run_as 3 toy_world) = (ep2, w2, nx2)" by (rule prod_cases3)
  obtain ep3 w3 nx3 where r: "ep_reply toy_ops 0 10 ep2 u = (ep3, w3, nx3)" by (rule prod_cases3)
  from second_rendezvous_forgets_caller [OF toy_endpoints(1-4) _ _ c1 _ _ c2 _ _ _ _ _ r]
  have "is_quiescent (ep_quiescence_of ep2 (thr 2))" by (simp add: toy_simps u_def)
  then show ?thesis by (simp add: c1 c2)
qed

section \<open>The properties on concrete endpoints\<close>


theorem recv_outcome_witness:
  "case ep_recv toy_ops 0 10 one_client (run_as 0 toy_world) of
     (ep, w, nx) \<Rightarrow> senders ep = [] \<and> e_caller ep = Some (thr 2) \<and> e_reply_owner ep = Some (thr 0) \<and> nx = 10"
proof -
  obtain ep w nx where c: "ep_recv toy_ops 0 10 one_client (run_as 0 toy_world) = (ep, w, nx)" by (rule prod_cases3)
  from recv_outcome [OF toy_endpoints(5,6) c] show ?thesis unfolding c toy_endpoints by (simp add: toy_simps)
qed

theorem suspended_is_recorded_witness:
  "case ep_call toy_ops 0 12 7 one_client (run_as 3 toy_world) of
     (ep, w, nx) \<Rightarrow> w_sched w = w_sched (run_as 3 toy_world) \<and> nx = 12 \<or> \<not> is_quiescent (ep_quiescence_of ep (thr 3))"
  using suspended_is_recorded [OF toy_endpoints(5), where ops = toy_ops and core = 0 and frame = 12 and badge = 7 and w = "run_as 3 toy_world"]
  by (simp add: toy_simps)

theorem reply_outcome_witness:
  "case ep_reply toy_ops 0 10 (two_servers\<lparr>e_caller := Some (thr 2), e_reply_owner := Some (thr 0)\<rparr>)
       (toy_world\<lparr>w_sched := (thr 0, [thr 2])\<rparr>) of
     (ep, w, nx) \<Rightarrow> e_caller ep = None \<and> w_sched w = (thr 0, [])"
proof -
  let ?ep = "two_servers\<lparr>e_caller := Some (thr 2), e_reply_owner := Some (thr 0)\<rparr>"
  let ?w = "toy_world\<lparr>w_sched := (thr 0, [thr 2])\<rparr>"
  obtain ep w nx where c: "ep_reply toy_ops 0 10 ?ep ?w = (ep, w, nx)" by (rule prod_cases3)
  have "e_used ?ep" by (simp add: two_servers_def)
  from reply_outcome [OF this c] show ?thesis unfolding c by (simp add: toy_simps)
qed

theorem rebind_exact_witness:
  "is_done (snd (rebind_server (two_servers\<lparr>e_quiescing := True\<rparr>) (thr 0) (thr 1)))"
proof -
  let ?ep = "two_servers\<lparr>e_quiescing := True\<rparr>"
  obtain ep r where c: "rebind_server ?ep (thr 0) (thr 1) = (ep, r)" by (rule prod.exhaust)
  have "ep_wf ?ep" using toy_endpoints(1) by (simp add: ep_wf_def)
  from rebind_exact [OF this c] have "is_done r" using toy_endpoints(3,4) by (simp add: thr_def two_servers_def Endpoint_EMPTY_def)
  then show ?thesis unfolding c by simp
qed

theorem rendezvous_invariant_witness:
  "\<exists>ep. reach (\<lambda>ep. ep = Endpoint_EMPTY) (ep_ops toy_ops) ep \<and> e_used ep \<and> (senders ep = [] \<or> receivers ep = [])"
proof -
  have e: "reach (\<lambda>ep. ep = Endpoint_EMPTY) (ep_ops toy_ops) (ep_mark_used Endpoint_EMPTY)"
    by (rule reach.intros(2) [OF reach.intros(1)]) (auto simp: ep_ops_def intro: ea_mark)
  moreover have "e_used (ep_mark_used Endpoint_EMPTY)" by (simp add: ep_mark_used_def)
  ultimately show ?thesis using rendezvous_invariant [of toy_ops "ep_mark_used Endpoint_EMPTY"] by blast
qed

theorem quiescent_stays_witness:
  "is_quiescent (ep_quiescence_of (fst (ep_reply toy_ops 0 10 (two_servers\<lparr>e_quiescing := True\<rparr>) toy_world)) (thr 5))"
proof -
  let ?ep = "two_servers\<lparr>e_quiescing := True\<rparr>"
  obtain ep w nx where c: "ep_reply toy_ops 0 10 ?ep toy_world = (ep, w, nx)" by (rule prod_cases3)
  have s: "(closed_step toy_ops)\<^sup>*\<^sup>* ?ep ep" using es_reply [OF c] by (auto simp: closed_step_def)
  have w: "ep_wf ?ep" using toy_endpoints(1) by (simp add: ep_wf_def)
  have "thr 5 \<notin> parts ?ep" using toy_endpoints(3,4) by (auto simp: parts_def two_servers_def Endpoint_EMPTY_def thr_def)
  with w have "is_quiescent (ep_quiescence_of ?ep (thr 5))" by (simp add: parts_quiescence)
  from quiescent_stays [OF s w _ this] show ?thesis by (simp add: c)
qed

theorem death_cleanup_witness:
  "senders (fst (ep_purge_thread (fst (owner_died one_client (thr 2))) (thr 2))) = []"
proof -
  obtain ep1 r where o: "owner_died one_client (thr 2) = (ep1, r)" by (rule prod.exhaust)
  obtain ep2 b where p: "ep_purge_thread ep1 (thr 2) = (ep2, b)" by (rule prod.exhaust)
  have "e_used one_client" by (simp add: one_client_def)
  from death_cleanup [OF toy_endpoints(5) this o p] show ?thesis using toy_endpoints(7) by (simp add: o p)
qed

theorem signals_conserved_witness:
  "n_pending (fst (nt_signal toy_ops 5 12 (nt_mark_used Notification_EMPTY) toy_world)) = 5"
proof -
  obtain nt w nx where c: "nt_signal toy_ops 5 12 (nt_mark_used Notification_EMPTY) toy_world = (nt, w, nx)" by (rule prod_cases3)
  have n: "n_used (nt_mark_used Notification_EMPTY)" "n_waiter (nt_mark_used Notification_EMPTY) = None"
    "n_pending (nt_mark_used Notification_EMPTY) = 0" by (simp_all add: nt_mark_used_def Notification_EMPTY_def)
  have "nt_run toy_ops (nt_mark_used Notification_EMPTY) nt (0 OR 5) (0 OR 0)"
    by (rule nr_signal [OF nr_start c]) (simp add: n)
  from signals_conserved [OF this n(1)] n show ?thesis by (simp add: c)
qed

end
