(* ===== verification/SchedDecide.thy ===== *)
theory SchedDecide
  imports SchedIf
begin

text \<open>
  The parts of \<open>caprock-sched\<close> that decide without tables and locks: cycle measurements (\<open>cycles.rs\<close>),
  the decision on one deadline (\<open>fristen.rs\<close>), the decision on the periodic tick (\<open>nohz.rs\<close>), the set
  of block reasons and the packed entries of the thread directory (\<open>lib.rs\<close>).
\<close>

section \<open>Cycle measurement\<close>

record Stamp =
  st_cycles :: u64
  st_core :: u16

datatype Source = Invariant | Untrusted

datatype Reject = Backward | Implausible | CoreChanged | SourceUntrusted

datatype Sample = Valid u64 | Rejected Reject

definition MAX_PLAUSIBLE_SLICE :: u64 where "MAX_PLAUSIBLE_SLICE = push_bit 40 1"

definition measure_cycles :: "Stamp \<Rightarrow> Stamp \<Rightarrow> Source \<Rightarrow> u64 \<Rightarrow> Sample" where
  "measure_cycles prev now source max_plausible =
     (if source \<noteq> Invariant then Rejected SourceUntrusted
      else if st_core prev \<noteq> st_core now then Rejected CoreChanged
      else if st_cycles now < st_cycles prev then Rejected Backward
      else let d = st_cycles now - st_cycles prev
           in if d > max_plausible then Rejected Implausible else Valid d)"

record CycleStats =
  cy_consumed :: u64
  cy_samples :: u64
  cy_backward :: u32
  cy_implausible :: u32
  cy_core :: u32
  cy_source :: u32

definition CycleStats_EMPTY :: CycleStats where
  "CycleStats_EMPTY = \<lparr>cy_consumed = 0, cy_samples = 0, cy_backward = 0, cy_implausible = 0, cy_core = 0, cy_source = 0\<rparr>"

definition saturating_inc32 :: "u32 \<Rightarrow> u32" where
  "saturating_inc32 a = (if a = - 1 then a else a + 1)"

fun cyc_apply :: "CycleStats \<Rightarrow> Sample \<Rightarrow> CycleStats" where
  "cyc_apply c (Valid d) = c\<lparr>cy_consumed := saturating_add64 (cy_consumed c) d, cy_samples := cy_samples c + 1\<rparr>"
| "cyc_apply c (Rejected Backward) = c\<lparr>cy_backward := saturating_inc32 (cy_backward c)\<rparr>"
| "cyc_apply c (Rejected Implausible) = c\<lparr>cy_implausible := saturating_inc32 (cy_implausible c)\<rparr>"
| "cyc_apply c (Rejected CoreChanged) = c\<lparr>cy_core := saturating_inc32 (cy_core c)\<rparr>"
| "cyc_apply c (Rejected SourceUntrusted) = c\<lparr>cy_source := saturating_inc32 (cy_source c)\<rparr>"

definition cyc_rejected :: "CycleStats \<Rightarrow> u64" where
  "cyc_rejected c = ucast (cy_backward c) + ucast (cy_implausible c) + ucast (cy_core c) + ucast (cy_source c)"

definition cyc_measurable :: "CycleStats \<Rightarrow> bool" where
  "cyc_measurable c \<longleftrightarrow> cy_samples c > 0"

section \<open>Deadlines and the periodic tick\<close>

datatype FristBefund = Zukunft | Freigeben | Aufschieben | SignalGewann

definition frist_befund :: "u64 \<Rightarrow> u64 \<Rightarrow> bool \<Rightarrow> bool \<Rightarrow> FristBefund" where
  "frist_befund jetzt frist grund_noch_da ausgabe_voll =
     (if frist > jetzt then Zukunft
      else if ausgabe_voll then Aufschieben
      else if \<not> grund_noch_da then SignalGewann
      else Freigeben)"

datatype Nohz = Periodic | OneShot u64 | Disarmed

definition nohz_plan :: "nat \<Rightarrow> u64 option \<Rightarrow> bool \<Rightarrow> Nohz" where
  "nohz_plan rivalen weckruf hat_schranke =
     (if rivalen > 0 then Periodic
      else if hat_schranke then Periodic
      else case weckruf of
             None \<Rightarrow> Disarmed
           | Some d \<Rightarrow> if d \<le> 1 then Periodic else OneShot d)"

section \<open>Block reasons\<close>

type_synonym BlockReasons = u16

definition BR_IPC :: u16 where "BR_IPC = 1"
definition BR_BUDGET :: u16 where "BR_BUDGET = 2"
definition BR_PAUSE :: u16 where "BR_PAUSE = 4"
definition BR_PARK :: u16 where "BR_PARK = 8"
definition BR_HANDLER :: u16 where "BR_HANDLER = 16"
definition BR_LOAD :: u16 where "BR_LOAD = 32"
definition BR_DEBUG :: u16 where "BR_DEBUG = 64"
definition BR_FREEZE :: u16 where "BR_FREEZE = 128"

lemmas br_defs = BR_IPC_def BR_BUDGET_def BR_PAUSE_def BR_PARK_def BR_HANDLER_def BR_LOAD_def BR_DEBUG_def BR_FREEZE_def

definition br_has :: "BlockReasons \<Rightarrow> u16 \<Rightarrow> bool" where
  "br_has r g \<longleftrightarrow> r AND g \<noteq> 0"

definition br_insert :: "u16 \<Rightarrow> BlockReasons \<Rightarrow> BlockReasons" where
  "br_insert g r = r OR g"

definition br_remove :: "u16 \<Rightarrow> BlockReasons \<Rightarrow> BlockReasons" where
  "br_remove g r = r AND NOT g"

text \<open>The reasons as a set of bits: inserting and removing one reason leaves the others alone.\<close>

lemma br_bits:
  "bit (br_insert g r) n \<longleftrightarrow> bit r n \<or> bit g n" "n < 16 \<Longrightarrow> bit (br_remove g r) n \<longleftrightarrow> bit r n \<and> \<not> bit g n"
  by (auto simp: br_insert_def br_remove_def bit_simps)

lemma br_insert_not_empty: "g \<noteq> 0 \<Longrightarrow> br_insert g r \<noteq> 0"
  by (simp add: br_insert_def or_eq_0_iff)

lemma br_has_insert: "br_has (br_insert g r) h \<longleftrightarrow> br_has r h \<or> br_has g h"
  by (simp add: br_has_def br_insert_def bit.conj_disj_distrib2 or_eq_0_iff)

lemma br_has_remove: "g AND h = 0 \<Longrightarrow> br_has (br_remove g r) h \<longleftrightarrow> br_has r h"
proof -
  assume a: "g AND h = 0"
  have "(r AND NOT g) AND h = r AND h"
  proof (rule bit_word_eqI)
    fix n assume "n < LENGTH(16)"
    have "\<not> (bit g n \<and> bit h n)" using a by (metis bit_and_iff bit_0_eq bot_apply bot_bool_def)
    then show "bit ((r AND NOT g) AND h) n = bit (r AND h) n" using \<open>n < LENGTH(16)\<close> by (auto simp: bit_simps)
  qed
  then show ?thesis by (simp add: br_has_def br_remove_def)
qed

lemma br_has_empty [simp]: "\<not> br_has 0 g"
  by (simp add: br_has_def)

lemma br_remove_has [simp]: "\<not> br_has (br_remove g r) g"
proof -
  have "(r AND NOT g) AND g = 0" by (rule bit_word_eqI) (auto simp: bit_simps)
  then show ?thesis by (simp add: br_has_def br_remove_def)
qed

lemma br_remove_0 [simp]: "br_remove g 0 = 0"
  by (simp add: br_remove_def)

lemma br_remove_absent: "\<not> br_has r g \<Longrightarrow> br_remove g r = r"
proof -
  assume a: "\<not> br_has r g"
  show ?thesis
  proof (rule bit_word_eqI)
    fix n assume "n < LENGTH(16)"
    have "\<not> (bit r n \<and> bit g n)" using a unfolding br_has_def by (metis bit_and_iff bit_0_eq bot_apply bot_bool_def)
    then show "bit (br_remove g r) n = bit r n" using \<open>n < LENGTH(16)\<close> by (auto simp: br_bits)
  qed
qed

section \<open>Entries of the thread directory\<close>

definition D_USED :: u64 where "D_USED = push_bit 63 1"
definition D_GEN_MASK :: u64 where "D_GEN_MASK = 0x7fffffff"
definition D_CORE_MASK :: u64 where "D_CORE_MASK = 0xffff"
definition D_LOCAL_MASK :: u64 where "D_LOCAL_MASK = 0xffff"

definition pack_dir :: "bool \<Rightarrow> u32 \<Rightarrow> nat \<Rightarrow> nat \<Rightarrow> u64" where
  "pack_dir used gen core local =
     (if used then D_USED else 0) OR push_bit 32 (ucast gen AND D_GEN_MASK) OR
     push_bit 16 (of_nat core AND D_CORE_MASK) OR (of_nat local AND D_LOCAL_MASK)"

definition dir_used :: "u64 \<Rightarrow> bool" where "dir_used e \<longleftrightarrow> e AND D_USED \<noteq> 0"
definition dir_gen :: "u64 \<Rightarrow> u32" where "dir_gen e = ucast (drop_bit 32 e AND D_GEN_MASK)"
definition dir_core :: "u64 \<Rightarrow> nat" where "dir_core e = unat (drop_bit 16 e AND D_CORE_MASK)"
definition dir_local :: "u64 \<Rightarrow> nat" where "dir_local e = unat (e AND D_LOCAL_MASK)"

lemmas dir_masks = D_USED_def D_GEN_MASK_def D_CORE_MASK_def D_LOCAL_MASK_def

text \<open>
  An entry gives back what was packed, for generations below \<open>2 ^ 31\<close> and cores and local slots below
  \<open>2 ^ 16\<close>.
\<close>

lemma mask_bits: "D_GEN_MASK = mask 31" "D_CORE_MASK = mask 16" "D_LOCAL_MASK = mask 16"
  by (simp_all add: dir_masks mask_eq_exp_minus_1)

lemma bit_of_nat_small: "n < 2 ^ k \<Longrightarrow> k \<le> m \<Longrightarrow> \<not> bit (of_nat n :: u64) m"
proof -
  assume a: "n < 2 ^ k" "k \<le> m"
  have "take_bit k (of_nat n :: u64) = of_nat n" using a(1) by (simp add: take_bit_of_nat take_bit_nat_eq_self)
  then show ?thesis using a(2) by (metis bit_take_bit_iff not_less)
qed

lemma bit_D_USED: "bit D_USED n \<longleftrightarrow> n = 63"
proof -
  have "D_USED = 2 ^ 63" by (simp add: D_USED_def)
  then show ?thesis unfolding \<open>D_USED = 2 ^ 63\<close> bit_exp_iff by auto
qed

lemma bit_gen_small: "gen < 2 ^ 31 \<Longrightarrow> 31 \<le> m \<Longrightarrow> \<not> bit (gen :: u32) m"
proof -
  assume a: "gen < 2 ^ 31" "31 \<le> m"
  have "unat gen < 2 ^ 31" using a(1) by (simp add: word_less_nat_alt)
  then have "take_bit 31 gen = gen" by (metis take_bit_nat_eq_self unsigned_take_bit_eq unsigned_word_eqI)
  then show ?thesis using a(2) by (metis bit_take_bit_iff not_less)
qed

lemma bit_pack_dir:
  assumes "gen < 2 ^ 31" "core < 2 ^ 16" "local < 2 ^ 16" "n < 64"
  shows "bit (pack_dir used gen core local) n \<longleftrightarrow>
    (if n < 16 then bit (of_nat local :: u64) n else if n < 32 then bit (of_nat core :: u64) (n - 16)
     else if n < 63 then bit gen (n - 32) else used)"
  unfolding pack_dir_def mask_bits
  using assms(4) bit_gen_small [OF assms(1), of "n - 32"] bit_of_nat_small [OF assms(2), of "n - 16"] bit_of_nat_small [OF assms(3), of n]
  by (auto simp: bit_simps bit_D_USED)

lemma dir_used_pack: "gen < 2 ^ 31 \<Longrightarrow> core < 2 ^ 16 \<Longrightarrow> local < 2 ^ 16 \<Longrightarrow> dir_used (pack_dir used gen core local) = used"
proof -
  assume a: "gen < 2 ^ 31" "core < 2 ^ 16" "local < 2 ^ 16"
  have "e AND D_USED \<noteq> 0 \<longleftrightarrow> bit e 63" for e :: u64
    using bit_eq_iff [of "e AND D_USED" 0] by (auto simp: bit_D_USED bit_simps)
  then show ?thesis using bit_pack_dir [OF a, of 63] by (simp add: dir_used_def)
qed

lemma dir_gen_pack: "gen < 2 ^ 31 \<Longrightarrow> core < 2 ^ 16 \<Longrightarrow> local < 2 ^ 16 \<Longrightarrow> dir_gen (pack_dir used gen core local) = gen"
proof -
  assume a: "gen < 2 ^ 31" "core < 2 ^ 16" "local < 2 ^ 16"
  have g: "\<not> bit gen 31" using bit_gen_small [OF a(1)] by simp
  show ?thesis
  proof (rule bit_word_eqI)
    fix n assume "n < LENGTH(32)"
    then show "bit (dir_gen (pack_dir used gen core local)) n = bit gen n"
      using bit_pack_dir [OF a, of "n + 32"] g unfolding dir_gen_def mask_bits
      by (cases "n = 31") (auto simp: bit_simps add.commute)
  qed
qed

lemma dir_core_pack: "gen < 2 ^ 31 \<Longrightarrow> core < 2 ^ 16 \<Longrightarrow> local < 2 ^ 16 \<Longrightarrow> dir_core (pack_dir used gen core local) = core"
proof -
  assume a: "gen < 2 ^ 31" "core < 2 ^ 16" "local < 2 ^ 16"
  have "drop_bit 16 (pack_dir used gen core local) AND D_CORE_MASK = (of_nat core :: u64)"
  proof (rule bit_word_eqI)
    fix n assume "n < LENGTH(64)"
    then show "bit (drop_bit 16 (pack_dir used gen core local) AND D_CORE_MASK) n = bit (of_nat core :: u64) n"
      using bit_pack_dir [OF a, of "n + 16"] bit_of_nat_small [OF a(2), of n] unfolding mask_bits
      by (cases "n < 16") (auto simp: bit_simps add.commute)
  qed
  then show ?thesis using a(2) by (simp add: dir_core_def unat_of_nat_u64)
qed

lemma dir_local_pack: "gen < 2 ^ 31 \<Longrightarrow> core < 2 ^ 16 \<Longrightarrow> local < 2 ^ 16 \<Longrightarrow> dir_local (pack_dir used gen core local) = local"
proof -
  assume a: "gen < 2 ^ 31" "core < 2 ^ 16" "local < 2 ^ 16"
  have "pack_dir used gen core local AND D_LOCAL_MASK = (of_nat local :: u64)"
  proof (rule bit_word_eqI)
    fix n assume "n < LENGTH(64)"
    then show "bit (pack_dir used gen core local AND D_LOCAL_MASK) n = bit (of_nat local :: u64) n"
      using bit_pack_dir [OF a, of n] bit_of_nat_small [OF a(3), of n] unfolding mask_bits
      by (cases "n < 16") (auto simp: bit_simps)
  qed
  then show ?thesis using a(3) by (simp add: dir_local_def unat_of_nat_u64)
qed

lemmas dir_pack = dir_used_pack dir_gen_pack dir_core_pack dir_local_pack

end
