(* ===== verification/Slab.thy ===== *)
theory Slab
  imports Prelude
begin

text \<open>
  \<open>caprock-slab/src/lib.rs\<close>: tables dimensioned at boot time and the free list over their indices. A
  \<open>Slab\<close> is a list whose access panics out of range (\<open>tget\<close>, \<open>tupd\<close> of the prelude). The free list is
  threaded through a table of its own; its contract, a pool of indices of which each is handed out at
  most once, is the locale \<open>index_pool\<close>.
\<close>

section \<open>The free list\<close>

definition FL_NONE :: u32 where "FL_NONE = 0xffffffff"

record FreeList =
  fl_next :: "u32 list"
  fl_head :: u32
  fl_count :: u64

definition FreeList_empty :: FreeList where
  "FreeList_empty = \<lparr>fl_next = [], fl_head = FL_NONE, fl_count = 0\<rparr>"

definition fl_attach :: "nat \<Rightarrow> FreeList" where
  "fl_attach len =
     \<lparr>fl_next = map (\<lambda>i. if i + 1 < len then of_nat (i + 1) else FL_NONE) [0..<len],
      fl_head = (if len = 0 then FL_NONE else 0), fl_count = of_nat len\<rparr>"

text \<open>The outer option is the panic of an index out of range.\<close>

definition fl_alloc :: "FreeList \<Rightarrow> (FreeList \<times> nat option) option" where
  "fl_alloc fl =
     (if fl_head fl = FL_NONE then Some (fl, None)
      else do {
        nx \<leftarrow> tget (fl_next fl) (unat (fl_head fl));
        ns \<leftarrow> tupd (fl_next fl) (unat (fl_head fl)) (\<lambda>_. FL_NONE);
        Some (fl\<lparr>fl_head := nx, fl_next := ns, fl_count := fl_count fl - 1\<rparr>, Some (unat (fl_head fl)))
      })"

definition fl_free :: "FreeList \<Rightarrow> nat \<Rightarrow> FreeList" where
  "fl_free fl i =
     (if i \<ge> length (fl_next fl) then fl
      else fl\<lparr>fl_next := (fl_next fl)[i := fl_head fl], fl_head := of_nat i, fl_count := fl_count fl + 1\<rparr>)"

definition fl_available :: "FreeList \<Rightarrow> u64" where
  "fl_available fl = fl_count fl"

definition fl_capacity :: "FreeList \<Rightarrow> nat" where
  "fl_capacity fl = length (fl_next fl)"

section \<open>Pools of indices\<close>

locale index_pool =
  fixes wf :: "'p \<Rightarrow> bool"
    and avail :: "'p \<Rightarrow> nat list"
    and alloc :: "'p \<Rightarrow> ('p \<times> nat option) option"
    and release :: "'p \<Rightarrow> nat \<Rightarrow> 'p"
    and capacity :: "'p \<Rightarrow> nat"
  assumes avail_distinct: "wf p \<Longrightarrow> distinct (avail p) \<and> (\<forall>i\<in>set (avail p). i < capacity p)"
    and alloc_none: "wf p \<Longrightarrow> avail p = [] \<Longrightarrow> alloc p = Some (p, None)"
    and alloc_some: "wf p \<Longrightarrow> avail p = i # js \<Longrightarrow> \<exists>p'. alloc p = Some (p', Some i) \<and> wf p' \<and> avail p' = js \<and> capacity p' = capacity p"
    and release_avail: "wf p \<Longrightarrow> i < capacity p \<Longrightarrow> i \<notin> set (avail p) \<Longrightarrow>
      wf (release p i) \<and> avail (release p i) = i # avail p \<and> capacity (release p i) = capacity p"
begin

text \<open>The indices in use: taken from the pool and not yet given back.\<close>

definition in_use :: "'p \<Rightarrow> nat set" where
  "in_use p = {i. i < capacity p} - set (avail p)"

lemma alloc_cases:
  assumes "wf p"
  obtains (empty) "alloc p = Some (p, None)" "avail p = []"
  | (got) p' i where "alloc p = Some (p', Some i)" "wf p'" "avail p = i # avail p'" "capacity p' = capacity p"
      "i < capacity p" "i \<notin> in_use p" "in_use p' = insert i (in_use p)"
proof (cases "avail p")
  case Nil
  then show ?thesis using alloc_none [OF assms] empty by blast
next
  case (Cons i js)
  from alloc_some [OF assms Cons] obtain p' where p': "alloc p = Some (p', Some i)" "wf p'" "avail p' = js" "capacity p' = capacity p" by blast
  have "i < capacity p" "i \<notin> set js" using avail_distinct [OF assms] Cons by auto
  then have "in_use p' = insert i (in_use p)" "i \<notin> in_use p" using p'(3,4) Cons by (auto simp: in_use_def)
  then show ?thesis using got [OF p'(1,2)] p'(3,4) Cons \<open>i < capacity p\<close> by simp
qed

lemma release_in_use:
  assumes "wf p" "i \<in> in_use p"
  shows "wf (release p i) \<and> in_use (release p i) = in_use p - {i} \<and> capacity (release p i) = capacity p"
  using release_avail [OF assms(1), of i] assms(2) by (auto simp: in_use_def)

lemma exhausted_iff: "wf p \<Longrightarrow> (\<exists>p'. alloc p = Some (p', None)) \<longleftrightarrow> in_use p = {i. i < capacity p}"
  by (erule alloc_cases) (use avail_distinct in \<open>auto simp: in_use_def\<close>)

end

section \<open>The free list is a pool\<close>

primrec fl_walk :: "nat \<Rightarrow> u32 list \<Rightarrow> u32 \<Rightarrow> nat list" where
  "fl_walk 0 ns h = []"
| "fl_walk (Suc n) ns h = (if h = FL_NONE \<or> unat h \<ge> length ns then [] else unat h # fl_walk n ns (ns ! unat h))"

text \<open>The free indices in the order in which they are handed out.\<close>

definition fl_list :: "FreeList \<Rightarrow> nat list" where
  "fl_list fl = fl_walk (length (fl_next fl)) (fl_next fl) (fl_head fl)"

fun fl_chain :: "u32 list \<Rightarrow> u32 \<Rightarrow> nat list \<Rightarrow> bool" where
  "fl_chain ns h [] = (h = FL_NONE)"
| "fl_chain ns h (x # xs) = (x < length ns \<and> h = of_nat x \<and> fl_chain ns (ns ! x) xs)"

definition fl_wf :: "FreeList \<Rightarrow> bool" where
  "fl_wf fl \<longleftrightarrow> length (fl_next fl) < 2 ^ 32 \<and> fl_chain (fl_next fl) (fl_head fl) (fl_list fl) \<and> distinct (fl_list fl) \<and>
     fl_count fl = of_nat (length (fl_list fl))"

lemma idx_not_none: "x < n \<Longrightarrow> n < 2 ^ 32 \<Longrightarrow> (of_nat x :: u32) \<noteq> FL_NONE \<and> unat (of_nat x :: u32) = x"
proof -
  assume a: "x < n" "n < 2 ^ 32"
  then have u: "unat (of_nat x :: u32) = x" by (simp add: unat_of_nat_u32)
  moreover have "unat FL_NONE = 2 ^ 32 - 1" by (simp add: FL_NONE_def)
  ultimately show ?thesis using a by auto
qed

lemma fl_walk_chain:
  "fl_chain ns h xs \<Longrightarrow> length ns < 2 ^ 32 \<Longrightarrow> length xs \<le> n \<Longrightarrow> fl_walk n ns h = xs"
proof (induction xs arbitrary: h n)
  case Nil
  then show ?case by (cases n) simp_all
next
  case (Cons x xs)
  then obtain m where n: "n = Suc m" by (cases n) simp_all
  have "h \<noteq> FL_NONE" "unat h = x" using Cons.prems idx_not_none by auto
  then show ?case using Cons n by simp
qed

lemma distinct_bound: "distinct xs \<Longrightarrow> \<forall>x\<in>set xs. x < n \<Longrightarrow> length xs \<le> (n :: nat)"
  using card_mono [of "{..<n}" "set xs"] by (auto simp: distinct_card)

lemma fl_chain_lt: "fl_chain ns h xs \<Longrightarrow> x \<in> set xs \<Longrightarrow> x < length ns"
  by (induction xs arbitrary: h) auto

lemma fl_chain_upd: "fl_chain ns h xs \<Longrightarrow> i \<notin> set xs \<Longrightarrow> fl_chain (ns[i := v]) h xs"
  by (induction xs arbitrary: h) auto

text \<open>It is enough to exhibit the list.\<close>

lemma fl_wfI:
  assumes "length (fl_next fl) < 2 ^ 32" "fl_chain (fl_next fl) (fl_head fl) xs" "distinct xs" "fl_count fl = of_nat (length xs)"
  shows "fl_wf fl \<and> fl_list fl = xs"
proof -
  have "length xs \<le> length (fl_next fl)" using distinct_bound [OF assms(3)] fl_chain_lt [OF assms(2)] by blast
  then have "fl_list fl = xs" unfolding fl_list_def by (rule fl_walk_chain [OF assms(2,1)])
  then show ?thesis using assms by (simp add: fl_wf_def)
qed

lemma fl_attach_chain: "k \<le> n \<Longrightarrow> n < 2 ^ 32 \<Longrightarrow>
  fl_chain (fl_next (fl_attach n)) (if k = n then FL_NONE else of_nat k) [k..<n]"
proof (induction "n - k" arbitrary: k)
  case 0
  then show ?case by simp
next
  case (Suc m)
  then have k: "k < n" by simp
  then have "[k..<n] = k # [Suc k..<n]" by (simp add: upt_conv_Cons)
  moreover have "fl_next (fl_attach n) ! k = (if Suc k = n then FL_NONE else of_nat (Suc k))" "length (fl_next (fl_attach n)) = n"
    using k by (auto simp: fl_attach_def)
  ultimately show ?case using Suc.hyps(1) [of "Suc k"] Suc.hyps(2) Suc.prems k by simp
qed

lemma fl_attach_ok: "n < 2 ^ 32 \<Longrightarrow> fl_wf (fl_attach n) \<and> fl_list (fl_attach n) = [0..<n]"
proof (rule fl_wfI)
  assume n: "n < 2 ^ 32"
  show "fl_chain (fl_next (fl_attach n)) (fl_head (fl_attach n)) [0..<n]"
    using fl_attach_chain [of 0 n] n by (auto simp: fl_attach_def)
qed (simp_all add: fl_attach_def)

interpretation fl: index_pool fl_wf fl_list fl_alloc fl_free fl_capacity
proof
  fix fl
  assume wf: "fl_wf fl"
  then have w: "length (fl_next fl) < 2 ^ 32" "fl_chain (fl_next fl) (fl_head fl) (fl_list fl)" "distinct (fl_list fl)"
    "fl_count fl = of_nat (length (fl_list fl))" by (simp_all add: fl_wf_def)
  show "distinct (fl_list fl) \<and> (\<forall>i\<in>set (fl_list fl). i < fl_capacity fl)"
    using w(3) fl_chain_lt [OF w(2)] by (simp add: fl_capacity_def)
  show "fl_list fl = [] \<Longrightarrow> fl_alloc fl = Some (fl, None)" using w(2) by (simp add: fl_alloc_def)
  show "\<exists>fl'. fl_alloc fl = Some (fl', Some i) \<and> fl_wf fl' \<and> fl_list fl' = js \<and> fl_capacity fl' = fl_capacity fl"
    if "fl_list fl = i # js" for i js
  proof -
    have c: "i < length (fl_next fl)" "fl_head fl = of_nat i" "fl_chain (fl_next fl) (fl_next fl ! i) js" and d: "i \<notin> set js" "distinct js"
      using w(2,3) that by simp_all
    have h: "fl_head fl \<noteq> FL_NONE" "unat (fl_head fl) = i" using idx_not_none [OF c(1) w(1)] c(2) by simp_all
    let ?fl = "fl\<lparr>fl_head := fl_next fl ! i, fl_next := (fl_next fl)[i := FL_NONE], fl_count := fl_count fl - 1\<rparr>"
    have "fl_alloc fl = Some (?fl, Some i)" using h c(1) by (simp add: fl_alloc_def table_simps)
    moreover have "fl_wf ?fl \<and> fl_list ?fl = js"
      by (rule fl_wfI) (use w c d that fl_chain_upd [OF c(3) d(1)] in simp_all)
    ultimately show ?thesis by (simp add: fl_capacity_def)
  qed
  show "fl_wf (fl_free fl i) \<and> fl_list (fl_free fl i) = i # fl_list fl \<and> fl_capacity (fl_free fl i) = fl_capacity fl"
    if "i < fl_capacity fl" "i \<notin> set (fl_list fl)" for i
  proof -
    have i: "i < length (fl_next fl)" using that(1) by (simp add: fl_capacity_def)
    have "fl_wf (fl_free fl i) \<and> fl_list (fl_free fl i) = i # fl_list fl"
      by (rule fl_wfI) (use w i that(2) fl_chain_upd [OF w(2) that(2)] in \<open>simp_all add: fl_free_def\<close>)
    then show ?thesis using i by (simp add: fl_free_def fl_capacity_def)
  qed
qed

section \<open>Properties\<close>

definition fl_in_use :: "FreeList \<Rightarrow> nat set" where
  "fl_in_use fl = {i. i < fl_capacity fl} - set (fl_list fl)"

lemma fl_in_use_eq: "fl.in_use = fl_in_use"
  by (simp add: fl.in_use_def fl_in_use_def fun_eq_iff)

text \<open>
  The free list hands out every index at most once. On a well formed list allocation never panics; it
  fails exactly when all indices are in use, and otherwise returns an index that was not in use and marks
  it. Giving back an index in use frees exactly that one, and the list right after \<open>attach\<close> has all free.
\<close>

theorem free_list_exclusive:
  assumes "fl_wf fl"
  shows "(case fl_alloc fl of
      None \<Rightarrow> False
    | Some (fl', None) \<Rightarrow> fl' = fl \<and> fl_in_use fl = {i. i < fl_capacity fl}
    | Some (fl', Some i) \<Rightarrow> i < fl_capacity fl \<and> i \<notin> fl_in_use fl \<and> fl_in_use fl' = insert i (fl_in_use fl) \<and> fl_wf fl') \<and>
    (i \<in> fl_in_use fl \<longrightarrow> fl_wf (fl_free fl i) \<and> fl_in_use (fl_free fl i) = fl_in_use fl - {i}) \<and>
    (n < 2 ^ 32 \<longrightarrow> fl_wf (fl_attach n) \<and> fl_in_use (fl_attach n) = {})"
proof -
  have "n < 2 ^ 32 \<longrightarrow> fl_wf (fl_attach n) \<and> fl_in_use (fl_attach n) = {}"
    using fl_attach_ok [of n] by (auto simp: fl_in_use_def fl_capacity_def fl_attach_def)
  moreover have "i \<in> fl_in_use fl \<longrightarrow> fl_wf (fl_free fl i) \<and> fl_in_use (fl_free fl i) = fl_in_use fl - {i}"
    using fl.release_in_use [OF assms] unfolding fl_in_use_eq by blast
  ultimately show ?thesis by (cases rule: fl.alloc_cases [OF assms]) (auto simp: fl_in_use_eq fl_in_use_def)
qed

theorem free_list_exclusive_witness: "\<exists>fl' i. fl_alloc (fl_attach 3) = Some (fl', Some i) \<and> i < 3 \<and> i \<in> fl_in_use fl'"
proof -
  have w: "fl_wf (fl_attach 3)" using fl_attach_ok [of 3] by simp
  have c: "fl_capacity (fl_attach 3) = 3" by (simp add: fl_capacity_def fl_attach_def)
  have l: "fl_list (fl_attach 3) = [0..<3]" using fl_attach_ok [of 3] by simp
  have "0 \<notin> fl_in_use (fl_attach 3)" unfolding fl_in_use_def c l by simp
  then have ne: "fl_in_use (fl_attach 3) \<noteq> {i. i < 3}" by (metis mem_Collect_eq zero_less_numeral)
  show ?thesis
  proof (cases "fl_alloc (fl_attach 3)")
    case None
    then show ?thesis using free_list_exclusive [OF w, of 0 3] by simp
  next
    case (Some r)
    then show ?thesis using free_list_exclusive [OF w, of 0 3] ne unfolding c by (cases r; cases "snd r") auto
  qed
qed

end
