(* ===== verification/Sched.thy ===== *)
theory Sched
  imports SchedDecide Slab
begin

text \<open>
  \<open>caprock-sched/src/lib.rs\<close>: the scheduler of one core. The state is the struct \<open>Scheduler\<close> and the
  statics its methods use (thread directory, pool of global thread numbers, load and online flags of the
  cores). \<open>None\<close> is a panic: an index out of range or a failed \<open>expect\<close>. Counters have their machine
  width and wrap; addresses and table indices are natural numbers.
\<close>

section \<open>State\<close>

definition NPRIO :: nat where "NPRIO = 8"
definition MAX_CORES :: nat where "MAX_CORES = 256"
definition NIL :: u32 where "NIL = 0xffffffff"
definition NOT_QUEUED :: u8 where "NOT_QUEUED = 0xff"

record Bindung =
  bi_sys_ep :: u32
  bi_fault_ep :: u32
  bi_handler_pd :: u16
  bi_slot :: u16
  bi_sidecar :: u64

record Tcb =
  tc_used :: bool
  tc_gid :: u32
  tc_gen :: u32
  tc_sp :: nat
  tc_priority :: u8
  tc_reasons :: BlockReasons
  tc_stack_base :: nat
  tc_stack_len :: nat
  tc_frist :: u64
  tc_frist_grund :: u16
  tc_tls :: nat
  tc_queued :: u8
  tc_admitted :: bool
  tc_qnext :: u32
  tc_qprev :: u32
  tc_budget :: u32
  tc_period :: u32
  tc_remaining :: u32
  tc_next_refill :: u64
  tc_depleted :: bool
  tc_park_wake :: bool
  tc_sc_donor :: "nat option"
  tc_sc_donee :: "nat option"
  tc_cyc :: CycleStats
  tc_stamp :: "Stamp option"
  tc_handler :: "Bindung option"

definition Tcb_EMPTY :: Tcb where
  "Tcb_EMPTY =
     \<lparr>tc_used = False, tc_gid = NIL, tc_gen = 0, tc_sp = 0, tc_priority = 0, tc_reasons = 0, tc_stack_base = 0,
      tc_stack_len = 0, tc_frist = 0, tc_frist_grund = 0, tc_tls = 0, tc_queued = NOT_QUEUED, tc_admitted = False,
      tc_qnext = NIL, tc_qprev = NIL, tc_budget = 0, tc_period = 0, tc_remaining = 0, tc_next_refill = 0,
      tc_depleted = False, tc_park_wake = False, tc_sc_donor = None, tc_sc_donee = None, tc_cyc = CycleStats_EMPTY,
      tc_stamp = None, tc_handler = None\<rparr>"

record Migrant =
  mi_tcb :: Tcb
  mi_was_ready :: bool

record Zombie =
  z_base :: nat
  z_len :: nat
  z_gid :: u32

definition Zombie_EMPTY :: Zombie where
  "Zombie_EMPTY = \<lparr>z_base = 0, z_len = 0, z_gid = NIL\<rparr>"

record ListHead =
  lh_head :: u32
  lh_tail :: u32
  lh_count :: u32

definition ListHead_EMPTY :: ListHead where
  "ListHead_EMPTY = \<lparr>lh_head = NIL, lh_tail = NIL, lh_count = 0\<rparr>"

record Scheduler =
  sc_core :: nat
  sc_tcbs :: "Tcb list"
  sc_free :: FreeList
  sc_current :: "nat option"
  sc_queues :: "ListHead list"
  sc_bitmap :: u32
  sc_zombies :: "Zombie list"
  sc_zhead :: nat
  sc_ztail :: nat
  sc_zcount :: nat
  sc_now :: u64
  sc_depletions :: u64
  sc_refills :: u64
  sc_cycle_source :: Source
  sc_cyc_core :: CycleStats
  sc_used :: u64
  sc_depleted_count :: u64
  sc_fristen_ueberlauf :: u64
  sc_naechste_frist :: u64
  sc_budget_blocked_count :: u64
  sc_migrations_out :: u64
  sc_migrations_in :: u64

record Statics =
  g_directory :: "u64 list"
  g_gid_free :: FreeList
  g_core_load :: "u64 list"
  g_core_online :: "bool list"
  g_zombie_gesamt :: u64
  g_zombie_fuesse :: u64

definition Scheduler_new :: Scheduler where
  "Scheduler_new =
     \<lparr>sc_core = 0, sc_tcbs = [], sc_free = FreeList_empty, sc_current = None, sc_queues = replicate NPRIO ListHead_EMPTY,
      sc_bitmap = 0, sc_zombies = [], sc_zhead = 0, sc_ztail = 0, sc_zcount = 0, sc_now = 0, sc_depletions = 0,
      sc_refills = 0, sc_cycle_source = Untrusted, sc_cyc_core = CycleStats_EMPTY, sc_used = 0, sc_depleted_count = 0,
      sc_fristen_ueberlauf = 0, sc_naechste_frist = - 1, sc_budget_blocked_count = 0, sc_migrations_out = 0,
      sc_migrations_in = 0\<rparr>"

definition Statics_init :: Statics where
  "Statics_init =
     \<lparr>g_directory = [], g_gid_free = FreeList_empty, g_core_load = replicate MAX_CORES 0,
      g_core_online = replicate MAX_CORES False, g_zombie_gesamt = 0, g_zombie_fuesse = 0\<rparr>"

definition sch_attach_storage :: "Scheduler \<Rightarrow> nat \<Rightarrow> nat \<Rightarrow> Scheduler" where
  "sch_attach_storage s core capacity =
     s\<lparr>sc_core := core, sc_tcbs := replicate capacity Tcb_EMPTY, sc_zombies := replicate capacity Zombie_EMPTY,
       sc_free := fl_attach capacity\<rparr>"

section \<open>The thread directory\<close>

definition attach_directory :: "Statics \<Rightarrow> nat \<Rightarrow> Statics" where
  "attach_directory g capacity = g\<lparr>g_directory := replicate capacity 0, g_gid_free := fl_attach capacity\<rparr>"

definition thread_capacity :: "Statics \<Rightarrow> nat" where
  "thread_capacity g = length (g_directory g)"

definition threads_available :: "Statics \<Rightarrow> u64" where
  "threads_available g = fl_available (g_gid_free g)"

definition dir_load :: "Statics \<Rightarrow> nat \<Rightarrow> u64 option" where
  "dir_load g gid = tget (g_directory g) gid"

definition owner_core :: "Statics \<Rightarrow> ThreadId \<Rightarrow> nat option" where
  "owner_core g tid =
     (case dir_load g (t_slot tid) of
        None \<Rightarrow> None
      | Some e \<Rightarrow> if \<not> dir_used e \<or> dir_gen e \<noteq> t_gen tid then None else Some (dir_core e))"

definition is_live :: "Statics \<Rightarrow> ThreadId \<Rightarrow> bool" where
  "is_live g tid \<longleftrightarrow> owner_core g tid \<noteq> None"

definition release_gid :: "Statics \<Rightarrow> u32 \<Rightarrow> Statics" where
  "release_gid g gid = g\<lparr>g_gid_free := fl_free (g_gid_free g) (unat gid)\<rparr>"

definition slot_in_use :: "Statics \<Rightarrow> nat \<Rightarrow> bool" where
  "slot_in_use g gid = (case dir_load g gid of None \<Rightarrow> False | Some e \<Rightarrow> dir_used e)"

text \<open>\<open>if let Some(e) = DIRECTORY.get(gid) { e.store(v) }\<close>\<close>

definition dir_store :: "Statics \<Rightarrow> nat \<Rightarrow> u64 \<Rightarrow> Statics" where
  "dir_store g gid v = g\<lparr>g_directory := (g_directory g)[gid := v]\<rparr>"

definition core_load :: "Statics \<Rightarrow> nat \<Rightarrow> u64" where
  "core_load g core = (case tget (g_core_load g) core of None \<Rightarrow> - 1 | Some n \<Rightarrow> n)"

definition core_online :: "Statics \<Rightarrow> nat \<Rightarrow> bool" where
  "core_online g core = (case tget (g_core_online g) core of None \<Rightarrow> False | Some b \<Rightarrow> b)"

definition cores_online :: "Statics \<Rightarrow> nat" where
  "cores_online g = length (filter (\<lambda>b. b) (g_core_online g))"

definition set_core_load :: "Statics \<Rightarrow> nat \<Rightarrow> u64 \<Rightarrow> Statics option" where
  "set_core_load g core n = do { ls \<leftarrow> tupd (g_core_load g) core (\<lambda>_. n); Some (g\<lparr>g_core_load := ls\<rparr>) }"

section \<open>Ready lists\<close>

definition tcb :: "Scheduler \<Rightarrow> nat \<Rightarrow> Tcb option" where
  "tcb s i = tget (sc_tcbs s) i"

definition modt :: "Scheduler \<Rightarrow> nat \<Rightarrow> (Tcb \<Rightarrow> Tcb) \<Rightarrow> Scheduler option" where
  "modt s i f = do { ts \<leftarrow> tupd (sc_tcbs s) i f; Some (s\<lparr>sc_tcbs := ts\<rparr>) }"

definition modq :: "Scheduler \<Rightarrow> nat \<Rightarrow> (ListHead \<Rightarrow> ListHead) \<Rightarrow> Scheduler option" where
  "modq s p f = do { qs \<leftarrow> tupd (sc_queues s) p f; Some (s\<lparr>sc_queues := qs\<rparr>) }"

definition enqueue_ready :: "Scheduler \<Rightarrow> nat \<Rightarrow> Scheduler option" where
  "enqueue_ready s local = do {
     t \<leftarrow> tcb s local;
     if tc_queued t \<noteq> NOT_QUEUED then Some s
     else do {
       let p = unat (tc_priority t);
       q \<leftarrow> tget (sc_queues s) p;
       let tail = lh_tail q;
       s1 \<leftarrow> modt s local (\<lambda>t. t\<lparr>tc_qprev := tail, tc_qnext := NIL, tc_queued := of_nat p\<rparr>);
       s2 \<leftarrow> (if tail = NIL then modq s1 p (\<lambda>q. q\<lparr>lh_head := of_nat local\<rparr>)
             else modt s1 (unat tail) (\<lambda>t. t\<lparr>tc_qnext := of_nat local\<rparr>));
       s3 \<leftarrow> modq s2 p (\<lambda>q. q\<lparr>lh_tail := of_nat local, lh_count := lh_count q + 1\<rparr>);
       Some (s3\<lparr>sc_bitmap := sc_bitmap s3 OR push_bit p 1\<rparr>)
     }
   }"

definition remove_from_ready :: "Scheduler \<Rightarrow> nat \<Rightarrow> Scheduler option" where
  "remove_from_ready s local = do {
     t \<leftarrow> tcb s local;
     if tc_queued t = NOT_QUEUED then Some s
     else do {
       let p = unat (tc_queued t);
       let prev = tc_qprev t;
       let next = tc_qnext t;
       s1 \<leftarrow> (if prev = NIL then modq s p (\<lambda>q. q\<lparr>lh_head := next\<rparr>)
             else modt s (unat prev) (\<lambda>t. t\<lparr>tc_qnext := next\<rparr>));
       s2 \<leftarrow> (if next = NIL then modq s1 p (\<lambda>q. q\<lparr>lh_tail := prev\<rparr>)
             else modt s1 (unat next) (\<lambda>t. t\<lparr>tc_qprev := prev\<rparr>));
       s3 \<leftarrow> modt s2 local (\<lambda>t. t\<lparr>tc_qnext := NIL, tc_qprev := NIL, tc_queued := NOT_QUEUED\<rparr>);
       s4 \<leftarrow> modq s3 p (\<lambda>q. q\<lparr>lh_count := lh_count q - 1\<rparr>);
       q \<leftarrow> tget (sc_queues s4) p;
       Some (if lh_count q = 0 then s4\<lparr>sc_bitmap := sc_bitmap s4 AND NOT (push_bit p 1)\<rparr> else s4)
     }
   }"

definition leading_zeros :: "u32 \<Rightarrow> nat" where
  "leading_zeros b = length (takeWhile (\<lambda>i. \<not> bit b i) (rev [0..<32]))"

definition dequeue_highest :: "Scheduler \<Rightarrow> (Scheduler \<times> nat option) option" where
  "dequeue_highest s =
     (if sc_bitmap s = 0 then Some (s, None)
      else do {
        let p = 31 - leading_zeros (sc_bitmap s);
        q \<leftarrow> tget (sc_queues s) p;
        let head = lh_head q;
        if head = NIL then Some (s, None)
        else do {
          s1 \<leftarrow> remove_from_ready s (unat head);
          Some (s1, Some (unat head))
        }
      })"

text \<open>\<open>self.current = Some(self.dequeue_highest().expect(..))\<close>, and the frame to continue with.\<close>

definition run_next :: "Scheduler \<Rightarrow> (Scheduler \<times> nat) option" where
  "run_next s = do {
     (s1, nx) \<leftarrow> dequeue_highest s;
     next \<leftarrow> nx;
     let s2 = s1\<lparr>sc_current := Some next\<rparr>;
     t \<leftarrow> tcb s2 next;
     Some (s2, tc_sp t)
   }"

definition wecke_falls_lauffaehig :: "Scheduler \<Rightarrow> nat \<Rightarrow> Scheduler option" where
  "wecke_falls_lauffaehig s local = do {
     t \<leftarrow> tcb s local;
     if tc_reasons t = 0 \<and> \<not> tc_depleted t \<and> sc_current s \<noteq> Some local then enqueue_ready s local else Some s
   }"

definition set_budget_blocked :: "Scheduler \<Rightarrow> nat \<Rightarrow> bool \<Rightarrow> Scheduler option" where
  "set_budget_blocked s local an = do {
     t \<leftarrow> tcb s local;
     if br_has (tc_reasons t) BR_BUDGET = an then Some s
     else do {
       s1 \<leftarrow> modt s local (\<lambda>t. t\<lparr>tc_reasons := (if an then br_insert BR_BUDGET else br_remove BR_BUDGET) (tc_reasons t)\<rparr>);
       Some (s1\<lparr>sc_budget_blocked_count := (if an then sc_budget_blocked_count s1 + 1 else sc_budget_blocked_count s1 - 1)\<rparr>)
     }
   }"

text \<open>A loop over table indices.\<close>

primrec for_slots :: "(nat \<Rightarrow> 's \<Rightarrow> 's option) \<Rightarrow> nat list \<Rightarrow> 's \<Rightarrow> 's option" where
  "for_slots f [] s = Some s"
| "for_slots f (i # is') s = do { s1 \<leftarrow> f i s; for_slots f is' s1 }"

section \<open>Handles\<close>

definition sch_resolve :: "Statics \<Rightarrow> Scheduler \<Rightarrow> ThreadId \<Rightarrow> nat option" where
  "sch_resolve g s tid = do {
     e \<leftarrow> dir_load g (t_slot tid);
     if \<not> dir_used e then None
     else if dir_gen e \<noteq> t_gen tid then None
     else if dir_core e \<noteq> sc_core s then None
     else do {
       t \<leftarrow> tcb s (dir_local e);
       if tc_used t \<and> tc_gen t = t_gen tid then Some (dir_local e) else None
     }
   }"

definition sch_id :: "Scheduler \<Rightarrow> nat \<Rightarrow> ThreadId option" where
  "sch_id s local = do { t \<leftarrow> tcb s local; Some \<lparr>t_slot = unat (tc_gid t), t_gen = tc_gen t\<rparr> }"

definition publish_dir :: "Statics \<Rightarrow> Scheduler \<Rightarrow> nat \<Rightarrow> Statics option" where
  "publish_dir g s local = do {
     t \<leftarrow> tcb s local;
     Some (dir_store g (unat (tc_gid t)) (pack_dir True (tc_gen t) (sc_core s) local))
   }"

text \<open>Read-only questions about a handle.\<close>

definition of_tid :: "Statics \<Rightarrow> Scheduler \<Rightarrow> ThreadId \<Rightarrow> (Tcb \<Rightarrow> 'a) \<Rightarrow> 'a option" where
  "of_tid g s tid f = (case sch_resolve g s tid of None \<Rightarrow> None | Some i \<Rightarrow> map_option f (tcb s i))"

definition has_reason :: "Statics \<Rightarrow> Scheduler \<Rightarrow> ThreadId \<Rightarrow> u16 \<Rightarrow> bool" where
  "has_reason g s tid grund \<longleftrightarrow> of_tid g s tid (\<lambda>t. br_has (tc_reasons t) grund) = Some True"

definition priority_of where "priority_of g s tid = of_tid g s tid tc_priority"
definition is_admitted where "is_admitted g s tid = of_tid g s tid tc_admitted"
definition sch_frame_of where "sch_frame_of g s tid = of_tid g s tid tc_sp"
definition reasons_of where "reasons_of g s tid = of_tid g s tid tc_reasons"
definition admitted_of where "admitted_of g s tid = of_tid g s tid tc_admitted"
definition is_blocked where "is_blocked g s tid \<longleftrightarrow> of_tid g s tid (\<lambda>t. tc_reasons t \<noteq> 0) = Some True"
definition has_wake_token where "has_wake_token g s tid \<longleftrightarrow> of_tid g s tid tc_park_wake = Some True"
definition wartet_auf_ipc where "wartet_auf_ipc g s tid = has_reason g s tid BR_IPC"
definition is_parked where "is_parked g s tid = has_reason g s tid BR_PARK"
definition is_handler_blocked where "is_handler_blocked g s tid = has_reason g s tid BR_HANDLER"
definition is_load_blocked where "is_load_blocked g s tid = has_reason g s tid BR_LOAD"
definition is_debug_stopped where "is_debug_stopped g s tid = has_reason g s tid BR_DEBUG"
definition is_group_frozen where "is_group_frozen g s tid = has_reason g s tid BR_FREEZE"
definition tls_of where "tls_of g s tid = (case of_tid g s tid tc_tls of None \<Rightarrow> 0 | Some v \<Rightarrow> v)"
definition frist_von where "frist_von g s tid = (case of_tid g s tid tc_frist of None \<Rightarrow> 0 | Some v \<Rightarrow> v)"
definition handler_of where "handler_of g s tid = (case of_tid g s tid tc_handler of None \<Rightarrow> None | Some h \<Rightarrow> h)"
definition consumed_cycles where "consumed_cycles g s tid = of_tid g s tid tc_cyc"
definition is_alive where "is_alive g s tid \<longleftrightarrow> sch_resolve g s tid \<noteq> None"

definition count_tcbs :: "(Tcb \<Rightarrow> bool) \<Rightarrow> Scheduler \<Rightarrow> nat" where
  "count_tcbs P s = length (filter (\<lambda>t. tc_used t \<and> P t) (sc_tcbs s))"

definition debug_stopped_count where "debug_stopped_count s = count_tcbs (\<lambda>t. br_has (tc_reasons t) BR_DEBUG) s"
definition group_frozen_count where "group_frozen_count s = count_tcbs (\<lambda>t. br_has (tc_reasons t) BR_FREEZE) s"
definition handler_bound_count where "handler_bound_count s = count_tcbs (\<lambda>t. tc_handler t \<noteq> None) s"

definition live_thread_ids :: "Scheduler \<Rightarrow> nat \<Rightarrow> nat + ThreadId list" where
  "live_thread_ids s cap =
     (let ids = map (\<lambda>t. \<lparr>t_slot = unat (tc_gid t), t_gen = tc_gen t\<rparr>) (filter tc_used (sc_tcbs s))
      in if length ids > cap then Inl (length ids) else Inr ids)"

definition sch_current_id :: "Scheduler \<Rightarrow> ThreadId option" where
  "sch_current_id s = do { cur \<leftarrow> sc_current s; sch_id s cur }"

definition current_handler :: "Scheduler \<Rightarrow> Bindung option option" where
  "current_handler s =
     (case sc_current s of None \<Rightarrow> Some None | Some c \<Rightarrow> map_option tc_handler (tcb s c))"

end
