(* ===== verification/SchedRun.thy ===== *)
theory SchedRun
  imports Sched
begin

text \<open>
  The operations of the scheduler that change its state: threads are created and end, block and wake,
  are charged for their time, migrate, and the tick selects the next one. Address computations of the
  trap frame (\<open>init_thread_frame\<close> of the hardware layer) and the address of the running stack are
  parameters.
\<close>

section \<open>Creation and end of threads\<close>

definition alloc_tcb :: "Statics \<Rightarrow> Scheduler \<Rightarrow> nat \<Rightarrow> u8 \<Rightarrow> ((Statics \<times> Scheduler) \<times> nat option) option" where
  "alloc_tcb g s sp priority = do {
     (f1, i') \<leftarrow> fl_alloc (sc_free s);
     case i' of
       None \<Rightarrow> Some ((g, s\<lparr>sc_free := f1\<rparr>), None)
     | Some i \<Rightarrow> do {
         (f2, gid') \<leftarrow> fl_alloc (g_gid_free g);
         case gid' of
           None \<Rightarrow> Some ((g\<lparr>g_gid_free := f2\<rparr>, s\<lparr>sc_free := fl_free f1 i\<rparr>), None)
         | Some gid \<Rightarrow>
             (case dir_load g gid of
                None \<Rightarrow> Some ((g\<lparr>g_gid_free := fl_free f2 gid\<rparr>, s\<lparr>sc_free := fl_free f1 i\<rparr>), None)
              | Some e \<Rightarrow> do {
                  s1 \<leftarrow> modt (s\<lparr>sc_free := f1\<rparr>) i
                    (\<lambda>_. Tcb_EMPTY\<lparr>tc_used := True, tc_gid := of_nat gid, tc_gen := dir_gen e, tc_sp := sp, tc_priority := priority\<rparr>);
                  let s2 = s1\<lparr>sc_used := sc_used s1 + 1\<rparr>;
                  g1 \<leftarrow> set_core_load (g\<lparr>g_gid_free := f2\<rparr>) (sc_core s2) (sc_used s2);
                  g2 \<leftarrow> publish_dir g1 s2 i;
                  Some ((g2, s2), Some i)
                })
       }
   }"

definition init_core :: "Statics \<Rightarrow> Scheduler \<Rightarrow> nat \<Rightarrow> u8 \<Rightarrow> ((Statics \<times> Scheduler) \<times> ThreadId option) option" where
  "init_core g s core priority = do {
     ((g1, s1), i') \<leftarrow> alloc_tcb g s 0 priority;
     case i' of
       None \<Rightarrow> Some ((g1, s1), None)
     | Some idle \<Rightarrow> do {
         let s2 = s1\<lparr>sc_current := Some idle\<rparr>;
         let g2 = g1\<lparr>g_core_online := (g_core_online g1)[core := True]\<rparr>;
         t \<leftarrow> sch_id s2 idle;
         Some ((g2, s2), Some t)
       }
   }"

text \<open>\<open>spawn_parked\<close> and \<open>spawn_user_at_parked\<close> differ only in the frame they build and the region recorded for reaping.\<close>

definition spawn_with :: "Statics \<Rightarrow> Scheduler \<Rightarrow> nat \<Rightarrow> nat \<Rightarrow> nat \<Rightarrow> u8 \<Rightarrow> ((Statics \<times> Scheduler) \<times> ThreadId option) option" where
  "spawn_with g s sp reap_base reap_len priority = do {
     ((g1, s1), i') \<leftarrow> alloc_tcb g s sp priority;
     case i' of
       None \<Rightarrow> Some ((g1, s1), None)
     | Some i \<Rightarrow> do {
         s2 \<leftarrow> modt s1 i (\<lambda>t. t\<lparr>tc_stack_base := reap_base, tc_stack_len := reap_len\<rparr>);
         t \<leftarrow> sch_id s2 i;
         Some ((g1, s2), Some t)
       }
   }"

definition spawn_parked :: "(nat \<Rightarrow> nat \<Rightarrow> nat \<Rightarrow> bool \<Rightarrow> nat \<Rightarrow> nat) \<Rightarrow> Statics \<Rightarrow> Scheduler \<Rightarrow> nat \<Rightarrow> nat \<Rightarrow> nat \<Rightarrow> nat \<Rightarrow> u8 \<Rightarrow> ((Statics \<times> Scheduler) \<times> ThreadId option) option" where
  "spawn_parked init_frame g s entry arg stack_base stack_len priority =
     spawn_with g s (init_frame ((stack_base + stack_len) mod 2 ^ 64) entry arg False 0) stack_base stack_len priority"

definition spawn_user_at_parked :: "(nat \<Rightarrow> nat \<Rightarrow> nat \<Rightarrow> bool \<Rightarrow> nat \<Rightarrow> nat) \<Rightarrow> Statics \<Rightarrow> Scheduler \<Rightarrow> nat \<Rightarrow> nat \<Rightarrow> nat \<Rightarrow> nat \<Rightarrow> nat \<Rightarrow> nat \<Rightarrow> nat \<Rightarrow> u8 \<Rightarrow> ((Statics \<times> Scheduler) \<times> ThreadId option) option" where
  "spawn_user_at_parked init_frame g s entry arg kstack_base kstack_len el0_sp reap_base reap_len priority =
     spawn_with g s (init_frame ((kstack_base + kstack_len) mod 2 ^ 64) entry arg True el0_sp) reap_base reap_len priority"

definition admit :: "Statics \<Rightarrow> Scheduler \<Rightarrow> ThreadId \<Rightarrow> (Scheduler \<times> bool) option" where
  "admit g s tid =
     (case sch_resolve g s tid of
        None \<Rightarrow> Some (s, False)
      | Some t \<Rightarrow> do {
          s1 \<leftarrow> modt s t (\<lambda>t. t\<lparr>tc_admitted := True\<rparr>);
          s2 \<leftarrow> enqueue_ready s1 t;
          Some (s2, True)
        })"

text \<open>\<open>spawn\<close> and \<open>spawn_user_at\<close>: the parked form, then \<open>admit\<close>.\<close>

definition admit_spawned :: "((Statics \<times> Scheduler) \<times> ThreadId option) option \<Rightarrow> ((Statics \<times> Scheduler) \<times> ThreadId option) option" where
  "admit_spawned r = do {
     ((g1, s1), t') \<leftarrow> r;
     case t' of
       None \<Rightarrow> Some ((g1, s1), None)
     | Some t \<Rightarrow> do { (s2, _) \<leftarrow> admit g1 s1 t; Some ((g1, s2), Some t) }
   }"

definition spawn :: "(nat \<Rightarrow> nat \<Rightarrow> nat \<Rightarrow> bool \<Rightarrow> nat \<Rightarrow> nat) \<Rightarrow> Statics \<Rightarrow> Scheduler \<Rightarrow> nat \<Rightarrow> nat \<Rightarrow> nat \<Rightarrow> nat \<Rightarrow> u8 \<Rightarrow> ((Statics \<times> Scheduler) \<times> ThreadId option) option" where
  "spawn init_frame g s entry arg stack_base stack_len priority =
     admit_spawned (spawn_parked init_frame g s entry arg stack_base stack_len priority)"

definition spawn_user_at :: "(nat \<Rightarrow> nat \<Rightarrow> nat \<Rightarrow> bool \<Rightarrow> nat \<Rightarrow> nat) \<Rightarrow> Statics \<Rightarrow> Scheduler \<Rightarrow> nat \<Rightarrow> nat \<Rightarrow> nat \<Rightarrow> nat \<Rightarrow> nat \<Rightarrow> nat \<Rightarrow> nat \<Rightarrow> u8 \<Rightarrow> ((Statics \<times> Scheduler) \<times> ThreadId option) option" where
  "spawn_user_at init_frame g s entry arg kstack_base kstack_len el0_sp reap_base reap_len priority =
     admit_spawned (spawn_user_at_parked init_frame g s entry arg kstack_base kstack_len el0_sp reap_base reap_len priority)"

text \<open>The receivers of a dying account lose it, and those that wait for its refill are released.\<close>

definition zombie_release :: "nat \<Rightarrow> nat \<Rightarrow> Scheduler \<Rightarrow> Scheduler option" where
  "zombie_release local d s = do {
     t \<leftarrow> tcb s d;
     if d \<noteq> local \<and> tc_used t \<and> tc_sc_donor t = Some local then do {
       s1 \<leftarrow> modt s d (\<lambda>t. t\<lparr>tc_sc_donor := None\<rparr>);
       if br_has (tc_reasons t) BR_BUDGET then do {
         s2 \<leftarrow> set_budget_blocked s1 d False;
         wecke_falls_lauffaehig s2 d
       } else Some s1
     } else Some s
   }"

definition clear_donee :: "Scheduler \<Rightarrow> nat option \<Rightarrow> nat \<Rightarrow> Scheduler option" where
  "clear_donee s donor local =
     (case donor of
        None \<Rightarrow> Some s
      | Some a \<Rightarrow> do {
          ta \<leftarrow> tcb s a;
          if tc_sc_donee ta = Some local then modt s a (\<lambda>t. t\<lparr>tc_sc_donee := None\<rparr>) else Some s
        })"

text \<open>The slot of a dead thread is cleared, its number leaves the directory with the next generation.\<close>

definition bury :: "Statics \<Rightarrow> Scheduler \<Rightarrow> nat \<Rightarrow> (Statics \<times> Scheduler) option" where
  "bury g s local = do {
     t \<leftarrow> tcb s local;
     let g1 = dir_store g (unat (tc_gid t)) (pack_dir False ((tc_gen t + 1) AND ucast D_GEN_MASK) 0 0);
     let s1 = (if tc_depleted t then s\<lparr>sc_depleted_count := sc_depleted_count s - 1\<rparr> else s);
     let s2 = (if br_has (tc_reasons t) BR_BUDGET then s1\<lparr>sc_budget_blocked_count := sc_budget_blocked_count s1 - 1\<rparr> else s1);
     s3 \<leftarrow> modt s2 local (\<lambda>_. Tcb_EMPTY);
     let s4 = s3\<lparr>sc_free := fl_free (sc_free s3) local, sc_used := sc_used s3 - 1\<rparr>;
     g2 \<leftarrow> set_core_load g1 (sc_core s4) (sc_used s4);
     Some (g2, s4)
   }"

definition push_zombie :: "Scheduler \<Rightarrow> Zombie \<Rightarrow> Scheduler option" where
  "push_zombie s z =
     (if sc_zcount s < length (sc_zombies s) then do {
        zs \<leftarrow> tupd (sc_zombies s) (sc_ztail s) (\<lambda>_. z);
        Some (s\<lparr>sc_zombies := zs, sc_ztail := (sc_ztail s + 1) mod length (sc_zombies s), sc_zcount := sc_zcount s + 1\<rparr>)
      } else Some s)"

definition record_zombie :: "nat \<Rightarrow> Statics \<Rightarrow> Scheduler \<Rightarrow> nat \<Rightarrow> (Statics \<times> Scheduler) option" where
  "record_zombie hier g s local = do {
     s1 \<leftarrow> for_slots (zombie_release local) [0..<length (sc_tcbs s)] s;
     t1 \<leftarrow> tcb s1 local;
     s2 \<leftarrow> clear_donee s1 (tc_sc_donor t1) local;
     s3 \<leftarrow> remove_from_ready s2 local;
     t \<leftarrow> tcb s3 local;
     (g1, s4) \<leftarrow> bury g s3 local;
     let base = tc_stack_base t;
     let len = tc_stack_len t;
     let g2 = (if len \<noteq> 0 then
                 g1\<lparr>g_zombie_gesamt := g_zombie_gesamt g1 + 1,
                   g_zombie_fuesse := (if base \<le> hier \<and> hier < (base + len) mod 2 ^ 64 then g_zombie_fuesse g1 + 1 else g_zombie_fuesse g1)\<rparr>
               else g1);
     s5 \<leftarrow> push_zombie s4 \<lparr>z_base = base, z_len = len, z_gid = tc_gid t\<rparr>;
     Some (g2, s5)
   }"

definition exit_current :: "nat \<Rightarrow> Statics \<Rightarrow> Scheduler \<Rightarrow> ((Statics \<times> Scheduler) \<times> nat) option" where
  "exit_current hier g s = do {
     cur \<leftarrow> sc_current s;
     (g1, s1) \<leftarrow> record_zombie hier g s cur;
     (s2, sp) \<leftarrow> run_next s1;
     Some ((g1, s2), sp)
   }"

definition kill :: "nat \<Rightarrow> Statics \<Rightarrow> Scheduler \<Rightarrow> ThreadId \<Rightarrow> ((Statics \<times> Scheduler) \<times> bool) option" where
  "kill hier g s tid =
     (case sch_resolve g s tid of
        None \<Rightarrow> Some ((g, s), False)
      | Some i \<Rightarrow>
          if sc_current s = Some i then Some ((g, s), False)
          else do {
            s1 \<leftarrow> remove_from_ready s i;
            (g1, s2) \<leftarrow> record_zombie hier g s1 i;
            Some ((g1, s2), True)
          })"

definition reap :: "Scheduler \<Rightarrow> (Scheduler \<times> (nat \<times> nat \<times> u32) option) option" where
  "reap s =
     (if sc_zcount s = 0 then Some (s, None)
      else do {
        z \<leftarrow> tget (sc_zombies s) (sc_zhead s);
        Some (s\<lparr>sc_zhead := (sc_zhead s + 1) mod length (sc_zombies s), sc_zcount := sc_zcount s - 1\<rparr>,
              Some (z_base z, z_len z, z_gid z))
      })"

section \<open>Blocking and waking\<close>

definition block_current_mit :: "Scheduler \<Rightarrow> nat \<Rightarrow> u16 \<Rightarrow> (Scheduler \<times> nat) option" where
  "block_current_mit s frame grund = do {
     cur \<leftarrow> sc_current s;
     s1 \<leftarrow> modt s cur (\<lambda>t. t\<lparr>tc_sp := frame, tc_reasons := br_insert grund (tc_reasons t)\<rparr>);
     run_next s1
   }"

definition block_current where "block_current s frame = block_current_mit s frame BR_IPC"
definition block_for_handler where "block_for_handler s frame = block_current_mit s frame BR_HANDLER"
definition block_for_load where "block_for_load s frame = block_current_mit s frame BR_LOAD"

definition switch_to :: "Statics \<Rightarrow> Scheduler \<Rightarrow> nat \<Rightarrow> ThreadId \<Rightarrow> (Scheduler \<times> nat) option" where
  "switch_to g s frame target = do {
     cur \<leftarrow> sc_current s;
     s1 \<leftarrow> modt s cur (\<lambda>t. t\<lparr>tc_sp := frame, tc_reasons := br_insert BR_IPC (tc_reasons t)\<rparr>);
     t \<leftarrow> sch_resolve g s1 target;
     s2 \<leftarrow> modt s1 t (\<lambda>t. t\<lparr>tc_reasons := br_remove BR_IPC (tc_reasons t)\<rparr>);
     tt \<leftarrow> tcb s2 t;
     if tc_reasons tt \<noteq> 0 then run_next s2
     else do {
       s3 \<leftarrow> remove_from_ready s2 t;
       tc \<leftarrow> tcb s3 cur;
       let account = (case tc_sc_donor tc of None \<Rightarrow> cur | Some a \<Rightarrow> a);
       s4 \<leftarrow> modt s3 t (\<lambda>t. t\<lparr>tc_sc_donor := Some account\<rparr>);
       s5 \<leftarrow> modt s4 account (\<lambda>a. a\<lparr>tc_sc_donee := Some t\<rparr>);
       let s6 = s5\<lparr>sc_current := Some t\<rparr>;
       tt' \<leftarrow> tcb s6 t;
       Some (s6, tc_sp tt')
     }
   }"

definition unblock :: "Statics \<Rightarrow> Scheduler \<Rightarrow> ThreadId \<Rightarrow> (Scheduler \<times> bool) option" where
  "unblock g s tid =
     (case sch_resolve g s tid of
        None \<Rightarrow> Some (s, False)
      | Some i \<Rightarrow> do {
          t \<leftarrow> tcb s i;
          if tc_reasons t = 0 then Some (s, True)
          else do {
            let acct = (case tc_sc_donor t of None \<Rightarrow> i | Some a \<Rightarrow> a);
            ta \<leftarrow> tcb s acct;
            s1 \<leftarrow> modt s i (\<lambda>t. t\<lparr>tc_reasons := br_remove BR_IPC (tc_reasons t)\<rparr>);
            if acct \<noteq> i \<and> tc_depleted ta then do { s2 \<leftarrow> set_budget_blocked s1 i True; Some (s2, True) }
            else do {
              t1 \<leftarrow> tcb s1 i;
              s2 \<leftarrow> (if tc_reasons t1 = 0 \<and> \<not> tc_depleted t1 then enqueue_ready s1 i else Some s1);
              Some (s2, True)
            }
          }
        })"

text \<open>Set a reason on a thread and take it off its ready list; lift one reason and wake the thread if it was the last.\<close>

definition stop_for :: "Statics \<Rightarrow> Scheduler \<Rightarrow> ThreadId \<Rightarrow> u16 \<Rightarrow> (Scheduler \<times> bool) option" where
  "stop_for g s tid grund =
     (case sch_resolve g s tid of
        None \<Rightarrow> Some (s, False)
      | Some i \<Rightarrow> do {
          s1 \<leftarrow> modt s i (\<lambda>t. t\<lparr>tc_reasons := br_insert grund (tc_reasons t)\<rparr>);
          s2 \<leftarrow> remove_from_ready s1 i;
          Some (s2, True)
        })"

definition lift_reason :: "Statics \<Rightarrow> Scheduler \<Rightarrow> ThreadId \<Rightarrow> u16 \<Rightarrow> (Scheduler \<times> bool) option" where
  "lift_reason g s tid grund =
     (case sch_resolve g s tid of
        None \<Rightarrow> Some (s, False)
      | Some i \<Rightarrow> do {
          s1 \<leftarrow> modt s i (\<lambda>t. t\<lparr>tc_reasons := br_remove grund (tc_reasons t)\<rparr>);
          s2 \<leftarrow> wecke_falls_lauffaehig s1 i;
          Some (s2, True)
        })"

definition pause where "pause g s tid = stop_for g s tid BR_PAUSE"
definition resume where "resume g s tid = lift_reason g s tid BR_PAUSE"
definition mark_handler_wait where "mark_handler_wait g s tid = stop_for g s tid BR_HANDLER"
definition handler_reply where "handler_reply g s tid = lift_reason g s tid BR_HANDLER"
definition load_reply where "load_reply g s tid = lift_reason g s tid BR_LOAD"
definition debug_stop where "debug_stop g s tid = (if is_debug_stopped g s tid then Some (s, False) else stop_for g s tid BR_DEBUG)"
definition debug_continue where "debug_continue g s tid = (if is_debug_stopped g s tid then lift_reason g s tid BR_DEBUG else Some (s, False))"
definition freeze_group where "freeze_group g s tid = (if is_group_frozen g s tid then Some (s, False) else stop_for g s tid BR_FREEZE)"
definition thaw_group where "thaw_group g s tid = (if is_group_frozen g s tid then lift_reason g s tid BR_FREEZE else Some (s, False))"

definition debug_release_one :: "(ThreadId \<Rightarrow> nat option) \<Rightarrow> nat \<Rightarrow> nat \<Rightarrow> Scheduler \<times> nat \<Rightarrow> (Scheduler \<times> nat) option" where
  "debug_release_one pd_of pd i st = do {
     t \<leftarrow> tcb (fst st) i;
     if \<not> tc_used t \<or> \<not> br_has (tc_reasons t) BR_DEBUG then Some st
     else do {
       tid \<leftarrow> sch_id (fst st) i;
       if pd_of tid \<noteq> Some pd then Some st
       else do {
         s1 \<leftarrow> modt (fst st) i (\<lambda>t. t\<lparr>tc_reasons := br_remove BR_DEBUG (tc_reasons t)\<rparr>);
         s2 \<leftarrow> wecke_falls_lauffaehig s1 i;
         Some (s2, snd st + 1)
       }
     }
   }"

definition debug_release_pd :: "Scheduler \<Rightarrow> (ThreadId \<Rightarrow> nat option) \<Rightarrow> nat \<Rightarrow> (Scheduler \<times> nat) option" where
  "debug_release_pd s pd_of pd = for_slots (debug_release_one pd_of pd) [0..<length (sc_tcbs s)] (s, 0)"

definition park_current :: "Scheduler \<Rightarrow> nat \<Rightarrow> (Scheduler \<times> nat option) option" where
  "park_current s frame = do {
     cur \<leftarrow> sc_current s;
     t \<leftarrow> tcb s cur;
     if tc_park_wake t then do {
       s1 \<leftarrow> modt s cur (\<lambda>t. t\<lparr>tc_park_wake := False\<rparr>);
       Some (s1, None)
     } else do {
       (s1, f) \<leftarrow> block_current_mit s frame BR_PARK;
       Some (s1, Some f)
     }
   }"

definition unpark :: "Statics \<Rightarrow> Scheduler \<Rightarrow> ThreadId \<Rightarrow> (Scheduler \<times> bool) option" where
  "unpark g s tid =
     (case sch_resolve g s tid of
        None \<Rightarrow> Some (s, False)
      | Some i \<Rightarrow> do {
          s1 \<leftarrow> modt s i (\<lambda>t. t\<lparr>tc_park_wake := True\<rparr>);
          t \<leftarrow> tcb s1 i;
          if br_has (tc_reasons t) BR_PARK then do {
            s2 \<leftarrow> modt s1 i (\<lambda>t. t\<lparr>tc_park_wake := False, tc_reasons := br_remove BR_PARK (tc_reasons t)\<rparr>);
            s3 \<leftarrow> wecke_falls_lauffaehig s2 i;
            Some (s3, True)
          } else Some (s1, True)
        })"

section \<open>Attributes\<close>

definition set_attr :: "Statics \<Rightarrow> Scheduler \<Rightarrow> ThreadId \<Rightarrow> (Tcb \<Rightarrow> Tcb) \<Rightarrow> (Scheduler \<times> bool) option" where
  "set_attr g s tid f =
     (case sch_resolve g s tid of
        None \<Rightarrow> Some (s, False)
      | Some i \<Rightarrow> do { s1 \<leftarrow> modt s i f; Some (s1, True) })"

definition set_tls where "set_tls g s tid va = set_attr g s tid (\<lambda>t. t\<lparr>tc_tls := va\<rparr>)"
definition set_handler where "set_handler g s tid b = set_attr g s tid (\<lambda>t. t\<lparr>tc_handler := b\<rparr>)"
definition frist_loeschen where "frist_loeschen g s tid = set_attr g s tid (\<lambda>t. t\<lparr>tc_frist := 0, tc_frist_grund := 0\<rparr>)"

definition set_cycle_source :: "Scheduler \<Rightarrow> Source \<Rightarrow> Scheduler" where
  "set_cycle_source s src = s\<lparr>sc_cycle_source := src\<rparr>"

definition account_of :: "Scheduler \<Rightarrow> nat \<Rightarrow> nat option" where
  "account_of s cur = do { t \<leftarrow> tcb s cur; Some (case tc_sc_donor t of None \<Rightarrow> cur | Some a \<Rightarrow> a) }"

definition charge_current :: "Scheduler \<Rightarrow> nat \<Rightarrow> u64 \<Rightarrow> Scheduler option" where
  "charge_current s core now =
     (case sc_current s of
        None \<Rightarrow> Some s
      | Some cur \<Rightarrow> do {
          t \<leftarrow> tcb s cur;
          case tc_stamp t of
            None \<Rightarrow> Some s
          | Some prev \<Rightarrow> do {
              s1 \<leftarrow> modt s cur (\<lambda>t. t\<lparr>tc_stamp := None\<rparr>);
              let smp = measure_cycles prev \<lparr>st_cycles = now, st_core = of_nat core\<rparr> (sc_cycle_source s1) MAX_PLAUSIBLE_SLICE;
              acct \<leftarrow> account_of s1 cur;
              s2 \<leftarrow> modt s1 acct (\<lambda>t. t\<lparr>tc_cyc := cyc_apply (tc_cyc t) smp\<rparr>);
              Some (s2\<lparr>sc_cyc_core := cyc_apply (sc_cyc_core s2) smp\<rparr>)
            }
        })"

definition stamp_current :: "Scheduler \<Rightarrow> nat \<Rightarrow> u64 \<Rightarrow> Scheduler option" where
  "stamp_current s core now =
     (case sc_current s of
        None \<Rightarrow> Some s
      | Some cur \<Rightarrow> modt s cur (\<lambda>t. t\<lparr>tc_stamp := Some \<lparr>st_cycles = now, st_core = of_nat core\<rparr>\<rparr>))"

definition end_donation :: "Scheduler \<Rightarrow> Scheduler option" where
  "end_donation s =
     (case sc_current s of
        None \<Rightarrow> Some s
      | Some cur \<Rightarrow> do {
          t \<leftarrow> tcb s cur;
          case tc_sc_donor t of
            None \<Rightarrow> Some s
          | Some acct \<Rightarrow> do {
              s1 \<leftarrow> modt s cur (\<lambda>t. t\<lparr>tc_sc_donor := None\<rparr>);
              clear_donee s1 (Some acct) cur
            }
        })"

section \<open>Deadlines\<close>

definition frist_setzen :: "Scheduler \<Rightarrow> u64 \<Rightarrow> u16 \<Rightarrow> Scheduler option" where
  "frist_setzen s ticks grund = do {
     cur \<leftarrow> sc_current s;
     if ticks = 0 then modt s cur (\<lambda>t. t\<lparr>tc_frist := 0, tc_frist_grund := 0\<rparr>)
     else do {
       let d = saturating_add64 (sc_now s) ticks;
       s1 \<leftarrow> modt s cur (\<lambda>t. t\<lparr>tc_frist := d, tc_frist_grund := grund\<rparr>);
       Some (if d < sc_naechste_frist s1 then s1\<lparr>sc_naechste_frist := d\<rparr> else s1)
     }
   }"

text \<open>The state of the scan: the scheduler, the released threads so far and the earliest deadline that stays armed.\<close>

definition frist_one :: "nat \<Rightarrow> nat \<Rightarrow> Scheduler \<times> ThreadId list \<times> u64 \<Rightarrow> (Scheduler \<times> ThreadId list \<times> u64) option" where
  "frist_one cap i st = (case st of (s, out, naechste) \<Rightarrow> do {
     t \<leftarrow> tcb s i;
     if \<not> tc_used t \<or> tc_frist t = 0 then Some st
     else case frist_befund (sc_now s) (tc_frist t) (br_has (tc_reasons t) (tc_frist_grund t)) (length out = cap) of
       Zukunft \<Rightarrow> Some (s, out, min naechste (tc_frist t))
     | Aufschieben \<Rightarrow> Some (s\<lparr>sc_fristen_ueberlauf := sc_fristen_ueberlauf s + 1\<rparr>, out, min naechste (tc_frist t))
     | SignalGewann \<Rightarrow> do { s1 \<leftarrow> modt s i (\<lambda>t. t\<lparr>tc_frist := 0, tc_frist_grund := 0\<rparr>); Some (s1, out, naechste) }
     | Freigeben \<Rightarrow> do {
         s1 \<leftarrow> modt s i (\<lambda>t. t\<lparr>tc_frist := 0, tc_frist_grund := 0, tc_reasons := br_remove (tc_frist_grund t) (tc_reasons t)\<rparr>);
         t1 \<leftarrow> tcb s1 i;
         tid \<leftarrow> sch_id s1 i;
         s2 \<leftarrow> (if tc_reasons t1 = 0 \<and> tc_queued t1 = NOT_QUEUED then enqueue_ready s1 i else Some s1);
         Some (s2, out @ [tid], naechste)
       }
   })"

definition fristen_faellig :: "Scheduler \<Rightarrow> nat \<Rightarrow> (Scheduler \<times> ThreadId list) option" where
  "fristen_faellig s cap =
     (if sc_now s < sc_naechste_frist s then Some (s, [])
      else do {
        (s1, out, naechste) \<leftarrow> for_slots (frist_one cap) [0..<length (sc_tcbs s)] (s, [], - 1);
        Some (s1\<lparr>sc_naechste_frist := naechste\<rparr>, out)
      })"

definition nohz_stand :: "Scheduler \<Rightarrow> (nat \<times> u64 option \<times> bool) option" where
  "nohz_stand s = do {
     let rivalen = sum_list (map (\<lambda>q. unat (lh_count q)) (sc_queues s));
     let w0 = (if sc_naechste_frist s \<noteq> - 1 then Some (saturating_sub64 (sc_naechste_frist s) (sc_now s)) else None);
     let weckruf = foldl (\<lambda>w t. if tc_used t \<and> tc_budget t > 0 \<and> tc_depleted t
                                then (let d = saturating_sub64 (tc_next_refill t) (sc_now s)
                                      in Some (case w of Some bisher \<Rightarrow> min bisher d | None \<Rightarrow> d))
                                else w) w0 (sc_tcbs s);
     hat_schranke \<leftarrow> (case sc_current s of Some cur \<Rightarrow> map_option (\<lambda>t. tc_budget t > 0) (tcb s cur) | None \<Rightarrow> Some False);
     Some (rivalen, weckruf, hat_schranke)
   }"

section \<open>Budgets and the tick\<close>

definition wake_donee :: "nat \<Rightarrow> nat \<Rightarrow> Scheduler \<Rightarrow> Scheduler option" where
  "wake_donee slot d s = do {
     t \<leftarrow> tcb s d;
     if d \<noteq> slot \<and> tc_used t \<and> br_has (tc_reasons t) BR_BUDGET \<and> tc_sc_donor t = Some slot then do {
       s1 \<leftarrow> set_budget_blocked s d False;
       wecke_falls_lauffaehig s1 d
     } else Some s
   }"

definition wake_donees :: "nat \<Rightarrow> Scheduler \<Rightarrow> Scheduler option" where
  "wake_donees slot s =
     (if sc_budget_blocked_count s > 0 then for_slots (wake_donee slot) [0..<length (sc_tcbs s)] s else Some s)"

definition refill_one :: "nat \<Rightarrow> Scheduler \<Rightarrow> Scheduler option" where
  "refill_one slot s = do {
     t \<leftarrow> tcb s slot;
     if tc_used t \<and> tc_budget t > 0 \<and> tc_depleted t \<and> sc_now s \<ge> tc_next_refill t then do {
       s1 \<leftarrow> modt s slot (\<lambda>t. t\<lparr>tc_remaining := tc_budget t, tc_depleted := False\<rparr>);
       let s2 = s1\<lparr>sc_depleted_count := sc_depleted_count s1 - 1, sc_refills := sc_refills s1 + 1\<rparr>;
       s3 \<leftarrow> wake_donees slot s2;
       t3 \<leftarrow> tcb s3 slot;
       case tc_sc_donee t3 of
         Some d \<Rightarrow> if d \<noteq> slot then Some s3
                   else if sc_current s3 \<noteq> Some slot then wecke_falls_lauffaehig s3 slot else Some s3
       | None \<Rightarrow> if sc_current s3 \<noteq> Some slot then wecke_falls_lauffaehig s3 slot else Some s3
     } else Some s
   }"

definition refill_depleted :: "Scheduler \<Rightarrow> Scheduler option" where
  "refill_depleted s = for_slots refill_one [0..<length (sc_tcbs s)] s"

text \<open>Charge one tick to an account; the result tells whether it is exhausted now.\<close>

definition charge_tick :: "Scheduler \<Rightarrow> nat \<Rightarrow> (Scheduler \<times> bool) option" where
  "charge_tick s acct = do {
     ta \<leftarrow> tcb s acct;
     if tc_budget ta > 0 then do {
       let r = (if tc_remaining ta = 0 then 0 else tc_remaining ta - 1);
       s1 \<leftarrow> modt s acct (\<lambda>t. t\<lparr>tc_remaining := r\<rparr>);
       if r = 0 then do {
         s2 \<leftarrow> modt s1 acct (\<lambda>t. t\<lparr>tc_depleted := True, tc_next_refill := sc_now s1 + ucast (tc_period t)\<rparr>);
         Some (s2\<lparr>sc_depleted_count := sc_depleted_count s2 + 1, sc_depletions := sc_depletions s2 + 1\<rparr>, True)
       } else Some (s1, False)
     } else Some (s, False)
   }"

definition retire_current :: "Scheduler \<Rightarrow> nat \<Rightarrow> bool \<Rightarrow> Scheduler option" where
  "retire_current s frame tick =
     (case sc_current s of
        None \<Rightarrow> Some s
      | Some cur \<Rightarrow> do {
          s1 \<leftarrow> modt s cur (\<lambda>t. t\<lparr>tc_sp := frame\<rparr>);
          t \<leftarrow> tcb s1 cur;
          acct \<leftarrow> account_of s1 cur;
          (s2, exhausted) \<leftarrow> (if tick then charge_tick s1 acct else Some (s1, False));
          s3 \<leftarrow> (if exhausted \<and> acct \<noteq> cur then set_budget_blocked s2 cur True else Some s2);
          if tc_reasons t = 0 \<and> \<not> exhausted then enqueue_ready s3 cur else Some s3
        })"

definition on_tick :: "Scheduler \<Rightarrow> nat \<Rightarrow> bool \<Rightarrow> (Scheduler \<times> nat) option" where
  "on_tick s frame tick = do {
     s2 \<leftarrow> (if tick then do {
             let s1 = s\<lparr>sc_now := sc_now s + 1\<rparr>;
             if sc_depleted_count s1 > 0 then refill_depleted s1 else Some s1
           } else Some s);
     s3 \<leftarrow> retire_current s2 frame tick;
     (s4, nx) \<leftarrow> dequeue_highest s3;
     case nx of
       None \<Rightarrow> Some (s4, frame)
     | Some next \<Rightarrow> do {
         let s5 = s4\<lparr>sc_current := Some next\<rparr>;
         t \<leftarrow> tcb s5 next;
         Some (s5, tc_sp t)
       }
   }"

definition set_budget :: "Statics \<Rightarrow> Scheduler \<Rightarrow> ThreadId \<Rightarrow> u32 \<Rightarrow> u32 \<Rightarrow> (Scheduler \<times> bool) option" where
  "set_budget g s tid budget period =
     (case sch_resolve g s tid of
        None \<Rightarrow> Some (s, False)
      | Some i \<Rightarrow> do {
          t \<leftarrow> tcb s i;
          s1 \<leftarrow> modt s i (\<lambda>t. t\<lparr>tc_budget := budget, tc_period := max period 1, tc_remaining := budget,
                             tc_next_refill := sc_now s + ucast period, tc_depleted := False\<rparr>);
          if tc_depleted t then do {
            s2 \<leftarrow> wake_donees i (s1\<lparr>sc_depleted_count := sc_depleted_count s1 - 1\<rparr>);
            s3 \<leftarrow> (if sc_current s2 \<noteq> Some i then wecke_falls_lauffaehig s2 i else Some s2);
            Some (s3, True)
          } else Some (s1, True)
        })"

section \<open>Migration\<close>

definition detach_for_migration :: "Statics \<Rightarrow> Scheduler \<Rightarrow> ThreadId \<Rightarrow> ((Statics \<times> Scheduler) \<times> Migrant option) option" where
  "detach_for_migration g s tid =
     (case sch_resolve g s tid of
        None \<Rightarrow> Some ((g, s), None)
      | Some i \<Rightarrow> do {
          t \<leftarrow> tcb s i;
          if sc_current s = Some i \<or> tc_sc_donor t \<noteq> None \<or> tc_sc_donee t \<noteq> None \<or>
             br_has (tc_reasons t) BR_DEBUG \<or> br_has (tc_reasons t) BR_FREEZE then Some ((g, s), None)
          else do {
            s1 \<leftarrow> remove_from_ready s i;
            t1 \<leftarrow> tcb s1 i;
            let s2 = (if tc_depleted t1 then s1\<lparr>sc_depleted_count := sc_depleted_count s1 - 1\<rparr> else s1);
            let s3 = (if br_has (tc_reasons t1) BR_BUDGET then s2\<lparr>sc_budget_blocked_count := sc_budget_blocked_count s2 - 1\<rparr> else s2);
            s4 \<leftarrow> modt s3 i (\<lambda>_. Tcb_EMPTY);
            let s5 = s4\<lparr>sc_free := fl_free (sc_free s4) i, sc_used := sc_used s4 - 1\<rparr>;
            g1 \<leftarrow> set_core_load g (sc_core s5) (sc_used s5);
            Some ((g1, s5\<lparr>sc_migrations_out := sc_migrations_out s5 + 1\<rparr>),
                  Some \<lparr>mi_tcb = t1\<lparr>tc_queued := NOT_QUEUED, tc_qnext := NIL, tc_qprev := NIL\<rparr>,
                        mi_was_ready = (tc_queued t \<noteq> NOT_QUEUED)\<rparr>)
          }
        })"

definition attach_migrated :: "Statics \<Rightarrow> Scheduler \<Rightarrow> Migrant \<Rightarrow> ((Statics \<times> Scheduler) \<times> Migrant option) option" where
  "attach_migrated g s m = do {
     (f1, i') \<leftarrow> fl_alloc (sc_free s);
     case i' of
       None \<Rightarrow> Some ((g, s\<lparr>sc_free := f1\<rparr>), Some m)
     | Some i \<Rightarrow> do {
         let t0 = mi_tcb m;
         let s0 = s\<lparr>sc_free := f1\<rparr>;
         let t1 = (if tc_depleted t0 then t0\<lparr>tc_next_refill := sc_now s0 + ucast (tc_period t0)\<rparr> else t0);
         let s1 = (if tc_depleted t0 then s0\<lparr>sc_depleted_count := sc_depleted_count s0 + 1\<rparr> else s0);
         let s2 = (if br_has (tc_reasons t1) BR_BUDGET then s1\<lparr>sc_budget_blocked_count := sc_budget_blocked_count s1 + 1\<rparr> else s1);
         s3 \<leftarrow> modt s2 i (\<lambda>_. t1\<lparr>tc_queued := NOT_QUEUED, tc_qnext := NIL, tc_qprev := NIL\<rparr>);
         let s4 = s3\<lparr>sc_used := sc_used s3 + 1\<rparr>;
         g1 \<leftarrow> set_core_load g (sc_core s4) (sc_used s4);
         let s5 = s4\<lparr>sc_migrations_in := sc_migrations_in s4 + 1\<rparr>;
         g2 \<leftarrow> publish_dir g1 s5 i;
         s6 \<leftarrow> (if mi_was_ready m then enqueue_ready s5 i else Some s5);
         Some ((g2, s6), None)
       }
   }"

text \<open>The search of one ready list; the fuel is the size of the table, and running out of it is \<open>None\<close>.\<close>

primrec candidate_in :: "nat \<Rightarrow> Scheduler \<Rightarrow> u32 \<Rightarrow> nat option option" where
  "candidate_in 0 s i = (if i = NIL then Some None else None)"
| "candidate_in (Suc n) s i =
     (if i = NIL then Some None
      else do {
        t \<leftarrow> tcb s (unat i);
        if sc_current s = Some (unat i) \<or> tc_sc_donor t \<noteq> None \<or> tc_sc_donee t \<noteq> None \<or> tc_stack_len t = 0
        then candidate_in n s (tc_qnext t)
        else Some (Some (unat i))
      })"

primrec candidate_from :: "Scheduler \<Rightarrow> nat list \<Rightarrow> nat option option" where
  "candidate_from s [] = Some None"
| "candidate_from s (p # ps) = do {
     q \<leftarrow> tget (sc_queues s) p;
     c \<leftarrow> candidate_in (length (sc_tcbs s)) s (lh_head q);
     case c of Some i \<Rightarrow> Some (Some i) | None \<Rightarrow> candidate_from s ps
   }"

definition migration_candidate :: "Scheduler \<Rightarrow> ThreadId option option" where
  "migration_candidate s = do {
     c \<leftarrow> candidate_from s [0..<NPRIO];
     case c of None \<Rightarrow> Some None | Some i \<Rightarrow> map_option Some (sch_id s i)
   }"

section \<open>Audit\<close>

text \<open>The walk over one ready list, with the fuel that its count allows.\<close>

primrec audit_walk :: "nat \<Rightarrow> Scheduler \<Rightarrow> nat \<Rightarrow> ListHead \<Rightarrow> u32 \<Rightarrow> u32 \<Rightarrow> u32 \<Rightarrow> nat" where
  "audit_walk 0 s p q i prev n = (if i = NIL then (if n \<noteq> lh_count q \<or> lh_tail q \<noteq> prev then 5 else 0) else 5)"
| "audit_walk (Suc k) s p q i prev n =
     (if i = NIL then (if n \<noteq> lh_count q \<or> lh_tail q \<noteq> prev then 5 else 0)
      else case tcb s (unat i) of
             None \<Rightarrow> 1
           | Some t \<Rightarrow>
               if \<not> tc_used t then 1
               else if tc_reasons t \<noteq> 0 then 2
               else if tc_depleted t then 9
               else if unat (tc_queued t) \<noteq> p \<or> unat (tc_priority t) \<noteq> p then 6
               else if tc_qprev t \<noteq> prev then 3
               else if sc_current s = Some (unat i) then 4
               else if n + 1 > lh_count q then 5
               else audit_walk k s p q (tc_qnext t) i (n + 1))"

primrec audit_lists :: "Scheduler \<Rightarrow> nat list \<Rightarrow> nat option" where
  "audit_lists s [] = Some 0"
| "audit_lists s (p # ps) = do {
     q \<leftarrow> tget (sc_queues s) p;
     if bit (sc_bitmap s) p \<noteq> (lh_count q > 0) then Some 5
     else (let c = audit_walk (Suc (unat (lh_count q))) s p q (lh_head q) NIL 0 in if c \<noteq> 0 then Some c else audit_lists s ps)
   }"

definition audit_tcb :: "Statics \<Rightarrow> Scheduler \<Rightarrow> nat \<Rightarrow> Tcb \<Rightarrow> nat" where
  "audit_tcb g s local t =
     (if \<not> tc_used t then 0
      else case dir_load g (unat (tc_gid t)) of
             None \<Rightarrow> 8
           | Some e \<Rightarrow>
               if \<not> (dir_used e \<and> dir_gen e = tc_gen t \<and> dir_core e = sc_core s \<and> dir_local e = local) then 8
               else if tc_reasons t = 0 \<and> \<not> tc_depleted t \<and> tc_admitted t \<and> sc_current s \<noteq> Some local \<and> tc_queued t = NOT_QUEUED
                    then 7 else 0)"

primrec audit_tcbs :: "Statics \<Rightarrow> Scheduler \<Rightarrow> nat \<Rightarrow> Tcb list \<Rightarrow> nat" where
  "audit_tcbs g s k [] = 0"
| "audit_tcbs g s k (t # ts) = (let c = audit_tcb g s k t in if c \<noteq> 0 then c else audit_tcbs g s (Suc k) ts)"

definition sch_audit :: "Statics \<Rightarrow> Scheduler \<Rightarrow> nat option" where
  "sch_audit g s = do {
     c \<leftarrow> audit_lists s [0..<NPRIO];
     if c \<noteq> 0 then Some c
     else (let d = audit_tcbs g s 0 (sc_tcbs s)
           in if d \<noteq> 0 then Some d
              else Some (if of_nat (count_tcbs (\<lambda>t. br_has (tc_reasons t) BR_BUDGET) s) \<noteq> sc_budget_blocked_count s then 10 else 0))
   }"

end
