(* ===== verification/SchedQueue.thy ===== *)
theory SchedQueue
  imports SchedRun
begin

text \<open>
  The ready lists of the scheduler: doubly linked lists threaded through the table of threads, one per
  priority, with a bitmap of the non-empty ones. \<open>rq_ok\<close> relates them to plain lists of slots; in a
  well formed state \<open>enqueue_ready\<close> appends, \<open>remove_from_ready\<close> removes and \<open>dequeue_highest\<close> takes
  the first element of the highest non-empty list, and none of them panics.
\<close>

section \<open>Representation\<close>

definition lnk :: "u32 \<Rightarrow> nat option" where
  "lnk w = (if w = NIL then None else Some (unat w))"

definition qn :: "Tcb list \<Rightarrow> nat \<Rightarrow> nat option" where "qn ts j = lnk (tc_qnext (ts ! j))"
definition qp :: "Tcb list \<Rightarrow> nat \<Rightarrow> nat option" where "qp ts j = lnk (tc_qprev (ts ! j))"

lemma lnk_NIL [simp]: "lnk NIL = None" and lnk_None_iff: "lnk w = None \<longleftrightarrow> w = NIL" and
  lnk_SomeD: "lnk w = Some i \<Longrightarrow> w \<noteq> NIL \<and> unat w = i"
  by (auto simp: lnk_def split: if_splits)

lemma lnk_of_nat: "i < n \<Longrightarrow> n < 2 ^ 32 \<Longrightarrow> lnk (of_nat i) = Some i"
  using idx_not_none [of i n] by (simp add: lnk_def NIL_def FL_NONE_def)

lemma qn_upd: "i < length ts \<Longrightarrow> qn (ts[i := v]) = (qn ts)(i := lnk (tc_qnext v))"
  by (auto simp: qn_def fun_eq_iff)

lemma qp_upd: "i < length ts \<Longrightarrow> qp (ts[i := v]) = (qp ts)(i := lnk (tc_qprev v))"
  by (auto simp: qp_def fun_eq_iff)

text \<open>One list head, and the ready lists of a scheduler as the family \<open>rq\<close>.\<close>

definition head_ok :: "Tcb list \<Rightarrow> ListHead \<Rightarrow> nat list \<Rightarrow> bool" where
  "head_ok ts q xs \<longleftrightarrow> lnk (lh_head q) = hd_or xs None \<and> lnk (lh_tail q) = last_or None xs \<and>
     lh_count q = of_nat (length xs) \<and> dls (qn ts) (qp ts) None xs None \<and> distinct xs"

definition rq_ok :: "Tcb list \<Rightarrow> ListHead list \<Rightarrow> u32 \<Rightarrow> (nat \<Rightarrow> nat list) \<Rightarrow> bool" where
  "rq_ok ts qs bm rq \<longleftrightarrow> length qs = 8 \<and> length ts < 2 ^ 32 \<and> (\<forall>p<8. head_ok ts (qs ! p) (rq p)) \<and>
     (\<forall>p<8. \<forall>i. i \<in> set (rq p) \<longleftrightarrow> i < length ts \<and> unat (tc_queued (ts ! i)) = p) \<and>
     (\<forall>i<length ts. tc_queued (ts ! i) = NOT_QUEUED \<or> unat (tc_queued (ts ! i)) < 8) \<and>
     (\<forall>p<32. bit bm p \<longleftrightarrow> p < 8 \<and> rq p \<noteq> [])"

lemma rq_okD:
  assumes "rq_ok ts qs bm rq"
  shows "length qs = 8" "length ts < 2 ^ 32" "\<And>p. p < 8 \<Longrightarrow> head_ok ts (qs ! p) (rq p)"
    "\<And>p i. p < 8 \<Longrightarrow> i \<in> set (rq p) \<longleftrightarrow> i < length ts \<and> unat (tc_queued (ts ! i)) = p"
    "\<And>i. i < length ts \<Longrightarrow> tc_queued (ts ! i) = NOT_QUEUED \<or> unat (tc_queued (ts ! i)) < 8"
    "\<And>p. p < 32 \<Longrightarrow> bit bm p \<longleftrightarrow> p < 8 \<and> rq p \<noteq> []"
  using assms unfolding rq_ok_def by auto

lemma unat_u8: "p < 8 \<Longrightarrow> unat (of_nat p :: u8) = p"
  by (simp add: unat_of_nat)

lemma NQ_iff: "w = NOT_QUEUED \<longleftrightarrow> unat w = 255"
proof -
  have "unat NOT_QUEUED = 255" by (simp add: NOT_QUEUED_def)
  then show ?thesis by (metis unsigned_word_eqI)
qed

text \<open>The lists do not depend on the other fields of a thread.\<close>

definition links :: "Tcb \<Rightarrow> u8 \<times> u32 \<times> u32" where
  "links t = (tc_queued t, tc_qnext t, tc_qprev t)"

lemma rq_ok_cong:
  assumes "rq_ok ts qs bm rq" "map links ts' = map links ts"
  shows "rq_ok ts' qs bm rq"
proof -
  have l: "length ts' = length ts" using map_eq_imp_length_eq [OF assms(2)] .
  have e: "links (ts' ! i) = links (ts ! i)" if "i < length ts" for i
    using assms(2) l that by (metis nth_map)
  note D = rq_okD [OF assms(1)]
  have "head_ok ts' (qs ! p) (rq p)" if "p < 8" for p
  proof -
    have "dls (qn ts') (qp ts') None (rq p) None = dls (qn ts) (qp ts) None (rq p) None"
    proof (rule dls_cong)
      fix x
      assume "x \<in> set (rq p)"
      then have "links (ts' ! x) = links (ts ! x)" using D(4) [OF that] e by blast
      then show "qn ts' x = qn ts x \<and> qp ts' x = qp ts x" by (simp add: qn_def qp_def links_def)
    qed
    then show ?thesis using D(3) [OF that] by (simp add: head_ok_def)
  qed
  then show ?thesis using D e l unfolding rq_ok_def by (auto simp: links_def)
qed

lemma rq_ok_fun: "rq_ok ts qs bm rq \<Longrightarrow> (\<And>p. p < 8 \<Longrightarrow> rq' p = rq p) \<Longrightarrow> rq_ok ts qs bm rq'"
  unfolding rq_ok_def by auto

section \<open>Appending\<close>

definition enq_tcbs :: "Tcb list \<Rightarrow> ListHead \<Rightarrow> nat \<Rightarrow> nat \<Rightarrow> Tcb list" where
  "enq_tcbs ts q p i =
     (let ts1 = ts[i := (ts ! i)\<lparr>tc_qprev := lh_tail q, tc_qnext := NIL, tc_queued := of_nat p\<rparr>]
      in if lh_tail q = NIL then ts1 else ts1[unat (lh_tail q) := (ts1 ! unat (lh_tail q))\<lparr>tc_qnext := of_nat i\<rparr>])"

definition enq_head :: "ListHead \<Rightarrow> nat \<Rightarrow> ListHead" where
  "enq_head q i = q\<lparr>lh_head := (if lh_tail q = NIL then of_nat i else lh_head q), lh_tail := of_nat i, lh_count := lh_count q + 1\<rparr>"

lemma enq_list:
  assumes "rq_ok ts qs bm rq" "i < length ts" "tc_queued (ts ! i) = NOT_QUEUED" "p < 8"
  defines "ts' \<equiv> enq_tcbs ts (qs ! p) p i"
  shows "rq_ok ts' (qs[p := enq_head (qs ! p) i]) (bm OR push_bit p 1) (rq(p := rq p @ [i]))"
    and "lh_tail (qs ! p) \<noteq> NIL \<Longrightarrow> unat (lh_tail (qs ! p)) < length ts \<and> unat (lh_tail (qs ! p)) \<noteq> i"
proof -
  note D = rq_okD [OF assms(1)]
  let ?q = "qs ! p" and ?xs = "rq p"
  have h: "lnk (lh_head ?q) = hd_or ?xs None" "lnk (lh_tail ?q) = last_or None ?xs" "lh_count ?q = of_nat (length ?xs)"
    "dls (qn ts) (qp ts) None ?xs None" "distinct ?xs" using D(3) [OF assms(4)] by (simp_all add: head_ok_def)
  have iq: "i \<notin> set (rq p')" if "p' < 8" for p' using D(4) [OF that] assms(3) that by (simp add: NQ_iff)
  have q255: "unat (tc_queued (ts ! i)) = 255" using assms(3) by (simp add: NQ_iff)
  have li: "lnk (of_nat i) = Some i" using lnk_of_nat [OF assms(2) D(2)] .
  have tl: "unat (lh_tail ?q) < length ts \<and> unat (lh_tail ?q) \<in> set ?xs" if "lh_tail ?q \<noteq> NIL"
  proof -
    have "last_or None ?xs = Some (unat (lh_tail ?q))" using that h(2) by (simp add: lnk_def)
    then have "unat (lh_tail ?q) \<in> set ?xs" by (rule last_or_in)
    then show ?thesis using D(4) [OF assms(4)] by blast
  qed
  show "lh_tail ?q \<noteq> NIL \<Longrightarrow> unat (lh_tail ?q) < length ts \<and> unat (lh_tail ?q) \<noteq> i" using tl iq [OF assms(4)] by blast
  have len: "length ts' = length ts" by (simp add: ts'_def enq_tcbs_def Let_def)
  have nx: "qn ts' = (if lh_tail ?q = NIL then (qn ts)(i := None) else (qn ts)(i := None, unat (lh_tail ?q) := Some i))"
    using tl iq [OF assms(4)] assms(2) li by (auto simp: ts'_def enq_tcbs_def Let_def qn_upd)
  have pv: "qp ts' = (qp ts)(i := lnk (lh_tail ?q))"
    using tl iq [OF assms(4)] assms(2) by (auto simp: ts'_def enq_tcbs_def Let_def qp_upd qp_def fun_eq_iff nth_list_update)
  have qd: "unat (tc_queued (ts' ! j)) = (if j = i then p else unat (tc_queued (ts ! j)))" if "j < length ts" for j
    using that tl assms(2) unat_u8 [OF assms(4)] by (auto simp: ts'_def enq_tcbs_def Let_def nth_list_update)
  have self: "dls (qn ts') (qp ts') None (?xs @ [i]) None"
  proof (cases "lh_tail ?q = NIL")
    case True
    then have "?xs = []" using h(2) by (metis lnk_NIL last_or_None_iff)
    then show ?thesis using True nx pv by simp
  next
    case False
    then obtain zs where zs: "?xs = zs @ [unat (lh_tail ?q)]"
      using h(2) by (cases ?xs rule: rev_cases) (auto simp: lnk_def)
    let ?l = "unat (lh_tail ?q)"
    have "dls ((qn ts)(?l := Some i)) (qp ts) None (zs @ [?l]) (Some i)"
      using h(4,5) zs by (intro dls_new_next) auto
    then have "dls (qn ts') (qp ts') None (zs @ [?l]) (Some i)"
      using False nx pv iq [OF assms(4)] zs by (simp add: dls_upd_notin fun_upd_twist [of i ?l])
    moreover have "qn ts' i = None" "qp ts' i = Some ?l" using nx pv False iq [OF assms(4)] zs by (auto simp: lnk_def)
    ultimately show ?thesis unfolding zs by (simp add: dls_append)
  qed
  have other: "dls (qn ts') (qp ts') None (rq p') None" if "p' < 8" "p' \<noteq> p" for p'
  proof -
    have "unat (lh_tail ?q) \<notin> set (rq p')" if "lh_tail ?q \<noteq> NIL"
      using tl [OF that] D(4) [OF assms(4)] D(4) [OF \<open>p' < 8\<close>] \<open>p' \<noteq> p\<close> by auto
    then show ?thesis using D(3) [OF that(1)] nx pv iq [OF that(1)] by (auto simp: head_ok_def dls_upd_notin)
  qed
  show "rq_ok ts' (qs[p := enq_head ?q i]) (bm OR push_bit p 1) (rq(p := rq p @ [i]))"
    unfolding rq_ok_def
  proof (intro conjI allI impI)
    fix p' :: nat
    assume p': "p' < 8"
    show "head_ok ts' (qs[p := enq_head ?q i] ! p') ((rq(p := ?xs @ [i])) p')"
    proof (cases "p' = p")
      case True
      have "lh_tail ?q = NIL \<longleftrightarrow> ?xs = []" using h(2) by (metis lnk_None_iff last_or_None_iff)
      then have "lnk (if lh_tail ?q = NIL then of_nat i else lh_head ?q) = hd_or (?xs @ [i]) None"
        using h(1) li by (cases ?xs) auto
      then show ?thesis using True self h D(1) p' iq [OF p'] li by (simp add: head_ok_def enq_head_def)
    next
      case False
      then show ?thesis using D(3) [OF p'] other [OF p'] by (simp add: head_ok_def)
    qed
    show "(j \<in> set ((rq(p := ?xs @ [i])) p')) = (j < length ts' \<and> unat (tc_queued (ts' ! j)) = p')" for j
      using D(4) [OF p', of j] qd [of j] len assms(2) q255 p' by (cases "j = i"; cases "p' = p") auto
  next
    fix j
    assume "j < length ts'"
    then show "tc_queued (ts' ! j) = NOT_QUEUED \<or> unat (tc_queued (ts' ! j)) < 8"
      using qd [of j] len D(5) [of j] assms(4) by (auto simp: NQ_iff)
  next
    fix p' :: nat
    assume "p' < 32"
    then show "bit (bm OR push_bit p 1) p' = (p' < 8 \<and> (rq(p := ?xs @ [i])) p' \<noteq> [])"
      using D(6) [of p'] assms(4) by (auto simp: bit_simps)
  qed (use D(1,2) len in simp_all)
qed

section \<open>Removing\<close>

definition deq_tcbs :: "Tcb list \<Rightarrow> nat \<Rightarrow> Tcb list" where
  "deq_tcbs ts i =
     (let prev = tc_qprev (ts ! i); next = tc_qnext (ts ! i);
          ts1 = (if prev = NIL then ts else ts[unat prev := (ts ! unat prev)\<lparr>tc_qnext := next\<rparr>]);
          ts2 = (if next = NIL then ts1 else ts1[unat next := (ts1 ! unat next)\<lparr>tc_qprev := prev\<rparr>])
      in ts2[i := (ts2 ! i)\<lparr>tc_qnext := NIL, tc_qprev := NIL, tc_queued := NOT_QUEUED\<rparr>])"

definition deq_head :: "ListHead \<Rightarrow> Tcb \<Rightarrow> ListHead" where
  "deq_head q t = q\<lparr>lh_head := (if tc_qprev t = NIL then tc_qnext t else lh_head q),
     lh_tail := (if tc_qnext t = NIL then tc_qprev t else lh_tail q), lh_count := lh_count q - 1\<rparr>"

definition deq_bm :: "u32 \<Rightarrow> nat \<Rightarrow> ListHead \<Rightarrow> u32" where
  "deq_bm bm p q' = (if lh_count q' = 0 then bm AND NOT (push_bit p 1) else bm)"

lemma deq_list:
  assumes "rq_ok ts qs bm rq" "i < length ts" "unat (tc_queued (ts ! i)) = p" "p < 8"
  defines "ts' \<equiv> deq_tcbs ts i" and "q' \<equiv> deq_head (qs ! p) (ts ! i)"
  shows "rq_ok ts' (qs[p := q']) (deq_bm bm p q') (rq(p := remove1 i (rq p)))"
    and "tc_qprev (ts ! i) \<noteq> NIL \<Longrightarrow> unat (tc_qprev (ts ! i)) < length ts \<and> unat (tc_qprev (ts ! i)) \<noteq> i"
    and "tc_qnext (ts ! i) \<noteq> NIL \<Longrightarrow> unat (tc_qnext (ts ! i)) < length ts \<and> unat (tc_qnext (ts ! i)) \<noteq> i"
proof -
  note D = rq_okD [OF assms(1)]
  let ?q = "qs ! p" and ?xs = "rq p" and ?pr = "tc_qprev (ts ! i)" and ?nx = "tc_qnext (ts ! i)"
  have h: "lnk (lh_head ?q) = hd_or ?xs None" "lnk (lh_tail ?q) = last_or None ?xs" "lh_count ?q = of_nat (length ?xs)"
    "dls (qn ts) (qp ts) None ?xs None" "distinct ?xs" using D(3) [OF assms(4)] by (simp_all add: head_ok_def)
  have "i \<in> set ?xs" using D(4) [OF assms(4)] assms(2,3) by blast
  then obtain as bs where sp: "?xs = as @ i # bs" by (meson split_list)
  have nb: "lnk ?pr = last_or None as" "lnk ?nx = hd_or bs None"
    using dls_neighbours [OF h(4) [unfolded sp]] by (simp_all add: qn_def qp_def)
  have d: "distinct (as @ i # bs)" using h(5) sp by simp
  have inx: "x < length ts" if "x \<in> set ?xs" for x using D(4) [OF assms(4)] that by blast
  have pr: "unat ?pr \<in> set as" if "?pr \<noteq> NIL"
    using that nb(1) by (auto simp: lnk_def dest!: sym [of "Some _"] intro: last_or_in)
  have nxi: "unat ?nx \<in> set bs" if "?nx \<noteq> NIL"
    using that nb(2) by (auto simp: lnk_def dest!: sym [of "Some _"] intro: hd_or_in)
  have pr': "unat ?pr < length ts" "unat ?pr \<noteq> i" if "?pr \<noteq> NIL" using pr [OF that] inx d sp by auto
  have nx': "unat ?nx < length ts" "unat ?nx \<noteq> i" if "?nx \<noteq> NIL" using nxi [OF that] inx d sp by auto
  show "?pr \<noteq> NIL \<Longrightarrow> unat ?pr < length ts \<and> unat ?pr \<noteq> i" "?nx \<noteq> NIL \<Longrightarrow> unat ?nx < length ts \<and> unat ?nx \<noteq> i"
    using pr' nx' by auto
  have len: "length ts' = length ts" by (simp add: ts'_def deq_tcbs_def Let_def)
  have qns: "qn ts' = (case last_or None as of None \<Rightarrow> qn ts | Some a \<Rightarrow> (qn ts)(a := hd_or bs None))(i := None)"
  proof -
    have "qn ts' = (if ?pr = NIL then qn ts else (qn ts)(unat ?pr := lnk ?nx))(i := None)"
      unfolding ts'_def deq_tcbs_def Let_def using pr' nx' assms(2)
      by (cases "?pr = NIL"; cases "?nx = NIL"; cases "?pr = ?nx") (simp_all add: qn_upd qn_def fun_eq_iff nth_list_update)
    then show ?thesis unfolding nb(1) [symmetric] nb(2) [symmetric] by (simp add: lnk_def)
  qed
  have qps: "qp ts' = (case hd_or bs None of None \<Rightarrow> qp ts | Some b \<Rightarrow> (qp ts)(b := last_or None as))(i := None)"
  proof -
    have "qp ts' = (if ?nx = NIL then qp ts else (qp ts)(unat ?nx := lnk ?pr))(i := None)"
      unfolding ts'_def deq_tcbs_def Let_def using pr' nx' assms(2)
      by (cases "?pr = NIL"; cases "?nx = NIL"; cases "?pr = ?nx") (simp_all add: qp_upd qp_def fun_eq_iff nth_list_update)
    then show ?thesis unfolding nb(1) [symmetric] nb(2) [symmetric] by (simp add: lnk_def)
  qed
  have qd: "unat (tc_queued (ts' ! j)) = (if j = i then 255 else unat (tc_queued (ts ! j)))" if "j < length ts" for j
    using that pr' nx' assms(2) by (auto simp: ts'_def deq_tcbs_def Let_def nth_list_update NOT_QUEUED_def)
  have rem: "remove1 i ?xs = as @ bs" using sp d by (simp add: remove1_append)
  have self: "dls (qn ts') (qp ts') None (as @ bs) None"
    unfolding qns qps using dls_remove [OF h(4) [unfolded sp] d] d by (simp add: dls_upd_notin)
  have other: "dls (qn ts') (qp ts') None (rq p') None" if "p' < 8" "p' \<noteq> p" for p'
  proof -
    have "x \<notin> set ?xs" if "x \<in> set (rq p')" for x using D(4) [OF \<open>p' < 8\<close>, of x] D(4) [OF assms(4), of x] that \<open>p' \<noteq> p\<close> by blast
    then have "dls (qn ts') (qp ts') None (rq p') None = dls (qn ts) (qp ts) None (rq p') None"
      unfolding qns qps sp
      by (intro dls_cong) (auto split: option.split dest: last_or_in hd_or_in)
    then show ?thesis using D(3) [OF that(1)] by (simp add: head_ok_def)
  qed
  have cnt: "lh_count q' = of_nat (length (as @ bs))" by (simp add: q'_def deq_head_def h(3) sp)
  have small: "length (as @ bs) < 2 ^ 32"
  proof -
    have "length ?xs \<le> length ts" by (rule distinct_bound [OF h(5)]) (use inx in blast)
    then show ?thesis using D(2) sp by simp
  qed
  have zero: "lh_count q' = 0 \<longleftrightarrow> as @ bs = []"
  proof -
    have "unat (lh_count q') = length (as @ bs)" unfolding cnt by (rule unat_of_nat_u32 [OF small])
    then show ?thesis by (metis length_0_conv unat_eq_zero)
  qed
  show "rq_ok ts' (qs[p := q']) (deq_bm bm p q') (rq(p := remove1 i (rq p)))"
    unfolding rq_ok_def rem
  proof (intro conjI allI impI)
    fix p' :: nat
    assume p': "p' < 8"
    show "head_ok ts' (qs[p := q'] ! p') ((rq(p := as @ bs)) p')"
    proof (cases "p' = p")
      case True
      have "lnk (lh_head q') = hd_or (as @ bs) None"
      proof (cases as)
        case Nil
        then show ?thesis using nb by (simp add: q'_def deq_head_def lnk_None_iff)
      next
        case (Cons a as')
        then have "?pr \<noteq> NIL" using nb(1) by (metis lnk_NIL last_or_None_iff list.distinct(1))
        then show ?thesis using h(1) sp Cons by (simp add: q'_def deq_head_def)
      qed
      moreover have "lnk (lh_tail q') = last_or None (as @ bs)"
      proof (cases bs rule: rev_cases)
        case Nil
        then show ?thesis using nb by (simp add: q'_def deq_head_def lnk_None_iff)
      next
        case (snoc bs' b)
        then have "?nx \<noteq> NIL" using nb(2) by (metis lnk_NIL hd_or_None_iff snoc_eq_iff_butlast)
        then show ?thesis using h(2) sp snoc by (simp add: q'_def deq_head_def)
      qed
      ultimately show ?thesis using True self cnt d D(1) p' by (simp add: head_ok_def)
    next
      case False
      then show ?thesis using D(3) [OF p'] other [OF p'] by (simp add: head_ok_def)
    qed
    show "(j \<in> set ((rq(p := as @ bs)) p')) = (j < length ts' \<and> unat (tc_queued (ts' ! j)) = p')" for j
    proof -
      have "j \<in> set (as @ bs) \<longleftrightarrow> j \<in> set ?xs \<and> j \<noteq> i" using sp d by auto
      then show ?thesis using D(4) [OF p', of j] qd [of j] len p' assms(3) by (cases "p' = p"; cases "j = i") auto
    qed
  next
    fix j
    assume "j < length ts'"
    then show "tc_queued (ts' ! j) = NOT_QUEUED \<or> unat (tc_queued (ts' ! j)) < 8"
      using qd [of j] len D(5) [of j] by (auto simp: NQ_iff)
  next
    fix p' :: nat
    assume "p' < 32"
    then show "bit (deq_bm bm p q') p' = (p' < 8 \<and> (rq(p := as @ bs)) p' \<noteq> [])"
      using D(6) [of p'] zero assms(4) sp by (auto simp: deq_bm_def bit_simps)
  qed (use D(1,2) len in simp_all)
qed

section \<open>The operations\<close>

definition rq_inv :: "Scheduler \<Rightarrow> (nat \<Rightarrow> nat list) \<Rightarrow> bool" where
  "rq_inv s rq \<longleftrightarrow> rq_ok (sc_tcbs s) (sc_queues s) (sc_bitmap s) rq"

lemma enqueue_ready_eq:
  assumes "rq_inv s rq" "i < length (sc_tcbs s)" "tc_queued (sc_tcbs s ! i) = NOT_QUEUED" "unat (tc_priority (sc_tcbs s ! i)) = p" "p < 8"
  shows "enqueue_ready s i = Some (s\<lparr>sc_tcbs := enq_tcbs (sc_tcbs s) (sc_queues s ! p) p i,
    sc_queues := (sc_queues s)[p := enq_head (sc_queues s ! p) i], sc_bitmap := sc_bitmap s OR push_bit p 1\<rparr>)"
proof -
  have l: "length (sc_queues s) = 8" using rq_okD(1) assms(1) unfolding rq_inv_def by blast
  note t = enq_list(2) [OF assms(1) [unfolded rq_inv_def] assms(2,3,5)]
  show ?thesis
  proof (cases "lh_tail (sc_queues s ! p) = NIL")
    case True
    then show ?thesis using assms l
      by (simp add: enqueue_ready_def tcb_def modt_def modq_def table_simps enq_tcbs_def enq_head_def Let_def)
  next
    case False
    then show ?thesis using assms l t
      by (simp add: enqueue_ready_def tcb_def modt_def modq_def table_simps enq_tcbs_def enq_head_def Let_def)
  qed
qed

lemma enqueue_ready_queued: "i < length (sc_tcbs s) \<Longrightarrow> tc_queued (sc_tcbs s ! i) \<noteq> NOT_QUEUED \<Longrightarrow> enqueue_ready s i = Some s"
  by (simp add: enqueue_ready_def tcb_def table_simps)

lemma remove_from_ready_eq:
  assumes "rq_inv s rq" "i < length (sc_tcbs s)" "unat (tc_queued (sc_tcbs s ! i)) = p" "p < 8"
  defines "q' \<equiv> deq_head (sc_queues s ! p) (sc_tcbs s ! i)"
  shows "remove_from_ready s i = Some (s\<lparr>sc_tcbs := deq_tcbs (sc_tcbs s) i, sc_queues := (sc_queues s)[p := q'],
    sc_bitmap := deq_bm (sc_bitmap s) p q'\<rparr>)"
proof -
  have l: "length (sc_queues s) = 8" using rq_okD(1) assms(1) unfolding rq_inv_def by blast
  have nq: "tc_queued (sc_tcbs s ! i) \<noteq> NOT_QUEUED" using assms(3,4) by (simp add: NQ_iff)
  note t = deq_list(2,3) [OF assms(1) [unfolded rq_inv_def] assms(2-4)]
  show ?thesis
    using assms(2-4) l t nq unfolding q'_def
    by (cases "tc_qprev (sc_tcbs s ! i) = NIL"; cases "tc_qnext (sc_tcbs s ! i) = NIL")
      (simp_all add: remove_from_ready_def tcb_def modt_def modq_def table_simps deq_tcbs_def deq_head_def deq_bm_def Let_def)
qed

lemma remove_from_ready_idle: "i < length (sc_tcbs s) \<Longrightarrow> tc_queued (sc_tcbs s ! i) = NOT_QUEUED \<Longrightarrow> remove_from_ready s i = Some s"
  by (simp add: remove_from_ready_def tcb_def table_simps)

text \<open>The highest set bit.\<close>

lemma takeWhile_rev_upt:
  "bit b p \<Longrightarrow> p < n \<Longrightarrow> (\<forall>j. p < j \<longrightarrow> j < n \<longrightarrow> \<not> bit b j) \<Longrightarrow> length (takeWhile (\<lambda>i. \<not> bit b i) (rev [0..<n])) = n - 1 - p"
proof (induction n)
  case (Suc n)
  show ?case
  proof (cases "p = n")
    case True
    then show ?thesis using Suc.prems by simp
  next
    case False
    then have "\<not> bit b n" "p < n" using Suc.prems by auto
    then show ?thesis using Suc by simp
  qed
qed simp

lemma leading_zeros_top:
  assumes "bit b p" "p < 32" "\<And>j. p < j \<Longrightarrow> j < 32 \<Longrightarrow> \<not> bit b j"
  shows "31 - leading_zeros b = p"
  unfolding leading_zeros_def using takeWhile_rev_upt [of b p 32] assms by simp

text \<open>The state after a change of the ready lists alone, with the lists before and after.\<close>

definition body :: "Tcb \<Rightarrow> Tcb" where
  "body t = t\<lparr>tc_queued := NOT_QUEUED, tc_qnext := NIL, tc_qprev := NIL\<rparr>"

definition requeued :: "Scheduler \<Rightarrow> Scheduler \<Rightarrow> bool" where
  "requeued s s' \<longleftrightarrow> (\<exists>ts qs bm. s' = s\<lparr>sc_tcbs := ts, sc_queues := qs, sc_bitmap := bm\<rparr> \<and> map body ts = map body (sc_tcbs s))"

lemma body_simps [simp]:
  "body (t\<lparr>tc_queued := a\<rparr>) = body t" "body (t\<lparr>tc_qnext := b\<rparr>) = body t" "body (t\<lparr>tc_qprev := c\<rparr>) = body t"
  by (simp_all add: body_def)

lemma map_body_upd: "i < length ts \<Longrightarrow> body v = body (ts ! i) \<Longrightarrow> map body (ts[i := v]) = map body ts"
  by (simp add: map_update) (metis length_map list_update_id nth_map)

lemma requeued_refl [simp]: "requeued s s"
proof -
  have "s = s\<lparr>sc_tcbs := sc_tcbs s, sc_queues := sc_queues s, sc_bitmap := sc_bitmap s\<rparr>" by simp
  then show ?thesis unfolding requeued_def by blast
qed

lemma enqueue_ready_ok:
  assumes "rq_inv s rq" "i < length (sc_tcbs s)" "unat (tc_priority (sc_tcbs s ! i)) = p" "p < 8"
  shows "\<exists>s'. enqueue_ready s i = Some s' \<and> requeued s s' \<and>
    rq_inv s' (if tc_queued (sc_tcbs s ! i) = NOT_QUEUED then rq(p := rq p @ [i]) else rq)"
proof (cases "tc_queued (sc_tcbs s ! i) = NOT_QUEUED")
  case True
  note l = enq_list [OF assms(1) [unfolded rq_inv_def] assms(2) True assms(4)]
  have "map body (enq_tcbs (sc_tcbs s) (sc_queues s ! p) p i) = map body (sc_tcbs s)"
    using l(2) assms(2) by (auto simp: enq_tcbs_def Let_def map_body_upd)
  then have "requeued s (s\<lparr>sc_tcbs := enq_tcbs (sc_tcbs s) (sc_queues s ! p) p i,
      sc_queues := (sc_queues s)[p := enq_head (sc_queues s ! p) i], sc_bitmap := sc_bitmap s OR push_bit p 1\<rparr>)"
    unfolding requeued_def by blast
  then show ?thesis using enqueue_ready_eq [OF assms(1,2) True assms(3,4)] l(1) True by (simp add: rq_inv_def)
next
  case False
  then show ?thesis using enqueue_ready_queued [OF assms(2) False] assms(1) False by simp
qed

lemma remove_from_ready_ok:
  assumes "rq_inv s rq" "i < length (sc_tcbs s)"
  shows "\<exists>s'. remove_from_ready s i = Some s' \<and> requeued s s' \<and> rq_inv s' (\<lambda>p. remove1 i (rq p)) \<and> tc_queued (sc_tcbs s' ! i) = NOT_QUEUED"
proof (cases "tc_queued (sc_tcbs s ! i) = NOT_QUEUED")
  case True
  note D = rq_okD [OF assms(1) [unfolded rq_inv_def]]
  have "i \<notin> set (rq p)" if "p < 8" for p using D(4) [OF that, of i] True [unfolded NQ_iff] that by simp
  then have "rq_inv s (\<lambda>p. remove1 i (rq p))"
    using rq_ok_fun [OF assms(1) [unfolded rq_inv_def], of "\<lambda>p. remove1 i (rq p)"] by (simp add: rq_inv_def remove1_idem)
  then show ?thesis using remove_from_ready_idle [OF assms(2) True] True by simp
next
  case False
  define p where "p = unat (tc_queued (sc_tcbs s ! i))"
  note D = rq_okD [OF assms(1) [unfolded rq_inv_def]]
  have p: "p < 8" using D(5) [OF assms(2)] False p_def by simp
  note l = deq_list [OF assms(1) [unfolded rq_inv_def] assms(2) p_def [symmetric] p]
  have "map body (deq_tcbs (sc_tcbs s) i) = map body (sc_tcbs s)"
    using l(2,3) assms(2) by (auto simp: deq_tcbs_def Let_def map_body_upd nth_list_update)
  then have r: "requeued s (s\<lparr>sc_tcbs := deq_tcbs (sc_tcbs s) i, sc_queues := (sc_queues s)[p := deq_head (sc_queues s ! p) (sc_tcbs s ! i)],
      sc_bitmap := deq_bm (sc_bitmap s) p (deq_head (sc_queues s ! p) (sc_tcbs s ! i))\<rparr>)"
    unfolding requeued_def by blast
  have q: "tc_queued (deq_tcbs (sc_tcbs s) i ! i) = NOT_QUEUED" using assms(2) by (auto simp: deq_tcbs_def Let_def)
  have "i \<notin> set (rq p')" if "p' < 8" "p' \<noteq> p" for p' using D(4) [OF that(1), of i] that(2) p_def by simp
  then have "remove1 i (rq p') = (rq(p := remove1 i (rq p))) p'" if "p' < 8" for p' using that by (simp add: remove1_idem)
  from rq_ok_fun [OF l(1) this] show ?thesis using remove_from_ready_eq [OF assms p_def [symmetric] p] r q by (simp add: rq_inv_def)
qed

text \<open>Choosing the next thread: the first of the highest non-empty list.\<close>

definition top_list :: "(nat \<Rightarrow> nat list) \<Rightarrow> nat list" where
  "top_list rq = (case filter (\<lambda>p. rq p \<noteq> []) (rev [0..<8]) of [] \<Rightarrow> [] | p # _ \<Rightarrow> rq p)"

lemma top_cases:
  obtains (none) "top_list rq = []" "\<And>p. p < 8 \<Longrightarrow> rq p = []"
  | (some) p i xs where "p < 8" "rq p = i # xs" "top_list rq = i # xs" "\<And>j. p < j \<Longrightarrow> j < 8 \<Longrightarrow> rq j = []"
proof (cases "filter (\<lambda>p. rq p \<noteq> []) (rev [0..<8])")
  case Nil
  then have "\<And>p. p < 8 \<Longrightarrow> rq p = []" by (auto simp: filter_empty_conv)
  then show ?thesis using none Nil by (simp add: top_list_def)
next
  case (Cons p ps)
  have "p \<in> set (filter (\<lambda>p. rq p \<noteq> []) (rev [0..<8]))" unfolding Cons by simp
  then have p: "p < 8" "rq p \<noteq> []" by auto
  have "rq j = []" if j: "p < j" "j < 8" for j
  proof (rule ccontr)
    assume n: "rq j \<noteq> []"
    have "sorted (rev (filter (\<lambda>p. rq p \<noteq> []) (rev [0..<8])))" by (simp add: rev_filter sorted_filter [where f = id, simplified])
    then have "sorted (rev ps @ [p])" unfolding Cons by simp
    moreover have "j \<in> set (p # ps)" unfolding Cons [symmetric] using n j by simp
    ultimately show False using j(1) by (auto simp: sorted_append)
  qed
  moreover obtain i xs where "rq p = i # xs" using p(2) by (cases "rq p") simp_all
  ultimately show ?thesis using some p(1) Cons by (simp add: top_list_def)
qed

lemma dequeue_highest_ok:
  assumes "rq_inv s rq"
  shows "case top_list rq of
      [] \<Rightarrow> dequeue_highest s = Some (s, None)
    | i # _ \<Rightarrow> i < length (sc_tcbs s) \<and> tc_queued (sc_tcbs s ! i) \<noteq> NOT_QUEUED \<and>
        (\<exists>s'. dequeue_highest s = Some (s', Some i) \<and> requeued s s' \<and> rq_inv s' (\<lambda>p. remove1 i (rq p)) \<and>
          tc_queued (sc_tcbs s' ! i) = NOT_QUEUED)"
proof -
  note D = rq_okD [OF assms [unfolded rq_inv_def]]
  show ?thesis
  proof (cases rule: top_cases [of rq])
    case none
    have "sc_bitmap s = 0" by (rule bit_word_eqI) (use D(6) none in auto)
    then show ?thesis using none by (simp add: dequeue_highest_def)
  next
    case (some p i xs)
    have b: "bit (sc_bitmap s) p" using D(6) [of p] some by simp
    then have nz: "sc_bitmap s \<noteq> 0" by auto
    have "31 - leading_zeros (sc_bitmap s) = p" by (rule leading_zeros_top [OF b]) (use some D(6) in auto)
    moreover have "lnk (lh_head (sc_queues s ! p)) = Some i" using D(3) [OF some(1)] some(2) by (simp add: head_ok_def)
    then have h: "lh_head (sc_queues s ! p) \<noteq> NIL" "unat (lh_head (sc_queues s ! p)) = i" by (auto dest: lnk_SomeD)
    have i: "i < length (sc_tcbs s)" "unat (tc_queued (sc_tcbs s ! i)) = p" using D(4) [OF some(1), of i] some(2) by auto
    moreover have "tc_queued (sc_tcbs s ! i) \<noteq> NOT_QUEUED" using i(2) some(1) by (auto simp: NQ_iff)
    ultimately show ?thesis using remove_from_ready_ok [OF assms i(1)] some(1,3) nz h D(1)
      by (auto simp: dequeue_highest_def table_simps Let_def)
  qed
qed

section \<open>The ready lists as plain lists\<close>

primrec rd_walk :: "nat \<Rightarrow> Tcb list \<Rightarrow> u32 \<Rightarrow> nat list" where
  "rd_walk 0 ts h = []"
| "rd_walk (Suc n) ts h = (if h = NIL then [] else unat h # rd_walk n ts (tc_qnext (ts ! unat h)))"

text \<open>The threads of one priority in the order in which they run.\<close>

definition ready :: "Scheduler \<Rightarrow> nat \<Rightarrow> nat list" where
  "ready s p = rd_walk (length (sc_tcbs s)) (sc_tcbs s) (lh_head (sc_queues s ! p))"

definition rq_wf :: "Scheduler \<Rightarrow> bool" where
  "rq_wf s \<longleftrightarrow> rq_inv s (ready s)"

lemma rd_walk_dls: "dls (qn ts) pv q xs None \<Longrightarrow> lnk h = hd_or xs None \<Longrightarrow> length xs \<le> n \<Longrightarrow> rd_walk n ts h = xs"
proof (induction xs arbitrary: h n q)
  case Nil
  then show ?case by (cases n) (simp_all add: lnk_None_iff)
next
  case (Cons x xs)
  then obtain m where n: "n = Suc m" by (cases n) simp_all
  have h: "h \<noteq> NIL" "unat h = x" using Cons.prems(2) by (auto dest: lnk_SomeD)
  have "lnk (tc_qnext (ts ! x)) = hd_or xs None" using Cons.prems(1) by (simp add: qn_def)
  then show ?case using Cons.IH [of "Some x" "tc_qnext (ts ! x)" m] Cons.prems n h by simp
qed

lemma rq_inv_ready: "rq_inv s rq \<Longrightarrow> p < 8 \<Longrightarrow> ready s p = rq p"
proof -
  assume a: "rq_inv s rq" "p < 8"
  note D = rq_okD [OF a(1) [unfolded rq_inv_def]]
  have h: "head_ok (sc_tcbs s) (sc_queues s ! p) (rq p)" using D(3) [OF a(2)] .
  have "length (rq p) \<le> length (sc_tcbs s)"
    by (rule distinct_bound) (use h D(4) [OF a(2)] in \<open>auto simp: head_ok_def\<close>)
  then show ?thesis unfolding ready_def using h by (intro rd_walk_dls) (auto simp: head_ok_def)
qed

lemma rq_wfI: "rq_inv s rq \<Longrightarrow> rq_wf s"
  using rq_ok_fun [of "sc_tcbs s" "sc_queues s" "sc_bitmap s" rq "ready s"] rq_inv_ready [of s rq] by (simp add: rq_wf_def rq_inv_def)

text \<open>
  C25. The linked ready lists refine plain lists, one per priority. In a well formed state none of the
  operations panics: \<open>enqueue_ready\<close> appends a thread that is not queued to the list of its priority,
  \<open>remove_from_ready\<close> takes it out of whichever list it is on, and \<open>dequeue_highest\<close> takes the first
  thread of the highest non-empty priority, so equal priorities run round robin. All of them keep every
  field of the threads other than the links.
\<close>

theorem ready_lists_refine:
  assumes "rq_wf s" "i < length (sc_tcbs s)" "unat (tc_priority (sc_tcbs s ! i)) < 8"
  shows "(\<exists>s'. enqueue_ready s i = Some s' \<and> rq_wf s' \<and> requeued s s' \<and>
      (\<forall>p<8. ready s' p = (if tc_queued (sc_tcbs s ! i) = NOT_QUEUED \<and> p = unat (tc_priority (sc_tcbs s ! i)) then ready s p @ [i] else ready s p))) \<and>
    (\<exists>s'. remove_from_ready s i = Some s' \<and> rq_wf s' \<and> requeued s s' \<and> (\<forall>p<8. ready s' p = filter (\<lambda>j. j \<noteq> i) (ready s p))) \<and>
    (case filter (\<lambda>p. ready s p \<noteq> []) [7, 6, 5, 4, 3, 2, 1, 0] of
       [] \<Rightarrow> dequeue_highest s = Some (s, None)
     | p # _ \<Rightarrow> \<exists>s' j. dequeue_highest s = Some (s', Some j) \<and> ready s p = j # ready s' p \<and> rq_wf s' \<and> requeued s s' \<and>
         (\<forall>k<8. k \<noteq> p \<longrightarrow> ready s' k = ready s k))"
proof (intro conjI)
  have inv: "rq_inv s (ready s)" using assms(1) by (simp add: rq_wf_def)
  note D = rq_okD [OF inv [unfolded rq_inv_def]]
  have dist: "distinct (ready s p)" if "p < 8" for p using D(3) [OF that] by (simp add: head_ok_def)
  show "\<exists>s'. enqueue_ready s i = Some s' \<and> rq_wf s' \<and> requeued s s' \<and>
      (\<forall>p<8. ready s' p = (if tc_queued (sc_tcbs s ! i) = NOT_QUEUED \<and> p = unat (tc_priority (sc_tcbs s ! i)) then ready s p @ [i] else ready s p))"
    using enqueue_ready_ok [OF inv assms(2) refl assms(3)]
    by (cases "tc_queued (sc_tcbs s ! i) = NOT_QUEUED") (auto simp: rq_inv_ready intro: rq_wfI)
  show "\<exists>s'. remove_from_ready s i = Some s' \<and> rq_wf s' \<and> requeued s s' \<and> (\<forall>p<8. ready s' p = filter (\<lambda>j. j \<noteq> i) (ready s p))"
  proof -
    obtain s' where s': "remove_from_ready s i = Some s'" "requeued s s'" "rq_inv s' (\<lambda>p. remove1 i (ready s p))"
      using remove_from_ready_ok [OF inv assms(2)] by blast
    have "\<forall>p<8. ready s' p = filter (\<lambda>j. j \<noteq> i) (ready s p)"
      using rq_inv_ready [OF s'(3)] by (simp add: distinct_remove1_removeAll dist removeAll_filter_not_eq neq_commute)
    then show ?thesis using s' rq_wfI by blast
  qed
  have e: "rev [0..<8] = [7, 6, 5, 4, 3, 2, 1, 0 :: nat]" by (simp add: upt_rec)
  show "case filter (\<lambda>p. ready s p \<noteq> []) [7, 6, 5, 4, 3, 2, 1, 0] of
       [] \<Rightarrow> dequeue_highest s = Some (s, None)
     | p # _ \<Rightarrow> \<exists>s' j. dequeue_highest s = Some (s', Some j) \<and> ready s p = j # ready s' p \<and> rq_wf s' \<and> requeued s s' \<and>
         (\<forall>k<8. k \<noteq> p \<longrightarrow> ready s' k = ready s k)"
  proof (cases "filter (\<lambda>p. ready s p \<noteq> []) [7, 6, 5, 4, 3, 2, 1, 0]")
    case Nil
    then have "top_list (ready s) = []" unfolding top_list_def e by simp
    then show ?thesis using dequeue_highest_ok [OF inv] Nil by simp
  next
    case (Cons p ps)
    then have "p \<in> set (filter (\<lambda>p. ready s p \<noteq> []) [7, 6, 5, 4, 3, 2, 1, 0])" by simp
    then have p: "p < 8" "ready s p \<noteq> []" unfolding e [symmetric] by auto
    then obtain j js where j: "ready s p = j # js" by (cases "ready s p") simp_all
    have t: "top_list (ready s) = j # js" unfolding top_list_def e Cons using j by simp
    obtain s' where s': "dequeue_highest s = Some (s', Some j)" "requeued s s'" "rq_inv s' (\<lambda>p. remove1 j (ready s p))"
      using dequeue_highest_ok [OF inv] unfolding t by auto
    have "j \<notin> set (ready s k)" if "k < 8" "k \<noteq> p" for k using D(4) [OF that(1), of j] D(4) [OF p(1), of j] j that(2) by auto
    then have "\<forall>k<8. k \<noteq> p \<longrightarrow> ready s' k = ready s k" using rq_inv_ready [OF s'(3)] by (simp add: remove1_idem)
    moreover have "ready s' p = js" using rq_inv_ready [OF s'(3) p(1)] j by simp
    ultimately show ?thesis using Cons s' j by (auto intro: rq_wfI)
  qed
qed

end
