(* ===== verification/SchedInv.thy ===== *)
theory SchedInv
  imports SchedQueue
begin

text \<open>
  The invariant of a scheduler and its statics. \<open>hinv X\<close> holds inside of operations: the ready lists are
  well formed, every queued thread is in use and on the list of its priority and, unless it is in \<open>X\<close>,
  has no block reason; the free list and the use flags agree; the directory leads to every thread; the
  counter of budget-blocked threads is exact. \<open>sinv\<close> adds that the running thread is in use, not queued
  and not waiting, and that the pool of thread numbers is in order.
\<close>

section \<open>Definition\<close>

definition hard :: "Statics \<Rightarrow> nat \<Rightarrow> nat \<Rightarrow> nat \<Rightarrow> Tcb \<Rightarrow> bool" where
  "hard g core n i t \<longleftrightarrow>
     (tc_used t \<longrightarrow> unat (tc_priority t) < 8 \<and> tc_gen t < 2 ^ 31 \<and>
        dir_load g (unat (tc_gid t)) = Some (pack_dir True (tc_gen t) core i)) \<and>
     (tc_queued t \<noteq> NOT_QUEUED \<longrightarrow> tc_used t \<and> tc_priority t = tc_queued t) \<and>
     (\<forall>a. tc_sc_donor t = Some a \<longrightarrow> a < n) \<and> tc_frist_grund t \<in> {0, BR_IPC, BR_PARK}"

abbreviation budget_blocked :: "Tcb \<Rightarrow> bool" where
  "budget_blocked t \<equiv> br_has (tc_reasons t) BR_BUDGET"

definition hinv :: "nat set \<Rightarrow> Statics \<Rightarrow> Scheduler \<Rightarrow> bool" where
  "hinv X g s \<longleftrightarrow>
     (\<exists>rq. rq_ok (sc_tcbs s) (sc_queues s) (sc_bitmap s) rq) \<and> length (sc_tcbs s) \<le> 2 ^ 16 \<and> sc_core s < 256 \<and>
     (\<forall>i<length (sc_tcbs s). hard g (sc_core s) (length (sc_tcbs s)) i (sc_tcbs s ! i) \<and>
        (i \<notin> X \<longrightarrow> tc_queued (sc_tcbs s ! i) \<noteq> NOT_QUEUED \<longrightarrow> tc_reasons (sc_tcbs s ! i) = 0)) \<and>
     fl_wf (sc_free s) \<and> fl_capacity (sc_free s) = length (sc_tcbs s) \<and>
     (\<forall>i<length (sc_tcbs s). i \<in> fl_in_use (sc_free s) \<longleftrightarrow> tc_used (sc_tcbs s ! i)) \<and>
     sc_budget_blocked_count s = of_nat (length (filter (\<lambda>t. tc_used t \<and> budget_blocked t) (sc_tcbs s))) \<and>
     (\<forall>c. sc_current s = Some c \<longrightarrow> c < length (sc_tcbs s)) \<and>
     sc_zcount s \<le> length (sc_zombies s) \<and> (sc_zombies s \<noteq> [] \<longrightarrow> sc_zhead s < length (sc_zombies s) \<and> sc_ztail s < length (sc_zombies s))"

definition cur_ok :: "Scheduler \<Rightarrow> bool" where
  "cur_ok s \<longleftrightarrow> (\<forall>c. sc_current s = Some c \<longrightarrow> tc_used (sc_tcbs s ! c) \<and> tc_queued (sc_tcbs s ! c) = NOT_QUEUED \<and>
     \<not> br_has (tc_reasons (sc_tcbs s ! c)) BR_IPC \<and> \<not> br_has (tc_reasons (sc_tcbs s ! c)) BR_PARK)"

definition g_inv :: "Statics \<Rightarrow> bool" where
  "g_inv g \<longleftrightarrow> fl_wf (g_gid_free g) \<and> fl_capacity (g_gid_free g) = length (g_directory g) \<and> length (g_directory g) < 2 ^ 32 \<and>
     length (g_core_load g) = 256 \<and>
     (\<forall>gid<length (g_directory g). gid \<notin> fl_in_use (g_gid_free g) \<longrightarrow> \<not> dir_used (g_directory g ! gid))"

definition sinv :: "Statics \<Rightarrow> Scheduler \<Rightarrow> bool" where
  "sinv g s \<longleftrightarrow> g_inv g \<and> hinv {} g s \<and> cur_ok s"

lemma hinvD:
  assumes "hinv X g s"
  shows "\<exists>rq. rq_inv s rq" "length (sc_tcbs s) \<le> 2 ^ 16" "sc_core s < 256"
    "\<And>i. i < length (sc_tcbs s) \<Longrightarrow> hard g (sc_core s) (length (sc_tcbs s)) i (sc_tcbs s ! i)"
    "\<And>i. i < length (sc_tcbs s) \<Longrightarrow> i \<notin> X \<Longrightarrow> tc_queued (sc_tcbs s ! i) \<noteq> NOT_QUEUED \<Longrightarrow> tc_reasons (sc_tcbs s ! i) = 0"
    "fl_wf (sc_free s)" "fl_capacity (sc_free s) = length (sc_tcbs s)"
    "\<And>i. i < length (sc_tcbs s) \<Longrightarrow> i \<in> fl_in_use (sc_free s) \<longleftrightarrow> tc_used (sc_tcbs s ! i)"
    "\<And>c. sc_current s = Some c \<Longrightarrow> c < length (sc_tcbs s)"
  using assms unfolding hinv_def rq_inv_def by auto

lemma hinv_mono: "hinv X g s \<Longrightarrow> X \<subseteq> Y \<Longrightarrow> hinv Y g s"
  unfolding hinv_def by (elim conjE, intro conjI) (assumption | blast)+

text \<open>Fields the invariant does not mention.\<close>

lemma hinv_scalars [simp]:
  "hinv X g (s\<lparr>sc_now := a\<rparr>) = hinv X g s" "hinv X g (s\<lparr>sc_depletions := a\<rparr>) = hinv X g s" "hinv X g (s\<lparr>sc_refills := a\<rparr>) = hinv X g s"
  "hinv X g (s\<lparr>sc_cycle_source := src\<rparr>) = hinv X g s" "hinv X g (s\<lparr>sc_cyc_core := cy\<rparr>) = hinv X g s" "hinv X g (s\<lparr>sc_used := a\<rparr>) = hinv X g s"
  "hinv X g (s\<lparr>sc_depleted_count := a\<rparr>) = hinv X g s" "hinv X g (s\<lparr>sc_fristen_ueberlauf := a\<rparr>) = hinv X g s"
  "hinv X g (s\<lparr>sc_naechste_frist := a\<rparr>) = hinv X g s" "hinv X g (s\<lparr>sc_migrations_out := a\<rparr>) = hinv X g s"
  "hinv X g (s\<lparr>sc_migrations_in := a\<rparr>) = hinv X g s"
  by (simp_all add: hinv_def)

lemma cur_ok_scalars [simp]:
  "cur_ok (s\<lparr>sc_now := a\<rparr>) = cur_ok s" "cur_ok (s\<lparr>sc_depletions := a\<rparr>) = cur_ok s" "cur_ok (s\<lparr>sc_refills := a\<rparr>) = cur_ok s"
  "cur_ok (s\<lparr>sc_cycle_source := src\<rparr>) = cur_ok s" "cur_ok (s\<lparr>sc_cyc_core := cy\<rparr>) = cur_ok s" "cur_ok (s\<lparr>sc_used := a\<rparr>) = cur_ok s"
  "cur_ok (s\<lparr>sc_depleted_count := a\<rparr>) = cur_ok s" "cur_ok (s\<lparr>sc_fristen_ueberlauf := a\<rparr>) = cur_ok s"
  "cur_ok (s\<lparr>sc_naechste_frist := a\<rparr>) = cur_ok s" "cur_ok (s\<lparr>sc_migrations_out := a\<rparr>) = cur_ok s"
  "cur_ok (s\<lparr>sc_migrations_in := a\<rparr>) = cur_ok s" "cur_ok (s\<lparr>sc_budget_blocked_count := a\<rparr>) = cur_ok s"
  by (simp_all add: cur_ok_def)

section \<open>Changing one thread\<close>

lemma count_upd:
  assumes "i < length ts" "P v = P (ts ! i)"
  shows "length (filter P (ts[i := v])) = length (filter P ts)"
proof -
  have e: "length (filter P xs) = length (filter id (map P xs))" for xs
    by (induction xs) simp_all
  have "map P (ts[i := v]) = map P ts" using assms by (simp add: map_update) (metis length_map list_update_id nth_map)
  then show ?thesis unfolding e by simp
qed

lemma count_upd_step:
  assumes "i < length ts" "P v" "\<not> P (ts ! i)"
  shows "length (filter P (ts[i := v])) = Suc (length (filter P ts))"
proof -
  have s: "ts = take i ts @ ts ! i # drop (Suc i) ts" using assms(1) by (rule id_take_nth_drop)
  have u: "ts[i := v] = take i ts @ v # drop (Suc i) ts" using assms(1) by (rule upd_conv_take_nth_drop)
  have "length (filter P ts) = length (filter P (take i ts)) + length (filter P (drop (Suc i) ts))"
    by (subst s) (simp add: assms(3))
  then show ?thesis unfolding u using assms(2) by simp
qed

lemma hinv_upd:
  assumes "hinv X g s" "i < length (sc_tcbs s)" "links v = links (sc_tcbs s ! i)" "tc_used v = tc_used (sc_tcbs s ! i)"
    and "hard g (sc_core s) (length (sc_tcbs s)) i v"
    and "tc_queued (sc_tcbs s ! i) \<noteq> NOT_QUEUED \<Longrightarrow> i \<in> Y \<or> tc_reasons v = 0" "X \<subseteq> insert i Y"
    and "b = of_nat (length (filter (\<lambda>t. tc_used t \<and> budget_blocked t) ((sc_tcbs s)[i := v])))"
  shows "hinv Y g (s\<lparr>sc_tcbs := (sc_tcbs s)[i := v], sc_budget_blocked_count := b\<rparr>)"
proof -
  let ?ts = "sc_tcbs s"
  have l: "map links (?ts[i := v]) = map links ?ts"
    using assms(2,3) by (simp add: map_update) (metis length_map list_update_id nth_map)
  have q: "tc_queued v = tc_queued (?ts ! i)" using assms(3) by (simp add: links_def)
  have "hard g (sc_core s) (length ?ts) j (?ts[i := v] ! j) \<and>
    (j \<notin> Y \<longrightarrow> tc_queued (?ts[i := v] ! j) \<noteq> NOT_QUEUED \<longrightarrow> tc_reasons (?ts[i := v] ! j) = 0)" if j: "j < length ?ts" for j
  proof (cases "j = i")
    case True
    then show ?thesis using j assms(5,6) q by auto
  next
    case False
    then show ?thesis using j hinvD(4,5) [OF assms(1) j] assms(7) by auto
  qed
  then show ?thesis
    using assms(1,2,4,8) unfolding hinv_def
    by (auto simp: nth_list_update intro: rq_ok_cong [OF _ l])
qed

lemma hinv_modt:
  assumes "hinv X g s" "i < length (sc_tcbs s)" "links (f (sc_tcbs s ! i)) = links (sc_tcbs s ! i)"
    and "tc_used (f (sc_tcbs s ! i)) = tc_used (sc_tcbs s ! i)" "hard g (sc_core s) (length (sc_tcbs s)) i (f (sc_tcbs s ! i))"
    and "budget_blocked (f (sc_tcbs s ! i)) = budget_blocked (sc_tcbs s ! i)"
    and "tc_queued (sc_tcbs s ! i) \<noteq> NOT_QUEUED \<Longrightarrow> i \<in> Y \<or> tc_reasons (f (sc_tcbs s ! i)) = 0" "X \<subseteq> insert i Y"
  shows "modt s i f = Some (s\<lparr>sc_tcbs := (sc_tcbs s)[i := f (sc_tcbs s ! i)]\<rparr>) \<and> hinv Y g (s\<lparr>sc_tcbs := (sc_tcbs s)[i := f (sc_tcbs s ! i)]\<rparr>)"
proof
  let ?v = "f (sc_tcbs s ! i)"
  show "modt s i f = Some (s\<lparr>sc_tcbs := (sc_tcbs s)[i := ?v]\<rparr>)" using assms(2) by (simp add: modt_def table_simps)
  have "sc_budget_blocked_count s = of_nat (length (filter (\<lambda>t. tc_used t \<and> budget_blocked t) ((sc_tcbs s)[i := ?v])))"
    using assms(1,2,4,6) count_upd [of i "sc_tcbs s" "\<lambda>t. tc_used t \<and> budget_blocked t" ?v] by (simp add: hinv_def)
  from hinv_upd [OF assms(1-5,7,8) this] show "hinv Y g (s\<lparr>sc_tcbs := (sc_tcbs s)[i := ?v]\<rparr>)" by simp
qed

text \<open>A change of fields that no clause mentions.\<close>

lemma hard_cong:
  "tc_used t' = tc_used t \<Longrightarrow> tc_priority t' = tc_priority t \<Longrightarrow> tc_gen t' = tc_gen t \<Longrightarrow> tc_gid t' = tc_gid t \<Longrightarrow>
   tc_queued t' = tc_queued t \<Longrightarrow> tc_sc_donor t' = tc_sc_donor t \<Longrightarrow> tc_frist_grund t' = tc_frist_grund t \<Longrightarrow>
   hard g c n i t' = hard g c n i t"
  by (simp add: hard_def)

lemma br_has_bit: "br_has r (2 ^ k) \<longleftrightarrow> bit r k"
  by (simp add: br_has_def and_exp_eq_0_iff_not_bit)

lemma br_insert_present: "bit r k \<Longrightarrow> br_insert (2 ^ k) r = r"
  unfolding br_insert_def by (rule bit_word_eqI) (auto simp: bit_or_iff bit_exp_iff)

lemma BR_BUDGET_exp: "BR_BUDGET = 2 ^ 1"
  by (simp add: BR_BUDGET_def)

definition bb_flip :: "bool \<Rightarrow> Tcb \<Rightarrow> Tcb" where
  "bb_flip an t = t\<lparr>tc_reasons := (if an then br_insert BR_BUDGET else br_remove BR_BUDGET) (tc_reasons t)\<rparr>"

lemma bb_flip_same: "budget_blocked t = an \<Longrightarrow> bb_flip an t = t"
proof -
  assume a: "budget_blocked t = an"
  have "(if an then br_insert BR_BUDGET else br_remove BR_BUDGET) (tc_reasons t) = tc_reasons t"
  proof (cases an)
    case True
    with a show ?thesis unfolding BR_BUDGET_exp br_has_bit by (simp only: br_insert_present if_True)
  next
    case False
    with a show ?thesis by (simp add: br_remove_absent)
  qed
  then show ?thesis by (simp add: bb_flip_def)
qed

lemma bb_flip_blocked: "budget_blocked (bb_flip an t) = an"
  by (simp add: bb_flip_def br_has_insert) (simp add: br_has_def BR_BUDGET_def)

lemma hard_reasons [simp]: "hard g c n i (t\<lparr>tc_reasons := r\<rparr>) = hard g c n i t"
  by (simp add: hard_def)

lemma hard_bb_flip [simp]: "hard g c n i (bb_flip an t) = hard g c n i t"
  by (simp add: bb_flip_def)

lemma set_bb_ok:
  assumes "hinv X g s" "i < length (sc_tcbs s)" "tc_used (sc_tcbs s ! i)" "tc_queued (sc_tcbs s ! i) = NOT_QUEUED \<or> i \<in> X"
  shows "\<exists>b. set_budget_blocked s i an = Some (s\<lparr>sc_tcbs := (sc_tcbs s)[i := bb_flip an (sc_tcbs s ! i)], sc_budget_blocked_count := b\<rparr>) \<and>
    hinv X g (s\<lparr>sc_tcbs := (sc_tcbs s)[i := bb_flip an (sc_tcbs s ! i)], sc_budget_blocked_count := b\<rparr>)"
proof (cases "budget_blocked (sc_tcbs s ! i) = an")
  case True
  then have "bb_flip an (sc_tcbs s ! i) = sc_tcbs s ! i" by (rule bb_flip_same)
  moreover have "set_budget_blocked s i an = Some s" using True assms(2) by (simp add: set_budget_blocked_def tcb_def table_simps)
  ultimately show ?thesis using assms(1) by (intro exI [of _ "sc_budget_blocked_count s"]) simp
next
  case False
  let ?P = "\<lambda>t. tc_used t \<and> budget_blocked t" and ?v = "bb_flip an (sc_tcbs s ! i)"
  have u: "tc_used ?v" using assms(3) by (simp add: bb_flip_def)
  define b where "b = (if an then sc_budget_blocked_count s + 1 else sc_budget_blocked_count s - 1)"
  have c: "sc_budget_blocked_count s = of_nat (length (filter ?P (sc_tcbs s)))" using assms(1) by (simp add: hinv_def)
  have "b = of_nat (length (filter ?P ((sc_tcbs s)[i := ?v])))"
  proof (cases an)
    case True
    then have "length (filter ?P ((sc_tcbs s)[i := ?v])) = Suc (length (filter ?P (sc_tcbs s)))"
      using False assms(2) u by (intro count_upd_step) (simp_all add: bb_flip_blocked)
    then show ?thesis using True c by (simp add: b_def)
  next
    case f: False
    have "length (filter ?P (((sc_tcbs s)[i := ?v])[i := sc_tcbs s ! i])) = Suc (length (filter ?P ((sc_tcbs s)[i := ?v])))"
      using False f assms(2,3) by (intro count_upd_step) (simp_all add: bb_flip_blocked)
    then show ?thesis using f c by (simp add: b_def)
  qed
  moreover have "hard g (sc_core s) (length (sc_tcbs s)) i ?v" using hinvD(4) [OF assms(1,2)] by simp
  ultimately have "hinv X g (s\<lparr>sc_tcbs := (sc_tcbs s)[i := ?v], sc_budget_blocked_count := b\<rparr>)"
    using assms by (intro hinv_upd) (auto simp: bb_flip_def links_def)
  moreover have "set_budget_blocked s i an = Some (s\<lparr>sc_tcbs := (sc_tcbs s)[i := ?v], sc_budget_blocked_count := b\<rparr>)"
    using False assms(2) by (simp add: set_budget_blocked_def tcb_def modt_def table_simps b_def bb_flip_def)
  ultimately show ?thesis by blast
qed

section \<open>Changing the ready lists\<close>

lemma body_eqD:
  assumes "body a = body b"
  shows "tc_used a = tc_used b" "tc_gid a = tc_gid b" "tc_gen a = tc_gen b" "tc_sp a = tc_sp b" "tc_priority a = tc_priority b"
    "tc_reasons a = tc_reasons b" "tc_stack_base a = tc_stack_base b" "tc_stack_len a = tc_stack_len b" "tc_frist a = tc_frist b"
    "tc_frist_grund a = tc_frist_grund b" "tc_admitted a = tc_admitted b" "tc_budget a = tc_budget b"
    "tc_remaining a = tc_remaining b" "tc_next_refill a = tc_next_refill b" "tc_depleted a = tc_depleted b" "tc_park_wake a = tc_park_wake b"
    "tc_sc_donor a = tc_sc_donor b" "tc_sc_donee a = tc_sc_donee b"
  using arg_cong [OF assms, of tc_used] arg_cong [OF assms, of tc_gid] arg_cong [OF assms, of tc_gen] arg_cong [OF assms, of tc_sp]
    arg_cong [OF assms, of tc_priority] arg_cong [OF assms, of tc_reasons] arg_cong [OF assms, of tc_stack_base]
    arg_cong [OF assms, of tc_stack_len] arg_cong [OF assms, of tc_frist] arg_cong [OF assms, of tc_frist_grund]
    arg_cong [OF assms, of tc_admitted] arg_cong [OF assms, of tc_budget] arg_cong [OF assms, of tc_remaining]
    arg_cong [OF assms, of tc_next_refill] arg_cong [OF assms, of tc_depleted] arg_cong [OF assms, of tc_park_wake]
    arg_cong [OF assms, of tc_sc_donor] arg_cong [OF assms, of tc_sc_donee]
  by (simp_all add: body_def)

text \<open>What a change of the ready lists leaves: all fields but the lists, and the bodies of all threads.\<close>

lemma requeuedD:
  assumes "requeued s s'"
  shows "length (sc_tcbs s') = length (sc_tcbs s)" "\<And>i. i < length (sc_tcbs s) \<Longrightarrow> body (sc_tcbs s' ! i) = body (sc_tcbs s ! i)"
    "sc_core s' = sc_core s" "sc_free s' = sc_free s" "sc_current s' = sc_current s" "sc_now s' = sc_now s"
    "sc_naechste_frist s' = sc_naechste_frist s" "sc_budget_blocked_count s' = sc_budget_blocked_count s"
    "sc_zcount s' = sc_zcount s" "sc_zombies s' = sc_zombies s" "sc_zhead s' = sc_zhead s" "sc_ztail s' = sc_ztail s"
    "sc_depleted_count s' = sc_depleted_count s" "sc_used s' = sc_used s"
proof -
  obtain ts qs bm where s': "s' = s\<lparr>sc_tcbs := ts, sc_queues := qs, sc_bitmap := bm\<rparr>" and m: "map body ts = map body (sc_tcbs s)"
    using assms unfolding requeued_def by blast
  have l: "length ts = length (sc_tcbs s)" using map_eq_imp_length_eq [OF m] .
  then show "length (sc_tcbs s') = length (sc_tcbs s)" by (simp add: s')
  show "\<And>i. i < length (sc_tcbs s) \<Longrightarrow> body (sc_tcbs s' ! i) = body (sc_tcbs s ! i)"
    using m l by (simp add: s') (metis nth_map)
qed (use assms in \<open>auto simp: requeued_def\<close>)

lemma requeued_trans: "requeued s t \<Longrightarrow> requeued t u \<Longrightarrow> requeued s u"
proof -
  assume a: "requeued s t" "requeued t u"
  then obtain ts qs bm us rs cm where t: "t = s\<lparr>sc_tcbs := ts, sc_queues := qs, sc_bitmap := bm\<rparr>" "map body ts = map body (sc_tcbs s)"
    and u: "u = t\<lparr>sc_tcbs := us, sc_queues := rs, sc_bitmap := cm\<rparr>" "map body us = map body (sc_tcbs t)" unfolding requeued_def by blast
  then have "u = s\<lparr>sc_tcbs := us, sc_queues := rs, sc_bitmap := cm\<rparr>" "map body us = map body (sc_tcbs s)" by simp_all
  then show ?thesis unfolding requeued_def by blast
qed

lemma hinv_requeue:
  assumes "hinv X g s" "requeued s s'" "rq_inv s' rq'"
    and "\<And>i. i < length (sc_tcbs s) \<Longrightarrow> tc_queued (sc_tcbs s' ! i) \<noteq> NOT_QUEUED \<Longrightarrow>
      tc_used (sc_tcbs s ! i) \<and> tc_priority (sc_tcbs s ! i) = tc_queued (sc_tcbs s' ! i) \<and> (i \<notin> Y \<longrightarrow> tc_reasons (sc_tcbs s ! i) = 0)"
  shows "hinv Y g s'"
proof -
  note R = requeuedD [OF assms(2)]
  have f: "length (filter (\<lambda>t. tc_used t \<and> budget_blocked t) (sc_tcbs s')) = length (filter (\<lambda>t. tc_used t \<and> budget_blocked t) (sc_tcbs s))"
  proof -
    have a: "length (filter (\<lambda>t. tc_used t \<and> budget_blocked t) ts) = length (filter (\<lambda>t. tc_used t \<and> budget_blocked t) (map body ts))" for ts
      by (induction ts) (simp_all add: body_def)
    have "map body (sc_tcbs s') = map body (sc_tcbs s)" using R(1,2) by (simp add: list_eq_iff_nth_eq)
    then show ?thesis using a [of "sc_tcbs s'"] a [of "sc_tcbs s"] by argo
  qed
  have "hard g (sc_core s) (length (sc_tcbs s)) i (sc_tcbs s' ! i) \<and> (i \<notin> Y \<longrightarrow> tc_queued (sc_tcbs s' ! i) \<noteq> NOT_QUEUED \<longrightarrow> tc_reasons (sc_tcbs s' ! i) = 0)"
    if i: "i < length (sc_tcbs s)" for i
  proof -
    note e = body_eqD [OF R(2) [OF i]]
    show ?thesis using hinvD(4) [OF assms(1) i] assms(4) [OF i] unfolding hard_def e by auto
  qed
  then show ?thesis using assms(1,3) f R body_eqD(1) [OF R(2)] unfolding hinv_def rq_inv_def by auto
qed

text \<open>The queued flags after an operation on the lists.\<close>

lemma queued_iff: "rq_inv s rq \<Longrightarrow> i < length (sc_tcbs s) \<Longrightarrow> p < 8 \<Longrightarrow> unat (tc_queued (sc_tcbs s ! i)) = p \<longleftrightarrow> i \<in> set (rq p)"
  using rq_okD(4) unfolding rq_inv_def by blast

lemma queued_eq:
  assumes "rq_inv s rq" "rq_inv s' rq'" "length (sc_tcbs s') = length (sc_tcbs s)" "i < length (sc_tcbs s)"
    "\<And>p. p < 8 \<Longrightarrow> i \<in> set (rq' p) \<longleftrightarrow> i \<in> set (rq p)"
  shows "tc_queued (sc_tcbs s' ! i) = tc_queued (sc_tcbs s ! i)"
proof -
  have i': "i < length (sc_tcbs s')" using assms(3,4) by simp
  have e: "unat (tc_queued (sc_tcbs s' ! i)) = p \<longleftrightarrow> unat (tc_queued (sc_tcbs s ! i)) = p" if "p < 8" for p
    using queued_iff [OF assms(1,4) that] queued_iff [OF assms(2) i' that] assms(5) [OF that] by simp
  have "tc_queued (sc_tcbs s' ! i) = NOT_QUEUED \<or> unat (tc_queued (sc_tcbs s' ! i)) < 8"
    "tc_queued (sc_tcbs s ! i) = NOT_QUEUED \<or> unat (tc_queued (sc_tcbs s ! i)) < 8"
    using rq_okD(5) assms(1,2,4) i' unfolding rq_inv_def by blast+
  then show ?thesis using e by (metis unsigned_word_eqI)
qed

lemma enqueue_hinv:
  assumes "hinv X g s" "i < length (sc_tcbs s)" "tc_used (sc_tcbs s ! i)" "tc_reasons (sc_tcbs s ! i) = 0 \<or> i \<in> X"
  shows "\<exists>s'. enqueue_ready s i = Some s' \<and> hinv X g s' \<and> requeued s s' \<and> tc_queued (sc_tcbs s' ! i) \<noteq> NOT_QUEUED \<and>
    (\<forall>j<length (sc_tcbs s). j \<noteq> i \<longrightarrow> tc_queued (sc_tcbs s' ! j) = tc_queued (sc_tcbs s ! j))"
proof -
  obtain rq where rq: "rq_inv s rq" using hinvD(1) [OF assms(1)] by blast
  define p where "p = unat (tc_priority (sc_tcbs s ! i))"
  have p: "p < 8" using hinvD(4) [OF assms(1,2)] assms(3) by (simp add: hard_def p_def)
  define rq' where "rq' = (if tc_queued (sc_tcbs s ! i) = NOT_QUEUED then rq(p := rq p @ [i]) else rq)"
  from enqueue_ready_ok [OF rq assms(2) p_def [symmetric] p] obtain s' where
    s': "enqueue_ready s i = Some s'" "requeued s s'" "rq_inv s' rq'" unfolding rq'_def by blast
  note R = requeuedD [OF s'(2)]
  have other: "tc_queued (sc_tcbs s' ! j) = tc_queued (sc_tcbs s ! j)" if "j < length (sc_tcbs s)" "j \<noteq> i" for j
    by (rule queued_eq [OF rq s'(3) R(1) that(1)]) (use that(2) in \<open>auto simp: rq'_def\<close>)
  have i': "i < length (sc_tcbs s')" using assms(2) R(1) by simp
  have self: "tc_queued (sc_tcbs s' ! i) = tc_priority (sc_tcbs s ! i)"
  proof (cases "tc_queued (sc_tcbs s ! i) = NOT_QUEUED")
    case True
    then have "i \<in> set (rq' p)" by (simp add: rq'_def)
    then have "unat (tc_queued (sc_tcbs s' ! i)) = p" using queued_iff [OF s'(3) i' p] by simp
    then show ?thesis unfolding p_def by (rule unsigned_word_eqI)
  next
    case False
    then have "s' = s" using s'(1) enqueue_ready_queued [OF assms(2)] by simp
    then show ?thesis using False hinvD(4) [OF assms(1,2)] by (simp add: hard_def)
  qed
  then have "tc_queued (sc_tcbs s' ! i) \<noteq> NOT_QUEUED" using p by (simp add: NQ_iff p_def)
  moreover have "hinv X g s'"
  proof (rule hinv_requeue [OF assms(1) s'(2,3)])
    fix j
    assume j: "j < length (sc_tcbs s)" "tc_queued (sc_tcbs s' ! j) \<noteq> NOT_QUEUED"
    show "tc_used (sc_tcbs s ! j) \<and> tc_priority (sc_tcbs s ! j) = tc_queued (sc_tcbs s' ! j) \<and> (j \<notin> X \<longrightarrow> tc_reasons (sc_tcbs s ! j) = 0)"
      using self other [OF j(1)] j assms(3,4) hinvD(4,5) [OF assms(1) j(1)] by (cases "j = i") (auto simp: hard_def)
  qed
  ultimately show ?thesis using s' other by blast
qed

lemma remove_hinv:
  assumes "hinv X g s" "i < length (sc_tcbs s)" "X \<subseteq> insert i Y"
  shows "\<exists>s'. remove_from_ready s i = Some s' \<and> hinv Y g s' \<and> requeued s s' \<and> tc_queued (sc_tcbs s' ! i) = NOT_QUEUED \<and>
    (\<forall>j<length (sc_tcbs s). j \<noteq> i \<longrightarrow> tc_queued (sc_tcbs s' ! j) = tc_queued (sc_tcbs s ! j))"
proof -
  obtain rq where rq: "rq_inv s rq" using hinvD(1) [OF assms(1)] by blast
  from remove_from_ready_ok [OF rq assms(2)] obtain s' where s': "remove_from_ready s i = Some s'" "requeued s s'"
    "rq_inv s' (\<lambda>p. remove1 i (rq p))" "tc_queued (sc_tcbs s' ! i) = NOT_QUEUED" by blast
  note R = requeuedD [OF s'(2)]
  have other: "tc_queued (sc_tcbs s' ! j) = tc_queued (sc_tcbs s ! j)" if "j < length (sc_tcbs s)" "j \<noteq> i" for j
    by (rule queued_eq [OF rq s'(3) R(1) that(1)]) (use that(2) in auto)
  have "hinv Y g s'"
  proof (rule hinv_requeue [OF assms(1) s'(2,3)])
    fix j
    assume j: "j < length (sc_tcbs s)" "tc_queued (sc_tcbs s' ! j) \<noteq> NOT_QUEUED"
    then have "j \<noteq> i" using s'(4) by auto
    then show "tc_used (sc_tcbs s ! j) \<and> tc_priority (sc_tcbs s ! j) = tc_queued (sc_tcbs s' ! j) \<and> (j \<notin> Y \<longrightarrow> tc_reasons (sc_tcbs s ! j) = 0)"
      using other [OF j(1)] j assms(3) hinvD(4,5) [OF assms(1) j(1)] by (auto simp: hard_def)
  qed
  then show ?thesis using s' other by blast
qed

lemma dequeue_hinv:
  assumes "hinv X g s"
  shows "dequeue_highest s = Some (s, None) \<and> (\<forall>i<length (sc_tcbs s). tc_queued (sc_tcbs s ! i) = NOT_QUEUED) \<or>
    (\<exists>s' i. dequeue_highest s = Some (s', Some i) \<and> i < length (sc_tcbs s) \<and> tc_queued (sc_tcbs s ! i) \<noteq> NOT_QUEUED \<and>
      tc_used (sc_tcbs s ! i) \<and> (i \<notin> X \<longrightarrow> tc_reasons (sc_tcbs s ! i) = 0) \<and>
      hinv X g s' \<and> requeued s s' \<and> tc_queued (sc_tcbs s' ! i) = NOT_QUEUED \<and>
      (\<forall>j<length (sc_tcbs s). j \<noteq> i \<longrightarrow> tc_queued (sc_tcbs s' ! j) = tc_queued (sc_tcbs s ! j)))"
proof -
  obtain rq where rq: "rq_inv s rq" using hinvD(1) [OF assms] by blast
  show ?thesis
  proof (cases rule: top_cases [of rq])
    case none
    have "tc_queued (sc_tcbs s ! i) = NOT_QUEUED" if "i < length (sc_tcbs s)" for i
      using rq_okD(5) [OF rq [unfolded rq_inv_def] that] queued_iff [OF rq that] none(2) by fastforce
    then show ?thesis using dequeue_highest_ok [OF rq] none(1) by simp
  next
    case (some p i xs)
    from dequeue_highest_ok [OF rq] some(3) obtain s' where s': "i < length (sc_tcbs s)" "tc_queued (sc_tcbs s ! i) \<noteq> NOT_QUEUED"
      "dequeue_highest s = Some (s', Some i)" "requeued s s'" "rq_inv s' (\<lambda>p. remove1 i (rq p))" "tc_queued (sc_tcbs s' ! i) = NOT_QUEUED" by auto
    note R = requeuedD [OF s'(4)]
    have other: "tc_queued (sc_tcbs s' ! j) = tc_queued (sc_tcbs s ! j)" if "j < length (sc_tcbs s)" "j \<noteq> i" for j
      by (rule queued_eq [OF rq s'(5) R(1) that(1)]) (use that(2) in auto)
    have "hinv X g s'"
    proof (rule hinv_requeue [OF assms s'(4,5)])
      fix j
      assume j: "j < length (sc_tcbs s)" "tc_queued (sc_tcbs s' ! j) \<noteq> NOT_QUEUED"
      then have "j \<noteq> i" using s'(6) by auto
      then show "tc_used (sc_tcbs s ! j) \<and> tc_priority (sc_tcbs s ! j) = tc_queued (sc_tcbs s' ! j) \<and> (j \<notin> X \<longrightarrow> tc_reasons (sc_tcbs s ! j) = 0)"
        using other [OF j(1)] j hinvD(4,5) [OF assms j(1)] by (auto simp: hard_def)
    qed
    then show ?thesis using s' other hinvD(4,5) [OF assms s'(1)] by (auto simp: hard_def)
  qed
qed

end
