(* ===== verification/SchedKeep.thy ===== *)
theory SchedKeep
  imports SchedInv
begin

text \<open>
  Every operation of the scheduler keeps the invariant \<open>sinv\<close> and, where it does not insist on a ready
  thread, never panics.
\<close>

section \<open>Common steps\<close>

lemma tcb_in: "i < length (sc_tcbs s) \<Longrightarrow> tcb s i = Some (sc_tcbs s ! i)"
  by (simp add: tcb_def table_simps)

lemma modt_in: "i < length (sc_tcbs s) \<Longrightarrow> modt s i f = Some (s\<lparr>sc_tcbs := (sc_tcbs s)[i := f (sc_tcbs s ! i)]\<rparr>)"
  by (simp add: modt_def table_simps)

lemma resolve_in:
  assumes "sch_resolve g s tid = Some i"
  shows "i < length (sc_tcbs s) \<and> tc_used (sc_tcbs s ! i) \<and> tc_gen (sc_tcbs s ! i) = t_gen tid"
  using assms by (auto simp: sch_resolve_def tcb_def tget_eq_Some_iff Let_def split: if_splits Option.bind_splits)

lemma cur_ok_requeue:
  assumes "cur_ok s" "requeued s s'" "hinv X g s" "\<And>c. sc_current s = Some c \<Longrightarrow> tc_queued (sc_tcbs s' ! c) = NOT_QUEUED"
  shows "cur_ok s'"
proof -
  note R = requeuedD [OF assms(2)]
  show ?thesis unfolding cur_ok_def R(5)
  proof (intro allI impI)
    fix c
    assume c: "sc_current s = Some c"
    note e = body_eqD [OF R(2) [OF hinvD(9) [OF assms(3) c]]]
    show "tc_used (sc_tcbs s' ! c) \<and> tc_queued (sc_tcbs s' ! c) = NOT_QUEUED \<and>
      \<not> br_has (tc_reasons (sc_tcbs s' ! c)) BR_IPC \<and> \<not> br_has (tc_reasons (sc_tcbs s' ! c)) BR_PARK"
      unfolding e using assms(1,4) c by (auto simp: cur_ok_def)
  qed
qed

lemma wecke_hinv:
  assumes "hinv X g s" "i < length (sc_tcbs s)" "tc_used (sc_tcbs s ! i)"
  shows "\<exists>s'. wecke_falls_lauffaehig s i = Some s' \<and> hinv X g s' \<and> requeued s s' \<and> (sc_current s = Some i \<longrightarrow> s' = s) \<and>
    (\<forall>j<length (sc_tcbs s). j \<noteq> i \<longrightarrow> tc_queued (sc_tcbs s' ! j) = tc_queued (sc_tcbs s ! j))"
proof (cases "tc_reasons (sc_tcbs s ! i) = 0 \<and> \<not> tc_depleted (sc_tcbs s ! i) \<and> sc_current s \<noteq> Some i")
  case True
  then show ?thesis using enqueue_hinv [OF assms] assms(2) by (auto simp: wecke_falls_lauffaehig_def tcb_in)
next
  case False
  then show ?thesis using assms(1,2) by (auto simp: wecke_falls_lauffaehig_def tcb_in)
qed

lemma wecke_sinv:
  assumes "sinv g s" "i < length (sc_tcbs s)" "tc_used (sc_tcbs s ! i)"
  shows "\<exists>s'. wecke_falls_lauffaehig s i = Some s' \<and> sinv g s' \<and> requeued s s'"
proof -
  have h: "hinv {} g s" and c: "cur_ok s" using assms(1) by (simp_all add: sinv_def)
  from wecke_hinv [OF h assms(2,3)] obtain s' where s': "wecke_falls_lauffaehig s i = Some s'" "hinv {} g s'" "requeued s s'"
    "sc_current s = Some i \<longrightarrow> s' = s" "\<forall>j<length (sc_tcbs s). j \<noteq> i \<longrightarrow> tc_queued (sc_tcbs s' ! j) = tc_queued (sc_tcbs s ! j)" by blast
  have "cur_ok s'"
  proof (rule cur_ok_requeue [OF c s'(3) h])
    fix d
    assume d: "sc_current s = Some d"
    then show "tc_queued (sc_tcbs s' ! d) = NOT_QUEUED"
      using c s'(4,5) hinvD(9) [OF h d] by (cases "d = i") (auto simp: cur_ok_def)
  qed
  then show ?thesis using s' assms(1) by (auto simp: sinv_def)
qed

text \<open>
  Changing one thread in a state with the full invariant: the reasons may only shrink on a queued thread,
  and the running thread must not get a reason to wait.
\<close>

lemma sinv_modt:
  assumes "sinv g s" "i < length (sc_tcbs s)" "links (f (sc_tcbs s ! i)) = links (sc_tcbs s ! i)"
    and "tc_used (f (sc_tcbs s ! i)) = tc_used (sc_tcbs s ! i)" "hard g (sc_core s) (length (sc_tcbs s)) i (f (sc_tcbs s ! i))"
    and "budget_blocked (f (sc_tcbs s ! i)) = budget_blocked (sc_tcbs s ! i)"
    and "tc_reasons (sc_tcbs s ! i) = 0 \<Longrightarrow> tc_reasons (f (sc_tcbs s ! i)) = 0"
    and "br_has (tc_reasons (f (sc_tcbs s ! i))) BR_IPC \<Longrightarrow> br_has (tc_reasons (sc_tcbs s ! i)) BR_IPC"
    and "br_has (tc_reasons (f (sc_tcbs s ! i))) BR_PARK \<Longrightarrow> br_has (tc_reasons (sc_tcbs s ! i)) BR_PARK"
  shows "sinv g (s\<lparr>sc_tcbs := (sc_tcbs s)[i := f (sc_tcbs s ! i)]\<rparr>)"
proof -
  have h: "hinv {} g s" and c: "cur_ok s" using assms(1) by (simp_all add: sinv_def)
  have q: "tc_queued (f (sc_tcbs s ! i)) = tc_queued (sc_tcbs s ! i)" using assms(3) by (simp add: links_def)
  have "hinv {} g (s\<lparr>sc_tcbs := (sc_tcbs s)[i := f (sc_tcbs s ! i)]\<rparr>)"
    using hinv_modt [where f = f and Y = "{}", OF h assms(2-6)] assms(7) hinvD(5) [OF h assms(2)] by auto
  moreover have "cur_ok (s\<lparr>sc_tcbs := (sc_tcbs s)[i := f (sc_tcbs s ! i)]\<rparr>)"
    using c assms(2,4,8,9) q by (auto simp: cur_ok_def nth_list_update)
  ultimately show ?thesis using assms(1) by (simp add: sinv_def)
qed

lemma run_next_ok:
  assumes "hinv {} g s"
  shows "(run_next s = None \<and> (\<forall>i<length (sc_tcbs s). tc_queued (sc_tcbs s ! i) = NOT_QUEUED)) \<or>
    (\<exists>s' f. run_next s = Some (s', f) \<and> hinv {} g s' \<and> cur_ok s')"
  using dequeue_hinv [OF assms]
proof
  assume "dequeue_highest s = Some (s, None) \<and> (\<forall>i<length (sc_tcbs s). tc_queued (sc_tcbs s ! i) = NOT_QUEUED)"
  then show ?thesis by (simp add: run_next_def)
next
  assume "\<exists>s' i. dequeue_highest s = Some (s', Some i) \<and> i < length (sc_tcbs s) \<and> tc_queued (sc_tcbs s ! i) \<noteq> NOT_QUEUED \<and>
      tc_used (sc_tcbs s ! i) \<and> (i \<notin> {} \<longrightarrow> tc_reasons (sc_tcbs s ! i) = 0) \<and>
      hinv {} g s' \<and> requeued s s' \<and> tc_queued (sc_tcbs s' ! i) = NOT_QUEUED \<and>
      (\<forall>j<length (sc_tcbs s). j \<noteq> i \<longrightarrow> tc_queued (sc_tcbs s' ! j) = tc_queued (sc_tcbs s ! j))"
  then obtain s' i where d: "dequeue_highest s = Some (s', Some i)" "i < length (sc_tcbs s)" "tc_used (sc_tcbs s ! i)"
    "tc_reasons (sc_tcbs s ! i) = 0" "hinv {} g s'" "requeued s s'" "tc_queued (sc_tcbs s' ! i) = NOT_QUEUED" by auto
  note R = requeuedD [OF d(6)]
  have i': "i < length (sc_tcbs s')" using d(2) R(1) by simp
  have "hinv {} g (s'\<lparr>sc_current := Some i\<rparr>)" using d(5) i' by (simp add: hinv_def)
  moreover have "cur_ok (s'\<lparr>sc_current := Some i\<rparr>)"
    using d(3,4,7) body_eqD(1,6) [OF R(2) [OF d(2)]] by (simp add: cur_ok_def)
  moreover have "run_next s = Some (s'\<lparr>sc_current := Some i\<rparr>, tc_sp (sc_tcbs s' ! i))"
    using d(1) i' by (simp add: run_next_def Let_def tcb_def table_simps)
  ultimately show ?thesis by blast
qed

text \<open>The result of an operation: \<open>keeps\<close> excludes a panic, \<open>keeps_if\<close> does not.\<close>

definition keeps :: "Statics \<Rightarrow> (Scheduler \<times> 'a) option \<Rightarrow> bool" where
  "keeps g r \<longleftrightarrow> (case r of None \<Rightarrow> False | Some (s, _) \<Rightarrow> sinv g s)"

definition keeps_if :: "Statics \<Rightarrow> (Scheduler \<times> 'a) option \<Rightarrow> bool" where
  "keeps_if g r \<longleftrightarrow> (case r of None \<Rightarrow> True | Some (s, _) \<Rightarrow> sinv g s)"

lemma keeps_Some [simp]: "keeps g (Some (s, r)) = sinv g s" "keeps_if g (Some (s, r)) = sinv g s" "keeps_if g None"
  by (simp_all add: keeps_def keeps_if_def)

lemma keeps_imp: "keeps g r \<Longrightarrow> keeps_if g r"
  by (auto simp: keeps_def keeps_if_def split: option.splits)

section \<open>Blocking and waking\<close>

text \<open>The reasons other than the two that only a running thread sets on itself.\<close>

definition outer :: "u16 \<Rightarrow> bool" where
  "outer g \<longleftrightarrow> g \<in> {BR_PAUSE, BR_HANDLER, BR_LOAD, BR_DEBUG, BR_FREEZE}"

lemma outer_has:
  "outer g \<Longrightarrow> \<not> br_has g BR_IPC \<and> \<not> br_has g BR_PARK \<and> \<not> br_has g BR_BUDGET"
  by (auto simp: outer_def br_has_def br_defs)

lemma br_remove_mono: "br_has (br_remove g r) h \<Longrightarrow> br_has r h"
proof -
  assume "br_has (br_remove g r) h"
  then have "(r AND NOT g) AND h \<noteq> 0" by (simp add: br_has_def br_remove_def)
  then have "(r AND h) AND NOT g \<noteq> 0" by (simp add: and.assoc and.commute and.left_commute)
  then show ?thesis unfolding br_has_def by (metis and.commute and_zero_eq)
qed

lemma block_keeps:
  assumes "sinv g s" "\<not> br_has grund BR_BUDGET"
  shows "keeps_if g (block_current_mit s frame grund)"
proof (cases "sc_current s")
  case None
  then show ?thesis by (simp add: block_current_mit_def)
next
  case (Some cur)
  have h: "hinv {} g s" and c: "cur_ok s" and gi: "g_inv g" using assms(1) by (simp_all add: sinv_def)
  let ?f = "\<lambda>t. t\<lparr>tc_sp := frame, tc_reasons := br_insert grund (tc_reasons t)\<rparr>"
  have cl: "cur < length (sc_tcbs s)" using hinvD(9) [OF h Some] .
  have hh: "hard g (sc_core s) (length (sc_tcbs s)) cur (?f (sc_tcbs s ! cur))" using hinvD(4) [OF h cl] by (simp add: hard_def)
  have nq: "tc_queued (sc_tcbs s ! cur) = NOT_QUEUED" using c Some by (simp add: cur_ok_def)
  have m: "modt s cur ?f = Some (s\<lparr>sc_tcbs := (sc_tcbs s)[cur := ?f (sc_tcbs s ! cur)]\<rparr>) \<and>
    hinv {} g (s\<lparr>sc_tcbs := (sc_tcbs s)[cur := ?f (sc_tcbs s ! cur)]\<rparr>)"
    by (rule hinv_modt [OF h cl]) (use hh nq assms(2) in \<open>simp_all add: links_def br_has_insert\<close>)
  from run_next_ok [OF conjunct2 [OF m]] m Some gi show ?thesis by (auto simp: block_current_mit_def sinv_def)
qed

lemma lift_keeps:
  assumes "sinv g s" "grund AND BR_BUDGET = 0"
  shows "keeps g (lift_reason g s tid grund)"
proof (cases "sch_resolve g s tid")
  case None
  then show ?thesis using assms(1) by (simp add: lift_reason_def)
next
  case (Some i)
  have i: "i < length (sc_tcbs s)" "tc_used (sc_tcbs s ! i)" using resolve_in [OF Some] by simp_all
  have h: "hinv {} g s" using assms(1) by (simp add: sinv_def)
  let ?f = "\<lambda>t. t\<lparr>tc_reasons := br_remove grund (tc_reasons t)\<rparr>"
  let ?s1 = "s\<lparr>sc_tcbs := (sc_tcbs s)[i := ?f (sc_tcbs s ! i)]\<rparr>"
  have "sinv g ?s1"
    by (rule sinv_modt [OF assms(1) i(1)])
      (use hinvD(4) [OF h i(1)] assms(2) in \<open>simp_all add: links_def br_has_remove br_remove_mono\<close>)
  then have "\<exists>s'. wecke_falls_lauffaehig ?s1 i = Some s' \<and> sinv g s' \<and> requeued ?s1 s'"
    by (rule wecke_sinv) (use i in simp_all)
  then show ?thesis using Some i by (auto simp: lift_reason_def modt_in)
qed

lemma stop_keeps:
  assumes "sinv g s" "outer grund"
  shows "keeps g (stop_for g s tid grund)"
proof (cases "sch_resolve g s tid")
  case None
  then show ?thesis using assms(1) by (simp add: stop_for_def)
next
  case (Some i)
  have i: "i < length (sc_tcbs s)" "tc_used (sc_tcbs s ! i)" using resolve_in [OF Some] by simp_all
  have h: "hinv {} g s" and c: "cur_ok s" using assms(1) by (simp_all add: sinv_def)
  let ?f = "\<lambda>t. t\<lparr>tc_reasons := br_insert grund (tc_reasons t)\<rparr>"
  let ?s1 = "s\<lparr>sc_tcbs := (sc_tcbs s)[i := ?f (sc_tcbs s ! i)]\<rparr>"
  note o = outer_has [OF assms(2)]
  have m: "modt s i ?f = Some ?s1 \<and> hinv {i} g ?s1"
    by (rule hinv_modt [OF h i(1)]) (use hinvD(4) [OF h i(1)] o in \<open>simp_all add: links_def br_has_insert\<close>)
  then obtain s' where s': "remove_from_ready ?s1 i = Some s'" "hinv {} g s'" "requeued ?s1 s'" "tc_queued (sc_tcbs s' ! i) = NOT_QUEUED"
    "\<forall>j<length (sc_tcbs ?s1). j \<noteq> i \<longrightarrow> tc_queued (sc_tcbs s' ! j) = tc_queued (sc_tcbs ?s1 ! j)"
    using remove_hinv [of "{i}" g ?s1 i "{}"] i by auto
  have c1: "cur_ok ?s1" using c i o by (auto simp: cur_ok_def nth_list_update br_has_insert)
  have "cur_ok s'"
  proof (rule cur_ok_requeue [OF c1 s'(3) conjunct2 [OF m]])
    fix d
    assume d: "sc_current ?s1 = Some d"
    then show "tc_queued (sc_tcbs s' ! d) = NOT_QUEUED"
      using c1 s'(4,5) hinvD(9) [OF conjunct2 [OF m] d] by (cases "d = i") (auto simp: cur_ok_def)
  qed
  then show ?thesis using Some m s' assms(1) by (auto simp: stop_for_def sinv_def)
qed

lemma sinv_scalars [simp]:
  "sinv g (s\<lparr>sc_now := a\<rparr>) = sinv g s" "sinv g (s\<lparr>sc_depletions := a\<rparr>) = sinv g s" "sinv g (s\<lparr>sc_refills := a\<rparr>) = sinv g s"
  "sinv g (s\<lparr>sc_cycle_source := src\<rparr>) = sinv g s" "sinv g (s\<lparr>sc_cyc_core := cy\<rparr>) = sinv g s" "sinv g (s\<lparr>sc_used := a\<rparr>) = sinv g s"
  "sinv g (s\<lparr>sc_depleted_count := a\<rparr>) = sinv g s" "sinv g (s\<lparr>sc_fristen_ueberlauf := a\<rparr>) = sinv g s"
  "sinv g (s\<lparr>sc_naechste_frist := a\<rparr>) = sinv g s" "sinv g (s\<lparr>sc_migrations_out := a\<rparr>) = sinv g s"
  "sinv g (s\<lparr>sc_migrations_in := a\<rparr>) = sinv g s"
  by (simp_all add: sinv_def)

lemma enqueue_sinv:
  assumes "sinv g s" "i < length (sc_tcbs s)" "tc_used (sc_tcbs s ! i)" "tc_reasons (sc_tcbs s ! i) = 0" "sc_current s \<noteq> Some i"
  shows "\<exists>s'. enqueue_ready s i = Some s' \<and> sinv g s' \<and> requeued s s'"
proof -
  have h: "hinv {} g s" and c: "cur_ok s" using assms(1) by (simp_all add: sinv_def)
  from enqueue_hinv [OF h assms(2,3)] assms(4) obtain s' where s': "enqueue_ready s i = Some s'" "hinv {} g s'" "requeued s s'"
    "\<forall>j<length (sc_tcbs s). j \<noteq> i \<longrightarrow> tc_queued (sc_tcbs s' ! j) = tc_queued (sc_tcbs s ! j)" by blast
  have "cur_ok s'"
  proof (rule cur_ok_requeue [OF c s'(3) h])
    fix d
    assume d: "sc_current s = Some d"
    then show "tc_queued (sc_tcbs s' ! d) = NOT_QUEUED" using c s'(4) hinvD(9) [OF h d] assms(5) by (auto simp: cur_ok_def)
  qed
  then show ?thesis using s' assms(1) by (auto simp: sinv_def)
qed

lemma bb_flip_has: "br_has (tc_reasons (bb_flip an t)) h \<longleftrightarrow> br_has (tc_reasons t) h" if "h \<in> {BR_IPC, BR_PARK}"
proof -
  have "BR_BUDGET AND h = 0" "\<not> br_has BR_BUDGET h" using that by (auto simp: br_has_def br_defs)
  then show ?thesis by (simp add: bb_flip_def br_has_insert br_has_remove)
qed

lemma cur_ok_upd:
  assumes "cur_ok s" "i < length (sc_tcbs s)" "tc_used v = tc_used (sc_tcbs s ! i)" "tc_queued v = tc_queued (sc_tcbs s ! i)"
    "br_has (tc_reasons v) BR_IPC \<Longrightarrow> br_has (tc_reasons (sc_tcbs s ! i)) BR_IPC" "br_has (tc_reasons v) BR_PARK \<Longrightarrow> br_has (tc_reasons (sc_tcbs s ! i)) BR_PARK"
  shows "cur_ok (s\<lparr>sc_tcbs := (sc_tcbs s)[i := v]\<rparr>)"
  using assms by (auto simp: cur_ok_def nth_list_update)

lemma sinv_bb:
  assumes "sinv g s" "i < length (sc_tcbs s)" "tc_used (sc_tcbs s ! i)" "tc_queued (sc_tcbs s ! i) = NOT_QUEUED"
  shows "\<exists>b. set_budget_blocked s i an = Some (s\<lparr>sc_tcbs := (sc_tcbs s)[i := bb_flip an (sc_tcbs s ! i)], sc_budget_blocked_count := b\<rparr>) \<and>
    sinv g (s\<lparr>sc_tcbs := (sc_tcbs s)[i := bb_flip an (sc_tcbs s ! i)], sc_budget_blocked_count := b\<rparr>)"
proof -
  have "hinv {} g s" "cur_ok s" using assms(1) by (simp_all add: sinv_def)
  moreover have "cur_ok (s\<lparr>sc_tcbs := (sc_tcbs s)[i := bb_flip an (sc_tcbs s ! i)]\<rparr>)"
    by (rule cur_ok_upd [OF \<open>cur_ok s\<close> assms(2)]) (simp_all only: bb_flip_has insert_iff simp_thms, simp_all add: bb_flip_def)
  moreover from set_bb_ok [OF \<open>hinv {} g s\<close> assms(2,3) disjI1 [OF assms(4)], of an] obtain b where
    "set_budget_blocked s i an = Some (s\<lparr>sc_tcbs := (sc_tcbs s)[i := bb_flip an (sc_tcbs s ! i)], sc_budget_blocked_count := b\<rparr>)"
    "hinv {} g (s\<lparr>sc_tcbs := (sc_tcbs s)[i := bb_flip an (sc_tcbs s ! i)], sc_budget_blocked_count := b\<rparr>)" by blast
  moreover have "g_inv g" using assms(1) by (simp add: sinv_def)
  ultimately show ?thesis by (auto simp: sinv_def cur_ok_def)
qed

lemma reasons_not_queued: "sinv g s \<Longrightarrow> i < length (sc_tcbs s) \<Longrightarrow> tc_reasons (sc_tcbs s ! i) \<noteq> 0 \<Longrightarrow> tc_queued (sc_tcbs s ! i) = NOT_QUEUED"
  using hinvD(5) [of "{}" g s i] unfolding sinv_def by blast

lemma unblock_keeps:
  assumes "sinv g s"
  shows "keeps g (unblock g s tid)"
proof (cases "sch_resolve g s tid")
  case None
  then show ?thesis using assms by (simp add: unblock_def)
next
  case (Some i)
  have i: "i < length (sc_tcbs s)" "tc_used (sc_tcbs s ! i)" using resolve_in [OF Some] by simp_all
  have h: "hinv {} g s" and c: "cur_ok s" using assms by (simp_all add: sinv_def)
  show ?thesis
  proof (cases "tc_reasons (sc_tcbs s ! i) = 0")
    case True
    then show ?thesis using Some i assms by (simp add: unblock_def tcb_in)
  next
    case False
    define acct where "acct = (case tc_sc_donor (sc_tcbs s ! i) of None \<Rightarrow> i | Some a \<Rightarrow> a)"
    have al: "acct < length (sc_tcbs s)" using hinvD(4) [OF h i(1)] i(1) by (auto simp: acct_def hard_def split: option.splits)
    let ?v = "(sc_tcbs s ! i)\<lparr>tc_reasons := br_remove BR_IPC (tc_reasons (sc_tcbs s ! i))\<rparr>"
    let ?s1 = "s\<lparr>sc_tcbs := (sc_tcbs s)[i := ?v]\<rparr>"
    have b: "BR_IPC AND BR_BUDGET = 0" by (simp add: br_defs)
    have s1: "sinv g ?s1"
      by (rule sinv_modt [OF assms i(1), where f = "\<lambda>t. t\<lparr>tc_reasons := br_remove BR_IPC (tc_reasons t)\<rparr>"])
        (use hinvD(4) [OF h i(1)] b in \<open>simp_all add: links_def br_has_remove br_remove_mono\<close>)
    have nq: "tc_queued (sc_tcbs s ! i) = NOT_QUEUED" using reasons_not_queued [OF assms i(1) False] .
    show ?thesis
    proof (cases "acct \<noteq> i \<and> tc_depleted (sc_tcbs s ! acct)")
      case True
      from sinv_bb [OF s1, of i True] i nq obtain s2 where "set_budget_blocked ?s1 i True = Some s2" "sinv g s2" by auto
      then show ?thesis using Some i False al True by (simp add: unblock_def tcb_in modt_in acct_def [symmetric] Let_def)
    next
      case nd: False
      show ?thesis
      proof (cases "br_remove BR_IPC (tc_reasons (sc_tcbs s ! i)) = 0 \<and> \<not> tc_depleted (sc_tcbs s ! i)")
        case True
        have "sc_current s \<noteq> Some i"
        proof
          assume "sc_current s = Some i"
          then have "br_remove BR_IPC (tc_reasons (sc_tcbs s ! i)) = tc_reasons (sc_tcbs s ! i)"
            using c by (simp add: cur_ok_def br_remove_absent)
          then show False using True False by simp
        qed
        then have "\<exists>s'. enqueue_ready ?s1 i = Some s' \<and> sinv g s' \<and> requeued ?s1 s'"
          by (intro enqueue_sinv [OF s1]) (use i True in simp_all)
        then show ?thesis using Some i False al nd True by (auto simp: unblock_def tcb_in modt_in acct_def [symmetric] Let_def)
      next
        case ne: False
        then show ?thesis using Some i False al nd s1 by (auto simp: unblock_def tcb_in modt_in acct_def [symmetric] Let_def)
      qed
    qed
  qed
qed

end
