(* ===== verification/SchedWake.thy ===== *)
theory SchedWake
  imports SchedKeep
begin

text \<open>
  The invariant under the operations that hand over the processor, park, change attributes of a thread,
  count cycles and time, arm and serve deadlines and release debugged threads.
\<close>

section \<open>Rules\<close>

lemma for_slots_rule:
  assumes "\<And>i st. i \<in> set is' \<Longrightarrow> P st \<Longrightarrow> \<exists>st'. f i st = Some st' \<and> P st'" "P st"
  shows "\<exists>st'. for_slots f is' st = Some st' \<and> P st'"
  using assms
proof (induction is' arbitrary: st)
  case (Cons i is')
  then obtain st1 where "f i st = Some st1" "P st1" by (metis list.set_intros(1))
  then show ?case using Cons.IH [of st1] Cons.prems(1) by auto
qed simp

lemma hinv_attr:
  assumes "hinv X g s" "i < length (sc_tcbs s)" "links v = links (sc_tcbs s ! i)" "tc_used v = tc_used (sc_tcbs s ! i)"
    "tc_reasons v = tc_reasons (sc_tcbs s ! i)" "hard g (sc_core s) (length (sc_tcbs s)) i v"
  shows "hinv X g (s\<lparr>sc_tcbs := (sc_tcbs s)[i := v]\<rparr>)"
  using hinv_modt [where f = "\<lambda>_. v" and Y = X, OF assms(1,2)] assms(3-6) hinvD(5) [OF assms(1,2)] by auto

lemma sinv_attr:
  assumes "sinv g s" "i < length (sc_tcbs s)" "links v = links (sc_tcbs s ! i)" "tc_used v = tc_used (sc_tcbs s ! i)"
    "tc_reasons v = tc_reasons (sc_tcbs s ! i)" "hard g (sc_core s) (length (sc_tcbs s)) i v"
  shows "sinv g (s\<lparr>sc_tcbs := (sc_tcbs s)[i := v]\<rparr>)"
  using sinv_modt [where f = "\<lambda>_. v", OF assms(1,2)] assms(3-6) by simp

lemma sinvD:
  assumes "sinv g s"
  shows "hinv {} g s" "cur_ok s" "g_inv g"
    "\<And>i. i < length (sc_tcbs s) \<Longrightarrow> hard g (sc_core s) (length (sc_tcbs s)) i (sc_tcbs s ! i)"
    "\<And>c. sc_current s = Some c \<Longrightarrow> c < length (sc_tcbs s)"
    "\<And>i a. i < length (sc_tcbs s) \<Longrightarrow> tc_sc_donor (sc_tcbs s ! i) = Some a \<Longrightarrow> a < length (sc_tcbs s)"
  using assms hinvD(4,9) [of "{}" g s] by (auto simp: sinv_def hard_def)

lemma hard_fields [simp]:
  "hard g c n i (t\<lparr>tc_sp := a\<rparr>) = hard g c n i t" "hard g c n i (t\<lparr>tc_tls := a\<rparr>) = hard g c n i t"
  "hard g c n i (t\<lparr>tc_handler := h\<rparr>) = hard g c n i t" "hard g c n i (t\<lparr>tc_park_wake := b\<rparr>) = hard g c n i t"
  "hard g c n i (t\<lparr>tc_sc_donee := d\<rparr>) = hard g c n i t" "hard g c n i (t\<lparr>tc_stamp := st\<rparr>) = hard g c n i t"
  "hard g c n i (t\<lparr>tc_cyc := cy\<rparr>) = hard g c n i t" "hard g c n i (t\<lparr>tc_frist := fr\<rparr>) = hard g c n i t"
  "hard g c n i (t\<lparr>tc_remaining := r\<rparr>) = hard g c n i t" "hard g c n i (t\<lparr>tc_depleted := b\<rparr>) = hard g c n i t"
  "hard g c n i (t\<lparr>tc_next_refill := nr\<rparr>) = hard g c n i t" "hard g c n i (t\<lparr>tc_budget := r\<rparr>) = hard g c n i t"
  "hard g c n i (t\<lparr>tc_period := r\<rparr>) = hard g c n i t" "hard g c n i (t\<lparr>tc_admitted := b\<rparr>) = hard g c n i t"
  "hard g c n i (t\<lparr>tc_stack_base := a\<rparr>) = hard g c n i t" "hard g c n i (t\<lparr>tc_stack_len := a\<rparr>) = hard g c n i t"
  by (simp_all add: hard_def)

lemma hard_donor [simp]:
  "hard g c n i t \<Longrightarrow> hard g c n i (t\<lparr>tc_sc_donor := None\<rparr>)" "hard g c n i t \<Longrightarrow> a < n \<Longrightarrow> hard g c n i (t\<lparr>tc_sc_donor := Some a\<rparr>)"
  by (simp_all add: hard_def)

lemma hard_grund [simp]:
  "hard g c n i t \<Longrightarrow> b \<in> {0, BR_IPC, BR_PARK} \<Longrightarrow> hard g c n i (t\<lparr>tc_frist_grund := b\<rparr>)"
  by (simp add: hard_def)

lemma links_fields [simp]:
  "links (t\<lparr>tc_sp := a\<rparr>) = links t" "links (t\<lparr>tc_tls := a\<rparr>) = links t"
  "links (t\<lparr>tc_handler := h\<rparr>) = links t" "links (t\<lparr>tc_park_wake := b\<rparr>) = links t"
  "links (t\<lparr>tc_sc_donee := d\<rparr>) = links t" "links (t\<lparr>tc_sc_donor := d\<rparr>) = links t" "links (t\<lparr>tc_stamp := st\<rparr>) = links t"
  "links (t\<lparr>tc_cyc := cy\<rparr>) = links t" "links (t\<lparr>tc_frist := fr\<rparr>) = links t" "links (t\<lparr>tc_frist_grund := gr\<rparr>) = links t"
  "links (t\<lparr>tc_remaining := r\<rparr>) = links t" "links (t\<lparr>tc_depleted := b\<rparr>) = links t"
  "links (t\<lparr>tc_next_refill := nr\<rparr>) = links t" "links (t\<lparr>tc_budget := r\<rparr>) = links t"
  "links (t\<lparr>tc_period := r\<rparr>) = links t" "links (t\<lparr>tc_admitted := b\<rparr>) = links t" "links (t\<lparr>tc_reasons := rs\<rparr>) = links t"
  "links (t\<lparr>tc_stack_base := a\<rparr>) = links t" "links (t\<lparr>tc_stack_len := a\<rparr>) = links t"
  by (simp_all add: links_def)

section \<open>Handing over the processor\<close>

lemma BR_IPC_PARK_BUDGET [simp]:
  "BR_IPC AND BR_BUDGET = 0" "\<not> br_has BR_IPC BR_BUDGET" "BR_PARK AND BR_BUDGET = 0" "\<not> br_has BR_PARK BR_BUDGET"
  by (simp_all add: br_has_def br_defs)

lemma cur_blocked:
  assumes "sinv g s" "sc_current s = Some cur" "\<not> br_has grund BR_BUDGET"
    "t1 = (sc_tcbs s ! cur)\<lparr>tc_sp := frame, tc_reasons := br_insert grund (tc_reasons (sc_tcbs s ! cur))\<rparr>"
  shows "hinv {} g (s\<lparr>sc_tcbs := (sc_tcbs s)[cur := t1]\<rparr>)"
proof -
  have cl: "cur < length (sc_tcbs s)" using sinvD(5) [OF assms(1,2)] .
  have nq: "tc_queued (sc_tcbs s ! cur) = NOT_QUEUED" using sinvD(2) [OF assms(1)] assms(2) by (simp add: cur_ok_def)
  have "hard g (sc_core s) (length (sc_tcbs s)) cur t1" using sinvD(4) [OF assms(1) cl] by (simp add: assms(4) hard_def)
  then show ?thesis
    using hinv_modt [where f = "\<lambda>_. t1" and Y = "{}", OF sinvD(1) [OF assms(1)] cl] nq assms(3)
    by (simp add: assms(4) links_def br_has_insert)
qed

lemma switch_keeps:
  assumes "sinv g s"
  shows "keeps_if g (switch_to g s frame target)"
proof (cases "sc_current s")
  case None
  then show ?thesis by (simp add: switch_to_def)
next
  case (Some cur)
  define s1 where "s1 = s\<lparr>sc_tcbs := (sc_tcbs s)[cur := (sc_tcbs s ! cur)\<lparr>tc_sp := frame, tc_reasons := br_insert BR_IPC (tc_reasons (sc_tcbs s ! cur))\<rparr>]\<rparr>"
  have cl: "cur < length (sc_tcbs s)" using sinvD(5) [OF assms Some] .
  have h1: "hinv {} g s1" unfolding s1_def by (rule cur_blocked [OF assms Some _ refl]) simp
  have e1: "modt s cur (\<lambda>t. t\<lparr>tc_sp := frame, tc_reasons := br_insert BR_IPC (tc_reasons t)\<rparr>) = Some s1"
    using cl by (simp add: modt_in s1_def)
  show ?thesis
  proof (cases "sch_resolve g s1 target")
    case None
    then show ?thesis by (simp add: switch_to_def Some e1)
  next
    case r: (Some t)
    have t: "t < length (sc_tcbs s1)" "tc_used (sc_tcbs s1 ! t)" using resolve_in [OF r] by simp_all
    define s2 where "s2 = s1\<lparr>sc_tcbs := (sc_tcbs s1)[t := (sc_tcbs s1 ! t)\<lparr>tc_reasons := br_remove BR_IPC (tc_reasons (sc_tcbs s1 ! t))\<rparr>]\<rparr>"
    have m: "modt s1 t (\<lambda>t. t\<lparr>tc_reasons := br_remove BR_IPC (tc_reasons t)\<rparr>) = Some s2 \<and> hinv {} g s2"
      unfolding s2_def by (rule hinv_modt [OF h1 t(1)])
        (use hinvD(4,5) [OF h1 t(1)] in \<open>simp_all add: br_has_remove\<close>)
    have t2: "t < length (sc_tcbs s2)" "tc_used (sc_tcbs s2 ! t)" and c2: "cur < length (sc_tcbs s2)"
      using t cl by (simp_all add: s2_def s1_def)
    show ?thesis
    proof (cases "tc_reasons (sc_tcbs s2 ! t) = 0")
      case False
      then have "switch_to g s frame target = run_next s2" using Some e1 r m t2 by (simp add: switch_to_def tcb_in)
      then show ?thesis using run_next_ok [OF conjunct2 [OF m]] sinvD(3) [OF assms] by (auto simp: sinv_def)
    next
      case True
      from remove_hinv [OF conjunct2 [OF m] t2(1), of "{}"] obtain s3 where s3: "remove_from_ready s2 t = Some s3" "hinv {} g s3"
        "requeued s2 s3" "tc_queued (sc_tcbs s3 ! t) = NOT_QUEUED" by auto
      note R = requeuedD [OF s3(3)]
      define account where "account = (case tc_sc_donor (sc_tcbs s3 ! cur) of None \<Rightarrow> cur | Some a \<Rightarrow> a)"
      define s4 where "s4 = s3\<lparr>sc_tcbs := (sc_tcbs s3)[t := (sc_tcbs s3 ! t)\<lparr>tc_sc_donor := Some account\<rparr>]\<rparr>"
      define s5 where "s5 = s4\<lparr>sc_tcbs := (sc_tcbs s4)[account := (sc_tcbs s4 ! account)\<lparr>tc_sc_donee := Some t\<rparr>]\<rparr>"
      have b: "t < length (sc_tcbs s3)" "cur < length (sc_tcbs s3)" using t2 c2 R(1) by simp_all
      have al: "account < length (sc_tcbs s3)"
        using hinvD(4) [OF s3(2) b(2)] b(2) by (auto simp: account_def hard_def split: option.splits)
      have h4: "hinv {} g s4" unfolding s4_def by (rule hinv_attr [OF s3(2) b(1)]) (use hinvD(4) [OF s3(2) b(1)] al in simp_all)
      have a4: "account < length (sc_tcbs s4)" using al by (simp add: s4_def)
      have h5: "hinv {} g s5" unfolding s5_def by (rule hinv_attr [OF h4 a4]) (use hinvD(4) [OF h4 a4] in simp_all)
      have t5: "t < length (sc_tcbs s5)" using b by (simp add: s5_def s4_def)
      have "tc_used (sc_tcbs s5 ! t) \<and> tc_queued (sc_tcbs s5 ! t) = NOT_QUEUED \<and> tc_reasons (sc_tcbs s5 ! t) = 0"
        using s3(4) t2(2) True b al body_eqD(1,6) [OF R(2) [OF t2(1)]] by (auto simp: s5_def s4_def nth_list_update)
      then have "cur_ok (s5\<lparr>sc_current := Some t\<rparr>)" by (simp add: cur_ok_def)
      moreover have "hinv {} g (s5\<lparr>sc_current := Some t\<rparr>)" using h5 t5 by (simp add: hinv_def)
      moreover have "switch_to g s frame target = Some (s5\<lparr>sc_current := Some t\<rparr>, tc_sp (sc_tcbs s5 ! t))"
        using Some e1 r m t2 True s3(1) b al a4 t5
        by (simp add: switch_to_def tcb_in modt_in account_def [symmetric] s4_def [symmetric] s5_def [symmetric] Let_def)
      ultimately show ?thesis using sinvD(3) [OF assms] by (simp add: sinv_def)
    qed
  qed
qed

lemma park_keeps:
  assumes "sinv g s"
  shows "keeps_if g (park_current s frame)"
proof (cases "sc_current s")
  case None
  then show ?thesis by (simp add: park_current_def)
next
  case (Some cur)
  have cl: "cur < length (sc_tcbs s)" using sinvD(5) [OF assms Some] .
  show ?thesis
  proof (cases "tc_park_wake (sc_tcbs s ! cur)")
    case True
    have "sinv g (s\<lparr>sc_tcbs := (sc_tcbs s)[cur := (sc_tcbs s ! cur)\<lparr>tc_park_wake := False\<rparr>]\<rparr>)"
      by (rule sinv_attr [OF assms cl]) (use sinvD(4) [OF assms cl] in simp_all)
    then show ?thesis using Some cl True by (simp add: park_current_def tcb_in modt_in)
  next
    case False
    have "keeps_if g (block_current_mit s frame BR_PARK)" by (rule block_keeps [OF assms]) simp
    then show ?thesis using Some cl False
      by (cases "block_current_mit s frame BR_PARK") (auto simp: park_current_def tcb_in)
  qed
qed

lemma unpark_keeps:
  assumes "sinv g s"
  shows "keeps g (unpark g s tid)"
proof (cases "sch_resolve g s tid")
  case None
  then show ?thesis using assms by (simp add: unpark_def)
next
  case (Some i)
  have i: "i < length (sc_tcbs s)" "tc_used (sc_tcbs s ! i)" using resolve_in [OF Some] by simp_all
  let ?s1 = "s\<lparr>sc_tcbs := (sc_tcbs s)[i := (sc_tcbs s ! i)\<lparr>tc_park_wake := True\<rparr>]\<rparr>"
  have s1: "sinv g ?s1" by (rule sinv_attr [OF assms i(1)]) (use sinvD(4) [OF assms i(1)] in simp_all)
  show ?thesis
  proof (cases "br_has (tc_reasons (sc_tcbs s ! i)) BR_PARK")
    case False
    then show ?thesis using s1 Some i by (simp add: unpark_def tcb_in modt_in)
  next
    case True
    let ?v = "(sc_tcbs s ! i)\<lparr>tc_park_wake := False, tc_reasons := br_remove BR_PARK (tc_reasons (sc_tcbs s ! i))\<rparr>"
    let ?s2 = "s\<lparr>sc_tcbs := (sc_tcbs s)[i := ?v]\<rparr>"
    have "sinv g ?s2"
      by (rule sinv_modt [where f = "\<lambda>_. ?v", OF assms i(1)])
        (use sinvD(4) [OF assms i(1)] in \<open>simp_all add: br_has_remove br_remove_mono\<close>)
    then have "\<exists>s'. wecke_falls_lauffaehig ?s2 i = Some s' \<and> sinv g s' \<and> requeued ?s2 s'"
      by (rule wecke_sinv) (use i in simp_all)
    then show ?thesis using True Some i by (auto simp: unpark_def tcb_in modt_in)
  qed
qed

section \<open>Attributes, cycle accounts and donation\<close>

lemma set_attr_keeps:
  assumes "sinv g s" "\<And>t. links (f t) = links t \<and> tc_used (f t) = tc_used t \<and> tc_reasons (f t) = tc_reasons t"
    "\<And>c n i t. hard g c n i t \<Longrightarrow> hard g c n i (f t)"
  shows "keeps g (set_attr g s tid f)"
proof (cases "sch_resolve g s tid")
  case (Some i)
  have i: "i < length (sc_tcbs s)" using resolve_in [OF Some] by simp
  have "sinv g (s\<lparr>sc_tcbs := (sc_tcbs s)[i := f (sc_tcbs s ! i)]\<rparr>)"
    by (rule sinv_attr [OF assms(1) i]) (use assms(2,3) sinvD(4) [OF assms(1) i] in simp_all)
  then show ?thesis using Some i by (simp add: set_attr_def modt_in)
qed (use assms(1) in \<open>simp add: set_attr_def\<close>)

lemma set_tls_keeps: "sinv g s \<Longrightarrow> keeps g (set_tls g s tid va)"
  unfolding set_tls_def by (rule set_attr_keeps) simp_all

lemma set_handler_keeps: "sinv g s \<Longrightarrow> keeps g (set_handler g s tid b)"
  unfolding set_handler_def by (rule set_attr_keeps) simp_all

lemma frist_loeschen_keeps: "sinv g s \<Longrightarrow> keeps g (frist_loeschen g s tid)"
  unfolding frist_loeschen_def by (rule set_attr_keeps) simp_all

text \<open>Operations without a result value.\<close>

definition keeps1 :: "Statics \<Rightarrow> Scheduler option \<Rightarrow> bool" where
  "keeps1 g r \<longleftrightarrow> (case r of None \<Rightarrow> False | Some s \<Rightarrow> sinv g s)"

lemma keeps1_Some [simp]: "keeps1 g (Some s) = sinv g s" "\<not> keeps1 g None"
  by (simp_all add: keeps1_def)

lemma account_ok:
  assumes "sinv g s" "cur < length (sc_tcbs s)"
  shows "\<exists>a. account_of s cur = Some a \<and> a < length (sc_tcbs s)"
  using sinvD(6) [OF assms] assms(2) by (auto simp: account_of_def tcb_in split: option.splits)

lemma charge_current_keeps:
  assumes "sinv g s"
  shows "keeps1 g (charge_current s core now)"
proof (cases "sc_current s")
  case None
  then show ?thesis using assms by (simp add: charge_current_def)
next
  case (Some cur)
  have cl: "cur < length (sc_tcbs s)" using sinvD(5) [OF assms Some] .
  show ?thesis
  proof (cases "tc_stamp (sc_tcbs s ! cur)")
    case None
    then show ?thesis using assms Some cl by (simp add: charge_current_def tcb_in)
  next
    case st: (Some prev)
    define s1 where "s1 = s\<lparr>sc_tcbs := (sc_tcbs s)[cur := (sc_tcbs s ! cur)\<lparr>tc_stamp := None\<rparr>]\<rparr>"
    have s1: "sinv g s1" unfolding s1_def by (rule sinv_attr [OF assms cl]) (use sinvD(4) [OF assms cl] in simp_all)
    from account_ok [OF s1, of cur] cl obtain a where a: "account_of s1 cur = Some a" "a < length (sc_tcbs s1)" by (auto simp: s1_def)
    have "sinv g (s1\<lparr>sc_tcbs := (sc_tcbs s1)[a := (sc_tcbs s1 ! a)\<lparr>tc_cyc := cy\<rparr>]\<rparr>)" for cy
      by (rule sinv_attr [OF s1 a(2)]) (use sinvD(4) [OF s1 a(2)] in simp_all)
    moreover have "modt s cur (\<lambda>t. t\<lparr>tc_stamp := None\<rparr>) = Some s1" using cl by (simp add: modt_in s1_def)
    ultimately show ?thesis using Some st cl a by (simp add: charge_current_def tcb_in modt_in Let_def)
  qed
qed

lemma stamp_current_keeps: "sinv g s \<Longrightarrow> keeps1 g (stamp_current s core now)"
proof (cases "sc_current s")
  case (Some cur)
  assume a: "sinv g s"
  have cl: "cur < length (sc_tcbs s)" using sinvD(5) [OF a Some] .
  have "sinv g (s\<lparr>sc_tcbs := (sc_tcbs s)[cur := (sc_tcbs s ! cur)\<lparr>tc_stamp := st\<rparr>]\<rparr>)" for st
    by (rule sinv_attr [OF a cl]) (use sinvD(4) [OF a cl] in simp_all)
  then show ?thesis using Some cl by (simp add: stamp_current_def modt_in)
qed (simp add: stamp_current_def)

lemma donee_self: "\<exists>d. t = t\<lparr>tc_sc_donee := d\<rparr>"
  by (rule exI [of _ "tc_sc_donee t"]) simp

lemma clear_donee_hinv:
  assumes "hinv X g s" "\<And>a. donor = Some a \<Longrightarrow> a < length (sc_tcbs s)"
  shows "\<exists>s'. clear_donee s donor i = Some s' \<and> hinv X g s' \<and> s' = s\<lparr>sc_tcbs := sc_tcbs s'\<rparr> \<and> length (sc_tcbs s') = length (sc_tcbs s) \<and>
    (\<forall>j<length (sc_tcbs s). \<exists>d. sc_tcbs s' ! j = (sc_tcbs s ! j)\<lparr>tc_sc_donee := d\<rparr>)"
proof (cases donor)
  case None
  then show ?thesis using assms(1) by (auto simp: clear_donee_def intro: donee_self)
next
  case (Some a)
  have al: "a < length (sc_tcbs s)" using assms(2) [OF Some] .
  show ?thesis
  proof (cases "tc_sc_donee (sc_tcbs s ! a) = Some i")
    case False
    then show ?thesis using assms(1) Some al by (auto simp: clear_donee_def tcb_in intro: donee_self)
  next
    case True
    let ?s' = "s\<lparr>sc_tcbs := (sc_tcbs s)[a := (sc_tcbs s ! a)\<lparr>tc_sc_donee := None\<rparr>]\<rparr>"
    have "hinv X g ?s'" by (rule hinv_attr [OF assms(1) al]) (use hinvD(4) [OF assms(1) al] in simp_all)
    moreover have "\<exists>d. sc_tcbs ?s' ! j = (sc_tcbs s ! j)\<lparr>tc_sc_donee := d\<rparr>" for j
      using al by (cases "j = a") (auto intro: donee_self)
    ultimately show ?thesis using Some al True by (auto simp: clear_donee_def tcb_in modt_in)
  qed
qed

lemma clear_donee_keeps:
  assumes "sinv g s" "\<And>a. donor = Some a \<Longrightarrow> a < length (sc_tcbs s)"
  shows "keeps1 g (clear_donee s donor i)"
proof -
  from clear_donee_hinv [OF sinvD(1) [OF assms(1)] assms(2), of donor i] obtain s' where
    s': "clear_donee s donor i = Some s'" "hinv {} g s'" "s' = s\<lparr>sc_tcbs := sc_tcbs s'\<rparr>" "length (sc_tcbs s') = length (sc_tcbs s)"
    "\<forall>j<length (sc_tcbs s). \<exists>d. sc_tcbs s' ! j = (sc_tcbs s ! j)\<lparr>tc_sc_donee := d\<rparr>" by blast
  have c: "sc_current s' = sc_current s" by (subst s'(3)) simp
  have "cur_ok s'" unfolding cur_ok_def
  proof (intro allI impI)
    fix d assume d: "sc_current s' = Some d"
    then have "d < length (sc_tcbs s)" using c sinvD(5) [OF assms(1)] by simp
    then obtain x where "sc_tcbs s' ! d = (sc_tcbs s ! d)\<lparr>tc_sc_donee := x\<rparr>" using s'(5) by blast
    then show "tc_used (sc_tcbs s' ! d) \<and> tc_queued (sc_tcbs s' ! d) = NOT_QUEUED \<and>
         \<not> br_has (tc_reasons (sc_tcbs s' ! d)) BR_IPC \<and> \<not> br_has (tc_reasons (sc_tcbs s' ! d)) BR_PARK"
      using sinvD(2) [OF assms(1)] d c by (simp add: cur_ok_def)
  qed
  then show ?thesis using s'(1,2) sinvD(3) [OF assms(1)] by (simp add: sinv_def)
qed

lemma end_donation_keeps:
  assumes "sinv g s"
  shows "keeps1 g (end_donation s)"
proof (cases "sc_current s")
  case None
  then show ?thesis using assms by (simp add: end_donation_def)
next
  case (Some cur)
  have cl: "cur < length (sc_tcbs s)" using sinvD(5) [OF assms Some] .
  show ?thesis
  proof (cases "tc_sc_donor (sc_tcbs s ! cur)")
    case None
    then show ?thesis using assms Some cl by (simp add: end_donation_def tcb_in)
  next
    case a: (Some acct)
    let ?s1 = "s\<lparr>sc_tcbs := (sc_tcbs s)[cur := (sc_tcbs s ! cur)\<lparr>tc_sc_donor := None\<rparr>]\<rparr>"
    have "sinv g ?s1" by (rule sinv_attr [OF assms cl]) (use sinvD(4) [OF assms cl] in simp_all)
    then have "keeps1 g (clear_donee ?s1 (Some acct) cur)"
      by (rule clear_donee_keeps) (use sinvD(6) [OF assms cl a] in simp)
    then show ?thesis using Some cl a by (simp add: end_donation_def tcb_in modt_in)
  qed
qed

section \<open>Deadlines and the release of debugged threads\<close>

lemma frist_setzen_keeps:
  assumes "sinv g s" "grund \<in> {BR_IPC, BR_PARK}"
  shows "case frist_setzen s ticks grund of None \<Rightarrow> sc_current s = None | Some s' \<Rightarrow> sinv g s'"
proof (cases "sc_current s")
  case None
  then show ?thesis by (simp add: frist_setzen_def)
next
  case (Some cur)
  have cl: "cur < length (sc_tcbs s)" using sinvD(5) [OF assms(1) Some] .
  have "sinv g (s\<lparr>sc_tcbs := (sc_tcbs s)[cur := (sc_tcbs s ! cur)\<lparr>tc_frist := d, tc_frist_grund := gr\<rparr>]\<rparr>)" if "gr \<in> {0, BR_IPC, BR_PARK}" for d gr
    by (rule sinv_attr [OF assms(1) cl]) (use sinvD(4) [OF assms(1) cl] that in simp_all)
  then show ?thesis using Some cl assms(2) by (simp add: frist_setzen_def modt_in Let_def)
qed

lemma frist_one_keeps:
  assumes "sinv g s" "i < length (sc_tcbs s)"
  shows "\<exists>s' out' n'. frist_one cap i (s, out, n) = Some (s', out', n') \<and> sinv g s' \<and> length (sc_tcbs s') = length (sc_tcbs s)"
proof -
  let ?t = "sc_tcbs s ! i"
  have h: "hard g (sc_core s) (length (sc_tcbs s)) i ?t" using sinvD(4) [OF assms] .
  have s1: "sinv g (s\<lparr>sc_tcbs := (sc_tcbs s)[i := ?t\<lparr>tc_frist := 0, tc_frist_grund := 0\<rparr>]\<rparr>)"
    by (rule sinv_attr [OF assms]) (use h in simp_all)
  show ?thesis
  proof (cases "\<not> tc_used ?t \<or> tc_frist ?t = 0")
    case True
    then show ?thesis using assms by (auto simp: frist_one_def tcb_in)
  next
    case u: False
    show ?thesis
    proof (cases "frist_befund (sc_now s) (tc_frist ?t) (br_has (tc_reasons ?t) (tc_frist_grund ?t)) (length out = cap)")
      case Freigeben
      let ?v = "?t\<lparr>tc_frist := 0, tc_frist_grund := 0, tc_reasons := br_remove (tc_frist_grund ?t) (tc_reasons ?t)\<rparr>"
      let ?s1 = "s\<lparr>sc_tcbs := (sc_tcbs s)[i := ?v]\<rparr>"
      have b: "br_has (tc_reasons ?t) (tc_frist_grund ?t)"
        using Freigeben by (auto simp: frist_befund_def split: if_splits)
      have gr: "tc_frist_grund ?t \<in> {BR_IPC, BR_PARK}" using h b by (auto simp: hard_def br_has_def)
      have s1: "sinv g ?s1"
        by (rule sinv_modt [where f = "\<lambda>_. ?v", OF assms]) (use h gr in \<open>auto simp: br_has_remove br_remove_mono\<close>)
      have nc: "sc_current s \<noteq> Some i" using sinvD(2) [OF assms(1)] b gr by (auto simp: cur_ok_def)
      have "\<exists>s2. (if tc_reasons ?v = 0 \<and> tc_queued ?v = NOT_QUEUED then enqueue_ready ?s1 i else Some ?s1) = Some s2 \<and>
        sinv g s2 \<and> length (sc_tcbs s2) = length (sc_tcbs s)"
      proof (cases "tc_reasons ?v = 0 \<and> tc_queued ?v = NOT_QUEUED")
        case True
        then have "\<exists>s'. enqueue_ready ?s1 i = Some s' \<and> sinv g s' \<and> requeued ?s1 s'"
          by (intro enqueue_sinv [OF s1]) (use assms u nc in auto)
        then show ?thesis using True requeuedD(1) by fastforce
      qed (use s1 in auto)
      then show ?thesis using u Freigeben assms by (auto simp: frist_one_def tcb_in modt_in sch_id_def)
    qed (use u assms s1 in \<open>simp_all add: frist_one_def tcb_in modt_in\<close>)
  qed
qed

lemma fristen_faellig_keeps:
  assumes "sinv g s"
  shows "keeps g (fristen_faellig s cap)"
proof (cases "sc_now s < sc_naechste_frist s")
  case True
  then show ?thesis using assms by (simp add: fristen_faellig_def)
next
  case False
  let ?P = "\<lambda>st :: Scheduler \<times> ThreadId list \<times> u64. sinv g (fst st) \<and> length (sc_tcbs (fst st)) = length (sc_tcbs s)"
  have "\<exists>st'. for_slots (frist_one cap) [0..<length (sc_tcbs s)] (s, [], - 1) = Some st' \<and> ?P st'"
  proof (rule for_slots_rule)
    fix i st
    assume a: "i \<in> set [0..<length (sc_tcbs s)]" "?P st"
    then show "\<exists>st'. frist_one cap i st = Some st' \<and> ?P st'"
      using frist_one_keeps [of g "fst st" i cap "fst (snd st)" "snd (snd st)"] by (auto simp: prod_eq_iff)
  qed (use assms in simp)
  then show ?thesis using False by (auto simp: fristen_faellig_def)
qed

lemma debug_release_keeps:
  assumes "sinv g s"
  shows "keeps g (debug_release_pd s pd_of pd)"
proof -
  let ?P = "\<lambda>st :: Scheduler \<times> nat. sinv g (fst st) \<and> length (sc_tcbs (fst st)) = length (sc_tcbs s)"
  have b: "BR_DEBUG AND BR_BUDGET = 0" by (simp add: br_defs)
  have "\<exists>st'. for_slots (debug_release_one pd_of pd) [0..<length (sc_tcbs s)] (s, 0) = Some st' \<and> ?P st'"
  proof (rule for_slots_rule)
    fix i st
    assume a: "i \<in> set [0..<length (sc_tcbs s)]" "?P st"
    obtain s1 n where st: "st = (s1, n)" by (cases st)
    have i: "i < length (sc_tcbs s1)" and s1: "sinv g s1" using a st by simp_all
    let ?v = "(sc_tcbs s1 ! i)\<lparr>tc_reasons := br_remove BR_DEBUG (tc_reasons (sc_tcbs s1 ! i))\<rparr>"
    let ?s2 = "s1\<lparr>sc_tcbs := (sc_tcbs s1)[i := ?v]\<rparr>"
    show "\<exists>st'. debug_release_one pd_of pd i st = Some st' \<and> ?P st'"
    proof (cases "tc_used (sc_tcbs s1 ! i)")
      case True
      have "sinv g ?s2" by (rule sinv_modt [where f = "\<lambda>_. ?v", OF s1 i])
          (use sinvD(4) [OF s1 i] b in \<open>simp_all add: br_has_remove br_remove_mono\<close>)
      then have "\<exists>s'. wecke_falls_lauffaehig ?s2 i = Some s' \<and> sinv g s' \<and> requeued ?s2 s'"
        by (rule wecke_sinv) (use i True in simp_all)
      then obtain s3 where "wecke_falls_lauffaehig ?s2 i = Some s3" "sinv g s3" "length (sc_tcbs s3) = length (sc_tcbs s1)"
        using requeuedD(1) by fastforce
      then show ?thesis using i a st by (simp add: debug_release_one_def tcb_in modt_in sch_id_def)
    qed (use i a st in \<open>simp add: debug_release_one_def tcb_in\<close>)
  qed (use assms in simp)
  then show ?thesis by (auto simp: debug_release_pd_def keeps_def)
qed

end
