(* ===== verification/SchedOutside.thy ===== *)
theory SchedOutside
  imports SchedRun
begin

text \<open>
  What the operations on threads do not touch: the number of the core, the ring of zombies but for the end
  of a thread, and the numbers of the threads but for creation, end and migration.
\<close>

definition ident :: "Tcb \<Rightarrow> bool \<times> u32 \<times> u32 \<times> u8" where
  "ident t = (tc_used t, tc_gid t, tc_gen t, tc_priority t)"

lemma ident_fields [simp]:
  "ident (t\<lparr>tc_sp := a\<rparr>) = ident t" "ident (t\<lparr>tc_reasons := r\<rparr>) = ident t" "ident (t\<lparr>tc_stack_base := a\<rparr>) = ident t"
  "ident (t\<lparr>tc_stack_len := a\<rparr>) = ident t" "ident (t\<lparr>tc_frist := fr\<rparr>) = ident t" "ident (t\<lparr>tc_frist_grund := gr\<rparr>) = ident t"
  "ident (t\<lparr>tc_tls := a\<rparr>) = ident t" "ident (t\<lparr>tc_queued := q\<rparr>) = ident t" "ident (t\<lparr>tc_admitted := b\<rparr>) = ident t"
  "ident (t\<lparr>tc_qnext := l\<rparr>) = ident t" "ident (t\<lparr>tc_qprev := l\<rparr>) = ident t" "ident (t\<lparr>tc_budget := x\<rparr>) = ident t"
  "ident (t\<lparr>tc_period := x\<rparr>) = ident t" "ident (t\<lparr>tc_remaining := x\<rparr>) = ident t" "ident (t\<lparr>tc_next_refill := n\<rparr>) = ident t"
  "ident (t\<lparr>tc_depleted := b\<rparr>) = ident t" "ident (t\<lparr>tc_park_wake := b\<rparr>) = ident t" "ident (t\<lparr>tc_sc_donor := d\<rparr>) = ident t"
  "ident (t\<lparr>tc_sc_donee := d\<rparr>) = ident t" "ident (t\<lparr>tc_cyc := cy\<rparr>) = ident t" "ident (t\<lparr>tc_stamp := st\<rparr>) = ident t"
  "ident (t\<lparr>tc_handler := h\<rparr>) = ident t"
  by (simp_all add: ident_def)

text \<open>With the flag set, the numbers, generations and priorities of the threads stay, too.\<close>

definition outside :: "bool \<Rightarrow> Scheduler \<Rightarrow> Scheduler \<Rightarrow> bool" where
  "outside idt s s' \<longleftrightarrow> sc_core s' = sc_core s \<and> sc_zombies s' = sc_zombies s \<and> sc_zhead s' = sc_zhead s \<and> sc_ztail s' = sc_ztail s \<and> sc_zcount s' = sc_zcount s \<and>
     (idt \<longrightarrow> map ident (sc_tcbs s') = map ident (sc_tcbs s))"

definition out1 :: "bool \<Rightarrow> Scheduler \<Rightarrow> Scheduler option \<Rightarrow> bool" where
  "out1 idt s r \<longleftrightarrow> (\<forall>s'. r = Some s' \<longrightarrow> outside idt s s')"

definition out2 :: "bool \<Rightarrow> Scheduler \<Rightarrow> (Scheduler \<times> 'a) option \<Rightarrow> bool" where
  "out2 idt s r \<longleftrightarrow> (\<forall>s' x. r = Some (s', x) \<longrightarrow> outside idt s s')"

lemma outside_refl [simp]: "outside idt s s"
  by (simp add: outside_def)

lemma outside_trans: "outside idt s t \<Longrightarrow> outside idt t u \<Longrightarrow> outside idt s u"
  by (simp add: outside_def)

lemma outside_fields [simp]:
  "outside idt s (s'\<lparr>sc_free := f\<rparr>) = outside idt s s'" "outside idt s (s'\<lparr>sc_current := c\<rparr>) = outside idt s s'"
  "outside idt s (s'\<lparr>sc_queues := q\<rparr>) = outside idt s s'" "outside idt s (s'\<lparr>sc_bitmap := b\<rparr>) = outside idt s s'" "outside idt s (s'\<lparr>sc_now := n\<rparr>) = outside idt s s'"
  "outside idt s (s'\<lparr>sc_depletions := n\<rparr>) = outside idt s s'" "outside idt s (s'\<lparr>sc_refills := n\<rparr>) = outside idt s s'" "outside idt s (s'\<lparr>sc_cycle_source := cs\<rparr>) = outside idt s s'"
  "outside idt s (s'\<lparr>sc_cyc_core := cy\<rparr>) = outside idt s s'" "outside idt s (s'\<lparr>sc_used := n\<rparr>) = outside idt s s'" "outside idt s (s'\<lparr>sc_depleted_count := n\<rparr>) = outside idt s s'"
  "outside idt s (s'\<lparr>sc_fristen_ueberlauf := n\<rparr>) = outside idt s s'" "outside idt s (s'\<lparr>sc_naechste_frist := n\<rparr>) = outside idt s s'"
  "outside idt s (s'\<lparr>sc_budget_blocked_count := n\<rparr>) = outside idt s s'" "outside idt s (s'\<lparr>sc_migrations_out := n\<rparr>) = outside idt s s'"
  "outside idt s (s'\<lparr>sc_migrations_in := n\<rparr>) = outside idt s s'"
  by (simp_all add: outside_def)

text \<open>The rules of composition.\<close>

named_theorems out_rules \<open>operations that leave the core and the zombies\<close>

lemma out_Some [simp]: "out1 idt s (Some s') = outside idt s s'" "out2 idt s (Some (s', x)) = outside idt s s'" "out1 idt s None" "out2 idt s None"
  by (simp_all add: out1_def out2_def)

lemma out_bind1: "out1 idt s r \<Longrightarrow> (\<And>s'. outside idt s s' \<Longrightarrow> out1 idt s (f s')) \<Longrightarrow> out1 idt s (Option.bind r f)"
  by (cases r) (auto simp: out1_def)

lemma out_bind12: "out1 idt s r \<Longrightarrow> (\<And>s'. outside idt s s' \<Longrightarrow> out2 idt s (f s')) \<Longrightarrow> out2 idt s (Option.bind r f)"
  by (cases r) (auto simp: out1_def)

lemma out_bind21: "out2 idt s r \<Longrightarrow> (\<And>s' x. outside idt s s' \<Longrightarrow> out1 idt s (f (s', x))) \<Longrightarrow> out1 idt s (Option.bind r f)"
  by (cases r) (auto simp: out2_def)

lemma out_bind2: "out2 idt s r \<Longrightarrow> (\<And>s' x. outside idt s s' \<Longrightarrow> out2 idt s (f (s', x))) \<Longrightarrow> out2 idt s (Option.bind r f)"
  by (cases r) (simp, metis bind.bind_lunit out2_def surj_pair)

lemma out_get: "(\<And>x. r = Some x \<Longrightarrow> out1 idt s (f x)) \<Longrightarrow> out1 idt s (Option.bind r f)" "(\<And>x. r = Some x \<Longrightarrow> out2 idt s (h x)) \<Longrightarrow> out2 idt s (Option.bind r h)"
  by (cases r; simp)+

lemma out_modt: "outside idt s t \<Longrightarrow> (\<And>t. idt \<Longrightarrow> ident (f t) = ident t) \<Longrightarrow> out1 idt s (modt t i f)"
proof -
  assume a: "outside idt s t" "\<And>t. idt \<Longrightarrow> ident (f t) = ident t"
  have "map ident ((sc_tcbs t)[i := f (sc_tcbs t ! i)]) = map ident (sc_tcbs t)" if "i < length (sc_tcbs t)" idt
    using a(2) [OF that(2)] that(1) by (simp add: map_update) (metis length_map list_update_id nth_map)
  then show ?thesis using a(1) by (auto simp: modt_def out1_def outside_def tupd_def split: Option.bind_splits if_splits)
qed

lemma out_modq: "outside idt s t \<Longrightarrow> out1 idt s (modq t i f)"
  by (auto simp: modq_def out1_def split: Option.bind_splits)

lemma out_if: "(b \<Longrightarrow> out1 idt s x) \<Longrightarrow> (\<not> b \<Longrightarrow> out1 idt s y) \<Longrightarrow> out1 idt s (if b then x else y)"
  "(b \<Longrightarrow> out2 idt s v) \<Longrightarrow> (\<not> b \<Longrightarrow> out2 idt s w) \<Longrightarrow> out2 idt s (if b then v else w)"
  by simp_all

lemma out_case: "(r = None \<Longrightarrow> out1 idt s x) \<Longrightarrow> (\<And>i. r = Some i \<Longrightarrow> out1 idt s (f i)) \<Longrightarrow> out1 idt s (case r of None \<Rightarrow> x | Some i \<Rightarrow> f i)"
  "(r = None \<Longrightarrow> out2 idt s v) \<Longrightarrow> (\<And>i. r = Some i \<Longrightarrow> out2 idt s (h i)) \<Longrightarrow> out2 idt s (case r of None \<Rightarrow> v | Some i \<Rightarrow> h i)"
  by (cases r; simp)+

lemma out_befund: "(b = Zukunft \<Longrightarrow> out2 idt s x) \<Longrightarrow> (b = Freigeben \<Longrightarrow> out2 idt s y) \<Longrightarrow> (b = Aufschieben \<Longrightarrow> out2 idt s z) \<Longrightarrow> (b = SignalGewann \<Longrightarrow> out2 idt s w) \<Longrightarrow>
   out2 idt s (case b of Zukunft \<Rightarrow> x | Freigeben \<Rightarrow> y | Aufschieben \<Rightarrow> z | SignalGewann \<Rightarrow> w)"
  by (cases b) simp_all

lemmas out_comp = out_if out_case out_modt out_modq out_bind1 out_bind12 out_bind2 out_bind21

lemma out_enqueue [out_rules]: "outside idt s t \<Longrightarrow> out1 idt s (enqueue_ready t i)"
  unfolding enqueue_ready_def Let_def by (rule out_comp | simp only: prod.case | rule out_get | simp)+

lemma out_remove [out_rules]: "outside idt s t \<Longrightarrow> out1 idt s (remove_from_ready t i)"
  unfolding remove_from_ready_def Let_def by (rule out_comp out_rules | simp only: prod.case | rule out_get | simp)+

lemma out_dequeue [out_rules]: "outside idt s t \<Longrightarrow> out2 idt s (dequeue_highest t)"
  unfolding dequeue_highest_def Let_def by (rule out_comp out_rules | simp only: prod.case | rule out_get | simp)+

lemma out_run_next [out_rules]: "outside idt s t \<Longrightarrow> out2 idt s (run_next t)"
  unfolding run_next_def Let_def by (rule out_comp out_rules | simp only: prod.case | rule out_get | simp)+

lemma out_wecke [out_rules]: "outside idt s t \<Longrightarrow> out1 idt s (wecke_falls_lauffaehig t i)"
  unfolding wecke_falls_lauffaehig_def Let_def by (rule out_comp out_rules | simp only: prod.case | rule out_get | simp)+

lemma out_bb [out_rules]: "outside idt s t \<Longrightarrow> out1 idt s (set_budget_blocked t i an)"
  unfolding set_budget_blocked_def Let_def by (rule out_comp out_rules | simp only: prod.case | rule out_get | simp)+

lemma out_block [out_rules]: "outside idt s t \<Longrightarrow> out2 idt s (block_current_mit t frame grund)"
  unfolding block_current_mit_def Let_def by (rule out_comp out_rules | simp only: prod.case | rule out_get | simp)+

lemma out_switch [out_rules]: "outside idt s t \<Longrightarrow> out2 idt s (switch_to g t frame tid)"
  unfolding switch_to_def Let_def by (rule out_comp out_rules | simp only: prod.case | rule out_get | simp)+

lemma out_unblock [out_rules]: "outside idt s t \<Longrightarrow> out2 idt s (unblock g t tid)"
  unfolding unblock_def Let_def by (rule out_comp out_rules | simp only: prod.case | rule out_get | simp)+

lemma out_stop [out_rules]: "outside idt s t \<Longrightarrow> out2 idt s (stop_for g t tid grund)"
  unfolding stop_for_def Let_def by (rule out_comp out_rules | simp only: prod.case | rule out_get | simp)+

lemma out_lift [out_rules]: "outside idt s t \<Longrightarrow> out2 idt s (lift_reason g t tid grund)"
  unfolding lift_reason_def Let_def by (rule out_comp out_rules | simp only: prod.case | rule out_get | simp)+

lemma out_park [out_rules]: "outside idt s t \<Longrightarrow> out2 idt s (park_current t frame)"
  unfolding park_current_def Let_def by (rule out_comp out_rules | simp only: prod.case | rule out_get | simp)+

lemma out_unpark [out_rules]: "outside idt s t \<Longrightarrow> out2 idt s (unpark g t tid)"
  unfolding unpark_def Let_def by (rule out_comp out_rules | simp only: prod.case | rule out_get | simp)+

lemma out_attr [out_rules]: "outside idt s t \<Longrightarrow> (\<And>t. idt \<Longrightarrow> ident (f t) = ident t) \<Longrightarrow> out2 idt s (set_attr g t tid f)"
  unfolding set_attr_def Let_def by (rule out_comp out_rules | simp only: prod.case | rule out_get | simp)+

lemma out_charge [out_rules]: "outside idt s t \<Longrightarrow> out1 idt s (charge_current t core now)"
  unfolding charge_current_def Let_def by (rule out_comp out_rules | simp only: prod.case | rule out_get | simp)+

lemma out_stamp [out_rules]: "outside idt s t \<Longrightarrow> out1 idt s (stamp_current t core now)"
  unfolding stamp_current_def Let_def by (rule out_comp out_rules | simp only: prod.case | rule out_get | simp)+

lemma out_clear [out_rules]: "outside idt s t \<Longrightarrow> out1 idt s (clear_donee t d i)"
  unfolding clear_donee_def Let_def by (rule out_comp out_rules | simp only: prod.case | rule out_get | simp)+

lemma out_end_donation [out_rules]: "outside idt s t \<Longrightarrow> out1 idt s (end_donation t)"
  unfolding end_donation_def Let_def by (rule out_comp out_rules | simp only: prod.case | rule out_get | simp)+

lemma out_frist_setzen [out_rules]: "outside idt s t \<Longrightarrow> out1 idt s (frist_setzen t ticks grund)"
  unfolding frist_setzen_def Let_def by (rule out_comp out_rules | simp only: prod.case | rule out_get | simp)+

lemma out_admit [out_rules]: "outside idt s t \<Longrightarrow> out2 idt s (admit g t tid)"
  unfolding admit_def Let_def by (rule out_comp out_rules | simp only: prod.case | rule out_get | simp)+

lemma out_charge_tick [out_rules]: "outside idt s t \<Longrightarrow> out2 idt s (charge_tick t a)"
  unfolding charge_tick_def Let_def by (rule out_comp out_rules | simp only: prod.case | rule out_get | simp)+

lemma out_retire [out_rules]: "outside idt s t \<Longrightarrow> out1 idt s (retire_current t frame tick)"
  unfolding retire_current_def Let_def by (rule out_comp out_rules | simp only: prod.case | rule out_get | simp)+

lemma out_wake_donee [out_rules]: "outside idt s t \<Longrightarrow> out1 idt s (wake_donee slot d t)"
  unfolding wake_donee_def Let_def by (rule out_comp out_rules | simp only: prod.case | rule out_get | simp)+

lemma out_zombie_release [out_rules]: "outside idt s t \<Longrightarrow> out1 idt s (zombie_release i d t)"
  unfolding zombie_release_def Let_def by (rule out_comp out_rules | simp only: prod.case | rule out_get | simp)+

lemma out_for1:
  assumes "\<And>i t. outside idt s t \<Longrightarrow> out1 idt s (f i t)"
  shows "outside idt s t \<Longrightarrow> out1 idt s (for_slots f is' t)"
proof (induction is' arbitrary: t)
  case (Cons i is')
  then show ?case using assms [of t i] by (cases "f i t") (auto simp: out1_def)
qed simp

lemma out_for2:
  assumes "\<And>i t x. outside idt s t \<Longrightarrow> out2 idt s (f i (t, x))"
  shows "outside idt s t \<Longrightarrow> out2 idt s (for_slots f is' (t, x))"
proof (induction is' arbitrary: t x)
  case (Cons i is')
  show ?case
  proof (cases "f i (t, x)")
    case (Some r)
    then have "outside idt s (fst r)" using assms [OF Cons.prems, of i x] by (cases r) (simp add: out2_def)
    then show ?thesis using Some Cons.IH [of "fst r" "snd r"] by simp
  qed simp
qed simp

lemma out_frist_one [out_rules]: "outside idt s t \<Longrightarrow> out2 idt s (frist_one cap i (t, x, n))"
  unfolding frist_one_def Let_def
  by (rule out_comp out_befund out_rules | simp only: prod.case fst_conv snd_conv | rule out_get | simp)+

lemma out_fristen [out_rules]: "outside idt s t \<Longrightarrow> out2 idt s (fristen_faellig t cap)"
proof -
  assume a: "outside idt s t"
  have "out2 idt s (for_slots (frist_one cap) [0..<length (sc_tcbs t)] (t, [], - 1))"
    by (rule out_for2 [OF _ a]) (auto intro: out_frist_one)
  then show ?thesis using a unfolding fristen_faellig_def
    by (cases "for_slots (frist_one cap) [0..<length (sc_tcbs t)] (t, [], - 1)") (auto simp: out2_def)
qed

lemma out_debug_one [out_rules]: "outside idt s t \<Longrightarrow> out2 idt s (debug_release_one pd_of pd i (t, n))"
  unfolding debug_release_one_def Let_def
  by (rule out_comp out_befund out_rules | simp only: prod.case fst_conv snd_conv | rule out_get | simp)+

lemma out_debug [out_rules]: "outside idt s t \<Longrightarrow> out2 idt s (debug_release_pd t pd_of pd)"
  unfolding debug_release_pd_def by (rule out_for2) (auto intro: out_debug_one)

lemma out_wake_donees [out_rules]: "outside idt s t \<Longrightarrow> out1 idt s (wake_donees slot t)"
  unfolding wake_donees_def by (auto intro: out_for1 out_wake_donee)

lemma out_refill_one [out_rules]: "outside idt s t \<Longrightarrow> out1 idt s (refill_one i t)"
  unfolding refill_one_def Let_def
  by (rule out_comp out_befund out_rules | simp only: prod.case fst_conv snd_conv | rule out_get | simp)+

lemma out_refill [out_rules]: "outside idt s t \<Longrightarrow> out1 idt s (refill_depleted t)"
  unfolding refill_depleted_def by (rule out_for1) (auto intro: out_refill_one)

lemma out_set_budget [out_rules]: "outside idt s t \<Longrightarrow> out2 idt s (set_budget g t tid b p)"
  unfolding set_budget_def Let_def
  by (rule out_comp out_befund out_rules | simp only: prod.case fst_conv snd_conv | rule out_get | simp)+

lemma out_on_tick [out_rules]: "outside idt s t \<Longrightarrow> out2 idt s (on_tick t frame tick)"
  unfolding on_tick_def Let_def
  by (rule out_comp out_befund out_rules | simp only: prod.case fst_conv snd_conv | rule out_get | simp)+

text \<open>Operations that also change the statics.\<close>

definition out3 :: "bool \<Rightarrow> Scheduler \<Rightarrow> ((Statics \<times> Scheduler) \<times> 'a) option \<Rightarrow> bool" where
  "out3 idt s r \<longleftrightarrow> (\<forall>g' s' x. r = Some ((g', s'), x) \<longrightarrow> outside idt s s')"

lemma out3_Some [simp]: "out3 idt s (Some ((g', s'), x)) = outside idt s s'" "out3 idt s None"
  by (simp_all add: out3_def)

lemma out3_if: "(b \<Longrightarrow> out3 idt s x) \<Longrightarrow> (\<not> b \<Longrightarrow> out3 idt s y) \<Longrightarrow> out3 idt s (if b then x else y)"
  by simp

lemma out3_case: "(r = None \<Longrightarrow> out3 idt s x) \<Longrightarrow> (\<And>i. r = Some i \<Longrightarrow> out3 idt s (f i)) \<Longrightarrow> out3 idt s (case r of None \<Rightarrow> x | Some i \<Rightarrow> f i)"
  by (cases r) simp_all

lemma out3_bind1: "out1 idt s r \<Longrightarrow> (\<And>s'. outside idt s s' \<Longrightarrow> out3 idt s (f s')) \<Longrightarrow> out3 idt s (Option.bind r f)"
  by (cases r) (auto simp: out1_def)

lemma out3_bind2: "out2 idt s r \<Longrightarrow> (\<And>s' x. outside idt s s' \<Longrightarrow> out3 idt s (f (s', x))) \<Longrightarrow> out3 idt s (Option.bind r f)"
  by (cases r) (simp, metis bind.bind_lunit out2_def surj_pair)

lemma out3_bind3: "out3 idt s r \<Longrightarrow> (\<And>g' s' x. outside idt s s' \<Longrightarrow> out3 idt s (f ((g', s'), x))) \<Longrightarrow> out3 idt s (Option.bind r f)"
  by (cases r) (simp, metis bind.bind_lunit out3_def surj_pair)

lemma out3_get: "(\<And>x. r = Some x \<Longrightarrow> out3 idt s (f x)) \<Longrightarrow> out3 idt s (Option.bind r f)"
  by (cases r) simp_all

lemma out3_prod: "(\<And>a b. r = (a, b) \<Longrightarrow> out3 idt s (f a b)) \<Longrightarrow> out3 idt s (case r of (a, b) \<Rightarrow> f a b)"
  by (cases r) simp

lemmas out3_comp = out3_if out3_case out3_bind1 out3_bind2 out3_bind3

lemma out_alloc [out_rules]: "outside False s t \<Longrightarrow> out3 False s (alloc_tcb g t sp p)"
  unfolding alloc_tcb_def Let_def
  by (rule out3_comp out_comp | simp only: prod.case | rule out3_get out3_prod | simp)+

lemma out_init [out_rules]: "outside False s t \<Longrightarrow> out3 False s (init_core g t core p)"
  unfolding init_core_def Let_def
  by (rule out3_comp out_comp out_rules | simp only: prod.case | rule out3_get out3_prod | simp)+

lemma out_spawn_with [out_rules]: "outside False s t \<Longrightarrow> out3 False s (spawn_with g t sp base len p)"
  unfolding spawn_with_def Let_def
  by (rule out3_comp out_comp out_rules | simp only: prod.case | rule out3_get out3_prod | simp)+

lemma out_admit_spawned [out_rules]: "out3 False s r \<Longrightarrow> out3 False s (admit_spawned r)"
  unfolding admit_spawned_def Let_def
  by (rule out3_bind3, assumption) (rule out3_comp out_comp out_rules | simp only: prod.case | rule out3_get out3_prod | simp)+

lemma out_detach [out_rules]: "outside False s t \<Longrightarrow> out3 False s (detach_for_migration g t tid)"
  unfolding detach_for_migration_def Let_def
  by (rule out3_comp out_comp out_rules | simp only: prod.case | rule out3_get out3_prod | simp)+

lemma out_attach [out_rules]: "outside False s t \<Longrightarrow> out3 False s (attach_migrated g t m)"
  unfolding attach_migrated_def Let_def
  by (rule out3_comp out_comp out_rules | simp only: prod.case | rule out3_get out3_prod | simp)+

lemma out_bury: "bury g s i = Some (g', s') \<Longrightarrow> outside False s s'"
  by (auto simp: bury_def Let_def modt_def outside_def split: Option.bind_splits if_splits)

end
