(* ===== verification/SchedTick.thy ===== *)
theory SchedTick
  imports SchedWake SchedOutside
begin

text \<open>
  The invariant under the budget accounts and the timer tick. \<open>on_tick\<close> never panics: without another
  ready thread the running one goes on.
\<close>

section \<open>Wakeups by an account\<close>

text \<open>What the loops over the table leave alone.\<close>

lemma ident_bb_flip [simp]: "ident (bb_flip an t) = ident t"
  by (simp add: bb_flip_def)

definition same_frame :: "Scheduler \<Rightarrow> Scheduler \<Rightarrow> bool" where
  "same_frame s s' \<longleftrightarrow> length (sc_tcbs s') = length (sc_tcbs s) \<and> sc_current s' = sc_current s \<and> sc_core s' = sc_core s \<and> sc_now s' = sc_now s \<and>
     sc_free s' = sc_free s \<and> (\<forall>i<length (sc_tcbs s). ident (sc_tcbs s' ! i) = ident (sc_tcbs s ! i))"

lemma same_frame_refl [simp]: "same_frame s s"
  by (simp add: same_frame_def)

lemma same_frame_trans: "same_frame s t \<Longrightarrow> same_frame t u \<Longrightarrow> same_frame s u"
  by (simp add: same_frame_def)

lemma requeued_same_frame: "requeued s s' \<Longrightarrow> same_frame s s'"
  using requeuedD [of s s'] body_eqD(1,2,3,5) [of "sc_tcbs s' ! _" "sc_tcbs s ! _"] by (simp add: same_frame_def ident_def)

lemma same_frame_upd:
  assumes "i < length (sc_tcbs s)" "ident v = ident (sc_tcbs s ! i)"
  shows "same_frame s (s\<lparr>sc_tcbs := (sc_tcbs s)[i := v]\<rparr>)"
proof -
  have "ident ((sc_tcbs s)[i := v] ! j) = ident (sc_tcbs s ! j)" for j using assms by (cases "j = i") simp_all
  then show ?thesis by (simp add: same_frame_def)
qed

lemma same_frame_scalars [simp]:
  "same_frame s (s'\<lparr>sc_depleted_count := a\<rparr>) = same_frame s s'" "same_frame s (s'\<lparr>sc_refills := a\<rparr>) = same_frame s s'"
  "same_frame s (s'\<lparr>sc_depletions := a\<rparr>) = same_frame s s'" "same_frame s (s'\<lparr>sc_budget_blocked_count := a\<rparr>) = same_frame s s'"
  by (simp_all add: same_frame_def)

lemma release_budget:
  assumes "sinv g s" "d < length (sc_tcbs s)" "tc_used (sc_tcbs s ! d)" "budget_blocked (sc_tcbs s ! d)"
  shows "\<exists>s1 s'. set_budget_blocked s d False = Some s1 \<and> wecke_falls_lauffaehig s1 d = Some s' \<and> sinv g s' \<and> same_frame s s'"
proof -
  have "tc_reasons (sc_tcbs s ! d) \<noteq> 0" using assms(4) by (auto simp: br_has_def)
  then have "tc_queued (sc_tcbs s ! d) = NOT_QUEUED" using reasons_not_queued [OF assms(1,2)] by blast
  from sinv_bb [OF assms(1-3) this, of False] obtain b where
    b: "set_budget_blocked s d False = Some (s\<lparr>sc_tcbs := (sc_tcbs s)[d := bb_flip False (sc_tcbs s ! d)], sc_budget_blocked_count := b\<rparr>)"
    "sinv g (s\<lparr>sc_tcbs := (sc_tcbs s)[d := bb_flip False (sc_tcbs s ! d)], sc_budget_blocked_count := b\<rparr>)" by blast
  define s1 where "s1 = s\<lparr>sc_tcbs := (sc_tcbs s)[d := bb_flip False (sc_tcbs s ! d)], sc_budget_blocked_count := b\<rparr>"
  have s1: "sinv g s1" "set_budget_blocked s d False = Some s1" "same_frame s s1"
    using b same_frame_upd [OF assms(2), of "bb_flip False (sc_tcbs s ! d)"] by (simp_all add: s1_def)
  have "\<exists>s'. wecke_falls_lauffaehig s1 d = Some s' \<and> sinv g s' \<and> requeued s1 s'"
    by (rule wecke_sinv [OF s1(1)]) (use assms(2,3) in \<open>simp_all add: s1_def bb_flip_def\<close>)
  then show ?thesis using s1(2,3) requeued_same_frame same_frame_trans by blast
qed

definition keepsf :: "Statics \<Rightarrow> Scheduler \<Rightarrow> Scheduler option \<Rightarrow> bool" where
  "keepsf g s r \<longleftrightarrow> (\<exists>s'. r = Some s' \<and> sinv g s' \<and> same_frame s s')"

lemma keepsf_Some [simp]: "keepsf g s (Some s') \<longleftrightarrow> sinv g s' \<and> same_frame s s'"
  by (simp add: keepsf_def)

lemma for_slots_keepsf:
  assumes "\<And>i t. i < length (sc_tcbs s) \<Longrightarrow> sinv g t \<Longrightarrow> same_frame s t \<Longrightarrow> keepsf g t (f i t)" "sinv g s"
  shows "keepsf g s (for_slots f [0..<length (sc_tcbs s)] s)"
  unfolding keepsf_def
proof (rule for_slots_rule [where P = "\<lambda>t. sinv g t \<and> same_frame s t"])
  fix i t
  assume "i \<in> set [0..<length (sc_tcbs s)]" "sinv g t \<and> same_frame s t"
  then have "keepsf g t (f i t)" "same_frame s t" using assms(1) by simp_all
  then show "\<exists>t'. f i t = Some t' \<and> sinv g t' \<and> same_frame s t'" unfolding keepsf_def using same_frame_trans by blast
qed (use assms(2) in simp)

lemma wake_donee_keeps:
  assumes "sinv g s" "d < length (sc_tcbs s)"
  shows "keepsf g s (wake_donee slot d s)"
proof (cases "d \<noteq> slot \<and> tc_used (sc_tcbs s ! d) \<and> budget_blocked (sc_tcbs s ! d) \<and> tc_sc_donor (sc_tcbs s ! d) = Some slot")
  case True
  then show ?thesis using release_budget [OF assms] assms(2) by (auto simp: wake_donee_def tcb_in)
next
  case False
  then show ?thesis using assms by (auto simp: wake_donee_def tcb_in)
qed

lemma wake_donees_keeps: "sinv g s \<Longrightarrow> keepsf g s (wake_donees slot s)"
  unfolding wake_donees_def using for_slots_keepsf [of s g "wake_donee slot"] wake_donee_keeps by (auto simp: same_frame_def)

lemma wecke_keepsf:
  assumes "sinv g s" "i < length (sc_tcbs s)" "tc_used (sc_tcbs s ! i)"
  shows "keepsf g s (wecke_falls_lauffaehig s i)"
  using wecke_sinv [OF assms] requeued_same_frame by (auto simp: keepsf_def)

lemma same_frame_used:
  assumes "sinv g s" "sinv g s'" "same_frame s s'" "i < length (sc_tcbs s)"
  shows "tc_used (sc_tcbs s' ! i) = tc_used (sc_tcbs s ! i)"
  using assms(3,4) by (simp add: same_frame_def ident_def)

lemma wake_account:
  assumes "sinv g s" "i < length (sc_tcbs s)" "tc_used (sc_tcbs s ! i)"
  shows "\<exists>s' s''. wake_donees i s = Some s' \<and> sinv g s' \<and> same_frame s s' \<and> tc_used (sc_tcbs s' ! i) \<and>
    wecke_falls_lauffaehig s' i = Some s'' \<and> sinv g s'' \<and> same_frame s s''"
proof -
  obtain s' where s': "wake_donees i s = Some s'" "sinv g s'" "same_frame s s'" using wake_donees_keeps [OF assms(1)] by (auto simp: keepsf_def)
  have i': "i < length (sc_tcbs s')" "tc_used (sc_tcbs s' ! i)"
    using assms(2,3) s'(3) same_frame_used [OF assms(1) s'(2,3) assms(2)] by (simp_all add: same_frame_def)
  from wecke_keepsf [OF s'(2) i'] obtain s'' where "wecke_falls_lauffaehig s' i = Some s''" "sinv g s''" "same_frame s' s''" by (auto simp: keepsf_def)
  then show ?thesis using s' i'(2) same_frame_trans by blast
qed

section \<open>Refill and budgets\<close>

lemma refill_one_keeps:
  assumes "sinv g s" "i < length (sc_tcbs s)"
  shows "keepsf g s (refill_one i s)"
proof (cases "tc_used (sc_tcbs s ! i) \<and> tc_budget (sc_tcbs s ! i) > 0 \<and> tc_depleted (sc_tcbs s ! i) \<and> sc_now s \<ge> tc_next_refill (sc_tcbs s ! i)")
  case False
  then show ?thesis using assms by (auto simp: refill_one_def tcb_in)
next
  case True
  define s1 where "s1 = s\<lparr>sc_tcbs := (sc_tcbs s)[i := (sc_tcbs s ! i)\<lparr>tc_remaining := tc_budget (sc_tcbs s ! i), tc_depleted := False\<rparr>]\<rparr>"
  have s1: "sinv g s1" unfolding s1_def by (rule sinv_attr [OF assms]) (use sinvD(4) [OF assms] in simp_all)
  define s2 where "s2 = s1\<lparr>sc_depleted_count := sc_depleted_count s1 - 1, sc_refills := sc_refills s1 + 1\<rparr>"
  have s2: "sinv g s2" using s1 by (simp add: s2_def)
  have i2: "i < length (sc_tcbs s2)" "tc_used (sc_tcbs s2 ! i)" using assms(2) True by (simp_all add: s2_def s1_def)
  have f2: "same_frame s s2" unfolding s2_def s1_def by (simp add: same_frame_upd assms(2))
  from wake_account [OF s2 i2] obtain s3 s4 where s3: "wake_donees i s2 = Some s3" "sinv g s3" "same_frame s2 s3"
    "wecke_falls_lauffaehig s3 i = Some s4" "sinv g s4" "same_frame s2 s4" by blast
  have i3: "i < length (sc_tcbs s3)" using s3(3) i2(1) by (simp add: same_frame_def)
  have e: "modt s i (\<lambda>t. t\<lparr>tc_remaining := tc_budget t, tc_depleted := False\<rparr>) = Some s1" using assms(2) by (simp add: modt_in s1_def)
  show ?thesis
    using True assms(2) i3 s3 same_frame_trans [OF f2 s3(3)] same_frame_trans [OF f2 s3(6)]
    by (simp add: refill_one_def tcb_in e Let_def s2_def [symmetric] split: option.splits)
qed

lemma refill_depleted_keeps: "sinv g s \<Longrightarrow> keepsf g s (refill_depleted s)"
  unfolding refill_depleted_def by (rule for_slots_keepsf) (simp_all add: refill_one_keeps same_frame_def)

lemma set_budget_keeps:
  assumes "sinv g s"
  shows "keeps g (set_budget g s tid budget period)"
proof (cases "sch_resolve g s tid")
  case None
  then show ?thesis using assms by (simp add: set_budget_def)
next
  case (Some i)
  have i: "i < length (sc_tcbs s)" "tc_used (sc_tcbs s ! i)" using resolve_in [OF Some] by simp_all
  let ?f = "\<lambda>t. t\<lparr>tc_budget := budget, tc_period := max period 1, tc_remaining := budget,
                             tc_next_refill := sc_now s + ucast period, tc_depleted := False\<rparr>"
  define s1 where "s1 = s\<lparr>sc_tcbs := (sc_tcbs s)[i := ?f (sc_tcbs s ! i)]\<rparr>"
  have s1: "sinv g s1" unfolding s1_def by (rule sinv_attr [OF assms i(1)]) (use sinvD(4) [OF assms i(1)] in simp_all)
  define s2 where "s2 = s1\<lparr>sc_depleted_count := sc_depleted_count s1 - 1\<rparr>"
  have "sinv g s2" "i < length (sc_tcbs s2)" "tc_used (sc_tcbs s2 ! i)" using s1 i by (simp_all add: s2_def s1_def)
  from wake_account [OF this] obtain s3 s4 where s3: "wake_donees i s2 = Some s3" "sinv g s3"
    "wecke_falls_lauffaehig s3 i = Some s4" "sinv g s4" by blast
  have e: "modt s i ?f = Some s1" using i(1) by (simp add: modt_in s1_def)
  show ?thesis using Some i s1 s3 by (simp add: set_budget_def tcb_in e s2_def [symmetric])
qed

section \<open>The tick\<close>

lemma charge_tick_keeps:
  assumes "sinv g s" "a < length (sc_tcbs s)"
  shows "\<exists>s' b. charge_tick s a = Some (s', b) \<and> sinv g s' \<and> same_frame s s' \<and>
    (\<forall>i<length (sc_tcbs s). tc_reasons (sc_tcbs s' ! i) = tc_reasons (sc_tcbs s ! i) \<and> tc_queued (sc_tcbs s' ! i) = tc_queued (sc_tcbs s ! i))"
proof (cases "tc_budget (sc_tcbs s ! a) > 0")
  case False
  then have "charge_tick s a = Some (s, False)" using assms(2) by (simp add: charge_tick_def tcb_in)
  then show ?thesis using assms(1) by (intro exI [of _ s] exI [of _ False]) simp
next
  case True
  define r where "r = (if tc_remaining (sc_tcbs s ! a) = 0 then 0 else tc_remaining (sc_tcbs s ! a) - 1)"
  have s1: "sinv g (s\<lparr>sc_tcbs := (sc_tcbs s)[a := (sc_tcbs s ! a)\<lparr>tc_remaining := r\<rparr>]\<rparr>)"
    by (rule sinv_attr [OF assms]) (use sinvD(4) [OF assms] in simp_all)
  have s2: "sinv g (s\<lparr>sc_tcbs := (sc_tcbs s)[a := (sc_tcbs s ! a)\<lparr>tc_remaining := r, tc_depleted := True, tc_next_refill := nr\<rparr>]\<rparr>)" for nr
    by (rule sinv_attr [OF assms]) (use sinvD(4) [OF assms] in simp_all)
  show ?thesis
  proof (cases "r = 0")
    case z: True
    then show ?thesis using True assms s2
      by (auto simp: charge_tick_def tcb_in modt_in Let_def r_def [symmetric] same_frame_upd nth_list_update)
  next
    case z: False
    then show ?thesis using True assms s1
      by (auto simp: charge_tick_def tcb_in modt_in Let_def r_def [symmetric] same_frame_upd nth_list_update)
  qed
qed

text \<open>After \<open>retire_current\<close> the running thread may be queued; the rest of the invariant holds.\<close>

lemma retire_hinv:
  assumes "sinv g s"
  shows "\<exists>s'. retire_current s frame tick = Some s' \<and> hinv {} g s' \<and> sc_current s' = sc_current s \<and> (\<forall>c. sc_current s' = Some c \<longrightarrow> tc_used (sc_tcbs s' ! c) \<and>
    \<not> br_has (tc_reasons (sc_tcbs s' ! c)) BR_IPC \<and> \<not> br_has (tc_reasons (sc_tcbs s' ! c)) BR_PARK)"
proof (cases "sc_current s")
  case None
  then show ?thesis using assms by (simp add: retire_current_def sinv_def)
next
  case (Some cur)
  have cl: "cur < length (sc_tcbs s)" using sinvD(5) [OF assms Some] .
  define s1 where "s1 = s\<lparr>sc_tcbs := (sc_tcbs s)[cur := (sc_tcbs s ! cur)\<lparr>tc_sp := frame\<rparr>]\<rparr>"
  have e1: "modt s cur (\<lambda>t. t\<lparr>tc_sp := frame\<rparr>) = Some s1" using cl by (simp add: modt_in s1_def)
  have s1: "sinv g s1" unfolding s1_def by (rule sinv_attr [OF assms cl]) (use sinvD(4) [OF assms cl] in simp_all)
  have c1: "cur < length (sc_tcbs s1)" "sc_current s1 = Some cur" using cl Some by (simp_all add: s1_def)
  obtain a where a: "account_of s1 cur = Some a" "a < length (sc_tcbs s1)" using account_ok [OF s1 c1(1)] by blast
  obtain s2 b where s2: "(if tick then charge_tick s1 a else Some (s1, False)) = Some (s2, b)" "sinv g s2" "same_frame s1 s2"
    "tc_reasons (sc_tcbs s2 ! cur) = tc_reasons (sc_tcbs s1 ! cur)" using charge_tick_keeps [OF s1 a(2)] c1(1) s1 by (cases tick) auto
  have c2: "cur < length (sc_tcbs s2)" "sc_current s2 = Some cur" using c1 s2(3) by (simp_all add: same_frame_def)
  have k2: "tc_used (sc_tcbs s2 ! cur)" "tc_queued (sc_tcbs s2 ! cur) = NOT_QUEUED" using sinvD(2) [OF s2(2)] c2(2) by (simp_all add: cur_ok_def)
  obtain s3 where s3: "(if b \<and> a \<noteq> cur then set_budget_blocked s2 cur True else Some s2) = Some s3" "sinv g s3" "sc_current s3 = Some cur"
      "\<not> b \<longrightarrow> s3 = s2" "length (sc_tcbs s3) = length (sc_tcbs s2)"
  proof (cases "b \<and> a \<noteq> cur")
    case True
    then show ?thesis using sinv_bb [OF s2(2) c2(1) k2, of True] that c2(2) by auto
  next
    case False
    then have "(if b \<and> a \<noteq> cur then set_budget_blocked s2 cur True else Some s2) = Some s2" by auto
    then show ?thesis using that [of s2] s2(2) c2(2) by blast
  qed
  have c3: "cur_ok s3" "hinv {} g s3" using sinvD(1,2) [OF s3(2)] by simp_all
  show ?thesis
  proof (cases "tc_reasons (sc_tcbs s1 ! cur) = 0 \<and> \<not> b")
    case False
    then have "retire_current s frame tick = Some s3" using Some e1 a c1 s2(1) s3(1) by (auto simp: retire_current_def tcb_in)
    then show ?thesis using c3 s3(3) Some by (auto simp: cur_ok_def)
  next
    case True
    then have e: "s3 = s2" using s3(4) by simp
    from enqueue_hinv [OF c3(2), of cur] True k2 c2 s2(4) e obtain s4 where
      s4: "enqueue_ready s3 cur = Some s4" "hinv {} g s4" "requeued s3 s4" by auto
    note R = requeuedD [OF s4(3)]
    have "retire_current s frame tick = Some s4" using True Some e1 a c1 s2(1) s3(1) s4(1) by (simp add: retire_current_def tcb_in)
    moreover have b4: "body (sc_tcbs s4 ! cur) = body (sc_tcbs s3 ! cur)" using R(2) s3(5) c2(1) by simp
    have "tc_used (sc_tcbs s4 ! cur) \<and> \<not> br_has (tc_reasons (sc_tcbs s4 ! cur)) BR_IPC \<and> \<not> br_has (tc_reasons (sc_tcbs s4 ! cur)) BR_PARK"
      unfolding body_eqD(1,6) [OF b4] using c3(1) s3(3) by (simp add: cur_ok_def)
    moreover have "sc_current s4 = Some cur" using R(5) s3(3) by simp
    ultimately show ?thesis using s4(2) Some by simp
  qed
qed

lemma on_tick_shape:
  assumes "sinv g s"
  shows "\<exists>s3. on_tick s frame tick = (case run_next s3 of None \<Rightarrow> Some (s3, frame) | Some r \<Rightarrow> Some r) \<and> hinv {} g s3 \<and> sc_current s3 = sc_current s \<and>
    (\<forall>c. sc_current s3 = Some c \<longrightarrow> tc_used (sc_tcbs s3 ! c) \<and>
      \<not> br_has (tc_reasons (sc_tcbs s3 ! c)) BR_IPC \<and> \<not> br_has (tc_reasons (sc_tcbs s3 ! c)) BR_PARK)"
proof -
  obtain s2 where s2: "(if tick then (if sc_depleted_count (s\<lparr>sc_now := sc_now s + 1\<rparr>) > 0 then refill_depleted (s\<lparr>sc_now := sc_now s + 1\<rparr>)
      else Some (s\<lparr>sc_now := sc_now s + 1\<rparr>)) else Some s) = Some s2" "sinv g s2" "sc_current s2 = sc_current s"
  proof (cases "tick \<and> sc_depleted_count (s\<lparr>sc_now := sc_now s + 1\<rparr>) > 0")
    case True
    then show ?thesis using refill_depleted_keeps [of g "s\<lparr>sc_now := sc_now s + 1\<rparr>"] assms that by (auto simp: keepsf_def same_frame_def)
  next
    case False
    then show ?thesis using assms that [of "if tick then s\<lparr>sc_now := sc_now s + 1\<rparr> else s"] by (cases tick) auto
  qed
  from retire_hinv [OF s2(2), of frame tick] obtain s3 where s3: "retire_current s2 frame tick = Some s3" "hinv {} g s3" "sc_current s3 = sc_current s2"
    "\<forall>c. sc_current s3 = Some c \<longrightarrow> tc_used (sc_tcbs s3 ! c) \<and>
      \<not> br_has (tc_reasons (sc_tcbs s3 ! c)) BR_IPC \<and> \<not> br_has (tc_reasons (sc_tcbs s3 ! c)) BR_PARK" by blast
  have "on_tick s frame tick = (case dequeue_highest s3 of None \<Rightarrow> None | Some (s4, None) \<Rightarrow> Some (s4, frame) | Some (s4, Some x) \<Rightarrow> run_next s3)"
    using s2(1) s3(1) unfolding on_tick_def Let_def by (auto simp: run_next_def Let_def split: option.splits)
  moreover have "(case dequeue_highest s3 of None \<Rightarrow> None | Some (s4, None) \<Rightarrow> Some (s4, frame) | Some (s4, Some x) \<Rightarrow> run_next s3) =
      (case run_next s3 of None \<Rightarrow> Some (s3, frame) | Some r \<Rightarrow> Some r)"
    using dequeue_hinv [OF s3(2)]
  proof
    assume "dequeue_highest s3 = Some (s3, None) \<and> (\<forall>i<length (sc_tcbs s3). tc_queued (sc_tcbs s3 ! i) = NOT_QUEUED)"
    then show ?thesis by (simp add: run_next_def)
  next
    assume "\<exists>s' i. dequeue_highest s3 = Some (s', Some i) \<and> i < length (sc_tcbs s3) \<and> tc_queued (sc_tcbs s3 ! i) \<noteq> NOT_QUEUED \<and>
      tc_used (sc_tcbs s3 ! i) \<and> (i \<notin> {} \<longrightarrow> tc_reasons (sc_tcbs s3 ! i) = 0) \<and>
      hinv {} g s' \<and> requeued s3 s' \<and> tc_queued (sc_tcbs s' ! i) = NOT_QUEUED \<and>
      (\<forall>j<length (sc_tcbs s3). j \<noteq> i \<longrightarrow> tc_queued (sc_tcbs s' ! j) = tc_queued (sc_tcbs s3 ! j))"
    then show ?thesis using requeuedD(1) by (auto simp: run_next_def tcb_in Let_def)
  qed
  ultimately show ?thesis using s2(3) s3(2-4) by (intro exI [of _ s3]) simp
qed

lemma on_tick_keeps:
  assumes "sinv g s"
  shows "keeps g (on_tick s frame tick)"
proof -
  obtain s3 where s3: "on_tick s frame tick = (case run_next s3 of None \<Rightarrow> Some (s3, frame) | Some r \<Rightarrow> Some r)" "hinv {} g s3"
    "\<forall>c. sc_current s3 = Some c \<longrightarrow> tc_used (sc_tcbs s3 ! c) \<and>
      \<not> br_has (tc_reasons (sc_tcbs s3 ! c)) BR_IPC \<and> \<not> br_has (tc_reasons (sc_tcbs s3 ! c)) BR_PARK"
    using on_tick_shape [OF assms] by blast
  show ?thesis using run_next_ok [OF s3(2)] s3 hinvD(9) [OF s3(2)] sinvD(3) [OF assms] by (auto simp: sinv_def cur_ok_def)
qed

end
