(* ===== verification/SchedLife.thy ===== *)
theory SchedLife
  imports SchedTick
begin

text \<open>
  The invariant under creation, end and migration of threads. These operations also change the statics:
  \<open>dir_frame\<close> says that they touch no directory entry of another core.
\<close>

section \<open>Rules\<close>

lemma rq_ok_slot:
  assumes "rq_ok ts qs bm rq" "i < length ts" "tc_queued (ts ! i) = NOT_QUEUED" "tc_queued v = NOT_QUEUED"
  shows "rq_ok (ts[i := v]) qs bm rq"
proof -
  note D = rq_okD [OF assms(1)]
  have n: "unat NOT_QUEUED = 255" by (simp add: NOT_QUEUED_def)
  have out: "i \<notin> set (rq p)" if "p < 8" for p using D(4) [OF that, of i] assms(3) that n by auto
  have "head_ok (ts[i := v]) (qs ! p) (rq p)" if "p < 8" for p
  proof -
    have "dls (qn (ts[i := v])) (qp (ts[i := v])) None (rq p) None = dls (qn ts) (qp ts) None (rq p) None"
      by (rule dls_cong) (use out [OF that] assms(2) in \<open>auto simp: qn_upd qp_upd\<close>)
    then show ?thesis using D(3) [OF that] by (simp add: head_ok_def)
  qed
  moreover have "j \<in> set (rq p) \<longleftrightarrow> j < length ts \<and> unat (tc_queued (ts[i := v] ! j)) = p" if "p < 8" for p j
    using D(4) [OF that, of j] assms(2-4) out [OF that] that by (cases "j = i") (auto simp: n)
  moreover have "tc_queued (ts[i := v] ! j) = NOT_QUEUED \<or> unat (tc_queued (ts[i := v] ! j)) < 8" if "j < length ts" for j
    using D(5) [OF that] assms(2,4) by (cases "j = i") auto
  ultimately show ?thesis using D(1,2,6) unfolding rq_ok_def by simp
qed

lemma count_change:
  assumes "i < length ts"
  shows "length (filter P (ts[i := v])) + (if P (ts ! i) then 1 else 0) = length (filter P ts) + (if P v then 1 else 0)"
proof -
  have s: "ts = take i ts @ ts ! i # drop (Suc i) ts" using assms by (rule id_take_nth_drop)
  have u: "ts[i := v] = take i ts @ v # drop (Suc i) ts" using assms by (rule upd_conv_take_nth_drop)
  have "length (filter P ts) = length (filter P (take i ts)) + length (filter P (drop (Suc i) ts)) + (if P (ts ! i) then 1 else 0)"
    by (subst s) simp
  then show ?thesis unfolding u by simp
qed

abbreviation bb_used :: "Tcb \<Rightarrow> bool" where
  "bb_used t \<equiv> tc_used t \<and> budget_blocked t"

text \<open>A slot that is on no list gets a new content, with the free list and the statics changed along.\<close>

lemma hinv_slot:
  assumes "hinv X g s" "i < length (sc_tcbs s)" "tc_queued (sc_tcbs s ! i) = NOT_QUEUED" "tc_queued v = NOT_QUEUED"
    "hard g' (sc_core s) (length (sc_tcbs s)) i v"
    "\<And>j. j < length (sc_tcbs s) \<Longrightarrow> j \<noteq> i \<Longrightarrow> tc_used (sc_tcbs s ! j) \<Longrightarrow>
      dir_load g' (unat (tc_gid (sc_tcbs s ! j))) = dir_load g (unat (tc_gid (sc_tcbs s ! j)))"
    "fl_wf f" "fl_capacity f = length (sc_tcbs s)"
    "fl_in_use f = (if tc_used v then insert i (fl_in_use (sc_free s)) else fl_in_use (sc_free s) - {i})"
    "b + (if bb_used (sc_tcbs s ! i) then 1 else 0) = sc_budget_blocked_count s + (if bb_used v then 1 else 0)"
  shows "hinv X g' (s\<lparr>sc_tcbs := (sc_tcbs s)[i := v], sc_free := f, sc_budget_blocked_count := b\<rparr>)"
proof -
  let ?ts = "sc_tcbs s"
  obtain rq where rq: "rq_ok ?ts (sc_queues s) (sc_bitmap s) rq" using hinvD(1) [OF assms(1)] unfolding rq_inv_def by blast
  have a: "hard g' (sc_core s) (length ?ts) j (?ts[i := v] ! j) \<and>
    (j \<notin> X \<longrightarrow> tc_queued (?ts[i := v] ! j) \<noteq> NOT_QUEUED \<longrightarrow> tc_reasons (?ts[i := v] ! j) = 0)" if j: "j < length ?ts" for j
  proof (cases "j = i")
    case True
    then show ?thesis using j assms(4,5) by simp
  next
    case False
    then show ?thesis using j hinvD(4,5) [OF assms(1) j] assms(6) [OF j False] by (auto simp: hard_def)
  qed
  have u: "j \<in> fl_in_use f \<longleftrightarrow> tc_used (?ts[i := v] ! j)" if j: "j < length ?ts" for j
    using j hinvD(8) [OF assms(1) j] assms(2,9) by (cases "j = i") auto
  have c: "b = of_nat (length (filter bb_used (?ts[i := v])))"
  proof -
    have "sc_budget_blocked_count s = of_nat (length (filter bb_used ?ts))" using assms(1) by (simp add: hinv_def)
    moreover have "(of_nat (length (filter bb_used (?ts[i := v]))) :: u64) + (if bb_used (?ts ! i) then 1 else 0) =
      of_nat (length (filter bb_used ?ts)) + (if bb_used v then 1 else 0)"
      using arg_cong [OF count_change [OF assms(2), of bb_used v], of "of_nat :: nat \<Rightarrow> u64"]
      by (cases "bb_used v"; cases "bb_used (?ts ! i)") (simp_all only: simp_thms if_True if_False of_nat_add of_nat_1 of_nat_0 add_0_right)
    ultimately have "b + (if bb_used (?ts ! i) then 1 else 0) = of_nat (length (filter bb_used (?ts[i := v]))) + (if bb_used (?ts ! i) then 1 else 0)"
      using assms(10) by (simp only:)
    then show ?thesis by (rule add_right_imp_eq)
  qed
  show ?thesis
    using assms(1,7,8) a u c rq_ok_slot [OF rq assms(2-4)] unfolding hinv_def by simp blast
qed

lemma hinv_g:
  assumes "hinv X g s" "\<And>j. j < length (sc_tcbs s) \<Longrightarrow> tc_used (sc_tcbs s ! j) \<Longrightarrow>
      dir_load g' (unat (tc_gid (sc_tcbs s ! j))) = dir_load g (unat (tc_gid (sc_tcbs s ! j)))"
  shows "hinv X g' s"
proof -
  have "hard g' (sc_core s) (length (sc_tcbs s)) j (sc_tcbs s ! j)" if j: "j < length (sc_tcbs s)" for j
    using hinvD(4) [OF assms(1) j] assms(2) [OF j] by (auto simp: hard_def)
  then show ?thesis using assms(1) unfolding hinv_def by blast
qed

text \<open>An operation of a core changes only entries that are unused or belong to the core.\<close>

definition dir_frame :: "nat set \<Rightarrow> Statics \<Rightarrow> Statics \<Rightarrow> bool" where
  "dir_frame C g g' \<longleftrightarrow> length (g_directory g') = length (g_directory g) \<and>
     (\<forall>gid e. dir_used e \<longrightarrow> dir_core e \<notin> C \<longrightarrow> (dir_load g gid = Some e \<longleftrightarrow> dir_load g' gid = Some e))"

text \<open>Every entry of the core but those in \<open>X\<close> leads to the thread whose number it has.\<close>

definition dex :: "nat set \<Rightarrow> Statics \<Rightarrow> Scheduler \<Rightarrow> bool" where
  "dex X g s \<longleftrightarrow> (\<forall>x e. x \<notin> X \<longrightarrow> dir_load g x = Some e \<longrightarrow> dir_used e \<longrightarrow> dir_core e = sc_core s \<longrightarrow>
     dir_local e < length (sc_tcbs s) \<and> tc_used (sc_tcbs s ! dir_local e) \<and> unat (tc_gid (sc_tcbs s ! dir_local e)) = x \<and>
     tc_gen (sc_tcbs s ! dir_local e) = dir_gen e)"

lemma dex_mono: "dex X g s \<Longrightarrow> X \<subseteq> Y \<Longrightarrow> dex Y g s"
  unfolding dex_def by blast

lemma dex_ident:
  assumes "dex X g s" "length (sc_tcbs s') = length (sc_tcbs s)" "sc_core s' = sc_core s"
    "\<And>i. i < length (sc_tcbs s) \<Longrightarrow> ident (sc_tcbs s' ! i) = ident (sc_tcbs s ! i)"
  shows "dex X g s'"
  unfolding dex_def
proof (intro allI impI)
  fix x e
  assume x: "x \<notin> X" "dir_load g x = Some e" "dir_used e" "dir_core e = sc_core s'"
  then have l: "dir_local e < length (sc_tcbs s)" "tc_used (sc_tcbs s ! dir_local e)" "unat (tc_gid (sc_tcbs s ! dir_local e)) = x"
    "tc_gen (sc_tcbs s ! dir_local e) = dir_gen e" using assms(1,3) unfolding dex_def by auto
  then show "dir_local e < length (sc_tcbs s') \<and> tc_used (sc_tcbs s' ! dir_local e) \<and> unat (tc_gid (sc_tcbs s' ! dir_local e)) = x \<and>
      tc_gen (sc_tcbs s' ! dir_local e) = dir_gen e" using assms(2) assms(4) [OF l(1)] by (simp add: ident_def)
qed

lemma dex_same: "same_frame s s' \<Longrightarrow> dex X g s' = dex X g s"
  using dex_ident [of X g s s'] dex_ident [of X g s' s] by (auto simp: same_frame_def)

lemma dex_g: "dex X g s \<Longrightarrow> (\<And>x. dir_load g' x = dir_load g x) \<Longrightarrow> dex X g' s"
  unfolding dex_def by simp

lemma dex_tcbs: "dex X g s \<Longrightarrow> sc_tcbs s' = sc_tcbs s \<Longrightarrow> sc_core s' = sc_core s \<Longrightarrow> dex X g s'"
  unfolding dex_def by simp

lemma dir_frame_refl [simp]: "dir_frame C g g"
  by (simp add: dir_frame_def)

lemma dir_frame_trans: "dir_frame C g h \<Longrightarrow> dir_frame C h k \<Longrightarrow> dir_frame C g k"
  by (auto simp: dir_frame_def)

lemma dir_frame_mono: "dir_frame C g h \<Longrightarrow> C \<subseteq> D \<Longrightarrow> dir_frame D g h"
  unfolding dir_frame_def by blast

text \<open>
  The numbers of dead threads wait in the ring of zombies: taken from the pool, without an entry in use.
  \<open>zstep\<close> says that an operation keeps them and at most adds the number of a thread that died in it.
\<close>

definition zfree :: "Statics \<Rightarrow> nat \<Rightarrow> bool" where
  "zfree g gid \<longleftrightarrow> gid \<in> fl_in_use (g_gid_free g) \<and> (\<exists>e. dir_load g gid = Some e \<and> \<not> dir_used e)"

definition zmono :: "Statics \<Rightarrow> Statics \<Rightarrow> bool" where
  "zmono g g' \<longleftrightarrow> (\<forall>gid. zfree g gid \<longrightarrow> zfree g' gid)"

definition zlist :: "Scheduler \<Rightarrow> nat list" where
  "zlist s = map (\<lambda>k. unat (z_gid (sc_zombies s ! ((sc_zhead s + k) mod length (sc_zombies s))))) [0..<sc_zcount s]"

definition zring :: "Scheduler \<Rightarrow> bool" where
  "zring s \<longleftrightarrow> sc_zcount s \<le> length (sc_zombies s) \<and> (sc_zombies s \<noteq> [] \<longrightarrow> sc_ztail s = (sc_zhead s + sc_zcount s) mod length (sc_zombies s))"

definition zstep :: "Statics \<Rightarrow> Scheduler \<Rightarrow> Statics \<Rightarrow> Scheduler \<Rightarrow> bool" where
  "zstep g s g' s' \<longleftrightarrow> zmono g g' \<and> (zring s \<longrightarrow> zring s' \<and>
     (zlist s' = zlist s \<or> (\<exists>gid. zlist s' = zlist s @ [gid] \<and> \<not> zfree g gid \<and> zfree g' gid)))"

lemma zmono_refl [simp]: "zmono g g"
  by (simp add: zmono_def)

lemma zmono_trans: "zmono g h \<Longrightarrow> zmono h k \<Longrightarrow> zmono g k"
  by (simp add: zmono_def)

lemma outside_zlist: "outside False s s' \<Longrightarrow> zlist s' = zlist s \<and> zring s' = zring s"
  by (simp add: outside_def zlist_def zring_def)

lemma zstep_outside: "zmono g g' \<Longrightarrow> outside False s s' \<Longrightarrow> zstep g s g' s'"
  using outside_zlist [of s s'] by (simp add: zstep_def)

lemma push_zlist:
  assumes "push_zombie s z = Some s'" "zring s"
  shows "zring s' \<and> (zlist s' = zlist s \<or> zlist s' = zlist s @ [unat (z_gid z)])"
proof (cases "sc_zcount s < length (sc_zombies s)")
  case False
  then show ?thesis using assms by (simp add: push_zombie_def)
next
  case True
  let ?n = "length (sc_zombies s)"
  have ne: "sc_zombies s \<noteq> []" using True by auto
  then have t: "sc_ztail s = (sc_zhead s + sc_zcount s) mod ?n" using assms(2) by (simp add: zring_def)
  then have tl: "sc_ztail s < ?n" using True by (metis mod_less_divisor not_less0 neq0_conv)
  have s': "s' = s\<lparr>sc_zombies := (sc_zombies s)[sc_ztail s := z], sc_ztail := (sc_ztail s + 1) mod ?n, sc_zcount := sc_zcount s + 1\<rparr>"
    using assms(1) True tl by (simp add: push_zombie_def table_simps)
  have r: "zring s'" using True t by (simp add: s' zring_def mod_Suc_eq)
  have old: "(sc_zhead s + k) mod ?n \<noteq> sc_ztail s" if "k < sc_zcount s" for k
  proof
    assume "(sc_zhead s + k) mod ?n = sc_ztail s"
    then have "?n dvd (sc_zhead s + sc_zcount s) - (sc_zhead s + k)"
      unfolding t using that by (subst mod_eq_dvd_iff_nat [symmetric]) simp_all
    then have "?n dvd sc_zcount s - k" by simp
    then show False using that True by (auto dest: dvd_imp_le)
  qed
  have "(sc_zombies s)[sc_ztail s := z] ! ((sc_zhead s + k) mod ?n) = sc_zombies s ! ((sc_zhead s + k) mod ?n)" if "k < sc_zcount s" for k
    using old [OF that] by simp
  then have "zlist s' = zlist s @ [unat (z_gid z)]"
    using tl by (simp add: zlist_def s' t [symmetric])
  then show ?thesis using r by simp
qed

lemma dir_load_fields [simp]:
  "dir_load (g\<lparr>g_gid_free := f\<rparr>) gid = dir_load g gid" "dir_load (g\<lparr>g_core_load := l\<rparr>) gid = dir_load g gid"
  "dir_load (g\<lparr>g_core_online := on\<rparr>) gid = dir_load g gid" "dir_load (g\<lparr>g_zombie_gesamt := n\<rparr>) gid = dir_load g gid"
  "dir_load (g\<lparr>g_zombie_fuesse := n\<rparr>) gid = dir_load g gid"
  by (simp_all add: dir_load_def)

lemma dir_load_store: "dir_load (dir_store g gid v) x = (if x = gid \<and> gid < length (g_directory g) then Some v else dir_load g x)"
  by (auto simp: dir_load_def dir_store_def tget_def)

lemma set_core_load_ok: "g_inv g \<Longrightarrow> c < 256 \<Longrightarrow> \<exists>ls. length ls = 256 \<and> set_core_load g c n = Some (g\<lparr>g_core_load := ls\<rparr>)"
  by (rule exI [of _ "(g_core_load g)[c := n]"]) (simp add: set_core_load_def g_inv_def table_simps)

text \<open>The directory leads from the number of a thread to its slot and nowhere else.\<close>

lemma used_dir:
  assumes "hinv X g s" "i < length (sc_tcbs s)" "tc_used (sc_tcbs s ! i)"
  shows "dir_load g (unat (tc_gid (sc_tcbs s ! i))) = Some (pack_dir True (tc_gen (sc_tcbs s ! i)) (sc_core s) i)"
    "dir_used (pack_dir True (tc_gen (sc_tcbs s ! i)) (sc_core s) i)" "dir_core (pack_dir True (tc_gen (sc_tcbs s ! i)) (sc_core s) i) = sc_core s"
    "dir_local (pack_dir True (tc_gen (sc_tcbs s ! i)) (sc_core s) i) = i" "dir_gen (pack_dir True (tc_gen (sc_tcbs s ! i)) (sc_core s) i) = tc_gen (sc_tcbs s ! i)"
    "tc_gen (sc_tcbs s ! i) < 2 ^ 31"
proof -
  have h: "tc_gen (sc_tcbs s ! i) < 2 ^ 31" "dir_load g (unat (tc_gid (sc_tcbs s ! i))) = Some (pack_dir True (tc_gen (sc_tcbs s ! i)) (sc_core s) i)"
    using hinvD(4) [OF assms(1,2)] assms(3) by (simp_all add: hard_def)
  have b: "sc_core s < 2 ^ 16" "i < 2 ^ 16" using hinvD(2,3) [OF assms(1)] assms(2) by simp_all
  show "dir_load g (unat (tc_gid (sc_tcbs s ! i))) = Some (pack_dir True (tc_gen (sc_tcbs s ! i)) (sc_core s) i)" using h by simp
  show "dir_used (pack_dir True (tc_gen (sc_tcbs s ! i)) (sc_core s) i)" using dir_used_pack [OF h(1) b] by simp
  show "dir_core (pack_dir True (tc_gen (sc_tcbs s ! i)) (sc_core s) i) = sc_core s" using dir_core_pack [OF h(1) b] .
  show "dir_local (pack_dir True (tc_gen (sc_tcbs s ! i)) (sc_core s) i) = i" using dir_local_pack [OF h(1) b] .
  show "dir_gen (pack_dir True (tc_gen (sc_tcbs s ! i)) (sc_core s) i) = tc_gen (sc_tcbs s ! i)" using dir_gen_pack [OF h(1) b] .
  show "tc_gen (sc_tcbs s ! i) < 2 ^ 31" using h by simp
qed

lemma gid_distinct:
  assumes "hinv X g s" "i < length (sc_tcbs s)" "j < length (sc_tcbs s)" "tc_used (sc_tcbs s ! i)" "tc_used (sc_tcbs s ! j)" "i \<noteq> j"
  shows "tc_gid (sc_tcbs s ! i) \<noteq> tc_gid (sc_tcbs s ! j)"
proof
  assume "tc_gid (sc_tcbs s ! i) = tc_gid (sc_tcbs s ! j)"
  then have "pack_dir True (tc_gen (sc_tcbs s ! i)) (sc_core s) i = pack_dir True (tc_gen (sc_tcbs s ! j)) (sc_core s) j"
    using used_dir(1) [OF assms(1,2,4)] used_dir(1) [OF assms(1,3,5)] by simp
  then show False using used_dir(4) [OF assms(1,2,4)] used_dir(4) [OF assms(1,3,5)] assms(6) by simp
qed

lemma resolve_id:
  assumes "hinv X g s" "i < length (sc_tcbs s)" "tc_used (sc_tcbs s ! i)"
  shows "sch_resolve g s \<lparr>t_slot = unat (tc_gid (sc_tcbs s ! i)), t_gen = tc_gen (sc_tcbs s ! i)\<rparr> = Some i"
  using used_dir [OF assms] assms by (simp add: sch_resolve_def tcb_in)

text \<open>A thread of another core, or one without entry, is not touched.\<close>

lemma hinv_frame:
  assumes "hinv X g s" "dir_frame C g g'" "sc_core s \<notin> C"
  shows "hinv X g' s"
proof (rule hinv_g [OF assms(1)])
  fix j
  assume j: "j < length (sc_tcbs s)" "tc_used (sc_tcbs s ! j)"
  note d = used_dir [OF assms(1) j]
  show "dir_load g' (unat (tc_gid (sc_tcbs s ! j))) = dir_load g (unat (tc_gid (sc_tcbs s ! j)))"
    using assms(2,3) d(1-3) unfolding dir_frame_def by metis
qed


section \<open>The end of a thread\<close>

lemma remove_sinv:
  assumes "sinv g s" "i < length (sc_tcbs s)"
  shows "\<exists>s'. remove_from_ready s i = Some s' \<and> sinv g s' \<and> requeued s s' \<and> tc_queued (sc_tcbs s' ! i) = NOT_QUEUED"
proof -
  note h = sinvD(1) [OF assms(1)] and c = sinvD(2) [OF assms(1)]
  from remove_hinv [OF h assms(2), of "{}"] obtain s' where s': "remove_from_ready s i = Some s'" "hinv {} g s'" "requeued s s'"
    "tc_queued (sc_tcbs s' ! i) = NOT_QUEUED" "\<forall>j<length (sc_tcbs s). j \<noteq> i \<longrightarrow> tc_queued (sc_tcbs s' ! j) = tc_queued (sc_tcbs s ! j)" by auto
  have "cur_ok s'"
  proof (rule cur_ok_requeue [OF c s'(3) h])
    fix d
    assume d: "sc_current s = Some d"
    then show "tc_queued (sc_tcbs s' ! d) = NOT_QUEUED" using c s'(4,5) sinvD(5) [OF assms(1) d] by (cases "d = i") (auto simp: cur_ok_def)
  qed
  then show ?thesis using s' assms(1) by (auto simp: sinv_def)
qed

lemma gen_mask: "(gen + 1) AND ucast D_GEN_MASK < (2 ^ 31 :: u32)"
proof -
  have "ucast D_GEN_MASK = (mask 31 :: u32)" by (simp add: D_GEN_MASK_def mask_eq_exp_minus_1)
  then have "unat ((gen + 1) AND ucast D_GEN_MASK) = unat (take_bit 31 (gen + 1))" by (simp add: take_bit_eq_mask)
  also have "\<dots> < 2 ^ 31" unfolding unsigned_take_bit_eq by (rule take_bit_nat_less_exp)
  finally show ?thesis by (simp add: word_less_nat_alt)
qed

lemma Tcb_EMPTY_hard [simp]: "hard g c n i Tcb_EMPTY" "tc_queued Tcb_EMPTY = NOT_QUEUED" "\<not> tc_used Tcb_EMPTY"
  by (simp_all add: hard_def Tcb_EMPTY_def)

lemma g_inv_store:
  assumes "g_inv g" "dir_used v \<Longrightarrow> gid \<in> fl_in_use (g_gid_free g)"
  shows "g_inv (dir_store g gid v)"
proof -
  have "\<not> dir_used ((g_directory g)[gid := v] ! x)" if "x < length (g_directory g)" "x \<notin> fl_in_use (g_gid_free g)" for x
    using assms that by (cases "x = gid") (auto simp: g_inv_def)
  then show ?thesis using assms(1) by (simp add: g_inv_def dir_store_def)
qed

lemma dir_frame_store:
  assumes "dir_load g gid = Some e" "dir_used e \<Longrightarrow> dir_core e \<in> C" "dir_used v \<Longrightarrow> dir_core v \<in> C"
  shows "dir_frame C g (dir_store g gid v)"
proof -
  have "length (g_directory (dir_store g gid v)) = length (g_directory g)" by (simp add: dir_store_def)
  then show ?thesis using assms unfolding dir_frame_def dir_load_store by auto
qed

lemma bury_ok:
  assumes "hinv {} g s" "g_inv g" "i < length (sc_tcbs s)" "tc_used (sc_tcbs s ! i)" "tc_queued (sc_tcbs s ! i) = NOT_QUEUED"
  shows "\<exists>g' s'. bury g s i = Some (g', s') \<and> hinv {} g' s' \<and> g_inv g' \<and> dir_frame {sc_core s} g g' \<and>
    sc_tcbs s' = (sc_tcbs s)[i := Tcb_EMPTY] \<and> sc_current s' = sc_current s \<and> sc_core s' = sc_core s \<and>
    dir_load g' (unat (tc_gid (sc_tcbs s ! i))) = Some (pack_dir False ((tc_gen (sc_tcbs s ! i) + 1) AND ucast D_GEN_MASK) 0 0) \<and>
    g_gid_free g' = g_gid_free g \<and> (\<forall>x. x \<noteq> unat (tc_gid (sc_tcbs s ! i)) \<longrightarrow> dir_load g' x = dir_load g x) \<and>
    (dex {} g s \<longrightarrow> dex {} g' s')"
proof -
  let ?t = "sc_tcbs s ! i"
  define e where "e = pack_dir False ((tc_gen ?t + 1) AND ucast D_GEN_MASK) 0 0"
  define g1 where "g1 = dir_store g (unat (tc_gid ?t)) e"
  define b where "b = (if budget_blocked ?t then sc_budget_blocked_count s - 1 else sc_budget_blocked_count s)"
  define f where "f = fl_free (sc_free s) i"
  define d where "d = (if tc_depleted ?t then sc_depleted_count s - 1 else sc_depleted_count s)"
  note u = used_dir [OF assms(1,3,4)]
  have ne: "\<not> dir_used e" unfolding e_def using dir_used_pack [OF gen_mask [of "tc_gen ?t"], of 0 0] by simp
  have gl: "unat (tc_gid ?t) < length (g_directory g)" using u(1) by (simp add: dir_load_def tget_eq_Some_iff)
  have g1: "g_inv g1" unfolding g1_def by (rule g_inv_store [OF assms(2)]) (simp add: ne)
  have fr: "dir_frame {sc_core s} g g1"
    unfolding g1_def by (rule dir_frame_store [OF u(1)]) (simp_all add: u(3) ne)
  have iu: "i \<in> fl.in_use (sc_free s)" unfolding fl_in_use_eq using hinvD(8) [OF assms(1,3)] assms(4) by simp
  note rel = fl.release_in_use [OF hinvD(6) [OF assms(1)] iu, unfolded fl_in_use_eq]
  have h: "hinv {} g1 (s\<lparr>sc_tcbs := (sc_tcbs s)[i := Tcb_EMPTY], sc_free := f, sc_budget_blocked_count := b\<rparr>)"
  proof (rule hinv_slot [OF assms(1,3,5)])
    fix j
    assume "j < length (sc_tcbs s)" "j \<noteq> i" "tc_used (sc_tcbs s ! j)"
    then have "unat (tc_gid (sc_tcbs s ! j)) \<noteq> unat (tc_gid ?t)" using gid_distinct [OF assms(1) _ assms(3) _ assms(4)] by (metis unsigned_word_eqI)
    then show "dir_load g1 (unat (tc_gid (sc_tcbs s ! j))) = dir_load g (unat (tc_gid (sc_tcbs s ! j)))" by (simp add: g1_def dir_load_store)
  qed (use rel hinvD(7) [OF assms(1)] assms(4) in \<open>simp_all add: f_def b_def\<close>)
  from set_core_load_ok [OF g1 hinvD(3) [OF assms(1)], of "sc_used s - 1"] obtain ls where
    ls: "length ls = 256" "set_core_load g1 (sc_core s) (sc_used s - 1) = Some (g1\<lparr>g_core_load := ls\<rparr>)" by blast
  define s' where "s' = s\<lparr>sc_tcbs := (sc_tcbs s)[i := Tcb_EMPTY], sc_free := f, sc_budget_blocked_count := b, sc_depleted_count := d, sc_used := sc_used s - 1\<rparr>"
  have "bury g s i = Some (g1\<lparr>g_core_load := ls\<rparr>, s')"
    unfolding bury_def s'_def Let_def b_def d_def f_def
    using assms(3) ls(2) by (auto simp: tcb_in modt_in g1_def [symmetric] e_def [symmetric] Let_def)
  moreover have "hinv {} g1 s'" unfolding s'_def using h by simp
  then have "hinv {} (g1\<lparr>g_core_load := ls\<rparr>) s'" by (rule hinv_g) simp
  moreover have "g_inv (g1\<lparr>g_core_load := ls\<rparr>)" using g1 ls(1) by (simp add: g_inv_def)
  moreover have "dir_frame {sc_core s} g (g1\<lparr>g_core_load := ls\<rparr>)" using fr by (simp add: dir_frame_def)
  moreover have "dir_load (g1\<lparr>g_core_load := ls\<rparr>) (unat (tc_gid ?t)) = Some e" "g_gid_free (g1\<lparr>g_core_load := ls\<rparr>) = g_gid_free g"
    using gl by (simp_all add: g1_def dir_load_store) (simp add: dir_store_def)
  moreover have "sc_tcbs s' = (sc_tcbs s)[i := Tcb_EMPTY]" "sc_current s' = sc_current s" "sc_core s' = sc_core s" by (simp_all add: s'_def)
  moreover have "\<forall>x. x \<noteq> unat (tc_gid ?t) \<longrightarrow> dir_load (g1\<lparr>g_core_load := ls\<rparr>) x = dir_load g x" by (simp add: g1_def dir_load_store)
  moreover have "dex {} g s \<longrightarrow> dex {} (g1\<lparr>g_core_load := ls\<rparr>) s'"
  proof
    assume d: "dex {} g s"
    show "dex {} (g1\<lparr>g_core_load := ls\<rparr>) s'" unfolding dex_def
    proof (intro allI impI)
      fix x y
      assume x: "x \<notin> {}" "dir_load (g1\<lparr>g_core_load := ls\<rparr>) x = Some y" "dir_used y" "dir_core y = sc_core s'"
      have n: "x \<noteq> unat (tc_gid ?t)" using x(2,3) ne gl by (auto simp: g1_def dir_load_store)
      then have l: "dir_local y < length (sc_tcbs s)" "tc_used (sc_tcbs s ! dir_local y)" "unat (tc_gid (sc_tcbs s ! dir_local y)) = x"
        "tc_gen (sc_tcbs s ! dir_local y) = dir_gen y"
        using d x unfolding dex_def by (auto simp: s'_def g1_def dir_load_store)
      then have "dir_local y \<noteq> i" using n by auto
      then show "dir_local y < length (sc_tcbs s') \<and> tc_used (sc_tcbs s' ! dir_local y) \<and> unat (tc_gid (sc_tcbs s' ! dir_local y)) = x \<and>
        tc_gen (sc_tcbs s' ! dir_local y) = dir_gen y" using l by (simp add: s'_def)
    qed
  qed
  ultimately show ?thesis unfolding e_def by blast
qed

lemma push_zombie_ok:
  assumes "hinv X g s"
  shows "\<exists>s'. push_zombie s z = Some s' \<and> hinv X g s' \<and> sc_tcbs s' = sc_tcbs s \<and> sc_current s' = sc_current s \<and> sc_core s' = sc_core s"
proof (cases "sc_zcount s < length (sc_zombies s)")
  case False
  then show ?thesis using assms by (simp add: push_zombie_def)
next
  case True
  then have t: "sc_ztail s < length (sc_zombies s)" "sc_zhead s < length (sc_zombies s)" using assms unfolding hinv_def by auto
  define s' where "s' = s\<lparr>sc_zombies := (sc_zombies s)[sc_ztail s := z], sc_ztail := (sc_ztail s + 1) mod length (sc_zombies s), sc_zcount := sc_zcount s + 1\<rparr>"
  have "push_zombie s z = Some s'" using True t by (simp add: push_zombie_def table_simps s'_def)
  moreover have "hinv X g s'" using assms True t unfolding hinv_def s'_def by simp
  ultimately show ?thesis by (auto simp: s'_def)
qed


lemma zombie_release_keeps:
  assumes "sinv g s" "d < length (sc_tcbs s)"
  shows "keepsf g s (zombie_release i d s)"
proof (cases "d \<noteq> i \<and> tc_used (sc_tcbs s ! d) \<and> tc_sc_donor (sc_tcbs s ! d) = Some i")
  case False
  then show ?thesis using assms by (auto simp: zombie_release_def tcb_in)
next
  case True
  define s1 where "s1 = s\<lparr>sc_tcbs := (sc_tcbs s)[d := (sc_tcbs s ! d)\<lparr>tc_sc_donor := None\<rparr>]\<rparr>"
  have s1: "sinv g s1" unfolding s1_def by (rule sinv_attr [OF assms]) (use sinvD(4) [OF assms] in simp_all)
  have f: "same_frame s s1" unfolding s1_def by (rule same_frame_upd) (simp_all add: assms(2))
  have e: "modt s d (\<lambda>t. t\<lparr>tc_sc_donor := None\<rparr>) = Some s1" using assms(2) by (simp add: modt_in s1_def)
  show ?thesis
  proof (cases "budget_blocked (sc_tcbs s ! d)")
    case False
    then show ?thesis using True assms(2) s1 f e by (simp add: zombie_release_def tcb_in)
  next
    case b: True
    from release_budget [OF s1, of d] True b assms(2) obtain s2 s3 where
      "set_budget_blocked s1 d False = Some s2" "wecke_falls_lauffaehig s2 d = Some s3" "sinv g s3" "same_frame s1 s3" by (auto simp: s1_def)
    then show ?thesis using True b assms(2) e same_frame_trans [OF f] by (simp add: zombie_release_def tcb_in)
  qed
qed

lemma record_zombie_ok:
  assumes "sinv g s" "i < length (sc_tcbs s)" "tc_used (sc_tcbs s ! i)"
  shows "\<exists>g' s'. record_zombie hier g s i = Some (g', s') \<and> hinv {} g' s' \<and> g_inv g' \<and> dir_frame {sc_core s} g g' \<and>
    sc_current s' = sc_current s \<and> sc_core s' = sc_core s \<and> length (sc_tcbs s') = length (sc_tcbs s) \<and>
    (sc_current s \<noteq> Some i \<longrightarrow> cur_ok s') \<and> \<not> tc_used (sc_tcbs s' ! i) \<and> zstep g s g' s' \<and> (dex {} g s \<longrightarrow> dex {} g' s') \<and>
    dir_load g' (unat (tc_gid (sc_tcbs s ! i))) = Some (pack_dir False ((tc_gen (sc_tcbs s ! i) + 1) AND ucast D_GEN_MASK) 0 0)"
proof -
  have "keepsf g s (for_slots (zombie_release i) [0..<length (sc_tcbs s)] s)"
    by (rule for_slots_keepsf [OF _ assms(1)]) (simp add: zombie_release_keeps same_frame_def)
  then obtain s1 where s1: "for_slots (zombie_release i) [0..<length (sc_tcbs s)] s = Some s1" "sinv g s1" "same_frame s s1" by (auto simp: keepsf_def)
  have i1: "i < length (sc_tcbs s1)" using assms(2) s1(3) by (simp add: same_frame_def)
  have u1: "tc_used (sc_tcbs s1 ! i)" using same_frame_used [OF assms(1) s1(2,3) assms(2)] assms(3) by simp
  have d1: "\<And>a. tc_sc_donor (sc_tcbs s1 ! i) = Some a \<Longrightarrow> a < length (sc_tcbs s1)" using sinvD(6) [OF s1(2) i1] .
  from clear_donee_hinv [OF sinvD(1) [OF s1(2)] d1, of "tc_sc_donor (sc_tcbs s1 ! i)" i] obtain s2 where
    s2: "clear_donee s1 (tc_sc_donor (sc_tcbs s1 ! i)) i = Some s2" "s2 = s1\<lparr>sc_tcbs := sc_tcbs s2\<rparr>" "length (sc_tcbs s2) = length (sc_tcbs s1)"
      "\<forall>j<length (sc_tcbs s1). \<exists>d. sc_tcbs s2 ! j = (sc_tcbs s1 ! j)\<lparr>tc_sc_donee := d\<rparr>" by blast
  have k2: "sinv g s2" using clear_donee_keeps [OF s1(2) d1, of "tc_sc_donor (sc_tcbs s1 ! i)" i] s2(1) by simp
  have "sc_current s2 = sc_current s1" "sc_core s2 = sc_core s1" "sc_now s2 = sc_now s1" "sc_free s2 = sc_free s1" by (subst s2(2), simp)+
  moreover have "ident (sc_tcbs s2 ! j) = ident (sc_tcbs s1 ! j)" if "j < length (sc_tcbs s1)" for j
    using s2(4) that by fastforce
  ultimately have f2: "same_frame s s2" using s1(3) s2(3) by (simp add: same_frame_def)
  have i2: "i < length (sc_tcbs s2)" using i1 s2(3) by simp
  obtain s3 where s3: "remove_from_ready s2 i = Some s3" "sinv g s3" "requeued s2 s3" "tc_queued (sc_tcbs s3 ! i) = NOT_QUEUED"
    using remove_sinv [OF k2 i2] by blast
  have f3: "same_frame s s3" using same_frame_trans [OF f2 requeued_same_frame [OF s3(3)]] .
  have i3: "i < length (sc_tcbs s3)" "tc_used (sc_tcbs s3 ! i)"
    using f3 assms(2) same_frame_used [OF assms(1) s3(2) f3 assms(2)] assms(3) by (simp_all add: same_frame_def)
  have gid3: "unat (tc_gid (sc_tcbs s3 ! i)) = unat (tc_gid (sc_tcbs s ! i)) \<and> tc_gen (sc_tcbs s3 ! i) = tc_gen (sc_tcbs s ! i)"
    using f3 assms(2) by (simp add: same_frame_def ident_def)
  from bury_ok [OF sinvD(1,3) [OF s3(2)] i3 s3(4)] obtain g4 s4 where
    s4: "bury g s3 i = Some (g4, s4)" "hinv {} g4 s4" "g_inv g4" "dir_frame {sc_core s3} g g4" "sc_tcbs s4 = (sc_tcbs s3)[i := Tcb_EMPTY]"
      "sc_current s4 = sc_current s3" "sc_core s4 = sc_core s3"
      "dir_load g4 (unat (tc_gid (sc_tcbs s3 ! i))) = Some (pack_dir False ((tc_gen (sc_tcbs s3 ! i) + 1) AND ucast D_GEN_MASK) 0 0)"
      "g_gid_free g4 = g_gid_free g" "\<forall>x. x \<noteq> unat (tc_gid (sc_tcbs s3 ! i)) \<longrightarrow> dir_load g4 x = dir_load g x"
      "dex {} g s3 \<longrightarrow> dex {} g4 s4" by blast
  define z where "z = \<lparr>z_base = tc_stack_base (sc_tcbs s3 ! i), z_len = tc_stack_len (sc_tcbs s3 ! i), z_gid = tc_gid (sc_tcbs s3 ! i)\<rparr>"
  obtain s5 where s5: "push_zombie s4 z = Some s5" "hinv {} g4 s5" "sc_tcbs s5 = sc_tcbs s4" "sc_current s5 = sc_current s4" "sc_core s5 = sc_core s4"
    using push_zombie_ok [OF s4(2), of z] by blast
  obtain g5 where g5: "record_zombie hier g s i = Some (g5, s5)" "\<exists>a b. g5 = g4\<lparr>g_zombie_gesamt := a, g_zombie_fuesse := b\<rparr>"
  proof
    let ?t = "sc_tcbs s3 ! i"
    let ?g5 = "if tc_stack_len ?t \<noteq> 0 then g4\<lparr>g_zombie_gesamt := g_zombie_gesamt g4 + 1,
        g_zombie_fuesse := (if tc_stack_base ?t \<le> hier \<and> hier < (tc_stack_base ?t + tc_stack_len ?t) mod 2 ^ 64 then g_zombie_fuesse g4 + 1 else g_zombie_fuesse g4)\<rparr> else g4"
    show "record_zombie hier g s i = Some (?g5, s5)"
      using s1(1) i1 s2(1) s3(1) i3(1) s4(1) s5(1) by (simp add: record_zombie_def tcb_in z_def Let_def)
    show "\<exists>a b. ?g5 = g4\<lparr>g_zombie_gesamt := a, g_zombie_fuesse := b\<rparr>"
      by (rule exI [of _ "g_zombie_gesamt ?g5"], rule exI [of _ "g_zombie_fuesse ?g5"]) simp
  qed
  then obtain a b where ab: "g5 = g4\<lparr>g_zombie_gesamt := a, g_zombie_fuesse := b\<rparr>" by blast
  have "hinv {} g5 s5" using s5(2) by (rule hinv_g) (simp add: ab)
  moreover have "g_inv g5" "dir_frame {sc_core s} g g5" using s4(3,4) f3 by (simp_all add: ab g_inv_def dir_frame_def same_frame_def)
  moreover have "sc_current s \<noteq> Some i \<longrightarrow> cur_ok s5"
  proof
    assume "sc_current s \<noteq> Some i"
    then have "sc_current s3 \<noteq> Some i" using f3 by (simp add: same_frame_def)
    then show "cur_ok s5" using sinvD(2) [OF s3(2)] s5(3,4) s4(5,6) by (auto simp: cur_ok_def)
  qed
  moreover have "\<not> tc_used (sc_tcbs s5 ! i)" using s5(3) s4(5) i3(1) by simp
  moreover have "zstep g s g5 s5"
  proof -
    let ?gid = "unat (tc_gid (sc_tcbs s ! i))"
    have "out1 False s (for_slots (zombie_release i) [0..<length (sc_tcbs s)] s)" by (rule out_for1) (auto intro: out_zombie_release)
    then have "outside False s s1" using s1(1) by simp
    moreover have "outside False s1 s2" "outside False s2 s3" using out_clear [OF outside_refl] out_remove [OF outside_refl] s2(1) s3(1) by (auto simp: out1_def)
    ultimately have "outside False s s4" using out_bury [OF s4(1)] outside_trans by blast
    then have o: "zlist s4 = zlist s" "zring s4 = zring s" using outside_zlist by blast+
    note u = used_dir [OF sinvD(1) [OF assms(1)] assms(2,3)]
    have d: "dir_load g5 ?gid = Some (pack_dir False ((tc_gen (sc_tcbs s ! i) + 1) AND ucast D_GEN_MASK) 0 0)" using s4(8) gid3 by (simp add: ab)
    have nd: "\<not> dir_used (pack_dir False ((tc_gen (sc_tcbs s ! i) + 1) AND ucast D_GEN_MASK) 0 0)"
      using dir_used_pack [OF gen_mask [of "tc_gen (sc_tcbs s ! i)"], of 0 0] by simp
    have f: "g_gid_free g5 = g_gid_free g" using s4(9) by (simp add: ab)
    have iu: "?gid \<in> fl_in_use (g_gid_free g)" using sinvD(3) [OF assms(1)] u(1,2) by (auto simp: g_inv_def dir_load_def tget_eq_Some_iff)
    have z: "\<not> zfree g ?gid" "zfree g5 ?gid" using u(1,2) d nd iu f by (auto simp: zfree_def)
    have "zmono g g5" unfolding zmono_def
    proof (intro allI impI)
      fix x
      assume x: "zfree g x"
      then have "x \<noteq> ?gid" using z by blast
      then have "dir_load g5 x = dir_load g x" using s4(10) gid3 by (simp add: ab)
      then show "zfree g5 x" using x f by (simp add: zfree_def)
    qed
    then show ?thesis using push_zlist [OF s5(1)] o z gid3 by (auto simp: zstep_def z_def)
  qed
  moreover have "dex {} g s \<longrightarrow> dex {} g5 s5"
    using s4(11) dex_same [OF f3, of "{}" g] dex_tcbs [OF _ s5(3,5), of "{}" g4] dex_g [of "{}" g4 s5 g5] by (simp add: ab)
  ultimately show ?thesis using g5(1) s4 s5 f3 gid3 ab by (simp add: same_frame_def)
qed


end
