(* ===== verification/SchedSpawn.thy ===== *)
theory SchedSpawn
  imports SchedLife
begin

text \<open>
  The invariant under \<open>kill\<close> and \<open>exit_current\<close>, the creation of threads and their migration between
  cores.
\<close>

section \<open>End\<close>

text \<open>Results with new statics.\<close>

definition keepsg :: "Statics \<Rightarrow> Scheduler \<Rightarrow> ((Statics \<times> Scheduler) \<times> 'a) option \<Rightarrow> bool" where
  "keepsg g s r \<longleftrightarrow> (case r of None \<Rightarrow> False | Some ((g', s'), _) \<Rightarrow>
     sinv g' s' \<and> dir_frame {sc_core s} g g' \<and> sc_core s' = sc_core s \<and> length (sc_tcbs s') = length (sc_tcbs s) \<and> zstep g s g' s' \<and> (dex {} g s \<longrightarrow> dex {} g' s'))"

lemma zstep_refl [simp]: "zstep g s g s"
  by (simp add: zstep_outside)

lemma zstep_before: "outside False s t \<Longrightarrow> zstep g t g' u \<Longrightarrow> zstep g s g' u"
  using outside_zlist [of s t] by (simp add: zstep_def)

lemma zstep_after: "zstep g s g' t \<Longrightarrow> outside False t u \<Longrightarrow> zstep g s g' u"
  using outside_zlist [of t u] by (simp add: zstep_def)

lemma kill_keeps:
  assumes "sinv g s"
  shows "keepsg g s (kill hier g s tid)"
proof (cases "sch_resolve g s tid")
  case None
  then show ?thesis using assms by (simp add: kill_def keepsg_def)
next
  case (Some i)
  have i: "i < length (sc_tcbs s)" "tc_used (sc_tcbs s ! i)" using resolve_in [OF Some] by simp_all
  show ?thesis
  proof (cases "sc_current s = Some i")
    case True
    then show ?thesis using Some assms by (simp add: kill_def keepsg_def)
  next
    case False
    obtain s1 where s1: "remove_from_ready s i = Some s1" "sinv g s1" "requeued s s1" using remove_sinv [OF assms i(1)] by blast
    have f: "same_frame s s1" using requeued_same_frame [OF s1(3)] .
    have i1: "i < length (sc_tcbs s1)" "tc_used (sc_tcbs s1 ! i)" using f i by (simp_all add: same_frame_def ident_def)
    obtain g2 s2 where "record_zombie hier g s1 i = Some (g2, s2)" "hinv {} g2 s2" "g_inv g2" "dir_frame {sc_core s1} g g2"
      "sc_current s2 = sc_current s1" "sc_core s2 = sc_core s1" "length (sc_tcbs s2) = length (sc_tcbs s1)" "sc_current s1 \<noteq> Some i \<longrightarrow> cur_ok s2" "zstep g s1 g2 s2" "dex {} g s1 \<longrightarrow> dex {} g2 s2"
      using record_zombie_ok [OF s1(2) i1, of hier] by blast
    moreover have "outside False s s1" using out_remove [OF outside_refl, of False s i] s1(1) by simp
    ultimately show ?thesis using Some False s1(1) f by (simp add: kill_def keepsg_def sinv_def same_frame_def zstep_before dex_same [OF f])
  qed
qed

definition keepsg_if :: "Statics \<Rightarrow> Scheduler \<Rightarrow> ((Statics \<times> Scheduler) \<times> 'a) option \<Rightarrow> bool" where
  "keepsg_if g s r \<longleftrightarrow> r = None \<or> keepsg g s r"

lemma outside_dex: "outside True s s' \<Longrightarrow> dex X g s' = dex X g s"
proof -
  assume a: "outside True s s'"
  have l: "length (sc_tcbs s') = length (sc_tcbs s)" using a by (metis length_map outside_def)
  have e: "ident (sc_tcbs s' ! i) = ident (sc_tcbs s ! i)" if "i < length (sc_tcbs s)" for i
    using a l that by (metis nth_map outside_def)
  show ?thesis using dex_ident [of X g s s'] dex_ident [of X g s' s] a l e by (auto simp: outside_def)
qed

lemma outside_weak: "outside True s s' \<Longrightarrow> outside False s s'"
  by (simp add: outside_def)

lemma outside_length: "outside True s s' \<Longrightarrow> length (sc_tcbs s') = length (sc_tcbs s)"
  unfolding outside_def by (metis length_map)

lemma exit_keeps:
  assumes "sinv g s"
  shows "keepsg_if g s (exit_current hier g s)"
proof (cases "sc_current s")
  case None
  then show ?thesis by (simp add: exit_current_def keepsg_if_def)
next
  case (Some cur)
  have c: "cur < length (sc_tcbs s)" "tc_used (sc_tcbs s ! cur)" using sinvD(5) [OF assms Some] sinvD(2) [OF assms] Some by (simp_all add: cur_ok_def)
  obtain g1 s1 where z: "record_zombie hier g s cur = Some (g1, s1)" "hinv {} g1 s1" "g_inv g1" "dir_frame {sc_core s} g g1"
      "sc_core s1 = sc_core s" "length (sc_tcbs s1) = length (sc_tcbs s)" "zstep g s g1 s1" "dex {} g s \<longrightarrow> dex {} g1 s1"
    using record_zombie_ok [OF assms c, of hier] by blast
  from run_next_ok [OF z(2)] show ?thesis
  proof
    assume "run_next s1 = None \<and> (\<forall>i<length (sc_tcbs s1). tc_queued (sc_tcbs s1 ! i) = NOT_QUEUED)"
    then show ?thesis using Some z(1) by (simp add: exit_current_def keepsg_if_def)
  next
    assume "\<exists>s' f. run_next s1 = Some (s', f) \<and> hinv {} g1 s' \<and> cur_ok s'"
    then obtain s2 f where r: "run_next s1 = Some (s2, f)" "hinv {} g1 s2" "cur_ok s2" by blast
    have o: "outside True s1 s2" using out_run_next [OF outside_refl, of True s1] r(1) by simp
    then have "zstep g s g1 s2" using zstep_after [OF z(7) outside_weak] by simp
    then show ?thesis using Some z r o outside_dex [OF o] outside_length [OF o]
      by (simp add: exit_current_def keepsg_if_def keepsg_def sinv_def outside_def)
  qed
qed


section \<open>Creation\<close>

lemma free_slot:
  assumes "hinv X g s" "fl_alloc (sc_free s) = Some (f, Some i)"
  shows "i < length (sc_tcbs s)" "\<not> tc_used (sc_tcbs s ! i)" "tc_queued (sc_tcbs s ! i) = NOT_QUEUED" "fl_wf f"
    "fl_capacity f = length (sc_tcbs s)" "fl_in_use f = insert i (fl_in_use (sc_free s))" "i \<notin> fl_in_use (sc_free s)"
proof -
  have a: "i < fl_capacity (sc_free s) \<and> i \<notin> fl_in_use (sc_free s) \<and> fl_wf f \<and> fl_capacity f = fl_capacity (sc_free s) \<and>
    fl_in_use f = insert i (fl_in_use (sc_free s))"
    using assms(2) by (cases rule: fl.alloc_cases [OF hinvD(6) [OF assms(1)]]) (auto simp: fl_in_use_eq)
  then show i: "i < length (sc_tcbs s)" using hinvD(7) [OF assms(1)] by simp
  show "\<not> tc_used (sc_tcbs s ! i)" using a hinvD(8) [OF assms(1) i] by simp
  then show "tc_queued (sc_tcbs s ! i) = NOT_QUEUED" using hinvD(4) [OF assms(1) i] by (auto simp: hard_def)
  show "fl_wf f" "fl_capacity f = length (sc_tcbs s)" "fl_in_use f = insert i (fl_in_use (sc_free s))" "i \<notin> fl_in_use (sc_free s)"
    using a hinvD(7) [OF assms(1)] by simp_all
qed

lemma give_back:
  assumes "hinv X g s" "fl_alloc (sc_free s) = Some (f, Some i)"
  shows "hinv X g (s\<lparr>sc_free := fl_free f i\<rparr>)"
proof -
  note F = free_slot [OF assms]
  have "i \<in> fl.in_use f" unfolding fl_in_use_eq F(6) by simp
  from fl.release_in_use [OF F(4) this] have "fl_wf (fl_free f i)" "fl_in_use (fl_free f i) = fl_in_use (sc_free s)" "fl_capacity (fl_free f i) = length (sc_tcbs s)"
    using F(5-7) by (simp_all add: fl_in_use_eq)
  then show ?thesis using assms(1) unfolding hinv_def by simp
qed

lemma fl_alloc_total:
  assumes "fl_wf f"
  shows "fl_alloc f = Some (f, None) \<or> (\<exists>f' i. fl_alloc f = Some (f', Some i) \<and> fl_wf f' \<and> fl_capacity f' = fl_capacity f \<and> i < fl_capacity f \<and>
    i \<notin> fl_in_use f \<and> fl_in_use f' = insert i (fl_in_use f))"
  by (cases rule: fl.alloc_cases [OF assms]) (auto simp: fl_in_use_eq)

lemma cur_ok_free:
  assumes "cur_ok s" "\<not> tc_used (sc_tcbs s ! i)"
  shows "cur_ok (s\<lparr>sc_tcbs := (sc_tcbs s)[i := v]\<rparr>)"
proof -
  have "(sc_tcbs s)[i := v] ! c = sc_tcbs s ! c" if "sc_current s = Some c" for c
    using assms that by (cases "c = i") (auto simp: cur_ok_def)
  then show ?thesis using assms(1) by (simp add: cur_ok_def)
qed

lemma dir_gen_small: "dir_gen e < 2 ^ 31"
proof -
  have "unat (dir_gen e) = take_bit 32 (unat (drop_bit 32 e AND D_GEN_MASK))"
    unfolding dir_gen_def by (simp add: unsigned_ucast_eq)
  also have "\<dots> \<le> unat (drop_bit 32 e AND D_GEN_MASK)" by (rule take_bit_nat_less_eq_self)
  also have "\<dots> = unat (take_bit 31 (drop_bit 32 e))" by (simp add: mask_bits take_bit_eq_mask)
  also have "\<dots> < 2 ^ 31" unfolding unsigned_take_bit_eq by (rule take_bit_nat_less_exp)
  finally show ?thesis by (simp add: word_less_nat_alt)
qed


text \<open>A thread takes a free slot and its number is published.\<close>

lemma place_thread:
  assumes "sinv g s" "fl_alloc (sc_free s) = Some (f, Some i)"
    and t: "tc_used t" "tc_queued t = NOT_QUEUED" "unat (tc_priority t) < 8" "tc_gen t < 2 ^ 31" "\<And>a. tc_sc_donor t = Some a \<Longrightarrow> a < length (sc_tcbs s)"
      "tc_frist_grund t \<in> {0, BR_IPC, BR_PARK}"
    and gx: "g_inv gx" "g_directory gx = g_directory g" "unat (tc_gid t) \<in> fl_in_use (g_gid_free gx)"
    and new: "\<And>j. j < length (sc_tcbs s) \<Longrightarrow> tc_used (sc_tcbs s ! j) \<Longrightarrow> tc_gid (sc_tcbs s ! j) \<noteq> tc_gid t"
    and old: "dir_load g (unat (tc_gid t)) = Some e" "dir_used e \<Longrightarrow> dir_core e \<in> C"
    and own: "sc_core s \<in> C"
    and zf: "\<not> zfree g (unat (tc_gid t))" "fl_in_use (g_gid_free g) \<subseteq> fl_in_use (g_gid_free gx)"
    and b: "b = (if budget_blocked t then sc_budget_blocked_count s + 1 else sc_budget_blocked_count s)"
    and g2: "g2 = dir_store gx (unat (tc_gid t)) (pack_dir True (tc_gen t) (sc_core s) i)"
    and s2: "s2 = s\<lparr>sc_tcbs := (sc_tcbs s)[i := t], sc_free := f, sc_budget_blocked_count := b\<rparr>"
  shows "sinv g2 s2 \<and> dir_frame C g g2 \<and> zmono g g2 \<and> (\<forall>x. x \<noteq> unat (tc_gid t) \<longrightarrow> dir_load g2 x = dir_load g x) \<and>
    (dex {unat (tc_gid t)} g s \<longrightarrow> dex {} g2 s2)"
proof -
  note h = sinvD(1) [OF assms(1)]
  note F = free_slot [OF h assms(2)]
  have gl: "unat (tc_gid t) < length (g_directory gx)" using old(1) gx(2) by (simp add: dir_load_def tget_eq_Some_iff)
  have dl: "dir_load g2 x = (if x = unat (tc_gid t) then Some (pack_dir True (tc_gen t) (sc_core s) i) else dir_load g x)" for x
    using gl gx(2) by (simp add: g2 dir_load_store) (simp add: dir_load_def)
  have hd: "hard g2 (sc_core s) (length (sc_tcbs s)) i t" using t by (simp add: hard_def dl)
  have "hinv {} g2 s2" unfolding s2
  proof (rule hinv_slot [OF h F(1,3) t(2) hd _ F(4,5)])
    fix j
    assume "j < length (sc_tcbs s)" "j \<noteq> i" "tc_used (sc_tcbs s ! j)"
    then have "unat (tc_gid (sc_tcbs s ! j)) \<noteq> unat (tc_gid t)" using new by (metis unsigned_word_eqI)
    then show "dir_load g2 (unat (tc_gid (sc_tcbs s ! j))) = dir_load g (unat (tc_gid (sc_tcbs s ! j)))" by (simp add: dl)
  qed (use F t b in simp_all)
  moreover have "cur_ok s2" using cur_ok_free [OF sinvD(2) [OF assms(1)] F(2), of t] by (simp add: s2 cur_ok_def)
  moreover have "g_inv g2" unfolding g2 by (rule g_inv_store [OF gx(1)]) (rule gx(3))
  moreover have pk: "dir_core (pack_dir True (tc_gen t) (sc_core s) i) = sc_core s" "dir_local (pack_dir True (tc_gen t) (sc_core s) i) = i"
    using dir_core_pack [OF t(4), of "sc_core s" i] dir_local_pack [OF t(4), of "sc_core s" i] hinvD(2,3) [OF h] F(1) by simp_all
  moreover have "length (g_directory g2) = length (g_directory g)" using gx(2) by (simp add: g2 dir_store_def)
  then have "dir_frame C g g2" using old own pk(1) unfolding dir_frame_def dl by auto
  moreover have "dex {unat (tc_gid t)} g s \<longrightarrow> dex {} g2 s2"
  proof
    assume d: "dex {unat (tc_gid t)} g s"
    show "dex {} g2 s2" unfolding dex_def
    proof (intro allI impI)
      fix x e
      assume x: "x \<notin> {}" "dir_load g2 x = Some e" "dir_used e" "dir_core e = sc_core s2"
      show "dir_local e < length (sc_tcbs s2) \<and> tc_used (sc_tcbs s2 ! dir_local e) \<and> unat (tc_gid (sc_tcbs s2 ! dir_local e)) = x \<and>
        tc_gen (sc_tcbs s2 ! dir_local e) = dir_gen e"
      proof (cases "x = unat (tc_gid t)")
        case True
        then have "e = pack_dir True (tc_gen t) (sc_core s) i" using x(2) dl by simp
        moreover have "dir_gen (pack_dir True (tc_gen t) (sc_core s) i) = tc_gen t"
          using dir_gen_pack [OF t(4), of "sc_core s" i] hinvD(2,3) [OF h] F(1) by simp
        ultimately show ?thesis using True pk F(1) t(1) by (simp add: s2)
      next
        case False
        then have l: "dir_local e < length (sc_tcbs s)" "tc_used (sc_tcbs s ! dir_local e)" "unat (tc_gid (sc_tcbs s ! dir_local e)) = x"
          "tc_gen (sc_tcbs s ! dir_local e) = dir_gen e"
          using d x dl unfolding dex_def by (auto simp: s2)
        then have "dir_local e \<noteq> i" using F(2) by auto
        then show ?thesis using l by (simp add: s2)
      qed
    qed
  qed
  moreover have "zmono g g2" unfolding zmono_def
  proof (intro allI impI)
    fix x
    assume x: "zfree g x"
    then have "x \<noteq> unat (tc_gid t)" using zf(1) by blast
    moreover have "fl_in_use (g_gid_free g2) = fl_in_use (g_gid_free gx)" by (simp add: g2 dir_store_def)
    ultimately show "zfree g2 x" using x zf(2) unfolding zfree_def dl by auto
  qed
  ultimately show ?thesis by (simp add: sinv_def dl)
qed

lemma alloc_tcb_cases:
  assumes "sinv g s" "unat priority < 8"
  shows "\<exists>g' s' r. alloc_tcb g s sp priority = Some ((g', s'), r) \<and> sinv g' s' \<and> dir_frame {sc_core s} g g' \<and> zmono g g' \<and> (dex {} g s \<longrightarrow> dex {} g' s') \<and>
    sc_core s' = sc_core s \<and> length (sc_tcbs s') = length (sc_tcbs s) \<and> sc_current s' = sc_current s \<and>
    (\<forall>i. r = Some i \<longrightarrow> i < length (sc_tcbs s) \<and> \<not> tc_used (sc_tcbs s ! i) \<and> tc_used (sc_tcbs s' ! i) \<and>
      tc_reasons (sc_tcbs s' ! i) = 0 \<and> tc_queued (sc_tcbs s' ! i) = NOT_QUEUED)"
proof -
  note h = sinvD(1) [OF assms(1)] and gi = sinvD(3) [OF assms(1)]
  have fg: "fl_wf (g_gid_free g)" using gi by (simp add: g_inv_def)
  from fl_alloc_total [OF hinvD(6) [OF h]] show ?thesis
  proof (elim disjE exE conjE)
    assume "fl_alloc (sc_free s) = Some (sc_free s, None)"
    then show ?thesis using assms(1) by (simp add: alloc_tcb_def)
  next
    fix f i
    assume f: "fl_alloc (sc_free s) = Some (f, Some i)"
    note F = free_slot [OF h f]
    from fl_alloc_total [OF fg] show ?thesis
    proof (elim disjE exE conjE)
      assume n: "fl_alloc (g_gid_free g) = Some (g_gid_free g, None)"
      have "sinv g (s\<lparr>sc_free := fl_free f i\<rparr>)" using give_back [OF h f] assms(1) by (simp add: sinv_def cur_ok_def)
      then show ?thesis using f n dex_tcbs [of "{}" g s "s\<lparr>sc_free := fl_free f i\<rparr>"] by (simp add: alloc_tcb_def)
    next
      fix fg gid
      assume x: "fl_alloc (g_gid_free g) = Some (fg, Some gid)" "fl_wf fg" "fl_capacity fg = fl_capacity (g_gid_free g)"
        "gid < fl_capacity (g_gid_free g)" "gid \<notin> fl_in_use (g_gid_free g)" "fl_in_use fg = insert gid (fl_in_use (g_gid_free g))"
      have gl: "gid < length (g_directory g)" "length (g_directory g) < 2 ^ 32" using x(4) gi by (simp_all add: g_inv_def)
      obtain e where e: "dir_load g gid = Some e" "\<not> dir_used e" using gl(1) x(5) gi by (auto simp: g_inv_def dir_load_def table_simps)
      have un: "unat (of_nat gid :: u32) = gid" using gl by (simp add: unat_of_nat)
      define t where "t = Tcb_EMPTY\<lparr>tc_used := True, tc_gid := of_nat gid, tc_gen := dir_gen e, tc_sp := sp, tc_priority := priority\<rparr>"
      have tf: "tc_used t" "tc_queued t = NOT_QUEUED" "unat (tc_priority t) < 8" "tc_gen t < 2 ^ 31" "tc_sc_donor t = None"
        "tc_frist_grund t \<in> {0, BR_IPC, BR_PARK}" "unat (tc_gid t) = gid" "tc_reasons t = 0" "\<not> budget_blocked t"
        using assms(2) dir_gen_small by (simp_all add: t_def un Tcb_EMPTY_def br_has_def)
      have g0: "g_inv (g\<lparr>g_gid_free := fg\<rparr>)" using gi x by (simp add: g_inv_def)
      from set_core_load_ok [OF g0 hinvD(3) [OF h], of "sc_used s + 1"] obtain ls where
        ls: "length ls = 256" "set_core_load (g\<lparr>g_gid_free := fg\<rparr>) (sc_core s) (sc_used s + 1) = Some (g\<lparr>g_gid_free := fg, g_core_load := ls\<rparr>)" by auto
      define gx where "gx = g\<lparr>g_gid_free := fg, g_core_load := ls\<rparr>"
      define g2 where "g2 = dir_store gx (unat (tc_gid t)) (pack_dir True (tc_gen t) (sc_core s) i)"
      define s2 where "s2 = s\<lparr>sc_tcbs := (sc_tcbs s)[i := t], sc_free := f, sc_budget_blocked_count := sc_budget_blocked_count s\<rparr>"
      have new: "tc_gid (sc_tcbs s ! j) \<noteq> tc_gid t" if "j < length (sc_tcbs s)" "tc_used (sc_tcbs s ! j)" for j
      proof
        assume "tc_gid (sc_tcbs s ! j) = tc_gid t"
        then show False using used_dir(1,2) [OF h that] e tf(7) by simp
      qed
      have k: "sinv g2 s2 \<and> dir_frame {sc_core s} g g2 \<and> zmono g g2 \<and> (\<forall>x. x \<noteq> unat (tc_gid t) \<longrightarrow> dir_load g2 x = dir_load g x) \<and>
          (dex {unat (tc_gid t)} g s \<longrightarrow> dex {} g2 s2)"
        by (rule place_thread [OF assms(1) f tf(1-4) _ tf(6), where gx = gx and e = e and b = "sc_budget_blocked_count s", OF _ _ _ _ _ _ _ _ _ _ _ g2_def s2_def])
          (use tf e x g0 ls(1) new in \<open>auto simp: gx_def g_inv_def zfree_def\<close>)
      have "alloc_tcb g s sp priority = Some ((g2, s2\<lparr>sc_used := sc_used s + 1\<rparr>), Some i)"
        using f x(1) e(1) F(1) ls(2)
        by (simp add: alloc_tcb_def modt_in t_def [symmetric] publish_dir_def tcb_in s2_def g2_def gx_def Let_def)
      moreover have "sinv g2 (s2\<lparr>sc_used := sc_used s + 1\<rparr>)" using k by simp
      moreover have "dex {} g s \<longrightarrow> dex {} g2 (s2\<lparr>sc_used := sc_used s + 1\<rparr>)"
        using k dex_mono [of "{}" g s "{unat (tc_gid t)}"] dex_tcbs [of "{}" g2 s2 "s2\<lparr>sc_used := sc_used s + 1\<rparr>"] by simp
      moreover have "i < length (sc_tcbs s) \<and> \<not> tc_used (sc_tcbs s ! i) \<and> tc_used (sc_tcbs s2 ! i) \<and> tc_reasons (sc_tcbs s2 ! i) = 0 \<and>
          tc_queued (sc_tcbs s2 ! i) = NOT_QUEUED"
        using F(1,2) tf by (simp add: s2_def)
      moreover have "length (sc_tcbs s2) = length (sc_tcbs s)" "sc_core s2 = sc_core s" "sc_current s2 = sc_current s" by (simp_all add: s2_def)
      ultimately show ?thesis using k by auto
    qed
  qed
qed


lemma sinv_run:
  assumes "sinv g s" "i < length (sc_tcbs s)" "tc_used (sc_tcbs s ! i)" "tc_reasons (sc_tcbs s ! i) = 0" "tc_queued (sc_tcbs s ! i) = NOT_QUEUED"
  shows "sinv g (s\<lparr>sc_current := Some i\<rparr>)"
  using assms by (simp add: sinv_def hinv_def cur_ok_def)

lemma sinv_g:
  assumes "sinv g s" "g_directory g' = g_directory g" "g_gid_free g' = g_gid_free g" "length (g_core_load g') = 256"
  shows "sinv g' s"
  using assms hinv_g [of "{}" g s g'] by (simp add: sinv_def g_inv_def dir_load_def)

lemma init_core_keeps:
  assumes "sinv g s" "unat priority < 8"
  shows "keepsg g s (init_core g s core priority)"
proof -
  obtain g1 s1 r where a: "alloc_tcb g s 0 priority = Some ((g1, s1), r)" "sinv g1 s1" "dir_frame {sc_core s} g g1"
      "sc_core s1 = sc_core s" "length (sc_tcbs s1) = length (sc_tcbs s)"
      "\<forall>i. r = Some i \<longrightarrow> i < length (sc_tcbs s) \<and> \<not> tc_used (sc_tcbs s ! i) \<and> tc_used (sc_tcbs s1 ! i) \<and>
        tc_reasons (sc_tcbs s1 ! i) = 0 \<and> tc_queued (sc_tcbs s1 ! i) = NOT_QUEUED" "zmono g g1" "dex {} g s \<longrightarrow> dex {} g1 s1"
    using alloc_tcb_cases [OF assms, of 0] by blast
  have o: "outside False s s1" using out_alloc [OF outside_refl, of s g 0 priority] a(1) by simp
  show ?thesis
  proof (cases r)
    case None
    then show ?thesis using a zstep_outside [OF a(7) o] by (simp add: init_core_def keepsg_def)
  next
    case (Some i)
    let ?g = "g1\<lparr>g_core_online := (g_core_online g1)[core := True]\<rparr>"
    have i: "i < length (sc_tcbs s1)" "tc_used (sc_tcbs s1 ! i)" "tc_reasons (sc_tcbs s1 ! i) = 0" "tc_queued (sc_tcbs s1 ! i) = NOT_QUEUED"
      using a(5,6) Some by simp_all
    have "sinv ?g (s1\<lparr>sc_current := Some i\<rparr>)"
      by (rule sinv_g [OF sinv_run [OF a(2) i]]) (use sinvD(3) [OF a(2)] in \<open>simp_all add: g_inv_def\<close>)
    moreover have "dir_frame {sc_core s} g ?g" using a(3) by (simp add: dir_frame_def)
    moreover have "zmono g ?g" using a(7) by (simp add: zmono_def zfree_def)
    then have "zstep g s ?g (s1\<lparr>sc_current := Some i\<rparr>)" by (rule zstep_outside) (simp add: o)
    moreover have "dex {} g s \<longrightarrow> dex {} ?g (s1\<lparr>sc_current := Some i\<rparr>)"
      using a(8) dex_g [of "{}" g1 s1 ?g] dex_tcbs [of "{}" ?g s1 "s1\<lparr>sc_current := Some i\<rparr>"] by simp
    ultimately show ?thesis using a(1,4,5) i(1) Some by (simp add: init_core_def sch_id_def tcb_in Let_def keepsg_def)
  qed
qed

lemma spawn_with_ok:
  assumes "sinv g s" "unat priority < 8"
  shows "\<exists>g' s' r. spawn_with g s sp base len priority = Some ((g', s'), r) \<and> sinv g' s' \<and> dir_frame {sc_core s} g g' \<and> zmono g g' \<and> (dex {} g s \<longrightarrow> dex {} g' s') \<and>
    sc_core s' = sc_core s \<and> length (sc_tcbs s') = length (sc_tcbs s) \<and> sc_current s' = sc_current s \<and>
    (\<forall>tid. r = Some tid \<longrightarrow> (\<exists>i. sch_resolve g' s' tid = Some i \<and> \<not> tc_used (sc_tcbs s ! i) \<and> tc_reasons (sc_tcbs s' ! i) = 0))"
proof -
  obtain g1 s1 r where a: "alloc_tcb g s sp priority = Some ((g1, s1), r)" "sinv g1 s1" "dir_frame {sc_core s} g g1"
      "sc_core s1 = sc_core s" "length (sc_tcbs s1) = length (sc_tcbs s)" "sc_current s1 = sc_current s"
      "\<forall>i. r = Some i \<longrightarrow> i < length (sc_tcbs s) \<and> \<not> tc_used (sc_tcbs s ! i) \<and> tc_used (sc_tcbs s1 ! i) \<and>
        tc_reasons (sc_tcbs s1 ! i) = 0 \<and> tc_queued (sc_tcbs s1 ! i) = NOT_QUEUED" "zmono g g1" "dex {} g s \<longrightarrow> dex {} g1 s1"
    using alloc_tcb_cases [OF assms, of sp] by blast
  show ?thesis
  proof (cases r)
    case None
    then show ?thesis using a by (simp add: spawn_with_def)
  next
    case (Some i)
    have i: "i < length (sc_tcbs s1)" "\<not> tc_used (sc_tcbs s ! i)" "tc_used (sc_tcbs s1 ! i)" "tc_reasons (sc_tcbs s1 ! i) = 0" using a(5,7) Some by simp_all
    define s2 where "s2 = s1\<lparr>sc_tcbs := (sc_tcbs s1)[i := (sc_tcbs s1 ! i)\<lparr>tc_stack_base := base, tc_stack_len := len\<rparr>]\<rparr>"
    have s2: "sinv g1 s2" unfolding s2_def by (rule sinv_attr [OF a(2) i(1)]) (use sinvD(4) [OF a(2) i(1)] in simp_all)
    have i2: "i < length (sc_tcbs s2)" "tc_used (sc_tcbs s2 ! i)" "tc_reasons (sc_tcbs s2 ! i) = 0" using i by (simp_all add: s2_def)
    have "spawn_with g s sp base len priority =
      Some ((g1, s2), Some \<lparr>t_slot = unat (tc_gid (sc_tcbs s2 ! i)), t_gen = tc_gen (sc_tcbs s2 ! i)\<rparr>)"
      using a(1) Some i(1) i2(1) by (simp add: spawn_with_def modt_in s2_def [symmetric] sch_id_def tcb_in)
    moreover have "sc_core s2 = sc_core s" "length (sc_tcbs s2) = length (sc_tcbs s)" "sc_current s2 = sc_current s"
      using a by (simp_all add: s2_def)
    moreover have "same_frame s1 s2" unfolding s2_def by (rule same_frame_upd [OF i(1)]) simp
    then have "dex {} g s \<longrightarrow> dex {} g1 s2" using a(9) dex_same by blast
    ultimately show ?thesis using s2 a(3,8) i(2) i2(3) resolve_id [OF sinvD(1) [OF s2] i2(1,2)] by auto
  qed
qed

lemma admit_keeps:
  assumes "sinv g s" "\<And>i. sch_resolve g s tid = Some i \<Longrightarrow> tc_reasons (sc_tcbs s ! i) = 0 \<and> sc_current s \<noteq> Some i"
  shows "\<exists>s' r. admit g s tid = Some (s', r) \<and> sinv g s' \<and> same_frame s s'"
proof (cases "sch_resolve g s tid")
  case None
  then show ?thesis using assms(1) by (intro exI [of _ s] exI [of _ False]) (simp add: admit_def)
next
  case (Some i)
  have i: "i < length (sc_tcbs s)" "tc_used (sc_tcbs s ! i)" using resolve_in [OF Some] by simp_all
  define s1 where "s1 = s\<lparr>sc_tcbs := (sc_tcbs s)[i := (sc_tcbs s ! i)\<lparr>tc_admitted := True\<rparr>]\<rparr>"
  have s1: "sinv g s1" unfolding s1_def by (rule sinv_attr [OF assms(1) i(1)]) (use sinvD(4) [OF assms(1) i(1)] in simp_all)
  have f: "same_frame s s1" unfolding s1_def by (rule same_frame_upd) (simp_all add: i ident_def)
  have "\<exists>s'. enqueue_ready s1 i = Some s' \<and> sinv g s' \<and> requeued s1 s'"
    by (rule enqueue_sinv [OF s1]) (use i assms(2) [OF Some] in \<open>simp_all add: s1_def\<close>)
  then obtain s' where "enqueue_ready s1 i = Some s'" "sinv g s'" "same_frame s s'" using same_frame_trans [OF f requeued_same_frame] by blast
  then show ?thesis using Some i(1) by (intro exI [of _ s'] exI [of _ True]) (simp add: admit_def modt_in s1_def [symmetric])
qed

lemma spawn_keeps:
  assumes "sinv g s" "unat priority < 8"
  shows "keepsg g s (spawn_with g s sp base len priority)" "keepsg g s (admit_spawned (spawn_with g s sp base len priority))"
proof -
  obtain g' s' r where a: "spawn_with g s sp base len priority = Some ((g', s'), r)" "sinv g' s'" "dir_frame {sc_core s} g g'"
    "sc_core s' = sc_core s" "length (sc_tcbs s') = length (sc_tcbs s)" "sc_current s' = sc_current s"
    "\<forall>tid. r = Some tid \<longrightarrow> (\<exists>i. sch_resolve g' s' tid = Some i \<and> \<not> tc_used (sc_tcbs s ! i) \<and> tc_reasons (sc_tcbs s' ! i) = 0)" "zmono g g'"
    "dex {} g s \<longrightarrow> dex {} g' s'" using spawn_with_ok [OF assms, of sp base len] by blast
  have o: "outside False s s'" using out_spawn_with [OF outside_refl, of s g sp base len priority] a(1) by simp
  show "keepsg g s (spawn_with g s sp base len priority)" using a zstep_outside [OF a(8) o] by (simp add: keepsg_def)
  show "keepsg g s (admit_spawned (spawn_with g s sp base len priority))"
  proof (cases r)
    case None
    then show ?thesis using a zstep_outside [OF a(8) o] by (simp add: admit_spawned_def keepsg_def)
  next
    case (Some tid)
    then obtain i where i: "sch_resolve g' s' tid = Some i" "\<not> tc_used (sc_tcbs s ! i)" "tc_reasons (sc_tcbs s' ! i) = 0" using a(7) by blast
    have "sc_current s' \<noteq> Some i" using a(6) i(2) sinvD(2) [OF assms(1)] by (auto simp: cur_ok_def)
    then obtain s2 b where ad: "admit g' s' tid = Some (s2, b)" "sinv g' s2" "same_frame s' s2" using admit_keeps [OF a(2), of tid] i by auto
    have "outside False s s2" using out_admit [OF o, of g' tid] ad(1) by simp
    then show ?thesis using a Some ad zstep_outside [OF a(8)] dex_same [OF ad(3), of "{}" g'] by (simp add: admit_spawned_def keepsg_def same_frame_def)
  qed
qed

section \<open>Migration\<close>

text \<open>What a thread in transit needs.\<close>

definition mi_ok :: "Statics \<Rightarrow> nat \<Rightarrow> Migrant \<Rightarrow> bool" where
  "mi_ok g core m \<longleftrightarrow> tc_used (mi_tcb m) \<and> unat (tc_priority (mi_tcb m)) < 8 \<and> tc_gen (mi_tcb m) < 2 ^ 31 \<and> tc_sc_donor (mi_tcb m) = None \<and>
     tc_frist_grund (mi_tcb m) \<in> {0, BR_IPC, BR_PARK} \<and> (mi_was_ready m \<longrightarrow> tc_reasons (mi_tcb m) = 0) \<and>
     (\<exists>e. dir_load g (unat (tc_gid (mi_tcb m))) = Some e \<and> dir_used e \<and> dir_core e = core)"


lemma mi_ok_requeue: "mi_ok g c (m\<lparr>mi_tcb := (mi_tcb m)\<lparr>tc_queued := q, tc_qnext := a, tc_qprev := b\<rparr>\<rparr>) = mi_ok g c m"
  by (simp add: mi_ok_def)

lemma detach_ok:
  assumes "sinv g s"
  shows "\<exists>g' s' r. detach_for_migration g s tid = Some ((g', s'), r) \<and> sinv g' s' \<and> g_directory g' = g_directory g \<and> zstep g s g' s' \<and>
    sc_core s' = sc_core s \<and> length (sc_tcbs s') = length (sc_tcbs s) \<and> (r = None \<longrightarrow> g' = g \<and> s' = s) \<and>
    (dex {} g s \<longrightarrow> dex (case r of None \<Rightarrow> {} | Some m \<Rightarrow> {unat (tc_gid (mi_tcb m))}) g' s') \<and>
    (\<forall>m. r = Some m \<longrightarrow> mi_ok g' (sc_core s) m \<and> (\<exists>i<length (sc_tcbs s'). \<not> tc_used (sc_tcbs s' ! i)) \<and>
       (\<exists>i. sch_resolve g s tid = Some i \<and> \<lparr>t_slot = unat (tc_gid (mi_tcb m)), t_gen = tc_gen (mi_tcb m)\<rparr> = \<lparr>t_slot = unat (tc_gid (sc_tcbs s ! i)), t_gen = t_gen tid\<rparr> \<and>
          tc_reasons (mi_tcb m) = tc_reasons (sc_tcbs s ! i) \<and> (mi_was_ready m \<longleftrightarrow> tc_queued (sc_tcbs s ! i) \<noteq> NOT_QUEUED)) \<and>
       (\<forall>j<length (sc_tcbs s'). tc_used (sc_tcbs s' ! j) \<longrightarrow> tc_gid (sc_tcbs s' ! j) \<noteq> tc_gid (mi_tcb m)))"
proof (cases "sch_resolve g s tid")
  case None
  then show ?thesis using assms by (intro exI [of _ g] exI [of _ s] exI [of _ None]) (simp add: detach_for_migration_def)
next
  case (Some i)
  have i: "i < length (sc_tcbs s)" "tc_used (sc_tcbs s ! i)" using resolve_in [OF Some] by simp_all
  let ?t = "sc_tcbs s ! i"
  show ?thesis
  proof (cases "sc_current s = Some i \<or> tc_sc_donor ?t \<noteq> None \<or> tc_sc_donee ?t \<noteq> None \<or> br_has (tc_reasons ?t) BR_DEBUG \<or> br_has (tc_reasons ?t) BR_FREEZE")
    case True
    then show ?thesis using Some i assms by (intro exI [of _ g] exI [of _ s] exI [of _ None]) (auto simp: detach_for_migration_def tcb_in)
  next
    case False
    obtain s1 where s1: "remove_from_ready s i = Some s1" "sinv g s1" "requeued s s1" "tc_queued (sc_tcbs s1 ! i) = NOT_QUEUED"
      using remove_sinv [OF assms i(1)] by blast
    note R = requeuedD [OF s1(3)] and h1 = sinvD(1) [OF s1(2)]
    note B = body_eqD [OF R(2) [OF i(1)]]
    let ?t1 = "sc_tcbs s1 ! i"
    have i1: "i < length (sc_tcbs s1)" "tc_used ?t1" using i R(1) B(1) by simp_all
    define b where "b = (if budget_blocked ?t1 then sc_budget_blocked_count s1 - 1 else sc_budget_blocked_count s1)"
    define d where "d = (if tc_depleted ?t1 then sc_depleted_count s1 - 1 else sc_depleted_count s1)"
    define f where "f = fl_free (sc_free s1) i"
    have iu: "i \<in> fl.in_use (sc_free s1)" unfolding fl_in_use_eq using hinvD(8) [OF h1 i1(1)] i1(2) by simp
    note rel = fl.release_in_use [OF hinvD(6) [OF h1] iu, unfolded fl_in_use_eq]
    define s2 where "s2 = s1\<lparr>sc_tcbs := (sc_tcbs s1)[i := Tcb_EMPTY], sc_free := f, sc_budget_blocked_count := b\<rparr>"
    have h2: "hinv {} g s2" unfolding s2_def
      by (rule hinv_slot [OF h1 i1(1) s1(4)]) (use rel hinvD(7) [OF h1] i1(2) in \<open>simp_all add: f_def b_def\<close>)
    have nc: "sc_current s1 \<noteq> Some i" using False R(5) by simp
    then have c2: "cur_ok s2" using sinvD(2) [OF s1(2)] by (auto simp: s2_def cur_ok_def)
    define s3 where "s3 = s2\<lparr>sc_depleted_count := d, sc_used := sc_used s1 - 1, sc_migrations_out := sc_migrations_out s1 + 1\<rparr>"
    have s3: "sinv g s3" using h2 c2 sinvD(3) [OF assms] by (simp add: s3_def sinv_def)
    from set_core_load_ok [OF sinvD(3) [OF assms] hinvD(3) [OF h1], of "sc_used s1 - 1"] obtain ls where
      ls: "length ls = 256" "set_core_load g (sc_core s1) (sc_used s1 - 1) = Some (g\<lparr>g_core_load := ls\<rparr>)" by blast
    define m where "m = \<lparr>mi_tcb = ?t1\<lparr>tc_queued := NOT_QUEUED, tc_qnext := NIL, tc_qprev := NIL\<rparr>, mi_was_ready = (tc_queued ?t \<noteq> NOT_QUEUED)\<rparr>"
    have eq: "detach_for_migration g s tid = Some ((g\<lparr>g_core_load := ls\<rparr>, s3), Some m)"
      unfolding detach_for_migration_def s3_def s2_def b_def d_def f_def m_def Let_def
      using Some i i1 False s1(1) ls(2) by (auto simp: tcb_in modt_in)
    note u = used_dir [OF h1 i1]
    have hd: "unat (tc_priority ?t1) < 8" "tc_frist_grund ?t1 \<in> {0, BR_IPC, BR_PARK}" using hinvD(4) [OF h1 i1(1)] i1(2) by (auto simp: hard_def)
    have "tc_queued ?t \<noteq> NOT_QUEUED \<Longrightarrow> tc_reasons ?t1 = 0" using hinvD(5) [OF sinvD(1) [OF assms] i(1)] B(6) by simp
    then have mo: "mi_ok (g\<lparr>g_core_load := ls\<rparr>) (sc_core s) m"
      using i1(2) hd u False B(17) R(3) unfolding mi_ok_def m_def by auto
    have nd: "tc_gid (sc_tcbs s3 ! j) \<noteq> tc_gid (mi_tcb m)" if "j < length (sc_tcbs s3)" "tc_used (sc_tcbs s3 ! j)" for j
    proof -
      have "j \<noteq> i" using that i1(1) by (auto simp: s3_def s2_def)
      then show ?thesis using that gid_distinct [OF h1 _ i1(1) _ i1(2), of j] by (simp add: s3_def s2_def m_def)
    qed
    have "sinv (g\<lparr>g_core_load := ls\<rparr>) s3" by (rule sinv_g [OF s3]) (simp_all add: ls)
    moreover have "sc_core s3 = sc_core s" "length (sc_tcbs s3) = length (sc_tcbs s)" using R by (simp_all add: s3_def s2_def)
    moreover have "outside False s s3" using out_detach [OF outside_refl, of s g tid] eq by simp
    then have "zstep g s (g\<lparr>g_core_load := ls\<rparr>) s3" by (rule zstep_outside [rotated]) (simp add: zmono_def zfree_def)
    moreover have "\<exists>j<length (sc_tcbs s3). \<not> tc_used (sc_tcbs s3 ! j)" using i1(1) by (intro exI [of _ i]) (simp add: s3_def s2_def)
    moreover have "tc_gid (mi_tcb m) = tc_gid ?t" "tc_gen (mi_tcb m) = t_gen tid" "tc_reasons (mi_tcb m) = tc_reasons ?t"
      "mi_was_ready m \<longleftrightarrow> tc_queued ?t \<noteq> NOT_QUEUED" using B(2,3,6) resolve_in [OF Some] by (simp_all add: m_def)
    moreover have "dex {} g s \<longrightarrow> dex {unat (tc_gid (mi_tcb m))} (g\<lparr>g_core_load := ls\<rparr>) s3"
    proof
      assume "dex {} g s"
      then have d1: "dex {} g s1" using dex_same [OF requeued_same_frame [OF s1(3)], of "{}" g] by simp
      show "dex {unat (tc_gid (mi_tcb m))} (g\<lparr>g_core_load := ls\<rparr>) s3" unfolding dex_def
      proof (intro allI impI)
        fix x e
        assume x: "x \<notin> {unat (tc_gid (mi_tcb m))}" "dir_load (g\<lparr>g_core_load := ls\<rparr>) x = Some e" "dir_used e" "dir_core e = sc_core s3"
        then have l: "dir_local e < length (sc_tcbs s1)" "tc_used (sc_tcbs s1 ! dir_local e)" "unat (tc_gid (sc_tcbs s1 ! dir_local e)) = x"
          "tc_gen (sc_tcbs s1 ! dir_local e) = dir_gen e" using d1 unfolding dex_def by (auto simp: s3_def s2_def)
        then have "dir_local e \<noteq> i" using x(1) by (auto simp: m_def)
        then show "dir_local e < length (sc_tcbs s3) \<and> tc_used (sc_tcbs s3 ! dir_local e) \<and> unat (tc_gid (sc_tcbs s3 ! dir_local e)) = x \<and>
          tc_gen (sc_tcbs s3 ! dir_local e) = dir_gen e" using l by (simp add: s3_def s2_def)
      qed
    qed
    ultimately show ?thesis using eq mo nd Some by simp
  qed
qed

lemma attach_ok:
  assumes "sinv g s" "mi_ok g c m"
    and "\<And>j. j < length (sc_tcbs s) \<Longrightarrow> tc_used (sc_tcbs s ! j) \<Longrightarrow> tc_gid (sc_tcbs s ! j) \<noteq> tc_gid (mi_tcb m)"
  shows "attach_migrated g s m = Some ((g, s), Some m) \<and> (\<forall>i<length (sc_tcbs s). tc_used (sc_tcbs s ! i)) \<or>
    (\<exists>g' s'. attach_migrated g s m = Some ((g', s'), None) \<and> sinv g' s' \<and> dir_frame {c, sc_core s} g g' \<and> zstep g s g' s' \<and>
       (dex {unat (tc_gid (mi_tcb m))} g s \<longrightarrow> dex {} g' s') \<and> dir_load g' (unat (tc_gid (mi_tcb m))) \<noteq> None \<and>
       (\<forall>e. dir_load g' (unat (tc_gid (mi_tcb m))) = Some e \<longrightarrow> dir_core e = sc_core s) \<and> sc_core s' = sc_core s \<and>
       length (sc_tcbs s') = length (sc_tcbs s) \<and> (\<forall>x. x \<noteq> unat (tc_gid (mi_tcb m)) \<longrightarrow> dir_load g' x = dir_load g x) \<and>
       (\<exists>i. sch_resolve g' s' \<lparr>t_slot = unat (tc_gid (mi_tcb m)), t_gen = tc_gen (mi_tcb m)\<rparr> = Some i \<and>
          tc_reasons (sc_tcbs s' ! i) = tc_reasons (mi_tcb m) \<and> (mi_was_ready m \<longrightarrow> tc_queued (sc_tcbs s' ! i) \<noteq> NOT_QUEUED)))"
proof -
  note h = sinvD(1) [OF assms(1)] and gi = sinvD(3) [OF assms(1)]
  from fl_alloc_total [OF hinvD(6) [OF h]] show ?thesis
  proof (elim disjE exE conjE)
    assume a: "fl_alloc (sc_free s) = Some (sc_free s, None)"
    then have "fl_in_use (sc_free s) = {i. i < fl_capacity (sc_free s)}"
      using fl.exhausted_iff [OF hinvD(6) [OF h]] unfolding fl_in_use_eq by blast
    then have "\<forall>i<length (sc_tcbs s). tc_used (sc_tcbs s ! i)" using hinvD(7,8) [OF h] by auto
    then show ?thesis using a by (simp add: attach_migrated_def)
  next
    fix f i
    assume f: "fl_alloc (sc_free s) = Some (f, Some i)"
    note F = free_slot [OF h f]
    let ?t0 = "mi_tcb m"
    define t1 where "t1 = (if tc_depleted ?t0 then ?t0\<lparr>tc_next_refill := sc_now s + ucast (tc_period ?t0)\<rparr> else ?t0)"
    define t where "t = t1\<lparr>tc_queued := NOT_QUEUED, tc_qnext := NIL, tc_qprev := NIL\<rparr>"
    have tf: "tc_used t" "tc_queued t = NOT_QUEUED" "unat (tc_priority t) < 8" "tc_gen t < 2 ^ 31" "\<And>a. tc_sc_donor t = Some a \<Longrightarrow> a < length (sc_tcbs s)"
      "tc_frist_grund t \<in> {0, BR_IPC, BR_PARK}" "tc_gid t = tc_gid ?t0" "tc_gen t = tc_gen ?t0" "tc_reasons t = tc_reasons ?t0"
      using assms(2) by (auto simp: t_def t1_def mi_ok_def split: if_splits)
    obtain e where e: "dir_load g (unat (tc_gid t)) = Some e" "dir_used e" "dir_core e = c" using assms(2) tf(7) by (auto simp: mi_ok_def)
    have giu: "unat (tc_gid t) \<in> fl_in_use (g_gid_free g)" using gi e by (auto simp: g_inv_def dir_load_def tget_eq_Some_iff)
    define b where "b = (if budget_blocked t then sc_budget_blocked_count s + 1 else sc_budget_blocked_count s)"
    define d where "d = (if tc_depleted ?t0 then sc_depleted_count s + 1 else sc_depleted_count s)"
    from set_core_load_ok [OF gi hinvD(3) [OF h], of "sc_used s + 1"] obtain ls where
      ls: "length ls = 256" "set_core_load g (sc_core s) (sc_used s + 1) = Some (g\<lparr>g_core_load := ls\<rparr>)" by blast
    define g2 where "g2 = dir_store (g\<lparr>g_core_load := ls\<rparr>) (unat (tc_gid t)) (pack_dir True (tc_gen t) (sc_core s) i)"
    define s2 where "s2 = s\<lparr>sc_tcbs := (sc_tcbs s)[i := t], sc_free := f, sc_budget_blocked_count := b\<rparr>"
    have k: "sinv g2 s2 \<and> dir_frame {c, sc_core s} g g2 \<and> zmono g g2 \<and> (\<forall>x. x \<noteq> unat (tc_gid t) \<longrightarrow> dir_load g2 x = dir_load g x) \<and>
        (dex {unat (tc_gid t)} g s \<longrightarrow> dex {} g2 s2)"
      by (rule place_thread [OF assms(1) f tf(1-6) _ _ _ _ e(1) _ _ _ _ b_def g2_def s2_def])
        (use giu gi e ls(1) assms(3) tf(7) in \<open>simp_all add: g_inv_def zfree_def\<close>)
    define s5 where "s5 = s2\<lparr>sc_depleted_count := d, sc_used := sc_used s + 1, sc_migrations_in := sc_migrations_in s + 1\<rparr>"
    have s5: "sinv g2 s5" using k by (simp add: s5_def)
    have i5: "i < length (sc_tcbs s5)" "sc_tcbs s5 ! i = t" using F(1) by (simp_all add: s5_def s2_def)
    have eq: "attach_migrated g s m = (case (if mi_was_ready m then enqueue_ready s5 i else Some s5) of None \<Rightarrow> None | Some s6 \<Rightarrow> Some ((g2, s6), None))"
    proof -
      define x where "x = (if tc_depleted ?t0 then s\<lparr>sc_free := f, sc_depleted_count := sc_depleted_count s + 1\<rparr> else s\<lparr>sc_free := f\<rparr>)"
      define y where "y = (if budget_blocked t1 then x\<lparr>sc_budget_blocked_count := sc_budget_blocked_count x + 1\<rparr> else x)"
      define z where "z = y\<lparr>sc_tcbs := (sc_tcbs s)[i := t], sc_used := sc_used s + 1, sc_migrations_in := sc_migrations_in s + 1\<rparr>"
      have xy: "sc_tcbs y = sc_tcbs s" "sc_used y = sc_used s" "sc_migrations_in y = sc_migrations_in s" "sc_core y = sc_core s"
        by (simp_all add: y_def x_def)
      have "z = s5" unfolding z_def y_def x_def s5_def s2_def b_def d_def t_def
        by (cases "tc_depleted ?t0"; cases "budget_blocked t1") simp_all
      moreover have "attach_migrated g s m = (case (if mi_was_ready m then enqueue_ready z i else Some z) of None \<Rightarrow> None | Some s6 \<Rightarrow> Some ((g2, s6), None))"
      proof -
        have a: "(if tc_depleted ?t0 then s\<lparr>sc_free := f\<rparr>\<lparr>sc_depleted_count := sc_depleted_count (s\<lparr>sc_free := f\<rparr>) + 1\<rparr> else s\<lparr>sc_free := f\<rparr>) = x"
          "(if tc_depleted ?t0 then ?t0\<lparr>tc_next_refill := sc_now (s\<lparr>sc_free := f\<rparr>) + ucast (tc_period ?t0)\<rparr> else ?t0) = t1"
          by (simp_all add: x_def t1_def)
        have m: "modt y i (\<lambda>_. t) = Some (y\<lparr>sc_tcbs := (sc_tcbs s)[i := t]\<rparr>)" using F(1) xy(1) by (simp add: modt_in)
        have p: "publish_dir (g\<lparr>g_core_load := ls\<rparr>) z i = Some g2" using F(1) xy(4) by (simp add: publish_dir_def tcb_in z_def g2_def)
        show ?thesis unfolding attach_migrated_def f
          by (cases "enqueue_ready z i", simp_all only: Let_def option.case Option.bind.simps prod.case a y_def [symmetric] t_def [symmetric] m)
            (simp_all add: xy ls(2) z_def [symmetric] p)
      qed
      ultimately show ?thesis by simp
    qed
    have nc: "sc_current s5 \<noteq> Some i" using sinvD(2) [OF assms(1)] F(2) by (auto simp: s5_def s2_def cur_ok_def)
    have "\<exists>s6. (if mi_was_ready m then enqueue_ready s5 i else Some s5) = Some s6 \<and> sinv g2 s6 \<and> requeued s5 s6 \<and>
      (mi_was_ready m \<longrightarrow> tc_queued (sc_tcbs s6 ! i) \<noteq> NOT_QUEUED)"
    proof (cases "mi_was_ready m")
      case True
      then have r: "tc_reasons t = 0" using assms(2) tf(9) by (simp add: mi_ok_def)
      obtain s6 where s6: "enqueue_ready s5 i = Some s6" "sinv g2 s6" "requeued s5 s6" using enqueue_sinv [OF s5 i5(1)] i5(2) r tf(1) nc by auto
      have "tc_queued (sc_tcbs s6 ! i) \<noteq> NOT_QUEUED" using enqueue_hinv [OF sinvD(1) [OF s5] i5(1)] i5(2) r tf(1) s6(1) by auto
      then show ?thesis using s6 True by simp
    qed (use s5 in simp)
    then obtain s6 where s6: "(if mi_was_ready m then enqueue_ready s5 i else Some s5) = Some s6" "sinv g2 s6" "requeued s5 s6"
      "mi_was_ready m \<longrightarrow> tc_queued (sc_tcbs s6 ! i) \<noteq> NOT_QUEUED" by blast
    note R = requeuedD [OF s6(3)]
    note B = body_eqD [OF R(2) [OF i5(1)], unfolded i5(2)]
    have i6: "i < length (sc_tcbs s6)" "tc_used (sc_tcbs s6 ! i)" using i5(1) R(1) B(1) tf(1) by simp_all
    have rs: "sch_resolve g2 s6 \<lparr>t_slot = unat (tc_gid ?t0), t_gen = tc_gen ?t0\<rparr> = Some i"
      using resolve_id [OF sinvD(1) [OF s6(2)] i6] B(2,3) tf(7,8) by simp
    have at: "attach_migrated g s m = Some ((g2, s6), None)" unfolding eq s6(1) by simp
    moreover have "sc_core s6 = sc_core s" "length (sc_tcbs s6) = length (sc_tcbs s)" using R(1,3) by (simp_all add: s5_def s2_def)
    moreover have "outside False s s6" using out_attach [OF outside_refl, of s g m] at by simp
    then have "zstep g s g2 s6" using k zstep_outside by blast
    moreover have "dex {unat (tc_gid ?t0)} g s \<longrightarrow> dex {} g2 s6"
      using k tf(7) dex_tcbs [of "{}" g2 s2 s5] dex_same [OF requeued_same_frame [OF s6(3)], of "{}" g2] by (simp add: s5_def)
    moreover have "\<exists>e. dir_load g2 (unat (tc_gid ?t0)) = Some e \<and> dir_core e = sc_core s"
      using used_dir(1,3) [OF sinvD(1) [OF s6(2)] i6] B(2) tf(7) \<open>sc_core s6 = sc_core s\<close> by auto
    ultimately show ?thesis using s6(2,4) k rs B(6) tf(7,9) by auto
  qed
qed

end
