(* ===== verification/SchedAudit.thy ===== *)
theory SchedAudit
  imports SchedSpawn
begin

text \<open>
  What the runtime audit of the scheduler reports. The invariant leaves only three of its answers: no
  finding, a runnable thread that is on no list, and a depleted thread that is on one.
\<close>

lemma lnk_inj: "lnk a = lnk b \<Longrightarrow> a = b"
proof -
  assume "lnk a = lnk b"
  then show ?thesis by (auto simp: lnk_def intro: unsigned_word_eqI split: if_splits)
qed

lemma audit_walk_ok:
  assumes "dls (qn (sc_tcbs s)) (qp (sc_tcbs s)) (lnk prev) xs None" "lnk i = hd_or xs None"
    "\<And>x. x \<in> set xs \<Longrightarrow> x < length (sc_tcbs s) \<and> tc_used (sc_tcbs s ! x) \<and> tc_reasons (sc_tcbs s ! x) = 0 \<and>
       unat (tc_queued (sc_tcbs s ! x)) = p \<and> unat (tc_priority (sc_tcbs s ! x)) = p \<and> sc_current s \<noteq> Some x"
    "k + length xs = m" "lh_count q = of_nat m" "m < 2 ^ 32" "lnk (lh_tail q) = last_or (lnk prev) xs" "length xs < f"
  shows "audit_walk f s p q i prev (of_nat k) \<in> {0, 9}"
  using assms
proof (induction xs arbitrary: prev i k f)
  case Nil
  have "i = NIL" using Nil.prems(2) by (simp add: lnk_None_iff)
  moreover have "lh_tail q = prev" using Nil.prems(7) by (simp add: lnk_inj)
  ultimately show ?case using Nil.prems(4,5) by (cases f) simp_all
next
  case (Cons x xs)
  obtain f' where f: "f = Suc f'" using Cons.prems(8) by (cases f) simp_all
  have i: "i \<noteq> NIL" "unat i = x" using Cons.prems(2) by (auto dest: lnk_SomeD)
  have li: "lnk i = Some x" using Cons.prems(2) by simp
  note X = Cons.prems(3) [of x, simplified]
  have pv: "tc_qprev (sc_tcbs s ! x) = prev" using Cons.prems(1) by (simp add: qp_def lnk_inj)
  have nx: "lnk (tc_qnext (sc_tcbs s ! x)) = hd_or xs None" using Cons.prems(1) by (simp add: qn_def)
  have le: "\<not> (of_nat k + 1 :: u32) > lh_count q"
  proof -
    have "unat (of_nat n :: u32) = n" if "n \<le> m" for n using Cons.prems(6) that by (simp add: unat_of_nat)
    from this [of "Suc k"] this [of m] have "unat (of_nat (Suc k) :: u32) = Suc k" "unat (of_nat m :: u32) = m" using Cons.prems(4) by simp_all
    then show ?thesis using Cons.prems(4,5) by (simp add: word_less_nat_alt add.commute)
  qed
  have "audit_walk f' s p q (tc_qnext (sc_tcbs s ! x)) i (of_nat (Suc k)) \<in> {0, 9}"
    by (rule Cons.IH) (use Cons.prems nx li f in auto)
  then show ?case using f i X pv le by (auto simp: tcb_in add.commute)
qed

lemma audit_lists_ok:
  assumes "sinv g s" "\<forall>p\<in>set ps. p < 8"
  shows "\<exists>c. audit_lists s ps = Some c \<and> c \<in> {0, 9}"
  using assms(2)
proof (induction ps)
  case Nil
  then show ?case by simp
next
  case (Cons p ps)
  note h = sinvD(1) [OF assms(1)]
  obtain rq where rq: "rq_inv s rq" using hinvD(1) [OF h] by blast
  note D = rq_okD [OF rq [unfolded rq_inv_def]]
  have p: "p < 8" using Cons.prems by simp
  let ?q = "sc_queues s ! p"
  have hd: "head_ok (sc_tcbs s) ?q (rq p)" using D(3) [OF p] .
  have len: "length (rq p) \<le> length (sc_tcbs s)"
    by (rule distinct_bound) (use hd D(4) [OF p] in \<open>auto simp: head_ok_def\<close>)
  then have l32: "length (rq p) < 2 ^ 32" using D(2) by simp
  have uc: "unat (lh_count ?q) = length (rq p)" using hd l32 by (simp add: head_ok_def unat_of_nat)
  have "x < length (sc_tcbs s) \<and> tc_used (sc_tcbs s ! x) \<and> tc_reasons (sc_tcbs s ! x) = 0 \<and>
       unat (tc_queued (sc_tcbs s ! x)) = p \<and> unat (tc_priority (sc_tcbs s ! x)) = p \<and> sc_current s \<noteq> Some x" if "x \<in> set (rq p)" for x
  proof -
    have x: "x < length (sc_tcbs s)" "unat (tc_queued (sc_tcbs s ! x)) = p" using D(4) [OF p] that by blast+
    then have q: "tc_queued (sc_tcbs s ! x) \<noteq> NOT_QUEUED" using p by (auto simp: NQ_iff)
    then show ?thesis using x hinvD(4,5) [OF h x(1)] sinvD(2) [OF assms(1)] by (auto simp: hard_def cur_ok_def)
  qed
  then have w: "audit_walk (Suc (unat (lh_count ?q))) s p ?q (lh_head ?q) NIL (of_nat 0) \<in> {0, 9}"
    by (intro audit_walk_ok [where xs = "rq p" and m = "length (rq p)"]) (use hd l32 uc in \<open>auto simp: head_ok_def\<close>)
  have b: "bit (sc_bitmap s) p = (lh_count ?q > 0)"
    using D(6) [of p] p uc by (cases "rq p") (auto simp: word_less_nat_alt)
  show ?case using w b p D(1) Cons by (auto simp: table_simps Let_def)
qed

lemma audit_tcb_ok:
  assumes "sinv g s" "i < length (sc_tcbs s)"
  shows "audit_tcb g s i (sc_tcbs s ! i) \<in> {0, 7}"
  using used_dir [OF sinvD(1) [OF assms(1)] assms(2)] by (auto simp: audit_tcb_def)

lemma audit_tcbs_ok:
  assumes "\<And>i. i < length ts \<Longrightarrow> audit_tcb g s (k + i) (ts ! i) \<in> {0, 7}"
  shows "audit_tcbs g s k ts \<in> {0, 7}"
  using assms
proof (induction ts arbitrary: k)
  case (Cons t ts)
  have "audit_tcb g s k t \<in> {0, 7}" using Cons.prems [of 0] by simp
  moreover have "audit_tcb g s (Suc k + i) (ts ! i) \<in> {0, 7}" if "i < length ts" for i using Cons.prems [of "Suc i"] that by simp
  then have "audit_tcbs g s (Suc k) ts \<in> {0, 7}" by (rule Cons.IH)
  ultimately show ?case by (auto simp: Let_def)
qed simp

lemma audit_ok:
  assumes "sinv g s"
  shows "\<exists>c. sch_audit g s = Some c \<and> c \<in> {0, 7, 9}"
proof -
  obtain c where c: "audit_lists s [0..<NPRIO] = Some c" "c \<in> {0, 9}" using audit_lists_ok [OF assms, of "[0..<NPRIO]"] by (auto simp: NPRIO_def)
  have t: "audit_tcbs g s 0 (sc_tcbs s) \<in> {0, 7}" by (rule audit_tcbs_ok) (use audit_tcb_ok [OF assms] in simp)
  have "of_nat (count_tcbs budget_blocked' s) = sc_budget_blocked_count s" if "budget_blocked' = (\<lambda>t. br_has (tc_reasons t) BR_BUDGET)" for budget_blocked'
    using sinvD(1) [OF assms] that by (simp add: hinv_def count_tcbs_def)
  then show ?thesis using c t by (auto simp: sch_audit_def Let_def)
qed

end
