(* ===== verification/SchedCores.thy ===== *)
theory SchedCores
  imports SchedAudit
begin

text \<open>
  The schedulers of all cores with the statics they share. \<open>sch_step\<close> is a call of one scheduler;
  \<open>cores_step\<close> lets any core make such a call, migrates a thread with both locks held
  (\<open>kernel/src/system.rs\<close>, \<open>migrate_to\<close>), or reaps a dead thread and gives its number back.
\<close>

section \<open>One core\<close>

inductive sch_step :: "Statics \<Rightarrow> Scheduler \<Rightarrow> Statics \<Rightarrow> Scheduler \<Rightarrow> bool" where
  st_init: "unat p < 8 \<Longrightarrow> init_core g s core p = Some ((g', s'), r) \<Longrightarrow> sch_step g s g' s'"
| st_spawn_parked: "unat p < 8 \<Longrightarrow> spawn_parked fr g s e a b l p = Some ((g', s'), r) \<Longrightarrow> sch_step g s g' s'"
| st_spawn_user_parked: "unat p < 8 \<Longrightarrow> spawn_user_at_parked fr g s e a kb kl sp rb rl p = Some ((g', s'), r) \<Longrightarrow> sch_step g s g' s'"
| st_spawn: "unat p < 8 \<Longrightarrow> spawn fr g s e a b l p = Some ((g', s'), r) \<Longrightarrow> sch_step g s g' s'"
| st_spawn_user: "unat p < 8 \<Longrightarrow> spawn_user_at fr g s e a kb kl sp rb rl p = Some ((g', s'), r) \<Longrightarrow> sch_step g s g' s'"
| st_admit: "\<forall>i. sch_resolve g s tid = Some i \<longrightarrow> tc_reasons (sc_tcbs s ! i) = 0 \<and> sc_current s \<noteq> Some i \<Longrightarrow>
    admit g s tid = Some (s', b) \<Longrightarrow> sch_step g s g s'"
| st_kill: "kill hier g s tid = Some ((g', s'), b) \<Longrightarrow> sch_step g s g' s'"
| st_exit: "exit_current hier g s = Some ((g', s'), f) \<Longrightarrow> sch_step g s g' s'"
| st_block: "block_current s frame = Some (s', f) \<Longrightarrow> sch_step g s g s'"
| st_block_handler: "block_for_handler s frame = Some (s', f) \<Longrightarrow> sch_step g s g s'"
| st_block_load: "block_for_load s frame = Some (s', f) \<Longrightarrow> sch_step g s g s'"
| st_switch: "switch_to g s frame tid = Some (s', f) \<Longrightarrow> sch_step g s g s'"
| st_unblock: "unblock g s tid = Some (s', b) \<Longrightarrow> sch_step g s g s'"
| st_pause: "pause g s tid = Some (s', b) \<Longrightarrow> sch_step g s g s'"
| st_resume: "resume g s tid = Some (s', b) \<Longrightarrow> sch_step g s g s'"
| st_handler_wait: "mark_handler_wait g s tid = Some (s', b) \<Longrightarrow> sch_step g s g s'"
| st_handler_reply: "handler_reply g s tid = Some (s', b) \<Longrightarrow> sch_step g s g s'"
| st_load_reply: "load_reply g s tid = Some (s', b) \<Longrightarrow> sch_step g s g s'"
| st_debug_stop: "debug_stop g s tid = Some (s', b) \<Longrightarrow> sch_step g s g s'"
| st_debug_continue: "debug_continue g s tid = Some (s', b) \<Longrightarrow> sch_step g s g s'"
| st_debug_release: "debug_release_pd s pd_of pd = Some (s', n) \<Longrightarrow> sch_step g s g s'"
| st_freeze: "freeze_group g s tid = Some (s', b) \<Longrightarrow> sch_step g s g s'"
| st_thaw: "thaw_group g s tid = Some (s', b) \<Longrightarrow> sch_step g s g s'"
| st_park: "park_current s frame = Some (s', f') \<Longrightarrow> sch_step g s g s'"
| st_unpark: "unpark g s tid = Some (s', b) \<Longrightarrow> sch_step g s g s'"
| st_tls: "set_tls g s tid va = Some (s', b) \<Longrightarrow> sch_step g s g s'"
| st_handler: "set_handler g s tid h = Some (s', b) \<Longrightarrow> sch_step g s g s'"
| st_frist_clear: "frist_loeschen g s tid = Some (s', b) \<Longrightarrow> sch_step g s g s'"
| st_source: "sch_step g s g (set_cycle_source s src)"
| st_charge: "charge_current s core now = Some s' \<Longrightarrow> sch_step g s g s'"
| st_stamp: "stamp_current s core now = Some s' \<Longrightarrow> sch_step g s g s'"
| st_end_donation: "end_donation s = Some s' \<Longrightarrow> sch_step g s g s'"
| st_frist_set: "grund \<in> {BR_IPC, BR_PARK} \<Longrightarrow> frist_setzen s ticks grund = Some s' \<Longrightarrow> sch_step g s g s'"
| st_fristen: "fristen_faellig s cap = Some (s', out) \<Longrightarrow> sch_step g s g s'"
| st_tick: "on_tick s frame tick = Some (s', f) \<Longrightarrow> sch_step g s g s'"
| st_budget: "set_budget g s tid bu pe = Some (s', b) \<Longrightarrow> sch_step g s g s'"

definition step_ok :: "Statics \<Rightarrow> Scheduler \<Rightarrow> Statics \<Rightarrow> Scheduler \<Rightarrow> bool" where
  "step_ok g s g' s' \<longleftrightarrow> sinv g' s' \<and> dir_frame {sc_core s} g g' \<and> sc_core s' = sc_core s \<and> zstep g s g' s' \<and> (dex {} g s \<longrightarrow> dex {} g' s')"

lemma step_ok_pure: "sinv g s' \<Longrightarrow> outside True s s' \<Longrightarrow> step_ok g s g s'"
  using outside_dex [of s s' "{}" g] zstep_outside [OF zmono_refl outside_weak] by (simp add: step_ok_def outside_def)

lemma step_ok2: "r = Some (s', x) \<Longrightarrow> keeps_if g r \<Longrightarrow> out2 True s r \<Longrightarrow> step_ok g s g s'"
  by (rule step_ok_pure) (simp_all add: keeps_if_def out2_def)

lemma step_ok1: "r = Some s' \<Longrightarrow> keeps1 g r \<Longrightarrow> out1 True s r \<Longrightarrow> step_ok g s g s'"
  by (rule step_ok_pure) (simp_all add: keeps1_def out1_def)

lemma step_okg: "r = Some ((g', s'), x) \<Longrightarrow> keepsg_if g s r \<Longrightarrow> step_ok g s g' s'"
  by (simp add: step_ok_def keepsg_if_def keepsg_def)

lemma outer_reasons: "outer BR_PAUSE" "outer BR_HANDLER" "outer BR_DEBUG" "outer BR_FREEZE"
  by (simp_all add: outer_def)

lemma no_budget: "BR_PAUSE AND BR_BUDGET = 0" "BR_HANDLER AND BR_BUDGET = 0" "BR_LOAD AND BR_BUDGET = 0" "BR_DEBUG AND BR_BUDGET = 0" "BR_FREEZE AND BR_BUDGET = 0"
  "\<not> br_has BR_HANDLER BR_BUDGET" "\<not> br_has BR_LOAD BR_BUDGET"
  by (simp_all add: br_has_def br_defs)

text \<open>Every operation on threads that leaves the statics alone.\<close>

definition good2 :: "Statics \<Rightarrow> Scheduler \<Rightarrow> (Scheduler \<times> 'a) option \<Rightarrow> bool" where
  "good2 g s r \<longleftrightarrow> keeps_if g r \<and> out2 True s r"

lemma good2_ok: "r = Some (s', x) \<Longrightarrow> good2 g s r \<Longrightarrow> step_ok g s g s'"
  unfolding good2_def by (elim conjE) (rule step_ok2)

lemmas out_here = out_block [OF outside_refl] out_switch [OF outside_refl] out_unblock [OF outside_refl] out_stop [OF outside_refl]
  out_lift [OF outside_refl] out_park [OF outside_refl] out_unpark [OF outside_refl]  out_fristen [OF outside_refl]
  out_debug [OF outside_refl] out_on_tick [OF outside_refl] out_set_budget [OF outside_refl]

lemma good_stop: "sinv g s \<Longrightarrow> outer grund \<Longrightarrow> good2 g s (stop_for g s tid grund)"
  and good_lift: "sinv g s \<Longrightarrow> grund AND BR_BUDGET = 0 \<Longrightarrow> good2 g s (lift_reason g s tid grund)"
  and good_block: "sinv g s \<Longrightarrow> \<not> br_has grund BR_BUDGET \<Longrightarrow> good2 g s (block_current_mit s frame grund)"
  by (simp_all add: good2_def keeps_imp stop_keeps lift_keeps block_keeps out_here)

lemma good_ops:
  assumes "sinv g s"
  shows "good2 g s (block_current s frame)" "good2 g s (block_for_handler s frame)" "good2 g s (block_for_load s frame)"
    "good2 g s (switch_to g s frame tid)" "good2 g s (unblock g s tid)" "good2 g s (pause g s tid)" "good2 g s (resume g s tid)"
    "good2 g s (mark_handler_wait g s tid)" "good2 g s (handler_reply g s tid)" "good2 g s (load_reply g s tid)"
    "good2 g s (debug_stop g s tid)" "good2 g s (debug_continue g s tid)" "good2 g s (debug_release_pd s pd_of pd)"
    "good2 g s (freeze_group g s tid)" "good2 g s (thaw_group g s tid)" "good2 g s (park_current s frame)" "good2 g s (unpark g s tid)"
    "good2 g s (set_tls g s tid va)" "good2 g s (set_handler g s tid h)" "good2 g s (frist_loeschen g s tid)" "good2 g s (fristen_faellig s cap)"
    "good2 g s (on_tick s frame tick)" "good2 g s (set_budget g s tid bu pe)"
proof -
  note k = good_stop [OF assms] good_lift [OF assms] good_block [OF assms] outer_reasons no_budget
  show "good2 g s (block_current s frame)" "good2 g s (block_for_handler s frame)" "good2 g s (block_for_load s frame)"
    by (simp_all add: block_current_def block_for_handler_def block_for_load_def k)
  show "good2 g s (pause g s tid)" "good2 g s (resume g s tid)" "good2 g s (mark_handler_wait g s tid)" "good2 g s (handler_reply g s tid)" "good2 g s (load_reply g s tid)"
    by (simp_all add: pause_def resume_def mark_handler_wait_def handler_reply_def load_reply_def k)
  have id: "good2 g s (Some (s, False))" using assms by (simp add: good2_def)
  show "good2 g s (debug_stop g s tid)" "good2 g s (debug_continue g s tid)" "good2 g s (freeze_group g s tid)" "good2 g s (thaw_group g s tid)"
    by (simp_all add: debug_stop_def debug_continue_def freeze_group_def thaw_group_def k id)
  show "good2 g s (switch_to g s frame tid)" "good2 g s (unblock g s tid)" "good2 g s (debug_release_pd s pd_of pd)"
    "good2 g s (park_current s frame)" "good2 g s (unpark g s tid)" "good2 g s (fristen_faellig s cap)" "good2 g s (on_tick s frame tick)"
    "good2 g s (set_budget g s tid bu pe)"
    using assms by (simp_all add: good2_def out_here switch_keeps park_keeps keeps_imp unblock_keeps debug_release_keeps unpark_keeps
        fristen_faellig_keeps on_tick_keeps set_budget_keeps)
  show "good2 g s (set_tls g s tid va)" "good2 g s (set_handler g s tid h)" "good2 g s (frist_loeschen g s tid)"
    using keeps_imp [OF set_tls_keeps [OF assms, of tid va]] keeps_imp [OF set_handler_keeps [OF assms, of tid h]]
      keeps_imp [OF frist_loeschen_keeps [OF assms, of tid]]
    by (auto simp: good2_def set_tls_def set_handler_def frist_loeschen_def intro: out_attr)
qed

lemma good_spawns:
  assumes "sinv g s" "unat p < 8"
  shows "keepsg_if g s (init_core g s core p)" "keepsg_if g s (spawn_parked fr g s e a b l p)" "keepsg_if g s (spawn fr g s e a b l p)"
    "keepsg_if g s (spawn_user_at_parked fr g s e a kb kl sp rb rl p)" "keepsg_if g s (spawn_user_at fr g s e a kb kl sp rb rl p)"
  using init_core_keeps [OF assms] spawn_keeps [OF assms]
  by (simp_all add: keepsg_if_def spawn_def spawn_parked_def spawn_user_at_def spawn_user_at_parked_def)

lemma sch_step_ok:
  assumes "sch_step g s g' s'" "sinv g s"
  shows "step_ok g s g' s'"
  using assms
proof (induction rule: sch_step.induct)
  case (st_admit g s tid s' b)
  then obtain s1 r where "admit g s tid = Some (s1, r)" "sinv g s1" using admit_keeps [OF st_admit.prems, of tid] by blast
  then show ?case using st_admit.hyps(2) out_admit [OF outside_refl, of True s g tid] by (auto intro: step_ok2 [where x = b])
next
  case (st_frist_set grund s ticks s' g)
  have "sinv g s'" using frist_setzen_keeps [OF st_frist_set.prems st_frist_set.hyps(1), of ticks] st_frist_set.hyps(2) by simp
  then show ?case using st_frist_set.hyps(2) out_frist_setzen [OF outside_refl, of True s ticks grund] by (auto intro: step_ok1)
next
  case (st_source g s src)
  then show ?case by (simp add: set_cycle_source_def step_ok_pure)
next
  case (st_exit hier g s g' s' f)
  show ?case by (rule step_okg [OF st_exit.hyps exit_keeps [OF st_exit.prems]])
next
  case (st_kill hier g s tid g' s' b)
  show ?case by (rule step_okg [OF st_kill.hyps]) (simp add: keepsg_if_def kill_keeps st_kill.prems)
next
  case (st_charge s core now s' g)
  show ?case by (rule step_ok1 [OF st_charge.hyps charge_current_keeps [OF st_charge.prems] out_charge [OF outside_refl]])
next
  case (st_stamp s core now s' g)
  show ?case by (rule step_ok1 [OF st_stamp.hyps stamp_current_keeps [OF st_stamp.prems] out_stamp [OF outside_refl]])
next
  case (st_end_donation s s' g)
  show ?case by (rule step_ok1 [OF st_end_donation.hyps end_donation_keeps [OF st_end_donation.prems] out_end_donation [OF outside_refl]])
qed ((rule good2_ok, assumption, rule good_ops, assumption) | (rule step_okg, assumption, rule good_spawns, assumption, assumption))+


section \<open>All cores\<close>

text \<open>\<open>cs_reaped\<close>: numbers of dead threads that a reaper has taken and not yet given back.\<close>

record Cores =
  cs_g :: Statics
  cs_scheds :: "Scheduler list"
  cs_reaped :: "u32 list"

text \<open>The part of \<open>migrate_to\<close> that runs with the locks of both schedulers held, and the checks before it.\<close>

definition migrate_to :: "Cores \<Rightarrow> nat \<Rightarrow> nat \<Rightarrow> ThreadId \<Rightarrow> (Cores \<times> bool) option" where
  "migrate_to c src dst tid =
     (if dst = src \<or> dst \<ge> length (cs_scheds c) then Some (c, False)
      else if owner_core (cs_g c) tid \<noteq> Some src then Some (c, False)
      else do {
        source \<leftarrow> tget (cs_scheds c) src;
        target \<leftarrow> tget (cs_scheds c) dst;
        ((g1, source1), m') \<leftarrow> detach_for_migration (cs_g c) source tid;
        case m' of
          None \<Rightarrow> Some (c\<lparr>cs_g := g1, cs_scheds := (cs_scheds c)[src := source1]\<rparr>, False)
        | Some m \<Rightarrow> do {
            ((g2, target1), back) \<leftarrow> attach_migrated g1 target m;
            case back of
              None \<Rightarrow> Some (c\<lparr>cs_g := g2, cs_scheds := (cs_scheds c)[src := source1, dst := target1]\<rparr>, True)
            | Some m1 \<Rightarrow> do {
                ((g3, source2), _) \<leftarrow> attach_migrated g2 source1 m1;
                Some (c\<lparr>cs_g := g3, cs_scheds := (cs_scheds c)[src := source2, dst := target1]\<rparr>, False)
              }
          }
      })"

inductive cores_step :: "Cores \<Rightarrow> Cores \<Rightarrow> bool" where
  cs_local: "k < length (cs_scheds c) \<Longrightarrow> sch_step (cs_g c) (cs_scheds c ! k) g' s' \<Longrightarrow>
    cores_step c (c\<lparr>cs_g := g', cs_scheds := (cs_scheds c)[k := s']\<rparr>)"
| cs_migrate: "src < length (cs_scheds c) \<Longrightarrow> migrate_to c src dst tid = Some (c', b) \<Longrightarrow> cores_step c c'"
| cs_reap: "k < length (cs_scheds c) \<Longrightarrow> reap (cs_scheds c ! k) = Some (s', Some (base, len, gid)) \<Longrightarrow>
    cores_step c (c\<lparr>cs_scheds := (cs_scheds c)[k := s'], cs_reaped := cs_reaped c @ [gid]\<rparr>)"
| cs_release: "cs_reaped c = as @ gid # bs \<Longrightarrow> cores_step c (c\<lparr>cs_g := release_gid (cs_g c) gid, cs_reaped := as @ bs\<rparr>)"

text \<open>The state right after the tables were attached: a directory of \<open>n\<close> entries and one scheduler per element of \<open>caps\<close>.\<close>

definition cores_boot :: "nat \<Rightarrow> nat list \<Rightarrow> Cores" where
  "cores_boot n caps = \<lparr>cs_g = attach_directory Statics_init n,
     cs_scheds = map (\<lambda>k. sch_attach_storage Scheduler_new k (caps ! k)) [0..<length caps], cs_reaped = []\<rparr>"

definition zall :: "Cores \<Rightarrow> nat list" where
  "zall c = map unat (cs_reaped c) @ concat (map zlist (cs_scheds c))"

definition cores_inv :: "Cores \<Rightarrow> bool" where
  "cores_inv c \<longleftrightarrow> g_inv (cs_g c) \<and>
     (\<forall>k<length (cs_scheds c). sc_core (cs_scheds c ! k) = k \<and> sinv (cs_g c) (cs_scheds c ! k) \<and> zring (cs_scheds c ! k) \<and>
        dex {} (cs_g c) (cs_scheds c ! k)) \<and>
     distinct (zall c) \<and> (\<forall>gid\<in>set (zall c). zfree (cs_g c) gid)"

lemma sinv_frame: "sinv g s \<Longrightarrow> dir_frame C g g' \<Longrightarrow> sc_core s \<notin> C \<Longrightarrow> g_inv g' \<Longrightarrow> sinv g' s"
  using hinv_frame [of "{}" g s C g'] by (simp add: sinv_def)

lemma concat_upd:
  assumes "k < length xs"
  shows "concat (map f (xs[k := y])) = concat (map f (take k xs)) @ f y @ concat (map f (drop (Suc k) xs))"
    "concat (map f xs) = concat (map f (take k xs)) @ f (xs ! k) @ concat (map f (drop (Suc k) xs))"
  using upd_conv_take_nth_drop [OF assms, of y] id_take_nth_drop [OF assms] by (simp, metis append.assoc concat.simps(2) concat_append list.simps(9) map_append)

lemma zall_step:
  assumes "distinct (zall c)" "\<forall>gid\<in>set (zall c). zfree (cs_g c) gid" "k < length (cs_scheds c)" "zring (cs_scheds c ! k)"
    "zstep (cs_g c) (cs_scheds c ! k) g' s'"
  defines "c' \<equiv> c\<lparr>cs_g := g', cs_scheds := (cs_scheds c)[k := s']\<rparr>"
  shows "distinct (zall c') \<and> (\<forall>gid\<in>set (zall c'). zfree g' gid)"
proof -
  let ?s = "cs_scheds c ! k"
  have m: "zfree (cs_g c) x \<Longrightarrow> zfree g' x" for x using assms(5) by (simp add: zstep_def zmono_def)
  have z: "zall c' = map unat (cs_reaped c) @ concat (map zlist (take k (cs_scheds c))) @ zlist s' @ concat (map zlist (drop (Suc k) (cs_scheds c)))"
    "zall c = map unat (cs_reaped c) @ concat (map zlist (take k (cs_scheds c))) @ zlist ?s @ concat (map zlist (drop (Suc k) (cs_scheds c)))"
    using concat_upd [OF assms(3), of zlist] by (simp_all add: zall_def c'_def)
  from assms(4,5) have "zlist s' = zlist ?s \<or> (\<exists>gid. zlist s' = zlist ?s @ [gid] \<and> \<not> zfree (cs_g c) gid \<and> zfree g' gid)"
    by (simp add: zstep_def)
  then show ?thesis
  proof (elim disjE exE conjE)
    assume "zlist s' = zlist ?s"
    then have "zall c' = zall c" using z by simp
    then show ?thesis using assms(1,2) m by simp
  next
    fix gid
    assume g: "zlist s' = zlist ?s @ [gid]" "\<not> zfree (cs_g c) gid" "zfree g' gid"
    have "gid \<notin> set (zall c)" using assms(2) g(2) by blast
    moreover have "set (zall c') = insert gid (set (zall c))" unfolding z g(1) by auto
    moreover have "distinct (zall c')" using assms(1) \<open>gid \<notin> set (zall c)\<close> unfolding z g(1) by auto
    ultimately show ?thesis using assms(2) g(3) m by auto
  qed
qed


lemma dex_frame: "dex X g s \<Longrightarrow> dir_frame C g g' \<Longrightarrow> sc_core s \<notin> C \<Longrightarrow> dex X g' s"
  unfolding dex_def dir_frame_def by metis

lemma cores_invD:
  assumes "cores_inv c"
  shows "g_inv (cs_g c)" "distinct (zall c)" "\<forall>gid\<in>set (zall c). zfree (cs_g c) gid"
    "\<And>k. k < length (cs_scheds c) \<Longrightarrow> sc_core (cs_scheds c ! k) = k" "\<And>k. k < length (cs_scheds c) \<Longrightarrow> sinv (cs_g c) (cs_scheds c ! k)"
    "\<And>k. k < length (cs_scheds c) \<Longrightarrow> zring (cs_scheds c ! k)" "\<And>k. k < length (cs_scheds c) \<Longrightarrow> dex {} (cs_g c) (cs_scheds c ! k)"
  using assms unfolding cores_inv_def by blast+

lemma zstep_ring: "zstep g s g' s' \<Longrightarrow> zring s \<Longrightarrow> zring s'"
  by (simp add: zstep_def)

lemma cores_update:
  assumes "cores_inv c" "k < length (cs_scheds c)" "sinv g' s'" "dir_frame {k} (cs_g c) g'" "sc_core s' = k"
    "zstep (cs_g c) (cs_scheds c ! k) g' s'" "dex {} g' s'"
  shows "cores_inv (c\<lparr>cs_g := g', cs_scheds := (cs_scheds c)[k := s']\<rparr>)"
proof -
  note I = cores_invD [OF assms(1)]
  have "sc_core ((cs_scheds c)[k := s'] ! j) = j \<and> sinv g' ((cs_scheds c)[k := s'] ! j) \<and> zring ((cs_scheds c)[k := s'] ! j) \<and>
    dex {} g' ((cs_scheds c)[k := s'] ! j)" if j: "j < length (cs_scheds c)" for j
  proof (cases "j = k")
    case True
    then show ?thesis using assms zstep_ring [OF assms(6) I(6) [OF assms(2)]] by simp
  next
    case False
    then show ?thesis using I(4-7) [OF j] sinv_frame [OF I(5) [OF j] assms(4)] dex_frame [OF I(7) [OF j] assms(4)] sinvD(3) [OF assms(3)] by simp
  qed
  then show ?thesis using zall_step [OF I(2,3) assms(2) I(6) [OF assms(2)] assms(6)] sinvD(3) [OF assms(3)] by (simp add: cores_inv_def)
qed

lemma dir_frame_eq: "g_directory g' = g_directory g \<Longrightarrow> dir_frame C g g'"
  by (simp add: dir_frame_def dir_load_def)

text \<open>
  Migration in a state with the invariant: the result is \<open>True\<close> only if the thread now resolves on the
  target core, with its block reasons and ready if it was; otherwise it resolves on its old core as before.
\<close>

definition same_standing :: "Statics \<Rightarrow> Scheduler \<Rightarrow> Statics \<Rightarrow> Scheduler \<Rightarrow> ThreadId \<Rightarrow> bool" where
  "same_standing g s g' s' tid \<longleftrightarrow> (case (sch_resolve g s tid, sch_resolve g' s' tid) of
     (Some i, Some j) \<Rightarrow> tc_reasons (sc_tcbs s' ! j) = tc_reasons (sc_tcbs s ! i) \<and>
       (tc_queued (sc_tcbs s ! i) \<noteq> NOT_QUEUED \<longrightarrow> tc_queued (sc_tcbs s' ! j) \<noteq> NOT_QUEUED)
   | _ \<Rightarrow> False)"

lemma resolve_gid:
  assumes "dex {} g s" "sch_resolve g s tid = Some i"
  shows "unat (tc_gid (sc_tcbs s ! i)) = t_slot tid"
  using assms unfolding dex_def sch_resolve_def by (fastforce simp: tcb_def split: if_splits Option.bind_splits)

lemma resolve_core: "sch_resolve g s tid = Some i \<Longrightarrow> owner_core g tid = Some (sc_core s)"
  unfolding sch_resolve_def owner_core_def by (auto split: Option.bind_splits if_splits)

lemma owner_resolves:
  assumes "dex {} g s" "owner_core g tid = Some (sc_core s)"
  shows "\<exists>i. sch_resolve g s tid = Some i"
proof -
  obtain e where e: "dir_load g (t_slot tid) = Some e" "dir_used e" "dir_gen e = t_gen tid" "dir_core e = sc_core s"
    using assms(2) unfolding owner_core_def by (auto split: option.splits if_splits)
  then have "dir_local e < length (sc_tcbs s) \<and> tc_used (sc_tcbs s ! dir_local e) \<and> tc_gen (sc_tcbs s ! dir_local e) = dir_gen e"
    using assms(1) unfolding dex_def by auto
  then show ?thesis using e by (simp add: sch_resolve_def tcb_in)
qed

lemma nth_upd2: "i < length xs \<Longrightarrow> j < length xs \<Longrightarrow> i \<noteq> j \<Longrightarrow> k < length xs \<Longrightarrow> xs[i := a, j := b] ! k = (if k = j then b else if k = i then a else xs ! k)"
  by (simp add: nth_list_update)

text \<open>Both schedulers and the statics changed, the rest framed.\<close>

lemma cores_update2:
  assumes "cores_inv c" "src < length (cs_scheds c)" "dst < length (cs_scheds c)" "src \<noteq> dst" "dir_frame {src, dst} (cs_g c) g2"
    "zstep (cs_g c) (cs_scheds c ! src) g1 s1" "zstep g1 (cs_scheds c ! dst) g2 d1"
    "sinv g2 s1" "dex {} g2 s1" "sc_core s1 = src" "sinv g2 d1" "dex {} g2 d1" "sc_core d1 = dst"
  shows "cores_inv (c\<lparr>cs_g := g2, cs_scheds := (cs_scheds c)[src := s1, dst := d1]\<rparr>)"
proof -
  note I = cores_invD [OF assms(1)]
  let ?ss = "(cs_scheds c)[src := s1, dst := d1]"
  have r: "zring s1" "zring d1" using zstep_ring [OF assms(6) I(6) [OF assms(2)]] zstep_ring [OF assms(7) I(6) [OF assms(3)]] .
  have "sc_core (?ss ! j) = j \<and> sinv g2 (?ss ! j) \<and> zring (?ss ! j) \<and> dex {} g2 (?ss ! j)" if j: "j < length (cs_scheds c)" for j
  proof (cases "j = src \<or> j = dst")
    case True
    then show ?thesis using assms r by (auto simp: nth_upd2 [OF assms(2,3,4) j])
  next
    case False
    then show ?thesis
      using I(4-7) [OF j] sinv_frame [OF I(5) [OF j] assms(5)] dex_frame [OF I(7) [OF j] assms(5)] sinvD(3) [OF assms(8)]
      by (simp add: nth_upd2 [OF assms(2,3,4) j])
  qed
  moreover have "distinct (zall (c\<lparr>cs_g := g2, cs_scheds := ?ss\<rparr>)) \<and> (\<forall>gid\<in>set (zall (c\<lparr>cs_g := g2, cs_scheds := ?ss\<rparr>)). zfree g2 gid)"
  proof -
    let ?c1 = "c\<lparr>cs_g := g1, cs_scheds := (cs_scheds c)[src := s1]\<rparr>"
    have "distinct (zall ?c1) \<and> (\<forall>gid\<in>set (zall ?c1). zfree g1 gid)" by (rule zall_step [OF I(2,3) assms(2) I(6) [OF assms(2)] assms(6)])
    then show ?thesis using zall_step [of ?c1 dst g2 d1] assms(3,4,7) I(6) [OF assms(3)] by simp
  qed
  ultimately show ?thesis using sinvD(3) [OF assms(8)] by (simp add: cores_inv_def)
qed

lemma migrate_in:
  assumes "sinv g1 s1" "dex {unat (tc_gid (mi_tcb m))} g1 s1" "sc_core s1 = src"
    "\<forall>j<length (sc_tcbs s1). tc_used (sc_tcbs s1 ! j) \<longrightarrow> tc_gid (sc_tcbs s1 ! j) \<noteq> tc_gid (mi_tcb m)"
    "\<forall>x. x \<noteq> unat (tc_gid (mi_tcb m)) \<longrightarrow> dir_load g2 x = dir_load g1 x" "g_inv g2"
    "\<forall>e. dir_load g2 (unat (tc_gid (mi_tcb m))) = Some e \<longrightarrow> dir_core e \<noteq> src"
  shows "sinv g2 s1 \<and> dex {} g2 s1"
proof
  have "hinv {} g2 s1"
  proof (rule hinv_g [OF sinvD(1) [OF assms(1)]])
    fix j
    assume "j < length (sc_tcbs s1)" "tc_used (sc_tcbs s1 ! j)"
    then have "unat (tc_gid (sc_tcbs s1 ! j)) \<noteq> unat (tc_gid (mi_tcb m))" using assms(4) by (metis unsigned_word_eqI)
    then show "dir_load g2 (unat (tc_gid (sc_tcbs s1 ! j))) = dir_load g1 (unat (tc_gid (sc_tcbs s1 ! j)))" using assms(5) by simp
  qed
  then show "sinv g2 s1" using assms(1,6) by (simp add: sinv_def)
  show "dex {} g2 s1" unfolding dex_def
  proof (intro allI impI)
    fix x e
    assume x: "x \<notin> {}" "dir_load g2 x = Some e" "dir_used e" "dir_core e = sc_core s1"
    have "x \<noteq> unat (tc_gid (mi_tcb m))" using x(2,4) assms(3,7) by auto
    then show "dir_local e < length (sc_tcbs s1) \<and> tc_used (sc_tcbs s1 ! dir_local e) \<and> unat (tc_gid (sc_tcbs s1 ! dir_local e)) = x \<and>
      tc_gen (sc_tcbs s1 ! dir_local e) = dir_gen e" using x assms(2,5) unfolding dex_def by simp
  qed
qed

lemma foreign_gid:
  assumes "sinv g s" "mi_ok g c m" "sc_core s \<noteq> c" "j < length (sc_tcbs s)" "tc_used (sc_tcbs s ! j)"
  shows "tc_gid (sc_tcbs s ! j) \<noteq> tc_gid (mi_tcb m)"
  using used_dir(1,3) [OF sinvD(1) [OF assms(1)] assms(4,5)] assms(2,3) by (auto simp: mi_ok_def)

definition migrated :: "Cores \<Rightarrow> nat \<Rightarrow> nat \<Rightarrow> ThreadId \<Rightarrow> (Cores \<times> bool) option \<Rightarrow> bool" where
  "migrated c src dst tid r \<longleftrightarrow> (case r of None \<Rightarrow> False | Some (c', b) \<Rightarrow>
     cores_inv c' \<and> length (cs_scheds c') = length (cs_scheds c) \<and>
     (if b then owner_core (cs_g c') tid = Some dst \<and> same_standing (cs_g c) (cs_scheds c ! src) (cs_g c') (cs_scheds c' ! dst) tid
      else owner_core (cs_g c') tid = owner_core (cs_g c) tid \<and>
       (owner_core (cs_g c) tid = Some src \<longrightarrow> same_standing (cs_g c) (cs_scheds c ! src) (cs_g c') (cs_scheds c' ! src) tid)))"

lemma migrate_ok:
  assumes "cores_inv c" "src < length (cs_scheds c)"
  shows "migrated c src dst tid (migrate_to c src dst tid)"
proof -
  let ?g = "cs_g c" and ?src = "cs_scheds c ! src" and ?dst = "cs_scheds c ! dst"
  note I = cores_invD [OF assms(1)]
  have self: "owner_core ?g tid = Some src \<longrightarrow> same_standing ?g ?src ?g ?src tid"
    using owner_resolves [OF I(7) [OF assms(2)], of tid] I(4) [OF assms(2)] by (auto simp: same_standing_def)
  show ?thesis
  proof (cases "dst = src \<or> dst \<ge> length (cs_scheds c) \<or> owner_core ?g tid \<noteq> Some src")
    case True
    then have "migrate_to c src dst tid = Some (c, False)" by (auto simp: migrate_to_def)
    then show ?thesis using assms(1) self by (simp add: migrated_def)
  next
    case False
    then have d: "dst < length (cs_scheds c)" "dst \<noteq> src" and own: "owner_core ?g tid = Some src" by auto
    obtain g1 s1 r where D: "detach_for_migration ?g ?src tid = Some ((g1, s1), r)" "sinv g1 s1" "g_directory g1 = g_directory ?g"
      "zstep ?g ?src g1 s1" "sc_core s1 = sc_core ?src" "length (sc_tcbs s1) = length (sc_tcbs ?src)"
      "r = None \<longrightarrow> g1 = ?g \<and> s1 = ?src" "dex {} ?g ?src \<longrightarrow> dex (case r of None \<Rightarrow> {} | Some m \<Rightarrow> {unat (tc_gid (mi_tcb m))}) g1 s1"
      "\<forall>m. r = Some m \<longrightarrow> mi_ok g1 (sc_core ?src) m \<and> (\<exists>i<length (sc_tcbs s1). \<not> tc_used (sc_tcbs s1 ! i)) \<and>
       (\<exists>i. sch_resolve ?g ?src tid = Some i \<and> \<lparr>t_slot = unat (tc_gid (mi_tcb m)), t_gen = tc_gen (mi_tcb m)\<rparr> = \<lparr>t_slot = unat (tc_gid (sc_tcbs ?src ! i)), t_gen = t_gen tid\<rparr> \<and>
          tc_reasons (mi_tcb m) = tc_reasons (sc_tcbs ?src ! i) \<and> (mi_was_ready m \<longleftrightarrow> tc_queued (sc_tcbs ?src ! i) \<noteq> NOT_QUEUED)) \<and>
       (\<forall>j<length (sc_tcbs s1). tc_used (sc_tcbs s1 ! j) \<longrightarrow> tc_gid (sc_tcbs s1 ! j) \<noteq> tc_gid (mi_tcb m))"
      using detach_ok [OF I(5) [OF assms(2)], of tid] by blast
    have src: "sc_core ?src = src" "sc_core ?dst = dst" using I(4) assms(2) d(1) by simp_all
    have dl1: "dir_load g1 x = dir_load ?g x" for x using D(3) by (simp add: dir_load_def)
    have t: "tget (cs_scheds c) src = Some ?src" "tget (cs_scheds c) dst = Some ?dst" using assms(2) d(1) by (simp_all add: table_simps)
    show ?thesis
    proof (cases r)
      case None
      then have "migrate_to c src dst tid = Some (c, False)" using False D(1,7) t assms(2) by (auto simp: migrate_to_def)
      then show ?thesis using assms(1) self by (simp add: migrated_def)
    next
      case (Some m)
      let ?gid = "unat (tc_gid (mi_tcb m))"
      have dx: "dex {?gid} g1 s1" using D(8) I(7) [OF assms(2)] Some by simp
      have mo: "mi_ok g1 src m" and fresh: "\<exists>i<length (sc_tcbs s1). \<not> tc_used (sc_tcbs s1 ! i)"
        and ng: "\<forall>j<length (sc_tcbs s1). tc_used (sc_tcbs s1 ! j) \<longrightarrow> tc_gid (sc_tcbs s1 ! j) \<noteq> tc_gid (mi_tcb m)" using D(9) Some src by auto
      obtain i where i: "sch_resolve ?g ?src tid = Some i" "?gid = unat (tc_gid (sc_tcbs ?src ! i))" "tc_gen (mi_tcb m) = t_gen tid"
        "tc_reasons (mi_tcb m) = tc_reasons (sc_tcbs ?src ! i)" "mi_was_ready m \<longleftrightarrow> tc_queued (sc_tcbs ?src ! i) \<noteq> NOT_QUEUED"
        using D(9) Some by auto
      have tid: "\<lparr>t_slot = ?gid, t_gen = tc_gen (mi_tcb m)\<rparr> = tid" using i(2,3) resolve_gid [OF I(7) [OF assms(2)] i(1)] by simp
      have di: "sinv g1 ?dst" by (rule sinv_frame [OF I(5) [OF d(1)] dir_frame_eq [OF D(3), of "{}"]]) (use sinvD(3) [OF D(2)] in simp_all)
      have step1: "migrate_to c src dst tid = (do {
            ((g2, target1), back) \<leftarrow> attach_migrated g1 ?dst m;
            case back of
              None \<Rightarrow> Some (c\<lparr>cs_g := g2, cs_scheds := (cs_scheds c)[src := s1, dst := target1]\<rparr>, True)
            | Some m1 \<Rightarrow> do {
                ((g3, source2), _) \<leftarrow> attach_migrated g2 s1 m1;
                Some (c\<lparr>cs_g := g3, cs_scheds := (cs_scheds c)[src := source2, dst := target1]\<rparr>, False)
              }
          })" using False D(1) t Some by (simp add: migrate_to_def)
      from attach_ok [OF di mo foreign_gid [OF di mo]] src(2) d(2) consider
        (full) "attach_migrated g1 ?dst m = Some ((g1, ?dst), Some m)"
      | (got) g2 d1 j where "attach_migrated g1 ?dst m = Some ((g2, d1), None)" "sinv g2 d1" "dir_frame {src, dst} g1 g2" "zstep g1 ?dst g2 d1"
          "dex {?gid} g1 ?dst \<longrightarrow> dex {} g2 d1" "\<forall>e. dir_load g2 ?gid = Some e \<longrightarrow> dir_core e = dst" "sc_core d1 = dst"
          "\<forall>x. x \<noteq> ?gid \<longrightarrow> dir_load g2 x = dir_load g1 x" "sch_resolve g2 d1 tid = Some j"
          "tc_reasons (sc_tcbs d1 ! j) = tc_reasons (mi_tcb m)" "mi_was_ready m \<longrightarrow> tc_queued (sc_tcbs d1 ! j) \<noteq> NOT_QUEUED"
        unfolding tid by auto
      then show ?thesis
      proof cases
        case got
        have x: "sinv g2 s1 \<and> dex {} g2 s1"
          by (rule migrate_in [OF D(2) dx _ ng got(8) sinvD(3) [OF got(2)]]) (use got(6) d(2) D(5) src in auto)
        have dd: "dex {} g2 d1" using got(5) dex_mono [OF dex_g [OF I(7) [OF d(1)]], of g1 "{?gid}"] dl1 by simp
        have "cores_inv (c\<lparr>cs_g := g2, cs_scheds := (cs_scheds c)[src := s1, dst := d1]\<rparr>)"
          by (rule cores_update2 [OF assms(1,2) d(1)])
            (use d(2) dir_frame_trans [OF dir_frame_eq [OF D(3)] got(3)] D(4,5) got(2,4,7) x dd src in auto)
        moreover have "migrate_to c src dst tid = Some (c\<lparr>cs_g := g2, cs_scheds := (cs_scheds c)[src := s1, dst := d1]\<rparr>, True)"
          unfolding step1 got(1) by simp
        moreover have "owner_core g2 tid = Some dst" using resolve_core [OF got(9)] got(7) by simp
        moreover have "same_standing ?g ?src g2 d1 tid" using i got(9-11) by (simp add: same_standing_def)
        ultimately show ?thesis using d(1) by (simp add: migrated_def)
      next
        case full
        from attach_ok [OF D(2) mo] ng fresh obtain g3 s3 j where A: "attach_migrated g1 s1 m = Some ((g3, s3), None)" "sinv g3 s3" "dir_frame {src} g1 g3"
            "zstep g1 s1 g3 s3" "dex {?gid} g1 s1 \<longrightarrow> dex {} g3 s3" "sc_core s3 = src" "sch_resolve g3 s3 tid = Some j"
            "tc_reasons (sc_tcbs s3 ! j) = tc_reasons (mi_tcb m)" "mi_was_ready m \<longrightarrow> tc_queued (sc_tcbs s3 ! j) \<noteq> NOT_QUEUED"
          unfolding tid using D(5) src by auto
        have "outside False ?src s3" using out_detach [OF outside_refl, of ?src ?g tid] out_attach [OF outside_refl, of s1 g1 m] D(1) A(1) outside_trans [of False ?src s1 s3] by simp
        moreover have "zmono ?g g3" using D(4) A(4) zmono_trans [of ?g g1 g3] by (simp add: zstep_def)
        ultimately have "zstep ?g ?src g3 s3" by (simp add: zstep_outside)
        then have "cores_inv (c\<lparr>cs_g := g3, cs_scheds := (cs_scheds c)[src := s3]\<rparr>)"
          using cores_update [OF assms A(2) dir_frame_trans [OF dir_frame_eq [OF D(3)] A(3)] A(6)] A(5) dx by simp
        moreover have "(cs_scheds c)[src := s3, dst := ?dst] = (cs_scheds c)[src := s3]" using d(2) by (metis list_update_id list_update_swap)
        then have "migrate_to c src dst tid = Some (c\<lparr>cs_g := g3, cs_scheds := (cs_scheds c)[src := s3]\<rparr>, False)"
          unfolding step1 full by (simp add: A(1))
        moreover have "owner_core g3 tid = owner_core ?g tid" using resolve_core [OF A(7)] A(6) own by simp
        moreover have "same_standing ?g ?src g3 s3 tid" using i A(7-9) by (simp add: same_standing_def)
        ultimately show ?thesis using assms(2) by (simp add: migrated_def)
      qed
    qed
  qed
qed


section \<open>Reachable states\<close>

lemma reap_zlist:
  assumes "reap s = Some (s', Some (base, len, gid))" "hinv X g s" "zring s"
  shows "zlist s = unat gid # zlist s' \<and> zring s' \<and> outside True s (s'\<lparr>sc_zhead := sc_zhead s, sc_zcount := sc_zcount s\<rparr>) \<and>
    hinv X g s' \<and> sc_current s' = sc_current s \<and> sc_tcbs s' = sc_tcbs s"
proof -
  let ?n = "length (sc_zombies s)"
  have n: "sc_zcount s \<noteq> 0" "s' = s\<lparr>sc_zhead := (sc_zhead s + 1) mod ?n, sc_zcount := sc_zcount s - 1\<rparr>" "sc_zhead s < ?n"
    "gid = z_gid (sc_zombies s ! sc_zhead s)"
    using assms(1) by (auto simp: reap_def tget_def split: if_splits)
  have "[0..<sc_zcount s] = 0 # map Suc [0..<sc_zcount s - 1]" using n(1) by (simp add: map_Suc_upt upt_rec [of 0 "sc_zcount s"])
  then have "zlist s = unat gid # zlist s'"
    using n(3,4) by (simp add: zlist_def n(2) mod_simps comp_def)
  moreover have "((sc_zhead s + 1) mod ?n + (sc_zcount s - 1)) mod ?n = (sc_zhead s + sc_zcount s) mod ?n"
    unfolding mod_add_left_eq using n(1) by simp
  then have "zring s'" using assms(3) n(1) unfolding zring_def n(2) by auto
  moreover have "hinv X g s'" using assms(2) n(1,3) unfolding hinv_def n(2) by auto
  ultimately show ?thesis by (simp add: n(2) outside_def)
qed


lemma cores_reap:
  assumes "cores_inv c" "k < length (cs_scheds c)" "reap (cs_scheds c ! k) = Some (s', Some (base, len, gid))"
  shows "cores_inv (c\<lparr>cs_scheds := (cs_scheds c)[k := s'], cs_reaped := cs_reaped c @ [gid]\<rparr>)"
proof -
  note I = cores_invD [OF assms(1)]
  let ?s = "cs_scheds c ! k" and ?c = "c\<lparr>cs_scheds := (cs_scheds c)[k := s'], cs_reaped := cs_reaped c @ [gid]\<rparr>"
  note S = I(5) [OF assms(2)]
  note R = reap_zlist [OF assms(3) sinvD(1) [OF S] I(6) [OF assms(2)]]
  have k': "sc_core s' = k" using R I(4) [OF assms(2)] by (simp add: outside_def)
  have "cur_ok s'" using sinvD(2) [OF S] R by (simp add: cur_ok_def)
  then have s': "sinv (cs_g c) s'" using R S by (simp add: sinv_def)
  have d': "dex {} (cs_g c) s'" using R k' I(4) [OF assms(2)] by (intro dex_tcbs [OF I(7) [OF assms(2)]]) simp_all
  have "sc_core ((cs_scheds c)[k := s'] ! j) = j \<and> sinv (cs_g c) ((cs_scheds c)[k := s'] ! j) \<and> zring ((cs_scheds c)[k := s'] ! j) \<and>
    dex {} (cs_g c) ((cs_scheds c)[k := s'] ! j)" if j: "j < length (cs_scheds c)" for j
    using I(4-7) [OF j] s' d' k' R assms(2) by (cases "j = k") simp_all
  moreover have z: "concat (map zlist ((cs_scheds c)[k := s'])) = concat (map zlist (take k (cs_scheds c))) @ zlist s' @ concat (map zlist (drop (Suc k) (cs_scheds c)))"
    "concat (map zlist (cs_scheds c)) = concat (map zlist (take k (cs_scheds c))) @ unat gid # zlist s' @ concat (map zlist (drop (Suc k) (cs_scheds c)))"
    using concat_upd [OF assms(2), of zlist] R by simp_all
  have zc: "zall ?c = map unat (cs_reaped c) @ unat gid # concat (map zlist (take k (cs_scheds c))) @ zlist s' @ concat (map zlist (drop (Suc k) (cs_scheds c)))"
    "zall c = map unat (cs_reaped c) @ concat (map zlist (take k (cs_scheds c))) @ unat gid # zlist s' @ concat (map zlist (drop (Suc k) (cs_scheds c)))"
    unfolding zall_def by (simp_all only: z) (simp_all add: z)
  have "set (zall ?c) = set (zall c)" unfolding zc by auto
  moreover have "distinct (zall ?c)" using I(2) unfolding zc by auto
  ultimately show ?thesis using I(1-3) by (simp add: cores_inv_def)
qed

lemma cores_release:
  assumes "cores_inv c" "cs_reaped c = as @ gid # bs"
  shows "cores_inv (c\<lparr>cs_g := release_gid (cs_g c) gid, cs_reaped := as @ bs\<rparr>)"
proof -
  note I = cores_invD [OF assms(1)]
  let ?g = "cs_g c" and ?g' = "release_gid (cs_g c) gid" and ?c = "c\<lparr>cs_g := release_gid (cs_g c) gid, cs_reaped := as @ bs\<rparr>"
  have z: "zfree ?g (unat gid)" "unat gid \<notin> set (zall ?c)" "set (zall ?c) \<subseteq> set (zall c)" "distinct (zall ?c)"
    using I(2,3) assms(2) by (auto simp: zall_def)
  have iu: "unat gid \<in> fl.in_use (g_gid_free ?g)" using z(1) by (simp add: zfree_def fl_in_use_eq)
  have fw: "fl_wf (g_gid_free ?g)" using I(1) by (simp add: g_inv_def)
  note rel = fl.release_in_use [OF fw iu, unfolded fl_in_use_eq]
  have dl: "dir_load ?g' x = dir_load ?g x" for x by (simp add: release_gid_def)
  have gi: "g_inv ?g'" using I(1) rel z(1) unfolding g_inv_def release_gid_def by (auto simp: zfree_def dir_load_def tget_eq_Some_iff)
  have "sinv ?g' (cs_scheds c ! k) \<and> dex {} ?g' (cs_scheds c ! k)" if k: "k < length (cs_scheds c)" for k
    using I(5,7) [OF k] gi hinv_g [OF sinvD(1) [OF I(5) [OF k]], of ?g'] dl dex_g [OF I(7) [OF k] dl] by (simp add: sinv_def)
  moreover have "zfree ?g' x" if "x \<in> set (zall ?c)" for x
  proof -
    have "zfree ?g x" "x \<noteq> unat gid" using that z(2,3) I(3) by auto
    then show ?thesis using rel dl by (simp add: zfree_def release_gid_def)
  qed
  ultimately show ?thesis using I(4,6) gi z(4) by (simp add: cores_inv_def)
qed

lemma Tcb_EMPTY_reasons [simp]: "tc_reasons Tcb_EMPTY = 0"
  by (simp add: Tcb_EMPTY_def)

lemma boot_inv:
  assumes "n < 2 ^ 32" "length caps \<le> 256" "\<forall>cap\<in>set caps. cap \<le> 2 ^ 16"
  shows "cores_inv (cores_boot n caps)"
proof -
  let ?g = "attach_directory Statics_init n"
  have gi: "g_inv ?g"
    using fl_attach_ok [of n] assms(1)
    by (auto simp: g_inv_def attach_directory_def Statics_init_def MAX_CORES_def fl_capacity_def fl_attach_def dir_used_def)
  have dl: "\<not> (dir_load ?g x = Some e \<and> dir_used e)" for x e
    by (auto simp: dir_load_def attach_directory_def tget_def dir_used_def split: if_splits)
  have "sc_core (cs_scheds (cores_boot n caps) ! k) = k \<and> sinv ?g (cs_scheds (cores_boot n caps) ! k) \<and> zring (cs_scheds (cores_boot n caps) ! k) \<and>
      dex {} ?g (cs_scheds (cores_boot n caps) ! k) \<and> zlist (cs_scheds (cores_boot n caps) ! k) = []" if k: "k < length caps" for k
  proof -
    define s where "s = sch_attach_storage Scheduler_new k (caps ! k)"
    have cap: "caps ! k \<le> 2 ^ 16" "k < 256" using assms(2,3) k by auto
    then have fl: "fl_wf (fl_attach (caps ! k))" "fl_list (fl_attach (caps ! k)) = [0..<caps ! k]" using fl_attach_ok [of "caps ! k"] by simp_all
    have fc: "fl_capacity (fl_attach (caps ! k)) = caps ! k" by (simp add: fl_capacity_def fl_attach_def)
    have rq: "rq_ok (replicate (caps ! k) Tcb_EMPTY) (replicate NPRIO ListHead_EMPTY) 0 (\<lambda>_. [])"
      using cap(1) by (auto simp: rq_ok_def NPRIO_def head_ok_def ListHead_EMPTY_def NOT_QUEUED_def Tcb_EMPTY_def)
    have "hinv {} ?g s"
      using rq cap fl fc unfolding hinv_def s_def
      by (auto simp: sch_attach_storage_def Scheduler_new_def fl_in_use_def)
    moreover have "cur_ok s" by (simp add: s_def sch_attach_storage_def Scheduler_new_def cur_ok_def)
    moreover have "zring s" "zlist s = []" "sc_core s = k" by (simp_all add: s_def sch_attach_storage_def Scheduler_new_def zring_def zlist_def)
    moreover have "dex {} ?g s" using dl unfolding dex_def by blast
    moreover have "cs_scheds (cores_boot n caps) ! k = s" using k by (simp add: cores_boot_def s_def)
    ultimately show ?thesis using gi by (simp add: sinv_def)
  qed
  then have *: "\<forall>k<length caps. sc_core (cs_scheds (cores_boot n caps) ! k) = k \<and> sinv ?g (cs_scheds (cores_boot n caps) ! k) \<and>
      zring (cs_scheds (cores_boot n caps) ! k) \<and> dex {} ?g (cs_scheds (cores_boot n caps) ! k)" "\<forall>k<length caps. zlist (cs_scheds (cores_boot n caps) ! k) = []" by blast+
  have l: "length (cs_scheds (cores_boot n caps)) = length caps" "cs_g (cores_boot n caps) = ?g" "cs_reaped (cores_boot n caps) = []" by (simp_all add: cores_boot_def)
  have "\<forall>x\<in>set (cs_scheds (cores_boot n caps)). zlist x = []" using *(2) l(1) by (metis in_set_conv_nth)
  then have "zall (cores_boot n caps) = []" by (simp add: zall_def l)
  then show ?thesis using gi *(1) by (simp add: cores_inv_def l)
qed

definition cores_init :: "Cores \<Rightarrow> bool" where
  "cores_init c \<longleftrightarrow> (\<exists>n caps. n < 2 ^ 32 \<and> length caps \<le> 256 \<and> (\<forall>cap\<in>set caps. cap \<le> 2 ^ 16) \<and> c = cores_boot n caps)"

interpretation cores: step_system cores_init cores_step cores_inv
proof
  fix c
  assume "cores_init c"
  then show "cores_inv c" using boot_inv by (auto simp: cores_init_def)
next
  fix c c'
  assume i: "cores_inv c" and "cores_step c c'"
  from this(2) i show "cores_inv c'"
  proof (induction rule: cores_step.induct)
    case (cs_local k c g' s')
    note I = cores_invD [OF cs_local.prems]
    have "step_ok (cs_g c) (cs_scheds c ! k) g' s'" by (rule sch_step_ok [OF cs_local.hyps(2) I(5) [OF cs_local.hyps(1)]])
    then show ?case using cores_update [OF cs_local.prems cs_local.hyps(1)] I(4,7) [OF cs_local.hyps(1)] by (simp add: step_ok_def)
  next
    case (cs_migrate src c dst tid c' b)
    then show ?case using migrate_ok [of c src dst tid] by (simp add: migrated_def)
  qed (rule cores_reap cores_release; assumption)+
qed

end
