(* ===== verification/SchedProps.thy ===== *)
theory SchedProps
  imports SchedCores
begin

text \<open>
  The properties of the schedulers of all cores, in every state the calls of \<open>cores_step\<close> reach from the
  attached tables.
\<close>

section \<open>Shared facts\<close>

lemma reach_core:
  assumes "reach cores_init cores_step c" "k < length (cs_scheds c)"
  shows "sinv (cs_g c) (cs_scheds c ! k)" "dex {} (cs_g c) (cs_scheds c ! k)" "sc_core (cs_scheds c ! k) = k"
  using cores_invD(4,5,7) [OF cores.reach_inv [OF assms(1)] assms(2)] by simp_all

text \<open>The ready threads of a core.\<close>

definition is_ready :: "Scheduler \<Rightarrow> nat \<Rightarrow> bool" where
  "is_ready s i \<longleftrightarrow> i < length (sc_tcbs s) \<and> tc_queued (sc_tcbs s ! i) \<noteq> NOT_QUEUED"

lemma run_next_highest:
  assumes "hinv {} g s" "run_next s = Some (s', f)"
  shows "\<exists>c. sc_current s' = Some c \<and> is_ready s c \<and> f = tc_sp (sc_tcbs s ! c) \<and>
    (\<forall>i. is_ready s i \<longrightarrow> tc_priority (sc_tcbs s ! i) \<le> tc_priority (sc_tcbs s ! c)) \<and> (\<forall>i. is_ready s' i \<longleftrightarrow> is_ready s i \<and> i \<noteq> c)"
proof -
  obtain rq where rq: "rq_inv s rq" using hinvD(1) [OF assms(1)] by blast
  show ?thesis
  proof (cases rule: top_cases [of rq])
    case none
    then show ?thesis using dequeue_highest_ok [OF rq] assms(2) by (simp add: run_next_def)
  next
    case (some p c xs)
    from dequeue_highest_ok [OF rq] some(3) obtain s1 where s1: "c < length (sc_tcbs s)" "tc_queued (sc_tcbs s ! c) \<noteq> NOT_QUEUED"
      "dequeue_highest s = Some (s1, Some c)" "requeued s s1" "rq_inv s1 (\<lambda>p. remove1 c (rq p))" "tc_queued (sc_tcbs s1 ! c) = NOT_QUEUED" by auto
    note R = requeuedD [OF s1(4)]
    have s': "s' = s1\<lparr>sc_current := Some c\<rparr>" "f = tc_sp (sc_tcbs s ! c)"
      using assms(2) s1(1,3) R(1) body_eqD(4) [OF R(2) [OF s1(1)]] by (auto simp: run_next_def tcb_in Let_def)
    have pc: "unat (tc_priority (sc_tcbs s ! c)) = p"
      using hinvD(4) [OF assms(1) s1(1)] s1(2) queued_iff [OF rq s1(1) some(1)] some(2) by (simp add: hard_def)
    have "tc_priority (sc_tcbs s ! i) \<le> tc_priority (sc_tcbs s ! c)" if i: "is_ready s i" for i
    proof -
      have il: "i < length (sc_tcbs s)" "tc_queued (sc_tcbs s ! i) \<noteq> NOT_QUEUED" using i by (simp_all add: is_ready_def)
      define q where "q = unat (tc_queued (sc_tcbs s ! i))"
      have q: "q < 8" using rq_okD(5) [OF rq [unfolded rq_inv_def] il(1)] il(2) by (simp add: q_def)
      have "i \<in> set (rq q)" using queued_iff [OF rq il(1) q] q_def by simp
      then have "q \<le> p" using some(4) [of q] q by (cases "p < q") auto
      moreover have "unat (tc_priority (sc_tcbs s ! i)) = q" using hinvD(4) [OF assms(1) il(1)] il(2) by (simp add: hard_def q_def)
      ultimately show ?thesis using pc by (simp add: word_le_nat_alt)
    qed
    moreover have "tc_queued (sc_tcbs s1 ! i) = tc_queued (sc_tcbs s ! i)" if "i < length (sc_tcbs s)" "i \<noteq> c" for i
      by (rule queued_eq [OF rq s1(5) R(1) that(1)]) (use that(2) in auto)
    then have "is_ready s' i \<longleftrightarrow> is_ready s i \<and> i \<noteq> c" for i using s1(6) R(1) by (cases "i = c") (auto simp: is_ready_def s'(1))
    ultimately show ?thesis using s' s1(1,2) by (auto simp: is_ready_def)
  qed
qed

lemma run_next_none:
  assumes "hinv {} g s"
  shows "run_next s = None \<longleftrightarrow> (\<forall>i. \<not> is_ready s i)"
  using run_next_ok [OF assms] run_next_highest [OF assms] by (fastforce simp: is_ready_def)

lemma keeps_total: "keeps g r \<Longrightarrow> r \<noteq> None" "keeps1 g r' \<Longrightarrow> r' \<noteq> None" "keepsg g s r'' \<Longrightarrow> r'' \<noteq> None"
  unfolding keeps_def keeps1_def keepsg_def by (auto split: option.splits)

section \<open>The scan of the deadlines\<close>

lemma for_slots_append: "for_slots f (xs @ ys) st = Option.bind (for_slots f xs st) (for_slots f ys)"
  by (induction xs arbitrary: st) (auto split: Option.bind_splits)

lemma for_slots_upt:
  assumes "\<And>k st. k < n \<Longrightarrow> P k st \<Longrightarrow> \<exists>st'. f k st = Some st' \<and> P (Suc k) st'" "P 0 st"
  shows "\<exists>st'. for_slots f [0..<n] st = Some st' \<and> P n st'"
  using assms
proof (induction n)
  case (Suc n)
  then obtain st1 where "for_slots f [0..<n] st = Some st1" "P n st1" by (metis less_Suc_eq)
  then show ?case using Suc.prems(1) [of n st1] by (auto simp: for_slots_append)
qed simp

definition armed :: "Tcb \<Rightarrow> bool" where
  "armed t \<longleftrightarrow> tc_used t \<and> tc_frist t \<noteq> 0"

definition frist_inv :: "Scheduler \<Rightarrow> bool" where
  "frist_inv s \<longleftrightarrow> (\<forall>t\<in>set (sc_tcbs s). armed t \<longrightarrow> sc_naechste_frist s \<le> tc_frist t)"

text \<open>What the scan does to one thread; \<open>full\<close>: the output was full at the end.\<close>

definition frist_done :: "u64 \<Rightarrow> bool \<Rightarrow> Tcb \<Rightarrow> Tcb \<Rightarrow> bool" where
  "frist_done now full t t' \<longleftrightarrow> tc_used t' = tc_used t \<and>
     (if armed t \<and> tc_frist t \<le> now
      then tc_frist t' = 0 \<and> tc_reasons t' = br_remove (tc_frist_grund t) (tc_reasons t) \<or>
           full \<and> tc_frist t' = tc_frist t \<and> tc_reasons t' = tc_reasons t
      else tc_frist t' = tc_frist t \<and> tc_reasons t' = tc_reasons t)"

definition frist_st :: "Statics \<Rightarrow> Scheduler \<Rightarrow> nat \<Rightarrow> nat \<Rightarrow> Scheduler \<times> ThreadId list \<times> u64 \<Rightarrow> bool" where
  "frist_st g s cap k st \<longleftrightarrow> (case st of (s', out, n) \<Rightarrow> sinv g s' \<and> length (sc_tcbs s') = length (sc_tcbs s) \<and> sc_now s' = sc_now s \<and> length out \<le> cap \<and>
     (\<forall>i<k. i < length (sc_tcbs s) \<longrightarrow> frist_done (sc_now s) (length out = cap) (sc_tcbs s ! i) (sc_tcbs s' ! i) \<and> (armed (sc_tcbs s' ! i) \<longrightarrow> n \<le> tc_frist (sc_tcbs s' ! i))) \<and>
     (\<forall>i<length (sc_tcbs s). k \<le> i \<longrightarrow> tc_used (sc_tcbs s' ! i) = tc_used (sc_tcbs s ! i) \<and> tc_frist (sc_tcbs s' ! i) = tc_frist (sc_tcbs s ! i) \<and>
        tc_frist_grund (sc_tcbs s' ! i) = tc_frist_grund (sc_tcbs s ! i) \<and> tc_reasons (sc_tcbs s' ! i) = tc_reasons (sc_tcbs s ! i)))"

text \<open>One step changes only the thread it visits.\<close>

lemma frist_one_step:
  assumes "sinv g s" "i < length (sc_tcbs s)" "length out \<le> cap"
  shows "\<exists>s' out' n'. frist_one cap i (s, out, n) = Some (s', out', n') \<and> sinv g s' \<and> length (sc_tcbs s') = length (sc_tcbs s) \<and> sc_now s' = sc_now s \<and>
    length out \<le> length out' \<and> length out' \<le> cap \<and> n' \<le> n \<and>
    (\<forall>j<length (sc_tcbs s). j \<noteq> i \<longrightarrow> tc_used (sc_tcbs s' ! j) = tc_used (sc_tcbs s ! j) \<and> tc_frist (sc_tcbs s' ! j) = tc_frist (sc_tcbs s ! j) \<and>
        tc_frist_grund (sc_tcbs s' ! j) = tc_frist_grund (sc_tcbs s ! j) \<and> tc_reasons (sc_tcbs s' ! j) = tc_reasons (sc_tcbs s ! j)) \<and>
    frist_done (sc_now s) (length out = cap) (sc_tcbs s ! i) (sc_tcbs s' ! i) \<and> (armed (sc_tcbs s' ! i) \<longrightarrow> n' \<le> tc_frist (sc_tcbs s' ! i))"
proof -
  let ?t = "sc_tcbs s ! i"
  obtain s' out' n' where k: "frist_one cap i (s, out, n) = Some (s', out', n')" "sinv g s'" "length (sc_tcbs s') = length (sc_tcbs s)"
    using frist_one_keeps [OF assms(1,2)] by blast
  show ?thesis
  proof (cases "armed ?t")
    case False
    then have "(s', out', n') = (s, out, n)" using k(1) assms(2) by (auto simp: frist_one_def tcb_in armed_def)
    then show ?thesis using k False assms by (auto simp: frist_done_def)
  next
    case u: True
    show ?thesis
    proof (cases "frist_befund (sc_now s) (tc_frist ?t) (br_has (tc_reasons ?t) (tc_frist_grund ?t)) (length out = cap)")
      case Zukunft
      then have e: "s' = s" "out' = out" "n' = min n (tc_frist ?t)" using k(1) u assms(2) by (auto simp: frist_one_def tcb_in armed_def)
      have "\<not> tc_frist ?t \<le> sc_now s" using Zukunft by (auto simp: frist_befund_def split: if_splits)
      then show ?thesis using k assms e by (auto simp: frist_done_def)
    next
      case Aufschieben
      then have e: "s' = s\<lparr>sc_fristen_ueberlauf := sc_fristen_ueberlauf s + 1\<rparr>" "out' = out" "n' = min n (tc_frist ?t)"
        using k(1) u assms(2) by (auto simp: frist_one_def tcb_in armed_def)
      have "length out = cap" using Aufschieben by (auto simp: frist_befund_def split: if_splits)
      then show ?thesis using k assms e by (auto simp: frist_done_def)
    next
      case SignalGewann
      then have e: "s' = s\<lparr>sc_tcbs := (sc_tcbs s)[i := ?t\<lparr>tc_frist := 0, tc_frist_grund := 0\<rparr>]\<rparr>" "out' = out" "n' = n"
        using k(1) u assms(2) by (auto simp: frist_one_def tcb_in modt_in armed_def)
      have "\<not> br_has (tc_reasons ?t) (tc_frist_grund ?t)" "tc_frist ?t \<le> sc_now s" using SignalGewann by (auto simp: frist_befund_def split: if_splits)
      then show ?thesis using k assms e u by (auto simp: frist_done_def armed_def br_remove_absent)
    next
      case Freigeben
      let ?v = "?t\<lparr>tc_frist := 0, tc_frist_grund := 0, tc_reasons := br_remove (tc_frist_grund ?t) (tc_reasons ?t)\<rparr>"
      define s1 where "s1 = s\<lparr>sc_tcbs := (sc_tcbs s)[i := ?v]\<rparr>"
      have f: "tc_frist ?t \<le> sc_now s" "length out \<noteq> cap" using Freigeben by (auto simp: frist_befund_def split: if_splits)
      have hd: "hard g (sc_core s) (length (sc_tcbs s)) i ?t" using sinvD(4) [OF assms(1,2)] .
      then have "tc_frist_grund ?t \<in> {0, BR_IPC, BR_PARK}" by (simp add: hard_def)
      then have bb: "budget_blocked ?v = budget_blocked ?t" by (auto simp: br_has_remove)
      have h1: "hinv {i} g s1" unfolding s1_def
        using hinv_modt [where f = "\<lambda>_. ?v" and Y = "{i}", OF sinvD(1) [OF assms(1)] assms(2)] hd bb by simp
      have i1: "i < length (sc_tcbs s1)" "tc_used (sc_tcbs s1 ! i)" using assms(2) u by (simp_all add: s1_def armed_def)
      obtain s2 where s2: "(if tc_reasons (sc_tcbs s1 ! i) = 0 \<and> tc_queued (sc_tcbs s1 ! i) = NOT_QUEUED then enqueue_ready s1 i else Some s1) = Some s2" "requeued s1 s2"
        using enqueue_hinv [OF h1 i1] by (cases "tc_reasons (sc_tcbs s1 ! i) = 0 \<and> tc_queued (sc_tcbs s1 ! i) = NOT_QUEUED") auto
      have m: "modt s i (\<lambda>t. t\<lparr>tc_frist := 0, tc_frist_grund := 0, tc_reasons := br_remove (tc_frist_grund t) (tc_reasons t)\<rparr>) = Some s1"
        using assms(2) by (simp add: modt_in s1_def)
      have nu: "tc_used ?t" "tc_frist ?t \<noteq> 0" using u by (simp_all add: armed_def)
      have "frist_one cap i (s, out, n) = Some (s2, out @ [\<lparr>t_slot = unat (tc_gid (sc_tcbs s1 ! i)), t_gen = tc_gen (sc_tcbs s1 ! i)\<rparr>], n)"
        using Freigeben nu assms(2) m i1(1) s2(1) by (simp add: frist_one_def tcb_in sch_id_def)
      then have e: "requeued s1 s'" "length out' = Suc (length out)" "n' = n" using k(1) s2(2) by auto
      note R = requeuedD [OF e(1)]
      have l: "length (sc_tcbs s1) = length (sc_tcbs s)" "sc_tcbs s1 ! i = ?v" "\<And>j. j \<noteq> i \<Longrightarrow> sc_tcbs s1 ! j = sc_tcbs s ! j" using assms(2) by (simp_all add: s1_def)
      have B: "body (sc_tcbs s' ! j) = body (sc_tcbs s1 ! j)" if "j < length (sc_tcbs s)" for j using R(2) that l(1) by simp
      have "frist_done (sc_now s) (length out = cap) ?t (sc_tcbs s' ! i) \<and> \<not> armed (sc_tcbs s' ! i)"
        using body_eqD(1,6,9) [OF B [OF assms(2)]] l(2) u f by (simp add: frist_done_def armed_def)
      moreover have "tc_used (sc_tcbs s' ! j) = tc_used (sc_tcbs s ! j) \<and> tc_frist (sc_tcbs s' ! j) = tc_frist (sc_tcbs s ! j) \<and>
        tc_frist_grund (sc_tcbs s' ! j) = tc_frist_grund (sc_tcbs s ! j) \<and> tc_reasons (sc_tcbs s' ! j) = tc_reasons (sc_tcbs s ! j)"
        if "j < length (sc_tcbs s)" "j \<noteq> i" for j using body_eqD(1,6,9,10) [OF B [OF that(1)]] l(3) [OF that(2)] by simp
      moreover have "sc_now s' = sc_now s" using R(6) by (simp add: s1_def)
      ultimately show ?thesis using k e f assms(3) by auto
    qed
  qed
qed

section \<open>Properties\<close>


text \<open>
  C22. Handles are exact. If a thread handle resolves on a core in a reachable state, then to a living
  thread of exactly that number and generation, whose own handle it is, and it resolves on no other core;
  and every living thread is found under its own handle.
\<close>

theorem handles_exact:
  assumes "reach cores_init cores_step c" "k < length (cs_scheds c)"
  shows "(\<forall>i tid. sch_resolve (cs_g c) (cs_scheds c ! k) tid = Some i \<longrightarrow>
      sch_id (cs_scheds c ! k) i = Some tid \<and> tc_used (sc_tcbs (cs_scheds c ! k) ! i) \<and>
      (\<forall>j<length (cs_scheds c). j \<noteq> k \<longrightarrow> sch_resolve (cs_g c) (cs_scheds c ! j) tid = None)) \<and>
    (\<forall>i<length (sc_tcbs (cs_scheds c ! k)). tc_used (sc_tcbs (cs_scheds c ! k) ! i) \<longrightarrow>
      (\<exists>tid. sch_id (cs_scheds c ! k) i = Some tid \<and> sch_resolve (cs_g c) (cs_scheds c ! k) tid = Some i))"
proof (intro conjI allI impI)
  let ?g = "cs_g c" and ?s = "cs_scheds c ! k"
  note C = reach_core [OF assms]
  {
    fix i tid
    assume r: "sch_resolve ?g ?s tid = Some i"
    note i = resolve_in [OF r]
    show "sch_id ?s i = Some tid" using i resolve_gid [OF C(2) r] by (simp add: sch_id_def tcb_in)
    show "tc_used (sc_tcbs ?s ! i)" using i by simp
    fix j
    assume j: "j < length (cs_scheds c)" "j \<noteq> k"
    show "sch_resolve ?g (cs_scheds c ! j) tid = None"
    proof (cases "sch_resolve ?g (cs_scheds c ! j) tid")
      case (Some i')
      then show ?thesis using resolve_core [OF Some] resolve_core [OF r] C(3) reach_core(3) [OF assms(1) j(1)] j(2) by simp
    qed
  }
  fix i
  assume i: "i < length (sc_tcbs ?s)" "tc_used (sc_tcbs ?s ! i)"
  then show "\<exists>tid. sch_id ?s i = Some tid \<and> sch_resolve ?g ?s tid = Some i"
    using resolve_id [OF sinvD(1) [OF C(1)] i] by (simp add: sch_id_def tcb_in)
qed

text \<open>
  C24. A handle dies with its thread. After a successful \<open>kill\<close>, and after \<open>exit_current\<close> for the thread
  that called it, the handle is live nowhere, and the directory holds the next generation for the next
  thread with that number.
\<close>

theorem handle_dies_with_thread:
  assumes "reach cores_init cores_step c" "k < length (cs_scheds c)"
  shows "(kill hier (cs_g c) (cs_scheds c ! k) tid = Some ((g', s'), True) \<longrightarrow>
      \<not> is_live g' tid \<and> dir_load g' (t_slot tid) = Some (pack_dir False ((t_gen tid + 1) AND ucast D_GEN_MASK) 0 0)) \<and>
    (sch_current_id (cs_scheds c ! k) = Some cur \<and> exit_current hier (cs_g c) (cs_scheds c ! k) = Some ((g', s'), f) \<longrightarrow>
      \<not> is_live g' cur \<and> dir_load g' (t_slot cur) = Some (pack_dir False ((t_gen cur + 1) AND ucast D_GEN_MASK) 0 0))"
proof -
  let ?g = "cs_g c" and ?s = "cs_scheds c ! k"
  note C = reach_core [OF assms]
  have dead: "\<not> is_live g' t" if "dir_load g' (t_slot t) = Some (pack_dir False (gn AND ucast D_GEN_MASK) 0 0)" for t gn
    using that dir_used_pack [of "gn AND ucast D_GEN_MASK" 0 0 False] gen_mask [of "gn - 1"]
    by (simp add: is_live_def owner_core_def)
  have "dir_load g' (t_slot tid) = Some (pack_dir False ((t_gen tid + 1) AND ucast D_GEN_MASK) 0 0)" if k: "kill hier ?g ?s tid = Some ((g', s'), True)"
  proof -
    obtain i s1 where i: "sch_resolve ?g ?s tid = Some i" "remove_from_ready ?s i = Some s1" "record_zombie hier ?g s1 i = Some (g', s')"
      using k by (auto simp: kill_def split: option.splits if_splits Option.bind_splits)
    note I = resolve_in [OF i(1)]
    obtain s1' where s1: "remove_from_ready ?s i = Some s1'" "sinv ?g s1'" "requeued ?s s1'" using remove_sinv [OF C(1)] I by blast
    then have e: "s1' = s1" using i(2) by simp
    note B = body_eqD [OF requeuedD(2) [OF s1(3) [unfolded e] conjunct1 [OF I]]]
    have "i < length (sc_tcbs s1)" "tc_used (sc_tcbs s1 ! i)" using I requeuedD(1) [OF s1(3)] B(1) e by simp_all
    from record_zombie_ok [OF s1(2) [unfolded e] this, of hier] i(3) show ?thesis
      using B(2,3) I resolve_gid [OF C(2) i(1)] by auto
  qed
  moreover have "dir_load g' (t_slot cur) = Some (pack_dir False ((t_gen cur + 1) AND ucast D_GEN_MASK) 0 0)"
    if k: "sch_current_id ?s = Some cur" "exit_current hier ?g ?s = Some ((g', s'), f)"
  proof -
    obtain i s1 where i: "sc_current ?s = Some i" "record_zombie hier ?g ?s i = Some (g', s1)" "sch_id ?s i = Some cur"
      using k by (auto simp: exit_current_def sch_current_id_def split: Option.bind_splits)
    have I: "i < length (sc_tcbs ?s)" "tc_used (sc_tcbs ?s ! i)" using sinvD(5) [OF C(1) i(1)] sinvD(2) [OF C(1)] i(1) by (simp_all add: cur_ok_def)
    from record_zombie_ok [OF C(1) I, of hier] i(2,3) I show ?thesis by (auto simp: sch_id_def tcb_in)
  qed
  ultimately show ?thesis using dead by blast
qed


text \<open>
  C23. Migration loses no thread. Between reachable states \<open>migrate_to\<close> never panics and keeps the
  invariant of all cores. If it returns true, the thread now belongs to the target core, with the same
  block reasons and ready if it was; if it returns false the thread still belongs to its core, in the
  same standing, also when the target core had no room.
\<close>

theorem migration_safe:
  assumes "reach cores_init cores_step c" "src < length (cs_scheds c)"
  shows "case migrate_to c src dst tid of
      None \<Rightarrow> False
    | Some (c', True) \<Rightarrow> cores_inv c' \<and> owner_core (cs_g c') tid = Some dst \<and>
        same_standing (cs_g c) (cs_scheds c ! src) (cs_g c') (cs_scheds c' ! dst) tid
    | Some (c', False) \<Rightarrow> cores_inv c' \<and> owner_core (cs_g c') tid = owner_core (cs_g c) tid \<and>
        (owner_core (cs_g c) tid = Some src \<longrightarrow> same_standing (cs_g c) (cs_scheds c ! src) (cs_g c') (cs_scheds c' ! src) tid)"
  using migrate_ok [OF cores.reach_inv [OF assms(1)] assms(2), of dst tid] unfolding migrated_def
  by (auto split: option.splits bool.splits)

text \<open>
  Lifting a block reason (\<open>resume\<close>, \<open>handler_reply\<close>, \<open>load_reply\<close>, and behind their checks
  \<open>debug_continue\<close> and \<open>thaw_group\<close>) removes exactly that reason of exactly that thread, and the thread
  becomes ready exactly if no reason is left, its budget is not depleted and it is not running; no other
  thread is touched. A dead handle changes nothing.
\<close>

theorem lift_exact:
  assumes "reach cores_init cores_step c" "k < length (cs_scheds c)" "s = cs_scheds c ! k" "g = cs_g c" "grund \<in> {BR_PAUSE, BR_HANDLER, BR_LOAD, BR_DEBUG, BR_FREEZE}"
  shows "case sch_resolve g s tid of
      None \<Rightarrow> lift_reason g s tid grund = Some (s, False)
    | Some i \<Rightarrow> \<exists>s'. lift_reason g s tid grund = Some (s', True) \<and> tc_reasons (sc_tcbs s' ! i) = br_remove grund (tc_reasons (sc_tcbs s ! i)) \<and>
        (is_ready s' i \<longleftrightarrow> is_ready s i \<or> br_remove grund (tc_reasons (sc_tcbs s ! i)) = 0 \<and> \<not> tc_depleted (sc_tcbs s ! i) \<and> sc_current s \<noteq> Some i) \<and>
        (\<forall>j<length (sc_tcbs s). j \<noteq> i \<longrightarrow> body (sc_tcbs s' ! j) = body (sc_tcbs s ! j) \<and> (is_ready s' j \<longleftrightarrow> is_ready s j))"
proof (cases "sch_resolve g s tid")
  case None
  then show ?thesis by (simp add: lift_reason_def)
next
  case (Some i)
  have S: "sinv g s" using reach_core(1) [OF assms(1,2)] assms(3,4) by simp
  have i: "i < length (sc_tcbs s)" "tc_used (sc_tcbs s ! i)" using resolve_in [OF Some] by simp_all
  let ?v = "(sc_tcbs s ! i)\<lparr>tc_reasons := br_remove grund (tc_reasons (sc_tcbs s ! i))\<rparr>"
  define s1 where "s1 = s\<lparr>sc_tcbs := (sc_tcbs s)[i := ?v]\<rparr>"
  have bud: "grund AND BR_BUDGET = 0" using assms(5) no_budget by auto
  have s1: "sinv g s1" unfolding s1_def
    by (rule sinv_modt [where f = "\<lambda>_. ?v", OF S i(1)]) (use sinvD(4) [OF S i(1)] bud in \<open>simp_all add: br_has_remove br_remove_mono\<close>)
  have i1: "i < length (sc_tcbs s1)" "tc_used (sc_tcbs s1 ! i)" using i by (simp_all add: s1_def)
  from wecke_hinv [OF sinvD(1) [OF s1] i1] obtain s2 where s2: "wecke_falls_lauffaehig s1 i = Some s2" "requeued s1 s2"
    "\<forall>j<length (sc_tcbs s1). j \<noteq> i \<longrightarrow> tc_queued (sc_tcbs s2 ! j) = tc_queued (sc_tcbs s1 ! j)" by blast
  note R = requeuedD [OF s2(2)]
  have q: "is_ready s2 i \<longleftrightarrow> is_ready s i \<or> tc_reasons ?v = 0 \<and> \<not> tc_depleted (sc_tcbs s ! i) \<and> sc_current s \<noteq> Some i"
  proof (cases "tc_reasons ?v = 0 \<and> \<not> tc_depleted (sc_tcbs s ! i) \<and> sc_current s \<noteq> Some i")
    case True
    then have "enqueue_ready s1 i = Some s2" using s2(1) i1 i by (simp add: wecke_falls_lauffaehig_def tcb_in s1_def)
    then have "tc_queued (sc_tcbs s2 ! i) \<noteq> NOT_QUEUED" using enqueue_hinv [OF sinvD(1) [OF s1] i1] True i(1) by (auto simp: s1_def)
    then show ?thesis using True i1(1) R(1) by (simp add: is_ready_def)
  next
    case False
    then have "s2 = s1" using s2(1) i1 i by (auto simp: wecke_falls_lauffaehig_def tcb_in s1_def)
    then show ?thesis using False i by (auto simp: is_ready_def s1_def)
  qed
  have "lift_reason g s tid grund = Some (s2, True)" using Some i(1) s2(1) by (simp add: lift_reason_def modt_in s1_def [symmetric])
  moreover have "tc_reasons (sc_tcbs s2 ! i) = tc_reasons ?v" using body_eqD(6) [OF R(2) [OF i1(1)]] i(1) by (simp add: s1_def)
  moreover have "body (sc_tcbs s2 ! j) = body (sc_tcbs s ! j) \<and> (is_ready s2 j \<longleftrightarrow> is_ready s j)" if "j < length (sc_tcbs s)" "j \<noteq> i" for j
    using R(1) R(2) [of j] s2(3) that by (simp add: s1_def is_ready_def)
  ultimately show ?thesis using Some q by simp
qed

text \<open>
  No wake-up is lost between \<open>park\<close> and \<open>unpark\<close>. A wake-up that comes first leaves a token, and the
  next \<open>park_current\<close> consumes it and goes on without blocking; a wake-up of a parked thread takes the
  reason away and leaves no token, and the thread is ready if nothing else holds it.
\<close>

theorem park_unpark:
  assumes "reach cores_init cores_step c" "k < length (cs_scheds c)" "s = cs_scheds c ! k" "g = cs_g c" "sch_resolve g s tid = Some i"
  shows "\<exists>s'. unpark g s tid = Some (s', True) \<and>
    (if is_parked g s tid then tc_park_wake (sc_tcbs s' ! i) = False \<and> \<not> br_has (tc_reasons (sc_tcbs s' ! i)) BR_PARK \<and>
        (br_remove BR_PARK (tc_reasons (sc_tcbs s ! i)) = 0 \<and> \<not> tc_depleted (sc_tcbs s ! i) \<longrightarrow> is_ready s' i)
     else tc_park_wake (sc_tcbs s' ! i) \<and>
        (sc_current s' = Some i \<longrightarrow> (\<exists>s''. park_current s' frame = Some (s'', None) \<and> sc_current s'' = Some i \<and> \<not> tc_park_wake (sc_tcbs s'' ! i))))"
proof -
  have S: "sinv g s" using reach_core(1) [OF assms(1,2)] assms(3,4) by simp
  note r = assms(5)
  have i: "i < length (sc_tcbs s)" "tc_used (sc_tcbs s ! i)" using resolve_in [OF r] by simp_all
  have ip: "is_parked g s tid \<longleftrightarrow> br_has (tc_reasons (sc_tcbs s ! i)) BR_PARK" using r i(1) by (simp add: is_parked_def has_reason_def of_tid_def tcb_in)
  show ?thesis
  proof (cases "br_has (tc_reasons (sc_tcbs s ! i)) BR_PARK")
    case False
    define s1 where "s1 = s\<lparr>sc_tcbs := (sc_tcbs s)[i := (sc_tcbs s ! i)\<lparr>tc_park_wake := True\<rparr>]\<rparr>"
    have "unpark g s tid = Some (s1, True)" using r i False by (simp add: unpark_def tcb_in modt_in s1_def)
    moreover have "i < length (sc_tcbs s1)" "tc_park_wake (sc_tcbs s1 ! i)" using i(1) by (simp_all add: s1_def)
    moreover from this have "\<exists>s''. park_current s1 frame = Some (s'', None) \<and> sc_current s'' = Some i \<and> \<not> tc_park_wake (sc_tcbs s'' ! i)" if "sc_current s1 = Some i"
      using that by (simp add: park_current_def tcb_in modt_in)
    ultimately show ?thesis using False ip by auto
  next
    case True
    let ?v = "(sc_tcbs s ! i)\<lparr>tc_park_wake := False, tc_reasons := br_remove BR_PARK (tc_reasons (sc_tcbs s ! i))\<rparr>"
    define s1 where "s1 = s\<lparr>sc_tcbs := (sc_tcbs s)[i := ?v]\<rparr>"
    have s1: "sinv g s1" unfolding s1_def
      by (rule sinv_modt [where f = "\<lambda>_. ?v", OF S i(1)]) (use sinvD(4) [OF S i(1)] in \<open>simp_all add: br_has_remove br_remove_mono\<close>)
    have i1: "i < length (sc_tcbs s1)" "tc_used (sc_tcbs s1 ! i)" "sc_tcbs s1 ! i = ?v" using i by (simp_all add: s1_def)
    have nc: "sc_current s \<noteq> Some i" using sinvD(2) [OF S] True by (auto simp: cur_ok_def)
    from wecke_hinv [OF sinvD(1) [OF s1] i1(1,2)] obtain s2 where s2: "wecke_falls_lauffaehig s1 i = Some s2" "requeued s1 s2" by blast
    note R = requeuedD [OF s2(2)]
    note B = body_eqD [OF R(2) [OF i1(1)]]
    have "unpark g s tid = Some (s2, True)" using r i True s2(1) by (simp add: unpark_def tcb_in modt_in s1_def)
    moreover have "is_ready s2 i" if "tc_reasons ?v = 0 \<and> \<not> tc_depleted (sc_tcbs s ! i)"
    proof -
      have "enqueue_ready s1 i = Some s2" using s2(1) i1 that nc by (simp add: wecke_falls_lauffaehig_def tcb_in) (simp add: s1_def)
      then show ?thesis using enqueue_hinv [OF sinvD(1) [OF s1] i1(1,2)] that i1(3) R(1) i1(1) by (auto simp: is_ready_def)
    qed
    ultimately show ?thesis using True ip B(6,16) i1(3) by simp
  qed
qed


text \<open>
  C29. The tick runs the most urgent thread. In a reachable state \<open>on_tick\<close> never panics; after it either
  no thread is ready and the interrupted one goes on in its frame, or the running thread is one whose
  priority no ready thread exceeds, and its saved frame is resumed.
\<close>

theorem tick_runs_highest:
  assumes "reach cores_init cores_step c" "k < length (cs_scheds c)" "s = cs_scheds c ! k"
  shows "\<exists>s' f. on_tick s frame tick = Some (s', f) \<and>
    ((\<forall>i. \<not> is_ready s' i) \<and> sc_current s' = sc_current s \<and> f = frame \<or>
     (\<exists>i. sc_current s' = Some i \<and> f = tc_sp (sc_tcbs s' ! i) \<and> tc_reasons (sc_tcbs s' ! i) = 0 \<and>
        (\<forall>j. is_ready s' j \<longrightarrow> tc_priority (sc_tcbs s' ! j) \<le> tc_priority (sc_tcbs s' ! i))))"
proof -
  have S: "sinv (cs_g c) s" using reach_core(1) [OF assms(1,2)] assms(3) by simp
  obtain s3 where s3: "on_tick s frame tick = (case run_next s3 of None \<Rightarrow> Some (s3, frame) | Some r \<Rightarrow> Some r)" "hinv {} (cs_g c) s3" "sc_current s3 = sc_current s"
    using on_tick_shape [OF S] by blast
  show ?thesis
  proof (cases "run_next s3")
    case None
    then have "\<forall>i. \<not> is_ready s3 i" using run_next_none [OF s3(2)] by simp
    then show ?thesis using None s3(1,3) by (intro exI [of _ s3] exI [of _ frame]) simp
  next
    case (Some r)
    obtain s' f where r: "r = (s', f)" by (cases r)
    from run_next_highest [OF s3(2)] Some r obtain i where i: "sc_current s' = Some i" "is_ready s3 i" "f = tc_sp (sc_tcbs s3 ! i)"
      "\<forall>j. is_ready s3 j \<longrightarrow> tc_priority (sc_tcbs s3 ! j) \<le> tc_priority (sc_tcbs s3 ! i)" "\<forall>j. is_ready s' j \<longleftrightarrow> is_ready s3 j \<and> j \<noteq> i" by blast
    have q: "i < length (sc_tcbs s3)" "tc_reasons (sc_tcbs s3 ! i) = 0" using i(2) hinvD(5) [OF s3(2), of i] by (auto simp: is_ready_def)
    obtain s1 j where d: "dequeue_highest s3 = Some (s1, Some j)" "requeued s3 s1" "s' = s1\<lparr>sc_current := Some j\<rparr>"
      using dequeue_hinv [OF s3(2)] Some r by (auto simp: run_next_def Let_def split: Option.bind_splits)
    have B: "body (sc_tcbs s' ! x) = body (sc_tcbs s3 ! x)" if "x < length (sc_tcbs s3)" for x using requeuedD(2) [OF d(2) that] d(3) by simp
    have "tc_priority (sc_tcbs s' ! j) \<le> tc_priority (sc_tcbs s' ! i)" if "is_ready s' j" for j
      using i(4,5) that body_eqD(5) [OF B [OF q(1)]] body_eqD(5) [OF B, of j] by (auto simp: is_ready_def)
    then show ?thesis using s3(1) Some r i(1,3) q body_eqD(4,6) [OF B [OF q(1)]] by (intro exI [of _ s'] exI [of _ f]) auto
  qed
qed

text \<open>
  The scheduler panics only for want of a ready thread. In a reachable state the waking, stopping,
  creating and ending operations and the audit never panic; \<open>block_current\<close> does exactly if no thread
  runs or none is ready, and \<open>exit_current\<close> only then.
\<close>

theorem panics_only_when_idle:
  assumes "reach cores_init cores_step c" "k < length (cs_scheds c)" "s = cs_scheds c ! k" "g = cs_g c" "unat p < 8"
  shows "unblock g s tid \<noteq> None \<and> unpark g s tid \<noteq> None \<and> pause g s tid \<noteq> None \<and> resume g s tid \<noteq> None \<and>
    debug_stop g s tid \<noteq> None \<and> debug_continue g s tid \<noteq> None \<and> freeze_group g s tid \<noteq> None \<and> thaw_group g s tid \<noteq> None \<and>
    set_budget g s tid bu pe \<noteq> None \<and> fristen_faellig s cap \<noteq> None \<and> kill hier g s tid \<noteq> None \<and> end_donation s \<noteq> None \<and>
    charge_current s core now \<noteq> None \<and> spawn fr g s e a b l p \<noteq> None \<and> detach_for_migration g s tid \<noteq> None \<and> sch_audit g s \<noteq> None \<and>
    (block_current s frame = None \<longleftrightarrow> sc_current s = None \<or> (\<forall>i. \<not> is_ready s i))"
proof -
  have S: "sinv g s" using reach_core(1) [OF assms(1,2)] assms(3,4) by simp
  note K = S outer_reasons no_budget
  have "unblock g s tid \<noteq> None" "unpark g s tid \<noteq> None" "set_budget g s tid bu pe \<noteq> None" "fristen_faellig s cap \<noteq> None"
    using S by (simp_all add: keeps_total(1) [where g = g] unblock_keeps unpark_keeps set_budget_keeps fristen_faellig_keeps)
  moreover have st: "stop_for g s tid gr \<noteq> None" if "outer gr" for gr by (rule keeps_total(1) [OF stop_keeps [OF S that]])
  moreover have li: "lift_reason g s tid gr \<noteq> None" if "gr AND BR_BUDGET = 0" for gr by (rule keeps_total(1) [OF lift_keeps [OF S that]])
  moreover have "kill hier g s tid \<noteq> None" "spawn fr g s e a b l p \<noteq> None"
    using keeps_total(3) [OF kill_keeps [OF S]] keeps_total(3) [OF spawn_keeps(2) [OF S assms(5)]] by (simp_all add: spawn_def spawn_parked_def)
  moreover have "end_donation s \<noteq> None" "charge_current s core now \<noteq> None"
    using keeps_total(2) [OF end_donation_keeps [OF S]] keeps_total(2) [OF charge_current_keeps [OF S]] by simp_all
  moreover have "detach_for_migration g s tid \<noteq> None" using detach_ok [OF S, of tid] by auto
  moreover have "sch_audit g s \<noteq> None" using audit_ok [OF S] by auto
  moreover have "block_current s frame = None \<longleftrightarrow> sc_current s = None \<or> (\<forall>i. \<not> is_ready s i)"
  proof (cases "sc_current s")
    case None
    then show ?thesis by (simp add: block_current_def block_current_mit_def)
  next
    case (Some cur)
    define t1 where "t1 = (sc_tcbs s ! cur)\<lparr>tc_sp := frame, tc_reasons := br_insert BR_IPC (tc_reasons (sc_tcbs s ! cur))\<rparr>"
    define s1 where "s1 = s\<lparr>sc_tcbs := (sc_tcbs s)[cur := t1]\<rparr>"
    have cl: "cur < length (sc_tcbs s)" using sinvD(5) [OF S Some] .
    have h: "hinv {} g s1" unfolding s1_def by (rule cur_blocked [OF S Some _ t1_def]) simp
    have "is_ready s1 i = is_ready s i" for i using cl by (cases "i = cur") (simp_all add: is_ready_def s1_def t1_def)
    moreover have "block_current s frame = run_next s1" using Some cl by (simp add: block_current_def block_current_mit_def modt_in s1_def t1_def)
    ultimately show ?thesis using run_next_none [OF h] Some by simp
  qed
  ultimately show ?thesis using K
    by (auto simp: pause_def resume_def debug_stop_def debug_continue_def freeze_group_def thaw_group_def)
qed



lemma frist_scan:
  assumes "sinv g s"
  shows "\<exists>st. for_slots (frist_one cap) [0..<length (sc_tcbs s)] (s, [], - 1) = Some st \<and> frist_st g s cap (length (sc_tcbs s)) st"
proof (rule for_slots_upt)
  show "frist_st g s cap 0 (s, [], - 1)" using assms by (simp add: frist_st_def)
next
  fix k st
  assume k: "k < length (sc_tcbs s)" and st: "frist_st g s cap k st"
  obtain s1 out n where e: "st = (s1, out, n)" by (cases st)
  have S: "sinv g s1" "length (sc_tcbs s1) = length (sc_tcbs s)" "sc_now s1 = sc_now s" "length out \<le> cap"
    "\<And>i. i < k \<Longrightarrow> frist_done (sc_now s) (length out = cap) (sc_tcbs s ! i) (sc_tcbs s1 ! i) \<and> (armed (sc_tcbs s1 ! i) \<longrightarrow> n \<le> tc_frist (sc_tcbs s1 ! i))"
    "\<And>i. i < length (sc_tcbs s) \<Longrightarrow> k \<le> i \<Longrightarrow> tc_used (sc_tcbs s1 ! i) = tc_used (sc_tcbs s ! i) \<and> tc_frist (sc_tcbs s1 ! i) = tc_frist (sc_tcbs s ! i) \<and>
        tc_frist_grund (sc_tcbs s1 ! i) = tc_frist_grund (sc_tcbs s ! i) \<and> tc_reasons (sc_tcbs s1 ! i) = tc_reasons (sc_tcbs s ! i)"
    using st k by (auto simp: frist_st_def e)
  have k1: "k < length (sc_tcbs s1)" using k S(2) by simp
  obtain s2 out' n' where T: "frist_one cap k (s1, out, n) = Some (s2, out', n')" "sinv g s2" "length (sc_tcbs s2) = length (sc_tcbs s1)" "sc_now s2 = sc_now s1"
    "length out \<le> length out'" "length out' \<le> cap" "n' \<le> n"
    "\<And>j. j < length (sc_tcbs s1) \<Longrightarrow> j \<noteq> k \<Longrightarrow> tc_used (sc_tcbs s2 ! j) = tc_used (sc_tcbs s1 ! j) \<and> tc_frist (sc_tcbs s2 ! j) = tc_frist (sc_tcbs s1 ! j) \<and>
        tc_frist_grund (sc_tcbs s2 ! j) = tc_frist_grund (sc_tcbs s1 ! j) \<and> tc_reasons (sc_tcbs s2 ! j) = tc_reasons (sc_tcbs s1 ! j)"
    "frist_done (sc_now s1) (length out = cap) (sc_tcbs s1 ! k) (sc_tcbs s2 ! k)" "armed (sc_tcbs s2 ! k) \<longrightarrow> n' \<le> tc_frist (sc_tcbs s2 ! k)"
    using frist_one_step [OF S(1) k1 S(4)] by blast
  have full: "length out = cap \<longrightarrow> length out' = cap" using T(5,6) by simp
  have "frist_done (sc_now s) (length out' = cap) (sc_tcbs s ! i) (sc_tcbs s2 ! i) \<and> (armed (sc_tcbs s2 ! i) \<longrightarrow> n' \<le> tc_frist (sc_tcbs s2 ! i))" if i: "i < Suc k" for i
  proof (cases "i = k")
    case True
    then show ?thesis using T(9,10) S(3) S(6) [OF k order_refl] full by (auto simp: frist_done_def armed_def)
  next
    case False
    then have ik: "i < k" "i < length (sc_tcbs s1)" using i k1 by simp_all
    show ?thesis using S(5) [OF ik(1)] T(8) [OF ik(2) False] T(7) full by (auto simp: frist_done_def armed_def)
  qed
  moreover have "tc_used (sc_tcbs s2 ! i) = tc_used (sc_tcbs s ! i) \<and> tc_frist (sc_tcbs s2 ! i) = tc_frist (sc_tcbs s ! i) \<and>
        tc_frist_grund (sc_tcbs s2 ! i) = tc_frist_grund (sc_tcbs s ! i) \<and> tc_reasons (sc_tcbs s2 ! i) = tc_reasons (sc_tcbs s ! i)"
    if "i < length (sc_tcbs s)" "Suc k \<le> i" for i using S(6) [OF that(1)] T(8) [of i] S(2) that by simp
  ultimately have "frist_st g s cap (Suc k) (s2, out', n')" using T(2,3,4,6) S(2,3) unfolding frist_st_def by simp
  then show "\<exists>st'. frist_one cap k st = Some st' \<and> frist_st g s cap (Suc k) st'" using T(1) by (auto simp: e)
qed

text \<open>
  C26. No deadline is missed while \<open>naechste_frist\<close> bounds all armed ones. Then \<open>fristen_faellig\<close> disarms
  every deadline that is due and takes the reason it was armed for from the thread, unless the output
  list is full; it changes no deadline and no reason of other threads, and the bound holds afterwards.
  If the list did not fill up, no due deadline is left. \<open>frist_setzen\<close> keeps the bound.
\<close>

theorem deadlines_served:
  assumes "reach cores_init cores_step c" "k < length (cs_scheds c)" "s = cs_scheds c ! k" "frist_inv s"
  shows "(case fristen_faellig s cap of
      None \<Rightarrow> False
    | Some (s', out) \<Rightarrow> frist_inv s' \<and> length (sc_tcbs s') = length (sc_tcbs s) \<and>
        (\<forall>i<length (sc_tcbs s). frist_done (sc_now s) (length out = cap) (sc_tcbs s ! i) (sc_tcbs s' ! i) \<and>
           (length out < cap \<longrightarrow> armed (sc_tcbs s' ! i) \<longrightarrow> sc_now s' < tc_frist (sc_tcbs s' ! i)))) \<and>
    (case frist_setzen s ticks grund of None \<Rightarrow> sc_current s = None | Some s' \<Rightarrow> frist_inv s')"
proof
  have S: "sinv (cs_g c) s" using reach_core(1) [OF assms(1,2)] assms(3) by simp
  show "case fristen_faellig s cap of
      None \<Rightarrow> False
    | Some (s', out) \<Rightarrow> frist_inv s' \<and> length (sc_tcbs s') = length (sc_tcbs s) \<and>
        (\<forall>i<length (sc_tcbs s). frist_done (sc_now s) (length out = cap) (sc_tcbs s ! i) (sc_tcbs s' ! i) \<and>
           (length out < cap \<longrightarrow> armed (sc_tcbs s' ! i) \<longrightarrow> sc_now s' < tc_frist (sc_tcbs s' ! i)))"
  proof (cases "sc_now s < sc_naechste_frist s")
    case True
    have "sc_now s < tc_frist (sc_tcbs s ! i) \<and> \<not> tc_frist (sc_tcbs s ! i) \<le> sc_now s" if "i < length (sc_tcbs s)" "armed (sc_tcbs s ! i)" for i
      using assms(4) that True by (auto simp: frist_inv_def not_le dest: order_less_le_trans)
    then show ?thesis using True assms(4) by (auto simp: fristen_faellig_def frist_done_def)
  next
    case False
    obtain s1 out n where F: "for_slots (frist_one cap) [0..<length (sc_tcbs s)] (s, [], - 1) = Some (s1, out, n)" "frist_st (cs_g c) s cap (length (sc_tcbs s)) (s1, out, n)"
      using frist_scan [OF S, of cap] by (metis prod_cases3)
    have f: "length (sc_tcbs s1) = length (sc_tcbs s)" "sc_now s1 = sc_now s"
      "\<And>i. i < length (sc_tcbs s) \<Longrightarrow> frist_done (sc_now s) (length out = cap) (sc_tcbs s ! i) (sc_tcbs s1 ! i) \<and> (armed (sc_tcbs s1 ! i) \<longrightarrow> n \<le> tc_frist (sc_tcbs s1 ! i))"
      using F(2) by (simp_all add: frist_st_def)
    have "frist_inv (s1\<lparr>sc_naechste_frist := n\<rparr>)" using f(1,3) by (auto simp: frist_inv_def in_set_conv_nth)
    moreover have "sc_now s < tc_frist (sc_tcbs s1 ! i)" if "i < length (sc_tcbs s)" "length out < cap" "armed (sc_tcbs s1 ! i)" for i
      using f(3) [OF that(1)] that(2,3) by (auto simp: frist_done_def armed_def not_le split: if_splits)
    ultimately show ?thesis using False F(1) f by (simp add: fristen_faellig_def)
  qed
  show "case frist_setzen s ticks grund of None \<Rightarrow> sc_current s = None | Some s' \<Rightarrow> frist_inv s'"
  proof (cases "sc_current s")
    case None
    then show ?thesis by (simp add: frist_setzen_def)
  next
    case (Some cur)
    have cl: "cur < length (sc_tcbs s)" using sinvD(5) [OF S Some] .
    have old: "sc_naechste_frist s \<le> tc_frist (sc_tcbs s ! i)" if "i < length (sc_tcbs s)" "armed (sc_tcbs s ! i)" for i
      using assms(4) that by (simp add: frist_inv_def)
    have upd: "frist_inv (s\<lparr>sc_tcbs := (sc_tcbs s)[cur := v], sc_naechste_frist := m\<rparr>)"
      if "m \<le> sc_naechste_frist s" "armed v \<Longrightarrow> m \<le> tc_frist v" for v m
      unfolding frist_inv_def
    proof (intro ballI impI)
      fix t
      assume "t \<in> set (sc_tcbs (s\<lparr>sc_tcbs := (sc_tcbs s)[cur := v], sc_naechste_frist := m\<rparr>))" "armed t"
      then obtain i where i: "i < length (sc_tcbs s)" "t = (sc_tcbs s)[cur := v] ! i" "armed t" by (auto simp: in_set_conv_nth)
      then have "m \<le> tc_frist t" using that cl order_trans [OF that(1) old [OF i(1)]] by (cases "i = cur") auto
      then show "sc_naechste_frist (s\<lparr>sc_tcbs := (sc_tcbs s)[cur := v], sc_naechste_frist := m\<rparr>) \<le> tc_frist t" by simp
    qed
    let ?t = "sc_tcbs s ! cur"
    have clear: "frist_inv (s\<lparr>sc_tcbs := (sc_tcbs s)[cur := ?t\<lparr>tc_frist := 0, tc_frist_grund := 0\<rparr>]\<rparr>)"
      using upd [of "sc_naechste_frist s" "?t\<lparr>tc_frist := 0, tc_frist_grund := 0\<rparr>"] by (simp add: armed_def)
    define d where "d = saturating_add64 (sc_now s) ticks"
    have set: "frist_inv (if d < sc_naechste_frist s then s\<lparr>sc_tcbs := (sc_tcbs s)[cur := ?t\<lparr>tc_frist := d, tc_frist_grund := grund\<rparr>], sc_naechste_frist := d\<rparr>
        else s\<lparr>sc_tcbs := (sc_tcbs s)[cur := ?t\<lparr>tc_frist := d, tc_frist_grund := grund\<rparr>]\<rparr>)"
      using upd [of d "?t\<lparr>tc_frist := d, tc_frist_grund := grund\<rparr>"] upd [of "sc_naechste_frist s" "?t\<lparr>tc_frist := d, tc_frist_grund := grund\<rparr>"]
      by (auto simp: not_less)
    show ?thesis using Some cl clear set by (cases "d < sc_naechste_frist s") (simp_all add: frist_setzen_def modt_in Let_def d_def [symmetric])
  qed
qed

end
