(* ===== verification/SchedSample.thy ===== *)
theory SchedSample
  imports SchedProps
begin

text \<open>
  Concrete runs of the schedulers: a small language of calls, whose every run ends in a reachable state of
  \<open>SchedCores\<close>; the properties of the scheduler evaluated on such runs; and the runs behind what the
  model showed about waking, admission and migration.
\<close>

section \<open>Scripts\<close>

datatype call = Init u8 | Spawn u8 | SpawnParked u8 | Admit nat | Tick | Block | Switch nat | Unblock nat | Frist u64 | Fristen |
  Budget nat u32 u32 | Park | Kill nat | Pause nat

text \<open>The first thread that gets number \<open>n\<close>.\<close>

definition hdl :: "nat \<Rightarrow> ThreadId" where
  "hdl n = \<lparr>t_slot = n, t_gen = 0\<rparr>"

definition with_g :: "Statics \<Rightarrow> (Scheduler \<times> 'a) option \<Rightarrow> (Statics \<times> Scheduler) option" where
  "with_g g r = map_option (\<lambda>x. (g, fst x)) r"

text \<open>A call; the frames are those of threads without a stack.\<close>

fun run_call :: "call \<Rightarrow> Statics \<times> Scheduler \<Rightarrow> (Statics \<times> Scheduler) option" where
  "run_call (Init p) (g, s) = map_option fst (init_core g s (sc_core s) p)"
| "run_call (Spawn p) (g, s) = map_option fst (admit_spawned (spawn_with g s 2 0 0 p))"
| "run_call (SpawnParked p) (g, s) = map_option fst (spawn_with g s 2 0 0 p)"
| "run_call (Admit n) (g, s) = with_g g (admit g s (hdl n))"
| "run_call Tick (g, s) = with_g g (on_tick s 9 True)"
| "run_call Block (g, s) = with_g g (block_current s 9)"
| "run_call (Switch n) (g, s) = with_g g (switch_to g s 9 (hdl n))"
| "run_call (Unblock n) (g, s) = with_g g (unblock g s (hdl n))"
| "run_call (Frist t) (g, s) = map_option (\<lambda>s'. (g, s')) (frist_setzen s t BR_IPC)"
| "run_call Fristen (g, s) = with_g g (fristen_faellig s 8)"
| "run_call (Budget n b p) (g, s) = with_g g (set_budget g s (hdl n) b p)"
| "run_call Park (g, s) = with_g g (park_current s 9)"
| "run_call (Kill n) (g, s) = map_option fst (kill 0 g s (hdl n))"
| "run_call (Pause n) (g, s) = with_g g (pause g s (hdl n))"

text \<open>The conditions of \<open>sch_step\<close>: priorities below 8; \<open>Admit\<close> is left out.\<close>

fun ok_call :: "call \<Rightarrow> bool" where
  "ok_call (Init p) \<longleftrightarrow> p < 8"
| "ok_call (Spawn p) \<longleftrightarrow> p < 8"
| "ok_call (SpawnParked p) \<longleftrightarrow> p < 8"
| "ok_call (Admit n) \<longleftrightarrow> False"
| "ok_call _ \<longleftrightarrow> True"

lemma spawn_small: "spawn_with g s 2 0 0 p = spawn_parked (\<lambda>_ _ _ _ _. 2) g s 0 0 0 0 p"
  by (simp add: spawn_parked_def)

lemma run_call_step:
  assumes "ok_call x" "run_call x (g, s) = Some (g', s')"
  shows "sch_step g s g' s'"
  using assms
  by (cases x) (auto simp: with_g_def spawn_small spawn_def [symmetric] word_less_nat_alt intro: sch_step.intros)

datatype act = On nat call | Move nat nat nat

fun perform :: "act \<Rightarrow> Cores \<Rightarrow> Cores" where
  "perform (On k x) c =
     (if k < length (cs_scheds c) \<and> ok_call x
      then (case run_call x (cs_g c, cs_scheds c ! k) of None \<Rightarrow> c | Some (g', s') \<Rightarrow> c\<lparr>cs_g := g', cs_scheds := (cs_scheds c)[k := s']\<rparr>)
      else c)"
| "perform (Move src dst n) c =
     (if src < length (cs_scheds c) then (case migrate_to c src dst (hdl n) of None \<Rightarrow> c | Some (c', _) \<Rightarrow> c') else c)"

lemma perform_step: "perform a c = c \<or> cores_step c (perform a c)"
  by (cases a) (auto split: option.splits intro: cs_local cs_migrate run_call_step)

primrec performs :: "act list \<Rightarrow> Cores \<Rightarrow> Cores" where
  "performs [] c = c"
| "performs (a # as) c = performs as (perform a c)"

lemma performs_reach: "reach cores_init cores_step c \<Longrightarrow> reach cores_init cores_step (performs as c)"
proof (induction as arbitrary: c)
  case (Cons a as)
  then show ?case using perform_step [of a c] by (auto intro: reach_step)
qed simp

definition uni :: "call list \<Rightarrow> Cores" where
  "uni xs = performs (map (On 0) xs) (cores_boot 4 [4])"

definition duo :: "act list \<Rightarrow> Cores" where
  "duo as = performs as (cores_boot 4 [4, 4])"

lemma runs_reach: "reach cores_init cores_step (uni xs)" "reach cores_init cores_step (duo as)"
proof -
  have "cores_init (cores_boot 4 [4])" "cores_init (cores_boot 4 [4, 4])" unfolding cores_init_def
    by (intro exI [of _ 4] exI [of _ "[4]"] conjI; simp) (intro exI [of _ 4] exI [of _ "[4, 4]"] conjI; simp)
  then have "reach cores_init cores_step (cores_boot 4 [4])" "reach cores_init cores_step (cores_boot 4 [4, 4])"
    by (auto intro: reach_init)
  then show "reach cores_init cores_step (uni xs)" "reach cores_init cores_step (duo as)"
    unfolding uni_def duo_def by (auto intro: performs_reach)
qed

lemma sat_add_code [code]: "saturating_add64 a b = (if a \<le> a + b then a + b else - 1)"
proof -
  have "unat a + unat b < 2 ^ 64 \<longleftrightarrow> a \<le> a + b"
    using unat_plus_if' [of a b] unat_u64_lt [of a] unat_u64_lt [of b] by (auto simp: word_le_nat_alt)
  then show ?thesis by (simp add: saturating_add64_def)
qed


lemma perform_cores: "length (cs_scheds (perform a c)) = length (cs_scheds c)"
  by (cases a) (auto simp: migrate_to_def split: option.splits Option.bind_splits prod.splits if_splits)

lemma runs_cores: "length (cs_scheds (uni xs)) = 1" "length (cs_scheds (duo as)) = 2"
proof -
  have "length (cs_scheds (performs as c)) = length (cs_scheds c)" for as c
    by (induction as arbitrary: c) (simp_all add: perform_cores)
  then show "length (cs_scheds (uni xs)) = 1" "length (cs_scheds (duo as)) = 2"
    by (simp_all add: uni_def duo_def cores_boot_def)
qed

text \<open>The only core of a run, and the shared tables.\<close>

abbreviation core0 :: "call list \<Rightarrow> Scheduler" where
  "core0 xs \<equiv> cs_scheds (uni xs) ! 0"

abbreviation tables :: "call list \<Rightarrow> Statics" where
  "tables xs \<equiv> cs_g (uni xs)"

section \<open>The properties on concrete runs\<close>

text \<open>Thread 2 has priority 3 and runs, 1 is paused, 0 is the idle thread.\<close>

definition demo :: "call list" where
  "demo = [Init 0, Spawn 3, Spawn 3, Pause 1, Tick]"

definition demo_check :: "Statics \<Rightarrow> Scheduler \<Rightarrow> bool" where
  "demo_check g s \<longleftrightarrow> sch_resolve g s (hdl 1) = Some 1 \<and> sch_resolve g s (hdl 2) = Some 2 \<and> sc_current s = Some 2 \<and>
     sch_current_id s = Some (hdl 2) \<and> tc_reasons (sc_tcbs s ! 1) = BR_PAUSE \<and> length (sc_tcbs s) = 4 \<and>
     \<not> tc_depleted (sc_tcbs s ! 1) \<and> \<not> is_parked g s (hdl 2) \<and> tc_priority (sc_tcbs s ! 0) = 0"

lemma demo_check: "demo_check (tables demo) (core0 demo)"
  by code_simp

lemmas demo_facts = demo_check [unfolded demo_check_def]

theorem ready_lists_refine_witness:
  "\<exists>s' j. dequeue_highest (core0 demo) = Some (s', Some j) \<and> rq_wf s'"
proof -
  let ?s = "core0 demo"
  have "ready ?s 0 \<noteq> [] \<and> (\<forall>p\<in>set [7, 6, 5, 4, 3, 2, 1]. ready ?s p = [])" by code_simp
  moreover have "rq_wf ?s" using hinvD(1) [OF sinvD(1) [OF reach_core(1) [OF runs_reach(1) [of demo], of 0]]] rq_wfI by (auto simp: runs_cores)
  ultimately show ?thesis using ready_lists_refine [of ?s 0] demo_facts by auto
qed


theorem handles_exact_witness:
  "1 < length (sc_tcbs (core0 demo)) \<and> sch_id (core0 demo) 1 = Some (hdl 1) \<and> tc_used (sc_tcbs (core0 demo) ! 1)"
  using conjunct1 [OF handles_exact [OF runs_reach(1) [of demo], of 0]] demo_facts by (auto simp: runs_cores simp del: One_nat_def)

theorem lift_exact_witness:
  "\<exists>s'. lift_reason (tables demo) (core0 demo) (hdl 1) BR_PAUSE = Some (s', True) \<and> tc_reasons (sc_tcbs s' ! 1) = 0 \<and> is_ready s' 1"
proof -
  have "br_remove BR_PAUSE BR_PAUSE = 0" by code_simp
  then show ?thesis
    using lift_exact [OF runs_reach(1) [of demo] _ refl refl, of 0 BR_PAUSE "hdl 1"] demo_facts by (auto simp: runs_cores simp del: One_nat_def)
qed

theorem park_unpark_witness:
  "\<exists>s'. unpark (tables demo) (core0 demo) (hdl 2) = Some (s', True) \<and> tc_park_wake (sc_tcbs s' ! 2)"
  using park_unpark [OF runs_reach(1) [of demo] _ refl refl, of 0 "hdl 2" 2] demo_facts by (auto simp: runs_cores)

theorem tick_runs_highest_witness:
  "\<exists>s' f. on_tick (core0 demo) 9 True = Some (s', f) \<and>
    ((\<forall>i. \<not> is_ready s' i) \<and> sc_current s' = sc_current (core0 demo) \<and> f = 9 \<or>
     (\<exists>i. sc_current s' = Some i \<and> f = tc_sp (sc_tcbs s' ! i) \<and> tc_reasons (sc_tcbs s' ! i) = 0 \<and>
        (\<forall>j. is_ready s' j \<longrightarrow> tc_priority (sc_tcbs s' ! j) \<le> tc_priority (sc_tcbs s' ! i))))"
  using tick_runs_highest [OF runs_reach(1) [of demo] _ refl, of 0 9 True] by (simp add: runs_cores)

theorem panics_only_when_idle_witness:
  "kill 0 (tables demo) (core0 demo) (hdl 2) \<noteq> None \<and>
   (block_current (core0 demo) 9 = None \<longleftrightarrow> sc_current (core0 demo) = None \<or> (\<forall>i. \<not> is_ready (core0 demo) i))"
  using panics_only_when_idle [OF runs_reach(1) [of demo] _ refl refl, of 0 3 "hdl 2" 0 0 0 0 0 0 "\<lambda>_ _ _ _ _. 2" 0 0 0 0 9] by (simp add: runs_cores)

theorem handle_dies_with_thread_witness:
  "\<exists>g' s'. kill 0 (tables demo) (core0 demo) (hdl 1) = Some ((g', s'), True) \<and> \<not> is_live g' (hdl 1)"
proof -
  have "(case kill 0 (tables demo) (core0 demo) (hdl 1) of None \<Rightarrow> False | Some (x, b) \<Rightarrow> b)" by code_simp
  then obtain g' s' where k: "kill 0 (tables demo) (core0 demo) (hdl 1) = Some ((g', s'), True)" by (auto split: option.splits)
  then show ?thesis using handle_dies_with_thread [OF runs_reach(1) [of demo], of 0 0 "hdl 1" g' s'] by (auto simp: runs_cores)
qed

text \<open>The running thread sets a deadline and blocks; the deadline is due after two ticks.\<close>

definition waiting :: "call list" where
  "waiting = [Init 0, Spawn 3, Tick, Frist 2, Block, Tick, Tick]"

definition waiting_check :: "Scheduler \<Rightarrow> bool" where
  "waiting_check s \<longleftrightarrow> frist_inv s \<and> length (sc_tcbs s) = 4 \<and> sc_now s = 3 \<and> armed (sc_tcbs s ! 1) \<and> tc_frist (sc_tcbs s ! 1) = 3 \<and>
     tc_reasons (sc_tcbs s ! 1) = BR_IPC"

lemma waiting_check: "waiting_check (core0 waiting)"
  by code_simp

lemmas waiting_facts = waiting_check [unfolded waiting_check_def]

theorem deadlines_served_witness:
  "\<exists>s' out. fristen_faellig (core0 waiting) 8 = Some (s', out) \<and> frist_inv s' \<and>
    frist_done 3 (length out = 8) (sc_tcbs (core0 waiting) ! 1) (sc_tcbs s' ! 1)"
  using conjunct1 [OF deadlines_served [OF runs_reach(1) [of waiting] _ refl, of 0 8]] waiting_facts
  by (auto simp: runs_cores split: option.splits)

text \<open>A thread of core 0 moves to core 1.\<close>

definition two_cores :: "act list" where
  "two_cores = [On 0 (Init 0), On 1 (Init 0), On 0 (Spawn 3)]"

theorem migration_safe_witness:
  "case migrate_to (duo two_cores) 0 1 (hdl 2) of None \<Rightarrow> False | Some (c', b) \<Rightarrow> b \<and> cores_inv c' \<and> owner_core (cs_g c') (hdl 2) = Some 1"
proof -
  have "(case migrate_to (duo two_cores) 0 1 (hdl 2) of None \<Rightarrow> False | Some (c', b) \<Rightarrow> b)" by code_simp
  then show ?thesis using migration_safe [where src = 0 and dst = 1 and tid = "hdl 2", OF runs_reach(2) [of two_cores]]
    by (auto simp: runs_cores split: option.splits prod.splits bool.splits)
qed

section \<open>What the runs show\<close>

text \<open>
  Thread 2 runs out of budget while thread 1 works on its account; its deadline then puts it on a ready
  list, and the audit reports a depleted thread there.
\<close>

definition due_depleted :: "call list" where
  "due_depleted = [Init 0, Spawn 3, Spawn 3, Tick, Block, Budget 2 1 10, Frist 1, Switch 1, Tick, Fristen]"

definition due_check :: "Statics \<Rightarrow> Scheduler \<Rightarrow> bool" where
  "due_check g s \<longleftrightarrow> tc_depleted (sc_tcbs s ! 2) \<and> 2 < length (sc_tcbs s) \<and> tc_queued (sc_tcbs s ! 2) \<noteq> NOT_QUEUED \<and> sch_audit g s = Some 9"

theorem deadline_wakes_depleted:
  "sch_audit (tables due_depleted) (core0 due_depleted) = Some 9 \<and> tc_depleted (sc_tcbs (core0 due_depleted) ! 2) \<and> is_ready (core0 due_depleted) 2"
proof -
  have "due_check (tables due_depleted) (core0 due_depleted)" by code_simp
  then show ?thesis by (simp add: due_check_def is_ready_def)
qed

text \<open>
  Thread 2 lends its account to thread 1, runs out of budget and is woken from its wait before the refill.
  The refill wakes thread 1 only: thread 2 has no block reason, has budget and is on no list.
\<close>

definition refill_lost :: "call list" where
  "refill_lost = [Init 0, Spawn 3, Spawn 3, Tick, Block, Budget 2 1 2, Switch 1, Tick, Unblock 2, Tick, Tick]"

definition refill_check :: "Statics \<Rightarrow> Scheduler \<Rightarrow> bool" where
  "refill_check g s \<longleftrightarrow> tc_queued (sc_tcbs s ! 2) = NOT_QUEUED \<and> sch_audit g s = Some 7 \<and> tc_reasons (sc_tcbs s ! 2) = 0 \<and>
     \<not> tc_depleted (sc_tcbs s ! 2) \<and> sc_current s \<noteq> Some 2"

theorem refill_forgets_lender:
  "sch_audit (tables refill_lost) (core0 refill_lost) = Some 7 \<and> tc_reasons (sc_tcbs (core0 refill_lost) ! 2) = 0 \<and>
   \<not> tc_depleted (sc_tcbs (core0 refill_lost) ! 2) \<and> sc_current (core0 refill_lost) \<noteq> Some 2 \<and> \<not> is_ready (core0 refill_lost) 2"
proof -
  have "refill_check (tables refill_lost) (core0 refill_lost)" by code_simp
  then show ?thesis by (simp add: refill_check_def is_ready_def)
qed

text \<open>A parked spawn that is paused and then admitted is queued although it is blocked.\<close>

theorem admit_queues_blocked:
  "case run_call (Admit 1) (tables [Init 0, SpawnParked 3, Pause 1], core0 [Init 0, SpawnParked 3, Pause 1]) of
     None \<Rightarrow> False | Some (g, s) \<Rightarrow> tc_reasons (sc_tcbs s ! 1) = BR_PAUSE \<and> tc_queued (sc_tcbs s ! 1) = 3 \<and> sch_audit g s = Some 2"
  by code_simp

text \<open>
  A thread with a deadline moves to another core: the bound of that core's deadlines does not cover it,
  and it is not released when the deadline is due.
\<close>

definition moved :: "act list" where
  "moved = [On 0 (Init 0), On 1 (Init 0), On 0 (Spawn 3), On 0 Tick, On 0 (Frist 1), On 0 Block, Move 0 1 2, On 1 Tick, On 1 Tick, On 1 Tick, On 1 Fristen]"

definition moved_check :: "Statics \<Rightarrow> Scheduler \<Rightarrow> bool" where
  "moved_check g s \<longleftrightarrow> \<not> frist_inv s \<and> owner_core g (hdl 2) = Some 1 \<and> tc_frist (sc_tcbs s ! 1) < sc_now s \<and> tc_reasons (sc_tcbs s ! 1) = BR_IPC"

theorem migration_loses_deadline:
  "moved_check (cs_g (duo moved)) (cs_scheds (duo moved) ! 1)"
  by code_simp

end
