(* ===== verification/IpcContract.thy ===== *)
theory IpcContract
  imports IpcProps
begin

text \<open>
  What endpoints rely on when they call the scheduler, as the locale \<open>ipc_sched\<close>: the running thread does
  not wait for IPC, blocking makes exactly the running thread wait, a switch hands over to the target, and
  unblocking ends exactly one wait. From these laws follows that everyone an endpoint has on record and who
  is alive really waits, and that messages are written only into the frame of the running thread or of a
  thread that waits.
\<close>

text \<open>The threads an endpoint holds: queued ones and the caller that is owed a reply.\<close>

definition held :: "IpcEndpoint \<Rightarrow> ThreadId list" where
  "held ep = senders ep @ receivers ep @ (case e_caller ep of None \<Rightarrow> [] | Some c \<Rightarrow> [c])"

text \<open>\<open>synced\<close>: nobody is held twice, and everyone held and alive waits for IPC.\<close>

definition synced :: "'s SchedOps \<Rightarrow> ('s \<Rightarrow> bool) \<Rightarrow> IpcEndpoint \<Rightarrow> 's World \<Rightarrow> bool" where
  "synced ops I ep w \<longleftrightarrow> ep_wf ep \<and> I (w_sched w) \<and> distinct (held ep) \<and>
     (\<forall>t\<in>set (held ep). so_frame_of ops (w_sched w) t \<noteq> None \<longrightarrow> so_wartet_auf_ipc ops (w_sched w) t)"

text \<open>A table of endpoints: each agrees with the scheduler, and nobody is held by two of them.\<close>

definition all_synced :: "'s SchedOps \<Rightarrow> ('s \<Rightarrow> bool) \<Rightarrow> IpcEndpoint list \<Rightarrow> 's World \<Rightarrow> bool" where
  "all_synced ops I eps w \<longleftrightarrow> I (w_sched w) \<and> (\<forall>a<length eps. synced ops I (eps ! a) w) \<and>
     (\<forall>a<length eps. \<forall>b<length eps. a \<noteq> b \<longrightarrow> set (held (eps ! a)) \<inter> set (held (eps ! b)) = {})"

text \<open>\<open>wrote ops w frame w'\<close>: every other frame that changed is the frame of a thread that waited.\<close>

definition wrote :: "'s SchedOps \<Rightarrow> 's World \<Rightarrow> nat \<Rightarrow> 's World \<Rightarrow> bool" where
  "wrote ops w frame w' \<longleftrightarrow> (\<forall>fr. fr \<noteq> frame \<and> w_frames w' fr \<noteq> w_frames w fr \<longrightarrow>
     (\<exists>t. so_wartet_auf_ipc ops (w_sched w) t \<and> so_frame_of ops (w_sched w) t = Some fr))"

text \<open>\<open>local_to ops k ep w ep' w'\<close>: at most the running thread joins those the endpoint holds, and the waits of all others stay.\<close>

definition local_to :: "'s SchedOps \<Rightarrow> nat \<Rightarrow> IpcEndpoint \<Rightarrow> 's World \<Rightarrow> IpcEndpoint \<Rightarrow> 's World \<Rightarrow> bool" where
  "local_to ops k ep w ep' w' \<longleftrightarrow>
     set (held ep') \<subseteq> insert (so_current_id ops (w_sched w) k) (set (held ep)) \<and>
     (\<forall>u. (so_frame_of ops (w_sched w') u \<noteq> None) = (so_frame_of ops (w_sched w) u \<noteq> None)) \<and>
     (\<forall>u. u \<notin> insert (so_current_id ops (w_sched w) k) (set (held ep)) \<longrightarrow>
        so_wartet_auf_ipc ops (w_sched w') u = so_wartet_auf_ipc ops (w_sched w) u)"

lemma local_same: "w_sched w' = w_sched w \<Longrightarrow> set (held ep') \<subseteq> set (held ep) \<Longrightarrow> local_to ops k ep w ep' w'"
  by (auto simp: local_to_def)

lemma set_other: "fr \<noteq> dst \<Longrightarrow> frame_set_reg m dst r v fr = m fr"
  by (simp add: frame_set_reg_def)

lemma transfer_other: "fr \<noteq> dst \<Longrightarrow> transfer m src dst fr = m fr"
proof (rule ext)
  fix r
  assume "fr \<noteq> dst"
  then show "transfer m src dst fr r = m fr r" using transfer_reg [of m src dst fr r] by (simp add: frame_reg_def)
qed

lemma wroteI:
  assumes "\<And>fr. fr \<noteq> frame \<Longrightarrow> fr \<noteq> dst \<Longrightarrow> w_frames w' fr = w_frames w fr"
    and "so_wartet_auf_ipc ops (w_sched w) t" "so_frame_of ops (w_sched w) t = Some dst"
  shows "wrote ops w frame w'"
  unfolding wrote_def
proof (intro allI impI)
  fix fr
  assume "fr \<noteq> frame \<and> w_frames w' fr \<noteq> w_frames w fr"
  then have "fr = dst" using assms(1) by blast
  then show "\<exists>t. so_wartet_auf_ipc ops (w_sched w) t \<and> so_frame_of ops (w_sched w) t = Some fr" using assms(2,3) by blast
qed

lemma held_update:
  assumes "ep_wf ep" "distinct (held ep)"
  shows "dropWhile P (receivers ep) = t # ts \<Longrightarrow> t \<in> set (held ep) \<and> t \<notin> set (senders ep) \<and> t \<notin> set ts \<and> set ts \<subseteq> set (receivers ep) \<and> distinct ts"
    "dropWhile P (senders ep) = t # ts \<Longrightarrow> t \<in> set (held ep) \<and> t \<notin> set (receivers ep) \<and> t \<notin> set ts \<and> set ts \<subseteq> set (senders ep) \<and> distinct ts"
proof -
  have *: "dropWhile P xs = t # ts \<Longrightarrow> distinct xs \<Longrightarrow> t \<in> set xs \<and> t \<notin> set ts \<and> set ts \<subseteq> set xs \<and> distinct ts" for xs :: "ThreadId list"
    using dropWhile_set [of P xs t ts] distinct_dropWhile [of xs P] by auto
  show "dropWhile P (receivers ep) = t # ts \<Longrightarrow> t \<in> set (held ep) \<and> t \<notin> set (senders ep) \<and> t \<notin> set ts \<and> set ts \<subseteq> set (receivers ep) \<and> distinct ts"
    "dropWhile P (senders ep) = t # ts \<Longrightarrow> t \<in> set (held ep) \<and> t \<notin> set (receivers ep) \<and> t \<notin> set ts \<and> set ts \<subseteq> set (senders ep) \<and> distinct ts"
    using assms(2) * [of "receivers ep"] * [of "senders ep"] unfolding held_def by auto
qed

locale ipc_sched =
  fixes ops :: "'s SchedOps"
    and good :: "'s \<Rightarrow> bool"
    and active :: "'s \<Rightarrow> nat \<Rightarrow> bool"
    and crashed :: "'s \<Rightarrow> bool"
  assumes running: "good s \<Longrightarrow> active s k \<Longrightarrow>
      \<not> so_wartet_auf_ipc ops s (so_current_id ops s k) \<and> so_frame_of ops s (so_current_id ops s k) \<noteq> None"
    and block_law: "good s \<Longrightarrow> active s k \<Longrightarrow> so_block_current ops s k f = (s', nx) \<Longrightarrow> \<not> crashed s' \<Longrightarrow>
      good s' \<and> (\<forall>t. (so_frame_of ops s' t \<noteq> None) = (so_frame_of ops s t \<noteq> None)) \<and>
      (\<forall>t. so_wartet_auf_ipc ops s' t \<longleftrightarrow> so_wartet_auf_ipc ops s t \<or> t = so_current_id ops s k)"
    and switch_law: "good s \<Longrightarrow> active s k \<Longrightarrow> so_owner_core ops s t = Some k \<Longrightarrow> so_wartet_auf_ipc ops s t \<Longrightarrow>
      so_switch_to ops s k f t = (s', nx) \<Longrightarrow> \<not> crashed s' \<Longrightarrow>
      good s' \<and> (\<forall>u. (so_frame_of ops s' u \<noteq> None) = (so_frame_of ops s u \<noteq> None)) \<and>
      (\<forall>u. so_wartet_auf_ipc ops s' u \<longleftrightarrow> u \<noteq> t \<and> (so_wartet_auf_ipc ops s u \<or> u = so_current_id ops s k))"
    and unblock_law: "good s \<Longrightarrow> so_unblock ops s t = s' \<Longrightarrow>
      good s' \<and> (\<forall>u. (so_frame_of ops s' u \<noteq> None) = (so_frame_of ops s u \<noteq> None)) \<and>
      (\<forall>u. so_wartet_auf_ipc ops s' u \<longleftrightarrow> so_wartet_auf_ipc ops s u \<and> u \<noteq> t) \<and>
      (\<forall>k. active s k \<longrightarrow> active s' k \<and> so_current_id ops s' k = so_current_id ops s k)"
    and donation_law: "good s \<Longrightarrow> active s k \<Longrightarrow> so_end_donation ops s k = s' \<Longrightarrow>
      good s' \<and> so_frame_of ops s' = so_frame_of ops s \<and> so_wartet_auf_ipc ops s' = so_wartet_auf_ipc ops s"
begin

text \<open>Suspending a caller in favour of a waiting server: one waits instead of the other.\<close>

lemma suspend_swaps:
  assumes "good s" "active s k" "so_wartet_auf_ipc ops s server" "call_suspend ops s k frame server = (s', nx)" "\<not> crashed s'"
  shows "good s' \<and> (\<forall>u. (so_frame_of ops s' u \<noteq> None) = (so_frame_of ops s u \<noteq> None)) \<and>
    (\<forall>u. so_wartet_auf_ipc ops s' u \<longleftrightarrow> u \<noteq> server \<and> (so_wartet_auf_ipc ops s u \<or> u = so_current_id ops s k))"
proof (cases "so_owner_core ops s server = Some k")
  case True
  then show ?thesis using switch_law [OF assms(1,2) True assms(3) _ assms(5)] assms(4) by (simp add: call_suspend_def)
next
  case False
  have b: "so_block_current ops (so_unblock ops s server) k frame = (s', nx)" using assms(4) False by (simp add: call_suspend_def)
  note U = unblock_law [OF assms(1) refl, of server]
  have "server \<noteq> so_current_id ops s k" using running [OF assms(1,2)] assms(3) by blast
  then show ?thesis using U block_law [OF _ _ b assms(5)] assms(2) by auto
qed

lemma current_not_held:
  assumes "synced ops good ep w" "active (w_sched w) k"
  shows "so_current_id ops (w_sched w) k \<notin> set (held ep)"
  using assms running [of "w_sched w" k] unfolding synced_def by blast

lemma call_synced:
  assumes "synced ops good ep w" "active (w_sched w) k" "ep_call ops k frame badge ep w = (ep', w', nx)" "\<not> crashed (w_sched w')"
  shows "synced ops good ep' w' \<and> wrote ops w frame w' \<and> local_to ops k ep w ep' w'"
proof (cases "gate_new_transaction ep")
  case (Some code)
  then have "ep' = ep" "w' = w\<lparr>w_frames := frame_set_reg (w_frames w) frame reg_SYSNO_RESULT code\<rparr>" using assms(3) by (auto simp: ep_call_def)
  then show ?thesis using assms(1) by (auto simp: synced_def wrote_def set_other intro!: local_same)
next
  case None
  let ?s = "w_sched w" and ?c = "so_current_id ops (w_sched w) k"
  have S: "ep_wf ep" "good ?s" "distinct (held ep)" "\<And>t. t \<in> set (held ep) \<Longrightarrow> so_frame_of ops ?s t \<noteq> None \<Longrightarrow> so_wartet_auf_ipc ops ?s t"
    using assms(1) by (auto simp: synced_def)
  have wf: "q_wf (e_senders ep)" "q_wf (e_receivers ep)" using S(1) by (simp_all add: ep_wf_def)
  note C = current_not_held [OF assms(1,2)]
  from wf(2) show ?thesis
  proof (cases rule: first_live_cases [where fr = "so_frame_of ops ?s"])
    case (none rq)
    from wf(1) show ?thesis
    proof (cases rule: enqueue_cases [where t = ?c])
      case full
      then have "ep' = ep\<lparr>e_receivers := rq, e_senders := e_senders ep\<rparr>" "w_sched w' = ?s"
        "w_frames w' = frame_set_reg (frame_set_reg (w_frames w) frame reg_EP_BADGE badge) frame reg_SYSNO_RESULT ERR_EP_FULL"
        using assms(3) None none(1) by (auto simp: ep_call_def Let_def)
      then show ?thesis using S none(2,3) wf by (auto simp: synced_def wrote_def held_def ep_wf_def set_other intro!: local_same)
    next
      case (room sq)
      obtain s1 nx' where b: "so_block_current ops ?s k frame = (s1, nx')" by force
      have e: "ep' = ep\<lparr>e_receivers := rq, e_senders := sq\<rparr>" "w_sched w' = s1" "w_frames w' = frame_set_reg (w_frames w) frame reg_EP_BADGE badge"
        using assms(3) None none(1) room(1) b by (auto simp: ep_call_def Let_def)
      have B: "good s1" "\<And>t. (so_frame_of ops s1 t \<noteq> None) = (so_frame_of ops ?s t \<noteq> None)" "\<And>t. so_wartet_auf_ipc ops s1 t \<longleftrightarrow> so_wartet_auf_ipc ops ?s t \<or> t = ?c"
        using block_law [OF S(2) assms(2) b] assms(4) e(2) by blast+
      show ?thesis using S(3,4) B none(2,3) room(2,3) C unfolding synced_def wrote_def local_to_def e by (auto simp: held_def ep_wf_def set_other)
    qed
  next
    case (some rq server sframe rest)
    obtain s1 nx' where b: "call_suspend ops ?s k frame server = (s1, nx')" by force
    have e: "ep' = ep\<lparr>e_receivers := rq, e_caller := Some ?c, e_reply_owner := Some server\<rparr>" "w_sched w' = s1"
      "w_frames w' = call_deliver (frame_set_reg (w_frames w) frame reg_EP_BADGE badge) frame sframe badge"
      using assms(3) None some(1) b by (auto simp: ep_call_def Let_def)
    note H = held_update(1) [OF S(1,3) some(5)]
    have ws: "so_wartet_auf_ipc ops ?s server" using S(4) H some(4) by simp
    have B: "good s1" "\<And>u. (so_frame_of ops s1 u \<noteq> None) = (so_frame_of ops ?s u \<noteq> None)"
      "\<And>u. so_wartet_auf_ipc ops s1 u \<longleftrightarrow> u \<noteq> server \<and> (so_wartet_auf_ipc ops ?s u \<or> u = ?c)"
      using suspend_swaps [OF S(2) assms(2) ws b] assms(4) e(2) by blast+
    have c: "?c \<noteq> server" using C H by metis
    have "wrote ops w frame w'"
      by (rule wroteI [where dst = sframe, OF _ ws some(4)]) (simp add: e call_deliver_def set_other transfer_other)
    moreover have "synced ops good ep' w'" using S(3,4) B some(2,3) H C c wf unfolding synced_def e
      by (auto simp: held_def ep_wf_def)
    moreover have "local_to ops k ep w ep' w'" using B some(2,3) H unfolding local_to_def e by (auto simp: held_def)
    ultimately show ?thesis by simp
  qed
qed

lemma recv_synced:
  assumes "synced ops good ep w" "active (w_sched w) k" "ep_recv ops k frame ep w = (ep', w', nx)" "\<not> crashed (w_sched w')"
  shows "synced ops good ep' w' \<and> wrote ops w frame w' \<and> local_to ops k ep w ep' w'"
proof (cases "gate_new_transaction ep")
  case (Some code)
  then have "ep' = ep" "w' = w\<lparr>w_frames := frame_set_reg (w_frames w) frame reg_SYSNO_RESULT code\<rparr>" using assms(3) by (auto simp: ep_recv_def)
  then show ?thesis using assms(1) by (auto simp: synced_def wrote_def set_other intro!: local_same)
next
  case None
  let ?s = "w_sched w" and ?c = "so_current_id ops (w_sched w) k"
  have S: "ep_wf ep" "good ?s" "distinct (held ep)" "\<And>t. t \<in> set (held ep) \<Longrightarrow> so_frame_of ops ?s t \<noteq> None \<Longrightarrow> so_wartet_auf_ipc ops ?s t"
    using assms(1) by (auto simp: synced_def)
  have wf: "q_wf (e_senders ep)" "q_wf (e_receivers ep)" using S(1) by (simp_all add: ep_wf_def)
  note C = current_not_held [OF assms(1,2)]
  from wf(1) show ?thesis
  proof (cases rule: first_live_cases [where fr = "so_frame_of ops ?s"])
    case (none sq)
    from wf(2) show ?thesis
    proof (cases rule: enqueue_cases [where t = ?c])
      case full
      then have "ep' = ep\<lparr>e_senders := sq, e_receivers := e_receivers ep\<rparr>" "w_sched w' = ?s"
        "w_frames w' = frame_set_reg (w_frames w) frame reg_SYSNO_RESULT ERR_EP_FULL"
        using assms(3) None none(1) by (auto simp: ep_recv_def Let_def)
      then show ?thesis using S none(2,3) wf by (auto simp: synced_def wrote_def held_def ep_wf_def set_other intro!: local_same)
    next
      case (room rq)
      obtain s1 nx' where b: "so_block_current ops ?s k frame = (s1, nx')" by force
      have e: "ep' = ep\<lparr>e_senders := sq, e_receivers := rq\<rparr>" "w_sched w' = s1" "w_frames w' = w_frames w"
        using assms(3) None none(1) room(1) b by (auto simp: ep_recv_def Let_def)
      have B: "good s1" "\<And>t. (so_frame_of ops s1 t \<noteq> None) = (so_frame_of ops ?s t \<noteq> None)" "\<And>t. so_wartet_auf_ipc ops s1 t \<longleftrightarrow> so_wartet_auf_ipc ops ?s t \<or> t = ?c"
        using block_law [OF S(2) assms(2) b] assms(4) e(2) by blast+
      show ?thesis using S(3,4) B none(2,3) room(2,3) C unfolding synced_def wrote_def local_to_def e by (auto simp: held_def ep_wf_def)
    qed
  next
    case (some sq sender cframe rest)
    have e: "ep' = ep\<lparr>e_senders := sq, e_caller := Some sender, e_reply_owner := Some ?c\<rparr>" "w_sched w' = ?s"
      using assms(3) None some(1) by (auto simp: ep_recv_def Let_def)
    have "wrote ops w frame w'" using assms(3) None some(1) by (auto simp: ep_recv_def Let_def wrote_def set_other transfer_other)
    moreover have "synced ops good ep' w'" using S held_update(2) [OF S(1,3) some(5)] some(2,3) wf unfolding synced_def e
      by (auto simp: held_def ep_wf_def)
    moreover have "local_to ops k ep w ep' w'" using held_update(2) [OF S(1,3) some(5)] some(2,3) by (intro local_same) (auto simp: e held_def)
    ultimately show ?thesis by simp
  qed
qed

lemma reply_synced:
  assumes "synced ops good ep w" "active (w_sched w) k" "ep_reply ops k frame ep w = (ep', w', nx)"
  shows "synced ops good ep' w' \<and> wrote ops w frame w' \<and> local_to ops k ep w ep' w'"
proof (cases "e_used ep")
  case False
  then have "ep' = ep" "w' = w\<lparr>w_frames := frame_set_reg (w_frames w) frame reg_SYSNO_RESULT ERR_BADCAP\<rparr>" using assms(3) by (auto simp: ep_reply_def)
  then show ?thesis using assms(1) by (auto simp: synced_def wrote_def set_other intro!: local_same)
next
  case True
  let ?s = "w_sched w"
  define s1 where "s1 = so_end_donation ops ?s k"
  have S: "ep_wf ep" "good ?s" "distinct (held ep)" "\<And>t. t \<in> set (held ep) \<Longrightarrow> so_frame_of ops ?s t \<noteq> None \<Longrightarrow> so_wartet_auf_ipc ops ?s t"
    using assms(1) by (auto simp: synced_def)
  have D: "good s1" "so_frame_of ops s1 = so_frame_of ops ?s" "so_wartet_auf_ipc ops s1 = so_wartet_auf_ipc ops ?s"
    using donation_law [OF S(2) assms(2), of s1] by (simp_all add: s1_def)
  have e: "ep' = ep\<lparr>e_reply_owner := None, e_caller := None\<rparr>" using assms(3) True by (simp add: ep_reply_def Let_def)
  have sub: "set (held ep') \<subseteq> set (held ep)" "distinct (held ep')" using S(3) by (auto simp: e held_def)
  show ?thesis
  proof (cases "\<exists>caller. e_caller ep = Some caller \<and> so_wartet_auf_ipc ops s1 caller")
    case False
    then have w': "w' = w\<lparr>w_sched := s1, w_frames := frame_set_reg (w_frames w) frame reg_SYSNO_RESULT res_OK\<rparr>"
      using assms(3) True by (auto simp: ep_reply_def Let_def s1_def split: option.splits)
    show ?thesis using S D sub unfolding synced_def wrote_def local_to_def w' by (auto simp: e ep_wf_def set_other)
  next
    case T: True
    then obtain caller where c: "e_caller ep = Some caller" "so_wartet_auf_ipc ops s1 caller" by blast
    note U = unblock_law [OF D(1) refl, of caller]
    have ws: "w_sched w' = so_unblock ops s1 caller" using assms(3) True c by (auto simp: ep_reply_def Let_def s1_def split: option.splits)
    have nc: "caller \<notin> set (held ep')" using S(3) c(1) by (auto simp: e held_def)
    have "synced ops good ep' w'" unfolding synced_def ws using S(1,4) D U sub nc by (auto simp: e ep_wf_def)
    moreover have "local_to ops k ep w ep' w'" unfolding local_to_def ws using D U sub c(1) by (auto simp: held_def)
    moreover have "wrote ops w frame w'"
    proof (cases "so_frame_of ops s1 caller")
      case None
      then show ?thesis using assms(3) True c by (auto simp: ep_reply_def Let_def s1_def [symmetric] wrote_def set_other)
    next
      case (Some cframe)
      show ?thesis using assms(3) True c Some D(2,3)
        by (intro wroteI [where dst = cframe and t = caller]) (auto simp: ep_reply_def Let_def s1_def [symmetric] set_other transfer_other)
    qed
    ultimately show ?thesis by simp
  qed
qed

text \<open>The three calls end a wait or begin one, exactly as the endpoint records it.\<close>

lemma reply_wakes:
  assumes "synced ops good ep w" "active (w_sched w) k" "ep_reply ops k frame ep w = (ep', w', nx)" "e_used ep" "e_caller ep = Some caller"
  shows "\<not> so_wartet_auf_ipc ops (w_sched w') caller"
proof -
  define s1 where "s1 = so_end_donation ops (w_sched w) k"
  have "good s1" using donation_law [OF _ assms(2), of s1] assms(1) by (simp add: s1_def synced_def)
  then show ?thesis using assms(3-5) unblock_law [OF _ refl, of s1 caller]
    by (auto simp: ep_reply_def Let_def s1_def split: option.splits if_splits)
qed

text \<open>An operation on one endpoint leaves the agreement of the others alone.\<close>

lemma table_step:
  assumes "all_synced ops good eps w" "a < length eps" "active (w_sched w) k"
    and "synced ops good ep' w'" "local_to ops k (eps ! a) w ep' w'"
  shows "all_synced ops good (eps[a := ep']) w'"
proof -
  have A: "\<And>b. b < length eps \<Longrightarrow> synced ops good (eps ! b) w"
    "\<And>b. b < length eps \<Longrightarrow> b \<noteq> a \<Longrightarrow> set (held (eps ! a)) \<inter> set (held (eps ! b)) = {}"
    "\<And>b d. b < length eps \<Longrightarrow> d < length eps \<Longrightarrow> b \<noteq> d \<Longrightarrow> set (held (eps ! b)) \<inter> set (held (eps ! d)) = {}"
    using assms(1,2) by (auto simp: all_synced_def)
  have g: "good (w_sched w')" using assms(4) by (simp add: synced_def)
  have C: "so_current_id ops (w_sched w) k \<notin> set (held (eps ! b))" if "b < length eps" for b
    using current_not_held [OF A(1) [OF that] assms(3)] .
  have L: "set (held ep') \<subseteq> insert (so_current_id ops (w_sched w) k) (set (held (eps ! a)))"
    "\<And>u. (so_frame_of ops (w_sched w') u \<noteq> None) = (so_frame_of ops (w_sched w) u \<noteq> None)"
    "\<And>u. u \<noteq> so_current_id ops (w_sched w) k \<Longrightarrow> u \<notin> set (held (eps ! a)) \<Longrightarrow>
        so_wartet_auf_ipc ops (w_sched w') u = so_wartet_auf_ipc ops (w_sched w) u"
    using assms(5) by (simp_all add: local_to_def)
  have other: "u \<noteq> so_current_id ops (w_sched w) k \<and> u \<notin> set (held (eps ! a)) \<and> u \<notin> set (held ep')"
    if "b < length eps" "b \<noteq> a" "u \<in> set (held (eps ! b))" for b u
    using that A(2) [OF that(1,2)] C [OF that(1)] L(1) by blast
  have S: "synced ops good (eps ! b) w'" if "b < length eps" "b \<noteq> a" for b
    using A(1) [OF that(1)] other [OF that] L(2,3) g unfolding synced_def by simp
  have D: "set (held ep') \<inter> set (held (eps ! b)) = {}" if "b < length eps" "b \<noteq> a" for b using other [OF that] by blast
  show ?thesis unfolding all_synced_def
    using g assms(2,4) S D A(3) Int_commute [of "set (held ep')"] by (simp add: nth_list_update)
qed

end

end
