(* ===== verification/SchedIpc.thy ===== *)
theory SchedIpc
  imports SchedProps
begin

text \<open>
  Who waits for IPC: which operations of a scheduler leave that alone, and the exact effect of
  \<open>block_current\<close>, \<open>switch_to\<close>, \<open>unblock\<close> and \<open>end_donation\<close> on it. This is what the IPC layer needs to
  know of the scheduler.
\<close>

section \<open>Operations that leave the IPC waits alone\<close>

definition ipb :: "Tcb \<Rightarrow> (bool \<times> u32 \<times> u32 \<times> u8) \<times> bool" where
  "ipb t = (ident t, br_has (tc_reasons t) BR_IPC)"

lemma ipb_fields [simp]:
  "ipb (t\<lparr>tc_sp := a\<rparr>) = ipb t" "ipb (t\<lparr>tc_queued := q\<rparr>) = ipb t" "ipb (t\<lparr>tc_qnext := l\<rparr>) = ipb t" "ipb (t\<lparr>tc_qprev := l\<rparr>) = ipb t"
  "ipb (t\<lparr>tc_remaining := x\<rparr>) = ipb t" "ipb (t\<lparr>tc_next_refill := n\<rparr>) = ipb t" "ipb (t\<lparr>tc_depleted := b\<rparr>) = ipb t" "ipb (t\<lparr>tc_park_wake := b\<rparr>) = ipb t"
  "ipb (t\<lparr>tc_sc_donor := d\<rparr>) = ipb t" "ipb (t\<lparr>tc_sc_donee := d\<rparr>) = ipb t" "ipb (t\<lparr>tc_cyc := cy\<rparr>) = ipb t" "ipb (t\<lparr>tc_stamp := st\<rparr>) = ipb t"
  by (simp_all add: ipb_def)

lemma ipb_reasons:
  "gr AND BR_IPC = 0 \<Longrightarrow> ipb (t\<lparr>tc_reasons := br_insert gr (tc_reasons t)\<rparr>) = ipb t"
  "gr AND BR_IPC = 0 \<Longrightarrow> ipb (t\<lparr>tc_reasons := br_remove gr (tc_reasons t)\<rparr>) = ipb t"
  by (simp_all add: ipb_def br_has_insert br_has_remove) (simp add: br_has_def)

lemma no_ipc [simp]: "BR_BUDGET AND BR_IPC = 0" "BR_PAUSE AND BR_IPC = 0" "BR_HANDLER AND BR_IPC = 0" "BR_DEBUG AND BR_IPC = 0" "BR_FREEZE AND BR_IPC = 0"
  by (simp_all add: br_defs)

definition sip :: "Scheduler \<Rightarrow> Scheduler \<Rightarrow> bool" where
  "sip s s' \<longleftrightarrow> sc_core s' = sc_core s \<and> map ipb (sc_tcbs s') = map ipb (sc_tcbs s)"

definition ip1 :: "Scheduler \<Rightarrow> Scheduler option \<Rightarrow> bool" where
  "ip1 s r \<longleftrightarrow> (\<forall>s'. r = Some s' \<longrightarrow> sip s s')"

definition ip2 :: "Scheduler \<Rightarrow> (Scheduler \<times> 'a) option \<Rightarrow> bool" where
  "ip2 s r \<longleftrightarrow> (\<forall>s' x. r = Some (s', x) \<longrightarrow> sip s s')"

lemma sip_refl [simp]: "sip s s"
  by (simp add: sip_def)

lemma sip_trans: "sip s t \<Longrightarrow> sip t u \<Longrightarrow> sip s u"
  by (simp add: sip_def)

lemma sip_fields [simp]:
  "sip s (s'\<lparr>sc_current := c\<rparr>) = sip s s'" "sip s (s'\<lparr>sc_queues := q\<rparr>) = sip s s'" "sip s (s'\<lparr>sc_bitmap := b\<rparr>) = sip s s'" "sip s (s'\<lparr>sc_now := n\<rparr>) = sip s s'"
  "sip s (s'\<lparr>sc_depletions := n\<rparr>) = sip s s'" "sip s (s'\<lparr>sc_refills := n\<rparr>) = sip s s'" "sip s (s'\<lparr>sc_cyc_core := cy\<rparr>) = sip s s'"
  "sip s (s'\<lparr>sc_depleted_count := n\<rparr>) = sip s s'" "sip s (s'\<lparr>sc_budget_blocked_count := n\<rparr>) = sip s s'"
  by (simp_all add: sip_def)

named_theorems ip_rules \<open>operations that leave the IPC waits alone\<close>

lemma ip_Some [simp]: "ip1 s (Some s') = sip s s'" "ip2 s (Some (s', x)) = sip s s'" "ip1 s None" "ip2 s None"
  by (simp_all add: ip1_def ip2_def)

lemma ip_bind1: "ip1 s r \<Longrightarrow> (\<And>s'. sip s s' \<Longrightarrow> ip1 s (f s')) \<Longrightarrow> ip1 s (Option.bind r f)"
  by (cases r) (auto simp: ip1_def)

lemma ip_bind12: "ip1 s r \<Longrightarrow> (\<And>s'. sip s s' \<Longrightarrow> ip2 s (f s')) \<Longrightarrow> ip2 s (Option.bind r f)"
  by (cases r) (auto simp: ip1_def)

lemma ip_bind21: "ip2 s r \<Longrightarrow> (\<And>s' x. sip s s' \<Longrightarrow> ip1 s (f (s', x))) \<Longrightarrow> ip1 s (Option.bind r f)"
  by (cases r) (auto simp: ip2_def)

lemma ip_bind2: "ip2 s r \<Longrightarrow> (\<And>s' x. sip s s' \<Longrightarrow> ip2 s (f (s', x))) \<Longrightarrow> ip2 s (Option.bind r f)"
  by (cases r) (simp, metis bind.bind_lunit ip2_def surj_pair)

lemma ip_get: "(\<And>x. r = Some x \<Longrightarrow> ip1 s (f x)) \<Longrightarrow> ip1 s (Option.bind r f)" "(\<And>x. r = Some x \<Longrightarrow> ip2 s (h x)) \<Longrightarrow> ip2 s (Option.bind r h)"
  by (cases r; simp)+

lemma ip_modt: "sip s t \<Longrightarrow> (\<And>t. ipb (f t) = ipb t) \<Longrightarrow> ip1 s (modt t i f)"
proof -
  assume a: "sip s t" "\<And>t. ipb (f t) = ipb t"
  have "map ipb ((sc_tcbs t)[i := f (sc_tcbs t ! i)]) = map ipb (sc_tcbs t)" if "i < length (sc_tcbs t)"
    using a(2) that by (simp add: map_update) (metis length_map list_update_id nth_map)
  then show ?thesis using a(1) by (auto simp: modt_def ip1_def sip_def tupd_def split: Option.bind_splits if_splits)
qed

lemma ip_modq: "sip s t \<Longrightarrow> ip1 s (modq t i f)"
  by (auto simp: modq_def ip1_def split: Option.bind_splits)

lemma ip_if: "(b \<Longrightarrow> ip1 s x) \<Longrightarrow> (\<not> b \<Longrightarrow> ip1 s y) \<Longrightarrow> ip1 s (if b then x else y)"
  "(b \<Longrightarrow> ip2 s v) \<Longrightarrow> (\<not> b \<Longrightarrow> ip2 s w) \<Longrightarrow> ip2 s (if b then v else w)"
  by simp_all

lemma ip_case: "(r = None \<Longrightarrow> ip1 s x) \<Longrightarrow> (\<And>i. r = Some i \<Longrightarrow> ip1 s (f i)) \<Longrightarrow> ip1 s (case r of None \<Rightarrow> x | Some i \<Rightarrow> f i)"
  "(r = None \<Longrightarrow> ip2 s v) \<Longrightarrow> (\<And>i. r = Some i \<Longrightarrow> ip2 s (h i)) \<Longrightarrow> ip2 s (case r of None \<Rightarrow> v | Some i \<Rightarrow> h i)"
  by (cases r; simp)+

lemmas ip_comp = ip_if ip_case ip_modt ip_modq ip_bind1 ip_bind12 ip_bind2 ip_bind21

lemma ip_lists [ip_rules]: "sip s t \<Longrightarrow> ip1 s (enqueue_ready t i)" "sip s t \<Longrightarrow> ip1 s (remove_from_ready t i)"
  unfolding enqueue_ready_def remove_from_ready_def Let_def by (rule ip_comp | simp only: prod.case | rule ip_get | simp)+

lemma ip_dequeue [ip_rules]: "sip s t \<Longrightarrow> ip2 s (dequeue_highest t)"
  unfolding dequeue_highest_def Let_def by (rule ip_comp ip_rules | simp only: prod.case | rule ip_get | simp)+

lemma ip_choice [ip_rules]: "sip s t \<Longrightarrow> ip2 s (run_next t)" "sip s t \<Longrightarrow> ip1 s (wecke_falls_lauffaehig t i)"
  unfolding run_next_def wecke_falls_lauffaehig_def Let_def by (rule ip_comp ip_rules | simp only: prod.case | rule ip_get | simp)+

lemma ip_bb [ip_rules]: "sip s t \<Longrightarrow> ip1 s (set_budget_blocked t i an)"
  unfolding set_budget_blocked_def Let_def
  by (rule ip_comp ip_rules | simp only: prod.case | rule ip_get | simp add: ipb_reasons)+

lemma ip_cycles [ip_rules]: "sip s t \<Longrightarrow> ip1 s (charge_current t core now)" "sip s t \<Longrightarrow> ip1 s (stamp_current t core now)"
  unfolding charge_current_def stamp_current_def Let_def by (rule ip_comp ip_rules | simp only: prod.case | rule ip_get | simp)+

lemma ip_clear [ip_rules]: "sip s t \<Longrightarrow> ip1 s (clear_donee t d i)"
  unfolding clear_donee_def Let_def by (rule ip_comp ip_rules | simp only: prod.case | rule ip_get | simp)+

lemma ip_end_donation [ip_rules]: "sip s t \<Longrightarrow> ip1 s (end_donation t)"
  unfolding end_donation_def Let_def by (rule ip_comp ip_rules | simp only: prod.case | rule ip_get | simp)+

lemma ip_charge_tick [ip_rules]: "sip s t \<Longrightarrow> ip2 s (charge_tick t a)"
  unfolding charge_tick_def Let_def by (rule ip_comp ip_rules | simp only: prod.case | rule ip_get | simp)+

lemma ip_retire [ip_rules]: "sip s t \<Longrightarrow> ip1 s (retire_current t frame tick)"
  unfolding retire_current_def Let_def by (rule ip_comp ip_rules | simp only: prod.case | rule ip_get | simp)+

lemma ip_wake_donee [ip_rules]: "sip s t \<Longrightarrow> ip1 s (wake_donee slot d t)"
  unfolding wake_donee_def Let_def by (rule ip_comp ip_rules | simp only: prod.case | rule ip_get | simp)+

lemma ip_for: "(\<And>i t. sip s t \<Longrightarrow> ip1 s (f i t)) \<Longrightarrow> sip s t \<Longrightarrow> ip1 s (for_slots f is' t)"
proof (induction is' arbitrary: t)
  case (Cons i is')
  show ?case
  proof (cases "f i t")
    case (Some u)
    then show ?thesis using Cons.prems(1) [OF Cons.prems(2), of i] Cons.IH [OF Cons.prems(1), of u] by simp
  qed simp
qed simp

lemma ip_wake_donees [ip_rules]: "sip s t \<Longrightarrow> ip1 s (wake_donees slot t)"
  unfolding wake_donees_def by (auto intro: ip_for ip_wake_donee)

lemma ip_refill_one [ip_rules]: "sip s t \<Longrightarrow> ip1 s (refill_one i t)"
  unfolding refill_one_def Let_def by (rule ip_comp ip_rules | simp only: prod.case | rule ip_get | simp)+

lemma ip_refill [ip_rules]: "sip s t \<Longrightarrow> ip1 s (refill_depleted t)"
  unfolding refill_depleted_def by (rule ip_for) (auto intro: ip_refill_one)

lemma ip_on_tick [ip_rules]: "sip s t \<Longrightarrow> ip2 s (on_tick t frame tick)"
  unfolding on_tick_def Let_def by (rule ip_comp ip_rules | simp only: prod.case | rule ip_get | simp)+

lemma ip_stop: "gr AND BR_IPC = 0 \<Longrightarrow> ip2 s (stop_for g s tid gr)"
  unfolding stop_for_def Let_def by (rule ip_comp ip_rules | simp only: prod.case | rule ip_get | simp add: ipb_reasons)+

lemma ip_lift: "gr AND BR_IPC = 0 \<Longrightarrow> ip2 s (lift_reason g s tid gr)"
  unfolding lift_reason_def Let_def by (rule ip_comp ip_rules | simp only: prod.case | rule ip_get | simp add: ipb_reasons)+

lemma ip_quiet: "ip2 s (on_tick s frame tick)" "ip2 s (pause g s tid)" "ip2 s (resume g s tid)"
  by (simp_all add: pause_def resume_def ip_stop ip_lift ip_on_tick)

section \<open>Who waits\<close>

lemma resolve_ident:
  assumes "sc_core s' = sc_core s" "map ident (sc_tcbs s') = map ident (sc_tcbs s)"
  shows "sch_resolve g s' t = sch_resolve g s t"
proof -
  have l: "length (sc_tcbs s') = length (sc_tcbs s)" using assms(2) by (metis length_map)
  have "ident (sc_tcbs s' ! i) = ident (sc_tcbs s ! i)" if "i < length (sc_tcbs s)" for i
    using assms(2) that l by (metis nth_map)
  then have "tc_used (sc_tcbs s' ! i) = tc_used (sc_tcbs s ! i) \<and> tc_gen (sc_tcbs s' ! i) = tc_gen (sc_tcbs s ! i)" if "i < length (sc_tcbs s)" for i
    using that by (simp add: ident_def)
  then show ?thesis using assms(1) l by (auto simp: sch_resolve_def tcb_def tget_def split: Option.bind_splits)
qed

lemma waits_iff: "wartet_auf_ipc g s t \<longleftrightarrow> (\<exists>i. sch_resolve g s t = Some i \<and> br_has (tc_reasons (sc_tcbs s ! i)) BR_IPC)"
  using resolve_in [of g s t] by (auto simp: wartet_auf_ipc_def has_reason_def of_tid_def tcb_in split: option.splits)

lemma sip_same:
  assumes "sip s s'"
  shows "sch_resolve g s' t = sch_resolve g s t" "wartet_auf_ipc g s' t = wartet_auf_ipc g s t"
proof -
  have m: "map ipb (sc_tcbs s') = map ipb (sc_tcbs s)" "sc_core s' = sc_core s" using assms by (simp_all add: sip_def)
  from m(1) have "map fst (map ipb (sc_tcbs s')) = map fst (map ipb (sc_tcbs s))" by simp
  then have "map ident (sc_tcbs s') = map ident (sc_tcbs s)" by (simp add: ipb_def comp_def)
  then show r: "sch_resolve g s' t = sch_resolve g s t" using resolve_ident m(2) by blast
  have "br_has (tc_reasons (sc_tcbs s' ! i)) BR_IPC = br_has (tc_reasons (sc_tcbs s ! i)) BR_IPC" if "sch_resolve g s t = Some i" for i
  proof -
    have "i < length (sc_tcbs s)" "length (sc_tcbs s') = length (sc_tcbs s)" using resolve_in [OF that] m(1) by (auto dest: map_eq_imp_length_eq)
    then have "ipb (sc_tcbs s' ! i) = ipb (sc_tcbs s ! i)" using m(1) by (metis nth_map)
    then show ?thesis by (simp add: ipb_def)
  qed
  then show "wartet_auf_ipc g s' t = wartet_auf_ipc g s t" by (auto simp: waits_iff r)
qed

text \<open>A change of one thread's reasons.\<close>

lemma modt_waits:
  assumes "modt s i f = Some s1" "\<And>t. ident (f t) = ident t"
  shows "sch_resolve g s1 t = sch_resolve g s t"
    "wartet_auf_ipc g s1 t \<longleftrightarrow> (if sch_resolve g s t = Some i then br_has (tc_reasons (f (sc_tcbs s ! i))) BR_IPC else wartet_auf_ipc g s t)"
proof -
  have i: "i < length (sc_tcbs s)" "s1 = s\<lparr>sc_tcbs := (sc_tcbs s)[i := f (sc_tcbs s ! i)]\<rparr>"
    using assms(1) by (auto simp: modt_def tupd_def split: if_splits Option.bind_splits)
  have "out1 True s (modt s i f)" by (rule out_modt [OF outside_refl]) (rule assms(2))
  then have "outside True s s1" unfolding assms(1) by simp
  then show r: "sch_resolve g s1 t = sch_resolve g s t" unfolding outside_def by (intro resolve_ident) simp_all
  show "wartet_auf_ipc g s1 t \<longleftrightarrow> (if sch_resolve g s t = Some i then br_has (tc_reasons (f (sc_tcbs s ! i))) BR_IPC else wartet_auf_ipc g s t)"
  proof (cases "sch_resolve g s t")
    case (Some j)
    then have "sch_resolve g s1 t = Some j" "sc_tcbs s1 = (sc_tcbs s)[i := f (sc_tcbs s ! i)]" using r i(2) by simp_all
    then show ?thesis using Some i(1) by (cases "j = i") (simp_all add: waits_iff)
  qed (simp add: waits_iff r)
qed

lemma bind_SomeE:
  assumes "Option.bind r f = Some y"
  obtains x where "r = Some x" "f x = Some y"
  using assms by (cases r) simp_all

lemma block_waits:
  assumes "block_current s frame = Some (s', nx)"
  obtains cur where "sc_current s = Some cur" "\<And>g t. sch_resolve g s' t = sch_resolve g s t"
    "\<And>g t. wartet_auf_ipc g s' t \<longleftrightarrow> wartet_auf_ipc g s t \<or> sch_resolve g s t = Some cur"
proof -
  let ?f = "\<lambda>t :: Tcb. t\<lparr>tc_sp := frame, tc_reasons := br_insert BR_IPC (tc_reasons t)\<rparr>"
  obtain cur s1 where c: "sc_current s = Some cur" "modt s cur ?f = Some s1" "run_next s1 = Some (s', nx)"
    using assms by (auto simp: block_current_def block_current_mit_def split: Option.bind_splits)
  have "sip s1 s'" using ip_choice(1) [OF sip_refl, of s1] c(3) by (simp add: ip2_def)
  note S = sip_same [OF this]
  note M = modt_waits [OF c(2), simplified]
  have "br_has BR_IPC BR_IPC" by (simp add: br_has_def br_defs)
  then show thesis using c(1) S M by (intro that [of cur]) (auto simp: br_has_insert)
qed

lemma switch_waits:
  assumes "switch_to g s frame tid = Some (s', nx)"
  obtains cur i where "sc_current s = Some cur" "sch_resolve g s tid = Some i" "\<And>g t. sch_resolve g s' t = sch_resolve g s t"
    "\<And>g t. i \<noteq> cur \<Longrightarrow> wartet_auf_ipc g s' t \<longleftrightarrow> sch_resolve g s t \<noteq> Some i \<and> (wartet_auf_ipc g s t \<or> sch_resolve g s t = Some cur)"
proof -
  let ?f = "\<lambda>t :: Tcb. t\<lparr>tc_sp := frame, tc_reasons := br_insert BR_IPC (tc_reasons t)\<rparr>"
  let ?h = "\<lambda>t :: Tcb. t\<lparr>tc_reasons := br_remove BR_IPC (tc_reasons t)\<rparr>"
  obtain cur s1 i s2 where c: "sc_current s = Some cur" "modt s cur ?f = Some s1" "sch_resolve g s1 tid = Some i" "modt s1 i ?h = Some s2"
    and r: "ip2 s2 (Some (s', nx))"
  proof -
    obtain cur s1 i s2 tt where c: "sc_current s = Some cur" "modt s cur ?f = Some s1" "sch_resolve g s1 tid = Some i" "modt s1 i ?h = Some s2" "tcb s2 i = Some tt"
      and rest: "(if tc_reasons tt \<noteq> 0 then run_next s2
         else do {
           s3 \<leftarrow> remove_from_ready s2 i;
           tc \<leftarrow> tcb s3 cur;
           let account = (case tc_sc_donor tc of None \<Rightarrow> cur | Some a \<Rightarrow> a);
           s4 \<leftarrow> modt s3 i (\<lambda>t. t\<lparr>tc_sc_donor := Some account\<rparr>);
           s5 \<leftarrow> modt s4 account (\<lambda>a. a\<lparr>tc_sc_donee := Some i\<rparr>);
           let s6 = s5\<lparr>sc_current := Some i\<rparr>;
           tt' \<leftarrow> tcb s6 i;
           Some (s6, tc_sp tt')
         }) = Some (s', nx)"
      using assms unfolding switch_to_def by (elim bind_SomeE) (rule that, assumption+)
    have "ip2 s2 (Some (s', nx))" unfolding rest [symmetric] Let_def
      by (rule ip_comp ip_rules | simp only: prod.case | rule ip_get | simp)+
    then show thesis using c that by blast
  qed
  note S = sip_same [OF r [simplified]]
  note M = modt_waits [OF c(2), simplified] and N = modt_waits [OF c(4), simplified]
  have "br_has BR_IPC BR_IPC" by (simp add: br_has_def br_defs)
  then show thesis using c(1,3) S M N by (intro that [of cur i]) (auto simp: br_has_insert)
qed

lemma unblock_waits:
  assumes "unblock g s tid = Some (s', b)"
  shows "\<And>g t. sch_resolve g s' t = sch_resolve g s t"
    "\<And>t. wartet_auf_ipc g s' t \<longleftrightarrow> wartet_auf_ipc g s t \<and> \<not> (sch_resolve g s tid \<noteq> None \<and> sch_resolve g s t = sch_resolve g s tid)"
    "b \<longleftrightarrow> sch_resolve g s tid \<noteq> None"
proof -
  let ?h = "\<lambda>t :: Tcb. t\<lparr>tc_reasons := br_remove BR_IPC (tc_reasons t)\<rparr>"
  have *: "(\<forall>g t. sch_resolve g s' t = sch_resolve g s t) \<and>
    (\<forall>t. wartet_auf_ipc g s' t \<longleftrightarrow> wartet_auf_ipc g s t \<and> \<not> (sch_resolve g s tid \<noteq> None \<and> sch_resolve g s t = sch_resolve g s tid)) \<and>
    (b \<longleftrightarrow> sch_resolve g s tid \<noteq> None)"
  proof (cases "sch_resolve g s tid")
    case None
    then show ?thesis using assms by (simp add: unblock_def)
  next
    case (Some i)
    have il: "i < length (sc_tcbs s)" using resolve_in [OF Some] by simp
    show ?thesis
    proof (cases "tc_reasons (sc_tcbs s ! i) = 0")
      case True
      then have "s' = s" "b" using assms Some il by (auto simp: unblock_def tcb_in)
      then show ?thesis using Some True by (auto simp: waits_iff)
    next
      case False
      define s1 where "s1 = s\<lparr>sc_tcbs := (sc_tcbs s)[i := ?h (sc_tcbs s ! i)]\<rparr>"
      have m: "modt s i ?h = Some s1" using il by (simp add: modt_in s1_def)
      have "b \<and> sip s1 s'"
        using assms Some False il ip_bb [OF sip_refl, of s1 i True] ip_lists(1) [OF sip_refl, of s1 i]
        by (auto simp: unblock_def tcb_in m Let_def ip1_def split: option.splits if_splits Option.bind_splits)
      then have b: "b" "sip s1 s'" by simp_all
      note S = sip_same [OF b(2)] and M = modt_waits [OF m, simplified]
      show ?thesis using S M b(1) Some by auto
    qed
  qed
  then show "\<And>g t. sch_resolve g s' t = sch_resolve g s t"
    "\<And>t. wartet_auf_ipc g s' t \<longleftrightarrow> wartet_auf_ipc g s t \<and> \<not> (sch_resolve g s tid \<noteq> None \<and> sch_resolve g s t = sch_resolve g s tid)"
    "b \<longleftrightarrow> sch_resolve g s tid \<noteq> None" by blast+
qed

end
