(* ===== verification/KernelSched.thy ===== *)
theory KernelSched
  imports IpcContract SchedIpc
begin

text \<open>
  \<open>KernelSched\<close> (\<open>kernel/src/system.rs\<close>): the scheduler operations the IPC layer is given in the kernel,
  over the schedulers of all cores. They satisfy the contract \<open>ipc_sched\<close>, so that endpoints and schedulers
  agree in every state that endpoint operations and preemption reach together. A kernel that panicked is
  \<open>None\<close>. The interrupt that \<open>kick\<close> sends to another core changes no state and is left out.
\<close>

section \<open>The facade\<close>

definition MIGRATION_RETRIES :: nat where "MIGRATION_RETRIES = 4"

definition on_core :: "Cores \<Rightarrow> nat \<Rightarrow> (Statics \<Rightarrow> Scheduler \<Rightarrow> (Scheduler \<times> 'a) option) \<Rightarrow> (Cores \<times> 'a) option" where
  "on_core c k f = do {
     s \<leftarrow> tget (cs_scheds c) k;
     (s1, r) \<leftarrow> f (cs_g c) s;
     Some (c\<lparr>cs_scheds := (cs_scheds c)[k := s1]\<rparr>, r)
   }"

definition charged :: "u64 \<Rightarrow> nat \<Rightarrow> (Scheduler \<Rightarrow> (Scheduler \<times> 'a) option) \<Rightarrow> Scheduler \<Rightarrow> (Scheduler \<times> 'a) option" where
  "charged now core f s = do {
     s1 \<leftarrow> charge_current s core now;
     (s2, r) \<leftarrow> f s1;
     s3 \<leftarrow> stamp_current s2 core now;
     Some (s3, r)
   }"

primrec with_owner_loop :: "nat \<Rightarrow> Cores \<Rightarrow> ThreadId \<Rightarrow> (Statics \<Rightarrow> Scheduler \<Rightarrow> (Scheduler \<times> 'a option) option) \<Rightarrow> (Cores \<times> ('a \<times> nat) option) option" where
  "with_owner_loop 0 c tid f = Some (c, None)"
| "with_owner_loop (Suc n) c tid f =
     (case owner_core (cs_g c) tid of
        None \<Rightarrow> Some (c, None)
      | Some k \<Rightarrow>
          if k \<ge> length (cs_scheds c) then Some (c, None)
          else do {
            (c1, attempt) \<leftarrow> on_core c k f;
            case attempt of
              Some r \<Rightarrow> Some (c1, Some (r, k))
            | None \<Rightarrow>
                (case owner_core (cs_g c1) tid of
                   Some k2 \<Rightarrow> if k2 \<noteq> k then with_owner_loop n c1 tid f else Some (c1, None)
                 | None \<Rightarrow> Some (c1, None))
          })"

definition with_owner :: "Cores \<Rightarrow> ThreadId \<Rightarrow> (Statics \<Rightarrow> Scheduler \<Rightarrow> (Scheduler \<times> 'a option) option) \<Rightarrow> (Cores \<times> ('a \<times> nat) option) option" where
  "with_owner c tid f = with_owner_loop MIGRATION_RETRIES c tid f"

text \<open>A question to the owner of a thread.\<close>

definition ask_owner :: "Cores \<Rightarrow> ThreadId \<Rightarrow> (Statics \<Rightarrow> Scheduler \<Rightarrow> 'a option) \<Rightarrow> 'a option" where
  "ask_owner c tid q = (case with_owner c tid (\<lambda>g s. Some (s, q g s)) of Some (_, Some (r, _)) \<Rightarrow> Some r | _ \<Rightarrow> None)"

text \<open>\<open>.then_some(())\<close>\<close>

definition then_some :: "(Scheduler \<times> bool) option \<Rightarrow> (Scheduler \<times> unit option) option" where
  "then_some r = map_option (\<lambda>(s, b). (s, if b then Some () else None)) r"

text \<open>\<open>current_id\<close> panics on a core that runs nothing; the value there is arbitrary.\<close>

definition kernel_current :: "Cores \<Rightarrow> nat \<Rightarrow> ThreadId" where
  "kernel_current c core = (case Option.bind (tget (cs_scheds c) core) sch_current_id of Some t \<Rightarrow> t | None \<Rightarrow> \<lparr>t_slot = 0, t_gen = 0\<rparr>)"

definition kernel_ops :: "u64 \<Rightarrow> Cores option SchedOps" where
  "kernel_ops now =
     \<lparr>so_current_id = (\<lambda>w core. case w of Some c \<Rightarrow> kernel_current c core | None \<Rightarrow> \<lparr>t_slot = 0, t_gen = 0\<rparr>),
      so_frame_of = (\<lambda>w tid. do { c \<leftarrow> w; ask_owner c tid (\<lambda>g s. sch_frame_of g s tid) }),
      so_wartet_auf_ipc = (\<lambda>w tid. do { c \<leftarrow> w; ask_owner c tid (\<lambda>g s. Some (wartet_auf_ipc g s tid)) } = Some True),
      so_owner_core = (\<lambda>w tid. do { c \<leftarrow> w; owner_core (cs_g c) tid }),
      so_block_current = (\<lambda>w core frame.
        case do { c \<leftarrow> w; on_core c core (\<lambda>g. charged now core (\<lambda>s. block_current s frame)) } of
          Some (c, nx) \<Rightarrow> (Some c, nx) | None \<Rightarrow> (None, 0)),
      so_switch_to = (\<lambda>w core frame tid.
        case do { c \<leftarrow> w; on_core c core (\<lambda>g. charged now core (\<lambda>s. switch_to g s frame tid)) } of
          Some (c, nx) \<Rightarrow> (Some c, nx) | None \<Rightarrow> (None, 0)),
      so_unblock = (\<lambda>w tid. do { c \<leftarrow> w; (c1, _) \<leftarrow> with_owner c tid (\<lambda>g s. then_some (unblock g s tid)); Some c1 }),
      so_end_donation = (\<lambda>w core. do { c \<leftarrow> w; (c1, _) \<leftarrow> on_core c core (\<lambda>g s. map_option (\<lambda>s1. (s1, ())) (end_donation s)); Some c1 })\<rparr>"

section \<open>Owners\<close>

text \<open>Between the two lookups of the loop the directory does not change, so one round decides.\<close>

lemma with_owner_eq:
  "with_owner c tid f =
     (case owner_core (cs_g c) tid of
        None \<Rightarrow> Some (c, None)
      | Some k \<Rightarrow> if k \<ge> length (cs_scheds c) then Some (c, None)
                  else map_option (\<lambda>(c1, r). (c1, map_option (\<lambda>x. (x, k)) r)) (on_core c k f))"
proof -
  have g: "on_core c k f = Some (c1, r) \<Longrightarrow> cs_g c1 = cs_g c" for k c1 r
    by (auto simp: on_core_def split: Option.bind_splits)
  have e: "MIGRATION_RETRIES = Suc 3" by (simp add: MIGRATION_RETRIES_def)
  show ?thesis unfolding with_owner_def e with_owner_loop.simps
    using g by (auto split: option.splits Option.bind_splits)
qed

definition waits_c :: "Cores \<Rightarrow> ThreadId \<Rightarrow> bool" where
  "waits_c c t \<longleftrightarrow> (\<exists>k<length (cs_scheds c). wartet_auf_ipc (cs_g c) (cs_scheds c ! k) t)"

definition live_c :: "Cores \<Rightarrow> ThreadId \<Rightarrow> bool" where
  "live_c c t \<longleftrightarrow> (\<exists>k<length (cs_scheds c). sch_resolve (cs_g c) (cs_scheds c ! k) t \<noteq> None)"

lemma resolve_owner:
  assumes "cores_inv c" "k < length (cs_scheds c)" "sch_resolve (cs_g c) (cs_scheds c ! k) t = Some i"
  shows "owner_core (cs_g c) t = Some k"
  using resolve_core [OF assms(3)] cores_invD(4) [OF assms(1,2)] by simp

lemma ask_owner_eq:
  "ask_owner c tid q = (case owner_core (cs_g c) tid of None \<Rightarrow> None | Some k \<Rightarrow> if k < length (cs_scheds c) then q (cs_g c) (cs_scheds c ! k) else None)"
  by (auto simp: ask_owner_def with_owner_eq on_core_def tget_def split: option.splits)

lemma ex_owner:
  assumes "\<And>k. P k \<Longrightarrow> own = Some k"
  shows "(\<exists>k. P k) \<longleftrightarrow> (case own of None \<Rightarrow> False | Some k \<Rightarrow> P k)"
proof (cases own)
  case None
  then show ?thesis using assms by auto
next
  case (Some j)
  then show ?thesis using assms by (metis option.inject option.simps(5))
qed

lemma by_owner:
  assumes "cores_inv c"
  shows "waits_c c t \<longleftrightarrow> (case owner_core (cs_g c) t of None \<Rightarrow> False | Some k \<Rightarrow> k < length (cs_scheds c) \<and> wartet_auf_ipc (cs_g c) (cs_scheds c ! k) t)"
    "live_c c t \<longleftrightarrow> (case owner_core (cs_g c) t of None \<Rightarrow> False | Some k \<Rightarrow> k < length (cs_scheds c) \<and> sch_resolve (cs_g c) (cs_scheds c ! k) t \<noteq> None)"
  unfolding waits_c_def live_c_def
  by (rule ex_owner; use resolve_owner [OF assms] in \<open>auto simp: waits_iff\<close>)+

lemma kernel_waits:
  assumes "cores_inv c"
  shows "so_wartet_auf_ipc (kernel_ops now) (Some c) t = waits_c c t"
  unfolding by_owner(1) [OF assms] by (simp add: kernel_ops_def ask_owner_eq split: option.splits)

lemma frame_resolve: "sch_frame_of g s t \<noteq> None \<longleftrightarrow> sch_resolve g s t \<noteq> None"
  using resolve_in [of g s t] by (cases "sch_resolve g s t") (simp_all add: sch_frame_of_def of_tid_def tcb_in)

lemma kernel_live:
  assumes "cores_inv c"
  shows "so_frame_of (kernel_ops now) (Some c) t \<noteq> None \<longleftrightarrow> live_c c t"
  unfolding by_owner(2) [OF assms] frame_resolve [symmetric] by (simp add: kernel_ops_def ask_owner_eq split: option.splits)

text \<open>The scheduler of one core changes, and the tables stay.\<close>

lemma local_inv:
  assumes "cores_inv c" "k < length (cs_scheds c)" "sch_step (cs_g c) (cs_scheds c ! k) (cs_g c) s'"
  shows "cores_inv (c\<lparr>cs_scheds := (cs_scheds c)[k := s']\<rparr>)"
  using cores.step_inv [OF assms(1) cs_local [OF assms(2,3)]] by simp

lemma local_waits:
  assumes "cores_inv c" "k < length (cs_scheds c)" "cores_inv (c\<lparr>cs_scheds := (cs_scheds c)[k := s']\<rparr>)"
    and "\<And>t. sch_resolve (cs_g c) s' t = sch_resolve (cs_g c) (cs_scheds c ! k) t"
  shows "live_c (c\<lparr>cs_scheds := (cs_scheds c)[k := s']\<rparr>) t = live_c c t"
    "waits_c (c\<lparr>cs_scheds := (cs_scheds c)[k := s']\<rparr>) t \<longleftrightarrow>
       (if owner_core (cs_g c) t = Some k then wartet_auf_ipc (cs_g c) s' t else waits_c c t)"
  unfolding by_owner [OF assms(1)] by_owner [OF assms(3)]
  using assms(2,4) by (auto simp: nth_list_update split: option.splits)

text \<open>A handle on a core is the handle of exactly one thread.\<close>

lemma handle_unique:
  assumes "cores_inv c" "k < length (cs_scheds c)" "sch_resolve (cs_g c) (cs_scheds c ! k) t = Some i"
  shows "sch_id (cs_scheds c ! k) i = Some t"
  using resolve_in [OF assms(3)] resolve_gid [OF cores_invD(7) [OF assms(1,2)] assms(3)] by (simp add: sch_id_def tcb_in)

lemma current_handle:
  assumes "cores_inv c" "k < length (cs_scheds c)" "sc_current (cs_scheds c ! k) = Some cur"
  shows "sch_resolve (cs_g c) (cs_scheds c ! k) (kernel_current c k) = Some cur"
    "sch_resolve (cs_g c) (cs_scheds c ! k) t = Some cur \<longleftrightarrow> t = kernel_current c k"
    "\<not> wartet_auf_ipc (cs_g c) (cs_scheds c ! k) (kernel_current c k)"
proof -
  let ?g = "cs_g c" and ?s = "cs_scheds c ! k"
  have S: "sinv ?g ?s" using cores_invD(5) [OF assms(1,2)] .
  have cl: "cur < length (sc_tcbs ?s)" using sinvD(5) [OF S assms(3)] .
  have c: "tc_used (sc_tcbs ?s ! cur)" "\<not> br_has (tc_reasons (sc_tcbs ?s ! cur)) BR_IPC" using sinvD(2) [OF S] assms(3) by (auto simp: cur_ok_def)
  have k: "kernel_current c k = \<lparr>t_slot = unat (tc_gid (sc_tcbs ?s ! cur)), t_gen = tc_gen (sc_tcbs ?s ! cur)\<rparr>"
    using assms(2,3) cl by (simp add: kernel_current_def tget_def sch_current_id_def sch_id_def tcb_in)
  show r: "sch_resolve ?g ?s (kernel_current c k) = Some cur" unfolding k by (rule resolve_id [OF sinvD(1) [OF S] cl c(1)])
  show "sch_resolve ?g ?s t = Some cur \<longleftrightarrow> t = kernel_current c k"
    using r handle_unique [OF assms(1,2)] by (metis option.inject)
  show "\<not> wartet_auf_ipc ?g ?s (kernel_current c k)" using r c(2) by (simp add: waits_iff)
qed

section \<open>The contract\<close>

lemma modt_current: "modt s i f = Some s' \<Longrightarrow> sc_current s' = sc_current s"
  by (auto simp: modt_def split: Option.bind_splits)

lemma charge_keeps_current: "charge_current s core now = Some s' \<Longrightarrow> sc_current s' = sc_current s"
  by (auto simp: charge_current_def Let_def dest!: modt_current split: option.splits Option.bind_splits)

lemma charged_parts:
  assumes "charged now core f s = Some (s', r)"
  obtains s1 s2 where "charge_current s core now = Some s1" "f s1 = Some (s2, r)" "stamp_current s2 core now = Some s'"
    "sip s s1" "sip s2 s'" "sc_current s1 = sc_current s"
proof -
  obtain s1 s2 where e: "charge_current s core now = Some s1" "f s1 = Some (s2, r)" "stamp_current s2 core now = Some s'"
    using assms by (auto simp: charged_def split: Option.bind_splits)
  have "sip s s1" "sip s2 s'" using ip_cycles [OF sip_refl] e(1,3) by (metis ip_Some(1))+
  then show thesis using that e charge_keeps_current [OF e(1)] by blast
qed

lemma on_core_SomeD:
  assumes "on_core c k f = Some (c', r)"
  obtains s' where "k < length (cs_scheds c)" "f (cs_g c) (cs_scheds c ! k) = Some (s', r)" "c' = c\<lparr>cs_scheds := (cs_scheds c)[k := s']\<rparr>"
  using assms by (auto simp: on_core_def tget_def split: Option.bind_splits if_splits)

lemma charged_inv:
  assumes "cores_inv c" "k < length (cs_scheds c)" "charged now k f (cs_scheds c ! k) = Some (s', r)"
    and "\<And>s1 s2 r. f s1 = Some (s2, r) \<Longrightarrow> sch_step (cs_g c) s1 (cs_g c) s2"
  shows "cores_inv (c\<lparr>cs_scheds := (cs_scheds c)[k := s']\<rparr>)"
proof -
  obtain s1 s2 where e: "charge_current (cs_scheds c ! k) k now = Some s1" "f s1 = Some (s2, r)" "stamp_current s2 k now = Some s'"
    using charged_parts [OF assms(3)] by blast
  have c1: "cores_inv (c\<lparr>cs_scheds := (cs_scheds c)[k := s1]\<rparr>)" by (rule local_inv [OF assms(1,2) st_charge [OF e(1)]])
  have c2: "cores_inv (c\<lparr>cs_scheds := (cs_scheds c)[k := s2]\<rparr>)" using local_inv [OF c1, of k s2] assms(2) assms(4) [OF e(2)] by simp
  show ?thesis using local_inv [OF c2, of k s'] assms(2) st_stamp [OF e(3)] by simp
qed

definition kinv :: "Cores option \<Rightarrow> bool" where
  "kinv w \<longleftrightarrow> (\<exists>c. w = Some c \<and> cores_inv c)"

text \<open>The core runs a thread.\<close>

definition kactive :: "Cores option \<Rightarrow> nat \<Rightarrow> bool" where
  "kactive w k \<longleftrightarrow> (\<exists>c. w = Some c \<and> k < length (cs_scheds c) \<and> sc_current (cs_scheds c ! k) \<noteq> None)"

lemma kernel_sel:
  "so_current_id (kernel_ops now) (Some c) k = kernel_current c k"
  "so_owner_core (kernel_ops now) (Some c) t = owner_core (cs_g c) t"
  by (simp_all add: kernel_ops_def)

lemma kernel_block:
  assumes "cores_inv c" "so_block_current (kernel_ops now) (Some c) k f = (Some c', nx)"
  shows "cores_inv c' \<and> (\<forall>t. live_c c' t = live_c c t) \<and> (\<forall>t. waits_c c' t \<longleftrightarrow> waits_c c t \<or> t = kernel_current c k)"
proof -
  have "on_core c k (\<lambda>g. charged now k (\<lambda>s. block_current s f)) = Some (c', nx)"
    using assms(2) by (auto simp: kernel_ops_def split: option.splits prod.splits)
  then obtain s' where e: "k < length (cs_scheds c)" "charged now k (\<lambda>s. block_current s f) (cs_scheds c ! k) = Some (s', nx)"
    "c' = c\<lparr>cs_scheds := (cs_scheds c)[k := s']\<rparr>" by (rule on_core_SomeD)
  have c': "cores_inv c'" unfolding e(3) by (rule charged_inv [OF assms(1) e(1,2)]) (rule st_block)
  obtain s1 s2 where p: "block_current s1 f = Some (s2, nx)" "sip (cs_scheds c ! k) s1" "sip s2 s'" "sc_current s1 = sc_current (cs_scheds c ! k)"
    using charged_parts [OF e(2)] by metis
  obtain cur where b: "sc_current s1 = Some cur" "\<And>g t. sch_resolve g s2 t = sch_resolve g s1 t"
    "\<And>g t. wartet_auf_ipc g s2 t \<longleftrightarrow> wartet_auf_ipc g s1 t \<or> sch_resolve g s1 t = Some cur" using block_waits [OF p(1)] by blast
  note P = sip_same [OF p(2)] sip_same [OF p(3)]
  note C = current_handle [OF assms(1) e(1), of cur]
  note W = local_waits [OF assms(1) e(1) c' [unfolded e(3)]]
  have cur: "sc_current (cs_scheds c ! k) = Some cur" using b(1) p(4) by simp
  have own: "owner_core (cs_g c) (kernel_current c k) = Some k" using resolve_owner [OF assms(1) e(1) C(1) [OF cur]] .
  have "waits_c c' t \<longleftrightarrow> waits_c c t \<or> t = kernel_current c k" for t
    using W(2) [of t] by_owner(1) [OF assms(1), of t] C(2) [OF cur, of t] own e(1) unfolding e(3) by (auto simp: P b)
  then show ?thesis using c' W(1) by (simp add: e(3) P b(2))
qed

lemma kernel_switch:
  assumes "cores_inv c" "owner_core (cs_g c) t = Some k" "waits_c c t" "so_switch_to (kernel_ops now) (Some c) k f t = (Some c', nx)"
  shows "cores_inv c' \<and> (\<forall>u. live_c c' u = live_c c u) \<and> (\<forall>u. waits_c c' u \<longleftrightarrow> u \<noteq> t \<and> (waits_c c u \<or> u = kernel_current c k))"
proof -
  have "on_core c k (\<lambda>g. charged now k (\<lambda>s. switch_to g s f t)) = Some (c', nx)"
    using assms(4) by (auto simp: kernel_ops_def split: option.splits prod.splits)
  then obtain s' where e: "k < length (cs_scheds c)" "charged now k (\<lambda>s. switch_to (cs_g c) s f t) (cs_scheds c ! k) = Some (s', nx)"
    "c' = c\<lparr>cs_scheds := (cs_scheds c)[k := s']\<rparr>" by (rule on_core_SomeD)
  have c': "cores_inv c'" unfolding e(3) by (rule charged_inv [OF assms(1) e(1,2)]) (rule st_switch)
  obtain s1 s2 where p: "switch_to (cs_g c) s1 f t = Some (s2, nx)" "sip (cs_scheds c ! k) s1" "sip s2 s'" "sc_current s1 = sc_current (cs_scheds c ! k)"
    using charged_parts [OF e(2)] by metis
  obtain cur i where b: "sc_current s1 = Some cur" "sch_resolve (cs_g c) s1 t = Some i" "\<And>g u. sch_resolve g s2 u = sch_resolve g s1 u"
    "\<And>g u. i \<noteq> cur \<Longrightarrow> wartet_auf_ipc g s2 u \<longleftrightarrow> sch_resolve g s1 u \<noteq> Some i \<and> (wartet_auf_ipc g s1 u \<or> sch_resolve g s1 u = Some cur)"
    using switch_waits [OF p(1)] by blast
  note P = sip_same [OF p(2)] sip_same [OF p(3)]
  note C = current_handle [OF assms(1) e(1), of cur]
  note W = local_waits [OF assms(1) e(1) c' [unfolded e(3)]]
  have cur: "sc_current (cs_scheds c ! k) = Some cur" using b(1) p(4) by simp
  have own: "owner_core (cs_g c) (kernel_current c k) = Some k" using resolve_owner [OF assms(1) e(1) C(1) [OF cur]] .
  have t: "sch_resolve (cs_g c) (cs_scheds c ! k) t = Some i" "wartet_auf_ipc (cs_g c) (cs_scheds c ! k) t"
    using b(2) P(1) assms(2,3) by_owner(1) [OF assms(1), of t] by auto
  have ic: "i \<noteq> cur" using C(2,3) [OF cur] t by metis
  have un: "sch_resolve (cs_g c) (cs_scheds c ! k) u = Some i \<longleftrightarrow> u = t" for u
    using t(1) handle_unique [OF assms(1) e(1)] by (metis option.inject)
  have "waits_c c' u \<longleftrightarrow> u \<noteq> t \<and> (waits_c c u \<or> u = kernel_current c k)" for u
    using W(2) [of u] by_owner(1) [OF assms(1), of u] C(2) [OF cur, of u] own e(1) un [of u] assms(2) unfolding e(3) by (auto simp: P b(3) b(4) [OF ic])
  then show ?thesis using c' W(1) by (simp add: e(3) P b(3))
qed

lemma list_ops_current:
  "enqueue_ready s i = Some s' \<Longrightarrow> sc_current s' = sc_current s" "set_budget_blocked s i b = Some s' \<Longrightarrow> sc_current s' = sc_current s"
  by (auto simp: enqueue_ready_def set_budget_blocked_def modt_def modq_def Let_def split: Option.bind_splits if_splits)

lemma unblock_current:
  assumes "unblock g s tid = Some (s', b)"
  shows "sc_current s' = sc_current s"
  using assms by (auto simp: unblock_def Let_def dest!: list_ops_current modt_current split: option.splits Option.bind_splits if_splits)

lemma kernel_unblock:
  assumes "cores_inv c" "so_unblock (kernel_ops now) (Some c) t = w'"
  shows "\<exists>c'. w' = Some c' \<and> cores_inv c' \<and> (\<forall>u. live_c c' u = live_c c u) \<and> (\<forall>u. waits_c c' u \<longleftrightarrow> waits_c c u \<and> u \<noteq> t) \<and>
    (\<forall>k. kactive (Some c) k \<longrightarrow> kactive (Some c') k \<and> kernel_current c' k = kernel_current c k)"
proof (cases "\<exists>k. owner_core (cs_g c) t = Some k \<and> k < length (cs_scheds c)")
  case False
  then have "w' = Some c" using assms(2) by (auto simp: kernel_ops_def with_owner_eq split: option.splits)
  moreover have "\<not> waits_c c t" using by_owner(1) [OF assms(1), of t] False by (auto split: option.splits)
  ultimately show ?thesis using assms(1) by auto
next
  case True
  then obtain k where k: "owner_core (cs_g c) t = Some k" "k < length (cs_scheds c)" by blast
  let ?g = "cs_g c" and ?s = "cs_scheds c ! k"
  have S: "sinv ?g ?s" using cores_invD(5) [OF assms(1) k(2)] .
  obtain s' b where u: "unblock ?g ?s t = Some (s', b)" using unblock_keeps [OF S, of t] by (auto simp: keeps_def split: option.splits)
  define c' where "c' = c\<lparr>cs_scheds := (cs_scheds c)[k := s']\<rparr>"
  have w': "w' = Some c'" using assms(2) k u by (auto simp: kernel_ops_def with_owner_eq on_core_def tget_def then_some_def c'_def)
  have c': "cores_inv c'" unfolding c'_def by (rule local_inv [OF assms(1) k(2) st_unblock [OF u]])
  note U = unblock_waits [OF u] and W = local_waits [OF assms(1) k(2) c' [unfolded c'_def]]
  obtain i where i: "sch_resolve ?g ?s t = Some i" using owner_resolves [OF cores_invD(7) [OF assms(1) k(2)]] k cores_invD(4) [OF assms(1) k(2)] by auto
  have un: "sch_resolve ?g ?s v = Some i \<longleftrightarrow> v = t" for v using i handle_unique [OF assms(1) k(2)] by (metis option.inject)
  have "waits_c c' v \<longleftrightarrow> waits_c c v \<and> v \<noteq> t" for v
    using W(2) [of v] U(2) [of v] by_owner(1) [OF assms(1), of v] un [of v] i k unfolding c'_def by (auto simp: U(1))
  moreover have "live_c c' v = live_c c v" for v using W(1) by (simp add: c'_def U(1))
  moreover have "kactive (Some c') j \<and> kernel_current c' j = kernel_current c j" if j: "kactive (Some c) j" for j
  proof -
    have cur: "sc_current s' = sc_current ?s" using unblock_current [OF u] .
    have "outside True ?s s'" using out_unblock [OF outside_refl, of True ?s ?g t] u by (simp add: out2_def)
    then have "map ident (sc_tcbs s') = map ident (sc_tcbs ?s)" by (simp add: outside_def)
    then have id: "length (sc_tcbs s') = length (sc_tcbs ?s)" "\<And>x. x < length (sc_tcbs ?s) \<Longrightarrow> ident (sc_tcbs s' ! x) = ident (sc_tcbs ?s ! x)"
      by (metis length_map, metis length_map nth_map)
    have "sch_id s' x = sch_id ?s x" for x
      using id(1) id(2) [of x] by (cases "x < length (sc_tcbs ?s)") (auto simp: sch_id_def tcb_def tget_def ident_def)
    then have "sch_current_id s' = sch_current_id ?s" by (simp add: sch_current_id_def cur)
    then show ?thesis using j cur k(2) by (auto simp: kactive_def kernel_current_def c'_def tget_def nth_list_update)
  qed
  ultimately show ?thesis using w' c' by blast
qed

lemma donation_frames:
  assumes "end_donation s = Some s'"
  shows "sch_frame_of g s' t = sch_frame_of g s t"
proof -
  have sp: "map tc_sp (sc_tcbs s') = map tc_sp (sc_tcbs s)" "sch_resolve g s' t = sch_resolve g s t"
  proof -
    have m: "map tc_sp (sc_tcbs s2) = map tc_sp (sc_tcbs s1)" if "modt s1 i f = Some s2" "\<And>t. tc_sp (f t) = tc_sp t" for s1 s2 i f
      using that by (auto simp: modt_def tupd_def map_update intro: list_update_id split: Option.bind_splits if_splits)
        (metis list_update_id map_update)
    have cd: "map tc_sp (sc_tcbs s2) = map tc_sp (sc_tcbs s1)" if "clear_donee s1 d i = Some s2" for s1 s2 d i
      using that m by (auto simp: clear_donee_def split: option.splits Option.bind_splits if_splits)
    show "map tc_sp (sc_tcbs s') = map tc_sp (sc_tcbs s)"
      using assms m cd by (fastforce simp: end_donation_def split: option.splits Option.bind_splits)
    have "sip s s'" using ip_end_donation [OF sip_refl, of s] assms by simp
    then show "sch_resolve g s' t = sch_resolve g s t" by (rule sip_same(1))
  qed
  show ?thesis
  proof (cases "sch_resolve g s t")
    case None
    then show ?thesis using sp(2) by (simp add: sch_frame_of_def of_tid_def)
  next
    case (Some i)
    have "i < length (sc_tcbs s)" "length (sc_tcbs s') = length (sc_tcbs s)" using resolve_in [OF Some] sp(1) by (auto dest: map_eq_imp_length_eq)
    moreover from this have "tc_sp (sc_tcbs s' ! i) = tc_sp (sc_tcbs s ! i)" using sp(1) by (metis nth_map)
    ultimately show ?thesis using Some sp(2) by (simp add: sch_frame_of_def of_tid_def tcb_in)
  qed
qed

lemma kernel_donation:
  assumes "cores_inv c" "k < length (cs_scheds c)" "so_end_donation (kernel_ops now) (Some c) k = w'"
  shows "\<exists>c'. w' = Some c' \<and> cores_inv c' \<and> so_frame_of (kernel_ops now) w' = so_frame_of (kernel_ops now) (Some c) \<and> waits_c c' = waits_c c"
proof -
  let ?g = "cs_g c" and ?s = "cs_scheds c ! k"
  have S: "sinv ?g ?s" using cores_invD(5) [OF assms(1,2)] .
  obtain s' where u: "end_donation ?s = Some s'" using end_donation_keeps [OF S] by (auto simp: keeps1_def split: option.splits)
  define c' where "c' = c\<lparr>cs_scheds := (cs_scheds c)[k := s']\<rparr>"
  have w': "w' = Some c'" using assms(2,3) u by (auto simp: kernel_ops_def on_core_def tget_def c'_def)
  have c': "cores_inv c'" unfolding c'_def by (rule local_inv [OF assms(1,2) st_end_donation [OF u]])
  have "sip ?s s'" using ip_end_donation [OF sip_refl, of ?s] u by simp
  note P = sip_same [OF this] and W = local_waits [OF assms(1,2) c' [unfolded c'_def]]
  have "waits_c c' v = waits_c c v" for v using W(2) [of v] by_owner(1) [OF assms(1), of v] assms(2) by (auto simp: c'_def P)
  moreover have "so_frame_of (kernel_ops now) w' v = so_frame_of (kernel_ops now) (Some c) v" for v
    using assms(2) donation_frames [OF u, of ?g v] by (auto simp: w' kernel_ops_def ask_owner_eq c'_def nth_list_update split: option.splits)
  ultimately show ?thesis using w' c' by blast
qed

interpretation kern: ipc_sched "kernel_ops now" kinv kactive "\<lambda>w. w = None" for now
proof
  fix s k
  assume a: "kinv s" "kactive s k"
  then obtain c cur where c: "s = Some c" "cores_inv c" "k < length (cs_scheds c)" "sc_current (cs_scheds c ! k) = Some cur" by (auto simp: kinv_def kactive_def)
  note C = current_handle [OF c(2-4)]
  have "owner_core (cs_g c) (kernel_current c k) = Some k" using resolve_owner [OF c(2,3) C(1)] .
  then show "\<not> so_wartet_auf_ipc (kernel_ops now) s (so_current_id (kernel_ops now) s k) \<and> so_frame_of (kernel_ops now) s (so_current_id (kernel_ops now) s k) \<noteq> None"
    unfolding c(1) kernel_sel kernel_waits [OF c(2)] kernel_live [OF c(2)] by_owner [OF c(2)] using C(1,3) c(3) by simp
next
  fix s k f s' nx
  assume a: "kinv s" "kactive s k" "so_block_current (kernel_ops now) s k f = (s', nx)" "s' \<noteq> None"
  then obtain c c' where c: "s = Some c" "cores_inv c" "s' = Some c'" by (auto simp: kinv_def)
  show "kinv s' \<and> (\<forall>t. (so_frame_of (kernel_ops now) s' t \<noteq> None) = (so_frame_of (kernel_ops now) s t \<noteq> None)) \<and>
      (\<forall>t. so_wartet_auf_ipc (kernel_ops now) s' t = (so_wartet_auf_ipc (kernel_ops now) s t \<or> t = so_current_id (kernel_ops now) s k))"
    using kernel_block [OF c(2), of now k f c' nx] a(3) kernel_live kernel_waits unfolding kinv_def c(1,3) kernel_sel by (simp add: c(2))
next
  fix s k t f s' nx
  assume a: "kinv s" "kactive s k" "so_owner_core (kernel_ops now) s t = Some k" "so_wartet_auf_ipc (kernel_ops now) s t"
    "so_switch_to (kernel_ops now) s k f t = (s', nx)" "s' \<noteq> None"
  then obtain c c' where c: "s = Some c" "cores_inv c" "s' = Some c'" by (auto simp: kinv_def)
  show "kinv s' \<and> (\<forall>u. (so_frame_of (kernel_ops now) s' u \<noteq> None) = (so_frame_of (kernel_ops now) s u \<noteq> None)) \<and>
      (\<forall>u. so_wartet_auf_ipc (kernel_ops now) s' u = (u \<noteq> t \<and> (so_wartet_auf_ipc (kernel_ops now) s u \<or> u = so_current_id (kernel_ops now) s k)))"
    using kernel_switch [OF c(2), of t k now f c' nx] a(3-5) kernel_live kernel_waits unfolding kinv_def c(1,3) kernel_sel by (simp add: c(2))
next
  fix s t s'
  assume a: "kinv s" "so_unblock (kernel_ops now) s t = s'"
  then obtain c where c: "s = Some c" "cores_inv c" by (auto simp: kinv_def)
  obtain c' where c': "s' = Some c'" "cores_inv c'" "\<And>u. live_c c' u = live_c c u" "\<And>u. waits_c c' u \<longleftrightarrow> waits_c c u \<and> u \<noteq> t"
    "\<And>k. kactive (Some c) k \<Longrightarrow> kactive (Some c') k \<and> kernel_current c' k = kernel_current c k"
    using kernel_unblock [OF c(2), of now t s'] a(2) unfolding c(1) by blast
  show "kinv s' \<and> (\<forall>u. (so_frame_of (kernel_ops now) s' u \<noteq> None) = (so_frame_of (kernel_ops now) s u \<noteq> None)) \<and>
      (\<forall>u. so_wartet_auf_ipc (kernel_ops now) s' u = (so_wartet_auf_ipc (kernel_ops now) s u \<and> u \<noteq> t)) \<and>
      (\<forall>k. kactive s k \<longrightarrow> kactive s' k \<and> so_current_id (kernel_ops now) s' k = so_current_id (kernel_ops now) s k)"
    using c'(2-5) unfolding kinv_def c(1) c'(1) kernel_sel kernel_live [OF c(2)] kernel_live [OF c'(2)] kernel_waits [OF c(2)] kernel_waits [OF c'(2)] by simp
next
  fix s k s'
  assume a: "kinv s" "kactive s k" "so_end_donation (kernel_ops now) s k = s'"
  then obtain c where c: "s = Some c" "cores_inv c" "k < length (cs_scheds c)" by (auto simp: kinv_def kactive_def)
  obtain c' where c': "s' = Some c'" "cores_inv c'" "so_frame_of (kernel_ops now) s' = so_frame_of (kernel_ops now) (Some c)" "waits_c c' = waits_c c"
    using kernel_donation [OF c(2,3), of now s'] a(3) unfolding c(1) by blast
  have "so_wartet_auf_ipc (kernel_ops now) s' = so_wartet_auf_ipc (kernel_ops now) s"
    unfolding c(1) c'(1) by (rule ext) (simp add: kernel_waits [OF c(2)] kernel_waits [OF c'(2)] c'(4))
  then show "kinv s' \<and> so_frame_of (kernel_ops now) s' = so_frame_of (kernel_ops now) s \<and> so_wartet_auf_ipc (kernel_ops now) s' = so_wartet_auf_ipc (kernel_ops now) s"
    using c' unfolding kinv_def c(1) by simp
qed

section \<open>Endpoints and schedulers together\<close>

text \<open>\<open>on_tick\<close> of the facade (a voluntary yield costs no budget), \<open>pause\<close> and \<open>resume\<close>.\<close>

definition kernel_yield :: "u64 \<Rightarrow> Cores \<Rightarrow> nat \<Rightarrow> nat \<Rightarrow> (Cores \<times> nat) option" where
  "kernel_yield now c core frame = on_core c core (\<lambda>g. charged now core (\<lambda>s. on_tick s frame False))"

definition kernel_pause :: "Cores \<Rightarrow> ThreadId \<Rightarrow> Cores option" where
  "kernel_pause c tid = map_option fst (with_owner c tid (\<lambda>g s. then_some (pause g s tid)))"

definition kernel_resume :: "Cores \<Rightarrow> ThreadId \<Rightarrow> Cores option" where
  "kernel_resume c tid = map_option fst (with_owner c tid (\<lambda>g s. then_some (resume g s tid)))"

text \<open>
  The joint system: a table of endpoints, the schedulers of all cores and the saved registers. Running
  threads call, receive and reply on any core; threads yield, are paused and resumed; user code changes
  registers. Creation and death of threads are not steps of this system: a handle is freed and given out
  again only there.
\<close>

inductive ks_step :: "IpcEndpoint list \<times> Cores option World \<Rightarrow> IpcEndpoint list \<times> Cores option World \<Rightarrow> bool" where
  ks_call: "a < length eps \<Longrightarrow> kactive (w_sched w) k \<Longrightarrow> ep_call (kernel_ops now) k frame badge (eps ! a) w = (ep', w', nx) \<Longrightarrow>
    w_sched w' \<noteq> None \<Longrightarrow> ks_step (eps, w) (eps[a := ep'], w')"
| ks_recv: "a < length eps \<Longrightarrow> kactive (w_sched w) k \<Longrightarrow> ep_recv (kernel_ops now) k frame (eps ! a) w = (ep', w', nx) \<Longrightarrow>
    w_sched w' \<noteq> None \<Longrightarrow> ks_step (eps, w) (eps[a := ep'], w')"
| ks_reply: "a < length eps \<Longrightarrow> kactive (w_sched w) k \<Longrightarrow> ep_reply (kernel_ops now) k frame (eps ! a) w = (ep', w', nx) \<Longrightarrow>
    ks_step (eps, w) (eps[a := ep'], w')"
| ks_yield: "w_sched w = Some c \<Longrightarrow> kernel_yield now c k frame = Some (c', nx) \<Longrightarrow> ks_step (eps, w) (eps, w\<lparr>w_sched := Some c'\<rparr>)"
| ks_pause: "w_sched w = Some c \<Longrightarrow> kernel_pause c t = Some c' \<Longrightarrow> ks_step (eps, w) (eps, w\<lparr>w_sched := Some c'\<rparr>)"
| ks_resume: "w_sched w = Some c \<Longrightarrow> kernel_resume c t = Some c' \<Longrightarrow> ks_step (eps, w) (eps, w\<lparr>w_sched := Some c'\<rparr>)"
| ks_user: "ks_step (eps, w) (eps, w\<lparr>w_frames := m\<rparr>)"

text \<open>Any number of endpoints that were just created, over any reachable state of the schedulers.\<close>

definition ks_init :: "IpcEndpoint list \<times> Cores option World \<Rightarrow> bool" where
  "ks_init s \<longleftrightarrow> (\<exists>n c m. s = (replicate n (ep_mark_used Endpoint_EMPTY), \<lparr>w_sched = Some c, w_frames = m\<rparr>) \<and> reach cores_init cores_step c)"

text \<open>The agreement does not depend on the clock.\<close>

lemma kernel_now:
  "so_frame_of (kernel_ops now) = so_frame_of (kernel_ops 0)" "so_wartet_auf_ipc (kernel_ops now) = so_wartet_auf_ipc (kernel_ops 0)"
  "so_current_id (kernel_ops now) = so_current_id (kernel_ops 0)"
  by (simp_all add: kernel_ops_def)

lemma synced_now: "all_synced (kernel_ops now) = all_synced (kernel_ops 0)" "wrote (kernel_ops now) = wrote (kernel_ops 0)"
  unfolding fun_eq_iff all_synced_def synced_def wrote_def kernel_now [of now] by simp_all

lemma quiet_synced:
  assumes "all_synced (kernel_ops 0) kinv eps w" "w_sched w = Some c" "cores_inv c'" "\<And>t. live_c c' t = live_c c t" "\<And>t. waits_c c' t = waits_c c t"
  shows "all_synced (kernel_ops 0) kinv eps (w\<lparr>w_sched := Some c'\<rparr>)"
proof -
  have "cores_inv c" using assms(1,2) by (auto simp: all_synced_def kinv_def)
  then have "(so_frame_of (kernel_ops 0) (Some c') t \<noteq> None) = (so_frame_of (kernel_ops 0) (w_sched w) t \<noteq> None)"
    "so_wartet_auf_ipc (kernel_ops 0) (Some c') t = so_wartet_auf_ipc (kernel_ops 0) (w_sched w) t" for t
    using assms(2-) by (simp_all only: kernel_live kernel_waits)
  then show ?thesis using assms(1,3) unfolding all_synced_def synced_def by (simp add: kinv_def)
qed

lemma yield_quiet:
  assumes "cores_inv c" "kernel_yield now c k frame = Some (c', nx)"
  shows "cores_inv c'" "live_c c' t = live_c c t" "waits_c c' t = waits_c c t"
proof -
  obtain s' where e: "k < length (cs_scheds c)" "charged now k (\<lambda>s. on_tick s frame False) (cs_scheds c ! k) = Some (s', nx)"
    "c' = c\<lparr>cs_scheds := (cs_scheds c)[k := s']\<rparr>" using assms(2) unfolding kernel_yield_def by (rule on_core_SomeD)
  show c': "cores_inv c'" unfolding e(3) by (rule charged_inv [OF assms(1) e(1,2)]) (rule st_tick)
  obtain s1 s2 where p: "on_tick s1 frame False = Some (s2, nx)" "sip (cs_scheds c ! k) s1" "sip s2 s'"
    using charged_parts [OF e(2)] by metis
  have "sip (cs_scheds c ! k) s'" using sip_trans [OF p(2) sip_trans [OF _ p(3)]] ip_quiet(1) [of s1 frame False] p(1) by simp
  note P = sip_same [OF this]
  note W = local_waits [OF assms(1) e(1) c' [unfolded e(3)] P(1)]
  show "live_c c' t = live_c c t" "waits_c c' t = waits_c c t"
    using W [of t] by_owner(1) [OF assms(1), of t] e(1) unfolding e(3) by (auto simp: P)
qed

lemma owner_quiet:
  assumes "cores_inv c" "map_option fst (with_owner c tid (\<lambda>g s. then_some (f g s))) = Some c'"
    and "\<And>g s. ip2 s (f g s)" "\<And>g s s' b. f g s = Some (s', b) \<Longrightarrow> sch_step g s g s'"
  shows "cores_inv c'" "live_c c' t = live_c c t" "waits_c c' t = waits_c c t"
proof -
  have *: "cores_inv c' \<and> live_c c' t = live_c c t \<and> waits_c c' t = waits_c c t"
  proof (cases "c' = c")
    case True
    then show ?thesis using assms(1) by simp
  next
    case False
    then obtain k s' b where e: "k < length (cs_scheds c)" "f (cs_g c) (cs_scheds c ! k) = Some (s', b)" "c' = c\<lparr>cs_scheds := (cs_scheds c)[k := s']\<rparr>"
      using assms(2) by (auto simp: with_owner_eq then_some_def elim!: on_core_SomeD split: option.splits if_splits)
    have c': "cores_inv c'" unfolding e(3) by (rule local_inv [OF assms(1) e(1) assms(4) [OF e(2)]])
    have "sip (cs_scheds c ! k) s'" using assms(3) [of "cs_scheds c ! k" "cs_g c"] e(2) by simp
    note P = sip_same [OF this]
    note W = local_waits [OF assms(1) e(1) c' [unfolded e(3)] P(1)]
    show ?thesis using c' W [of t] by_owner(1) [OF assms(1), of t] e(1) unfolding e(3) by (auto simp: P)
  qed
  then show "cores_inv c'" "live_c c' t = live_c c t" "waits_c c' t = waits_c c t" by simp_all
qed

interpretation joint: step_system ks_init ks_step "\<lambda>(eps, w). all_synced (kernel_ops 0) kinv eps w"
proof
  fix s
  assume "ks_init s"
  then obtain n c m where s: "s = (replicate n (ep_mark_used Endpoint_EMPTY), \<lparr>w_sched = Some c, w_frames = m\<rparr>)" "reach cores_init cores_step c"
    by (auto simp: ks_init_def)
  have "held (ep_mark_used Endpoint_EMPTY) = []" "ep_wf (ep_mark_used Endpoint_EMPTY)"
    by (simp_all add: held_def ep_mark_used_def Endpoint_EMPTY_def ep_wf_def)
  then show "case s of (eps, w) \<Rightarrow> all_synced (kernel_ops 0) kinv eps w"
    using cores.reach_inv [OF s(2)] by (simp add: s(1) all_synced_def synced_def kinv_def)
next
  fix s t
  assume i: "case s of (eps, w) \<Rightarrow> all_synced (kernel_ops 0) kinv eps w" and st: "ks_step s t"
  from st i show "case t of (eps, w) \<Rightarrow> all_synced (kernel_ops 0) kinv eps w"
  proof (induction rule: ks_step.induct)
    case (ks_call a eps w k now frame badge ep' w' nx)
    have A: "all_synced (kernel_ops now) kinv eps w" using ks_call.prems by (simp add: synced_now(1) [of now])
    then have "synced (kernel_ops now) kinv (eps ! a) w" using ks_call.hyps(1) by (simp add: all_synced_def)
    from kern.table_step [OF A ks_call.hyps(1,2)] kern.call_synced [OF this ks_call.hyps(2-4)]
    have "all_synced (kernel_ops now) kinv (eps[a := ep']) w'" by blast
    then show ?case by (simp add: synced_now(1) [of now])
  next
    case (ks_recv a eps w k now frame ep' w' nx)
    have A: "all_synced (kernel_ops now) kinv eps w" using ks_recv.prems by (simp add: synced_now(1) [of now])
    then have "synced (kernel_ops now) kinv (eps ! a) w" using ks_recv.hyps(1) by (simp add: all_synced_def)
    from kern.table_step [OF A ks_recv.hyps(1,2)] kern.recv_synced [OF this ks_recv.hyps(2-4)]
    have "all_synced (kernel_ops now) kinv (eps[a := ep']) w'" by blast
    then show ?case by (simp add: synced_now(1) [of now])
  next
    case (ks_reply a eps w k now frame ep' w' nx)
    have A: "all_synced (kernel_ops now) kinv eps w" using ks_reply.prems by (simp add: synced_now(1) [of now])
    then have "synced (kernel_ops now) kinv (eps ! a) w" using ks_reply.hyps(1) by (simp add: all_synced_def)
    from kern.table_step [OF A ks_reply.hyps(1,2)] kern.reply_synced [OF this ks_reply.hyps(2-3)]
    have "all_synced (kernel_ops now) kinv (eps[a := ep']) w'" by blast
    then show ?case by (simp add: synced_now(1) [of now])
  next
    case (ks_yield w c now k frame c' nx eps)
    have "cores_inv c" using ks_yield.prems ks_yield.hyps(1) by (auto simp: all_synced_def kinv_def)
    from yield_quiet [OF this ks_yield.hyps(2)] show ?case using quiet_synced [OF _ ks_yield.hyps(1)] ks_yield.prems by simp
  next
    case (ks_pause w c t c' eps)
    have "cores_inv c" using ks_pause.prems ks_pause.hyps(1) by (auto simp: all_synced_def kinv_def)
    from owner_quiet [OF this ks_pause.hyps(2) [unfolded kernel_pause_def] ip_quiet(2) st_pause]
    show ?case using quiet_synced [OF _ ks_pause.hyps(1)] ks_pause.prems by simp
  next
    case (ks_resume w c t c' eps)
    have "cores_inv c" using ks_resume.prems ks_resume.hyps(1) by (auto simp: all_synced_def kinv_def)
    from owner_quiet [OF this ks_resume.hyps(2) [unfolded kernel_resume_def] ip_quiet(3) st_resume]
    show ?case using quiet_synced [OF _ ks_resume.hyps(1)] ks_resume.prems by simp
  next
    case (ks_user eps w m)
    then show ?case by (simp add: all_synced_def synced_def)
  qed
qed

section \<open>What holds of the composition\<close>

lemma joint_parts:
  assumes "reach ks_init ks_step (eps, w)"
  shows "all_synced (kernel_ops now) kinv eps w" "a < length eps \<Longrightarrow> synced (kernel_ops now) kinv (eps ! a) w"
proof -
  show A: "all_synced (kernel_ops now) kinv eps w" using joint.reach_inv [OF assms] by (simp add: synced_now(1) [of now])
  show "a < length eps \<Longrightarrow> synced (kernel_ops now) kinv (eps ! a) w" using A by (simp add: all_synced_def)
qed

text \<open>
  C4. In every state that calls, receives, replies, yields, pauses and resumes reach on any number of cores
  and endpoints: a thread that an endpoint has on record (queued, or as the caller that is owed a reply) and
  that is alive waits for IPC in the scheduler of its core, it does not run on any core, and no thread is on
  record at two endpoints or twice at one.
\<close>

theorem held_threads_wait:
  assumes "reach ks_init ks_step (eps, w)"
  shows "(\<forall>a<length eps. \<forall>t\<in>set (held (eps ! a)).
      (so_frame_of (kernel_ops now) (w_sched w) t \<noteq> None \<longrightarrow> so_wartet_auf_ipc (kernel_ops now) (w_sched w) t) \<and>
      (\<forall>k. kactive (w_sched w) k \<longrightarrow> so_current_id (kernel_ops now) (w_sched w) k \<noteq> t)) \<and>
    (\<forall>a<length eps. distinct (held (eps ! a))) \<and>
    (\<forall>a<length eps. \<forall>b<length eps. a \<noteq> b \<longrightarrow> set (held (eps ! a)) \<inter> set (held (eps ! b)) = {})"
proof (intro conjI)
  note J = joint_parts [OF assms, where now = now]
  show "\<forall>a<length eps. \<forall>t\<in>set (held (eps ! a)).
      (so_frame_of (kernel_ops now) (w_sched w) t \<noteq> None \<longrightarrow> so_wartet_auf_ipc (kernel_ops now) (w_sched w) t) \<and>
      (\<forall>k. kactive (w_sched w) k \<longrightarrow> so_current_id (kernel_ops now) (w_sched w) k \<noteq> t)"
  proof (intro allI impI ballI)
    fix a t
    assume a: "a < length eps" "t \<in> set (held (eps ! a))"
    show "(so_frame_of (kernel_ops now) (w_sched w) t \<noteq> None \<longrightarrow> so_wartet_auf_ipc (kernel_ops now) (w_sched w) t) \<and>
      (\<forall>k. kactive (w_sched w) k \<longrightarrow> so_current_id (kernel_ops now) (w_sched w) k \<noteq> t)"
      using J(2) [OF a(1)] a(2) kern.current_not_held [OF J(2) [OF a(1)]] unfolding synced_def by blast
  qed
  show "\<forall>a<length eps. distinct (held (eps ! a))" using J(2) by (simp add: synced_def)
  show "\<forall>a<length eps. \<forall>b<length eps. a \<noteq> b \<longrightarrow> set (held (eps ! a)) \<inter> set (held (eps ! b)) = {}"
    using J(1) by (simp add: all_synced_def)
qed

text \<open>
  C7. In such a state CALL, RECV and REPLY write into no frame but their own and that of a living thread
  that waits for IPC; REPLY moreover ends the wait of the recorded caller. So no system call of one thread
  changes the registers of another one that runs or is ready.
\<close>

theorem messages_only_to_waiting:
  assumes "reach ks_init ks_step (eps, w)" "a < length eps" "kactive (w_sched w) k"
    and "(ep', w', nx) \<in> {ep_call (kernel_ops now) k frame badge (eps ! a) w, ep_recv (kernel_ops now) k frame (eps ! a) w,
      ep_reply (kernel_ops now) k frame (eps ! a) w}" "w_sched w' \<noteq> None"
  shows "(fr \<noteq> frame \<and> w_frames w' fr \<noteq> w_frames w fr \<longrightarrow>
      (\<exists>t. so_wartet_auf_ipc (kernel_ops now) (w_sched w) t \<and> so_frame_of (kernel_ops now) (w_sched w) t = Some fr)) \<and>
    ((ep', w', nx) = ep_reply (kernel_ops now) k frame (eps ! a) w \<and> e_used (eps ! a) \<and> e_caller (eps ! a) = Some caller \<longrightarrow>
      \<not> so_wartet_auf_ipc (kernel_ops now) (w_sched w') caller)"
proof (intro conjI impI)
  note S = joint_parts(2) [OF assms(1,2), where now = now]
  have "wrote (kernel_ops now) w frame w'"
    using assms(4) kern.call_synced [OF S assms(3) _ assms(5)] kern.recv_synced [OF S assms(3) _ assms(5)] kern.reply_synced [OF S assms(3)]
    by (metis insertE singletonD)
  then show "\<exists>t. so_wartet_auf_ipc (kernel_ops now) (w_sched w) t \<and> so_frame_of (kernel_ops now) (w_sched w) t = Some fr"
    if "fr \<noteq> frame \<and> w_frames w' fr \<noteq> w_frames w fr" using that by (simp add: wrote_def)
  show "\<not> so_wartet_auf_ipc (kernel_ops now) (w_sched w') caller"
    if "(ep', w', nx) = ep_reply (kernel_ops now) k frame (eps ! a) w \<and> e_used (eps ! a) \<and> e_caller (eps ! a) = Some caller"
    using kern.reply_wakes [OF S assms(3)] that by metis
qed

end
