(* ===== verification/KernelSample.thy ===== *)
theory KernelSample
  imports KernelSched SchedSample
begin

text \<open>
  A server and a client on one core, through receive, call and reply, as a run of the joint system of
  endpoints and schedulers: the properties of \<open>KernelSched\<close> on a concrete run.
\<close>

type_synonym joint_state = "IpcEndpoint list \<times> Cores option World"

definition meet0 :: joint_state where
  "meet0 = ([ep_mark_used Endpoint_EMPTY, ep_mark_used Endpoint_EMPTY],
     \<lparr>w_sched = Some (uni [Init 0, Spawn 3, Spawn 3, Tick]), w_frames = (\<lambda>f r. of_nat f)\<rparr>)"

text \<open>Thread 1 receives at the first endpoint, then thread 2 calls it.\<close>

fun on_first :: "(IpcEndpoint \<Rightarrow> Cores option World \<Rightarrow> IpcEndpoint \<times> Cores option World \<times> nat) \<Rightarrow> joint_state \<Rightarrow> joint_state" where
  "on_first f (eps, w) = (case f (eps ! 0) w of (e, w', _) \<Rightarrow> (eps[0 := e], w'))"

definition meet1 :: joint_state where
  "meet1 = on_first (ep_recv (kernel_ops 7) 0 50) meet0"

definition meet2 :: joint_state where
  "meet2 = on_first (ep_call (kernel_ops 9) 0 60 5) meet1"

definition runs_thread :: "joint_state \<Rightarrow> bool" where
  "runs_thread s \<longleftrightarrow> (case w_sched (snd s) of None \<Rightarrow> False | Some c \<Rightarrow> 0 < length (cs_scheds c) \<and> sc_current (cs_scheds c ! 0) \<noteq> None)"

lemma runs_thread_active: "runs_thread s \<Longrightarrow> kactive (w_sched (snd s)) 0 \<and> w_sched (snd s) \<noteq> None"
  by (auto simp: runs_thread_def kactive_def split: option.splits)

lemma meet_runs0: "runs_thread meet0"
  by code_simp

lemma meet_runs1: "runs_thread meet1"
  by code_simp

lemma meet_runs2: "runs_thread meet2"
  by code_simp

lemma on_first_reach:
  assumes "reach ks_init ks_step s" "runs_thread s" "runs_thread (on_first f s)" "0 < length (fst s)"
    and "f = ep_recv (kernel_ops now) 0 frame \<or> f = ep_call (kernel_ops now) 0 frame badge"
  shows "reach ks_init ks_step (on_first f s)" "length (fst (on_first f s)) = length (fst s)"
proof -
  obtain eps w where s: "s = (eps, w)" by force
  obtain e w' n where e: "f (eps ! 0) w = (e, w', n)" by (metis prod_cases3)
  have t: "on_first f s = (eps[0 := e], w')" by (simp add: s e)
  have "kactive (w_sched w) 0" "w_sched w' \<noteq> None"
    using runs_thread_active [OF assms(2)] runs_thread_active [OF assms(3)] unfolding t by (simp_all add: s)
  then have "ks_step s (on_first f s)" unfolding t s using assms(4,5) e ks_recv [of 0 eps w 0 now frame e w' n] ks_call [of 0 eps w 0 now frame badge e w' n]
    by (auto simp: s)
  then show "reach ks_init ks_step (on_first f s)" using assms(1) by (rule reach_step [rotated])
  show "length (fst (on_first f s)) = length (fst s)" unfolding t by (simp add: s)
qed

lemma meet_reach: "reach ks_init ks_step meet2"
proof -
  have r: "reach ks_init ks_step meet0"
    by (rule reach_init) (auto simp: ks_init_def meet0_def numeral_2_eq_2 intro!: exI [of _ 2] runs_reach)
  have l: "0 < length (fst meet0)" by (simp add: meet0_def)
  note A = on_first_reach [OF r meet_runs0 meet_runs1 [unfolded meet1_def] l, folded meet1_def, where now = 7 and frame = 50]
  have "0 < length (fst meet1)" using A(2) l by simp
  from on_first_reach(1) [OF A(1) meet_runs1 meet_runs2 [unfolded meet2_def] this, folded meet2_def, where now = 9 and frame = 60 and badge = 5] show ?thesis by simp
qed

definition meet_check :: "joint_state \<Rightarrow> bool" where
  "meet_check s \<longleftrightarrow> length (fst s) = 2 \<and> map held (fst s) = [[hdl 2], []] \<and> so_frame_of (kernel_ops 0) (w_sched (snd s)) (hdl 2) = Some 60 \<and>
     e_used (fst s ! 0) \<and> e_caller (fst s ! 0) = Some (hdl 2) \<and>
     (case ep_reply (kernel_ops 11) 0 50 (fst s ! 0) (snd s) of (e, w, n) \<Rightarrow> runs_thread ([], w) \<and> w_frames w 60 0 \<noteq> w_frames (snd s) 60 0)"

lemma meet_check: "meet_check meet2"
  by code_simp

text \<open>The caller of the run is on record and waits.\<close>

theorem held_threads_wait_witness:
  "hdl 2 \<in> set (held (fst meet2 ! 0)) \<and> so_wartet_auf_ipc (kernel_ops 0) (w_sched (snd meet2)) (hdl 2)"
proof -
  have c: "length (fst meet2) = 2" "map held (fst meet2) = [[hdl 2], []]" "so_frame_of (kernel_ops 0) (w_sched (snd meet2)) (hdl 2) = Some 60"
    using meet_check by (simp_all add: meet_check_def)
  have h: "held (fst meet2 ! 0) = [hdl 2]" using c(1,2) nth_map [of 0 "fst meet2" held] by simp
  have "reach ks_init ks_step (fst meet2, snd meet2)" using meet_reach by simp
  from conjunct1 [OF held_threads_wait [OF this, where now = 0]] have "so_frame_of (kernel_ops 0) (w_sched (snd meet2)) (hdl 2) \<noteq> None \<longrightarrow> so_wartet_auf_ipc (kernel_ops 0) (w_sched (snd meet2)) (hdl 2)"
    using c(1) h by (metis list.set_intros(1) zero_less_numeral)
  then show ?thesis using c(3) h by simp
qed

text \<open>The server replies: another frame changes, a waiting thread owns it, and the caller waits no more.\<close>

theorem messages_only_to_waiting_witness:
  "\<exists>ep' w' nx. ep_reply (kernel_ops 11) 0 50 (fst meet2 ! 0) (snd meet2) = (ep', w', nx) \<and> w_frames w' 60 \<noteq> w_frames (snd meet2) 60 \<and>
     (\<exists>t. so_wartet_auf_ipc (kernel_ops 11) (w_sched (snd meet2)) t \<and> so_frame_of (kernel_ops 11) (w_sched (snd meet2)) t = Some 60) \<and>
     \<not> so_wartet_auf_ipc (kernel_ops 11) (w_sched w') (hdl 2)"
proof -
  obtain e w n where e: "ep_reply (kernel_ops 11) 0 50 (fst meet2 ! 0) (snd meet2) = (e, w, n)" by (metis prod_cases3)
  have c: "0 < length (fst meet2)" "e_used (fst meet2 ! 0)" "e_caller (fst meet2 ! 0) = Some (hdl 2)" "w_sched w \<noteq> None" "w_frames w 60 \<noteq> w_frames (snd meet2) 60"
    using meet_check runs_thread_active [of "([], w)"] by (auto simp: meet_check_def e)
  have r: "reach ks_init ks_step (fst meet2, snd meet2)" using meet_reach by simp
  have o: "(e, w, n) \<in> {ep_call (kernel_ops 11) 0 50 0 (fst meet2 ! 0) (snd meet2), ep_recv (kernel_ops 11) 0 50 (fst meet2 ! 0) (snd meet2),
      ep_reply (kernel_ops 11) 0 50 (fst meet2 ! 0) (snd meet2)}" by (simp add: e)
  note T = messages_only_to_waiting [OF r c(1) conjunct1 [OF runs_thread_active [OF meet_runs2]] o c(4)]
  show ?thesis using T [of 60 "hdl 2"] c e by auto
qed

end
