(* ===== verification/CspacePool.thy ===== *)
theory CspacePool
  imports Prelude
begin

text \<open>
  The pool of capability slots (\<open>caprock-microkit/src/cspace.rs\<close>): a protection domain gets a run of
  slots, fresh ones from the end of the used part or a run that was given back. Free runs are chained
  through anchors in a store that the caller provides (\<open>trait AnkerAblage\<close>, here the record
  \<open>AnkerAblage\<close> and its laws as the locale \<open>anker_store\<close>). The walk along the chain has no bound in the
  code, so it is a \<open>partial_function\<close>; on a well formed chain it returns and takes the first run that fits.
\<close>

section \<open>Requests\<close>

definition STANDARD_PLAETZE :: u32 where "STANDARD_PLAETZE = 16"

datatype CspaceAbweisung =
    DeckelUeberschritten u32 u32
  | BudgetPasstNicht u32 u32
  | VorratErschoepft u32 u32
  | KeinePdFrei
  | PoolErschoepft u32 u32

record Anforderung =
  an_budget :: u32
  an_plaetze :: u32

definition anforderung_aufloesen :: "u32 \<Rightarrow> u32 \<Rightarrow> u32 \<Rightarrow> u32 \<Rightarrow> CspaceAbweisung + Anforderung" where
  "anforderung_aufloesen budget_roh plaetze_roh deckel standard_budget =
     (let budget = (if budget_roh = 0 then standard_budget else budget_roh);
          plaetze = (if plaetze_roh = 0 then STANDARD_PLAETZE else plaetze_roh)
      in if budget > deckel then Inl (DeckelUeberschritten budget deckel)
         else if budget > plaetze then Inl (BudgetPasstNicht budget plaetze)
         else Inr \<lparr>an_budget = budget, an_plaetze = plaetze\<rparr>)"

section \<open>Runs and their store\<close>

record CspaceAnker =
  ca_start :: u32
  ca_len :: u32
  ca_naechster :: u32

definition CspaceAnker_LEER :: CspaceAnker where
  "CspaceAnker_LEER = \<lparr>ca_start = 0, ca_len = 0, ca_naechster = 0\<rparr>"

text \<open>Reading and writing out of range panics.\<close>

record 'a AnkerAblage =
  aa_anzahl :: "'a \<Rightarrow> nat"
  aa_lese :: "'a \<Rightarrow> nat \<Rightarrow> CspaceAnker option"
  aa_schreibe :: "'a \<Rightarrow> nat \<Rightarrow> CspaceAnker \<Rightarrow> 'a option"

record Vergabe =
  vg_bump :: u32
  vg_kopf :: u32

definition Vergabe_neu :: Vergabe where
  "Vergabe_neu = \<lparr>vg_bump = 0, vg_kopf = 0\<rparr>"

definition saturating_sub32 :: "u32 \<Rightarrow> u32 \<Rightarrow> u32" where
  "saturating_sub32 a b = (if b \<le> a then a - b else 0)"

definition checked_add32 :: "u32 \<Rightarrow> u32 \<Rightarrow> u32 option" where
  "checked_add32 a b = (if a \<le> a + b then Some (a + b) else None)"

text \<open>Unhook the run behind \<open>vorgaenger\<close> (\<open>0\<close>: the head).\<close>

definition aushaken :: "'a AnkerAblage \<Rightarrow> Vergabe \<Rightarrow> 'a \<Rightarrow> u32 \<Rightarrow> u32 \<Rightarrow> (Vergabe \<times> 'a) option" where
  "aushaken A v abl vorgaenger weiter =
     (if vorgaenger = 0 then Some (v\<lparr>vg_kopf := weiter\<rparr>, abl)
      else do {
        b \<leftarrow> aa_lese A abl (unat (vorgaenger - 1));
        abl' \<leftarrow> aa_schreibe A abl (unat (vorgaenger - 1)) (b\<lparr>ca_naechster := weiter\<rparr>);
        Some (v, abl')
      })"

partial_function (option) freilauf_suchen ::
  "'a AnkerAblage \<Rightarrow> Vergabe \<Rightarrow> 'a \<Rightarrow> u32 \<Rightarrow> u32 \<Rightarrow> u32 \<Rightarrow> (Vergabe \<times> 'a \<times> (u32 \<times> u32) option) option" where
  "freilauf_suchen A v abl n vorgaenger i =
     (if i = 0 then Some (v, abl, None)
      else do {
        a \<leftarrow> aa_lese A abl (unat (i - 1));
        if ca_len a \<ge> n then do {
          (v', abl1) \<leftarrow> aushaken A v abl vorgaenger (ca_naechster a);
          abl2 \<leftarrow> aa_schreibe A abl1 (unat (i - 1)) \<lparr>ca_start = ca_start a, ca_len = ca_len a, ca_naechster = 0\<rparr>;
          Some (v', abl2, Some (ca_start a, ca_len a))
        }
        else freilauf_suchen A v abl n i (ca_naechster a)
      })"

declare freilauf_suchen.simps [code]

definition belegen :: "'a AnkerAblage \<Rightarrow> Vergabe \<Rightarrow> 'a \<Rightarrow> u32 \<Rightarrow> u32 \<Rightarrow> (Vergabe \<times> 'a \<times> (CspaceAbweisung + u32 \<times> u32)) option" where
  "belegen A v abl pool_len n =
     (if n = 0 then Some (v, abl, Inr (vg_bump v, 0))
      else do {
        (v', abl', r) \<leftarrow> freilauf_suchen A v abl n 0 (vg_kopf v);
        case r of
          Some lauf \<Rightarrow> Some (v', abl', Inr lauf)
        | None \<Rightarrow>
            (case checked_add32 (vg_bump v) n of
               None \<Rightarrow> Some (v', abl', Inl (PoolErschoepft n (saturating_sub32 pool_len (vg_bump v))))
             | Some ende \<Rightarrow>
                 if ende > pool_len then Some (v', abl', Inl (PoolErschoepft n (saturating_sub32 pool_len (vg_bump v))))
                 else Some (v'\<lparr>vg_bump := ende\<rparr>, abl', Inr (vg_bump v, n)))
      })"

definition freigeben :: "'a AnkerAblage \<Rightarrow> Vergabe \<Rightarrow> 'a \<Rightarrow> nat \<Rightarrow> (Vergabe \<times> 'a) option" where
  "freigeben A v abl idx = do {
     a \<leftarrow> aa_lese A abl idx;
     abl' \<leftarrow> aa_schreibe A abl idx (a\<lparr>ca_naechster := vg_kopf v\<rparr>);
     Some (v\<lparr>vg_kopf := of_nat idx + 1\<rparr>, abl')
   }"

section \<open>The chain of free runs\<close>

text \<open>\<open>strang A abl k xs m\<close>: from \<open>k\<close> the chain runs through the anchors \<open>xs\<close> and goes on at \<open>m\<close>.\<close>

fun strang :: "'a AnkerAblage \<Rightarrow> 'a \<Rightarrow> u32 \<Rightarrow> nat list \<Rightarrow> u32 \<Rightarrow> bool" where
  "strang A abl k [] m \<longleftrightarrow> k = m"
| "strang A abl k (x # xs) m \<longleftrightarrow> Suc x < 2 ^ 32 \<and> k = of_nat (Suc x) \<and> (\<exists>a. aa_lese A abl x = Some a \<and> strang A abl (ca_naechster a) xs m)"

abbreviation freilauf :: "'a AnkerAblage \<Rightarrow> 'a \<Rightarrow> u32 \<Rightarrow> nat list \<Rightarrow> bool" where
  "freilauf A abl k xs \<equiv> strang A abl k xs 0"

lemma strang_append: "strang A abl k (xs @ ys) m \<longleftrightarrow> (\<exists>l. strang A abl k xs l \<and> strang A abl l ys m)"
  by (induction xs arbitrary: k) auto

lemma strang_mem: "strang A abl k xs m \<Longrightarrow> x \<in> set xs \<Longrightarrow> Suc x < 2 ^ 32 \<and> (\<exists>a. aa_lese A abl x = Some a)"
  by (induction xs arbitrary: k) auto

lemma strang_cong: "(\<And>x. x \<in> set xs \<Longrightarrow> aa_lese A abl' x = aa_lese A abl x) \<Longrightarrow> strang A abl' k xs m = strang A abl k xs m"
  by (induction xs arbitrary: k) auto

definition laenge :: "'a AnkerAblage \<Rightarrow> 'a \<Rightarrow> nat \<Rightarrow> u32" where
  "laenge A abl x = (case aa_lese A abl x of Some a \<Rightarrow> ca_len a | None \<Rightarrow> 0)"

lemma link_index:
  assumes "Suc x < 2 ^ 32"
  shows "(of_nat (Suc x) :: u32) \<noteq> 0" "unat ((of_nat (Suc x) :: u32) - 1) = x"
proof -
  have u: "unat (of_nat (Suc x) :: u32) = Suc x" using unat_of_nat_u32 [OF assms] .
  show n: "(of_nat (Suc x) :: u32) \<noteq> 0" using u by (metis nat.distinct(1) unat_0)
  show "unat ((of_nat (Suc x) :: u32) - 1) = x" using unat_minus_one [OF n] unfolding u by simp
qed

text \<open>Start and length of a run.\<close>

definition lauf :: "'a AnkerAblage \<Rightarrow> 'a \<Rightarrow> nat \<Rightarrow> (u32 \<times> u32) option" where
  "lauf A abl j = map_option (\<lambda>a. (ca_start a, ca_len a)) (aa_lese A abl j)"

lemma find_split: "List.find P xs = Some x \<Longrightarrow> \<exists>ys zs. xs = ys @ x # zs \<and> P x \<and> (\<forall>y\<in>set ys. \<not> P y)"
proof (induction xs)
  case (Cons a xs)
  show ?case
  proof (cases "P a")
    case True
    then have "a # xs = [] @ x # xs \<and> P x" using Cons.prems by simp
    then show ?thesis by fastforce
  next
    case False
    then obtain ys zs where "xs = ys @ x # zs" "P x" "\<forall>y\<in>set ys. \<not> P y" using Cons by auto
    then have "a # xs = (a # ys) @ x # zs \<and> P x \<and> (\<forall>y\<in>set (a # ys). \<not> P y)" using False by simp
    then show ?thesis by blast
  qed
qed simp

locale anker_store =
  fixes A :: "'a AnkerAblage"
  assumes lese_range: "aa_lese A abl i \<noteq> None \<longleftrightarrow> i < aa_anzahl A abl"
    and schreibe_range: "i < aa_anzahl A abl \<Longrightarrow> \<exists>abl'. aa_schreibe A abl i a = Some abl'"
    and schreibe_lese: "aa_schreibe A abl i a = Some abl' \<Longrightarrow>
      aa_anzahl A abl' = aa_anzahl A abl \<and> aa_lese A abl' j = (if j = i then Some a else aa_lese A abl j)"
begin

text \<open>The walk passes runs that are too short and unhooks the first one that fits.\<close>

lemma suchen_passes:
  assumes "freilauf A abl i xs" "\<forall>x\<in>set xs. laenge A abl x < n"
  shows "freilauf_suchen A v abl n p i = Some (v, abl, None)"
  using assms
proof (induction xs arbitrary: i p)
  case Nil
  then show ?case by (simp add: freilauf_suchen.simps)
next
  case (Cons x xs)
  then obtain a where a: "aa_lese A abl x = Some a" "freilauf A abl (ca_naechster a) xs" "Suc x < 2 ^ 32" "i = of_nat (Suc x)" by auto
  have "\<not> n \<le> ca_len a" using Cons.prems(2) a(1) by (simp add: laenge_def not_le)
  then show ?case using Cons.IH [OF a(2), of i] Cons.prems(2) a(1) link_index [OF a(3)]
    by (subst freilauf_suchen.simps) (simp add: a(4))
qed

lemma suchen_skips:
  assumes "freilauf A abl i (ys @ x # zs)" "\<forall>y\<in>set ys. laenge A abl y < n" "n \<le> laenge A abl x" "0 < n"
  shows "freilauf_suchen A v abl n p i =
    freilauf_suchen A v abl n (if ys = [] then p else of_nat (Suc (last ys))) (of_nat (Suc x))"
  using assms(1,2)
proof (induction ys arbitrary: i p)
  case Nil
  then show ?case by simp
next
  case (Cons y ys)
  then obtain a where a: "aa_lese A abl y = Some a" "freilauf A abl (ca_naechster a) (ys @ x # zs)" "Suc y < 2 ^ 32" "i = of_nat (Suc y)" by auto
  have "\<not> n \<le> ca_len a" using Cons.prems(2) a(1) by (simp add: laenge_def not_le)
  then have "freilauf_suchen A v abl n p i = freilauf_suchen A v abl n i (ca_naechster a)"
    using a(1) link_index [OF a(3)] by (subst freilauf_suchen.simps) (simp add: a(4))
  then show ?case using Cons.IH [OF a(2), of i] Cons.prems(2) by (simp add: a(4))
qed

lemma lauf_write:
  assumes "aa_lese A abl i = Some a" "aa_schreibe A abl i (a\<lparr>ca_naechster := m\<rparr>) = Some abl'"
  shows "lauf A abl' j = lauf A abl j"
  using assms schreibe_lese [OF assms(2), of j] by (auto simp: lauf_def)

lemma aushaken_chain:
  assumes "freilauf A abl (vg_kopf v) (ys @ x # zs)" "distinct (ys @ x # zs)" "aa_lese A abl x = Some a"
  shows "\<exists>v' abl1. aushaken A v abl (if ys = [] then 0 else of_nat (Suc (last ys))) (ca_naechster a) = Some (v', abl1) \<and>
    vg_bump v' = vg_bump v \<and> freilauf A abl1 (vg_kopf v') (ys @ zs) \<and> (\<forall>j. lauf A abl1 j = lauf A abl j) \<and>
    aa_anzahl A abl1 = aa_anzahl A abl \<and> aa_lese A abl1 x = Some a"
proof (cases ys rule: rev_exhaust)
  case Nil
  then show ?thesis using assms by (auto simp: aushaken_def)
next
  case (snoc us y)
  obtain l where l: "strang A abl (vg_kopf v) us (of_nat (Suc y))" "Suc y < 2 ^ 32" "aa_lese A abl y = Some l" "freilauf A abl (ca_naechster a) zs"
    using assms(1,3) unfolding snoc by (auto simp: strang_append)
  have "y < aa_anzahl A abl" using l(3) lese_range [of abl y] by simp
  then obtain abl1 where w: "aa_schreibe A abl y (l\<lparr>ca_naechster := ca_naechster a\<rparr>) = Some abl1" using schreibe_range by blast
  note W = schreibe_lese [OF w]
  have d: "y \<notin> set us" "y \<notin> set zs" "y \<noteq> x" using assms(2) by (auto simp: snoc)
  have "strang A abl1 (vg_kopf v) us (of_nat (Suc y))" using l(1) strang_cong [of us A abl1 abl] W d(1) by metis
  moreover have "freilauf A abl1 (ca_naechster a) zs" using l(4) strang_cong [of zs A abl1 abl] W d(2) by metis
  ultimately have "freilauf A abl1 (vg_kopf v) (ys @ zs)" using W [of y] l(2) by (auto simp: snoc strang_append)
  then show ?thesis using w W [of x] d(3) assms(3) lauf_write [OF l(3) w] link_index [OF l(2)] l(3)
    by (auto simp: aushaken_def snoc)
qed

lemma suchen_takes:
  assumes "freilauf A abl (vg_kopf v) (ys @ x # zs)" "distinct (ys @ x # zs)" "\<forall>y\<in>set ys. laenge A abl y < n" "n \<le> laenge A abl x" "0 < n"
  shows "\<exists>v' abl'. freilauf_suchen A v abl n 0 (vg_kopf v) = Some (v', abl', lauf A abl x) \<and> lauf A abl x \<noteq> None \<and> vg_bump v' = vg_bump v \<and>
    freilauf A abl' (vg_kopf v') (ys @ zs) \<and> (\<forall>j. lauf A abl' j = lauf A abl j) \<and> aa_anzahl A abl' = aa_anzahl A abl"
proof -
  obtain a where a: "aa_lese A abl x = Some a" "Suc x < 2 ^ 32" using strang_mem [OF assms(1), of x] by auto
  obtain v' abl1 where u: "aushaken A v abl (if ys = [] then 0 else of_nat (Suc (last ys))) (ca_naechster a) = Some (v', abl1)"
    "vg_bump v' = vg_bump v" "freilauf A abl1 (vg_kopf v') (ys @ zs)" "\<And>j. lauf A abl1 j = lauf A abl j" "aa_anzahl A abl1 = aa_anzahl A abl" "aa_lese A abl1 x = Some a"
    using aushaken_chain [OF assms(1,2) a(1)] by blast
  have "x < aa_anzahl A abl1" using u(6) lese_range [of abl1 x] by simp
  then obtain abl2 where w: "aa_schreibe A abl1 x \<lparr>ca_start = ca_start a, ca_len = ca_len a, ca_naechster = 0\<rparr> = Some abl2" using schreibe_range by blast
  note W = schreibe_lese [OF w]
  have "freilauf A abl2 (vg_kopf v') (ys @ zs)" using u(3) strang_cong [of "ys @ zs" A abl2 abl1] W assms(2) by (metis Un_iff distinct_append disjoint_iff distinct.simps(2) list.set_intros(1) set_append)
  moreover have "lauf A abl2 j = lauf A abl j" for j using W [of j] u(4) [of j] u(6) by (auto simp: lauf_def)
  moreover have "freilauf_suchen A v abl n 0 (vg_kopf v) = Some (v', abl2, lauf A abl x)"
    unfolding suchen_skips [OF assms(1,3,4,5)] using a assms(4) link_index [OF a(2)] u(1) w
    by (subst freilauf_suchen.simps) (simp add: laenge_def lauf_def)
  ultimately show ?thesis using u(2,5) W a(1) by (auto simp: lauf_def)
qed

text \<open>First fit along the chain, then the fresh end of the pool; \<open>belegen\<close> always returns.\<close>

lemma belegen_first_fit:
  assumes "freilauf A abl (vg_kopf v) xs" "distinct xs" "0 < n"
  shows "case List.find (\<lambda>x. n \<le> laenge A abl x) xs of
      Some x \<Rightarrow> \<exists>v' abl' r. belegen A v abl pl n = Some (v', abl', Inr r) \<and> lauf A abl x = Some r \<and> vg_bump v' = vg_bump v \<and>
        freilauf A abl' (vg_kopf v') (remove1 x xs) \<and> (\<forall>j. lauf A abl' j = lauf A abl j) \<and> aa_anzahl A abl' = aa_anzahl A abl
    | None \<Rightarrow> belegen A v abl pl n =
        (if unat (vg_bump v) + unat n \<le> unat pl then Some (v\<lparr>vg_bump := vg_bump v + n\<rparr>, abl, Inr (vg_bump v, n))
         else Some (v, abl, Inl (PoolErschoepft n (saturating_sub32 pl (vg_bump v)))))"
proof (cases "List.find (\<lambda>x. n \<le> laenge A abl x) xs")
  case None
  then have "\<forall>x\<in>set xs. laenge A abl x < n" by (auto simp: find_None_iff not_le)
  note P = suchen_passes [OF assms(1) this, of v 0]
  have "checked_add32 (vg_bump v) n = (if unat (vg_bump v) + unat n < 2 ^ 32 then Some (vg_bump v + n) else None)"
    using unat_plus_if' [of "vg_bump v" n] unat_u32_lt [of "vg_bump v"] unat_u32_lt [of n] by (auto simp: checked_add32_def word_le_nat_alt)
  moreover have "unat pl < 2 ^ 32" using unat_u32_lt .
  moreover have "unat (vg_bump v) + unat n < 2 ^ 32 \<Longrightarrow> unat (vg_bump v + n) = unat (vg_bump v) + unat n" using unat_plus_if' [of "vg_bump v" n] by simp
  ultimately show ?thesis using None assms(3) P by (auto simp: belegen_def word_less_nat_alt split: if_splits)
next
  case (Some x)
  then obtain ys zs where s: "xs = ys @ x # zs" "n \<le> laenge A abl x" "\<forall>y\<in>set ys. laenge A abl y < n"
    using find_split [of "\<lambda>x. n \<le> laenge A abl x" xs x] by (auto simp: not_le)
  have r: "remove1 x xs = ys @ zs" using assms(2) s(1) by (simp add: remove1_append)
  show ?thesis using suchen_takes [OF assms(1) [unfolded s(1)] assms(2) [unfolded s(1)] s(3,2) assms(3)] Some assms(3) r
    by (auto simp: belegen_def)
qed

end

end
