(* ===== verification/PdTable.thy ===== *)
theory PdTable
  imports CspacePool CapSpace SchedIf
begin

text \<open>
  The table of protection domains (\<open>caprock-microkit/src/lib.rs\<close>, \<open>PdTable\<close>): entries with their domain,
  budget and run of capability slots, the owner table that maps a thread to its domain, and the edges and
  side-car slots of redirected system calls. The counters of the measurement report (\<open>PD_OF_CALLS\<close> and
  the like) are left out. \<open>None\<close> is a panic.
\<close>

section \<open>Data\<close>

definition NPDS :: nat where "NPDS = 10000"
definition NCAPS :: nat where "NCAPS = unat STANDARD_PLAETZE"
definition CAP_BUDGET_PER_PD :: nat where "CAP_BUDGET_PER_PD = 10"
definition CAP_BUDGET_MAX :: nat where "CAP_BUDGET_MAX = NCAPS"
definition CAP_SLOTS_FOR_ALL_PDS :: nat where "CAP_SLOTS_FOR_ALL_PDS = NPDS * CAP_BUDGET_PER_PD"
definition GRANT_RECV_SLOT :: nat where "GRANT_RECV_SLOT = 1"
definition KEIN_HANDLER_PD :: u16 where "KEIN_HANDLER_PD = 0xffff"
definition SIDECAR_SLOTS :: u16 where "SIDECAR_SLOTS = 64"

datatype Domain = TrustedSas | HardwareLand | UserLand

record Pd =
  pd_used :: bool
  pd_thread :: "ThreadId option"
  pd_nthreads :: u32
  pd_epoch :: u32
  pd_cspace_start :: u32
  pd_cspace_len :: u32
  pd_freilauf_next :: u32
  pd_cap_budget :: u16
  pd_domain :: Domain
  pd_partner :: "u16 option"
  pd_quiescing :: bool
  pd_backend_id :: u16
  pd_chan_ep :: u32
  pd_chan_ntfn :: u32
  pd_irq_ntfn :: u32
  pd_recv_slot :: nat
  pd_handler_pd :: u16
  pd_handler_bound :: u32
  pd_sidecar_used :: u64

definition Pd_EMPTY :: Pd where
  "Pd_EMPTY = \<lparr>pd_used = False, pd_thread = None, pd_nthreads = 0, pd_epoch = 0, pd_cspace_start = 0, pd_cspace_len = 0,
     pd_freilauf_next = 0, pd_cap_budget = of_nat CAP_BUDGET_PER_PD, pd_domain = TrustedSas, pd_partner = None, pd_quiescing = False,
     pd_backend_id = 0, pd_chan_ep = 0xffffffff, pd_chan_ntfn = 0xffffffff, pd_irq_ntfn = 0xffffffff, pd_recv_slot = GRANT_RECV_SLOT,
     pd_handler_pd = KEIN_HANDLER_PD, pd_handler_bound = 0, pd_sidecar_used = 0\<rparr>"

record ThreadOwner =
  to_tid :: u64
  to_pd1 :: u32
  to_epoch :: u32

definition ThreadOwner_EMPTY :: ThreadOwner where
  "ThreadOwner_EMPTY = \<lparr>to_tid = 0, to_pd1 = 0, to_epoch = 0\<rparr>"

record PdTable =
  pt_pds :: "Pd list"
  pt_owner :: "ThreadOwner list"
  pt_budget_vorrat :: nat
  pt_budget_abgewiesen :: u64
  pt_pool :: "CapPtr option list"
  pt_vergabe :: Vergabe
  pt_budget_deckel :: u16
  pt_deckel_abgewiesen :: u64
  pt_cspace_abgewiesen :: u64

definition PdTable_new :: PdTable where
  "PdTable_new = \<lparr>pt_pds = [], pt_owner = [], pt_budget_vorrat = CAP_SLOTS_FOR_ALL_PDS, pt_budget_abgewiesen = 0, pt_pool = [],
     pt_vergabe = Vergabe_neu, pt_budget_deckel = of_nat CAP_BUDGET_MAX, pt_deckel_abgewiesen = 0, pt_cspace_abgewiesen = 0\<rparr>"

text \<open>The entries as the store of the anchors.\<close>

definition pd_ablage :: "Pd list AnkerAblage" where
  "pd_ablage = \<lparr>
     aa_anzahl = length,
     aa_lese = (\<lambda>pds i. do { p \<leftarrow> tget pds i; Some \<lparr>ca_start = pd_cspace_start p, ca_len = pd_cspace_len p, ca_naechster = pd_freilauf_next p\<rparr> }),
     aa_schreibe = (\<lambda>pds i a. tupd pds i (\<lambda>p. p\<lparr>pd_cspace_start := ca_start a, pd_cspace_len := ca_len a, pd_freilauf_next := ca_naechster a\<rparr>))\<rparr>"

section \<open>Creating and freeing\<close>

text \<open>A table access that the code guards: the entry if it exists and is in use.\<close>

definition pd_live :: "PdTable \<Rightarrow> nat \<Rightarrow> bool" where
  "pd_live t pd \<longleftrightarrow> pd < length (pt_pds t) \<and> pd_used (pt_pds t ! pd)"

definition modpd :: "PdTable \<Rightarrow> nat \<Rightarrow> (Pd \<Rightarrow> Pd) \<Rightarrow> PdTable" where
  "modpd t i f = t\<lparr>pt_pds := (pt_pds t)[i := f (pt_pds t ! i)]\<rparr>"

definition freien_slot_suchen :: "PdTable \<Rightarrow> nat option" where
  "freien_slot_suchen t = position (\<lambda>p. \<not> pd_used p) (pt_pds t)"

definition pool_len :: "PdTable \<Rightarrow> u32" where
  "pool_len t = of_nat (min (length (pt_pool t)) 0xffffffff)"

definition create_mit_budget_und_cspace :: "PdTable \<Rightarrow> Domain \<Rightarrow> u16 \<Rightarrow> u32 \<Rightarrow> (PdTable \<times> (CspaceAbweisung + nat)) option" where
  "create_mit_budget_und_cspace t domain budget plaetze =
     (case anforderung_aufloesen (ucast budget) plaetze (ucast (pt_budget_deckel t)) (of_nat CAP_BUDGET_PER_PD) of
        Inl (DeckelUeberschritten v d) \<Rightarrow>
          Some (t\<lparr>pt_deckel_abgewiesen := saturating_add64 (pt_deckel_abgewiesen t) 1\<rparr>, Inl (DeckelUeberschritten v d))
      | Inl (BudgetPasstNicht b p) \<Rightarrow>
          Some (t\<lparr>pt_deckel_abgewiesen := saturating_add64 (pt_deckel_abgewiesen t) 1\<rparr>, Inl (BudgetPasstNicht b p))
      | Inl e \<Rightarrow> Some (t, Inl e)
      | Inr anf \<Rightarrow>
          if unat (an_budget anf) > pt_budget_vorrat t then
            Some (t\<lparr>pt_budget_abgewiesen := saturating_add64 (pt_budget_abgewiesen t) 1\<rparr>,
              Inl (VorratErschoepft (an_budget anf) (of_nat (min (pt_budget_vorrat t) 0xffffffff))))
          else
            (case freien_slot_suchen t of
               None \<Rightarrow> Some (t, Inl KeinePdFrei)
             | Some i \<Rightarrow> do {
                 (v, pds, r) \<leftarrow> belegen pd_ablage (pt_vergabe t) (pt_pds t) (pool_len t) (an_plaetze anf);
                 let t1 = t\<lparr>pt_vergabe := v, pt_pds := pds\<rparr>;
                 case r of
                   Inl e \<Rightarrow> Some (t1\<lparr>pt_cspace_abgewiesen := saturating_add64 (pt_cspace_abgewiesen t) 1\<rparr>, Inl e)
                 | Inr (start, len) \<Rightarrow>
                     Some ((modpd t1 i (\<lambda>p. Pd_EMPTY\<lparr>pd_used := True, pd_domain := domain, pd_epoch := pd_epoch p,
                              pd_cap_budget := ucast (an_budget anf), pd_cspace_start := start, pd_cspace_len := len, pd_freilauf_next := 0\<rparr>))
                           \<lparr>pt_budget_vorrat := pt_budget_vorrat t - unat (an_budget anf)\<rparr>, Inr i)
               }))"

definition create_mit_budget :: "PdTable \<Rightarrow> Domain \<Rightarrow> u16 \<Rightarrow> (PdTable \<times> nat option) option" where
  "create_mit_budget t domain budget = map_option (\<lambda>(t', r). (t', case r of Inl _ \<Rightarrow> None | Inr i \<Rightarrow> Some i)) (create_mit_budget_und_cspace t domain budget 0)"

definition create_in_domain :: "PdTable \<Rightarrow> Domain \<Rightarrow> (PdTable \<times> nat option) option" where
  "create_in_domain t domain = create_mit_budget t domain 0"

definition pd_create :: "PdTable \<Rightarrow> (PdTable \<times> nat option) option" where
  "pd_create t = create_in_domain t TrustedSas"

definition create_hardware_backend :: "PdTable \<Rightarrow> nat \<Rightarrow> u16 \<Rightarrow> u32 \<Rightarrow> u32 \<Rightarrow> (PdTable \<times> nat option) option" where
  "create_hardware_backend t partner backend_id ep ntfn =
     (if partner \<ge> length (pt_pds t) then Some (t, None)
      else case freien_slot_suchen t of
        None \<Rightarrow> Some (t, None)
      | Some i \<Rightarrow> do {
          (v, pds, r) \<leftarrow> belegen pd_ablage (pt_vergabe t) (pt_pds t) (pool_len t) (of_nat NCAPS);
          let t1 = t\<lparr>pt_vergabe := v, pt_pds := pds\<rparr>;
          case r of
            Inl e \<Rightarrow> Some (t1, None)
          | Inr (start, len) \<Rightarrow>
              Some (modpd t1 i (\<lambda>p. Pd_EMPTY\<lparr>pd_used := True, pd_domain := HardwareLand, pd_partner := Some (of_nat partner),
                      pd_backend_id := backend_id, pd_chan_ep := ep, pd_chan_ntfn := ntfn, pd_epoch := pd_epoch p,
                      pd_cspace_start := start, pd_cspace_len := len, pd_freilauf_next := 0\<rparr>), Some i)
        })"

text \<open>\<open>iter_mut().skip(start).take(len)\<close>: slots past the end of the pool are skipped.\<close>

definition clear_run :: "'b option list \<Rightarrow> nat \<Rightarrow> nat \<Rightarrow> 'b option list" where
  "clear_run pool start len = map (\<lambda>i. if start \<le> i \<and> i < start + len then None else pool ! i) [0..<length pool]"

definition pd_free :: "PdTable \<Rightarrow> nat \<Rightarrow> (PdTable \<times> bool) option" where
  "pd_free t pd =
     (if pd_live t pd then do {
        let p = pt_pds t ! pd;
        let e = pd_epoch p + 1;
        let t1 = t\<lparr>pt_budget_vorrat := min (pt_budget_vorrat t + unat (pd_cap_budget p)) CAP_SLOTS_FOR_ALL_PDS,
                   pt_pool := clear_run (pt_pool t) (unat (pd_cspace_start p)) (unat (pd_cspace_len p))\<rparr>;
        (v, pds) \<leftarrow> freigeben pd_ablage (pt_vergabe t) (pt_pds t) pd;
        Some (t1\<lparr>pt_vergabe := v, pt_pds := pds[pd := Pd_EMPTY\<lparr>pd_epoch := e\<rparr>]\<rparr>, True)
      }
      else Some (t, False))"

definition set_budget_deckel :: "PdTable \<Rightarrow> u16 \<Rightarrow> PdTable" where
  "set_budget_deckel t d = t\<lparr>pt_budget_deckel := d\<rparr>"

definition budget_of :: "PdTable \<Rightarrow> nat \<Rightarrow> nat" where
  "budget_of t pd = (if pd_live t pd then unat (pd_cap_budget (pt_pds t ! pd)) else 0)"

section \<open>Redirection\<close>

definition handler_pd_of :: "PdTable \<Rightarrow> nat \<Rightarrow> u16 option" where
  "handler_pd_of t pd =
     (if pd_live t pd \<and> pd_handler_pd (pt_pds t ! pd) \<noteq> KEIN_HANDLER_PD then Some (pd_handler_pd (pt_pds t ! pd)) else None)"

definition trailing_ones :: "u64 \<Rightarrow> nat" where
  "trailing_ones w = length (takeWhile (bit w) [0..<64])"

definition count_ones :: "u64 \<Rightarrow> nat" where
  "count_ones w = length (filter (bit w) [0..<64])"

definition sidecar_belegen :: "PdTable \<Rightarrow> nat \<Rightarrow> PdTable \<times> u16 option" where
  "sidecar_belegen t handler_pd =
     (if \<not> pd_live t handler_pd then (t, None)
      else let frei = pd_sidecar_used (pt_pds t ! handler_pd) in
        if frei = - 1 then (t, None)
        else let slot = trailing_ones frei in
          (modpd t handler_pd (\<lambda>p. p\<lparr>pd_sidecar_used := frei OR push_bit slot 1\<rparr>), Some (of_nat slot)))"

definition sidecar_freigeben :: "PdTable \<Rightarrow> nat \<Rightarrow> u16 \<Rightarrow> PdTable \<times> bool" where
  "sidecar_freigeben t handler_pd slot =
     (if \<not> pd_live t handler_pd \<or> slot \<ge> SIDECAR_SLOTS then (t, False)
      else let b = push_bit (unat slot) 1; u = pd_sidecar_used (pt_pds t ! handler_pd) in
        (modpd t handler_pd (\<lambda>p. p\<lparr>pd_sidecar_used := u AND NOT b\<rparr>), u AND b \<noteq> 0))"

definition sidecar_frei :: "PdTable \<Rightarrow> nat \<Rightarrow> u16" where
  "sidecar_frei t handler_pd =
     (if \<not> pd_live t handler_pd then 0 else SIDECAR_SLOTS - of_nat (count_ones (pd_sidecar_used (pt_pds t ! handler_pd))))"

definition handler_kante_setzen :: "PdTable \<Rightarrow> nat \<Rightarrow> u16 \<Rightarrow> PdTable \<times> bool" where
  "handler_kante_setzen t gast handler =
     (if \<not> pd_live t gast then (t, False)
      else (modpd t gast (\<lambda>p. p\<lparr>pd_handler_pd := handler, pd_handler_bound := pd_handler_bound p + 1\<rparr>), True))"

definition handler_kante_loesen :: "PdTable \<Rightarrow> nat \<Rightarrow> PdTable \<times> bool" where
  "handler_kante_loesen t gast =
     (if \<not> pd_live t gast \<or> pd_handler_bound (pt_pds t ! gast) = 0 then (t, False)
      else (modpd t gast (\<lambda>p. let b = pd_handler_bound p - 1 in
              p\<lparr>pd_handler_bound := b, pd_handler_pd := (if b = 0 then KEIN_HANDLER_PD else pd_handler_pd p)\<rparr>), True))"

definition handler_bound_of :: "PdTable \<Rightarrow> nat \<Rightarrow> u32" where
  "handler_bound_of t pd = (if pd_live t pd then pd_handler_bound (pt_pds t ! pd) else 0)"

definition handler_lebt :: "PdTable \<Rightarrow> u16 \<Rightarrow> bool" where
  "handler_lebt t handler_pd \<longleftrightarrow> pd_live t (unat handler_pd) \<and> \<not> pd_quiescing (pt_pds t ! unat handler_pd)"

section \<open>Questions and settings\<close>

definition set_quiescing :: "PdTable \<Rightarrow> nat \<Rightarrow> bool \<Rightarrow> PdTable \<times> bool" where
  "set_quiescing t pd an =
     (if \<not> pd_live t pd \<or> pd_quiescing (pt_pds t ! pd) = an then (t, False)
      else (modpd t pd (\<lambda>p. p\<lparr>pd_quiescing := an\<rparr>), True))"

definition is_quiescing :: "PdTable \<Rightarrow> nat \<Rightarrow> bool" where
  "is_quiescing t pd \<longleftrightarrow> pd_live t pd \<and> pd_quiescing (pt_pds t ! pd)"

definition quiescing_count :: "PdTable \<Rightarrow> nat" where
  "quiescing_count t = length (filter (\<lambda>p. pd_used p \<and> pd_quiescing p) (pt_pds t))"

definition domain_of :: "PdTable \<Rightarrow> nat \<Rightarrow> Domain option" where
  "domain_of t pd = (if pd_live t pd then Some (pd_domain (pt_pds t ! pd)) else None)"

definition pd_partner_of :: "PdTable \<Rightarrow> nat \<Rightarrow> nat option" where
  "pd_partner_of t pd = (if pd < length (pt_pds t) then map_option unat (pd_partner (pt_pds t ! pd)) else None)"

definition backend_id_of :: "PdTable \<Rightarrow> nat \<Rightarrow> u16" where
  "backend_id_of t pd = (if pd < length (pt_pds t) then pd_backend_id (pt_pds t ! pd) else 0)"

definition irq_ntfn_of :: "PdTable \<Rightarrow> nat \<Rightarrow> u32" where
  "irq_ntfn_of t pd = (if pd < length (pt_pds t) then pd_irq_ntfn (pt_pds t ! pd) else 0xffffffff)"

definition set_irq_ntfn :: "PdTable \<Rightarrow> nat \<Rightarrow> u32 \<Rightarrow> PdTable \<times> bool" where
  "set_irq_ntfn t pd n = (if pd_live t pd then (modpd t pd (\<lambda>p. p\<lparr>pd_irq_ntfn := n\<rparr>), True) else (t, False))"

definition chan_of :: "PdTable \<Rightarrow> nat \<Rightarrow> u32 \<times> u32" where
  "chan_of t pd = (if pd < length (pt_pds t) then (pd_chan_ep (pt_pds t ! pd), pd_chan_ntfn (pt_pds t ! pd)) else (0xffffffff, 0xffffffff))"

definition used_count :: "PdTable \<Rightarrow> nat" where
  "used_count t = length (filter pd_used (pt_pds t))"

definition thread_of :: "PdTable \<Rightarrow> nat \<Rightarrow> ThreadId option" where
  "thread_of t pd = (if pd < length (pt_pds t) then pd_thread (pt_pds t ! pd) else None)"

text \<open>\<open>attach\<close>, \<open>attach_cspace_pool\<close> (which panics the second time) and \<open>attach_owner\<close>.\<close>

definition pt_attach :: "PdTable \<Rightarrow> nat \<Rightarrow> PdTable" where
  "pt_attach t n = t\<lparr>pt_pds := replicate n Pd_EMPTY\<rparr>"

definition attach_cspace_pool :: "PdTable \<Rightarrow> nat \<Rightarrow> PdTable option" where
  "attach_cspace_pool t n = (if pt_pool t = [] then Some (t\<lparr>pt_pool := replicate n None\<rparr>) else None)"

definition attach_owner :: "PdTable \<Rightarrow> nat \<Rightarrow> PdTable" where
  "attach_owner t n = t\<lparr>pt_owner := replicate n ThreadOwner_EMPTY\<rparr>"

section \<open>Threads\<close>

definition leave_pd :: "PdTable \<Rightarrow> ThreadOwner \<Rightarrow> PdTable" where
  "leave_pd t alt =
     (if to_pd1 alt \<noteq> 0 then
        let ap = unat (to_pd1 alt - 1) in
        if ap < length (pt_pds t) \<and> pd_epoch (pt_pds t ! ap) = to_epoch alt \<and> pd_nthreads (pt_pds t ! ap) > 0
        then modpd t ap (\<lambda>p. p\<lparr>pd_nthreads := pd_nthreads p - 1\<rparr>) else t
      else t)"

definition bind_thread :: "PdTable \<Rightarrow> nat \<Rightarrow> ThreadId \<Rightarrow> PdTable" where
  "bind_thread t pd thread =
     (if pd \<ge> length (pt_pds t) then t
      else
        let s = t_slot thread;
            t1 = (if s < length (pt_owner t) then
                    let t0 = leave_pd t (pt_owner t ! s);
                        t2 = t0\<lparr>pt_owner := (pt_owner t0)[s := \<lparr>to_tid = to_raw thread, to_pd1 = of_nat (pd + 1), to_epoch = pd_epoch (pt_pds t0 ! pd)\<rparr>]\<rparr>
                    in modpd t2 pd (\<lambda>p. p\<lparr>pd_nthreads := pd_nthreads p + 1\<rparr>)
                  else t)
        in if pd_thread (pt_pds t1 ! pd) = None then modpd t1 pd (\<lambda>p. p\<lparr>pd_thread := Some thread\<rparr>) else t1)"

definition pd_of :: "PdTable \<Rightarrow> ThreadId \<Rightarrow> nat option" where
  "pd_of t thread =
     (let s = t_slot thread in
      if pt_owner t \<noteq> [] then
        if s \<ge> length (pt_owner t) then None
        else let e = pt_owner t ! s in
          if to_pd1 e = 0 \<or> to_tid e \<noteq> to_raw thread then None
          else let pd = unat (to_pd1 e - 1) in
            if pd_live t pd \<and> pd_epoch (pt_pds t ! pd) = to_epoch e then Some pd else None
      else position (\<lambda>p. pd_used p \<and> pd_thread p = Some thread) (pt_pds t))"

definition belongs :: "PdTable \<Rightarrow> nat \<Rightarrow> ThreadOwner \<Rightarrow> bool" where
  "belongs t pd e \<longleftrightarrow> to_pd1 e = of_nat (pd + 1) \<and> to_epoch e = pd_epoch (pt_pds t ! pd)"

definition any_thread :: "PdTable \<Rightarrow> nat \<Rightarrow> (ThreadId \<Rightarrow> bool) \<Rightarrow> bool" where
  "any_thread t pd praedikat \<longleftrightarrow>
     (if \<not> pd_live t pd then False
      else if pt_owner t = [] then (case pd_thread (pt_pds t ! pd) of None \<Rightarrow> False | Some th \<Rightarrow> praedikat th)
      else list_ex (\<lambda>e. belongs t pd e \<and> praedikat (from_raw (to_tid e))) (pt_owner t))"

definition any_thread_of :: "PdTable \<Rightarrow> nat \<Rightarrow> ThreadId option" where
  "any_thread_of t pd =
     (if \<not> pd_live t pd then None
      else if pt_owner t = [] then pd_thread (pt_pds t ! pd)
      else map_option (\<lambda>e. from_raw (to_tid e)) (List.find (belongs t pd) (pt_owner t)))"

definition thread_count :: "PdTable \<Rightarrow> nat \<Rightarrow> u32" where
  "thread_count t pd = (if pd_live t pd then pd_nthreads (pt_pds t ! pd) else 0)"

definition max_threads_per_pd :: "PdTable \<Rightarrow> u32" where
  "max_threads_per_pd t = fold (\<lambda>p m. max (pd_nthreads p) m) (pt_pds t) 0"

section \<open>Capability slots\<close>

definition cspace_len_von :: "PdTable \<Rightarrow> nat \<Rightarrow> nat" where
  "cspace_len_von t pd = (if pd_live t pd then unat (pd_cspace_len (pt_pds t ! pd)) else 0)"

definition cspace_pool_belegt :: "PdTable \<Rightarrow> nat" where
  "cspace_pool_belegt t = length (filter (\<lambda>s. s \<noteq> None) (pt_pool t))"

text \<open>\<open>get_mut(idx)\<close>: past the end of the pool nothing happens.\<close>

definition set_cap_slot :: "PdTable \<Rightarrow> nat \<Rightarrow> nat \<Rightarrow> CapPtr option \<Rightarrow> PdTable" where
  "set_cap_slot t pd slot c =
     (if pd < length (pt_pds t) \<and> slot < unat (pd_cspace_len (pt_pds t ! pd))
      then t\<lparr>pt_pool := (pt_pool t)[unat (pd_cspace_start (pt_pds t ! pd)) + slot := c]\<rparr> else t)"

definition install_cap :: "PdTable \<Rightarrow> nat \<Rightarrow> nat \<Rightarrow> CapPtr \<Rightarrow> PdTable" where
  "install_cap t pd slot cap = set_cap_slot t pd slot (Some cap)"

definition clear_cap :: "PdTable \<Rightarrow> nat \<Rightarrow> nat \<Rightarrow> PdTable" where
  "clear_cap t pd slot = set_cap_slot t pd slot None"

definition set_recv_slot :: "PdTable \<Rightarrow> nat \<Rightarrow> nat \<Rightarrow> PdTable \<times> bool" where
  "set_recv_slot t pd slot =
     (if pd_live t pd \<and> slot < unat (pd_cspace_len (pt_pds t ! pd)) then (modpd t pd (\<lambda>p. p\<lparr>pd_recv_slot := slot\<rparr>), True) else (t, False))"

definition recv_slot :: "PdTable \<Rightarrow> nat \<Rightarrow> nat" where
  "recv_slot t pd = (if pd_live t pd then pd_recv_slot (pt_pds t ! pd) else GRANT_RECV_SLOT)"

text \<open>The index is masked by the sign of the difference, against speculation past the bound.\<close>

definition array_index_nospec :: "nat \<Rightarrow> nat \<Rightarrow> nat" where
  "array_index_nospec index len =
     (let d = (of_nat index :: u64) - of_nat len; mask = (if bit d 63 then - 1 else 0) in unat (of_nat index AND mask :: u64))"

definition cap_at :: "PdTable \<Rightarrow> nat \<Rightarrow> nat \<Rightarrow> CapPtr option" where
  "cap_at t pd slot =
     (let len = cspace_len_von t pd in
      if slot < len
      then Option.bind (tget (pt_pool t) (unat (pd_cspace_start (pt_pds t ! pd)) + array_index_nospec slot len)) id
      else None)"

definition caps_of :: "PdTable \<Rightarrow> nat \<Rightarrow> CapPtr option list" where
  "caps_of t pd =
     (if pd_live t pd then
        let n = min (unat (pd_cspace_len (pt_pds t ! pd))) NCAPS;
            src = take n (drop (unat (pd_cspace_start (pt_pds t ! pd))) (pt_pool t))
        in src @ replicate (NCAPS - length src) None
      else replicate NCAPS None)"

definition cap_count :: "PdTable \<Rightarrow> nat \<Rightarrow> nat" where
  "cap_count t pd =
     (if pd_live t pd then
        length (filter (\<lambda>c. c \<noteq> None) (take (unat (pd_cspace_len (pt_pds t ! pd))) (drop (unat (pd_cspace_start (pt_pds t ! pd))) (pt_pool t))))
      else 0)"

definition free_cap_slot :: "PdTable \<Rightarrow> nat \<Rightarrow> nat option" where
  "free_cap_slot t pd = List.find (\<lambda>s. cap_at t pd s = None) [0..<cspace_len_von t pd]"

end
