(* ===== verification/PdInv.thy ===== *)
theory PdInv
  imports PdTable
begin

text \<open>
  Invariants of the table of protection domains: creation always returns, the runs of capability slots of
  different domains are disjoint as long as nothing was freed, the budget account balances, and the owner
  table knows every thread of a domain. Freeing a domain leaves the pool in a state in which a later
  creation hands out the run of a living domain a second time.
\<close>

section \<open>The store of the anchors\<close>

interpretation pdst: anker_store pd_ablage
proof
  fix abl :: "Pd list" and i j a abl'
  show "(aa_lese pd_ablage abl i \<noteq> None) = (i < aa_anzahl pd_ablage abl)" by (simp add: pd_ablage_def tget_def)
  show "i < aa_anzahl pd_ablage abl \<Longrightarrow> \<exists>abl'. aa_schreibe pd_ablage abl i a = Some abl'" by (simp add: pd_ablage_def tupd_def)
  show "aa_schreibe pd_ablage abl i a = Some abl' \<Longrightarrow>
    aa_anzahl pd_ablage abl' = aa_anzahl pd_ablage abl \<and> aa_lese pd_ablage abl' j = (if j = i then Some a else aa_lese pd_ablage abl j)"
    by (auto simp: pd_ablage_def tupd_def tget_def nth_list_update split: if_splits)
qed

text \<open>No entry carries a link, so the chain has at most one element.\<close>

definition pt_wf :: "PdTable \<Rightarrow> bool" where
  "pt_wf t \<longleftrightarrow> (\<forall>p\<in>set (pt_pds t). pd_freilauf_next p = 0) \<and> unat (vg_kopf (pt_vergabe t)) \<le> length (pt_pds t) \<and> length (pt_pds t) < 2 ^ 16 - 1"

lemma pt_wf_nth: "pt_wf t \<Longrightarrow> i < length (pt_pds t) \<Longrightarrow> pd_freilauf_next (pt_pds t ! i) = 0"
  by (simp add: pt_wf_def)

text \<open>The entry that the head of the chain names.\<close>

definition kopf_pd :: "PdTable \<Rightarrow> nat" where
  "kopf_pd t = unat (vg_kopf (pt_vergabe t) - 1)"

lemma kopf_pd_less:
  assumes "pt_wf t" "vg_kopf (pt_vergabe t) \<noteq> 0"
  shows "kopf_pd t < length (pt_pds t)" "vg_kopf (pt_vergabe t) = of_nat (Suc (kopf_pd t))"
proof -
  have u: "unat (vg_kopf (pt_vergabe t)) \<noteq> 0" using assms(2) by (simp add: unat_eq_0)
  have k: "kopf_pd t = unat (vg_kopf (pt_vergabe t)) - 1" using unat_minus_one [OF assms(2)] by (simp add: kopf_pd_def)
  show "kopf_pd t < length (pt_pds t)" using assms(1) u unfolding pt_wf_def k by linarith
  have "Suc (kopf_pd t) = unat (vg_kopf (pt_vergabe t))" using u k by simp
  then show "vg_kopf (pt_vergabe t) = of_nat (Suc (kopf_pd t))" by simp
qed

lemma pd_belegen:
  assumes "pt_wf t" "0 < n"
  shows "belegen pd_ablage (pt_vergabe t) (pt_pds t) pl n =
    (if vg_kopf (pt_vergabe t) \<noteq> 0 \<and> n \<le> pd_cspace_len (pt_pds t ! kopf_pd t)
     then Some ((pt_vergabe t)\<lparr>vg_kopf := 0\<rparr>, pt_pds t, Inr (pd_cspace_start (pt_pds t ! kopf_pd t), pd_cspace_len (pt_pds t ! kopf_pd t)))
     else if unat (vg_bump (pt_vergabe t)) + unat n \<le> unat pl
     then Some ((pt_vergabe t)\<lparr>vg_bump := vg_bump (pt_vergabe t) + n\<rparr>, pt_pds t, Inr (vg_bump (pt_vergabe t), n))
     else Some (pt_vergabe t, pt_pds t, Inl (PoolErschoepft n (saturating_sub32 pl (vg_bump (pt_vergabe t))))))"
proof -
  let ?v = "pt_vergabe t" and ?k = "kopf_pd t"
  define xs where "xs = (if vg_kopf ?v = 0 then [] else [?k])"
  have c: "freilauf pd_ablage (pt_pds t) (vg_kopf ?v) xs" "distinct xs"
    using assms(1) kopf_pd_less [OF assms(1)] pt_wf_nth [OF assms(1), of ?k] by (auto simp: xs_def pd_ablage_def tget_def pt_wf_def)
  have l: "laenge pd_ablage (pt_pds t) ?k = pd_cspace_len (pt_pds t ! ?k)" if "vg_kopf ?v \<noteq> 0"
    using kopf_pd_less(1) [OF assms(1) that] by (simp add: laenge_def pd_ablage_def tget_def)
  show ?thesis
  proof (cases "vg_kopf ?v \<noteq> 0 \<and> n \<le> pd_cspace_len (pt_pds t ! ?k)")
    case False
    then have "List.find (\<lambda>x. n \<le> laenge pd_ablage (pt_pds t) x) xs = None" using l by (auto simp: xs_def)
    then show ?thesis using pdst.belegen_first_fit [OF c assms(2), of pl] False by auto
  next
    case True
    let ?p = "pt_pds t ! ?k"
    have k: "?k < length (pt_pds t)" using kopf_pd_less(1) assms(1) True by simp
    have f: "pd_freilauf_next ?p = 0" by (rule pt_wf_nth [OF assms(1) k])
    have "?p\<lparr>pd_cspace_start := pd_cspace_start ?p, pd_cspace_len := pd_cspace_len ?p, pd_freilauf_next := 0\<rparr> = ?p" using f by simp
    then have "aa_schreibe pd_ablage (pt_pds t) ?k \<lparr>ca_start = pd_cspace_start ?p, ca_len = pd_cspace_len ?p, ca_naechster = 0\<rparr> = Some (pt_pds t)"
      using k by (simp add: pd_ablage_def tupd_def)
    moreover have "aa_lese pd_ablage (pt_pds t) ?k = Some \<lparr>ca_start = pd_cspace_start ?p, ca_len = pd_cspace_len ?p, ca_naechster = 0\<rparr>"
      using k f by (simp add: pd_ablage_def tget_def)
    ultimately have "freilauf_suchen pd_ablage ?v (pt_pds t) n 0 (vg_kopf ?v) = Some (?v\<lparr>vg_kopf := 0\<rparr>, pt_pds t, Some (pd_cspace_start ?p, pd_cspace_len ?p))"
      using True by (subst freilauf_suchen.simps) (simp add: kopf_pd_def [symmetric] aushaken_def)
    then show ?thesis using True assms(2) by (auto simp: belegen_def)
  qed
qed

section \<open>Creation\<close>

text \<open>What a successful creation writes.\<close>

definition fresh_pd :: "Pd \<Rightarrow> bool" where
  "fresh_pd p \<longleftrightarrow> pd_used p \<and> pd_thread p = None \<and> pd_nthreads p = 0 \<and> pd_freilauf_next p = 0 \<and> pd_handler_pd p = KEIN_HANDLER_PD \<and>
     pd_handler_bound p = 0 \<and> pd_sidecar_used p = 0 \<and> \<not> pd_quiescing p"

text \<open>
  \<open>created t t' n i\<close>: entry \<open>i\<close> was free and now is a new domain with a run of at least \<open>n\<close> slots; the
  other entries, the owner table and the pool are as before. The run comes from the head of the chain or
  from the end of the used part.
\<close>

definition run_from :: "PdTable \<Rightarrow> u32 \<Rightarrow> u32 \<Rightarrow> u32 \<Rightarrow> Vergabe \<Rightarrow> bool" where
  "run_from t n start len v \<longleftrightarrow>
     (if vg_kopf (pt_vergabe t) \<noteq> 0 \<and> n \<le> pd_cspace_len (pt_pds t ! kopf_pd t)
      then start = pd_cspace_start (pt_pds t ! kopf_pd t) \<and> len = pd_cspace_len (pt_pds t ! kopf_pd t) \<and> v = (pt_vergabe t)\<lparr>vg_kopf := 0\<rparr>
      else unat (vg_bump (pt_vergabe t)) + unat n \<le> unat (pool_len t) \<and> start = vg_bump (pt_vergabe t) \<and> len = n \<and>
        v = (pt_vergabe t)\<lparr>vg_bump := vg_bump (pt_vergabe t) + n\<rparr>)"

definition created :: "PdTable \<Rightarrow> PdTable \<Rightarrow> u32 \<Rightarrow> nat \<Rightarrow> bool" where
  "created t t' n i \<longleftrightarrow>
     i < length (pt_pds t) \<and> \<not> pd_used (pt_pds t ! i) \<and> (\<forall>j<i. pd_used (pt_pds t ! j)) \<and>
     (\<exists>p. pt_pds t' = (pt_pds t)[i := p] \<and> fresh_pd p \<and> pd_epoch p = pd_epoch (pt_pds t ! i) \<and> 0 < n \<and> n \<le> pd_cspace_len p \<and>
        run_from t n (pd_cspace_start p) (pd_cspace_len p) (pt_vergabe t')) \<and>
     pt_owner t' = pt_owner t \<and> pt_pool t' = pt_pool t"

text \<open>\<open>refused t t'\<close>: nothing but the counters of refusals changed.\<close>

definition refused :: "PdTable \<Rightarrow> PdTable \<Rightarrow> bool" where
  "refused t t' \<longleftrightarrow> pt_pds t' = pt_pds t \<and> pt_owner t' = pt_owner t \<and> pt_pool t' = pt_pool t \<and> pt_vergabe t' = pt_vergabe t \<and>
     pt_budget_vorrat t' = pt_budget_vorrat t \<and> pt_budget_deckel t' = pt_budget_deckel t"

lemma pool_len_le: "unat (pool_len t) \<le> length (pt_pool t)"
proof -
  have "unat (pool_len t) = min (length (pt_pool t)) 0xffffffff" unfolding pool_len_def by (rule unat_of_nat_u32) simp
  then show ?thesis by simp
qed

definition plaetze_of :: "u32 \<Rightarrow> u32" where
  "plaetze_of l = (if l = 0 then STANDARD_PLAETZE else l)"

lemma aufloesen_pos: "anforderung_aufloesen b p d s = Inr anf \<Longrightarrow> an_plaetze anf = plaetze_of p \<and> 0 < an_plaetze anf \<and> an_budget anf \<le> an_plaetze anf \<and> an_budget anf \<le> d"
  by (auto simp: plaetze_of_def anforderung_aufloesen_def Let_def STANDARD_PLAETZE_def word_gt_0 not_less split: if_splits)

lemma created_run:
  assumes "pt_wf t" "0 < n" "freien_slot_suchen t = Some i" "belegen pd_ablage (pt_vergabe t) (pt_pds t) (pool_len t) n = Some (v, pds, r)"
  shows "pds = pt_pds t \<and> i < length (pt_pds t) \<and> \<not> pd_used (pt_pds t ! i) \<and> (\<forall>j<i. pd_used (pt_pds t ! j)) \<and>
    (case r of Inl e \<Rightarrow> v = pt_vergabe t | Inr (start, len) \<Rightarrow> n \<le> len \<and> run_from t n start len v)"
proof -
  have "pds = pt_pds t \<and> (case r of Inl e \<Rightarrow> v = pt_vergabe t | Inr (start, len) \<Rightarrow> n \<le> len \<and> run_from t n start len v)"
    using assms(4) unfolding pd_belegen [OF assms(1,2)] using assms(2) pool_len_le [of t]
    by (auto simp: run_from_def split: if_splits)
  then show ?thesis using position_SomeD [OF assms(3) [unfolded freien_slot_suchen_def]] by simp
qed

lemma create_cases:
  assumes "pt_wf t"
  shows "\<exists>t' r. create_mit_budget_und_cspace t d b l = Some (t', r) \<and>
    (case r of
       Inl e \<Rightarrow> refused t t'
     | Inr i \<Rightarrow> created t t' (plaetze_of l) i \<and> pd_domain (pt_pds t' ! i) = d \<and> unat (pd_cap_budget (pt_pds t' ! i)) \<le> pt_budget_vorrat t \<and>
         pt_budget_vorrat t' = pt_budget_vorrat t - unat (pd_cap_budget (pt_pds t' ! i)) \<and>
         unat (pd_cap_budget (pt_pds t' ! i)) \<le> unat (pd_cspace_len (pt_pds t' ! i)))"
proof (cases "anforderung_aufloesen (ucast b) l (ucast (pt_budget_deckel t)) (of_nat CAP_BUDGET_PER_PD)")
  case (Inl e)
  then show ?thesis by (cases e) (auto simp: create_mit_budget_und_cspace_def refused_def)
next
  case (Inr anf)
  note p = aufloesen_pos [OF Inr]
  show ?thesis
  proof (cases "unat (an_budget anf) > pt_budget_vorrat t \<or> freien_slot_suchen t = None")
    case True
    then show ?thesis using Inr by (auto simp: create_mit_budget_und_cspace_def refused_def)
  next
    case False
    then obtain i where i: "freien_slot_suchen t = Some i" by auto
    obtain v pds r where r: "belegen pd_ablage (pt_vergabe t) (pt_pds t) (pool_len t) (an_plaetze anf) = Some (v, pds, r)"
      using pd_belegen [OF assms, of "an_plaetze anf" "pool_len t"] p by (metis (full_types))
    have n: "an_plaetze anf = plaetze_of l" "0 < plaetze_of l" using p by auto
    note R = created_run [OF assms n(2) i r [unfolded n(1)]]
    have u: "unat (ucast (an_budget anf) :: u16) = unat (an_budget anf)"
    proof -
      have "unat (an_budget anf) \<le> take_bit 32 (unat (pt_budget_deckel t))" using p by (simp add: word_le_nat_alt unsigned_ucast_eq)
      also have "\<dots> \<le> unat (pt_budget_deckel t)" by (rule take_bit_nat_less_eq_self)
      also have "\<dots> < 2 ^ 16" using unsigned_less [where 'a = nat, of "pt_budget_deckel t"] by simp
      finally have "unat (an_budget anf) < 2 ^ 16" .
      then show ?thesis by (simp add: unsigned_ucast_eq take_bit_nat_eq_self)
    qed
    show ?thesis
    proof (cases r)
      case (Inl e)
      then show ?thesis using False Inr i r R n(1) by (simp add: create_mit_budget_und_cspace_def refused_def)
    next
      case (Inr sl)
      obtain start len where sl: "sl = (start, len)" by force
      have "unat (an_budget anf) \<le> unat len" using p R Inr sl n(1) by (auto simp: word_le_nat_alt intro: order_trans)
      then show ?thesis using False \<open>anforderung_aufloesen _ _ _ _ = Inr anf\<close> i r [unfolded n(1)] R Inr sl u n
        by (auto simp: create_mit_budget_und_cspace_def created_def modpd_def fresh_pd_def Pd_EMPTY_def)
    qed
  qed
qed

lemma backend_cases:
  assumes "pt_wf t"
  shows "\<exists>t' r. create_hardware_backend t partner bid ep nt = Some (t', r) \<and> pt_budget_vorrat t' = pt_budget_vorrat t \<and>
    (case r of
       None \<Rightarrow> refused t t'
     | Some i \<Rightarrow> created t t' (of_nat NCAPS) i \<and> pd_domain (pt_pds t' ! i) = HardwareLand \<and> pd_chan_ep (pt_pds t' ! i) = ep \<and> pd_chan_ntfn (pt_pds t' ! i) = nt \<and>
         pd_partner (pt_pds t' ! i) = Some (of_nat partner) \<and> pd_cap_budget (pt_pds t' ! i) = of_nat CAP_BUDGET_PER_PD)"
proof (cases "partner \<ge> length (pt_pds t) \<or> freien_slot_suchen t = None")
  case True
  then show ?thesis by (auto simp: create_hardware_backend_def refused_def)
next
  case False
  then obtain i where i: "freien_slot_suchen t = Some i" by auto
  have n: "0 < (of_nat NCAPS :: u32)" by (simp add: NCAPS_def STANDARD_PLAETZE_def)
  obtain v pds r where r: "belegen pd_ablage (pt_vergabe t) (pt_pds t) (pool_len t) (of_nat NCAPS) = Some (v, pds, r)"
    using pd_belegen [OF assms n, of "pool_len t"] by (metis (full_types))
  note R = created_run [OF assms n i r]
  show ?thesis
  proof (cases r)
    case (Inl e)
    then show ?thesis using False i r R by (simp add: create_hardware_backend_def refused_def)
  next
    case (Inr sl)
    obtain start len where sl: "sl = (start, len)" by force
    show ?thesis using False i r R Inr sl n
      by (auto simp: create_hardware_backend_def created_def modpd_def fresh_pd_def Pd_EMPTY_def)
  qed
qed

end
