(* ===== verification/PdSys.thy ===== *)
theory PdSys
  imports PdInv
begin

text \<open>
  The table of protection domains as a transition system, and what holds in its reachable states:
  disjoint runs of capability slots while nothing is freed, a balanced budget account while no hardware
  backend is created, and an exact owner table.
\<close>

section \<open>Steps\<close>

text \<open>Everything that neither creates nor frees a domain nor adds a handler. Threads are bound to living domains only.\<close>

inductive pt_quiet :: "PdTable \<Rightarrow> PdTable \<Rightarrow> bool" where
  pu_deckel: "pt_quiet t (set_budget_deckel t d)"
| pu_belegen: "sidecar_belegen t h = (t', s) \<Longrightarrow> pt_quiet t t'"
| pu_freigeben: "sidecar_freigeben t h s = (t', b) \<Longrightarrow> pt_quiet t t'"
| pu_loesen: "handler_kante_loesen t g = (t', b) \<Longrightarrow> pt_quiet t t'"
| pu_quiesce: "set_quiescing t pd an = (t', b) \<Longrightarrow> pt_quiet t t'"
| pu_irq: "set_irq_ntfn t pd n = (t', b) \<Longrightarrow> pt_quiet t t'"
| pu_recv: "set_recv_slot t pd s = (t', b) \<Longrightarrow> pt_quiet t t'"
| pu_install: "pt_quiet t (install_cap t pd s c)"
| pu_clear: "pt_quiet t (clear_cap t pd s)"
| pu_bind: "pd_live t pd \<Longrightarrow> pt_quiet t (bind_thread t pd th)"

inductive pt_use :: "PdTable \<Rightarrow> PdTable \<Rightarrow> bool" where
  pu_quiet: "pt_quiet t t' \<Longrightarrow> pt_use t t'"
| pu_setzen: "handler_kante_setzen t g h = (t', b) \<Longrightarrow> pt_use t t'"

text \<open>All steps; the flags say whether hardware backends are created and domains freed. The epoch of an entry does not wrap.\<close>

inductive pt_step :: "bool \<Rightarrow> bool \<Rightarrow> PdTable \<Rightarrow> PdTable \<Rightarrow> bool" for backends frees where
  ps_use: "pt_use t t' \<Longrightarrow> pt_step backends frees t t'"
| ps_create: "create_mit_budget_und_cspace t d b l = Some (t', r) \<Longrightarrow> pt_step backends frees t t'"
| ps_backend: "backends \<Longrightarrow> create_hardware_backend t partner bid ep nt = Some (t', r') \<Longrightarrow> pt_step backends frees t t'"
| ps_free: "frees \<Longrightarrow> pd_free t pd = Some (t', f) \<Longrightarrow> pd_live t pd \<longrightarrow> pd_epoch (pt_pds t ! pd) \<noteq> - 1 \<Longrightarrow> pt_step backends frees t t'"

text \<open>The state after the tables were attached at boot.\<close>

definition pt_boot :: "nat \<Rightarrow> nat \<Rightarrow> nat \<Rightarrow> PdTable option" where
  "pt_boot n pool owners = map_option (\<lambda>t. attach_owner t owners) (attach_cspace_pool (pt_attach PdTable_new n) pool)"

definition pt_init :: "PdTable \<Rightarrow> bool" where
  "pt_init t \<longleftrightarrow> (\<exists>n pool owners. n < 2 ^ 16 - 1 \<and> owners < 2 ^ 32 \<and> pt_boot n pool owners = Some t)"

lemma pt_initD:
  assumes "pt_init t"
  obtains n pool owners where "n < 2 ^ 16 - 1" "owners < 2 ^ 32" "pt_pds t = replicate n Pd_EMPTY" "pt_pool t = replicate pool None"
    "pt_owner t = replicate owners ThreadOwner_EMPTY" "pt_vergabe t = Vergabe_neu" "pt_budget_vorrat t = CAP_SLOTS_FOR_ALL_PDS"
  using assms by (auto simp: pt_init_def pt_boot_def attach_cspace_pool_def pt_attach_def attach_owner_def PdTable_new_def)

section \<open>What the operations leave alone\<close>

text \<open>The part of an entry that only creating and freeing change.\<close>

definition core_of :: "Pd \<Rightarrow> (bool \<times> u32 \<times> u32 \<times> u32) \<times> u32 \<times> u16 \<times> Domain \<times> (u16 option \<times> u32 \<times> u32)" where
  "core_of p = ((pd_used p, pd_cspace_start p, pd_cspace_len p, pd_freilauf_next p), pd_epoch p, pd_cap_budget p, pd_domain p,
     (pd_partner p, pd_chan_ep p, pd_chan_ntfn p))"

definition same_core :: "PdTable \<Rightarrow> PdTable \<Rightarrow> bool" where
  "same_core t t' \<longleftrightarrow> map core_of (pt_pds t') = map core_of (pt_pds t) \<and> pt_vergabe t' = pt_vergabe t \<and> length (pt_pool t') = length (pt_pool t) \<and>
     length (pt_owner t') = length (pt_owner t) \<and> pt_budget_vorrat t' = pt_budget_vorrat t"

lemma same_core_refl [simp]: "same_core t t"
  by (simp add: same_core_def)

lemma same_core_trans: "same_core t u \<Longrightarrow> same_core u v \<Longrightarrow> same_core t v"
  by (simp add: same_core_def)

lemma map_update_same:
  assumes "\<And>x. f (g x) = f x"
  shows "map f (xs[i := g (xs ! i)]) = map f xs"
proof (cases "i < length xs")
  case True
  then show ?thesis using list_update_id [of "map f xs" i] by (simp add: map_update assms)
qed (simp add: not_less list_update_beyond)

lemma modpd_same: "(\<And>p. core_of (f p) = core_of p) \<Longrightarrow> same_core t (modpd t i f)"
  using map_update_same [of core_of f "pt_pds t" i] by (simp add: same_core_def modpd_def)

lemma bind_same: "same_core t (bind_thread t pd th)"
proof -
  have l: "same_core t (leave_pd t alt)" for t alt by (auto simp: leave_pd_def Let_def core_of_def intro!: modpd_same)
  have o: "same_core t (t\<lparr>pt_owner := (pt_owner t)[s := e]\<rparr>)" for t s e by (simp add: same_core_def)
  have m: "same_core t u \<Longrightarrow> (\<And>p. core_of (f p) = core_of p) \<Longrightarrow> same_core t (modpd u i f)" for t u f i using modpd_same same_core_trans by blast
  show ?thesis unfolding bind_thread_def Let_def
    by (auto simp: core_of_def intro!: m same_core_trans [OF l o])
qed

lemma quiet_same: "pt_quiet t t' \<Longrightarrow> same_core t t'"
  by (induction rule: pt_quiet.induct)
    (auto simp: set_budget_deckel_def sidecar_belegen_def sidecar_freigeben_def handler_kante_loesen_def set_quiescing_def
      set_irq_ntfn_def set_recv_slot_def install_cap_def clear_cap_def set_cap_slot_def Let_def core_of_def
      intro!: modpd_same bind_same split: if_splits, simp_all add: same_core_def)

lemma use_same: "pt_use t t' \<Longrightarrow> same_core t t'"
  by (induction rule: pt_use.induct) (auto simp: handler_kante_setzen_def core_of_def intro!: quiet_same modpd_same split: if_splits)

lemma same_core_nth:
  assumes "same_core t t'"
  shows "length (pt_pds t') = length (pt_pds t)" "i < length (pt_pds t) \<Longrightarrow> core_of (pt_pds t' ! i) = core_of (pt_pds t ! i)"
proof -
  have m: "map core_of (pt_pds t') = map core_of (pt_pds t)" using assms by (simp add: same_core_def)
  show l: "length (pt_pds t') = length (pt_pds t)" using m by (metis length_map)
  show "i < length (pt_pds t) \<Longrightarrow> core_of (pt_pds t' ! i) = core_of (pt_pds t ! i)" using m l by (metis nth_map)
qed

lemma same_core_fields:
  assumes "same_core t t'" "i < length (pt_pds t)"
  shows "pd_used (pt_pds t' ! i) = pd_used (pt_pds t ! i)" "pd_cspace_start (pt_pds t' ! i) = pd_cspace_start (pt_pds t ! i)"
    "pd_cspace_len (pt_pds t' ! i) = pd_cspace_len (pt_pds t ! i)" "pd_freilauf_next (pt_pds t' ! i) = pd_freilauf_next (pt_pds t ! i)"
    "pd_epoch (pt_pds t' ! i) = pd_epoch (pt_pds t ! i)" "pd_cap_budget (pt_pds t' ! i) = pd_cap_budget (pt_pds t ! i)"
    "pd_domain (pt_pds t' ! i) = pd_domain (pt_pds t ! i)" "pd_partner (pt_pds t' ! i) = pd_partner (pt_pds t ! i)"
    "pd_chan_ep (pt_pds t' ! i) = pd_chan_ep (pt_pds t ! i)" "pd_chan_ntfn (pt_pds t' ! i) = pd_chan_ntfn (pt_pds t ! i)"
  using same_core_nth(2) [OF assms] by (simp_all add: core_of_def)

lemma same_core_live: "same_core t t' \<Longrightarrow> pd_live t' i = pd_live t i"
  using same_core_nth(1) [of t t'] same_core_fields(1) [of t t' i] by (auto simp: pd_live_def)

section \<open>Well-formed tables\<close>

lemma wf_all: "pt_wf t \<longleftrightarrow> (\<forall>i<length (pt_pds t). pd_freilauf_next (pt_pds t ! i) = 0) \<and> unat (vg_kopf (pt_vergabe t)) \<le> length (pt_pds t) \<and> length (pt_pds t) < 2 ^ 16 - 1"
  by (auto simp: pt_wf_def all_set_conv_all_nth)

lemma wf_same: "same_core t t' \<Longrightarrow> pt_wf t \<Longrightarrow> pt_wf t'"
  using same_core_nth(1) [of t t'] same_core_fields(4) [of t t'] by (auto simp: wf_all same_core_def)

lemma wf_refused: "refused t t' \<Longrightarrow> pt_wf t \<Longrightarrow> pt_wf t'"
  by (simp add: refused_def pt_wf_def)

lemma wf_created: "created t t' n i \<Longrightarrow> pt_wf t \<Longrightarrow> pt_wf t'"
  by (auto simp: created_def wf_all run_from_def fresh_pd_def nth_list_update split: if_splits)

text \<open>What freeing does: the entry is reset, its slots are cleared, and the head of the chain names it.\<close>

lemma free_cases:
  assumes "pt_wf t"
  shows "pd_free t pd = Some (if pd_live t pd then
    (t\<lparr>pt_budget_vorrat := min (pt_budget_vorrat t + unat (pd_cap_budget (pt_pds t ! pd))) CAP_SLOTS_FOR_ALL_PDS,
       pt_pool := clear_run (pt_pool t) (unat (pd_cspace_start (pt_pds t ! pd))) (unat (pd_cspace_len (pt_pds t ! pd))),
       pt_vergabe := (pt_vergabe t)\<lparr>vg_kopf := of_nat pd + 1\<rparr>,
       pt_pds := (pt_pds t)[pd := Pd_EMPTY\<lparr>pd_epoch := pd_epoch (pt_pds t ! pd) + 1\<rparr>]\<rparr>, True) else (t, False))"
  by (auto simp: pd_free_def freigeben_def pd_ablage_def tget_def tupd_def pd_live_def Let_def)

lemma wf_free:
  assumes "pt_wf t" "pd_free t pd = Some (t', f)"
  shows "pt_wf t'"
proof (cases "pd_live t pd")
  case True
  have "unat (of_nat pd + 1 :: u32) \<le> length (pt_pds t)"
    using True assms(1) unat_of_nat_u32 [of "Suc pd"] by (simp add: pd_live_def pt_wf_def add.commute)
  then show ?thesis using True assms by (auto simp: free_cases [OF assms(1)] wf_all nth_list_update Pd_EMPTY_def pd_live_def)
qed (use assms in \<open>auto simp: free_cases\<close>)

text \<open>Creation either refuses or adds one entry.\<close>

lemma create_or_refuse:
  assumes "pt_wf t"
  shows "create_mit_budget_und_cspace t d b l = Some (t', r) \<Longrightarrow> refused t t' \<or> (\<exists>n i. created t t' n i)"
    "create_hardware_backend t partner bid ep nt = Some (t', r') \<Longrightarrow> refused t t' \<or> (\<exists>n i. created t t' n i)"
  using create_cases [OF assms, of d b l] backend_cases [OF assms, of partner bid ep nt] by (auto split: sum.splits option.splits)

lemma step_wf: "pt_step bk fr t t' \<Longrightarrow> pt_wf t \<Longrightarrow> pt_wf t'"
proof (induction rule: pt_step.induct)
  case (ps_create t d b l t' r)
  then show ?case using create_or_refuse(1) [OF ps_create(2,1)] wf_refused wf_created by blast
next
  case (ps_backend t partner bid ep nt t' r')
  then show ?case using create_or_refuse(2) [OF ps_backend(3,2)] wf_refused wf_created by blast
qed (auto intro: wf_same use_same wf_free)

lemma init_wf: "pt_init t \<Longrightarrow> pt_wf t"
  by (erule pt_initD) (simp add: pt_wf_def Vergabe_neu_def Pd_EMPTY_def)

interpretation ptwf: step_system pt_init "pt_step bk fr" pt_wf
  by unfold_locales (auto intro: init_wf step_wf)

section \<open>Runs of capability slots\<close>

definition run_end :: "Pd \<Rightarrow> nat" where
  "run_end p = unat (pd_cspace_start p) + unat (pd_cspace_len p)"

definition slots_inv :: "PdTable \<Rightarrow> bool" where
  "slots_inv t \<longleftrightarrow> pt_wf t \<and> vg_kopf (pt_vergabe t) = 0 \<and> unat (vg_bump (pt_vergabe t)) \<le> length (pt_pool t) \<and>
     (\<forall>i. pd_live t i \<longrightarrow> run_end (pt_pds t ! i) \<le> unat (vg_bump (pt_vergabe t))) \<and>
     (\<forall>i j. pd_live t i \<longrightarrow> pd_live t j \<longrightarrow> i \<noteq> j \<longrightarrow>
        run_end (pt_pds t ! i) \<le> unat (pd_cspace_start (pt_pds t ! j)) \<or> run_end (pt_pds t ! j) \<le> unat (pd_cspace_start (pt_pds t ! i)))"

lemma slots_wf: "slots_inv t \<Longrightarrow> pt_wf t"
  by (simp add: slots_inv_def)

lemma slots_same:
  assumes "same_core t t'" "slots_inv t"
  shows "slots_inv t'"
proof -
  have r: "run_end (pt_pds t' ! i) = run_end (pt_pds t ! i)" "pd_cspace_start (pt_pds t' ! i) = pd_cspace_start (pt_pds t ! i)" if "pd_live t i" for i
    using same_core_fields [OF assms(1)] that by (simp_all add: pd_live_def run_end_def)
  show ?thesis using assms wf_same [OF assms(1)] r same_core_live [OF assms(1)] by (simp add: slots_inv_def same_core_def)
qed

lemma slots_refused: "refused t t' \<Longrightarrow> slots_inv t \<Longrightarrow> slots_inv t'"
  by (simp add: slots_inv_def refused_def pt_wf_def pd_live_def)

lemma slots_created:
  assumes "created t t' n i" "slots_inv t"
  shows "slots_inv t'"
proof -
  obtain p where p: "pt_pds t' = (pt_pds t)[i := p]" "i < length (pt_pds t)" "pt_pool t' = pt_pool t" "\<not> pd_used (pt_pds t ! i)"
    "run_from t n (pd_cspace_start p) (pd_cspace_len p) (pt_vergabe t')"
    using assms(1) by (auto simp: created_def)
  have S: "vg_kopf (pt_vergabe t) = 0" "unat (vg_bump (pt_vergabe t)) \<le> length (pt_pool t)" "pt_wf t"
    "\<And>j. pd_live t j \<Longrightarrow> run_end (pt_pds t ! j) \<le> unat (vg_bump (pt_vergabe t))"
    "\<And>j k. pd_live t j \<Longrightarrow> pd_live t k \<Longrightarrow> j \<noteq> k \<Longrightarrow> run_end (pt_pds t ! j) \<le> unat (pd_cspace_start (pt_pds t ! k)) \<or> run_end (pt_pds t ! k) \<le> unat (pd_cspace_start (pt_pds t ! j))"
    using assms(2) unfolding slots_inv_def by blast+
  have v: "unat (vg_bump (pt_vergabe t)) + unat (pd_cspace_len p) \<le> unat (pool_len t)" "pd_cspace_start p = vg_bump (pt_vergabe t)"
    "pt_vergabe t' = (pt_vergabe t)\<lparr>vg_bump := vg_bump (pt_vergabe t) + pd_cspace_len p\<rparr>" using p(5) S(1) by (auto simp: run_from_def)
  have b: "unat (vg_bump (pt_vergabe t')) = unat (vg_bump (pt_vergabe t)) + unat (pd_cspace_len p)"
    using v(1) unat_u32_lt [of "pool_len t"] unat_plus_if' [of "vg_bump (pt_vergabe t)" "pd_cspace_len p"] by (simp add: v(3))
  have "vg_kopf (pt_vergabe t') = 0" using S(1) v(3) by simp
  moreover have "pd_live t' j \<Longrightarrow> j = i \<or> j \<noteq> i \<and> pd_live t j" for j using p(1) by (auto simp: pd_live_def)
  moreover have "run_end p = unat (vg_bump (pt_vergabe t'))" by (simp add: run_end_def v(2) b)
  moreover have "pt_pds t' ! j = (if j = i then p else pt_pds t ! j)" if "pd_live t' j" for j using that p(1,2) by (auto simp: pd_live_def)
  ultimately show ?thesis using S(4,5) wf_created [OF assms(1) S(3)] v(1,2) b pool_len_le [of t] unfolding slots_inv_def p(3)
    by (auto intro: order_trans) (metis trans_le_add1)+
qed

lemma slots_step: "pt_step bk False t t' \<Longrightarrow> slots_inv t \<Longrightarrow> slots_inv t'"
proof (induction rule: pt_step.induct)
  case (ps_create t d b l t' r)
  then show ?case using create_or_refuse(1) [OF slots_wf [OF ps_create(2)] ps_create(1)] slots_refused slots_created by blast
next
  case (ps_backend t partner bid ep nt t' r')
  then show ?case using create_or_refuse(2) [OF slots_wf [OF ps_backend(3)] ps_backend(2)] slots_refused slots_created by blast
qed (auto intro: slots_same use_same)

interpretation slots: step_system pt_init "pt_step bk False" slots_inv
proof
  fix t
  assume i: "pt_init t"
  then show "slots_inv t" by (rule pt_initD) (use init_wf [OF i] in \<open>auto simp: slots_inv_def pd_live_def Pd_EMPTY_def Vergabe_neu_def\<close>)
qed (rule slots_step)

text \<open>Below the bound the mask keeps the index.\<close>

lemma nospec_in:
  assumes "i < n" "n < 2 ^ 63"
  shows "array_index_nospec i n = i"
proof -
  let ?i = "of_nat i :: u64" and ?n = "of_nat n :: u64"
  have u: "unat ?i = i" "unat ?n = n" using assms by (simp_all add: unat_of_nat)
  have "unat (?i - ?n) = 2 ^ 64 + i - n" using assms u unat_sub_if' [of ?i ?n] by (simp add: word_le_nat_alt)
  moreover have "(2 ^ 64 + i - n) div 2 ^ 63 = 1" using assms by (intro div_nat_eqI) auto
  ultimately have "bit (?i - ?n) 63" using bit_unsigned_iff [where 'a = nat, of "?i - ?n" 63] by (simp add: bit_iff_odd)
  then show ?thesis using u by (simp add: array_index_nospec_def Let_def)
qed

lemma cap_at_eq: "cap_at t pd slot =
  (if slot < cspace_len_von t pd then Option.bind (tget (pt_pool t) (unat (pd_cspace_start (pt_pds t ! pd)) + slot)) id else None)"
proof -
  have "cspace_len_von t pd < 2 ^ 63" using unat_u32_lt [of "pd_cspace_len (pt_pds t ! pd)"] by (simp add: cspace_len_von_def)
  then show ?thesis using nospec_in [of slot "cspace_len_von t pd"] by (simp add: cap_at_def)
qed

lemma slot_live: "slot < cspace_len_von t pd \<Longrightarrow> pd_live t pd \<and> cspace_len_von t pd = unat (pd_cspace_len (pt_pds t ! pd))"
  by (simp add: cspace_len_von_def split: if_splits)

lemma set_slot_eq:
  assumes "slot < cspace_len_von t p"
  shows "set_cap_slot t p slot c = t\<lparr>pt_pool := (pt_pool t)[unat (pd_cspace_start (pt_pds t ! p)) + slot := c]\<rparr>"
  using assms slot_live [OF assms] by (simp add: set_cap_slot_def pd_live_def)

lemma slots_apart:
  assumes "slots_inv t" "s < cspace_len_von t p" "s' < cspace_len_von t q"
  shows "unat (pd_cspace_start (pt_pds t ! p)) + s < length (pt_pool t)"
    "unat (pd_cspace_start (pt_pds t ! p)) + s = unat (pd_cspace_start (pt_pds t ! q)) + s' \<longleftrightarrow> p = q \<and> s = s'"
proof -
  have S: "unat (vg_bump (pt_vergabe t)) \<le> length (pt_pool t)" "run_end (pt_pds t ! p) \<le> unat (vg_bump (pt_vergabe t))"
    "p \<noteq> q \<Longrightarrow> run_end (pt_pds t ! p) \<le> unat (pd_cspace_start (pt_pds t ! q)) \<or> run_end (pt_pds t ! q) \<le> unat (pd_cspace_start (pt_pds t ! p))"
    using assms(1) slot_live [OF assms(2)] slot_live [OF assms(3)] by (auto simp: slots_inv_def)
  then show "unat (pd_cspace_start (pt_pds t ! p)) + s < length (pt_pool t)" using assms(2) slot_live [OF assms(2)] by (simp add: run_end_def)
  show "unat (pd_cspace_start (pt_pds t ! p)) + s = unat (pd_cspace_start (pt_pds t ! q)) + s' \<longleftrightarrow> p = q \<and> s = s'"
    using S(3) assms(2,3) slot_live [OF assms(2)] slot_live [OF assms(3)] by (cases "p = q") (auto simp: run_end_def)
qed

lemma set_slot_exact:
  assumes "slots_inv t" "slot < cspace_len_von t p"
  shows "cap_at (set_cap_slot t p slot c) q s = (if q = p \<and> s = slot then c else cap_at t q s)"
proof (cases "s < cspace_len_von t q")
  case True
  have "cspace_len_von (set_cap_slot t p slot c) q = cspace_len_von t q" "pt_pds (set_cap_slot t p slot c) = pt_pds t"
    unfolding set_slot_eq [OF assms(2)] by (simp_all add: cspace_len_von_def pd_live_def)
  then show ?thesis using True slots_apart [OF assms(1) True assms(2)] slots_apart(1) [OF assms(1) assms(2) True]
    unfolding cap_at_eq set_slot_eq [OF assms(2)] by (auto simp: tget_def nth_list_update)
next
  case False
  then have "cap_at t q s = None" "cap_at (set_cap_slot t p slot c) q s = None" "\<not> (q = p \<and> s = slot)"
    using assms(2) unfolding cap_at_eq set_slot_eq [OF assms(2)] by (auto simp: cspace_len_von_def pd_live_def)
  then show ?thesis by (simp only: if_False)
qed

text \<open>
  C14. The slots of a protection domain are its own: as long as no domain was freed, storing a capability in
  slot \<open>slot\<close> of domain \<open>p\<close>, or clearing it, is seen in exactly this slot of exactly this domain; every other
  slot of every domain shows what it showed before.
\<close>

theorem domains_share_no_slots:
  assumes "reach pt_init (pt_step True False) t" "slot < cspace_len_von t p"
  shows "cap_at (install_cap t p slot c) q s = (if q = p \<and> s = slot then Some c else cap_at t q s) \<and>
    cap_at (clear_cap t p slot) q s = (if q = p \<and> s = slot then None else cap_at t q s)"
  using set_slot_exact [OF slots.reach_inv [OF assms(1)] assms(2)] by (simp add: install_cap_def clear_cap_def)

end
