(* ===== verification/PdProps.thy ===== *)
theory PdProps
  imports PdSys
begin

text \<open>
  Freed runs, the budget account and the owner table of the protection domains.
\<close>

section \<open>Freeing and creating again\<close>

lemma create_Inr:
  assumes "pt_wf t" "create_mit_budget_und_cspace t d b l = Some (t', Inr i)"
  shows "created t t' (plaetze_of l) i" "pd_domain (pt_pds t' ! i) = d"
  using create_cases [OF assms(1), of d b l] assms(2) by auto

lemma created_live:
  assumes "created t t' n i"
  shows "\<not> pd_live t i" "pd_live t' i" "j \<noteq> i \<Longrightarrow> pt_pds t' ! j = pt_pds t ! j" "length (pt_pds t') = length (pt_pds t)"
  using assms by (auto simp: created_def pd_live_def fresh_pd_def)

lemma created_entry:
  assumes "created t t' n i"
  shows "fresh_pd (pt_pds t' ! i)" "pd_epoch (pt_pds t' ! i) = pd_epoch (pt_pds t ! i)" "n \<le> pd_cspace_len (pt_pds t' ! i)"
    "run_from t n (pd_cspace_start (pt_pds t' ! i)) (pd_cspace_len (pt_pds t' ! i)) (pt_vergabe t')" "0 < n"
    "pt_pool t' = pt_pool t" "pt_owner t' = pt_owner t"
  using assms by (auto simp: created_def)

lemma freed:
  assumes "pt_wf t" "pd_live t p" "pd_free t p = Some (t', f)"
  shows "pt_pds t' = (pt_pds t)[p := Pd_EMPTY\<lparr>pd_epoch := pd_epoch (pt_pds t ! p) + 1\<rparr>]" "vg_kopf (pt_vergabe t') \<noteq> 0" "kopf_pd t' = p"
    "length (pt_pool t') = length (pt_pool t)" "pt_owner t' = pt_owner t"
    "pt_budget_vorrat t' = min (pt_budget_vorrat t + unat (pd_cap_budget (pt_pds t ! p))) CAP_SLOTS_FOR_ALL_PDS"
proof -
  have k: "Suc p < 2 ^ 32" using assms(1,2) by (simp add: pt_wf_def pd_live_def)
  show "vg_kopf (pt_vergabe t') \<noteq> 0" "kopf_pd t' = p"
    using assms link_index [OF k] by (auto simp: free_cases kopf_pd_def add.commute)
qed (use assms in \<open>auto simp: free_cases clear_run_def\<close>)

text \<open>
  C34. A defect: \<open>free\<close> hooks the run of the domain into the chain of free runs and then resets the entry
  that carries the run's anchor, while the head of the chain goes on naming the entry. So a domain is freed,
  the next creation takes the same entry with a fresh run, and the creation after that gets, for a request
  that is not larger, the run of the domain just created: two living domains share their capability slots,
  and a capability that one of them stores shows up in the other.
\<close>

theorem cspace_given_twice:
  assumes "reach pt_init (pt_step True True) t" "pd_live t p" "pd_free t p = Some (t1, f)"
    and "create_mit_budget_und_cspace t1 d1 b1 l1 = Some (t2, Inr p)"
    and "create_mit_budget_und_cspace t2 d2 b2 l2 = Some (t3, Inr q)" "plaetze_of l2 \<le> plaetze_of l1"
  shows "p \<noteq> q \<and> domain_of t3 p = Some d1 \<and> domain_of t3 q = Some d2 \<and> 0 < cspace_len_von t3 q \<and>
    (\<forall>s<cspace_len_von t3 q. cap_at (install_cap t3 q s c) p s = Some c)"
proof -
  have w: "pt_wf t" using ptwf.reach_inv [OF assms(1)] .
  have w1: "pt_wf t1" by (rule wf_free [OF w assms(3)])
  note F = freed [OF w assms(2,3)]
  note C2 = create_Inr [OF w1 assms(4)]
  have w2: "pt_wf t2" by (rule wf_created [OF C2(1) w1])
  note C3 = create_Inr [OF w2 assms(5)]
  note L2 = created_live [OF C2(1)] created_entry [OF C2(1)]
  note L3 = created_live [OF C3(1)] created_entry [OF C3(1)]
  have pq: "p \<noteq> q" using L2(2) L3(1) by auto
  have "pd_cspace_len (pt_pds t1 ! p) = 0" using F(1) assms(2) by (simp add: pd_live_def Pd_EMPTY_def)
  then have r2: "pt_vergabe t2 = (pt_vergabe t1)\<lparr>vg_bump := vg_bump (pt_vergabe t1) + plaetze_of l1\<rparr>" "pd_cspace_start (pt_pds t2 ! p) = vg_bump (pt_vergabe t1)"
    "pd_cspace_len (pt_pds t2 ! p) = plaetze_of l1" "unat (vg_bump (pt_vergabe t1)) + unat (plaetze_of l1) \<le> unat (pool_len t1)"
    using L2(8,9) F(2,3) by (auto simp: run_from_def split: if_splits)
  have k2: "vg_kopf (pt_vergabe t2) \<noteq> 0" "kopf_pd t2 = p" using F(2,3) r2(1) by (simp_all add: kopf_pd_def)
  have r3: "pd_cspace_start (pt_pds t3 ! q) = pd_cspace_start (pt_pds t2 ! p)" "pd_cspace_len (pt_pds t3 ! q) = pd_cspace_len (pt_pds t2 ! p)"
    using L3(8) k2 r2(3) assms(6) by (simp_all add: run_from_def)
  have e: "pt_pds t3 ! p = pt_pds t2 ! p" using L3(3) [OF pq] .
  have live: "pd_live t3 p" "pd_live t3 q" using L2(2) L3(2,4) e by (simp_all add: pd_live_def)
  have len: "cspace_len_von t3 q = unat (plaetze_of l1)" "cspace_len_von t3 p = unat (plaetze_of l1)" using live r3 r2(3) e by (simp_all add: cspace_len_von_def)
  have pool: "length (pt_pool t3) = length (pt_pool t1)" using L3(10) L2(10) by simp
  have "cap_at (install_cap t3 q s c) p s = Some c" if s: "s < cspace_len_von t3 q" for s
  proof -
    have "unat (vg_bump (pt_vergabe t1)) + s < length (pt_pool t3)" using s len(1) r2(4) pool_len_le [of t1] pool by simp
    moreover have "cspace_len_von (install_cap t3 q s c) p = cspace_len_von t3 p" unfolding install_cap_def set_slot_eq [OF s] by (simp add: cspace_len_von_def pd_live_def)
    ultimately show ?thesis using s len r3(1) r2(2) e unfolding cap_at_eq by (simp add: install_cap_def set_slot_eq [OF s] tget_def)
  qed
  then show ?thesis using pq live len L2(9) C2(2) C3(2) e by (simp add: domain_of_def word_gt_0 unat_gt_0)
qed

section \<open>The budget account\<close>

text \<open>What the living domains were promised.\<close>

definition promised :: "PdTable \<Rightarrow> nat" where
  "promised t = sum_list (map (\<lambda>p. if pd_used p then unat (pd_cap_budget p) else 0) (pt_pds t))"

definition budget_inv :: "PdTable \<Rightarrow> bool" where
  "budget_inv t \<longleftrightarrow> pt_wf t \<and> pt_budget_vorrat t + promised t = CAP_SLOTS_FOR_ALL_PDS"

lemma sum_list_update: "i < length xs \<Longrightarrow> sum_list (map f (xs[i := x])) + f (xs ! i) = sum_list (map f xs) + (f x :: nat)"
proof (induction xs arbitrary: i)
  case (Cons y ys)
  then show ?case by (cases i) auto
qed simp

lemma promised_same:
  assumes "same_core t t'"
  shows "promised t' = promised t"
proof -
  have "map (\<lambda>p. if pd_used p then unat (pd_cap_budget p) else 0) (pt_pds t') = map (\<lambda>p. if pd_used p then unat (pd_cap_budget p) else 0) (pt_pds t)"
    using same_core_nth(1) [OF assms] same_core_fields(1,6) [OF assms] by (intro nth_equalityI) auto
  then show ?thesis by (simp add: promised_def)
qed

lemma promised_created: "created t t' n i \<Longrightarrow> promised t' = promised t + unat (pd_cap_budget (pt_pds t' ! i))"
  using sum_list_update [of i "pt_pds t" "\<lambda>p. if pd_used p then unat (pd_cap_budget p) else 0" "pt_pds t' ! i"]
  by (auto simp: created_def promised_def fresh_pd_def)

lemma promised_freed:
  assumes "pt_wf t" "pd_live t p" "pd_free t p = Some (t', f)"
  shows "promised t' + unat (pd_cap_budget (pt_pds t ! p)) = promised t"
proof -
  let ?f = "\<lambda>p. if pd_used p then unat (pd_cap_budget p) else 0" and ?x = "Pd_EMPTY\<lparr>pd_epoch := pd_epoch (pt_pds t ! p) + 1\<rparr>"
  have "sum_list (map ?f ((pt_pds t)[p := ?x])) + ?f (pt_pds t ! p) = sum_list (map ?f (pt_pds t)) + ?f ?x"
    using assms(2) sum_list_update [of p "pt_pds t" ?f ?x] unfolding pd_live_def by blast
  moreover have "?f ?x = 0" by (simp add: Pd_EMPTY_def)
  ultimately show ?thesis using assms(2) unfolding promised_def freed(1) [OF assms] by (simp add: pd_live_def)
qed

lemma budget_step: "pt_step False fr t t' \<Longrightarrow> budget_inv t \<Longrightarrow> budget_inv t'"
proof (induction rule: pt_step.induct)
  case (ps_use t t')
  note S = use_same [OF ps_use(1)]
  show ?case using ps_use(2) wf_same [OF S] promised_same [OF S] S unfolding budget_inv_def by (simp add: same_core_def)
next
  case (ps_create t d b l t' r)
  have w: "pt_wf t" using ps_create(2) by (simp add: budget_inv_def)
  show ?case
  proof (cases r)
    case (Inl e)
    then have "refused t t'" using create_cases [OF w, of d b l] ps_create(1) by auto
    then show ?thesis using ps_create(2) wf_refused by (simp add: budget_inv_def promised_def refused_def)
  next
    case (Inr i)
    then show ?thesis using create_cases [OF w, of d b l] ps_create wf_created [OF _ w] promised_created by (fastforce simp: budget_inv_def)
  qed
next
  case (ps_free t p t' f)
  have w: "pt_wf t" using ps_free(4) by (simp add: budget_inv_def)
  show ?case
  proof (cases "pd_live t p")
    case True
    then show ?thesis using freed(6) [OF w True ps_free(2)] promised_freed [OF w True ps_free(2)] ps_free(4) wf_free [OF w ps_free(2)]
      by (simp add: budget_inv_def)
  next
    case False
    then show ?thesis using ps_free(2,4) by (simp add: free_cases [OF w])
  qed
qed simp

lemma sum_list_unused: "sum_list (map (\<lambda>p. if pd_used p then unat (pd_cap_budget p) else 0) (replicate n Pd_EMPTY)) = 0"
  by (induction n) (simp_all add: Pd_EMPTY_def)

interpretation account: step_system pt_init "pt_step False fr" budget_inv
proof
  fix t
  assume i: "pt_init t"
  then show "budget_inv t" by (rule pt_initD) (use init_wf [OF i] sum_list_unused in \<open>simp add: budget_inv_def promised_def\<close>)
qed (rule budget_step)

text \<open>
  The budget account balances: whatever creations and releases happen, without hardware backends the
  reserve and the budgets of the living domains always add up to the slots that exist for all domains. So
  no domain is promised a slot that another one was promised, and nothing is lost by freeing.
\<close>

theorem budget_balances:
  assumes "reach pt_init (pt_step False True) t"
  shows "pt_budget_vorrat t + sum_list (map (budget_of t) [0..<length (pt_pds t)]) = CAP_SLOTS_FOR_ALL_PDS"
proof -
  have "map (budget_of t) [0..<length (pt_pds t)] = map (\<lambda>p. if pd_used p then unat (pd_cap_budget p) else 0) (pt_pds t)"
    by (intro nth_equalityI) (auto simp: budget_of_def pd_live_def)
  then show ?thesis using account.reach_inv [OF assms] by (simp add: budget_inv_def promised_def)
qed

text \<open>A hardware backend books nothing, but freeing it credits the standard budget.\<close>

lemma backend_credits:
  assumes "pt_wf t" "create_hardware_backend t partner bid ep nt = Some (t1, Some i)" "pd_free t1 i = Some (t2, f)"
  shows "pt_budget_vorrat t1 = pt_budget_vorrat t" "pt_budget_vorrat t2 = min (pt_budget_vorrat t + CAP_BUDGET_PER_PD) CAP_SLOTS_FOR_ALL_PDS"
proof -
  have B: "created t t1 (of_nat NCAPS) i" "pt_budget_vorrat t1 = pt_budget_vorrat t" "pd_cap_budget (pt_pds t1 ! i) = of_nat CAP_BUDGET_PER_PD"
    using backend_cases [OF assms(1), of partner bid ep nt] assms(2) by auto
  show "pt_budget_vorrat t1 = pt_budget_vorrat t" by (rule B(2))
  show "pt_budget_vorrat t2 = min (pt_budget_vorrat t + CAP_BUDGET_PER_PD) CAP_SLOTS_FOR_ALL_PDS"
    using freed(6) [OF wf_created [OF B(1) assms(1)] created_live(2) [OF B(1)] assms(3)] B(2,3) by (simp add: CAP_BUDGET_PER_PD_def)
qed

end
