(* ===== verification/PdOwner.thy ===== *)
theory PdOwner
  imports PdProps
begin

text \<open>
  The owner table: which domain a thread acts for. The invariant counts the entries of every domain; a
  domain that was just created has none, because freeing raised the epoch past every entry.
\<close>

definition own_inv :: "PdTable \<Rightarrow> bool" where
  "own_inv t \<longleftrightarrow> pt_wf t \<and> length (pt_owner t) < 2 ^ 32 \<and>
     (\<forall>e\<in>set (pt_owner t). to_pd1 e \<noteq> 0 \<longrightarrow> unat (to_pd1 e) \<le> length (pt_pds t) \<and> to_epoch e \<le> pd_epoch (pt_pds t ! (unat (to_pd1 e) - 1))) \<and>
     (\<forall>p<length (pt_pds t). unat (pd_nthreads (pt_pds t ! p)) = length (filter (belongs t p) (pt_owner t))) \<and>
     (\<forall>p<length (pt_pds t). \<not> pd_used (pt_pds t ! p) \<longrightarrow> filter (belongs t p) (pt_owner t) = [])"

lemma own_invD:
  assumes "own_inv t"
  shows "pt_wf t" "length (pt_owner t) < 2 ^ 32"
    "e \<in> set (pt_owner t) \<Longrightarrow> to_pd1 e \<noteq> 0 \<Longrightarrow> unat (to_pd1 e) \<le> length (pt_pds t) \<and> to_epoch e \<le> pd_epoch (pt_pds t ! (unat (to_pd1 e) - 1))"
    "p < length (pt_pds t) \<Longrightarrow> unat (pd_nthreads (pt_pds t ! p)) = length (filter (belongs t p) (pt_owner t))"
    "p < length (pt_pds t) \<Longrightarrow> \<not> pd_used (pt_pds t ! p) \<Longrightarrow> filter (belongs t p) (pt_owner t) = []"
  using assms by (auto simp: own_inv_def)

lemma own_invI:
  assumes "pt_wf t" "length (pt_owner t) < 2 ^ 32"
    "\<And>e. e \<in> set (pt_owner t) \<Longrightarrow> to_pd1 e \<noteq> 0 \<Longrightarrow> unat (to_pd1 e) \<le> length (pt_pds t) \<and> to_epoch e \<le> pd_epoch (pt_pds t ! (unat (to_pd1 e) - 1))"
    "\<And>p. p < length (pt_pds t) \<Longrightarrow> unat (pd_nthreads (pt_pds t ! p)) = length (filter (belongs t p) (pt_owner t))"
    "\<And>p. p < length (pt_pds t) \<Longrightarrow> \<not> pd_used (pt_pds t ! p) \<Longrightarrow> filter (belongs t p) (pt_owner t) = []"
  shows "own_inv t"
  unfolding own_inv_def using assms by blast

text \<open>The part of an entry that the invariant reads.\<close>

definition own_of :: "Pd \<Rightarrow> bool \<times> u32 \<times> u32" where
  "own_of p = (pd_used p, pd_epoch p, pd_nthreads p)"

definition same_own :: "PdTable \<Rightarrow> PdTable \<Rightarrow> bool" where
  "same_own t t' \<longleftrightarrow> pt_owner t' = pt_owner t \<and> map own_of (pt_pds t') = map own_of (pt_pds t)"

lemma modpd_own: "(\<And>p. own_of (f p) = own_of p) \<Longrightarrow> same_own t (modpd t i f)"
  using map_update_same [of own_of f "pt_pds t" i] by (simp add: same_own_def modpd_def)

lemma same_own_nth:
  assumes "same_own t t'"
  shows "length (pt_pds t') = length (pt_pds t)"
    "i < length (pt_pds t) \<Longrightarrow> pd_used (pt_pds t' ! i) = pd_used (pt_pds t ! i) \<and> pd_epoch (pt_pds t' ! i) = pd_epoch (pt_pds t ! i) \<and> pd_nthreads (pt_pds t' ! i) = pd_nthreads (pt_pds t ! i)"
proof -
  have m: "map own_of (pt_pds t') = map own_of (pt_pds t)" using assms by (simp add: same_own_def)
  show l: "length (pt_pds t') = length (pt_pds t)" using m by (metis length_map)
  show "i < length (pt_pds t) \<Longrightarrow> pd_used (pt_pds t' ! i) = pd_used (pt_pds t ! i) \<and> pd_epoch (pt_pds t' ! i) = pd_epoch (pt_pds t ! i) \<and> pd_nthreads (pt_pds t' ! i) = pd_nthreads (pt_pds t ! i)"
    using nth_map [of i "pt_pds t'" own_of] nth_map [of i "pt_pds t" own_of] m l by (simp add: own_of_def)
qed

lemma own_same:
  assumes "same_own t t'" "pt_wf t'" "own_inv t"
  shows "own_inv t'"
proof -
  note N = same_own_nth [OF assms(1)] and I = own_invD [OF assms(3)]
  have o: "pt_owner t' = pt_owner t" using assms(1) by (simp add: same_own_def)
  have f: "filter (belongs t' p) (pt_owner t) = filter (belongs t p) (pt_owner t)" if "p < length (pt_pds t)" for p
    using N(2) [OF that] by (intro filter_cong) (auto simp: belongs_def)
  show ?thesis
  proof (rule own_invI)
    fix e
    assume "e \<in> set (pt_owner t')" "to_pd1 e \<noteq> 0"
    then have e: "unat (to_pd1 e) \<le> length (pt_pds t)" "to_epoch e \<le> pd_epoch (pt_pds t ! (unat (to_pd1 e) - 1))" "unat (to_pd1 e) \<noteq> 0"
      using I(3) o by (auto simp: unat_eq_0)
    have "unat (to_pd1 e) - 1 < length (pt_pds t)" using e(1,3) by linarith
    then show "unat (to_pd1 e) \<le> length (pt_pds t') \<and> to_epoch e \<le> pd_epoch (pt_pds t' ! (unat (to_pd1 e) - 1))" using e(1,2) N by simp
  qed (use assms(2) I(2,4,5) N f o in simp_all)
qed

lemma quiet_own:
  assumes "pt_quiet t t'"
  shows "same_own t t' \<or> (\<exists>pd th. pd_live t pd \<and> t' = bind_thread t pd th)"
  using assms
  by (induction rule: pt_quiet.induct)
    (auto simp: set_budget_deckel_def sidecar_belegen_def sidecar_freigeben_def handler_kante_loesen_def set_quiescing_def
      set_irq_ntfn_def set_recv_slot_def install_cap_def clear_cap_def set_cap_slot_def Let_def own_of_def same_own_def [of t t for t] same_own_def [of t "t\<lparr>pt_pool := x\<rparr>" for t x]
      same_own_def [of t "t\<lparr>pt_budget_deckel := x\<rparr>" for t x] intro!: modpd_own split: if_splits)

lemma use_own:
  assumes "pt_use t t'"
  shows "same_own t t' \<or> (\<exists>pd th. pd_live t pd \<and> t' = bind_thread t pd th)"
  using assms
proof (induction rule: pt_use.induct)
  case (pu_setzen t g h t' b)
  then show ?case by (auto simp: handler_kante_setzen_def own_of_def same_own_def [of t t for t] intro!: modpd_own split: if_splits)
qed (rule quiet_own)

section \<open>Binding a thread\<close>

lemma count_update: "s < length xs \<Longrightarrow> length (filter P (xs[s := e])) + (if P (xs ! s) then 1 else 0) = length (filter P xs) + (if P e then 1 else 0)"
proof (induction xs arbitrary: s)
  case (Cons x xs)
  then show ?case by (cases s) auto
qed simp

lemma pd1_index:
  assumes "p < 2 ^ 16"
  shows "to_pd1 e = of_nat (p + 1) \<longleftrightarrow> to_pd1 e \<noteq> 0 \<and> unat (to_pd1 e - 1) = p"
proof -
  have s: "Suc p < 2 ^ 32" using assms by simp
  note L = link_index [OF s]
  show ?thesis
  proof
    assume "to_pd1 e \<noteq> 0 \<and> unat (to_pd1 e - 1) = p"
    then have "(of_nat (unat (to_pd1 e - 1)) :: u32) = of_nat p" by simp
    then have "to_pd1 e - 1 = of_nat p" by simp
    then have "to_pd1 e = of_nat p + 1" by (metis diff_add_cancel)
    then show "to_pd1 e = of_nat (p + 1)" by simp
  qed (use L in simp)
qed

text \<open>What binding does when the owner table has an entry for the thread.\<close>

lemma bind_effect:
  assumes "own_inv t" "pd_live t pd" "t_slot th < length (pt_owner t)" "p < length (pt_pds t)"
  defines "e \<equiv> \<lparr>to_tid = to_raw th, to_pd1 = of_nat (pd + 1), to_epoch = pd_epoch (pt_pds t ! pd)\<rparr>"
  shows "pt_owner (bind_thread t pd th) = (pt_owner t)[t_slot th := e]"
    "pd_used (pt_pds (bind_thread t pd th) ! p) = pd_used (pt_pds t ! p)" "pd_epoch (pt_pds (bind_thread t pd th) ! p) = pd_epoch (pt_pds t ! p)"
    "length (pt_pds (bind_thread t pd th)) = length (pt_pds t)"
    "pd_nthreads (pt_pds (bind_thread t pd th) ! p) =
       pd_nthreads (pt_pds t ! p) - (if belongs t p (pt_owner t ! t_slot th) then 1 else 0) + (if p = pd then 1 else 0)"
proof -
  let ?alt = "pt_owner t ! t_slot th" and ?ap = "unat (to_pd1 (pt_owner t ! t_slot th) - 1)"
  have len: "length (pt_pds t) < 2 ^ 16" using own_invD(1) [OF assms(1)] by (simp add: pt_wf_def)
  have pd: "pd < length (pt_pds t)" using assms(2) by (simp add: pd_live_def)
  have b: "belongs t q ?alt \<longleftrightarrow> to_pd1 ?alt \<noteq> 0 \<and> ?ap = q \<and> to_epoch ?alt = pd_epoch (pt_pds t ! q)" if "q < length (pt_pds t)" for q
    using pd1_index [of q ?alt] that len by (auto simp: belongs_def)
  have n: "0 < pd_nthreads (pt_pds t ! q)" if "q < length (pt_pds t)" "belongs t q ?alt" for q
  proof -
    have "filter (belongs t q) (pt_owner t) \<noteq> []" using that(2) assms(3) by (auto simp: filter_empty_conv)
    then have "unat (pd_nthreads (pt_pds t ! q)) \<noteq> 0" using own_invD(4) [OF assms(1) that(1)] by simp
    then show ?thesis by (simp add: word_gt_0 unat_eq_0)
  qed
  define t0 where "t0 = leave_pd t ?alt"
  have t0: "t0 = (if to_pd1 ?alt \<noteq> 0 \<and> ?ap < length (pt_pds t) \<and> belongs t ?ap ?alt then modpd t ?ap (\<lambda>p. p\<lparr>pd_nthreads := pd_nthreads p - 1\<rparr>) else t)"
    unfolding t0_def leave_pd_def Let_def using b [of ?ap] n [of ?ap] by auto
  have T0: "pt_owner t0 = pt_owner t" "length (pt_pds t0) = length (pt_pds t)"
    "\<And>q. q < length (pt_pds t) \<Longrightarrow> pt_pds t0 ! q = (pt_pds t ! q)\<lparr>pd_nthreads := pd_nthreads (pt_pds t ! q) - (if belongs t q ?alt then 1 else 0)\<rparr>"
    using b by (auto simp: t0 modpd_def nth_list_update)
  have B: "bind_thread t pd th =
    (let t1 = modpd (t0\<lparr>pt_owner := (pt_owner t)[t_slot th := e]\<rparr>) pd (\<lambda>p. p\<lparr>pd_nthreads := pd_nthreads p + 1\<rparr>) in
     if pd_thread (pt_pds t1 ! pd) = None then modpd t1 pd (\<lambda>p. p\<lparr>pd_thread := Some th\<rparr>) else t1)"
    using assms(3) pd T0 by (simp add: bind_thread_def Let_def t0_def [symmetric] e_def)
  show "pt_owner (bind_thread t pd th) = (pt_owner t)[t_slot th := e]" "length (pt_pds (bind_thread t pd th)) = length (pt_pds t)"
    by (simp_all add: B Let_def modpd_def T0(2))
  show "pd_used (pt_pds (bind_thread t pd th) ! p) = pd_used (pt_pds t ! p)" "pd_epoch (pt_pds (bind_thread t pd th) ! p) = pd_epoch (pt_pds t ! p)"
    "pd_nthreads (pt_pds (bind_thread t pd th) ! p) =
       pd_nthreads (pt_pds t ! p) - (if belongs t p (pt_owner t ! t_slot th) then 1 else 0) + (if p = pd then 1 else 0)"
    using T0(2,3) assms(4) pd by (simp_all add: B Let_def modpd_def nth_list_update)
qed

lemma bind_outside:
  assumes "\<not> t_slot th < length (pt_owner t)"
  shows "same_own t (bind_thread t pd th)"
  using assms by (auto simp: bind_thread_def Let_def own_of_def intro!: modpd_own) (simp_all add: same_own_def)

lemma own_bind:
  assumes "own_inv t" "pd_live t pd" "pt_wf (bind_thread t pd th)"
  shows "own_inv (bind_thread t pd th)"
proof (cases "t_slot th < length (pt_owner t)")
  case False
  then show ?thesis by (rule own_same [OF bind_outside assms(3,1)])
next
  case True
  let ?t = "bind_thread t pd th" and ?alt = "pt_owner t ! t_slot th"
  define e where "e = \<lparr>to_tid = to_raw th, to_pd1 = (of_nat (pd + 1) :: u32), to_epoch = pd_epoch (pt_pds t ! pd)\<rparr>"
  note I = own_invD [OF assms(1)] and E = bind_effect [OF assms(1,2) True, folded e_def]
  have pd: "pd < length (pt_pds t)" "length (pt_pds t) < 2 ^ 16" "pd_used (pt_pds t ! pd)" using assms(2) I(1) by (simp_all add: pd_live_def pt_wf_def)
  have o: "pt_owner ?t = (pt_owner t)[t_slot th := e]" "length (pt_pds ?t) = length (pt_pds t)" using E(1,4) [OF pd(1)] by simp_all
  have be: "belongs t p e \<longleftrightarrow> p = pd" if "p < length (pt_pds t)" for p
    using pd1_index [of p e] pd1_index [of pd e] that pd by (auto simp: belongs_def e_def)
  have bt: "belongs ?t p = belongs t p" if "p < length (pt_pds t)" for p using E(3) [OF that] by (auto simp: belongs_def)
  have c: "length (filter (belongs ?t p) (pt_owner ?t)) + (if belongs t p ?alt then 1 else 0) = unat (pd_nthreads (pt_pds t ! p)) + (if p = pd then 1 else 0)"
    if "p < length (pt_pds t)" for p
    using count_update [OF True, of "belongs t p" e] be [OF that] I(4) [OF that] unfolding o bt [OF that] by simp
  have up: "unat (to_pd1 e) = pd + 1" using pd unat_of_nat_u32 [of "pd + 1"] by (simp add: e_def)
  show ?thesis
  proof (rule own_invI [OF assms(3)])
    show "length (pt_owner ?t) < 2 ^ 32" using I(2) o(1) by simp
  next
    fix x
    assume x: "x \<in> set (pt_owner ?t)" "to_pd1 x \<noteq> 0"
    have ep: "q < length (pt_pds t) \<Longrightarrow> pd_epoch (pt_pds ?t ! q) = pd_epoch (pt_pds t ! q)" for q using E(3) .
    show "unat (to_pd1 x) \<le> length (pt_pds ?t) \<and> to_epoch x \<le> pd_epoch (pt_pds ?t ! (unat (to_pd1 x) - 1))"
    proof (cases "x = e")
      case True
      then show ?thesis using up pd ep o(2) by (simp add: e_def)
    next
      case False
      then have "x \<in> set (pt_owner t)" using x(1) o(1) set_update_subset_insert [of "pt_owner t" "t_slot th" e] by auto
      moreover have "unat (to_pd1 x) \<noteq> 0" using x(2) by (simp add: unat_eq_0)
      ultimately show ?thesis using I(3) [of x] x(2) ep [of "unat (to_pd1 x) - 1"] o(2) by fastforce
    qed
  next
    fix p
    assume "p < length (pt_pds ?t)"
    then have p: "p < length (pt_pds t)" using o(2) by simp
    have l: "length (filter (belongs ?t p) (pt_owner ?t)) < 2 ^ 32" using I(2) o(1) length_filter_le [of "belongs ?t p" "pt_owner ?t"] by simp
    show "unat (pd_nthreads (pt_pds ?t ! p)) = length (filter (belongs ?t p) (pt_owner ?t))"
    proof -
      let ?n = "pd_nthreads (pt_pds t ! p)" and ?k = "length (filter (belongs ?t p) (pt_owner ?t))"
      have "(of_nat (?k + (if belongs t p ?alt then 1 else 0)) :: u32) = of_nat (unat ?n + (if p = pd then 1 else 0))" using c [OF p] by simp
      then have "(of_nat ?k :: u32) = ?n - (if belongs t p ?alt then 1 else 0) + (if p = pd then 1 else 0)" by (auto split: if_splits simp: algebra_simps)
      then show ?thesis using E(5) [OF p] unat_of_nat_u32 [OF l] by simp
    qed
    assume "\<not> pd_used (pt_pds ?t ! p)"
    then have u: "\<not> pd_used (pt_pds t ! p)" "p \<noteq> pd" using E(2) [OF p] pd(3) by auto
    then have "unat (pd_nthreads (pt_pds t ! p)) = 0" using I(4,5) [OF p] by simp
    then show "filter (belongs ?t p) (pt_owner ?t) = []" using c [OF p] u(2) by (auto split: if_splits)
  qed
qed

section \<open>Creation and release\<close>

lemma own_created:
  assumes "created t t' n i" "own_inv t"
  shows "own_inv t'"
proof -
  note I = own_invD [OF assms(2)] and L = created_live [OF assms(1)] and E = created_entry [OF assms(1)]
  have i: "i < length (pt_pds t)" "\<not> pd_used (pt_pds t ! i)" using assms(1) by (auto simp: created_def)
  have ep: "pd_epoch (pt_pds t' ! p) = pd_epoch (pt_pds t ! p)" for p using L(3) E(2) by (cases "p = i") auto
  have bt: "belongs t' p = belongs t p" for p by (auto simp: belongs_def ep)
  have z: "pd_nthreads (pt_pds t ! i) = 0" using I(4,5) i by (metis list.size(3) unat_eq_0)
  have nt: "pd_nthreads (pt_pds t' ! p) = pd_nthreads (pt_pds t ! p)" for p using L(3) E(1) z by (cases "p = i") (auto simp: fresh_pd_def)
  show ?thesis
  proof (rule own_invI [OF wf_created [OF assms(1) I(1)]])
    fix p
    assume "p < length (pt_pds t')" "\<not> pd_used (pt_pds t' ! p)"
    then show "filter (belongs t' p) (pt_owner t') = []" using I(5) [of p] L(3,4) E(1,7) bt by (cases "p = i") (auto simp: fresh_pd_def)
  qed (use I(2-4) L(4) E(7) ep nt bt in simp_all)
qed

lemma next_epoch:
  fixes x :: u32
  assumes "x \<noteq> - 1"
  shows "x < x + 1"
proof -
  have "unat x \<noteq> 2 ^ 32 - 1"
  proof
    assume "unat x = 2 ^ 32 - 1"
    then have "(of_nat (unat x) :: u32) = of_nat (2 ^ 32 - 1)" by simp
    then show False using assms by simp
  qed
  then have "unat (x + 1) = unat x + 1" using unat_plus_if' [of x 1] unat_u32_lt [of x] by simp
  then show ?thesis by (simp add: word_less_nat_alt)
qed

lemma own_free:
  assumes "own_inv t" "pd_live t p" "pd_epoch (pt_pds t ! p) \<noteq> - 1" "pd_free t p = Some (t', f)"
  shows "own_inv t'"
proof -
  note I = own_invD [OF assms(1)] and F = freed [OF own_invD(1) [OF assms(1)] assms(2,4)]
  have p: "p < length (pt_pds t)" "length (pt_pds t) < 2 ^ 16" using assms(2) I(1) by (simp_all add: pd_live_def pt_wf_def)
  have less: "x < pd_epoch (pt_pds t ! p) + 1" if "x \<le> pd_epoch (pt_pds t ! p)" for x using that next_epoch [OF assms(3)] by (rule order_le_less_trans)
  have at: "pt_pds t' ! q = (if q = p then Pd_EMPTY\<lparr>pd_epoch := pd_epoch (pt_pds t ! p) + 1\<rparr> else pt_pds t ! q)" "length (pt_pds t') = length (pt_pds t)" for q
    using F(1) p(1) by (auto simp: nth_list_update)
  have none: "\<not> belongs t' p e" if "e \<in> set (pt_owner t)" for e
  proof
    assume "belongs t' p e"
    then have e: "to_pd1 e = of_nat (p + 1)" "to_epoch e = pd_epoch (pt_pds t ! p) + 1" by (auto simp: belongs_def at(1))
    have "unat (to_pd1 e) = p + 1" "to_pd1 e \<noteq> 0" using e(1) unat_of_nat_u32 [of "p + 1"] pd1_index [of p e] p by auto
    then show False using I(3) [OF that] less [of "to_epoch e"] e(2) by simp
  qed
  have bt: "belongs t' q = belongs t q" if "q \<noteq> p" for q using that by (auto simp: belongs_def at(1))
  show ?thesis
  proof (rule own_invI [OF wf_free [OF I(1) assms(4)]])
    fix e
    assume "e \<in> set (pt_owner t')" "to_pd1 e \<noteq> 0"
    then show "unat (to_pd1 e) \<le> length (pt_pds t') \<and> to_epoch e \<le> pd_epoch (pt_pds t' ! (unat (to_pd1 e) - 1))"
      using I(3) [of e] less [of "to_epoch e"] F(5) at by (auto intro: less_imp_le)
  next
    fix q
    assume q: "q < length (pt_pds t')"
    have n: "filter (belongs t' p) (pt_owner t) = []" using none by (simp add: filter_empty_conv)
    show "unat (pd_nthreads (pt_pds t' ! q)) = length (filter (belongs t' q) (pt_owner t'))"
      using n q I(4) [of q] bt [of q] F(5) at by (cases "q = p") (simp_all add: Pd_EMPTY_def)
    assume "\<not> pd_used (pt_pds t' ! q)"
    then show "filter (belongs t' q) (pt_owner t') = []" using n q I(5) [of q] bt [of q] F(5) at by (cases "q = p") simp_all
  qed (use I(2) F(5) in simp)
qed

lemma own_step: "pt_step bk fr t t' \<Longrightarrow> own_inv t \<Longrightarrow> own_inv t'"
proof (induction rule: pt_step.induct)
  case (ps_use t t')
  have "pt_wf t'" using step_wf [OF pt_step.ps_use [OF ps_use(1)]] own_invD(1) [OF ps_use(2)] .
  then show ?case using use_own [OF ps_use(1)] own_same own_bind ps_use(2) by blast
next
  case (ps_create t d b l t' r)
  have "refused t t' \<Longrightarrow> same_own t t'" by (simp add: refused_def same_own_def)
  then show ?case using create_or_refuse(1) [OF own_invD(1) [OF ps_create(2)] ps_create(1)] own_created ps_create(2) own_same wf_refused own_invD(1) by blast
next
  case (ps_backend t partner bid ep nt t' r')
  have "refused t t' \<Longrightarrow> same_own t t'" by (simp add: refused_def same_own_def)
  then show ?case using create_or_refuse(2) [OF own_invD(1) [OF ps_backend(3)] ps_backend(2)] own_created ps_backend(3) own_same wf_refused own_invD(1) by blast
next
  case (ps_free t pd t' f)
  show ?case
  proof (cases "pd_live t pd")
    case True
    then show ?thesis using own_free [OF ps_free(4) True _ ps_free(2)] ps_free(3) by simp
  next
    case False
    then show ?thesis using ps_free(2,4) by (simp add: free_cases [OF own_invD(1) [OF ps_free(4)]])
  qed
qed

interpretation owner: step_system pt_init "pt_step bk fr" own_inv
proof
  fix t
  assume i: "pt_init t"
  then show "own_inv t"
  proof (rule pt_initD)
    fix n owners :: nat and pool :: nat
    assume a: "n < 2 ^ 16 - 1" "owners < 2 ^ 32" "pt_pds t = replicate n Pd_EMPTY" "pt_owner t = replicate owners ThreadOwner_EMPTY"
    have "\<not> belongs t p ThreadOwner_EMPTY" if "p < n" for p
      using link_index(1) [of p] that a(1) by (simp add: belongs_def ThreadOwner_EMPTY_def)
    then have "filter (belongs t p) (pt_owner t) = []" if "p < n" for p using that by (simp add: a(4) filter_empty_conv)
    then show ?thesis using a by (intro own_invI [OF init_wf [OF i]]) (auto simp: ThreadOwner_EMPTY_def Pd_EMPTY_def)
  qed
qed (rule own_step)

section \<open>Who a thread acts for\<close>

lemma pd_of_iff:
  assumes "pt_wf t" "pt_owner t \<noteq> []"
  shows "pd_of t th = Some p \<longleftrightarrow> pd_live t p \<and> t_slot th < length (pt_owner t) \<and> belongs t p (pt_owner t ! t_slot th) \<and> to_tid (pt_owner t ! t_slot th) = to_raw th"
proof (cases "pd_live t p")
  case True
  then have "p < 2 ^ 16" using assms(1) by (simp add: pd_live_def pt_wf_def)
  note P = pd1_index [OF this, of "pt_owner t ! t_slot th"]
  have "pd_of t th = Some p \<longleftrightarrow> t_slot th < length (pt_owner t) \<and> to_pd1 (pt_owner t ! t_slot th) \<noteq> 0 \<and> unat (to_pd1 (pt_owner t ! t_slot th) - 1) = p \<and>
      pd_epoch (pt_pds t ! p) = to_epoch (pt_owner t ! t_slot th) \<and> to_tid (pt_owner t ! t_slot th) = to_raw th"
    using assms(2) True by (auto simp: pd_of_def Let_def split: if_splits)
  then show ?thesis using P True unfolding belongs_def by metis
next
  case False
  then show ?thesis using assms(2) by (auto simp: pd_of_def Let_def split: if_splits)
qed

lemma bind_pd_of:
  assumes O: "own_inv t" and ne: "pt_owner t \<noteq> []" and live: "pd_live t p" and s: "t_slot th < length (pt_owner t)"
  shows "pd_of (bind_thread t p th) u = (if t_slot u = t_slot th then if to_raw u = to_raw th then Some p else None else pd_of t u)"
proof -
  let ?t = "bind_thread t p th"
  note I = own_invD [OF O]
  define e where "e = \<lparr>to_tid = to_raw th, to_pd1 = (of_nat (p + 1) :: u32), to_epoch = pd_epoch (pt_pds t ! p)\<rparr>"
  have p: "p < length (pt_pds t)" "length (pt_pds t) < 2 ^ 16" using live I(1) by (auto simp: pd_live_def pt_wf_def)
  note E = bind_effect [OF O live s, folded e_def]
  have w: "pt_wf ?t" by (rule wf_same [OF bind_same I(1)])
  have l: "pd_live ?t q = pd_live t q" for q using same_core_live [OF bind_same] .
  have o: "pt_owner ?t = (pt_owner t)[t_slot th := e]" using E(1) [OF p(1)] .
  have bt: "belongs ?t q x = belongs t q x" if "pd_live t q" for q x using E(3) [of q] that by (auto simp: belongs_def pd_live_def)
  have be: "belongs t q e \<longleftrightarrow> q = p" if "pd_live t q" for q
    using pd1_index [of q e] pd1_index [of p e] that p by (auto simp: belongs_def e_def pd_live_def)
  have "pd_of ?t u = Some q \<longleftrightarrow> (if t_slot u = t_slot th then to_raw u = to_raw th \<and> q = p else pd_of t u = Some q)" for q
    unfolding pd_of_iff [OF I(1) ne] using pd_of_iff [OF w, of u q] ne live s l bt be o by (auto simp: e_def)
  then show ?thesis by (metis (full_types) not_None_eq)
qed

lemma free_pd_of:
  assumes O: "own_inv t" and ne: "pt_owner t \<noteq> []" and f: "pd_free t p = Some (t1, True)"
  shows "pd_of t1 u = (if pd_of t u = Some p then None else pd_of t u)"
proof -
  note I = own_invD [OF O]
  have live: "pd_live t p" using f by (auto simp: free_cases [OF I(1)] split: if_splits)
  note F = freed [OF I(1) live f]
  have p: "p < length (pt_pds t)" using live by (simp add: pd_live_def)
  have l: "pd_live t1 q \<longleftrightarrow> q \<noteq> p \<and> pd_live t q" for q using F(1) p by (auto simp: pd_live_def nth_list_update Pd_EMPTY_def)
  have b: "q \<noteq> p \<Longrightarrow> belongs t1 q x = belongs t q x" for q x using F(1) p by (auto simp: belongs_def nth_list_update)
  have "pd_of t1 u = Some q \<longleftrightarrow> q \<noteq> p \<and> pd_of t u = Some q" for q
    unfolding pd_of_iff [OF I(1) ne] using pd_of_iff [OF wf_free [OF I(1) f], of u q] ne l b F(5) by auto
  then show ?thesis by (metis (full_types) not_None_eq)
qed

lemma create_pd_of:
  assumes O: "own_inv t" and ne: "pt_owner t \<noteq> []" and c: "create_mit_budget_und_cspace t d b l = Some (t1, Inr i)"
  shows "pd_of t1 u = pd_of t u" "pd_of t1 u \<noteq> Some i"
proof -
  note I = own_invD [OF O]
  note C = create_Inr(1) [OF I(1) c]
  have i: "i < length (pt_pds t)" "\<not> pd_used (pt_pds t ! i)" using C by (auto simp: created_def)
  have n: "\<not> belongs t1 i x" if "x \<in> set (pt_owner t)" for x
    using I(5) [OF i] that created_entry(2) [OF C] by (auto simp: belongs_def filter_empty_conv)
  show no: "pd_of t1 u \<noteq> Some i" using n pd_of_iff [OF wf_created [OF C I(1)], of u i] created_entry(7) [OF C] ne by auto
  have ow: "pt_owner t1 = pt_owner t" using created_entry(7) [OF C] .
  have q: "q \<noteq> i \<Longrightarrow> pd_live t1 q = pd_live t q \<and> belongs t1 q x = belongs t q x" for q x
    using C i by (auto simp: created_def pd_live_def belongs_def nth_list_update)
  have "pd_of t1 u = Some q \<longleftrightarrow> pd_of t u = Some q" for q
  proof (cases "q = i")
    case True
    moreover have "pd_of t u \<noteq> Some i" using pd_of_iff [OF I(1) ne, of u i] i by (auto simp: pd_live_def)
    ultimately show ?thesis using no by simp
  next
    case False
    then show ?thesis unfolding pd_of_iff [OF I(1) ne] using pd_of_iff [OF wf_created [OF C I(1)], of u q] ne ow q by auto
  qed
  then show "pd_of t1 u = pd_of t u" by (metis (full_types) not_None_eq)
qed

lemma same_own_pd_of:
  assumes "same_own t t'" "pt_wf t" "pt_wf t'" "pt_owner t \<noteq> []"
  shows "pd_of t' u = pd_of t u"
proof -
  have o: "pt_owner t' = pt_owner t" using assms(1) by (simp add: same_own_def)
  have "pd_live t' p = pd_live t p \<and> (pd_live t p \<longrightarrow> belongs t' p e = belongs t p e)" for p e
    using same_own_nth [OF assms(1)] by (auto simp: pd_live_def belongs_def)
  then have "pd_of t' u = Some p \<longleftrightarrow> pd_of t u = Some p" for p
    using pd_of_iff [OF assms(2,4)] pd_of_iff [OF assms(3), of u p] assms(4) o by auto
  then show ?thesis by (metis (full_types) not_None_eq)
qed

lemma step_owner_length: "pt_step bk fr t t' \<Longrightarrow> own_inv t \<Longrightarrow> length (pt_owner t') = length (pt_owner t)"
proof (induction rule: pt_step.induct)
  case (ps_use t t')
  then show ?case using use_same by (auto simp: same_core_def)
next
  case (ps_create t d b l t' r)
  then show ?case using create_or_refuse(1) [OF own_invD(1) [OF ps_create(2)] ps_create(1)] created_entry(7) by (metis refused_def)
next
  case (ps_backend t partner bid ep nt t' r')
  then show ?case using create_or_refuse(2) [OF own_invD(1) [OF ps_backend(3)] ps_backend(2)] created_entry(7) by (metis refused_def)
next
  case (ps_free t pd t' f)
  then show ?case using freed(5) [OF own_invD(1) [OF ps_free(4)] _ ps_free(2)] free_cases [OF own_invD(1) [OF ps_free(4)], of pd]
    by (cases "pd_live t pd") auto
qed

text \<open>
  Threads and domains: in every reachable state with an owner table the number of threads of a domain is
  the number of owner entries that name it; binding a thread makes exactly this thread act for the domain
  and changes nothing for the threads of other slots; a domain that is freed has no thread any more and all
  others keep theirs; and a domain that was just created has no thread, also when its entry was used before.
\<close>

theorem thread_ownership:
  assumes "reach pt_init (pt_step True True) t" "pt_owner t \<noteq> []"
  shows "(pd_live t p \<longrightarrow> unat (thread_count t p) = length (filter (belongs t p) (pt_owner t))) \<and>
    (pd_live t p \<and> t_slot th < length (pt_owner t) \<longrightarrow>
      pd_of (bind_thread t p th) u = (if t_slot u = t_slot th then if to_raw u = to_raw th then Some p else None else pd_of t u)) \<and>
    (pd_free t p = Some (t1, True) \<longrightarrow> pd_of t1 u = (if pd_of t u = Some p then None else pd_of t u)) \<and>
    (create_mit_budget_und_cspace t d b l = Some (t2, Inr i) \<longrightarrow> pd_of t2 u \<noteq> Some i)"
proof (intro conjI impI)
  have O: "own_inv t" using owner.reach_inv [OF assms(1)] .
  show "unat (thread_count t p) = length (filter (belongs t p) (pt_owner t))" if "pd_live t p"
    using that own_invD(4) [OF O] by (simp add: thread_count_def pd_live_def)
qed (use bind_pd_of free_pd_of create_pd_of(2) owner.reach_inv [OF assms(1)] assms(2) in simp_all)

end
