(* ===== verification/Redirect.thy ===== *)
theory Redirect
  imports PdOwner Sched
begin

text \<open>
  Redirected system calls (\<open>caprock-sched/src/redirect.rs\<close>): the layout of a side-car slot and the check of
  its header, the mask of words that a handler or a debugger may write back, the switch between kernel and
  handler, and the check that keeps the graph of handlers free of cycles.
\<close>

section \<open>The layout of a slot\<close>

definition SLOT_BYTES :: nat where "SLOT_BYTES = 512"
definition FRAME_MAX_BYTES :: nat where "FRAME_MAX_BYTES = 272"

definition slot_offset :: "u16 \<Rightarrow> nat" where
  "slot_offset slot = unat slot * SLOT_BYTES"

definition slot_gueltig :: "u16 \<Rightarrow> u16 \<Rightarrow> bool" where
  "slot_gueltig slot slots \<longleftrightarrow> slot < slots"

definition MAGIE :: u64 where "MAGIE = 0x4350524B5F46524D"
definition FORMAT_VERSION :: u64 where "FORMAT_VERSION = 1"
definition KOPF_MAGIE :: nat where "KOPF_MAGIE = 0"
definition KOPF_VERSION :: nat where "KOPF_VERSION = 1"
definition KOPF_GEN :: nat where "KOPF_GEN = 2"
definition KOPF_ANLASS :: nat where "KOPF_ANLASS = 3"
definition KOPF_CODE :: nat where "KOPF_CODE = 4"
definition KOPF_NGPR :: nat where "KOPF_NGPR = 5"
definition KOPF_NGESAMT :: nat where "KOPF_NGESAMT = 6"
definition KOPF_ARCH :: nat where "KOPF_ARCH = 7"
definition KOPF_GRUPPE :: nat where "KOPF_GRUPPE = 8"
definition KOPF_RESERVIERT :: nat where "KOPF_RESERVIERT = 9"
definition KOPF_RESERVIERT_N :: nat where "KOPF_RESERVIERT_N = 7"
definition KOPF_ABI :: nat where "KOPF_ABI = 16"
definition KOPF_ABI_N :: nat where "KOPF_ABI_N = 7"
definition FRAME_WORT :: nat where "FRAME_WORT = 24"
definition ARCH_X86_64 :: u64 where "ARCH_X86_64 = 0"
definition ARCH_AARCH64 :: u64 where "ARCH_AARCH64 = 1"
definition SLOT_WOERTER :: nat where "SLOT_WOERTER = SLOT_BYTES div 8"
definition FRAME_WOERTER_MAX :: nat where "FRAME_WOERTER_MAX = SLOT_WOERTER - FRAME_WORT"

lemmas kopf_defs = KOPF_MAGIE_def KOPF_VERSION_def KOPF_GEN_def KOPF_ANLASS_def KOPF_CODE_def KOPF_NGPR_def KOPF_NGESAMT_def KOPF_ARCH_def
  KOPF_GRUPPE_def KOPF_RESERVIERT_def KOPF_RESERVIERT_N_def KOPF_ABI_def KOPF_ABI_N_def FRAME_WORT_def

definition frame_wort :: "nat \<Rightarrow> nat" where
  "frame_wort i = FRAME_WORT + i"

definition frame_passt :: "nat \<Rightarrow> bool" where
  "frame_passt n \<longleftrightarrow> n \<le> FRAME_WOERTER_MAX"

datatype KopfUrteil = KopfOk | KeinFrame | FremdeVersion u64 | FremdeArchitektur u64 | FremdeBreite u64 u64 | Reserviert

definition kopf_pruefen :: "u64 list \<Rightarrow> u64 \<Rightarrow> u64 \<Rightarrow> u64 \<Rightarrow> KopfUrteil" where
  "kopf_pruefen slot arch n_gpr n_ges =
     (if length slot < FRAME_WORT then KeinFrame
      else if slot ! KOPF_MAGIE \<noteq> MAGIE then KeinFrame
      else if slot ! KOPF_VERSION \<noteq> FORMAT_VERSION then FremdeVersion (slot ! KOPF_VERSION)
      else if slot ! KOPF_ARCH \<noteq> arch then FremdeArchitektur (slot ! KOPF_ARCH)
      else if slot ! KOPF_NGPR \<noteq> n_gpr \<or> slot ! KOPF_NGESAMT \<noteq> n_ges then FremdeBreite (slot ! KOPF_NGPR) (slot ! KOPF_NGESAMT)
      else if slot ! KOPF_GRUPPE \<noteq> 0 then Reserviert
      else if list_ex (\<lambda>i. slot ! (KOPF_RESERVIERT + i) \<noteq> 0) [0..<KOPF_RESERVIERT_N] then Reserviert
      else KopfOk)"

definition uebernehmbar :: "nat \<Rightarrow> nat \<Rightarrow> bool" where
  "uebernehmbar i n_gpr \<longleftrightarrow> i < n_gpr"

section \<open>What may be written back\<close>

datatype SchreibStufe = StufeHandler | StufeDebugger

datatype SchreibUrteil = SchreibOk | RingWort nat | UeberDerStufe nat | NichtKanonisch u64 | Schief u64 | VerbotenesFlag u64

definition RFLAGS_TF :: u64 where "RFLAGS_TF = push_bit 8 1"
definition RFLAGS_IOPL :: u64 where "RFLAGS_IOPL = push_bit 12 3"
definition RFLAGS_VERBOTEN :: u64 where "RFLAGS_VERBOTEN = RFLAGS_TF OR RFLAGS_IOPL"

record FrameIndizes =
  fi_n_gpr :: nat
  fi_pc :: nat
  fi_sp :: nat
  fi_flags :: "nat option"
  fi_ring :: "nat list"
  fi_n_gesamt :: nat

definition INDIZES_X86_64 :: FrameIndizes where
  "INDIZES_X86_64 = \<lparr>fi_n_gpr = 15, fi_pc = 17, fi_sp = 20, fi_flags = Some 19, fi_ring = [15, 16, 18, 21], fi_n_gesamt = 22\<rparr>"

definition INDIZES_AARCH64 :: FrameIndizes where
  "INDIZES_AARCH64 = \<lparr>fi_n_gpr = 31, fi_pc = 31, fi_sp = 33, fi_flags = None, fi_ring = [32], fi_n_gesamt = 34\<rparr>"

definition indizes :: "u64 \<Rightarrow> FrameIndizes option" where
  "indizes arch = (if arch = ARCH_X86_64 then Some INDIZES_X86_64 else if arch = ARCH_AARCH64 then Some INDIZES_AARCH64 else None)"

definition indizes_stimmen :: "u64 \<Rightarrow> nat \<Rightarrow> nat \<Rightarrow> bool" where
  "indizes_stimmen arch n_gpr n_gesamt \<longleftrightarrow> (case indizes arch of Some i \<Rightarrow> fi_n_gpr i = n_gpr \<and> fi_n_gesamt i = n_gesamt | None \<Rightarrow> False)"

definition kanonisch :: "u64 \<Rightarrow> bool" where
  "kanonisch va \<longleftrightarrow> (let oben = drop_bit 47 va in oben = 0 \<or> oben = 0x1ffff)"

definition writeback_erlaubt :: "u64 \<Rightarrow> nat \<Rightarrow> u64 \<Rightarrow> SchreibStufe \<Rightarrow> SchreibUrteil" where
  "writeback_erlaubt arch i v stufe =
     (case indizes arch of
        None \<Rightarrow> UeberDerStufe i
      | Some ix \<Rightarrow>
          if i \<in> set (fi_ring ix) then RingWort i
          else if i \<ge> fi_n_gesamt ix then UeberDerStufe i
          else if i < fi_n_gpr ix then SchreibOk
          else if stufe = StufeHandler then UeberDerStufe i
          else if i = fi_pc ix then if kanonisch v then SchreibOk else NichtKanonisch v
          else if i = fi_sp ix then if v mod 8 = 0 then SchreibOk else Schief v
          else if Some i = fi_flags ix then if v AND RFLAGS_VERBOTEN \<noteq> 0 then VerbotenesFlag (v AND RFLAGS_VERBOTEN) else SchreibOk
          else UeberDerStufe i)"

definition slots_in :: "u64 \<Rightarrow> u16" where
  "slots_in len = (let n = len div of_nat SLOT_BYTES in if n > 0xffff then 0xffff else ucast n)"

definition fenster_deckt :: "u16 \<Rightarrow> u64 \<Rightarrow> bool" where
  "fenster_deckt slots len \<longleftrightarrow> (ucast slots :: u64) * of_nat SLOT_BYTES \<le> len"

section \<open>The switch\<close>

definition KEIN_EP :: u32 where "KEIN_EP = 0xffffffff"

definition hat_syscall :: "Bindung \<Rightarrow> bool" where
  "hat_syscall b \<longleftrightarrow> bi_sys_ep b \<noteq> KEIN_EP"

definition hat_fault :: "Bindung \<Rightarrow> bool" where
  "hat_fault b \<longleftrightarrow> bi_fault_ep b \<noteq> KEIN_EP"

definition ist_leer :: "Bindung \<Rightarrow> bool" where
  "ist_leer b \<longleftrightarrow> \<not> hat_syscall b \<and> \<not> hat_fault b"

datatype Anlass = AnlassSyscall | AnlassFault

datatype Weiche = WeicheKernel | WeicheHandler u32 u16 u64 | WeicheFault u64

definition ERR_HANDLER_GONE :: u64 where "ERR_HANDLER_GONE = 11"
definition ERR_HANDLER_ABI :: u64 where "ERR_HANDLER_ABI = 14"

definition weiche_syscall :: "Bindung option \<Rightarrow> bool \<Rightarrow> Weiche" where
  "weiche_syscall bindung lebt =
     (case bindung of
        None \<Rightarrow> WeicheKernel
      | Some b \<Rightarrow>
          if \<not> hat_syscall b then WeicheKernel
          else if \<not> lebt then WeicheFault ERR_HANDLER_GONE
          else WeicheHandler (bi_sys_ep b) (bi_slot b) (bi_sidecar b))"

definition weiche_fault :: "Bindung option \<Rightarrow> bool \<Rightarrow> Weiche" where
  "weiche_fault bindung lebt =
     (case bindung of
        None \<Rightarrow> WeicheKernel
      | Some b \<Rightarrow>
          if \<not> hat_fault b then WeicheKernel
          else if \<not> lebt then WeicheFault ERR_HANDLER_GONE
          else WeicheHandler (bi_fault_ep b) (bi_slot b) (bi_sidecar b))"

section \<open>The graph of handlers\<close>

datatype BindUrteil = BindOk | Zyklus | SelbstBindung | FremderHandler | KetteZuLang | KeinSlot | Wirkungslos

function kette_pruefen :: "u16 \<Rightarrow> (u16 \<Rightarrow> u16 option) \<Rightarrow> nat \<Rightarrow> u16 \<Rightarrow> nat \<Rightarrow> BindUrteil" where
  "kette_pruefen gast_pd kante n_knoten k schritte =
     (if k = gast_pd then Zyklus
      else case kante k of
        None \<Rightarrow> BindOk
      | Some naechster \<Rightarrow>
          if schritte + 1 > n_knoten then KetteZuLang
          else kette_pruefen gast_pd kante n_knoten naechster (schritte + 1))"
  by pat_completeness auto
termination
  by (relation "measure (\<lambda>(_, _, n, _, s). n - s)") auto

declare kette_pruefen.simps [simp del]

definition pruefe_bindung :: "u16 \<Rightarrow> u16 \<Rightarrow> bool \<Rightarrow> bool \<Rightarrow> (u16 \<Rightarrow> u16 option) \<Rightarrow> nat \<Rightarrow> u16 \<Rightarrow> BindUrteil" where
  "pruefe_bindung gast_pd handler_pd sys flt kante n_knoten freie_slots =
     (if \<not> sys \<and> \<not> flt then Wirkungslos
      else if gast_pd = handler_pd then SelbstBindung
      else if (case kante gast_pd of Some vorhanden \<Rightarrow> vorhanden \<noteq> handler_pd | None \<Rightarrow> False) then FremderHandler
      else if freie_slots = 0 then KeinSlot
      else kette_pruefen gast_pd kante n_knoten handler_pd 0)"

function kettenlaenge_ab :: "(u16 \<Rightarrow> u16 option) \<Rightarrow> nat \<Rightarrow> u16 \<Rightarrow> nat \<Rightarrow> nat option" where
  "kettenlaenge_ab kante n_knoten k n =
     (case kante k of
        None \<Rightarrow> Some n
      | Some naechster \<Rightarrow> if n + 1 > n_knoten then None else kettenlaenge_ab kante n_knoten naechster (n + 1))"
  by pat_completeness auto
termination
  by (relation "measure (\<lambda>(_, m, _, n). m - n)") auto

declare kettenlaenge_ab.simps [simp del]

definition kettenlaenge :: "u16 \<Rightarrow> (u16 \<Rightarrow> u16 option) \<Rightarrow> nat \<Rightarrow> nat option" where
  "kettenlaenge pd kante n_knoten = kettenlaenge_ab kante n_knoten pd 0"

end
