(* ===== verification/PdHandler.thy ===== *)
theory PdHandler
  imports Redirect
begin

text \<open>
  Binding a handler (\<open>SYS_SETHANDLER\<close> in \<open>caprock-microkit/src/lib.rs\<close>) over the table of protection
  domains: the graph of handlers stays free of cycles, so that every walk along it ends, and side-car slots
  are handed out once.
\<close>

section \<open>The operations\<close>

definition ERR_NOSPACE :: u64 where "ERR_NOSPACE = 7"
definition ERR_HANDLER_CYCLE :: u64 where "ERR_HANDLER_CYCLE = 10"
definition ERR_HANDLER_BUSY :: u64 where "ERR_HANDLER_BUSY = 12"

definition kante_of :: "PdTable \<Rightarrow> u16 \<Rightarrow> u16 option" where
  "kante_of t p = handler_pd_of t (unat p)"

definition sys_pruefe_bindung :: "PdTable \<Rightarrow> u16 \<Rightarrow> u16 \<Rightarrow> bool \<Rightarrow> bool \<Rightarrow> BindUrteil" where
  "sys_pruefe_bindung t gast_pd handler_pd sys flt =
     pruefe_bindung gast_pd handler_pd sys flt (kante_of t) (length (pt_pds t)) (sidecar_frei t (unat handler_pd))"

text \<open>The part of \<open>SYS_SETHANDLER\<close> under the lock of the tables; \<open>Inl\<close> is the code the caller gets.\<close>

definition sethandler_bind :: "PdTable \<Rightarrow> nat \<Rightarrow> u16 \<Rightarrow> u32 \<Rightarrow> u32 \<Rightarrow> u64 \<Rightarrow> PdTable \<times> (u64 + Bindung)" where
  "sethandler_bind t gast_pd handler_pd sys_ep flt_ep sidecar =
     (case sys_pruefe_bindung t (of_nat gast_pd) handler_pd (sys_ep \<noteq> KEIN_EP) (flt_ep \<noteq> KEIN_EP) of
        Zyklus \<Rightarrow> (t, Inl ERR_HANDLER_CYCLE)
      | SelbstBindung \<Rightarrow> (t, Inl ERR_HANDLER_CYCLE)
      | KetteZuLang \<Rightarrow> (t, Inl ERR_HANDLER_CYCLE)
      | FremderHandler \<Rightarrow> (t, Inl ERR_HANDLER_BUSY)
      | KeinSlot \<Rightarrow> (t, Inl ERR_NOSPACE)
      | Wirkungslos \<Rightarrow> (t, Inl ERR_BADCAP)
      | BindOk \<Rightarrow>
          (case sidecar_belegen t (unat handler_pd) of
             (t1, None) \<Rightarrow> (t1, Inl ERR_NOSPACE)
           | (t1, Some slot) \<Rightarrow>
               (fst (handler_kante_setzen t1 gast_pd handler_pd),
                Inr \<lparr>bi_sys_ep = sys_ep, bi_fault_ep = flt_ep, bi_handler_pd = handler_pd, bi_slot = slot, bi_sidecar = sidecar\<rparr>)))"

text \<open>The rest, once the scheduler has stored the binding or could not: \<open>gesetzt\<close> is its answer.\<close>

definition sethandler_commit :: "PdTable \<Rightarrow> nat \<Rightarrow> Bindung \<Rightarrow> bool \<Rightarrow> PdTable \<times> u64" where
  "sethandler_commit t gast_pd b gesetzt =
     (if gesetzt then (t, res_OK)
      else (fst (sidecar_freigeben (fst (handler_kante_loesen t gast_pd)) (unat (bi_handler_pd b)) (bi_slot b)), ERR_BADCAP))"

text \<open>Unbinding: \<open>gast\<close> is the domain of the thread, if it still has one, \<open>alt\<close> its binding.\<close>

definition sethandler_unbind :: "PdTable \<Rightarrow> nat option \<Rightarrow> Bindung \<Rightarrow> PdTable" where
  "sethandler_unbind t gast alt =
     fst (sidecar_freigeben (case gast of Some g \<Rightarrow> fst (handler_kante_loesen t g) | None \<Rightarrow> t) (unat (bi_handler_pd alt)) (bi_slot alt))"

section \<open>Walks along the graph\<close>

definition kanten :: "(u16 \<Rightarrow> u16 option) \<Rightarrow> (u16 \<times> u16) set" where
  "kanten kante = {(p, q). kante p = Some q}"

lemma kante_walk:
  assumes "(k, g) \<in> (kanten kante)\<^sup>*" "k \<noteq> g"
  shows "\<exists>nx. kante k = Some nx \<and> (nx, g) \<in> (kanten kante)\<^sup>*"
  using assms by (metis (mono_tags, lifting) converse_rtranclE kanten_def mem_Collect_eq case_prodD)

lemma kette_sound:
  "kette_pruefen g kante n k s = BindOk \<Longrightarrow> (k, g) \<notin> (kanten kante)\<^sup>*"
  "kette_pruefen g kante n k s = Zyklus \<Longrightarrow> (k, g) \<in> (kanten kante)\<^sup>*"
proof (induction g kante n k s rule: kette_pruefen.induct)
  case (1 g kante n k s)
  {
    case 1
    have k: "k \<noteq> g" using 1 by (auto simp: kette_pruefen.simps [of g kante n k s])
    show ?case
    proof
      assume "(k, g) \<in> (kanten kante)\<^sup>*"
      from kante_walk [OF this k] obtain nx where nx: "kante k = Some nx" "(nx, g) \<in> (kanten kante)\<^sup>*" by blast
      then have "\<not> n < s + 1" "kette_pruefen g kante n nx (s + 1) = BindOk" using 1 k by (auto simp: kette_pruefen.simps [of g kante n k s] split: if_splits)
      then show False using "1.IH"(1) [OF k nx(1)] nx(2) by simp
    qed
  next
    case 2
    show ?case
    proof (cases "k = g")
      case False
      then obtain nx where nx: "kante k = Some nx" "\<not> n < s + 1" "kette_pruefen g kante n nx (s + 1) = Zyklus"
        using 2 by (auto simp: kette_pruefen.simps [of g kante n k s] split: option.splits if_splits)
      then have "(nx, g) \<in> (kanten kante)\<^sup>*" using "1.IH"(2) [OF False nx(1)] by simp
      then show ?thesis using nx(1) by (auto simp: kanten_def intro: converse_rtrancl_into_rtrancl)
    qed simp
  }
qed

text \<open>On a graph without cycles a walk never exceeds the number of nodes that have a handler.\<close>

lemma walk_grows:
  assumes "acyclic (kanten kante)" "finite (dom kante)" "V \<subseteq> dom kante" "\<forall>v\<in>V. (v, k) \<in> (kanten kante)\<^sup>+" "kante k = Some nx"
  shows "insert k V \<subseteq> dom kante" "card (insert k V) = card V + 1" "card V + 1 \<le> card (dom kante)" "\<forall>v\<in>insert k V. (v, nx) \<in> (kanten kante)\<^sup>+"
proof -
  have e: "(k, nx) \<in> kanten kante" using assms(5) by (simp add: kanten_def)
  have k: "k \<notin> V" using assms(1,4) by (auto simp: acyclic_def)
  show s: "insert k V \<subseteq> dom kante" using assms(3,5) by auto
  have "finite V" using finite_subset [OF assms(3,2)] .
  then show c: "card (insert k V) = card V + 1" using k by simp
  show "card V + 1 \<le> card (dom kante)" using card_mono [OF assms(2) s] c by simp
  show "\<forall>v\<in>insert k V. (v, nx) \<in> (kanten kante)\<^sup>+" using assms(4) e by (auto intro: trancl_into_trancl)
qed

lemma kette_ends:
  assumes "acyclic (kanten kante)" "finite (dom kante)" "card (dom kante) \<le> n"
    and "V \<subseteq> dom kante" "card V = s" "\<forall>v\<in>V. (v, k) \<in> (kanten kante)\<^sup>+"
  shows "kette_pruefen g kante n k s \<in> {BindOk, Zyklus}"
  using assms
proof (induction g kante n k s arbitrary: V rule: kette_pruefen.induct)
  case (1 g kante n k s)
  show ?case
  proof (cases "k = g \<or> kante k = None")
    case True
    then show ?thesis by (auto simp: kette_pruefen.simps [of g kante n k s])
  next
    case False
    then obtain nx where nx: "k \<noteq> g" "kante k = Some nx" by auto
    note W = walk_grows [OF 1(2,3,5,7) nx(2)]
    have "\<not> n < s + 1" using W(3) 1(4,6) by simp
    then show ?thesis using "1.IH" [OF nx, of "insert k V"] 1(2,3,4,6) W nx by (simp add: kette_pruefen.simps [of g kante n k s])
  qed
qed

lemma laenge_ends:
  assumes "acyclic (kanten kante)" "finite (dom kante)" "card (dom kante) \<le> m"
    and "V \<subseteq> dom kante" "card V = n" "\<forall>v\<in>V. (v, k) \<in> (kanten kante)\<^sup>+"
  shows "\<exists>l\<le>m. kettenlaenge_ab kante m k n = Some l"
  using assms
proof (induction kante m k n arbitrary: V rule: kettenlaenge_ab.induct)
  case (1 kante m k n)
  show ?case
  proof (cases "kante k")
    case None
    have "n \<le> m" using card_mono [OF 1(3,5)] 1(4,6) by simp
    then show ?thesis using None by (simp add: kettenlaenge_ab.simps [of kante m k n])
  next
    case (Some nx)
    note W = walk_grows [OF 1(2,3,5,7) Some]
    have "\<not> m < n + 1" using W(3) 1(4,6) by simp
    then show ?thesis using "1.IH" [OF Some, of "insert k V"] 1(2,3,4,6) W Some by (simp add: kettenlaenge_ab.simps [of kante m k n])
  qed
qed

section \<open>Edges of the table\<close>

definition graph_inv :: "PdTable \<Rightarrow> bool" where
  "graph_inv t \<longleftrightarrow> pt_wf t \<and> acyclic (kanten (kante_of t))"

lemma kante_dom:
  shows "finite (dom (kante_of t))" "card (dom (kante_of t)) \<le> length (pt_pds t)"
proof -
  show f: "finite (dom (kante_of t))" by simp
  have "unat ` dom (kante_of t) \<subseteq> {..<length (pt_pds t)}" by (auto simp: kante_of_def handler_pd_of_def pd_live_def split: if_splits)
  then have "card (unat ` dom (kante_of t)) \<le> length (pt_pds t)" using card_mono [of "{..<length (pt_pds t)}"] by simp
  moreover have "inj_on unat (dom (kante_of t))" by (auto intro!: inj_onI dest: unsigned_word_eqI)
  ultimately show "card (dom (kante_of t)) \<le> length (pt_pds t)" by (simp add: card_image)
qed

lemma graph_sub:
  assumes "graph_inv t" "pt_wf t'" "\<And>p h. handler_pd_of t' p = Some h \<Longrightarrow> handler_pd_of t p = Some h"
  shows "graph_inv t'"
proof -
  have "kanten (kante_of t') \<subseteq> kanten (kante_of t)" using assms(3) by (auto simp: kanten_def kante_of_def)
  then show ?thesis using assms(1,2) acyclic_subset by (auto simp: graph_inv_def)
qed

text \<open>Entries keep their handler unless it is removed.\<close>

definition edge_of :: "Pd \<Rightarrow> bool \<times> u16 \<times> u32" where
  "edge_of p = (pd_used p, pd_handler_pd p, pd_handler_bound p)"

definition same_edges :: "PdTable \<Rightarrow> PdTable \<Rightarrow> bool" where
  "same_edges t t' \<longleftrightarrow> map edge_of (pt_pds t') = map edge_of (pt_pds t)"

lemma modpd_edges: "(\<And>p. edge_of (f p) = edge_of p) \<Longrightarrow> same_edges t (modpd t i f)"
  using map_update_same [of edge_of f "pt_pds t" i] by (simp add: same_edges_def modpd_def)

lemma same_edges_of:
  assumes "same_edges t t'"
  shows "handler_pd_of t' p = handler_pd_of t p" "length (pt_pds t') = length (pt_pds t)"
    "p < length (pt_pds t) \<Longrightarrow> edge_of (pt_pds t' ! p) = edge_of (pt_pds t ! p)"
proof -
  have m: "map edge_of (pt_pds t') = map edge_of (pt_pds t)" using assms by (simp add: same_edges_def)
  show l: "length (pt_pds t') = length (pt_pds t)" using m by (metis length_map)
  show "p < length (pt_pds t) \<Longrightarrow> edge_of (pt_pds t' ! p) = edge_of (pt_pds t ! p)" using m l by (metis nth_map)
  then show "handler_pd_of t' p = handler_pd_of t p" using l by (auto simp: handler_pd_of_def pd_live_def edge_of_def)
qed

lemma bind_edges: "same_edges t (bind_thread t pd th)"
proof -
  have tr: "same_edges t u \<Longrightarrow> same_edges u v \<Longrightarrow> same_edges t v" for t u v by (simp add: same_edges_def)
  have l: "same_edges t (leave_pd t alt)" for t alt by (auto simp: leave_pd_def Let_def edge_of_def intro!: modpd_edges) (simp_all add: same_edges_def)
  have o: "same_edges t (t\<lparr>pt_owner := x\<rparr>)" for t x by (simp add: same_edges_def)
  have m: "same_edges t u \<Longrightarrow> (\<And>p. edge_of (f p) = edge_of p) \<Longrightarrow> same_edges t (modpd u i f)" for t u f i using modpd_edges tr by blast
  show ?thesis unfolding bind_thread_def Let_def
    by (auto simp: edge_of_def same_edges_def [of t t for t] intro!: m tr [OF l o])
qed

lemma loesen_edges: "handler_kante_loesen t g = (t', b) \<Longrightarrow> handler_pd_of t' p = Some h \<Longrightarrow> handler_pd_of t p = Some h"
  by (auto simp: handler_kante_loesen_def handler_pd_of_def modpd_def pd_live_def nth_list_update Let_def split: if_splits)

lemma sidecar_edges: "sidecar_belegen t h = (t', s) \<Longrightarrow> same_edges t t'" "sidecar_freigeben t h s' = (t', b) \<Longrightarrow> same_edges t t'"
  by (auto simp: sidecar_belegen_def sidecar_freigeben_def Let_def edge_of_def same_edges_def [of t t for t] intro!: modpd_edges split: if_splits)

lemma quiet_split:
  assumes "pt_quiet t t'"
  shows "same_edges t t' \<or> (\<exists>g b. handler_kante_loesen t g = (t', b))"
  using assms
proof (induction rule: pt_quiet.induct)
  case (pu_bind t pd th)
  then show ?case using bind_edges by blast
next
  case (pu_belegen t h t' s)
  then show ?case using sidecar_edges by blast
next
  case (pu_freigeben t h s t' b)
  then show ?case using sidecar_edges by blast
qed (auto simp: set_budget_deckel_def set_quiescing_def set_irq_ntfn_def set_recv_slot_def install_cap_def clear_cap_def set_cap_slot_def
    same_edges_def [of t t for t] same_edges_def [of t "t\<lparr>pt_pool := x\<rparr>" for t x] same_edges_def [of t "t\<lparr>pt_budget_deckel := x\<rparr>" for t x] edge_of_def
    intro!: modpd_edges split: if_splits)

lemma quiet_edges: "pt_quiet t t' \<Longrightarrow> handler_pd_of t' p = Some h \<Longrightarrow> handler_pd_of t p = Some h"
  using quiet_split same_edges_of(1) loesen_edges by metis

lemma created_edges: "created t t' n i \<Longrightarrow> handler_pd_of t' p = handler_pd_of t p"
  by (cases "p = i") (auto simp: created_def handler_pd_of_def pd_live_def fresh_pd_def)

lemma freed_edges:
  assumes "pt_wf t" "pd_free t q = Some (t', f)" "handler_pd_of t' p = Some h"
  shows "handler_pd_of t p = Some h"
proof (cases "pd_live t q")
  case True
  then show ?thesis using assms(3) freed(1) [OF assms(1) True assms(2)]
    by (cases "p = q") (auto simp: handler_pd_of_def pd_live_def Pd_EMPTY_def nth_list_update split: if_splits)
next
  case False
  then show ?thesis using assms by (simp add: free_cases)
qed

section \<open>Binding keeps the graph free of cycles\<close>

text \<open>The number of bindings of one domain does not wrap.\<close>

inductive hg_step :: "PdTable \<Rightarrow> PdTable \<Rightarrow> bool" where
  hg_quiet: "pt_quiet t t' \<Longrightarrow> hg_step t t'"
| hg_create: "create_mit_budget_und_cspace t d b l = Some (t', r) \<Longrightarrow> hg_step t t'"
| hg_backend: "create_hardware_backend t partner bid ep nt = Some (t', r') \<Longrightarrow> hg_step t t'"
| hg_free: "pd_free t pd = Some (t', f) \<Longrightarrow> hg_step t t'"
| hg_bind: "pd_live t g \<Longrightarrow> pd_handler_bound (pt_pds t ! g) \<noteq> - 1 \<Longrightarrow> sethandler_bind t g h se fe sc = (t', b) \<Longrightarrow> hg_step t t'"
| hg_commit: "sethandler_commit t g bd ok = (t', c) \<Longrightarrow> hg_step t t'"
| hg_unbind: "hg_step t (sethandler_unbind t go bd)"

lemma setzen_edges:
  assumes "pd_live t g" "handler_kante_setzen t g h = (t', b)" "h \<noteq> KEIN_HANDLER_PD" "pt_wf t"
  shows "kante_of t' = (kante_of t)(of_nat g \<mapsto> h)"
proof
  fix p :: u16
  have g: "g < 2 ^ 16" using assms(1,4) by (simp add: pd_live_def pt_wf_def)
  have u: "unat (of_nat g :: u16) = g" using g by (simp add: unat_of_nat)
  have "unat p = g \<longleftrightarrow> p = of_nat g" using u by (metis unsigned_word_eqI)
  then show "kante_of t' p = ((kante_of t)(of_nat g \<mapsto> h)) p"
    using assms(1-3) by (auto simp: kante_of_def handler_pd_of_def handler_kante_setzen_def modpd_def pd_live_def nth_list_update)
qed

lemma frei_live: "sidecar_frei t h \<noteq> 0 \<Longrightarrow> pd_live t h"
  by (simp add: sidecar_frei_def split: if_splits)

lemma wf_sidecar: "sidecar_belegen t h = (t', s) \<Longrightarrow> pt_wf t \<Longrightarrow> pt_wf t' \<and> (\<forall>q. pd_live t' q = pd_live t q)"
  using quiet_same [OF pu_belegen] wf_same same_core_live by blast

lemma bind_Inr:
  assumes "sethandler_bind t g h se fe sc = (t', Inr bd)"
  obtains t1 slot where "sys_pruefe_bindung t (of_nat g) h (se \<noteq> KEIN_EP) (fe \<noteq> KEIN_EP) = BindOk" "sidecar_belegen t (unat h) = (t1, Some slot)"
    "t' = fst (handler_kante_setzen t1 g h)" "bd = \<lparr>bi_sys_ep = se, bi_fault_ep = fe, bi_handler_pd = h, bi_slot = slot, bi_sidecar = sc\<rparr>"
  using assms by (auto simp: sethandler_bind_def split: BindUrteil.splits prod.splits option.splits)

lemma bind_Inl:
  assumes "sethandler_bind t g h se fe sc = (t', Inl c)"
  shows "t' = t"
proof -
  have "sidecar_belegen t (unat h) = (t1, None) \<Longrightarrow> t1 = t" for t1 by (auto simp: sidecar_belegen_def Let_def split: if_splits)
  then show ?thesis using assms by (auto simp: sethandler_bind_def split: BindUrteil.splits prod.splits option.splits)
qed

lemma pruefe_ok:
  assumes "sys_pruefe_bindung t g h a b = BindOk"
  shows "g \<noteq> h" "kante_of t g = None \<or> kante_of t g = Some h" "sidecar_frei t (unat h) \<noteq> 0" "(h, g) \<notin> (kanten (kante_of t))\<^sup>*"
  using assms kette_sound(1) by (auto simp: sys_pruefe_bindung_def pruefe_bindung_def split: if_splits option.splits)

lemma handler_real:
  assumes "sys_pruefe_bindung t g h a b = BindOk" "pt_wf t"
  shows "h \<noteq> KEIN_HANDLER_PD"
proof
  assume "h = KEIN_HANDLER_PD"
  then have "unat h = 65535" by (simp add: KEIN_HANDLER_PD_def)
  then show False using frei_live [OF pruefe_ok(3) [OF assms(1)]] assms(2) by (simp add: pd_live_def pt_wf_def)
qed

lemma graph_bind:
  assumes "graph_inv t" "pd_live t g" "sethandler_bind t g h se fe sc = (t', r)"
  shows "graph_inv t'"
proof (cases r)
  case (Inl c)
  then show ?thesis using bind_Inl [of t g h se fe sc t' c] assms by simp
next
  case (Inr bd)
  obtain t1 slot where e: "sys_pruefe_bindung t (of_nat g) h (se \<noteq> KEIN_EP) (fe \<noteq> KEIN_EP) = BindOk" "sidecar_belegen t (unat h) = (t1, Some slot)"
    "t' = fst (handler_kante_setzen t1 g h)" using bind_Inr assms(3) Inr by metis
  note P = pruefe_ok [OF e(1)]
  have w: "pt_wf t" using assms(1) by (simp add: graph_inv_def)
  have w1: "pt_wf t1" "pd_live t1 g" using wf_sidecar [OF e(2) w] assms(2) by auto
  have "kante_of t1 = kante_of t" using same_edges_of(1) [OF sidecar_edges(1) [OF e(2)]] by (auto simp: kante_of_def)
  moreover have h: "h \<noteq> KEIN_HANDLER_PD" by (rule handler_real [OF e(1) w])
  moreover obtain b where s: "handler_kante_setzen t1 g h = (t', b)" using e(3) by (cases "handler_kante_setzen t1 g h") simp
  ultimately have k: "kante_of t' = (kante_of t)(of_nat g \<mapsto> h)" using setzen_edges [OF w1(2) s _ w1(1)] by simp
  have "kanten (kante_of t') = insert (of_nat g, h) (kanten (kante_of t))" using P(2) by (auto simp: k kanten_def split: if_splits)
  moreover have "pt_wf t'" using wf_same [OF use_same [OF pu_setzen [OF s]] w1(1)] .
  ultimately show ?thesis using assms(1) P(4) by (simp add: graph_inv_def acyclic_insert)
qed

lemma graph_quiet: "graph_inv t \<Longrightarrow> pt_quiet t t' \<Longrightarrow> graph_inv t'"
  using graph_sub quiet_edges wf_same [OF quiet_same] by (metis graph_inv_def)

lemma graph_unbind:
  assumes "graph_inv t"
  shows "graph_inv (fst (sidecar_freigeben t h s))" "graph_inv (fst (handler_kante_loesen t g))"
  by (rule graph_quiet [OF assms pu_freigeben], rule surjective_pairing) (rule graph_quiet [OF assms pu_loesen], rule surjective_pairing)

lemma graph_grow:
  assumes "graph_inv t" "refused t t' \<or> (\<exists>n i. created t t' n i)"
  shows "graph_inv t'"
proof -
  have w: "pt_wf t" using assms(1) by (simp add: graph_inv_def)
  have "refused t t' \<Longrightarrow> handler_pd_of t' p = handler_pd_of t p" for p by (simp add: refused_def handler_pd_of_def pd_live_def)
  then show ?thesis using graph_sub [OF assms(1)] assms(2) wf_refused [OF _ w] wf_created [OF _ w] created_edges by metis
qed

interpretation handlers: step_system pt_init hg_step graph_inv
proof
  fix t
  assume i: "pt_init t"
  then show "graph_inv t"
  proof (rule pt_initD)
    fix n
    assume "pt_pds t = replicate n Pd_EMPTY"
    then have "kanten (kante_of t) = {}" by (auto simp: kanten_def kante_of_def handler_pd_of_def pd_live_def Pd_EMPTY_def)
    then show "graph_inv t" using init_wf [OF i] by (simp add: graph_inv_def acyclic_def)
  qed
next
  fix t t'
  assume i: "graph_inv t" and "hg_step t t'"
  from this(2) i show "graph_inv t'"
  proof (induction rule: hg_step.induct)
    case (hg_quiet t t')
    then show ?case by (rule graph_quiet [rotated])
  next
    case (hg_create t d b l t' r)
    then show ?case using create_or_refuse(1) [OF _ hg_create(1)] graph_grow [OF hg_create(2)] by (simp add: graph_inv_def)
  next
    case (hg_backend t partner bid ep nt t' r')
    then show ?case using create_or_refuse(2) [OF _ hg_backend(1)] graph_grow [OF hg_backend(2)] by (simp add: graph_inv_def)
  next
    case (hg_free t pd t' f)
    have w: "pt_wf t" using hg_free(2) by (simp add: graph_inv_def)
    show ?case using graph_sub [OF hg_free(2) wf_free [OF w hg_free(1)]] freed_edges [OF w hg_free(1)] by blast
  next
    case (hg_bind t g h se fe sc t' b)
    show ?case by (rule graph_bind [OF hg_bind(4,1,3)])
  next
    case (hg_commit t g bd ok t' c)
    then show ?case using graph_unbind by (auto simp: sethandler_commit_def split: if_splits)
  next
    case (hg_unbind t go bd)
    then show ?case using graph_unbind by (cases go) (auto simp: sethandler_unbind_def)
  qed
qed

text \<open>
  C13. The graph of handlers has no cycle in any reachable state, whatever is created, freed, bound and
  unbound. So every walk along it ends: the length of the chain of a domain is always found and is at most
  the number of entries of the table, and the check of a new binding answers exactly whether the guest can
  be reached from the handler; the answer \<open>KetteZuLang\<close>, which would mean a cycle elsewhere, never occurs.
\<close>

theorem handler_chains_end:
  assumes "reach pt_init hg_step t"
  shows "acyclic (kanten (kante_of t)) \<and>
    (\<exists>l\<le>length (pt_pds t). kettenlaenge p (kante_of t) (length (pt_pds t)) = Some l) \<and>
    kette_pruefen g (kante_of t) (length (pt_pds t)) h 0 = (if (h, g) \<in> (kanten (kante_of t))\<^sup>* then Zyklus else BindOk) \<and>
    sys_pruefe_bindung t g h a b \<noteq> KetteZuLang"
proof -
  have A: "acyclic (kanten (kante_of t))" using handlers.reach_inv [OF assms] by (simp add: graph_inv_def)
  note D = kante_dom [of t]
  have l: "\<exists>l\<le>length (pt_pds t). kettenlaenge p (kante_of t) (length (pt_pds t)) = Some l"
    using laenge_ends [OF A D, of "{}" 0 p] by (simp add: kettenlaenge_def)
  have k: "kette_pruefen g (kante_of t) (length (pt_pds t)) h 0 \<in> {BindOk, Zyklus}" for g h using kette_ends [OF A D, of "{}" 0 h g] by simp
  then have c: "kette_pruefen g (kante_of t) (length (pt_pds t)) h 0 = (if (h, g) \<in> (kanten (kante_of t))\<^sup>* then Zyklus else BindOk)" for g h
    using kette_sound [of g "kante_of t" "length (pt_pds t)" h 0] by fastforce
  then have "sys_pruefe_bindung t g h a b \<noteq> KetteZuLang" by (auto simp: sys_pruefe_bindung_def pruefe_bindung_def)
  then show ?thesis using A l c by blast
qed

section \<open>Slots\<close>

lemma all_ones: "(\<forall>n<64. bit (w :: u64) n) \<longleftrightarrow> w = - 1"
  by (auto intro!: bit_word_eqI simp: bit_minus_1_iff)

lemma takeWhile_short: "\<not> (\<forall>x\<in>set xs. P x) \<Longrightarrow> length (takeWhile P xs) < length xs"
  by (induction xs) auto

lemma first_clear:
  assumes "w \<noteq> - 1"
  shows "trailing_ones w < 64" "\<not> bit w (trailing_ones w)"
proof -
  have "\<not> (\<forall>x\<in>set [0..<64]. bit w x)" using assms all_ones [of w] by auto
  from takeWhile_short [OF this] show l: "trailing_ones w < 64" by (simp add: trailing_ones_def)
  show "\<not> bit w (trailing_ones w)" using nth_length_takeWhile [of "bit w" "[0..<64]"] l by (simp add: trailing_ones_def)
qed

lemma filter_full: "length (filter P xs) = length xs \<longleftrightarrow> (\<forall>x\<in>set xs. P x)"
proof (induction xs)
  case (Cons x xs)
  have "length (filter P xs) \<noteq> Suc (length xs)" using length_filter_le [of P xs] by linarith
  then show ?case using Cons by auto
qed simp

lemma ones_full: "count_ones w = 64 \<longleftrightarrow> w = - 1" "count_ones w \<le> 64"
proof -
  show "count_ones w \<le> 64" using length_filter_le [of "bit w" "[0..<64]"] by (simp add: count_ones_def)
  have "count_ones w = 64 \<longleftrightarrow> (\<forall>n\<in>set [0..<64]. bit w n)"
    using filter_full [of "bit w" "[0..<64]"] by (simp add: count_ones_def)
  then show "count_ones w = 64 \<longleftrightarrow> w = - 1" using all_ones [of w] by auto
qed

lemma frei_zero: "sidecar_frei t h = 0 \<longleftrightarrow> \<not> pd_live t h \<or> pd_sidecar_used (pt_pds t ! h) = - 1"
proof -
  let ?c = "count_ones (pd_sidecar_used (pt_pds t ! h))"
  have u: "unat (of_nat ?c :: u16) = ?c" using ones_full(2) [of "pd_sidecar_used (pt_pds t ! h)"] by (simp add: unat_of_nat)
  have "SIDECAR_SLOTS - of_nat ?c = 0 \<longleftrightarrow> unat SIDECAR_SLOTS = ?c" using u by (metis eq_iff_diff_eq_0 unsigned_word_eqI)
  also have "\<dots> \<longleftrightarrow> pd_sidecar_used (pt_pds t ! h) = - 1" using ones_full(1) [of "pd_sidecar_used (pt_pds t ! h)"] by (auto simp: SIDECAR_SLOTS_def)
  finally show ?thesis by (simp add: sidecar_frei_def)
qed

definition side_mask :: "PdTable \<Rightarrow> nat \<Rightarrow> u64" where
  "side_mask t h = pd_sidecar_used (pt_pds t ! h)"

lemma belegen_slot:
  assumes "sidecar_belegen t h = (t1, Some slot)"
  shows "pd_live t h" "unat slot < 64" "\<not> bit (side_mask t h) (unat slot)"
    "bit (side_mask t1 q) n \<longleftrightarrow> bit (side_mask t q) n \<or> q = h \<and> n = unat slot"
    "t1 = modpd t h (\<lambda>p. p\<lparr>pd_sidecar_used := pd_sidecar_used p OR push_bit (unat slot) 1\<rparr>)"
proof -
  let ?w = "side_mask t h"
  have e: "pd_live t h" "?w \<noteq> - 1" "slot = of_nat (trailing_ones ?w)"
    "t1 = modpd t h (\<lambda>p. p\<lparr>pd_sidecar_used := ?w OR push_bit (trailing_ones ?w) 1\<rparr>)"
    using assms by (auto simp: sidecar_belegen_def Let_def side_mask_def split: if_splits)
  note C = first_clear [OF e(2)]
  have u: "unat slot = trailing_ones ?w" using C(1) by (simp add: e(3) unat_of_nat)
  show "pd_live t h" "unat slot < 64" "\<not> bit ?w (unat slot)" using e(1) C u by simp_all
  show t1: "t1 = modpd t h (\<lambda>p. p\<lparr>pd_sidecar_used := pd_sidecar_used p OR push_bit (unat slot) 1\<rparr>)" unfolding e(4) u by (simp add: modpd_def side_mask_def)
  have "bit (push_bit (unat slot) 1 :: u64) n \<longleftrightarrow> n = unat slot" using C(1) u by (auto simp: bit_exp_iff)
  then show "bit (side_mask t1 q) n \<longleftrightarrow> bit (side_mask t q) n \<or> q = h \<and> n = unat slot"
    using e(1) by (auto simp: t1 side_mask_def modpd_def pd_live_def nth_list_update bit_or_iff)
qed

text \<open>Exactly the entries without bindings name no handler.\<close>

definition bound_inv :: "PdTable \<Rightarrow> bool" where
  "bound_inv t \<longleftrightarrow> pt_wf t \<and> (\<forall>p. pd_live t p \<longrightarrow> (pd_handler_bound (pt_pds t ! p) = 0) = (pd_handler_pd (pt_pds t ! p) = KEIN_HANDLER_PD))"

lemma bound_edges: "same_edges t t' \<Longrightarrow> pt_wf t' \<Longrightarrow> bound_inv t \<Longrightarrow> bound_inv t'"
  using same_edges_of(2,3) [of t t'] by (auto simp: bound_inv_def pd_live_def edge_of_def)

lemma bound_loesen: "handler_kante_loesen t g = (t', b) \<Longrightarrow> pt_wf t' \<Longrightarrow> bound_inv t \<Longrightarrow> bound_inv t'"
  by (auto simp: bound_inv_def handler_kante_loesen_def modpd_def pd_live_def nth_list_update Let_def split: if_splits)

lemma bound_quiet: "bound_inv t \<Longrightarrow> pt_quiet t t' \<Longrightarrow> bound_inv t'"
  using quiet_split bound_edges bound_loesen wf_same [OF quiet_same] by (metis bound_inv_def)

lemma bound_unbind:
  assumes "bound_inv t"
  shows "bound_inv (fst (sidecar_freigeben t h s))" "bound_inv (fst (handler_kante_loesen t g))"
  by (rule bound_quiet [OF assms pu_freigeben], rule surjective_pairing) (rule bound_quiet [OF assms pu_loesen], rule surjective_pairing)

lemma next_bound: "(b :: u32) \<noteq> - 1 \<Longrightarrow> b + 1 \<noteq> 0"
  using next_epoch [of b] by auto

lemma bound_bind:
  assumes "bound_inv t" "pd_live t g" "pd_handler_bound (pt_pds t ! g) \<noteq> - 1" "sethandler_bind t g h se fe sc = (t', r)"
  shows "bound_inv t'"
proof (cases r)
  case (Inl c)
  then show ?thesis using bind_Inl [of t g h se fe sc t' c] assms by simp
next
  case (Inr bd)
  obtain t1 slot where o: "sys_pruefe_bindung t (of_nat g) h (se \<noteq> KEIN_EP) (fe \<noteq> KEIN_EP) = BindOk" and e: "sidecar_belegen t (unat h) = (t1, Some slot)" "t' = fst (handler_kante_setzen t1 g h)"
    using assms(4) unfolding Inr by (rule bind_Inr)
  have w1: "pt_wf t1" "pd_live t1 g" using wf_sidecar [OF e(1)] assms(1,2) by (auto simp: bound_inv_def)
  have b1: "bound_inv t1" using bound_quiet [OF assms(1) pu_belegen [OF e(1)]] .
  have n: "pd_handler_bound (pt_pds t1 ! g) = pd_handler_bound (pt_pds t ! g)" using same_edges_of(3) [OF sidecar_edges(1) [OF e(1)], of g] assms(2) by (simp add: edge_of_def pd_live_def)
  have t': "t' = modpd t1 g (\<lambda>p. p\<lparr>pd_handler_pd := h, pd_handler_bound := pd_handler_bound p + 1\<rparr>)" using e(2) w1(2) by (simp add: handler_kante_setzen_def)
  have "pt_wf t'" using wf_same [OF use_same [OF pu_setzen [of t1 g h t' True]] w1(1)] w1(2) by (simp add: t' handler_kante_setzen_def)
  moreover have "h \<noteq> KEIN_HANDLER_PD" using handler_real [OF o] assms(1) by (simp add: bound_inv_def)
  ultimately show ?thesis using b1 next_bound [OF assms(3)] n w1(2) by (auto simp: t' bound_inv_def modpd_def pd_live_def nth_list_update)
qed

interpretation bounds: step_system pt_init hg_step bound_inv
proof
  fix t
  assume i: "pt_init t"
  then show "bound_inv t" by (rule pt_initD) (use init_wf [OF i] in \<open>auto simp: bound_inv_def pd_live_def Pd_EMPTY_def\<close>)
next
  fix t t'
  assume i: "bound_inv t" and "hg_step t t'"
  have g: "bound_inv t'" if "bound_inv t" "refused t t' \<or> (\<exists>n i. created t t' n i)" for t t'
  proof -
    have w: "pt_wf t" using that(1) by (simp add: bound_inv_def)
    have "bound_inv t'" if "created t t' n i" for n i
      using created_live [OF that] created_entry(1) [OF that] wf_created [OF that w] \<open>bound_inv t\<close> unfolding bound_inv_def fresh_pd_def pd_live_def by metis
    then show ?thesis using that wf_refused [OF _ w] by (auto simp: bound_inv_def refused_def pd_live_def)
  qed
  from \<open>hg_step t t'\<close> i show "bound_inv t'"
  proof (induction rule: hg_step.induct)
    case (hg_quiet t t')
    then show ?case by (rule bound_quiet [rotated])
  next
    case (hg_create t d b l t' r)
    then show ?case using create_or_refuse(1) [OF _ hg_create(1)] g [OF hg_create(2)] by (simp add: bound_inv_def)
  next
    case (hg_backend t partner bid ep nt t' r')
    then show ?case using create_or_refuse(2) [OF _ hg_backend(1)] g [OF hg_backend(2)] by (simp add: bound_inv_def)
  next
    case (hg_free t pd t' f)
    have w: "pt_wf t" using hg_free(2) by (simp add: bound_inv_def)
    show ?case using hg_free wf_free [OF w hg_free(1)] freed(1) [OF w _ hg_free(1)]
      by (cases "pd_live t pd") (auto simp: bound_inv_def free_cases [OF w] pd_live_def nth_list_update Pd_EMPTY_def)
  next
    case (hg_bind t g h se fe sc t' b)
    show ?case by (rule bound_bind [OF hg_bind(4,1,2,3)])
  next
    case (hg_commit t g bd ok t' c)
    then show ?case using bound_unbind by (auto simp: sethandler_commit_def split: if_splits)
  next
    case (hg_unbind t go bd)
    then show ?case using bound_unbind by (cases go) (auto simp: sethandler_unbind_def)
  qed
qed

text \<open>
  What binding decides, in every reachable state: it succeeds exactly if something is to be redirected,
  guest and handler differ, the guest has no other handler, the handler lives and has a free slot, and the
  guest cannot be reached from the handler. Then the slot is one of the 64, it was free, no other slot of
  any handler changes, and the guest has the handler. A refusal changes nothing.
\<close>

theorem binding_exact:
  assumes "reach pt_init hg_step t" "pd_live t g" "sethandler_bind t g h se fe sc = (t', r)"
  shows "((\<exists>bd. r = Inr bd) \<longleftrightarrow> (se \<noteq> KEIN_EP \<or> fe \<noteq> KEIN_EP) \<and> of_nat g \<noteq> h \<and> (kante_of t (of_nat g) = None \<or> kante_of t (of_nat g) = Some h) \<and>
      pd_live t (unat h) \<and> side_mask t (unat h) \<noteq> - 1 \<and> (h, of_nat g) \<notin> (kanten (kante_of t))\<^sup>*) \<and>
    (\<forall>bd. r = Inr bd \<longrightarrow> unat (bi_slot bd) < 64 \<and> \<not> bit (side_mask t (unat h)) (unat (bi_slot bd)) \<and>
      (\<forall>q n. bit (side_mask t' q) n \<longleftrightarrow> bit (side_mask t q) n \<or> q = unat h \<and> n = unat (bi_slot bd)) \<and>
      kante_of t' = (kante_of t)(of_nat g \<mapsto> h)) \<and>
    (\<forall>c. r = Inl c \<longrightarrow> t' = t)"
proof (intro conjI allI impI)
  have G: "graph_inv t" using handlers.reach_inv [OF assms(1)] .
  then have w: "pt_wf t" and A: "acyclic (kanten (kante_of t))" by (simp_all add: graph_inv_def)
  have k: "kette_pruefen (of_nat g) (kante_of t) (length (pt_pds t)) h 0 = BindOk \<longleftrightarrow> (h, of_nat g) \<notin> (kanten (kante_of t))\<^sup>*"
    using kette_ends [OF A kante_dom, of "{}" 0 h "of_nat g"] kette_sound [of "of_nat g" "kante_of t" "length (pt_pds t)" h 0] by fastforce
  have p: "sys_pruefe_bindung t (of_nat g) h a b = BindOk \<longleftrightarrow> (a \<or> b) \<and> of_nat g \<noteq> h \<and> (kante_of t (of_nat g) = None \<or> kante_of t (of_nat g) = Some h) \<and>
      pd_live t (unat h) \<and> side_mask t (unat h) \<noteq> - 1 \<and> (h, of_nat g) \<notin> (kanten (kante_of t))\<^sup>*" for a b
    using k frei_zero [of t "unat h"] by (auto simp: sys_pruefe_bindung_def pruefe_bindung_def side_mask_def split: option.splits)
  have b: "sys_pruefe_bindung t (of_nat g) h (se \<noteq> KEIN_EP) (fe \<noteq> KEIN_EP) = BindOk \<longleftrightarrow> (\<exists>bd. r = Inr bd)"
  proof
    assume ok: "sys_pruefe_bindung t (of_nat g) h (se \<noteq> KEIN_EP) (fe \<noteq> KEIN_EP) = BindOk"
    then have "snd (sidecar_belegen t (unat h)) \<noteq> None" using p by (auto simp: sidecar_belegen_def Let_def side_mask_def)
    then show "\<exists>bd. r = Inr bd" using ok assms(3) by (auto simp: sethandler_bind_def split: prod.splits option.splits)
  next
    assume "\<exists>bd. r = Inr bd"
    then obtain bd where "sethandler_bind t g h se fe sc = (t', Inr bd)" using assms(3) by auto
    then show "sys_pruefe_bindung t (of_nat g) h (se \<noteq> KEIN_EP) (fe \<noteq> KEIN_EP) = BindOk" by (rule bind_Inr)
  qed
  show "(\<exists>bd. r = Inr bd) \<longleftrightarrow> (se \<noteq> KEIN_EP \<or> fe \<noteq> KEIN_EP) \<and> of_nat g \<noteq> h \<and> (kante_of t (of_nat g) = None \<or> kante_of t (of_nat g) = Some h) \<and>
      pd_live t (unat h) \<and> side_mask t (unat h) \<noteq> - 1 \<and> (h, of_nat g) \<notin> (kanten (kante_of t))\<^sup>*"
    using p [of "se \<noteq> KEIN_EP" "fe \<noteq> KEIN_EP"] b by (simp only:)
  show "t' = t" if "r = Inl c" for c using bind_Inl assms(3) that by blast
  fix bd
  assume r: "r = Inr bd"
  obtain t1 slot where e: "sys_pruefe_bindung t (of_nat g) h (se \<noteq> KEIN_EP) (fe \<noteq> KEIN_EP) = BindOk" "sidecar_belegen t (unat h) = (t1, Some slot)"
    "t' = fst (handler_kante_setzen t1 g h)" "bd = \<lparr>bi_sys_ep = se, bi_fault_ep = fe, bi_handler_pd = h, bi_slot = slot, bi_sidecar = sc\<rparr>"
    using bind_Inr assms(3) r by metis
  note S = belegen_slot [OF e(2)]
  have w1: "pt_wf t1" "pd_live t1 g" using wf_sidecar [OF e(2) w] assms(2) by auto
  have s: "handler_kante_setzen t1 g h = (t', True)" using e(3) w1(2) by (simp add: handler_kante_setzen_def)
  have m: "side_mask t' q = side_mask t1 q" for q using s w1(2) by (cases "q = g") (auto simp: handler_kante_setzen_def side_mask_def modpd_def pd_live_def split: if_splits)
  show "unat (bi_slot bd) < 64" "\<not> bit (side_mask t (unat h)) (unat (bi_slot bd))" using S(2,3) e(4) by simp_all
  show "bit (side_mask t' q) n \<longleftrightarrow> bit (side_mask t q) n \<or> q = unat h \<and> n = unat (bi_slot bd)" for q n using S(4) e(4) m by simp
  have "h \<noteq> KEIN_HANDLER_PD" by (rule handler_real [OF e(1) w])
  moreover have "kante_of t1 = kante_of t" using same_edges_of(1) [OF sidecar_edges(1) [OF e(2)]] by (auto simp: kante_of_def)
  ultimately show "kante_of t' = (kante_of t)(of_nat g \<mapsto> h)" using setzen_edges [OF w1(2) s _ w1(1)] by simp
qed

text \<open>
  A binding that the scheduler could not store is undone: in every reachable state, binding and then
  taking it back restores the table exactly, including the count of bindings and the slot.
\<close>

theorem failed_binding_undone:
  assumes "reach pt_init hg_step t" "pd_live t g" "pd_handler_bound (pt_pds t ! g) \<noteq> - 1" "sethandler_bind t g h se fe sc = (t', Inr bd)"
  shows "sethandler_commit t' g bd False = (t, ERR_BADCAP)"
proof -
  have B: "bound_inv t" using bounds.reach_inv [OF assms(1)] .
  obtain t1 slot where e: "sys_pruefe_bindung t (of_nat g) h (se \<noteq> KEIN_EP) (fe \<noteq> KEIN_EP) = BindOk" "sidecar_belegen t (unat h) = (t1, Some slot)"
    "t' = fst (handler_kante_setzen t1 g h)" "bd = \<lparr>bi_sys_ep = se, bi_fault_ep = fe, bi_handler_pd = h, bi_slot = slot, bi_sidecar = sc\<rparr>"
    using assms(4) by (rule bind_Inr)
  note S = belegen_slot [OF e(2)]
  have w: "pt_wf t" using B by (simp add: bound_inv_def)
  let ?g = "pt_pds t1 ! g"
  have l1: "pd_live t1 g" using wf_sidecar [OF e(2) w] assms(2) by simp
  have e1: "edge_of ?g = edge_of (pt_pds t ! g)" using same_edges_of(3) [OF sidecar_edges(1) [OF e(2)], of g] assms(2) by (simp add: pd_live_def)
  have t': "t' = modpd t1 g (\<lambda>p. p\<lparr>pd_handler_pd := h, pd_handler_bound := pd_handler_bound p + 1\<rparr>)" using e(3) l1 by (simp add: handler_kante_setzen_def)
  have n: "pd_handler_bound ?g + 1 \<noteq> 0" using next_bound [OF assms(3)] e1 by (simp add: edge_of_def)
  have k: "kante_of t (of_nat g) = None \<or> kante_of t (of_nat g) = Some h" using pruefe_ok(2) [OF e(1)] .
  have u: "unat (of_nat g :: u16) = g" using assms(2) w by (simp add: pd_live_def pt_wf_def unat_of_nat)
  have z: "(if pd_handler_bound ?g = 0 then KEIN_HANDLER_PD else h) = pd_handler_pd ?g"
    using B k assms(2) e1 u by (auto simp: bound_inv_def edge_of_def kante_of_def handler_pd_of_def split: if_splits)
  have L: "handler_kante_loesen t' g = (t1, True)"
  proof -
    have "?g\<lparr>pd_handler_pd := (if pd_handler_bound ?g = 0 then KEIN_HANDLER_PD else h)\<rparr> = ?g" unfolding z by simp
    then have "pd_handler_bound ?g = 0 \<Longrightarrow> ?g\<lparr>pd_handler_pd := KEIN_HANDLER_PD\<rparr> = ?g" "pd_handler_bound ?g \<noteq> 0 \<Longrightarrow> ?g\<lparr>pd_handler_pd := h\<rparr> = ?g" by simp_all
    then show ?thesis using n l1 by (simp add: handler_kante_loesen_def t' modpd_def pd_live_def Let_def)
  qed
  have "sidecar_freigeben t1 (unat h) slot = (t, True)"
  proof -
    let ?w = "side_mask t (unat h)" and ?b = "push_bit (unat slot) 1 :: u64"
    have b: "bit ?b n \<longleftrightarrow> n = unat slot" for n
    proof -
      have "n = unat slot \<Longrightarrow> n < 64" using S(2) by simp
      then show ?thesis by (auto simp: bit_exp_iff)
    qed
    have m: "(?w OR ?b) AND NOT ?b = ?w" using S(3) b by (intro bit_word_eqI) (auto simp: bit_and_iff bit_or_iff bit_not_iff)
    have x: "(?w OR ?b) AND ?b \<noteq> 0"
    proof
      assume "(?w OR ?b) AND ?b = 0"
      then have "bit ((?w OR ?b) AND ?b) (unat slot) = bit (0 :: u64) (unat slot)" by (rule arg_cong)
      then show False using S(2) by (simp add: bit_and_iff bit_or_iff bit_exp_iff)
    qed
    have s: "\<not> slot \<ge> SIDECAR_SLOTS" using S(2) by (simp add: SIDECAR_SLOTS_def word_le_nat_alt)
    show ?thesis using S(1) s m x by (simp add: sidecar_freigeben_def S(5) modpd_def pd_live_def side_mask_def Let_def)
  qed
  then show ?thesis using L by (simp add: sethandler_commit_def e(4))
qed

end
