(* ===== verification/Sidecar.thy ===== *)
theory Sidecar
  imports PdHandler
begin

text \<open>
  The payload of a redirected system call (\<open>kernel/src/sidecarkopie.rs\<close>, with the frame layout of
  \<open>caprock-hal/src/x86_64/exception.rs\<close>): the kernel stores the whole trap frame of the guest in its slot of
  the handler's window and takes back the general registers only. Memory is a map from the addresses of
  64-bit words to their contents; whatever the handler writes there is an arbitrary such map.
\<close>

section \<open>Trap frames\<close>

record TrapFrame =
  tf_gpr :: "u64 list"
  tf_vector :: u64
  tf_error :: u64
  tf_rip :: u64
  tf_cs :: u64
  tf_rflags :: u64
  tf_rsp :: u64
  tf_ss :: u64

definition FRAME_WOERTER :: nat where "FRAME_WOERTER = 22"
definition FRAME_GPR :: nat where "FRAME_GPR = 15"
definition FRAME_ARCH :: u64 where "FRAME_ARCH = 0"

definition FRAME_ABI_WORT :: "u64 list" where
  "FRAME_ABI_WORT = [0, 5, 4, 3, 9, 7, 8]"

definition frame_woerter :: "TrapFrame \<Rightarrow> u64 list \<Rightarrow> u64 list \<times> nat" where
  "frame_woerter f out =
     (if length out < FRAME_WOERTER then (out, 0)
      else (tf_gpr f @ [tf_vector f, tf_error f, tf_rip f, tf_cs f, tf_rflags f, tf_rsp f, tf_ss f] @ drop FRAME_WOERTER out, FRAME_WOERTER))"

definition frame_gpr_uebernehmen :: "TrapFrame \<Rightarrow> u64 list \<Rightarrow> TrapFrame \<times> nat" where
  "frame_gpr_uebernehmen f w = (let n = min FRAME_GPR (length w) in (f\<lparr>tf_gpr := take n w @ drop n (tf_gpr f)\<rparr>, n))"

definition frame_wort_setzen :: "TrapFrame \<Rightarrow> nat \<Rightarrow> u64 \<Rightarrow> TrapFrame \<times> bool" where
  "frame_wort_setzen f i v =
     (if i \<le> 14 then (f\<lparr>tf_gpr := (tf_gpr f)[i := v]\<rparr>, True)
      else if i \<in> {15, 16, 18, 21} then (f, False)
      else if i = 17 then (f\<lparr>tf_rip := v\<rparr>, True)
      else if i = 19 then (f\<lparr>tf_rflags := v\<rparr>, True)
      else if i = 20 then (f\<lparr>tf_rsp := v\<rparr>, True)
      else (f, False))"

section \<open>Slots\<close>

type_synonym words = "u64 \<Rightarrow> u64"

record Sidecars =
  sk_zustellungen :: u64
  sk_ablage_fehler :: u64
  sk_uebernahme_fehler :: u64
  sk_mem :: words
  sk_frames :: "nat \<Rightarrow> TrapFrame"

definition slot_adresse :: "u64 \<Rightarrow> u16 \<Rightarrow> u64 option" where
  "slot_adresse sidecar slot =
     (if sidecar = 0 \<or> \<not> slot_gueltig slot SIDECAR_SLOTS then None else Some (sidecar + of_nat (slot_offset slot)))"

text \<open>\<open>p.add(i)\<close> for a pointer to words.\<close>

definition wort_adresse :: "u64 \<Rightarrow> nat \<Rightarrow> u64" where
  "wort_adresse basis i = basis + 8 * of_nat i"

definition write_words :: "words \<Rightarrow> u64 \<Rightarrow> (nat \<times> u64) list \<Rightarrow> words" where
  "write_words m basis xs = foldl (\<lambda>m (i, v). m(wort_adresse basis i := v)) m xs"

text \<open>What \<open>ablegen\<close> writes, in this order; the mark comes last.\<close>

definition slot_inhalt :: "u64 \<Rightarrow> u64 \<Rightarrow> u64 \<Rightarrow> u64 list \<Rightarrow> nat \<Rightarrow> (nat \<times> u64) list" where
  "slot_inhalt gen anlass code w n =
     [(KOPF_VERSION, FORMAT_VERSION), (KOPF_GEN, gen), (KOPF_ANLASS, anlass), (KOPF_CODE, code), (KOPF_NGPR, of_nat FRAME_GPR),
      (KOPF_NGESAMT, of_nat n), (KOPF_ARCH, FRAME_ARCH), (KOPF_GRUPPE, 0)] @
     map (\<lambda>i. (KOPF_RESERVIERT + i, 0)) [0..<KOPF_RESERVIERT_N] @
     map (\<lambda>i. (KOPF_ABI + i, FRAME_ABI_WORT ! i)) [0..<length FRAME_ABI_WORT] @
     map (\<lambda>i. (frame_wort i, w ! i)) [0..<n] @
     [(KOPF_MAGIE, MAGIE)]"

definition ablegen :: "Sidecars \<Rightarrow> nat \<Rightarrow> u64 \<Rightarrow> u16 \<Rightarrow> u64 \<Rightarrow> u64 \<Rightarrow> Sidecars \<times> bool" where
  "ablegen s frame sidecar slot anlass code =
     (case slot_adresse sidecar slot of
        None \<Rightarrow> (s\<lparr>sk_ablage_fehler := sk_ablage_fehler s + 1\<rparr>, False)
      | Some basis \<Rightarrow>
          let (w, n) = frame_woerter (sk_frames s frame) (replicate FRAME_WOERTER 0) in
          if n = 0 \<or> \<not> frame_passt n then (s\<lparr>sk_ablage_fehler := sk_ablage_fehler s + 1\<rparr>, False)
          else
            let gen = sk_zustellungen s + 1 in
            (s\<lparr>sk_zustellungen := gen, sk_mem := write_words (sk_mem s) basis (slot_inhalt gen anlass code w n)\<rparr>, True))"

datatype Uebernahme = UebernahmeOk | KeinFenster | UebernahmeKeinFrame | FremderKopf KopfUrteil

definition uebernehmen :: "Sidecars \<Rightarrow> nat \<Rightarrow> u64 \<Rightarrow> u16 \<Rightarrow> Sidecars \<times> Uebernahme" where
  "uebernehmen s frame sidecar slot =
     (case slot_adresse sidecar slot of
        None \<Rightarrow> (s\<lparr>sk_uebernahme_fehler := sk_uebernahme_fehler s + 1\<rparr>, KeinFenster)
      | Some basis \<Rightarrow>
          let kopf = map (\<lambda>i. sk_mem s (wort_adresse basis i)) [0..<FRAME_WORT] in
          (case kopf_pruefen kopf FRAME_ARCH (of_nat FRAME_GPR) (of_nat FRAME_WOERTER) of
             KopfOk \<Rightarrow>
               let w = foldl (\<lambda>w i. if uebernehmbar i FRAME_GPR then w[i := sk_mem s (wort_adresse basis (frame_wort i))] else w)
                         (replicate FRAME_GPR 0) [0..<FRAME_WOERTER];
                   (f, n) = frame_gpr_uebernehmen (sk_frames s frame) w;
                   s1 = s\<lparr>sk_frames := (sk_frames s)(frame := f)\<rparr>
               in if n = FRAME_GPR then (s1, UebernahmeOk)
                  else (s1\<lparr>sk_uebernahme_fehler := sk_uebernahme_fehler s + 1\<rparr>, UebernahmeKeinFrame)
           | KeinFrame \<Rightarrow> (s\<lparr>sk_uebernahme_fehler := sk_uebernahme_fehler s + 1\<rparr>, UebernahmeKeinFrame)
           | u \<Rightarrow> (s\<lparr>sk_uebernahme_fehler := sk_uebernahme_fehler s + 1\<rparr>, FremderKopf u)))"

section \<open>Addresses\<close>

lemma words_distinct:
  assumes "i < 64" "j < 64"
  shows "wort_adresse b i = wort_adresse b j \<longleftrightarrow> i = j"
proof -
  have "unat (8 * of_nat k :: u64) = 8 * k" if "k < 64" for k
  proof -
    have "(8 * of_nat k :: u64) = of_nat (8 * k)" by simp
    then show ?thesis using that by (simp only: unat_of_nat) simp
  qed
  then have "(8 * of_nat i :: u64) = 8 * of_nat j \<longleftrightarrow> i = j" using assms by (metis mult_left_cancel zero_neq_numeral)
  then show ?thesis by (simp add: wort_adresse_def)
qed

lemma write_other: "(\<And>i v. (i, v) \<in> set xs \<Longrightarrow> a \<noteq> wort_adresse b i) \<Longrightarrow> write_words m b xs a = m a"
proof (induction xs arbitrary: m)
  case (Cons x xs)
  obtain i v where x: "x = (i, v)" by force
  have "write_words m b (x # xs) a = write_words (m(wort_adresse b i := v)) b xs a" by (simp add: write_words_def x)
  also have "\<dots> = (m(wort_adresse b i := v)) a" by (rule Cons.IH) (use Cons.prems in auto)
  finally show ?case using Cons.prems [of i v] x by simp
qed (simp add: write_words_def)

lemma write_at:
  assumes "distinct (map fst xs)" "\<And>i v. (i, v) \<in> set xs \<Longrightarrow> i < 64" "(i, v) \<in> set xs"
  shows "write_words m b xs (wort_adresse b i) = v"
  using assms
proof (induction xs arbitrary: m)
  case (Cons x xs)
  obtain j u where x: "x = (j, u)" by force
  have e: "write_words m b (x # xs) (wort_adresse b i) = write_words (m(wort_adresse b j := u)) b xs (wort_adresse b i)" by (simp add: write_words_def x)
  show ?case
  proof (cases "(i, v) \<in> set xs")
    case True
    then show ?thesis using Cons e by auto
  next
    case False
    then have ji: "j = i" "u = v" using Cons.prems(3) x by auto
    have "wort_adresse b i \<noteq> wort_adresse b k" if k: "(k, w) \<in> set xs" for k w
    proof -
      have "k \<noteq> i" using Cons.prems(1) x ji k by force
      then show ?thesis using words_distinct [of i k b] Cons.prems(2) [of k w] Cons.prems(2) [of i v] Cons.prems(3) k by auto
    qed
    then show ?thesis unfolding e by (subst write_other) (auto simp: ji)
  qed
qed simp

text \<open>The words of a frame and of a slot.\<close>

lemma inhalt_keys: "map fst (slot_inhalt gen an c w 22) = [1..<23] @ [24..<46] @ [0]"
  by (simp add: slot_inhalt_def frame_wort_def kopf_defs FRAME_ABI_WORT_def upt_rec)

lemma inhalt_ok: "distinct (map fst (slot_inhalt gen an c w 22))" "(i, v) \<in> set (slot_inhalt gen an c w 22) \<Longrightarrow> i < 46"
proof -
  show "distinct (map fst (slot_inhalt gen an c w 22))" unfolding inhalt_keys by simp
  assume "(i, v) \<in> set (slot_inhalt gen an c w 22)"
  then have "i \<in> set (map fst (slot_inhalt gen an c w 22))" by force
  then show "i < 46" unfolding inhalt_keys by auto
qed

definition frame_wf :: "TrapFrame \<Rightarrow> bool" where
  "frame_wf f \<longleftrightarrow> length (tf_gpr f) = FRAME_GPR"

lemma ablegen_eq:
  assumes "slot_adresse sidecar slot = Some basis"
  shows "ablegen s frame sidecar slot an c =
    (s\<lparr>sk_zustellungen := sk_zustellungen s + 1,
       sk_mem := write_words (sk_mem s) basis (slot_inhalt (sk_zustellungen s + 1) an c (fst (frame_woerter (sk_frames s frame) (replicate 22 0))) 22)\<rparr>, True)"
  using assms by (simp add: ablegen_def frame_woerter_def FRAME_WOERTER_def frame_passt_def FRAME_WOERTER_MAX_def SLOT_WOERTER_def SLOT_BYTES_def FRAME_WORT_def Let_def)


section \<open>Reading back\<close>

lemma read_words:
  "foldl (\<lambda>w i. if uebernehmbar i n then w[i := g i] else w) (replicate n 0) [0..<m] = map (\<lambda>i. if i < m then g i else 0) [0..<n]"
proof (induction m)
  case (Suc m)
  then show ?case by (auto simp: uebernehmbar_def intro!: nth_equalityI) (auto simp: nth_list_update less_Suc_eq)
qed (auto intro!: nth_equalityI)

lemma read_gpr:
  "foldl (\<lambda>w i. if uebernehmbar i FRAME_GPR then w[i := g i] else w) (replicate FRAME_GPR 0) [0..<FRAME_WOERTER] = map g [0..<FRAME_GPR]"
  unfolding read_words by (simp add: FRAME_GPR_def FRAME_WOERTER_def)

text \<open>What taking back does on every branch.\<close>

lemma uebernehmen_eq:
  fixes s basis sidecar slot
  assumes "slot_adresse sidecar slot = Some basis"
  defines "urteil \<equiv> kopf_pruefen (map (\<lambda>i. sk_mem s (wort_adresse basis i)) [0..<FRAME_WORT]) FRAME_ARCH (of_nat FRAME_GPR) (of_nat FRAME_WOERTER)"
  shows "uebernehmen s frame sidecar slot =
    (if urteil = KopfOk then
       (s\<lparr>sk_frames := (sk_frames s)(frame := (sk_frames s frame)\<lparr>tf_gpr := map (\<lambda>i. sk_mem s (wort_adresse basis (frame_wort i))) [0..<FRAME_GPR] @ drop FRAME_GPR (tf_gpr (sk_frames s frame))\<rparr>)\<rparr>, UebernahmeOk)
     else (s\<lparr>sk_uebernahme_fehler := sk_uebernahme_fehler s + 1\<rparr>, if urteil = KeinFrame then UebernahmeKeinFrame else FremderKopf urteil))"
  using assms(1) unfolding uebernehmen_def read_gpr
  by (cases urteil) (simp_all add: urteil_def [symmetric] frame_gpr_uebernehmen_def Let_def)

text \<open>
  C12. A handler cannot lift its guest out of its ring: whatever the window contains, taking back changes at
  most the general registers of this one frame, never the instruction pointer, the flags, the stack pointer
  or the two segment selectors that carry the privilege, never another frame and never memory; and it
  changes nothing but the counter unless the header of the slot is the expected one.
\<close>

theorem handler_cannot_escalate:
  assumes "frame_wf (sk_frames s frame)" "uebernehmen s frame sidecar slot = (s', r)"
  shows "sk_mem s' = sk_mem s \<and> (\<forall>g. g \<noteq> frame \<longrightarrow> sk_frames s' g = sk_frames s g) \<and>
    (\<exists>ws. length ws = FRAME_GPR \<and> sk_frames s' frame = (sk_frames s frame)\<lparr>tf_gpr := ws\<rparr>) \<and>
    (r \<noteq> UebernahmeOk \<longrightarrow> s' = s\<lparr>sk_uebernahme_fehler := sk_uebernahme_fehler s + 1\<rparr>) \<and>
    (r = UebernahmeOk \<longrightarrow> (\<exists>basis. slot_adresse sidecar slot = Some basis \<and>
      kopf_pruefen (map (\<lambda>i. sk_mem s (wort_adresse basis i)) [0..<FRAME_WORT]) FRAME_ARCH (of_nat FRAME_GPR) (of_nat FRAME_WOERTER) = KopfOk \<and>
      tf_gpr (sk_frames s' frame) = map (\<lambda>i. sk_mem s (wort_adresse basis (frame_wort i))) [0..<FRAME_GPR]))"
proof (cases "slot_adresse sidecar slot")
  case None
  have "(sk_frames s frame)\<lparr>tf_gpr := tf_gpr (sk_frames s frame)\<rparr> = sk_frames s frame" by simp
  then show ?thesis using assms None by (auto simp: uebernehmen_def frame_wf_def intro!: exI [of _ "tf_gpr (sk_frames s frame)"])
next
  case (Some basis)
  let ?u = "kopf_pruefen (map (\<lambda>i. sk_mem s (wort_adresse basis i)) [0..<FRAME_WORT]) FRAME_ARCH (of_nat FRAME_GPR) (of_nat FRAME_WOERTER)"
  show ?thesis
  proof (cases "?u = KopfOk")
    case True
    then show ?thesis using assms Some unfolding uebernehmen_eq [OF Some]
      by (auto simp: frame_wf_def intro!: exI [of _ "map (\<lambda>i. sk_mem s (wort_adresse basis (frame_wort i))) [0..<FRAME_GPR]"])
  next
    case False
    have "(sk_frames s frame)\<lparr>tf_gpr := tf_gpr (sk_frames s frame)\<rparr> = sk_frames s frame" by simp
    then show ?thesis using assms False unfolding uebernehmen_eq [OF Some] by (auto simp: frame_wf_def intro!: exI [of _ "tf_gpr (sk_frames s frame)"] split: if_splits)
  qed
qed


text \<open>
  Round trip: a frame that was delivered is found by the handler word for word behind an accepted
  header, and if the handler writes the registers \<open>ws\<close> into their places, taking back gives the guest
  exactly these registers; if it writes nothing, the guest continues with the frame it had.
\<close>

theorem sidecar_roundtrip:
  assumes "frame_wf (sk_frames s frame)" "ablegen s frame sidecar slot an c = (s1, True)" "slot_adresse sidecar slot = Some basis"
    and "length ws = FRAME_GPR" "ws' = (if aendern then ws else tf_gpr (sk_frames s frame))"
    and "s2 = (if aendern then s1\<lparr>sk_mem := write_words (sk_mem s1) basis (map (\<lambda>i. (frame_wort i, ws ! i)) [0..<FRAME_GPR])\<rparr> else s1)"
  shows "uebernehmen s2 frame sidecar slot = (s2\<lparr>sk_frames := (sk_frames s)(frame := (sk_frames s frame)\<lparr>tf_gpr := ws'\<rparr>)\<rparr>, UebernahmeOk)"
proof -
  let ?f = "sk_frames s frame"
  define w where "w = fst (frame_woerter ?f (replicate 22 0))"
  define L where "L = slot_inhalt (sk_zustellungen s + 1) an c w 22"
  have len: "length (tf_gpr ?f) = 15" using assms(1) by (simp add: frame_wf_def FRAME_GPR_def)
  have s1: "s1 = s\<lparr>sk_zustellungen := sk_zustellungen s + 1, sk_mem := write_words (sk_mem s) basis L\<rparr>"
    using assms(2) ablegen_eq [OF assms(3), of s frame an c] by (simp add: L_def w_def)
  have at1: "sk_mem s1 (wort_adresse basis i) = v" if "(i, v) \<in> set L" for i v
    unfolding s1 using write_at [of L i v "sk_mem s" basis] inhalt_ok [where gen = "sk_zustellungen s + 1" and an = an and c = c and w = w] that by (force simp: L_def)
  have at2: "sk_mem s2 (wort_adresse basis i) = sk_mem s1 (wort_adresse basis i)" if "i < FRAME_WORT" for i
    using that unfolding assms(6) by (auto intro!: write_other simp: words_distinct frame_wort_def FRAME_WORT_def FRAME_GPR_def)
  have "kopf_pruefen (map (\<lambda>i. sk_mem s2 (wort_adresse basis i)) [0..<FRAME_WORT]) FRAME_ARCH (of_nat FRAME_GPR) (of_nat FRAME_WOERTER) = KopfOk"
  proof -
    have "(KOPF_MAGIE, MAGIE) \<in> set L" "(KOPF_VERSION, FORMAT_VERSION) \<in> set L" "(KOPF_ARCH, FRAME_ARCH) \<in> set L" "(KOPF_NGPR, of_nat FRAME_GPR) \<in> set L"
      "(KOPF_NGESAMT, of_nat FRAME_WOERTER) \<in> set L" "(KOPF_GRUPPE, 0) \<in> set L" "\<And>i. i < KOPF_RESERVIERT_N \<Longrightarrow> (KOPF_RESERVIERT + i, 0) \<in> set L"
      by (auto simp: L_def slot_inhalt_def FRAME_WOERTER_def)
    note A = this [THEN at1]
    show ?thesis using A unfolding kopf_pruefen_def by (auto simp: at2 list_ex_iff kopf_defs)
  qed
  moreover have "map (\<lambda>i. sk_mem s2 (wort_adresse basis (frame_wort i))) [0..<FRAME_GPR] = ws'"
  proof (cases aendern)
    case True
    have "sk_mem s2 (wort_adresse basis (frame_wort i)) = ws ! i" if "i < FRAME_GPR" for i
      using True that unfolding assms(6)
      by (auto intro!: write_at simp: frame_wort_def FRAME_WORT_def FRAME_GPR_def comp_def distinct_map inj_on_def)
    then show ?thesis using assms(4,5) True by (auto intro!: nth_equalityI)
  next
    case False
    have "sk_mem s2 (wort_adresse basis (frame_wort i)) = tf_gpr ?f ! i" if "i < FRAME_GPR" for i
    proof -
      have "(frame_wort i, w ! i) \<in> set L" using that by (auto simp: L_def slot_inhalt_def FRAME_GPR_def)
      moreover have "w ! i = tf_gpr ?f ! i" using that len by (simp add: w_def frame_woerter_def FRAME_WOERTER_def FRAME_GPR_def nth_append)
      ultimately show ?thesis using at1 False assms(6) by simp
    qed
    then show ?thesis using assms(5) False len by (auto intro!: nth_equalityI simp: FRAME_GPR_def)
  qed
  moreover have "drop FRAME_GPR (tf_gpr ?f) = []" "sk_frames s2 = sk_frames s" using len s1 assms(6) by (auto simp: FRAME_GPR_def)
  ultimately show ?thesis unfolding uebernehmen_eq [OF assms(3)] by simp
qed

end
