(* ===== verification/PdSample.thy ===== *)
theory PdSample
  imports Sidecar
begin

text \<open>
  Concrete runs of the protection domains: a table with three entries, 40 capability slots and four owner
  entries, and a side-car window at a fixed address. The properties of the theories on protection domains,
  handlers and side-cars are applied to them.
\<close>

section \<open>Tables\<close>

text \<open>User domains with the default budget and number of slots; \<open>pd_table\<close> gives the parts of a table that differ.\<close>

definition user_pd :: "u32 \<Rightarrow> u32 \<Rightarrow> Pd" where
  "user_pd start e = Pd_EMPTY\<lparr>pd_used := True, pd_domain := UserLand, pd_cap_budget := 10, pd_cspace_start := start, pd_cspace_len := 16, pd_epoch := e\<rparr>"

definition pd_table :: "Pd list \<Rightarrow> nat \<Rightarrow> u32 \<Rightarrow> u32 \<Rightarrow> PdTable" where
  "pd_table pds vorrat bump kopf =
     \<lparr>pt_pds = pds, pt_owner = replicate 4 ThreadOwner_EMPTY, pt_budget_vorrat = vorrat, pt_budget_abgewiesen = 0, pt_pool = replicate 40 None,
      pt_vergabe = \<lparr>vg_bump = bump, vg_kopf = kopf\<rparr>, pt_budget_deckel = 16, pt_deckel_abgewiesen = 0, pt_cspace_abgewiesen = 0\<rparr>"

definition pd0 :: PdTable where "pd0 = pd_table [Pd_EMPTY, Pd_EMPTY, Pd_EMPTY] 100000 0 0"
definition pd1 :: PdTable where "pd1 = pd_table [user_pd 0 0, Pd_EMPTY, Pd_EMPTY] 99990 16 0"
definition pd2 :: PdTable where "pd2 = pd_table [user_pd 0 0, user_pd 16 0, Pd_EMPTY] 99980 32 0"
definition pd_gone :: PdTable where "pd_gone = pd_table [Pd_EMPTY\<lparr>pd_epoch := 1\<rparr>, Pd_EMPTY, Pd_EMPTY] 100000 16 1"
definition pd_again :: PdTable where "pd_again = pd_table [user_pd 16 1, Pd_EMPTY, Pd_EMPTY] 99990 32 1"
definition pd_twice :: PdTable where "pd_twice = pd_table [user_pd 16 1, user_pd 16 0, Pd_EMPTY] 99980 32 0"

lemmas sample_tables = pd_table_def pd0_def pd1_def pd2_def pd_gone_def pd_again_def pd_twice_def user_pd_def Pd_EMPTY_def NCAPS_def STANDARD_PLAETZE_def
  CAP_BUDGET_PER_PD_def

lemma clear_empty: "clear_run (replicate n None) a b = replicate n None"
  by (auto simp: clear_run_def intro!: nth_equalityI)

lemma three_times: "replicate 3 x = [x, x, x]"
  by (simp add: numeral_eq_Suc)

lemma sample_freed: "pd_free pd1 0 = Some (pd_gone, True)"
  by (simp add: sample_tables pd_free_def pd_live_def freigeben_def pd_ablage_def tget_def tupd_def CAP_SLOTS_FOR_ALL_PDS_def NPDS_def clear_empty)

lemma sample_created:
  "create_mit_budget_und_cspace pd0 UserLand 0 0 = Some (pd1, Inr 0)"
  "create_mit_budget_und_cspace pd1 UserLand 0 0 = Some (pd2, Inr 1)"
  "create_mit_budget_und_cspace pd_gone UserLand 0 0 = Some (pd_again, Inr 0)"
  "create_mit_budget_und_cspace pd_again UserLand 0 0 = Some (pd_twice, Inr 1)"
  by (simp_all add: sample_tables create_mit_budget_und_cspace_def anforderung_aufloesen_def freien_slot_suchen_def belegen_def
      freilauf_suchen.simps [of _ _ _ _ 0 0] freilauf_suchen.simps [of _ _ _ _ 1 0] freilauf_suchen.simps [of _ _ _ _ 0 1]
      pd_ablage_def tget_def tupd_def aushaken_def checked_add32_def pool_len_def modpd_def)

lemma pd_sample_init: "pt_init pd0"
proof -
  have "pt_boot 3 40 4 = Some pd0"
    by (simp add: sample_tables pt_boot_def attach_cspace_pool_def pt_attach_def PdTable_new_def attach_owner_def CAP_SLOTS_FOR_ALL_PDS_def NPDS_def
        CAP_BUDGET_MAX_def Vergabe_neu_def three_times)
  then show ?thesis unfolding pt_init_def by (intro exI [of _ 3] exI [of _ 40] exI [of _ 4]) auto
qed

lemma sample_live: "pd_live pd1 0" "pd_live pd2 0" "pd_live pd2 1"
  by (simp_all add: sample_tables pd_live_def)

text \<open>Each of them is reachable, with and without freeing.\<close>

lemma pd_sample_reach: "reach pt_init (pt_step b f) pd1" "reach pt_init (pt_step b f) pd2"
proof -
  show r: "reach pt_init (pt_step b f) pd1" using pd_sample_init sample_created(1) by (meson reach_init reach_step ps_create)
  show "reach pt_init (pt_step b f) pd2" using r sample_created(2) by (meson reach_step ps_create)
qed

theorem domains_share_no_slots_witness:
  "cap_at (install_cap pd2 0 3 \<lparr>p_slot = 5, p_gen = 1\<rparr>) 0 3 = Some \<lparr>p_slot = 5, p_gen = 1\<rparr> \<and>
   cap_at (install_cap pd2 0 3 \<lparr>p_slot = 5, p_gen = 1\<rparr>) 1 3 = None"
proof -
  have "3 < cspace_len_von pd2 0" "cap_at pd2 1 3 = None"
    by (auto simp: sample_tables cspace_len_von_def pd_live_def cap_at_def tget_def Let_def)
  then show ?thesis using domains_share_no_slots [OF pd_sample_reach(2), of 3 0 "\<lparr>p_slot = 5, p_gen = 1\<rparr>"] by simp
qed

theorem cspace_given_twice_witness:
  "domain_of pd_twice 0 = Some UserLand \<and> domain_of pd_twice 1 = Some UserLand \<and>
   cap_at (install_cap pd_twice 1 2 \<lparr>p_slot = 5, p_gen = 1\<rparr>) 0 2 = Some \<lparr>p_slot = 5, p_gen = 1\<rparr>"
proof -
  have "2 < cspace_len_von pd_twice 1" by (simp add: sample_tables cspace_len_von_def pd_live_def)
  then show ?thesis
    using cspace_given_twice [OF pd_sample_reach(1) sample_live(1) sample_freed sample_created(3,4) order_refl, of "\<lparr>p_slot = 5, p_gen = 1\<rparr>"] by blast
qed

theorem budget_balances_witness:
  "pt_budget_vorrat pd2 + sum_list (map (budget_of pd2) [0..<length (pt_pds pd2)]) = CAP_SLOTS_FOR_ALL_PDS"
  using budget_balances [OF pd_sample_reach(2)] .

theorem thread_ownership_witness:
  "pd_of (bind_thread pd2 1 \<lparr>t_slot = 2, t_gen = 0\<rparr>) \<lparr>t_slot = 2, t_gen = 0\<rparr> = Some 1 \<and>
   pd_of (bind_thread pd2 1 \<lparr>t_slot = 2, t_gen = 0\<rparr>) \<lparr>t_slot = 3, t_gen = 0\<rparr> = None \<and>
   pd_of pd_gone \<lparr>t_slot = 3, t_gen = 0\<rparr> = None"
proof -
  have "pt_owner pd2 \<noteq> []" "2 < length (pt_owner pd2)" "pd_of pd2 \<lparr>t_slot = 3, t_gen = 0\<rparr> = None"
    "pt_owner pd1 \<noteq> []" "pd_of pd1 \<lparr>t_slot = 3, t_gen = 0\<rparr> = None"
    by (simp_all add: sample_tables pd_of_def ThreadOwner_EMPTY_def)
  then show ?thesis
    using thread_ownership [OF pd_sample_reach(2), of 1 "\<lparr>t_slot = 2, t_gen = 0\<rparr>" "\<lparr>t_slot = 2, t_gen = 0\<rparr>"]
      thread_ownership [OF pd_sample_reach(2), of 1 "\<lparr>t_slot = 2, t_gen = 0\<rparr>" "\<lparr>t_slot = 3, t_gen = 0\<rparr>"]
      thread_ownership [OF pd_sample_reach(1), of 0 "\<lparr>t_slot = 2, t_gen = 0\<rparr>" "\<lparr>t_slot = 3, t_gen = 0\<rparr>" pd_gone] sample_live(3) sample_freed
    by simp
qed

section \<open>Handlers\<close>

text \<open>The second domain handles the system calls of the first.\<close>

definition bound2 :: PdTable where
  "bound2 = pd_table [(user_pd 0 0)\<lparr>pd_handler_pd := 1, pd_handler_bound := 1\<rparr>, (user_pd 16 0)\<lparr>pd_sidecar_used := 1\<rparr>, Pd_EMPTY] 99980 32 0"

definition bound2_bindung :: Bindung where
  "bound2_bindung = \<lparr>bi_sys_ep = 7, bi_fault_ep = KEIN_EP, bi_handler_pd = 1, bi_slot = 0, bi_sidecar = 0x100000\<rparr>"

lemmas sample_bind = sample_tables bound2_def bound2_bindung_def sethandler_bind_def sys_pruefe_bindung_def pruefe_bindung_def kante_of_def
  handler_pd_of_def pd_live_def KEIN_EP_def KEIN_HANDLER_PD_def sidecar_frei_def sidecar_belegen_def handler_kante_setzen_def modpd_def
  SIDECAR_SLOTS_def

lemma no_ones: "trailing_ones 0 = 0" "count_ones 0 = 0" "count_ones 1 = 1"
  by code_simp+

lemma sample_bound: "sethandler_bind pd2 0 1 7 KEIN_EP 0x100000 = (bound2, Inr bound2_bindung)"
  by (simp add: sample_bind no_ones kette_pruefen.simps [where k = 1])

lemma sample_cycle: "sys_pruefe_bindung bound2 1 0 True False = Zyklus" "snd (sethandler_bind bound2 1 0 7 KEIN_EP 0x200000) = Inl ERR_HANDLER_CYCLE"
  by (simp_all add: sample_bind no_ones kette_pruefen.simps [where k = 0] kette_pruefen.simps [where k = 1])

lemma sample_unbound: "pd_handler_bound (pt_pds pd2 ! 0) \<noteq> - 1"
  by (simp add: sample_tables)

lemma sample_hg: "reach pt_init hg_step pd2" "reach pt_init hg_step bound2"
proof -
  have "reach pt_init hg_step pd1" using pd_sample_init sample_created(1) by (meson reach_init reach_step hg_create)
  then show r: "reach pt_init hg_step pd2" using sample_created(2) by (meson reach_step hg_create)
  show "reach pt_init hg_step bound2" using r hg_bind [OF sample_live(2) sample_unbound sample_bound] by (rule reach_step)
qed

theorem handler_chains_end_witness:
  "acyclic (kanten (kante_of bound2)) \<and> (\<exists>l\<le>3. kettenlaenge 0 (kante_of bound2) 3 = Some l) \<and> sys_pruefe_bindung bound2 1 0 True False = Zyklus"
proof -
  have "length (pt_pds bound2) = 3" by (simp add: bound2_def pd_table_def)
  then show ?thesis using handler_chains_end [OF sample_hg(2), of 0] sample_cycle(1) by auto
qed

theorem binding_exact_witness:
  "unat (bi_slot bound2_bindung) < 64 \<and> kante_of bound2 = (kante_of pd2)(0 \<mapsto> 1) \<and> sethandler_bind bound2 1 0 7 KEIN_EP 0x200000 = (bound2, Inl ERR_HANDLER_CYCLE)"
proof -
  obtain t' r where e: "sethandler_bind bound2 1 0 7 KEIN_EP 0x200000 = (t', r)" by force
  have "pd_live bound2 1" by (simp add: sample_bind)
  then show ?thesis
    using sample_cycle(2) binding_exact [OF sample_hg(1) sample_live(2) sample_bound] binding_exact [OF sample_hg(2) _ e] e by auto
qed

theorem failed_binding_undone_witness:
  "sethandler_commit bound2 0 bound2_bindung False = (pd2, ERR_BADCAP)"
  using failed_binding_undone [OF sample_hg(1) sample_live(2) sample_unbound sample_bound] .

section \<open>Side-cars\<close>

definition user_frame :: TrapFrame where
  "user_frame = \<lparr>tf_gpr = map of_nat [100..<115], tf_vector = 128, tf_error = 0, tf_rip = 0x400000, tf_cs = 0x2b, tf_rflags = 0x202, tf_rsp = 0x7000, tf_ss = 0x23\<rparr>"

definition cars0 :: Sidecars where
  "cars0 = \<lparr>sk_zustellungen = 0, sk_ablage_fehler = 0, sk_uebernahme_fehler = 0, sk_mem = (\<lambda>_. 0), sk_frames = (\<lambda>_. user_frame)\<rparr>"

definition cars1 :: Sidecars where
  "cars1 = fst (ablegen cars0 0 0x100000 3 0 9)"

text \<open>The handler overwrites all 22 words of the frame.\<close>

definition cars2 :: Sidecars where
  "cars2 = cars1\<lparr>sk_mem := write_words (sk_mem cars1) (0x100000 + of_nat (slot_offset 3)) (map (\<lambda>i. (frame_wort i, 0)) [0..<22])\<rparr>"

lemma sample_slot: "slot_adresse 0x100000 3 = Some 0x100600" "slot_adresse 0x100000 4 = Some 0x100800"
  by code_simp+

lemma sample_frame: "frame_wf (sk_frames cars0 0)"
  by code_simp

lemma sample_ablegen: "ablegen cars0 0 0x100000 3 0 9 = (cars1, True)"
  using ablegen_eq [OF sample_slot(1), of cars0 0 0 9] by (simp add: cars1_def)

theorem handler_cannot_escalate_witness:
  "snd (uebernehmen cars2 0 0x100000 3) = UebernahmeOk \<and> tf_cs (sk_frames (fst (uebernehmen cars2 0 0x100000 3)) 0) = 0x2b \<and>
   tf_rip (sk_frames (fst (uebernehmen cars2 0 0x100000 3)) 0) = 0x400000"
proof -
  have ok: "snd (uebernehmen cars2 0 0x100000 3) = UebernahmeOk" by code_simp
  have f: "sk_frames cars2 0 = user_frame" by (simp add: cars2_def cars1_def ablegen_eq [OF sample_slot(1)] cars0_def)
  have w: "frame_wf (sk_frames cars2 0)" unfolding f by code_simp
  show ?thesis using ok handler_cannot_escalate [OF w surjective_pairing, of "0x100000" 3] by (auto simp: f user_frame_def)
qed


theorem sidecar_roundtrip_witness:
  "uebernehmen cars1 0 0x100000 3 = (cars1\<lparr>sk_frames := sk_frames cars0\<rparr>, UebernahmeOk)"
  using sidecar_roundtrip [OF sample_frame sample_ablegen sample_slot(1), of "tf_gpr user_frame" "tf_gpr user_frame" False cars1]
  by (simp add: cars0_def user_frame_def FRAME_GPR_def fun_upd_idem)

end
