(* ===== verification/PdCaps.thy ===== *)
theory PdCaps
  imports PdHandler CapSystem
begin

text \<open>
  Capabilities in protection domains (\<open>caprock-microkit/src/lib.rs\<close>): \<open>Caps\<close>, the capability space and
  the table of domains under one lock, with the policy that says which kinds of capability a domain may
  hold, the budget check, the oracles over both tables, and the system calls that move capabilities:
  \<open>CDELETE\<close>, \<open>CMOVE\<close>, \<open>SETRECV\<close>, \<open>CSUB\<close>, \<open>CCOPY\<close> and the grant of a reply. \<open>None\<close> is a panic.
\<close>

section \<open>Policy\<close>

record Caps =
  ca_cspace :: CapSpace
  ca_pds :: PdTable

definition CAP_SLOTS_KERNEL_RESERVE :: nat where "CAP_SLOTS_KERNEL_RESERVE = 256"

definition kind_is_hardware :: "ObjectKind \<Rightarrow> bool" where
  "kind_is_hardware k \<longleftrightarrow> (case k of Mmio _ _ \<Rightarrow> True | Irq _ \<Rightarrow> True | Dma _ _ _ _ \<Rightarrow> True | _ \<Rightarrow> False)"

definition kind_is_pd_control :: "ObjectKind \<Rightarrow> bool" where
  "kind_is_pd_control k \<longleftrightarrow> (case k of PdControl _ \<Rightarrow> True | Loader _ \<Rightarrow> True | _ \<Rightarrow> False)"

definition kind_is_handler :: "ObjectKind \<Rightarrow> bool" where
  "kind_is_handler k \<longleftrightarrow> (case k of SyscallHandler _ _ _ _ \<Rightarrow> True | FaultHandler _ _ _ _ \<Rightarrow> True | _ \<Rightarrow> False)"

definition domain_allows_kind :: "Domain \<Rightarrow> ObjectKind \<Rightarrow> bool" where
  "domain_allows_kind domain kind \<longleftrightarrow>
     (if kind_is_hardware kind then domain = HardwareLand
      else if kind_is_pd_control kind \<or> kind_is_handler kind then domain = TrustedSas
      else True)"

definition cap_allowed :: "Caps \<Rightarrow> nat \<Rightarrow> CapPtr \<Rightarrow> bool option" where
  "cap_allowed g pd cap =
     (case domain_of (ca_pds g) pd of
        None \<Rightarrow> Some False
      | Some domain \<Rightarrow> do {
          l \<leftarrow> cs_lookup (ca_cspace g) cap;
          case l of
            None \<Rightarrow> Some False
          | Some (kind, _, _) \<Rightarrow>
              if \<not> domain_allows_kind domain kind then Some False
              else if domain = HardwareLand then
                let (cep, cntfn) = chan_of (ca_pds g) pd; irq = irq_ntfn_of (ca_pds g) pd in
                (case kind of
                   Endpoint i \<Rightarrow> Some (i = cep)
                 | Notification i \<Rightarrow> Some (i = cntfn \<or> i = irq)
                 | _ \<Rightarrow> Some True)
              else Some True
        })"

definition budget_allows :: "Caps \<Rightarrow> nat \<Rightarrow> nat \<Rightarrow> bool" where
  "budget_allows g pd slot \<longleftrightarrow> cap_at (ca_pds g) pd slot \<noteq> None \<or> cap_count (ca_pds g) pd < budget_of (ca_pds g) pd"

definition install_cap_checked :: "Caps \<Rightarrow> nat \<Rightarrow> nat \<Rightarrow> CapPtr \<Rightarrow> (Caps \<times> bool) option" where
  "install_cap_checked g pd slot cap = do {
     a \<leftarrow> cap_allowed g pd cap;
     if \<not> a \<or> \<not> budget_allows g pd slot then Some (g, False)
     else Some (g\<lparr>ca_pds := install_cap (ca_pds g) pd slot cap\<rparr>, True)
   }"

text \<open>\<open>Inl\<close> is the slot of a promise that does not hold, \<open>Inr\<close> the number of offers that are declined.\<close>

fun endowment_loop :: "Caps \<Rightarrow> nat \<Rightarrow> u16 \<Rightarrow> (nat \<times> CapPtr) list \<Rightarrow> nat \<Rightarrow> nat \<Rightarrow> (nat + nat) option" where
  "endowment_loop g pd angebote [] abgelehnte neue = Some (Inr abgelehnte)"
| "endowment_loop g pd angebote ((slot, cap) # endow) abgelehnte neue =
     (if slot \<ge> cspace_len_von (ca_pds g) pd then Some (Inl slot)
      else do {
        a \<leftarrow> cap_allowed g pd cap;
        let ist_neu = (cap_at (ca_pds g) pd slot = None);
        let passt = (a \<and> (\<not> ist_neu \<or> cap_count (ca_pds g) pd + neue < budget_of (ca_pds g) pd));
        if passt then endowment_loop g pd angebote endow abgelehnte (neue + (if ist_neu then 1 else 0))
        else if slot < 16 \<and> bit angebote slot then endowment_loop g pd angebote endow (abgelehnte + 1) neue
        else Some (Inl slot)
      })"

definition endowment_fits :: "Caps \<Rightarrow> nat \<Rightarrow> (nat \<times> CapPtr) list \<Rightarrow> u16 \<Rightarrow> (nat + nat) option" where
  "endowment_fits g pd endow angebote = endowment_loop g pd angebote endow 0 0"

section \<open>Oracles\<close>

fun mark_run :: "Caps \<Rightarrow> nat \<Rightarrow> nat list \<Rightarrow> bool list \<Rightarrow> bool list" where
  "mark_run g pd [] seen = seen"
| "mark_run g pd (slot # rest) seen =
     mark_run g pd rest (case cap_at (ca_pds g) pd slot of Some cap \<Rightarrow> fst (mark_slot (ca_cspace g) cap seen) | None \<Rightarrow> seen)"

definition nonbudget_slots :: "Caps \<Rightarrow> bool list \<Rightarrow> nat option" where
  "nonbudget_slots g seen =
     (let nslots = fst (cs_capacity (ca_cspace g)) in
      if length seen < nslots then None
      else unmarked_used_slots (ca_cspace g)
        (fold (\<lambda>pd seen. if pd_live (ca_pds g) pd then mark_run g pd [0..<cspace_len_von (ca_pds g) pd] seen else seen)
          [0..<length (pt_pds (ca_pds g))] (replicate nslots False @ drop nslots seen)))"

definition kernel_reserve_ok :: "Caps \<Rightarrow> bool list \<Rightarrow> bool option" where
  "kernel_reserve_ok g seen = map_option (\<lambda>n. n \<le> CAP_SLOTS_KERNEL_RESERVE) (nonbudget_slots g seen)"

text \<open>The first code that is not \<open>0\<close> ends the scan of the slots.\<close>

fun audit_kinds :: "Caps \<Rightarrow> nat \<Rightarrow> (ObjectKind \<Rightarrow> nat) \<Rightarrow> nat list \<Rightarrow> nat option" where
  "audit_kinds g pd code [] = Some 0"
| "audit_kinds g pd code (slot # rest) =
     (case cap_at (ca_pds g) pd slot of
        None \<Rightarrow> audit_kinds g pd code rest
      | Some cap \<Rightarrow> do {
          l \<leftarrow> cs_lookup (ca_cspace g) cap;
          case l of
            None \<Rightarrow> audit_kinds g pd code rest
          | Some (kind, _, _) \<Rightarrow> if code kind \<noteq> 0 then Some (code kind) else audit_kinds g pd code rest
        })"

definition policy_code :: "Domain \<Rightarrow> ObjectKind \<Rightarrow> nat" where
  "policy_code domain kind =
     (if kind_is_hardware kind \<and> domain \<noteq> HardwareLand then 1 else if kind_is_pd_control kind \<and> domain \<noteq> TrustedSas then 2 else 0)"

definition channel_code :: "u32 \<times> u32 \<Rightarrow> ObjectKind \<Rightarrow> nat" where
  "channel_code chan kind =
     (case kind of
        Endpoint i \<Rightarrow> if i \<noteq> fst chan then 5 else 0
      | Notification i \<Rightarrow> if i \<noteq> snd chan then 5 else 0
      | _ \<Rightarrow> 0)"

definition audit_pd :: "Caps \<Rightarrow> (ThreadId \<Rightarrow> bool) \<Rightarrow> nat \<Rightarrow> nat option" where
  "audit_pd g is_live_global pd =
     (let t = ca_pds g; slots = [0..<cspace_len_von t pd] in
      case domain_of t pd of
        None \<Rightarrow> Some 0
      | Some domain \<Rightarrow> do {
          c \<leftarrow> audit_kinds g pd (policy_code domain) slots;
          if c \<noteq> 0 then Some c
          else if domain \<noteq> TrustedSas \<and> any_thread t pd is_live_global then Some 3
          else if domain = HardwareLand then
            if (case pd_partner_of t pd of Some q \<Rightarrow> domain_of t q = Some TrustedSas | None \<Rightarrow> False)
            then audit_kinds g pd (channel_code (chan_of t pd)) slots
            else Some 4
          else Some 0
        })"

fun audit_pds :: "Caps \<Rightarrow> (ThreadId \<Rightarrow> bool) \<Rightarrow> nat list \<Rightarrow> nat option" where
  "audit_pds g is_live_global [] = Some 0"
| "audit_pds g is_live_global (pd # rest) = do {
     c \<leftarrow> audit_pd g is_live_global pd;
     if c \<noteq> 0 then Some c else audit_pds g is_live_global rest
   }"

definition domain_audit :: "Caps \<Rightarrow> (ThreadId \<Rightarrow> bool) \<Rightarrow> nat option" where
  "domain_audit g is_live_global = audit_pds g is_live_global [0..<length (pt_pds (ca_pds g))]"

text \<open>Only the first 32 regions are compared; the sums of the comparison wrap.\<close>

definition dma_bounds_audit :: "Caps \<Rightarrow> u64 \<Rightarrow> u64 \<Rightarrow> nat" where
  "dma_bounds_audit g floor ceil =
     (let all = for_each_dma (ca_cspace g); regs = take 32 all in
      if list_ex (\<lambda>(phys, len). len = 0 \<or> phys mod 4096 \<noteq> 0 \<or> len mod 4096 \<noteq> 0 \<or> phys < floor \<or> saturating_add64 phys len > ceil) all then 1
      else if list_ex (\<lambda>i. list_ex (\<lambda>j. case (regs ! i, regs ! j) of ((a0, al), (b0, bl)) \<Rightarrow> a0 < b0 + bl \<and> b0 < a0 + al)
          [i + 1..<length regs]) [0..<length regs] then 2
      else 0)"

section \<open>System calls on capability slots\<close>

definition ERR_RIGHTS :: u64 where "ERR_RIGHTS = 3"
definition ERR_NOPD :: u64 where "ERR_NOPD = 4"
definition ERR_HASCHILDREN :: u64 where "ERR_HASCHILDREN = 6"
definition ERR_INUSE :: u64 where "ERR_INUSE = 18"
definition ERR_SUBREGION :: u64 where "ERR_SUBREGION = 21"

definition rights_from_bits :: "u64 \<Rightarrow> Rights" where
  "rights_from_bits maske =
     (let r = Rights_NONE;
          r1 = (if maske AND 1 \<noteq> 0 then Rights_union r Rights_READ else r);
          r2 = (if maske AND 2 \<noteq> 0 then Rights_union r1 Rights_WRITE else r1)
      in if maske AND 4 \<noteq> 0 then Rights_union r2 Rights_EXEC else r2)"

text \<open>
  The state: \<open>Caps\<close>, the allocator and the collector of what a deletion must tear down elsewhere, and the
  table of stack capabilities of living threads (\<open>STACK_CAP_OF\<close>; \<open>alive\<close> is the scheduler's answer).
\<close>

type_synonym caps_state = "Caps \<times> PhysAllocator \<times> Finalized"
type_synonym stack_caps = "(u64 \<times> CapPtr \<times> u64 \<times> u64) option list"

definition stack_cap_in_use :: "stack_caps \<Rightarrow> (ThreadId \<Rightarrow> bool) \<Rightarrow> CapPtr \<Rightarrow> bool" where
  "stack_cap_in_use tab alive cap \<longleftrightarrow>
     list_ex (\<lambda>e. case e of Some (raw, c, _, _) \<Rightarrow> c = cap \<and> alive (from_raw raw) | None \<Rightarrow> False) tab"

definition dispatch_delete_cap :: "stack_caps \<Rightarrow> (ThreadId \<Rightarrow> bool) \<Rightarrow> caps_state \<Rightarrow> CapPtr \<Rightarrow> (caps_state \<times> (u64 + unit)) option" where
  "dispatch_delete_cap tab alive st cap =
     (if stack_cap_in_use tab alive cap then Some (st, Inl ERR_INUSE)
      else let (g, al, rf) = st in do {
        ((cs, al', rf'), r) \<leftarrow> cs_delete (ca_cspace g) al cap rf;
        Some ((g\<lparr>ca_cspace := cs\<rparr>, al', rf'), case r of Inl _ \<Rightarrow> Inl ERR_HASCHILDREN | Inr _ \<Rightarrow> Inr ())
      })"

definition sys_cdelete :: "stack_caps \<Rightarrow> (ThreadId \<Rightarrow> bool) \<Rightarrow> caps_state \<Rightarrow> ThreadId \<Rightarrow> nat \<Rightarrow> (caps_state \<times> u64) option" where
  "sys_cdelete tab alive st thread slot =
     (let (g, al, rf) = st in
      case pd_of (ca_pds g) thread of
        None \<Rightarrow> Some (st, ERR_NOPD)
      | Some pd \<Rightarrow>
          (case cap_at (ca_pds g) pd slot of
             None \<Rightarrow> Some (st, ERR_BADCAP)
           | Some cap \<Rightarrow> do {
               ((g1, al1, rf1), r) \<leftarrow> dispatch_delete_cap tab alive (g\<lparr>ca_pds := clear_cap (ca_pds g) pd slot\<rparr>, al, rf) cap;
               case r of
                 Inl code \<Rightarrow> Some ((g1\<lparr>ca_pds := install_cap (ca_pds g1) pd slot cap\<rparr>, al1, rf1), code)
               | Inr _ \<Rightarrow> Some ((g1, al1, rf1), res_OK)
             }))"

datatype SlotCall = CMOVE | SETRECV | CSUB | CCOPY

text \<open>The part under the lock: the new state, a copy that found no place, and the code.\<close>

definition sys_cmove :: "Caps \<Rightarrow> nat \<Rightarrow> nat \<Rightarrow> nat \<Rightarrow> Caps \<times> u64" where
  "sys_cmove g pd src_slot dst_slot =
     (case cap_at (ca_pds g) pd src_slot of
        None \<Rightarrow> (g, ERR_BADCAP)
      | Some src \<Rightarrow>
          if src_slot = dst_slot then (g, res_OK)
          else if dst_slot \<ge> cspace_len_von (ca_pds g) pd then (g, ERR_BADCAP)
          else if cap_at (ca_pds g) pd dst_slot \<noteq> None then (g, ERR_NOSPACE)
          else (g\<lparr>ca_pds := install_cap (clear_cap (ca_pds g) pd src_slot) pd dst_slot src\<rparr>, res_OK))"

definition install_derived :: "Caps \<Rightarrow> nat \<Rightarrow> nat \<Rightarrow> CapPtr \<Rightarrow> (Caps \<times> CapPtr option \<times> u64) option" where
  "install_derived g pd dst_slot new = do {
     (g', ok) \<leftarrow> install_cap_checked g pd dst_slot new;
     Some (if ok then (g', None, res_OK) else (g', Some new, ERR_RIGHTS))
   }"

definition sys_csub :: "Caps \<Rightarrow> nat \<Rightarrow> nat \<Rightarrow> nat \<Rightarrow> u64 \<Rightarrow> u64 \<Rightarrow> (Caps \<times> CapPtr option \<times> u64) option" where
  "sys_csub g pd src_slot dst_slot offset len =
     (case cap_at (ca_pds g) pd src_slot of
        None \<Rightarrow> Some (g, None, ERR_BADCAP)
      | Some src \<Rightarrow> do {
          l \<leftarrow> cs_lookup (ca_cspace g) src;
          if \<not> (case l of Some (Memory _, _, _) \<Rightarrow> True | _ \<Rightarrow> False) then Some (g, None, ERR_BADCAP)
          else if dst_slot \<ge> cspace_len_von (ca_pds g) pd \<or> cap_at (ca_pds g) pd dst_slot \<noteq> None then Some (g, None, ERR_NOSPACE)
          else if \<not> budget_allows g pd dst_slot then Some (g, None, ERR_NOSPACE)
          else do {
            (cs, r) \<leftarrow> cs_subregion (ca_cspace g) src offset len Rights_RWX;
            let g1 = g\<lparr>ca_cspace := cs\<rparr>;
            case r of
              Inr new \<Rightarrow> install_derived g1 pd dst_slot new
            | Inl e \<Rightarrow> Some (g1, None, if e = Subregion then ERR_SUBREGION else if e = Invalid then ERR_BADCAP else ERR_NOSPACE)
          }
        })"

definition sys_ccopy :: "Caps \<Rightarrow> nat \<Rightarrow> nat \<Rightarrow> nat \<Rightarrow> u64 \<Rightarrow> u64 \<Rightarrow> (Caps \<times> CapPtr option \<times> u64) option" where
  "sys_ccopy g pd src_slot dst_slot maske new_badge =
     (case cap_at (ca_pds g) pd src_slot of
        None \<Rightarrow> Some (g, None, ERR_BADCAP)
      | Some src \<Rightarrow> do {
          l \<leftarrow> cs_lookup (ca_cspace g) src;
          case l of
            None \<Rightarrow> Some (g, None, ERR_BADCAP)
          | Some (_, have_rights, _) \<Rightarrow>
              if dst_slot \<ge> cspace_len_von (ca_pds g) pd \<or> cap_at (ca_pds g) pd dst_slot \<noteq> None then Some (g, None, ERR_NOSPACE)
              else if \<not> budget_allows g pd dst_slot then Some (g, None, ERR_NOSPACE)
              else do {
                let want = Rights_intersect (rights_from_bits maske) have_rights;
                (cs, r) \<leftarrow> (if new_badge \<noteq> 0 then cs_mint (ca_cspace g) src want new_badge else cs_copy (ca_cspace g) src want);
                let g1 = g\<lparr>ca_cspace := cs\<rparr>;
                case r of
                  Inr new \<Rightarrow> install_derived g1 pd dst_slot new
                | Inl _ \<Rightarrow> Some (g1, None, ERR_NOSPACE)
              }
        })"

definition slot_call :: "SlotCall \<Rightarrow> Caps \<Rightarrow> nat \<Rightarrow> nat \<Rightarrow> nat \<Rightarrow> u64 \<Rightarrow> u64 \<Rightarrow> (Caps \<times> CapPtr option \<times> u64) option" where
  "slot_call nr g pd src_slot dst_slot m1 m2 =
     (case nr of
        SETRECV \<Rightarrow> (case set_recv_slot (ca_pds g) pd src_slot of (t, ok) \<Rightarrow> Some (g\<lparr>ca_pds := t\<rparr>, None, if ok then res_OK else ERR_BADCAP))
      | CMOVE \<Rightarrow> (case sys_cmove g pd src_slot dst_slot of (g', c) \<Rightarrow> Some (g', None, c))
      | CSUB \<Rightarrow> sys_csub g pd src_slot dst_slot m1 m2
      | CCOPY \<Rightarrow> sys_ccopy g pd src_slot dst_slot m1 m2)"

definition sys_slots ::
  "stack_caps \<Rightarrow> (ThreadId \<Rightarrow> bool) \<Rightarrow> SlotCall \<Rightarrow> caps_state \<Rightarrow> ThreadId \<Rightarrow> nat \<Rightarrow> nat \<Rightarrow> u64 \<Rightarrow> u64 \<Rightarrow> (caps_state \<times> u64) option" where
  "sys_slots tab alive nr st thread src_slot dst_slot m1 m2 =
     (let (g, al, rf) = st in
      case pd_of (ca_pds g) thread of
        None \<Rightarrow> Some (st, ERR_NOPD)
      | Some pd \<Rightarrow> do {
          (g1, orphan, code) \<leftarrow> slot_call nr g pd src_slot dst_slot m1 m2;
          case orphan of
            None \<Rightarrow> Some ((g1, al, rf), code)
          | Some c \<Rightarrow> do { (st2, _) \<leftarrow> dispatch_delete_cap tab alive (g1, al, rf) c; Some (st2, code) }
        })"

definition grant_cap :: "Caps \<Rightarrow> ThreadId \<Rightarrow> nat \<Rightarrow> nat \<Rightarrow> (Caps \<times> CapPtr option) option" where
  "grant_cap g caller server_pd grant_slot =
     (case cap_at (ca_pds g) server_pd grant_slot of
        None \<Rightarrow> Some (g, None)
      | Some src \<Rightarrow>
          (case pd_of (ca_pds g) caller of
             None \<Rightarrow> Some (g, None)
           | Some cpd \<Rightarrow> do {
               a \<leftarrow> cap_allowed g cpd src;
               let recv = recv_slot (ca_pds g) cpd;
               if \<not> a then Some (g, None)
               else if \<not> budget_allows g cpd recv then Some (g, None)
               else do {
                 (cs, r) \<leftarrow> cs_copy (ca_cspace g) src Rights_RWX;
                 (case r of
                    Inr new_cap \<Rightarrow>
                      Some (g\<lparr>ca_cspace := cs, ca_pds := install_cap (ca_pds g) cpd recv new_cap\<rparr>, cap_at (ca_pds g) cpd recv)
                  | Inl _ \<Rightarrow> Some (g\<lparr>ca_cspace := cs\<rparr>, None))
               }
             }))"

text \<open>The grant part of a reply: what the receiver's slot held is deleted afterwards.\<close>

definition sys_grant :: "stack_caps \<Rightarrow> (ThreadId \<Rightarrow> bool) \<Rightarrow> caps_state \<Rightarrow> ThreadId \<Rightarrow> nat \<Rightarrow> nat \<Rightarrow> caps_state option" where
  "sys_grant tab alive st caller server_pd grant_slot =
     (let (g, al, rf) = st in do {
        (g1, replaced) \<leftarrow> grant_cap g caller server_pd grant_slot;
        case replaced of
          None \<Rightarrow> Some (g1, al, rf)
        | Some old \<Rightarrow> do { (st2, _) \<leftarrow> dispatch_delete_cap tab alive (g1, al, rf) old; Some st2 }
      })"

end
