(* ===== verification/PdPolicy.thy ===== *)
theory PdPolicy
  imports PdCaps CapProps
begin

text \<open>
  The policy of protection domains over every sequence of operations: no resolvable capability ever sits in
  a domain that may not hold its kind, and no domain exceeds its budget. The argument follows a handle: a
  slot of the capability space keeps its generation until it is released, so a handle that was stored while
  it was valid names the same capability or none.
\<close>

section \<open>How handles age\<close>

definition evolves :: "CapSpace \<Rightarrow> CapSpace \<Rightarrow> bool" where
  "evolves cs cs' \<longleftrightarrow> length (c_slots cs') = length (c_slots cs) \<and>
     (\<forall>i<length (c_slots cs).
        if usd (c_slots cs) i
        then (if usd (c_slots cs') i then s_gen (c_slots cs' ! i) = s_gen (c_slots cs ! i) \<and> cap_view cs' i = cap_view cs i
              else s_gen (c_slots cs' ! i) = s_gen (c_slots cs ! i) + 1)
        else s_gen (c_slots cs' ! i) = s_gen (c_slots cs ! i))"

text \<open>No generation wraps.\<close>

definition no_wrap :: "CapSpace \<Rightarrow> CapSpace \<Rightarrow> bool" where
  "no_wrap cs cs' \<longleftrightarrow> (\<forall>i<length (c_slots cs). s_gen (c_slots cs ! i) \<le> s_gen (c_slots cs' ! i))"

text \<open>A handle that was valid once: its generation is not ahead of its slot.\<close>

definition past :: "CapSpace \<Rightarrow> CapPtr \<Rightarrow> bool" where
  "past cs c \<longleftrightarrow> p_slot c < length (c_slots cs) \<and> p_gen c \<le> s_gen (c_slots cs ! p_slot c) \<and>
     (usd (c_slots cs) (p_slot c) \<or> p_gen c < s_gen (c_slots cs ! p_slot c))"

lemma valid_past: "valid cs c \<Longrightarrow> past cs c"
  by (auto simp: valid_def past_def usd_def)

lemma evolves_refl: "evolves cs cs"
  by (simp add: evolves_def)

lemma evolvesD:
  assumes "evolves cs cs'" "i < length (c_slots cs)"
  shows "usd (c_slots cs) i \<Longrightarrow> usd (c_slots cs') i \<Longrightarrow> s_gen (c_slots cs' ! i) = s_gen (c_slots cs ! i) \<and> cap_view cs' i = cap_view cs i"
    "usd (c_slots cs) i \<Longrightarrow> \<not> usd (c_slots cs') i \<Longrightarrow> s_gen (c_slots cs' ! i) = s_gen (c_slots cs ! i) + 1"
    "\<not> usd (c_slots cs) i \<Longrightarrow> s_gen (c_slots cs' ! i) = s_gen (c_slots cs ! i)"
  using assms unfolding evolves_def by metis+

lemma evolves_valid:
  assumes "evolves cs cs'" "past cs c" "valid cs' c"
  shows "valid cs c \<and> cap_view cs' (p_slot c) = cap_view cs (p_slot c)"
proof -
  let ?i = "p_slot c"
  have i: "?i < length (c_slots cs)" using assms(2) by (simp add: past_def)
  have u': "usd (c_slots cs') ?i" "s_gen (c_slots cs' ! ?i) = p_gen c" using assms(3) by (simp_all add: valid_def)
  have "usd (c_slots cs) ?i" using evolvesD(3) [OF assms(1) i] assms(2) u'(2) unfolding past_def by (metis order_less_irrefl)
  then show ?thesis using evolvesD(1) [OF assms(1) i] u' by (simp add: valid_def)
qed

lemma evolves_past:
  assumes "evolves cs cs'" "no_wrap cs cs'" "past cs c"
  shows "past cs' c"
proof -
  let ?i = "p_slot c"
  have i: "?i < length (c_slots cs)" using assms(3) by (simp add: past_def)
  have g: "s_gen (c_slots cs ! ?i) \<le> s_gen (c_slots cs' ! ?i)" using assms(2) i by (simp add: no_wrap_def)
  have r: "usd (c_slots cs) ?i \<Longrightarrow> \<not> usd (c_slots cs') ?i \<Longrightarrow> s_gen (c_slots cs ! ?i) < s_gen (c_slots cs' ! ?i)"
    using evolvesD(2) [OF assms(1) i] g by (simp add: order_less_le)
  have l: "length (c_slots cs') = length (c_slots cs)" using assms(1) by (simp add: evolves_def)
  have p: "p_gen c \<le> s_gen (c_slots cs ! ?i)" "usd (c_slots cs) ?i \<or> p_gen c < s_gen (c_slots cs ! ?i)" using assms(3) by (simp_all add: past_def)
  have "usd (c_slots cs') ?i \<or> p_gen c < s_gen (c_slots cs' ! ?i)" using p r g order_le_less_trans order_less_le_trans by blast
  then show ?thesis using p(1) g i l order_trans by (auto simp: past_def)
qed

lemma evolves_bare:
  assumes "length (c_slots cs') = length (c_slots cs)" "cap_inv cs"
    and "\<And>i. i < length (c_slots cs) \<Longrightarrow> i \<notin> X \<Longrightarrow> bare (c_slots cs' ! i) = bare (c_slots cs ! i)"
    and "\<And>x. x < length (c_objects cs) \<Longrightarrow> o_used (c_objects cs ! x) \<Longrightarrow> (\<exists>i. i \<notin> X \<and> usd (c_slots cs) i \<and> s_object (c_slots cs ! i) = x) \<Longrightarrow> o_kind (c_objects cs' ! x) = o_kind (c_objects cs ! x)"
    and "\<And>i. i \<in> X \<Longrightarrow> i < length (c_slots cs) \<Longrightarrow> if usd (c_slots cs) i then \<not> usd (c_slots cs') i \<and> s_gen (c_slots cs' ! i) = s_gen (c_slots cs ! i) + 1
      else s_gen (c_slots cs' ! i) = s_gen (c_slots cs ! i)"
  shows "evolves cs cs'"
  unfolding evolves_def
proof (intro conjI allI impI)
  fix i
  assume i: "i < length (c_slots cs)"
  show "if usd (c_slots cs) i
        then (if usd (c_slots cs') i then s_gen (c_slots cs' ! i) = s_gen (c_slots cs ! i) \<and> cap_view cs' i = cap_view cs i
              else s_gen (c_slots cs' ! i) = s_gen (c_slots cs ! i) + 1)
        else s_gen (c_slots cs' ! i) = s_gen (c_slots cs ! i)"
  proof (cases "i \<in> X")
    case True
    then show ?thesis using assms(5) [OF True i] by (auto split: if_splits)
  next
    case False
    note b = assms(3) [OF i False]
    have "usd (c_slots cs') i = usd (c_slots cs) i" using bare_eqD(1) [OF b] assms(1) by (simp add: usd_def)
    moreover have "usd (c_slots cs) i \<Longrightarrow> cap_view cs' i = cap_view cs i"
      using cap_view_bare [OF b] assms(4) cap_inv_object [OF assms(2)] False by blast
    ultimately show ?thesis using bare_eqD(2) [OF b] by auto
  qed
qed (rule assms(1))

lemma derived_evolves:
  assumes "cap_inv cs" "derived cs s r b w cs' p"
  shows "evolves cs cs'"
proof (rule evolves_bare [where X = "{p_slot p}"])
  note D = assms(2) [unfolded derived_def Let_def]
  have n: "s_gen (c_slots cs' ! p_slot p) = s_gen (c_slots cs ! p_slot p)"
  proof -
    have "s_gen (bare (c_slots cs' ! p_slot p)) = p_gen p" using D by simp
    then show ?thesis using D by (simp add: bare_def)
  qed
  show "if usd (c_slots cs) i then \<not> usd (c_slots cs') i \<and> s_gen (c_slots cs' ! i) = s_gen (c_slots cs ! i) + 1
      else s_gen (c_slots cs' ! i) = s_gen (c_slots cs ! i)" if "i \<in> {p_slot p}" for i
    using that D n by simp
  show "o_kind (c_objects cs' ! x) = o_kind (c_objects cs ! x)" if "x < length (c_objects cs)" for x
    using D that by (cases "x = s_object (c_slots cs ! s)") (simp_all add: lupd_def)
qed (use assms in \<open>auto simp: derived_def Let_def\<close>)

lemma deletes_evolves:
  assumes "cap_inv cs" "deletes (cs, al, rf) xs (cs1, al', rf')" "c_slots cs' = c_slots cs1" "c_objects cs' = c_objects cs1"
  shows "evolves cs cs'"
proof -
  note D = deletes_ok [OF assms(2,1)]
  show ?thesis
  proof (rule evolves_bare [where X = "set xs"])
    fix x
    assume x: "x < length (c_objects cs)" "\<exists>i. i \<notin> set xs \<and> usd (c_slots cs) i \<and> s_object (c_slots cs ! i) = x"
    then obtain i where i: "i \<notin> set xs" "usd (c_slots cs) i" "s_object (c_slots cs ! i) = x" by blast
    have "usd (c_slots cs1) i" "s_object (c_slots cs1 ! i) = x" using D i bare_eqD(3) by metis+
    then have "o_used (c_objects cs1 ! x)" using cap_inv_object D by blast
    then show "o_kind (c_objects cs' ! x) = o_kind (c_objects cs ! x)" using D x(1) assms(4) by simp
  qed (use D assms in auto)
qed

lemma install_evolves:
  assumes "cap_inv cs" "cs_install cs k r = Some (cs', res)"
  shows "evolves cs cs'"
  using assms(1)
proof (cases rule: install_cases [of cs k r])
  case (refused cs1 e)
  then have e: "cs1 = cs'" using assms(2) by simp
  have m: "map (\<lambda>ob. (o_used ob, if o_used ob then o_kind ob else k)) (c_objects cs') =
     map (\<lambda>ob. (o_used ob, if o_used ob then o_kind ob else k)) (c_objects cs)" using refused(4) e by simp
  have o: "o_kind (c_objects cs' ! x) = o_kind (c_objects cs ! x)" if "x < length (c_objects cs)" "o_used (c_objects cs ! x)" for x
  proof -
    have l: "length (c_objects cs') = length (c_objects cs)" using m by (rule map_eq_imp_length_eq)
    have "map (\<lambda>ob. (o_used ob, if o_used ob then o_kind ob else k)) (c_objects cs') ! x =
      map (\<lambda>ob. (o_used ob, if o_used ob then o_kind ob else k)) (c_objects cs) ! x" using m by simp
    then show ?thesis using that l by (simp split: if_splits)
  qed
  show ?thesis using refused(3) o e assms(1) by (intro evolves_bare [where X = "{}"]) auto
next
  case (installed cs1 d ob)
  then have e: "cs1 = cs'" using assms(2) by simp
  show ?thesis using installed e assms(1) by (intro evolves_bare [where X = "{d}"]) (auto simp: nth_list_update)
qed

lemma step_evolves:
  assumes "sys_step (cs, al) (cs', al')" "sys_inv (cs, al)"
  shows "evolves cs cs'"
proof -
  have I: "cap_inv cs" using assms(2) by (simp add: sys_inv_def)
  from assms(1) show ?thesis
  proof (cases rule: sys_step.cases)
    case (sy_copy p r res)
    from I show ?thesis by (cases rule: copy_cases [of cs p r]) (use sy_copy derived_evolves [OF I] evolves_refl in auto)
  next
    case (sy_mint p r b res)
    from I show ?thesis by (cases rule: mint_cases [of cs p r b]) (use sy_mint derived_evolves [OF I] evolves_refl in auto)
  next
    case (sy_subregion p off l r res)
    from I show ?thesis by (cases rule: subregion_cases [of cs p off l r]) (use sy_subregion derived_evolves [OF I] evolves_refl in auto)
  next
    case (sy_move p res)
    from I show ?thesis
    proof (cases rule: move_cases [of cs p])
      case (ok cs1 d)
      then have "moved cs (p_slot p) d cs'" using sy_move by simp
      note M = this [unfolded moved_def]
      have "s_gen (bare (c_slots cs' ! d)) = s_gen (c_slots cs ! d)" using M by (simp add: bare_def)
      then have "s_gen (c_slots cs' ! d) = s_gen (c_slots cs ! d)" by (simp add: bare_def)
      then show ?thesis using M I by (intro evolves_bare [where X = "{d, p_slot p}"]) auto
    qed (use sy_move evolves_refl in auto)
  next
    case (sy_delete p rf rf' res)
    from I show ?thesis by (cases rule: delete_cases [of cs al p rf]) (use sy_delete deletes_evolves [OF I] evolves_refl in auto)
  next
    case (sy_revoke p rf rf' res)
    from I show ?thesis
    proof (cases rule: revoke_cases [of cs al p rf])
      case (ok cs2 al2 rf2 cs1 xs)
      then show ?thesis using deletes_evolves [OF I ok(3,5,6)] sy_revoke by simp
    qed (use sy_revoke evolves_refl in auto)
  qed (use install_evolves [OF I] evolves_refl in \<open>auto simp: install_memory_def\<close>)
qed

section \<open>The invariant\<close>

definition may_hold :: "PdTable \<Rightarrow> nat \<Rightarrow> ObjectKind \<Rightarrow> bool" where
  "may_hold t p k \<longleftrightarrow> domain_allows_kind (pd_domain (pt_pds t ! p)) k \<and>
     (pd_domain (pt_pds t ! p) = HardwareLand \<longrightarrow> (\<forall>e. k = Endpoint e \<longrightarrow> e = pd_chan_ep (pt_pds t ! p)))"

text \<open>What a slot of domain \<open>p\<close> may contain.\<close>

definition storable :: "CapSpace \<Rightarrow> PdTable \<Rightarrow> nat \<Rightarrow> CapPtr \<Rightarrow> bool" where
  "storable cs t p c \<longleftrightarrow> past cs c \<and> (valid cs c \<longrightarrow> may_hold t p (fst (cap_view cs (p_slot c))))"

definition pool_tail_free :: "PdTable \<Rightarrow> bool" where
  "pool_tail_free t \<longleftrightarrow> (\<forall>j. unat (vg_bump (pt_vergabe t)) \<le> j \<longrightarrow> j < length (pt_pool t) \<longrightarrow> pt_pool t ! j = None)"

definition pol_inv :: "CapSpace \<Rightarrow> PdTable \<Rightarrow> bool" where
  "pol_inv cs t \<longleftrightarrow> slots_inv t \<and> pool_tail_free t \<and> (\<forall>p s c. cap_at t p s = Some c \<longrightarrow> storable cs t p c) \<and>
     (\<forall>p. cap_count t p \<le> budget_of t p)"

lemma pol_invD:
  assumes "pol_inv cs t"
  shows "slots_inv t" "pool_tail_free t" "cap_at t p s = Some c \<Longrightarrow> storable cs t p c" "cap_count t p \<le> budget_of t p"
  using assms by (auto simp: pol_inv_def)

text \<open>The count of a domain is the number of its slots that show a capability.\<close>

lemma count_slots:
  assumes "slots_inv t"
  shows "cap_count t p = card {s. cap_at t p s \<noteq> None}"
proof (cases "pd_live t p")
  case True
  let ?b = "unat (pd_cspace_start (pt_pds t ! p))" and ?l = "unat (pd_cspace_len (pt_pds t ! p))"
  have r: "?b + ?l \<le> length (pt_pool t)" using assms True by (auto simp: slots_inv_def run_end_def)
  have "cap_count t p = card {i. i < ?l \<and> pt_pool t ! (?b + i) \<noteq> None}"
    using True r by (auto simp: cap_count_def length_filter_conv_card intro!: arg_cong [where f = card])
  moreover have "{s. cap_at t p s \<noteq> None} = {i. i < ?l \<and> pt_pool t ! (?b + i) \<noteq> None}"
    using True r by (auto simp: cap_at_eq cspace_len_von_def tget_def split: if_splits)
  ultimately show ?thesis by simp
next
  case False
  then have "cap_at t p s = None" for s by (simp add: cap_at_eq cspace_len_von_def)
  then show ?thesis using False by (simp add: cap_count_def)
qed

lemma slots_finite: "finite {s. cap_at t p s \<noteq> None}"
proof (rule finite_subset)
  show "{s. cap_at t p s \<noteq> None} \<subseteq> {..<cspace_len_von t p}" by (auto simp: cap_at_eq split: if_splits)
qed simp

lemma count_store:
  assumes "slots_inv t" "slot < cspace_len_von t p" "slots_inv (set_cap_slot t p slot x)"
  shows "cap_count (set_cap_slot t p slot x) p + (if cap_at t p slot = None then 0 else 1) = cap_count t p + (if x = None then 0 else 1)"
    "q \<noteq> p \<Longrightarrow> cap_count (set_cap_slot t p slot x) q = cap_count t q"
proof -
  let ?A = "{s. cap_at t p s \<noteq> None}"
  have e: "{s. cap_at (set_cap_slot t p slot x) q s \<noteq> None} = (if q = p then if x = None then ?A - {slot} else insert slot ?A else {s. cap_at t q s \<noteq> None})" for q
    using set_slot_exact [OF assms(1,2), of x q] by auto
  note C = count_slots [OF assms(1)] count_slots [OF assms(3)]
  show "q \<noteq> p \<Longrightarrow> cap_count (set_cap_slot t p slot x) q = cap_count t q" unfolding C e by simp
  have "slot \<in> ?A \<longleftrightarrow> cap_at t p slot \<noteq> None" by simp
  moreover have "card (?A - {slot}) + (if slot \<in> ?A then 1 else 0) = card ?A" "card (insert slot ?A) + (if slot \<in> ?A then 1 else 0) = card ?A + 1"
    using slots_finite [of t p] card_Suc_Diff1 [of ?A slot] by (auto simp: insert_absorb)
  ultimately show "cap_count (set_cap_slot t p slot x) p + (if cap_at t p slot = None then 0 else 1) = cap_count t p + (if x = None then 0 else 1)"
    unfolding C e by (simp split: if_splits)
qed

text \<open>Storing.\<close>

lemma set_slot_same: "same_core t (set_cap_slot t p slot x)"
  by (simp add: set_cap_slot_def same_core_def)

lemma pds_set_slot [simp]: "pt_pds (set_cap_slot t p slot x) = pt_pds t" "pt_owner (set_cap_slot t p slot x) = pt_owner t"
  "pt_vergabe (set_cap_slot t p slot x) = pt_vergabe t" "pd_live (set_cap_slot t p slot x) q = pd_live t q"
  "budget_of (set_cap_slot t p slot x) q = budget_of t q" "cspace_len_von (set_cap_slot t p slot x) q = cspace_len_von t q"
  by (auto simp: set_cap_slot_def pd_live_def budget_of_def cspace_len_von_def)

lemma pol_store:
  assumes "pol_inv cs t" "slot < cspace_len_von t p" "\<And>c. x = Some c \<Longrightarrow> storable cs t p c"
    and "x \<noteq> None \<Longrightarrow> cap_at t p slot \<noteq> None \<or> cap_count t p < budget_of t p"
  shows "pol_inv cs (set_cap_slot t p slot x)"
  unfolding pol_inv_def
proof (intro conjI allI impI)
  note I = pol_invD [OF assms(1)]
  show s: "slots_inv (set_cap_slot t p slot x)" by (rule slots_same [OF set_slot_same I(1)])
  have st: "storable cs (set_cap_slot t p slot x) q c = storable cs t q c" for q c by (simp add: storable_def may_hold_def)
  have "unat (pd_cspace_start (pt_pds t ! p)) + slot < unat (vg_bump (pt_vergabe t))"
    using I(1) slot_live [OF assms(2)] assms(2) by (force simp: slots_inv_def run_end_def)
  then show "pool_tail_free (set_cap_slot t p slot x)" using I(2) unfolding set_slot_eq [OF assms(2)] by (auto simp: pool_tail_free_def nth_list_update)
  show "storable cs (set_cap_slot t p slot x) q c" if "cap_at (set_cap_slot t p slot x) q n = Some c" for q n c
    using that I(3) assms(3) unfolding st set_slot_exact [OF I(1) assms(2)] by (auto split: if_splits)
  show "cap_count (set_cap_slot t p slot x) q \<le> budget_of (set_cap_slot t p slot x) q" for q
    using I(4) [of q] I(4) [of p] assms(4) count_store [OF I(1) assms(2) s] by (cases "q = p") (auto split: if_splits)
qed

lemma set_slot_beyond: "pd_live t p \<Longrightarrow> \<not> slot < cspace_len_von t p \<Longrightarrow> set_cap_slot t p slot x = t"
  by (simp add: set_cap_slot_def cspace_len_von_def)

lemma pol_install:
  assumes "pol_inv cs t" "pd_live t p" "storable cs t p c" "cap_at t p slot \<noteq> None \<or> cap_count t p < budget_of t p"
  shows "pol_inv cs (install_cap t p slot c)"
proof (cases "slot < cspace_len_von t p")
  case True
  then show ?thesis using assms unfolding install_cap_def by (intro pol_store) auto
qed (use assms in \<open>simp add: install_cap_def set_slot_beyond\<close>)

text \<open>A capability that was taken out of a slot can be stored in a free slot of the same domain.\<close>

lemma pol_take:
  assumes "pol_inv cs t" "cap_at t p slot = Some c"
  shows "pol_inv cs (clear_cap t p slot)" "storable cs (clear_cap t p slot) p c" "cap_count (clear_cap t p slot) p < budget_of (clear_cap t p slot) p"
    "pd_live (clear_cap t p slot) p"
proof -
  note I = pol_invD [OF assms(1)]
  have s: "slot < cspace_len_von t p" using assms(2) by (simp add: cap_at_eq split: if_splits)
  show i: "pol_inv cs (clear_cap t p slot)" unfolding clear_cap_def by (rule pol_store [OF assms(1) s]) simp_all
  show "storable cs (clear_cap t p slot) p c" using I(3) [OF assms(2)] by (simp add: clear_cap_def storable_def may_hold_def)
  have "0 < card {s. cap_at t p s \<noteq> None}" using assms(2) slots_finite [of t p] by (auto simp: card_gt_0_iff)
  then have "0 < cap_count t p" by (simp add: count_slots [OF I(1)])
  then show "cap_count (clear_cap t p slot) p < budget_of (clear_cap t p slot) p"
    using count_store(1) [OF I(1) s, of None] pol_invD(1) [OF i] assms(2) I(4) [of p] by (simp add: clear_cap_def)
  show "pd_live (clear_cap t p slot) p" using slot_live [OF s] by (simp add: clear_cap_def)
qed

text \<open>Operations on the capability space.\<close>

lemma pol_evolve:
  assumes "pol_inv cs t" "evolves cs cs'" "no_wrap cs cs'"
  shows "pol_inv cs' t" "storable cs t p c \<Longrightarrow> storable cs' t p c"
proof -
  show s: "storable cs t p c \<Longrightarrow> storable cs' t p c" for p c
    using evolves_past [OF assms(2,3)] evolves_valid [OF assms(2)] by (auto simp: storable_def)
  show "pol_inv cs' t" using assms(1) s unfolding pol_inv_def by blast
qed

text \<open>Operations on the table that store no capability.\<close>

lemma pol_cong:
  assumes "pol_inv cs t" "slots_inv t'" "pool_tail_free t'" "\<And>p. cap_at t' p = cap_at t p"
    and "\<And>p. pd_live t p \<Longrightarrow> pd_live t' p \<and> pd_domain (pt_pds t' ! p) = pd_domain (pt_pds t ! p) \<and> pd_chan_ep (pt_pds t' ! p) = pd_chan_ep (pt_pds t ! p) \<and>
      pd_cap_budget (pt_pds t' ! p) = pd_cap_budget (pt_pds t ! p)"
  shows "pol_inv cs t'"
  unfolding pol_inv_def
proof (intro conjI allI impI)
  note I = pol_invD [OF assms(1)]
  have live: "pd_live t p" if "cap_at t p s = Some c" for p s c
    using that slot_live [of s t p] by (simp add: cap_at_eq split: if_splits)
  show "storable cs t' p c" if "cap_at t' p s = Some c" for p s c
  proof -
    have c: "cap_at t p s = Some c" using that by (simp add: assms(4))
    then show ?thesis using I(3) [OF c] assms(5) [OF live [OF c]] by (simp add: storable_def may_hold_def)
  qed
  fix p
  have n: "cap_count t' p = cap_count t p" by (simp add: count_slots [OF assms(2)] count_slots [OF I(1)] assms(4))
  show "cap_count t' p \<le> budget_of t' p"
  proof (cases "pd_live t p")
    case True
    then show ?thesis using I(4) [of p] assms(5) [OF True] n by (simp add: budget_of_def)
  next
    case False
    then have "{s. cap_at t p s \<noteq> None} = {}" using live by blast
    then show ?thesis unfolding n count_slots [OF I(1)] by simp
  qed
qed (use assms in auto)

lemma pol_same:
  assumes "pol_inv cs t" "same_core t t'" "pt_pool t' = pt_pool t"
  shows "pol_inv cs t'"
proof (rule pol_cong [OF assms(1) slots_same [OF assms(2) pol_invD(1) [OF assms(1)]]])
  have v: "pt_vergabe t' = pt_vergabe t" using assms(2) by (simp add: same_core_def)
  show "pool_tail_free t'" using pol_invD(2) [OF assms(1)] by (simp add: pool_tail_free_def v assms(3))
  have "pd_live t p \<Longrightarrow> pd_cspace_start (pt_pds t' ! p) = pd_cspace_start (pt_pds t ! p) \<and> pd_cspace_len (pt_pds t' ! p) = pd_cspace_len (pt_pds t ! p)" for p
    using same_core_fields [OF assms(2), of p] by (simp add: pd_live_def)
  then show "cap_at t' p = cap_at t p" for p using same_core_live [OF assms(2), of p] by (intro ext) (simp add: cap_at_eq cspace_len_von_def assms(3))
  show "pd_live t' p \<and> pd_domain (pt_pds t' ! p) = pd_domain (pt_pds t ! p) \<and> pd_chan_ep (pt_pds t' ! p) = pd_chan_ep (pt_pds t ! p) \<and>
      pd_cap_budget (pt_pds t' ! p) = pd_cap_budget (pt_pds t ! p)" if "pd_live t p" for p
    using that same_core_live [OF assms(2), of p] same_core_fields(6,7,9) [OF assms(2), of p] by (auto simp: pd_live_def)
qed

lemma pol_refused: "pol_inv cs t \<Longrightarrow> refused t t' \<Longrightarrow> pol_inv cs t'"
  by (erule pol_same) (simp_all add: refused_def same_core_def)

lemma pol_created:
  assumes "pol_inv cs t" "created t t' n i"
  shows "pol_inv cs t'"
proof -
  note I = pol_invD [OF assms(1)]
  obtain p where p: "pt_pds t' = (pt_pds t)[i := p]" "i < length (pt_pds t)" "pt_pool t' = pt_pool t" "\<not> pd_used (pt_pds t ! i)"
    "run_from t n (pd_cspace_start p) (pd_cspace_len p) (pt_vergabe t')"
    using assms(2) by (auto simp: created_def)
  have "vg_kopf (pt_vergabe t) = 0" using I(1) by (simp add: slots_inv_def)
  then have v: "unat (vg_bump (pt_vergabe t)) + unat (pd_cspace_len p) \<le> unat (pool_len t)" "pd_cspace_start p = vg_bump (pt_vergabe t)"
    "pt_vergabe t' = (pt_vergabe t)\<lparr>vg_bump := vg_bump (pt_vergabe t) + pd_cspace_len p\<rparr>" using p(5) by (auto simp: run_from_def)
  have b: "unat (vg_bump (pt_vergabe t')) = unat (vg_bump (pt_vergabe t)) + unat (pd_cspace_len p)"
    using v(1) unat_u32_lt [of "pool_len t"] unat_plus_if' [of "vg_bump (pt_vergabe t)" "pd_cspace_len p"] by (simp add: v(3))
  have other: "pd_live t' q = pd_live t q" "pt_pds t' ! q = pt_pds t ! q" if "q \<noteq> i" for q using p(1) that by (auto simp: pd_live_def)
  have dead: "\<not> pd_live t i" using p(4) by (simp add: pd_live_def)
  have at: "cap_at t' q s = cap_at t q s" for q s
  proof (cases "q = i")
    case True
    have "pt_pool t ! j = None" if "unat (vg_bump (pt_vergabe t)) \<le> j" "j < length (pt_pool t)" for j using I(2) that by (simp add: pool_tail_free_def)
    then have "cap_at t' i s = None" using p(1,2) by (auto simp: cap_at_eq tget_def p(3) v(2) split: if_splits)
    then show ?thesis using True dead by (simp add: cap_at_eq [of t] cspace_len_von_def)
  next
    case False
    then show ?thesis using other by (simp add: cap_at_eq cspace_len_von_def p(3))
  qed
  show ?thesis
  proof (rule pol_cong [OF assms(1) slots_created [OF assms(2) I(1)]])
    show "pool_tail_free t'" using I(2) b by (simp add: pool_tail_free_def p(3))
    show "cap_at t' q = cap_at t q" for q using at by blast
    show "pd_live t' q \<and> pd_domain (pt_pds t' ! q) = pd_domain (pt_pds t ! q) \<and> pd_chan_ep (pt_pds t' ! q) = pd_chan_ep (pt_pds t ! q) \<and>
      pd_cap_budget (pt_pds t' ! q) = pd_cap_budget (pt_pds t ! q)" if "pd_live t q" for q
      using that other [of q] dead by (cases "q = i") auto
  qed
qed

section \<open>The joint system\<close>

text \<open>
  Operations of the capability space and of the table, the checked installation and the system calls on
  slots. No domain is freed, the generation of a slot does not wrap, and every step runs under its locks.
\<close>

abbreviation (input) "caps_of_state st \<equiv> ca_cspace (fst st)"

inductive dp_step :: "caps_state \<Rightarrow> caps_state \<Rightarrow> bool" where
  dp_cap: "sys_step (ca_cspace g, al) (cs', al') \<Longrightarrow> no_wrap (ca_cspace g) cs' \<Longrightarrow> dp_step (g, al, rf) (g\<lparr>ca_cspace := cs'\<rparr>, al', rf')"
| dp_table: "pt_use (ca_pds g) t' \<Longrightarrow> pt_pool t' = pt_pool (ca_pds g) \<Longrightarrow> dp_step (g, al, rf) (g\<lparr>ca_pds := t'\<rparr>, al, rf)"
| dp_create: "create_mit_budget_und_cspace (ca_pds g) d b l = Some (t', r) \<Longrightarrow> dp_step (g, al, rf) (g\<lparr>ca_pds := t'\<rparr>, al, rf)"
| dp_backend: "create_hardware_backend (ca_pds g) partner bid ep nt = Some (t', r') \<Longrightarrow> dp_step (g, al, rf) (g\<lparr>ca_pds := t'\<rparr>, al, rf)"
| dp_clear: "pd_live (ca_pds g) pd \<Longrightarrow> dp_step (g, al, rf) (g\<lparr>ca_pds := clear_cap (ca_pds g) pd slot\<rparr>, al, rf)"
| dp_install: "install_cap_checked g pd slot cap = Some (g', ok) \<Longrightarrow> dp_step (g, al, rf) (g', al, rf)"
| dp_cdelete: "sys_cdelete tab alive st thread slot = Some (st', code) \<Longrightarrow> no_wrap (caps_of_state st) (caps_of_state st') \<Longrightarrow> dp_step st st'"
| dp_slots: "sys_slots tab alive nr st thread src dst m1 m2 = Some (st', code) \<Longrightarrow> no_wrap (caps_of_state st) (caps_of_state st') \<Longrightarrow> dp_step st st'"
| dp_grant: "sys_grant tab alive st caller server_pd grant_slot = Some st' \<Longrightarrow> no_wrap (caps_of_state st) (caps_of_state st') \<Longrightarrow> dp_step st st'"

definition dp_init :: "caps_state \<Rightarrow> bool" where
  "dp_init st \<longleftrightarrow> sys_init (ca_cspace (fst st), fst (snd st)) \<and> pt_init (ca_pds (fst st))"

fun dp_inv :: "caps_state \<Rightarrow> bool" where
  "dp_inv (g, al, rf) \<longleftrightarrow> sys_inv (ca_cspace g, al) \<and> pol_inv (ca_cspace g) (ca_pds g)"

lemma dp_cap_inv: "dp_inv st \<Longrightarrow> cap_inv (ca_cspace (fst st))"
  by (cases st) (simp add: sys_inv_def)

lemma dp_sys:
  assumes "dp_inv (g, al, rf)" "sys_step (ca_cspace g, al) (cs', al')" "no_wrap (ca_cspace g) cs'"
  shows "dp_inv (g\<lparr>ca_cspace := cs'\<rparr>, al', rf')"
proof -
  have I: "sys_inv (ca_cspace g, al)" "pol_inv (ca_cspace g) (ca_pds g)" using assms(1) by simp_all
  show ?thesis using sys_step_inv [OF assms(2) I(1)] pol_evolve(1) [OF I(2) step_evolves [OF assms(2) I(1)] assms(3)] by simp
qed

text \<open>Deriving keeps every generation.\<close>

lemma derived_gens: "derived cs s r b w cs' p \<Longrightarrow> i < length (c_slots cs) \<Longrightarrow> s_gen (c_slots cs' ! i) = s_gen (c_slots cs ! i)"
proof -
  assume D: "derived cs s r b w cs' p"
  have "s_gen (bare (c_slots cs' ! p_slot p)) = s_gen (c_slots cs ! p_slot p)" using D by (simp add: derived_def Let_def)
  then have d: "s_gen (c_slots cs' ! p_slot p) = s_gen (c_slots cs ! p_slot p)" by (simp add: bare_def)
  have "i \<noteq> p_slot p \<Longrightarrow> bare (c_slots cs' ! i) = bare (c_slots cs ! i)" using D unfolding derived_def Let_def by blast
  then show ?thesis using d bare_eqD(2) by blast
qed

definition same_gens :: "CapSpace \<Rightarrow> CapSpace \<Rightarrow> bool" where
  "same_gens cs cs' \<longleftrightarrow> length (c_slots cs') = length (c_slots cs) \<and> (\<forall>i<length (c_slots cs). s_gen (c_slots cs' ! i) = s_gen (c_slots cs ! i))"

lemma same_gens_wrap: "same_gens cs cs' \<Longrightarrow> no_wrap cs cs'" "same_gens cs cs' \<Longrightarrow> no_wrap cs cs'' \<Longrightarrow> no_wrap cs' cs''"
  by (auto simp: same_gens_def no_wrap_def)

lemma derived_same_gens: "derived cs s r b w cs' p \<Longrightarrow> same_gens cs cs'"
  unfolding same_gens_def using derived_gens by (metis derived_def)

lemma derive_gens:
  assumes "cap_inv cs"
  shows "cs_copy cs p r = Some (cs', res) \<Longrightarrow> same_gens cs cs'" "cs_mint cs p r b = Some (cs', res) \<Longrightarrow> same_gens cs cs'"
    "cs_subregion cs p off l r = Some (cs', res) \<Longrightarrow> same_gens cs cs'"
proof -
  have s: "same_gens cs cs" for cs by (simp add: same_gens_def)
  show "cs_copy cs p r = Some (cs', res) \<Longrightarrow> same_gens cs cs'" using assms by (cases rule: copy_cases [of cs p r]) (auto intro: derived_same_gens s)
  show "cs_mint cs p r b = Some (cs', res) \<Longrightarrow> same_gens cs cs'" using assms by (cases rule: mint_cases [of cs p r b]) (auto intro: derived_same_gens s)
  show "cs_subregion cs p off l r = Some (cs', res) \<Longrightarrow> same_gens cs cs'"
    using assms by (cases rule: subregion_cases [of cs p off l r]) (auto intro: derived_same_gens s)
qed

section \<open>The system calls keep the policy\<close>

lemma allowed_storable:
  assumes "cap_inv (ca_cspace g)" "cap_allowed g pd c = Some True"
  shows "pd_live (ca_pds g) pd" "valid (ca_cspace g) c" "may_hold (ca_pds g) pd (fst (cap_view (ca_cspace g) (p_slot c)))" "storable (ca_cspace g) (ca_pds g) pd c"
proof -
  have l: "pd_live (ca_pds g) pd" "domain_of (ca_pds g) pd = Some (pd_domain (pt_pds (ca_pds g) ! pd))"
    using assms(2) by (auto simp: cap_allowed_def domain_of_def split: if_splits)
  have v: "valid (ca_cspace g) c" using assms(2) l(2) by (auto simp: cap_allowed_def lookup_eq [OF assms(1)] split: if_splits)
  have m: "may_hold (ca_pds g) pd (fst (cap_view (ca_cspace g) (p_slot c)))"
    using assms(2) l v by (cases "cap_view (ca_cspace g) (p_slot c)")
      (auto simp: cap_allowed_def lookup_eq [OF assms(1)] may_hold_def chan_of_def pd_live_def split: if_splits)
  show "pd_live (ca_pds g) pd" "valid (ca_cspace g) c" "may_hold (ca_pds g) pd (fst (cap_view (ca_cspace g) (p_slot c)))" "storable (ca_cspace g) (ca_pds g) pd c"
    using l v m valid_past by (simp_all add: storable_def)
qed

lemma checked_inv:
  assumes "dp_inv (g, al, rf)" "install_cap_checked g pd slot c = Some (g', ok)"
  shows "dp_inv (g', al, rf)" "ca_cspace g' = ca_cspace g"
proof -
  have ci: "cap_inv (ca_cspace g)" using dp_cap_inv [OF assms(1)] by simp
  show "ca_cspace g' = ca_cspace g" using assms(2) by (auto simp: install_cap_checked_def bind_eq_Some_conv split: if_splits)
  show "dp_inv (g', al, rf)"
  proof (cases "cap_allowed g pd c = Some True \<and> budget_allows g pd slot")
    case True
    then have "g' = g\<lparr>ca_pds := install_cap (ca_pds g) pd slot c\<rparr>" using assms(2) by (simp add: install_cap_checked_def)
    then show ?thesis using assms(1) pol_install [of "ca_cspace g" "ca_pds g" pd c slot] allowed_storable(1,4) [OF ci, of pd c] True by (auto simp: budget_allows_def)
  next
    case False
    then have "g' = g" using assms(2) by (auto simp: install_cap_checked_def bind_eq_Some_conv split: if_splits)
    then show ?thesis using assms(1) by simp
  qed
qed

lemma delete_inv:
  assumes "dp_inv (g, al, rf)" "dispatch_delete_cap tab alive (g, al, rf) c = Some ((g', al', rf'), r)" "no_wrap (ca_cspace g) (ca_cspace g')"
  shows "dp_inv (g', al', rf')" "ca_pds g' = ca_pds g" "storable (ca_cspace g) t p x \<Longrightarrow> storable (ca_cspace g') t p x"
proof -
  have *: "dp_inv (g', al', rf') \<and> ca_pds g' = ca_pds g \<and> evolves (ca_cspace g) (ca_cspace g')"
  proof (cases "stack_cap_in_use tab alive c")
    case True
    then show ?thesis using assms(1,2) evolves_refl by (simp add: dispatch_delete_cap_def)
  next
    case False
    then obtain cs r' where d: "cs_delete (ca_cspace g) al c rf = Some ((cs, al', rf'), r')" "g' = g\<lparr>ca_cspace := cs\<rparr>"
      using assms(2) by (auto simp: dispatch_delete_cap_def bind_eq_Some_conv)
    have "sys_step (ca_cspace g, al) (cs, al')" using sy_delete [OF d(1)] .
    moreover have "sys_inv (ca_cspace g, al)" using assms(1) by simp
    ultimately show ?thesis using dp_sys [OF assms(1), of cs al' rf'] step_evolves assms(3) d(2) by simp
  qed
  then show "dp_inv (g', al', rf')" "ca_pds g' = ca_pds g" by blast+
  show "storable (ca_cspace g) t p x \<Longrightarrow> storable (ca_cspace g') t p x"
    using * evolves_past [OF _ assms(3)] evolves_valid by (auto simp: storable_def)
qed

lemma take_inv:
  assumes "dp_inv (g, al, rf)" "cap_at (ca_pds g) pd slot = Some c"
  shows "dp_inv (g\<lparr>ca_pds := clear_cap (ca_pds g) pd slot\<rparr>, al, rf)"
  using assms pol_take(1) by simp

lemma cdelete_inv:
  assumes "dp_inv (g, al, rf)" "sys_cdelete tab alive (g, al, rf) thread slot = Some ((g', al', rf'), code)" "no_wrap (ca_cspace g) (ca_cspace g')"
  shows "dp_inv (g', al', rf')"
proof (cases "pd_of (ca_pds g) thread")
  case None
  then show ?thesis using assms by (simp add: sys_cdelete_def)
next
  case (Some pd)
  show ?thesis
  proof (cases "cap_at (ca_pds g) pd slot")
    case None
    then show ?thesis using assms Some by (simp add: sys_cdelete_def)
  next
    case c: (Some c)
    let ?g = "g\<lparr>ca_pds := clear_cap (ca_pds g) pd slot\<rparr>"
    obtain g1 al1 rf1 r where d: "dispatch_delete_cap tab alive (?g, al, rf) c = Some ((g1, al1, rf1), r)"
      using assms(2) Some c by (auto simp: sys_cdelete_def bind_eq_Some_conv)
    have e: "al' = al1" "rf' = rf1" "ca_cspace g' = ca_cspace g1" "g' = (case r of Inl _ \<Rightarrow> g1\<lparr>ca_pds := install_cap (ca_pds g1) pd slot c\<rparr> | Inr _ \<Rightarrow> g1)"
      using assms(2) Some c d by (auto simp: sys_cdelete_def split: sum.splits)
    have P: "pol_inv (ca_cspace g) (ca_pds g)" using assms(1) by simp
    note T = pol_take [OF P c]
    note D = delete_inv [OF take_inv [OF assms(1) c] d]
    have w: "no_wrap (ca_cspace ?g) (ca_cspace g1)" using assms(3) e(3) by simp
    have i1: "dp_inv (g1, al1, rf1)" "ca_pds g1 = clear_cap (ca_pds g) pd slot" "storable (ca_cspace g1) (ca_pds g1) pd c"
      using D(1,2) [OF w] D(3) [OF w, of "clear_cap (ca_pds g) pd slot" pd c] T(2) by simp_all
    have "pol_inv (ca_cspace g1) (install_cap (ca_pds g1) pd slot c)"
      using pol_install [of "ca_cspace g1" "ca_pds g1" pd c slot] i1 T(3,4) by simp
    then show ?thesis using i1(1) e by (cases r) simp_all
  qed
qed

text \<open>What the part under the lock does.\<close>

lemma derived_inv:
  assumes "dp_inv (g, al, rf)" "install_derived g pd dst new = Some (g', orphan, code)"
  shows "dp_inv (g', al, rf)" "ca_cspace g' = ca_cspace g"
  using assms(2) checked_inv [OF assms(1)] by (auto simp: install_derived_def bind_eq_Some_conv split: if_splits)

lemma cmove_inv:
  assumes "dp_inv (g, al, rf)" "sys_cmove g pd src dst = (g', code)"
  shows "dp_inv (g', al, rf)" "ca_cspace g' = ca_cspace g"
proof -
  show "ca_cspace g' = ca_cspace g" using assms(2) by (auto simp: sys_cmove_def split: option.splits if_splits)
  show "dp_inv (g', al, rf)"
  proof (cases "cap_at (ca_pds g) pd src")
    case (Some c)
    have P: "pol_inv (ca_cspace g) (ca_pds g)" using assms(1) by simp
    note T = pol_take [OF P Some]
    have "pol_inv (ca_cspace g) (install_cap (clear_cap (ca_pds g) pd src) pd dst c)" using pol_install [OF T(1,4,2)] T(3) by blast
    then show ?thesis using assms Some by (auto simp: sys_cmove_def split: if_splits)
  qed (use assms in \<open>simp add: sys_cmove_def\<close>)
qed

lemma ccopy_cases:
  assumes "sys_ccopy g pd src dst m b = Some (g', orphan, code)"
  obtains (refused) "g' = g" "orphan = None" "code \<noteq> res_OK"
  | (derived) c k have_rights b0 cs res where "cap_at (ca_pds g) pd src = Some c" "cs_lookup (ca_cspace g) c = Some (Some (k, have_rights, b0))"
      "dst < cspace_len_von (ca_pds g) pd" "cap_at (ca_pds g) pd dst = None" "budget_allows g pd dst"
      "(if b \<noteq> 0 then cs_mint (ca_cspace g) c (Rights_intersect (rights_from_bits m) have_rights) b
        else cs_copy (ca_cspace g) c (Rights_intersect (rights_from_bits m) have_rights)) = Some (cs, res)"
      "case res of Inl _ \<Rightarrow> g' = g\<lparr>ca_cspace := cs\<rparr> \<and> orphan = None \<and> code = ERR_NOSPACE
        | Inr new \<Rightarrow> install_derived (g\<lparr>ca_cspace := cs\<rparr>) pd dst new = Some (g', orphan, code)"
proof -
  have nz: "ERR_BADCAP \<noteq> res_OK" "ERR_NOSPACE \<noteq> res_OK" by (simp_all add: ERR_BADCAP_def ERR_NOSPACE_def res_OK_def)
  show ?thesis
  proof (cases "cap_at (ca_pds g) pd src")
    case None
    then show ?thesis using assms refused nz by (simp add: sys_ccopy_def)
  next
    case (Some c)
    then obtain l where l: "cs_lookup (ca_cspace g) c = Some l" using assms by (auto simp: sys_ccopy_def bind_eq_Some_conv)
    show ?thesis
    proof (cases l)
      case None
      then show ?thesis using assms refused nz Some l by (simp add: sys_ccopy_def)
    next
      case v: (Some v)
      obtain k hr b0 where k: "v = (k, hr, b0)" by (cases v)
      show ?thesis
      proof (cases "dst < cspace_len_von (ca_pds g) pd \<and> cap_at (ca_pds g) pd dst = None \<and> budget_allows g pd dst")
        case False
        then show ?thesis using assms refused nz Some l v k by (simp add: sys_ccopy_def not_less split: if_splits)
      next
        case True
        obtain cs res where d: "(if b \<noteq> 0 then cs_mint (ca_cspace g) c (Rights_intersect (rights_from_bits m) hr) b
            else cs_copy (ca_cspace g) c (Rights_intersect (rights_from_bits m) hr)) = Some (cs, res)"
          using assms True Some l v k by (simp add: sys_ccopy_def Let_def not_less bind_eq_Some_conv) blast
        then show ?thesis using assms True Some l v k
          by (intro derived [of c k hr b0 cs res]) (simp_all add: sys_ccopy_def Let_def not_less split: sum.splits)
      qed
    qed
  qed
qed

lemma derived_case:
  assumes "dp_inv (g, al, rf)" "same_gens (ca_cspace g) cs" "sys_step (ca_cspace g, al) (cs, al)"
    and "case res of Inl _ \<Rightarrow> g' = g\<lparr>ca_cspace := cs\<rparr> \<and> P
        | Inr new \<Rightarrow> install_derived (g\<lparr>ca_cspace := cs\<rparr>) pd dst new = Some (g', orphan, code)"
  shows "dp_inv (g', al, rf) \<and> same_gens (ca_cspace g) (ca_cspace g')"
proof -
  have i: "dp_inv (g\<lparr>ca_cspace := cs\<rparr>, al, rf)" using dp_sys [OF assms(1,3) same_gens_wrap(1) [OF assms(2)]] .
  show ?thesis
  proof (cases res)
    case (Inl e)
    then show ?thesis using i assms(2,4) by auto
  next
    case (Inr new)
    then have d: "install_derived (g\<lparr>ca_cspace := cs\<rparr>) pd dst new = Some (g', orphan, code)" using assms(4) by simp
    show ?thesis using derived_inv(1) [OF i d] derived_inv(2) [OF i d] assms(2) by simp
  qed
qed

lemma ccopy_inv:
  assumes "dp_inv (g, al, rf)" "sys_ccopy g pd src dst m b = Some (g', orphan, code)"
  shows "dp_inv (g', al, rf) \<and> same_gens (ca_cspace g) (ca_cspace g')"
  using assms(2)
proof (cases rule: ccopy_cases)
  case refused
  then show ?thesis using assms(1) by (simp add: same_gens_def)
next
  case (derived c k hr b0 cs res)
  have ci: "cap_inv (ca_cspace g)" using dp_cap_inv [OF assms(1)] by simp
  have "same_gens (ca_cspace g) cs \<and> sys_step (ca_cspace g, al) (cs, al)"
    using derived(6) derive_gens(1,2) [OF ci] sy_copy sy_mint by (metis (full_types))
  then show ?thesis using derived_case [OF assms(1)] derived(7) by blast
qed

lemma csub_cases:
  assumes "sys_csub g pd src dst off len = Some (g', orphan, code)"
  obtains (refused) "g' = g" "orphan = None" "code \<noteq> res_OK"
  | (derived) c w r0 b0 cs res where "cap_at (ca_pds g) pd src = Some c" "cs_lookup (ca_cspace g) c = Some (Some (Memory w, r0, b0))"
      "dst < cspace_len_von (ca_pds g) pd" "cap_at (ca_pds g) pd dst = None" "budget_allows g pd dst"
      "cs_subregion (ca_cspace g) c off len Rights_RWX = Some (cs, res)"
      "case res of Inl _ \<Rightarrow> g' = g\<lparr>ca_cspace := cs\<rparr> \<and> orphan = None \<and> code \<noteq> res_OK
        | Inr new \<Rightarrow> install_derived (g\<lparr>ca_cspace := cs\<rparr>) pd dst new = Some (g', orphan, code)"
proof -
  have nz: "ERR_BADCAP \<noteq> res_OK" "ERR_NOSPACE \<noteq> res_OK" "ERR_SUBREGION \<noteq> res_OK" by (simp_all add: ERR_BADCAP_def ERR_NOSPACE_def ERR_SUBREGION_def res_OK_def)
  show ?thesis
  proof (cases "cap_at (ca_pds g) pd src")
    case None
    then show ?thesis using assms refused nz by (simp add: sys_csub_def)
  next
    case (Some c)
    then obtain l where l: "cs_lookup (ca_cspace g) c = Some l" using assms by (auto simp: sys_csub_def bind_eq_Some_conv)
    show ?thesis
    proof (cases "\<exists>w r0 b0. l = Some (Memory w, r0, b0)")
      case False
      then have "\<not> (case l of Some (Memory _, _, _) \<Rightarrow> True | _ \<Rightarrow> False)" by (auto split: option.splits ObjectKind.splits)
      then show ?thesis using assms refused nz Some l by (simp add: sys_csub_def)
    next
      case True
      then obtain w r0 b0 where w: "l = Some (Memory w, r0, b0)" by blast
      show ?thesis
      proof (cases "dst < cspace_len_von (ca_pds g) pd \<and> cap_at (ca_pds g) pd dst = None \<and> budget_allows g pd dst")
        case False
        then show ?thesis using assms refused nz Some l w by (simp add: sys_csub_def not_less split: if_splits)
      next
        case t: True
        obtain cs res where d: "cs_subregion (ca_cspace g) c off len Rights_RWX = Some (cs, res)"
          using assms t Some l w by (simp add: sys_csub_def Let_def not_less bind_eq_Some_conv) blast
        then show ?thesis using assms t Some l w nz
          by (intro derived [of c w r0 b0 cs res]) (simp_all add: sys_csub_def Let_def not_less split: sum.splits if_splits)
      qed
    qed
  qed
qed

lemma csub_inv:
  assumes "dp_inv (g, al, rf)" "sys_csub g pd src dst off len = Some (g', orphan, code)"
  shows "dp_inv (g', al, rf) \<and> same_gens (ca_cspace g) (ca_cspace g')"
  using assms(2)
proof (cases rule: csub_cases)
  case refused
  then show ?thesis using assms(1) by (simp add: same_gens_def)
next
  case (derived c w r0 b0 cs res)
  have ci: "cap_inv (ca_cspace g)" using dp_cap_inv [OF assms(1)] by simp
  have "same_gens (ca_cspace g) cs" "sys_step (ca_cspace g, al) (cs, al)" using derive_gens(3) [OF ci derived(6)] sy_subregion [OF derived(6)] by simp_all
  then show ?thesis using derived_case [OF assms(1)] derived(7) by blast
qed

lemma recv_use: "set_recv_slot t pd slot = (t', ok) \<Longrightarrow> pt_use t t' \<and> pt_pool t' = pt_pool t"
  using pu_quiet [OF pu_recv] by (auto simp: set_recv_slot_def modpd_def split: if_splits)

lemma slot_call_inv:
  assumes "dp_inv (g, al, rf)" "slot_call nr g pd src dst m1 m2 = Some (g', orphan, code)"
  shows "dp_inv (g', al, rf) \<and> same_gens (ca_cspace g) (ca_cspace g')"
proof (cases nr)
  case CMOVE
  then have "sys_cmove g pd src dst = (g', code)" using assms(2) by (auto simp: slot_call_def split: prod.splits)
  from cmove_inv [OF assms(1) this] show ?thesis by (simp add: same_gens_def)
next
  case SETRECV
  obtain t' ok where s: "set_recv_slot (ca_pds g) pd src = (t', ok)" by force
  then have "g' = g\<lparr>ca_pds := t'\<rparr>" using assms(2) SETRECV by (simp add: slot_call_def)
  then show ?thesis using assms(1) pol_same [OF _ use_same, of "ca_cspace g" "ca_pds g" t'] recv_use [OF s] by (simp add: same_gens_def)
next
  case CSUB
  then show ?thesis using csub_inv [OF assms(1)] assms(2) by (simp add: slot_call_def)
next
  case CCOPY
  then show ?thesis using ccopy_inv [OF assms(1)] assms(2) by (simp add: slot_call_def)
qed

lemma sys_slots_inv:
  assumes "dp_inv (g, al, rf)" "sys_slots tab alive nr (g, al, rf) thread src dst m1 m2 = Some ((g', al', rf'), code)" "no_wrap (ca_cspace g) (ca_cspace g')"
  shows "dp_inv (g', al', rf')"
proof (cases "pd_of (ca_pds g) thread")
  case None
  then show ?thesis using assms by (simp add: sys_slots_def)
next
  case (Some pd)
  then obtain g1 orphan c where 1: "slot_call nr g pd src dst m1 m2 = Some (g1, orphan, c)"
    using assms(2) by (auto simp: sys_slots_def bind_eq_Some_conv)
  note I = slot_call_inv [OF assms(1) 1]
  show ?thesis
  proof (cases orphan)
    case None
    then show ?thesis using assms(2) Some 1 I by (simp add: sys_slots_def)
  next
    case o: (Some x)
    then obtain r where "dispatch_delete_cap tab alive (g1, al, rf) x = Some ((g', al', rf'), r)"
      using assms(2) Some 1 by (auto simp: sys_slots_def bind_eq_Some_conv)
    then show ?thesis using delete_inv(1) same_gens_wrap(2) assms(3) I by blast
  qed
qed

lemma copy_storable:
  assumes "cap_inv cs" "cs_copy cs src r = Some (cs', Inr new)" "valid cs src" "may_hold t p (fst (cap_view cs (p_slot src)))"
  shows "storable cs' t p new"
  using assms(1)
proof (cases rule: copy_cases [of cs src r])
  case (ok cs1 p1)
  then have e: "cs1 = cs'" "p1 = new" using assms(2) by simp_all
  have u: "usd (c_slots cs) (p_slot src)" using assms(3) by (simp add: valid_def)
  let ?s = "c_slots cs ! p_slot src"
  have "cs_lookup cs' new = Some (Some (slot_kind (c_objects cs ! s_object ?s)
      (new_slot 0 0 (Rights_intersect (s_rights ?s) r) (s_badge ?s) (s_subregion ?s)), Rights_intersect (s_rights ?s) r, s_badge ?s))"
    using derived_lookup(2) [OF assms(1) _ u ok(4)] ok(2) e by simp
  moreover have "slot_kind (c_objects cs ! s_object ?s) (new_slot 0 0 x y (s_subregion ?s)) = slot_kind (c_objects cs ! s_object ?s) ?s" for x y
    by (rule slot_kind_cong) simp_all
  ultimately have v: "valid cs' new" "fst (cap_view cs' (p_slot new)) = fst (cap_view cs (p_slot src))"
    using ok(2) e by (auto simp: lookup_eq cap_view_def split: if_splits)
  then show ?thesis using assms(4) valid_past by (simp add: storable_def)
qed (use assms(2) in auto)

lemma grant_inv:
  assumes "dp_inv (g, al, rf)" "grant_cap g caller spd gslot = Some (g', replaced)"
  shows "dp_inv (g', al, rf) \<and> same_gens (ca_cspace g) (ca_cspace g')"
proof -
  have s: "same_gens (ca_cspace g) (ca_cspace g)" by (simp add: same_gens_def)
  have ci: "cap_inv (ca_cspace g)" using dp_cap_inv [OF assms(1)] by simp
  show ?thesis
  proof (cases "cap_at (ca_pds g) spd gslot = None \<or> pd_of (ca_pds g) caller = None")
    case True
    then show ?thesis using assms s by (auto simp: grant_cap_def split: option.splits)
  next
    case False
    then obtain src cpd where c: "cap_at (ca_pds g) spd gslot = Some src" "pd_of (ca_pds g) caller = Some cpd" by auto
    let ?recv = "recv_slot (ca_pds g) cpd"
    show ?thesis
    proof (cases "cap_allowed g cpd src = Some True \<and> budget_allows g cpd ?recv")
      case False
      then have "g' = g" using assms(2) c by (auto simp: grant_cap_def bind_eq_Some_conv Let_def split: if_splits)
      then show ?thesis using assms(1) s by simp
    next
      case True
      then obtain cs r where d: "cs_copy (ca_cspace g) src Rights_RWX = Some (cs, r)" using assms(2) c by (auto simp: grant_cap_def bind_eq_Some_conv Let_def)
      note A = allowed_storable [OF ci conjunct1 [OF True]]
      have G: "same_gens (ca_cspace g) cs" by (rule derive_gens(1) [OF ci d])
      have i: "dp_inv (g\<lparr>ca_cspace := cs\<rparr>, al, rf)" by (rule dp_sys [OF assms(1) sy_copy [OF d] same_gens_wrap(1) [OF G]])
      show ?thesis
      proof (cases r)
        case (Inl e)
        then show ?thesis using assms(2) c True d i G by (auto simp: grant_cap_def Let_def)
      next
        case (Inr new)
        then have g: "g' = g\<lparr>ca_cspace := cs, ca_pds := install_cap (ca_pds g) cpd ?recv new\<rparr>" using assms(2) c True d by (simp add: grant_cap_def Let_def)
        have "storable cs (ca_pds g) cpd new" by (rule copy_storable [OF ci]) (use d Inr A in auto)
        then have "pol_inv cs (install_cap (ca_pds g) cpd ?recv new)" using i A(1) True by (intro pol_install) (auto simp: budget_allows_def)
        then show ?thesis using i G g by simp
      qed
    qed
  qed
qed

lemma sys_grant_inv:
  assumes "dp_inv (g, al, rf)" "sys_grant tab alive (g, al, rf) caller spd gslot = Some (g', al', rf')" "no_wrap (ca_cspace g) (ca_cspace g')"
  shows "dp_inv (g', al', rf')"
proof -
  obtain g1 replaced where 1: "grant_cap g caller spd gslot = Some (g1, replaced)" using assms(2) by (auto simp: sys_grant_def bind_eq_Some_conv)
  note I = grant_inv [OF assms(1) 1]
  show ?thesis
  proof (cases replaced)
    case None
    then show ?thesis using assms(2) 1 I by (simp add: sys_grant_def)
  next
    case (Some x)
    then obtain r where "dispatch_delete_cap tab alive (g1, al, rf) x = Some ((g', al', rf'), r)"
      using assms(2) 1 by (auto simp: sys_grant_def bind_eq_Some_conv)
    then show ?thesis using delete_inv(1) same_gens_wrap(2) assms(3) I by blast
  qed
qed

lemma dp_step_inv: "dp_step st st' \<Longrightarrow> dp_inv st \<Longrightarrow> dp_inv st'"
proof (induction rule: dp_step.induct)
  case (dp_cap g al cs' al' rf rf')
  then show ?case by (intro dp_sys)
next
  case (dp_table g t' al rf)
  then show ?case using pol_same [OF _ use_same, of "ca_cspace g" "ca_pds g" t'] by simp
next
  case (dp_create g d b l t' r al rf)
  then have p: "pol_inv (ca_cspace g) (ca_pds g)" by simp
  from create_or_refuse(1) [OF slots_wf [OF pol_invD(1) [OF p]] dp_create(1)] have "pol_inv (ca_cspace g) t'" using pol_refused [OF p] pol_created [OF p] by blast
  then show ?case using dp_create by simp
next
  case (dp_backend g partner bid ep nt t' r' al rf)
  then have p: "pol_inv (ca_cspace g) (ca_pds g)" by simp
  from create_or_refuse(2) [OF slots_wf [OF pol_invD(1) [OF p]] dp_backend(1)] have "pol_inv (ca_cspace g) t'" using pol_refused [OF p] pol_created [OF p] by blast
  then show ?case using dp_backend by simp
next
  case (dp_clear g pd al rf slot)
  then have p: "pol_inv (ca_cspace g) (ca_pds g)" by simp
  have "pol_inv (ca_cspace g) (clear_cap (ca_pds g) pd slot)"
  proof (cases "slot < cspace_len_von (ca_pds g) pd")
    case True
    then show ?thesis unfolding clear_cap_def by (intro pol_store [OF p]) simp_all
  qed (use p dp_clear in \<open>simp add: clear_cap_def set_slot_beyond\<close>)
  then show ?case using dp_clear by simp
next
  case (dp_install g pd slot cap g' ok al rf)
  then show ?case using checked_inv(1) by blast
next
  case (dp_cdelete tab alive st thread slot st' code)
  obtain g al rf g' al' rf' where "st = (g, al, rf)" "st' = (g', al', rf')" by (cases st; cases st')
  then show ?case using cdelete_inv [of g al rf] dp_cdelete by (simp only: fst_conv)
next
  case (dp_slots tab alive nr st thread src dst m1 m2 st' code)
  obtain g al rf g' al' rf' where "st = (g, al, rf)" "st' = (g', al', rf')" by (cases st; cases st')
  then show ?case using sys_slots_inv [of g al rf] dp_slots by (simp only: fst_conv)
next
  case (dp_grant tab alive st caller server_pd grant_slot st')
  obtain g al rf g' al' rf' where "st = (g, al, rf)" "st' = (g', al', rf')" by (cases st; cases st')
  then show ?case using sys_grant_inv [of g al rf] dp_grant by (simp only: fst_conv)
qed

lemma dp_init_inv: "dp_init st \<Longrightarrow> dp_inv st"
proof -
  assume i: "dp_init st"
  obtain g al rf where st: "st = (g, al, rf)" by (cases st)
  have p: "pt_init (ca_pds g)" and s: "sys_init (ca_cspace g, al)" using i by (simp_all add: dp_init_def st)
  obtain pool where "pt_pool (ca_pds g) = replicate pool None" by (rule pt_initD [OF p])
  then have "cap_at (ca_pds g) p n = None" "pool_tail_free (ca_pds g)" for p n by (simp_all add: cap_at_eq tget_def pool_tail_free_def)
  moreover have "slots_inv (ca_pds g)" using p by (rule slots.init_inv)
  ultimately have "pol_inv (ca_cspace g) (ca_pds g)" unfolding pol_inv_def by (simp add: count_slots)
  then show ?thesis using sys_init_inv [OF s] by (simp add: st)
qed

interpretation dp: step_system dp_init dp_step dp_inv
  by unfold_locales (auto intro: dp_init_inv dp_step_inv)

section \<open>The audit\<close>

lemma audit_kinds_code:
  assumes "cap_inv (ca_cspace g)"
  obtains x where "audit_kinds g pd code slots = Some x"
    "x = 0 \<or> (\<exists>s c k r b. cap_at (ca_pds g) pd s = Some c \<and> cs_lookup (ca_cspace g) c = Some (Some (k, r, b)) \<and> x = code k)"
  using assms
proof (induction slots arbitrary: thesis)
  case (Cons slot rest)
  obtain x where x: "audit_kinds g pd code rest = Some x"
    "x = 0 \<or> (\<exists>s c k r b. cap_at (ca_pds g) pd s = Some c \<and> cs_lookup (ca_cspace g) c = Some (Some (k, r, b)) \<and> x = code k)"
    using Cons.IH Cons.prems(2) by blast
  show ?case
  proof (cases "\<exists>c k r b. cap_at (ca_pds g) pd slot = Some c \<and> cs_lookup (ca_cspace g) c = Some (Some (k, r, b)) \<and> code k \<noteq> 0")
    case True
    then obtain c k r b where "cap_at (ca_pds g) pd slot = Some c" "cs_lookup (ca_cspace g) c = Some (Some (k, r, b))" "code k \<noteq> 0" by blast
    then show ?thesis by (intro Cons.prems(1) [of "code k"] disjI2 exI conjI) simp_all
  next
    case False
    have "audit_kinds g pd code (slot # rest) = Some x"
    proof (cases "cap_at (ca_pds g) pd slot")
      case (Some c)
      obtain l where l: "cs_lookup (ca_cspace g) c = Some l" by (simp add: lookup_eq [OF Cons.prems(2)])
      then have "case l of Some (k, _) \<Rightarrow> code k = 0 | None \<Rightarrow> True" using False Some by (auto split: option.splits)
      then show ?thesis using Some l x(1) by (auto split: option.splits)
    qed (use x(1) in simp)
    then show ?thesis using x(2) by (rule Cons.prems(1))
  qed
qed simp

lemma held_kind:
  assumes "dp_inv (g, al, rf)" "cap_at (ca_pds g) p s = Some c" "cs_lookup (ca_cspace g) c = Some (Some (k, r, b))"
  shows "domain_of (ca_pds g) p = Some (pd_domain (pt_pds (ca_pds g) ! p))" "may_hold (ca_pds g) p k" "pd_live (ca_pds g) p"
proof -
  have ci: "cap_inv (ca_cspace g)" using dp_cap_inv [OF assms(1)] by simp
  have "storable (ca_cspace g) (ca_pds g) p c" using assms(1,2) pol_invD(3) by simp
  moreover have "valid (ca_cspace g) c" "cap_view (ca_cspace g) (p_slot c) = (k, r, b)" using assms(3) by (auto simp: lookup_eq [OF ci] split: if_splits)
  ultimately show "may_hold (ca_pds g) p k" by (simp add: storable_def)
  show "pd_live (ca_pds g) p" using assms(2) slot_live [of s "ca_pds g" p] by (simp add: cap_at_eq split: if_splits)
  then show "domain_of (ca_pds g) p = Some (pd_domain (pt_pds (ca_pds g) ! p))" by (simp add: domain_of_def)
qed

lemma audit_pd_code:
  assumes "dp_inv (g, al, rf)"
  shows "\<exists>x. audit_pd g gl pd = Some x \<and> x \<notin> {1, 2}"
proof (cases "domain_of (ca_pds g) pd")
  case None
  then show ?thesis by (simp add: audit_pd_def)
next
  case (Some d)
  have ci: "cap_inv (ca_cspace g)" using dp_cap_inv [OF assms] by simp
  let ?s = "[0..<cspace_len_von (ca_pds g) pd]"
  obtain x where x: "audit_kinds g pd (policy_code d) ?s = Some x"
    "x = 0 \<or> (\<exists>s c k r b. cap_at (ca_pds g) pd s = Some c \<and> cs_lookup (ca_cspace g) c = Some (Some (k, r, b)) \<and> x = policy_code d k)"
    by (rule audit_kinds_code [OF ci])
  have "x = 0" using x(2)
  proof (elim disjE exE conjE)
    fix s c k r b
    assume h: "cap_at (ca_pds g) pd s = Some c" "cs_lookup (ca_cspace g) c = Some (Some (k, r, b))" "x = policy_code d k"
    have "pd_domain (pt_pds (ca_pds g) ! pd) = d" using held_kind(1) [OF assms h(1,2)] Some by simp
    then have "domain_allows_kind d k" using held_kind(2) [OF assms h(1,2)] by (simp add: may_hold_def)
    then show "x = 0" using h(3)
      by (cases k) (auto simp: policy_code_def domain_allows_kind_def kind_is_hardware_def kind_is_pd_control_def split: if_splits)
  qed
  moreover obtain y where y: "audit_kinds g pd (channel_code (chan_of (ca_pds g) pd)) ?s = Some y"
    "y = 0 \<or> (\<exists>s c k r b. cap_at (ca_pds g) pd s = Some c \<and> cs_lookup (ca_cspace g) c = Some (Some (k, r, b)) \<and> y = channel_code (chan_of (ca_pds g) pd) k)"
    by (rule audit_kinds_code [OF ci])
  moreover have "channel_code ch k = 0 \<or> channel_code ch k = 5" for ch k by (simp add: channel_code_def split: ObjectKind.splits)
  then have "y = 0 \<or> y = 5" using y(2) by metis
  then have "y \<notin> {1, 2}" by auto
  ultimately show ?thesis using Some x(1) by (simp add: audit_pd_def Let_def split: option.splits)
qed

lemma audit_pds_code: "dp_inv (g, al, rf) \<Longrightarrow> \<exists>x. audit_pds g gl pds = Some x \<and> x \<notin> {1, 2}"
proof (induction pds)
  case (Cons pd pds)
  then show ?case using audit_pd_code [OF Cons.prems, of gl pd] by auto
qed simp

text \<open>
  C3. The domain policy holds in every reachable state, over all operations of the capability space,
  creations, checked installations, the system calls on slots and grants: a capability that a domain holds
  and that still resolves is of a kind its domain may hold, so hardware capabilities are in HardwareLand
  only and control, loader and handler capabilities in TrustedSas only; a hardware backend holds no
  endpoint but the one of its channel; no domain holds more capabilities than its budget; and the domain
  audit never reports a hardware (1) or control (2) capability in the wrong domain.
\<close>

theorem domain_policy_kept:
  assumes "reach dp_init dp_step (g, al, rf)"
  shows "(\<forall>p s c k r b. cap_at (ca_pds g) p s = Some c \<and> cs_lookup (ca_cspace g) c = Some (Some (k, r, b)) \<longrightarrow>
      (\<exists>d. domain_of (ca_pds g) p = Some d \<and> domain_allows_kind d k \<and> (d = HardwareLand \<longrightarrow> (\<forall>e. k = Endpoint e \<longrightarrow> e = fst (chan_of (ca_pds g) p))))) \<and>
    (\<forall>p. cap_count (ca_pds g) p \<le> budget_of (ca_pds g) p) \<and>
    (\<exists>code. domain_audit g is_global = Some code \<and> code \<noteq> 1 \<and> code \<noteq> 2)"
proof (intro conjI allI impI)
  note I = dp.reach_inv [OF assms]
  fix p s c k r b
  assume h: "cap_at (ca_pds g) p s = Some c \<and> cs_lookup (ca_cspace g) c = Some (Some (k, r, b))"
  show "\<exists>d. domain_of (ca_pds g) p = Some d \<and> domain_allows_kind d k \<and> (d = HardwareLand \<longrightarrow> (\<forall>e. k = Endpoint e \<longrightarrow> e = fst (chan_of (ca_pds g) p)))"
    using held_kind [OF I conjunct1 [OF h] conjunct2 [OF h]] by (simp add: may_hold_def chan_of_def pd_live_def)
next
  fix p
  show "cap_count (ca_pds g) p \<le> budget_of (ca_pds g) p" using dp.reach_inv [OF assms] pol_invD(4) [of "ca_cspace g" "ca_pds g"] by simp
next
  show "\<exists>code. domain_audit g is_global = Some code \<and> code \<noteq> 1 \<and> code \<noteq> 2"
    using audit_pds_code [OF dp.reach_inv [OF assms], of is_global] by (auto simp: domain_audit_def)
qed

end
