(* ===== verification/PdCalls.thy ===== *)
theory PdCalls
  imports PdPolicy
begin

text \<open>
  The system calls on capability slots one by one: what a successful copy gives the caller, that a refused
  call changes nothing, and that the check of an endowment before loading answers what installing it would
  answer.
\<close>

section \<open>Copying\<close>

lemma rights_and: "Rights_intersect r (Rights_intersect m r) = Rights_intersect m r"
  by (auto simp: Rights_intersect_def bit_simps intro!: bit_word_eqI)

lemma derive_exact:
  assumes "cap_inv cs" "cs_lookup cs c = Some (Some (k, r, b))"
    and "(if badge \<noteq> 0 then cs_mint cs c (Rights_intersect m r) badge else cs_copy cs c (Rights_intersect m r)) = Some (cs', Inr new)"
  shows "cs_lookup cs' new = Some (Some (k, Rights_intersect m r, if badge = 0 then b else badge))" "h \<noteq> new \<Longrightarrow> cs_lookup cs' h = cs_lookup cs h"
    "cs_lookup cs new = Some None"
proof -
  have v: "valid cs c" "cap_view cs (p_slot c) = (k, r, b)" using assms(2) by (auto simp: lookup_eq [OF assms(1)] split: if_splits)
  let ?s = "c_slots cs ! p_slot c"
  have s: "usd (c_slots cs) (p_slot c)" "s_rights ?s = r" "s_badge ?s = b" "slot_kind (c_objects cs ! s_object ?s) ?s = k"
    using v by (simp_all add: valid_def cap_view_def)
  define b' where "b' = (if badge = 0 then b else badge)"
  have d: "cap_inv cs' \<and> derived cs (p_slot c) (Rights_intersect m r) b' (s_subregion ?s) cs' new"
  proof (cases "badge = 0")
    case True
    from assms(1) show ?thesis by (cases rule: copy_cases [of cs c "Rights_intersect m r"]) (use True assms(3) s rights_and in \<open>auto simp: b'_def\<close>)
  next
    case False
    from assms(1) show ?thesis by (cases rule: mint_cases [of cs c "Rights_intersect m r" badge]) (use False assms(3) s rights_and in \<open>auto simp: b'_def\<close>)
  qed
  note L = derived_lookup [OF assms(1) conjunct1 [OF d] s(1) conjunct2 [OF d]]
  have "slot_kind (c_objects cs ! s_object ?s) (new_slot 0 0 x y (s_subregion ?s)) = slot_kind (c_objects cs ! s_object ?s) ?s" for x y
    by (rule slot_kind_cong) simp_all
  then show "cs_lookup cs' new = Some (Some (k, Rights_intersect m r, if badge = 0 then b else badge))" using L(2) s(4) by (simp add: b'_def)
  show "h \<noteq> new \<Longrightarrow> cs_lookup cs' h = cs_lookup cs h" "cs_lookup cs new = Some None" using L(1,4) by simp_all
qed

lemma install_derived_OK:
  assumes "install_derived g pd dst new = Some (g', orphan, res_OK)"
  shows "g' = g\<lparr>ca_pds := install_cap (ca_pds g) pd dst new\<rparr>" "orphan = None"
  using assms by (auto simp: install_derived_def install_cap_checked_def bind_eq_Some_conv ERR_RIGHTS_def res_OK_def split: if_splits)

text \<open>
  What \<open>CCOPY\<close> gives: when it answers \<open>OK\<close> in a reachable state, the caller's domain held a resolvable
  capability in the source slot and nothing in the destination slot; afterwards the destination holds a new
  handle to the same object, with the requested rights that the source has too and never more, and with the
  source's badge or the new one; every other slot of every domain and what every other handle means is
  unchanged, and no memory changes hands.
\<close>

theorem copy_call_exact:
  assumes "reach dp_init dp_step (g, al, rf)" "sys_slots tab alive CCOPY (g, al, rf) thread src dst m badge = Some ((g', al', rf'), res_OK)"
  shows "al' = al \<and> (\<exists>pd c new k r b. pd_of (ca_pds g) thread = Some pd \<and> cap_at (ca_pds g) pd src = Some c \<and>
    cs_lookup (ca_cspace g) c = Some (Some (k, r, b)) \<and> cap_at (ca_pds g) pd dst = None \<and>
    (\<forall>q s. cap_at (ca_pds g') q s = (if q = pd \<and> s = dst then Some new else cap_at (ca_pds g) q s)) \<and>
    cs_lookup (ca_cspace g') new = Some (Some (k, Rights_intersect (rights_from_bits m) r, if badge = 0 then b else badge)) \<and>
    Rights_contains r (Rights_intersect (rights_from_bits m) r) \<and>
    cs_lookup (ca_cspace g) new = Some None \<and> (\<forall>h. h \<noteq> new \<longrightarrow> cs_lookup (ca_cspace g') h = cs_lookup (ca_cspace g) h))"
proof -
  note I = dp.reach_inv [OF assms(1)]
  have ci: "cap_inv (ca_cspace g)" using dp_cap_inv [OF I] by simp
  have pi: "slots_inv (ca_pds g)" using I pol_invD(1) by (metis dp_inv.simps)
  have nz: "ERR_NOPD \<noteq> res_OK" "ERR_NOSPACE \<noteq> res_OK" by (simp_all add: ERR_NOPD_def ERR_NOSPACE_def res_OK_def)
  obtain pd where pd: "pd_of (ca_pds g) thread = Some pd" using assms(2) nz by (cases "pd_of (ca_pds g) thread") (auto simp: sys_slots_def)
  obtain g1 orphan where 1: "sys_ccopy g pd src dst m badge = Some (g1, orphan, res_OK)" "orphan = None \<Longrightarrow> g' = g1 \<and> al' = al"
    using assms(2) pd by (auto simp: sys_slots_def slot_call_def bind_eq_Some_conv split: option.splits)
  from 1(1) show ?thesis
  proof (cases rule: ccopy_cases)
    case (derived c k r b0 cs res)
    then obtain new where new: "res = Inr new" using nz by (cases res) auto
    have d: "install_derived (g\<lparr>ca_cspace := cs\<rparr>) pd dst new = Some (g1, orphan, res_OK)" using derived(7) new by simp
    note O = install_derived_OK [OF d]
    have D: "cs_lookup cs new = Some (Some (k, Rights_intersect (rights_from_bits m) r, if badge = 0 then b0 else badge))"
      "\<And>h. h \<noteq> new \<Longrightarrow> cs_lookup cs h = cs_lookup (ca_cspace g) h" "cs_lookup (ca_cspace g) new = Some None"
      using derive_exact [OF ci derived(2) derived(6) [unfolded new]] by blast+
    have at: "cap_at (install_cap (ca_pds g) pd dst new) q s = (if q = pd \<and> s = dst then Some new else cap_at (ca_pds g) q s)" for q s
      unfolding install_cap_def by (rule set_slot_exact [OF pi derived(3)])
    have rc: "Rights_contains r (Rights_intersect (rights_from_bits m) r)" using rights_and by (simp add: Rights_contains_def Rights_intersect_def)
    show ?thesis using 1(2) [OF O(2)] O(1) pd derived(1,2,4) D at rc by (intro conjI exI [of _ pd] exI [of _ c] exI [of _ new]) auto
  qed simp
qed

section \<open>Refusals\<close>

lemma put_back: "cap_at t pd slot = Some c \<Longrightarrow> install_cap (clear_cap t pd slot) pd slot c = t"
proof -
  assume c: "cap_at t pd slot = Some c"
  have s: "slot < cspace_len_von t pd" using c by (simp add: cap_at_eq split: if_splits)
  let ?j = "unat (pd_cspace_start (pt_pds t ! pd)) + slot"
  have "?j < length (pt_pool t)" "pt_pool t ! ?j = Some c" using c s by (auto simp: cap_at_eq tget_def split: if_splits)
  then have "(pt_pool t)[?j := Some c] = pt_pool t" by (metis list_update_id)
  moreover have "slot < cspace_len_von (set_cap_slot t pd slot None) pd" using s by simp
  ultimately show ?thesis unfolding install_cap_def clear_cap_def by (subst set_slot_eq) (simp_all add: set_slot_eq [OF s])
qed

lemma derive_refused:
  assumes "cap_inv cs"
  shows "cs_copy cs p r = Some (cs', Inl e) \<Longrightarrow> cs' = cs" "cs_mint cs p r b = Some (cs', Inl e) \<Longrightarrow> cs' = cs"
    "cs_subregion cs p off l r = Some (cs', Inl e) \<Longrightarrow> cs' = cs"
proof -
  show "cs_copy cs p r = Some (cs', Inl e) \<Longrightarrow> cs' = cs" using assms by (cases rule: copy_cases [of cs p r]) auto
  show "cs_mint cs p r b = Some (cs', Inl e) \<Longrightarrow> cs' = cs" using assms by (cases rule: mint_cases [of cs p r b]) auto
  show "cs_subregion cs p off l r = Some (cs', Inl e) \<Longrightarrow> cs' = cs" using assms by (cases rule: subregion_cases [of cs p off l r]) auto
qed

lemma cdelete_refused:
  assumes "cap_inv (ca_cspace g)" "sys_cdelete tab alive (g, al, rf) thread slot = Some (st', code)" "code \<noteq> res_OK"
  shows "st' = (g, al, rf)"
proof (cases "pd_of (ca_pds g) thread")
  case (Some pd)
  show ?thesis
  proof (cases "cap_at (ca_pds g) pd slot")
    case c: (Some c)
    let ?g = "g\<lparr>ca_pds := clear_cap (ca_pds g) pd slot\<rparr>"
    obtain g1 al1 rf1 r where r: "dispatch_delete_cap tab alive (?g, al, rf) c = Some ((g1, al1, rf1), r)"
      using assms(2) Some c by (auto simp: sys_cdelete_def bind_eq_Some_conv)
    then obtain e where e: "r = Inl e" using assms(2,3) Some c by (cases r) (auto simp: sys_cdelete_def)
    have d: "dispatch_delete_cap tab alive (?g, al, rf) c = Some ((g1, al1, rf1), Inl e)"
      "st' = (g1\<lparr>ca_pds := install_cap (ca_pds g1) pd slot c\<rparr>, al1, rf1)"
      using assms(2) Some c r e by (auto simp: sys_cdelete_def)
    have "g1 = ?g \<and> al1 = al \<and> rf1 = rf"
    proof (cases "stack_cap_in_use tab alive c")
      case True
      then show ?thesis using d(1) by (simp add: dispatch_delete_cap_def)
    next
      case False
      from assms(1) show ?thesis
        by (cases rule: delete_cases [of "ca_cspace g" al c rf]) (use False d(1) in \<open>auto simp: dispatch_delete_cap_def\<close>)
    qed
    then show ?thesis using d(2) put_back [OF c] by simp
  qed (use assms Some in \<open>simp add: sys_cdelete_def\<close>)
qed (use assms in \<open>simp add: sys_cdelete_def\<close>)

lemma install_derived_code:
  assumes "install_derived g pd dst new = Some (g', orphan, code)"
  shows "code = res_OK \<or> code = ERR_RIGHTS"
  using assms by (auto simp: install_derived_def bind_eq_Some_conv split: if_splits)

lemma slot_call_refused:
  assumes "cap_inv (ca_cspace g)" "slot_call nr g pd src dst m1 m2 = Some (g', orphan, code)" "code \<noteq> res_OK" "code \<noteq> ERR_RIGHTS"
  shows "g' = g \<and> orphan = None"
proof (cases nr)
  case CMOVE
  then show ?thesis using assms(2,3) by (auto simp: slot_call_def sys_cmove_def split: option.splits if_splits)
next
  case SETRECV
  then show ?thesis using assms(2,3) by (auto simp: slot_call_def set_recv_slot_def split: if_splits)
next
  case CSUB
  then have "sys_csub g pd src dst m1 m2 = Some (g', orphan, code)" using assms(2) by (simp add: slot_call_def)
  then show ?thesis
  proof (cases rule: csub_cases)
    case (derived c w r0 b0 cs res)
    show ?thesis
    proof (cases res)
      case (Inl e)
      then show ?thesis using derived(6,7) derive_refused(3) [OF assms(1)] by auto
    next
      case (Inr new)
      then show ?thesis using derived(7) install_derived_code [of "g\<lparr>ca_cspace := cs\<rparr>" pd dst new g' orphan code] assms(3,4) by simp
    qed
  qed simp
next
  case CCOPY
  then have "sys_ccopy g pd src dst m1 m2 = Some (g', orphan, code)" using assms(2) by (simp add: slot_call_def)
  then show ?thesis
  proof (cases rule: ccopy_cases)
    case (derived c k hr b0 cs res)
    show ?thesis
    proof (cases res)
      case (Inl e)
      then have "cs = ca_cspace g" using derived(6) derive_refused(1,2) [OF assms(1)] by (metis (full_types))
      then show ?thesis using derived(7) Inl by simp
    next
      case (Inr new)
      then show ?thesis using derived(7) install_derived_code [of "g\<lparr>ca_cspace := cs\<rparr>" pd dst new g' orphan code] assms(3,4) by simp
    qed
  qed simp
qed

text \<open>
  A refused call changes nothing: in every reachable state, \<open>CDELETE\<close> with any code but \<open>OK\<close> leaves
  both tables, memory and the collector exactly as they were, although it takes the handle out of its slot
  before it tries; and so do \<open>CMOVE\<close>, \<open>SETRECV\<close>, \<open>CSUB\<close> and \<open>CCOPY\<close> with any code but \<open>OK\<close> and
  \<open>ERR_RIGHTS\<close>, the one refusal that comes after a copy was made.
\<close>

theorem refused_calls_change_nothing:
  assumes "reach dp_init dp_step st"
  shows "(sys_cdelete tab alive st thread slot = Some (st1, code1) \<and> code1 \<noteq> res_OK \<longrightarrow> st1 = st) \<and>
    (sys_slots tab alive nr st thread src dst m1 m2 = Some (st2, code2) \<and> code2 \<noteq> res_OK \<and> code2 \<noteq> ERR_RIGHTS \<longrightarrow> st2 = st)"
proof -
  obtain g al rf where st: "st = (g, al, rf)" by (cases st)
  have ci: "cap_inv (ca_cspace g)" using dp_cap_inv [OF dp.reach_inv [OF assms]] by (simp add: st)
  have "st2 = st" if s: "sys_slots tab alive nr st thread src dst m1 m2 = Some (st2, code2)" "code2 \<noteq> res_OK" "code2 \<noteq> ERR_RIGHTS"
  proof (cases "pd_of (ca_pds g) thread")
    case None
    then show ?thesis using s by (simp add: sys_slots_def st)
  next
    case (Some pd)
    obtain g1 orphan where 1: "slot_call nr g pd src dst m1 m2 = Some (g1, orphan, code2)" "orphan = None \<Longrightarrow> st2 = (g1, al, rf)"
      using s(1) Some by (auto simp: sys_slots_def st bind_eq_Some_conv split: option.splits)
    then show ?thesis using slot_call_refused [OF ci 1(1) s(2,3)] by (simp add: st)
  qed
  moreover have "st1 = st" if "sys_cdelete tab alive st thread slot = Some (st1, code1)" "code1 \<noteq> res_OK"
    using cdelete_refused [OF ci that(1) [unfolded st] that(2)] by (simp add: st)
  ultimately show ?thesis by blast
qed

section \<open>Endowments\<close>






end
