(* ===== verification/PdCallSample.thy ===== *)
theory PdCallSample
  imports PdCalls
begin

text \<open>
  A concrete run of the capability system calls: the memory capability of \<open>CapSample\<close> is installed in the
  first of two user domains, whose thread then copies it.
\<close>

definition call_pd :: "Pd list \<Rightarrow> nat \<Rightarrow> u32 \<Rightarrow> ThreadOwner list \<Rightarrow> CapPtr option list \<Rightarrow> PdTable" where
  "call_pd pds vorrat bump owners pool =
     \<lparr>pt_pds = pds, pt_owner = owners, pt_budget_vorrat = vorrat, pt_budget_abgewiesen = 0, pt_pool = pool,
      pt_vergabe = \<lparr>vg_bump = bump, vg_kopf = 0\<rparr>, pt_budget_deckel = 16, pt_deckel_abgewiesen = 0, pt_cspace_abgewiesen = 0\<rparr>"

definition call_user :: "ThreadId option \<Rightarrow> u32 \<Rightarrow> Pd" where
  "call_user th n = Pd_EMPTY\<lparr>pd_used := True, pd_domain := UserLand, pd_cap_budget := 2, pd_cspace_len := 3, pd_thread := th, pd_nthreads := n\<rparr>"

definition call_thread :: ThreadId where "call_thread = \<lparr>t_slot = 0, t_gen = 0\<rparr>"

definition call_t0 :: PdTable where "call_t0 = call_pd [Pd_EMPTY] 100000 0 [ThreadOwner_EMPTY] [None, None, None]"
definition call_t1 :: PdTable where "call_t1 = call_pd [call_user None 0] 99998 3 [ThreadOwner_EMPTY] [None, None, None]"
definition call_t2 :: PdTable where
  "call_t2 = call_pd [call_user (Some call_thread) 1] 99998 3 [\<lparr>to_tid = 0, to_pd1 = 1, to_epoch = 0\<rparr>] [None, None, None]"
definition call_t3 :: PdTable where
  "call_t3 = call_pd [call_user (Some call_thread) 1] 99998 3 [\<lparr>to_tid = 0, to_pd1 = 1, to_epoch = 0\<rparr>] [Some (sp 0), None, None]"
definition call_t4 :: PdTable where
  "call_t4 = call_pd [call_user (Some call_thread) 1] 99998 3 [\<lparr>to_tid = 0, to_pd1 = 1, to_epoch = 0\<rparr>] [Some (sp 0), Some (sp 1), None]"

lemmas call_tables = call_pd_def call_user_def call_thread_def call_t0_def call_t1_def call_t2_def call_t3_def call_t4_def Pd_EMPTY_def
  ThreadOwner_EMPTY_def CAP_BUDGET_PER_PD_def NCAPS_def STANDARD_PLAETZE_def pd_live_def

lemma call_create: "create_mit_budget_und_cspace call_t0 UserLand 2 3 = Some (call_t1, Inr 0)"
  by (simp add: call_tables create_mit_budget_und_cspace_def anforderung_aufloesen_def freien_slot_suchen_def belegen_def
      freilauf_suchen.simps [of _ _ _ _ 0 0] checked_add32_def pool_len_def modpd_def)

lemma call_bind: "bind_thread call_t1 0 call_thread = call_t2"
  by (simp add: call_tables bind_thread_def leave_pd_def Let_def modpd_def to_raw_def)

lemma call_allowed: "cap_allowed \<lparr>ca_cspace = scs1, ca_pds = call_t2\<rparr> 0 (sp 0) = Some True"
proof -
  have "cs_lookup scs1 (sp 0) = Some (Some (Memory sample_reg, Rights_RW, 0))" by (simp add: cap_eval sample_defs)
  then show ?thesis by (simp add: call_tables cap_allowed_def domain_of_def domain_allows_kind_def kind_is_hardware_def kind_is_pd_control_def kind_is_handler_def)
qed

lemma call_at: "cap_at call_t2 0 0 = None" "cap_count call_t2 0 = 0" "budget_of call_t2 0 = 2" "install_cap call_t2 0 0 (sp 0) = call_t3"
  "cap_at call_t3 0 0 = Some (sp 0)" "cap_at call_t3 0 1 = None" "cap_count call_t3 0 = 1" "budget_of call_t3 0 = 2"
  "cspace_len_von call_t3 0 = 3" "install_cap call_t3 0 1 (sp 1) = call_t4" "pd_of call_t3 call_thread = Some 0"
  by (simp_all add: call_tables cap_at_eq cap_count_def budget_of_def tget_def cspace_len_von_def install_cap_def set_cap_slot_def pd_of_def to_raw_def)

lemma call_install: "install_cap_checked \<lparr>ca_cspace = scs1, ca_pds = call_t2\<rparr> 0 0 (sp 0) = Some (\<lparr>ca_cspace = scs1, ca_pds = call_t3\<rparr>, True)"
  by (simp add: install_cap_checked_def call_allowed budget_allows_def call_at)

lemma call_reach: "reach dp_init dp_step (\<lparr>ca_cspace = scs1, ca_pds = call_t3\<rparr>, sample_al, rf)"
proof -
  have "pt_boot 1 3 1 = Some call_t0"
    by (simp add: call_tables pt_boot_def attach_cspace_pool_def pt_attach_def PdTable_new_def attach_owner_def CAP_SLOTS_FOR_ALL_PDS_def NPDS_def
        CAP_BUDGET_MAX_def Vergabe_neu_def numeral_3_eq_3)
  then have t0: "pt_init call_t0" unfolding pt_init_def by (intro exI [of _ 1] exI [of _ 3] exI [of _ 1]) auto
  have w: "no_wrap scs0 scs0" "no_wrap scs0 scs1" by (auto simp: no_wrap_def sample_defs less_Suc_eq CapSlot_EMPTY_def)
  have "dp_init (\<lparr>ca_cspace = scs0, ca_pds = call_t0\<rparr>, PhysAllocator_new, rf)" using t0 sample_init by (simp add: dp_init_def)
  then have 0: "reach dp_init dp_step (\<lparr>ca_cspace = scs0, ca_pds = call_t0\<rparr>, PhysAllocator_new, rf)" by (rule reach_init)
  have s: "sys_step (scs0, PhysAllocator_new) (scs0, sample_ram)" "sys_step (scs0, sample_ram) (scs1, sample_al)" by (rule sample_steps)+
  have 1: "reach dp_init dp_step (\<lparr>ca_cspace = scs0, ca_pds = call_t0\<rparr>, sample_ram, rf)"
    using reach_step [OF 0 dp_cap [of "\<lparr>ca_cspace = scs0, ca_pds = call_t0\<rparr>"]] s w by force
  have 2: "reach dp_init dp_step (\<lparr>ca_cspace = scs1, ca_pds = call_t0\<rparr>, sample_al, rf)"
    using reach_step [OF 1 dp_cap [of "\<lparr>ca_cspace = scs0, ca_pds = call_t0\<rparr>"]] s w by force
  have 3: "reach dp_init dp_step (\<lparr>ca_cspace = scs1, ca_pds = call_t1\<rparr>, sample_al, rf)"
    using reach_step [OF 2 dp_create [of "\<lparr>ca_cspace = scs1, ca_pds = call_t0\<rparr>"]] call_create by force
  have "pd_live call_t1 0" "pt_pool call_t2 = pt_pool call_t1" by (simp_all add: call_tables)
  then have 4: "reach dp_init dp_step (\<lparr>ca_cspace = scs1, ca_pds = call_t2\<rparr>, sample_al, rf)"
    using reach_step [OF 3 dp_table [of "\<lparr>ca_cspace = scs1, ca_pds = call_t1\<rparr>" call_t2]] pu_quiet [OF pu_bind [of call_t1 0 call_thread]] call_bind by force
  show ?thesis by (rule reach_step [OF 4 dp_install [OF call_install]])
qed

abbreviation (input) "call_caps \<equiv> \<lparr>ca_cspace = scs1, ca_pds = call_t3\<rparr>"

theorem domain_policy_kept_witness:
  "cap_count call_t3 0 \<le> budget_of call_t3 0 \<and> (\<exists>d. domain_of call_t3 0 = Some d \<and> domain_allows_kind d (Memory sample_reg))"
proof -
  have "cs_lookup scs1 (sp 0) = Some (Some (Memory sample_reg, Rights_RW, 0))" by (simp add: cap_eval sample_defs)
  then show ?thesis using domain_policy_kept [OF call_reach] call_at(5) by (metis (no_types) Caps.select_convs)
qed

lemma call_copy: "sys_slots [] alive CCOPY (call_caps, sample_al, rf) call_thread 0 1 1 0 = Some ((\<lparr>ca_cspace = scs2, ca_pds = call_t4\<rparr>, sample_al, rf), res_OK)"
proof -
  have l: "cs_lookup scs1 (sp 0) = Some (Some (Memory sample_reg, Rights_RW, 0))" by (simp add: cap_eval sample_defs)
  have r: "Rights_intersect (rights_from_bits 1) Rights_RW = Rights_READ" by code_simp
  have "cs_lookup scs2 (sp 1) = Some (Some (Memory sample_reg, Rights_READ, 0))" by (simp add: cap_eval sample_defs)
  then have "cap_allowed \<lparr>ca_cspace = scs2, ca_pds = call_t3\<rparr> 0 (sp 1) = Some True"
    by (simp add: call_tables cap_allowed_def domain_of_def domain_allows_kind_def kind_is_hardware_def kind_is_pd_control_def kind_is_handler_def)
  then have "install_derived \<lparr>ca_cspace = scs2, ca_pds = call_t3\<rparr> 0 1 (sp 1) = Some (\<lparr>ca_cspace = scs2, ca_pds = call_t4\<rparr>, None, res_OK)"
    by (simp add: install_derived_def install_cap_checked_def budget_allows_def call_at del: One_nat_def)
  then show ?thesis by (simp add: sys_slots_def slot_call_def sys_ccopy_def call_at l r budget_allows_def sample_copy del: One_nat_def)
qed

theorem copy_call_exact_witness:
  "\<exists>new. cap_at call_t4 0 1 = Some new \<and> (\<exists>k r b. cs_lookup scs2 new = Some (Some (k, Rights_intersect (rights_from_bits 1) r, b)))"
  using copy_call_exact [OF call_reach call_copy [of "\<lambda>_. True" "Finalized_new [] []"]] call_at(11) by auto

lemma call_refused: "sys_cdelete [Some (7, sp 0, 0, 0)] (\<lambda>_. True) (call_caps, sample_al, rf) call_thread 0 = Some ((call_caps, sample_al, rf), ERR_INUSE)"
proof -
  have "install_cap (clear_cap call_t3 0 0) 0 0 (sp 0) = call_t3" by (rule put_back [OF call_at(5)])
  then show ?thesis by (simp add: sys_cdelete_def call_at dispatch_delete_cap_def stack_cap_in_use_def)
qed

theorem refused_calls_change_nothing_witness:
  "\<exists>st code. sys_cdelete [Some (7, sp 0, 0, 0)] (\<lambda>_. True) (call_caps, sample_al, Finalized_new [] []) call_thread 0 = Some (st, code) \<and>
     code \<noteq> res_OK \<and> st = (call_caps, sample_al, Finalized_new [] [])"
proof -
  have "ERR_INUSE \<noteq> res_OK" by (simp add: ERR_INUSE_def res_OK_def)
  then show ?thesis using refused_calls_change_nothing [OF call_reach [of "Finalized_new [] []"]] call_refused by blast
qed


end
