(* ===== verification/PdSpawn.thy ===== *)
theory PdSpawn
  imports PdCalls
begin

text \<open>
  \<open>SYS_SPAWN\<close>: a second thread in the caller's own domain, on a stack the caller brings. The judgement on the
  proposed stack (\<open>caprock-cap/src/spawncheck.rs\<close>), the two kernel questions it rests on, the table of stack
  capabilities of living threads and the callback \<open>dispatch_spawn\<close> (\<open>kernel/src/system.rs\<close>), and the branch
  of the system call (\<open>caprock-microkit/src/lib.rs\<close>). What the scheduler answers (a parked thread or none,
  admitted or not, alive or not) is an argument.
\<close>

section \<open>The judgement\<close>



record SubRegion =
  sr_base :: u64
  sr_len :: u64


definition checked_mul :: "u64 \<Rightarrow> u64 \<Rightarrow> u64 option" where
  "checked_mul a b = (if unat a * unat b < 2 ^ 64 then Some (a * b) else None)"

definition SubRegion_overlaps :: "SubRegion \<Rightarrow> u64 \<Rightarrow> u64 \<Rightarrow> bool" where
  "SubRegion_overlaps r b l \<longleftrightarrow>
     (if sr_len r = 0 \<or> l = 0 then False
      else sr_base r < saturating_add64 b l \<and> b < saturating_add64 (sr_base r) (sr_len r))"



section \<open>The kernel's questions\<close>


text \<open>\<open>uregs\<close> are \<open>KSTACKS.ubase_of\<close> and \<open>ulen_of\<close>: the user regions booked by the kernel, by thread slot.\<close>

definition pd_mapping_overlaps :: "(u64 \<times> u64) list \<Rightarrow> PdTable \<Rightarrow> nat \<Rightarrow> u64 \<Rightarrow> u64 \<Rightarrow> bool" where
  "pd_mapping_overlaps uregs t pd b l \<longleftrightarrow>
     l = 0 \<or>
     list_ex (\<lambda>slot. let (b', l') = uregs ! slot in
        b' \<noteq> 0 \<and> l' \<noteq> 0 \<and> pd_of t (from_raw (of_nat slot)) = Some pd \<and>
        b < saturating_add64 b' l' \<and> b' < saturating_add64 b l) [0..<length uregs]"



section \<open>The system call\<close>








section \<open>Windows\<close>





lemma checked_mul_SomeD: "checked_mul a b = Some c \<Longrightarrow> unat c = unat a * unat b"
  by (auto simp: checked_mul_def unat_word_ariths split: if_splits)



section \<open>What a successful call shows\<close>


section \<open>The threads with stacks as a transition system\<close>


















section \<open>Properties\<close>



text \<open>
  The other overlap question asks for the thread with generation 0 of every slot: a region booked for a
  thread of a later generation is not seen, although the thread acts for the domain.
\<close>

lemma later_generation_unseen:
  assumes "pt_wf t" "pt_owner t \<noteq> []" "pd_of t th = Some pd" "t_gen th \<noteq> 0" "t_slot th < 2 ^ 32" "length uregs \<le> 2 ^ 32"
    and other: "\<forall>i<length uregs. i \<noteq> t_slot th \<longrightarrow> fst (uregs ! i) = 0" and l: "l \<noteq> 0"
  shows "\<not> pd_mapping_overlaps uregs t pd b l"
proof -
  have "pd_of t (from_raw (of_nat (t_slot th))) \<noteq> Some pd"
  proof
    let ?i = "t_slot th"
    let ?o = "\<lparr>t_slot = ?i, t_gen = 0\<rparr>"
    have raw: "(of_nat ?i :: u64) = to_raw ?o" by (simp add: to_raw_def)
    have f: "from_raw (of_nat ?i) = ?o" unfolding raw using assms(5) by (intro raw_roundtrip) simp
    assume "pd_of t (from_raw (of_nat ?i)) = Some pd"
    then have "to_raw ?o = to_raw th" using pd_of_iff [OF assms(1,2)] assms(3) unfolding f by auto
    then have "?o = th" using raw_roundtrip [of ?o] raw_roundtrip [OF assms(5)] assms(5) by simp
    then show False using assms(4) by (metis ThreadId.select_convs(2))
  qed
  then show ?thesis using l other by (auto simp: pd_mapping_overlaps_def list_ex_iff split: prod.splits)
qed

end
