(* ===== verification/PdSpawnSample.thy ===== *)
theory PdSpawnSample
  imports PdSpawn
begin




abbreviation (input) "nobody \<equiv> ThreadOwner_EMPTY"


definition sw_reg :: PhysRegion where "sw_reg = PhysRegion_new 0x100000 0x10000"

definition sw_space :: CapSpace where
  "sw_space = \<lparr>c_slots = [CapSlot_EMPTY\<lparr>s_used := True, s_rights := Rights_RW\<rparr>],
     c_objects = [Object_EMPTY\<lparr>o_used := True, o_kind := Memory sw_reg, o_refcount := 1\<rparr>, Object_EMPTY\<lparr>o_used := True, o_kind := Dma 0x110000 0x1000 DeviceRead Coherent\<rparr>],
     c_peak_slots = 1, c_peak_objects = 2, c_peak_cdt_walk = 0, c_peak_revoke_ops = 0, c_cdt_walk_overruns = 0\<rparr>"








abbreviation (input) "sw_caps t \<equiv> \<lparr>ca_cspace = sw_space, ca_pds = t\<rparr>"











end
