(* ===== verification/Wait.thy ===== *)
theory Wait
  imports Prelude
begin

text \<open>
  Waiting in user space (\<open>caprock-wait/src/lib.rs\<close>, \<open>timeout.rs\<close>): queues, mutexes, completions, timers,
  work queues and spin locks of the threads of one domain, over the two kernel calls of the trait \<open>Park\<close>.

  An operation returns the new object and, where it wakes threads, the list of threads it calls \<open>unpark\<close> for,
  in order. A step that ends in \<open>park\<close> returns \<open>Inr False\<close>, and this is its only branch that parks. In a
  loop around \<open>park\<close> the parameter \<open>env i\<close> is what the other threads do to the object during the \<open>i\<close>th park,
  \<open>clk i\<close> the \<open>i\<close>th reading of the clock and \<open>wake i\<close> the answer of the \<open>i\<close>th park with a deadline. Counters
  wrap as in a release build.
\<close>

section \<open>Queues of waiting threads\<close>

type_synonym Tid = u64

definition WARTEPLAETZE :: nat where "WARTEPLAETZE = 32"

record WaitQueue =
  wq_tids :: "Tid list"
  wq_n :: nat
  wq_abgewiesen :: u32

definition WaitQueue_new :: WaitQueue where
  "WaitQueue_new = \<lparr>wq_tids = replicate WARTEPLAETZE 0, wq_n = 0, wq_abgewiesen = 0\<rparr>"

definition wq_push :: "WaitQueue \<Rightarrow> Tid \<Rightarrow> WaitQueue \<times> bool" where
  "wq_push q t =
     (if wq_n q \<ge> WARTEPLAETZE then (q\<lparr>wq_abgewiesen := wq_abgewiesen q + 1\<rparr>, False)
      else (q\<lparr>wq_tids := (wq_tids q)[wq_n q := t], wq_n := wq_n q + 1\<rparr>, True))"

text \<open>\<open>copy_within(1..n, 0)\<close> moves the entries down and leaves the last one where it was.\<close>

definition wq_pop :: "WaitQueue \<Rightarrow> WaitQueue \<times> Tid option" where
  "wq_pop q =
     (if wq_n q = 0 then (q, None)
      else (q\<lparr>wq_tids := take (wq_n q - 1) (drop 1 (wq_tids q)) @ drop (wq_n q - 1) (wq_tids q), wq_n := wq_n q - 1\<rparr>,
            Some (wq_tids q ! 0)))"

definition wq_is_empty :: "WaitQueue \<Rightarrow> bool" where
  "wq_is_empty q \<longleftrightarrow> wq_n q = 0"

function wq_wake_all :: "WaitQueue \<Rightarrow> WaitQueue \<times> Tid list" where
  "wq_wake_all q =
     (case wq_pop q of
        (q1, None) \<Rightarrow> (q1, [])
      | (q1, Some t) \<Rightarrow> let (q2, ts) = wq_wake_all q1 in (q2, t # ts))"
  by pat_completeness auto
termination
  by (relation "measure wq_n") (auto simp: wq_pop_def split: if_splits)

declare wq_wake_all.simps [simp del]

definition wq_wake_one :: "WaitQueue \<Rightarrow> WaitQueue \<times> Tid list \<times> bool" where
  "wq_wake_one q = (case wq_pop q of (q1, Some t) \<Rightarrow> (q1, [t], True) | (q1, None) \<Rightarrow> (q1, [], False))"

definition wq_entfernen :: "WaitQueue \<Rightarrow> Tid \<Rightarrow> WaitQueue \<times> bool" where
  "wq_entfernen q t =
     (let (tids, rest, gefunden) =
        foldl (\<lambda>(tids, rest, gefunden) i.
            if tids ! i = t then (tids, rest, True) else (tids[rest := tids ! i], rest + 1, gefunden))
          (wq_tids q, 0, False) [0..<wq_n q]
      in (q\<lparr>wq_tids := tids, wq_n := rest\<rparr>, gefunden))"

section \<open>Mutexes\<close>

datatype LockError = KeinWarteplatz | SelbstDeadlock

record Mutex =
  mx_gesperrt :: bool
  mx_inhaber :: Tid
  mx_warten :: WaitQueue

definition Mutex_new :: Mutex where
  "Mutex_new = \<lparr>mx_gesperrt = False, mx_inhaber = 0, mx_warten = WaitQueue_new\<rparr>"

definition mx_try_lock :: "Mutex \<Rightarrow> Tid \<Rightarrow> Mutex \<times> bool" where
  "mx_try_lock m me = (if mx_gesperrt m then (m, False) else (m\<lparr>mx_gesperrt := True, mx_inhaber := me\<rparr>, True))"

definition mx_lock_schritt :: "Mutex \<Rightarrow> Tid \<Rightarrow> Mutex \<times> (LockError + bool)" where
  "mx_lock_schritt m me =
     (if mx_gesperrt m then
        if mx_inhaber m = me then (m, Inl SelbstDeadlock)
        else let (q, ok) = wq_push (mx_warten m) me; m1 = m\<lparr>mx_warten := q\<rparr> in
          if \<not> ok then (m1, Inl KeinWarteplatz) else (m1, Inr False)
      else (m\<lparr>mx_gesperrt := True, mx_inhaber := me\<rparr>, Inr True))"

partial_function (option) mx_lock :: "(nat \<Rightarrow> Mutex \<Rightarrow> Mutex) \<Rightarrow> nat \<Rightarrow> Mutex \<Rightarrow> Tid \<Rightarrow> (Mutex \<times> (LockError + unit)) option" where
  "mx_lock env i m me =
     (case mx_lock_schritt m me of
        (m1, Inl e) \<Rightarrow> Some (m1, Inl e)
      | (m1, Inr ok) \<Rightarrow> if ok then Some (m1, Inr ()) else mx_lock env (i + 1) (env i m1) me)"

definition mx_unlock :: "Mutex \<Rightarrow> Tid \<Rightarrow> Mutex \<times> Tid list \<times> bool" where
  "mx_unlock m me =
     (if \<not> mx_gesperrt m \<or> mx_inhaber m \<noteq> me then (m, [], False)
      else let (q, ts, _) = wq_wake_one (mx_warten m) in
        (m\<lparr>mx_gesperrt := False, mx_inhaber := 0, mx_warten := q\<rparr>, ts, True))"

section \<open>Completions\<close>

record Completion =
  cp_fertig :: u32
  cp_warten :: WaitQueue

definition Completion_new :: Completion where
  "Completion_new = \<lparr>cp_fertig = 0, cp_warten = WaitQueue_new\<rparr>"

definition sat_inc32 :: "u32 \<Rightarrow> u32" where
  "sat_inc32 x = (if x = - 1 then - 1 else x + 1)"

definition cp_complete :: "Completion \<Rightarrow> Completion \<times> Tid list" where
  "cp_complete c = (let (q, ts) = wq_wake_all (cp_warten c) in (c\<lparr>cp_fertig := sat_inc32 (cp_fertig c), cp_warten := q\<rparr>, ts))"

definition cp_warten_schritt :: "Completion \<Rightarrow> Tid \<Rightarrow> Completion \<times> (LockError + bool)" where
  "cp_warten_schritt c me =
     (if cp_fertig c > 0 then (c\<lparr>cp_fertig := cp_fertig c - 1\<rparr>, Inr True)
      else let (q, ok) = wq_push (cp_warten c) me; c1 = c\<lparr>cp_warten := q\<rparr> in
        if \<not> ok then (c1, Inl KeinWarteplatz) else (c1, Inr False))"

partial_function (option) cp_warten_loop :: "(nat \<Rightarrow> Completion \<Rightarrow> Completion) \<Rightarrow> nat \<Rightarrow> Completion \<Rightarrow> Tid \<Rightarrow> (Completion \<times> (LockError + unit)) option" where
  "cp_warten_loop env i c me =
     (case cp_warten_schritt c me of
        (c1, Inl e) \<Rightarrow> Some (c1, Inl e)
      | (c1, Inr ok) \<Rightarrow> if ok then Some (c1, Inr ()) else cp_warten_loop env (i + 1) (env i c1) me)"

section \<open>Time\<close>

definition msecs_to_jiffies :: "u64 \<Rightarrow> u64 \<Rightarrow> u64" where
  "msecs_to_jiffies ms hz = (if unat ms * unat hz < 2 ^ 64 then (ms * hz) div 1000 else - 1)"

definition sat_sub64 :: "u64 \<Rightarrow> u64 \<Rightarrow> u64" where
  "sat_sub64 a b = (if b \<le> a then a - b else 0)"

definition sleep_bis :: "u64 \<Rightarrow> u64 \<Rightarrow> u64" where
  "sleep_bis now ziel = sat_sub64 ziel now"

definition TIMERPLAETZE :: nat where "TIMERPLAETZE = 32"

record TimerEintrag =
  te_faellig :: u64
  te_tid :: Tid

record TimerWheel =
  tw_eintraege :: "TimerEintrag option list"
  tw_n :: nat

definition TimerWheel_new :: TimerWheel where
  "TimerWheel_new = \<lparr>tw_eintraege = replicate TIMERPLAETZE None, tw_n = 0\<rparr>"

definition tw_after :: "TimerWheel \<Rightarrow> u64 \<Rightarrow> u64 \<Rightarrow> Tid \<Rightarrow> TimerWheel \<times> bool" where
  "tw_after w now ticks tid =
     (if tw_n w \<ge> TIMERPLAETZE then (w, False)
      else (w\<lparr>tw_eintraege := (tw_eintraege w)[tw_n w := Some \<lparr>te_faellig = saturating_add64 now ticks, te_tid = tid\<rparr>], tw_n := tw_n w + 1\<rparr>, True))"

text \<open>
  The loop that \<open>expire\<close> and \<open>absagen\<close> share: entries that go are collected, the others move to the front, and
  the places behind them are cleared.
\<close>

definition tw_sieve :: "(TimerEintrag \<Rightarrow> bool) \<Rightarrow> TimerWheel \<Rightarrow> TimerWheel \<times> Tid list" where
  "tw_sieve geht w =
     (let (es, rest, ts) =
        foldl (\<lambda>(es, rest, ts) i. case es ! i of
            Some e \<Rightarrow> if geht e then (es, rest, ts @ [te_tid e]) else (es[rest := Some e], rest + 1, ts)
          | None \<Rightarrow> (es, rest, ts)) (tw_eintraege w, 0, []) [0..<tw_n w];
          es1 = foldl (\<lambda>es i. es[i := None]) es [rest..<tw_n w]
      in (\<lparr>tw_eintraege = es1, tw_n = rest\<rparr>, ts))"

definition tw_expire :: "TimerWheel \<Rightarrow> u64 \<Rightarrow> TimerWheel \<times> Tid list" where
  "tw_expire w now = tw_sieve (\<lambda>e. te_faellig e \<le> now) w"

definition tw_absagen :: "TimerWheel \<Rightarrow> Tid \<Rightarrow> TimerWheel \<times> bool" where
  "tw_absagen w tid = (let (w1, ts) = tw_sieve (\<lambda>e. te_tid e = tid) w in (w1, ts \<noteq> []))"

section \<open>Waiting for a condition\<close>

text \<open>The condition is read before every round: \<open>cond i\<close> is its value in round \<open>i\<close>.\<close>

partial_function (option) wait_event ::
  "(nat \<Rightarrow> WaitQueue \<Rightarrow> WaitQueue) \<Rightarrow> (nat \<Rightarrow> bool) \<Rightarrow> nat \<Rightarrow> WaitQueue \<Rightarrow> Tid \<Rightarrow> (WaitQueue \<times> (LockError + unit)) option" where
  "wait_event env cond i q me =
     (if cond i then Some (q, Inr ())
      else case wq_push q me of
        (q1, ok) \<Rightarrow> if \<not> ok then Some (q1, Inl KeinWarteplatz) else wait_event env cond (i + 1) (env i q1) me)"

text \<open>
  With a deadline. The result also lists the calls of \<open>park_timeout\<close>: the ticks and the queue at that moment.
  The \<open>i\<close>th round reads the clock as \<open>clk (i + 1)\<close>; \<open>clk 0\<close> is the reading before the loop.
\<close>

partial_function (option) wait_timeout_loop ::
  "(nat \<Rightarrow> WaitQueue \<Rightarrow> WaitQueue) \<Rightarrow> (nat \<Rightarrow> bool) \<Rightarrow> (nat \<Rightarrow> u64) \<Rightarrow> (nat \<Rightarrow> bool) \<Rightarrow> u64 \<Rightarrow> nat \<Rightarrow> WaitQueue \<Rightarrow> Tid
     \<Rightarrow> (WaitQueue \<times> (LockError + bool) \<times> (u64 \<times> WaitQueue) list) option" where
  "wait_timeout_loop env cond clk wake ende i q me =
     (if cond i then Some (q, Inr True, [])
      else let rest = sat_sub64 ende (clk (i + 1)) in
        if rest = 0 then Some (fst (wq_entfernen q me), Inr False, [])
        else case wq_push q me of
          (q1, ok) \<Rightarrow>
            if \<not> ok then Some (q1, Inl KeinWarteplatz, [])
            else let q2 = env i q1 in
              if \<not> wake i then Some (fst (wq_entfernen q2 me), Inr False, [(rest, q1)])
              else do { (q', r, ps) \<leftarrow> wait_timeout_loop env cond clk wake ende (i + 1) q2 me; Some (q', r, (rest, q1) # ps) })"

definition wait_event_timeout where
  "wait_event_timeout env cond clk wake q me ticks =
     wait_timeout_loop env cond clk wake (saturating_add64 (clk 0) ticks) 0 q me"

partial_function (option) warten_timeout_loop ::
  "(nat \<Rightarrow> Completion \<Rightarrow> Completion) \<Rightarrow> (nat \<Rightarrow> u64) \<Rightarrow> (nat \<Rightarrow> bool) \<Rightarrow> u64 \<Rightarrow> nat \<Rightarrow> Completion \<Rightarrow> Tid
     \<Rightarrow> (Completion \<times> (LockError + bool)) option" where
  "warten_timeout_loop env clk wake ende i c me =
     (if cp_fertig c > 0 then Some (c\<lparr>cp_fertig := cp_fertig c - 1\<rparr>, Inr True)
      else let rest = sat_sub64 ende (clk (i + 1)) in
        if rest = 0 then Some (c\<lparr>cp_warten := fst (wq_entfernen (cp_warten c) me)\<rparr>, Inr False)
        else case wq_push (cp_warten c) me of
          (q1, ok) \<Rightarrow>
            if \<not> ok then Some (c\<lparr>cp_warten := q1\<rparr>, Inl KeinWarteplatz)
            else let c1 = env i (c\<lparr>cp_warten := q1\<rparr>) in
              if \<not> wake i then Some (c1\<lparr>cp_warten := fst (wq_entfernen (cp_warten c1) me)\<rparr>, Inr False)
              else warten_timeout_loop env clk wake ende (i + 1) c1 me)"

definition cp_warten_timeout where
  "cp_warten_timeout env clk wake c me ticks = warten_timeout_loop env clk wake (saturating_add64 (clk 0) ticks) 0 c me"

text \<open>\<open>msleep\<close> ignores the answer of the park; the result lists the ticks it parks with.\<close>

partial_function (option) msleep_loop :: "(nat \<Rightarrow> u64) \<Rightarrow> u64 \<Rightarrow> nat \<Rightarrow> u64 list option" where
  "msleep_loop clk ende i =
     (let rest = sat_sub64 ende (clk (i + 1)) in
      if rest = 0 then Some [] else do { ps \<leftarrow> msleep_loop clk ende (i + 1); Some (rest # ps) })"

definition msleep :: "(nat \<Rightarrow> u64) \<Rightarrow> u64 \<Rightarrow> u64 \<Rightarrow> u64 list option" where
  "msleep clk hz ms = msleep_loop clk (saturating_add64 (clk 0) (msecs_to_jiffies ms hz)) 0"

section \<open>Work queues\<close>

type_synonym JobId = u64

definition FLUSH_MARKE :: JobId where "FLUSH_MARKE = - 1"

record Workqueue =
  wk_q :: WaitQueue

definition Workqueue_new :: Workqueue where "Workqueue_new = \<lparr>wk_q = WaitQueue_new\<rparr>"

definition wk_queue :: "Workqueue \<Rightarrow> JobId \<Rightarrow> Workqueue \<times> (LockError + unit)" where
  "wk_queue w job = (let (q, ok) = wq_push (wk_q w) job in (\<lparr>wk_q = q\<rparr>, if \<not> ok then Inl KeinWarteplatz else Inr ()))"

text \<open>The job that \<open>f\<close> is called with, and whether there was one.\<close>

definition wk_run_ein_job :: "Workqueue \<Rightarrow> Workqueue \<times> JobId option" where
  "wk_run_ein_job w = (let (q, j) = wq_pop (wk_q w) in (\<lparr>wk_q = q\<rparr>, j))"

definition wk_flush :: "Workqueue \<Rightarrow> bool" where
  "wk_flush w \<longleftrightarrow> wq_is_empty (wk_q w)"

text \<open>The loop that drains the queue: jobs run in order, the marker completes.\<close>

function wk_drain :: "WaitQueue \<Rightarrow> Completion \<Rightarrow> WaitQueue \<times> Completion \<times> JobId list" where
  "wk_drain q c =
     (case wq_pop q of
        (q1, None) \<Rightarrow> (q1, c, [])
      | (q1, Some job) \<Rightarrow>
          if job = FLUSH_MARKE then wk_drain q1 (fst (cp_complete c))
          else let (q2, c2, js) = wk_drain q1 c in (q2, c2, job # js))"
  by pat_completeness auto
termination
  by (relation "measure (\<lambda>(q, _). wq_n q)") (auto simp: wq_pop_def split: if_splits)

declare wk_drain.simps [simp del]

definition wk_flush_blockierend ::
  "(nat \<Rightarrow> Completion \<Rightarrow> Completion) \<Rightarrow> Workqueue \<Rightarrow> Tid \<Rightarrow> (Workqueue \<times> JobId list \<times> (LockError + unit)) option" where
  "wk_flush_blockierend env w me =
     (if wq_is_empty (wk_q w) then Some (w, [], Inr ())
      else case wk_queue w FLUSH_MARKE of
        (w1, Inl e) \<Rightarrow> Some (w1, [], Inl e)
      | (w1, Inr _) \<Rightarrow>
          let (q, c, js) = wk_drain (wk_q w1) Completion_new in
          map_option (\<lambda>(_, r). (\<lparr>wk_q = q\<rparr>, js, r)) (cp_warten_loop env 0 c me))"

section \<open>Spin locks and kernel threads\<close>

text \<open>The counter of the trait \<open>Preempt\<close> goes along; at a park it has the value that is returned.\<close>

record Spinlock =
  sl_locked :: bool
  sl_inhaber :: Tid
  sl_wartend :: WaitQueue

definition Spinlock_new :: Spinlock where
  "Spinlock_new = \<lparr>sl_locked = False, sl_inhaber = 0, sl_wartend = WaitQueue_new\<rparr>"

definition sl_try_lock :: "Spinlock \<Rightarrow> Tid \<Rightarrow> int \<Rightarrow> Spinlock \<times> int \<times> bool" where
  "sl_try_lock s me gatter =
     (let g1 = gatter + 1 in
      if sl_locked s then (s, g1 - 1, False) else (s\<lparr>sl_locked := True, sl_inhaber := me\<rparr>, g1, True))"

definition sl_lock_schritt :: "Spinlock \<Rightarrow> Tid \<Rightarrow> int \<Rightarrow> Spinlock \<times> int \<times> (LockError + bool)" where
  "sl_lock_schritt s me gatter =
     (let g1 = gatter + 1 in
      if sl_locked s then
        if sl_inhaber s = me then (s, g1 - 1, Inl SelbstDeadlock)
        else let (q, ok) = wq_push (sl_wartend s) me; s1 = s\<lparr>sl_wartend := q\<rparr> in
          if \<not> ok then (s1, g1 - 1, Inl KeinWarteplatz) else (s1, g1 - 1, Inr False)
      else (s\<lparr>sl_locked := True, sl_inhaber := me\<rparr>, g1, Inr True))"

partial_function (option) sl_lock :: "(nat \<Rightarrow> Spinlock \<Rightarrow> Spinlock) \<Rightarrow> nat \<Rightarrow> Spinlock \<Rightarrow> Tid \<Rightarrow> int \<Rightarrow> (Spinlock \<times> int \<times> (LockError + unit)) option" where
  "sl_lock env i s me gatter =
     (case sl_lock_schritt s me gatter of
        (s1, g1, Inl e) \<Rightarrow> Some (s1, g1, Inl e)
      | (s1, g1, Inr ok) \<Rightarrow> if ok then Some (s1, g1, Inr ()) else sl_lock env (i + 1) (env i s1) me g1)"

definition sl_unlock :: "Spinlock \<Rightarrow> Tid \<Rightarrow> int \<Rightarrow> Spinlock \<times> int \<times> Tid list \<times> bool" where
  "sl_unlock s me gatter =
     (if \<not> sl_locked s \<or> sl_inhaber s \<noteq> me then (s, gatter, [], False)
      else let (q, ts, _) = wq_wake_one (sl_wartend s) in
        (s\<lparr>sl_locked := False, sl_inhaber := 0, sl_wartend := q\<rparr>, gatter - 1, ts, True))"

record Kthread =
  kt_tid :: Tid
  kt_stop :: bool

definition kt_run :: "Tid \<Rightarrow> Kthread" where "kt_run tid = \<lparr>kt_tid = tid, kt_stop = False\<rparr>"

definition kt_do_stop :: "Kthread \<Rightarrow> Kthread \<times> Tid list" where
  "kt_do_stop k = (k\<lparr>kt_stop := True\<rparr>, [kt_tid k])"

end
