(* ===== verification/WaitLists.thy ===== *)
theory WaitLists
  imports Wait
begin

text \<open>
  Queues, timers and work queues of \<open>Wait\<close> as lists: the compaction loops are filters, a wake-up of all empties
  the queue in order, the timer wheel serves exactly what is due, and flushing a work queue runs every job.
\<close>

section \<open>The queue as a list\<close>

definition wq_wf :: "WaitQueue \<Rightarrow> bool" where
  "wq_wf q \<longleftrightarrow> length (wq_tids q) = WARTEPLAETZE \<and> wq_n q \<le> WARTEPLAETZE"

definition wq_list :: "WaitQueue \<Rightarrow> Tid list" where
  "wq_list q = take (wq_n q) (wq_tids q)"

lemma wq_new [simp]: "wq_wf WaitQueue_new" "wq_list WaitQueue_new = []"
  by (simp_all add: wq_wf_def wq_list_def WaitQueue_new_def)

lemma wq_list_length: "wq_wf q \<Longrightarrow> length (wq_list q) = wq_n q"
  by (simp add: wq_wf_def wq_list_def)

lemma wq_push_room:
  assumes "wq_wf q" "length (wq_list q) < 32"
  shows "\<exists>q'. wq_push q t = (q', True) \<and> wq_wf q' \<and> wq_list q' = wq_list q @ [t]"
  using assms by (auto simp: wq_push_def wq_list_def wq_wf_def WARTEPLAETZE_def take_Suc_conv_app_nth)

lemma wq_push_full:
  assumes "wq_wf q" "32 \<le> length (wq_list q)"
  shows "\<exists>q'. wq_push q t = (q', False) \<and> wq_wf q' \<and> wq_list q' = wq_list q"
  using assms by (auto simp: wq_push_def wq_list_def wq_wf_def WARTEPLAETZE_def)

lemma wq_push_cases:
  assumes "wq_wf q" "wq_push q t = (q', ok)"
  shows "wq_wf q'" "ok \<longleftrightarrow> length (wq_list q) < 32" "wq_list q' = (if ok then wq_list q @ [t] else wq_list q)"
proof -
  consider "length (wq_list q) < 32" | "32 \<le> length (wq_list q)" by linarith
  then have "wq_wf q' \<and> (ok \<longleftrightarrow> length (wq_list q) < 32) \<and> wq_list q' = (if ok then wq_list q @ [t] else wq_list q)"
    by cases (use wq_push_room [OF assms(1), of t] wq_push_full [OF assms(1), of t] assms(2) in auto)
  then show "wq_wf q'" "ok \<longleftrightarrow> length (wq_list q) < 32" "wq_list q' = (if ok then wq_list q @ [t] else wq_list q)" by blast+
qed

lemma wq_pop_Nil: "wq_list q = [] \<Longrightarrow> wq_wf q \<Longrightarrow> wq_pop q = (q, None)"
  by (auto simp: wq_pop_def wq_list_def wq_wf_def WARTEPLAETZE_def)

lemma wq_pop_Cons:
  assumes "wq_wf q" "wq_list q = x # xs"
  shows "\<exists>q'. wq_pop q = (q', Some x) \<and> wq_wf q' \<and> wq_list q' = xs"
proof -
  obtain a as where ts: "wq_tids q = a # as" using assms by (cases "wq_tids q") (auto simp: wq_list_def)
  obtain n where n: "wq_n q = Suc n" using assms(2) by (cases "wq_n q") (auto simp: wq_list_def)
  have l: "n \<le> length as" "Suc (length as) = WARTEPLAETZE" "Suc n \<le> WARTEPLAETZE" using assms(1) by (simp_all add: wq_wf_def ts n)
  have "a = x" "take n as = xs" using assms(2) by (simp_all add: wq_list_def ts n)
  then show ?thesis using l by (auto simp: wq_pop_def n ts wq_wf_def wq_list_def min_absorb2)
qed

lemma wq_wake_all_list: "wq_wf q \<Longrightarrow> \<exists>q'. wq_wake_all q = (q', wq_list q) \<and> wq_wf q' \<and> wq_list q' = []"
proof (induction "wq_list q" arbitrary: q)
  case Nil
  then show ?case by (subst wq_wake_all.simps) (simp add: wq_pop_Nil)
next
  case (Cons x xs)
  obtain q1 where q1: "wq_pop q = (q1, Some x)" "wq_wf q1" "wq_list q1 = xs" using wq_pop_Cons [OF Cons.prems Cons.hyps(2) [symmetric]] by blast
  obtain q2 where "wq_wake_all q1 = (q2, xs)" "wq_wf q2" "wq_list q2 = []" using Cons.hyps(1) [OF q1(3) [symmetric] q1(2)] q1(3) by auto
  then show ?case using q1(1) Cons.hyps(2) [symmetric] by (subst wq_wake_all.simps) simp
qed

text \<open>One loop that moves the entries to keep to the front, of which both compactions are instances.\<close>

lemma compaction:
  fixes xs :: "'a list"
  assumes "n \<le> length xs" "i \<le> n"
  shows "\<exists>ys r. foldl (\<lambda>(ys, r, a) i. if geht (ys ! i) then (ys, r, f a (ys ! i)) else (ys[r := ys ! i], r + 1, a)) (xs, 0, a) [0..<i] =
      (ys, r, foldl f a (filter geht (take i xs))) \<and>
    length ys = length xs \<and> r \<le> i \<and> take r ys = filter (\<lambda>x. \<not> geht x) (take i xs) \<and> drop i ys = drop i xs"
  using assms(2)
proof (induction i)
  case (Suc i)
  obtain ys r where I: "foldl (\<lambda>(ys, r, a) i. if geht (ys ! i) then (ys, r, f a (ys ! i)) else (ys[r := ys ! i], r + 1, a)) (xs, 0, a) [0..<i] =
      (ys, r, foldl f a (filter geht (take i xs)))" "length ys = length xs" "r \<le> i"
    "take r ys = filter (\<lambda>x. \<not> geht x) (take i xs)" "drop i ys = drop i xs" using Suc by auto
  have i: "i < length xs" using Suc.prems assms(1) by simp
  have at: "ys ! i = xs ! i" using I(2,5) i by (metis hd_drop_conv_nth)
  have t: "take (Suc i) xs = take i xs @ [xs ! i]" using i by (rule take_Suc_conv_app_nth)
  have d: "drop (Suc i) ys = drop (Suc i) xs" using I(5) by (metis drop_Suc drop_tl)
  show ?case
  proof (cases "geht (xs ! i)")
    case True
    then show ?thesis using I at t d by (intro exI [of _ ys] exI [of _ r]) simp
  next
    case False
    have "take (Suc r) (ys[r := xs ! i]) = take r ys @ [xs ! i]" using I(2,3) i by (simp add: take_Suc_conv_app_nth)
    then show ?thesis using False I at t d by (intro exI [of _ "ys[r := xs ! i]"] exI [of _ "Suc r"]) simp
  qed
qed simp

lemma wq_entfernen_list:
  assumes "wq_wf q"
  shows "\<exists>q'. wq_entfernen q t = (q', t \<in> set (wq_list q)) \<and> wq_wf q' \<and> wq_list q' = filter (\<lambda>x. x \<noteq> t) (wq_list q)"
proof -
  have n: "wq_n q \<le> length (wq_tids q)" using assms by (simp add: wq_wf_def)
  obtain ys r where c: "foldl (\<lambda>(ys, r, a) i. if ys ! i = t then (ys, r, True) else (ys[r := ys ! i], r + 1, a)) (wq_tids q, 0, False) [0..<wq_n q] =
      (ys, r, foldl (\<lambda>_ _. True) False (filter (\<lambda>x. x = t) (wq_list q)))"
    "length ys = length (wq_tids q)" "r \<le> wq_n q" "take r ys = filter (\<lambda>x. x \<noteq> t) (wq_list q)"
    using compaction [OF n order_refl, where geht = "\<lambda>x. x = t" and f = "\<lambda>_ _. True" and a = False] unfolding wq_list_def by auto
  have "foldl (\<lambda>_ _. True) False zs = (zs \<noteq> [])" for zs :: "Tid list" by (induction zs rule: rev_induct) auto
  then have f: "foldl (\<lambda>_ _. True) False (filter (\<lambda>x. x = t) (wq_list q)) = (t \<in> set (wq_list q))" by (auto simp: filter_empty_conv)
  show ?thesis using c assms unfolding f by (auto simp: wq_entfernen_def wq_wf_def wq_list_def)
qed

section \<open>The timer wheel as a list\<close>

definition tw_wf :: "TimerWheel \<Rightarrow> bool" where
  "tw_wf w \<longleftrightarrow> length (tw_eintraege w) = TIMERPLAETZE \<and> tw_n w \<le> TIMERPLAETZE \<and> (\<forall>e\<in>set (take (tw_n w) (tw_eintraege w)). e \<noteq> None)"

definition tw_list :: "TimerWheel \<Rightarrow> TimerEintrag list" where
  "tw_list w = map the (take (tw_n w) (tw_eintraege w))"

lemma tw_new [simp]: "tw_wf TimerWheel_new" "tw_list TimerWheel_new = []"
  by (simp_all add: tw_wf_def tw_list_def TimerWheel_new_def)

lemma tw_sieve_list:
  assumes "tw_wf w"
  shows "\<exists>w'. tw_sieve geht w = (w', map te_tid (filter geht (tw_list w))) \<and> tw_wf w' \<and> tw_list w' = filter (\<lambda>e. \<not> geht e) (tw_list w)"
proof -
  let ?g = "\<lambda>x. geht (the x)" and ?n = "tw_n w" and ?es = "tw_eintraege w"
  have n: "?n \<le> length ?es" using assms by (simp add: tw_wf_def)
  have some: "x \<noteq> None" if "x \<in> set (take ?n ?es)" for x using that assms by (auto simp: tw_wf_def)
  obtain ys r where c: "foldl (\<lambda>(ys, r, a) i. if ?g (ys ! i) then (ys, r, a @ [te_tid (the (ys ! i))]) else (ys[r := ys ! i], r + 1, a)) (?es, 0, []) [0..<?n] =
      (ys, r, foldl (\<lambda>a x. a @ [te_tid (the x)]) [] (filter ?g (take ?n ?es)))"
    "length ys = length ?es" "r \<le> ?n" "take r ys = filter (\<lambda>x. \<not> ?g x) (take ?n ?es)" "drop ?n ys = drop ?n ?es"
    using compaction [OF n order_refl, where geht = ?g and f = "\<lambda>a x. a @ [te_tid (the x)]" and a = "[]"] by auto
  have eq: "foldl (\<lambda>(es, rest, ts) i. case es ! i of
            Some e \<Rightarrow> if geht e then (es, rest, ts @ [te_tid e]) else (es[rest := Some e], rest + 1, ts)
          | None \<Rightarrow> (es, rest, ts)) (?es, 0, []) [0..<i] =
     foldl (\<lambda>(ys, r, a) i. if ?g (ys ! i) then (ys, r, a @ [te_tid (the (ys ! i))]) else (ys[r := ys ! i], r + 1, a)) (?es, 0, []) [0..<i]"
    if "i \<le> ?n" for i using that
  proof (induction i)
    case (Suc i)
    obtain ys r where k: "foldl (\<lambda>(ys, r, a) i. if ?g (ys ! i) then (ys, r, a @ [te_tid (the (ys ! i))]) else (ys[r := ys ! i], r + 1, a)) (?es, 0, []) [0..<i] =
        (ys, r, foldl (\<lambda>a x. a @ [te_tid (the x)]) [] (filter ?g (take i ?es)))" "length ys = length ?es" "drop i ys = drop i ?es"
      using compaction [OF n, of i, where geht = ?g and f = "\<lambda>a x. a @ [te_tid (the x)]" and a = "[]"] Suc.prems by auto
    have "ys ! i = ?es ! i" using k(2,3) Suc.prems n by (metis Suc_le_lessD hd_drop_conv_nth order_less_le_trans)
    moreover have "?es ! i \<in> set (take ?n ?es)" using Suc.prems n by (auto simp: in_set_conv_nth intro!: exI [of _ i])
    ultimately obtain e where "ys ! i = Some e" using some by fastforce
    then show ?case using Suc k(1) by simp
  qed simp
  have a: "foldl (\<lambda>a x. a @ [te_tid (the x)]) b xs = b @ map (\<lambda>x. te_tid (the x)) xs" for b and xs :: "TimerEintrag option list"
    by (induction xs arbitrary: b) auto
  have cl: "take r (foldl (\<lambda>es i. es[i := None]) zs [r..<m]) = take r zs \<and> length (foldl (\<lambda>es i. es[i := None]) zs [r..<m]) = length zs" for zs :: "TimerEintrag option list" and m
    by (induction m) auto
  define es1 where "es1 = foldl (\<lambda>es i. es[i := None]) ys [r..<?n]"
  have s: "tw_sieve geht w = (\<lparr>tw_eintraege = es1, tw_n = r\<rparr>, map (\<lambda>x. te_tid (the x)) (filter ?g (take ?n ?es)))"
    unfolding tw_sieve_def eq [OF order_refl] c(1) a by (simp add: es1_def)
  have t: "take r es1 = filter (\<lambda>x. \<not> ?g x) (take ?n ?es)" "length es1 = length ?es" using cl [of ys ?n] c(2,4) by (simp_all add: es1_def)
  have "map (\<lambda>x. te_tid (the x)) (filter ?g xs) = map te_tid (filter geht (map the xs))" "map the (filter (\<lambda>x. \<not> ?g x) xs) = filter (\<lambda>e. \<not> geht e) (map the xs)" for xs
    by (induction xs) auto
  then show ?thesis using s t assms c(3) by (auto simp: tw_wf_def tw_list_def dest: in_set_takeD)
qed

section \<open>Draining a work queue\<close>

lemma sat_inc32_pos: "0 < sat_inc32 x"
proof -
  have "x + 1 \<noteq> 0" if "x \<noteq> - 1" using that by (metis add_eq_0_iff2)
  then show ?thesis by (simp add: sat_inc32_def word_gt_0)
qed

lemma cp_complete_quiet:
  assumes "wq_wf (cp_warten c)" "wq_list (cp_warten c) = []"
  shows "cp_complete c = (c\<lparr>cp_fertig := sat_inc32 (cp_fertig c)\<rparr>, [])"
  using assms by (subst cp_complete_def, subst wq_wake_all.simps) (simp add: wq_pop_Nil)

lemma wk_drain_list:
  assumes "wq_wf q" "wq_wf (cp_warten c)" "wq_list (cp_warten c) = []"
  shows "\<exists>q' c'. wk_drain q c = (q', c', filter (\<lambda>j. j \<noteq> FLUSH_MARKE) (wq_list q)) \<and> wq_wf q' \<and> wq_list q' = [] \<and>
    (FLUSH_MARKE \<in> set (wq_list q) \<or> 0 < cp_fertig c \<longrightarrow> 0 < cp_fertig c')"
  using assms
proof (induction "wq_list q" arbitrary: q c)
  case Nil
  then show ?case by (subst wk_drain.simps) (simp add: wq_pop_Nil)
next
  case (Cons x xs)
  obtain q1 where q1: "wq_pop q = (q1, Some x)" "wq_wf q1" "wq_list q1 = xs" using wq_pop_Cons [OF Cons.prems(1) Cons.hyps(2) [symmetric]] by blast
  let ?c = "if x = FLUSH_MARKE then c\<lparr>cp_fertig := sat_inc32 (cp_fertig c)\<rparr> else c"
  have "wq_wf (cp_warten ?c)" "wq_list (cp_warten ?c) = []" using Cons.prems by simp_all
  from Cons.hyps(1) [OF q1(3) [symmetric] q1(2) this]
  obtain q2 c2 where r: "wk_drain q1 ?c = (q2, c2, filter (\<lambda>j. j \<noteq> FLUSH_MARKE) xs)" "wq_wf q2" "wq_list q2 = []"
    "FLUSH_MARKE \<in> set xs \<or> 0 < cp_fertig ?c \<longrightarrow> 0 < cp_fertig c2" using q1(3) by auto
  show ?case using r q1(1) Cons.hyps(2) [symmetric] Cons.prems cp_complete_quiet sat_inc32_pos
    by (cases "x = FLUSH_MARKE") (auto simp: wk_drain.simps [of q])
qed

lemma cp_warten_ready: "0 < cp_fertig c \<Longrightarrow> cp_warten_loop env i c me = Some (c\<lparr>cp_fertig := cp_fertig c - 1\<rparr>, Inr ())"
  by (simp add: cp_warten_loop.simps cp_warten_schritt_def)

section \<open>The gate of a spin lock\<close>

text \<open>The gate is raised exactly by taking the lock and lowered exactly by giving it back; a park has it as it was.\<close>

lemma spin_gate:
  "sl_lock_schritt s me g = (s1, g1, r) \<Longrightarrow> g1 = (if r = Inr True then g + 1 else g)"
  "sl_try_lock s me g = (s1, g1, ok) \<Longrightarrow> g1 = (if ok then g + 1 else g)"
  "sl_unlock s me g = (s1, g1, ts, ok) \<Longrightarrow> g1 = (if ok then g - 1 else g)"
  by (auto simp: sl_lock_schritt_def sl_try_lock_def sl_unlock_def Let_def split: if_splits prod.splits)

section \<open>Properties\<close>

text \<open>
  Flushing a work queue always returns, whatever other threads do, and never parks: an empty queue is left
  alone, a full one is refused and no job runs, and otherwise exactly the queued jobs run, each once and in
  the order they were queued, and the queue is empty. Only a job with the reserved number would be skipped.
\<close>

theorem flush_runs_all:
  assumes "wq_wf (wk_q w)"
  shows "\<exists>w' js r. wk_flush_blockierend env w me = Some (w', js, r) \<and> wq_wf (wk_q w') \<and>
    (if length (wq_list (wk_q w)) = 32 then js = [] \<and> r = Inl KeinWarteplatz \<and> wq_list (wk_q w') = wq_list (wk_q w)
     else js = filter (\<lambda>j. j \<noteq> FLUSH_MARKE) (wq_list (wk_q w)) \<and> r = Inr () \<and> wq_list (wk_q w') = [])"
proof -
  have len: "length (wq_list (wk_q w)) \<le> 32" using assms by (simp add: wq_list_length) (simp add: wq_wf_def WARTEPLAETZE_def)
  obtain q ok where p: "wq_push (wk_q w) FLUSH_MARKE = (q, ok)" by force
  note P = wq_push_cases [OF assms p]
  consider (empty) "wq_list (wk_q w) = []" | (full) "length (wq_list (wk_q w)) = 32" | (some) "wq_list (wk_q w) \<noteq> []" "length (wq_list (wk_q w)) < 32"
    using len by fastforce
  then show ?thesis
  proof cases
    case empty
    then have "wq_n (wk_q w) = 0" using wq_list_length [OF assms] by simp
    then show ?thesis using empty assms by (simp add: wk_flush_blockierend_def wq_is_empty_def)
  next
    case full
    then have "wq_n (wk_q w) \<noteq> 0" using wq_list_length [OF assms] by simp
    then show ?thesis using full P p by (simp add: wk_flush_blockierend_def wq_is_empty_def wk_queue_def)
  next
    case some
    then have n: "wq_n (wk_q w) \<noteq> 0" using wq_list_length [OF assms] by (metis length_0_conv)
    have q: "ok" "wq_wf q" "wq_list q = wq_list (wk_q w) @ [FLUSH_MARKE]" using P some by simp_all
    obtain q' c' where d: "wk_drain q Completion_new = (q', c', filter (\<lambda>j. j \<noteq> FLUSH_MARKE) (wq_list q))" "wq_wf q'" "wq_list q' = []" "0 < cp_fertig c'"
      using wk_drain_list [OF q(2), of Completion_new] q(3) by (auto simp: Completion_new_def)
    show ?thesis using n some p q d by (simp add: wk_flush_blockierend_def wq_is_empty_def wk_queue_def cp_warten_ready)
  qed
qed

text \<open>
  The timer wheel serves exactly what is due: \<open>expire\<close> wakes the threads of the due entries in the order
  they were entered and keeps the others in their order, \<open>absagen\<close> removes exactly the entries of one thread
  and wakes nobody, and \<open>after\<close> refuses exactly when 32 entries are armed, with a due time that saturates.
\<close>

theorem timer_wheel_exact:
  assumes "tw_wf w"
  shows "\<exists>w1 w2. tw_expire w now = (w1, map te_tid (filter (\<lambda>e. te_faellig e \<le> now) (tw_list w))) \<and>
      tw_wf w1 \<and> tw_list w1 = filter (\<lambda>e. now < te_faellig e) (tw_list w) \<and>
      tw_absagen w tid = (w2, tid \<in> te_tid ` set (tw_list w)) \<and> tw_wf w2 \<and> tw_list w2 = filter (\<lambda>e. te_tid e \<noteq> tid) (tw_list w) \<and>
      (if length (tw_list w) = 32 then tw_after w now ticks tid = (w, False)
       else snd (tw_after w now ticks tid) \<and> tw_wf (fst (tw_after w now ticks tid)) \<and>
         tw_list (fst (tw_after w now ticks tid)) = tw_list w @ [\<lparr>te_faellig = saturating_add64 now ticks, te_tid = tid\<rparr>])"
proof -
  obtain w1 where 1: "tw_expire w now = (w1, map te_tid (filter (\<lambda>e. te_faellig e \<le> now) (tw_list w)))" "tw_wf w1"
    "tw_list w1 = filter (\<lambda>e. \<not> te_faellig e \<le> now) (tw_list w)" using tw_sieve_list [OF assms] unfolding tw_expire_def by blast
  obtain w2 where 2: "tw_sieve (\<lambda>e. te_tid e = tid) w = (w2, map te_tid (filter (\<lambda>e. te_tid e = tid) (tw_list w)))" "tw_wf w2"
    "tw_list w2 = filter (\<lambda>e. te_tid e \<noteq> tid) (tw_list w)" using tw_sieve_list [OF assms] by blast
  have "(map te_tid (filter (\<lambda>e. te_tid e = tid) (tw_list w)) \<noteq> []) = (tid \<in> te_tid ` set (tw_list w))" by (auto simp: filter_empty_conv)
  then have 3: "tw_absagen w tid = (w2, tid \<in> te_tid ` set (tw_list w))" by (simp add: tw_absagen_def 2(1))
  have l: "length (tw_list w) = tw_n w" "tw_n w \<le> 32" "length (tw_eintraege w) = 32" using assms by (simp_all add: tw_wf_def tw_list_def TIMERPLAETZE_def)
  have "if length (tw_list w) = 32 then tw_after w now ticks tid = (w, False)
       else snd (tw_after w now ticks tid) \<and> tw_wf (fst (tw_after w now ticks tid)) \<and>
         tw_list (fst (tw_after w now ticks tid)) = tw_list w @ [\<lparr>te_faellig = saturating_add64 now ticks, te_tid = tid\<rparr>]"
    using l assms by (auto simp: tw_after_def tw_wf_def tw_list_def TIMERPLAETZE_def take_Suc_conv_app_nth)
  then show ?thesis using 1 2(2,3) 3 by (intro exI [of _ w1] exI [of _ w2]) (simp add: not_le)
qed

end
