(* ===== verification/WaitSync.thy ===== *)
theory WaitSync
  imports WaitLists
begin

text \<open>
  Threads that wait on a completion or a mutex, interleaved. A step of the library runs as a whole up to its
  \<open>park\<close> (the objects are reached through \<open>&mut\<close>); the park is a step of its own, so that a wake-up may fall
  between entering the queue and falling asleep. The kernel side is the contract of the trait \<open>Park\<close>: one
  mark per thread, as \<open>park_current\<close> and \<open>unpark\<close> of the scheduler keep it.
\<close>

section \<open>Marks\<close>

record Kern =
  k_mark :: "Tid set"
  k_asleep :: "Tid set"

definition park :: "Kern \<Rightarrow> Tid \<Rightarrow> Kern" where
  "park k t = (if t \<in> k_mark k then k\<lparr>k_mark := k_mark k - {t}\<rparr> else k\<lparr>k_asleep := insert t (k_asleep k)\<rparr>)"

definition k_unpark :: "Kern \<Rightarrow> Tid \<Rightarrow> Kern" where
  "k_unpark k t = (if t \<in> k_asleep k then k\<lparr>k_asleep := k_asleep k - {t}\<rparr> else k\<lparr>k_mark := insert t (k_mark k)\<rparr>)"

lemma unpark_all:
  "k_asleep (foldl k_unpark k ts) = k_asleep k - set ts"
  "k_mark k \<subseteq> k_mark (foldl k_unpark k ts)"
  "t \<in> set ts \<Longrightarrow> t \<notin> k_asleep k \<Longrightarrow> t \<in> k_mark (foldl k_unpark k ts)"
proof (induction ts arbitrary: k)
  case (Cons a ts)
  { case 1 then show ?case using Cons(1) [of "k_unpark k a"] by (auto simp: k_unpark_def) }
  { case 2 then show ?case using Cons(2) [of "k_unpark k a"] by (auto simp: k_unpark_def split: if_splits) }
  { case 3 then show ?case using Cons(2,3) [of "k_unpark k a"] by (cases "t = a") (auto simp: k_unpark_def split: if_splits) }
qed auto

text \<open>Where a thread is: outside, about to take a step, between the queue and the park, parked, or holding the lock.\<close>

datatype Pc = Out | Check | ToPark | Parked | Hold

section \<open>A completion\<close>

text \<open>The number of completions and of waits that returned go along as ghosts.\<close>

record cp_sys =
  cs_c :: Completion
  cs_k :: Kern
  cs_pc :: "Tid \<Rightarrow> Pc"
  cs_done :: nat
  cs_taken :: nat

definition cw_init :: "cp_sys \<Rightarrow> bool" where
  "cw_init s \<longleftrightarrow> s = \<lparr>cs_c = Completion_new, cs_k = \<lparr>k_mark = {}, k_asleep = {}\<rparr>, cs_pc = (\<lambda>_. Out), cs_done = 0, cs_taken = 0\<rparr>"

inductive cw_step :: "cp_sys \<Rightarrow> cp_sys \<Rightarrow> bool" where
  cw_call: "cs_pc s t = Out \<Longrightarrow> cw_step s (s\<lparr>cs_pc := (cs_pc s)(t := Check)\<rparr>)"
| cw_done: "cs_pc s t = Check \<Longrightarrow> cp_warten_schritt (cs_c s) t = (c', Inr True) \<Longrightarrow>
     cw_step s (s\<lparr>cs_c := c', cs_pc := (cs_pc s)(t := Out), cs_taken := cs_taken s + 1\<rparr>)"
| cw_full: "cs_pc s t = Check \<Longrightarrow> cp_warten_schritt (cs_c s) t = (c', Inl e) \<Longrightarrow> cw_step s (s\<lparr>cs_c := c', cs_pc := (cs_pc s)(t := Out)\<rparr>)"
| cw_queue: "cs_pc s t = Check \<Longrightarrow> cp_warten_schritt (cs_c s) t = (c', Inr False) \<Longrightarrow> cw_step s (s\<lparr>cs_c := c', cs_pc := (cs_pc s)(t := ToPark)\<rparr>)"
| cw_park: "cs_pc s t = ToPark \<Longrightarrow> k' = park (cs_k s) t \<Longrightarrow>
     cw_step s (s\<lparr>cs_k := k', cs_pc := (cs_pc s)(t := if t \<in> k_asleep k' then Parked else Check)\<rparr>)"
| cw_wake: "cs_pc s t = Parked \<Longrightarrow> t \<notin> k_asleep (cs_k s) \<Longrightarrow> cw_step s (s\<lparr>cs_pc := (cs_pc s)(t := Check)\<rparr>)"
| cw_complete: "cp_complete (cs_c s) = (c', ts) \<Longrightarrow> cw_step s (s\<lparr>cs_c := c', cs_k := foldl k_unpark (cs_k s) ts, cs_done := cs_done s + 1\<rparr>)"
| cw_foreign: "cw_step s (s\<lparr>cs_k := k_unpark (cs_k s) t\<rparr>)"

definition cw_inv :: "cp_sys \<Rightarrow> bool" where
  "cw_inv s \<longleftrightarrow> wq_wf (cp_warten (cs_c s)) \<and>
     (\<forall>t. t \<in> k_asleep (cs_k s) \<longrightarrow> cs_pc s t = Parked \<and> t \<in> set (wq_list (cp_warten (cs_c s)))) \<and>
     (\<forall>t. cs_pc s t = ToPark \<and> t \<notin> k_mark (cs_k s) \<longrightarrow> t \<in> set (wq_list (cp_warten (cs_c s)))) \<and>
     (0 < cp_fertig (cs_c s) \<longrightarrow> wq_list (cp_warten (cs_c s)) = []) \<and>
     unat (cp_fertig (cs_c s)) + cs_taken s \<le> cs_done s \<and>
     (cs_done s < 2 ^ 32 \<longrightarrow> unat (cp_fertig (cs_c s)) + cs_taken s = cs_done s)"

lemma cw_invD:
  assumes "cw_inv s"
  shows "wq_wf (cp_warten (cs_c s))" "t \<in> k_asleep (cs_k s) \<Longrightarrow> cs_pc s t = Parked" "t \<in> k_asleep (cs_k s) \<Longrightarrow> t \<in> set (wq_list (cp_warten (cs_c s)))"
    "cs_pc s t = ToPark \<Longrightarrow> t \<notin> k_mark (cs_k s) \<Longrightarrow> t \<in> set (wq_list (cp_warten (cs_c s)))"
    "0 < cp_fertig (cs_c s) \<Longrightarrow> wq_list (cp_warten (cs_c s)) = []"
    "unat (cp_fertig (cs_c s)) + cs_taken s \<le> cs_done s" "cs_done s < 2 ^ 32 \<Longrightarrow> unat (cp_fertig (cs_c s)) + cs_taken s = cs_done s"
  using assms unfolding cw_inv_def by blast+

lemma unat_sat_inc32: "unat (sat_inc32 x) \<le> Suc (unat x)" "unat x + 1 < 2 ^ 32 \<Longrightarrow> unat (sat_inc32 x) = Suc (unat x)"
proof -
  have m: "unat (- 1 :: u32) = 2 ^ 32 - 1" by (simp add: unsigned_minus_1_eq_mask mask_eq_exp_minus_1)
  have i: "unat (x + 1) = Suc (unat x)" if "x \<noteq> - 1"
    using that by (metis Suc_eq_plus1 add.commute add_eq_0_iff2 unatSuc)
  show "unat (sat_inc32 x) \<le> Suc (unat x)" using i m by (auto simp: sat_inc32_def)
  show "unat x + 1 < 2 ^ 32 \<Longrightarrow> unat (sat_inc32 x) = Suc (unat x)" using i m by (auto simp: sat_inc32_def)
qed

lemma cp_schritt_cases:
  assumes "wq_wf (cp_warten c)" "cp_warten_schritt c t = (c', r)"
  obtains (ready) "r = Inr True" "0 < cp_fertig c" "c' = c\<lparr>cp_fertig := cp_fertig c - 1\<rparr>"
  | (queued) q where "r = Inr False" "cp_fertig c = 0" "c' = c\<lparr>cp_warten := q\<rparr>" "wq_wf q" "wq_list q = wq_list (cp_warten c) @ [t]"
  | (full) q where "r = Inl KeinWarteplatz" "cp_fertig c = 0" "c' = c\<lparr>cp_warten := q\<rparr>" "wq_wf q" "wq_list q = wq_list (cp_warten c)"
proof (cases "0 < cp_fertig c")
  case True
  then show ?thesis using assms(2) ready by (simp add: cp_warten_schritt_def)
next
  case False
  obtain q ok where p: "wq_push (cp_warten c) t = (q, ok)" by force
  have z: "cp_fertig c = 0" using False by (simp add: word_gt_0)
  show ?thesis using wq_push_cases [OF assms(1) p] assms(2) z p queued [of q] full [of q] by (cases ok) (auto simp: cp_warten_schritt_def)
qed

lemma cw_step_inv: "cw_step s s' \<Longrightarrow> cw_inv s \<Longrightarrow> cw_inv s'"
proof (induction rule: cw_step.induct)
  case (cw_done s t c')
  note I = cw_invD [OF cw_done(3)]
  have p: "0 < cp_fertig (cs_c s)" "c' = cs_c s\<lparr>cp_fertig := cp_fertig (cs_c s) - 1\<rparr>" by (rule cp_schritt_cases [OF I(1) cw_done(2)]; simp)+
  have "unat (cp_fertig (cs_c s) - 1) = unat (cp_fertig (cs_c s)) - 1" "0 < unat (cp_fertig (cs_c s))" using p(1) by (simp_all add: unat_minus_one word_gt_0 unat_gt_0)
  then show ?case using cw_done(1,3) p I(5) by (auto simp: cw_inv_def)
next
  case (cw_full s t c' e)
  note I = cw_invD [OF cw_full(3)]
  obtain q where "cp_fertig (cs_c s) = 0" "c' = cs_c s\<lparr>cp_warten := q\<rparr>" "wq_wf q" "wq_list q = wq_list (cp_warten (cs_c s))"
    by (rule cp_schritt_cases [OF I(1) cw_full(2)]) auto
  then show ?case using cw_full(1,3) by (auto simp: cw_inv_def)
next
  case (cw_queue s t c')
  note I = cw_invD [OF cw_queue(3)]
  obtain q where "cp_fertig (cs_c s) = 0" "c' = cs_c s\<lparr>cp_warten := q\<rparr>" "wq_wf q" "wq_list q = wq_list (cp_warten (cs_c s)) @ [t]"
    by (rule cp_schritt_cases [OF I(1) cw_queue(2)]) auto
  then show ?case using cw_queue(1,3) by (auto simp: cw_inv_def)
next
  case (cw_park s t k')
  then show ?case by (auto simp: cw_inv_def park_def)
next
  case (cw_complete s c' ts)
  note I = cw_invD [OF cw_complete(2)]
  obtain q where q: "wq_wake_all (cp_warten (cs_c s)) = (q, wq_list (cp_warten (cs_c s)))" "wq_wf q" "wq_list q = []" using wq_wake_all_list [OF I(1)] by blast
  then have c: "c' = cs_c s\<lparr>cp_fertig := sat_inc32 (cp_fertig (cs_c s)), cp_warten := q\<rparr>" "ts = wq_list (cp_warten (cs_c s))"
    using cw_complete(1) by (auto simp: cp_complete_def)
  have a: "k_asleep (foldl k_unpark (cs_k s) ts) = {}" unfolding unpark_all(1) using I(3) c(2) by auto
  have b: "t \<in> k_mark (foldl k_unpark (cs_k s) ts)" if "cs_pc s t = ToPark" for t
    using unpark_all(2) [of "cs_k s" ts] unpark_all(3) [of t ts "cs_k s"] I(2) [of t] I(4) [OF that] that c(2) by auto
  show ?case using a b q I(6,7) unat_sat_inc32 [of "cp_fertig (cs_c s)"] by (auto simp: cw_inv_def c(1))
next
  case (cw_foreign s t)
  then show ?case by (auto simp: cw_inv_def k_unpark_def)
qed (auto simp: cw_inv_def)

interpretation completion: step_system cw_init cw_step cw_inv
proof
  show "cw_inv s" if "cw_init s" for s using that by (simp add: cw_init_def cw_inv_def Completion_new_def)
qed (rule cw_step_inv)

section \<open>A mutex\<close>

record mx_sys =
  ms_m :: Mutex
  ms_k :: Kern
  ms_pc :: "Tid \<Rightarrow> Pc"

definition ml_init :: "mx_sys \<Rightarrow> bool" where
  "ml_init s \<longleftrightarrow> s = \<lparr>ms_m = Mutex_new, ms_k = \<lparr>k_mark = {}, k_asleep = {}\<rparr>, ms_pc = (\<lambda>_. Out)\<rparr>"

text \<open>The flag says whether threads are also woken from elsewhere, by another object or by \<open>SYS_UNPARK\<close> itself.\<close>

inductive ml_step :: "bool \<Rightarrow> mx_sys \<Rightarrow> mx_sys \<Rightarrow> bool" for foreign where
  ml_call: "ms_pc s t = Out \<Longrightarrow> ml_step foreign s (s\<lparr>ms_pc := (ms_pc s)(t := Check)\<rparr>)"
| ml_got: "ms_pc s t = Check \<Longrightarrow> mx_lock_schritt (ms_m s) t = (m', Inr True) \<Longrightarrow> ml_step foreign s (s\<lparr>ms_m := m', ms_pc := (ms_pc s)(t := Hold)\<rparr>)"
| ml_full: "ms_pc s t = Check \<Longrightarrow> mx_lock_schritt (ms_m s) t = (m', Inl e) \<Longrightarrow> ml_step foreign s (s\<lparr>ms_m := m', ms_pc := (ms_pc s)(t := Out)\<rparr>)"
| ml_queue: "ms_pc s t = Check \<Longrightarrow> mx_lock_schritt (ms_m s) t = (m', Inr False) \<Longrightarrow> ml_step foreign s (s\<lparr>ms_m := m', ms_pc := (ms_pc s)(t := ToPark)\<rparr>)"
| ml_park: "ms_pc s t = ToPark \<Longrightarrow> k' = park (ms_k s) t \<Longrightarrow>
     ml_step foreign s (s\<lparr>ms_k := k', ms_pc := (ms_pc s)(t := if t \<in> k_asleep k' then Parked else Check)\<rparr>)"
| ml_wake: "ms_pc s t = Parked \<Longrightarrow> t \<notin> k_asleep (ms_k s) \<Longrightarrow> ml_step foreign s (s\<lparr>ms_pc := (ms_pc s)(t := Check)\<rparr>)"
| ml_try: "ms_pc s t = Out \<Longrightarrow> mx_try_lock (ms_m s) t = (m', ok) \<Longrightarrow>
     ml_step foreign s (s\<lparr>ms_m := m', ms_pc := (ms_pc s)(t := if ok then Hold else Out)\<rparr>)"
| ml_relock: "ms_pc s t = Hold \<Longrightarrow> mx_lock_schritt (ms_m s) t = (m', Inl e) \<Longrightarrow> ml_step foreign s (s\<lparr>ms_m := m'\<rparr>)"
| ml_unlock: "ms_pc s t \<in> {Out, Hold} \<Longrightarrow> mx_unlock (ms_m s) t = (m', ts, ok) \<Longrightarrow>
     ml_step foreign s (s\<lparr>ms_m := m', ms_k := foldl k_unpark (ms_k s) ts, ms_pc := (ms_pc s)(t := if ok then Out else ms_pc s t)\<rparr>)"
| ml_foreign: "foreign \<Longrightarrow> ml_step foreign s (s\<lparr>ms_k := k_unpark (ms_k s) t\<rparr>)"

text \<open>A thread on its way to another attempt.\<close>

definition coming :: "mx_sys \<Rightarrow> Tid \<Rightarrow> bool" where
  "coming s u \<longleftrightarrow> ms_pc s u = Check \<or> (ms_pc s u = Parked \<and> u \<notin> k_asleep (ms_k s)) \<or> (ms_pc s u = ToPark \<and> u \<in> k_mark (ms_k s))"

abbreviation "ms_waiting s \<equiv> wq_list (mx_warten (ms_m s))"

definition ml_inv :: "mx_sys \<Rightarrow> bool" where
  "ml_inv s \<longleftrightarrow> wq_wf (mx_warten (ms_m s)) \<and>
     (\<forall>t. ms_pc s t = Hold \<longleftrightarrow> mx_gesperrt (ms_m s) \<and> mx_inhaber (ms_m s) = t) \<and>
     (\<forall>t. t \<in> k_asleep (ms_k s) \<longrightarrow> ms_pc s t = Parked \<and> t \<in> set (ms_waiting s)) \<and>
     (\<forall>t. ms_pc s t = ToPark \<and> t \<notin> k_mark (ms_k s) \<longrightarrow> t \<in> set (ms_waiting s))"

definition hand_over :: "mx_sys \<Rightarrow> bool" where
  "hand_over s \<longleftrightarrow> distinct (ms_waiting s) \<and>
     (\<forall>t\<in>set (ms_waiting s). t \<in> k_asleep (ms_k s) \<or> (ms_pc s t = ToPark \<and> t \<notin> k_mark (ms_k s))) \<and>
     (\<forall>t\<in>k_mark (ms_k s). ms_pc s t = ToPark) \<and>
     (mx_gesperrt (ms_m s) \<or> ms_waiting s = [] \<or> (\<exists>u. coming s u))"

lemma ml_invD:
  assumes "ml_inv s"
  shows "wq_wf (mx_warten (ms_m s))" "ms_pc s t = Hold \<longleftrightarrow> mx_gesperrt (ms_m s) \<and> mx_inhaber (ms_m s) = t"
    "t \<in> k_asleep (ms_k s) \<Longrightarrow> ms_pc s t = Parked" "t \<in> k_asleep (ms_k s) \<Longrightarrow> t \<in> set (ms_waiting s)"
    "ms_pc s t = ToPark \<Longrightarrow> t \<notin> k_mark (ms_k s) \<Longrightarrow> t \<in> set (ms_waiting s)"
  using assms unfolding ml_inv_def by blast+

lemma mx_schritt_cases:
  assumes "wq_wf (mx_warten m)" "mx_lock_schritt m t = (m', r)"
  obtains (got) "r = Inr True" "\<not> mx_gesperrt m" "m' = m\<lparr>mx_gesperrt := True, mx_inhaber := t\<rparr>"
  | (own) "r = Inl SelbstDeadlock" "mx_gesperrt m" "mx_inhaber m = t" "m' = m"
  | (queued) q where "r = Inr False" "mx_gesperrt m" "mx_inhaber m \<noteq> t" "m' = m\<lparr>mx_warten := q\<rparr>" "wq_wf q" "wq_list q = wq_list (mx_warten m) @ [t]"
  | (full) q where "r = Inl KeinWarteplatz" "mx_gesperrt m" "m' = m\<lparr>mx_warten := q\<rparr>" "wq_wf q" "wq_list q = wq_list (mx_warten m)"
proof -
  obtain q ok where p: "wq_push (mx_warten m) t = (q, ok)" by force
  show ?thesis using wq_push_cases [OF assms(1) p] assms(2) p got own queued [of q] full [of q]
    by (auto simp: mx_lock_schritt_def split: if_splits)
qed

lemma mx_unlock_cases:
  assumes "wq_wf (mx_warten m)" "mx_unlock m t = (m', ts, ok)"
  obtains (refused) "\<not> ok" "m' = m" "ts = []" "\<not> (mx_gesperrt m \<and> mx_inhaber m = t)"
  | (empty) "ok" "ts = []" "mx_gesperrt m" "mx_inhaber m = t" "wq_list (mx_warten m) = []" "m' = m\<lparr>mx_gesperrt := False, mx_inhaber := 0\<rparr>"
  | (woken) x xs q where "ok" "ts = [x]" "mx_gesperrt m" "mx_inhaber m = t" "wq_list (mx_warten m) = x # xs" "wq_wf q" "wq_list q = xs"
      "m' = m\<lparr>mx_gesperrt := False, mx_inhaber := 0, mx_warten := q\<rparr>"
proof (cases "mx_gesperrt m \<and> mx_inhaber m = t")
  case False
  then show ?thesis using assms(2) refused by (auto simp: mx_unlock_def)
next
  case True
  show ?thesis
  proof (cases "wq_list (mx_warten m)")
    case Nil
    then show ?thesis using True assms empty wq_pop_Nil [OF Nil assms(1)] by (auto simp: mx_unlock_def wq_wake_one_def)
  next
    case (Cons x xs)
    obtain q where "wq_pop (mx_warten m) = (q, Some x)" "wq_wf q" "wq_list q = xs" using wq_pop_Cons [OF assms(1) Cons] by blast
    then show ?thesis using True assms(2) Cons woken [of x xs q] by (auto simp: mx_unlock_def wq_wake_one_def)
  qed
qed

lemma not_holder: "ml_inv s \<Longrightarrow> ms_pc s t \<noteq> Hold \<Longrightarrow> \<not> (mx_gesperrt (ms_m s) \<and> mx_inhaber (ms_m s) = t)"
  using ml_invD(2) by blast

lemma ml_step_inv: "ml_step fr s s' \<Longrightarrow> ml_inv s \<Longrightarrow> ml_inv s'"
proof (induction rule: ml_step.induct)
  case (ml_got s t m')
  then show ?case using ml_invD [OF ml_got(3)] by (cases rule: mx_schritt_cases [OF ml_invD(1) [OF ml_got(3)] ml_got(2)]) (auto simp: ml_inv_def)
next
  case (ml_full s t m' e)
  then have "\<not> (mx_gesperrt (ms_m s) \<and> mx_inhaber (ms_m s) = t)" using not_holder by simp
  then show ?case using ml_full by (cases rule: mx_schritt_cases [OF ml_invD(1) [OF ml_full(3)] ml_full(2)]) (auto simp: ml_inv_def)
next
  case (ml_queue s t m')
  then show ?case by (cases rule: mx_schritt_cases [OF ml_invD(1) [OF ml_queue(3)] ml_queue(2)]) (auto simp: ml_inv_def)
next
  case (ml_park s t k')
  then have "\<not> (mx_gesperrt (ms_m s) \<and> mx_inhaber (ms_m s) = t)" using not_holder by simp
  then show ?case using ml_park by (auto simp: ml_inv_def park_def)
next
  case (ml_try s t m' ok)
  then have "\<not> (mx_gesperrt (ms_m s) \<and> mx_inhaber (ms_m s) = t)" using not_holder by simp
  then show ?case using ml_try by (auto simp: ml_inv_def mx_try_lock_def split: if_splits)
next
  case (ml_relock s t m' e)
  then show ?case by (cases rule: mx_schritt_cases [OF ml_invD(1) [OF ml_relock(3)] ml_relock(2)]) (auto simp: ml_inv_def)
next
  case (ml_unlock s t m' ts ok)
  note I = ml_invD [OF ml_unlock(3)]
  from I(1) ml_unlock(2) show ?case
  proof (cases rule: mx_unlock_cases)
    case refused
    then show ?thesis using ml_unlock(3) by simp
  next
    case empty
    then show ?thesis using ml_unlock(3) I(2) by (auto simp: ml_inv_def)
  next
    case (woken x xs q)
    have h: "ms_pc s u = Hold \<longleftrightarrow> t = u" for u using I(2) [of u] woken(3,4) by simp
    have k: "k_asleep (foldl k_unpark (ms_k s) ts) = k_asleep (ms_k s) - {x}" "k_mark (ms_k s) \<subseteq> k_mark (foldl k_unpark (ms_k s) ts)"
      "x \<notin> k_asleep (ms_k s) \<Longrightarrow> x \<in> k_mark (foldl k_unpark (ms_k s) ts)"
      unfolding woken(2) by (auto simp: k_unpark_def)
    have w: "u \<in> set (ms_waiting s) \<longleftrightarrow> u = x \<or> u \<in> set xs" for u using woken(5) by auto
    have p: "ms_pc s u = ToPark \<Longrightarrow> u \<notin> k_asleep (ms_k s)" "u \<in> k_asleep (ms_k s) \<Longrightarrow> u \<noteq> t" for u using I(3) [of u] h [of u] by auto
    show ?thesis unfolding ml_inv_def
    proof (intro conjI allI impI, goal_cases)
      case (3 u)
      then show ?case using I(3,4) [of u] w p(2) [of u] k(1) woken(1,7,8) by auto
    next
      case (4 u)
      then show ?case using I(3,4) [of u] w p(2) [of u] k(1) woken(1,7,8) by auto
    next
      case (5 u)
      then show ?case using I(5) [of u] w k(2,3) p(1) [of u] woken(1,7,8) by (auto split: if_splits)
    qed (use h woken in \<open>auto\<close>)
  qed
next
  case (ml_foreign s t)
  then show ?case by (auto simp: ml_inv_def k_unpark_def)
next
  case (ml_call s t)
  then have "\<not> (mx_gesperrt (ms_m s) \<and> mx_inhaber (ms_m s) = t)" using not_holder by simp
  then show ?case using ml_call by (auto simp: ml_inv_def)
next
  case (ml_wake s t)
  then have "\<not> (mx_gesperrt (ms_m s) \<and> mx_inhaber (ms_m s) = t)" using not_holder by simp
  then show ?case using ml_wake by (auto simp: ml_inv_def)
qed

lemma hand_over_step: "ml_step False s s' \<Longrightarrow> ml_inv s \<Longrightarrow> hand_over s \<Longrightarrow> hand_over s'"
proof (induction rule: ml_step.induct)
  case (ml_call s t)
  have "t \<notin> set (ms_waiting s)" "t \<notin> k_mark (ms_k s)" using ml_call ml_invD(3) [OF ml_call(2), of t] by (auto simp: hand_over_def)
  then show ?case using ml_call(3) by (auto simp: hand_over_def coming_def)
next
  case (ml_got s t m')
  have "t \<notin> set (ms_waiting s)" "t \<notin> k_mark (ms_k s)" using ml_got ml_invD(3) [OF ml_got(3), of t] by (auto simp: hand_over_def)
  then show ?case using ml_got by (cases rule: mx_schritt_cases [OF ml_invD(1) [OF ml_got(3)] ml_got(2)]) (auto simp: hand_over_def)
next
  case (ml_full s t m' e)
  have "t \<notin> set (ms_waiting s)" "t \<notin> k_mark (ms_k s)" using ml_full ml_invD(3) [OF ml_full(3), of t] by (auto simp: hand_over_def)
  then show ?case using ml_full by (cases rule: mx_schritt_cases [OF ml_invD(1) [OF ml_full(3)] ml_full(2)]) (auto simp: hand_over_def)
next
  case (ml_queue s t m')
  have "t \<notin> set (ms_waiting s)" "t \<notin> k_mark (ms_k s)" using ml_queue ml_invD(3) [OF ml_queue(3), of t] by (auto simp: hand_over_def)
  then show ?case using ml_queue by (cases rule: mx_schritt_cases [OF ml_invD(1) [OF ml_queue(3)] ml_queue(2)]) (auto simp: hand_over_def)
next
  case (ml_park s t k')
  have a: "t \<notin> k_asleep (ms_k s)" using ml_park(1) ml_invD(3) [OF ml_park(3), of t] by auto
  show ?case
  proof (cases "t \<in> k_mark (ms_k s)")
    case True
    then have "t \<notin> set (ms_waiting s)" using a ml_park(4) by (auto simp: hand_over_def)
    then show ?thesis using True a ml_park by (auto simp: hand_over_def park_def coming_def)
  next
    case False
    have "u \<noteq> t" if "coming s u" for u using that ml_park(1) False by (auto simp: coming_def)
    then show ?thesis using False a ml_park by (auto simp: hand_over_def park_def coming_def)
  qed
next
  case (ml_wake s t)
  have "t \<notin> set (ms_waiting s)" "t \<notin> k_mark (ms_k s)" using ml_wake by (auto simp: hand_over_def)
  then show ?case using ml_wake by (auto simp: hand_over_def coming_def)
next
  case (ml_try s t m' ok)
  have "t \<notin> set (ms_waiting s)" "t \<notin> k_mark (ms_k s)" using ml_try ml_invD(3) [OF ml_try(3), of t] by (auto simp: hand_over_def)
  then show ?case using ml_try by (auto simp: hand_over_def mx_try_lock_def coming_def split: if_splits)
next
  case (ml_relock s t m' e)
  then show ?case by (cases rule: mx_schritt_cases [OF ml_invD(1) [OF ml_relock(3)] ml_relock(2)]) (auto simp: hand_over_def)
next
  case (ml_unlock s t m' ts ok)
  note I = ml_invD [OF ml_unlock(3)]
  have n: "t \<notin> set (ms_waiting s)" "t \<notin> k_mark (ms_k s)" using ml_unlock(1,4) I(3) [of t] by (auto simp: hand_over_def)
  from I(1) ml_unlock(2) show ?case
  proof (cases rule: mx_unlock_cases)
    case refused
    then show ?thesis using ml_unlock(4) by simp
  next
    case empty
    then show ?thesis using ml_unlock(4) n by (auto simp: hand_over_def)
  next
    case (woken x xs q)
    have x: "x \<noteq> t" "x \<notin> set xs" "x \<in> k_asleep (ms_k s) \<or> (ms_pc s x = ToPark \<and> x \<notin> k_mark (ms_k s))" using ml_unlock(4) n woken by (auto simp: hand_over_def)
    have "coming (s\<lparr>ms_m := m', ms_k := foldl k_unpark (ms_k s) ts, ms_pc := (ms_pc s)(t := if ok then Out else ms_pc s t)\<rparr>) x"
      using x I(3) [of x] woken by (auto simp: coming_def k_unpark_def)
    then show ?thesis using x ml_unlock(4) n woken I(3) by (auto simp: hand_over_def k_unpark_def)
  qed
qed auto

interpretation mutex: step_system ml_init "ml_step fr" ml_inv
proof
  show "ml_inv s" if "ml_init s" for s using that by (simp add: ml_init_def ml_inv_def Mutex_new_def)
qed (rule ml_step_inv)

interpretation quiet_mutex: step_system ml_init "ml_step False" "\<lambda>s. ml_inv s \<and> hand_over s"
proof
  show "ml_inv s \<and> hand_over s" if "ml_init s" for s using that mutex.init_inv by (simp add: ml_init_def hand_over_def Mutex_new_def)
qed (auto intro: ml_step_inv hand_over_step)

section \<open>Properties\<close>

text \<open>
  C11. A completion is never slept through, in every interleaving and also when threads are woken from
  elsewhere: while a completion is open no waiting thread sleeps, and none that is about to park will; a
  thread that sleeps is in the queue that the next \<open>complete\<close> wakes as a whole; and below \<open>2 ^ 32\<close>
  completions, each is open or was taken by exactly one wait.
\<close>

theorem completion_not_missed:
  assumes "reach cw_init cw_step s"
  shows "(t \<in> k_asleep (cs_k s) \<longrightarrow> cp_fertig (cs_c s) = 0 \<and> t \<in> set (wq_list (cp_warten (cs_c s)))) \<and>
    (0 < cp_fertig (cs_c s) \<and> cs_pc s t = ToPark \<longrightarrow> t \<in> k_mark (cs_k s) \<and> t \<notin> k_asleep (park (cs_k s) t)) \<and>
    (cp_complete (cs_c s) = (c', ts) \<longrightarrow> k_asleep (foldl k_unpark (cs_k s) ts) = {}) \<and>
    cs_taken s \<le> cs_done s \<and> (cs_done s < 2 ^ 32 \<longrightarrow> unat (cp_fertig (cs_c s)) + cs_taken s = cs_done s)"
proof -
  note I = cw_invD [OF completion.reach_inv [OF assms]]
  have z: "x = 0 \<or> 0 < x" for x :: u32 by (simp add: word_gt_0)
  have a: "t \<in> k_asleep (cs_k s) \<longrightarrow> cp_fertig (cs_c s) = 0 \<and> t \<in> set (wq_list (cp_warten (cs_c s)))" using I(3,5) z by fastforce
  have b: "0 < cp_fertig (cs_c s) \<and> cs_pc s t = ToPark \<longrightarrow> t \<in> k_mark (cs_k s) \<and> t \<notin> k_asleep (park (cs_k s) t)"
    using I(2,4,5) by (fastforce simp: park_def)
  obtain q where "wq_wake_all (cp_warten (cs_c s)) = (q, wq_list (cp_warten (cs_c s)))" using wq_wake_all_list [OF I(1)] by blast
  then have c: "cp_complete (cs_c s) = (c', ts) \<longrightarrow> k_asleep (foldl k_unpark (cs_k s) ts) = {}"
    using I(3) by (auto simp: cp_complete_def unpark_all(1))
  show ?thesis using a b c I(6,7) by simp
qed

text \<open>
  C10. A mutex excludes and hands over. In every interleaving at most one thread holds the lock and a sleeping
  thread is in the queue. As long as threads are woken by this mutex only, a free lock with a sleeping thread
  has another thread on its way to take it, so that no wake-up is lost.
\<close>

theorem mutex_hands_over:
  assumes "reach ml_init (ml_step foreign) s"
  shows "(ms_pc s t = Hold \<and> ms_pc s u = Hold \<longrightarrow> t = u) \<and>
    (t \<in> k_asleep (ms_k s) \<longrightarrow> t \<in> set (ms_waiting s)) \<and>
    (\<not> foreign \<and> \<not> mx_gesperrt (ms_m s) \<and> t \<in> k_asleep (ms_k s) \<longrightarrow> (\<exists>v. coming s v))"
proof -
  note I = ml_invD [OF mutex.reach_inv [OF assms]]
  have "\<exists>v. coming s v" if "\<not> foreign" "\<not> mx_gesperrt (ms_m s)" "t \<in> k_asleep (ms_k s)"
  proof -
    have "hand_over s" using quiet_mutex.reach_inv assms that(1) by auto
    moreover have "ms_waiting s \<noteq> []" using I(4) [OF that(3)] by auto
    ultimately show ?thesis using that(2) by (auto simp: hand_over_def)
  qed
  moreover have "t = u" if "ms_pc s t = Hold" "ms_pc s u = Hold" using that I(2) by auto
  ultimately show ?thesis using I(4) by blast
qed

end
