(* ===== verification/WaitTime.thy ===== *)
theory WaitTime
  imports WaitLists
begin

text \<open>
  Waiting with a deadline (\<open>caprock-wait/src/timeout.rs\<close>): the deadline is absolute, a park always has ticks
  left, whoever parks is in the queue, and a wait that ran out leaves no entry behind.
\<close>

section \<open>Sleeping\<close>

lemma sat_sub64_0: "sat_sub64 a b = 0 \<longleftrightarrow> a \<le> b"
  by (auto simp: sat_sub64_def)

lemma msleep_loop_returns:
  assumes "ende \<le> clk (i + 1 + n)"
  shows "\<exists>ps. msleep_loop clk ende i = Some ps"
  using assms
proof (induction n arbitrary: i)
  case 0
  then show ?case by (simp add: msleep_loop.simps sat_sub64_0)
next
  case (Suc n)
  then obtain ps where "msleep_loop clk ende (i + 1) = Some ps" by (metis add_Suc_shift add_Suc add.commute plus_1_eq_Suc)
  then show ?case by (cases "ende \<le> clk (i + 1)") (simp_all add: msleep_loop.simps [of _ _ i] sat_sub64_0)
qed

lemma msleep_loop_result:
  "msleep_loop clk ende i = Some ps \<Longrightarrow>
   ende \<le> clk (i + length ps + 1) \<and> (\<forall>j<length ps. clk (i + j + 1) < ende \<and> ps ! j = ende - clk (i + j + 1))"
proof (induction ps arbitrary: i)
  case Nil
  then show ?case by (subst (asm) msleep_loop.simps) (auto simp: sat_sub64_0 Let_def split: if_splits bind_splits)
next
  case (Cons p ps)
  have a: "\<not> ende \<le> clk (i + 1)" "p = sat_sub64 ende (clk (i + 1))" "msleep_loop clk ende (i + 1) = Some ps"
    using Cons.prems unfolding msleep_loop.simps [of clk ende i] by (auto simp: sat_sub64_0 Let_def split: if_splits bind_splits)
  show ?case
  proof (intro conjI allI impI)
    show "ende \<le> clk (i + length (p # ps) + 1)" using Cons.IH [OF a(3)] by simp
    fix j
    assume "j < length (p # ps)"
    then show "clk (i + j + 1) < ende" "(p # ps) ! j = ende - clk (i + j + 1)"
      using Cons.IH [OF a(3)] a(1,2) by (cases j; auto simp: sat_sub64_def)+
  qed
qed

section \<open>Waiting for a condition\<close>

lemma wait_timeout_returns:
  assumes "cond (i + n) \<or> ende \<le> clk (i + n + 1) \<or> \<not> wake (i + n)"
  shows "\<exists>x. wait_timeout_loop env cond clk wake ende i q me = Some x"
  using assms
proof (induction n arbitrary: i q)
  case 0
  then show ?case by (subst wait_timeout_loop.simps) (auto simp: sat_sub64_0 Let_def split: prod.splits)
next
  case (Suc n)
  have "\<exists>x. wait_timeout_loop env cond clk wake ende (i + 1) q' me = Some x" for q' using Suc.IH [of "i + 1"] Suc.prems by simp
  moreover obtain q1 ok where p: "wq_push q me = (q1, ok)" by force
  ultimately obtain y r ps where "wait_timeout_loop env cond clk wake ende (i + 1) (env i q1) me = Some (y, r, ps)" by (metis surj_pair)
  then show ?case by (subst wait_timeout_loop.simps) (simp add: sat_sub64_0 Let_def p)
qed

lemma wait_timeout_result:
  assumes "wait_timeout_loop env cond clk wake ende i q me = Some (q', r, ps)" "wq_wf q" "\<And>i q. wq_wf q \<Longrightarrow> wq_wf (env i q)"
  shows "(\<forall>(rest, qp)\<in>set ps. rest \<noteq> 0 \<and> me \<in> set (wq_list qp)) \<and>
    (r = Inr True \<longrightarrow> cond (i + length ps)) \<and>
    (r = Inr False \<longrightarrow> me \<notin> set (wq_list q') \<and> (ende \<le> clk (i + length ps + 1) \<or> (ps \<noteq> [] \<and> \<not> wake (i + length ps - 1)))) \<and>
    (\<forall>e. r = Inl e \<longrightarrow> e = KeinWarteplatz \<and> 32 \<le> length (wq_list q'))"
  using assms(1,2)
proof (induction ps arbitrary: i q)
  case Nil
  obtain q1 ok where p: "wq_push q me = (q1, ok)" by force
  note P = wq_push_cases [OF Nil.prems(2) p]
  obtain q2 where e: "wq_entfernen q me = (q2, me \<in> set (wq_list q))" "wq_list q2 = filter (\<lambda>x. x \<noteq> me) (wq_list q)"
    using wq_entfernen_list [OF Nil.prems(2)] by blast
  show ?case using Nil.prems(1) P p e
    by (subst (asm) wait_timeout_loop.simps) (auto simp: sat_sub64_0 Let_def split: if_splits bind_splits)
next
  case (Cons rp ps)
  obtain q1 ok where p: "wq_push q me = (q1, ok)" by force
  note P = wq_push_cases [OF Cons.prems(2) p]
  have w: "wq_wf (env i q1)" using assms(3) P(1) by blast
  obtain q2 where e: "wq_entfernen (env i q1) me = (q2, me \<in> set (wq_list (env i q1)))" "wq_list q2 = filter (\<lambda>x. x \<noteq> me) (wq_list (env i q1))"
    using wq_entfernen_list [OF w] by blast
  have c: "\<not> cond i" "\<not> ende \<le> clk (i + 1)" "ok" "rp = (sat_sub64 ende (clk (i + 1)), q1)"
    "if wake i then wait_timeout_loop env cond clk wake ende (i + 1) (env i q1) me = Some (q', r, ps) else ps = [] \<and> r = Inr False \<and> q' = q2"
    using Cons.prems(1) p e by (subst (asm) wait_timeout_loop.simps, auto simp: sat_sub64_0 Let_def split: if_splits bind_splits)+
  have f: "sat_sub64 ende (clk (i + 1)) \<noteq> 0" "me \<in> set (wq_list q1)" using c(2,3) P(3) by (simp_all add: sat_sub64_0)
  show ?case
  proof (cases "wake i")
    case True
    then have "wait_timeout_loop env cond clk wake ende (i + 1) (env i q1) me = Some (q', r, ps)" using c(5) by simp
    from Cons.IH [OF this w] f c(4) show ?thesis by auto
  next
    case False
    then show ?thesis using c(4,5) f e(2) by auto
  qed
qed

section \<open>Properties\<close>

text \<open>
  \<open>msleep\<close> sleeps the full time and not longer: it returns exactly if the clock ever reaches the end (start
  plus the milliseconds in ticks, saturating), however often it is woken before; it returns at the first
  reading that has reached the end; and every park gets exactly the remaining ticks, never 0, which would
  sleep for ever.
\<close>

theorem msleep_full_time:
  assumes "ende = saturating_add64 (clk 0) (msecs_to_jiffies ms hz)"
  shows "(case msleep clk hz ms of
      None \<Rightarrow> \<forall>j>0. clk j < ende
    | Some ps \<Rightarrow> ende \<le> clk (length ps + 1) \<and> (\<forall>j<length ps. clk (j + 1) < ende \<and> ps ! j = ende - clk (j + 1) \<and> ps ! j \<noteq> 0))"
proof (cases "msleep clk hz ms")
  case None
  have "clk j < ende" if "j > 0" for j
  proof (rule ccontr)
    assume "\<not> clk j < ende"
    then have "ende \<le> clk (0 + 1 + (j - 1))" using that by (simp add: not_less)
    then show False using msleep_loop_returns [of ende clk 0 "j - 1"] None by (simp add: msleep_def assms)
  qed
  then show ?thesis using None by simp
next
  case (Some ps)
  have r: "ende \<le> clk (length ps + 1) \<and> (\<forall>j<length ps. clk (j + 1) < ende \<and> ps ! j = ende - clk (j + 1))"
    using msleep_loop_result [of clk ende 0 ps] Some by (simp add: msleep_def assms)
  then have "\<forall>j<length ps. ps ! j \<noteq> 0" by auto
  then show ?thesis using Some r by simp
qed

text \<open>
  C38. Waiting for a condition with a deadline. It returns if ever the condition holds, the clock reaches the
  end or the kernel reports the deadline; it parks only with ticks left and only while its thread is in the
  queue; \<open>true\<close> means that the condition held when it was last read; \<open>false\<close> that the clock reached the end or
  the kernel reported the deadline, and then no entry of the thread is left in the queue; a refusal means
  that 32 threads wait, and it does not park.
\<close>

theorem wait_event_timeout_exact:
  assumes "ende = saturating_add64 (clk 0) ticks" "wq_wf q" "\<And>i q. wq_wf q \<Longrightarrow> wq_wf (env i q)"
    and "\<exists>n. cond n \<or> ende \<le> clk (n + 1) \<or> \<not> wake n"
  shows "\<exists>q' r ps. wait_event_timeout env cond clk wake q me ticks = Some (q', r, ps) \<and>
    (\<forall>(rest, qp)\<in>set ps. rest \<noteq> 0 \<and> me \<in> set (wq_list qp)) \<and>
    (case r of
       Inr True \<Rightarrow> cond (length ps)
     | Inr False \<Rightarrow> me \<notin> set (wq_list q') \<and> (ende \<le> clk (length ps + 1) \<or> ps \<noteq> [] \<and> \<not> wake (length ps - 1))
     | Inl e \<Rightarrow> e = KeinWarteplatz \<and> 32 \<le> length (wq_list q'))"
proof -
  obtain n where "cond (0 + n) \<or> ende \<le> clk (0 + n + 1) \<or> \<not> wake (0 + n)" using assms(4) by auto
  from wait_timeout_returns [of cond 0 n ende clk wake, OF this] obtain q' r ps where x: "wait_timeout_loop env cond clk wake ende 0 q me = Some (q', r, ps)" by (metis surj_pair)
  show ?thesis using wait_timeout_result [OF x assms(2,3)] x
    by (intro exI [of _ q'] exI [of _ r] exI [of _ ps]) (auto simp: wait_event_timeout_def assms(1) split: sum.splits bool.splits)
qed

text \<open>
  A thread that is woken from elsewhere and then finds its condition true returns with its own entry still in
  the queue, because nobody took it out.
\<close>

lemma stale_entry_left:
  assumes "wq_wf q" "length (wq_list q) < 32" "\<not> cond 0" "cond 1" "wake 0" "clk 1 < saturating_add64 (clk 0) ticks"
  shows "\<exists>q' ps. wait_event_timeout (\<lambda>_ q. q) cond clk wake q me ticks = Some (q', Inr True, ps) \<and> me \<in> set (wq_list q')"
proof -
  obtain q1 where p: "wq_push q me = (q1, True)" "wq_list q1 = wq_list q @ [me]" using wq_push_room [OF assms(1,2)] by blast
  have "wait_timeout_loop (\<lambda>_ q. q) cond clk wake (saturating_add64 (clk 0) ticks) (Suc 0) q1 me = Some (q1, Inr True, [])"
    using assms(4) by (subst wait_timeout_loop.simps) simp
  then show ?thesis using assms p by (subst wait_event_timeout_def, subst wait_timeout_loop.simps) (auto simp: sat_sub64_0 Let_def not_le)
qed

end
