(* ===== verification/WaitSample.thy ===== *)
theory WaitSample
  imports WaitSync WaitTime
begin

text \<open>
  Concrete runs of the wait objects: a job and two timers, a completion that overtakes the thread that waits
  for it, and the run of three threads on a mutex in which one wake-up from elsewhere makes a thread sleep
  although the lock is free and nobody will take it.
\<close>

section \<open>Work and timers\<close>

definition one_job :: Workqueue where "one_job = fst (wk_queue Workqueue_new 7)"

lemma one_job: "wq_wf (wk_q one_job)" "wq_list (wk_q one_job) = [7]"
proof -
  obtain q where "wq_push WaitQueue_new 7 = (q, True)" "wq_wf q" "wq_list q = [7]" using wq_push_room [OF wq_new(1), of 7] by auto
  then show "wq_wf (wk_q one_job)" "wq_list (wk_q one_job) = [7]" by (simp_all add: one_job_def wk_queue_def Workqueue_new_def)
qed

theorem flush_runs_all_witness: "\<exists>w'. wk_flush_blockierend (\<lambda>_ c. c) one_job 1 = Some (w', [7], Inr ()) \<and> wq_list (wk_q w') = []"
  using flush_runs_all [OF one_job(1), of "\<lambda>_ c. c" 1] by (auto simp: one_job(2) FLUSH_MARKE_def)

theorem timer_wheel_exact_witness: "\<exists>w. tw_expire TimerWheel_new 5 = (w, []) \<and> snd (tw_after TimerWheel_new 5 10 1)"
  using timer_wheel_exact [OF tw_new(1), of 5 1 10] by auto

section \<open>Deadlines\<close>

theorem msleep_full_time_witness: "case msleep (\<lambda>j. of_nat j * 100) 100 1000 of None \<Rightarrow> False | Some ps \<Rightarrow> 100 \<le> (of_nat (length ps + 1) * 100 :: u64)"
proof -
  have j: "msecs_to_jiffies 1000 100 = 100" by (simp add: msecs_to_jiffies_def)
  have e: "(100 :: u64) = saturating_add64 (of_nat 0 * 100) (msecs_to_jiffies 1000 100)" by (simp add: j saturating_add64_def)
  have "\<not> (\<forall>k>0. (of_nat k * 100 :: u64) < 100)" by (auto intro!: exI [of _ 1])
  then show ?thesis using msleep_full_time [of 100 "\<lambda>j. of_nat j * 100" 1000 100, OF e] by (auto split: option.splits)
qed

theorem wait_event_timeout_exact_witness:
  "\<exists>q' r ps. wait_event_timeout (\<lambda>_ q. q) (\<lambda>_. False) (\<lambda>j. if j < 2 then 0 else 50) (\<lambda>_. True) WaitQueue_new 7 20 = Some (q', r, ps) \<and>
     (r = Inr False \<longrightarrow> 7 \<notin> set (wq_list q'))"
proof -
  let ?clk = "\<lambda>j :: nat. if j < 2 then 0 else 50 :: u64"
  have e: "(20 :: u64) = saturating_add64 (?clk 0) 20" by (simp add: saturating_add64_def)
  have "\<exists>n. False \<or> (20 :: u64) \<le> ?clk (n + 1) \<or> \<not> True" by (rule exI [of _ 1]) simp
  from wait_event_timeout_exact [of 20 ?clk 20 WaitQueue_new "\<lambda>_ q. q" "\<lambda>_. False" "\<lambda>_. True" 7, OF e _ _ this]
  show ?thesis by fastforce
qed

section \<open>A completion that comes first\<close>

theorem completion_not_missed_witness:
  "\<exists>s. reach cw_init cw_step s \<and> 0 < cp_fertig (cs_c s) \<and> cs_pc s 1 = Check \<and> 1 \<notin> k_asleep (cs_k s) \<and> unat (cp_fertig (cs_c s)) + cs_taken s = cs_done s"
proof -
  define s0 where "s0 = \<lparr>cs_c = Completion_new, cs_k = \<lparr>k_mark = {}, k_asleep = {}\<rparr>, cs_pc = (\<lambda>_. Out), cs_done = 0, cs_taken = 0\<rparr>"
  define c1 where "c1 = Completion_new\<lparr>cp_fertig := 1\<rparr>"
  have c: "cp_complete (cs_c s0) = (c1, [])" using cp_complete_quiet [of Completion_new] by (simp add: s0_def c1_def Completion_new_def sat_inc32_def)
  define s1 where "s1 = s0\<lparr>cs_c := c1, cs_k := foldl k_unpark (cs_k s0) [], cs_done := cs_done s0 + 1\<rparr>"
  have "reach cw_init cw_step s0" by (rule reach_init) (simp add: cw_init_def s0_def)
  then have "reach cw_init cw_step s1" unfolding s1_def by (rule reach_step) (rule cw_complete [OF c])
  moreover define s2 where "s2 = s1\<lparr>cs_pc := (cs_pc s1)(1 := Check)\<rparr>"
  moreover have "cw_step s1 s2" unfolding s2_def by (rule cw_call) (simp add: s1_def s0_def)
  ultimately have r: "reach cw_init cw_step s2" by (blast intro: reach_step)
  have f: "cp_fertig (cs_c s2) = 1" "cs_pc s2 1 = Check" "cs_done s2 = 1" by (simp_all add: s2_def s1_def s0_def c1_def)
  show ?thesis using completion_not_missed [OF r, of 1] r f by (intro exI [of _ s2]) auto
qed

section \<open>A wake-up that is lost\<close>

text \<open>The states of the run: the lock, its queue with the stale entries behind it, the marks, the sleepers and the threads 1, 2 and 3.\<close>

definition mrun :: "Tid option \<Rightarrow> Tid list \<Rightarrow> nat \<Rightarrow> Tid set \<Rightarrow> Tid set \<Rightarrow> Pc \<Rightarrow> Pc \<Rightarrow> Pc \<Rightarrow> mx_sys" where
  "mrun h ts n marks sleepers p1 p2 p3 =
     \<lparr>ms_m = \<lparr>mx_gesperrt = h \<noteq> None, mx_inhaber = (case h of Some t \<Rightarrow> t | None \<Rightarrow> 0),
        mx_warten = \<lparr>wq_tids = ts @ replicate (32 - length ts) 0, wq_n = n, wq_abgewiesen = 0\<rparr>\<rparr>,
      ms_k = \<lparr>k_mark = marks, k_asleep = sleepers\<rparr>,
      ms_pc = (\<lambda>_. Out)(1 := p1, 2 := p2, 3 := p3)\<rparr>"

lemmas mrun_eval = mrun_def mx_lock_schritt_def mx_unlock_def wq_push_def wq_pop_def wq_wake_one_def WARTEPLAETZE_def park_def k_unpark_def Let_def insert_Diff_if numeral_2_eq_2 numeral_3_eq_3

lemma mrun_start: "reach ml_init (ml_step True) (mrun None [] 0 {} {} Out Out Out)"
  by (rule reach_init) (simp add: ml_init_def mrun_def Mutex_new_def WaitQueue_new_def WARTEPLAETZE_def fun_eq_iff)

lemma fun_upd_123:
  fixes a b c x :: Pc
  shows "(\<lambda>_ :: Tid. Out)(1 := a, 2 := b, 3 := c, 1 := x) = (\<lambda>_. Out)(1 := x, 2 := b, 3 := c)"
    "(\<lambda>_ :: Tid. Out)(1 := a, 2 := b, 3 := c, 2 := x) = (\<lambda>_. Out)(1 := a, 2 := x, 3 := c)"
  by (simp_all add: fun_eq_iff)

lemma places: "replicate 32 (0 :: Tid) = 0 # replicate 31 0" "replicate 31 (0 :: Tid) = 0 # replicate 30 0" "replicate 30 (0 :: Tid) = 0 # replicate 29 0"
  by (simp_all add: numeral_eq_Suc)

lemma mrun_steps:
  "ml_step True (mrun None [] 0 {} {} Out Out Out) (mrun None [] 0 {} {} Check Out Out)"
  "ml_step True (mrun None [] 0 {} {} Check Out Out) (mrun (Some 1) [] 0 {} {} Hold Out Out)"
  "ml_step True (mrun (Some 1) [] 0 {} {} Hold Out Out) (mrun (Some 1) [] 0 {} {} Hold Check Out)"
  "ml_step True (mrun (Some 1) [] 0 {} {} Hold Check Out) (mrun (Some 1) [2] 1 {} {} Hold ToPark Out)"
  "ml_step True (mrun (Some 1) [2] 1 {} {} Hold ToPark Out) (mrun (Some 1) [2] 1 {2} {} Hold ToPark Out)"
  "ml_step True (mrun (Some 1) [2] 1 {2} {} Hold ToPark Out) (mrun (Some 1) [2] 1 {} {} Hold Check Out)"
  "ml_step True (mrun (Some 1) [2] 1 {} {} Hold Check Out) (mrun (Some 1) [2, 2] 2 {} {} Hold ToPark Out)"
  "ml_step True (mrun (Some 1) [2, 2] 2 {} {} Hold ToPark Out) (mrun (Some 1) [2, 2] 2 {} {2} Hold Parked Out)"
  "ml_step True (mrun (Some 1) [2, 2] 2 {} {2} Hold Parked Out) (mrun (Some 1) [2, 2] 2 {} {2} Hold Parked Check)"
  "ml_step True (mrun (Some 1) [2, 2] 2 {} {2} Hold Parked Check) (mrun (Some 1) [2, 2, 3] 3 {} {2} Hold Parked ToPark)"
  "ml_step True (mrun (Some 1) [2, 2, 3] 3 {} {2} Hold Parked ToPark) (mrun (Some 1) [2, 2, 3] 3 {} {3, 2} Hold Parked Parked)"
  "ml_step True (mrun (Some 1) [2, 2, 3] 3 {} {3, 2} Hold Parked Parked) (mrun None [2, 3, 3] 2 {} {3} Out Parked Parked)"
  "ml_step True (mrun None [2, 3, 3] 2 {} {3} Out Parked Parked) (mrun None [2, 3, 3] 2 {} {3} Out Check Parked)"
  "ml_step True (mrun None [2, 3, 3] 2 {} {3} Out Check Parked) (mrun (Some 2) [2, 3, 3] 2 {} {3} Out Hold Parked)"
  "ml_step True (mrun (Some 2) [2, 3, 3] 2 {} {3} Out Hold Parked) (mrun None [3, 3, 3] 1 {2} {3} Out Out Parked)"
proof goal_cases
  case 1 show ?case using ml_call [of "mrun None [] 0 {} {} Out Out Out" 1 True] by (simp add: mrun_eval fun_upd_123)
next
  case 2 show ?case using ml_got [of "mrun None [] 0 {} {} Check Out Out" 1 _ True] by (simp add: mrun_eval fun_upd_123 places)
next
  case 3 show ?case using ml_call [of "mrun (Some 1) [] 0 {} {} Hold Out Out" 2 True] by (simp add: mrun_eval fun_upd_123)
next
  case 4 show ?case using ml_queue [of "mrun (Some 1) [] 0 {} {} Hold Check Out" 2 _ True] by (simp add: mrun_eval fun_upd_123 places)
next
  case 5 show ?case using ml_foreign [of True "mrun (Some 1) [2] 1 {} {} Hold ToPark Out" 2] by (simp add: mrun_eval places)
next
  case 6 show ?case using ml_park [of "mrun (Some 1) [2] 1 {2} {} Hold ToPark Out" 2 _ True] by (simp add: mrun_eval fun_upd_123 places)
next
  case 7 show ?case using ml_queue [of "mrun (Some 1) [2] 1 {} {} Hold Check Out" 2 _ True] by (simp add: mrun_eval fun_upd_123 places)
next
  case 8 show ?case using ml_park [of "mrun (Some 1) [2, 2] 2 {} {} Hold ToPark Out" 2 _ True] by (simp add: mrun_eval fun_upd_123 places)
next
  case 9 show ?case using ml_call [of "mrun (Some 1) [2, 2] 2 {} {2} Hold Parked Out" 3 True] by (simp add: mrun_eval fun_upd_123)
next
  case 10 show ?case using ml_queue [of "mrun (Some 1) [2, 2] 2 {} {2} Hold Parked Check" 3 _ True] by (simp add: mrun_eval fun_upd_123 places)
next
  case 11 show ?case using ml_park [of "mrun (Some 1) [2, 2, 3] 3 {} {2} Hold Parked ToPark" 3 _ True] by (simp add: mrun_eval fun_upd_123 places)
next
  case 12 show ?case using ml_unlock [of "mrun (Some 1) [2, 2, 3] 3 {} {3, 2} Hold Parked Parked" 1 _ _ True True] by (simp add: mrun_eval fun_upd_123 places)
next
  case 13 show ?case using ml_wake [of "mrun None [2, 3, 3] 2 {} {3} Out Parked Parked" 2 True] by (simp add: mrun_eval fun_upd_123)
next
  case 14 show ?case using ml_got [of "mrun None [2, 3, 3] 2 {} {3} Out Check Parked" 2 _ True] by (simp add: mrun_eval fun_upd_123 places)
next
  case 15 show ?case using ml_unlock [of "mrun (Some 2) [2, 3, 3] 2 {} {3} Out Hold Parked" 2 _ _ True True] by (simp add: mrun_eval fun_upd_123 places)
qed

lemma mrun_lost: "reach ml_init (ml_step True) (mrun None [3, 3, 3] 1 {2} {3} Out Out Parked)"
proof -
  note m = mrun_steps
  note r1 = reach_step [OF mrun_start m(1)]
  note r2 = reach_step [OF r1 m(2)]
  note r3 = reach_step [OF r2 m(3)]
  note r4 = reach_step [OF r3 m(4)]
  note r5 = reach_step [OF r4 m(5)]
  note r6 = reach_step [OF r5 m(6)]
  note r7 = reach_step [OF r6 m(7)]
  note r8 = reach_step [OF r7 m(8)]
  note r9 = reach_step [OF r8 m(9)]
  note r10 = reach_step [OF r9 m(10)]
  note r11 = reach_step [OF r10 m(11)]
  note r12 = reach_step [OF r11 m(12)]
  note r13 = reach_step [OF r12 m(13)]
  note r14 = reach_step [OF r13 m(14)]
  note r15 = reach_step [OF r14 m(15)]
  show ?thesis by (rule r15)
qed

theorem mutex_hands_over_witness: "3 \<in> set (ms_waiting (mrun None [3, 3, 3] 1 {2} {3} Out Out Parked))"
  using mutex_hands_over [OF mrun_lost, of 3] by (simp add: mrun_def)


end
