(* ===== verification/Checkpoint.thy ===== *)
theory Checkpoint
  imports CapObject
begin

text \<open>
  \<open>caprock-cap/src/checkpoint.rs\<close>: which capabilities, IPC relations and parts of a thread may travel to
  another machine, and the checkpoint as a sequence of bytes. Reading an index out of range is a panic
  (\<open>None\<close>); \<open>Inl\<close> is an error the code names. The \<open>debug_assert\<close> of \<open>encode\<close> is left out.
\<close>

section \<open>What may travel\<close>

record Scope =
  sco_endpoints :: "u32 list"
  sco_notifications :: "u32 list"
  sco_threads :: "u64 list"
  sco_pds :: "u32 list"

definition Scope_EMPTY :: Scope where
  "Scope_EMPTY = \<lparr>sco_endpoints = [], sco_notifications = [], sco_threads = [], sco_pds = []\<rparr>"

datatype LocalReason = DeviceWindow | InterruptLine | DmaRegion | PendingReply | HandlerBinding | PeerNotInScope | ThreadNotInScope
  | PdNotInScope | LoaderSource | DebugAuthority | MachineLocalNumber

datatype Precondition = SameTickSemantics

datatype ExternKind = XRegion u64 | XEndpoint u32 | XNotification u32 | XTcb u32 | XSchedContext u32 u32

datatype Transfer = Portable ExternKind "Precondition option" | Refused LocalReason

definition Transfer_is_portable :: "Transfer \<Rightarrow> bool" where
  "Transfer_is_portable t \<longleftrightarrow> (case t of Portable _ _ \<Rightarrow> True | Refused _ \<Rightarrow> False)"

fun index_of :: "'a list \<Rightarrow> 'a \<Rightarrow> nat option" where
  "index_of [] x = None"
| "index_of (y # ys) x = (if y = x then Some 0 else map_option Suc (index_of ys x))"

definition ck_position :: "'a list \<Rightarrow> 'a \<Rightarrow> u32 option" where
  "ck_position xs x = map_option of_nat (index_of xs x)"

definition classify :: "ObjectKind \<Rightarrow> Scope \<Rightarrow> Transfer" where
  "classify kind scope = (case kind of
     Memory r \<Rightarrow> Portable (XRegion (r_len r)) None
   | SchedContext budget period \<Rightarrow> Portable (XSchedContext budget period) (Some SameTickSemantics)
   | Endpoint i \<Rightarrow> (case ck_position (sco_endpoints scope) i of
       Some k \<Rightarrow> Portable (XEndpoint k) None | None \<Rightarrow> Refused PeerNotInScope)
   | Notification i \<Rightarrow> (case ck_position (sco_notifications scope) i of
       Some k \<Rightarrow> Portable (XNotification k) None | None \<Rightarrow> Refused PeerNotInScope)
   | Tcb raw \<Rightarrow> (case ck_position (sco_threads scope) raw of
       Some k \<Rightarrow> Portable (XTcb k) None | None \<Rightarrow> Refused ThreadNotInScope)
   | PdControl _ \<Rightarrow> Refused PdNotInScope
   | Reply _ _ \<Rightarrow> Refused PendingReply
   | Mmio _ _ \<Rightarrow> Refused DeviceWindow
   | Irq _ \<Rightarrow> Refused InterruptLine
   | Dma _ _ _ _ \<Rightarrow> Refused DmaRegion
   | Loader _ \<Rightarrow> Refused LoaderSource
   | SyscallHandler _ _ _ _ \<Rightarrow> Refused HandlerBinding
   | FaultHandler _ _ _ _ \<Rightarrow> Refused HandlerBinding
   | Debuggable _ \<Rightarrow> Refused DebugAuthority)"

fun classify_from :: "nat \<Rightarrow> ObjectKind option list \<Rightarrow> Scope \<Rightarrow> (nat \<times> LocalReason) + unit" where
  "classify_from slot [] scope = Inr ()"
| "classify_from slot (k # ks) scope =
     (case k of
        None \<Rightarrow> classify_from (slot + 1) ks scope
      | Some kd \<Rightarrow> (case classify kd scope of Refused r \<Rightarrow> Inl (slot, r) | Portable _ _ \<Rightarrow> classify_from (slot + 1) ks scope))"

definition classify_all :: "ObjectKind option list \<Rightarrow> Scope \<Rightarrow> (nat \<times> LocalReason) + unit" where
  "classify_all kinds scope = classify_from 0 kinds scope"

datatype Channel = ChEndpoint u32 | ChNotification u32

datatype EdgeRole = RoleSender | RoleReceiver | RoleCaller | RoleReplyOwner

record Edge =
  ed_channel :: Channel
  ed_thread :: u64
  ed_role :: EdgeRole

datatype CutRefusal = CutChannelNotInScope | CutPeerNotInScope

definition thread_in_scope :: "u64 \<Rightarrow> u64 \<Rightarrow> Scope \<Rightarrow> bool" where
  "thread_in_scope th subject scope \<longleftrightarrow> th = subject \<or> th \<in> set (sco_threads scope)"

definition channel_in_scope :: "Channel \<Rightarrow> Scope \<Rightarrow> bool" where
  "channel_in_scope ch scope \<longleftrightarrow> (case ch of ChEndpoint i \<Rightarrow> i \<in> set (sco_endpoints scope) | ChNotification i \<Rightarrow> i \<in> set (sco_notifications scope))"

definition classify_edge :: "Edge \<Rightarrow> u64 \<Rightarrow> Scope \<Rightarrow> CutRefusal option" where
  "classify_edge e subject scope =
     (case (channel_in_scope (ed_channel e) scope, thread_in_scope (ed_thread e) subject scope) of
        (True, True) \<Rightarrow> None | (False, False) \<Rightarrow> None | (False, True) \<Rightarrow> Some CutChannelNotInScope | (True, False) \<Rightarrow> Some CutPeerNotInScope)"

fun cut_from :: "nat \<Rightarrow> u64 \<Rightarrow> Edge list \<Rightarrow> Scope \<Rightarrow> (nat \<times> CutRefusal) + unit" where
  "cut_from i subject [] scope = Inr ()"
| "cut_from i subject (e # es) scope = (case classify_edge e subject scope of Some r \<Rightarrow> Inl (i, r) | None \<Rightarrow> cut_from (i + 1) subject es scope)"

definition classify_cut :: "u64 \<Rightarrow> Edge list \<Rightarrow> Scope \<Rightarrow> (nat \<times> CutRefusal) + unit" where
  "classify_cut subject edges scope = cut_from 0 subject edges scope"

datatype BuildRefusal = BCap nat LocalReason | BCut nat CutRefusal

section \<open>The image\<close>

definition CK_MAGIC :: "u8 list" where "CK_MAGIC = [0x53, 0x4C, 0x34, 0x4B, 0x43, 0x4B, 0x50, 0x54]"
definition CK_VERSION :: u32 where "CK_VERSION = 1"
definition MAX_CAPS :: nat where "MAX_CAPS = 16"
definition OFF_BODY :: nat where "OFF_BODY = 16"
definition BODY_FIXED :: nat where "BODY_FIXED = 32 + 8 + 8 + 8 + 4 + 4"
definition CAP_BYTES :: nat where "CAP_BYTES = 16"
definition PRECOND_SAME_TICK :: u32 where "PRECOND_SAME_TICK = 1"

definition image_bytes :: "nat \<Rightarrow> nat" where
  "image_bytes n = OFF_BODY + BODY_FIXED + n * CAP_BYTES + 4"

datatype ImageError = NoImage | Version u32 | Truncated | CapOverflow | UnknownCapTag u32 | Checksum | ForeignKernel | BufferTooSmall

record Image =
  im_kernel_hash :: "u8 list"
  im_progress :: u64
  im_nonce :: u64
  im_epoch :: u64
  im_caps :: "ExternKind option list"
  im_cap_count :: nat
  im_precondition_bits :: u32

definition tag_of :: "ExternKind \<Rightarrow> u32 \<times> u64" where
  "tag_of k = (case k of
     XRegion len \<Rightarrow> (1, len)
   | XEndpoint i \<Rightarrow> (2, ucast i)
   | XNotification i \<Rightarrow> (3, ucast i)
   | XTcb i \<Rightarrow> (4, ucast i)
   | XSchedContext budget period \<Rightarrow> (5, ucast budget OR push_bit 32 (ucast period)))"

definition extern_kind_of :: "u32 \<Rightarrow> u64 \<Rightarrow> ImageError + ExternKind" where
  "extern_kind_of tag v =
     (if tag = 1 then Inr (XRegion v)
      else if tag = 2 then Inr (XEndpoint (ucast v))
      else if tag = 3 then Inr (XNotification (ucast v))
      else if tag = 4 then Inr (XTcb (ucast v))
      else if tag = 5 then Inr (XSchedContext (ucast v) (ucast (drop_bit 32 v)))
      else Inl (UnknownCapTag tag))"

definition crc32_bit :: "u32 \<Rightarrow> u32" where
  "crc32_bit crc = (let m = - (crc AND 1) in drop_bit 1 crc XOR (0xEDB88320 AND m))"

definition crc32_byte :: "u32 \<Rightarrow> u8 \<Rightarrow> u32" where
  "crc32_byte crc b = (crc32_bit ^^ 8) (crc XOR ucast b)"

definition crc32 :: "u8 list \<Rightarrow> u32" where
  "crc32 data = NOT (foldl crc32_byte 0xFFFFFFFF data)"

section \<open>Bytes\<close>

text \<open>\<open>to_le_bytes\<close> and \<open>from_le_bytes\<close>, slices that panic out of range.\<close>

definition to_le32 :: "u32 \<Rightarrow> u8 list" where
  "to_le32 w = map (\<lambda>i. ucast (drop_bit (8 * i) w)) [0..<4]"

definition to_le64 :: "u64 \<Rightarrow> u8 list" where
  "to_le64 w = map (\<lambda>i. ucast (drop_bit (8 * i) w)) [0..<8]"

definition from_le :: "u8 list \<Rightarrow> 'a :: len word" where
  "from_le bs = foldr (\<lambda>b w. ucast b OR push_bit 8 w) bs 0"

definition byte_slice :: "u8 list \<Rightarrow> nat \<Rightarrow> nat \<Rightarrow> u8 list option" where
  "byte_slice b off n = (if off + n \<le> length b then Some (take n (drop off b)) else None)"

definition le32 :: "u8 list \<Rightarrow> nat \<Rightarrow> u32 option" where
  "le32 b off = map_option from_le (byte_slice b off 4)"

definition le64 :: "u8 list \<Rightarrow> nat \<Rightarrow> u64 option" where
  "le64 b off = map_option from_le (byte_slice b off 8)"

definition put :: "u8 list \<Rightarrow> nat \<Rightarrow> u8 list \<Rightarrow> u8 list option" where
  "put out off bs = (if off + length bs \<le> length out then Some (take off out @ bs @ drop (off + length bs) out) else None)"

section \<open>Building, writing, reading\<close>

fun build_caps :: "nat \<Rightarrow> ObjectKind option list \<Rightarrow> Scope \<Rightarrow> Image \<Rightarrow> BuildRefusal + Image" where
  "build_caps slot [] scope img = Inr img"
| "build_caps slot (k # ks) scope img =
     (case k of
        None \<Rightarrow> build_caps (slot + 1) ks scope img
      | Some kd \<Rightarrow>
          (case classify kd scope of
             Refused r \<Rightarrow> Inl (BCap slot r)
           | Portable kind pre \<Rightarrow>
               if im_cap_count img = MAX_CAPS then Inl (BCap slot PeerNotInScope)
               else build_caps (slot + 1) ks scope
                 (img\<lparr>im_caps := (im_caps img)[im_cap_count img := Some kind], im_cap_count := im_cap_count img + 1,
                   im_precondition_bits := (if pre = Some SameTickSemantics then im_precondition_bits img OR PRECOND_SAME_TICK else im_precondition_bits img)\<rparr>)))"

definition Image_build :: "u8 list \<Rightarrow> u64 \<Rightarrow> u64 \<Rightarrow> u64 \<Rightarrow> ObjectKind option list \<Rightarrow> Scope \<Rightarrow> u64 \<Rightarrow> Edge list \<Rightarrow> BuildRefusal + Image" where
  "Image_build kernel_hash progress nonce epoch kinds scope subject edges =
     (case classify_all kinds scope of
        Inl (s, r) \<Rightarrow> Inl (BCap s r)
      | Inr _ \<Rightarrow>
          (case classify_cut subject edges scope of
             Inl (i, r) \<Rightarrow> Inl (BCut i r)
           | Inr _ \<Rightarrow> build_caps 0 kinds scope
               \<lparr>im_kernel_hash = kernel_hash, im_progress = progress, im_nonce = nonce, im_epoch = epoch,
                im_caps = replicate MAX_CAPS None, im_cap_count = 0, im_precondition_bits = 0\<rparr>))"

fun encode_caps :: "ExternKind option list \<Rightarrow> u8 list \<Rightarrow> nat \<Rightarrow> (u8 list \<times> nat) option" where
  "encode_caps [] out off = Some (out, off)"
| "encode_caps (k # ks) out off =
     (case k of
        None \<Rightarrow> encode_caps ks out off
      | Some kd \<Rightarrow> do {
          let (tag, v) = tag_of kd;
          out1 \<leftarrow> put out off (to_le32 tag);
          out2 \<leftarrow> put out1 (off + 8) (to_le64 v);
          encode_caps ks out2 (off + 16)
        })"

definition Image_encode :: "Image \<Rightarrow> u8 list \<Rightarrow> (u8 list \<times> (ImageError + nat)) option" where
  "Image_encode img out =
     (let total = image_bytes (im_cap_count img) in
      if length out < total then Some (out, Inl BufferTooSmall)
      else do {
        let body_len = BODY_FIXED + im_cap_count img * CAP_BYTES;
        let out = replicate total 0 @ drop total out;
        out \<leftarrow> put out 0 CK_MAGIC;
        out \<leftarrow> put out 8 (to_le32 CK_VERSION);
        out \<leftarrow> put out 12 (to_le32 (of_nat body_len));
        out \<leftarrow> put out 16 (im_kernel_hash img);
        out \<leftarrow> put out 48 (to_le64 (im_progress img));
        out \<leftarrow> put out 56 (to_le64 (im_nonce img));
        out \<leftarrow> put out 64 (to_le64 (im_epoch img));
        out \<leftarrow> put out 72 (to_le32 (of_nat (im_cap_count img)));
        out \<leftarrow> put out 76 (to_le32 (im_precondition_bits img));
        (out, off) \<leftarrow> encode_caps (take (im_cap_count img) (im_caps img)) out 80;
        out \<leftarrow> put out off (to_le32 (crc32 (take off out)));
        Some (out, Inr total)
      })"

fun decode_caps :: "u8 list \<Rightarrow> nat list \<Rightarrow> nat \<Rightarrow> Image \<Rightarrow> (ImageError + Image) option" where
  "decode_caps bytes [] off img = Some (Inr img)"
| "decode_caps bytes (i # is) off img = do {
     tag \<leftarrow> le32 bytes off;
     v \<leftarrow> le64 bytes (off + 8);
     (case extern_kind_of tag v of
        Inl e \<Rightarrow> Some (Inl e)
      | Inr k \<Rightarrow> decode_caps bytes is (off + CAP_BYTES) (img\<lparr>im_caps := (im_caps img)[i := Some k]\<rparr>))
   }"

definition Image_decode :: "u8 list \<Rightarrow> u8 list \<Rightarrow> (ImageError + Image) option" where
  "Image_decode bytes expect_kernel =
     (if length bytes < OFF_BODY then Some (Inl Truncated)
      else do {
        magic \<leftarrow> byte_slice bytes 0 8;
        if magic \<noteq> CK_MAGIC then Some (Inl NoImage)
        else do {
          version \<leftarrow> le32 bytes 8;
          if version \<noteq> CK_VERSION then Some (Inl (Version version))
          else do {
            body_len32 \<leftarrow> le32 bytes 12;
            let body_len = unat body_len32;
            if body_len < BODY_FIXED \<or> (body_len - BODY_FIXED) mod CAP_BYTES \<noteq> 0 then Some (Inl Truncated)
            else if length bytes < OFF_BODY + body_len + 4 then Some (Inl Truncated)
            else do {
              cap_count32 \<leftarrow> le32 bytes (OFF_BODY + 56);
              let cap_count = unat cap_count32;
              if cap_count > MAX_CAPS then Some (Inl CapOverflow)
              else if BODY_FIXED + cap_count * CAP_BYTES \<noteq> body_len then Some (Inl Truncated)
              else do {
                stored \<leftarrow> le32 bytes (OFF_BODY + body_len);
                if crc32 (take (OFF_BODY + body_len) bytes) \<noteq> stored then Some (Inl Checksum)
                else do {
                  kernel_hash \<leftarrow> byte_slice bytes OFF_BODY 32;
                  if kernel_hash \<noteq> expect_kernel then Some (Inl ForeignKernel)
                  else do {
                    progress \<leftarrow> le64 bytes (OFF_BODY + 32);
                    nonce \<leftarrow> le64 bytes (OFF_BODY + 40);
                    epoch \<leftarrow> le64 bytes (OFF_BODY + 48);
                    precond \<leftarrow> le32 bytes (OFF_BODY + 60);
                    decode_caps bytes [0..<cap_count] (OFF_BODY + BODY_FIXED)
                      \<lparr>im_kernel_hash = kernel_hash, im_progress = progress, im_nonce = nonce, im_epoch = epoch,
                       im_caps = replicate MAX_CAPS None, im_cap_count = cap_count, im_precondition_bits = precond\<rparr>
                  }
                }
              }
            }
          }
        }
      })"

section \<open>Parts of a thread\<close>

datatype ThreadStatePart = TRegisters | TFpState | TStack u64 | TPriority | TAccount | TBlockReasons | TParkWake | TReplyToken u32 | TPendingBadges
  | THandlerBinding u32 | TCoreAffinity | TCycleStamp | TKernelStack

datatype ThreadTransfer = TPortable bool "Precondition option" | TRefused LocalReason

definition ThreadTransfer_is_secret :: "ThreadTransfer \<Rightarrow> bool" where
  "ThreadTransfer_is_secret t \<longleftrightarrow> (case t of TPortable secret _ \<Rightarrow> secret | TRefused _ \<Rightarrow> False)"

definition classify_thread_part :: "ThreadStatePart \<Rightarrow> Scope \<Rightarrow> ThreadTransfer" where
  "classify_thread_part part scope = (case part of
     TRegisters \<Rightarrow> TPortable True None | TFpState \<Rightarrow> TPortable True None
   | TStack _ \<Rightarrow> TPortable True None | TKernelStack \<Rightarrow> TPortable True None
   | TPriority \<Rightarrow> TPortable False None | TBlockReasons \<Rightarrow> TPortable False None | TParkWake \<Rightarrow> TPortable False None
   | TPendingBadges \<Rightarrow> TPortable False None
   | TAccount \<Rightarrow> TPortable False (Some SameTickSemantics)
   | TReplyToken ep \<Rightarrow> (case ck_position (sco_endpoints scope) ep of Some _ \<Rightarrow> TPortable False None | None \<Rightarrow> TRefused PeerNotInScope)
   | THandlerBinding pd \<Rightarrow> (case ck_position (sco_pds scope) pd of Some _ \<Rightarrow> TPortable False None | None \<Rightarrow> TRefused PdNotInScope)
   | TCoreAffinity \<Rightarrow> TRefused MachineLocalNumber
   | TCycleStamp \<Rightarrow> TRefused MachineLocalNumber)"

definition image_is_confidential :: "ThreadStatePart list \<Rightarrow> Scope \<Rightarrow> bool" where
  "image_is_confidential parts scope \<longleftrightarrow> list_ex (\<lambda>p. ThreadTransfer_is_secret (classify_thread_part p scope)) parts"

definition THREAD_STATE_PARTS :: "ThreadStatePart list" where
  "THREAD_STATE_PARTS = [TRegisters, TFpState, TStack 0, TKernelStack, TPriority, TAccount, TBlockReasons, TParkWake, TPendingBadges, TCoreAffinity]"

end
