(* ===== verification/CheckpointBytes.thy ===== *)
theory CheckpointBytes
  imports Checkpoint
begin

text \<open>
  The bytes of the checkpoint format. A field of fixed width is an encoding with a decoding that undoes it in
  both directions (locale \<open>byte_field\<close>): a field is read back where it was written, and every change of one of
  its bytes changes its value. The checksum tells two texts apart that differ in one byte.
\<close>

section \<open>Slices\<close>

lemma byte_slice_prefix [simp]: "length bs = n \<Longrightarrow> byte_slice (bs @ t) 0 n = Some bs"
  by (simp add: byte_slice_def)

lemma byte_slice_all [simp]: "length bs = n \<Longrightarrow> byte_slice bs 0 n = Some bs"
  by (simp add: byte_slice_def)

lemma byte_slice_skip [simp]: "length d \<le> off \<Longrightarrow> byte_slice (d @ t) off n = byte_slice t (off - length d) n"
  by (auto simp: byte_slice_def)

lemma byte_slice_in_range: "off + n \<le> length b \<Longrightarrow> byte_slice b off n = Some (take n (drop off b))"
  by (simp add: byte_slice_def)

lemma byte_slice_SomeD: "byte_slice b off n = Some s \<Longrightarrow> length s = n \<and> off + n \<le> length b \<and> s = take n (drop off b)"
  by (auto simp: byte_slice_def split: if_splits)

lemma byte_slice_outside: "i < off \<or> off + n \<le> i \<Longrightarrow> byte_slice (b[i := x]) off n = byte_slice b off n"
  by (auto simp: byte_slice_def drop_update_swap take_update_cancel drop_update_cancel not_less)

lemma put_gap:
  assumes "off = length d + g" and "g + length bs \<le> m"
  shows "put (d @ replicate m 0 @ t) off bs = Some ((d @ replicate g 0 @ bs) @ replicate (m - g - length bs) 0 @ t)"
  using assms by (auto simp: put_def min_def)

lemma put_next:
  assumes "off = length d" and "length bs \<le> m"
  shows "put (d @ replicate m 0 @ t) off bs = Some ((d @ bs) @ replicate (m - length bs) 0 @ t)"
  using put_gap [of off d 0 bs m t] assms by simp

section \<open>Fields of fixed width\<close>

locale byte_field =
  fixes enc :: "'a \<Rightarrow> u8 list" and dec :: "u8 list \<Rightarrow> 'a" and width :: nat
  assumes enc_width: "length (enc v) = width"
    and dec_enc: "dec (enc v) = v"
    and enc_dec: "length bs = width \<Longrightarrow> enc (dec bs) = bs"
begin

lemma read_here: "map_option dec (byte_slice (enc v @ t) 0 width) = Some v"
  by (simp add: enc_width dec_enc)

lemma read_last: "map_option dec (byte_slice (enc v) 0 width) = Some v"
  by (simp add: enc_width dec_enc)

lemma dec_inject: "length bs = width \<Longrightarrow> length cs = width \<Longrightarrow> dec bs = dec cs \<Longrightarrow> bs = cs"
  by (metis enc_dec)

lemma byte_changed:
  assumes "map_option dec (byte_slice b off width) = Some v" "map_option dec (byte_slice (b[i := x]) off width) = Some v"
    and "off \<le> i" "i < off + width"
  shows "x = b ! i"
proof -
  obtain s s' where s: "byte_slice b off width = Some s" "byte_slice (b[i := x]) off width = Some s'" "dec s = dec s'"
    using assms by auto
  with byte_slice_SomeD have len: "length s = width" "length s' = width" and eq: "s = take width (drop off b)"
      "s' = take width (drop off (b[i := x]))" and ran: "off + width \<le> length b"
    by fastforce+
  have "s = s'" using dec_inject len s(3) by blast
  then have "s ! (i - off) = s' ! (i - off)" by simp
  then show ?thesis using eq ran assms(3,4) by simp
qed

end

lemma from_le_bit:
  assumes "n < LENGTH('a :: len)"
  shows "bit (from_le bs :: 'a word) n \<longleftrightarrow> n div 8 < length bs \<and> bit (bs ! (n div 8)) (n mod 8)"
  using assms
proof (induction bs arbitrary: n)
  case Nil
  then show ?case by (simp add: from_le_def)
next
  case (Cons b bs)
  show ?case
  proof (cases "n < 8")
    case True
    then show ?thesis using Cons.prems by (simp add: from_le_def bit_simps)
  next
    case False
    have "\<not> bit b n" using False by (simp add: bit_word.rep_eq impossible_bit)
    moreover obtain m where m: "n = m + 8" using False by (metis add.commute le_Suc_ex not_less)
    moreover have "(m + 8) div 8 = Suc (m div 8)" by simp
    ultimately show ?thesis using Cons.IH [of m] Cons.prems
      by (simp only: nth_Cons_Suc length_Cons Suc_less_eq) (simp add: from_le_def bit_simps)
  qed
qed

lemma to_le32_length [simp]: "length (to_le32 w) = 4"
  by (simp add: to_le32_def)

lemma to_le64_length [simp]: "length (to_le64 w) = 8"
  by (simp add: to_le64_def)

interpretation f32: byte_field to_le32 from_le 4
proof unfold_locales
  fix v :: u32
  show "from_le (to_le32 v) = v"
    by (rule bit_word_eqI) (simp add: from_le_bit to_le32_def bit_simps less_mult_imp_div_less)
next
  fix bs :: "u8 list" assume "length bs = 4"
  then show "to_le32 (from_le bs) = bs"
    by (intro nth_equalityI bit_word_eqI) (simp_all add: to_le32_def bit_simps from_le_bit)
qed simp

interpretation f64: byte_field to_le64 from_le 8
proof unfold_locales
  fix v :: u64
  show "from_le (to_le64 v) = v"
    by (rule bit_word_eqI) (simp add: from_le_bit to_le64_def bit_simps less_mult_imp_div_less)
next
  fix bs :: "u8 list" assume "length bs = 8"
  then show "to_le64 (from_le bs) = bs"
    by (intro nth_equalityI bit_word_eqI) (simp_all add: to_le64_def bit_simps from_le_bit)
qed simp

lemma le32_skip [simp]: "length d \<le> off \<Longrightarrow> le32 (d @ t) off = le32 t (off - length d)"
  by (simp add: le32_def)

lemma le64_skip [simp]: "length d \<le> off \<Longrightarrow> le64 (d @ t) off = le64 t (off - length d)"
  by (simp add: le64_def)

lemma le32_here [simp]: "le32 (to_le32 w @ t) 0 = Some w"
  using f32.read_here by (simp add: le32_def)

lemma le64_here [simp]: "le64 (to_le64 w @ t) 0 = Some w"
  using f64.read_here by (simp add: le64_def)

lemma le32_in_range: "off + 4 \<le> length b \<Longrightarrow> \<exists>w. le32 b off = Some w"
  by (simp add: le32_def byte_slice_def)

lemma le64_in_range: "off + 8 \<le> length b \<Longrightarrow> \<exists>w. le64 b off = Some w"
  by (simp add: le64_def byte_slice_def)

lemma le32_outside: "i < off \<or> off + 4 \<le> i \<Longrightarrow> le32 (b[i := x]) off = le32 b off"
  by (simp add: le32_def byte_slice_outside)

lemma extern_kind_of_tag_of [simp]: "extern_kind_of (fst (tag_of k)) (snd (tag_of k)) = Inr k"
proof (cases k)
  case (XSchedContext budget period)
  have "(ucast (ucast budget OR push_bit 32 (ucast period) :: u64) :: u32) = budget"
    by (rule bit_word_eqI) (auto simp: bit_simps)
  moreover have "(ucast (drop_bit 32 (ucast budget OR push_bit 32 (ucast period) :: u64)) :: u32) = period"
    by (rule bit_word_eqI) (auto simp: bit_simps dest: bit_imp_le_length)
  ultimately show ?thesis using XSchedContext by (simp add: tag_of_def extern_kind_of_def)
next
  case (XEndpoint x)
  moreover have "(ucast (ucast x :: u64) :: u32) = x" by (rule bit_word_eqI) (simp add: bit_simps)
  ultimately show ?thesis by (simp add: tag_of_def extern_kind_of_def)
next
  case (XNotification x)
  moreover have "(ucast (ucast x :: u64) :: u32) = x" by (rule bit_word_eqI) (simp add: bit_simps)
  ultimately show ?thesis by (simp add: tag_of_def extern_kind_of_def)
next
  case (XTcb x)
  moreover have "(ucast (ucast x :: u64) :: u32) = x" by (rule bit_word_eqI) (simp add: bit_simps)
  ultimately show ?thesis by (simp add: tag_of_def extern_kind_of_def)
qed (simp add: tag_of_def extern_kind_of_def)

section \<open>The checksum\<close>

lemma xor_left_cancel: "(a XOR b = a XOR c) \<longleftrightarrow> b = (c :: 'a :: len word)"
  by (metis xor.assoc xor_self_eq xor.left_neutral)

lemma xor_right_cancel: "(b XOR a = c XOR a) \<longleftrightarrow> b = (c :: 'a :: len word)"
  by (metis xor.assoc xor_self_eq xor.right_neutral)

lemma neg_low_bit: "- (c AND 1 :: u32) = (if bit c 0 then - 1 else 0)"
proof -
  have "c AND 1 = (if bit c 0 then 1 else 0)"
    by (simp add: and_one_eq mod_2_eq_odd bit_0)
  then show ?thesis by simp
qed

lemma crc32_bit_eq: "crc32_bit c = drop_bit 1 c XOR (if bit c 0 then 0xEDB88320 else 0)"
  by (simp add: crc32_bit_def Let_def neg_low_bit)

lemma crc32_bit_high: "bit (crc32_bit c) 31 \<longleftrightarrow> bit c 0"
proof -
  have "\<not> bit c 32" using bit_imp_le_length [of c 32] by auto
  then show ?thesis by (simp add: crc32_bit_eq bit_simps)
qed

lemma crc32_bit_inject: "crc32_bit c = crc32_bit d \<longleftrightarrow> c = d"
proof
  assume eq: "crc32_bit c = crc32_bit d"
  then have low: "bit c 0 \<longleftrightarrow> bit d 0" using crc32_bit_high by metis
  then have dr: "drop_bit 1 c = drop_bit 1 d"
    using eq by (simp only: crc32_bit_eq xor_right_cancel)
  show "c = d"
  proof (rule bit_word_eqI)
    fix n assume "n < LENGTH(32)"
    show "bit c n \<longleftrightarrow> bit d n"
    proof (cases n)
      case (Suc m)
      have "bit (drop_bit 1 c) m \<longleftrightarrow> bit (drop_bit 1 d) m" using dr by simp
      then show ?thesis using Suc by (simp add: bit_drop_bit_eq)
    qed (use low in simp)
  qed
qed simp

lemma crc32_bits_inject: "(crc32_bit ^^ n) c = (crc32_bit ^^ n) d \<longleftrightarrow> c = d"
  by (induction n) (simp_all add: crc32_bit_inject)

lemma crc32_byte_crc: "crc32_byte c b = crc32_byte d b \<longleftrightarrow> c = d"
  by (simp add: crc32_byte_def crc32_bits_inject xor_right_cancel)

lemma crc32_byte_byte: "crc32_byte c b = crc32_byte c b' \<longleftrightarrow> b = b'"
proof -
  have "(ucast (ucast c :: u32) :: u8) = c" for c :: u8 by (rule bit_word_eqI) (simp add: bit_simps)
  then have "(ucast b :: u32) = ucast b' \<longleftrightarrow> b = b'" by metis
  then show ?thesis by (simp add: crc32_byte_def crc32_bits_inject xor_left_cancel)
qed

lemma crc32_fold_inject: "foldl crc32_byte c bs = foldl crc32_byte d bs \<longleftrightarrow> c = d"
  by (induction bs arbitrary: c d) (simp_all add: crc32_byte_crc)

lemma crc32_one_byte:
  assumes "i < length bs" "crc32 (bs[i := x]) = crc32 bs"
  shows "x = bs ! i"
proof -
  have "bs = take i bs @ bs ! i # drop (Suc i) bs" using assms(1) by (simp add: id_take_nth_drop)
  moreover have "bs[i := x] = take i bs @ x # drop (Suc i) bs" using assms(1) by (simp add: upd_conv_take_nth_drop)
  ultimately have "crc32 (take i bs @ x # drop (Suc i) bs) = crc32 (take i bs @ bs ! i # drop (Suc i) bs)"
    using assms(2) by metis
  then show ?thesis by (simp add: crc32_def crc32_fold_inject crc32_byte_byte)
qed

end
