(* ===== verification/CheckpointProps.thy ===== *)
theory CheckpointProps
  imports CheckpointBytes
begin

text \<open>
  What the checkpoint promises: it is built exactly for capabilities and IPC relations that may travel, what is
  written is read back by the same kernel and by no other, and one damaged byte is noticed.
\<close>

section \<open>Building\<close>

text \<open>The capabilities that may travel, as a specification: values and relations inside the scope.\<close>

definition travels :: "Scope \<Rightarrow> ObjectKind \<Rightarrow> bool" where
  "travels scope kd \<longleftrightarrow> (case kd of
     Memory _ \<Rightarrow> True | SchedContext _ _ \<Rightarrow> True
   | Endpoint i \<Rightarrow> i \<in> set (sco_endpoints scope)
   | Notification i \<Rightarrow> i \<in> set (sco_notifications scope)
   | Tcb t \<Rightarrow> t \<in> set (sco_threads scope)
   | _ \<Rightarrow> False)"

text \<open>The name a travelling capability has on the other machine.\<close>

definition extern :: "Scope \<Rightarrow> ObjectKind \<Rightarrow> ExternKind" where
  "extern scope kd = (case classify kd scope of Portable k _ \<Rightarrow> k | Refused _ \<Rightarrow> XRegion 0)"

definition held_kinds :: "ObjectKind option list \<Rightarrow> ObjectKind list" where
  "held_kinds kinds = List.map_filter (\<lambda>k. k) kinds"

lemma held_kinds_simps [simp]: "held_kinds [] = []" "held_kinds (None # ks) = held_kinds ks" "held_kinds (Some kd # ks) = kd # held_kinds ks"
  by (simp_all add: held_kinds_def map_filter_simps)

lemma index_of_None [simp]: "index_of xs x = None \<longleftrightarrow> x \<notin> set xs"
  by (induction xs) auto

lemma index_of_Some: "index_of xs x = Some k \<Longrightarrow> x \<in> set xs"
  using index_of_None [of xs x] by force

lemma classify_portable: "(\<exists>k p. classify kd scope = Portable k p) \<longleftrightarrow> travels scope kd"
  by (cases kd) (auto simp: classify_def travels_def ck_position_def split: option.splits dest: index_of_Some)

lemma classify_travels:
  assumes "travels scope kd"
  shows "classify kd scope = Portable (extern scope kd) (case kd of SchedContext _ _ \<Rightarrow> Some SameTickSemantics | _ \<Rightarrow> None)"
  using assms by (cases kd) (auto simp: extern_def classify_def travels_def ck_position_def split: option.splits)

lemma classify_refused: "\<not> travels scope kd \<Longrightarrow> \<exists>r. classify kd scope = Refused r"
  using classify_portable [of kd scope] by (cases "classify kd scope") auto

lemma classify_from_exact: "(classify_from slot kinds scope = Inr ()) \<longleftrightarrow> list_all (travels scope) (held_kinds kinds)"
proof (induction kinds arbitrary: slot)
  case (Cons k ks)
  show ?case
  proof (cases k)
    case (Some kd)
    then show ?thesis using Cons classify_travels [of scope kd] classify_refused [of scope kd]
      by (cases "travels scope kd") auto
  qed (simp add: Cons)
qed simp

text \<open>An IPC relation is cut when one of its ends travels and the other stays.\<close>

definition uncut :: "u64 \<Rightarrow> Scope \<Rightarrow> Edge \<Rightarrow> bool" where
  "uncut subject scope e \<longleftrightarrow> (channel_in_scope (ed_channel e) scope \<longleftrightarrow> thread_in_scope (ed_thread e) subject scope)"

lemma classify_edge_None: "classify_edge e subject scope = None \<longleftrightarrow> uncut subject scope e"
  by (auto simp: classify_edge_def uncut_def split: bool.splits)

lemma cut_from_exact: "(cut_from i subject edges scope = Inr ()) \<longleftrightarrow> list_all (uncut subject scope) edges"
  by (induction edges arbitrary: i) (auto simp: classify_edge_None [symmetric] split: option.splits)

definition needs_tick :: "ObjectKind list \<Rightarrow> bool" where
  "needs_tick kds \<longleftrightarrow> list_ex (\<lambda>kd. case kd of SchedContext _ _ \<Rightarrow> True | _ \<Rightarrow> False) kds"

text \<open>The image of a list of held_kinds capabilities.\<close>

definition filled :: "ExternKind list \<Rightarrow> ExternKind option list" where
  "filled xs = map Some xs @ replicate (MAX_CAPS - length xs) None"

lemma filled_length: "length xs \<le> MAX_CAPS \<Longrightarrow> length (filled xs) = MAX_CAPS"
  by (simp add: filled_def)

lemma filled_update: "length xs < MAX_CAPS \<Longrightarrow> (filled xs)[length xs := Some x] = filled (xs @ [x])"
  by (cases "MAX_CAPS - length xs") (auto simp: filled_def list_update_append Suc_diff_Suc [symmetric])

definition precond_after :: "u32 \<Rightarrow> ObjectKind list \<Rightarrow> u32" where
  "precond_after bits kds = (if needs_tick kds then bits OR PRECOND_SAME_TICK else bits)"

lemma precond_after_simps:
  "precond_after bits [] = bits"
  "precond_after bits (kd # kds) =
     precond_after (if (case kd of SchedContext _ _ \<Rightarrow> Some SameTickSemantics | _ \<Rightarrow> None) = Some SameTickSemantics
       then bits OR PRECOND_SAME_TICK else bits) kds"
  by (auto simp: precond_after_def needs_tick_def or.assoc split: ObjectKind.splits)

lemma build_caps_exact:
  assumes "list_all (travels scope) (held_kinds kinds)" "im_caps img = filled xs" "im_cap_count img = length xs" "length xs \<le> MAX_CAPS"
  shows "build_caps slot kinds scope img = Inr img' \<longleftrightarrow>
    length xs + length (held_kinds kinds) \<le> MAX_CAPS \<and>
    img' = img\<lparr>im_caps := filled (xs @ map (extern scope) (held_kinds kinds)), im_cap_count := length xs + length (held_kinds kinds),
      im_precondition_bits := precond_after (im_precondition_bits img) (held_kinds kinds)\<rparr>"
  using assms
proof (induction kinds arbitrary: slot img xs)
  case Nil
  then show ?case by (auto simp: precond_after_simps)
next
  case (Cons k ks)
  show ?case
  proof (cases k)
    case None
    then show ?thesis using Cons.IH [OF _ Cons.prems(2-4)] Cons.prems(1) by simp
  next
    case (Some kd)
    let ?pre = "case kd of SchedContext _ _ \<Rightarrow> Some SameTickSemantics | _ \<Rightarrow> None"
    let ?img = "img\<lparr>im_caps := filled (xs @ [extern scope kd]), im_cap_count := Suc (length xs),
      im_precondition_bits := (if ?pre = Some SameTickSemantics then im_precondition_bits img OR PRECOND_SAME_TICK else im_precondition_bits img)\<rparr>"
    have t: "travels scope kd" "list_all (travels scope) (held_kinds ks)" using Cons.prems(1) Some by simp_all
    show ?thesis
    proof (cases "length xs = MAX_CAPS")
      case True
      then show ?thesis using Some classify_travels [OF t(1)] Cons.prems(3) by simp
    next
      case False
      then have le: "length (xs @ [extern scope kd]) \<le> MAX_CAPS" using Cons.prems(4) by simp
      have "build_caps slot (k # ks) scope img = build_caps (slot + 1) ks scope ?img"
        using Some classify_travels [OF t(1)] False Cons.prems by (simp add: filled_update)
      then show ?thesis using Cons.IH [OF t(2) _ _ le, of ?img "slot + 1"] Some
        by (simp add: precond_after_simps)
    qed
  qed
qed

abbreviation blank :: "u8 list \<Rightarrow> u64 \<Rightarrow> u64 \<Rightarrow> u64 \<Rightarrow> Image" where
  "blank kernel_hash progress nonce epoch \<equiv> \<lparr>im_kernel_hash = kernel_hash, im_progress = progress, im_nonce = nonce, im_epoch = epoch,
     im_caps = replicate MAX_CAPS None, im_cap_count = 0, im_precondition_bits = 0\<rparr>"

lemma build_gates:
  "Image_build kernel_hash progress nonce epoch kinds scope subject edges = Inr img \<longleftrightarrow>
     list_all (travels scope) (held_kinds kinds) \<and> list_all (uncut subject scope) edges \<and>
     build_caps 0 kinds scope (blank kernel_hash progress nonce epoch) = Inr img"
  unfolding classify_from_exact [of 0 kinds scope, symmetric] cut_from_exact [of 0 subject edges scope, symmetric]
  by (auto simp: Image_build_def classify_all_def classify_cut_def split: sum.splits)

lemma build_filled:
  assumes "Image_build kernel_hash progress nonce epoch kinds scope subject edges = Inr img"
  obtains xs where "im_caps img = filled xs" "im_cap_count img = length xs" "length xs \<le> MAX_CAPS" "im_kernel_hash img = kernel_hash"
proof -
  have *: "length (held_kinds kinds) \<le> MAX_CAPS" "img = (blank kernel_hash progress nonce epoch)\<lparr>im_caps := filled (map (extern scope) (held_kinds kinds)),
      im_cap_count := length (held_kinds kinds), im_precondition_bits := precond_after 0 (held_kinds kinds)\<rparr>"
    using assms build_caps_exact [of scope kinds "blank kernel_hash progress nonce epoch" "[]" 0 img]
    by (simp_all add: build_gates filled_def)
  show ?thesis by (rule that [of "map (extern scope) (held_kinds kinds)"]) (use * in simp_all)
qed

section \<open>Writing and reading\<close>

definition Image_wf :: "Image \<Rightarrow> bool" where
  "Image_wf img \<longleftrightarrow> length (im_kernel_hash img) = 32 \<and> im_cap_count img \<le> MAX_CAPS \<and> length (im_caps img) = MAX_CAPS \<and>
     (\<forall>i < MAX_CAPS. im_caps img ! i \<noteq> None \<longleftrightarrow> i < im_cap_count img)"

lemma Image_wf_filled:
  assumes "Image_wf img"
  obtains xs where "im_caps img = filled xs" "im_cap_count img = length xs" "length xs \<le> MAX_CAPS"
proof
  let ?xs = "map the (take (im_cap_count img) (im_caps img))"
  show "im_caps img = filled ?xs"
    using assms by (intro nth_equalityI) (auto simp: Image_wf_def filled_def nth_append not_less min_def)
qed (use assms in \<open>auto simp: Image_wf_def\<close>)

lemma filled_wf:
  assumes "length xs \<le> MAX_CAPS" "im_caps img = filled xs" "im_cap_count img = length xs" "length (im_kernel_hash img) = 32"
  shows "Image_wf img"
  using assms by (auto simp: Image_wf_def filled_length) (auto simp: filled_def nth_append split: if_splits)

definition cap_bytes :: "ExternKind \<Rightarrow> u8 list" where
  "cap_bytes k = to_le32 (fst (tag_of k)) @ replicate 4 0 @ to_le64 (snd (tag_of k))"

lemma cap_bytes_length [simp]: "length (cap_bytes k) = 16"
  by (simp add: cap_bytes_def)

lemma caps_bytes_length [simp]: "length (concat (map cap_bytes ks)) = 16 * length ks"
  by (induction ks) simp_all

lemma encode_caps_bytes:
  assumes "16 * length ks \<le> m" "off = length d"
  shows "encode_caps (map Some ks) (d @ replicate m 0 @ t) off =
    Some ((d @ concat (map cap_bytes ks)) @ replicate (m - 16 * length ks) 0 @ t, off + 16 * length ks)"
  using assms
proof (induction ks arbitrary: d off m)
  case (Cons k ks)
  have "put (d @ replicate m 0 @ t) off (to_le32 (fst (tag_of k))) =
      Some ((d @ to_le32 (fst (tag_of k))) @ replicate (m - 4) 0 @ t)"
    using put_next [of off d "to_le32 (fst (tag_of k))" m t] Cons.prems by simp
  moreover have "put ((d @ to_le32 (fst (tag_of k))) @ replicate (m - 4) 0 @ t) (off + 8) (to_le64 (snd (tag_of k))) =
      Some ((d @ cap_bytes k) @ replicate (m - 16) 0 @ t)"
    using put_gap [of "off + 8" "d @ to_le32 (fst (tag_of k))" 4 "to_le64 (snd (tag_of k))" "m - 4" t] Cons.prems
    by (simp add: cap_bytes_def)
  ultimately show ?case
    using Cons.IH [of "m - 16" "off + 16" "d @ cap_bytes k"] Cons.prems
    by (simp add: case_prod_beta)
qed simp

definition head_bytes :: "Image \<Rightarrow> u8 list" where
  "head_bytes img = CK_MAGIC @ to_le32 CK_VERSION @ to_le32 (of_nat (BODY_FIXED + im_cap_count img * CAP_BYTES)) @
     im_kernel_hash img @ to_le64 (im_progress img) @ to_le64 (im_nonce img) @ to_le64 (im_epoch img) @
     to_le32 (of_nat (im_cap_count img)) @ to_le32 (im_precondition_bits img)"

lemma head_bytes_length: "length (im_kernel_hash img) = 32 \<Longrightarrow> length (head_bytes img) = 80"
  by (simp add: head_bytes_def CK_MAGIC_def)


definition covered_bytes :: "Image \<Rightarrow> ExternKind list \<Rightarrow> u8 list" where
  "covered_bytes img xs = head_bytes img @ concat (map cap_bytes xs)"

lemma covered_bytes_length: "length (im_kernel_hash img) = 32 \<Longrightarrow> length (covered_bytes img xs) = 80 + 16 * length xs"
  by (simp add: covered_bytes_def head_bytes_length)

lemma image_bytes_eq: "image_bytes n = 84 + 16 * n"
  by (simp add: image_bytes_def OFF_BODY_def BODY_FIXED_def CAP_BYTES_def)

text \<open>The fixed part: every field is written behind the previous one, over zeroes.\<close>

lemma encode_head:
  assumes h: "length (im_kernel_hash img) = 32"
  shows "do {
      out \<leftarrow> put (replicate (80 + m) 0 @ t) 0 CK_MAGIC;
      out \<leftarrow> put out 8 (to_le32 CK_VERSION);
      out \<leftarrow> put out 12 (to_le32 (of_nat (BODY_FIXED + im_cap_count img * CAP_BYTES)));
      out \<leftarrow> put out 16 (im_kernel_hash img);
      out \<leftarrow> put out 48 (to_le64 (im_progress img));
      out \<leftarrow> put out 56 (to_le64 (im_nonce img));
      out \<leftarrow> put out 64 (to_le64 (im_epoch img));
      out \<leftarrow> put out 72 (to_le32 (of_nat (im_cap_count img)));
      out \<leftarrow> put out 76 (to_le32 (im_precondition_bits img));
      f out
    } = f (head_bytes img @ replicate m 0 @ t)"
proof -
  have st: "put (d @ replicate a 0 @ t) off bs = Some ((d @ bs) @ replicate b 0 @ t)"
    if "length d = off" "a = length bs + b" for d bs a b off
    using put_next [of off d bs a t] that by simp
  define d1 where "d1 = CK_MAGIC @ to_le32 CK_VERSION"
  define d2 where "d2 = d1 @ to_le32 (of_nat (BODY_FIXED + im_cap_count img * CAP_BYTES))"
  define d3 where "d3 = d2 @ im_kernel_hash img"
  define d4 where "d4 = d3 @ to_le64 (im_progress img)"
  define d5 where "d5 = d4 @ to_le64 (im_nonce img)"
  define d6 where "d6 = d5 @ to_le64 (im_epoch img)"
  define d7 where "d7 = d6 @ to_le32 (of_nat (im_cap_count img))"
  have m: "length CK_MAGIC = 8" by (simp add: CK_MAGIC_def)
  have l: "length d1 = 12" "length d2 = 16" "length d3 = 48" "length d4 = 56" "length d5 = 64" "length d6 = 72" "length d7 = 76"
    by (simp_all add: d1_def d2_def d3_def d4_def d5_def d6_def d7_def m h)
  have hb: "head_bytes img = d7 @ to_le32 (im_precondition_bits img)"
    by (simp add: head_bytes_def d1_def d2_def d3_def d4_def d5_def d6_def d7_def)
  show ?thesis
    using st [of "[]" 0 "80 + m" CK_MAGIC "72 + m"] st [of CK_MAGIC 8 "72 + m" "to_le32 CK_VERSION" "68 + m", folded d1_def]
      st [of d1 12 "68 + m" _ "64 + m"] st [of d2 16 "64 + m" "im_kernel_hash img" "32 + m", folded d3_def]
      st [of d3 48 "32 + m" _ "24 + m"] st [of d4 56 "24 + m" _ "16 + m"]
      st [of d5 64 "16 + m" _ "8 + m"] st [of d6 72 "8 + m" _ "4 + m"] st [of d7 76 "4 + m" _ m]
    by (simp add: m l h hb del: append_assoc of_nat_add of_nat_mult flip: d2_def d4_def d5_def d6_def d7_def)
qed

lemma encode_bytes:
  assumes h: "length (im_kernel_hash img) = 32" and xs: "im_caps img = filled xs" "im_cap_count img = length xs"
    and room: "image_bytes (length xs) \<le> length out"
  shows "Image_encode img out =
    Some (covered_bytes img xs @ to_le32 (crc32 (covered_bytes img xs)) @ drop (image_bytes (length xs)) out, Inr (image_bytes (length xs)))"
proof -
  let ?n = "length xs" and ?t = "drop (image_bytes (length xs)) out" and ?c = "covered_bytes img xs"
  have tk: "take ?n (im_caps img) = map Some xs" by (simp add: xs filled_def)
  have caps: "encode_caps (map Some xs) (head_bytes img @ replicate (16 * ?n + 4) 0 @ ?t) 80 =
      Some (?c @ replicate 4 0 @ ?t, 80 + 16 * ?n)"
    using encode_caps_bytes [of xs "16 * ?n + 4" 80 "head_bytes img" ?t] h
    by (simp add: head_bytes_length covered_bytes_def)
  have crc: "put (?c @ replicate 4 0 @ ?t) (80 + 16 * ?n) (to_le32 w) = Some (?c @ to_le32 w @ ?t)" for w
    using put_next [of "80 + 16 * ?n" ?c "to_le32 w" 4 ?t] h by (simp add: covered_bytes_length)
  have tkc: "take (80 + 16 * ?n) (?c @ s) = ?c" for s using h by (simp add: covered_bytes_length)
  have tot: "image_bytes ?n = 80 + (16 * ?n + 4)" by (simp add: image_bytes_eq)
  show ?thesis
    using room h
    by (simp only: Image_encode_def Let_def xs(2) not_less [symmetric] if_False)
      (simp only: tot encode_head [OF h, simplified xs(2)] tk caps [unfolded tot] crc [unfolded tot] bind.simps prod.case tkc)
qed

lemma decode_caps_bytes:
  assumes "off = length d" "i + length ks \<le> length (im_caps img)"
  shows "decode_caps (d @ concat (map cap_bytes ks) @ t) [i..<i + length ks] off img =
    Some (Inr (img\<lparr>im_caps := take i (im_caps img) @ map Some ks @ drop (i + length ks) (im_caps img)\<rparr>))"
  using assms
proof (induction ks arbitrary: d off i img)
  case (Cons k ks)
  let ?rest = "concat (map cap_bytes ks) @ t"
  let ?img = "img\<lparr>im_caps := (im_caps img)[i := Some k]\<rparr>"
  have tag: "le32 (d @ cap_bytes k @ ?rest) off = Some (fst (tag_of k))"
    using Cons.prems by (simp add: cap_bytes_def)
  have v: "le64 (d @ cap_bytes k @ ?rest) (off + 8) = Some (snd (tag_of k))"
    using Cons.prems by (simp add: cap_bytes_def)
  have "decode_caps ((d @ cap_bytes k) @ ?rest) [Suc i..<Suc i + length ks] (off + 16) ?img =
      Some (Inr (?img\<lparr>im_caps := take (Suc i) (im_caps ?img) @ map Some ks @ drop (Suc i + length ks) (im_caps ?img)\<rparr>))"
    using Cons.prems by (intro Cons.IH) simp_all
  moreover have "[i..<i + length (k # ks)] = i # [Suc i..<Suc i + length ks]" by (subst upt_conv_Cons) simp_all
  moreover have "take (Suc i) ((im_caps img)[i := Some k]) = take i (im_caps img) @ [Some k]"
    using Cons.prems by (simp add: take_Suc_conv_app_nth)
  moreover have "drop (Suc i + length ks) ((im_caps img)[i := Some k]) = drop (Suc i + length ks) (im_caps img)"
    by simp
  ultimately show ?case using tag v by (simp add: CAP_BYTES_def)
qed simp

lemma decode_bytes:
  assumes h: "length (im_kernel_hash img) = 32" and xs: "im_caps img = filled xs" "im_cap_count img = length xs" "length xs \<le> MAX_CAPS"
  shows "Image_decode (covered_bytes img xs @ to_le32 (crc32 (covered_bytes img xs)) @ t) expect =
    Some (if im_kernel_hash img = expect then Inr img else Inl ForeignKernel)"
proof -
  let ?b = "covered_bytes img xs @ to_le32 (crc32 (covered_bytes img xs)) @ t"
  let ?n = "length xs" and ?bl = "64 + 16 * length xs"
  have m: "length CK_MAGIC = 8" by (simp add: CK_MAGIC_def)
  have n16: "?n \<le> 16" using xs(3) by (simp add: MAX_CAPS_def)
  have len: "length ?b = 84 + 16 * ?n + length t" using h by (simp add: covered_bytes_length)
  note lay = covered_bytes_def head_bytes_def
  have a: "byte_slice ?b 0 8 = Some CK_MAGIC" "le32 ?b 8 = Some CK_VERSION" "le32 ?b 12 = Some (of_nat ?bl)"
    by (simp_all add: lay m xs(2) BODY_FIXED_def CAP_BYTES_def mult.commute)
  have b: "byte_slice ?b 16 32 = Some (im_kernel_hash img)" "le64 ?b 48 = Some (im_progress img)" "le64 ?b 56 = Some (im_nonce img)"
      "le64 ?b 64 = Some (im_epoch img)" "le32 ?b 72 = Some (of_nat ?n)" "le32 ?b 76 = Some (im_precondition_bits img)"
    by (simp_all add: lay m h xs(2))
  have c: "le32 ?b (16 + ?bl) = Some (crc32 (covered_bytes img xs))" "take (16 + ?bl) ?b = covered_bytes img xs"
    using h by (simp_all add: covered_bytes_length)
  have u: "unat (of_nat ?bl :: u32) = ?bl" "unat (of_nat ?n :: u32) = ?n"
    using n16 by (simp_all add: unat_of_nat del: of_nat_add of_nat_mult)
  have d: "decode_caps ?b [0..<?n] 80 \<lparr>im_kernel_hash = im_kernel_hash img, im_progress = im_progress img, im_nonce = im_nonce img,
      im_epoch = im_epoch img, im_caps = replicate MAX_CAPS None, im_cap_count = ?n, im_precondition_bits = im_precondition_bits img\<rparr> =
      Some (Inr img)" (is "decode_caps _ _ _ ?i = _")
    using decode_caps_bytes [of 80 "head_bytes img" 0 xs ?i "to_le32 (crc32 (covered_bytes img xs)) @ t"] h xs
    by (simp add: head_bytes_length covered_bytes_def filled_def)
  have g: "length ?b < OFF_BODY \<longleftrightarrow> False" "?bl < BODY_FIXED \<or> (?bl - BODY_FIXED) mod CAP_BYTES \<noteq> 0 \<longleftrightarrow> False"
      "length ?b < OFF_BODY + ?bl + 4 \<longleftrightarrow> False" "length ?b < 16 + ?bl + 4 \<longleftrightarrow> False" "MAX_CAPS < ?n \<longleftrightarrow> False" "BODY_FIXED + ?n * CAP_BYTES \<noteq> ?bl \<longleftrightarrow> False"
    using len xs(3) by (simp_all add: OFF_BODY_def BODY_FIXED_def CAP_BYTES_def)
  have o: "OFF_BODY = 16" "OFF_BODY + BODY_FIXED = 80" "OFF_BODY + 56 = 72" "OFF_BODY + 32 = 48" "OFF_BODY + 40 = 56"
      "OFF_BODY + 48 = 64" "OFF_BODY + 60 = 76" "OFF_BODY + ?bl = 16 + ?bl"
    by (simp_all add: OFF_BODY_def BODY_FIXED_def)
  show ?thesis
    by (simp only: Image_decode_def Let_def g if_False a bind.simps u o(2-8) b c simp_thms)
      (auto simp only: o(1) b(1) g bind.simps d if_False split: if_splits)
qed


section \<open>Foreign bytes\<close>

lemma decode_caps_total:
  assumes "off + 16 * length is \<le> length bytes"
  shows "\<exists>r. decode_caps bytes is off img = Some r"
  using assms
proof (induction "is" arbitrary: off img)
  case (Cons i js)
  obtain tag v where "le32 bytes off = Some tag" "le64 bytes (off + 8) = Some v"
    using le32_in_range [of off bytes] le64_in_range [of "off + 8" bytes] Cons.prems by auto
  then show ?case using Cons.IH [of "off + 16"] Cons.prems
    by (cases "extern_kind_of tag v") (auto simp: CAP_BYTES_def)
qed simp

lemma decode_caps_count:
  "decode_caps bytes is off img = Some (Inr img') \<Longrightarrow>
    im_cap_count img' = im_cap_count img \<and> im_kernel_hash img' = im_kernel_hash img \<and> length (im_caps img') = length (im_caps img) \<and>
    (\<forall>j < length (im_caps img). im_caps img' ! j \<noteq> None \<longleftrightarrow> im_caps img ! j \<noteq> None \<or> j \<in> set is)"
proof (induction "is" arbitrary: off img)
  case (Cons i js)
  then obtain tag v k where "extern_kind_of tag v = Inr k"
      and *: "decode_caps bytes js (off + CAP_BYTES) (img\<lparr>im_caps := (im_caps img)[i := Some k]\<rparr>) = Some (Inr img')"
    by (auto split: Option.bind_splits sum.splits)
  have "(im_caps img)[i := Some k] ! j = (if j = i then Some k else im_caps img ! j)" if "j < length (im_caps img)" for j
    using that by (cases "j = i") auto
  then show ?case using Cons.IH [OF *] by auto
qed simp

text \<open>What an accepted sequence of bytes satisfies.\<close>

lemma decode_accepted:
  assumes "Image_decode bytes expect = Some (Inr img)"
  obtains bl n where "le32 bytes 12 = Some bl" "le32 bytes 72 = Some n" "unat bl = 64 + 16 * unat n" "unat n \<le> MAX_CAPS"
    "20 + unat bl \<le> length bytes" "le32 bytes (16 + unat bl) = Some (crc32 (take (16 + unat bl) bytes))"
    "im_cap_count img = unat n" "im_kernel_hash img = expect" "Image_wf img"
proof -
  note offs = OFF_BODY_def BODY_FIXED_def CAP_BYTES_def
  obtain bl n stored hash progress nonce epoch precond
    where f: "le32 bytes 12 = Some bl" "le32 bytes 72 = Some n" "unat n \<le> MAX_CAPS" "64 + unat n * 16 = unat bl"
      "20 + unat bl \<le> length bytes" "le32 bytes (16 + unat bl) = Some stored" "crc32 (take (16 + unat bl) bytes) = stored"
      "byte_slice bytes 16 32 = Some hash" "hash = expect"
      and d: "decode_caps bytes [0..<unat n] 80 \<lparr>im_kernel_hash = hash, im_progress = progress, im_nonce = nonce, im_epoch = epoch,
         im_caps = replicate MAX_CAPS None, im_cap_count = unat n, im_precondition_bits = precond\<rparr> = Some (Inr img)"
    using assms by (auto simp: Image_decode_def Let_def offs not_less split: if_splits Option.bind_splits)
  moreover have "Image_wf img"
    using decode_caps_count [OF d] f(3) byte_slice_SomeD [OF f(8)] by (auto simp: Image_wf_def)
  ultimately show ?thesis using that [of bl n] decode_caps_count [OF d] by simp
qed

lemma decode_total: "\<exists>r. Image_decode bytes expect = Some r"
proof (cases "length bytes < 16")
  case False
  then obtain magic version bl where a: "byte_slice bytes 0 8 = Some magic" "le32 bytes 8 = Some version" "le32 bytes 12 = Some bl"
    using le32_in_range [of 8 bytes] le32_in_range [of 12 bytes] by (auto simp: byte_slice_def)
  note offs = OFF_BODY_def BODY_FIXED_def CAP_BYTES_def
  show ?thesis
  proof (cases "64 \<le> unat bl \<and> 20 + unat bl \<le> length bytes")
    case True
    then obtain n stored hash where b: "le32 bytes 72 = Some n" "le32 bytes (16 + unat bl) = Some stored" "byte_slice bytes 16 32 = Some hash"
      using le32_in_range [of 72 bytes] le32_in_range [of "16 + unat bl" bytes] by (auto simp: byte_slice_def)
    obtain progress nonce epoch precond
      where c: "le64 bytes 48 = Some progress" "le64 bytes 56 = Some nonce" "le64 bytes 64 = Some epoch" "le32 bytes 76 = Some precond"
      using True le64_in_range [of 48 bytes] le64_in_range [of 56 bytes] le64_in_range [of 64 bytes] le32_in_range [of 76 bytes] by auto
    have d: "\<exists>r. decode_caps bytes [0..<unat n] 80 img = Some r" if "64 + unat n * 16 = unat bl" for img
      using that True by (intro decode_caps_total) simp
    show ?thesis using a b c d by (auto simp: Image_decode_def Let_def offs)
  qed (use a in \<open>auto simp: Image_decode_def Let_def offs\<close>)
qed (simp add: Image_decode_def OFF_BODY_def)


section \<open>Properties\<close>


text \<open>
  C15. A checkpoint that \<open>Image::build\<close> made fits into a buffer of \<open>image_bytes\<close> and more: \<open>Image::encode\<close> writes it without
  a panic, touches nothing behind it, and \<open>Image::decode\<close> gives the very checkpoint back under the kernel it was made
  under and \<open>ForeignKernel\<close> under every other. A smaller buffer is refused and left as it was.
\<close>

theorem checkpoint_roundtrip:
  assumes "Image_build kernel_hash progress nonce epoch kinds scope subject edges = Inr img" and "length kernel_hash = 32"
  shows "if length out < image_bytes (im_cap_count img) then Image_encode img out = Some (out, Inl BufferTooSmall)
    else \<exists>out'. Image_encode img out = Some (out', Inr (image_bytes (im_cap_count img))) \<and> length out' = length out \<and>
      drop (image_bytes (im_cap_count img)) out' = drop (image_bytes (im_cap_count img)) out \<and>
      (\<forall>expect. Image_decode out' expect = Some (if expect = kernel_hash then Inr img else Inl ForeignKernel))"
proof -
  from assms(1) obtain xs where xs: "im_caps img = filled xs" "im_cap_count img = length xs" "length xs \<le> MAX_CAPS"
      and hash: "im_kernel_hash img = kernel_hash" by (rule build_filled)
  have h: "length (im_kernel_hash img) = 32" using hash assms(2) by simp
  show ?thesis
  proof (cases "length out < image_bytes (im_cap_count img)")
    case True
    then show ?thesis by (simp add: Image_encode_def)
  next
    case False
    let ?out = "covered_bytes img xs @ to_le32 (crc32 (covered_bytes img xs)) @ drop (image_bytes (length xs)) out"
    have "Image_encode img out = Some (?out, Inr (image_bytes (length xs)))"
      using False xs by (intro encode_bytes [OF h]) simp_all
    moreover have "Image_decode ?out expect = Some (if expect = kernel_hash then Inr img else Inl ForeignKernel)" for expect
      using decode_bytes [OF h xs] hash by auto
    moreover have "length ?out = length out" "drop (image_bytes (length xs)) ?out = drop (image_bytes (length xs)) out"
      using False xs h by (simp_all add: covered_bytes_length image_bytes_eq)
    ultimately show ?thesis using False xs by auto
  qed
qed

text \<open>
  Bytes from outside cannot make \<open>Image::decode\<close> panic, whatever they are and whatever kernel is expected; what it
  accepts is a well-formed checkpoint of that kernel.
\<close>

theorem decode_foreign_bytes:
  "\<exists>r. Image_decode bytes expect = Some r \<and> (case r of Inl _ \<Rightarrow> True | Inr img \<Rightarrow> Image_wf img \<and> im_kernel_hash img = expect)"
proof -
  obtain r where r: "Image_decode bytes expect = Some r" using decode_total by blast
  show ?thesis
  proof (cases r)
    case (Inr img)
    then have "Image_decode bytes expect = Some (Inr img)" using r by simp
    then have "Image_wf img \<and> im_kernel_hash img = expect" by (rule decode_accepted) simp
    then show ?thesis using r Inr by simp
  qed (use r in simp)
qed

text \<open>
  C16. One damaged byte is noticed: if bytes are an accepted checkpoint and any one byte of it, in the header, in the
  body or in the checksum itself, is replaced by another value, \<open>Image::decode\<close> refuses the result, whatever kernel it
  expects.
\<close>

theorem one_damaged_byte_refused:
  assumes "Image_decode bytes expect = Some (Inr img)" and "i < image_bytes (im_cap_count img)" and "x \<noteq> bytes ! i"
  shows "\<exists>e. Image_decode (bytes[i := x]) expect' = Some (Inl e)"
proof (rule ccontr)
  assume "\<not> ?thesis"
  then obtain img' where acc': "Image_decode (bytes[i := x]) expect' = Some (Inr img')"
    using decode_total [of "bytes[i := x]" expect'] by (metis sum.exhaust)
  obtain bl n where a: "le32 bytes 12 = Some bl" "le32 bytes 72 = Some n" "unat bl = 64 + 16 * unat n"
      "20 + unat bl \<le> length bytes" "le32 bytes (16 + unat bl) = Some (crc32 (take (16 + unat bl) bytes))" "im_cap_count img = unat n"
    using assms(1) by (rule decode_accepted)
  obtain bl' n' where b: "le32 (bytes[i := x]) 12 = Some bl'" "le32 (bytes[i := x]) 72 = Some n'" "unat bl' = 64 + 16 * unat n'"
      "le32 (bytes[i := x]) (16 + unat bl') = Some (crc32 (take (16 + unat bl') (bytes[i := x])))"
    using acc' by (rule decode_accepted)
  have i: "i < 20 + unat bl" using assms(2) a by (simp add: image_bytes_eq)
  have "bl' = bl"
  proof (cases "12 \<le> i \<and> i < 16")
    case True
    then have "n' = n" using le32_outside [of i 72 bytes x] a(2) b(2) by simp
    then show ?thesis using a(3) b(3) by (simp add: word_unat_eq_iff)
  next
    case False
    then show ?thesis using le32_outside [of i 12 bytes x] a(1) b(1) by auto
  qed
  show False
  proof (cases "i < 16 + unat bl")
    case True
    then have "crc32 ((take (16 + unat bl) bytes)[i := x]) = crc32 (take (16 + unat bl) bytes)"
      using le32_outside [of i "16 + unat bl" bytes x] a(5) b(4) \<open>bl' = bl\<close> by (simp add: take_update_swap)
    then have "x = take (16 + unat bl) bytes ! i" using True a(4) by (intro crc32_one_byte) simp_all
    then show False using True assms(3) by simp
  next
    case False
    then have "crc32 (take (16 + unat bl) (bytes[i := x])) = crc32 (take (16 + unat bl) bytes)" by simp
    then have "x = bytes ! i"
      using f32.byte_changed [of bytes "16 + unat bl" "crc32 (take (16 + unat bl) bytes)" i x] a(5) b(4) \<open>bl' = bl\<close> False i
      by (simp add: le32_def)
    then show False using assms(3) by simp
  qed
qed

end
