(* ===== verification/CheckpointSample.thy ===== *)
theory CheckpointSample
  imports CheckpointProps
begin

text \<open>
  Checkpoints on concrete values: the checksum computed on integers, a thread with memory, a scheduling context and
  an endpoint of its scope, and the witnesses of the properties of \<open>CheckpointProps\<close>.
\<close>

section \<open>Computing the checksum\<close>

definition crc_step :: "int \<Rightarrow> int" where
  "crc_step c = (if even c then c div 2 else c div 2 XOR 0xEDB88320)"

definition crc_step_byte :: "int \<Rightarrow> int \<Rightarrow> int" where
  "crc_step_byte c b = crc_step (crc_step (crc_step (crc_step (crc_step (crc_step (crc_step (crc_step (c XOR b))))))))"

lemma uint_crc32_bit: "uint (crc32_bit c) = crc_step (uint c)"
proof -
  have "bit c 0 \<longleftrightarrow> bit (uint c) 0" by (simp add: bit_unsigned_iff del: bit_0)
  then have "bit c 0 \<longleftrightarrow> odd (uint c)" by (simp only: bit_0)
  then show ?thesis
    by (simp add: crc32_bit_eq crc_step_def unsigned_drop_bit_eq unsigned_xor_eq drop_bit_Suc uint_div)
qed

lemma uint_crc32_byte: "uint (crc32_byte c b) = crc_step_byte (uint c) (uint b)"
proof -
  have "uint (ucast b :: u32) = uint b" 
    using uint_bounded [of b] by (simp add: unsigned_ucast_eq take_bit_int_eq_self_iff)
  then show ?thesis by (simp add: crc32_byte_def crc_step_byte_def uint_crc32_bit unsigned_xor_eq eval_nat_numeral)
qed

lemma crc32_by_int: "crc32 bs = NOT (word_of_int (foldl crc_step_byte 0xFFFFFFFF (map uint bs)))"
proof -
  have "uint (foldl crc32_byte c bs) = foldl crc_step_byte (uint c) (map uint bs)" for c
    by (induction bs arbitrary: c) (simp_all add: uint_crc32_byte)
  from this [of "0xFFFFFFFF"] show ?thesis by (simp add: crc32_def) (metis word_of_int_uint)
qed
text \<open>The check value of CRC-32 (the text \<open>123456789\<close>), the one of \<open>zlib.crc32\<close>.\<close>

lemma crc32_check_value: "crc32 [0x31, 0x32, 0x33, 0x34, 0x35, 0x36, 0x37, 0x38, 0x39] = 0xCBF43926"
  by (simp add: crc32_by_int crc_step_byte_def crc_step_def)

section \<open>A checkpoint\<close>

definition sample_scope :: Scope where
  "sample_scope = \<lparr>sco_endpoints = [7, 9], sco_notifications = [], sco_threads = [5], sco_pds = []\<rparr>"

definition sample_kinds :: "ObjectKind option list" where
  "sample_kinds = [Some (Endpoint 9), None, Some (SchedContext 10 100)]"

definition sample_edges :: "Edge list" where
  "sample_edges = [\<lparr>ed_channel = ChEndpoint 9, ed_thread = 5, ed_role = RoleReceiver\<rparr>, \<lparr>ed_channel = ChEndpoint 3, ed_thread = 8, ed_role = RoleSender\<rparr>]"

definition sample_image :: Image where
  "sample_image = \<lparr>im_kernel_hash = replicate 32 1, im_progress = 150, im_nonce = 3, im_epoch = 2,
     im_caps = [Some (XEndpoint 1), Some (XSchedContext 10 100)] @ replicate 14 None, im_cap_count = 2, im_precondition_bits = 1\<rparr>"

lemmas ck_sample_defs = sample_scope_def sample_kinds_def sample_edges_def sample_image_def

lemma sample_built: "Image_build (replicate 32 1) 150 3 2 sample_kinds sample_scope 4 sample_edges = Inr sample_image"
proof -
  have "list_all (travels sample_scope) (held_kinds sample_kinds)" "list_all (uncut 4 sample_scope) sample_edges"
    by (simp_all add: ck_sample_defs travels_def uncut_def channel_in_scope_def thread_in_scope_def)
  moreover have "map (extern sample_scope) (held_kinds sample_kinds) = [XEndpoint 1, XSchedContext 10 100]" "needs_tick (held_kinds sample_kinds)"
      "length (held_kinds sample_kinds) = 2"
    by (simp_all add: ck_sample_defs extern_def classify_def ck_position_def needs_tick_def)
  ultimately show ?thesis
    using build_caps_exact [of sample_scope sample_kinds "blank (replicate 32 1) 150 3 2" "[]" 0 sample_image]
    by (simp add: build_gates precond_after_def sample_image_def filled_def MAX_CAPS_def PRECOND_SAME_TICK_def)
qed

text \<open>An interrupt line does not travel, and neither does a thread whose open call stays behind.\<close>

lemma sample_refused:
  "Image_build (replicate 32 1) 150 3 2 [None, Some (Irq 33)] sample_scope 4 [] = Inl (BCap 1 InterruptLine)"
  "Image_build (replicate 32 1) 150 3 2 [] sample_scope 4 [\<lparr>ed_channel = ChEndpoint 3, ed_thread = 4, ed_role = RoleCaller\<rparr>] =
     Inl (BCut 0 CutChannelNotInScope)"
  by (simp_all add: sample_scope_def Image_build_def classify_all_def classify_cut_def classify_def classify_edge_def
      channel_in_scope_def thread_in_scope_def)

lemma seventeen_refused:
  "Image_build (replicate 32 1) 150 3 2 (replicate 17 (Some (SchedContext 1 2))) Scope_EMPTY 4 [] = Inl (BCap 16 PeerNotInScope)"
proof -
  have r: "replicate 17 k = [k, k, k, k, k, k, k, k, k, k, k, k, k, k, k, k, k]" for k :: "ObjectKind option"
    by (simp add: numeral_eq_Suc)
  show ?thesis
    by (simp add: r Image_build_def classify_all_def classify_cut_def classify_def MAX_CAPS_def)
qed

theorem checkpoint_roundtrip_witness:
  "\<exists>out. Image_encode sample_image (replicate 120 9) = Some (out, Inr 116) \<and> drop 116 out = replicate 4 9 \<and>
     Image_decode out (replicate 32 1) = Some (Inr sample_image) \<and> Image_decode out (replicate 32 2) = Some (Inl ForeignKernel)"
proof -
  have count: "image_bytes (im_cap_count sample_image) = 116" by (simp add: image_bytes_eq sample_image_def)
  have "(replicate 32 2 :: u8 list) \<noteq> replicate 32 1" by simp
  then show ?thesis
    using checkpoint_roundtrip [OF sample_built, of "replicate 120 9"] by (auto simp: count)
qed

text \<open>The smallest checkpoint, without capabilities, as bytes.\<close>

definition sample_bytes :: "u8 list" where
  "sample_bytes = [
     83, 76, 52, 75, 67, 75, 80, 84, 1, 0, 0, 0, 64, 0, 0, 0,
     1, 1, 1, 1, 1, 1, 1, 1, 1, 1, 1, 1, 1, 1, 1, 1,
     1, 1, 1, 1, 1, 1, 1, 1, 1, 1, 1, 1, 1, 1, 1, 1,
     0, 0, 0, 0, 0, 0, 0, 0, 0, 0, 0, 0, 0, 0, 0, 0,
     0, 0, 0, 0, 0, 0, 0, 0, 0, 0, 0, 0, 0, 0, 0, 0,
     189, 49, 227, 121]"

lemma sample_crc: "crc32 (take 80 sample_bytes) = 2044932541"
  by (simp add: sample_bytes_def crc32_by_int crc_step_byte_def crc_step_def)

lemma sample_fields:
  "byte_slice sample_bytes 0 8 = Some CK_MAGIC" "le32 sample_bytes 8 = Some 1" "le32 sample_bytes 12 = Some 64"
  "le32 sample_bytes 72 = Some 0" "le32 sample_bytes 80 = Some 2044932541" "byte_slice sample_bytes 16 32 = Some (replicate 32 1)"
  by (simp_all add: sample_bytes_def byte_slice_def le32_def from_le_def CK_MAGIC_def) (simp add: numeral_eq_Suc)

lemma sample_accepted: "\<exists>img. Image_decode sample_bytes (replicate 32 1) = Some (Inr img) \<and> im_cap_count img = 0"
proof -
  have len: "length sample_bytes = 84" by (simp add: sample_bytes_def)
  obtain progress nonce epoch precond where "le64 sample_bytes 48 = Some progress" "le64 sample_bytes 56 = Some nonce"
      "le64 sample_bytes 64 = Some epoch" "le32 sample_bytes 76 = Some precond"
    using len le64_in_range [of 48 sample_bytes] le64_in_range [of 56 sample_bytes] le64_in_range [of 64 sample_bytes]
      le32_in_range [of 76 sample_bytes] by auto
  then show ?thesis
    by (simp add: Image_decode_def len sample_fields sample_crc OFF_BODY_def BODY_FIXED_def CAP_BYTES_def CK_VERSION_def)
qed

theorem one_damaged_byte_refused_witness: "\<exists>e. Image_decode (sample_bytes[50 := 7]) (replicate 32 1) = Some (Inl e)"
proof -
  obtain img where img: "Image_decode sample_bytes (replicate 32 1) = Some (Inr img)" "im_cap_count img = 0"
    using sample_accepted by blast
  show ?thesis
    by (rule one_damaged_byte_refused [OF img(1)]) (simp_all add: img(2) image_bytes_eq sample_bytes_def)
qed

end
