(* ===== verification/Dma.thy ===== *)
theory Dma
  imports PhysAlloc
begin

text \<open>
  \<open>caprock-dma\<close>: the DMA pool of a driver domain (\<open>src/lib.rs\<close>) and the naming of refused large requests
  (\<open>src/gross.rs\<close>). Everything is arithmetic on two axes of addresses, that of the program and that of the device.
  Sums that the source does not check are written with the wrapping \<open>+\<close>.
\<close>

section \<open>The pool\<close>

datatype PoolError = PeLeer | PeKeineGeraetesicht | PeIdentitaet | PeUeberlauf

record DmaBuf =
  db_cpu :: u64
  db_dev :: u64
  db_len :: u64

definition DmaBuf_is_empty :: "DmaBuf \<Rightarrow> bool" where
  "DmaBuf_is_empty b \<longleftrightarrow> db_len b = 0"

definition DmaBuf_sub :: "DmaBuf \<Rightarrow> u64 \<Rightarrow> u64 \<Rightarrow> DmaBuf option" where
  "DmaBuf_sub b off len = do {
     e \<leftarrow> checked_add off len;
     if e > db_len b then None
     else do {
       cpu \<leftarrow> checked_add (db_cpu b) off;
       dev \<leftarrow> checked_add (db_dev b) off;
       Some \<lparr>db_cpu = cpu, db_dev = dev, db_len = len\<rparr>
     }
   }"

record DmaPool =
  dp_cpu_base :: u64
  dp_dev_base :: u64
  dp_len :: u64
  dp_next :: u64
  dp_hoechststand :: u64

definition DmaPool_new :: "u64 \<Rightarrow> u64 \<Rightarrow> u64 \<Rightarrow> PoolError + DmaPool" where
  "DmaPool_new cpu_base dev_base len =
     (if len = 0 then Inl PeLeer
      else if dev_base = 0 then Inl PeKeineGeraetesicht
      else if cpu_base = dev_base then Inl PeIdentitaet
      else if checked_add cpu_base len = None \<or> checked_add dev_base len = None then Inl PeUeberlauf
      else Inr \<lparr>dp_cpu_base = cpu_base, dp_dev_base = dev_base, dp_len = len, dp_next = 0, dp_hoechststand = 0\<rparr>)"

definition is_power_of_two64 :: "u64 \<Rightarrow> bool" where
  "is_power_of_two64 n = list_ex (\<lambda>k. n = 2 ^ k) [0..<64]"

definition dp_alloc :: "DmaPool \<Rightarrow> u64 \<Rightarrow> u64 \<Rightarrow> DmaPool \<times> DmaBuf option" where
  "dp_alloc p len align =
     (if len = 0 \<or> align = 0 \<or> \<not> is_power_of_two64 align then (p, None)
      else case checked_add (dp_next p) (align - 1) of
        None \<Rightarrow> (p, None)
      | Some up \<Rightarrow>
          let off = up AND NOT (align - 1) in
          (case checked_add off len of
             None \<Rightarrow> (p, None)
           | Some ende \<Rightarrow>
               if ende > dp_len p then (p, None)
               else (p\<lparr>dp_next := ende, dp_hoechststand := (if ende > dp_hoechststand p then ende else dp_hoechststand p)\<rparr>,
                     Some \<lparr>db_cpu = dp_cpu_base p + off, db_dev = dp_dev_base p + off, db_len = len\<rparr>)))"

definition dp_map :: "DmaPool \<Rightarrow> u64 \<Rightarrow> u64 \<Rightarrow> DmaBuf option" where
  "dp_map p cpu len =
     (if cpu < dp_cpu_base p then None
      else let off = cpu - dp_cpu_base p in
        do {
          e \<leftarrow> checked_add off len;
          if e > dp_len p then None
          else Some \<lparr>db_cpu = cpu, db_dev = dp_dev_base p + off, db_len = len\<rparr>
        })"

definition dp_whole :: "DmaPool \<Rightarrow> DmaBuf" where
  "dp_whole p = \<lparr>db_cpu = dp_cpu_base p, db_dev = dp_dev_base p, db_len = dp_len p\<rparr>"

definition dp_mark :: "DmaPool \<Rightarrow> u64" where
  "dp_mark p = dp_next p"

definition dp_release :: "DmaPool \<Rightarrow> u64 \<Rightarrow> DmaPool \<times> bool" where
  "dp_release p m = (if m > dp_next p then (p, False) else (p\<lparr>dp_next := m\<rparr>, True))"

datatype StromRichtung = NachGeraet | VomGeraet | Beide

definition map_single :: "DmaPool \<Rightarrow> u64 \<Rightarrow> u64 \<Rightarrow> StromRichtung \<Rightarrow> DmaBuf option" where
  "map_single pool cpu len dir = dp_map pool cpu len"

section \<open>What the device can address\<close>

record SgEintrag =
  sg_cpu :: u64
  sg_len :: u64

record GeraeteGrenzen =
  gg_maske :: u64
  gg_grenze :: u64
  gg_max_seg :: u64

datatype GrenzenFehler = GfLeer | GfUeberlauf | MaskeVerletzt u64 u64 u64 | GrenzeVerletzt u64 u64 u64 | SegmentZuGross u64 u64

definition pruefe_grenzen :: "GeraeteGrenzen \<Rightarrow> u64 \<Rightarrow> u64 \<Rightarrow> GrenzenFehler + unit" where
  "pruefe_grenzen g dev len =
     (if len = 0 then Inl GfLeer
      else case checked_add dev len of
        None \<Rightarrow> Inl GfUeberlauf
      | Some ende \<Rightarrow>
          let letzte = ende - 1 in
          if letzte > gg_maske g then Inl (MaskeVerletzt dev len (gg_maske g))
          else if gg_grenze g \<noteq> 0 \<and> (dev XOR letzte) AND gg_grenze g \<noteq> 0 then Inl (GrenzeVerletzt dev len (gg_grenze g))
          else if gg_max_seg g \<noteq> 0 \<and> len > gg_max_seg g then Inl (SegmentZuGross len (gg_max_seg g))
          else Inr ())"

definition trailing_zeros :: "u64 \<Rightarrow> nat" where
  "trailing_zeros m = length (takeWhile (\<lambda>i. \<not> bit m i) [0..<64])"

definition teile_abstand :: "u64 \<Rightarrow> u64 \<Rightarrow> u64" where
  "teile_abstand dev m = (let schritt = push_bit (trailing_zeros m) 1; rest = dev AND (schritt - 1) in schritt - rest)"

lemma clear_lowest_less: "m \<noteq> 0 \<Longrightarrow> m AND (m - 1) < (m :: u64)"
proof -
  assume "m \<noteq> 0"
  then have "m - 1 < m" using unat_gt_0 [of m] by (simp add: word_less_nat_alt unat_minus_one)
  moreover have "m AND (m - 1) \<le> m - 1" by (rule word_and_le1)
  ultimately show ?thesis by (rule order.strict_trans1 [rotated])
qed

function teile_loop :: "u64 \<Rightarrow> u64 \<Rightarrow> u64 \<Rightarrow> u64" where
  "teile_loop dev m erste =
     (if m = 0 then erste
      else
        let abstand = teile_abstand dev m;
            erste1 = (if abstand < erste then abstand else erste)
        in if erste1 = 1 then erste1 else teile_loop dev (m AND (m - 1)) erste1)"
  by pat_completeness auto
termination
  by (relation "measure (\<lambda>(dev, m, erste). unat m)") (simp_all add: clear_lowest_less unat_mono)

declare teile_loop.simps [simp del]

definition teile_an_grenze :: "u64 \<Rightarrow> u64 \<Rightarrow> u64 \<Rightarrow> u64 option" where
  "teile_an_grenze dev len grenze =
     (if len = 0 then None
      else do {
        _ \<leftarrow> checked_add dev len;
        if grenze = 0 then Some len
        else let erste = teile_loop dev grenze len in Some (if erste < len then erste else len)
      })"

fun map_sg_loop :: "DmaPool \<Rightarrow> GeraeteGrenzen \<Rightarrow> nat \<Rightarrow> SgEintrag list \<Rightarrow> DmaBuf option list \<Rightarrow> DmaBuf option list \<times> bool" where
  "map_sg_loop pool grenzen i [] raus = (raus, True)"
| "map_sg_loop pool grenzen i (e # es) raus =
     (case dp_map pool (sg_cpu e) (sg_len e) of
        None \<Rightarrow> (raus, False)
      | Some buf \<Rightarrow>
          (case pruefe_grenzen grenzen (db_dev buf) (db_len buf) of
             Inl _ \<Rightarrow> (raus, False)
           | Inr _ \<Rightarrow> map_sg_loop pool grenzen (i + 1) es (raus[i := Some buf])))"

definition map_sg :: "DmaPool \<Rightarrow> SgEintrag list \<Rightarrow> DmaBuf option list \<Rightarrow> GeraeteGrenzen \<Rightarrow> DmaBuf option list \<times> nat" where
  "map_sg pool sg raus grenzen =
     (if length raus < length sg then (raus, 0)
      else case map_sg_loop pool grenzen 0 sg raus of
        (raus1, False) \<Rightarrow> (replicate (length sg) None @ drop (length sg) raus1, 0)
      | (raus1, True) \<Rightarrow> (take (length sg) raus1 @ replicate (length raus1 - length sg) None, length sg))"

record BounceSlot =
  bs_buf :: DmaBuf
  bs_marke :: u64

definition bounce_einlagern :: "DmaPool \<Rightarrow> u64 \<Rightarrow> u64 \<Rightarrow> DmaPool \<times> BounceSlot option" where
  "bounce_einlagern pool bedarf align =
     (let marke = dp_mark pool in
      case dp_alloc pool bedarf align of
        (pool1, None) \<Rightarrow> (pool1, None)
      | (pool1, Some buf) \<Rightarrow> (pool1, Some \<lparr>bs_buf = buf, bs_marke = marke\<rparr>))"

definition bounce_freigeben :: "DmaPool \<Rightarrow> BounceSlot \<Rightarrow> DmaPool \<times> bool" where
  "bounce_freigeben pool slot = dp_release pool (bs_marke slot)"

section \<open>Large requests\<close>

definition SEITE :: u64 where "SEITE = 4096"

datatype GrossDmaFehler = LaengeNull | NichtSeitenausgerichtet u64 | GdUeberlauf | GroesserAlsZone u64 u64 | ZoneErschoepft u64 u64
  | FreilisteVoll nat nat | CapAbgewiesen | KeineUebersetzung | GdKeineGeraetesicht | GdIdentitaet u64 u64

definition ist_voruebergehend :: "GrossDmaFehler \<Rightarrow> bool" where
  "ist_voruebergehend e \<longleftrightarrow> (case e of ZoneErschoepft _ _ \<Rightarrow> True | FreilisteVoll _ _ \<Rightarrow> True | _ \<Rightarrow> False)"

record Zone =
  zo_lo :: u64
  zo_hi :: u64

definition Zone_groesse :: "Zone \<Rightarrow> u64" where
  "Zone_groesse z = saturating_sub64 (zo_hi z) (zo_lo z)"

record Lage =
  la_groesster_block :: u64
  la_fragmente :: nat
  la_kapazitaet :: nat

definition klassifiziere :: "Zone \<Rightarrow> u64 \<Rightarrow> Lage \<Rightarrow> GrossDmaFehler + unit" where
  "klassifiziere zone len lage =
     (if len = 0 then Inl LaengeNull
      else if len mod SEITE \<noteq> 0 then Inl (NichtSeitenausgerichtet len)
      else if checked_add (zo_lo zone) len = None then Inl GdUeberlauf
      else if len > Zone_groesse zone then Inl (GroesserAlsZone len (Zone_groesse zone))
      else if la_groesster_block lage < len then Inl (ZoneErschoepft len (la_groesster_block lage))
      else if la_fragmente lage \<ge> la_kapazitaet lage then Inl (FreilisteVoll (la_fragmente lage) (la_kapazitaet lage))
      else Inr ())"

text \<open>
  The search for the largest block. \<open>probe\<close> is the closure of the caller, with what it changes as its state. The
  loop need not end for bounds that are not multiples of a page, so it is a partial function; \<open>None\<close> also stands for
  the panic when the upper bound does not fit.
\<close>

partial_function (option) suche_loop :: "('s \<Rightarrow> u64 \<Rightarrow> 's \<times> bool) \<Rightarrow> u64 \<Rightarrow> u64 \<Rightarrow> 's \<Rightarrow> ('s \<times> u64) option" where
  "suche_loop probe lo hi s =
     (if hi - lo > SEITE then
        let mitte = (lo + (hi - lo) div 2) AND NOT (SEITE - 1) in
        (case probe s mitte of (s1, ja) \<Rightarrow> if ja then suche_loop probe mitte hi s1 else suche_loop probe lo mitte s1)
      else Some (s, lo))"

definition groesster_block_suche :: "u64 \<Rightarrow> ('s \<Rightarrow> u64 \<Rightarrow> 's \<times> bool) \<Rightarrow> 's \<Rightarrow> ('s \<times> u64) option" where
  "groesster_block_suche zone_groesse probe s = do {
     hi \<leftarrow> checked_add (zone_groesse AND NOT (SEITE - 1)) SEITE;
     suche_loop probe 0 hi s
   }"

definition pruefe_achsen :: "u64 \<Rightarrow> u64 \<Rightarrow> GrossDmaFehler + unit" where
  "pruefe_achsen pa iova =
     (if iova = 0 then Inl GdKeineGeraetesicht
      else if iova = pa then Inl (GdIdentitaet pa iova)
      else Inr ())"

end
