(* ===== verification/DmaLimits.thy ===== *)
theory DmaLimits
  imports Dma PhysAlloc_Props
begin

text \<open>
  What the arithmetic of \<open>caprock-dma\<close> decides about segment boundaries and about large requests: the cut of
  \<open>teile_an_grenze\<close> is the longest piece that keeps the bits of the mask, the search finds the largest block the
  allocator would give, and which refusal can be named at all.
\<close>

section \<open>Bits of addresses\<close>

lemma bit_unat_iff: "bit (x :: u64) k \<longleftrightarrow> odd (unat x div 2 ^ k)"
proof -
  have "bit x k \<longleftrightarrow> bit (unat x) k"
    by (auto simp: bit_unsigned_iff dest: bit_imp_le_length)
  then show ?thesis by (simp add: bit_iff_odd)
qed

lemma and_eq_iff: "((x :: u64) AND g = y AND g) \<longleftrightarrow> (\<forall>k. bit g k \<longrightarrow> (bit x k \<longleftrightarrow> bit y k))"
proof
  assume "x AND g = y AND g"
  then have "bit (x AND g) k \<longleftrightarrow> bit (y AND g) k" for k by simp
  then show "\<forall>k. bit g k \<longrightarrow> (bit x k \<longleftrightarrow> bit y k)" by (auto simp: bit_and_iff)
qed (rule bit_word_eqI, auto simp: bit_and_iff)

lemma trailing_zeros_lowest:
  assumes "m \<noteq> 0"
  shows "trailing_zeros m < 64" "bit m (trailing_zeros m)" "bit m k \<Longrightarrow> trailing_zeros m \<le> k"
proof -
  have "m \<noteq> 0 \<Longrightarrow> \<exists>i. bit m i" by (auto simp: bit_eq_iff)
  then obtain i where i: "bit m i" using assms by blast
  then have "i < 64" using bit_imp_le_length [of m i] by simp
  show l: "trailing_zeros m < 64"
  proof (rule ccontr)
    assume "\<not> trailing_zeros m < 64"
    then have "takeWhile (\<lambda>i. \<not> bit m i) [0..<64] = [0..<64]"
      using length_takeWhile_le [of "\<lambda>i. \<not> bit m i" "[0..<64]"]
      by (metis (no_types, lifting) diff_zero length_upt order_antisym not_less takeWhile_eq_take take_all trailing_zeros_def)
    then have "\<not> bit m i" using \<open>i < 64\<close> by (simp only: takeWhile_eq_all_conv) simp
    then show False using i by simp
  qed
  show "bit m (trailing_zeros m)"
    using nth_length_takeWhile [of "\<lambda>i. \<not> bit m i" "[0..<64]"] l by (simp add: trailing_zeros_def)
  show "trailing_zeros m \<le> k" if "bit m k"
  proof (rule ccontr)
    assume k: "\<not> trailing_zeros m \<le> k"
    then have "takeWhile (\<lambda>i. \<not> bit m i) [0..<64] ! k = [0..<64] ! k"
      by (simp add: takeWhile_nth trailing_zeros_def)
    moreover have "k < 64" using k l by simp
    ultimately have "k \<in> set (takeWhile (\<lambda>i. \<not> bit m i) [0..<64])"
      using k by (metis add_0 nth_mem nth_upt not_le trailing_zeros_def)
    then show False using that by (auto dest: set_takeWhileD)
  qed
qed

section \<open>The next boundary\<close>

definition next_multiple :: "nat \<Rightarrow> nat \<Rightarrow> nat" where
  "next_multiple a n = n - a mod n"

lemma next_multiple_pos: "0 < n \<Longrightarrow> 0 < next_multiple a n"
  by (simp add: next_multiple_def)

lemma next_multiple_div: "0 < n \<Longrightarrow> (a + next_multiple a n) = (a div n + 1) * n"
proof -
  assume "0 < n"
  then have "a mod n < n" by simp
  then have "a + (n - a mod n) = a div n * n + n" using div_mult_mod_eq [of a n] by linarith
  then show ?thesis by (simp add: next_multiple_def)
qed

lemma same_block: "0 < n \<Longrightarrow> i < next_multiple a n \<Longrightarrow> (a + i) div n = a div n"
proof -
  assume n: "0 < n" "i < next_multiple a n"
  then have "a mod n + i < n" by (simp add: next_multiple_def)
  moreover have "a + i = a div n * n + (a mod n + i)" using div_mult_mod_eq [of a n] by linarith
  ultimately show ?thesis using n(1) by (metis div_mult_self3 div_less add.right_neutral less_not_refl)
qed

lemma next_multiple_mono:
  assumes "k \<le> j"
  shows "next_multiple a (2 ^ k) \<le> next_multiple a (2 ^ j)"
proof (rule ccontr)
  assume "\<not> ?thesis"
  then have "(a + next_multiple a (2 ^ j)) div 2 ^ k = a div 2 ^ k" by (intro same_block) simp_all
  moreover have "2 ^ j = (2 :: nat) ^ k * 2 ^ (j - k)" using assms by (simp flip: power_add)
  then have "(2 :: nat) ^ k dvd a + next_multiple a (2 ^ j)" by (simp add: next_multiple_div)
  then have "(a + next_multiple a (2 ^ j)) div 2 ^ k * 2 ^ k = a + next_multiple a (2 ^ j)" by simp
  ultimately have "a + next_multiple a (2 ^ j) \<le> a" by (metis div_times_less_eq_dividend)
  then show False using next_multiple_pos [of "2 ^ j" a] by simp
qed

lemma unat_teile_abstand:
  assumes "m \<noteq> 0"
  shows "unat (teile_abstand dev m) = next_multiple (unat dev) (2 ^ trailing_zeros m)"
proof -
  let ?k = "trailing_zeros m"
  have k: "?k < 64" using trailing_zeros_lowest(1) [OF assms] .
  have s: "push_bit ?k (1 :: u64) = 2 ^ ?k" by (simp add: push_bit_eq_mult)
  have u: "unat (2 ^ ?k :: u64) = 2 ^ ?k" using k by (rule unat_pow2)
  have r: "unat (dev AND (2 ^ ?k - 1)) = unat dev mod 2 ^ ?k"
  proof -
    have "dev AND (2 ^ ?k - 1) = take_bit ?k dev" by (simp add: take_bit_eq_mask mask_eq_exp_minus_1)
    then show ?thesis by (simp only: unsigned_take_bit_eq) (simp add: take_bit_eq_mod)
  qed
  have "dev AND (2 ^ ?k - 1) \<le> 2 ^ ?k"
    unfolding word_le_nat_alt u r using pos_mod_bound by (simp add: less_imp_le)
  then show ?thesis by (simp add: teile_abstand_def Let_def s unat_sub_le u r next_multiple_def)
qed

lemma teile_loop_min:
  assumes "m \<noteq> 0" "erste \<noteq> 0"
  shows "unat (teile_loop dev m erste) = min (unat erste) (next_multiple (unat dev) (2 ^ trailing_zeros m))"
  using assms
proof (induction dev m erste rule: teile_loop.induct)
  case (1 dev m erste)
  define a where "a = teile_abstand dev m"
  define e where "e = (if a < erste then a else erste)"
  define m' where "m' = m AND (m - 1)"
  have ua: "unat a = next_multiple (unat dev) (2 ^ trailing_zeros m)" using 1(2) by (simp add: a_def unat_teile_abstand)
  then have e: "unat e = min (unat erste) (unat a)" by (auto simp: e_def word_less_nat_alt)
  have e0: "e \<noteq> 0" using 1(3) e ua next_multiple_pos [of "2 ^ trailing_zeros m" "unat dev"] by (auto simp: unat_gt_0 [symmetric])
  have rec: "teile_loop dev m erste = (if e = 1 then e else teile_loop dev m' e)"
    using 1(2) unfolding a_def e_def m'_def Let_def by (subst teile_loop.simps) (simp only: Let_def if_False)
  show ?case
  proof (cases "e = 1 \<or> m' = 0")
    case True
    then have "teile_loop dev m erste = e" using rec by (auto simp: teile_loop.simps [of dev 0])
    then show ?thesis using e ua by simp
  next
    case False
    then have "bit m (trailing_zeros m')" using trailing_zeros_lowest(2) [of m'] by (simp add: m'_def bit_and_iff)
    then have "unat a \<le> next_multiple (unat dev) (2 ^ trailing_zeros m')"
      using trailing_zeros_lowest(3) [OF 1(2)] ua by (simp add: next_multiple_mono)
    moreover have "unat (teile_loop dev m' e) = min (unat e) (next_multiple (unat dev) (2 ^ trailing_zeros m'))"
      using 1(1) [OF 1(2) a_def e_def] False e0 by (simp add: m'_def)
    ultimately show ?thesis using rec False e ua by simp
  qed
qed

text \<open>All addresses from \<open>dev\<close> on keep the bits of \<open>g\<close>, for \<open>n\<close> bytes.\<close>

definition keeps_bits :: "u64 \<Rightarrow> nat \<Rightarrow> u64 \<Rightarrow> bool" where
  "keeps_bits dev n g \<longleftrightarrow> (\<forall>i<n. (dev + of_nat i) AND g = dev AND g)"

lemma unat_offset: "unat (dev :: u64) + i < 2 ^ 64 \<Longrightarrow> unat (dev + of_nat i) = unat dev + i"
  by (subst unat_add_u64) (simp_all add: unat_of_nat_u64)

lemma keeps_bits_exact:
  assumes "g \<noteq> 0" "unat dev + n \<le> 2 ^ 64"
  shows "keeps_bits dev n g \<longleftrightarrow> n \<le> next_multiple (unat dev) (2 ^ trailing_zeros g)"
proof
  let ?k = "trailing_zeros g"
  assume n: "n \<le> next_multiple (unat dev) (2 ^ ?k)"
  show "keeps_bits dev n g" unfolding keeps_bits_def and_eq_iff
  proof (intro allI impI)
    fix i k assume i: "i < n" and k: "bit g k"
    have j: "?k \<le> k" using trailing_zeros_lowest(3) [OF assms(1) k] .
    have "(unat dev + i) div 2 ^ ?k = unat dev div 2 ^ ?k" using i n by (intro same_block) simp_all
    then have "(unat dev + i) div 2 ^ ?k div 2 ^ (k - ?k) = unat dev div 2 ^ ?k div 2 ^ (k - ?k)" by simp
    then have "(unat dev + i) div 2 ^ k = unat dev div 2 ^ k" using j by (simp flip: div_mult2_eq power_add)
    then show "bit (dev + of_nat i) k \<longleftrightarrow> bit dev k" using assms(2) i by (simp add: bit_unat_iff unat_offset)
  qed
next
  let ?k = "trailing_zeros g" and ?d = "next_multiple (unat dev) (2 ^ trailing_zeros g)"
  assume kb: "keeps_bits dev n g"
  show "n \<le> ?d"
  proof (rule ccontr)
    assume d: "\<not> n \<le> ?d"
    then have "(dev + of_nat ?d) AND g = dev AND g" using kb by (simp add: keeps_bits_def)
    then have "bit (dev + of_nat ?d) ?k \<longleftrightarrow> bit dev ?k" using trailing_zeros_lowest(2) [OF assms(1)] by (simp add: and_eq_iff)
    moreover have "unat (dev + of_nat ?d) = unat dev + ?d" using assms(2) d by (intro unat_offset) simp
    ultimately show False by (simp add: bit_unat_iff next_multiple_div)
  qed
qed

text \<open>
  C39. \<open>teile_an_grenze\<close> cuts a segment exactly at the boundary of the device: of every segment that is not empty and
  does not run over the end of the address space it returns the longest beginning in which all addresses agree on
  the bits of the mask, whatever the mask is, and the piece is never empty.
\<close>

theorem cut_is_longest:
  assumes "len \<noteq> 0" and "unat dev + unat len < 2 ^ 64"
  shows "\<exists>n. teile_an_grenze dev len grenze = Some n \<and> n \<noteq> 0 \<and> n \<le> len \<and>
    (\<forall>j \<le> unat len. keeps_bits dev j grenze \<longleftrightarrow> j \<le> unat n)"
proof (cases "grenze = 0")
  case True
  then show ?thesis using assms by (simp add: teile_an_grenze_def checked_add_def keeps_bits_def)
next
  case False
  define n where "n = teile_loop dev grenze len"
  have n: "unat n = min (unat len) (next_multiple (unat dev) (2 ^ trailing_zeros grenze))"
    unfolding n_def using False assms(1) by (rule teile_loop_min)
  have le: "n \<le> len" using n by (simp add: word_le_nat_alt)
  then have "teile_an_grenze dev len grenze = Some n"
    using assms False by (auto simp: teile_an_grenze_def checked_add_def Let_def simp flip: n_def)
  moreover have "unat n \<noteq> 0" using n assms(1) next_multiple_pos [of "2 ^ trailing_zeros grenze" "unat dev"] by (simp add: unat_eq_zero min_def unat_gt_0)
  moreover have "keeps_bits dev j grenze \<longleftrightarrow> j \<le> unat n" if "j \<le> unat len" for j
    using keeps_bits_exact [OF False, of dev j] that assms(2) n by simp
  ultimately show ?thesis using le by (metis unat_0)
qed

section \<open>The largest block\<close>

lemma SEITE_pow: "SEITE = 2 ^ 12" "unat SEITE = 4096"
  by (simp_all add: SEITE_def)

lemma page_floor: "unat (x AND NOT (SEITE - 1)) = 4096 * (unat x div 4096)"
  using unat_and_not_mask [of 12 x] by (simp add: SEITE_pow(1))

text \<open>One step of the search halves the number of pages between the bounds.\<close>

lemma mitte_page:
  assumes "unat lo = 4096 * a" "unat hi = 4096 * b" "a < b"
  shows "unat ((lo + (hi - lo) div 2) AND NOT (SEITE - 1)) = 4096 * ((a + b) div 2)"
proof -
  have "lo \<le> hi" using assms by (simp add: word_le_nat_alt)
  then have half: "unat ((hi - lo) div 2) = 2048 * (b - a)" using assms by (simp add: unat_div unat_sub_le)
  have "unat hi < 2 ^ 64" by (rule unat_u64_lt)
  then have sum: "unat (lo + (hi - lo) div 2) = 4096 * a + 2048 * (b - a)"
    using assms half by (subst unat_add_u64) auto
  have "(4096 * a + 2048 * (b - a)) div 4096 = (a + b) div 2"
  proof -
    have "4096 * a + 2048 * (b - a) = 2048 * (a + b)" using assms(3) by (simp add: algebra_simps)
    then show ?thesis using div_mult_mult1 [of 2048 "a + b" 2] by simp
  qed
  then show ?thesis by (simp add: page_floor sum)
qed

text \<open>
  \<open>found P lo hi s out\<close>: the search between \<open>lo\<close> and \<open>hi\<close> ended with \<open>out\<close>, asked at most about the logarithm of the
  number of pages times, and stands where \<open>P\<close> changes.
\<close>

definition found :: "('s \<Rightarrow> u64 \<Rightarrow> 's \<times> bool) \<Rightarrow> (u64 \<Rightarrow> bool) \<Rightarrow> nat \<Rightarrow> nat \<Rightarrow> 's \<Rightarrow> 's \<times> u64 \<Rightarrow> bool" where
  "found probe P a b s out \<longleftrightarrow> (\<exists>xs c. fst out = fold (\<lambda>x s. fst (probe s x)) xs s \<and> (xs = [] \<or> 2 ^ (length xs - 1) < b - a) \<and>
     unat (snd out) = 4096 * c \<and> a \<le> c \<and> c < b \<and> (c = a \<or> P (snd out)) \<and> (c + 1 = b \<or> \<not> P (of_nat (4096 * (c + 1)))))"

lemma found_step:
  assumes "found probe P a' b' (fst (probe s x)) out" "a \<le> a'" "b' \<le> b" "b' - a' \<le> (b - a + 1) div 2" "2 \<le> b - a"
    and "a' \<noteq> a \<Longrightarrow> a' < b' \<Longrightarrow> \<forall>r. unat r = 4096 * a' \<longrightarrow> P r" and "b' \<noteq> b \<Longrightarrow> \<not> P (of_nat (4096 * b'))"
  shows "found probe P a b s out"
proof -
  from assms(1) obtain xs c where c: "fst out = fold (\<lambda>x s. fst (probe s x)) xs (fst (probe s x))"
      "xs = [] \<or> 2 ^ (length xs - 1) < b' - a'" "unat (snd out) = 4096 * c" "a' \<le> c" "c < b'" "c = a' \<or> P (snd out)"
      "c + 1 = b' \<or> \<not> P (of_nat (4096 * (c + 1)))"
    unfolding found_def by blast
  have "2 ^ length xs < b - a"
  proof (cases xs)
    case (Cons y ys)
    then have l: "2 ^ length xs = 2 * (2 :: nat) ^ (length xs - 1)" by simp
    have "2 ^ (length xs - 1) < (b - a + 1) div 2" using c(2) Cons assms(4) by auto
    then have "2 * 2 ^ (length xs - 1) < b - a" by linarith
    then show ?thesis by (simp only: l)
  qed (use assms(5) in simp)
  then show ?thesis
    unfolding found_def using c assms by (intro exI [of _ "x # xs"] exI [of _ c]) auto
qed

lemma suche_loop_found:
  assumes probe: "\<And>s x. snd (probe s x) = P x"
    and "unat lo = 4096 * a" "unat hi = 4096 * b" "a < b"
  shows "\<exists>out. suche_loop probe lo hi s = Some out \<and> found probe P a b s out"
  using assms(2-)
proof (induction "b - a" arbitrary: a b lo hi s rule: less_induct)
  case less
  have size: "unat (hi - lo) = 4096 * (b - a)"
    using less.prems by (simp add: unat_sub_le word_le_nat_alt diff_mult_distrib2)
  show ?case
  proof (cases "b - a = 1")
    case True
    then have "\<not> hi - lo > SEITE" using size by (simp add: word_less_nat_alt SEITE_pow)
    then have "suche_loop probe lo hi s = Some (s, lo)" by (subst suche_loop.simps) simp
    moreover have "a + 1 = b" using True less.prems(3) by simp
    then have "found probe P a b s (s, lo)"
      unfolding found_def using less.prems by (intro exI [of _ "[]"] exI [of _ a]) simp
    ultimately show ?thesis by blast
  next
    case False
    define m where "m = (lo + (hi - lo) div 2) AND NOT (SEITE - 1)"
    define c where "c = (a + b) div 2"
    have m: "unat m = 4096 * c" using mitte_page [OF less.prems] by (simp add: m_def c_def)
    have c: "a < c" "c < b" "c - a \<le> (b - a + 1) div 2" "b - c \<le> (b - a + 1) div 2"
      using False less.prems(3) unfolding c_def by linarith+
    have lt: "b - c < b - a" "c - a < b - a" using c by linarith+
    have P_eq: "unat r = 4096 * c \<longrightarrow> r = m" for r :: u64 using m by (metis word_unat_eq_iff)
    have P_of: "of_nat (4096 * c) = m" using m by (metis unat_of_nat_u64 unat_u64_lt word_unat_eq_iff)
    have run: "suche_loop probe lo hi s = (if P m then suche_loop probe m hi (fst (probe s m)) else suche_loop probe lo m (fst (probe s m)))"
    proof -
      have "hi - lo > SEITE" using size False less.prems(3) by (simp add: word_less_nat_alt SEITE_pow)
      then show ?thesis using probe [of s m] by (subst suche_loop.simps) (simp add: Let_def case_prod_beta flip: m_def)
    qed
    show ?thesis
    proof (cases "P m")
      case True
      then obtain out where out: "suche_loop probe m hi (fst (probe s m)) = Some out" "found probe P c b (fst (probe s m)) out"
        using less.hyps [of b c m hi "fst (probe s m)"] m less.prems(2) c lt by auto
      have "found probe P a b s out" using out(2) c True P_eq False less.prems(3) by (intro found_step [OF out(2)]) auto
      then show ?thesis using out(1) run True by simp
    next
      case False': False
      then obtain out where out: "suche_loop probe lo m (fst (probe s m)) = Some out" "found probe P a c (fst (probe s m)) out"
        using less.hyps [of c a lo m "fst (probe s m)"] m less.prems(1) c lt by auto
      have "found probe P a b s out" using out(2) c False' P_of False less.prems(3) by (intro found_step [OF out(2)]) auto
      then show ?thesis using out(1) run False' by simp
    qed
  qed
qed

lemma suche_found:
  assumes "\<And>s x. snd (probe s x) = P x" and "4096 * (unat zone div 4096) + 4096 < 2 ^ 64"
  shows "\<exists>out. groesster_block_suche zone probe s = Some out \<and> found probe P 0 (unat zone div 4096 + 1) s out"
proof -
  let ?f = "zone AND NOT (SEITE - 1)"
  have f: "unat ?f = 4096 * (unat zone div 4096)" by (rule page_floor)
  then have hi: "checked_add ?f SEITE = Some (?f + SEITE)" "unat (?f + SEITE) = 4096 * (unat zone div 4096 + 1)"
    using assms(2) by (simp_all add: checked_add_def SEITE_pow unat_add_u64)
  then show ?thesis
    using suche_loop_found [of probe P 0 0 "?f + SEITE" "unat zone div 4096 + 1" s] assms(1) by (simp add: groesster_block_suche_def)
qed




section \<open>The name of a refusal\<close>

text \<open>
  A defect of the diagnosis: a request for large DMA memory is never refused with \<open>FreilisteVoll\<close>. After
  the allocator refused \<open>len\<close>, the largest block is measured with the same allocator, so it comes out
  smaller than \<open>len\<close>, and the classification, which looks at that first, names an exhausted zone, however full the free
  list is. The name that the code has for the case that memory is there and the list is full cannot
  appear.
\<close>

theorem full_list_never_named:
  assumes "\<And>s x. snd (probe s x) = P x" and "\<And>x y. x \<le> y \<Longrightarrow> P y \<Longrightarrow> P x"
    and "klassifiziere zone len \<lparr>la_groesster_block = - 1, la_fragmente = 0, la_kapazitaet = kapazitaet\<rparr> = Inr ()"
    and "\<not> P len" and "groesster_block_suche (Zone_groesse zone) probe s = Some (s', r)"
  shows "klassifiziere zone len \<lparr>la_groesster_block = r, la_fragmente = fragmente, la_kapazitaet = kapazitaet\<rparr> = Inl (ZoneErschoepft len r)"
proof -
  have l: "len \<noteq> 0" "len mod SEITE = 0" "checked_add (zo_lo zone) len \<noteq> None" "len \<le> Zone_groesse zone"
    using assms(3) by (auto simp: klassifiziere_def split: if_splits)
  let ?z = "Zone_groesse zone"
  have "checked_add (?z AND NOT (SEITE - 1)) SEITE \<noteq> None" using assms(5) by (auto simp: groesster_block_suche_def split: Option.bind_splits)
  then have "unat (?z AND NOT (SEITE - 1)) + unat SEITE < 2 ^ 64"
    unfolding checked_add_None_iff by (simp only: not_le)
  then have "4096 * (unat ?z div 4096) + 4096 < 2 ^ 64"
    unfolding page_floor SEITE_pow(2) .
  from suche_found [of probe P ?z s, OF assms(1) this] have f: "found probe P 0 (unat ?z div 4096 + 1) s (s', r)"
    using assms(5) by auto
  from f obtain c where c: "unat r = 4096 * c" "c = 0 \<or> P r" by (auto simp: found_def)
  have "r < len"
  proof (rule ccontr)
    assume "\<not> r < len"
    then have "len \<le> r" by simp
    moreover have "r \<noteq> 0" using l(1) \<open>len \<le> r\<close> by auto
    then have "P r" using c by (auto simp: unat_eq_zero)
    ultimately show False using assms(2,4) by blast
  qed
  then show ?thesis using l by (simp add: klassifiziere_def)
qed

end
