(* ===== verification/DmaPoolProps.thy ===== *)
theory DmaPoolProps
  imports Dma PhysAlloc_Props
begin

text \<open>
  The pool as a system: buffers are handed out and given back in reverse order. The buffers in use never overlap on
  either axis; and what happens when they are given back in another order.
\<close>

section \<open>Windows\<close>

definition pool_inv :: "DmaPool \<Rightarrow> bool" where
  "pool_inv p \<longleftrightarrow> unat (dp_cpu_base p) + unat (dp_len p) < 2 ^ 64 \<and> unat (dp_dev_base p) + unat (dp_len p) < 2 ^ 64 \<and>
     dp_next p \<le> dp_hoechststand p \<and> dp_hoechststand p \<le> dp_len p \<and> dp_cpu_base p \<noteq> dp_dev_base p"

lemma new_inv: "DmaPool_new c d l = Inr p \<Longrightarrow> pool_inv p"
  by (auto simp: DmaPool_new_def pool_inv_def checked_add_def split: if_splits)

text \<open>\<open>inside p b off\<close>: \<open>b\<close> is the piece of the window from \<open>off\<close> on, the same on both axes.\<close>

definition inside :: "DmaPool \<Rightarrow> DmaBuf \<Rightarrow> nat \<Rightarrow> bool" where
  "inside p b off \<longleftrightarrow> unat (db_cpu b) = unat (dp_cpu_base p) + off \<and> unat (db_dev b) = unat (dp_dev_base p) + off \<and>
     off + unat (db_len b) \<le> unat (dp_len p)"

lemma is_power_of_two64D: "is_power_of_two64 n \<Longrightarrow> \<exists>k<64. n = 2 ^ k"
  by (auto simp: is_power_of_two64_def list_ex_iff)

lemma alloc_inside:
  assumes "pool_inv p" "dp_alloc p len align = (p', Some b)"
  obtains off where "inside p b off" "unat (dp_next p) \<le> off" "unat align dvd off" "off + unat len = unat (dp_next p')"
    "db_len b = len" "len \<noteq> 0" "pool_inv p'" "dp_cpu_base p' = dp_cpu_base p" "dp_dev_base p' = dp_dev_base p" "dp_len p' = dp_len p"
proof -
  from assms(2) have len: "len \<noteq> 0" and "is_power_of_two64 align"
    by (auto simp: dp_alloc_def split: if_splits)
  then obtain k where k: "k < 64" "align = 2 ^ k" using is_power_of_two64D by blast
  from assms(2) obtain up ende where up: "checked_add (dp_next p) (align - 1) = Some up"
      and e: "checked_add (up AND NOT (align - 1)) len = Some ende" "ende \<le> dp_len p"
      and p': "p' = p\<lparr>dp_next := ende, dp_hoechststand := (if ende > dp_hoechststand p then ende else dp_hoechststand p)\<rparr>"
      and b: "b = \<lparr>db_cpu = dp_cpu_base p + (up AND NOT (align - 1)), db_dev = dp_dev_base p + (up AND NOT (align - 1)), db_len = len\<rparr>"
    by (auto simp: dp_alloc_def Let_def split: if_splits option.splits)
  let ?off = "up AND NOT (align - 1)"
  have off: "unat ?off = unat up div 2 ^ k * 2 ^ k" using unat_and_not_mask [OF k(1), of up] by (simp add: k(2))
  have "unat (2 ^ k - 1 :: u64) = 2 ^ k - 1"
    using k(1) by (subst unat_sub_le) (simp_all add: word_le_nat_alt unat_pow2)
  moreover have "unat up = unat (dp_next p) + unat (align - 1)" using checked_add_SomeD [OF up] by blast
  ultimately have "unat up = unat (dp_next p) + (2 ^ k - 1)" using k(2) by simp
  then have ge: "unat (dp_next p) \<le> unat ?off" using ceil_mult_ge [of "2 ^ k" "unat (dp_next p)"] off by simp
  have s: "unat ende = unat ?off + unat len" using checked_add_SomeD [OF e(1)] by blast
  then have le: "unat ?off + unat len \<le> unat (dp_len p)" using e(2) by (simp add: word_le_nat_alt)
  have "inside p b (unat ?off)"
    using assms(1) le by (auto simp: inside_def b pool_inv_def unat_add_u64)
  moreover have "unat align dvd unat ?off" using off k by (simp add: unat_pow2)
  moreover have "pool_inv p'" using assms(1) e(2) by (auto simp: p' pool_inv_def)
  ultimately show ?thesis using that [of "unat ?off"] ge s len by (simp add: p' b)
qed

lemma alloc_refused: "dp_alloc p len align = (p', None) \<Longrightarrow> p' = p"
  by (auto simp: dp_alloc_def Let_def split: if_splits option.splits)

text \<open>
  \<open>map\<close> answers exactly for the pieces of the window, with the device address at the same distance from its base.
\<close>

lemma map_exact:
  assumes "pool_inv p"
  shows "dp_map p cpu len = Some b \<longleftrightarrow> (\<exists>off. inside p b off) \<and> db_cpu b = cpu \<and> db_len b = len"
proof
  assume m: "dp_map p cpu len = Some b"
  then have c: "dp_cpu_base p \<le> cpu" "unat (cpu - dp_cpu_base p) + unat len \<le> unat (dp_len p)"
      "b = \<lparr>db_cpu = cpu, db_dev = dp_dev_base p + (cpu - dp_cpu_base p), db_len = len\<rparr>"
    by (auto simp: dp_map_def Let_def word_le_nat_alt not_less dest!: checked_add_SomeD split: if_splits Option.bind_splits)
  then have "inside p b (unat (cpu - dp_cpu_base p))"
    using assms by (auto simp: inside_def pool_inv_def unat_add_u64 unat_sub_le word_le_nat_alt)
  then show "(\<exists>off. inside p b off) \<and> db_cpu b = cpu \<and> db_len b = len" using c by auto
next
  assume a: "(\<exists>off. inside p b off) \<and> db_cpu b = cpu \<and> db_len b = len"
  then obtain off where off: "inside p b off" and b: "cpu = db_cpu b" "len = db_len b" by auto
  have le: "dp_cpu_base p \<le> cpu" and o: "unat (cpu - dp_cpu_base p) = off"
    using off b by (auto simp: inside_def word_le_nat_alt unat_sub_le)
  have lim: "off + unat len \<le> unat (dp_len p)" "unat (dp_dev_base p) + unat (dp_len p) < 2 ^ 64"
    using off b assms by (auto simp: inside_def pool_inv_def)
  have ca: "checked_add (cpu - dp_cpu_base p) len = Some (cpu - dp_cpu_base p + len)"
    using lim o by (simp add: checked_add_def)
  have "unat (cpu - dp_cpu_base p + len) = off + unat len"
    using lim o by (subst unat_add_u64) simp_all
  moreover have "unat (dp_dev_base p + (cpu - dp_cpu_base p)) = unat (dp_dev_base p) + off"
    using lim o by (subst unat_add_u64) simp_all
  then have "dp_dev_base p + (cpu - dp_cpu_base p) = db_dev b" using off by (simp add: inside_def word_unat_eq_iff)
  moreover have "\<not> cpu < dp_cpu_base p" using le by simp
  ultimately show "dp_map p cpu len = Some b"
    using lim ca b by (simp add: dp_map_def Let_def word_less_nat_alt [of "dp_len p"])
qed

section \<open>Buffers in use\<close>

type_synonym DmaSys = "DmaPool \<times> BounceSlot list"

definition dma_init :: "DmaSys \<Rightarrow> bool" where
  "dma_init s \<longleftrightarrow> (\<exists>c d l. DmaPool_new c d l = Inr (fst s)) \<and> snd s = []"

text \<open>Buffers are taken at any time; the one given back is the one taken last.\<close>

inductive dma_step :: "DmaSys \<Rightarrow> DmaSys \<Rightarrow> bool" where
  einlagern: "bounce_einlagern p n a = (p', Some slot) \<Longrightarrow> dma_step (p, slots) (p', slot # slots)"
| erschoepft: "bounce_einlagern p n a = (p', None) \<Longrightarrow> dma_step (p, slots) (p', slots)"
| freigeben: "bounce_freigeben p slot = (p', ok) \<Longrightarrow> dma_step (p, slot # slots) (p', slots)"

fun stacked :: "DmaPool \<Rightarrow> nat \<Rightarrow> BounceSlot list \<Rightarrow> bool" where
  "stacked p limit [] = True"
| "stacked p limit (s # ss) = ((\<exists>off. inside p (bs_buf s) off \<and> unat (bs_marke s) \<le> off \<and> off + unat (db_len (bs_buf s)) \<le> limit) \<and>
     db_len (bs_buf s) \<noteq> 0 \<and> stacked p (unat (bs_marke s)) ss)"

definition dma_inv :: "DmaSys \<Rightarrow> bool" where
  "dma_inv s \<longleftrightarrow> pool_inv (fst s) \<and> stacked (fst s) (unat (dp_next (fst s))) (snd s)"

lemma inside_window: "dp_cpu_base p' = dp_cpu_base p \<Longrightarrow> dp_dev_base p' = dp_dev_base p \<Longrightarrow> dp_len p' = dp_len p \<Longrightarrow> inside p' = inside p"
  by (intro ext) (simp add: inside_def)

lemma stacked_window:
  "dp_cpu_base p' = dp_cpu_base p \<Longrightarrow> dp_dev_base p' = dp_dev_base p \<Longrightarrow> dp_len p' = dp_len p \<Longrightarrow> stacked p' l ss = stacked p l ss"
  by (induction ss arbitrary: l) (simp_all add: inside_def)

lemma dma_step_inv: "dma_step s t \<Longrightarrow> dma_inv s \<Longrightarrow> dma_inv t"
proof (induction rule: dma_step.induct)
  case (einlagern p n a p' slot slots)
  then have al: "dp_alloc p n a = (p', Some (bs_buf slot))" and mk: "bs_marke slot = dp_next p"
    by (auto simp: bounce_einlagern_def dp_mark_def split: prod.splits option.splits)
  have inv: "pool_inv p" "stacked p (unat (dp_next p)) slots" using einlagern.prems by (simp_all add: dma_inv_def)
  from inv(1) al obtain off where off: "inside p (bs_buf slot) off" "unat (dp_next p) \<le> off" "unat a dvd off" "off + unat n = unat (dp_next p')"
      "db_len (bs_buf slot) = n" "n \<noteq> 0" "pool_inv p'"
      and w: "dp_cpu_base p' = dp_cpu_base p" "dp_dev_base p' = dp_dev_base p" "dp_len p' = dp_len p"
    by (rule alloc_inside)
  show ?case using off inv(2) mk by (auto simp: dma_inv_def stacked_window [OF w] inside_window [OF w])
next
  case (erschoepft p n a p' slots)
  then show ?case by (auto simp: bounce_einlagern_def dest: alloc_refused split: prod.splits option.splits)
next
  case (freigeben p slot p' ok slots)
  then have inv: "pool_inv p" "stacked p (unat (bs_marke slot)) slots"
      and le: "bs_marke slot \<le> dp_next p" by (auto simp: dma_inv_def word_le_nat_alt)
  have p': "p' = p\<lparr>dp_next := bs_marke slot\<rparr>" using freigeben.hyps le by (auto simp: bounce_freigeben_def dp_release_def split: if_splits)
  have "stacked p' (unat (bs_marke slot)) slots" using inv(2) by (subst stacked_window [of p' p]) (simp_all add: p')
  then show ?case using inv(1) le by (auto simp: dma_inv_def p' pool_inv_def)
qed

interpretation dma: step_system dma_init dma_step dma_inv
proof unfold_locales
  show "dma_init s \<Longrightarrow> dma_inv s" for s by (auto simp: dma_init_def dma_inv_def new_inv)
qed (rule dma_step_inv)

lemma stacked_nth:
  "stacked p l ss \<Longrightarrow> i < length ss \<Longrightarrow> \<exists>off. inside p (bs_buf (ss ! i)) off \<and> unat (bs_marke (ss ! i)) \<le> off \<and>
     off + unat (db_len (bs_buf (ss ! i))) \<le> l"
proof (induction ss arbitrary: l i)
  case (Cons s ss)
  show ?case
  proof (cases i)
    case 0
    then show ?thesis using Cons.prems by auto
  next
    case (Suc j)
    then obtain off where "inside p (bs_buf (ss ! j)) off" "unat (bs_marke (ss ! j)) \<le> off" "off + unat (db_len (bs_buf (ss ! j))) \<le> unat (bs_marke s)"
      using Cons.IH [of "unat (bs_marke s)" j] Cons.prems by auto
    moreover have "unat (bs_marke s) \<le> l" using Cons.prems(1) by auto
    ultimately show ?thesis using Suc by auto
  qed
qed simp

lemma stacked_order:
  "stacked p l ss \<Longrightarrow> i < j \<Longrightarrow> j < length ss \<Longrightarrow> \<exists>oi oj. inside p (bs_buf (ss ! i)) oi \<and> inside p (bs_buf (ss ! j)) oj \<and>
     oj + unat (db_len (bs_buf (ss ! j))) \<le> oi"
proof (induction ss arbitrary: l i j)
  case (Cons s ss)
  show ?case
  proof (cases i)
    case 0
    from Cons.prems obtain oi where oi: "inside p (bs_buf s) oi" "unat (bs_marke s) \<le> oi" by auto
    obtain j' where j: "j = Suc j'" using Cons.prems(2) by (cases j) auto
    then obtain oj where "inside p (bs_buf (ss ! j')) oj" "oj + unat (db_len (bs_buf (ss ! j'))) \<le> unat (bs_marke s)"
      using stacked_nth [of p "unat (bs_marke s)" ss j'] Cons.prems by auto
    then show ?thesis using oi 0 j by (intro exI [of _ oi] exI [of _ oj]) simp
  next
    case (Suc i')
    then show ?thesis using Cons.IH [of "unat (bs_marke s)" i' "j - 1"] Cons.prems by (cases j) auto
  qed
qed simp

text \<open>
  C18. In every state that a pool reaches when the buffers are given back in reverse order of their allocation, the
  buffers in use lie inside the window at the same distance from its base on both axes, have different addresses
  for program and device, and share no byte with each other, neither for the program nor for the device; and
  \<open>map\<close> finds each of them again.
\<close>

theorem dma_buffers_apart:
  assumes "reach dma_init dma_step (p, slots)"
  shows "(\<forall>s \<in> set slots. let b = bs_buf s in (\<exists>off. inside p b off) \<and> db_cpu b \<noteq> db_dev b \<and> dp_map p (db_cpu b) (db_len b) = Some b) \<and>
    (\<forall>i j. i < j \<and> j < length slots \<longrightarrow> (let x = bs_buf (slots ! i); y = bs_buf (slots ! j) in
       unat (db_cpu y) + unat (db_len y) \<le> unat (db_cpu x) \<and> unat (db_dev y) + unat (db_len y) \<le> unat (db_dev x)))"
proof -
  have inv: "pool_inv p" "stacked p (unat (dp_next p)) slots" using dma.reach_inv [OF assms] by (simp_all add: dma_inv_def)
  have "(\<exists>off. inside p (bs_buf s) off) \<and> db_cpu (bs_buf s) \<noteq> db_dev (bs_buf s) \<and> dp_map p (db_cpu (bs_buf s)) (db_len (bs_buf s)) = Some (bs_buf s)"
    if "s \<in> set slots" for s
  proof -
    from that obtain i where "i < length slots" "s = slots ! i" by (auto simp: in_set_conv_nth)
    then obtain off where off: "inside p (bs_buf s) off" using stacked_nth [OF inv(2)] by blast
    then have "db_cpu (bs_buf s) \<noteq> db_dev (bs_buf s)" using inv(1) by (auto simp: inside_def pool_inv_def word_unat_eq_iff)
    then show ?thesis using off map_exact [OF inv(1)] by auto
  qed
  moreover have "unat (db_cpu y) + unat (db_len y) \<le> unat (db_cpu x) \<and> unat (db_dev y) + unat (db_len y) \<le> unat (db_dev x)"
    if "i < j" "j < length slots" "x = bs_buf (slots ! i)" "y = bs_buf (slots ! j)" for i j x y
    using stacked_order [OF inv(2) that(1,2)] that(3,4) by (auto simp: inside_def)
  ultimately show ?thesis by (simp add: Let_def)
qed

text \<open>\<open>map_sg\<close> maps every entry or none; it leaves old entries behind the list when it fails.\<close>

lemma map_sg_loop_exact:
  "map_sg_loop p g i es raus = (raus', ok) \<Longrightarrow> i + length es \<le> length raus \<Longrightarrow> length raus' = length raus \<and>
     (ok \<longleftrightarrow> list_all (\<lambda>e. \<exists>b. dp_map p (sg_cpu e) (sg_len e) = Some b \<and> pruefe_grenzen g (db_dev b) (db_len b) = Inr ()) es) \<and>
     drop (i + length es) raus' = drop (i + length es) raus \<and> take i raus' = take i raus \<and>
     (ok \<longrightarrow> take (length es) (drop i raus') = map (\<lambda>e. dp_map p (sg_cpu e) (sg_len e)) es)"
proof (induction p g i es raus arbitrary: raus' rule: map_sg_loop.induct)
  case (2 p g i e es raus)
  show ?case
  proof (cases "\<exists>b. dp_map p (sg_cpu e) (sg_len e) = Some b \<and> pruefe_grenzen g (db_dev b) (db_len b) = Inr ()")
    case True
    then obtain b where b: "dp_map p (sg_cpu e) (sg_len e) = Some b" "pruefe_grenzen g (db_dev b) (db_len b) = Inr ()" by blast
    have *: "map_sg_loop p g (i + 1) es (raus[i := Some b]) = (raus', ok)" using 2(2) b by simp
    have ih: "length raus' = length raus" "ok \<longleftrightarrow> list_all (\<lambda>e. \<exists>b. dp_map p (sg_cpu e) (sg_len e) = Some b \<and> pruefe_grenzen g (db_dev b) (db_len b) = Inr ()) es"
        "drop (i + 1 + length es) raus' = drop (i + 1 + length es) raus" "take (i + 1) raus' = take i raus @ [Some b]"
        "ok \<longrightarrow> take (length es) (drop (i + 1) raus') = map (\<lambda>e. dp_map p (sg_cpu e) (sg_len e)) es"
      using 2(1) [OF b(1) b(2) *] 2(3) by (auto simp: take_Suc_conv_app_nth)
    have "take i raus' = take i (take (i + 1) raus')" by simp
    also have "\<dots> = take i raus" using ih(4) 2(3) by simp
    finally have t: "take i raus' = take i raus" .
    have "raus' ! i = Some b" using ih(1,4) 2(3) by (metis (no_types, lifting) append_eq_append_conv t take_Suc_conv_app_nth Suc_eq_plus1 le_add1 length_Cons less_le_trans list.inject lessI add_Suc_right le_imp_less_Suc)
    then have "drop i raus' = Some b # drop (i + 1) raus'" using ih(1) 2(3) by (simp add: Cons_nth_drop_Suc [symmetric])
    then show ?thesis using ih t b 2(3) by auto
  next
    case False
    then have "raus' = raus \<and> \<not> ok" using 2(2) by (auto split: option.splits sum.splits)
    then show ?thesis using False by auto
  qed
qed simp

theorem map_sg_all_or_nothing:
  assumes "length sg \<le> length raus"
  shows "map_sg p sg raus g =
    (if list_all (\<lambda>e. \<exists>b. dp_map p (sg_cpu e) (sg_len e) = Some b \<and> pruefe_grenzen g (db_dev b) (db_len b) = Inr ()) sg
     then (map (\<lambda>e. dp_map p (sg_cpu e) (sg_len e)) sg @ replicate (length raus - length sg) None, length sg)
     else (replicate (length sg) None @ drop (length sg) raus, 0))"
proof -
  obtain raus' ok where l: "map_sg_loop p g 0 sg raus = (raus', ok)" by (cases "map_sg_loop p g 0 sg raus")
  from map_sg_loop_exact [OF this] assms show ?thesis by (cases ok) (auto simp: map_sg_def l)
qed

end
