(* ===== verification/DmaSample.thy ===== *)
theory DmaSample
  imports DmaLimits DmaPoolProps
begin

text \<open>
  Concrete pools, segments and searches; the witnesses of the properties of \<open>DmaLimits\<close> and \<open>DmaPoolProps\<close>; and runs
  in which the code does not do what its comments say.
\<close>

section \<open>A pool\<close>

definition sample_pool :: DmaPool where
  "sample_pool = \<lparr>dp_cpu_base = 0x40000000, dp_dev_base = 0x100000000, dp_len = 0x10000, dp_next = 0, dp_hoechststand = 0\<rparr>"

abbreviation buf :: "u64 \<Rightarrow> u64 \<Rightarrow> DmaBuf" where
  "buf off len \<equiv> \<lparr>db_cpu = 0x40000000 + off, db_dev = 0x100000000 + off, db_len = len\<rparr>"

lemma sample_pool_new: "DmaPool_new 0x40000000 0x100000000 0x10000 = Inr sample_pool"
  by (simp add: DmaPool_new_def checked_add_def sample_pool_def)

lemma pool_refused:
  "DmaPool_new 1 2 0 = Inl PeLeer" "DmaPool_new 1 0 5 = Inl PeKeineGeraetesicht" "DmaPool_new 7 7 5 = Inl PeIdentitaet"
  "DmaPool_new (- 4) 1 5 = Inl PeUeberlauf"
  by (simp_all add: DmaPool_new_def checked_add_def)

lemma sample_powers: "is_power_of_two64 8" "is_power_of_two64 4096" "is_power_of_two64 1"
  by (simp_all add: is_power_of_two64_def upt_rec)

definition sample_slots :: "BounceSlot list" where
  "sample_slots = [\<lparr>bs_buf = buf 0x1000 64, bs_marke = 100\<rparr>, \<lparr>bs_buf = buf 0 100, bs_marke = 0\<rparr>]"

lemma sample_reached: "reach dma_init dma_step (sample_pool\<lparr>dp_next := 0x1040, dp_hoechststand := 0x1040\<rparr>, sample_slots)"
proof -
  have "reach dma_init dma_step (sample_pool, [])"
    by (rule reach.intros(1)) (auto simp: dma_init_def intro!: exI sample_pool_new)
  moreover have "dma_step (sample_pool, []) (sample_pool\<lparr>dp_next := 100, dp_hoechststand := 100\<rparr>, [\<lparr>bs_buf = buf 0 100, bs_marke = 0\<rparr>])"
    by (rule dma_step.einlagern [where n = 100 and a = 8])
      (simp add: bounce_einlagern_def dp_alloc_def dp_mark_def sample_pool_def sample_powers checked_add_def)
  moreover have "dma_step (sample_pool\<lparr>dp_next := 100, dp_hoechststand := 100\<rparr>, [\<lparr>bs_buf = buf 0 100, bs_marke = 0\<rparr>])
      (sample_pool\<lparr>dp_next := 0x1040, dp_hoechststand := 0x1040\<rparr>, sample_slots)"
    unfolding sample_slots_def by (rule dma_step.einlagern [where n = 64 and a = 4096])
      (simp add: bounce_einlagern_def dp_alloc_def dp_mark_def sample_pool_def sample_powers checked_add_def)
  ultimately show ?thesis by (meson reach.intros)
qed

theorem dma_buffers_apart_witness: "unat (db_dev (buf 0 100)) + unat (db_len (buf 0 100)) \<le> unat (db_dev (buf 0x1000 64))"
  using dma_buffers_apart [OF sample_reached] by (auto simp: sample_slots_def Let_def dest!: spec [of _ 0] spec [of _ 1])

section \<open>Giving back in another order\<close>

text \<open>
  A defect: two bounce buffers given back in the wrong order make the pool hand out memory that is in use.
  After \<open>A\<close> and \<open>B\<close> were taken and \<open>A\<close> was given back, a larger \<open>C\<close> is taken, which already shares bytes with \<open>B\<close>,
  for the program and for the device; then \<open>B\<close> is given back, which is accepted because its mark is by now below
  the end of \<open>C\<close>, and the next buffer \<open>D\<close> shares bytes with \<open>C\<close>, still in use. \<open>release\<close> refuses marks from the
  future to prevent exactly this.
\<close>

theorem bounce_slots_overlap:
  "let (p1, A) = bounce_einlagern sample_pool 128 8; (p2, B) = bounce_einlagern p1 128 8;
       (p3, okA) = bounce_freigeben p2 (the A); (p4, C) = bounce_einlagern p3 256 8;
       (p5, okB) = bounce_freigeben p4 (the B); (p6, D) = bounce_einlagern p5 64 8
   in okA \<and> okB \<and> map_option bs_buf B = Some (buf 128 128) \<and> map_option bs_buf C = Some (buf 0 256) \<and>
     map_option bs_buf D = Some (buf 128 64)"
  by (simp add: bounce_einlagern_def bounce_freigeben_def dp_alloc_def dp_release_def dp_mark_def sample_pool_def sample_powers checked_add_def)

text \<open>The alignment is that of the distance from the base, so a base that is not aligned gives no aligned address.\<close>

lemma alloc_misaligned:
  "case DmaPool_new 0x40000010 0x100000010 0x10000 of
     Inr p \<Rightarrow> snd (dp_alloc p 64 4096) = Some \<lparr>db_cpu = 0x40000010, db_dev = 0x100000010, db_len = 64\<rparr> | Inl _ \<Rightarrow> False"
  by (simp add: DmaPool_new_def checked_add_def dp_alloc_def sample_powers)

section \<open>Segments\<close>

definition sample_limits :: GeraeteGrenzen where
  "sample_limits = \<lparr>gg_maske = 0xFFFFFFFFFF, gg_grenze = 0xFFFF0000, gg_max_seg = 0\<rparr>"

text \<open>A list with an entry outside the pool is refused, and the old entry behind the list stays.\<close>

lemma map_sg_stale:
  "map_sg sample_pool [\<lparr>sg_cpu = 0x40000000, sg_len = 16\<rparr>, \<lparr>sg_cpu = 5, sg_len = 16\<rparr>] [None, None, Some (buf 8 8)] sample_limits =
     ([None, None, Some (buf 8 8)], 0)"
  by (simp add: map_sg_def dp_map_def sample_pool_def checked_add_def pruefe_grenzen_def sample_limits_def)

lemma trailing_zeros_FFFF0000: "trailing_zeros 0xFFFF0000 = 16"
proof -
  have "[0..<64] = [0, 1, 2, 3, 4, 5, 6, 7, 8, 9, 10, 11, 12, 13, 14, 15, 16] @ [17..<64]"
    by (simp add: upt_conv_Cons)
  then show ?thesis by (simp add: trailing_zeros_def)
qed

theorem cut_is_longest_witness: "\<exists>n. teile_an_grenze 0x1FFF0 0x100 0xFFFF0000 = Some n \<and> keeps_bits 0x1FFF0 16 0xFFFF0000 \<and> unat n = 16"
proof -
  from cut_is_longest [of "0x100" "0x1FFF0" "0xFFFF0000"] obtain n where n: "teile_an_grenze 0x1FFF0 0x100 0xFFFF0000 = Some n"
      "n \<le> 0x100" "\<And>j. j \<le> 256 \<Longrightarrow> keeps_bits 0x1FFF0 j 0xFFFF0000 \<longleftrightarrow> j \<le> unat n"
    by auto
  have kb: "keeps_bits 0x1FFF0 j 0xFFFF0000 \<longleftrightarrow> j \<le> 16" if "j \<le> 256" for j
    using keeps_bits_exact [of "0xFFFF0000" "0x1FFF0" j] that by (simp add: trailing_zeros_FFFF0000 next_multiple_def)
  have "unat n \<le> 256" using n(2) by (simp add: word_le_nat_alt)
  then have "unat n = 16" using n(3) [of 16] n(3) [of "unat n"] kb [of 16] kb [of "unat n"] by auto
  then show ?thesis using n(1) kb [of 16] by auto
qed

text \<open>
  The check of a segment compares its first and last byte only. With the mask of a device whose segments may not
  cross 64 KiB, a segment of 4 GiB and one byte, which crosses 65536 such boundaries, is accepted, while
  \<open>teile_an_grenze\<close> cuts it after 64 KiB.
\<close>

theorem limits_miss_boundary:
  "pruefe_grenzen sample_limits 0 0x100000001 = Inr ()" "\<not> keeps_bits 0 0x100000001 (gg_grenze sample_limits)"
proof -
  show "pruefe_grenzen sample_limits 0 0x100000001 = Inr ()"
    by (simp add: pruefe_grenzen_def checked_add_def sample_limits_def)
  show "\<not> keeps_bits 0 0x100000001 (gg_grenze sample_limits)"
    using keeps_bits_exact [of "0xFFFF0000" 0 "0x100000001"] by (simp add: trailing_zeros_FFFF0000 next_multiple_def sample_limits_def)
qed

section \<open>Large requests\<close>

text \<open>An allocator that grants up to 20 KiB, with a counter of the questions.\<close>

definition sample_probe :: "nat \<Rightarrow> u64 \<Rightarrow> nat \<times> bool" where
  "sample_probe n len = (n + 1, len \<le> 0x5000)"

lemma sample_probe_snd: "snd (sample_probe s x) \<longleftrightarrow> x \<le> 0x5000"
  by (simp add: sample_probe_def)

lemma sample_search: "groesster_block_suche 0x9000 sample_probe 0 = Some (3, 0x5000)"
  by (simp add: groesster_block_suche_def checked_add_def SEITE_def suche_loop.simps sample_probe_def)


theorem full_list_never_named_witness:
  "klassifiziere \<lparr>zo_lo = 0x1000000, zo_hi = 0x1009000\<rparr> 0x6000 \<lparr>la_groesster_block = 0x5000, la_fragmente = 64, la_kapazitaet = 64\<rparr> =
     Inl (ZoneErschoepft 0x6000 0x5000)"
proof (rule full_list_never_named [of sample_probe "\<lambda>x. x \<le> 0x5000", OF sample_probe_snd])
  show "groesster_block_suche (Zone_groesse \<lparr>zo_lo = 0x1000000, zo_hi = 0x1009000\<rparr>) sample_probe 0 = Some (3, 0x5000)"
    using sample_search by (simp add: Zone_groesse_def saturating_sub64_def)
  show "klassifiziere \<lparr>zo_lo = 0x1000000, zo_hi = 0x1009000\<rparr> 0x6000 \<lparr>la_groesster_block = - 1, la_fragmente = 0, la_kapazitaet = 64\<rparr> = Inr ()"
    by (simp add: klassifiziere_def SEITE_def checked_add_def Zone_groesse_def saturating_sub64_def)
qed auto

end
