(* ===== verification/Spec2Isabelle.thy ===== *)
theory Spec2Isabelle
  imports PhysAlloc_Props CapFinal IpcSample SchedSample KernelSample PdSample PdCallSample PdSpawnSample WaitSample CheckpointSample DmaSample
begin

text \<open>
  Caprock is a capability microkernel in Rust (\<open>src/crates\<close>, \<open>src/kernel\<close>). This development models the parts
  that decide who may do what: physical memory, capabilities and their derivation tree, IPC, the schedulers of
  all cores, protection domains with their capability slots, redirected system calls, and spawning threads on
  stacks the caller brings; the library with which the threads of a domain wait for each other; and checkpoints
  of a thread that may travel to another machine; and the DMA pool of a driver.

  \<^bold>\<open>Parts and how they interact.\<close> Protection domains hold handles of capabilities; a capability refers to a
  kernel object through the capability space; the last deletion of a memory object gives its region back to
  the allocator. Endpoints and notifications suspend and wake threads through the interface \<open>SchedOps\<close>, which
  the kernel implements on the schedulers of the cores; a directory of generations makes thread handles safe.
  A system call of a domain with a handler is copied into a window of the handler (a side-car) and the
  handler's registers are taken back.

  \<^bold>\<open>Conventions.\<close> A Rust panic is \<open>None\<close> of the option monad, \<open>Result\<close> a sum with the error on the left, a
  machine integer a word of its width, a table a list with a bounds checked access (\<open>tget\<close>, \<open>tupd\<close>), an
  operation through \<open>&mut self\<close> a function that returns the new state. A definition has the name of the
  source, with a prefix or suffix where the name is taken. An operation that holds its lock is one step.

  \<^bold>\<open>Theories.\<close>
  \<^item> \<open>Prelude\<close>: words, checked arithmetic, tables, doubly linked chains \<open>dl\<close>, and the locale \<open>step_system\<close> that
    lifts a one-step invariant to the states \<open>reach\<close> reaches. \<open>Slab\<close> (\<open>caprock-slab/src/lib.rs\<close>): the free
    list over indices, as an instance of the locale \<open>index_pool\<close>.
  \<^item> Memory: \<open>Region\<close> (\<open>caprock-mem/src/region.rs\<close>, \<open>cap.rs\<close>), \<open>Color\<close> (\<open>color.rs\<close>), \<open>PhysAlloc\<close> and
    \<open>PhysAlloc_Props\<close> (\<open>alloc.rs\<close>). Shown: held memory is pairwise disjoint along every history, placement and
    completeness of the search, release as the inverse of allocation, disjoint colours of different stripes.
  \<^item> Capabilities: \<open>CapObject\<close> (\<open>caprock-cap/src/object.rs\<close>), \<open>CapSpace\<close> (\<open>space.rs\<close>), its forest
    (\<open>CapTree\<close>), invariant (\<open>CapSpace_Inv\<close>), deletion and revocation (\<open>CapRevoke\<close>), the system with the
    allocator (\<open>CapSystem\<close>), properties (\<open>CapProps\<close>, \<open>CapAudit\<close>, \<open>CapFinal\<close>) and a run (\<open>CapSample\<close>). Shown:
    derived capabilities never gain authority, no use after free, revocation hits exactly the descendants,
    no operation panics, the audit is clean, the collector of finalized objects reports what dies.
  \<^item> IPC: \<open>SchedIf\<close> (handles, registers, \<open>SchedOps\<close>), \<open>TidQueue\<close> and \<open>Ipc\<close> (\<open>caprock-ipc/src/lib.rs\<close>),
    \<open>IpcProps\<close>, \<open>IpcSample\<close>. Shown: the ring refines a bounded FIFO (locale \<open>bounded_fifo\<close>), nobody is
    suspended without being recorded, what a call does on every branch, signals are conserved, and that a
    second rendezvous overwrites the reply token.
  \<^item> Scheduler (\<open>caprock-sched/src/lib.rs\<close>, \<open>cycles.rs\<close>, \<open>fristen.rs\<close>, \<open>nohz.rs\<close>): \<open>SchedDecide\<close>, \<open>Sched\<close> and
    \<open>SchedRun\<close> hold the definitions; \<open>SchedQueue\<close>, \<open>SchedInv\<close>, \<open>SchedKeep\<close>, \<open>SchedWake\<close>, \<open>SchedTick\<close>,
    \<open>SchedOutside\<close>, \<open>SchedLife\<close>, \<open>SchedSpawn\<close> show the invariant operation by operation; \<open>SchedAudit\<close>,
    \<open>SchedCores\<close>, \<open>SchedProps\<close>, \<open>SchedIpc\<close> and \<open>SchedSample\<close> the results for all cores. Shown: ready lists
    refine plain lists, handles are exact and die with their thread, migration loses nobody, due deadlines
    are served, the tick runs a thread of highest priority, the audit never reports a structural fault.
  \<^item> Composition: \<open>IpcContract\<close> states what endpoints need of a scheduler (locale \<open>ipc_sched\<close>); \<open>KernelSched\<close>
    (\<open>kernel/src/system.rs\<close>) interprets it on the schedulers of all cores; \<open>KernelSample\<close> is a run. Shown:
    whoever an endpoint has on record waits in the scheduler, and messages reach waiting threads only.
  \<^item> Domains (\<open>caprock-microkit/src\<close>): \<open>CspacePool\<close> (\<open>cspace.rs\<close>; locale \<open>anker_store\<close>), \<open>PdTable\<close>, \<open>PdInv\<close>,
    \<open>PdSys\<close>, \<open>PdProps\<close>, \<open>PdOwner\<close> (\<open>lib.rs\<close>, \<open>PdTable\<close>). Shown: domains share no slot as long as none was
    freed, freeing breaks this, threads and domains match.
  \<^item> Handlers: \<open>Redirect\<close> (\<open>caprock-sched/src/redirect.rs\<close>), \<open>PdHandler\<close> (\<open>SYS_SETHANDLER\<close>), \<open>Sidecar\<close>
    (\<open>kernel/src/sidecarkopie.rs\<close>), \<open>PdSample\<close>. Shown: chains of handlers are acyclic and end, binding is exact,
    a handler changes nothing but the general registers, and side-car slots are isolated.
  \<^item> Capabilities in domains: \<open>PdCaps\<close> (\<open>Caps\<close> and the system calls on slots), \<open>PdPolicy\<close>, \<open>PdCalls\<close>,
    \<open>PdCallSample\<close>. Shown: no domain ever holds a kind of capability its class forbids nor more than its
    budget, a copy gives exactly what it should, a refused call changes nothing.
  \<^item> Spawning: \<open>PdSpawn\<close> (\<open>caprock-cap/src/spawncheck.rs\<close>, \<open>dispatch_spawn\<close> and its questions in
    \<open>kernel/src/system.rs\<close>), \<open>PdSpawnSample\<close>. Shown: an accepted stack lies inside a writable capability of the
    caller, clear of DMA regions, of the stacks of living siblings, and cannot be deleted while in use.
  \<^item> Waiting in user space (\<open>caprock-wait/src\<close>): \<open>Wait\<close> holds the objects, \<open>WaitLists\<close> queues, timers and work
    queues as lists, \<open>WaitSync\<close> threads that interleave on a completion or a mutex, \<open>WaitTime\<close> the waits with a
    deadline, \<open>WaitSample\<close> runs. Shown: no completion is slept through, a mutex excludes and hands over as long
    as only it wakes threads, and loses a wake-up otherwise; flushing runs every job; a sleep takes its time.
  \<^item> Checkpoints (\<open>caprock-cap/src/checkpoint.rs\<close>): \<open>Checkpoint\<close> holds the classification of capabilities, IPC
    relations and thread state, the checkpoint and its bytes; \<open>CheckpointBytes\<close> fields of fixed width (locale
    \<open>byte_field\<close>, interpreted for 32 and 64 bit) and the checksum; \<open>CheckpointProps\<close> the results and
    \<open>CheckpointSample\<close> runs. Shown: what is built, that reading undoes writing and accepts no other kernel, that
    no bytes make the reader panic, and that one damaged byte is refused.
  \<^item> DMA memory of drivers (\<open>caprock-dma/src/lib.rs\<close>, \<open>gross.rs\<close>): \<open>Dma\<close> holds the pool, the limits of a device and
    the classification of large requests; \<open>DmaPoolProps\<close> and \<open>DmaLimits\<close> the results, \<open>DmaSample\<close> runs. Shown:
    buffers given back in reverse order stay apart on both axes and inside the window, in another order they
    overlap; segments are cut where they must be; the search finds the largest block, and a full free list is never
    named as the reason of a refusal.

  \<^bold>\<open>Bounds and fuel.\<close> Walks of the derivation tree carry the step limit of the source, the length of the
  slot table; the theorems show that it is never reached. An endpoint queue has 32 places; the loops that skip dead
  or rotate entries have the fill level as fuel. The walk over ready lists of the audit has the number of
  threads plus one, and the walk along handler edges the size of the table, as in the source. Migration tries
  4 times. The walk along the chain of freed runs of slots may not end in a broken table; it is a partial
  function and shown to return in every reachable state. The loops around a park are partial functions over
  what the other threads, the clock and the kernel do; the theorems say exactly when they return. The search for
  the largest DMA block is a partial function over the answers of the allocator and shown to return.

  \<^bold>\<open>Hypotheses of the transition systems.\<close> Schedulers: priorities below 8, admission only of threads that are
  neither blocked nor running, deadlines only for IPC and parking, at most 256 cores, tables up to \<open>2 ^ 16\<close>
  threads, a directory below \<open>2 ^ 32\<close>. Domains: fewer than \<open>2 ^ 16 - 1\<close> entries, epochs do not wrap, threads
  are bound to living domains. Policy: generations of slots do not wrap and no domain is freed, since freeing
  breaks the separation (\<open>cspace_given_twice\<close>). Spawning: a new thread gets a slot where no thread lives, a
  living thread is not moved to another domain, and the call is one step: two simultaneous calls of one domain
  can both pass the overlap question, as the source says. Endpoints and schedulers together: no
  thread is created or ends between IPC operations, and the owner of a thread does not change while
  \<open>with_owner\<close> looks it up.

  \<^bold>\<open>Not modelled.\<close> The dispatcher apart from the calls named above, address spaces and page tables,
  the boot sequence, the hardware layer, drivers, and locks: global state behind locks and hardware accesses,
  whose meaning is that of the machine. The image loader, manifests, certificates, partition
  tables and file systems: parsers outside the kernel's authority, some over third-party signature packages. The
  other libraries for user programs (heaps, drivers): they use only the system call interface. How
  the kernel collects the capabilities and relations a checkpoint is built from. The self tests and probes of the kernel image.
\<close>

section \<open>Properties that span components\<close>



end
